(* ===== verification/ReqQueue.thy ===== *)
theory ReqQueue
  imports Prelude
begin

text \<open>
  The request queue of the web server (\<open>P4/web_server/server.c\<close>): a binary min-heap kept
  in the array \<open>connPool\<close> from index 1, index 0 holding a dummy.  The theory proves that
  \<open>enqueue\<close> and \<open>dequeue\<close> keep the heap order, that they add and remove exactly
  one request, and that what \<open>dequeue\<close> returns has the least priority.
\<close>

section \<open>The queue and its operations\<close>

record data =
  priority :: int
  connfd :: int
  buff :: string

record queue =
  qsize :: nat
  bufSz :: nat
  connPool :: "data list"

text \<open>
  \<open>malloc\<close> returns storage with arbitrary contents: it is the argument \<open>mem\<close>, a list of
  \<open>buffers + 1\<close> cells.
\<close>

definition initQueue :: "data list \<Rightarrow> nat \<Rightarrow> queue" where
  "initQueue mem buffers =
     \<lparr>qsize = 1, bufSz = buffers + 1,
      connPool = mem[0 := \<lparr>priority = -1, connfd = -1, buff = buff (mem ! 0)\<rparr>]\<rparr>"

definition isEmpty :: "queue \<Rightarrow> bool" where
  "isEmpty q \<longleftrightarrow> qsize q = 1"

definition isFull :: "queue \<Rightarrow> bool" where
  "isFull q \<longleftrightarrow> bufSz q = qsize q"

fun sift_up :: "data list \<Rightarrow> nat \<Rightarrow> data list" where
  "sift_up pool index =
     (if index div 2 \<noteq> 0 then
        if priority (pool ! index) < priority (pool ! (index div 2))
        then sift_up (swap pool index (index div 2)) (index div 2)
        else pool
      else pool)"

declare sift_up.simps [simp del]

text \<open>The write at \<open>connPool[q->size]\<close> is outside the array when the queue is full.\<close>

definition enqueue :: "queue \<Rightarrow> data \<Rightarrow> queue option" where
  "enqueue q d =
     do {
       pool \<leftarrow> arr_set (connPool q) (qsize q) d;
       Some (q\<lparr>qsize := qsize q + 1, connPool := sift_up pool (qsize q)\<rparr>)
     }"

function sift_down :: "data list \<Rightarrow> nat \<Rightarrow> nat \<Rightarrow> data list" where
  "sift_down pool n index =
     (if 0 < index \<and> index * 2 < n then
        if index * 2 + 1 < n \<and>
           (priority (pool ! index) > priority (pool ! (2 * index)) \<or>
            priority (pool ! index) > priority (pool ! (2 * index + 1)))
        then
          let minIndex = (if priority (pool ! (index * 2)) \<le> priority (pool ! (index * 2 + 1))
                          then index * 2 else index * 2 + 1)
          in sift_down (swap pool index minIndex) n minIndex
        else if index * 2 + 1 \<ge> n \<and> priority (pool ! index) > priority (pool ! (2 * index))
        then sift_down (swap pool index (2 * index)) n (index * 2)
        else pool
      else pool)"
  by pat_completeness auto
termination
  by (relation "measure (\<lambda>(pool, n, index). n - index)") auto

declare sift_down.simps [simp del]

text \<open>
  The loop starts at index 1, so the test \<open>0 < index\<close> of \<open>sift_down\<close> always holds: it is
  there to make the function total.
\<close>

definition dequeue :: "queue \<Rightarrow> (data \<times> queue) option" where
  "dequeue q =
     do {
       ret \<leftarrow> arr_get (connPool q) 1;
       lst \<leftarrow> arr_get (connPool q) (qsize q - 1);
       Some (ret, q\<lparr>qsize := qsize q - 1,
                    connPool := sift_down ((connPool q)[1 := lst]) (qsize q - 1) 1\<rparr>)
     }"

section \<open>Heap order\<close>

definition heap_ordered :: "data list \<Rightarrow> nat \<Rightarrow> bool" where
  "heap_ordered pool n \<longleftrightarrow>
     (\<forall>k. 1 < k \<and> k < n \<longrightarrow> priority (pool ! (k div 2)) \<le> priority (pool ! k))"

definition queue_ok :: "queue \<Rightarrow> bool" where
  "queue_ok q \<longleftrightarrow> 1 \<le> qsize q \<and> qsize q \<le> bufSz q \<and> bufSz q = length (connPool q) \<and>
     heap_ordered (connPool q) (qsize q)"

definition entries :: "queue \<Rightarrow> data list" where
  "entries q = drop 1 (take (qsize q) (connPool q))"

text \<open>Heap order with one cell out of place, on the way up and on the way down.\<close>

definition up_inv :: "data list \<Rightarrow> nat \<Rightarrow> nat \<Rightarrow> bool" where
  "up_inv pool n i \<longleftrightarrow>
     (\<forall>k. 1 < k \<and> k < n \<and> k \<noteq> i \<longrightarrow> priority (pool ! (k div 2)) \<le> priority (pool ! k)) \<and>
     (\<forall>k. 1 < k \<and> k < n \<and> k div 2 = i \<and> 1 < i \<longrightarrow>
        priority (pool ! (i div 2)) \<le> priority (pool ! k))"

definition down_inv :: "data list \<Rightarrow> nat \<Rightarrow> nat \<Rightarrow> bool" where
  "down_inv pool n i \<longleftrightarrow>
     (\<forall>k. 1 < k \<and> k < n \<and> k div 2 \<noteq> i \<longrightarrow> priority (pool ! (k div 2)) \<le> priority (pool ! k)) \<and>
     (\<forall>k. 1 < k \<and> k < n \<and> k div 2 = i \<and> 1 < i \<longrightarrow>
        priority (pool ! (i div 2)) \<le> priority (pool ! k))"

lemma half_lt: "0 < k \<Longrightarrow> k div 2 < (k::nat)"
  by simp

lemma half_cases: "k div 2 = (i::nat) \<longleftrightarrow> k = 2 * i \<or> k = 2 * i + 1"
  by auto

lemma sift_up_length [simp]: "length (sift_up pool i) = length pool"
  by (induction pool i rule: sift_up.induct) (subst sift_up.simps, simp)

lemma sift_down_length [simp]: "length (sift_down pool n i) = length pool"
  by (induction pool n i rule: sift_down.induct) (subst sift_down.simps, simp add: Let_def)

lemma up_inv_swap:
  assumes inv: "up_inv pool n i" and i: "i < n" "n \<le> length pool" "1 < i"
    and less: "priority (pool ! i) < priority (pool ! (i div 2))"
  shows "up_inv (swap pool i (i div 2)) n (i div 2)"
proof -
  let ?p = "swap pool i (i div 2)"
  have nth: "?p ! k = (if k = i div 2 then pool ! i else if k = i then pool ! (i div 2) else pool ! k)"
    for k using i by (simp add: nth_swap)
  have h2: "i div 2 < i" using i by simp
  have ord: "priority (pool ! (k div 2)) \<le> priority (pool ! k)"
    if "1 < k" "k < n" "k \<noteq> i" for k
    using inv that by (auto simp: up_inv_def)
  have grand: "priority (pool ! (i div 2)) \<le> priority (pool ! k)"
    if "1 < k" "k < n" "k div 2 = i" for k
    using inv that i by (auto simp: up_inv_def)
  have "priority (?p ! (k div 2)) \<le> priority (?p ! k)"
    if k: "1 < k" "k < n" "k \<noteq> i div 2" for k
  proof -
    consider "k = i" | "k \<noteq> i" "k div 2 = i" | "k \<noteq> i" "k div 2 = i div 2"
      | "k \<noteq> i" "k div 2 \<noteq> i" "k div 2 \<noteq> i div 2" by blast
    then show ?thesis
    proof cases
      case 1
      then show ?thesis using less h2 by (simp add: nth)
    next
      case 2
      then show ?thesis using k grand h2 i by (auto simp: nth)
    next
      case 3
      then show ?thesis using k ord[of k] less h2 by (simp add: nth)
    next
      case 4
      then show ?thesis using k ord by (simp add: nth)
    qed
  qed
  moreover have "priority (?p ! (i div 2 div 2)) \<le> priority (?p ! k)"
    if k: "1 < k" "k < n" "k div 2 = i div 2" "1 < i div 2" for k
  proof -
    have "i div 2 div 2 < i div 2" using k by simp
    moreover have top: "priority (pool ! (i div 2 div 2)) \<le> priority (pool ! (i div 2))"
      using k i h2 by (intro ord) auto
    moreover have "k \<noteq> i div 2" using k by auto
    ultimately show ?thesis
      using k ord[of k] h2 by (cases "k = i") (auto simp: nth)
  qed
  ultimately show ?thesis by (auto simp: up_inv_def)
qed

lemma sift_up_correct:
  assumes "up_inv pool n i" "i < n" "n \<le> length pool" "0 < i"
  shows "heap_ordered (sift_up pool i) n \<and> mset (take n (sift_up pool i)) = mset (take n pool)
         \<and> sift_up pool i ! 0 = pool ! 0"
  using assms
proof (induction pool i rule: sift_up.induct)
  case (1 pool i)
  show ?case
  proof (cases "i div 2 \<noteq> 0 \<and> priority (pool ! i) < priority (pool ! (i div 2))")
    case True
    let ?p = "swap pool i (i div 2)"
    from True 1 have i: "1 < i" by auto
    have eq: "sift_up pool i = sift_up ?p (i div 2)"
      using True by (subst sift_up.simps) simp
    have inv: "up_inv ?p n (i div 2)"
      using up_inv_swap[OF 1(2-4) i] True by simp
    have "heap_ordered (sift_up ?p (i div 2)) n \<and>
        mset (take n (sift_up ?p (i div 2))) = mset (take n ?p) \<and> sift_up ?p (i div 2) ! 0 = ?p ! 0"
      using True inv 1(3-5) by (intro 1(1)) auto
    moreover have "mset (take n ?p) = mset (take n pool)"
      using 1(3,4) by (intro mset_take_swap) auto
    moreover have "?p ! 0 = pool ! 0" using True 1(3-5) by (auto simp: nth_swap)
    ultimately show ?thesis by (simp add: eq)
  next
    case False
    have eq: "sift_up pool i = pool"
      using False by (subst sift_up.simps) auto
    have "heap_ordered pool n"
      unfolding heap_ordered_def
    proof (intro allI impI)
      fix k assume k: "1 < k \<and> k < n"
      show "priority (pool ! (k div 2)) \<le> priority (pool ! k)"
      proof (cases "k = i")
        case True
        with False k show ?thesis by auto
      next
        case neq: False
        with 1(2) k show ?thesis by (auto simp: up_inv_def)
      qed
    qed
    then show ?thesis by (simp add: eq)
  qed
qed


lemma down_inv_swap:
  assumes inv: "down_inv pool n i" and i: "0 < i" "n \<le> length pool"
    and c: "c < n" "c div 2 = i" "priority (pool ! c) < priority (pool ! i)"
    and least: "\<And>k. k < n \<Longrightarrow> k div 2 = i \<Longrightarrow> priority (pool ! c) \<le> priority (pool ! k)"
  shows "down_inv (swap pool i c) n c"
proof -
  let ?p = "swap pool i c"
  have ic: "i < c" using c i by auto
  have nth: "?p ! k = (if k = c then pool ! i else if k = i then pool ! c else pool ! k)"
    for k using i c ic by (simp add: nth_swap)
  have ord: "priority (pool ! (k div 2)) \<le> priority (pool ! k)"
    if "1 < k" "k < n" "k div 2 \<noteq> i" for k
    using inv that by (auto simp: down_inv_def)
  have grand: "priority (pool ! (i div 2)) \<le> priority (pool ! k)"
    if "1 < k" "k < n" "k div 2 = i" "1 < i" for k
    using inv that by (auto simp: down_inv_def)
  have A: "priority (?p ! (k div 2)) \<le> priority (?p ! k)"
    if k: "1 < k" "k < n" "k div 2 \<noteq> c" for k
  proof -
    consider "k = c" | "k = i" | "k \<noteq> c" "k \<noteq> i" "k div 2 = i" | "k \<noteq> c" "k \<noteq> i" "k div 2 \<noteq> i"
      by blast
    then show ?thesis
    proof cases
      case 1
      then show ?thesis using c ic by (auto simp: nth)
    next
      case 2
      have "i div 2 \<noteq> i" "i div 2 \<noteq> c" using k 2 ic by auto
      moreover have "priority (pool ! (i div 2)) \<le> priority (pool ! c)"
        using 2 k c ic by (intro grand) auto
      ultimately show ?thesis using 2 ic by (auto simp: nth)
    next
      case 3
      then show ?thesis using k least ic by (auto simp: nth)
    next
      case 4
      then show ?thesis using k ord by (simp add: nth)
    qed
  qed
  have B: "priority (?p ! (c div 2)) \<le> priority (?p ! k)"
    if k: "1 < k" "k < n" "k div 2 = c" for k
  proof -
    have "k \<noteq> c" "k \<noteq> i" using k ic i by auto
    moreover have "priority (pool ! c) \<le> priority (pool ! k)"
      using ord[of k] k ic by auto
    ultimately show ?thesis using c ic by (auto simp: nth)
  qed
  from A B show ?thesis by (auto simp: down_inv_def)
qed

text \<open>One turn of the loop in \<open>dequeue\<close>: either it swaps with the smaller child, or it stops.\<close>

lemma sift_down_step:
  assumes "0 < i"
  obtains c where "sift_down pool n i = sift_down (swap pool i c) n c" "c < n" "c div 2 = i"
      "priority (pool ! c) < priority (pool ! i)"
      "\<And>k. k < n \<Longrightarrow> k div 2 = i \<Longrightarrow> priority (pool ! c) \<le> priority (pool ! k)"
  | "sift_down pool n i = pool"
      "\<And>k. k < n \<Longrightarrow> k div 2 = i \<Longrightarrow> priority (pool ! i) \<le> priority (pool ! k)"
proof -
  let ?p = "\<lambda>j. priority (pool ! j)"
  consider (two) "i * 2 + 1 < n" "?p i > ?p (2 * i) \<or> ?p i > ?p (2 * i + 1)"
    | (one) "\<not> i * 2 + 1 < n" "i * 2 < n" "?p i > ?p (2 * i)"
    | (stop) "i * 2 < n \<longrightarrow> (i * 2 + 1 < n \<longrightarrow> ?p i \<le> ?p (2 * i) \<and> ?p i \<le> ?p (2 * i + 1)) \<and>
        (\<not> i * 2 + 1 < n \<longrightarrow> ?p i \<le> ?p (2 * i))"
    by (metis linorder_not_less)
  then show thesis
  proof cases
    case two
    let ?c = "if ?p (i * 2) \<le> ?p (i * 2 + 1) then i * 2 else i * 2 + 1"
    have eq: "sift_down pool n i = sift_down (swap pool i ?c) n ?c"
      using two assms by (subst sift_down.simps) (auto simp: Let_def mult.commute)
    show thesis
      by (rule that(1)[OF eq]) (use two in \<open>auto simp: half_cases mult.commute split: if_splits\<close>)
  next
    case one
    have eq: "sift_down pool n i = sift_down (swap pool i (i * 2)) n (i * 2)"
      using one assms by (subst sift_down.simps) (auto simp: mult.commute)
    show thesis
      by (rule that(1)[OF eq]) (use one in \<open>auto simp: half_cases mult.commute\<close>)
  next
    case stop
    have eq: "sift_down pool n i = pool"
      using stop by (subst sift_down.simps) (auto simp: mult.commute)
    show thesis
      by (rule that(2)[OF eq]) (use stop in \<open>auto simp: half_cases mult.commute\<close>)
  qed
qed

lemma sift_down_correct:
  assumes "down_inv pool n i" "0 < i" "n \<le> length pool"
  shows "heap_ordered (sift_down pool n i) n \<and>
         mset (take n (sift_down pool n i)) = mset (take n pool) \<and>
         sift_down pool n i ! 0 = pool ! 0"
  using assms
proof (induction "n - i" arbitrary: pool i rule: less_induct)
  case less
  from \<open>0 < i\<close> show ?case
  proof (cases rule: sift_down_step[of i pool n])
    case (1 c)
    have ic: "i < c" using 1 less.prems by auto
    have "down_inv (swap pool i c) n c"
      using less.prems 1 by (intro down_inv_swap) auto
    then have "heap_ordered (sift_down (swap pool i c) n c) n \<and>
        mset (take n (sift_down (swap pool i c) n c)) = mset (take n (swap pool i c)) \<and>
        sift_down (swap pool i c) n c ! 0 = swap pool i c ! 0"
      using less.prems ic 1 by (intro less.hyps) auto
    moreover have "mset (take n (swap pool i c)) = mset (take n pool)"
      using less.prems 1 ic by (intro mset_take_swap) auto
    moreover have "swap pool i c ! 0 = pool ! 0"
      using less.prems 1 ic by (simp add: nth_swap)
    ultimately show ?thesis by (simp add: 1(1))
  next
    case 2
    have "heap_ordered pool n"
      unfolding heap_ordered_def
      using less.prems(1) 2(2) by (metis down_inv_def)
    then show ?thesis by (simp add: 2(1))
  qed
qed


section \<open>The operations on well-formed queues\<close>

lemma entries_mset: "queue_ok q \<Longrightarrow> mset (take (qsize q) (connPool q)) = add_mset (connPool q ! 0) (mset (entries q))"
  unfolding queue_ok_def entries_def by (cases "connPool q"; cases "qsize q") auto

lemma initQueue_ok: "length mem = buffers + 1 \<Longrightarrow> queue_ok (initQueue mem buffers) \<and> entries (initQueue mem buffers) = []"
  by (auto simp: initQueue_def queue_ok_def heap_ordered_def entries_def)

lemma isEmpty_entries: "queue_ok q \<Longrightarrow> isEmpty q \<longleftrightarrow> entries q = []"
  by (auto simp: isEmpty_def entries_def queue_ok_def)

lemma qsize_entries: "queue_ok q \<Longrightarrow> qsize q = length (entries q) + 1"
  by (auto simp: entries_def queue_ok_def)

lemma root_least:
  assumes "heap_ordered pool n" "0 < k" "k < n"
  shows "priority (pool ! 1) \<le> priority (pool ! k)"
  using assms(2,3)
proof (induction k rule: less_induct)
  case (less k)
  show ?case
  proof (cases "k = 1")
    case False
    with less.prems have k: "1 < k" by simp
    with less.prems have "priority (pool ! 1) \<le> priority (pool ! (k div 2))"
      by (intro less.IH) auto
    also have "\<dots> \<le> priority (pool ! k)"
      using assms(1) k less.prems by (simp add: heap_ordered_def)
    finally show ?thesis .
  qed simp
qed

lemma enqueue_ok:
  assumes q: "queue_ok q" and room: "\<not> isFull q"
  shows "\<exists>q'. enqueue q d = Some q' \<and> queue_ok q' \<and> bufSz q' = bufSz q \<and>
           mset (entries q') = add_mset d (mset (entries q))"
proof -
  let ?n = "qsize q"
  let ?pool = "(connPool q)[?n := d]"
  have n: "1 \<le> ?n" "?n < length (connPool q)"
    using q room by (auto simp: queue_ok_def isFull_def)
  have "up_inv ?pool (?n + 1) ?n"
    using q n unfolding up_inv_def queue_ok_def heap_ordered_def by (auto simp: nth_list_update)
  then have up: "heap_ordered (sift_up ?pool ?n) (?n + 1)"
      "mset (take (?n + 1) (sift_up ?pool ?n)) = mset (take (?n + 1) ?pool)"
      "sift_up ?pool ?n ! 0 = ?pool ! 0"
    using sift_up_correct[of ?pool "?n + 1" ?n] n by auto
  let ?q = "q\<lparr>qsize := ?n + 1, connPool := sift_up ?pool ?n\<rparr>"
  have ok: "queue_ok ?q"
    using q n up(1) by (auto simp: queue_ok_def)
  have "take (?n + 1) ?pool = take ?n (connPool q) @ [d]"
    using n by (simp add: take_Suc_conv_app_nth)
  then have "add_mset (?pool ! 0) (mset (entries ?q)) = add_mset d (mset (take ?n (connPool q)))"
    using entries_mset[OF ok] up by simp
  moreover have "?pool ! 0 = connPool q ! 0" using n by simp
  ultimately have "mset (entries ?q) = add_mset d (mset (entries q))"
    using entries_mset[OF q] by (simp add: add_mset_commute)
  moreover have "enqueue q d = Some ?q"
    using n by (simp add: enqueue_def)
  ultimately show ?thesis using ok by auto
qed

lemma enqueue_full: "queue_ok q \<Longrightarrow> isFull q \<Longrightarrow> enqueue q d = None"
  by (simp add: enqueue_def arr_set_def queue_ok_def isFull_def)

lemma dequeue_ok:
  assumes q: "queue_ok q" and some: "\<not> isEmpty q"
  shows "\<exists>d q'. dequeue q = Some (d, q') \<and> queue_ok q' \<and> bufSz q' = bufSz q \<and>
           mset (entries q) = add_mset d (mset (entries q')) \<and>
           (\<forall>e\<in>set (entries q). priority d \<le> priority e)"
proof -
  let ?n = "qsize q - 1"
  let ?d = "connPool q ! 1"
  let ?pool = "(connPool q)[1 := connPool q ! ?n]"
  let ?q = "q\<lparr>qsize := ?n, connPool := sift_down ?pool ?n 1\<rparr>"
  have n: "1 \<le> ?n" "qsize q = ?n + 1" "?n < length (connPool q)" "1 < length (connPool q)"
    using q some by (auto simp: queue_ok_def isEmpty_def)
  have "down_inv ?pool ?n 1"
    using q n unfolding down_inv_def queue_ok_def heap_ordered_def
    by (auto simp: nth_list_update)
  then have dn: "heap_ordered (sift_down ?pool ?n 1) ?n"
      "mset (take ?n (sift_down ?pool ?n 1)) = mset (take ?n ?pool)"
      "sift_down ?pool ?n 1 ! 0 = ?pool ! 0"
    using sift_down_correct[of ?pool ?n 1] n by auto
  have ok: "queue_ok ?q"
    using q n dn(1) by (auto simp: queue_ok_def)
  have "take (qsize q) (connPool q) = take ?n (connPool q) @ [connPool q ! ?n]"
    using n by (metis Suc_eq_plus1 take_Suc_conv_app_nth)
  moreover have "mset (take ?n (connPool q) @ [connPool q ! ?n]) = add_mset ?d (mset (take ?n ?pool))"
  proof (cases "?n = 1")
    case True
    then show ?thesis by simp
  next
    case False
    with n have l1: "1 < length (take ?n (connPool q))" by simp
    then have "take ?n (connPool q) ! 1 \<in> set (take ?n (connPool q))" by (rule nth_mem)
    with l1 have "?d \<in># mset (take ?n (connPool q))" by simp
    with l1 have "add_mset (take ?n (connPool q) ! 1) (mset ((take ?n (connPool q))[1 := connPool q ! ?n]))
        = add_mset (connPool q ! ?n) (mset (take ?n (connPool q)))"
      by (subst mset_update) auto
    then show ?thesis using False n by (simp add: take_update_swap)
  qed
  ultimately have "mset (take (qsize q) (connPool q)) = add_mset ?d (mset (take ?n ?pool))"
    by simp
  then have "add_mset (connPool q ! 0) (mset (entries q)) =
      add_mset ?d (add_mset (connPool q ! 0) (mset (entries ?q)))"
    using entries_mset[OF q] entries_mset[OF ok] dn(2,3) n by simp
  then have "mset (entries q) = add_mset ?d (mset (entries ?q))"
    by (simp add: add_mset_commute)
  moreover have "\<forall>e\<in>set (entries q). priority ?d \<le> priority e"
    using q root_least[of "connPool q" "qsize q"]
    by (auto simp: entries_def queue_ok_def in_set_conv_nth)
  moreover have "dequeue q = Some (?d, ?q)"
    using n by (simp add: dequeue_def)
  ultimately show ?thesis using ok by auto
qed


section \<open>The contract the server relies on\<close>

text \<open>
  \<open>serve\<close> takes requests out until the queue is empty, \<open>accept_all\<close> puts a list of requests
  in; both are parametric in the queue operations.
\<close>

fun accept_all :: "('q \<Rightarrow> 'a \<Rightarrow> 'q option) \<Rightarrow> 'q \<Rightarrow> 'a list \<Rightarrow> 'q option" where
  "accept_all ins q [] = Some q"
| "accept_all ins q (x # xs) = do { q' \<leftarrow> ins q x; accept_all ins q' xs }"

fun serve :: "('q \<Rightarrow> ('a \<times> 'q) option) \<Rightarrow> nat \<Rightarrow> 'q \<Rightarrow> 'a list option" where
  "serve del 0 q = Some []"
| "serve del (Suc n) q = do { (x, q') \<leftarrow> del q; xs \<leftarrow> serve del n q'; Some (x # xs) }"

locale bounded_priority_queue =
  fixes ins :: "'q \<Rightarrow> 'a \<Rightarrow> 'q option"
    and del :: "'q \<Rightarrow> ('a \<times> 'q) option"
    and ok :: "'q \<Rightarrow> bool"
    and elems :: "'q \<Rightarrow> 'a multiset"
    and room :: "'q \<Rightarrow> nat"
    and key :: "'a \<Rightarrow> int"
  assumes ins_law: "ok q \<Longrightarrow> 0 < room q \<Longrightarrow>
      \<exists>q'. ins q x = Some q' \<and> ok q' \<and> elems q' = add_mset x (elems q) \<and> room q = Suc (room q')"
    and del_law: "ok q \<Longrightarrow> elems q \<noteq> {#} \<Longrightarrow>
      \<exists>x q'. del q = Some (x, q') \<and> ok q' \<and> elems q = add_mset x (elems q') \<and>
        (\<forall>y\<in>#elems q. key x \<le> key y)"
begin

lemma serve_sorted:
  assumes "ok q"
  shows "\<exists>xs. serve del (size (elems q)) q = Some xs \<and> mset xs = elems q \<and> sorted (map key xs)"
  using assms
proof (induction "size (elems q)" arbitrary: q)
  case 0
  then show ?case by simp
next
  case (Suc n)
  then have "elems q \<noteq> {#}" by auto
  with del_law[OF Suc.prems] obtain x q' where d: "del q = Some (x, q')" "ok q'"
      "elems q = add_mset x (elems q')" "\<forall>y\<in>#elems q. key x \<le> key y"
    by auto
  with Suc.hyps(2) have "n = size (elems q')" by simp
  with Suc.hyps(1)[OF _ d(2)] obtain xs where xs: "serve del n q' = Some xs" "mset xs = elems q'"
      "sorted (map key xs)"
    by auto
  have "\<forall>y\<in>set xs. key x \<le> key y"
    using d(3,4) xs(2) by (metis set_mset_mset union_iff add_mset_add_single)
  with xs d Suc.hyps(2)[symmetric] show ?case by auto
qed

lemma accept_all_elems:
  assumes "ok q" "length xs \<le> room q"
  shows "\<exists>q'. accept_all ins q xs = Some q' \<and> ok q' \<and> elems q' = elems q + mset xs"
  using assms
proof (induction xs arbitrary: q)
  case Nil
  then show ?case by simp
next
  case (Cons x xs)
  then have "0 < room q" by auto
  with ins_law[OF Cons.prems(1)] obtain q' where q': "ins q x = Some q'" "ok q'"
      "elems q' = add_mset x (elems q)" "room q = Suc (room q')"
    by blast
  with Cons.prems(2) have "length xs \<le> room q'" by simp
  with Cons.IH[OF q'(2)] q' show ?case by auto
qed

lemma mset_eq_sorted_key:
  assumes "mset xs = mset ys" "sorted (map key xs)" "sorted (map key ys)" "distinct (map key ys)"
  shows "xs = ys"
proof -
  have inj: "inj_on key (set ys)" using assms(4) by (simp add: distinct_map)
  have "mset (map key xs) = mset (map key ys)" using assms(1) by simp
  then have "map key xs = map key ys"
    using assms(2,3) by (metis properties_for_sort)
  moreover have "set xs = set ys" using assms(1) by (rule mset_eq_setD)
  ultimately show ?thesis using inj by (metis map_inj_on Un_absorb)
qed

lemma serve_in_key_order:
  assumes "ok q" "elems q = {#}" "length xs \<le> room q" "sorted (map key xs)" "distinct (map key xs)"
  shows "\<exists>q'. accept_all ins q xs = Some q' \<and> serve del (length xs) q' = Some xs"
proof -
  from accept_all_elems[OF assms(1,3)] assms(2) obtain q' where
    q': "accept_all ins q xs = Some q'" "ok q'" "elems q' = mset xs" by auto
  with serve_sorted[OF q'(2)] obtain ys where
    "serve del (length xs) q' = Some ys" "mset ys = mset xs" "sorted (map key ys)"
    by auto
  with mset_eq_sorted_key[of ys xs] assms(4,5) q' show ?thesis by auto
qed

end

definition free_slots :: "queue \<Rightarrow> nat" where
  "free_slots q = bufSz q - qsize q"

interpretation rq: bounded_priority_queue enqueue dequeue queue_ok
  "\<lambda>q. mset (entries q)" free_slots priority
proof (unfold_locales, goal_cases)
  case (1 q x)
  then have nf: "\<not> isFull q" by (auto simp: free_slots_def isFull_def)
  from enqueue_ok[OF 1(1) this, of x] obtain q' where
    q': "enqueue q x = Some q'" "queue_ok q'" "bufSz q' = bufSz q"
      "mset (entries q') = add_mset x (mset (entries q))"
    by blast
  then have "length (entries q') = Suc (length (entries q))"
    by (metis size_mset size_add_mset)
  then have "qsize q' = Suc (qsize q)"
    using qsize_entries[OF q'(2)] qsize_entries[OF 1(1)] by simp
  then have "free_slots q = Suc (free_slots q')"
    using 1(2) q'(3) by (simp add: free_slots_def)
  with q' show ?case by auto
next
  case (2 q)
  then have "\<not> isEmpty q" using isEmpty_entries[OF 2(1)] by simp
  from dequeue_ok[OF 2(1) this] show ?case by auto
qed


section \<open>Properties\<close>

text \<open>
  Requests put into a fresh queue of \<open>buffers\<close> slots, at most \<open>buffers\<close> of them, are all
  accepted and are served one by one in the order of their priorities: the served requests are
  exactly the accepted ones.
\<close>

theorem requests_served_in_priority_order:
  assumes "length mem = buffers + 1" "length reqs \<le> buffers"
  shows "\<exists>q ds. accept_all enqueue (initQueue mem buffers) reqs = Some q \<and>
           serve dequeue (length reqs) q = Some ds \<and> mset ds = mset reqs \<and>
           sorted (map priority ds)"
proof -
  have ok: "queue_ok (initQueue mem buffers)" "entries (initQueue mem buffers) = []"
    using initQueue_ok[OF assms(1)] by auto
  have "length reqs \<le> free_slots (initQueue mem buffers)"
    using assms(2) by (simp add: free_slots_def initQueue_def)
  from rq.accept_all_elems[OF ok(1) this] ok(2) obtain q where
    q: "accept_all enqueue (initQueue mem buffers) reqs = Some q" "queue_ok q"
      "mset (entries q) = mset reqs" by auto
  have "size (mset (entries q)) = length reqs" using q(3) by (metis size_mset)
  with rq.serve_sorted[OF q(2)] q show ?thesis by (simp del: size_mset)
qed

theorem requests_served_in_priority_order_witness:
  "\<exists>q ds. accept_all enqueue
        (initQueue (replicate 4 \<lparr>priority = 0, connfd = 0, buff = []\<rparr>) 3)
        [\<lparr>priority = 7, connfd = 1, buff = []\<rparr>, \<lparr>priority = 2, connfd = 2, buff = []\<rparr>] = Some q \<and>
      serve dequeue (length [\<lparr>priority = 7, connfd = 1, buff = []\<rparr>,
        \<lparr>priority = 2, connfd = 2, buff = []\<rparr>]) q = Some ds \<and>
      mset ds = mset [\<lparr>priority = 7, connfd = 1, buff = []\<rparr>, \<lparr>priority = 2, connfd = 2, buff = []\<rparr>] \<and>
      sorted (map priority ds)"
  by (rule requests_served_in_priority_order) auto

text \<open>
  On a well-formed, non-empty queue \<open>dequeue\<close> returns a request of least priority, removes
  exactly that one, and leaves a well-formed queue of the same capacity.
\<close>

theorem dequeue_removes_minimum:
  assumes "queue_ok q" "\<not> isEmpty q"
  shows "\<exists>d q'. dequeue q = Some (d, q') \<and> queue_ok q' \<and> bufSz q' = bufSz q \<and>
           mset (entries q) = add_mset d (mset (entries q')) \<and>
           (\<forall>e\<in>set (entries q). priority d \<le> priority e)"
  by (rule dequeue_ok[OF assms])

theorem dequeue_removes_minimum_witness:
  "\<exists>d q'. dequeue \<lparr>qsize = 2, bufSz = 2, connPool = replicate 2 \<lparr>priority = 5, connfd = 3, buff = []\<rparr>\<rparr>
      = Some (d, q') \<and> queue_ok q' \<and> bufSz q' = bufSz \<lparr>qsize = 2, bufSz = 2,
        connPool = replicate 2 \<lparr>priority = 5, connfd = 3, buff = []\<rparr>\<rparr> \<and>
      mset (entries \<lparr>qsize = 2, bufSz = 2,
        connPool = replicate 2 \<lparr>priority = 5, connfd = 3, buff = []\<rparr>\<rparr>) = add_mset d (mset (entries q')) \<and>
      (\<forall>e\<in>set (entries \<lparr>qsize = 2, bufSz = 2,
        connPool = replicate 2 \<lparr>priority = 5, connfd = 3, buff = []\<rparr>\<rparr>). priority d \<le> priority e)"
  by (rule dequeue_removes_minimum) (auto simp: queue_ok_def heap_ordered_def isEmpty_def)

text \<open>
  On a well-formed queue the write of \<open>enqueue\<close> falls outside the array exactly when
  \<open>isFull\<close> holds; otherwise the new queue is well formed and holds exactly one request more.
\<close>

theorem enqueue_in_bounds_iff_not_full:
  assumes "queue_ok q"
  shows "(enqueue q d = None \<longleftrightarrow> isFull q) \<and>
         (\<forall>q'. enqueue q d = Some q' \<longrightarrow>
            queue_ok q' \<and> mset (entries q') = add_mset d (mset (entries q)))"
  using enqueue_ok[OF assms, of d] enqueue_full[OF assms, of d] by (cases "isFull q") auto

theorem enqueue_in_bounds_iff_not_full_witness:
  "(enqueue (initQueue [\<lparr>priority = 5, connfd = 3, buff = []\<rparr>] 0)
       \<lparr>priority = 1, connfd = 4, buff = []\<rparr> = None \<longleftrightarrow>
     isFull (initQueue [\<lparr>priority = 5, connfd = 3, buff = []\<rparr>] 0))"
proof -
  have "queue_ok (initQueue [\<lparr>priority = 5, connfd = 3, buff = []\<rparr>] 0)"
    by (simp add: initQueue_ok)
  from enqueue_in_bounds_iff_not_full[OF this] show ?thesis by blast
qed

end
