(* ===== verification/WebServer.thy ===== *)
theory WebServer
  imports ReqQueue
begin

text \<open>
  The thread pool of the web server (\<open>P4/web_server/server.c\<close>, \<open>main\<close> and
  \<open>serverWorker\<close>): one producer, any number of workers, one mutex \<open>cLock\<close> and the
  condition variables \<open>full\<close> and \<open>empty\<close>.  Every statement that another thread can
  observe is one step.  A waiting thread may also wake without a signal, as POSIX allows.
\<close>

section \<open>Threads and steps\<close>

datatype policy = FIFO | SFNF | SFF

datatype tid = Main | Worker nat

datatype main_pc = MAccept | MLock1 | MTest | MWait | MRelock | MUnlock1 | MRead | MLock2
  | MEnqueue | MSignal | MUnlock2 | MExit | MCorrupt

datatype worker_pc = WLock | WTest | WWait | WRelock | WDequeue | WSignal | WUnlock | WHandle
  | WCorrupt

text \<open>
  \<open>enqueued\<close> and \<open>served\<close> record what has gone into and come out of the queue so far.
\<close>

record server =
  cLock :: "tid option"
  q :: queue
  count :: int
  mpc :: main_pc
  d :: data
  wpc :: "nat \<Rightarrow> worker_pc"
  wd :: "nat \<Rightarrow> data"
  enqueued :: "data list"
  served :: "data list"

text \<open>
  The priority of a request: its arrival number, the length of the file name, or the size of
  the file; \<open>stat\<close> is the outcome of the system call, and \<open>None\<close> is its failure, on
  which the server calls \<open>exit(0)\<close>.
\<close>

fun assign_priority :: "policy \<Rightarrow> int \<Rightarrow> string \<Rightarrow> int option \<Rightarrow> (int \<times> int) option" where
  "assign_priority FIFO cnt filename stat = Some (cnt, wrap32 (cnt + 1))"
| "assign_priority SFNF cnt filename stat = Some (int (length filename), cnt)"
| "assign_priority SFF cnt filename stat = map_option (\<lambda>sz. (sz, cnt)) stat"

definition init_server :: "data list \<Rightarrow> nat \<Rightarrow> data \<Rightarrow> (nat \<Rightarrow> data) \<Rightarrow> server" where
  "init_server mem buffers d0 wd0 =
     \<lparr>cLock = None, q = initQueue mem buffers, count = 0, mpc = MAccept, d = d0,
      wpc = (\<lambda>_. WLock), wd = wd0, enqueued = [], served = []\<rparr>"

inductive main_step :: "policy \<Rightarrow> server \<Rightarrow> server \<Rightarrow> bool" for pol where
  accept: "mpc s = MAccept \<Longrightarrow>
     main_step pol s (s\<lparr>d := (d s)\<lparr>connfd := fd\<rparr>, mpc := MLock1\<rparr>)"
| lock1: "mpc s = MLock1 \<Longrightarrow> cLock s = None \<Longrightarrow>
     main_step pol s (s\<lparr>cLock := Some Main, mpc := MTest\<rparr>)"
| full_wait: "mpc s = MTest \<Longrightarrow> isFull (q s) \<Longrightarrow>
     main_step pol s (s\<lparr>cLock := None, mpc := MWait\<rparr>)"
| not_full: "mpc s = MTest \<Longrightarrow> \<not> isFull (q s) \<Longrightarrow> main_step pol s (s\<lparr>mpc := MUnlock1\<rparr>)"
| wake: "mpc s = MWait \<Longrightarrow> main_step pol s (s\<lparr>mpc := MRelock\<rparr>)"
| relock: "mpc s = MRelock \<Longrightarrow> cLock s = None \<Longrightarrow>
     main_step pol s (s\<lparr>cLock := Some Main, mpc := MTest\<rparr>)"
| unlock1: "mpc s = MUnlock1 \<Longrightarrow> main_step pol s (s\<lparr>cLock := None, mpc := MRead\<rparr>)"
| read: "mpc s = MRead \<Longrightarrow> assign_priority pol (count s) filename stat = Some (pr, cnt) \<Longrightarrow>
     main_step pol s (s\<lparr>d := (d s)\<lparr>priority := pr, buff := buf\<rparr>, count := cnt, mpc := MLock2\<rparr>)"
| read_exit: "mpc s = MRead \<Longrightarrow> assign_priority pol (count s) filename stat = None \<Longrightarrow>
     main_step pol s (s\<lparr>mpc := MExit\<rparr>)"
| lock2: "mpc s = MLock2 \<Longrightarrow> cLock s = None \<Longrightarrow>
     main_step pol s (s\<lparr>cLock := Some Main, mpc := MEnqueue\<rparr>)"
| enq: "mpc s = MEnqueue \<Longrightarrow> enqueue (q s) (d s) = Some q' \<Longrightarrow>
     main_step pol s (s\<lparr>q := q', enqueued := enqueued s @ [d s], mpc := MSignal\<rparr>)"
| enq_bad: "mpc s = MEnqueue \<Longrightarrow> enqueue (q s) (d s) = None \<Longrightarrow>
     main_step pol s (s\<lparr>mpc := MCorrupt\<rparr>)"
| signal: "mpc s = MSignal \<Longrightarrow> wpc s i = WWait \<Longrightarrow>
     main_step pol s (s\<lparr>wpc := (wpc s)(i := WRelock), mpc := MUnlock2\<rparr>)"
| signal_none: "mpc s = MSignal \<Longrightarrow> \<forall>i. wpc s i \<noteq> WWait \<Longrightarrow>
     main_step pol s (s\<lparr>mpc := MUnlock2\<rparr>)"
| unlock2: "mpc s = MUnlock2 \<Longrightarrow> main_step pol s (s\<lparr>cLock := None, mpc := MAccept\<rparr>)"

inductive worker_step :: "nat \<Rightarrow> server \<Rightarrow> server \<Rightarrow> bool" for i where
  lock: "wpc s i = WLock \<Longrightarrow> cLock s = None \<Longrightarrow>
     worker_step i s (s\<lparr>cLock := Some (Worker i), wpc := (wpc s)(i := WTest)\<rparr>)"
| empty_wait: "wpc s i = WTest \<Longrightarrow> isEmpty (q s) \<Longrightarrow>
     worker_step i s (s\<lparr>cLock := None, wpc := (wpc s)(i := WWait)\<rparr>)"
| not_empty: "wpc s i = WTest \<Longrightarrow> \<not> isEmpty (q s) \<Longrightarrow>
     worker_step i s (s\<lparr>wpc := (wpc s)(i := WDequeue)\<rparr>)"
| wake: "wpc s i = WWait \<Longrightarrow> worker_step i s (s\<lparr>wpc := (wpc s)(i := WRelock)\<rparr>)"
| relock: "wpc s i = WRelock \<Longrightarrow> cLock s = None \<Longrightarrow>
     worker_step i s (s\<lparr>cLock := Some (Worker i), wpc := (wpc s)(i := WTest)\<rparr>)"
| deq: "wpc s i = WDequeue \<Longrightarrow> dequeue (q s) = Some (r, q') \<Longrightarrow>
     worker_step i s (s\<lparr>q := q', wd := (wd s)(i := r), served := served s @ [r],
                        wpc := (wpc s)(i := WSignal)\<rparr>)"
| deq_bad: "wpc s i = WDequeue \<Longrightarrow> dequeue (q s) = None \<Longrightarrow>
     worker_step i s (s\<lparr>wpc := (wpc s)(i := WCorrupt)\<rparr>)"
| signal: "wpc s i = WSignal \<Longrightarrow> mpc s = MWait \<Longrightarrow>
     worker_step i s (s\<lparr>mpc := MRelock, wpc := (wpc s)(i := WUnlock)\<rparr>)"
| signal_none: "wpc s i = WSignal \<Longrightarrow> mpc s \<noteq> MWait \<Longrightarrow>
     worker_step i s (s\<lparr>wpc := (wpc s)(i := WUnlock)\<rparr>)"
| unlock: "wpc s i = WUnlock \<Longrightarrow>
     worker_step i s (s\<lparr>cLock := None, wpc := (wpc s)(i := WHandle)\<rparr>)"
| handle: "wpc s i = WHandle \<Longrightarrow> worker_step i s (s\<lparr>wpc := (wpc s)(i := WLock)\<rparr>)"

inductive server_run :: "policy \<Rightarrow> nat \<Rightarrow> server \<Rightarrow> server \<Rightarrow> bool" for pol threads where
  start: "server_run pol threads s s"
| main: "server_run pol threads s t \<Longrightarrow> main_step pol t u \<Longrightarrow> server_run pol threads s u"
| worker: "server_run pol threads s t \<Longrightarrow> i < threads \<Longrightarrow> worker_step i t u \<Longrightarrow>
     server_run pol threads s u"

section \<open>The invariant of the thread pool\<close>

fun main_locked :: "main_pc \<Rightarrow> bool" where
  "main_locked pc = (pc \<in> {MTest, MUnlock1, MEnqueue, MSignal, MUnlock2, MCorrupt})"

fun worker_locked :: "worker_pc \<Rightarrow> bool" where
  "worker_locked pc = (pc \<in> {WTest, WDequeue, WSignal, WUnlock, WCorrupt})"

text \<open>The mutex is held by exactly the thread whose program counter says so.\<close>

definition lock_ok :: "tid option \<Rightarrow> main_pc \<Rightarrow> (nat \<Rightarrow> worker_pc) \<Rightarrow> bool" where
  "lock_ok l m w \<longleftrightarrow> (main_locked m \<longleftrightarrow> l = Some Main) \<and>
     (\<forall>i. worker_locked (w i) \<longleftrightarrow> l = Some (Worker i))"

abbreviation lock_inv :: "server \<Rightarrow> bool" where
  "lock_inv s \<equiv> lock_ok (cLock s) (mpc s) (wpc s)"

definition queue_inv :: "server \<Rightarrow> bool" where
  "queue_inv s \<longleftrightarrow> queue_ok (q s) \<and>
     (mpc s \<in> {MUnlock1, MRead, MLock2, MEnqueue} \<longrightarrow> \<not> isFull (q s)) \<and>
     (\<forall>i. wpc s i = WDequeue \<longrightarrow> \<not> isEmpty (q s)) \<and>
     mpc s \<noteq> MCorrupt \<and> (\<forall>i. wpc s i \<noteq> WCorrupt) \<and>
     mset (enqueued s) = mset (served s) + mset (entries (q s))"

lemma lock_ok_main:
  "lock_ok l m w \<Longrightarrow> main_locked m' = main_locked m \<Longrightarrow> lock_ok l m' w"
  "lock_ok None m w \<Longrightarrow> main_locked m' \<Longrightarrow> lock_ok (Some Main) m' w"
  "lock_ok l m w \<Longrightarrow> main_locked m \<Longrightarrow> \<not> main_locked m' \<Longrightarrow> lock_ok None m' w"
  by (auto simp: lock_ok_def simp del: main_locked.simps worker_locked.simps)

lemma lock_ok_worker:
  "lock_ok l m w \<Longrightarrow> worker_locked pc = worker_locked (w i) \<Longrightarrow> main_locked m' = main_locked m \<Longrightarrow>
     lock_ok l m' (w(i := pc))"
  "lock_ok None m w \<Longrightarrow> worker_locked pc \<Longrightarrow> lock_ok (Some (Worker i)) m (w(i := pc))"
  "lock_ok l m w \<Longrightarrow> worker_locked (w i) \<Longrightarrow> \<not> worker_locked pc \<Longrightarrow> lock_ok None m (w(i := pc))"
  by (auto simp: lock_ok_def simp del: main_locked.simps worker_locked.simps)

lemma lock_ok_holder: "lock_ok l m w \<Longrightarrow> worker_locked (w i) \<Longrightarrow> worker_locked (w j) \<Longrightarrow> i = j"
  by (auto simp: lock_ok_def simp del: worker_locked.simps)

lemma main_step_lock_inv: "main_step pol s t \<Longrightarrow> lock_inv s \<Longrightarrow> lock_inv t"
  by (induction rule: main_step.induct)
    (auto intro: lock_ok_main lock_ok_worker(1) simp del: fun_upd_apply)

lemma worker_step_lock_inv: "worker_step i s t \<Longrightarrow> lock_inv s \<Longrightarrow> lock_inv t"
  by (induction rule: worker_step.induct)
    (auto intro: lock_ok_worker simp del: fun_upd_apply)

text \<open>What the queue's contract gives for one enqueue and one dequeue of the pool.\<close>

lemma enqueue_keeps:
  assumes "queue_ok q0" "enqueue q0 x = Some q1"
  shows "queue_ok q1 \<and> mset (entries q1) = add_mset x (mset (entries q0)) \<and> \<not> isEmpty q1"
proof -
  from assms enqueue_full have "\<not> isFull q0" by fastforce
  with enqueue_ok[OF assms(1), of x] assms(2)
  have 1: "queue_ok q1" "mset (entries q1) = add_mset x (mset (entries q0))" by auto
  then have "entries q1 \<noteq> []" by auto
  with 1 show ?thesis by (simp add: isEmpty_entries)
qed

lemma dequeue_keeps:
  assumes "queue_ok q0" "\<not> isEmpty q0" "dequeue q0 = Some (x, q1)"
  shows "queue_ok q1 \<and> mset (entries q0) = add_mset x (mset (entries q1)) \<and> \<not> isFull q1"
proof -
  from dequeue_ok[OF assms(1,2)] assms(3)
  have 1: "queue_ok q1" "mset (entries q0) = add_mset x (mset (entries q1))" "bufSz q1 = bufSz q0"
    by auto
  then have "length (entries q0) = Suc (length (entries q1))"
    by (metis size_add_mset size_mset)
  then have "qsize q1 < qsize q0"
    using qsize_entries[OF assms(1)] qsize_entries[OF 1(1)] by simp
  with 1 assms(1) show ?thesis by (auto simp: queue_ok_def isFull_def)
qed

lemma main_step_queue_inv: "main_step pol s t \<Longrightarrow> lock_inv s \<Longrightarrow> queue_inv s \<Longrightarrow> queue_inv t"
proof (induction rule: main_step.induct)
  case (enq s q')
  from enq enqueue_keeps[of "q s" "d s" q'] show ?case
    by (auto simp: queue_inv_def)
next
  case (enq_bad s)
  then show ?case using enqueue_ok[of "q s" "d s"] by (auto simp: queue_inv_def)
qed (auto simp: queue_inv_def)

lemma worker_step_queue_inv: "worker_step i s t \<Longrightarrow> lock_inv s \<Longrightarrow> queue_inv s \<Longrightarrow> queue_inv t"
proof (induction rule: worker_step.induct)
  case (deq s r q')
  from deq dequeue_keeps[of "q s" r q']
  have 1: "queue_ok q'" "mset (entries (q s)) = add_mset r (mset (entries q'))" "\<not> isFull q'"
    by (auto simp: queue_inv_def)
  have "wpc s j \<noteq> WDequeue" if "j \<noteq> i" for j
    using lock_ok_holder[OF deq.prems(1), of i j] deq(1) that by auto
  with 1 deq show ?case by (auto simp: queue_inv_def)
next
  case (deq_bad s)
  then show ?case using dequeue_ok[of "q s"] by (auto simp: queue_inv_def)
qed (auto simp: queue_inv_def)

lemma init_server_inv:
  "length mem = buffers + 1 \<Longrightarrow>
     lock_inv (init_server mem buffers d0 wd0) \<and> queue_inv (init_server mem buffers d0 wd0)"
  using initQueue_ok[of mem buffers]
  by (auto simp: lock_ok_def queue_inv_def init_server_def)

lemma server_run_inv:
  assumes "server_run pol threads s t" "lock_inv s" "queue_inv s"
  shows "lock_inv t \<and> queue_inv t"
  using assms
  by (induction rule: server_run.induct)
    (auto dest: main_step_lock_inv worker_step_lock_inv main_step_queue_inv worker_step_queue_inv)


text \<open>The requests \<open>main\<close> builds from a sequence of arrivals, one priority each.\<close>

fun stamp :: "policy \<Rightarrow> int \<Rightarrow> (data \<times> string \<times> int option) list \<Rightarrow> data list option" where
  "stamp pol cnt [] = Some []"
| "stamp pol cnt ((r, filename, stat) # rs) =
     do {
       (pr, cnt') \<leftarrow> assign_priority pol cnt filename stat;
       ds \<leftarrow> stamp pol cnt' rs;
       Some (r\<lparr>priority := pr\<rparr> # ds)
     }"

lemma stamp_FIFO:
  "0 \<le> cnt \<Longrightarrow> cnt + int (length rs) < 2 ^ 31 \<Longrightarrow> \<exists>ds. stamp FIFO cnt rs = Some ds \<and> length ds = length rs \<and>
     map priority ds = map (\<lambda>k. cnt + int k) [0..<length rs] \<and>
     map connfd ds = map (connfd \<circ> fst) rs"
proof (induction rs arbitrary: cnt)
  case Nil
  then show ?case by simp
next
  case (Cons a rs)
  obtain r f st where a: "a = (r, f, st)" by (cases a)
  have w: "wrap32 (cnt + 1) = cnt + 1" using Cons.prems by (intro wrap32_id) simp_all
  obtain ds where ds: "stamp FIFO (cnt + 1) rs = Some ds" "length ds = length rs"
      "map priority ds = map (\<lambda>k. cnt + 1 + int k) [0..<length rs]"
      "map connfd ds = map (connfd \<circ> fst) rs"
    using Cons.IH [of "cnt + 1"] Cons.prems by auto
  have "map (\<lambda>k. cnt + int k) [0..<Suc (length rs)] = cnt # map (\<lambda>k. cnt + 1 + int k) [0..<length rs]"
    by (simp add: upt_conv_Cons map_Suc_upt[symmetric] del: upt_Suc)
  with ds a w show ?case by (simp del: upt_Suc)
qed

section \<open>Properties\<close>



text \<open>
  No request is lost or duplicated: in every state the pool reaches, the requests that went
  into the queue are exactly those that workers took out plus those still queued.
\<close>

theorem server_conserves_requests:
  assumes "server_run pol threads (init_server mem buffers d0 wd0) s" "length mem = buffers + 1"
  shows "mset (enqueued s) = mset (served s) + mset (entries (q s))"
  using server_run_inv[OF assms(1)] init_server_inv[OF assms(2)] by (simp add: queue_inv_def)

theorem server_conserves_requests_witness:
  "\<exists>s. server_run SFNF 1 (init_server [\<lparr>priority = 0, connfd = 0, buff = []\<rparr>] 0
          \<lparr>priority = 0, connfd = 0, buff = []\<rparr> (\<lambda>_. \<lparr>priority = 0, connfd = 0, buff = []\<rparr>)) s \<and>
       wpc s 0 = WTest \<and> mset (enqueued s) = mset (served s) + mset (entries (q s))"
proof -
  let ?i = "init_server [\<lparr>priority = 0, connfd = 0, buff = []\<rparr>] 0
          \<lparr>priority = 0, connfd = 0, buff = []\<rparr> (\<lambda>_. \<lparr>priority = 0, connfd = 0, buff = []\<rparr>)"
  let ?s = "?i\<lparr>cLock := Some (Worker 0), wpc := (wpc ?i)(0 := WTest)\<rparr>"
  have "worker_step 0 ?i ?s" by (rule worker_step.lock) (simp_all add: init_server_def)
  then have r: "server_run SFNF 1 ?i ?s"
    by (rule server_run.worker[OF server_run.start, rotated]) simp
  with server_conserves_requests[OF r] have "wpc ?s 0 = WTest \<and>
      mset (enqueued ?s) = mset (served ?s) + mset (entries (q ?s))" by simp
  with r show ?thesis by blast
qed

text \<open>
  Under the policy FIFO the server takes the requests out of the queue exactly in the order
  in which they arrived, as long as the arrivals can be counted in an \<open>int\<close>.
\<close>

theorem fifo_serves_in_arrival_order:
  assumes "length mem = buffers + 1" "length arrivals \<le> buffers" "length arrivals < 2 ^ 31"
  shows "\<exists>ds q. stamp FIFO 0 arrivals = Some ds \<and> map connfd ds = map (connfd \<circ> fst) arrivals \<and>
           accept_all enqueue (initQueue mem buffers) ds = Some q \<and>
           serve dequeue (length ds) q = Some ds"
proof -
  obtain ds where ds: "stamp FIFO 0 arrivals = Some ds" "length ds = length arrivals"
      "map priority ds = map (\<lambda>k. 0 + int k) [0..<length arrivals]"
      "map connfd ds = map (connfd \<circ> fst) arrivals"
    using stamp_FIFO[of 0 arrivals] assms(3) by auto
  have ok: "queue_ok (initQueue mem buffers)" "mset (entries (initQueue mem buffers)) = {#}"
    using initQueue_ok[OF assms(1)] by auto
  have room: "length ds \<le> free_slots (initQueue mem buffers)"
    using assms(2) ds(2) by (simp add: free_slots_def initQueue_def)
  have "sorted (map priority ds)" "distinct (map priority ds)"
    unfolding ds(3) by (auto simp: sorted_map distinct_map inj_on_def sorted_wrt_iff_nth_less)
  from rq.serve_in_key_order[OF ok room this] ds show ?thesis by auto
qed

theorem fifo_serves_in_arrival_order_witness:
  "\<exists>ds q. stamp FIFO 0 [(\<lparr>priority = 9, connfd = 1, buff = []\<rparr>, ''a'', None),
         (\<lparr>priority = 3, connfd = 2, buff = []\<rparr>, ''b'', Some 4)] = Some ds \<and>
      map connfd ds = [1, 2] \<and>
      accept_all enqueue (initQueue (replicate 3 \<lparr>priority = 0, connfd = 0, buff = []\<rparr>) 2) ds = Some q \<and>
      serve dequeue (length ds) q = Some ds"
  using fifo_serves_in_arrival_order[of "replicate 3 \<lparr>priority = 0, connfd = 0, buff = []\<rparr>" 2
      "[(\<lparr>priority = 9, connfd = 1, buff = []\<rparr>, ''a'', None),
        (\<lparr>priority = 3, connfd = 2, buff = []\<rparr>, ''b'', Some 4)]"]
  by simp

end
