(* ===== verification/MemAlloc.thy ===== *)
theory MemAlloc
  imports Prelude
begin

text \<open>
  The memory allocator library of \<open>P3/mem_allocator/mem.c\<close>.  The mapped region is a store of
  chunk headers, each followed by the bytes it describes; free chunks are linked in
  \<open>freeList\<close>, allocated ones in \<open>memList\<close>, and \<open>coalesce\<close> walks the region from
  \<open>begin\<close> chunk by chunk.  A pointer is an \<open>int\<close> with \<open>0\<close> the null pointer; loading or
  storing a header that does not lie inside the mapped region is the failure \<open>None\<close>.

  The theory proves that every operation keeps the region tiled by non-overlapping chunks and
  both lists doubly linked over exactly the free and the allocated chunks, what the three
  placement policies choose, and that \<open>coalesce\<close> leaves no two neighbouring free chunks.
\<close>

section \<open>State\<close>

record header =
  hsize :: int
  hfree :: int
  hnext :: int
  hprev :: int

record mem_state =
  m_error :: int
  initialized :: bool
  totalSize :: int
  freeList :: int
  memList :: int
  begin_ptr :: int
  map_lo :: int
  map_hi :: int
  mem :: "int \<Rightarrow> header"

definition E_NO_SPACE :: int where "E_NO_SPACE = 1"
definition E_BAD_ARGS :: int where "E_BAD_ARGS = 4"
definition E_BAD_POINTER :: int where "E_BAD_POINTER = 5"

definition BESTFIT :: int where "BESTFIT = 0"
definition WORSTFIT :: int where "WORSTFIT = 1"
definition FIRSTFIT :: int where "FIRSTFIT = 2"

text \<open>\<open>sizeof(header)\<close>: two ints and two pointers.\<close>

definition HDR :: int where "HDR = 24"

text \<open>Remainder as in C: truncated towards zero.\<close>

definition c_rem :: "int \<Rightarrow> int \<Rightarrow> int" where
  "c_rem a b = (if a < 0 then - ((- a) mod b) else a mod b)"

definition load :: "mem_state \<Rightarrow> int \<Rightarrow> header option" where
  "load s p = (if map_lo s \<le> p \<and> p + HDR \<le> map_hi s then Some (mem s p) else None)"

definition store :: "mem_state \<Rightarrow> int \<Rightarrow> header \<Rightarrow> mem_state option" where
  "store s p h = (if map_lo s \<le> p \<and> p + HDR \<le> map_hi s then Some (s\<lparr>mem := (mem s)(p := h)\<rparr>) else None)"

definition modify :: "mem_state \<Rightarrow> int \<Rightarrow> (header \<Rightarrow> header) \<Rightarrow> mem_state option" where
  "modify s p f = do { h \<leftarrow> load s p; store s p (f h) }"

section \<open>Operations\<close>

text \<open>
  \<open>pageSize\<close> is the value of \<open>getpagesize()\<close> and \<open>region\<close> the result of
  \<open>mmap\<close>: \<open>None\<close> for \<open>MAP_FAILED\<close>, otherwise the address.  The mapping extends to the
  end of its last page.  The sizes are C \<open>int\<close>s: rounding up wraps around for sizes near the largest one.
\<close>

definition Mem_Init :: "int \<Rightarrow> int option \<Rightarrow> mem_state \<Rightarrow> int \<Rightarrow> (int \<times> mem_state) option" where
  "Mem_Init pageSize region s sizeOfRegion =
     (if initialized s \<or> sizeOfRegion \<le> 0 then Some (-1, s\<lparr>m_error := E_BAD_ARGS\<rparr>)
      else
        let len = (if c_rem sizeOfRegion pageSize \<noteq> 0
                   then sizeOfRegion + (pageSize - c_rem sizeOfRegion pageSize)
                   else sizeOfRegion);
            requestSize = wrap32 len
        in case region of
             None \<Rightarrow> Some (-1, s\<lparr>freeList := -1, m_error := E_BAD_ARGS\<rparr>)
           | Some p \<Rightarrow>
               do {
                 s \<leftarrow> store (s\<lparr>freeList := p, map_lo := p, map_hi := p + len\<rparr>) p
                        \<lparr>hsize = wrap32 (requestSize - HDR), hfree = 1, hnext = 0, hprev = 0\<rparr>;
                 Some (0, s\<lparr>initialized := True, totalSize := requestSize, begin_ptr := p\<rparr>)
               })"

partial_function (option) firstfit_loop :: "mem_state \<Rightarrow> int \<Rightarrow> int \<Rightarrow> int option" where
  "firstfit_loop s siz freeTmp =
     (if freeTmp \<noteq> 0 then
        do {
          h \<leftarrow> load s freeTmp;
          if siz \<le> hsize h then Some freeTmp else firstfit_loop s siz (hnext h)
        }
      else Some freeTmp)"

definition firstfit :: "mem_state \<Rightarrow> int \<Rightarrow> int option" where
  "firstfit s siz = firstfit_loop s siz (freeList s)"

text \<open>
  \<open>bestfit\<close> and \<open>worstfit\<close> are the same scan with the comparison turned round:
  \<open>better a b\<close> is \<open>a < b\<close> for the former and \<open>a > b\<close> for the latter.  After the loop the
  code reads \<open>bestTmp->size\<close> whenever \<open>bestTmp\<close> is still \<open>freeList\<close>, also when that is null.
\<close>

partial_function (option) fit_loop ::
  "(int \<Rightarrow> int \<Rightarrow> bool) \<Rightarrow> mem_state \<Rightarrow> int \<Rightarrow> int \<Rightarrow> int \<Rightarrow> bool \<Rightarrow> int option" where
  "fit_loop better s siz freeTmp bestTmp first =
     (if freeTmp \<noteq> 0 then
        do {
          h \<leftarrow> load s freeTmp;
          let (bestTmp, first) = (if first \<and> siz \<le> hsize h then (freeTmp, False) else (bestTmp, first));
          b \<leftarrow> load s bestTmp;
          let bestTmp = (if siz \<le> hsize h \<and> better (hsize h) (hsize b) then freeTmp else bestTmp);
          fit_loop better s siz (hnext h) bestTmp first
        }
      else Some bestTmp)"

definition fit :: "(int \<Rightarrow> int \<Rightarrow> bool) \<Rightarrow> mem_state \<Rightarrow> int \<Rightarrow> int option" where
  "fit better s siz =
     do {
       bestTmp \<leftarrow> fit_loop better s siz (freeList s) (freeList s) True;
       if bestTmp = freeList s
       then do { b \<leftarrow> load s bestTmp; if hsize b < siz then Some 0 else Some bestTmp }
       else Some bestTmp
     }"

definition bestfit :: "mem_state \<Rightarrow> int \<Rightarrow> int option" where
  "bestfit s siz = fit (\<lambda>a b. a < b) s siz"

definition worstfit :: "mem_state \<Rightarrow> int \<Rightarrow> int option" where
  "worstfit s siz = fit (\<lambda>a b. a > b) s siz"

text \<open>The chunk a policy selects; an unknown policy leaves \<open>freeChunkHeader\<close> null.\<close>

definition select_chunk :: "mem_state \<Rightarrow> int \<Rightarrow> int \<Rightarrow> int option" where
  "select_chunk s requestSize policy =
     (if policy = BESTFIT then bestfit s requestSize
      else if policy = WORSTFIT then worstfit s requestSize
      else if policy = FIRSTFIT then firstfit s requestSize
      else Some 0)"

definition round_up8 :: "int \<Rightarrow> int" where
  "round_up8 siz = (if c_rem siz 8 \<noteq> 0 then wrap32 (siz + (8 - c_rem siz 8)) else siz)"

definition size_left :: "int \<Rightarrow> int \<Rightarrow> int" where
  "size_left siz requestSize = wrap32 (wrap32 (siz - requestSize) - HDR)"

definition split_chunk :: "mem_state \<Rightarrow> int \<Rightarrow> int \<Rightarrow> mem_state option" where
  "split_chunk s p requestSize =
     do {
       h \<leftarrow> load s p;
       if size_left (hsize h) requestSize > 0 then
         do {
           let newFree = p + requestSize + HDR;
           s \<leftarrow> store s newFree \<lparr>hsize = size_left (hsize h) requestSize, hfree = 1, hnext = 0, hprev = 0\<rparr>;
           s \<leftarrow> modify s newFree (\<lambda>n. n\<lparr>hnext := freeList s, hprev := 0\<rparr>);
           s \<leftarrow> (if freeList s \<noteq> 0 then modify s (freeList s) (\<lambda>n. n\<lparr>hprev := newFree\<rparr>) else Some s);
           modify (s\<lparr>freeList := newFree\<rparr>) p (\<lambda>n. n\<lparr>hsize := requestSize\<rparr>)
         }
       else Some s
     }"

text \<open>
  Take a header out of the list it is in: its neighbours are linked to each other.
  \<open>Mem_Alloc\<close> treats the successor first, \<open>Mem_Free\<close> the predecessor.
\<close>

definition fix_next :: "mem_state \<Rightarrow> int \<Rightarrow> mem_state option" where
  "fix_next s p =
     do {
       h \<leftarrow> load s p;
       (if hnext h \<noteq> 0 then modify s (hnext h) (\<lambda>n. n\<lparr>hprev := hprev h\<rparr>) else Some s)
     }"

definition fix_prev :: "mem_state \<Rightarrow> int \<Rightarrow> mem_state option" where
  "fix_prev s p =
     do {
       h \<leftarrow> load s p;
       (if hprev h \<noteq> 0 then modify s (hprev h) (\<lambda>n. n\<lparr>hnext := hnext h\<rparr>) else Some s)
     }"

text \<open>Move the header \<open>p\<close> from the free list to the front of the list of allocated chunks.\<close>

definition take_chunk :: "mem_state \<Rightarrow> int \<Rightarrow> mem_state option" where
  "take_chunk s p =
     do {
       s \<leftarrow> fix_next s p;
       s \<leftarrow> fix_prev s p;
       h \<leftarrow> load s p;
       let s = (if p = freeList s then s\<lparr>freeList := hnext h\<rparr> else s);
       s \<leftarrow> modify s p (\<lambda>n. n\<lparr>hnext := memList s\<rparr>);
       s \<leftarrow> (if memList s \<noteq> 0 then modify s (memList s) (\<lambda>n. n\<lparr>hprev := p\<rparr>) else Some s);
       s \<leftarrow> modify s p (\<lambda>n. n\<lparr>hprev := 0\<rparr>);
       modify (s\<lparr>memList := p\<rparr>) p (\<lambda>n. n\<lparr>hfree := 0\<rparr>)
     }"

definition Mem_Alloc :: "mem_state \<Rightarrow> int \<Rightarrow> int \<Rightarrow> (int \<times> mem_state) option" where
  "Mem_Alloc s siz policy =
     do {
       let requestSize = round_up8 siz;
       p \<leftarrow> select_chunk s requestSize policy;
       if p = 0 \<and> policy \<in> {BESTFIT, WORSTFIT, FIRSTFIT}
       then Some (0, s\<lparr>m_error := E_NO_SPACE\<rparr>)
       else
         do {
           s \<leftarrow> split_chunk s p requestSize;
           s \<leftarrow> take_chunk s p;
           Some (p + HDR, s)
         }
     }"

text \<open>One turn of the loop in \<open>coalesce\<close>: the new state, \<open>prev\<close> and \<open>immediate\<close>.  The sums of sizes are sums over
  chunks of the region, at most \<open>totalSize\<close>, which is an \<open>int\<close>: they cannot overflow.\<close>

definition coalesce_step :: "mem_state \<Rightarrow> int \<Rightarrow> int \<Rightarrow> bool \<Rightarrow> (mem_state \<times> int \<times> bool) option" where
  "coalesce_step s cur prev immediate =
     do {
       c \<leftarrow> load s cur;
       if hfree c \<noteq> 0 then
         if prev = 0 then
           do { s \<leftarrow> modify (s\<lparr>freeList := cur\<rparr>) cur (\<lambda>n. n\<lparr>hprev := 0, hnext := 0\<rparr>); Some (s, cur, True) }
         else if \<not> immediate then
           do {
             s \<leftarrow> modify s prev (\<lambda>n. n\<lparr>hnext := cur\<rparr>);
             s \<leftarrow> modify s cur (\<lambda>n. n\<lparr>hprev := prev\<rparr>);
             Some (s, cur, True)
           }
         else
           do {
             s \<leftarrow> modify s prev (\<lambda>n. n\<lparr>hsize := hsize n + (hsize c + HDR)\<rparr>);
             s \<leftarrow> modify s cur (\<lambda>n. n\<lparr>hfree := 1\<rparr>);
             Some (s, prev, True)
           }
       else Some (s, prev, False)
     }"

partial_function (option) coalesce_loop ::
  "mem_state \<Rightarrow> int \<Rightarrow> int \<Rightarrow> int \<Rightarrow> bool \<Rightarrow> (mem_state \<times> int) option" where
  "coalesce_loop s cur prev currSize immediate =
     (if currSize < totalSize s then
        do {
          (s, prev, immediate) \<leftarrow> coalesce_step s cur prev immediate;
          c \<leftarrow> load s cur;
          coalesce_loop s (cur + HDR + hsize c) prev (currSize + (hsize c + HDR)) immediate
        }
      else Some (s, prev))"

definition coalesce :: "mem_state \<Rightarrow> mem_state option" where
  "coalesce s =
     do {
       (s, prev) \<leftarrow> coalesce_loop s (begin_ptr s) 0 0 False;
       (if prev \<noteq> 0 then modify s prev (\<lambda>n. n\<lparr>hnext := 0\<rparr>) else Some s)
     }"

partial_function (option) find_alloc :: "mem_state \<Rightarrow> int \<Rightarrow> int \<Rightarrow> int option" where
  "find_alloc s ptr memTmp =
     (if memTmp \<noteq> 0 \<and> memTmp + HDR \<noteq> ptr
      then do { h \<leftarrow> load s memTmp; find_alloc s ptr (hnext h) }
      else Some memTmp)"

definition Mem_Free :: "mem_state \<Rightarrow> int \<Rightarrow> (int \<times> mem_state) option" where
  "Mem_Free s ptr =
     (if ptr = 0 then Some (-1, s)
      else
        do {
          p \<leftarrow> find_alloc s ptr (memList s);
          if p = 0 then Some (-1, s\<lparr>m_error := E_BAD_POINTER\<rparr>)
          else
            do {
              s \<leftarrow> fix_prev s p;
              s \<leftarrow> fix_next s p;
              h \<leftarrow> load s p;
              s \<leftarrow> modify (if memList s = p then s\<lparr>memList := hnext h\<rparr> else s) p (\<lambda>n. n\<lparr>hfree := 1\<rparr>);
              s \<leftarrow> coalesce s;
              Some (0, s)
            }
        })"


section \<open>Doubly linked lists of headers\<close>

text \<open>
  \<open>dll m pr h xs q\<close>: starting at \<open>h\<close>, whose predecessor is \<open>pr\<close>, the \<open>next\<close> fields
  visit exactly \<open>xs\<close> and then reach \<open>q\<close>, and the \<open>prev\<close> fields point back.
\<close>

fun dll :: "(int \<Rightarrow> header) \<Rightarrow> int \<Rightarrow> int \<Rightarrow> int list \<Rightarrow> int \<Rightarrow> bool" where
  "dll m pr h [] q \<longleftrightarrow> h = q"
| "dll m pr h (x # xs) q \<longleftrightarrow> h = x \<and> x \<noteq> 0 \<and> hprev (m x) = pr \<and> dll m x (hnext (m x)) xs q"

abbreviation last_or :: "int \<Rightarrow> int list \<Rightarrow> int" where
  "last_or d xs \<equiv> (if xs = [] then d else last xs)"

abbreviation hd_or :: "int \<Rightarrow> int list \<Rightarrow> int" where
  "hd_or d xs \<equiv> (if xs = [] then d else hd xs)"

lemma dll_append:
  "dll m pr h (xs @ ys) q \<longleftrightarrow>
     dll m pr h xs (hd_or q ys) \<and> dll m (last_or pr xs) (hd_or q ys) ys q"
proof (induction xs arbitrary: pr h)
  case Nil
  then show ?case by (cases ys) auto
next
  case (Cons x xs)
  then show ?case by auto
qed

lemma dll_cong:
  "(\<And>x. x \<in> set xs \<Longrightarrow> hnext (m' x) = hnext (m x) \<and> hprev (m' x) = hprev (m x)) \<Longrightarrow>
     dll m' pr h xs q = dll m pr h xs q"
  by (induction xs arbitrary: pr h) auto

lemma dll_head: "dll m pr h xs q \<Longrightarrow> h = hd_or q xs"
  by (cases xs) auto

lemma dll_nonnull: "dll m pr h xs q \<Longrightarrow> 0 \<notin> set xs"
  by (induction xs arbitrary: pr h) auto

lemma dll_set_prev:
  "dll m pr h (x # xs) q \<Longrightarrow> x \<notin> set xs \<Longrightarrow>
     (\<And>y. y \<in> set xs \<Longrightarrow> hnext (m' y) = hnext (m y) \<and> hprev (m' y) = hprev (m y)) \<Longrightarrow>
     hnext (m' x) = hnext (m x) \<Longrightarrow> hprev (m' x) = pr' \<Longrightarrow> dll m' pr' h (x # xs) q"
  using dll_cong[of xs m' m] by simp

lemma dll_set_next:
  "dll m pr h (xs @ [x]) q \<Longrightarrow> x \<notin> set xs \<Longrightarrow>
     (\<And>y. y \<in> set xs \<Longrightarrow> hnext (m' y) = hnext (m y) \<and> hprev (m' y) = hprev (m y)) \<Longrightarrow>
     hprev (m' x) = hprev (m x) \<Longrightarrow> hnext (m' x) = q' \<Longrightarrow> dll m' pr h (xs @ [x]) q'"
  using dll_cong[of xs m' m] by (simp add: dll_append)

lemma dll_remove:
  assumes "dll m pr h (xs @ p # ys) q" "distinct (xs @ p # ys)"
    and last: "xs \<noteq> [] \<Longrightarrow> hnext (m' (last xs)) = hnext (m p)"
    and hd: "ys \<noteq> [] \<Longrightarrow> hprev (m' (hd ys)) = hprev (m p)"
    and nexts: "\<And>x. x \<in> set xs \<union> set ys \<Longrightarrow> xs = [] \<or> x \<noteq> last xs \<Longrightarrow> hnext (m' x) = hnext (m x)"
    and prevs: "\<And>x. x \<in> set xs \<union> set ys \<Longrightarrow> ys = [] \<or> x \<noteq> hd ys \<Longrightarrow> hprev (m' x) = hprev (m x)"
  shows "dll m' pr (if xs = [] then hnext (m p) else h) (xs @ ys) q"
proof -
  have xs: "dll m pr h xs p" and p: "hprev (m p) = last_or pr xs"
    and ys: "dll m p (hnext (m p)) ys q"
    using assms(1) by (auto simp: dll_append)
  have nxt: "hnext (m p) = hd_or q ys" using dll_head[OF ys] .
  have px: "hprev (m' x) = hprev (m x)" if "x \<in> set xs" for x
    by (rule prevs) (use assms(2) that in \<open>cases ys; auto\<close>)+
  have ny: "hnext (m' x) = hnext (m x)" if "x \<in> set ys" for x
    by (rule nexts) (use assms(2) that in \<open>cases xs rule: rev_cases; auto\<close>)+
  have A: "dll m' pr h xs (hnext (m p))" if ne: "xs \<noteq> []"
  proof -
    obtain zs z where z: "xs = zs @ [z]" using ne by (cases xs rule: rev_cases) auto
    from xs assms(2) have "dll m' pr h (zs @ [z]) (hnext (m p))"
      unfolding z by (elim dll_set_next) (use z last nexts px assms(2) in auto)
    then show ?thesis by (simp add: z)
  qed
  have B: "dll m' (last_or pr xs) (hnext (m p)) ys q"
  proof (cases ys)
    case Nil
    with ys show ?thesis by simp
  next
    case (Cons z zs)
    from ys assms(2) have "dll m' (last_or pr xs) (hnext (m p)) (z # zs) q"
      unfolding Cons by (elim dll_set_prev) (use Cons hd ny prevs assms(2) p in auto)
    then show ?thesis by (simp add: Cons)
  qed
  from A B nxt show ?thesis by (auto simp: dll_append)
qed

section \<open>Chunks tile the region\<close>

fun tiles :: "(int \<Rightarrow> header) \<Rightarrow> int \<Rightarrow> int \<Rightarrow> int list \<Rightarrow> bool" where
  "tiles m a b [] \<longleftrightarrow> a = b"
| "tiles m a b (c # cs) \<longleftrightarrow> c = a \<and> 0 \<le> hsize (m c) \<and> 8 dvd hsize (m c) \<and>
     tiles m (a + HDR + hsize (m c)) b cs"

lemma tiles_cong: "(\<And>c. c \<in> set cs \<Longrightarrow> hsize (m' c) = hsize (m c)) \<Longrightarrow> tiles m' a b cs = tiles m a b cs"
  by (induction cs arbitrary: a) auto

lemma tiles_append: "tiles m a b (xs @ ys) \<longleftrightarrow> (\<exists>c. tiles m a c xs \<and> tiles m c b ys)"
  by (induction xs arbitrary: a) auto

lemma tiles_bound:
  "tiles m a b cs \<Longrightarrow> a \<le> b \<and> (\<forall>c\<in>set cs. a \<le> c \<and> 0 \<le> hsize (m c) \<and> 8 dvd hsize (m c) \<and>
     c + HDR + hsize (m c) \<le> b)"
  by (induction cs arbitrary: a) (fastforce simp: HDR_def)+

lemma tiles_disjoint:
  assumes "tiles m a b cs" "c \<in> set cs" "d \<in> set cs" "c \<noteq> d"
  shows "c + HDR + hsize (m c) \<le> d \<or> d + HDR + hsize (m d) \<le> c"
  using assms
proof (induction cs arbitrary: a)
  case Nil
  then show ?case by simp
next
  case (Cons x cs)
  then show ?case
    using tiles_bound[of m "a + HDR + hsize (m x)" b cs] by auto
qed

lemma tiles_distinct: "tiles m a b cs \<Longrightarrow> distinct cs"
proof (induction cs arbitrary: a)
  case (Cons x cs)
  then show ?case
    using tiles_bound[of m "a + HDR + hsize (m x)" b cs] by (fastforce simp: HDR_def)
qed simp

lemma tiles_dvd: "tiles m a b cs \<Longrightarrow> c \<in> set cs \<Longrightarrow> 8 dvd c - a"
proof (induction cs arbitrary: a)
  case (Cons x cs)
  show ?case
  proof (cases "c = x")
    case False
    with Cons have "8 dvd c - (a + HDR + hsize (m x))" "8 dvd hsize (m x)" by auto
    then have "8 dvd (c - (a + HDR + hsize (m x))) + hsize (m x) + HDR"
      by (intro dvd_add) (auto simp: HDR_def)
    then show ?thesis by (simp add: algebra_simps)
  qed (use Cons in auto)
qed simp

lemma tiles_split:
  assumes "tiles m a b (xs @ p # ys)" "0 \<le> r" "8 dvd r" "0 < hsize (m p) - r - HDR"
    and "hsize (m' p) = r" "hsize (m' (p + r + HDR)) = hsize (m p) - r - HDR"
    and same: "\<And>c. c \<in> set xs \<union> set ys \<Longrightarrow> hsize (m' c) = hsize (m c)"
  shows "tiles m' a b (xs @ p # (p + r + HDR) # ys)"
proof -
  obtain c where c: "tiles m a c xs" "c = p" "0 \<le> hsize (m p)" "8 dvd hsize (m p)"
      "tiles m (c + HDR + hsize (m p)) b ys"
    using assms(1) by (auto simp: tiles_append)
  have "8 dvd hsize (m p) - r - HDR"
    using c(4) assms(3) by (auto simp: HDR_def)
  moreover have "tiles m' a c xs" "tiles m' (c + HDR + hsize (m p)) b ys"
    using c tiles_cong[of xs m' m] tiles_cong[of ys m' m] same by auto
  ultimately show ?thesis
    using c assms by (auto simp: tiles_append algebra_simps)
qed

lemma tiles_fresh:
  assumes "tiles m a b cs" "p \<in> set cs" "0 \<le> r" "0 < hsize (m p) - r - HDR"
  shows "p + r + HDR \<notin> set cs" "p + r + HDR \<noteq> p"
proof -
  show "p + r + HDR \<noteq> p" using assms(3) by (simp add: HDR_def)
  with tiles_disjoint[OF assms(1,2), of "p + r + HDR"] assms(3,4)
  show "p + r + HDR \<notin> set cs"
    using tiles_bound[OF assms(1)] by (auto simp: HDR_def)
qed


section \<open>The allocator's invariant\<close>

definition mapped :: "mem_state \<Rightarrow> int \<Rightarrow> bool" where
  "mapped s p \<longleftrightarrow> map_lo s \<le> p \<and> p + HDR \<le> map_hi s"

lemma mapped_upd [simp]:
  "mapped (s\<lparr>mem := m\<rparr>) p = mapped s p" "mapped (s\<lparr>freeList := a\<rparr>) p = mapped s p"
  "mapped (s\<lparr>memList := a\<rparr>) p = mapped s p"
  by (auto simp: mapped_def)

lemma mapped_simps [simp]:
  "mapped s p \<Longrightarrow> load s p = Some (mem s p)"
  "mapped s p \<Longrightarrow> store s p h = Some (s\<lparr>mem := (mem s)(p := h)\<rparr>)"
  "mapped s p \<Longrightarrow> modify s p f = Some (s\<lparr>mem := (mem s)(p := f (mem s p))\<rparr>)"
  by (auto simp: mapped_def load_def store_def modify_def)

text \<open>
  \<open>cs\<close> are the chunks in address order, \<open>fl\<close> and \<open>ml\<close> the free and the allocated ones
  in list order.
\<close>

definition lists_ok :: "mem_state \<Rightarrow> int list \<Rightarrow> int list \<Rightarrow> int list \<Rightarrow> bool" where
  "lists_ok s cs fl ml \<longleftrightarrow>
     dll (mem s) 0 (freeList s) fl 0 \<and> dll (mem s) 0 (memList s) ml 0 \<and>
     distinct fl \<and> distinct ml \<and>
     set fl = {c \<in> set cs. hfree (mem s c) \<noteq> 0} \<and> set ml = {c \<in> set cs. hfree (mem s c) = 0}"

definition region_ok :: "mem_state \<Rightarrow> int list \<Rightarrow> bool" where
  "region_ok s cs \<longleftrightarrow> 0 < begin_ptr s \<and> 8 dvd begin_ptr s \<and>
     map_lo s = begin_ptr s \<and> map_hi s = begin_ptr s + totalSize s \<and>
     tiles (mem s) (begin_ptr s) (map_hi s) cs"

definition heap_inv :: "mem_state \<Rightarrow> int list \<Rightarrow> int list \<Rightarrow> int list \<Rightarrow> bool" where
  "heap_inv s cs fl ml \<longleftrightarrow> region_ok s cs \<and> lists_ok s cs fl ml"

lemma region_mapped: "region_ok s cs \<Longrightarrow> c \<in> set cs \<Longrightarrow> mapped s c \<and> c \<noteq> 0"
  using tiles_bound[of "mem s" "begin_ptr s" "map_hi s" cs]
  by (fastforce simp: region_ok_def mapped_def)

section \<open>Placement policies\<close>

lemma firstfit_loop_eq:
  assumes "dll (mem s) pr h xs 0" "\<And>x. x \<in> set xs \<Longrightarrow> mapped s x"
  shows "firstfit_loop s siz h =
           Some (case find (\<lambda>x. siz \<le> hsize (mem s x)) xs of None \<Rightarrow> 0 | Some x \<Rightarrow> x)"
  using assms
proof (induction xs arbitrary: pr h)
  case Nil
  then show ?case by (simp add: firstfit_loop.simps)
next
  case (Cons x xs)
  then show ?case by (subst firstfit_loop.simps) auto
qed

text \<open>What a scan leaves in \<open>bestTmp\<close>, for the order given by \<open>k\<close>.\<close>

definition scan_result :: "(int \<Rightarrow> int) \<Rightarrow> mem_state \<Rightarrow> int \<Rightarrow> int list \<Rightarrow> int \<Rightarrow> bool \<Rightarrow> int \<Rightarrow> bool" where
  "scan_result k s siz xs best first r \<longleftrightarrow>
     (if first then
        if \<exists>x\<in>set xs. siz \<le> hsize (mem s x)
        then r \<in> set xs \<and> siz \<le> hsize (mem s r) \<and>
             (\<forall>x\<in>set xs. siz \<le> hsize (mem s x) \<longrightarrow> k (hsize (mem s r)) \<le> k (hsize (mem s x)))
        else r = best
      else (r = best \<or> r \<in> set xs \<and> siz \<le> hsize (mem s r) \<and> k (hsize (mem s r)) < k (hsize (mem s best))) \<and>
           (\<forall>x\<in>set xs. siz \<le> hsize (mem s x) \<longrightarrow> k (hsize (mem s r)) \<le> k (hsize (mem s x))))"

lemma fit_loop_result:
  assumes "\<And>a b. better a b \<longleftrightarrow> k a < (k b :: int)"
    and "dll (mem s) pr h xs 0" "\<And>x. x \<in> set xs \<Longrightarrow> mapped s x" "xs \<noteq> [] \<Longrightarrow> mapped s best"
  shows "\<exists>r. fit_loop better s siz h best first = Some r \<and> scan_result k s siz xs best first r"
  using assms(2-4)
proof (induction xs arbitrary: pr h best first)
  case Nil
  then show ?case by (subst fit_loop.simps) (simp add: scan_result_def)
next
  case (Cons x xs)
  let ?sz = "hsize (mem s x)"
  define b1 where "b1 = (if first \<and> siz \<le> ?sz then x else best)"
  define f1 where "f1 = (first \<and> \<not> siz \<le> ?sz)"
  define b2 where "b2 = (if siz \<le> ?sz \<and> better ?sz (hsize (mem s b1)) then x else b1)"
  have mb: "mapped s x" "mapped s b1" "mapped s b2"
    using Cons.prems by (auto simp: b1_def b2_def)
  have eq: "fit_loop better s siz h best first = fit_loop better s siz (hnext (mem s x)) b2 f1"
    using Cons.prems mb by (subst fit_loop.simps) (auto simp: b1_def f1_def b2_def)
  have "dll (mem s) x (hnext (mem s x)) xs 0" using Cons.prems(1) by simp
  with Cons.IH[of x "hnext (mem s x)" b2 f1] Cons.prems mb obtain r where
    r: "fit_loop better s siz (hnext (mem s x)) b2 f1 = Some r" "scan_result k s siz xs b2 f1 r"
    by auto
  consider (hit) first "siz \<le> ?sz" | (miss) first "\<not> siz \<le> ?sz"
    | (better) "\<not> first" "siz \<le> ?sz" "k ?sz < k (hsize (mem s best))"
    | (worse) "\<not> first" "siz \<le> ?sz \<longrightarrow> k (hsize (mem s best)) \<le> k ?sz"
    by linarith
  then have "scan_result k s siz (x # xs) best first r"
  proof cases
    case hit
    then have "b2 = x" "\<not> f1" by (auto simp: b1_def b2_def f1_def)
    with r(2) hit show ?thesis by (auto simp: scan_result_def)
  next
    case miss
    then have "b2 = best" "f1" by (auto simp: b1_def b2_def f1_def)
    with r(2) miss show ?thesis by (auto simp: scan_result_def)
  next
    case better
    then have "b2 = x" "\<not> f1" by (auto simp: b1_def b2_def f1_def assms(1))
    with r(2) better show ?thesis by (auto simp: scan_result_def)
  next
    case worse
    then have "b2 = best" "\<not> f1" by (auto simp: b1_def b2_def f1_def assms(1))
    with r(2) worse show ?thesis by (auto simp: scan_result_def)
  qed
  with r(1) eq show ?case by auto
qed

text \<open>
  The whole scan on a non-empty free list returns null exactly when nothing fits, and otherwise
  a fitting chunk that is least in the order \<open>k\<close>; on an empty list it dereferences null.
\<close>

lemma fit_nonempty:
  assumes "\<And>a b. better a b \<longleftrightarrow> k a < (k b :: int)"
    and "dll (mem s) 0 (freeList s) xs 0" "\<And>x. x \<in> set xs \<Longrightarrow> mapped s x" "xs \<noteq> []"
  shows "\<exists>r. fit better s siz = Some r \<and>
           (if \<exists>x\<in>set xs. siz \<le> hsize (mem s x)
            then r \<in> set xs \<and> siz \<le> hsize (mem s r) \<and>
                 (\<forall>x\<in>set xs. siz \<le> hsize (mem s x) \<longrightarrow> k (hsize (mem s r)) \<le> k (hsize (mem s x)))
            else r = 0)"
proof -
  have h: "freeList s \<in> set xs" using dll_head[OF assms(2)] assms(4) by simp
  from fit_loop_result[of better k, OF assms(1,2,3)] assms(3)[OF h] obtain r where
    r: "fit_loop better s siz (freeList s) (freeList s) True = Some r"
      "scan_result k s siz xs (freeList s) True r" by blast
  show ?thesis
  proof (cases "\<exists>x\<in>set xs. siz \<le> hsize (mem s x)")
    case True
    with r show ?thesis using assms(3) by (auto simp: fit_def scan_result_def)
  next
    case False
    with r h have "r = freeList s" "hsize (mem s r) < siz" by (auto simp: scan_result_def)
    with r False assms(3)[OF h] show ?thesis by (simp add: fit_def)
  qed
qed

lemma fit_empty: "freeList s = 0 \<Longrightarrow> 0 < map_lo s \<Longrightarrow> fit better s siz = None"
  by (simp add: fit_def fit_loop.simps load_def)


section \<open>List surgery\<close>

lemma distinct_ends:
  assumes "distinct (xs @ p # ys)"
  shows "xs \<noteq> [] \<Longrightarrow> last xs \<in> set xs \<and> last xs \<noteq> p" "ys \<noteq> [] \<Longrightarrow> hd ys \<in> set ys \<and> hd ys \<noteq> p"
    "xs \<noteq> [] \<Longrightarrow> ys \<noteq> [] \<Longrightarrow> last xs \<noteq> hd ys"
  using assms by (cases ys; cases xs rule: rev_cases; auto)+

lemma dll_middle:
  assumes "dll m 0 h (xs @ p # ys) 0"
  shows "hnext (m p) = hd_or 0 ys" "hprev (m p) = last_or 0 xs" "h = hd_or p xs" "p \<noteq> 0"
proof -
  have *: "dll m 0 h xs p" "hprev (m p) = last_or 0 xs" "dll m p (hnext (m p)) ys 0" "p \<noteq> 0"
    using assms by (auto simp: dll_append)
  show "hprev (m p) = last_or 0 xs" by (rule *(2))
  show "hnext (m p) = hd_or 0 ys" using *(3) by (rule dll_head)
  show "h = hd_or p xs" using *(1) by (rule dll_head)
  show "p \<noteq> 0" by (rule *(4))
qed

text \<open>Taking \<open>p\<close> out of its list, with the successor or the predecessor treated first.\<close>

definition unlinked :: "(int \<Rightarrow> header) \<Rightarrow> int list \<Rightarrow> int list \<Rightarrow> int \<Rightarrow> header" where
  "unlinked m xs ys =
     (let m1 = (if ys = [] then m else m(hd ys := (m (hd ys))\<lparr>hprev := last_or 0 xs\<rparr>))
      in if xs = [] then m1 else m1(last xs := (m1 (last xs))\<lparr>hnext := hd_or 0 ys\<rparr>))"

lemma unlinked_fields:
  "hsize (unlinked m xs ys x) = hsize (m x)" "hfree (unlinked m xs ys x) = hfree (m x)"
  "x \<notin> set xs \<union> set ys \<Longrightarrow> unlinked m xs ys x = m x"
  by (cases xs rule: rev_cases; cases ys; simp add: unlinked_def Let_def)+

lemma unlinked_dll:
  assumes "dll m 0 h (xs @ p # ys) 0" "distinct (xs @ p # ys)"
  shows "dll (unlinked m xs ys) 0 (if xs = [] then hnext (m p) else h) (xs @ ys) 0"
proof (rule dll_remove[OF assms])
  note neq = distinct_ends(3)[OF assms(2)]
  show "xs \<noteq> [] \<Longrightarrow> hnext (unlinked m xs ys (last xs)) = hnext (m p)"
    using dll_middle(1)[OF assms(1)] by (simp add: unlinked_def Let_def)
  show "ys \<noteq> [] \<Longrightarrow> hprev (unlinked m xs ys (hd ys)) = hprev (m p)"
    using dll_middle(2)[OF assms(1)] neq by (auto simp: unlinked_def Let_def)
  show "\<And>x. x \<in> set xs \<union> set ys \<Longrightarrow> xs = [] \<or> x \<noteq> last xs \<Longrightarrow>
      hnext (unlinked m xs ys x) = hnext (m x)"
    by (auto simp: unlinked_def Let_def)
  show "\<And>x. x \<in> set xs \<union> set ys \<Longrightarrow> ys = [] \<or> x \<noteq> hd ys \<Longrightarrow>
      hprev (unlinked m xs ys x) = hprev (m x)"
    by (auto simp: unlinked_def Let_def)
qed

lemma unlink_eq:
  assumes "dll (mem s) 0 h (xs @ p # ys) 0" "distinct (xs @ p # ys)"
    and "\<And>x. x \<in> set (xs @ p # ys) \<Longrightarrow> mapped s x"
  shows "do { s \<leftarrow> fix_next s p; fix_prev s p } = Some (s\<lparr>mem := unlinked (mem s) xs ys\<rparr>)"
    and "do { s \<leftarrow> fix_prev s p; fix_next s p } = Some (s\<lparr>mem := unlinked (mem s) xs ys\<rparr>)"
proof -
  note mid = dll_middle[OF assms(1)]
  have z: "0 \<notin> set (xs @ p # ys)" using dll_nonnull[OF assms(1)] .
  note ends = distinct_ends[OF assms(2)]
  have x: "last xs \<noteq> 0 \<and> mapped s (last xs) \<and> last xs \<noteq> p" if "xs \<noteq> []"
    using ends(1)[OF that] z assms(3)[of "last xs"] by auto
  have y: "hd ys \<noteq> 0 \<and> mapped s (hd ys) \<and> hd ys \<noteq> p" if "ys \<noteq> []"
    using ends(2)[OF that] z assms(3)[of "hd ys"] by auto
  note neq = ends(3)
  have p: "mapped s p" using assms(3) by simp
  show "do { s \<leftarrow> fix_next s p; fix_prev s p } = Some (s\<lparr>mem := unlinked (mem s) xs ys\<rparr>)"
    using p x y neq mid
    by (cases "xs = []"; cases "ys = []"; simp add: fix_next_def fix_prev_def unlinked_def Let_def)
  show "do { s \<leftarrow> fix_prev s p; fix_next s p } = Some (s\<lparr>mem := unlinked (mem s) xs ys\<rparr>)"
    using p x y neq mid
    by (cases "xs = []"; cases "ys = []";
        simp add: fix_next_def fix_prev_def unlinked_def Let_def fun_upd_twist)
qed

text \<open>Putting \<open>p\<close> in front of a list.\<close>

lemma dll_push:
  assumes "dll m 0 h xs 0" "distinct (p # xs)" "p \<noteq> 0"
    and "hnext (m' p) = h" "hprev (m' p) = 0" "xs \<noteq> [] \<Longrightarrow> hprev (m' (hd xs)) = p"
    and "\<And>x. x \<in> set xs \<Longrightarrow> hnext (m' x) = hnext (m x)"
    and "\<And>x. x \<in> set xs \<Longrightarrow> x \<noteq> hd xs \<Longrightarrow> hprev (m' x) = hprev (m x)"
  shows "dll m' 0 p (p # xs) 0"
proof (cases xs)
  case Nil
  with assms show ?thesis by simp
next
  case (Cons y ys)
  from assms(1,2) have "dll m' p h (y # ys) 0"
    unfolding Cons by (elim dll_set_prev) (use assms Cons in auto)
  with assms Cons show ?thesis by simp
qed


section \<open>Mem\_Alloc keeps the invariant\<close>

definition same_frame :: "mem_state \<Rightarrow> mem_state \<Rightarrow> bool" where
  "same_frame s s' \<longleftrightarrow> begin_ptr s' = begin_ptr s \<and> totalSize s' = totalSize s \<and>
     map_lo s' = map_lo s \<and> map_hi s' = map_hi s \<and> initialized s' = initialized s"

lemma region_ok_cong:
  "region_ok s cs \<Longrightarrow> same_frame s s' \<Longrightarrow> (\<And>c. c \<in> set cs \<Longrightarrow> hsize (mem s' c) = hsize (mem s c)) \<Longrightarrow>
     region_ok s' cs"
  using tiles_cong[of cs "mem s'" "mem s"] by (auto simp: region_ok_def same_frame_def)

lemma lists_disjoint: "lists_ok s cs fl ml \<Longrightarrow> set fl \<inter> set ml = {}"
  by (auto simp: lists_ok_def)

definition split_mem :: "mem_state \<Rightarrow> int \<Rightarrow> int \<Rightarrow> int \<Rightarrow> header" where
  "split_mem s p r =
     (let n = p + r + HDR;
          m1 = (mem s)(n := \<lparr>hsize = hsize (mem s p) - r - HDR, hfree = 1, hnext = freeList s, hprev = 0\<rparr>);
          m2 = m1(freeList s := (m1 (freeList s))\<lparr>hprev := n\<rparr>)
      in m2(p := (m2 p)\<lparr>hsize := r\<rparr>))"

lemma size_left_eq: "0 \<le> siz \<Longrightarrow> siz < 2 ^ 31 \<Longrightarrow> 0 \<le> r \<Longrightarrow> r < 2 ^ 31 - HDR \<Longrightarrow> size_left siz r = siz - r - HDR"
  by (simp add: size_left_def wrap32_id HDR_def)

lemma split_chunk_ok:
  assumes inv: "region_ok s cs" "lists_ok s cs fl ml" and p: "p \<in> set fl"
    and r: "0 \<le> r" "8 dvd r" and big: "hsize (mem s p) - r - HDR > 0" and int: "hsize (mem s p) < 2 ^ 31"
  shows "\<exists>s' cs'. split_chunk s p r = Some s' \<and> same_frame s s' \<and> memList s' = memList s \<and>
           m_error s' = m_error s \<and>
           region_ok s' cs' \<and> lists_ok s' cs' ((p + r + HDR) # fl) ml \<and> set cs \<subseteq> set cs' \<and>
           hsize (mem s' p) = r \<and> (\<forall>c\<in>set cs. c \<noteq> p \<longrightarrow> hsize (mem s' c) = hsize (mem s c))"
proof -
  let ?n = "p + r + HDR"
  let ?m = "split_mem s p r"
  let ?s = "s\<lparr>mem := ?m, freeList := ?n\<rparr>"
  have pcs: "p \<in> set cs" and fl: "set fl \<subseteq> set cs" and ml: "set ml \<subseteq> set cs"
    using inv(2) p by (auto simp: lists_ok_def)
  have t: "tiles (mem s) (begin_ptr s) (map_hi s) cs" using inv(1) by (auto simp: region_ok_def)
  note fresh = tiles_fresh[OF t pcs r(1) big]
  have dl: "dll (mem s) 0 (freeList s) fl 0" using inv(2) by (simp add: lists_ok_def)
  have "fl \<noteq> []" using p by auto
  then have h: "freeList s = hd fl" "freeList s \<in> set fl" using dll_head[OF dl] by auto
  have map: "mapped s p" "mapped s (freeList s)" "freeList s \<noteq> 0" "freeList s \<noteq> ?n" "p \<noteq> 0" "?n \<noteq> p"
    using region_mapped[OF inv(1)] pcs fl h fresh by auto
  have mn: "mapped s ?n" "?n \<noteq> 0"
    using tiles_bound[OF t] pcs big inv(1) r(1) by (fastforce simp: mapped_def region_ok_def HDR_def)+
  have eq: "split_chunk s p r = Some ?s"
    using map mn big size_left_eq[of "hsize (mem s p)" r] r int
    by (simp add: split_chunk_def split_mem_def Let_def fun_upd_twist HDR_def)
  have szs: "hsize (?m p) = r" "hsize (?m ?n) = hsize (mem s p) - r - HDR"
      "\<And>c. c \<in> set cs \<Longrightarrow> c \<noteq> p \<Longrightarrow> hsize (?m c) = hsize (mem s c)"
    using fresh map by (auto simp: split_mem_def Let_def)
  have frees: "hfree (?m ?n) = 1" "\<And>c. c \<in> set cs \<Longrightarrow> hfree (?m c) = hfree (mem s c)"
    using fresh map by (auto simp: split_mem_def Let_def)
  obtain xs ys where cs: "cs = xs @ p # ys" using pcs by (meson split_list)
  have dis: "distinct cs" using tiles_distinct[OF t] .
  have "tiles ?m (begin_ptr s) (map_hi s) (xs @ p # ?n # ys)"
    by (rule tiles_split[where m = "mem s"]) (use t r big szs cs dis in auto)
  then have reg: "region_ok ?s (xs @ p # ?n # ys)" using inv(1) by (auto simp: region_ok_def)
  have "dll ?m 0 ?n (?n # fl) 0"
  proof (rule dll_push[OF dl])
    show "distinct (?n # fl)" using fresh fl inv(2) by (auto simp: lists_ok_def)
    show "fl \<noteq> [] \<Longrightarrow> hprev (?m (hd fl)) = ?n"
      using h map by (auto simp: split_mem_def Let_def)
    show "hprev (?m x) = hprev (mem s x)" if "x \<in> set fl" "x \<noteq> hd fl" for x
      using that h fresh fl map by (auto simp: split_mem_def Let_def)
    show "hnext (?m x) = hnext (mem s x)" if "x \<in> set fl" for x
      using that fresh fl map by (auto simp: split_mem_def Let_def)
  qed (use map mn in \<open>auto simp: split_mem_def Let_def\<close>)
  moreover have "dll ?m 0 (memList s) ml 0"
  proof -
    have "?m x = mem s x" if "x \<in> set ml" for x
      using that fresh ml p h lists_disjoint[OF inv(2)] by (auto simp: split_mem_def Let_def)
    then show ?thesis
      using inv(2) dll_cong[of ml ?m "mem s"] by (simp add: lists_ok_def)
  qed
  moreover have "set (xs @ p # ?n # ys) = insert ?n (set cs)" by (auto simp: cs)
  moreover have "{c \<in> insert ?n (set cs). hfree (?m c) \<noteq> 0} = insert ?n (set fl)"
      "{c \<in> insert ?n (set cs). hfree (?m c) = 0} = set ml"
    using inv(2) frees by (auto simp: lists_ok_def)
  moreover have "distinct (?n # fl)" "distinct ml" using fresh fl inv(2) by (auto simp: lists_ok_def)
  ultimately have "lists_ok ?s (xs @ p # ?n # ys) (?n # fl) ml"
    by (simp add: lists_ok_def)
  with eq reg szs show ?thesis
    by (intro exI[of _ ?s] exI[of _ "xs @ p # ?n # ys"]) (auto simp: same_frame_def cs)
qed


definition taken_mem :: "mem_state \<Rightarrow> int \<Rightarrow> int list \<Rightarrow> int list \<Rightarrow> int \<Rightarrow> header" where
  "taken_mem s p xs ys =
     (let m0 = unlinked (mem s) xs ys;
          m1 = (if memList s \<noteq> 0 then m0(memList s := (m0 (memList s))\<lparr>hprev := p\<rparr>) else m0)
      in m1(p := (m1 p)\<lparr>hnext := memList s, hprev := 0, hfree := 0\<rparr>))"

lemma take_chunk_eq:
  assumes "dll (mem s) 0 (freeList s) (xs @ p # ys) 0" "distinct (xs @ p # ys)"
    and "\<And>x. x \<in> set (xs @ p # ys) \<Longrightarrow> mapped s x"
    and "memList s \<noteq> 0 \<Longrightarrow> mapped s (memList s)" "memList s \<noteq> p"
  shows "take_chunk s p = Some (s\<lparr>mem := taken_mem s p xs ys,
           freeList := (if xs = [] then hnext (mem s p) else freeList s), memList := p\<rparr>)"
proof -
  have p: "mapped s p" using assms(3) by simp
  have head: "p = freeList s \<longleftrightarrow> xs = []"
    using dll_middle(3)[OF assms(1)] distinct_ends(1)[of "[]" p xs] assms(2) by (cases xs) auto
  have un: "unlinked (mem s) xs ys p = mem s p" using assms(2) by (intro unlinked_fields) auto
  have "fix_next s p \<bind> (\<lambda>s. fix_prev s p) = Some (s\<lparr>mem := unlinked (mem s) xs ys\<rparr>)"
    by (rule unlink_eq(1)[OF assms(1-3)])
  then have "take_chunk s p = (do {
       let s = s\<lparr>mem := unlinked (mem s) xs ys\<rparr>;
       h \<leftarrow> load s p;
       let s = (if p = freeList s then s\<lparr>freeList := hnext h\<rparr> else s);
       s \<leftarrow> modify s p (\<lambda>n. n\<lparr>hnext := memList s\<rparr>);
       s \<leftarrow> (if memList s \<noteq> 0 then modify s (memList s) (\<lambda>n. n\<lparr>hprev := p\<rparr>) else Some s);
       s \<leftarrow> modify s p (\<lambda>n. n\<lparr>hprev := 0\<rparr>);
       modify (s\<lparr>memList := p\<rparr>) p (\<lambda>n. n\<lparr>hfree := 0\<rparr>)
     })"
    unfolding take_chunk_def by (simp add: Let_def flip: bind_assoc)
  then show ?thesis
    using p assms(4,5) head un
    by (cases "xs = []"; cases "memList s = 0"; simp add: taken_mem_def Let_def fun_upd_twist)
qed

lemma take_chunk_ok:
  assumes inv: "region_ok s cs" "lists_ok s cs fl ml" and p: "p \<in> set fl"
  shows "\<exists>s' fl'. take_chunk s p = Some s' \<and> same_frame s s' \<and> m_error s' = m_error s \<and>
           region_ok s' cs \<and> lists_ok s' cs fl' (p # ml) \<and> set fl' = set fl - {p} \<and>
           (\<forall>c. hsize (mem s' c) = hsize (mem s c))"
proof -
  obtain xs ys where fl: "fl = xs @ p # ys" using p by (meson split_list)
  let ?m = "taken_mem s p xs ys"
  let ?fr = "if xs = [] then hnext (mem s p) else freeList s"
  let ?s = "s\<lparr>mem := ?m, freeList := ?fr, memList := p\<rparr>"
  have sub: "set fl \<subseteq> set cs" "set ml \<subseteq> set cs" and dis: "set fl \<inter> set ml = {}" "distinct fl" "distinct ml"
    using inv(2) by (auto simp: lists_ok_def)
  have dl: "dll (mem s) 0 (freeList s) (xs @ p # ys) 0" "dll (mem s) 0 (memList s) ml 0"
    using inv(2) by (auto simp: lists_ok_def fl)
  have memh: "memList s = hd_or 0 ml" using dll_head[OF dl(2)] .
  have map: "\<And>x. x \<in> set cs \<Longrightarrow> mapped s x" "\<And>x. x \<in> set cs \<Longrightarrow> x \<noteq> 0"
    using region_mapped[OF inv(1)] by auto
  have mh: "memList s \<noteq> 0 \<Longrightarrow> memList s \<in> set ml" using memh by (auto split: if_splits)
  have mp: "memList s \<noteq> p" using mh dis(1) p map(2) sub(1) by (cases "memList s = 0") auto
  have eq: "take_chunk s p = Some ?s"
    by (rule take_chunk_eq[OF dl(1)]) (use dis(2) fl map sub mh mp in auto)
  have szs: "hsize (?m c) = hsize (mem s c)" for c
    by (auto simp: taken_mem_def Let_def unlinked_fields)
  have frees: "hfree (?m c) = (if c = p then 0 else hfree (mem s c))" for c
    by (auto simp: taken_mem_def Let_def unlinked_fields)
  have fls: "?m x = unlinked (mem s) xs ys x" if "x \<in> set (xs @ ys)" for x
    using that mh dis fl by (auto simp: taken_mem_def Let_def)
  have "dll ?m 0 ?fr (xs @ ys) 0"
    using unlinked_dll[OF dl(1)] dis(2) dll_cong[of "xs @ ys" ?m "unlinked (mem s) xs ys"] fls
    by (simp add: fl)
  moreover have "dll ?m 0 p (p # ml) 0"
  proof (rule dll_push[OF dl(2)])
    have un: "unlinked (mem s) xs ys x = mem s x" if "x \<in> set ml" for x
      using that dis(1) fl by (intro unlinked_fields) auto
    show "distinct (p # ml)" using dis p by auto
    show "p \<noteq> 0" using map sub p by auto
    show "ml \<noteq> [] \<Longrightarrow> hprev (?m (hd ml)) = p"
      using memh mp map sub by (cases ml) (auto simp: taken_mem_def Let_def)
    show "hnext (?m x) = hnext (mem s x)" if "x \<in> set ml" for x
      using that un dis(1) p by (auto simp: taken_mem_def Let_def)
    show "hprev (?m x) = hprev (mem s x)" if "x \<in> set ml" "x \<noteq> hd ml" for x
      using that un dis(1) p memh by (auto simp: taken_mem_def Let_def)
  qed (auto simp: taken_mem_def Let_def)
  moreover have "set (xs @ ys) = {c \<in> set cs. hfree (?m c) \<noteq> 0}" "set (p # ml) = {c \<in> set cs. hfree (?m c) = 0}"
    using inv(2) dis fl sub by (auto simp: lists_ok_def frees)
  ultimately have "lists_ok ?s cs (xs @ ys) (p # ml)"
    using dis fl p by (auto simp: lists_ok_def)
  moreover have "region_ok ?s cs"
    by (rule region_ok_cong[OF inv(1)]) (auto simp: same_frame_def szs)
  moreover have "set (xs @ ys) = set fl - {p}" using dis(2) fl by auto
  ultimately show ?thesis
    using eq szs by (intro exI[of _ ?s] exI[of _ "xs @ ys"]) (auto simp: same_frame_def)
qed

lemma round_up8_props:
  assumes "0 \<le> siz" "siz \<le> 2 ^ 31 - 8"
  shows "siz \<le> round_up8 siz \<and> round_up8 siz < siz + 8 \<and> 8 dvd round_up8 siz"
proof -
  have m: "c_rem siz 8 = siz mod 8" "0 \<le> siz mod 8" "siz mod 8 < 8" using assms(1) by (simp_all add: c_rem_def)
  have "wrap32 (siz + (8 - siz mod 8)) = siz + (8 - siz mod 8)" if "siz mod 8 \<noteq> 0"
  proof (rule wrap32_id)
    show "siz + (8 - siz mod 8) < 2 ^ 31" using assms(2) m(2) that by linarith
  qed (use assms m in linarith)
  moreover have "8 dvd siz + (8 - siz mod 8)" by presburger
  moreover have "siz mod 8 = 0 \<Longrightarrow> 8 dvd siz" by auto
  ultimately show ?thesis using m by (auto simp: round_up8_def)
qed

section \<open>Mem\_Init and Mem\_Alloc\<close>

lemma Mem_Init_ok:
  assumes "\<not> initialized s" "0 < sizeOfRegion" "0 < pageSize" "8 dvd pageSize" "HDR \<le> pageSize"
    and "0 < p" "8 dvd p" "memList s = 0" "sizeOfRegion + pageSize \<le> 2 ^ 31"
  shows "\<exists>s'. Mem_Init pageSize (Some p) s sizeOfRegion = Some (0, s') \<and> heap_inv s' [p] [p] [] \<and>
           sizeOfRegion \<le> totalSize s' \<and> pageSize dvd totalSize s' \<and> totalSize s' < 2 ^ 31"
proof -
  define req where "req = (if c_rem sizeOfRegion pageSize \<noteq> 0
      then sizeOfRegion + (pageSize - c_rem sizeOfRegion pageSize) else sizeOfRegion)"
  have rem: "c_rem sizeOfRegion pageSize = sizeOfRegion mod pageSize" using assms(2) by (simp add: c_rem_def)
  have bnd: "0 \<le> sizeOfRegion mod pageSize" "sizeOfRegion mod pageSize < pageSize" using assms(3) by auto
  have "req = pageSize * (sizeOfRegion div pageSize + (if sizeOfRegion mod pageSize \<noteq> 0 then 1 else 0))"
    using mult_div_mod_eq[of pageSize sizeOfRegion] by (auto simp: req_def rem algebra_simps)
  then have dv: "pageSize dvd req" by simp
  have ge: "sizeOfRegion \<le> req" "0 < req" using bnd assms(2) by (auto simp: req_def rem)
  have big: "HDR \<le> req" using dv ge assms(3,5) zdvd_imp_le[of pageSize req] by linarith
  have "8 dvd req" using dv assms(4) by (rule dvd_trans[rotated])
  then have d8: "8 dvd req - HDR" by (simp add: HDR_def)
  have lt: "req < 2 ^ 31" using assms(9) bnd by (auto simp: req_def rem)
  have w: "wrap32 req = req" "wrap32 (req - HDR) = req - HDR"
    using lt big ge by (simp_all add: wrap32_id HDR_def)
  show ?thesis
    using assms big d8 ge dv lt w
    by (auto simp: Mem_Init_def Let_def store_def heap_inv_def region_ok_def lists_ok_def
        req_def[symmetric])
qed

text \<open>What each policy promises of the chunk it selects from the free list \<open>fl\<close>.\<close>

definition policy_choice :: "mem_state \<Rightarrow> int \<Rightarrow> int \<Rightarrow> int list \<Rightarrow> int \<Rightarrow> bool" where
  "policy_choice s r policy fl p \<longleftrightarrow> p \<in> set fl \<and> r \<le> hsize (mem s p) \<and>
     (policy = BESTFIT \<longrightarrow> (\<forall>x\<in>set fl. r \<le> hsize (mem s x) \<longrightarrow> hsize (mem s p) \<le> hsize (mem s x))) \<and>
     (policy = WORSTFIT \<longrightarrow> (\<forall>x\<in>set fl. hsize (mem s x) \<le> hsize (mem s p))) \<and>
     (policy = FIRSTFIT \<longrightarrow> find (\<lambda>x. r \<le> hsize (mem s x)) fl = Some p)"

lemma select_chunk_ok:
  assumes "heap_inv s cs fl ml" "policy \<in> {BESTFIT, WORSTFIT, FIRSTFIT}" "policy = FIRSTFIT \<or> fl \<noteq> []"
  shows "\<exists>p. select_chunk s r policy = Some p \<and>
           (if \<exists>x\<in>set fl. r \<le> hsize (mem s x) then policy_choice s r policy fl p else p = 0)"
proof -
  have dl: "dll (mem s) 0 (freeList s) fl 0" and sub: "set fl \<subseteq> set cs" and reg: "region_ok s cs"
    using assms(1) by (auto simp: heap_inv_def lists_ok_def)
  have map: "mapped s x" if "x \<in> set fl" for x using region_mapped[OF reg] sub that by auto
  note pol = BESTFIT_def WORSTFIT_def FIRSTFIT_def
  consider "policy = FIRSTFIT" | "policy = BESTFIT" "fl \<noteq> []" | "policy = WORSTFIT" "fl \<noteq> []"
    using assms by auto
  then show ?thesis
  proof cases
    case 1
    then have "select_chunk s r policy =
        Some (case find (\<lambda>x. r \<le> hsize (mem s x)) fl of None \<Rightarrow> 0 | Some x \<Rightarrow> x)"
      using firstfit_loop_eq[OF dl map] by (simp add: select_chunk_def firstfit_def pol)
    then show ?thesis
      using 1 by (auto simp: policy_choice_def find_Some_iff find_None_iff pol split: option.splits)
  next
    case 2
    from fit_nonempty[of "\<lambda>a b. a < b" "\<lambda>x. x", OF _ dl map 2(2), of r] obtain p where
      "bestfit s r = Some p" "if \<exists>x\<in>set fl. r \<le> hsize (mem s x)
        then p \<in> set fl \<and> r \<le> hsize (mem s p) \<and>
          (\<forall>x\<in>set fl. r \<le> hsize (mem s x) \<longrightarrow> hsize (mem s p) \<le> hsize (mem s x))
        else p = 0"
      by (auto simp: bestfit_def)
    then show ?thesis
      using 2 by (force simp: select_chunk_def policy_choice_def pol split: if_splits)
  next
    case 3
    from fit_nonempty[of "\<lambda>a b. a > b" "\<lambda>x. - x", OF _ dl map 3(2), of r] obtain p where
      "worstfit s r = Some p" "if \<exists>x\<in>set fl. r \<le> hsize (mem s x)
        then p \<in> set fl \<and> r \<le> hsize (mem s p) \<and>
          (\<forall>x\<in>set fl. r \<le> hsize (mem s x) \<longrightarrow> - hsize (mem s p) \<le> - hsize (mem s x))
        else p = 0"
      by (auto simp: worstfit_def)
    then show ?thesis
      using 3 by (force simp: select_chunk_def policy_choice_def pol split: if_splits)
  qed
qed

lemma Mem_Alloc_success:
  assumes inv: "heap_inv s cs fl ml" and pol: "policy \<in> {BESTFIT, WORSTFIT, FIRSTFIT}"
    and siz: "0 \<le> siz" "siz \<le> 2 ^ 31 - 8" and int: "totalSize s < 2 ^ 31" and fits: "\<exists>x\<in>set fl. round_up8 siz \<le> hsize (mem s x)"
  shows "\<exists>p s' cs' fl'. Mem_Alloc s siz policy = Some (p + HDR, s') \<and> p \<noteq> 0 \<and>
           policy_choice s (round_up8 siz) policy fl p \<and> same_frame s s' \<and>
           heap_inv s' cs' fl' (p # ml) \<and> round_up8 siz \<le> hsize (mem s' p) \<and>
           (\<forall>c\<in>set ml. hsize (mem s' c) = hsize (mem s c))"
proof -
  let ?r = "round_up8 siz"
  have r: "0 \<le> ?r" "8 dvd ?r" using round_up8_props[OF siz] siz by auto
  have "fl \<noteq> []" using fits by auto
  then obtain p where p: "select_chunk s ?r policy = Some p" "policy_choice s ?r policy fl p"
    using select_chunk_ok[OF inv pol, of ?r] fits by meson
  have reg: "region_ok s cs" and lst: "lists_ok s cs fl ml" using inv by (auto simp: heap_inv_def)
  have pin: "p \<in> set fl" "?r \<le> hsize (mem s p)" using p(2) by (auto simp: policy_choice_def)
  then have p0: "p \<noteq> 0" "p \<in> set cs" using lst region_mapped[OF reg] by (auto simp: lists_ok_def)
  have lt: "hsize (mem s p) < 2 ^ 31 - HDR" "0 \<le> hsize (mem s p)"
    using tiles_bound[of "mem s" "begin_ptr s" "map_hi s" cs] reg p0(2) int by (fastforce simp: region_ok_def)+
  have mls: "c \<in> set cs \<and> c \<noteq> p" if "c \<in> set ml" for c
    using that lst lists_disjoint[OF lst] pin(1) by (auto simp: lists_ok_def)
  have "\<exists>s1 cs1 fl1. split_chunk s p ?r = Some s1 \<and> same_frame s s1 \<and> region_ok s1 cs1 \<and>
      lists_ok s1 cs1 fl1 ml \<and> p \<in> set fl1 \<and> ?r \<le> hsize (mem s1 p) \<and>
      (\<forall>c\<in>set ml. hsize (mem s1 c) = hsize (mem s c))"
  proof (cases "hsize (mem s p) - ?r - HDR > 0")
    case True
    have "hsize (mem s p) < 2 ^ 31" using lt(1) by (simp add: HDR_def)
    from split_chunk_ok[OF reg lst pin(1) r True this] pin mls show ?thesis by fastforce
  next
    case False
    then have "split_chunk s p ?r = Some s"
      using region_mapped[OF reg p0(2)] size_left_eq[of "hsize (mem s p)" ?r] r lt pin(2)
      by (simp add: split_chunk_def HDR_def)
    with reg lst pin show ?thesis by (auto simp: same_frame_def)
  qed
  then obtain s1 cs1 fl1 where s1: "split_chunk s p ?r = Some s1" "same_frame s s1" "region_ok s1 cs1"
      "lists_ok s1 cs1 fl1 ml" "p \<in> set fl1" "?r \<le> hsize (mem s1 p)"
      "\<forall>c\<in>set ml. hsize (mem s1 c) = hsize (mem s c)"
    by blast
  from take_chunk_ok[OF s1(3,4,5)] obtain s2 fl2 where s2: "take_chunk s1 p = Some s2" "same_frame s1 s2"
      "region_ok s2 cs1" "lists_ok s2 cs1 fl2 (p # ml)" "\<forall>c. hsize (mem s2 c) = hsize (mem s1 c)"
    by blast
  have "Mem_Alloc s siz policy = Some (p + HDR, s2)"
    using p(1) p0 s1(1) s2(1) by (simp add: Mem_Alloc_def)
  moreover have "same_frame s s2" using s1(2) s2(2) by (auto simp: same_frame_def)
  ultimately show ?thesis
    using p(2) p0(1) s1 s2 by (intro exI[of _ p] exI[of _ s2] exI[of _ cs1] exI[of _ fl2]) (simp add: heap_inv_def)
qed

lemma Mem_Alloc_no_space:
  assumes inv: "heap_inv s cs fl ml" and pol: "policy \<in> {BESTFIT, WORSTFIT, FIRSTFIT}"
    and fl: "policy = FIRSTFIT \<or> fl \<noteq> []"
    and none: "\<not> (\<exists>x\<in>set fl. round_up8 siz \<le> hsize (mem s x))"
  shows "Mem_Alloc s siz policy = Some (0, s\<lparr>m_error := E_NO_SPACE\<rparr>)"
  using select_chunk_ok[OF inv pol fl, of "round_up8 siz"] none pol by (auto simp: Mem_Alloc_def)

lemma Mem_Alloc_null:
  assumes inv: "heap_inv s cs [] ml" and pol: "policy \<in> {BESTFIT, WORSTFIT}"
  shows "Mem_Alloc s siz policy = None"
proof -
  have "freeList s = 0" "0 < map_lo s"
    using inv by (auto simp: heap_inv_def lists_ok_def region_ok_def)
  then show ?thesis
    using pol by (auto simp: Mem_Alloc_def select_chunk_def bestfit_def worstfit_def fit_empty
        BESTFIT_def WORSTFIT_def FIRSTFIT_def)
qed

end
