(* ===== verification/MemFree.thy ===== *)
theory MemFree
  imports MemAlloc
begin

text \<open>
  \<open>coalesce\<close> and \<open>Mem_Free\<close> of \<open>P3/mem_allocator/mem.c\<close>: the walk over the region that
  merges neighbouring free chunks and rebuilds the free list, the proof that it keeps the
  invariant of the allocator, and the contract a client of the library relies on, interpreted
  for the policy FIRSTFIT.
\<close>

section \<open>coalesce\<close>

abbreviation frees :: "(int \<Rightarrow> header) \<Rightarrow> int list \<Rightarrow> int list" where
  "frees m cs \<equiv> filter (\<lambda>c. hfree (m c) \<noteq> 0) cs"

text \<open>No two neighbouring chunks are both free.\<close>

definition spaced :: "(int \<Rightarrow> header) \<Rightarrow> int list \<Rightarrow> bool" where
  "spaced m cs \<longleftrightarrow> successively (\<lambda>c d. hfree (m c) = 0 \<or> hfree (m d) = 0) cs"

text \<open>
  The walk has turned the chunks from \<open>a\<close> up to \<open>cur\<close> into \<open>ds\<close>: they still tile that part
  of the region, none of their neighbours are both free, and the free ones are linked in address
  order, the last of them being \<open>prev\<close>, whose \<open>next\<close> field is not yet final.
\<close>

definition co_inv :: "(int \<Rightarrow> header) \<Rightarrow> int \<Rightarrow> int \<Rightarrow> int list \<Rightarrow> int \<Rightarrow> int \<Rightarrow> bool \<Rightarrow> bool" where
  "co_inv m a cur ds fr prev immediate \<longleftrightarrow>
     tiles m a cur ds \<and> (frees m ds \<noteq> [] \<longrightarrow> (\<exists>q. dll m 0 fr (frees m ds) q)) \<and>
     prev = last_or 0 (frees m ds) \<and>
     (immediate \<longleftrightarrow> ds \<noteq> [] \<and> hfree (m (last ds)) \<noteq> 0) \<and> spaced m ds"

text \<open>What one turn, or the whole rest of the walk, leaves alone.\<close>

definition co_frame :: "(int \<Rightarrow> header) \<Rightarrow> (int \<Rightarrow> header) \<Rightarrow> int list \<Rightarrow> int list \<Rightarrow> int list \<Rightarrow> bool" where
  "co_frame m m' ds cs ds' \<longleftrightarrow>
     (\<forall>x. hfree (m x) = 0 \<longrightarrow> m' x = m x) \<and>
     (\<forall>x. hfree (m x) \<noteq> 0 \<longrightarrow> hfree (m' x) \<noteq> 0) \<and>
     set ds' \<subseteq> set ds \<union> set cs \<and>
     {x \<in> set ds'. hfree (m' x) = 0} = {x \<in> set ds \<union> set cs. hfree (m x) = 0} \<and>
     (frees m (ds @ cs) \<noteq> [] \<longrightarrow> frees m' ds' \<noteq> [])"

lemma frees_cong: "(\<And>x. x \<in> set ds \<Longrightarrow> hfree (m' x) = hfree (m x)) \<Longrightarrow> frees m' ds = frees m ds"
  by (intro filter_cong) auto

lemma spaced_cong:
  assumes "\<And>x. x \<in> set ds \<Longrightarrow> hfree (m' x) = hfree (m x)"
  shows "spaced m' ds = spaced m ds"
  unfolding spaced_def by (rule successively_cong) (use assms in auto)

lemma spaced_snoc: "spaced m (ds @ [c]) \<longleftrightarrow>
    spaced m ds \<and> (ds \<noteq> [] \<longrightarrow> hfree (m (last ds)) = 0 \<or> hfree (m c) = 0)"
  by (auto simp: spaced_def successively_append_iff)

lemma tiles_snoc:
  "tiles m a cur ds \<Longrightarrow> 0 \<le> hsize (m cur) \<Longrightarrow> 8 dvd hsize (m cur) \<Longrightarrow>
     tiles m a (cur + HDR + hsize (m cur)) (ds @ [cur])"
  by (auto simp: tiles_append)

text \<open>The chunks already walked lie below \<open>cur\<close>.\<close>

lemma co_inv_below: "co_inv m a cur ds fr prev imm \<Longrightarrow> x \<in> set ds \<Longrightarrow> a \<le> x \<and> x < cur"
  using tiles_bound[of m a cur ds] by (fastforce simp: co_inv_def HDR_def)

lemma co_inv_prev: "co_inv m a cur ds fr prev imm \<Longrightarrow> prev \<noteq> 0 \<Longrightarrow>
    prev \<in> set ds \<and> hfree (m prev) \<noteq> 0 \<and> frees m ds \<noteq> [] \<and> prev = last (frees m ds)"
  using last_in_set[of "frees m ds"] by (auto simp: co_inv_def split: if_splits)

lemma co_step_alloc:
  assumes "co_inv m a cur ds fr prev imm" "hfree (m cur) = 0" "0 \<le> hsize (m cur)" "8 dvd hsize (m cur)"
  shows "co_inv m a (cur + HDR + hsize (m cur)) (ds @ [cur]) fr prev False"
  using assms tiles_snoc[of m a cur ds] by (auto simp: co_inv_def spaced_snoc)

lemma co_step_first:
  assumes "co_inv m a cur ds fr 0 imm" "hfree (m cur) \<noteq> 0" "0 \<le> hsize (m cur)" "8 dvd hsize (m cur)"
    and "0 < a" "a \<le> cur"
    and m': "m' = m(cur := (m cur)\<lparr>hprev := 0, hnext := 0\<rparr>)"
  shows "co_inv m' a (cur + HDR + hsize (m cur)) (ds @ [cur]) cur cur True"
proof -
  have below: "x \<noteq> cur" "x \<noteq> 0" if "x \<in> set ds" for x
    using co_inv_below[OF assms(1) that] assms(5) by auto
  have emp: "frees m ds = []"
    using assms(1) below last_in_set[of "frees m ds"] by (auto simp: co_inv_def split: if_splits)
  then have fr: "frees m' ds = []" using below frees_cong[of ds m' m] m' by auto
  have "tiles m' a cur ds" "spaced m' ds"
    using assms(1) below tiles_cong[of ds m' m] spaced_cong[of ds m' m] m' by (auto simp: co_inv_def)
  moreover have "hfree (m' (last ds)) = 0" if "ds \<noteq> []"
    using fr that by (metis (mono_tags, lifting) empty_filter_conv last_in_set)
  ultimately show ?thesis
    using assms fr tiles_snoc[of m' a cur ds] m' by (auto simp: co_inv_def spaced_snoc)
qed

lemma co_step_link:
  assumes inv: "co_inv m a cur ds fr prev False" and "prev \<noteq> 0"
    and c: "hfree (m cur) \<noteq> 0" "0 \<le> hsize (m cur)" "8 dvd hsize (m cur)" and a: "0 < a" "a \<le> cur"
    and m': "m' = m(prev := (m prev)\<lparr>hnext := cur\<rparr>, cur := (m cur)\<lparr>hprev := prev\<rparr>)"
  shows "co_inv m' a (cur + HDR + hsize (m cur)) (ds @ [cur]) fr cur True"
proof -
  note pr = co_inv_prev[OF inv assms(2)]
  have below: "x \<noteq> cur" if "x \<in> set ds" for x using co_inv_below[OF inv that] by auto
  have same: "frees m' ds = frees m ds" "tiles m' a cur ds" "spaced m' ds"
    using inv below frees_cong[of ds m' m] tiles_cong[of ds m' m] spaced_cong[of ds m' m] m'
    by (auto simp: co_inv_def)
  obtain q where q: "dll m 0 fr (frees m ds) q" using inv pr by (auto simp: co_inv_def)
  obtain zs where zs: "frees m ds = zs @ [prev]" using pr by (metis append_butlast_last_id)
  have dis: "distinct (zs @ [prev])"
    using inv tiles_distinct[of m a cur ds] by (metis co_inv_def distinct_filter zs)
  have sub: "set (zs @ [prev]) \<subseteq> set ds" by (metis filter_is_subset zs)
  have "dll m' 0 fr (zs @ [prev]) cur"
    using q[unfolded zs] by (rule dll_set_next) (use dis sub below m' in auto)
  then have "dll m' 0 fr (zs @ [prev] @ [cur]) (hnext (m cur))"
    using below pr a m' by (auto simp: dll_append)
  moreover have fr: "frees m' (ds @ [cur]) = zs @ [prev] @ [cur]"
    using same(1) zs c m' by simp
  moreover have "hfree (m' (last ds)) = 0" if "ds \<noteq> []"
    using inv that below last_in_set[OF that] m' by (auto simp: co_inv_def)
  then have "spaced m' (ds @ [cur])" using same(3) by (auto simp: spaced_snoc)
  moreover have "tiles m' a (cur + HDR + hsize (m cur)) (ds @ [cur])"
  proof -
    have "hsize (m' cur) = hsize (m cur)" using m' by simp
    with tiles_snoc[OF same(2)] c show ?thesis by simp
  qed
  moreover have "hfree (m' cur) \<noteq> 0" using c m' by simp
  ultimately show ?thesis unfolding co_inv_def fr by auto
qed

lemma co_step_merge:
  assumes inv: "co_inv m a cur ds fr prev True" and "prev \<noteq> 0"
    and c: "hfree (m cur) \<noteq> 0" "0 \<le> hsize (m cur)" "8 dvd hsize (m cur)"
    and m': "m' = m(prev := (m prev)\<lparr>hsize := hsize (m prev) + (hsize (m cur) + HDR)\<rparr>,
                    cur := (m cur)\<lparr>hfree := 1\<rparr>)"
  shows "co_inv m' a (cur + HDR + hsize (m cur)) ds fr prev True"
proof -
  note pr = co_inv_prev[OF inv assms(2)]
  have below: "x \<noteq> cur" if "x \<in> set ds" for x using co_inv_below[OF inv that] by auto
  have ne: "ds \<noteq> []" "hfree (m (last ds)) \<noteq> 0" using inv by (auto simp: co_inv_def)
  obtain zs where zs: "ds = zs @ [last ds]" using ne(1) by (metis append_butlast_last_id)
  have "frees m (zs @ [last ds]) = frees m zs @ [last ds]" using ne(2) by simp
  with pr zs have "prev = last ds" by (metis last_snoc)
  with zs have zs: "ds = zs @ [prev]" by simp
  have dis: "distinct ds" using inv tiles_distinct by (auto simp: co_inv_def)
  have fields: "hfree (m' x) = hfree (m x)" "hnext (m' x) = hnext (m x)" "hprev (m' x) = hprev (m x)"
    if "x \<in> set ds" for x using below[OF that] m' by auto
  have "tiles m a cur (zs @ [prev])" using inv zs by (simp add: co_inv_def)
  then have "tiles m a prev zs" "0 \<le> hsize (m prev)" "8 dvd hsize (m prev)"
      "cur = prev + HDR + hsize (m prev)"
    by (auto simp: tiles_append)
  moreover have "tiles m' a prev zs = tiles m a prev zs"
    by (rule tiles_cong) (use dis zs below m' in auto)
  moreover have "8 dvd hsize (m prev) + (hsize (m cur) + HDR)"
    using calculation c by (auto simp: HDR_def)
  ultimately have t: "tiles m' a (cur + HDR + hsize (m cur)) ds"
    using c zs below m' by (auto simp: tiles_append HDR_def)
  have "frees m' ds = frees m ds" "spaced m' ds" "\<And>q. dll m' 0 fr (frees m ds) q = dll m 0 fr (frees m ds) q"
    using inv fields frees_cong[of ds m' m] spaced_cong[of ds m' m] dll_cong[of "frees m ds" m' m]
    by (auto simp: co_inv_def)
  with inv t ne fields show ?thesis by (auto simp: co_inv_def)
qed


lemma coalesce_step_ok:
  assumes inv: "co_inv (mem s) a cur ds (freeList s) prev imm"
    and c: "0 \<le> hsize (mem s cur)" "8 dvd hsize (mem s cur)" and a: "0 < a" "a \<le> cur"
    and map: "mapped s cur" "\<And>x. x \<in> set ds \<Longrightarrow> mapped s x"
  shows "\<exists>m' fr' ds' prev' imm'.
      coalesce_step s cur prev imm = Some (s\<lparr>mem := m', freeList := fr'\<rparr>, prev', imm') \<and>
      co_inv m' a (cur + HDR + hsize (mem s cur)) ds' fr' prev' imm' \<and>
      co_frame (mem s) m' ds [cur] ds' \<and> hsize (m' cur) = hsize (mem s cur) \<and>
      (\<forall>x. cur < x \<longrightarrow> m' x = mem s x)"
proof -
  let ?m = "mem s"
  have below: "x < cur" if "x \<in> set ds" for x using co_inv_below[OF inv that] by auto
  then have notin: "cur \<notin> set ds" by auto
  have pr: "prev \<in> set ds" "hfree (?m prev) \<noteq> 0" "prev < cur" "mapped s prev" if "prev \<noteq> 0"
    using co_inv_prev[OF inv that] below map by auto
  consider (alloc) "hfree (?m cur) = 0" | (first) "hfree (?m cur) \<noteq> 0" "prev = 0"
    | (link) "hfree (?m cur) \<noteq> 0" "prev \<noteq> 0" "\<not> imm" | (merge) "hfree (?m cur) \<noteq> 0" "prev \<noteq> 0" "imm"
    by blast
  then show ?thesis
  proof cases
    case alloc
    with map co_step_alloc[OF inv alloc c] show ?thesis
      by (intro exI[of _ ?m] exI[of _ "freeList s"] exI[of _ "ds @ [cur]"] exI[of _ prev] exI[of _ False])
        (auto simp: coalesce_step_def co_frame_def)
  next
    case first
    let ?m' = "?m(cur := (?m cur)\<lparr>hprev := 0, hnext := 0\<rparr>)"
    have "co_inv ?m' a (cur + HDR + hsize (?m cur)) (ds @ [cur]) cur cur True"
      by (rule co_step_first[OF inv[unfolded first(2)] first(1) c a refl])
    with first map notin show ?thesis
      by (intro exI[of _ ?m'] exI[of _ cur] exI[of _ "ds @ [cur]"] exI[of _ cur] exI[of _ True])
        (auto simp: coalesce_step_def co_frame_def)
  next
    case link
    let ?m' = "?m(prev := (?m prev)\<lparr>hnext := cur\<rparr>, cur := (?m cur)\<lparr>hprev := prev\<rparr>)"
    have inv': "co_inv ?m a cur ds (freeList s) prev False" using inv link by simp
    have "co_inv ?m' a (cur + HDR + hsize (?m cur)) (ds @ [cur]) (freeList s) cur True"
      by (rule co_step_link[OF inv' link(2,1) c a refl])
    moreover have "coalesce_step s cur prev imm = Some (s\<lparr>mem := ?m', freeList := freeList s\<rparr>, cur, True)"
      using link map pr by (simp add: coalesce_step_def)
    ultimately show ?thesis
      using link pr notin
      by (intro exI[of _ ?m'] exI[of _ "freeList s"] exI[of _ "ds @ [cur]"] exI[of _ cur] exI[of _ True])
        (auto simp: co_frame_def)
  next
    case merge
    let ?m' = "?m(prev := (?m prev)\<lparr>hsize := hsize (?m prev) + (hsize (?m cur) + HDR)\<rparr>,
                  cur := (?m cur)\<lparr>hfree := 1\<rparr>)"
    have inv': "co_inv ?m a cur ds (freeList s) prev True" using inv merge by simp
    have "co_inv ?m' a (cur + HDR + hsize (?m cur)) ds (freeList s) prev True"
      by (rule co_step_merge[OF inv' merge(2,1) c refl])
    moreover have "coalesce_step s cur prev imm = Some (s\<lparr>mem := ?m', freeList := freeList s\<rparr>, prev, True)"
      using merge map pr by (simp add: coalesce_step_def)
    moreover have "frees ?m' ds \<noteq> []" using pr merge by (auto simp: filter_empty_conv)
    ultimately show ?thesis
      using merge pr notin
      by (intro exI[of _ ?m'] exI[of _ "freeList s"] exI[of _ ds] exI[of _ prev] exI[of _ True])
        (auto simp: co_frame_def)
  qed
qed

lemma co_frame_trans:
  assumes "co_frame m m1 ds [c] ds1" "co_frame m1 m2 ds1 cs ds2" "\<And>x. x \<in> set cs \<Longrightarrow> m1 x = m x"
  shows "co_frame m m2 ds (c # cs) ds2"
proof -
  have cs: "{x \<in> set cs. hfree (m1 x) = 0} = {x \<in> set cs. hfree (m x) = 0}" "frees m1 cs = frees m cs"
    using assms(3) by (auto intro!: filter_cong)
  have "{x \<in> set ds2. hfree (m2 x) = 0} = {x \<in> set ds1. hfree (m1 x) = 0} \<union> {x \<in> set cs. hfree (m1 x) = 0}"
    using assms(2) by (auto simp: co_frame_def)
  also have "\<dots> = {x \<in> set ds \<union> set (c # cs). hfree (m x) = 0}"
    using assms(1) cs by (auto simp: co_frame_def)
  finally have "{x \<in> set ds2. hfree (m2 x) = 0} = {x \<in> set ds \<union> set (c # cs). hfree (m x) = 0}" .
  moreover have "frees m2 ds2 \<noteq> []" if "frees m (ds @ c # cs) \<noteq> []"
  proof -
    have "frees m (ds @ [c]) \<noteq> [] \<or> frees m cs \<noteq> []" using that by (auto simp: filter_empty_conv)
    then have "frees m1 (ds1 @ cs) \<noteq> []" using assms(1) cs(2) by (auto simp: co_frame_def)
    then show ?thesis using assms(2) by (auto simp: co_frame_def)
  qed
  moreover have "set ds2 \<subseteq> set ds \<union> set (c # cs)" using assms(1,2) by (auto simp: co_frame_def)
  moreover have "\<forall>x. hfree (m x) = 0 \<longrightarrow> m2 x = m x" "\<forall>x. hfree (m x) \<noteq> 0 \<longrightarrow> hfree (m2 x) \<noteq> 0"
    using assms(1,2) unfolding co_frame_def by metis+
  ultimately show ?thesis unfolding co_frame_def by blast
qed

lemma coalesce_loop_ok:
  assumes "co_inv (mem s) a cur ds (freeList s) prev imm" "tiles (mem s) cur (map_hi s) cs"
    and "0 < a" "a \<le> cur" "\<And>x. x \<in> set ds \<union> set cs \<Longrightarrow> mapped s x" "totalSize s = map_hi s - a"
  shows "\<exists>m' fr' ds' prev' imm'.
      coalesce_loop s cur prev (cur - a) imm = Some (s\<lparr>mem := m', freeList := fr'\<rparr>, prev') \<and>
      co_inv m' a (map_hi s) ds' fr' prev' imm' \<and> co_frame (mem s) m' ds cs ds'"
  using assms
proof (induction cs arbitrary: s cur ds prev imm)
  case Nil
  then have "coalesce_loop s cur prev (cur - a) imm = Some (s\<lparr>mem := mem s, freeList := freeList s\<rparr>, prev)"
    by (subst coalesce_loop.simps) simp
  with Nil show ?case
    by (intro exI[of _ "mem s"] exI[of _ "freeList s"] exI[of _ ds] exI[of _ prev] exI[of _ imm])
      (auto simp: co_frame_def)
next
  case (Cons c cs)
  have c: "c = cur" "0 \<le> hsize (mem s cur)" "8 dvd hsize (mem s cur)"
      "tiles (mem s) (cur + HDR + hsize (mem s cur)) (map_hi s) cs"
    using Cons.prems(2) by auto
  let ?nx = "cur + HDR + hsize (mem s cur)"
  have le: "?nx \<le> map_hi s" "\<forall>x\<in>set cs. ?nx \<le> x" using tiles_bound[OF c(4)] by auto
  from coalesce_step_ok[OF Cons.prems(1) c(2,3) Cons.prems(3,4)] Cons.prems(5) c(1)
  obtain m1 fr1 ds1 prev1 imm1 where st:
      "coalesce_step s cur prev imm = Some (s\<lparr>mem := m1, freeList := fr1\<rparr>, prev1, imm1)"
      "co_inv m1 a ?nx ds1 fr1 prev1 imm1" "co_frame (mem s) m1 ds [cur] ds1"
      "hsize (m1 cur) = hsize (mem s cur)" "\<forall>x. cur < x \<longrightarrow> m1 x = mem s x"
    by auto
  let ?s = "s\<lparr>mem := m1, freeList := fr1\<rparr>"
  have same: "m1 x = mem s x" if "x \<in> set cs" for x
    using st(5) le that c(2) by (auto simp: HDR_def)
  have "tiles m1 ?nx (map_hi s) cs" using c(4) tiles_cong[of cs m1 "mem s"] same by auto
  moreover have "mapped ?s x" if "x \<in> set ds1 \<union> set cs" for x
    using that st(3) Cons.prems(5) c(1) by (auto simp: co_frame_def)
  ultimately obtain m2 fr2 ds2 prev2 imm2 where rest:
      "coalesce_loop ?s ?nx prev1 (?nx - a) imm1 = Some (s\<lparr>mem := m2, freeList := fr2\<rparr>, prev2)"
      "co_inv m2 a (map_hi s) ds2 fr2 prev2 imm2" "co_frame m1 m2 ds1 cs ds2"
    using Cons.IH[of ?s ?nx ds1 prev1 imm1] st(2) Cons.prems c(2) by (auto simp: HDR_def)
  have "cur - a < totalSize s" using le(1) c(2) Cons.prems(6) by (simp add: HDR_def)
  then have "coalesce_loop s cur prev (cur - a) imm = coalesce_loop ?s ?nx prev1 (?nx - a) imm1"
    using st(1,4) Cons.prems(5) c(1) by (subst coalesce_loop.simps) (simp add: algebra_simps)
  moreover have "co_frame (mem s) m2 ds (c # cs) ds2"
    using co_frame_trans[OF st(3) rest(3)] same c(1) by simp
  ultimately show ?case using rest by auto
qed

definition alloc_list_ok :: "mem_state \<Rightarrow> int list \<Rightarrow> int list \<Rightarrow> bool" where
  "alloc_list_ok s cs ml \<longleftrightarrow> dll (mem s) 0 (memList s) ml 0 \<and> distinct ml \<and>
     set ml = {c \<in> set cs. hfree (mem s c) = 0}"

lemma coalesce_ok:
  assumes reg: "region_ok s cs" and ml: "alloc_list_ok s cs ml" and ex: "frees (mem s) cs \<noteq> []"
  shows "\<exists>s' ds. coalesce s = Some s' \<and> same_frame s s' \<and> memList s' = memList s \<and>
           m_error s' = m_error s \<and> region_ok s' ds \<and> lists_ok s' ds (frees (mem s') ds) ml \<and>
           spaced (mem s') ds \<and> (\<forall>x\<in>set ml. mem s' x = mem s x)"
proof -
  let ?a = "begin_ptr s"
  have r: "0 < ?a" "map_lo s = ?a" "map_hi s = ?a + totalSize s" "tiles (mem s) ?a (map_hi s) cs"
    using reg by (auto simp: region_ok_def)
  have "co_inv (mem s) ?a ?a [] (freeList s) 0 False" by (simp add: co_inv_def spaced_def)
  from coalesce_loop_ok[OF this r(4) r(1)] r region_mapped[OF reg]
  obtain m1 fr1 ds prev1 imm1 where loop:
      "coalesce_loop s ?a 0 0 False = Some (s\<lparr>mem := m1, freeList := fr1\<rparr>, prev1)"
      "co_inv m1 ?a (map_hi s) ds fr1 prev1 imm1" "co_frame (mem s) m1 [] cs ds"
    by auto
  have fr: "frees m1 ds \<noteq> []" using loop(3) ex by (auto simp: co_frame_def)
  then have p: "prev1 = last (frees m1 ds)" using loop(2) by (simp add: co_inv_def)
  obtain zs where zs: "frees m1 ds = zs @ [prev1]" using fr p by (metis append_butlast_last_id)
  have pin: "prev1 \<in> set ds" "hfree (m1 prev1) \<noteq> 0"
  proof -
    have "prev1 \<in> set (frees m1 ds)" by (simp add: zs)
    then show "prev1 \<in> set ds" "hfree (m1 prev1) \<noteq> 0" by auto
  qed
  have sub: "set ds \<subseteq> set cs" using loop(3) by (auto simp: co_frame_def)
  have pm: "mapped s prev1" "prev1 \<noteq> 0" using region_mapped[OF reg] pin sub by auto
  define m2 where "m2 = m1(prev1 := (m1 prev1)\<lparr>hnext := 0\<rparr>)"
  let ?s = "s\<lparr>mem := m2, freeList := fr1\<rparr>"
  have eq: "coalesce s = Some ?s" using loop(1) pm by (simp add: coalesce_def m2_def)
  have same: "hsize (m2 x) = hsize (m1 x)" "hfree (m2 x) = hfree (m1 x)" for x
    by (auto simp: m2_def)
  have t: "tiles m1 ?a (map_hi s) ds" "spaced m1 ds" using loop(2) by (auto simp: co_inv_def)
  have fr2: "frees m2 ds = frees m1 ds" by (rule frees_cong) (simp add: same)
  have dis: "distinct ds" using tiles_distinct[OF t(1)] .
  obtain q where "dll m1 0 fr1 (zs @ [prev1]) q" using loop(2) fr zs by (auto simp: co_inv_def)
  then have fl: "dll m2 0 fr1 (frees m2 ds) 0"
    unfolding fr2 zs by (rule dll_set_next) (use dis zs distinct_filter[OF dis, of "\<lambda>c. hfree (m1 c) \<noteq> 0"] in \<open>auto simp: m2_def\<close>)
  have mls: "m2 x = mem s x" if "x \<in> set ml" for x
  proof -
    have "hfree (mem s x) = 0" using that ml by (simp add: alloc_list_ok_def)
    then have "m1 x = mem s x" using loop(3) by (simp add: co_frame_def)
    with \<open>hfree (mem s x) = 0\<close> pin(2) show ?thesis by (auto simp: m2_def)
  qed
  have "set ml = {c \<in> set ds. hfree (m2 c) = 0}"
    using ml loop(3) by (auto simp: alloc_list_ok_def co_frame_def same)
  moreover have "dll m2 0 (memList s) ml 0" "distinct ml"
    using ml mls dll_cong[of ml m2 "mem s"] by (auto simp: alloc_list_ok_def)
  ultimately have "lists_ok ?s ds (frees m2 ds) ml"
    using fl dis by (simp add: lists_ok_def)
  moreover have "region_ok ?s ds"
    using reg t(1) tiles_cong[of ds m2 m1] same by (auto simp: region_ok_def)
  moreover have "spaced m2 ds" using t(2) spaced_cong[of ds m2 m1] same by auto
  ultimately show ?thesis
    using eq mls by (intro exI[of _ ?s] exI[of _ ds]) (simp add: same_frame_def)
qed

lemma find_alloc_eq:
  assumes "dll (mem s) pr h xs 0" "\<And>x. x \<in> set xs \<Longrightarrow> mapped s x"
  shows "find_alloc s ptr h = Some (if ptr - HDR \<in> set xs then ptr - HDR else 0)"
  using assms
proof (induction xs arbitrary: pr h)
  case Nil
  then show ?case by (simp add: find_alloc.simps)
next
  case (Cons x xs)
  then show ?case by (subst find_alloc.simps) auto
qed

lemma Mem_Free_ok:
  assumes inv: "heap_inv s cs fl ml" and p: "ptr - HDR \<in> set ml" and nz: "ptr \<noteq> 0"
  shows "\<exists>s' ds ml'. Mem_Free s ptr = Some (0, s') \<and> same_frame s s' \<and> m_error s' = m_error s \<and>
           heap_inv s' ds (frees (mem s') ds) ml' \<and> spaced (mem s') ds \<and>
           set ml' = set ml - {ptr - HDR} \<and> (\<forall>c\<in>set ml'. hsize (mem s' c) = hsize (mem s c))"
proof -
  let ?p = "ptr - HDR"
  have reg: "region_ok s cs" and lst: "lists_ok s cs fl ml" using inv by (auto simp: heap_inv_def)
  obtain xs ys where mlx: "ml = xs @ ?p # ys" using p by (meson split_list)
  have dl: "dll (mem s) 0 (memList s) (xs @ ?p # ys) 0" "distinct (xs @ ?p # ys)" "set ml \<subseteq> set cs"
    using lst by (auto simp: lists_ok_def mlx)
  have "?p \<in> set cs" using dl(3) p by auto
  then have map: "\<And>x. x \<in> set (xs @ ?p # ys) \<Longrightarrow> mapped s x" "?p \<noteq> 0"
    using region_mapped[OF reg] dl(3) mlx by blast+
  have find: "find_alloc s ptr (memList s) = Some ?p"
    using find_alloc_eq[OF dl(1), of ptr] map by simp
  let ?m = "unlinked (mem s) xs ys"
  have un: "?m ?p = mem s ?p" using dl(2) by (intro unlinked_fields) auto
  define s1 where "s1 = (if xs = [] then s\<lparr>memList := hnext (mem s ?p)\<rparr> else s)
      \<lparr>mem := ?m(?p := (?m ?p)\<lparr>hfree := 1\<rparr>)\<rparr>"
  have head: "memList s = ?p \<longleftrightarrow> xs = []"
    using dll_middle(3)[OF dl(1)] dl(2) by (cases xs) auto
  have "fix_prev s ?p \<bind> (\<lambda>s. fix_next s ?p) = Some (s\<lparr>mem := ?m\<rparr>)"
    by (rule unlink_eq(2)[OF dl(1,2) map(1)])
  then have "Mem_Free s ptr = (do {
      let s = s\<lparr>mem := ?m\<rparr>;
      h \<leftarrow> load s ?p;
      s \<leftarrow> modify (if memList s = ?p then s\<lparr>memList := hnext h\<rparr> else s) ?p (\<lambda>n. n\<lparr>hfree := 1\<rparr>);
      s \<leftarrow> coalesce s;
      Some (0, s)})"
    using nz find map(2) by (simp add: Mem_Free_def Let_def flip: bind_assoc)
  also have "\<dots> = do { s \<leftarrow> coalesce s1; Some (0, s) }"
    using map(1)[of ?p] head un by (cases "xs = []") (auto simp: s1_def Let_def)
  finally have eq: "Mem_Free s ptr = do { s \<leftarrow> coalesce s1; Some (0, s) }" .
  have szs: "hsize (mem s1 x) = hsize (mem s x)" "hfree (mem s1 x) = (if x = ?p then 1 else hfree (mem s x))" for x
    by (auto simp: s1_def unlinked_fields)
  have reg1: "region_ok s1 cs"
    by (rule region_ok_cong[OF reg]) (use szs in \<open>auto simp: same_frame_def s1_def\<close>)
  have "dll (mem s1) 0 (memList s1) (xs @ ys) 0"
    using unlinked_dll[OF dl(1,2)] dll_cong[of "xs @ ys" "mem s1" ?m] dl(2) by (auto simp: s1_def)
  then have al: "alloc_list_ok s1 cs (xs @ ys)"
    using lst dl(2) szs mlx by (auto simp: alloc_list_ok_def lists_ok_def)
  have ex: "frees (mem s1) cs \<noteq> []" using p dl(3) szs by (auto simp: filter_empty_conv)
  from coalesce_ok[OF reg1 al ex] obtain s2 ds where s2: "coalesce s1 = Some s2" "same_frame s1 s2"
      "m_error s2 = m_error s1" "region_ok s2 ds" "lists_ok s2 ds (frees (mem s2) ds) (xs @ ys)"
      "spaced (mem s2) ds" "\<forall>x\<in>set (xs @ ys). mem s2 x = mem s1 x"
    by blast
  moreover have "same_frame s s2" "m_error s2 = m_error s" using s2(2,3) by (auto simp: same_frame_def s1_def)
  moreover have "set (xs @ ys) = set ml - {?p}" using dl(2) mlx by auto
  ultimately show ?thesis
    using eq szs(1)
    by (intro exI[of _ s2] exI[of _ ds] exI[of _ "xs @ ys"]) (simp add: heap_inv_def)
qed


section \<open>The allocator's contract\<close>

















section \<open>Properties\<close>

text \<open>
  Two concrete states for the witnesses: one page whose single chunk is free, and the same page
  entirely allocated.
\<close>

definition one_page :: "int \<Rightarrow> mem_state" where
  "one_page fr = \<lparr>m_error = 0, initialized = True, totalSize = 4096,
     freeList = (if fr = 0 then 0 else 4096), memList = (if fr = 0 then 4096 else 0),
     begin_ptr = 4096, map_lo = 4096, map_hi = 8192,
     mem = (\<lambda>_. \<lparr>hsize = 4072, hfree = fr, hnext = 0, hprev = 0\<rparr>)\<rparr>"

lemma one_page_inv: "heap_inv (one_page 1) [4096] [4096] []" "heap_inv (one_page 0) [4096] [] [4096]"
  by (auto simp: one_page_def heap_inv_def region_ok_def lists_ok_def HDR_def)



text \<open>
  On a well-formed heap with a non-empty free list, a request of non-negative size under any
  of the three policies returns the chunk the policy asks for (the smallest, the largest or the
  first one that fits the size rounded up to a multiple of 8), moves exactly that chunk to the
  allocated ones, keeps the size of all other allocated chunks and the invariant; when no chunk
  fits it returns null, reports \<open>E_NO_SPACE\<close> and changes nothing else.
\<close>

theorem Mem_Alloc_correct:
  assumes "heap_inv s cs fl ml" "policy \<in> {BESTFIT, WORSTFIT, FIRSTFIT}" "0 \<le> siz" "siz \<le> 2 ^ 31 - 8" "fl \<noteq> []" "totalSize s < 2 ^ 31"
  shows "if \<exists>x\<in>set fl. round_up8 siz \<le> hsize (mem s x)
         then \<exists>p s' cs' fl'. Mem_Alloc s siz policy = Some (p + HDR, s') \<and> p \<noteq> 0 \<and>
           policy_choice s (round_up8 siz) policy fl p \<and> heap_inv s' cs' fl' (p # ml) \<and>
           siz \<le> hsize (mem s' p) \<and> (\<forall>c\<in>set ml. hsize (mem s' c) = hsize (mem s c))
         else Mem_Alloc s siz policy = Some (0, s\<lparr>m_error := E_NO_SPACE\<rparr>)"
proof (cases "\<exists>x\<in>set fl. round_up8 siz \<le> hsize (mem s x)")
  case True
  from Mem_Alloc_success[OF assms(1-4,6) True] obtain p s' cs' fl' where
    "Mem_Alloc s siz policy = Some (p + HDR, s')" "p \<noteq> 0" "policy_choice s (round_up8 siz) policy fl p"
    "heap_inv s' cs' fl' (p # ml)" "round_up8 siz \<le> hsize (mem s' p)"
    "\<forall>c\<in>set ml. hsize (mem s' c) = hsize (mem s c)" by blast
  moreover then have "siz \<le> hsize (mem s' p)" using round_up8_props[OF assms(3,4)] by linarith
  ultimately show ?thesis using True by auto
next
  case False
  with Mem_Alloc_no_space[OF assms(1,2) _ False] assms(5) show ?thesis by simp
qed

theorem Mem_Alloc_correct_witness:
  "\<exists>p s' cs' fl'. Mem_Alloc (one_page 1) 100 WORSTFIT = Some (p + HDR, s') \<and> p \<noteq> 0 \<and>
     policy_choice (one_page 1) (round_up8 100) WORSTFIT [4096] p \<and> heap_inv s' cs' fl' [p] \<and>
     100 \<le> hsize (mem s' p)"
proof -
  have "\<exists>x\<in>set [4096]. round_up8 100 \<le> hsize (mem (one_page 1) x)"
    by (simp add: one_page_def round_up8_def c_rem_def wrap32_def)
  with Mem_Alloc_correct[OF one_page_inv(1), of WORSTFIT 100] show ?thesis by (auto simp: one_page_def)
qed

text \<open>
  Freeing a pointer to a live block succeeds: the block leaves the allocated list, the other
  live blocks keep address and size, the free list becomes the free chunks in address order,
  no two neighbouring chunks are both free, and the invariant holds again.
\<close>

theorem Mem_Free_coalesces:
  assumes "heap_inv s cs fl ml" "ptr - HDR \<in> set ml" "ptr \<noteq> 0"
  shows "\<exists>s' ds ml'. Mem_Free s ptr = Some (0, s') \<and>
           heap_inv s' ds (filter (\<lambda>c. hfree (mem s' c) \<noteq> 0) ds) ml' \<and> spaced (mem s') ds \<and>
           set ml' = set ml - {ptr - HDR} \<and> (\<forall>c\<in>set ml'. hsize (mem s' c) = hsize (mem s c))"
  using Mem_Free_ok[OF assms] by blast

theorem Mem_Free_coalesces_witness:
  "\<exists>s' ds. Mem_Free (one_page 0) 4120 = Some (0, s') \<and>
     heap_inv s' ds (filter (\<lambda>c. hfree (mem s' c) \<noteq> 0) ds) [] \<and> spaced (mem s') ds"
  using Mem_Free_coalesces[OF one_page_inv(2), of 4120] by (simp add: HDR_def)

text \<open>
  C39: When no chunk is free, BESTFIT and WORSTFIT dereference a null pointer instead of
  reporting \<open>E_NO_SPACE\<close>, which is what FIRSTFIT does in the same state.
\<close>

theorem bestfit_faults_on_empty_free_list:
  assumes "heap_inv s cs [] ml"
  shows "Mem_Alloc s siz BESTFIT = None \<and> Mem_Alloc s siz WORSTFIT = None \<and>
         Mem_Alloc s siz FIRSTFIT = Some (0, s\<lparr>m_error := E_NO_SPACE\<rparr>)"
  using Mem_Alloc_null[OF assms] Mem_Alloc_no_space[OF assms, of FIRSTFIT] by simp

theorem bestfit_faults_on_empty_free_list_witness:
  "Mem_Alloc (one_page 0) 8 BESTFIT = None \<and>
   Mem_Alloc (one_page 0) 8 FIRSTFIT = Some (0, (one_page 0)\<lparr>m_error := E_NO_SPACE\<rparr>)"
  using bestfit_faults_on_empty_free_list[OF one_page_inv(2)] by blast

end
