(* ===== verification/FsBlock.thy ===== *)
theory FsBlock
  imports Prelude
begin

text \<open>
  The block layer of the xv6 file system (\<open>kernel/fs.c\<close>, first part, and \<open>include/fs.h\<close>): the
  little-endian fields of disk structures, the superblock, and the allocator of disk blocks on the
  in-use bitmap (\<open>readsb\<close>, \<open>bzero\<close>, \<open>balloc\<close>, \<open>bfree\<close>).

  A block is the function from byte offsets to bytes of its 512 data bytes, and the disk gives the
  block of every device and sector.  \<open>bread\<close> \<dots> \<open>brelse\<close> is a read of that array and
  \<open>bwrite\<close> an update of it, which the theory of the buffer cache proves of \<open>bio.c\<close>.
\<close>

type_synonym u16 = "16 word"
type_synonym block = "nat \<Rightarrow> u8"
type_synonym disk = "u32 \<Rightarrow> u32 \<Rightarrow> block"

definition BSIZE :: nat where "BSIZE = 512"
definition NDIRECT :: nat where "NDIRECT = 12"
definition NINDIRECT :: nat where "NINDIRECT = BSIZE div 4"
definition MAXFILE :: nat where "MAXFILE = NDIRECT + NINDIRECT"
definition IPB :: nat where "IPB = BSIZE div 64"
definition BPB :: nat where "BPB = BSIZE * 8"

lemmas fs_consts = BSIZE_def NDIRECT_def NINDIRECT_def MAXFILE_def IPB_def BPB_def

section \<open>Fields of disk structures\<close>

definition get16 :: "block \<Rightarrow> nat \<Rightarrow> u16" where
  "get16 d p = ucast (d p) OR push_bit 8 (ucast (d (p + 1)))"

definition put16 :: "block \<Rightarrow> nat \<Rightarrow> u16 \<Rightarrow> block" where
  "put16 d p v = d(p := ucast v, p + 1 := ucast (drop_bit 8 v))"

definition get32 :: "block \<Rightarrow> nat \<Rightarrow> u32" where
  "get32 d p = ucast (d p) OR push_bit 8 (ucast (d (p + 1))) OR
     push_bit 16 (ucast (d (p + 2))) OR push_bit 24 (ucast (d (p + 3)))"

definition put32 :: "block \<Rightarrow> nat \<Rightarrow> u32 \<Rightarrow> block" where
  "put32 d p v = d(p := ucast v, p + 1 := ucast (drop_bit 8 v),
     p + 2 := ucast (drop_bit 16 v), p + 3 := ucast (drop_bit 24 v))"

lemma get16_cong: "d p = e p \<Longrightarrow> d (p + 1) = e (p + 1) \<Longrightarrow> get16 d p = get16 e p"
  by (simp add: get16_def)

lemma get32_cong: "(\<And>k. k < 4 \<Longrightarrow> d (p + k) = e (p + k)) \<Longrightarrow> get32 d p = get32 e p"
proof -
  assume e: "\<And>k. k < 4 \<Longrightarrow> d (p + k) = e (p + k)"
  show ?thesis using e [of 0] e [of 1] e [of 2] e [of 3] by (simp add: get32_def)
qed

lemma get16_put16 [simp]: "get16 (put16 d p v) p = v"
  by (simp add: get16_def put16_def) (rule bit_word_eqI, auto simp: bit_simps)

lemma get32_put32 [simp]: "get32 (put32 d p v) p = v"
proof (rule bit_word_eqI)
  fix n assume "n < LENGTH(32)"
  then show "bit (get32 (put32 d p v) p) n = bit v n"
    by (cases "n < 16"; cases "n < 24") (auto simp: get32_def put32_def bit_simps)
qed

lemma put32_other: "k < p \<or> p + 4 \<le> k \<Longrightarrow> put32 d p v k = d k"
  by (auto simp: put32_def)

lemma put16_other: "k < p \<or> p + 2 \<le> k \<Longrightarrow> put16 d p v k = d k"
  by (auto simp: put16_def)

lemma get32_put32_other [simp]: "q + 4 \<le> p \<or> p + 4 \<le> q \<Longrightarrow> get32 (put32 d p v) q = get32 d q"
  by (rule get32_cong) (auto intro!: put32_other)

lemma get16_put16_other [simp]: "q + 2 \<le> p \<or> p + 2 \<le> q \<Longrightarrow> get16 (put16 d p v) q = get16 d q"
  by (rule get16_cong) (auto intro!: put16_other)

lemma get32_put16_other [simp]: "q + 4 \<le> p \<or> p + 2 \<le> q \<Longrightarrow> get32 (put16 d p v) q = get32 d q"
  by (rule get32_cong) (auto intro!: put16_other)

lemma get16_put32_other [simp]: "q + 2 \<le> p \<or> p + 4 \<le> q \<Longrightarrow> get16 (put32 d p v) q = get16 d q"
  by (rule get16_cong) (auto intro!: put32_other)

lemma get32_zero [simp]: "get32 (\<lambda>_. 0) p = 0"
  by (simp add: get32_def)

section \<open>The superblock and single blocks\<close>

record superblock =
  sb_size :: u32
  sb_nblocks :: u32
  sb_ninodes :: u32

definition blk_write :: "u32 \<Rightarrow> u32 \<Rightarrow> block \<Rightarrow> disk \<Rightarrow> disk" where
  "blk_write dev b d k = k(dev := (k dev)(b := d))"

lemma blk_write_same [simp]: "blk_write dev b d k dev b = d"
  by (simp add: blk_write_def)

lemma blk_write_other [simp]: "b' \<noteq> b \<or> dev' \<noteq> dev \<Longrightarrow> blk_write dev b d k dev' b' = k dev' b'"
  by (auto simp: blk_write_def)

definition readsb :: "u32 \<Rightarrow> disk \<Rightarrow> superblock" where
  "readsb dev k = \<lparr>sb_size = get32 (k dev 1) 0, sb_nblocks = get32 (k dev 1) 4,
     sb_ninodes = get32 (k dev 1) 8\<rparr>"

definition bzero :: "u32 \<Rightarrow> u32 \<Rightarrow> disk \<Rightarrow> disk" where
  "bzero dev bno k = blk_write dev bno (\<lambda>_. 0) k"

text \<open>\<open>IBLOCK\<close> and \<open>BBLOCK\<close>: the block of an inode and the block of a block's bitmap bit.\<close>

definition IBLOCK :: "u32 \<Rightarrow> u32" where
  "IBLOCK i = i div of_nat IPB + 2"

definition BBLOCK :: "u32 \<Rightarrow> u32 \<Rightarrow> u32" where
  "BBLOCK b ninodes = b div of_nat BPB + ninodes div of_nat IPB + 3"

section \<open>Allocating and freeing\<close>

definition bit_mask :: "nat \<Rightarrow> u8" where
  "bit_mask bi = push_bit (bi mod 8) 1"

text \<open>The inner loop of \<open>balloc\<close>: the first clear bit of one bitmap block, from \<open>bi\<close> on.\<close>

function clear_bit :: "block \<Rightarrow> nat \<Rightarrow> nat option" where
  "clear_bit d bi = (if bi < BPB then
     if d (bi div 8) AND bit_mask bi = 0 then Some bi else clear_bit d (bi + 1) else None)"
  by auto
termination by (relation "measure (\<lambda>(d, bi). BPB - bi)") auto

declare clear_bit.simps [simp del]

text \<open>
  The outer loop.  \<open>b\<close> is an \<open>int\<close> that stays below \<open>sb.size + BPB\<close>; the comparison with the
  unsigned size is one of natural numbers.  Running off the end is the panic.
\<close>

function balloc_loop :: "u32 \<Rightarrow> superblock \<Rightarrow> nat \<Rightarrow> disk \<Rightarrow> (u32 \<times> disk) option" where
  "balloc_loop dev sb b k = (if b < unat (sb_size sb) then
     let bno = BBLOCK (of_nat b) (sb_ninodes sb); d = k dev bno in
     case clear_bit d 0 of
       Some bi \<Rightarrow> Some (of_nat (b + bi),
         blk_write dev bno (d(bi div 8 := d (bi div 8) OR bit_mask bi)) k)
     | None \<Rightarrow> balloc_loop dev sb (b + BPB) k
   else None)"
  by auto
termination by (relation "measure (\<lambda>(dev, sb, b, k). unat (sb_size sb) - b)") (auto simp: fs_consts)

declare balloc_loop.simps [simp del]

definition balloc :: "u32 \<Rightarrow> disk \<Rightarrow> (u32 \<times> disk) option" where
  "balloc dev k = balloc_loop dev (readsb dev k) 0 k"

definition bfree :: "u32 \<Rightarrow> u32 \<Rightarrow> disk \<Rightarrow> disk option" where
  "bfree dev b k =
     (let k1 = bzero dev b k; sb = readsb dev k1; bno = BBLOCK b (sb_ninodes sb); d = k1 dev bno;
          bi = unat b mod BPB in
      if d (bi div 8) AND bit_mask bi = 0 then None
      else Some (blk_write dev bno (d(bi div 8 := d (bi div 8) AND NOT (bit_mask bi))) k1))"

section \<open>The bitmap as a set of blocks\<close>

definition bitmap_start :: "superblock \<Rightarrow> nat" where
  "bitmap_start sb = unat (sb_ninodes sb) div IPB + 3"

definition data_start :: "superblock \<Rightarrow> nat" where
  "data_start sb = bitmap_start sb + unat (sb_size sb) div BPB + 1"

text \<open>
  The geometry \<open>mkfs\<close> writes: the metadata fits in the image, and block numbers fit in 24 bits
  (the checksummed files keep a checksum in the upper eight).
\<close>

definition geometry :: "superblock \<Rightarrow> bool" where
  "geometry sb \<longleftrightarrow> data_start sb \<le> unat (sb_size sb) \<and> unat (sb_size sb) < 2 ^ 24"

definition used :: "u32 \<Rightarrow> disk \<Rightarrow> nat \<Rightarrow> bool" where
  "used dev k b \<longleftrightarrow>
     bit (k dev (BBLOCK (of_nat b) (sb_ninodes (readsb dev k))) (b mod BPB div 8)) (b mod 8)"

definition scan_limit :: "superblock \<Rightarrow> nat" where
  "scan_limit sb = (unat (sb_size sb) + BPB - 1) div BPB * BPB"

definition disk_ok :: "u32 \<Rightarrow> disk \<Rightarrow> bool" where
  "disk_ok dev k \<longleftrightarrow> geometry (readsb dev k) \<and>
     (\<forall>b < data_start (readsb dev k). used dev k b) \<and>
     (\<forall>b < unat (sb_size (readsb dev k)). \<not> used dev k b \<longrightarrow> k dev (of_nat b) = (\<lambda>_. 0))"

lemma and_bit_mask: "x AND bit_mask bi = 0 \<longleftrightarrow> \<not> bit x (bi mod 8)"
proof
  assume a: "x AND bit_mask bi = 0"
  have "bit (x AND bit_mask bi) (bi mod 8) \<longleftrightarrow> bit x (bi mod 8)"
    by (simp add: bit_mask_def bit_simps)
  with a show "\<not> bit x (bi mod 8)" by simp
next
  assume "\<not> bit x (bi mod 8)"
  then show "x AND bit_mask bi = 0"
    by (intro bit_word_eqI) (auto simp: bit_mask_def bit_simps)
qed

lemma bit_or_mask: "bit (x OR bit_mask bi) j \<longleftrightarrow> bit x j \<or> j = bi mod 8"
  by (auto simp: bit_mask_def bit_simps)

lemma bit_and_not_mask: "bit (x AND NOT (bit_mask bi)) j \<longleftrightarrow> bit x j \<and> j \<noteq> bi mod 8"
  by (auto simp: bit_mask_def bit_simps dest: bit_imp_le_length)

lemma clear_bit_Some:
  "clear_bit d bi = Some x \<Longrightarrow> bi \<le> x \<and> x < BPB \<and> \<not> bit (d (x div 8)) (x mod 8) \<and>
     (\<forall>y. bi \<le> y \<and> y < x \<longrightarrow> bit (d (y div 8)) (y mod 8))"
proof (induction d bi rule: clear_bit.induct)
  case (1 d bi)
  from "1.prems" consider "bi < BPB" "\<not> bit (d (bi div 8)) (bi mod 8)" "x = bi"
    | "bi < BPB" "bit (d (bi div 8)) (bi mod 8)" "clear_bit d (bi + 1) = Some x"
    by (subst (asm) clear_bit.simps) (auto simp: and_bit_mask split: if_splits)
  then show ?case
  proof cases
    case 2
    then show ?thesis using "1.IH" by (auto simp: and_bit_mask le_less_Suc_eq Suc_le_eq)
       (metis Suc_leI le_neq_implies_less)
  qed auto
qed

lemma clear_bit_None:
  "clear_bit d bi = None \<Longrightarrow> bi \<le> y \<Longrightarrow> y < BPB \<Longrightarrow> bit (d (y div 8)) (y mod 8)"
proof (induction d bi rule: clear_bit.induct)
  case (1 d bi)
  then have "bit (d (bi div 8)) (bi mod 8)" "clear_bit d (bi + 1) = None"
    by (subst (asm) (2) clear_bit.simps, auto simp: and_bit_mask split: if_splits)+
  then show ?case using 1 by (cases "y = bi") (auto simp: and_bit_mask)
qed

lemma unat_BBLOCK:
  assumes "b < 2 ^ 31"
  shows "unat (BBLOCK (of_nat b) n) = b div BPB + unat n div IPB + 3"
proof -
  have "unat (of_nat b :: u32) = b" using assms by (simp add: unat_of_nat)
  moreover have "unat n < 2 ^ 32" using unsigned_less [of n] by simp
  ultimately show ?thesis using assms
    by (simp add: BBLOCK_def fs_consts unat_word_ariths unat_div unat_of_nat)
qed

lemma BBLOCK_eq_iff:
  "b < 2 ^ 31 \<Longrightarrow> c < 2 ^ 31 \<Longrightarrow> BBLOCK (of_nat b) n = BBLOCK (of_nat c) n \<longleftrightarrow> b div BPB = c div BPB"
  by (subst word_unat_eq_iff) (simp add: unat_BBLOCK)

text \<open>A bitmap block is neither the superblock nor a data block.\<close>

definition bitmap_block :: "superblock \<Rightarrow> u32 \<Rightarrow> bool" where
  "bitmap_block sb c \<longleftrightarrow> bitmap_start sb \<le> unat c \<and> unat c < data_start sb"

lemma geometry_size: "geometry sb \<Longrightarrow> unat (sb_size sb) < 2 ^ 24"
  by (simp add: geometry_def)

lemma scan_limit_bound: "geometry sb \<Longrightarrow> scan_limit sb < 2 ^ 31"
  by (auto simp: geometry_def scan_limit_def fs_consts)

lemma scan_limit_div:
  assumes "b < scan_limit sb"
  shows "b div BPB \<le> unat (sb_size sb) div BPB" "b div BPB * BPB < unat (sb_size sb)"
proof -
  let ?s = "unat (sb_size sb)" and ?q = "(unat (sb_size sb) + BPB - 1) div BPB"
  have q: "b div BPB < ?q" using assms by (auto simp: scan_limit_def intro: less_mult_imp_div_less)
  have "?q \<le> (?s + BPB) div BPB" by (rule div_le_mono) simp
  then show "b div BPB \<le> ?s div BPB" using q by (simp add: fs_consts)
  have "?q * BPB \<le> ?s + BPB - 1" by (rule div_times_less_eq_dividend)
  moreover have "(b div BPB + 1) * BPB \<le> ?q * BPB" using q by (intro mult_le_mono1) simp
  ultimately show "b div BPB * BPB < ?s" by (simp add: fs_consts)
qed

lemma bitmap_block_BBLOCK:
  "geometry sb \<Longrightarrow> b < scan_limit sb \<Longrightarrow> bitmap_block sb (BBLOCK (of_nat b) (sb_ninodes sb))"
  using scan_limit_bound [of sb] scan_limit_div(1) [of b sb]
  by (simp add: bitmap_block_def unat_BBLOCK bitmap_start_def data_start_def)

lemma bitmap_block_not_sb: "bitmap_block sb c \<Longrightarrow> c \<noteq> 1"
  by (auto simp: bitmap_block_def bitmap_start_def)

lemma readsb_cong: "k' dev 1 = k dev 1 \<Longrightarrow> readsb dev k' = readsb dev k"
  by (simp add: readsb_def)

lemma readsb_blk_write [simp]: "c \<noteq> 1 \<Longrightarrow> readsb dev (blk_write dev' c d k) = readsb dev k"
  by (rule readsb_cong) simp

text \<open>\<open>flip_to v dev b k\<close> is the disk with the bit of block \<open>b\<close> set to \<open>v\<close>: what \<open>balloc\<close> and \<open>bfree\<close> store.\<close>

definition flip_to :: "bool \<Rightarrow> u32 \<Rightarrow> nat \<Rightarrow> disk \<Rightarrow> disk" where
  "flip_to v dev b k =
     (let bno = BBLOCK (of_nat b) (sb_ninodes (readsb dev k)); d = k dev bno; i = b mod BPB div 8 in
      blk_write dev bno (d(i := if v then d i OR bit_mask b else d i AND NOT (bit_mask b))) k)"

lemma flip_to_other:
  "\<lbrakk>geometry (readsb dev k); b < scan_limit (readsb dev k); \<not> bitmap_block (readsb dev k) c \<or> dev' \<noteq> dev\<rbrakk>
   \<Longrightarrow> flip_to v dev b k dev' c = k dev' c"
  using bitmap_block_BBLOCK [of "readsb dev k" b] by (auto simp: flip_to_def Let_def blk_write_def)

lemma readsb_flip_to [simp]:
  "\<lbrakk>geometry (readsb dev k); b < scan_limit (readsb dev k)\<rbrakk> \<Longrightarrow> readsb dev (flip_to v dev b k) = readsb dev k"
  using bitmap_block_not_sb by (intro readsb_cong flip_to_other) blast+

lemma mod_BPB_8 [simp]: "b mod BPB mod 8 = b mod 8"
  by (simp add: fs_consts mod_mod_cancel)

lemma same_bit:
  assumes "b div BPB = c div BPB" "b mod BPB div 8 = c mod BPB div 8" "b mod 8 = c mod 8"
  shows "b = c"
proof -
  have "b mod BPB = c mod BPB" using assms(2,3) by (metis div_mult_mod_eq mod_BPB_8)
  then show ?thesis using assms(1) by (metis div_mult_mod_eq)
qed

lemma used_flip_to:
  assumes g: "geometry (readsb dev k)" and b: "b < scan_limit (readsb dev k)" and c: "c < 2 ^ 31"
  shows "used dev (flip_to v dev b k) c \<longleftrightarrow> (if c = b then v else used dev k c)"
proof -
  let ?n = "sb_ninodes (readsb dev k)"
  let ?B = "BBLOCK (of_nat b) ?n" and ?C = "BBLOCK (of_nat c) ?n"
  have b31: "b < 2 ^ 31" using scan_limit_bound [OF g] b by simp
  show ?thesis
  proof (cases "?C = ?B \<and> c mod BPB div 8 = b mod BPB div 8")
    case True
    then have "c = b \<longleftrightarrow> c mod 8 = b mod 8"
      using same_bit [of c b] BBLOCK_eq_iff [OF c b31] by auto
    with True show ?thesis
      by (simp add: used_def g b) (auto simp: flip_to_def Let_def bit_or_mask bit_and_not_mask)
  next
    case False
    then have "c \<noteq> b" by auto
    with False show ?thesis
      by (cases "?C = ?B") (simp_all add: used_def g b, auto simp: flip_to_def Let_def)
  qed
qed

text \<open>The loops of \<open>balloc\<close> find the least clear bit of the blocks they scan.\<close>

lemma used_in_block:
  assumes "x < BPB"
  shows "used dev k (q * BPB + x) \<longleftrightarrow>
    bit (k dev (BBLOCK (of_nat (q * BPB + x)) (sb_ninodes (readsb dev k))) (x div 8)) (x mod 8)"
proof -
  have "(q * BPB + x) mod BPB = x" using assms by simp
  then show ?thesis using mod_BPB_8 [of "q * BPB + x"] by (simp add: used_def)
qed

lemma balloc_loop_finds:
  assumes g: "geometry (readsb dev k)" and c: "c < scan_limit (readsb dev k)" "\<not> used dev k c"
    "\<forall>c'<c. used dev k c'" and q: "q \<le> c div BPB"
  shows "balloc_loop dev (readsb dev k) (q * BPB) k = Some (of_nat c, flip_to True dev c k)"
  using q
proof (induction "c div BPB - q" arbitrary: q)
  case 0
  let ?sb = "readsb dev k"
  note lim = scan_limit_bound [OF g]
  have q: "q = c div BPB" using 0 by simp
  have c31: "c < 2 ^ 31" "q * BPB < 2 ^ 31"
    using lim c(1) by (auto simp: q intro: le_less_trans [OF div_times_less_eq_dividend])
  let ?bno = "BBLOCK (of_nat (q * BPB)) (sb_ninodes ?sb)"
  have same: "BBLOCK (of_nat (q * BPB + x)) (sb_ninodes ?sb) = ?bno" if "x < BPB" "q * BPB + x \<le> c" for x
    using that c31 by (subst BBLOCK_eq_iff) auto
  have cq: "c = q * BPB + c mod BPB" "c mod BPB < BPB" by (simp_all add: q fs_consts)
  obtain x where x: "clear_bit (k dev ?bno) 0 = Some x"
    using clear_bit_None [of "k dev ?bno" 0 "c mod BPB"] c(2) cq
      used_in_block [OF cq(2), of dev k q] same [of "c mod BPB"] by fastforce
  note xs = clear_bit_Some [OF x]
  have "x = c mod BPB"
  proof (rule ccontr)
    assume ne: "x \<noteq> c mod BPB"
    show False
    proof (cases "x < c mod BPB")
      case True
      then show False
        using used_in_block [of x dev k q] same [of x] xs c(3) cq by (auto dest!: spec [of _ "q * BPB + x"])
    next
      case False
      then show False
        using used_in_block [OF cq(2), of dev k q] same [of "c mod BPB"] xs c(2) cq ne
        by (auto dest!: spec [of _ "c mod BPB"])
    qed
  qed
  moreover have "bit_mask (c mod BPB) = bit_mask c" by (simp add: bit_mask_def)
  moreover have "BBLOCK (of_nat c) (sb_ninodes ?sb) = ?bno" using same [of "c mod BPB"] cq by simp
  ultimately show ?case
    using scan_limit_div(2) [OF c(1)] x cq(1)
    by (subst balloc_loop.simps) (simp add: q Let_def flip_to_def)
next
  case (Suc m)
  let ?sb = "readsb dev k"
  have q: "q < c div BPB" "Suc q \<le> c div BPB" "m = c div BPB - Suc q" using Suc(2) by linarith+
  have "(q + 1) * BPB \<le> c div BPB * BPB" using q by (intro mult_le_mono1) simp
  also have "\<dots> \<le> c" by (rule div_times_less_eq_dividend)
  finally have qc: "q * BPB + BPB \<le> c" by simp
  have c31: "c < 2 ^ 31" "q * BPB < 2 ^ 31" using scan_limit_bound [OF g] c(1) qc by linarith+
  let ?bno = "BBLOCK (of_nat (q * BPB)) (sb_ninodes ?sb)"
  have same: "BBLOCK (of_nat (q * BPB + x)) (sb_ninodes ?sb) = ?bno" if "x < BPB" for x
    using that c31 qc by (subst BBLOCK_eq_iff) auto
  have "clear_bit (k dev ?bno) 0 = None"
  proof (rule ccontr)
    assume "clear_bit (k dev ?bno) 0 \<noteq> None"
    then obtain x where "clear_bit (k dev ?bno) 0 = Some x" by blast
    from clear_bit_Some [OF this] show False
      using used_in_block [of x dev k q] same [of x] c(3) qc by (auto dest!: spec [of _ "q * BPB + x"])
  qed
  moreover have "q * BPB < unat (sb_size ?sb)"
    using scan_limit_div(2) [OF c(1)] q(1) mult_le_mono1 [of q "c div BPB" BPB] by linarith
  ultimately show ?case
    using Suc(1) [OF q(3,2)] by (subst balloc_loop.simps) (simp add: Let_def add.commute)
qed

lemma balloc_loop_full:
  assumes "geometry (readsb dev k)" "\<forall>c < scan_limit (readsb dev k). used dev k c"
  shows "balloc_loop dev (readsb dev k) (q * BPB) k = None"
proof (induction "unat (sb_size (readsb dev k)) - q * BPB" arbitrary: q rule: less_induct)
  case less
  let ?sb = "readsb dev k" and ?s = "unat (sb_size (readsb dev k))"
  show ?case
  proof (cases "q * BPB < ?s")
    case True
    have "q + 1 \<le> (?s + BPB - 1) div BPB"
      using True by (subst less_eq_div_iff_mult_less_eq) (auto simp: fs_consts)
    from mult_le_mono1 [OF this, of BPB] have lim: "q * BPB + BPB \<le> scan_limit ?sb"
      by (simp add: scan_limit_def)
    note l31 = scan_limit_bound [OF assms(1)]
    let ?bno = "BBLOCK (of_nat (q * BPB)) (sb_ninodes ?sb)"
    have same: "BBLOCK (of_nat (q * BPB + x)) (sb_ninodes ?sb) = ?bno" if "x < BPB" for x
      using that lim l31 by (subst BBLOCK_eq_iff) auto
    have "clear_bit (k dev ?bno) 0 = None"
    proof (rule ccontr)
      assume "clear_bit (k dev ?bno) 0 \<noteq> None"
      then obtain x where "clear_bit (k dev ?bno) 0 = Some x" by blast
      from clear_bit_Some [OF this] show False
        using used_in_block [of x dev k q] same [of x] assms(2) lim
        by (auto dest!: spec [of _ "q * BPB + x"])
    qed
    moreover have "balloc_loop dev ?sb ((q + 1) * BPB) k = None"
      by (rule less) (use True in \<open>auto simp: fs_consts\<close>)
    ultimately show ?thesis using True by (subst balloc_loop.simps) (simp add: Let_def add.commute)
  qed (subst balloc_loop.simps, simp)
qed

section \<open>What allocation and freeing do\<close>

definition free_blocks :: "u32 \<Rightarrow> disk \<Rightarrow> u32 set" where
  "free_blocks dev k = {b. unat b < unat (sb_size (readsb dev k)) \<and> \<not> used dev k (unat b)}"

definition data_blocks :: "u32 \<Rightarrow> disk \<Rightarrow> u32 set" where
  "data_blocks dev k = {b. data_start (readsb dev k) \<le> unat b \<and> unat b < unat (sb_size (readsb dev k))}"

definition only_bitmap :: "u32 \<Rightarrow> disk \<Rightarrow> disk \<Rightarrow> bool" where
  "only_bitmap dev k k' \<longleftrightarrow>
     (\<forall>dev' c. dev' \<noteq> dev \<or> \<not> bitmap_block (readsb dev k) c \<longrightarrow> k' dev' c = k dev' c)"

lemma finite_free_blocks [simp]: "finite (free_blocks dev k)"
  by (rule finite)

lemma size_le_scan_limit: "b < unat (sb_size sb) \<Longrightarrow> b < scan_limit sb"
proof -
  assume b: "b < unat (sb_size sb)"
  have "unat (sb_size sb) \<le> (unat (sb_size sb) + BPB - 1) div BPB * BPB"
    using div_mult_mod_eq [of "unat (sb_size sb) + BPB - 1" BPB]
      mod_less_divisor [of BPB "unat (sb_size sb) + BPB - 1"] by (simp add: fs_consts)
  then show ?thesis using b by (simp add: scan_limit_def)
qed

lemma free_subset_data: "disk_ok dev k \<Longrightarrow> free_blocks dev k \<subseteq> data_blocks dev k"
  by (auto simp: disk_ok_def free_blocks_def data_blocks_def not_less)

lemma only_bitmap_data:
  "only_bitmap dev k k' \<Longrightarrow> b \<in> data_blocks dev k \<Longrightarrow> k' dev b = k dev b"
  by (auto simp: only_bitmap_def data_blocks_def bitmap_block_def)

lemma free_block_zero: "disk_ok dev k \<Longrightarrow> b \<in> free_blocks dev k \<Longrightarrow> k dev b = (\<lambda>_. 0)"
  by (auto simp: disk_ok_def free_blocks_def dest!: spec [of _ "unat b"])

lemma disk_ok_flip:
  assumes ok: "disk_ok dev k" and b: "b \<in> data_blocks dev k"
    and z: "v \<or> k dev b = (\<lambda>_. 0)"
  shows "disk_ok dev (flip_to v dev (unat b) k)"
    "free_blocks dev (flip_to v dev (unat b) k) =
       (if v then free_blocks dev k - {b} else insert b (free_blocks dev k))"
    "data_blocks dev (flip_to v dev (unat b) k) = data_blocks dev k"
    "only_bitmap dev k (flip_to v dev (unat b) k)"
    "readsb dev (flip_to v dev (unat b) k) = readsb dev k"
proof -
  let ?sb = "readsb dev k" and ?k = "flip_to v dev (unat b) k"
  have g: "geometry ?sb" and bs: "unat b < scan_limit ?sb" "unat b < unat (sb_size ?sb)"
    and bd: "data_start ?sb \<le> unat b"
    using ok b by (auto simp: disk_ok_def data_blocks_def size_le_scan_limit)
  show sb: "readsb dev ?k = ?sb" using g bs by simp
  show ob: "only_bitmap dev k ?k"
    using flip_to_other [OF g bs(1)] by (auto simp: only_bitmap_def)
  have s31: "c < 2 ^ 31" if "c < unat (sb_size ?sb)" for c
    using that geometry_size [OF g] by simp
  have u: "used dev ?k c \<longleftrightarrow> (if c = unat b then v else used dev k c)" if "c < unat (sb_size ?sb)" for c
    using used_flip_to [OF g bs(1) s31 [OF that]] .
  show "data_blocks dev ?k = data_blocks dev k" by (simp add: data_blocks_def sb)
  show fb: "free_blocks dev ?k = (if v then free_blocks dev k - {b} else insert b (free_blocks dev k))"
  proof -
    have "free_blocks dev ?k = {c. unat c < unat (sb_size ?sb) \<and> \<not> (if c = b then v else used dev k (unat c))}"
      by (simp add: free_blocks_def sb u cong: conj_cong flip: word_unat_eq_iff)
    then show ?thesis using bs(2) unfolding free_blocks_def by (cases v) (simp_all, blast+)
  qed
  show "disk_ok dev ?k"
    unfolding disk_ok_def sb
  proof (intro conjI allI impI)
    show "geometry ?sb" by (rule g)
    fix c
    { assume c: "c < data_start ?sb"
      moreover have "c < unat (sb_size ?sb)" using c g by (simp add: geometry_def)
      ultimately show "used dev ?k c" using ok bd u [of c] by (auto simp: disk_ok_def) }
    { assume c: "c < unat (sb_size ?sb)" "\<not> used dev ?k c"
      have cd: "(of_nat c :: u32) \<in> data_blocks dev k"
      proof -
        have "unat (of_nat c :: u32) = c" using s31 [OF c(1)] by (simp add: unat_of_nat)
        moreover have "data_start ?sb \<le> c"
          using c u [OF c(1)] ok bd by (auto simp: disk_ok_def not_less [symmetric] split: if_splits)
        ultimately show ?thesis using c by (simp add: data_blocks_def)
      qed
      have "k dev (of_nat c) = (\<lambda>_. 0)"
        using c u [OF c(1)] ok z by (cases "c = unat b") (auto simp: disk_ok_def)
      then show "?k dev (of_nat c) = (\<lambda>_. 0)" using only_bitmap_data [OF ob cd] by simp }
  qed
qed

lemma free_blocks_least:
  assumes ok: "disk_ok dev k" and ne: "free_blocks dev k \<noteq> {}"
  obtains b where "b \<in> free_blocks dev k" "\<forall>c<unat b. used dev k c"
    "balloc dev k = Some (b, flip_to True dev (unat b) k)"
proof -
  obtain c0 where c0: "c0 \<in> free_blocks dev k" using ne by blast
  define c where "c = (LEAST c. \<not> used dev k c)"
  have u0: "\<not> used dev k (unat c0)" using c0 by (simp add: free_blocks_def)
  have nu: "\<not> used dev k c" "c \<le> unat c0" "\<forall>c'<c. used dev k c'"
    using LeastI [of "\<lambda>c. \<not> used dev k c", OF u0] Least_le [of "\<lambda>c. \<not> used dev k c", OF u0]
    by (auto simp: c_def dest: not_less_Least)
  have g: "geometry (readsb dev k)" using ok by (simp add: disk_ok_def)
  have cs: "c < unat (sb_size (readsb dev k))" using c0 nu(2) by (auto simp: free_blocks_def)
  have uc: "unat (of_nat c :: u32) = c" using cs geometry_size [OF g] by (simp add: unat_of_nat)
  have "balloc dev k = Some (of_nat c, flip_to True dev c k)"
    using balloc_loop_finds [OF g size_le_scan_limit [OF cs] nu(1,3), of 0] by (simp add: balloc_def)
  then show ?thesis using that [of "of_nat c"] nu cs uc by (simp add: free_blocks_def)
qed

text \<open>Writing a block that is in use and is neither the superblock nor part of the bitmap keeps the allocation.\<close>

lemma disk_ok_write:
  assumes ok: "disk_ok dev k" and c: "c \<noteq> 1" "\<not> bitmap_block (readsb dev k) c" "c \<notin> free_blocks dev k"
  shows "disk_ok dev (blk_write dev c d k)" "data_blocks dev (blk_write dev c d k) = data_blocks dev k"
    "free_blocks dev (blk_write dev c d k) = free_blocks dev k"
    "readsb dev (blk_write dev c d k) = readsb dev k"
proof -
  let ?sb = "readsb dev k" and ?k = "blk_write dev c d k"
  have g: "geometry ?sb" using ok by (simp add: disk_ok_def)
  show sb: "readsb dev ?k = ?sb" using c by simp
  have bm: "bitmap_block ?sb c' \<Longrightarrow> ?k dev c' = k dev c'" for c'
    using c by (auto simp: blk_write_def)
  have u: "used dev ?k c' \<longleftrightarrow> used dev k c'" if "c' < unat (sb_size ?sb)" for c'
    using bm [OF bitmap_block_BBLOCK [OF g size_le_scan_limit [OF that]]] by (simp add: used_def sb)
  show "data_blocks dev ?k = data_blocks dev k" by (simp add: data_blocks_def sb)
  show "free_blocks dev ?k = free_blocks dev k"
    by (simp add: free_blocks_def sb u cong: conj_cong)
  have dl: "c' < data_start ?sb \<Longrightarrow> c' < unat (sb_size ?sb)" for c' using g by (simp add: geometry_def)
  have z: "?k dev (of_nat b) = k dev (of_nat b)" if b: "b < unat (sb_size ?sb)" "\<not> used dev k b" for b
  proof -
    have "unat (of_nat b :: u32) = b" using b geometry_size [OF g] by (simp add: unat_of_nat)
    then have "of_nat b \<in> free_blocks dev k" using b by (simp add: free_blocks_def)
    then show ?thesis using c(3) by (auto simp: blk_write_def)
  qed
  show "disk_ok dev ?k"
    using ok unfolding disk_ok_def sb by (auto simp: u dl z)
qed

lemma data_block_write:
  assumes "disk_ok dev k" "b \<in> data_blocks dev k - free_blocks dev k"
  shows "disk_ok dev (blk_write dev b d k)" "data_blocks dev (blk_write dev b d k) = data_blocks dev k"
    "free_blocks dev (blk_write dev b d k) = free_blocks dev k"
    "readsb dev (blk_write dev b d k) = readsb dev k"
proof -
  have "b \<noteq> 1" "\<not> bitmap_block (readsb dev k) b"
    using assms(2) by (auto simp: data_blocks_def data_start_def bitmap_start_def bitmap_block_def)
  then show "disk_ok dev (blk_write dev b d k)" "data_blocks dev (blk_write dev b d k) = data_blocks dev k"
    "free_blocks dev (blk_write dev b d k) = free_blocks dev k"
    "readsb dev (blk_write dev b d k) = readsb dev k"
    using disk_ok_write [OF assms(1)] assms(2) by auto
qed

lemma bfree_flip:
  assumes ok: "disk_ok dev k" and b: "b \<in> data_blocks dev k - free_blocks dev k"
  shows "bfree dev b k = Some (flip_to False dev (unat b) (bzero dev b k))"
proof -
  let ?k = "bzero dev b k"
  note w = data_block_write [OF ok b, of "\<lambda>_. 0", folded bzero_def]
  have "used dev ?k (unat b)" using b w(2,3) by (auto simp: free_blocks_def data_blocks_def)
  then show ?thesis
    by (simp add: bfree_def Let_def w(4) used_def and_bit_mask flip_to_def)
      (simp add: bit_mask_def)
qed

lemma bfree_data:
  assumes ok: "disk_ok dev k" and b: "b \<in> data_blocks dev k - free_blocks dev k"
  obtains k' where "bfree dev b k = Some k'" "disk_ok dev k'"
    "free_blocks dev k' = insert b (free_blocks dev k)" "data_blocks dev k' = data_blocks dev k"
    "readsb dev k' = readsb dev k"
    "\<And>dev' c. dev' \<noteq> dev \<or> c \<noteq> b \<and> \<not> bitmap_block (readsb dev k) c \<Longrightarrow> k' dev' c = k dev' c"
proof -
  note w = data_block_write [OF ok b, of "\<lambda>_. 0", folded bzero_def]
  have bd: "b \<in> data_blocks dev (bzero dev b k)" using b w by simp
  note f = disk_ok_flip [OF w(1) bd, of False]
  show ?thesis
    by (rule that [OF bfree_flip [OF ok b]])
      (use f w in \<open>auto simp: bzero_def only_bitmap_def blk_write_def\<close>)
qed

lemma balloc_data:
  assumes ok: "disk_ok dev k" and ne: "free_blocks dev k \<noteq> {}"
  obtains b k' where "balloc dev k = Some (b, k')" "disk_ok dev k'" "b \<in> free_blocks dev k"
    "free_blocks dev k' = free_blocks dev k - {b}" "data_blocks dev k' = data_blocks dev k"
    "readsb dev k' = readsb dev k"
    "\<And>dev' c. dev' \<noteq> dev \<or> \<not> bitmap_block (readsb dev k) c \<Longrightarrow> k' dev' c = k dev' c"
proof -
  from free_blocks_least [OF assms] obtain b where b: "b \<in> free_blocks dev k"
    "balloc dev k = Some (b, flip_to True dev (unat b) k)" by metis
  then have "b \<in> data_blocks dev k" using free_subset_data [OF ok] by blast
  from disk_ok_flip [OF ok this, of True] that [OF b(2)] b(1) show ?thesis
    by (auto simp: only_bitmap_def)
qed

section \<open>The contract of a block allocator\<close>

text \<open>
  What the file layer relies on: a pool of blocks, a set of free ones, an allocator that hands
  out a free block and a release that takes back one that is in use.
\<close>

fun alloc_many :: "('s \<Rightarrow> ('b \<times> 's) option) \<Rightarrow> nat \<Rightarrow> 's \<Rightarrow> ('b list \<times> 's) option" where
  "alloc_many a 0 s = Some ([], s)"
| "alloc_many a (Suc n) s = do {(b, s1) \<leftarrow> a s; (bs, s2) \<leftarrow> alloc_many a n s1; Some (b # bs, s2)}"

fun release_all :: "('b \<Rightarrow> 's \<Rightarrow> 's option) \<Rightarrow> 'b list \<Rightarrow> 's \<Rightarrow> 's option" where
  "release_all r [] s = Some s"
| "release_all r (b # bs) s = do {s1 \<leftarrow> r b s; release_all r bs s1}"

locale block_allocator =
  fixes alloc :: "'s \<Rightarrow> ('b \<times> 's) option" and release :: "'b \<Rightarrow> 's \<Rightarrow> 's option"
    and inv :: "'s \<Rightarrow> bool" and free :: "'s \<Rightarrow> 'b set" and pool :: "'s \<Rightarrow> 'b set"
  assumes free_pool: "inv s \<Longrightarrow> free s \<subseteq> pool s"
    and alloc_step: "\<lbrakk>inv s; free s \<noteq> {}\<rbrakk> \<Longrightarrow> \<exists>b s'. alloc s = Some (b, s') \<and> inv s' \<and>
      b \<in> free s \<and> free s' = free s - {b} \<and> pool s' = pool s"
    and release_step: "\<lbrakk>inv s; b \<in> pool s - free s\<rbrakk> \<Longrightarrow> \<exists>s'. release b s = Some s' \<and> inv s' \<and>
      free s' = insert b (free s) \<and> pool s' = pool s"
begin

lemma alloc_many_distinct:
  assumes "inv s" "finite (free s)" "n \<le> card (free s)"
  shows "\<exists>bs s'. alloc_many alloc n s = Some (bs, s') \<and> inv s' \<and> length bs = n \<and> distinct bs \<and>
    set bs \<subseteq> free s \<and> free s' = free s - set bs \<and> pool s' = pool s"
  using assms
proof (induction n arbitrary: s)
  case (Suc n)
  then have "free s \<noteq> {}" by auto
  with Suc.prems obtain b s1 where 1: "alloc s = Some (b, s1)" "inv s1" "b \<in> free s"
    "free s1 = free s - {b}" "pool s1 = pool s" using alloc_step by blast
  then have "n \<le> card (free s1)" "finite (free s1)" using Suc.prems by auto
  with Suc.IH [OF 1(2)] obtain bs s2 where "alloc_many alloc n s1 = Some (bs, s2)" "inv s2"
    "length bs = n" "distinct bs" "set bs \<subseteq> free s1" "free s2 = free s1 - set bs" "pool s2 = pool s1"
    by blast
  with 1 show ?case by auto
qed simp

lemma release_all_frees:
  assumes "inv s" "distinct bs" "set bs \<subseteq> pool s - free s"
  shows "\<exists>s'. release_all release bs s = Some s' \<and> inv s' \<and> free s' = free s \<union> set bs \<and> pool s' = pool s"
  using assms
proof (induction bs arbitrary: s)
  case (Cons b bs)
  then obtain s1 where 1: "release b s = Some s1" "inv s1" "free s1 = insert b (free s)" "pool s1 = pool s"
    using release_step [of s b] by auto
  with Cons.prems have "set bs \<subseteq> pool s1 - free s1" by auto
  with Cons.IH [OF 1(2)] Cons.prems 1 show ?case by auto
qed simp

lemma alloc_release_roundtrip:
  assumes "inv s" "finite (free s)" "n \<le> card (free s)"
  shows "\<exists>bs s1 s2. alloc_many alloc n s = Some (bs, s1) \<and> length bs = n \<and> distinct bs \<and>
    set bs \<subseteq> free s \<and> release_all release bs s1 = Some s2 \<and> inv s2 \<and> free s2 = free s"
proof -
  from alloc_many_distinct [OF assms] obtain bs s1 where 1: "alloc_many alloc n s = Some (bs, s1)"
    "inv s1" "length bs = n" "distinct bs" "set bs \<subseteq> free s" "free s1 = free s - set bs"
    "pool s1 = pool s" by blast
  moreover have "set bs \<subseteq> pool s1 - free s1" using 1 free_pool [OF assms(1)] by auto
  ultimately show ?thesis using release_all_frees [of s1 bs] by auto
qed

end

interpretation fb: block_allocator "balloc dev" "bfree dev" "disk_ok dev" "free_blocks dev" "data_blocks dev"
  for dev
  by unfold_locales (blast dest: free_subset_data, metis balloc_data, metis bfree_data)

text \<open>
  C12: Allocation of disk blocks.  On a well-formed disk with at least \<open>n\<close> free blocks, \<open>n\<close> calls of
  \<open>balloc\<close> return without panic \<open>n\<close> different blocks that were free, and freeing them again with
  \<open>bfree\<close> runs without panic and restores the set of free blocks on a well-formed disk.
\<close>
theorem balloc_bfree_roundtrip:
  assumes "disk_ok dev k" "n \<le> card (free_blocks dev k)"
  shows "\<exists>bs k1 k2. alloc_many (balloc dev) n k = Some (bs, k1) \<and> length bs = n \<and> distinct bs \<and>
    set bs \<subseteq> free_blocks dev k \<and> release_all (bfree dev) bs k1 = Some k2 \<and> disk_ok dev k2 \<and>
    free_blocks dev k2 = free_blocks dev k"
  using fb.alloc_release_roundtrip [OF assms(1) finite_free_blocks assms(2)] .

text \<open>
  The end of the disk.  When every block of the image is in use and the bitmap has spare bits
  after the last block that are clear, \<open>balloc\<close> does not panic: the inner loop runs to \<open>BPB\<close>
  whatever the size of the image, and the caller is given the number of the block after the last one.
  The panic comes only when the spare bits are used up too.
\<close>
theorem balloc_past_end:
  assumes "geometry (readsb dev k)" "\<forall>c < unat (sb_size (readsb dev k)). used dev k c"
    "unat (sb_size (readsb dev k)) < scan_limit (readsb dev k)"
  shows "(\<not> used dev k (unat (sb_size (readsb dev k))) \<longrightarrow> map_option fst (balloc dev k) = Some (sb_size (readsb dev k))) \<and>
    ((\<forall>c < scan_limit (readsb dev k). used dev k c) \<longrightarrow> balloc dev k = None)"
  using balloc_loop_finds [OF assms(1) assms(3) _ assms(2), of 0] balloc_loop_full [OF assms(1), of 0]
  by (simp add: balloc_def)

text \<open>A small image: 32 blocks, 8 inodes, so one inode block, the bitmap in block 4, data from 5 on.\<close>

definition small_disk :: "nat \<Rightarrow> disk" where
  "small_disk n dev b =
     (if b = 1 then put32 (put32 (put32 (\<lambda>_. 0) 0 32) 4 27) 8 8
      else if b = 4 then (\<lambda>i. if i < n then 255 else if i = 0 then 31 else 0) else (\<lambda>_. 0))"

lemma small_disk_sb [simp]:
  "readsb dev (small_disk n) = \<lparr>sb_size = 32, sb_nblocks = 27, sb_ninodes = 8\<rparr>"
  by (simp add: readsb_def small_disk_def)

lemma small_disk_BBLOCK: "b < 4096 \<Longrightarrow> BBLOCK (of_nat b) 8 = 4"
  by (subst word_unat_eq_iff, subst unat_BBLOCK) (simp_all add: fs_consts)

lemma bit_31: "bit (31 :: int) n \<longleftrightarrow> n < 5"
proof -
  have "(31 :: int) = mask 5" by (simp add: mask_eq_exp_minus_1)
  then show ?thesis by (simp only: bit_mask_iff) auto
qed

lemma bit_255: "bit (255 :: int) n \<longleftrightarrow> n < 8"
proof -
  have "(255 :: int) = mask 8" by (simp add: mask_eq_exp_minus_1)
  then show ?thesis by (simp only: bit_mask_iff) auto
qed

lemma small_disk_used:
  assumes "b < 4096"
  shows "used dev (small_disk n) b \<longleftrightarrow> b < 5 \<or> b < 8 * n"
proof -
  have "b mod BPB = b" "b mod 8 < 8" using assms by (simp_all add: fs_consts)
  moreover have "b div 8 < n \<longleftrightarrow> b < 8 * n" by (auto simp: div_less_iff_less_mult mult.commute)
  ultimately show ?thesis
    using assms by (auto simp: used_def small_disk_BBLOCK small_disk_def bit_31 bit_255)
qed

lemma small_disk_geometry: "geometry (readsb dev (small_disk n))"
  by (simp add: geometry_def data_start_def bitmap_start_def fs_consts)

lemma small_disk_ok: "disk_ok dev (small_disk n)"
proof -
  have "of_nat b \<noteq> (1::u32)" "of_nat b \<noteq> (4::u32)" if "b < 32" "\<not> b < 5" for b
    using that by (auto simp: word_unat_eq_iff unat_of_nat)
  then show ?thesis
    using small_disk_geometry [of dev n]
    by (auto simp: disk_ok_def small_disk_used data_start_def bitmap_start_def fs_consts small_disk_def)
qed

lemma small_disk_free: "free_blocks dev (small_disk n) = {b. 5 \<le> unat b \<and> 8 * n \<le> unat b \<and> unat b < 32}"
  by (auto simp: free_blocks_def small_disk_used)

lemma small_disk_card: "27 \<le> card (free_blocks dev (small_disk 0))"
proof -
  have "(of_nat :: nat \<Rightarrow> u32) ` {5..<32} \<subseteq> free_blocks dev (small_disk 0)"
    by (auto simp: small_disk_free unat_of_nat)
  moreover have "inj_on (of_nat :: nat \<Rightarrow> u32) {5..<32}"
    by (rule inj_onI) (auto simp: word_unat_eq_iff unat_of_nat)
  then have "card ((of_nat :: nat \<Rightarrow> u32) ` {5..<32}) = 27" by (simp add: card_image)
  ultimately show ?thesis using card_mono [OF finite_free_blocks] by metis
qed

theorem balloc_bfree_roundtrip_witness:
  "\<exists>bs k1 k2. alloc_many (balloc 1) 27 (small_disk 0) = Some (bs, k1) \<and> length bs = 27 \<and>
     distinct bs \<and> release_all (bfree 1) bs k1 = Some k2 \<and> disk_ok 1 k2"
  using balloc_bfree_roundtrip [OF small_disk_ok small_disk_card] by blast

theorem balloc_past_end_witness: "map_option fst (balloc 1 (small_disk 4)) = Some 32"
proof -
  have "unat (sb_size (readsb 1 (small_disk 4))) < scan_limit (readsb 1 (small_disk 4))"
    by (simp add: scan_limit_def fs_consts)
  from balloc_past_end [OF small_disk_geometry _ this] show ?thesis
    by (simp add: small_disk_used)
qed

end
