(* ===== verification/Mfs.thy ===== *)
theory Mfs
  imports FsBlock "HOL-Library.Signed_Division"
begin

text \<open>
  The log-structured file server of P5 (\<open>linux/server.c\<close>, \<open>mfs.h\<close>).  The disk image is a file of bytes
  with a length and a position; \<open>lseek\<close> to a negative offset fails and leaves the position,
  \<open>read\<close> stops at the end of the file, \<open>write\<close> extends it.  The C structures are kept as
  the bytes they occupy (\<open>checkpoint_t\<close> 1028, \<open>imap_t\<close> and \<open>inode_t\<close> 64, \<open>dir_t\<close> 4096 bytes), so a short
  read leaves the rest of a buffer as it was.

  \<open>None\<close> is a write outside an array, another access of which nothing can be said, an
  uninitialised variable or an endless loop.  What is read from memory the code has not set is an
  argument: \<open>junk\<close> for local buffers and \<open>oob\<close> for the integers \<open>chkpt.imap[i]\<close> with an index outside the array, which
  \<open>initImage\<close> (\<open>i = 4096\<close>) and \<open>delInode\<close> read; the program goes on with what it finds there.  Offsets are mathematical integers: an image stays below two gigabytes.
\<close>

section \<open>The image file\<close>

record mfs =
  img :: "nat \<Rightarrow> u8"
  ilen :: nat
  fpos :: nat
  chkpt :: "nat \<Rightarrow> u8"
  iArr :: "nat \<Rightarrow> int"

definition lseek :: "int \<Rightarrow> mfs \<Rightarrow> mfs" where
  "lseek off s = (if off < 0 then s else s\<lparr>fpos := nat off\<rparr>)"

definition avail :: "nat \<Rightarrow> mfs \<Rightarrow> nat" where
  "avail n s = min n (ilen s - fpos s)"

text \<open>\<open>read\<close> into a buffer: the bytes that are there replace the first bytes of the buffer.\<close>

definition readf :: "(nat \<Rightarrow> u8) \<Rightarrow> nat \<Rightarrow> mfs \<Rightarrow> (nat \<Rightarrow> u8) \<times> mfs" where
  "readf buf n s = ((\<lambda>i. if i < avail n s then img s (fpos s + i) else buf i), s\<lparr>fpos := fpos s + avail n s\<rparr>)"

definition writef :: "(nat \<Rightarrow> u8) \<Rightarrow> nat \<Rightarrow> mfs \<Rightarrow> mfs" where
  "writef buf n s = s\<lparr>img := (\<lambda>i. if fpos s \<le> i \<and> i < fpos s + n then buf (i - fpos s)
       else if i < ilen s then img s i else 0),
     ilen := max (ilen s) (fpos s + n), fpos := fpos s + n\<rparr>"

section \<open>Structures\<close>

definition get_int :: "(nat \<Rightarrow> u8) \<Rightarrow> nat \<Rightarrow> int" where
  "get_int b p = sint (get32 b p)"

definition put_int :: "(nat \<Rightarrow> u8) \<Rightarrow> nat \<Rightarrow> int \<Rightarrow> nat \<Rightarrow> u8" where
  "put_int b p v = put32 b p (word_of_int v)"

definition sizeof_checkpoint :: nat where "sizeof_checkpoint = 1028"
definition sizeof_imap :: nat where "sizeof_imap = 64"
definition sizeof_inode :: nat where "sizeof_inode = 64"
definition sizeof_dir :: nat where "sizeof_dir = 4096"

lemmas mfs_sizes = sizeof_checkpoint_def sizeof_imap_def sizeof_inode_def sizeof_dir_def

text \<open>Elements of the arrays \<open>chkpt.imap\<close>, \<open>inodeArr\<close> (of an \<open>imap_t\<close>), \<open>blockArr\<close> and \<open>dirArr\<close>.\<close>

definition imap_at :: "(int \<Rightarrow> int) \<Rightarrow> (nat \<Rightarrow> u8) \<Rightarrow> int \<Rightarrow> int" where
  "imap_at oob c i = (if 0 \<le> i \<and> i < 256 then get_int c (4 * nat i) else oob i)"

definition endLog :: "(nat \<Rightarrow> u8) \<Rightarrow> int" where
  "endLog c = get_int c 1024"

definition set_endLog :: "int \<Rightarrow> (nat \<Rightarrow> u8) \<Rightarrow> nat \<Rightarrow> u8" where
  "set_endLog v c = put_int c 1024 v"

definition stat_type :: "(nat \<Rightarrow> u8) \<Rightarrow> int" where
  "stat_type b = get_int b 0"

definition stat_size :: "(nat \<Rightarrow> u8) \<Rightarrow> int" where
  "stat_size b = get_int b 4"

definition blockArr :: "(nat \<Rightarrow> u8) \<Rightarrow> nat \<Rightarrow> int" where
  "blockArr b i = get_int b (8 + 4 * i)"

definition ent_inum :: "(nat \<Rightarrow> u8) \<Rightarrow> nat \<Rightarrow> int" where
  "ent_inum b j = get_int b (64 * j + 60)"

definition set_ent_inum :: "(nat \<Rightarrow> u8) \<Rightarrow> nat \<Rightarrow> int \<Rightarrow> nat \<Rightarrow> u8" where
  "set_ent_inum b j v = put_int b (64 * j + 60) v"

text \<open>\<open>sprintf\<close> of a string without conversions: its bytes and a NUL.\<close>

definition put_str :: "(nat \<Rightarrow> u8) \<Rightarrow> nat \<Rightarrow> u8 list \<Rightarrow> nat \<Rightarrow> u8" where
  "put_str b p xs = (\<lambda>i. if p \<le> i \<and> i < p + length xs then xs ! (i - p) else if i = p + length xs then 0 else b i)"

definition set_ent_name :: "(nat \<Rightarrow> u8) \<Rightarrow> nat \<Rightarrow> u8 list \<Rightarrow> nat \<Rightarrow> u8" where
  "set_ent_name b j xs = put_str b (64 * j) xs"

definition strcmp_eq :: "(nat \<Rightarrow> u8) \<Rightarrow> nat \<Rightarrow> u8 list \<Rightarrow> bool" where
  "strcmp_eq b p xs \<longleftrightarrow> map (\<lambda>k. b (p + k)) [0..<length xs] = xs \<and> b (p + length xs) = 0"

definition strncmp_eq :: "(nat \<Rightarrow> u8) \<Rightarrow> nat \<Rightarrow> u8 list \<Rightarrow> bool" where
  "strncmp_eq b p xs \<longleftrightarrow> map (\<lambda>k. b (p + k)) [0..<min 60 (length xs)] = take 60 xs \<and>
     (length xs < 60 \<longrightarrow> b (p + length xs) = 0)"

text \<open>The loop that makes every entry of a directory block invalid.\<close>

fun clear_dir :: "(nat \<Rightarrow> u8) \<Rightarrow> nat \<Rightarrow> nat \<Rightarrow> u8" where
  "clear_dir b 0 = b"
| "clear_dir b (Suc n) = set_ent_name (set_ent_inum (clear_dir b n) n (-1)) n []"

fun clear_ints :: "(nat \<Rightarrow> u8) \<Rightarrow> nat \<Rightarrow> nat \<Rightarrow> nat \<Rightarrow> u8" where
  "clear_ints b p 0 = b"
| "clear_ints b p (Suc n) = put_int (clear_ints b p n) (p + 4 * n) (-1)"

definition dot :: "u8 list" where "dot = [46]"
definition dotdot :: "u8 list" where "dotdot = [46, 46]"

definition new_dir :: "(nat \<Rightarrow> u8) \<Rightarrow> int \<Rightarrow> int \<Rightarrow> nat \<Rightarrow> u8" where
  "new_dir junk self parent =
     (let d = clear_dir junk 64; d = set_ent_inum (set_ent_name d 0 dot) 0 self
      in set_ent_inum (set_ent_name d 1 dotdot) 1 parent)"

section \<open>Loading the inode map\<close>

text \<open>One piece of the map: the valid addresses are appended to \<open>iArr\<close>.\<close>

fun load_piece :: "(nat \<Rightarrow> u8) \<Rightarrow> nat list \<Rightarrow> (nat \<Rightarrow> int) \<times> nat \<Rightarrow> (nat \<Rightarrow> int) \<times> nat" where
  "load_piece b [] (a, k) = (a, k)"
| "load_piece b (j # js) (a, k) =
     (if get_int b (4 * j) \<ge> 0 then load_piece b js (a(k := get_int b (4 * j)), k + 1) else load_piece b js (a, k))"

fun load_pieces :: "nat list \<Rightarrow> (nat \<Rightarrow> u8) \<Rightarrow> nat \<Rightarrow> mfs \<Rightarrow> mfs" where
  "load_pieces [] tmp k s = s"
| "load_pieces (i # is) tmp k s =
     (let a = get_int (chkpt s) (4 * i) in
      if a \<ge> 0 then
        let (tmp', s1) = readf tmp sizeof_imap (lseek a s); (arr, k') = load_piece tmp' [0..<16] (iArr s1, k)
        in load_pieces is tmp' k' (s1\<lparr>iArr := arr\<rparr>)
      else load_pieces is tmp k s)"

definition loadMem :: "(nat \<Rightarrow> u8) \<Rightarrow> mfs \<Rightarrow> mfs" where
  "loadMem junk s =
     (let (c, s1) = readf (chkpt s) sizeof_checkpoint (lseek 0 s);
          s2 = s1\<lparr>chkpt := c, iArr := (\<lambda>_. -1)\<rparr>
      in load_pieces [0..<256] junk 0 s2)"

definition write_chkpt :: "mfs \<Rightarrow> mfs" where
  "write_chkpt s = writef (chkpt s) sizeof_checkpoint (lseek 0 s)"

definition iArr_at :: "mfs \<Rightarrow> int \<Rightarrow> int option" where
  "iArr_at s n = (if 0 \<le> n \<and> n < 4096 then Some (iArr s (nat n)) else None)"

section \<open>The checkpoint in memory\<close>

definition set_imap :: "int \<Rightarrow> int \<Rightarrow> mfs \<Rightarrow> mfs option" where
  "set_imap i v s = (if 0 \<le> i \<and> i < 256 then Some (s\<lparr>chkpt := put_int (chkpt s) (4 * nat i) v\<rparr>) else None)"

definition grow_log :: "int \<Rightarrow> mfs \<Rightarrow> mfs" where
  "grow_log n s = s\<lparr>chkpt := set_endLog (endLog (chkpt s) + n) (chkpt s)\<rparr>"

text \<open>\<open>lseek\<close> and \<open>read\<close>, \<open>lseek\<close> and \<open>write\<close> of a structure at an address.\<close>

definition read_at :: "(nat \<Rightarrow> u8) \<Rightarrow> int \<Rightarrow> nat \<Rightarrow> mfs \<Rightarrow> (nat \<Rightarrow> u8) \<times> mfs" where
  "read_at buf a n s = readf buf n (lseek a s)"

definition write_at :: "(nat \<Rightarrow> u8) \<Rightarrow> int \<Rightarrow> nat \<Rightarrow> mfs \<Rightarrow> mfs" where
  "write_at buf a n s = writef buf n (lseek a s)"

section \<open>Creating and opening the image\<close>

text \<open>The image a fresh server writes: checkpoint, one piece of the inode map, the root inode and
  its directory block.\<close>

definition root_inode :: "nat \<Rightarrow> u8" where
  "root_inode = (let b = clear_ints (put_int (\<lambda>_. 0) 0 0) 8 14
     in put_int (put_int b 8 (int (sizeof_checkpoint + sizeof_imap + sizeof_inode))) 4 (2 * 4096))"

definition new_image :: "(nat \<Rightarrow> u8) \<Rightarrow> mfs \<Rightarrow> mfs" where
  "new_image junk s =
     (let s = s\<lparr>img := (\<lambda>_. 0), ilen := 0, fpos := 0\<rparr>;
          c = set_endLog (int (sizeof_checkpoint + sizeof_imap + sizeof_inode + sizeof_dir)) (chkpt s);
          c = put_int (clear_ints c 0 256) 0 (int sizeof_checkpoint);
          s = writef c sizeof_checkpoint (lseek 0 (s\<lparr>chkpt := c\<rparr>));
          m = put_int (clear_ints junk 0 16) 0 (int (sizeof_checkpoint + sizeof_imap));
          s = writef m sizeof_imap s;
          s = writef root_inode sizeof_inode s
      in writef (new_dir junk 0 0) sizeof_dir s)"

text \<open>The first loop of \<open>initImage\<close> leaves \<open>i = 4096\<close>, and the second tests \<open>chkpt.imap[4096]\<close>.  When it is not negative the loop has no exit that the code determines.\<close>

definition initImage :: "bool \<Rightarrow> (int \<Rightarrow> int) \<Rightarrow> (nat \<Rightarrow> u8) \<Rightarrow> mfs \<Rightarrow> (int \<times> mfs) option" where
  "initImage exists oob junk s =
     (let s1 = (if \<not> exists then new_image junk s
                else let (c, s') = readf (chkpt s) sizeof_checkpoint (s\<lparr>fpos := 0\<rparr>) in s'\<lparr>chkpt := c\<rparr>);
          s2 = s1\<lparr>iArr := (\<lambda>_. -1)\<rparr>
      in if imap_at oob (chkpt s1) 4096 \<ge> 0 then None else Some (0, loadMem junk s2))"

section \<open>Reading, writing and status of a file\<close>

definition sRead :: "(nat \<Rightarrow> u8) \<Rightarrow> int \<Rightarrow> (nat \<Rightarrow> u8) \<Rightarrow> int \<Rightarrow> mfs \<Rightarrow> int \<times> (nat \<Rightarrow> u8) \<times> mfs" where
  "sRead junk inum buff blk s =
     (if inum \<ge> 4096 \<or> inum < 0 then (-1, buff, s)
      else if blk > 13 \<or> blk < 0 then (-1, buff, s)
      else let s1 = loadMem junk s in
        if iArr s1 (nat inum) = -1 then (-1, buff, s1)
        else let (inode, s2) = read_at junk (iArr s1 (nat inum)) sizeof_inode s1 in
          if blockArr inode (nat blk) = -1 then (-1, buff, s2)
          else let (b, s3) = read_at buff (blockArr inode (nat blk)) 4096 s2 in (0, b, s3))"

text \<open>The two branches of \<open>sWrite\<close>: a block is appended to the log, or the inode is only rewritten.\<close>

definition sWrite_new :: "(nat \<Rightarrow> u8) \<Rightarrow> int \<Rightarrow> nat \<Rightarrow> (nat \<Rightarrow> u8) \<Rightarrow> mfs \<Rightarrow> mfs" where
  "sWrite_new junk loc blk inode s =
     (let endLogTmp = endLog (chkpt s);
          s1 = write_at (clear_dir junk 64) (endLog (chkpt s)) sizeof_dir s;
          s2 = write_chkpt (grow_log 4096 s1);
          inode' = put_int (put_int inode (8 + 4 * blk) endLogTmp) 4 ((int blk + 1) * 4096);
          s3 = write_at inode' loc sizeof_inode s2
      in lseek endLogTmp s3)"

definition sWrite_old :: "int \<Rightarrow> nat \<Rightarrow> (nat \<Rightarrow> u8) \<Rightarrow> mfs \<Rightarrow> mfs" where
  "sWrite_old loc blk inode s =
     (let inode' = put_int inode 4 ((int blk + 1) * 4096);
          s1 = write_at inode' loc sizeof_inode s
      in lseek (blockArr inode' blk) s1)"

definition sWrite :: "(nat \<Rightarrow> u8) \<Rightarrow> int \<Rightarrow> (nat \<Rightarrow> u8) \<Rightarrow> int \<Rightarrow> mfs \<Rightarrow> int \<times> mfs" where
  "sWrite junk inum buff blk s =
     (if inum \<ge> 4096 \<or> inum < 0 then (-1, s)
      else if blk > 13 \<or> blk < 0 then (-1, s)
      else let s1 = loadMem junk s in
        if iArr s1 (nat inum) = -1 then (-1, s1)
        else let (inode, s2) = read_at junk (iArr s1 (nat inum)) sizeof_inode s1 in
          if stat_type inode \<noteq> 1 then (-1, s2)
          else let s3 = (if blockArr inode (nat blk) = -1 then sWrite_new junk (iArr s1 (nat inum)) (nat blk) inode s2
                         else sWrite_old (iArr s1 (nat inum)) (nat blk) inode s2)
            in (0, loadMem junk (writef buff 4096 s3)))"

definition sStat :: "(nat \<Rightarrow> u8) \<Rightarrow> int \<Rightarrow> mfs \<Rightarrow> (int \<times> (int \<times> int) option) \<times> mfs" where
  "sStat junk inum s =
     (if inum < 0 \<or> inum \<ge> 4096 then ((-1, None), s)
      else let s1 = loadMem junk s in
        if iArr s1 (nat inum) = -1 then ((-1, None), s1)
        else let (inode, s2) = read_at junk (iArr s1 (nat inum)) sizeof_inode s1
          in ((0, Some (stat_type inode, stat_size inode)), s2))"

section \<open>Directories\<close>

text \<open>The loop of \<open>sLookup\<close> does not skip a block whose address is -1: the seek fails and the next bytes of
  the file are taken for the block.\<close>

fun lookup_blocks :: "(nat \<Rightarrow> u8) \<Rightarrow> (nat \<Rightarrow> u8) \<Rightarrow> u8 list \<Rightarrow> nat list \<Rightarrow> mfs \<Rightarrow> int \<times> mfs" where
  "lookup_blocks junk pInode name [] s = (-1, s)"
| "lookup_blocks junk pInode name (i # is) s =
     (let (d, s1) = read_at junk (blockArr pInode i) sizeof_dir s in
      case find (\<lambda>j. strncmp_eq d (64 * j) name) [0..<64] of
        Some j \<Rightarrow> (ent_inum d j, s1)
      | None \<Rightarrow> lookup_blocks junk pInode name is s1)"

definition sLookup :: "(nat \<Rightarrow> u8) \<Rightarrow> int \<Rightarrow> u8 list \<Rightarrow> mfs \<Rightarrow> int \<times> mfs" where
  "sLookup junk pinum name s =
     (if pinum < 0 \<or> pinum \<ge> 4096 then (-1, s)
      else let s1 = loadMem junk s in
        if iArr s1 (nat pinum) = -1 then (-1, s1)
        else if length name < 1 \<or> length name > 60 then (-1, s1)
        else let (pInode, s2) = read_at junk (iArr s1 (nat pinum)) sizeof_inode s1 in
          if stat_type pInode \<noteq> 0 then (-1, s2)
          else lookup_blocks junk pInode name [0..<14] s2)"

section \<open>The inode map\<close>

definition cImapPiece :: "(nat \<Rightarrow> u8) \<Rightarrow> mfs \<Rightarrow> (int \<times> mfs) option" where
  "cImapPiece junk s =
     (let s1 = loadMem junk s in
      case find (\<lambda>i. get_int (chkpt s1) (4 * i) = -1) [0..<256] of
        None \<Rightarrow> None
      | Some n \<Rightarrow>
        let s2 = s1\<lparr>chkpt := put_int (chkpt s1) (4 * n) (endLog (chkpt s1))\<rparr>;
            nimap = clear_ints junk 0 16;
            s3 = write_chkpt (grow_log (int sizeof_imap) s2);
            s4 = write_at nimap (get_int (chkpt s3) (4 * n)) sizeof_imap s3
        in Some (int n, loadMem junk s4))"

definition delImap :: "(nat \<Rightarrow> u8) \<Rightarrow> int \<Rightarrow> mfs \<Rightarrow> (int \<times> mfs) option" where
  "delImap junk imapInd s =
     do { s1 \<leftarrow> set_imap imapInd (-1) (loadMem junk s);
          Some (0, loadMem junk (write_chkpt s1)) }"

fun count_pos :: "(nat \<Rightarrow> u8) \<Rightarrow> nat list \<Rightarrow> nat" where
  "count_pos b [] = 0"
| "count_pos b (i # is) = (if get_int b (4 * i) > 0 then Suc (count_pos b is) else 0)"

text \<open>
  The caller \<open>sUnlink\<close> passes the address of the inode where the parameter is its number, so that \<open>imapInd\<close> is usually
  outside the array.  The loop of \<open>delInode\<close> tests \<open>inodeArr[i] > 0\<close> before \<open>i < 16\<close>, but one of the 16 entries has just been
  set to -1, so it stops inside the array.
\<close>

definition delInode :: "(int \<Rightarrow> int) \<Rightarrow> (nat \<Rightarrow> u8) \<Rightarrow> int \<Rightarrow> mfs \<Rightarrow> (int \<times> mfs) option" where
  "delInode oob junk inum s =
     (let imapInd = inum sdiv 16; imapInIndex = inum smod 16 in
      if imapInIndex < 0 then Some (-1, s)
      else do {
        let (b, s1) = read_at junk (imap_at oob (chkpt s) imapInd) sizeof_imap s;
        let b' = put_int b (4 * nat imapInIndex) (-1);
        s2 \<leftarrow> (if count_pos b' [0..<16] = 0 then map_option snd (delImap junk imapInd s1)
               else Some (write_at b' (imap_at oob (chkpt s1) imapInd) sizeof_imap s1));
        Some (0, loadMem junk s2) })"

section \<open>Creating a file\<close>

definition cInode :: "(nat \<Rightarrow> u8) \<Rightarrow> int \<Rightarrow> int \<Rightarrow> mfs \<Rightarrow> (int \<times> mfs) option" where
  "cInode junk pinum type s =
     do { let s1 = loadMem junk s;
          n \<leftarrow> find (\<lambda>i. iArr s1 i = -1) [0..<4096];
          let imapInd = n div 16;
          let nImapInd = n mod 16;
          s2 \<leftarrow> (if nImapInd = 0 then map_option snd (cImapPiece junk s1) else Some s1);
          let (m, s3) = read_at junk (get_int (chkpt s2) (4 * imapInd)) sizeof_imap s2;
          let m' = put_int m (4 * nImapInd) (endLog (chkpt s3));
          let s4 = write_at m' (get_int (chkpt s3) (4 * imapInd)) sizeof_imap s3;
          let ino = clear_ints (put_int junk 0 type) 8 14;
          let ino' = put_int ino 8 (endLog (chkpt s4) + int sizeof_inode);
          let ino'' = put_int ino' 4 (if type = 0 then 2 * 4096 else 0);
          let s5 = write_at ino'' (endLog (chkpt s4)) sizeof_inode s4;
          let s6 = grow_log (int sizeof_inode) s5;
          let s7 = (if type = 0 then grow_log (int sizeof_dir) (writef (new_dir junk (int n) pinum) sizeof_dir s6)
                    else grow_log 4096 (writef junk 4096 s6));
          Some (int n, loadMem junk (write_chkpt s7)) }"

text \<open>\<open>sprintf (dst, name, 60)\<close> takes the name as a format: a conversion in it has no defined effect here.\<close>

definition sprintf_name :: "(nat \<Rightarrow> u8) \<Rightarrow> nat \<Rightarrow> u8 list \<Rightarrow> (nat \<Rightarrow> u8) option" where
  "sprintf_name b j name = (if 37 \<in> set name then None else Some (set_ent_name (set_ent_name b j []) j name))"

definition sCreate_entry :: "(nat \<Rightarrow> u8) \<Rightarrow> int \<Rightarrow> int \<Rightarrow> u8 list \<Rightarrow> (nat \<Rightarrow> u8) \<Rightarrow> mfs \<Rightarrow> (int \<times> mfs) option" where
  "sCreate_entry junk pinumLoc newInum name pInode s =
     (let bi = stat_size pInode sdiv (4096 * 64) in
      if bi > 14 then Some (-1, s)
      else let di = (stat_size pInode sdiv 4096) smod 64; p1 = put_int pInode 4 (stat_size pInode + 4096) in
        if bi < 0 \<or> bi = 14 \<or> di < 0 then None
        else let (p2, s1) = (if di = 0 then
                 (put_int p1 (8 + 4 * nat bi) (endLog (chkpt s)),
                  write_chkpt (grow_log 4096 (write_at (clear_dir junk 64) (endLog (chkpt s)) sizeof_dir s)))
               else (p1, s));
             s2 = loadMem junk (write_at p2 pinumLoc sizeof_inode s1);
             (d, s3) = read_at junk (blockArr p2 (nat bi)) sizeof_dir s2
          in case sprintf_name d (nat di) name of
               None \<Rightarrow> None
             | Some d' \<Rightarrow> Some (0, loadMem junk (write_at (set_ent_inum d' (nat di) newInum) (blockArr p2 (nat bi)) sizeof_dir s3)))"

definition sCreate :: "(nat \<Rightarrow> u8) \<Rightarrow> int \<Rightarrow> int \<Rightarrow> u8 list \<Rightarrow> mfs \<Rightarrow> (int \<times> mfs) option" where
  "sCreate junk pinum type name s =
     (if (type \<noteq> 0 \<and> type \<noteq> 1) \<or> pinum < 0 \<or> pinum > 4096 then Some (-1, s)
      else if length name < 1 \<or> length name \<ge> 60 then Some (-1, s)
      else do { loc0 \<leftarrow> iArr_at s pinum;
        if loc0 = -1 then Some (-1, s)
        else do { let (r, s1) = sLookup junk pinum name s;
          if r \<ge> 0 then Some (0, s1)
          else do { let loc = iArr s1 (nat pinum);
            let (pInode, s2) = read_at junk loc sizeof_inode s1;
            if stat_type pInode \<noteq> 0 then Some (-1, s2)
            else if stat_size pInode \<ge> 4096 * 14 * 64 then Some (-1, s2)
            else do { (newInum, s3) \<leftarrow> cInode junk pinum type s2;
              sCreate_entry junk loc newInum name pInode s3 } } } })"

section \<open>Unlinking a file\<close>

text \<open>The search: the block, the entry and the address of its inode; the buffer \<open>dirBlk\<close> keeps the last block
  read.\<close>

fun unlink_scan :: "(nat \<Rightarrow> u8) \<Rightarrow> u8 list \<Rightarrow> nat list \<Rightarrow> (nat \<Rightarrow> u8) \<Rightarrow> mfs \<Rightarrow>
    ((int \<times> nat \<times> int) option \<times> (nat \<Rightarrow> u8) \<times> mfs) option" where
  "unlink_scan pInode name [] d s = Some (None, d, s)"
| "unlink_scan pInode name (i # is) d s =
     (if blockArr pInode i \<ge> 0 then
        let (d', s1) = read_at d (blockArr pInode i) sizeof_dir s in
        case find (\<lambda>j. strcmp_eq d' (64 * j) name) [0..<64] of
          Some j \<Rightarrow> do { loc \<leftarrow> iArr_at s1 (ent_inum d' j); Some (Some (loc, j, blockArr pInode i), d', s1) }
        | None \<Rightarrow> unlink_scan pInode name is d' s1
      else unlink_scan pInode name is d s)"

fun last_block :: "(nat \<Rightarrow> u8) \<Rightarrow> nat \<Rightarrow> nat" where
  "last_block p 0 = 0"
| "last_block p (Suc n) = (if blockArr p n \<noteq> -1 then n else last_block p n)"

definition sUnlink_entry :: "(int \<Rightarrow> int) \<Rightarrow> (nat \<Rightarrow> u8) \<Rightarrow> int \<Rightarrow> (nat \<Rightarrow> u8) \<Rightarrow> int \<Rightarrow> nat \<Rightarrow> int \<Rightarrow> (nat \<Rightarrow> u8) \<Rightarrow> mfs \<Rightarrow>
    (int \<times> mfs) option" where
  "sUnlink_entry oob junk pinumLoc pInode loc j blkLoc d s =
     do { let (del, s1) = read_at junk loc sizeof_inode s;
          if stat_type del = 0 \<and> stat_size del > 2 * 4096 then Some (-1, s1)
          else do { (r, s2) \<leftarrow> delInode oob junk loc s1;
            let s3 = write_at (set_ent_name (set_ent_inum d j (-1)) j []) blkLoc sizeof_dir s2;
            let p' = put_int pInode 4 (int (last_block pInode 14 + 1) * 4096);
            Some (0, loadMem junk (write_at p' pinumLoc sizeof_inode s3)) } }"

definition sUnlink :: "(int \<Rightarrow> int) \<Rightarrow> (nat \<Rightarrow> u8) \<Rightarrow> int \<Rightarrow> u8 list \<Rightarrow> mfs \<Rightarrow> (int \<times> mfs) option" where
  "sUnlink oob junk pinum name s0 =
     (let s = loadMem junk s0 in
      if pinum < 0 \<or> pinum > 4096 then Some (-1, s)
      else do { pinumLoc \<leftarrow> iArr_at s pinum;
        if pinumLoc = -1 then Some (-1, s)
        else if name = dotdot \<or> name = dot then Some (-1, s)
        else if length name > 60 then Some (-1, s)
        else do { let (pInode, s1) = read_at junk pinumLoc sizeof_inode s;
          if stat_type pInode \<noteq> 0 then Some (-1, s1)
          else do { (found, d, s2) \<leftarrow> unlink_scan pInode name [0..<14] junk s1;
            case found of
              None \<Rightarrow> Some (-1, s2)
            | Some (loc, j, blkLoc) \<Rightarrow> sUnlink_entry oob junk pinumLoc pInode loc j blkLoc d s2 } } })"

section \<open>Requests\<close>

text \<open>A message is the 4192 bytes of a \<open>msg_t\<close>.  Its name ends at the first NUL, wherever that is; a request
  is answered by the message with the return number and the fields the operation fills, or ends the server.\<close>

definition msg_inum :: "(nat \<Rightarrow> u8) \<Rightarrow> int" where "msg_inum m = get_int m 4156"
definition msg_block :: "(nat \<Rightarrow> u8) \<Rightarrow> int" where "msg_block m = get_int m 4160"
definition msg_type :: "(nat \<Rightarrow> u8) \<Rightarrow> int" where "msg_type m = get_int m 4164"
definition msg_pinum :: "(nat \<Rightarrow> u8) \<Rightarrow> int" where "msg_pinum m = get_int m 4172"
definition msg_lib :: "(nat \<Rightarrow> u8) \<Rightarrow> int" where "msg_lib m = get_int m 4184"
definition msg_ret :: "(nat \<Rightarrow> u8) \<Rightarrow> int" where "msg_ret m = get_int m 4168"

definition msg_buffer :: "(nat \<Rightarrow> u8) \<Rightarrow> nat \<Rightarrow> u8" where "msg_buffer m = (\<lambda>i. m (60 + i))"

definition set_msg_buffer :: "(nat \<Rightarrow> u8) \<Rightarrow> (nat \<Rightarrow> u8) \<Rightarrow> nat \<Rightarrow> u8" where
  "set_msg_buffer m b = (\<lambda>i. if 60 \<le> i \<and> i < 60 + 4096 then b (i - 60) else m i)"

definition set_msg_ret :: "int \<Rightarrow> (nat \<Rightarrow> u8) \<Rightarrow> nat \<Rightarrow> u8" where "set_msg_ret r m = put_int m 4168 r"

definition set_msg_stat :: "int \<times> int \<Rightarrow> (nat \<Rightarrow> u8) \<Rightarrow> nat \<Rightarrow> u8" where
  "set_msg_stat ts m = put_int (put_int m 4176 (fst ts)) 4180 (snd ts)"

definition msg_name :: "(nat \<Rightarrow> u8) \<Rightarrow> u8 list option" where
  "msg_name m = (let bs = map m [0..<4192] in if 0 \<in> set bs then Some (takeWhile (\<lambda>c. c \<noteq> 0) bs) else None)"

datatype outcome = Reply "nat \<Rightarrow> u8" mfs | Exit "nat \<Rightarrow> u8"

definition handle :: "(int \<Rightarrow> int) \<Rightarrow> (nat \<Rightarrow> u8) \<Rightarrow> (nat \<Rightarrow> u8) \<Rightarrow> mfs \<Rightarrow> outcome option" where
  "handle oob junk m0 s =
     (let m = set_msg_ret (-1) m0; lib = msg_lib m in
      if lib = 0 then map_option (\<lambda>(r, s'). Reply (set_msg_ret r m) s') (initImage True oob junk s)
      else if lib = 1 then
        map_option (\<lambda>name. let (r, s') = sLookup junk (msg_pinum m) name s in Reply (set_msg_ret r m) s') (msg_name m)
      else if lib = 2 then
        (let ((r, st), s') = sStat junk (msg_inum m) s;
             m' = (case st of None \<Rightarrow> m | Some ts \<Rightarrow> set_msg_stat ts m)
         in Some (Reply (set_msg_ret r m') s'))
      else if lib = 3 then
        (let (r, s') = sWrite junk (msg_inum m) (msg_buffer m) (msg_block m) s in Some (Reply (set_msg_ret r m) s'))
      else if lib = 4 then
        (let (r, b, s') = sRead junk (msg_inum m) (msg_buffer m) (msg_block m) s
         in Some (Reply (set_msg_ret r (set_msg_buffer m b)) s'))
      else if lib = 5 then
        do { name \<leftarrow> msg_name m;
             (r, s') \<leftarrow> sCreate junk (msg_pinum m) (msg_type m) name s;
             Some (Reply (set_msg_ret r m) s') }
      else if lib = 6 then
        do { name \<leftarrow> msg_name m;
             (r, s') \<leftarrow> sUnlink oob junk (msg_pinum m) name s;
             Some (Reply (set_msg_ret r m) s') }
      else if lib = 7 then Some (Exit (set_msg_ret 0 m))
      else Some (Reply (set_msg_ret (-1) m) s))"

end
