(* ===== verification/MfsImage.thy ===== *)
theory MfsImage
  imports Mfs
begin

text \<open>
  The image of the log-structured file server as an abstract file store.  An image is well formed when
  the checkpoint, the pieces of the inode map, the inodes and the data blocks occupy disjoint stretches below
  the end of the log.  On such an image \<open>loadMem\<close> computes a fixed list of inode addresses, and \<open>sWrite\<close> and \<open>sRead\<close> are
  update and lookup of a map from inode number and block number to 4096 bytes.
\<close>

section \<open>Integers in the image\<close>

lemma get_int_cong: "(\<And>i. p \<le> i \<Longrightarrow> i < p + 4 \<Longrightarrow> d i = e i) \<Longrightarrow> get_int d p = get_int e p"
  unfolding get_int_def by (rule arg_cong [OF get32_cong]) auto

lemma get_int_shift: "get_int (\<lambda>i. d (p + i)) q = get_int d (p + q)"
  by (simp add: get_int_def get32_def add.assoc)

text \<open>A structure of 64 bytes read from address \<open>p\<close>.\<close>

lemma get_int_window:
  assumes "\<And>i. i < 64 \<Longrightarrow> b i = d (p + i)" "q + 4 \<le> 64"
  shows "get_int b q = get_int d (p + q)"
proof -
  have "get_int b q = get_int (\<lambda>i. d (p + i)) q" by (rule get_int_cong) (use assms in simp)
  then show ?thesis by (simp add: get_int_shift)
qed

lemma int_range_32: "- (2 ^ 31) \<le> get_int d p" "get_int d p < 2 ^ 31"
  using sint_ge [of "get32 d p"] sint_lt [of "get32 d p"] by (simp_all add: get_int_def)

lemma get_int_put_int [simp]: "- (2 ^ 31) \<le> v \<Longrightarrow> v < 2 ^ 31 \<Longrightarrow> get_int (put_int d p v) p = v"
  by (simp add: get_int_def put_int_def sint_sbintrunc' signed_take_bit_int_eq_self)

lemma get_int_put_int_other [simp]: "q + 4 \<le> p \<or> p + 4 \<le> q \<Longrightarrow> get_int (put_int d p v) q = get_int d q"
  by (simp add: get_int_def put_int_def)

lemma put_int_other: "k < p \<or> p + 4 \<le> k \<Longrightarrow> put_int d p v k = d k"
  by (simp add: put_int_def put32_other)

section \<open>The list of inodes\<close>

definition piece :: "(nat \<Rightarrow> u8) \<Rightarrow> nat \<Rightarrow> int" where
  "piece d i = get_int d (4 * i)"

definition piece_nodes :: "(nat \<Rightarrow> u8) \<Rightarrow> nat \<Rightarrow> int list" where
  "piece_nodes d i = (if piece d i \<ge> 0 then
     filter (\<lambda>v. v \<ge> 0) (map (\<lambda>j. get_int d (nat (piece d i) + 4 * j)) [0..<16]) else [])"

definition node_list :: "(nat \<Rightarrow> u8) \<Rightarrow> int list" where
  "node_list d = concat (map (piece_nodes d) [0..<256])"

definition pieces_ok :: "(nat \<Rightarrow> u8) \<Rightarrow> nat \<Rightarrow> bool" where
  "pieces_ok d n \<longleftrightarrow> 1028 \<le> n \<and> (\<forall>i<256. piece d i \<ge> 0 \<longrightarrow> nat (piece d i) + 64 \<le> n)"

definition place :: "int list \<Rightarrow> nat \<Rightarrow> int" where
  "place vs k = (if k < length vs then vs ! k else -1)"

lemma load_piece_filter:
  "load_piece b js (place vs, length vs) =
     (place (vs @ filter (\<lambda>v. v \<ge> 0) (map (\<lambda>j. get_int b (4 * j)) js)),
      length (vs @ filter (\<lambda>v. v \<ge> 0) (map (\<lambda>j. get_int b (4 * j)) js)))"
proof (induction js arbitrary: vs)
  case (Cons j js)
  have "(place vs)(length vs := v) = place (vs @ [v])" for v
    by (rule ext) (simp add: place_def nth_append)
  then show ?case using Cons [of "vs @ [get_int b (4 * j)]"] Cons [of vs] by simp
qed simp

lemma load_pieces_nodes:
  assumes "pieces_ok (img s) (ilen s)" "set is \<subseteq> {..<256}" "\<And>i. i < 1028 \<Longrightarrow> chkpt s i = img s i"
    "iArr s = place vs"
  shows "\<exists>p. load_pieces is tmp (length vs) s =
    s\<lparr>fpos := p, iArr := place (vs @ concat (map (piece_nodes (img s)) is))\<rparr>"
  using assms
proof (induction "is" arbitrary: s vs tmp)
  case Nil
  then show ?case by (intro exI [of _ "fpos s"]) simp
next
  case (Cons i "is")
  have i: "i < 256" using Cons.prems by simp
  have a: "get_int (chkpt s) (4 * i) = piece (img s) i"
    unfolding piece_def by (rule get_int_cong) (use Cons.prems i in simp)
  show ?case
  proof (cases "piece (img s) i \<ge> 0")
    case True
    define p where "p = nat (piece (img s) i)"
    have p: "p + 64 \<le> ilen s" using Cons.prems(1) True i by (simp add: pieces_ok_def p_def)
    define b where "b = (\<lambda>k. if k < 64 then img s (p + k) else tmp k)"
    define s1 where "s1 = s\<lparr>fpos := p + 64\<rparr>"
    have r: "readf tmp sizeof_imap (lseek (piece (img s) i) s) = (b, s1)"
      using p True by (auto simp: readf_def lseek_def avail_def mfs_sizes b_def s1_def p_def)
    have g: "get_int b (4 * j) = get_int (img s) (p + 4 * j)" if "j < 16" for j
      by (rule get_int_window) (use that in \<open>simp_all add: b_def\<close>)
    have l: "map (\<lambda>j. get_int b (4 * j)) [0..<16] = map (\<lambda>j. get_int (img s) (p + 4 * j)) [0..<16]"
      by (rule map_cong) (simp_all add: g)
    have n: "piece_nodes (img s) i = filter (\<lambda>v. v \<ge> 0) (map (\<lambda>j. get_int (img s) (p + 4 * j)) [0..<16])"
      using True by (simp add: piece_nodes_def p_def)
    define ws where "ws = vs @ piece_nodes (img s) i"
    have lp: "load_piece b [0..<16] (iArr s1, length vs) = (place ws, length ws)"
      using load_piece_filter [of b "[0..<16]" vs] Cons.prems(4)
      unfolding l n [symmetric] ws_def by (simp add: s1_def)
    have "load_pieces (i # is) tmp (length vs) s = load_pieces is b (length ws) (s1\<lparr>iArr := place ws\<rparr>)"
      using True by (simp add: a r lp)
    moreover have "\<exists>q. load_pieces is b (length ws) (s1\<lparr>iArr := place ws\<rparr>) =
        (s1\<lparr>iArr := place ws\<rparr>)\<lparr>fpos := q, iArr := place (ws @ concat (map (piece_nodes (img (s1\<lparr>iArr := place ws\<rparr>))) is))\<rparr>"
      by (rule Cons.IH) (use Cons.prems in \<open>simp_all add: s1_def\<close>)
    ultimately show ?thesis by (auto simp: s1_def ws_def)
  next
    case False
    then have "piece_nodes (img s) i = []" by (simp add: piece_nodes_def)
    then show ?thesis using Cons.IH [of s vs tmp] Cons.prems False a by simp
  qed
qed

text \<open>The inode array after \<open>loadMem\<close> is the list of valid addresses, packed: the piece and the slot of an
  address play no part.\<close>

lemma loadMem_nodes:
  assumes "pieces_ok (img s) (ilen s)"
  obtains p where "loadMem junk s =
    s\<lparr>chkpt := (\<lambda>i. if i < 1028 then img s i else chkpt s i), fpos := p,
      iArr := place (node_list (img s))\<rparr>"
proof -
  define c where "c = (\<lambda>i. if i < 1028 then img s i else chkpt s i)"
  define s2 where "s2 = s\<lparr>fpos := 1028, chkpt := c, iArr := place []\<rparr>"
  have r: "readf (chkpt s) sizeof_checkpoint (lseek 0 s) = (c, s\<lparr>fpos := 1028\<rparr>)"
    using assms by (auto simp: readf_def lseek_def avail_def mfs_sizes c_def pieces_ok_def)
  have z: "(\<lambda>_. -1) = place []" by (simp add: place_def fun_eq_iff)
  have "loadMem junk s = load_pieces [0..<256] junk (length ([] :: int list)) s2"
    by (simp add: loadMem_def r s2_def z)
  moreover have "\<exists>p. load_pieces [0..<256] junk (length ([] :: int list)) s2 =
      s2\<lparr>fpos := p, iArr := place ([] @ concat (map (piece_nodes (img s2)) [0..<256]))\<rparr>"
    by (rule load_pieces_nodes) (use assms in \<open>auto simp: s2_def c_def\<close>)
  ultimately show thesis using that by (auto simp: s2_def c_def node_list_def)
qed

section \<open>Well-formed images\<close>

definition apart :: "int \<Rightarrow> int \<Rightarrow> int \<Rightarrow> int \<Rightarrow> bool" where
  "apart a m b n \<longleftrightarrow> a + m \<le> b \<or> b + n \<le> a"

definition blk_addr :: "(nat \<Rightarrow> u8) \<Rightarrow> nat \<Rightarrow> nat \<Rightarrow> int" where
  "blk_addr d k i = get_int d (nat (node_list d ! k) + 8 + 4 * i)"

definition node_ok :: "(nat \<Rightarrow> u8) \<Rightarrow> nat \<Rightarrow> bool" where
  "node_ok d k \<longleftrightarrow> (let n = node_list d ! k in 1028 \<le> n \<and> n + 64 \<le> endLog d \<and>
     (\<forall>i<256. 0 \<le> piece d i \<longrightarrow> apart n 64 (piece d i) 64) \<and>
     (\<forall>l<length (node_list d). l \<noteq> k \<longrightarrow> apart n 64 (node_list d ! l) 64))"

definition block_ok :: "(nat \<Rightarrow> u8) \<Rightarrow> nat \<Rightarrow> nat \<Rightarrow> bool" where
  "block_ok d k i \<longleftrightarrow> (let b = blk_addr d k i in b = -1 \<or>
     (1028 \<le> b \<and> b + 4096 \<le> endLog d \<and>
      (\<forall>j<256. 0 \<le> piece d j \<longrightarrow> apart b 4096 (piece d j) 64) \<and>
      (\<forall>l<length (node_list d). apart b 4096 (node_list d ! l) 64) \<and>
      (\<forall>l<length (node_list d). \<forall>j<14. (l, j) \<noteq> (k, i) \<longrightarrow> blk_addr d l j \<noteq> -1 \<longrightarrow>
         apart b 4096 (blk_addr d l j) 4096)))"

definition image_ok :: "(nat \<Rightarrow> u8) \<Rightarrow> nat \<Rightarrow> bool" where
  "image_ok d n \<longleftrightarrow> 1028 \<le> endLog d \<and> endLog d \<le> int n \<and>
     (\<forall>i<256. 0 \<le> piece d i \<longrightarrow> 1028 \<le> piece d i \<and> piece d i + 64 \<le> endLog d) \<and>
     (\<forall>k<length (node_list d). node_ok d k \<and> (\<forall>i<14. block_ok d k i))"

text \<open>The abstract store: the block of a file, its type and its size.\<close>

definition file_block :: "(nat \<Rightarrow> u8) \<Rightarrow> nat \<Rightarrow> nat \<Rightarrow> u8 list option" where
  "file_block d k i = (if k < length (node_list d) \<and> i < 14 \<and> blk_addr d k i \<noteq> -1
     then Some (map (\<lambda>j. d (nat (blk_addr d k i) + j)) [0..<4096]) else None)"

definition file_stat :: "(nat \<Rightarrow> u8) \<Rightarrow> nat \<Rightarrow> (int \<times> int) option" where
  "file_stat d k = (if k < length (node_list d) then
     Some (get_int d (nat (node_list d ! k)), get_int d (nat (node_list d ! k) + 4)) else None)"

lemma image_pieces_ok: "image_ok d n \<Longrightarrow> pieces_ok d n"
  by (fastforce simp: image_ok_def pieces_ok_def)

lemma node_list_cong:
  assumes "\<And>i. i < 1024 \<Longrightarrow> d' i = d i"
    and "\<And>i j. i < 256 \<Longrightarrow> 0 \<le> piece d i \<Longrightarrow> piece d i \<le> int j \<Longrightarrow> int j < piece d i + 64 \<Longrightarrow> d' j = d j"
  shows "node_list d' = node_list d" and "i < 256 \<Longrightarrow> piece d' i = piece d i"
proof -
  have p: "piece d' i = piece d i" if "i < 256" for i
    unfolding piece_def by (rule get_int_cong) (use assms(1) that in simp)
  then show "i < 256 \<Longrightarrow> piece d' i = piece d i" .
  have "piece_nodes d' i = piece_nodes d i" if i: "i < 256" for i
  proof (cases "0 \<le> piece d i")
    case True
    have "get_int d' (nat (piece d i) + 4 * j) = get_int d (nat (piece d i) + 4 * j)" if "j < 16" for j
      by (rule get_int_cong, rule assms(2) [OF i True]) (use that True in linarith)+
    then have "map (\<lambda>j. get_int d' (nat (piece d i) + 4 * j)) [0..<16] =
        map (\<lambda>j. get_int d (nat (piece d i) + 4 * j)) [0..<16]" by simp
    then show ?thesis using p [OF i] by (simp only: piece_nodes_def)
  qed (simp add: piece_nodes_def p [OF i])
  then have "map (piece_nodes d') [0..<256] = map (piece_nodes d) [0..<256]" by simp
  then show "node_list d' = node_list d" by (simp only: node_list_def)
qed

section \<open>Writing one block\<close>

text \<open>\<open>patched d d' k b blk buf\<close>: from \<open>d\<close> to \<open>d'\<close> only the end of the log, the size and one block address of inode
  \<open>k\<close>, and the 4096 bytes at \<open>b\<close> have changed.\<close>

definition patched :: "(nat \<Rightarrow> u8) \<Rightarrow> (nat \<Rightarrow> u8) \<Rightarrow> nat \<Rightarrow> int \<Rightarrow> nat \<Rightarrow> (nat \<Rightarrow> u8) \<Rightarrow> bool" where
  "patched d d' k b blk buf \<longleftrightarrow> (let n = node_list d ! k in
     (\<forall>i<1024. d' i = d i) \<and>
     (\<forall>i. 1028 \<le> i \<longrightarrow> int i < endLog d \<longrightarrow> \<not> (n + 4 \<le> int i \<and> int i < n + 8) \<longrightarrow>
        \<not> (n + 8 + 4 * int blk \<le> int i \<and> int i < n + 12 + 4 * int blk) \<longrightarrow>
        \<not> (b \<le> int i \<and> int i < b + 4096) \<longrightarrow> d' i = d i) \<and>
     get_int d' (nat n + 4) = (int blk + 1) * 4096 \<and>
     get_int d' (nat n + 8 + 4 * blk) = b \<and>
     (\<forall>i<4096. d' (nat b + i) = buf i))"

text \<open>The block is either a new one at the end of the log or the one the file has.\<close>

definition block_write :: "(nat \<Rightarrow> u8) \<Rightarrow> (nat \<Rightarrow> u8) \<Rightarrow> nat \<Rightarrow> nat \<Rightarrow> nat \<Rightarrow> nat \<Rightarrow> int \<Rightarrow> (nat \<Rightarrow> u8) \<Rightarrow> bool" where
  "block_write d d' len len' k blk b buf \<longleftrightarrow>
     image_ok d len \<and> k < length (node_list d) \<and> blk < 14 \<and>
     (b = endLog d \<and> blk_addr d k blk = -1 \<and> endLog d' = endLog d + 4096 \<or>
      b = blk_addr d k blk \<and> b \<noteq> -1 \<and> endLog d' = endLog d) \<and>
     patched d d' k b blk buf \<and> endLog d' \<le> int len'"

lemma image_facts:
  assumes ok: "image_ok d len"
  shows "1028 \<le> endLog d" "i < 256 \<Longrightarrow> 0 \<le> piece d i \<Longrightarrow> 1028 \<le> piece d i"
  "i < 256 \<Longrightarrow> 0 \<le> piece d i \<Longrightarrow> piece d i + 64 \<le> endLog d"
  using ok by (auto simp: image_ok_def)

lemma image_nodes:
  assumes ok: "image_ok d len" and "l < length (node_list d)"
  shows "1028 \<le> node_list d ! l" "node_list d ! l + 64 \<le> endLog d"
    "i < 256 \<Longrightarrow> 0 \<le> piece d i \<Longrightarrow> apart (node_list d ! l) 64 (piece d i) 64"
    "m < length (node_list d) \<Longrightarrow> m \<noteq> l \<Longrightarrow> apart (node_list d ! l) 64 (node_list d ! m) 64"
  using ok assms by (auto simp: image_ok_def node_ok_def Let_def)

lemma image_blocks:
  assumes ok: "image_ok d len" and "l < length (node_list d)" "i < 14" "blk_addr d l i \<noteq> -1"
  shows "1028 \<le> blk_addr d l i" "blk_addr d l i + 4096 \<le> endLog d"
    "j < 256 \<Longrightarrow> 0 \<le> piece d j \<Longrightarrow> apart (blk_addr d l i) 4096 (piece d j) 64"
    "m < length (node_list d) \<Longrightarrow> apart (blk_addr d l i) 4096 (node_list d ! m) 64"
    "m < length (node_list d) \<Longrightarrow> j < 14 \<Longrightarrow> (m, j) \<noteq> (l, i) \<Longrightarrow> blk_addr d m j \<noteq> -1 \<Longrightarrow>
       apart (blk_addr d l i) 4096 (blk_addr d m j) 4096"
proof -
  have "block_ok d l i" using ok assms by (simp add: image_ok_def)
  then show "1028 \<le> blk_addr d l i" "blk_addr d l i + 4096 \<le> endLog d"
    "j < 256 \<Longrightarrow> 0 \<le> piece d j \<Longrightarrow> apart (blk_addr d l i) 4096 (piece d j) 64"
    "m < length (node_list d) \<Longrightarrow> apart (blk_addr d l i) 4096 (node_list d ! m) 64"
    "m < length (node_list d) \<Longrightarrow> j < 14 \<Longrightarrow> (m, j) \<noteq> (l, i) \<Longrightarrow> blk_addr d m j \<noteq> -1 \<Longrightarrow>
       apart (blk_addr d l i) 4096 (blk_addr d m j) 4096"
    using assms(4) by (auto simp: block_ok_def Let_def)
qed

lemma patched_same:
  assumes patch: "patched d d' k b blk buf" and "1028 \<le> i" "int i < endLog d" "\<not> (node_list d ! k + 4 \<le> int i \<and> int i < node_list d ! k + 8)"
    "\<not> (node_list d ! k + 8 + 4 * int blk \<le> int i \<and> int i < node_list d ! k + 12 + 4 * int blk)"
    "\<not> (b \<le> int i \<and> int i < b + 4096)"
  shows "d' i = d i"
  using patch assms by (auto simp: patched_def Let_def)

text \<open>The new block is apart from everything else.\<close>

lemma new_block:
  assumes w: "block_write d d' len len' k blk b buf"
  shows "1028 \<le> b" "b + 4096 \<le> endLog d'" "endLog d \<le> endLog d'"
    "i < 256 \<Longrightarrow> 0 \<le> piece d i \<Longrightarrow> apart b 4096 (piece d i) 64"
    "l < length (node_list d) \<Longrightarrow> apart b 4096 (node_list d ! l) 64"
    "l < length (node_list d) \<Longrightarrow> j < 14 \<Longrightarrow> (l, j) \<noteq> (k, blk) \<Longrightarrow> blk_addr d l j \<noteq> -1 \<Longrightarrow>
       apart b 4096 (blk_addr d l j) 4096"
proof -
  note ok = w [unfolded block_write_def, THEN conjunct1]
  have k: "k < length (node_list d)" and blk: "blk < 14"
    and target: "b = endLog d \<and> blk_addr d k blk = -1 \<and> endLog d' = endLog d + 4096 \<or>
      b = blk_addr d k blk \<and> b \<noteq> -1 \<and> endLog d' = endLog d"
    using w by (simp_all add: block_write_def)
  note f = target image_facts(1) [OF ok] image_facts(3) [OF ok, of i] image_nodes(2) [OF ok, of l]
    image_blocks(2) [OF ok, of l j] image_blocks(1,2) [OF ok k blk] image_blocks(3) [OF ok k blk, of i]
    image_blocks(4) [OF ok k blk, of l] image_blocks(5) [OF ok k blk, of l j]
  show "1028 \<le> b" "b + 4096 \<le> endLog d'" "endLog d \<le> endLog d'"
    "i < 256 \<Longrightarrow> 0 \<le> piece d i \<Longrightarrow> apart b 4096 (piece d i) 64"
    "l < length (node_list d) \<Longrightarrow> apart b 4096 (node_list d ! l) 64"
    "l < length (node_list d) \<Longrightarrow> j < 14 \<Longrightarrow> (l, j) \<noteq> (k, blk) \<Longrightarrow> blk_addr d l j \<noteq> -1 \<Longrightarrow>
       apart b 4096 (blk_addr d l j) 4096"
    using f by (auto simp: apart_def)
qed

lemma block_write_facts:
  assumes "block_write d d' len len' k blk b buf"
  shows "image_ok d len" "k < length (node_list d)" "blk < 14" "patched d d' k b blk buf" "endLog d' \<le> int len'"
  using assms by (simp_all add: block_write_def)

lemma block_write_nodes:
  assumes w: "block_write d d' len len' k blk b buf"
  shows "node_list d' = node_list d" and "i < 256 \<Longrightarrow> piece d' i = piece d i"
proof -
  note ok = block_write_facts(1) [OF w] and k = block_write_facts(2) [OF w] and blk = block_write_facts(3) [OF w]
    and patch = block_write_facts(4) [OF w]
  have one: "d' i = d i" if "i < 1024" for i using patch that by (auto simp: patched_def Let_def)
  have two: "d' j = d j" if "i < 256" "0 \<le> piece d i" "piece d i \<le> int j" "int j < piece d i + 64" for i j
    by (rule patched_same [OF patch]) (use that image_facts(2,3) [OF ok, of i] image_nodes(3) [OF ok k, of i] new_block(4) [OF w, of i] blk in \<open>auto simp: apart_def\<close>)
  show "node_list d' = node_list d" and "i < 256 \<Longrightarrow> piece d' i = piece d i"
    by (rule node_list_cong; use one two in blast)+
qed

lemma node_int_same:
  assumes w: "block_write d d' len len' k blk b buf" and l: "l < length (node_list d)" and q: "q + 4 \<le> 64" and
    o: "l \<noteq> k \<or> q + 4 \<le> 4 \<or> (8 \<le> q \<and> (q + 4 \<le> 8 + 4 * blk \<or> 12 + 4 * blk \<le> q))"
  shows "get_int d' (nat (node_list d ! l) + q) = get_int d (nat (node_list d ! l) + q)"
proof (rule get_int_cong, rule patched_same [OF block_write_facts(4) [OF w]])
  note ok = block_write_facts(1) [OF w] and k = block_write_facts(2) [OF w] and blk = block_write_facts(3) [OF w]
    and patch = block_write_facts(4) [OF w]
  fix i assume i: "nat (node_list d ! l) + q \<le> i" "i < nat (node_list d ! l) + q + 4"
  note f = image_nodes(1,2) [OF ok l] image_nodes(4) [OF ok l k] new_block(5) [OF w l]
  show "1028 \<le> i" "int i < endLog d" using f i q by linarith+
  show "\<not> (b \<le> int i \<and> int i < b + 4096)" using f i q by (auto simp: apart_def)
  show "\<not> (node_list d ! k + 4 \<le> int i \<and> int i < node_list d ! k + 8)"
    "\<not> (node_list d ! k + 8 + 4 * int blk \<le> int i \<and> int i < node_list d ! k + 12 + 4 * int blk)"
    using f i q o blk by (cases "l = k"; auto simp: apart_def)+
qed

lemma blk_addr_new:
  assumes w: "block_write d d' len len' k blk b buf" and "l < length (node_list d)" "j < 14"
  shows "blk_addr d' l j = (if (l, j) = (k, blk) then b else blk_addr d l j)"
proof (cases "(l, j) = (k, blk)")
  case True
  then show ?thesis using block_write_facts(4) [OF w] by (auto simp: blk_addr_def block_write_nodes(1) [OF w] patched_def Let_def)
next
  case False
  have "get_int d' (nat (node_list d ! l) + (8 + 4 * j)) = get_int d (nat (node_list d ! l) + (8 + 4 * j))"
    by (rule node_int_same [OF w]) (use assms False in auto)
  then show ?thesis using False by (auto simp: blk_addr_def block_write_nodes(1) [OF w] add.assoc)
qed

lemma block_bytes_same:
  assumes w: "block_write d d' len len' k blk b buf" and l: "l < length (node_list d)" "j < 14" "(l, j) \<noteq> (k, blk)" "blk_addr d l j \<noteq> -1" and i: "i < 4096"
  shows "d' (nat (blk_addr d l j) + i) = d (nat (blk_addr d l j) + i)"
proof (rule patched_same [OF block_write_facts(4) [OF w]])
  note f = image_blocks(1,2) [OF block_write_facts(1) [OF w] l(1,2,4)]
  show "1028 \<le> nat (blk_addr d l j) + i" "int (nat (blk_addr d l j) + i) < endLog d" using f i by linarith+
qed (use image_blocks(1,2) [OF block_write_facts(1) [OF w] l(1,2,4)] new_block(6) [OF w l] i
    image_blocks(4) [OF block_write_facts(1) [OF w] l(1,2,4) block_write_facts(2) [OF w]] block_write_facts(3) [OF w] in \<open>auto simp: apart_def\<close>)

lemma block_written:
  assumes w: "block_write d d' len len' k blk b buf"
  shows "file_block d' l j = (if (l, j) = (k, blk) then Some (map buf [0..<4096]) else file_block d l j)"
proof (cases "l < length (node_list d) \<and> j < 14")
  case True
  then have a: "blk_addr d' l j = (if (l, j) = (k, blk) then b else blk_addr d l j)" by (simp add: blk_addr_new [OF w])
  show ?thesis
  proof (cases "(l, j) = (k, blk)")
    case e: True
    have m: "map (\<lambda>i. d' (nat b + i)) [0..<4096] = map buf [0..<4096]"
      using block_write_facts(4) [OF w] by (auto simp: patched_def Let_def)
    have "file_block d' l j = Some (map (\<lambda>i. d' (nat b + i)) [0..<4096])"
      using True a e new_block(1) [OF w] by (auto simp: file_block_def block_write_nodes(1) [OF w])
    then show ?thesis using e m by simp
  next
    case e: False
    have "map (\<lambda>i. d' (nat (blk_addr d l j) + i)) [0..<4096] = map (\<lambda>i. d (nat (blk_addr d l j) + i)) [0..<4096]"
      if "blk_addr d l j \<noteq> -1" using block_bytes_same [OF w] True e that by auto
    then show ?thesis using a e by (auto simp: file_block_def block_write_nodes(1) [OF w])
  qed
qed (use block_write_facts(2,3) [OF w] in \<open>auto simp: file_block_def block_write_nodes(1) [OF w]\<close>)

lemma stat_written:
  assumes w: "block_write d d' len len' k blk b buf"
  shows "file_stat d' l = (if l = k then map_option (\<lambda>(t, _). (t, (int blk + 1) * 4096)) (file_stat d k) else file_stat d l)"
proof (cases "l < length (node_list d)")
  case True
  have "get_int d' (nat (node_list d ! l) + 0) = get_int d (nat (node_list d ! l) + 0)"
    by (rule node_int_same [OF w]) (use True in auto)
  moreover have "get_int d' (nat (node_list d ! l) + 4) = get_int d (nat (node_list d ! l) + 4)" if "l \<noteq> k"
    by (rule node_int_same [OF w]) (use True that in auto)
  moreover have "get_int d' (nat (node_list d ! k) + 4) = (int blk + 1) * 4096"
    using block_write_facts(4) [OF w] by (simp add: patched_def Let_def)
  ultimately show ?thesis using True block_write_facts(2) [OF w] by (auto simp: file_stat_def block_write_nodes(1) [OF w])
qed (use block_write_facts(2) [OF w] in \<open>auto simp: file_stat_def block_write_nodes(1) [OF w]\<close>)

lemma block_write_ok:
  assumes w: "block_write d d' len len' k blk b buf"
  shows "image_ok d' len'"
proof -
  note ok = block_write_facts(1) [OF w] and k = block_write_facts(2) [OF w] and blk = block_write_facts(3) [OF w]
    and patch = block_write_facts(4) [OF w]
  note same = block_write_nodes [OF w] blk_addr_new [OF w]
  have n: "node_ok d' l" if "l < length (node_list d)" for l
    using image_nodes [OF ok that] new_block(3) [OF w] by (auto simp: node_ok_def same Let_def)
  have bl: "block_ok d' l j" if l: "l < length (node_list d)" "j < 14" for l j
  proof (cases "(l, j) = (k, blk)")
    case True
    then show ?thesis using l new_block [OF w] by (auto simp: block_ok_def same Let_def)
  next
    case False
    have "apart (blk_addr d l j) 4096 b 4096" if "blk_addr d l j \<noteq> -1"
      using new_block(6) [OF w l False that] by (auto simp: apart_def)
    then show ?thesis using l False image_blocks [OF ok l] new_block(3) [OF w]
      by (auto simp: block_ok_def same Let_def)
  qed
  show ?thesis using n bl image_facts [OF ok] new_block(3) [OF w] block_write_facts(5) [OF w]
    by (auto simp: image_ok_def same) (meson order_trans)
qed

section \<open>The file operations\<close>

lemma lseek_simps [simp]:
  "img (lseek a s) = img s" "ilen (lseek a s) = ilen s" "chkpt (lseek a s) = chkpt s" "iArr (lseek a s) = iArr s"
  "0 \<le> a \<Longrightarrow> fpos (lseek a s) = nat a"
  by (simp_all add: lseek_def)

lemma load_pieces_img [simp]: "img (load_pieces is tmp k s) = img s" "ilen (load_pieces is tmp k s) = ilen s"
  by (induction "is" tmp k s rule: load_pieces.induct) (auto simp: readf_def Let_def split: prod.splits)

lemma loadMem_img [simp]: "img (loadMem junk s) = img s" "ilen (loadMem junk s) = ilen s"
  by (auto simp: loadMem_def readf_def Let_def)

lemma write_at_simps:
  assumes "0 \<le> a"
  shows "img (write_at buf a n s) = (\<lambda>i. if nat a \<le> i \<and> i < nat a + n then buf (i - nat a)
      else if i < ilen s then img s i else 0)"
    "ilen (write_at buf a n s) = max (ilen s) (nat a + n)"
  using assms by (auto simp: write_at_def writef_def)

lemma write_at_chkpt [simp]: "chkpt (write_at buf a n s) = chkpt s" "iArr (write_at buf a n s) = iArr s"
  by (simp_all add: write_at_def writef_def)

lemma read_at_full:
  assumes "0 \<le> a" "nat a + n \<le> ilen s"
  shows "read_at buf a n s = ((\<lambda>i. if i < n then img s (nat a + i) else buf i), s\<lparr>fpos := nat a + n\<rparr>)"
  using assms by (auto simp: read_at_def readf_def lseek_def avail_def)

lemma node_list_length: "length (node_list d) \<le> 4096"
proof -
  have "length (piece_nodes d i) \<le> 16" for i
    using length_filter_le [of "\<lambda>v. v \<ge> 0" "map (\<lambda>j. get_int d (nat (piece d i) + 4 * j)) [0..<16]"]
    by (auto simp: piece_nodes_def)
  then have "length (concat (map (piece_nodes d) is)) \<le> 16 * length is" for "is"
    by (induction "is") (auto intro: add_mono)
  from this [of "[0..<256]"] show ?thesis by (simp add: node_list_def)
qed

text \<open>The inode read for number \<open>k\<close>.\<close>

lemma open_inode:
  assumes ok: "image_ok (img s) (ilen s)" and k: "k < length (node_list (img s))"
  obtains s1 s2 inode where "loadMem junk s = s1" "iArr s1 k = node_list (img s) ! k"
    "read_at junk (iArr s1 k) sizeof_inode s1 = (inode, s2)"
    "img s2 = img s" "ilen s2 = ilen s" "\<And>i. i < 1028 \<Longrightarrow> chkpt s2 i = img s i"
    "\<And>i. i < 64 \<Longrightarrow> inode i = img s (nat (node_list (img s) ! k) + i)"
    "stat_type inode = get_int (img s) (nat (node_list (img s) ! k))"
    "stat_size inode = get_int (img s) (nat (node_list (img s) ! k) + 4)"
    "\<And>i. i < 14 \<Longrightarrow> blockArr inode i = blk_addr (img s) k i"
proof -
  define n where "n = node_list (img s) ! k"
  have n: "1028 \<le> n" "n + 64 \<le> endLog (img s)" "endLog (img s) \<le> int (ilen s)"
    using ok k by (auto simp: image_ok_def node_ok_def n_def Let_def)
  obtain p where l: "loadMem junk s = s\<lparr>chkpt := (\<lambda>i. if i < 1028 then img s i else chkpt s i), fpos := p,
      iArr := place (node_list (img s))\<rparr>" (is "_ = ?s1") using loadMem_nodes [OF image_pieces_ok [OF ok]] by blast
  define inode where "inode = (\<lambda>i. if i < 64 then img s (nat n + i) else junk i)"
  have a: "iArr ?s1 k = n" using k by (simp add: place_def n_def)
  have g: "get_int inode q = get_int (img s) (nat n + q)" if "q + 4 \<le> 64" for q
    by (rule get_int_window [OF _ that]) (simp add: inode_def)
  have r: "read_at junk (iArr ?s1 k) sizeof_inode ?s1 = (inode, ?s1\<lparr>fpos := nat n + 64\<rparr>)"
    unfolding a by (subst read_at_full) (use n in \<open>auto simp: sizeof_inode_def inode_def\<close>)
  show thesis
    by (rule that [OF l _ r]) (use a g [of 0] g [of 4] g n_def in \<open>auto simp: inode_def stat_type_def stat_size_def
      blockArr_def blk_addr_def add.assoc\<close>)
qed

lemma sWrite_new_image:
  assumes c: "\<And>i. i < 1028 \<Longrightarrow> chkpt s i = d i" and d: "img s = d"
    and E: "1028 \<le> endLog d" "endLog d \<le> int (ilen s)" "endLog d + 4096 < 2 ^ 31"
    and n: "1028 \<le> n" "n + 64 \<le> endLog d"
    and f: "writef buf 4096 (sWrite_new junk n blk inode s) = s'"
  defines "inode' \<equiv> put_int (put_int inode (8 + 4 * blk) (endLog d)) 4 ((int blk + 1) * 4096)"
  defines "c' \<equiv> set_endLog (endLog d + 4096) (chkpt s)"
  shows "ilen s' = max (ilen s) (nat (endLog d) + 4096)"
    and "img s' = (\<lambda>i. if nat (endLog d) \<le> i \<and> i < nat (endLog d) + 4096 then buf (i - nat (endLog d))
      else if nat n \<le> i \<and> i < nat n + 64 then inode' (i - nat n)
      else if i < 1028 then c' i else if i < ilen s then d i else 0)"
proof -
  define e where "e = endLog d"
  have ec: "endLog (chkpt s) = e" unfolding endLog_def e_def by (rule get_int_cong) (simp add: c)
  define w1 where "w1 = write_at (clear_dir junk 64) e sizeof_dir s"
  define w2 where "w2 = write_chkpt (grow_log 4096 w1)"
  define w3 where "w3 = write_at inode' n sizeof_inode w2"
  have s': "s' = writef buf 4096 (lseek e w3)"
    using f by (simp add: sWrite_new_def Let_def ec w1_def w2_def w3_def inode'_def e_def)
  have e: "0 \<le> e" "0 \<le> n" using E n by (simp_all add: e_def)
  have i1: "img w1 = (\<lambda>i. if nat e \<le> i \<and> i < nat e + 4096 then clear_dir junk 64 (i - nat e) else if i < ilen s then d i else 0)"
    "ilen w1 = max (ilen s) (nat e + 4096)" "chkpt w1 = chkpt s"
    using e by (simp_all add: w1_def write_at_simps sizeof_dir_def d cong: if_cong)
  have i2: "img w2 = (\<lambda>i. if i < 1028 then c' i else if i < ilen w1 then img w1 i else 0)"
    "ilen w2 = max (ilen w1) 1028"
  proof -
    have "chkpt (grow_log 4096 w1) = c'" by (simp add: grow_log_def i1(3) ec c'_def e_def)
    moreover have "img (grow_log 4096 w1) = img w1" "ilen (grow_log 4096 w1) = ilen w1" by (simp_all add: grow_log_def)
    ultimately show "img w2 = (\<lambda>i. if i < 1028 then c' i else if i < ilen w1 then img w1 i else 0)"
      "ilen w2 = max (ilen w1) 1028"
      by (simp_all add: w2_def write_chkpt_def writef_def sizeof_checkpoint_def cong: if_cong)
  qed
  have i3: "img w3 = (\<lambda>i. if nat n \<le> i \<and> i < nat n + 64 then inode' (i - nat n) else if i < ilen w2 then img w2 i else 0)"
    "ilen w3 = max (ilen w2) (nat n + 64)"
    using e by (simp_all add: w3_def write_at_simps sizeof_inode_def)
  have l: "ilen w3 = max (ilen s) (nat e + 4096)" using i1 i2 i3 n E by (simp add: e_def)
  show "ilen s' = max (ilen s) (nat (endLog d) + 4096)" using e l by (simp add: s' writef_def e_def)
  show "img s' = (\<lambda>i. if nat (endLog d) \<le> i \<and> i < nat (endLog d) + 4096 then buf (i - nat (endLog d))
      else if nat n \<le> i \<and> i < nat n + 64 then inode' (i - nat n)
      else if i < 1028 then c' i else if i < ilen s then d i else 0)"
    using e l E n by (auto simp: s' writef_def i3 i2 i1 e_def fun_eq_iff)
qed

lemma sWrite_old_image:
  assumes n: "1028 \<le> n" "n + 64 \<le> int (ilen s)" and b: "b = blockArr inode blk" "1028 \<le> b" "b + 4096 \<le> int (ilen s)" "blk < 14"
    and f: "writef buf 4096 (sWrite_old n blk inode s) = s'"
  defines "inode' \<equiv> put_int inode 4 ((int blk + 1) * 4096)"
  shows "ilen s' = ilen s"
    and "img s' = (\<lambda>i. if nat b \<le> i \<and> i < nat b + 4096 then buf (i - nat b)
      else if nat n \<le> i \<and> i < nat n + 64 then inode' (i - nat n) else if i < ilen s then img s i else 0)"
proof -
  have "blockArr inode' blk = b" by (simp add: inode'_def b(1) blockArr_def)
  then have s': "s' = writef buf 4096 (lseek b (write_at inode' n sizeof_inode s))"
    using f by (simp add: sWrite_old_def Let_def inode'_def)
  have "0 \<le> n" "0 \<le> b" using n b by simp_all
  then show "ilen s' = ilen s" "img s' = (\<lambda>i. if nat b \<le> i \<and> i < nat b + 4096 then buf (i - nat b)
      else if nat n \<le> i \<and> i < nat n + 64 then inode' (i - nat n) else if i < ilen s then img s i else 0)"
    using n b by (auto simp: s' writef_def write_at_simps sizeof_inode_def fun_eq_iff)
qed

text \<open>Both images are patches of the old one: \<open>n\<close> is the address of the inode, \<open>inode\<close> its bytes.\<close>

lemma inode_byte:
  assumes "\<And>i. i < 64 \<Longrightarrow> inode i = d (nat n + i)"
    and "nat n \<le> i" "i < nat n + 64" "i < nat n + q \<or> nat n + q + 4 \<le> i"
  shows "put_int inode q v (i - nat n) = d i"
  using assms(2-) assms(1) [of "i - nat n"] by (subst put_int_other) auto

lemma new_image_patched:
  assumes n: "n = node_list d ! k" "1028 \<le> n" "n + 64 \<le> endLog d" and blk: "blk < 14"
    and E: "endLog d \<le> int len" "endLog d + 4096 < 2 ^ 31"
    and c: "\<And>i. i < 1028 \<Longrightarrow> c i = d i" and ino: "\<And>i. i < 64 \<Longrightarrow> inode i = d (nat n + i)"
  defines "inode' \<equiv> put_int (put_int inode (8 + 4 * blk) (endLog d)) 4 ((int blk + 1) * 4096)"
  assumes im: "d' = (\<lambda>i. if nat (endLog d) \<le> i \<and> i < nat (endLog d) + 4096 then buf (i - nat (endLog d))
      else if nat n \<le> i \<and> i < nat n + 64 then inode' (i - nat n)
      else if i < 1028 then set_endLog (endLog d + 4096) c i else if i < len then d i else 0)"
  shows "patched d d' k (endLog d) blk buf" "endLog d' = endLog d + 4096"
proof -
  have low: "d' i = set_endLog (endLog d + 4096) c i" if "i < 1028" for i using that n E by (auto simp: im)
  have node: "inode' q = d' (nat n + q)" if "q < 64" for q using that n E by (auto simp: im)
  have gi: "get_int d' (nat n + q) = get_int inode' q" if "q + 4 \<le> 64" for q
    by (rule sym, rule get_int_window) (use node that in auto)
  have "endLog d' = endLog (set_endLog (endLog d + 4096) c)"
    unfolding endLog_def by (rule get_int_cong) (simp add: low endLog_def)
  then show "endLog d' = endLog d + 4096" using n E by (simp add: set_endLog_def endLog_def)
  show "patched d d' k (endLog d) blk buf"
    unfolding patched_def Let_def n(1) [symmetric]
  proof (intro conjI allI impI)
    show "d' i = d i" if "i < 1024" for i
      using that c by (simp add: low set_endLog_def put_int_other)
    show "get_int d' (nat n + 4) = (int blk + 1) * 4096" using gi [of 4] blk by (simp add: inode'_def)
    show "get_int d' (nat n + 8 + 4 * blk) = endLog d"
      using gi [of "8 + 4 * blk"] blk n E by (simp add: inode'_def add.assoc)
    show "d' (nat (endLog d) + i) = buf i" if "i < 4096" for i using that by (simp add: im)
    show "d' i = d i" if i: "1028 \<le> i" "int i < endLog d" "\<not> (n + 4 \<le> int i \<and> int i < n + 8)"
        "\<not> (n + 8 + 4 * int blk \<le> int i \<and> int i < n + 12 + 4 * int blk)" for i
    proof (cases "nat n \<le> i \<and> i < nat n + 64")
      case True
      then have "inode' (i - nat n) = put_int inode (8 + 4 * blk) (endLog d) (i - nat n)"
        unfolding inode'_def by (intro put_int_other) (use i in linarith)
      also have "\<dots> = d i" by (rule inode_byte) (use i True ino in auto)
      finally show ?thesis using True i by (auto simp: im)
    qed (use i E in \<open>auto simp: im\<close>)
  qed
qed

lemma old_image_patched:
  assumes n: "n = node_list d ! k" "1028 \<le> n" "n + 64 \<le> endLog d" and blk: "blk < 14" and E: "endLog d \<le> int len"
    and b: "1028 \<le> b" "apart b 4096 n 64" "b = blockArr inode blk" and ino: "\<And>i. i < 64 \<Longrightarrow> inode i = d (nat n + i)"
  defines "inode' \<equiv> put_int inode 4 ((int blk + 1) * 4096)"
  assumes im: "d' = (\<lambda>i. if nat b \<le> i \<and> i < nat b + 4096 then buf (i - nat b)
      else if nat n \<le> i \<and> i < nat n + 64 then inode' (i - nat n) else if i < len then d i else 0)"
  shows "patched d d' k b blk buf" "endLog d' = endLog d"
proof -
  have node: "inode' q = d' (nat n + q)" if "q < 64" for q using that n b by (auto simp: im apart_def)
  have gi: "get_int d' (nat n + q) = get_int inode' q" if "q + 4 \<le> 64" for q
    by (rule sym, rule get_int_window) (use node that in auto)
  have low: "d' i = d i" if "i < 1028" for i using that n b E by (auto simp: im)
  show "endLog d' = endLog d" unfolding endLog_def by (rule get_int_cong) (simp add: low)
  show "patched d d' k b blk buf"
    unfolding patched_def Let_def n(1) [symmetric]
  proof (intro conjI allI impI)
    show "get_int d' (nat n + 4) = (int blk + 1) * 4096" using gi [of 4] blk by (simp add: inode'_def)
    have "get_int inode' (8 + 4 * blk) = b" by (simp add: inode'_def b(3) blockArr_def)
    then show "get_int d' (nat n + 8 + 4 * blk) = b" using gi [of "8 + 4 * blk"] blk by (simp add: add.assoc)
    show "d' (nat b + i) = buf i" if "i < 4096" for i using that by (simp add: im)
    show "d' i = d i" if i: "1028 \<le> i" "int i < endLog d" "\<not> (n + 4 \<le> int i \<and> int i < n + 8)"
      "\<not> (b \<le> int i \<and> int i < b + 4096)" for i
    proof (cases "nat n \<le> i \<and> i < nat n + 64")
      case True
      have "inode' (i - nat n) = d i" unfolding inode'_def by (rule inode_byte) (use i ino True in auto)
      then show ?thesis using True i b by (auto simp: im)
    qed (use i E b in \<open>auto simp: im\<close>)
  qed (simp add: low)
qed

lemma sWrite_patches:
  assumes ok: "image_ok (img s) (ilen s)" and k: "k < length (node_list (img s))" and blk: "blk < 14"
    and reg: "get_int (img s) (nat (node_list (img s) ! k)) = 1" and room: "endLog (img s) + 4096 < 2 ^ 31"
  obtains b s' where "sWrite junk (int k) buf (int blk) s = (0, s')"
    "block_write (img s) (img s') (ilen s) (ilen s') k blk b buf"
proof -
  define d n where "d = img s" and "n = node_list d ! k"
  obtain s1 s2 inode where o: "loadMem junk s = s1" "iArr s1 k = n"
    "read_at junk (iArr s1 k) sizeof_inode s1 = (inode, s2)"
    "img s2 = d" "ilen s2 = ilen s" "\<And>i. i < 1028 \<Longrightarrow> chkpt s2 i = d i"
    "\<And>i. i < 64 \<Longrightarrow> inode i = d (nat n + i)" "stat_type inode = get_int d (nat n)"
    "\<And>i. i < 14 \<Longrightarrow> blockArr inode i = blk_addr d k i"
    using open_inode [OF ok k, of junk] unfolding n_def d_def by metis
  have n: "1028 \<le> n" "n + 64 \<le> endLog d" and E: "1028 \<le> endLog d" "endLog d \<le> int (ilen s)"
    using ok k by (auto simp: image_ok_def node_ok_def n_def d_def Let_def)
  note room = room [folded d_def]
  have k4: "int k < 4096" using node_list_length [of "img s"] k by simp
  define s3 where "s3 = (if blk_addr d k blk = -1 then sWrite_new junk n blk inode s2 else sWrite_old n blk inode s2)"
  define w where "w = writef buf 4096 s3"
  have sw: "sWrite junk (int k) buf (int blk) s = (0, loadMem junk w)"
    using k4 blk o reg n by (simp add: sWrite_def o(3)[unfolded o(2)] s3_def w_def n_def d_def)
  show thesis
  proof (cases "blk_addr d k blk = -1")
    case True
    have f: "writef buf 4096 (sWrite_new junk n blk inode s2) = w" using True by (simp add: w_def s3_def)
    have E2: "endLog d \<le> int (ilen s2)" using E o(5) by simp
    note im = sWrite_new_image [OF o(6) o(4) E(1) E2 room n f]
    have "block_write (img s) (img (loadMem junk w)) (ilen s) (ilen (loadMem junk w)) k blk (endLog d) buf"
      using ok k blk True im(1) E new_image_patched [OF n_def n blk E2 room o(6,7) im(2)]
      by (auto simp: d_def block_write_def)
    then show thesis by (rule that [OF sw])
  next
    case False
    define b where "b = blk_addr d k blk"
    have f: "writef buf 4096 (sWrite_old n blk inode s2) = w" using False by (simp add: w_def s3_def)
    have b: "1028 \<le> b" "b + 4096 \<le> endLog d" "apart b 4096 n 64" "b = blockArr inode blk"
      using image_blocks(1,2) [OF ok k blk] image_blocks(4) [OF ok k blk _ k] False blk o(9)
      by (simp_all add: b_def n_def d_def)
    have E2: "n + 64 \<le> int (ilen s2)" "b + 4096 \<le> int (ilen s2)" using E n b o(5) by simp_all
    note im = sWrite_old_image [OF n(1) E2(1) b(4) b(1) E2(2) blk f, unfolded o(4)]
    have "block_write (img s) (img (loadMem junk w)) (ilen s) (ilen (loadMem junk w)) k blk b buf"
      using ok k blk False E im(1) o(5) old_image_patched [OF n_def n blk E(2) b(1,3,4) o(7) im(2) [unfolded o(5)]]
      by (auto simp: d_def b_def block_write_def)
    then show thesis by (rule that [OF sw])
  qed
qed

lemma sRead_block:
  assumes ok: "image_ok (img s) (ilen s)" and k: "k < length (node_list (img s))" and blk: "blk < 14"
  shows "\<exists>s'. img s' = img s \<and> ilen s' = ilen s \<and> sRead junk (int k) buf (int blk) s =
    (case file_block (img s) k blk of None \<Rightarrow> (-1, buf, s')
     | Some bs \<Rightarrow> (0, (\<lambda>i. if i < 4096 then bs ! i else buf i), s'))"
proof -
  define d where "d = img s"
  obtain s1 s2 inode where o: "loadMem junk s = s1" "iArr s1 k = node_list d ! k"
    "read_at junk (iArr s1 k) sizeof_inode s1 = (inode, s2)"
    "img s2 = d" "ilen s2 = ilen s" "\<And>i. i < 14 \<Longrightarrow> blockArr inode i = blk_addr d k i"
    using open_inode [OF ok k, of junk] unfolding d_def by metis
  define n where "n = node_list d ! k"
  have n: "1028 \<le> n" and bok: "block_ok d k blk" and E: "endLog d \<le> int (ilen s)"
    using ok k blk by (auto simp: image_ok_def node_ok_def n_def d_def Let_def)
  have k4: "int k < 4096" using node_list_length [of "img s"] k by simp
  have ia: "iArr s1 k = n" "read_at junk n sizeof_inode s1 = (inode, s2)" using o by (simp_all add: n_def)
  define b where "b = blk_addr d k blk"
  have bb: "blockArr inode blk = b" using o(6) blk by (simp add: b_def)
  show ?thesis
  proof (cases "b = -1")
    case True
    then have "sRead junk (int k) buf (int blk) s = (-1, buf, s2)"
      using k4 blk n by (simp add: sRead_def o(1) ia bb)
    moreover have "file_block d k blk = None" using True by (simp add: file_block_def b_def)
    ultimately show ?thesis using o(4,5) by (auto simp: d_def)
  next
    case False
    have b: "0 \<le> b" "nat b + 4096 \<le> ilen s2" using bok False E o(5) by (auto simp: block_ok_def b_def Let_def)
    have r: "read_at buf b 4096 s2 = ((\<lambda>i. if i < 4096 then d (nat b + i) else buf i), s2\<lparr>fpos := nat b + 4096\<rparr>)"
      using read_at_full [OF b] by (simp add: o(4) cong: if_cong)
    have "sRead junk (int k) buf (int blk) s = (0, (\<lambda>i. if i < 4096 then d (nat b + i) else buf i), s2\<lparr>fpos := nat b + 4096\<rparr>)"
      using k4 blk n False by (simp add: sRead_def o(1) ia bb r)
    moreover have "file_block d k blk = Some (map (\<lambda>j. d (nat b + j)) [0..<4096])"
      using False k blk by (simp add: file_block_def b_def d_def)
    ultimately show ?thesis using o(4,5) by (intro exI [of _ "s2\<lparr>fpos := nat b + 4096\<rparr>"]) (auto simp: d_def fun_eq_iff)
  qed
qed

text \<open>The update of the abstract store.\<close>

definition store_block :: "nat \<Rightarrow> nat \<Rightarrow> u8 list \<Rightarrow> (nat \<Rightarrow> nat \<Rightarrow> u8 list option) \<Rightarrow> nat \<Rightarrow> nat \<Rightarrow> u8 list option" where
  "store_block k blk bs f = (\<lambda>l j. if (l, j) = (k, blk) then Some bs else f l j)"

definition store_size :: "nat \<Rightarrow> int \<Rightarrow> (nat \<Rightarrow> (int \<times> int) option) \<Rightarrow> nat \<Rightarrow> (int \<times> int) option" where
  "store_size k n st = (\<lambda>l. if l = k then map_option (\<lambda>(t, _). (t, n)) (st k) else st l)"

text \<open>C20: on a well-formed image a write to a block of a regular file succeeds, keeps the image well formed and is
  exactly the update of that block in the map from files and block numbers to contents: no other block of no
  other file changes, and neither does the numbering of the inodes.  The size of the file becomes the end of the block
  written, even when the file has later blocks.\<close>

theorem sWrite_refines:
  assumes "image_ok (img s) (ilen s)" "file_stat (img s) k = Some (1, sz)" "blk < 14"
    and "endLog (img s) + 4096 < 2 ^ 31"
  shows "\<exists>s'. sWrite junk (int k) buf (int blk) s = (0, s') \<and> image_ok (img s') (ilen s') \<and>
    file_block (img s') = store_block k blk (map buf [0..<4096]) (file_block (img s)) \<and>
    file_stat (img s') = store_size k ((int blk + 1) * 4096) (file_stat (img s)) \<and>
    node_list (img s') = node_list (img s)"
proof -
  have k: "k < length (node_list (img s))" and t: "get_int (img s) (nat (node_list (img s) ! k)) = 1"
    using assms(2) by (auto simp: file_stat_def split: if_splits)
  obtain b s' where w: "sWrite junk (int k) buf (int blk) s = (0, s')"
    and bw: "block_write (img s) (img s') (ilen s) (ilen s') k blk b buf"
    by (rule sWrite_patches [OF assms(1) k assms(3) t assms(4)])
  show ?thesis
    using block_write_ok [OF bw] block_written [OF bw] stat_written [OF bw]
      block_write_nodes(1) [OF bw] w
    by (auto simp: store_block_def store_size_def fun_eq_iff)
qed

text \<open>C21: a read after a write returns what was written, and a read of any other block what it returned before.\<close>

theorem sWrite_sRead_roundtrip:
  assumes ok: "image_ok (img s) (ilen s)" and st: "file_stat (img s) k = Some (1, sz)" and blk: "blk < 14"
    and room: "endLog (img s) + 4096 < 2 ^ 31" and w: "sWrite junk (int k) buf (int blk) s = (r, s')"
    and l: "l < length (node_list (img s))" and j: "j < 14" and rd: "sRead junk (int l) buf0 (int j) s = (r0, b0, s0)"
    and rd': "sRead junk (int l) buf0 (int j) s' = (r1, b1, s1)"
  shows "r = 0 \<and> (if (l, j) = (k, blk) then r1 = 0 \<and> (\<forall>i<4096. b1 i = buf i) else r1 = r0 \<and> b1 = b0)"
proof -
  have k: "k < length (node_list (img s))" and t: "get_int (img s) (nat (node_list (img s) ! k)) = 1"
    using st by (auto simp: file_stat_def split: if_splits)
  obtain b where r: "r = 0" and bw: "block_write (img s) (img s') (ilen s) (ilen s') k blk b buf"
    using sWrite_patches [OF ok k blk t room, of junk buf] w by (metis prod.inject)
  have l': "l < length (node_list (img s'))" using l block_write_nodes(1) [OF bw] by simp
  note f = block_written [OF bw, of l j]
  note r1 = sRead_block [OF block_write_ok [OF bw] l' j, of junk buf0]
  note r0 = sRead_block [OF ok l j, of junk buf0]
  show ?thesis
  proof (cases "(l, j) = (k, blk)")
    case True
    then show ?thesis using r r1 rd' f by auto
  next
    case False
    then show ?thesis using r r1 r0 rd rd' f by (auto split: option.splits)
  qed
qed

text \<open>After \<open>loadMem\<close> the inode array is the list of the valid addresses of all pieces, in order and without
  gaps, and everything behind it is -1.  The number of an inode is its rank in this list: clearing a slot of a
  piece that is not the last valid one renumbers every later inode, while directories keep the old numbers.\<close>

theorem loadMem_packs:
  assumes "pieces_ok (img s) (ilen s)"
  shows "iArr (loadMem junk s) = (\<lambda>k. if k < length (node_list (img s)) then node_list (img s) ! k else -1) \<and>
    img (loadMem junk s) = img s \<and> (\<forall>i<1028. chkpt (loadMem junk s) i = img s i)"
proof -
  obtain p where "loadMem junk s = s\<lparr>chkpt := (\<lambda>i. if i < 1028 then img s i else chkpt s i), fpos := p,
      iArr := place (node_list (img s))\<rparr>" by (rule loadMem_nodes [OF assms])
  then show ?thesis by (auto simp: place_def)
qed

section \<open>An image\<close>

text \<open>The root directory with one regular file of one block, named \<open>a\<close>.\<close>

definition mini_base :: "nat \<Rightarrow> u8" where
  "mini_base i = (if i < 1156 then 255 else if i < 5252 then (if (i - 1156) mod 64 < 60 then 0 else 255)
     else if i < 5316 then 255 else 0)"

definition mini_dir :: "(nat \<Rightarrow> u8) \<Rightarrow> nat \<Rightarrow> u8" where
  "mini_dir b = put_int (put_int (put_int (b(1156 := 46, 1220 := 46, 1221 := 46, 1284 := 97)) 1216 0) 1280 0) 1344 1"

definition mini_image :: "nat \<Rightarrow> u8" where
  "mini_image = put_int (put_int (put_int (put_int (put_int (put_int (put_int (put_int (put_int (put_int
     (mini_dir mini_base) 0 1028) 1024 9412) 1028 1092) 1032 5252) 1092 0) 1096 8192) 1100 1156) 5252 1) 5256 4096) 5260 5316"

definition mini_fs :: mfs where
  "mini_fs = \<lparr>img = mini_image, ilen = 9412, fpos = 0, chkpt = (\<lambda>_. 0), iArr = (\<lambda>_. 0)\<rparr>"

lemma mini_minus:
  assumes "\<And>i. p \<le> i \<Longrightarrow> i < p + 4 \<Longrightarrow> d i = 255"
  shows "get_int d p = -1"
proof -
  have "get_int d p = get_int (\<lambda>_. 255) p" by (rule get_int_cong) (simp add: assms)
  also have "\<dots> = -1" by (simp add: get_int_def get32_def)
  finally show ?thesis .
qed

lemma mini_piece: "i < 256 \<Longrightarrow> piece mini_image i = (if i = 0 then 1028 else -1)"
proof (cases "i = 0")
  case False
  assume "i < 256"
  then have "get_int mini_image (4 * i) = get_int mini_base (4 * i)"
    by (intro get_int_cong) (use False in \<open>simp add: mini_image_def mini_dir_def put_int_other\<close>)
  also have "\<dots> = -1" by (rule mini_minus) (use \<open>i < 256\<close> in \<open>simp add: mini_base_def\<close>)
  finally show ?thesis using False by (simp add: piece_def)
qed (simp add: piece_def mini_image_def)

lemma mini_other:
  assumes "\<And>i. p \<le> i \<Longrightarrow> i < p + 4 \<Longrightarrow> mini_image i = mini_base i"
    "p + 4 \<le> 1156 \<or> 5252 \<le> p \<and> p + 4 \<le> 5316 \<or> 1156 \<le> p \<and> p + 4 \<le> 5252 \<and> (p - 1156) mod 64 = 60"
  shows "get_int mini_image p = -1"
proof -
  have "(i - 1156) mod 64 \<ge> 60" if "1156 \<le> p" "(p - 1156) mod 64 = 60" "p \<le> i" "i < p + 4" for i
  proof -
    have "(i - 1156) = (p - 1156) + (i - p)" using that by simp
    then have "(i - 1156) mod 64 = ((p - 1156) mod 64 + (i - p)) mod 64" by (metis mod_add_left_eq)
    then show ?thesis using that by simp
  qed
  note mod = this
  show ?thesis
  proof (rule mini_minus)
    fix i assume i: "p \<le> i" "i < p + 4"
    show "mini_image i = 255" using assms(1) [OF i] assms(2) mod [OF _ _ i] i by (auto simp: mini_base_def)
  qed
qed

lemma mini_nodes: "node_list mini_image = [1092, 5252]"
proof -
  have g: "get_int mini_image (1028 + 4 * j) = (if j = 0 then 1092 else if j = 1 then 5252 else -1)" if "j < 16" for j
  proof (cases "j < 2")
    case True
    then have "j = 0 \<or> j = 1" by auto
    then show ?thesis by (auto simp: mini_image_def)
  next
    case False
    then show ?thesis
      using mini_other [of "1028 + 4 * j"] that by (simp add: mini_image_def mini_dir_def put_int_other)
  qed
  have "map (\<lambda>j. get_int mini_image (1028 + 4 * j)) [0..<16] =
      map (\<lambda>j. if j = 0 then 1092 else if j = 1 then 5252 else -1) [0..<16]"
    by (rule map_cong [OF refl], rule g) simp
  moreover have "nat (piece mini_image 0) = 1028" "(0 \<le> piece mini_image 0) = True" by (simp_all add: mini_piece)
  ultimately have "piece_nodes mini_image 0 = filter (\<lambda>v. v \<ge> 0)
      (map (\<lambda>j. if j = (0::nat) then 1092 else if j = 1 then 5252 else -1 :: int) [0..<16])"
    by (simp only: piece_nodes_def if_True)
  then have "piece_nodes mini_image 0 = [1092, 5252]" by (simp add: upt_rec)
  moreover have "concat (map (piece_nodes mini_image) [1..<256]) = []"
    by (auto simp: piece_nodes_def mini_piece)
  moreover have "[0..<256] = 0 # [1..<256]" by (simp add: upt_rec)
  ultimately show ?thesis by (simp only: node_list_def list.map concat.simps append_Nil2)
qed

lemma mini_blocks: "i < 14 \<Longrightarrow> blk_addr mini_image k i = (if k = 0 \<and> i = 0 then 1156 else if k = 1 \<and> i = 0 then 5316 else -1)"
  if "k < 2"
proof -
  assume i: "i < 14"
  from that consider "k = 0" | "k = 1" by linarith
  then show ?thesis
  proof cases
    case 1
    show ?thesis
    proof (cases "i = 0")
      case False
      have "get_int mini_image (1100 + 4 * i) = -1"
        by (rule mini_other) (use False i in \<open>simp_all add: mini_image_def mini_dir_def put_int_other\<close>)
      then show ?thesis using False 1 by (simp add: blk_addr_def mini_nodes)
    next
      case True
      have "get_int mini_image 1100 = 1156" by (simp add: mini_image_def)
      then show ?thesis using True 1 by (simp add: blk_addr_def mini_nodes)
    qed
  next
    case 2
    show ?thesis
    proof (cases "i = 0")
      case False
      have "get_int mini_image (5260 + 4 * i) = -1"
        by (rule mini_other) (use False i in \<open>simp_all add: mini_image_def mini_dir_def put_int_other\<close>)
      then show ?thesis using False 2 by (simp add: blk_addr_def mini_nodes)
    next
      case True
      have "get_int mini_image 5260 = 5316" by (simp add: mini_image_def)
      then show ?thesis using True 2 by (simp add: blk_addr_def mini_nodes)
    qed
  qed
qed

lemma mini_endLog: "endLog mini_image = 9412"
  by (simp add: endLog_def mini_image_def)

lemma mini_stats: "file_stat mini_image 0 = Some (0, 8192)" "file_stat mini_image 1 = Some (1, 4096)"
  by (simp_all add: file_stat_def mini_nodes) (simp_all add: mini_image_def)

lemma mini_image_ok: "image_ok mini_image 9412"
proof -
  have n: "node_ok mini_image k" if "k < 2" for k
    using that by (auto simp: node_ok_def mini_nodes mini_piece mini_endLog apart_def less_2_cases_iff less_Suc_eq Let_def)
  have b: "block_ok mini_image k i" if "k < 2" "i < 14" for k i
    using that by (auto simp: block_ok_def mini_nodes mini_blocks mini_piece mini_endLog apart_def less_2_cases_iff less_Suc_eq Let_def)
  show ?thesis using n b by (auto simp: image_ok_def mini_nodes mini_piece mini_endLog)
qed

lemma mini_fs_ok: "image_ok (img mini_fs) (ilen mini_fs)" "endLog (img mini_fs) + 4096 < 2 ^ 31"
  "node_list (img mini_fs) = [1092, 5252]" "file_stat (img mini_fs) 1 = Some (1, 4096)"
  using mini_image_ok mini_endLog mini_nodes mini_stats by (simp_all add: mini_fs_def)

theorem loadMem_packs_witness:
  "iArr (loadMem (\<lambda>_. 0) mini_fs) 1 = 5252 \<and> iArr (loadMem (\<lambda>_. 0) mini_fs) 2 = -1"
  using loadMem_packs [OF image_pieces_ok [OF mini_fs_ok(1)], of "\<lambda>_. 0"] by (simp add: mini_fs_ok(3))

theorem sWrite_refines_witness:
  "\<exists>s'. sWrite (\<lambda>_. 0) 1 (\<lambda>_. 7) 3 mini_fs = (0, s') \<and> file_stat (img s') 1 = Some (1, 16384) \<and>
     file_block (img s') 1 3 = Some (map (\<lambda>_. 7) [0..<4096])"
proof -
  from sWrite_refines [OF mini_fs_ok(1,4), of 3 "\<lambda>_. 0" "\<lambda>_. 7"] mini_fs_ok(2)
  obtain s' where "sWrite (\<lambda>_. 0) 1 (\<lambda>_. 7) 3 mini_fs = (0, s')"
    "file_block (img s') = store_block 1 3 (map (\<lambda>_. 7) [0..<4096]) (file_block (img mini_fs))"
    "file_stat (img s') = store_size 1 16384 (file_stat (img mini_fs))" by auto
  then show ?thesis using mini_fs_ok(4) by (auto simp: store_block_def store_size_def)
qed

theorem sWrite_sRead_roundtrip_witness:
  "fst (sRead (\<lambda>_. 0) 1 (\<lambda>_. 0) 3 (snd (sWrite (\<lambda>_. 0) 1 (\<lambda>_. 7) 3 mini_fs))) = 0 \<and>
   fst (snd (sRead (\<lambda>_. 0) 1 (\<lambda>_. 0) 3 (snd (sWrite (\<lambda>_. 0) 1 (\<lambda>_. 7) 3 mini_fs)))) 9 = 7"
proof -
  obtain r s' where w: "sWrite (\<lambda>_. 0) 1 (\<lambda>_. 7) 3 mini_fs = (r, s')" by fastforce
  obtain r0 b0 s0 where r0: "sRead (\<lambda>_. 0) 1 (\<lambda>_. 0) 3 mini_fs = (r0, b0, s0)" by (metis prod_cases3)
  obtain r1 b1 s1 where r1: "sRead (\<lambda>_. 0) 1 (\<lambda>_. 0) 3 s' = (r1, b1, s1)" by (metis prod_cases3)
  have "r = 0 \<and> (if (1::nat, 3::nat) = (1, 3) then r1 = 0 \<and> (\<forall>i<4096. b1 i = 7) else r1 = r0 \<and> b1 = b0)"
    by (rule sWrite_sRead_roundtrip [OF mini_fs_ok(1,4) _ mini_fs_ok(2)]) (use w r0 r1 mini_fs_ok(3) in simp_all)
  then show ?thesis using w r1 by simp
qed

end
