(* ===== verification/Pipe.thy ===== *)
theory Pipe
  imports Prelude
begin

text \<open>
  Kernel pipes (\<open>P1/kernel/xv6/xv6/kernel/pipe.c\<close>): a ring of 512 bytes with the counters
  \<open>nread\<close> and \<open>nwrite\<close>, which are C \<open>uint\<close>s and wrap around.  A call runs until it
  returns or until it must sleep; \<open>Sleep_at i\<close> is the loop index with which it goes on
  when it is woken.  Every call also reports the channels it wakes.

  The theory proves that the ring refines a byte queue at every value of the counters,
  and that, whatever calls are interleaved, the bytes read so far followed by the
  buffered ones are the bytes written so far.
\<close>

section \<open>The pipe and its operations\<close>

definition PIPESIZE :: nat where "PIPESIZE = 512"

record pipe =
  pdata :: "u8 list"
  nread :: u32
  nwrite :: u32
  readopen :: bool
  writeopen :: bool

datatype chan = Nread | Nwrite

datatype outcome = Return int | Sleep_at nat

text \<open>The initialisation in \<open>pipealloc\<close>; the page from \<open>kalloc\<close> has arbitrary contents.\<close>

definition pipe_init :: "u8 list \<Rightarrow> pipe" where
  "pipe_init page = \<lparr>pdata = page, nread = 0, nwrite = 0, readopen = True, writeopen = True\<rparr>"

definition slot :: "u32 \<Rightarrow> nat" where
  "slot n = unat n mod PIPESIZE"

definition put_byte :: "pipe \<Rightarrow> u8 \<Rightarrow> pipe" where
  "put_byte p b = p\<lparr>pdata := (pdata p)[slot (nwrite p) := b], nwrite := nwrite p + 1\<rparr>"

definition pipe_full :: "pipe \<Rightarrow> bool" where
  "pipe_full p \<longleftrightarrow> nwrite p = nread p + of_nat PIPESIZE"

text \<open>
  \<open>pipewrite\<close> from loop index \<open>i\<close>: the new pipe, the index at which the call stopped, the
  outcome, and the channels woken.
\<close>

function pipewrite :: "bool \<Rightarrow> pipe \<Rightarrow> u8 list \<Rightarrow> nat \<Rightarrow> pipe \<times> nat \<times> outcome \<times> chan list" where
  "pipewrite killed p addr i =
     (if i < length addr then
        if pipe_full p then
          if \<not> readopen p \<or> killed then (p, i, Return (-1), [])
          else (p, i, Sleep_at i, [Nread])
        else pipewrite killed (put_byte p (addr ! i)) addr (i + 1)
      else (p, i, Return (int (length addr)), [Nread]))"
  by pat_completeness auto
termination
  by (relation "measure (\<lambda>(killed, p, addr, i). length addr - i)") auto

declare pipewrite.simps [simp del]

fun piperead_copy :: "pipe \<Rightarrow> nat \<Rightarrow> pipe \<times> u8 list" where
  "piperead_copy p 0 = (p, [])"
| "piperead_copy p (Suc n) =
     (if nread p = nwrite p then (p, [])
      else let b = pdata p ! slot (nread p);
               (p', bs) = piperead_copy (p\<lparr>nread := nread p + 1\<rparr>) n
           in (p', b # bs))"

text \<open>\<open>n\<close> is the count as a natural number: a negative \<open>int\<close> makes the loop run as often as \<open>0\<close>, that is not at all.\<close>

definition piperead :: "bool \<Rightarrow> pipe \<Rightarrow> nat \<Rightarrow> pipe \<times> u8 list \<times> outcome \<times> chan list" where
  "piperead killed p n =
     (if nread p = nwrite p \<and> writeopen p then
        if killed then (p, [], Return (-1), []) else (p, [], Sleep_at 0, [])
      else let (p', bs) = piperead_copy p n in (p', bs, Return (int (length bs)), [Nwrite]))"

text \<open>\<open>pipeclose\<close> also says whether the page was given back with \<open>kfree\<close>.\<close>

definition pipeclose :: "pipe \<Rightarrow> bool \<Rightarrow> pipe \<times> bool \<times> chan list" where
  "pipeclose p writable =
     (let p' = (if writable then p\<lparr>writeopen := False\<rparr> else p\<lparr>readopen := False\<rparr>)
      in (p', \<not> readopen p' \<and> \<not> writeopen p', [if writable then Nread else Nwrite]))"

section \<open>The ring as a byte queue\<close>

definition pipe_ok :: "pipe \<Rightarrow> bool" where
  "pipe_ok p \<longleftrightarrow> length (pdata p) = PIPESIZE \<and> unat (nwrite p - nread p) \<le> PIPESIZE"

definition buffered :: "pipe \<Rightarrow> u8 list" where
  "buffered p = map (\<lambda>k. pdata p ! slot (nread p + of_nat k)) [0..<unat (nwrite p - nread p)]"

lemma slot_lt: "slot n < PIPESIZE"
  by (simp add: slot_def PIPESIZE_def)

lemma slot_add: "slot (n + of_nat k) = (unat n + k) mod PIPESIZE"
proof -
  have "unat (n + of_nat k) = (unat n + k mod 2 ^ 32) mod 2 ^ 32"
    by (simp add: unat_word_ariths unat_of_nat)
  also have "\<dots> = (unat n + k) mod 2 ^ 32" by (simp add: mod_simps)
  finally have "unat (n + of_nat k) mod 512 = (unat n + k) mod 2 ^ 32 mod 512" by simp
  also have "\<dots> = (unat n + k) mod 512" by (rule mod_mod_cancel) simp
  finally show ?thesis by (simp add: slot_def PIPESIZE_def)
qed

lemma slot_inj:
  assumes "i < PIPESIZE" "j < PIPESIZE" "slot (n + of_nat i) = slot (n + of_nat j)"
  shows "i = j"
proof -
  have "(unat n + i) mod 512 = (unat n + j) mod 512"
    using assms(3) by (simp add: slot_add PIPESIZE_def)
  then have "512 dvd (unat n + j) - (unat n + i)" if "i \<le> j"
    using that by (metis mod_eq_dvd_iff_nat add_le_cancel_left)
  moreover have "512 dvd (unat n + i) - (unat n + j)" if "j \<le> i"
    using that \<open>(unat n + i) mod 512 = _\<close> by (metis mod_eq_dvd_iff_nat add_le_cancel_left)
  ultimately show ?thesis
    using assms(1,2) by (cases "i \<le> j") (auto simp: PIPESIZE_def dest!: dvd_imp_le)
qed

lemma length_buffered: "length (buffered p) = unat (nwrite p - nread p)"
  by (simp add: buffered_def)

lemma pipe_full_iff: "pipe_ok p \<Longrightarrow> pipe_full p \<longleftrightarrow> length (buffered p) = PIPESIZE"
proof -
  have "nwrite p = nread p + 512 \<longleftrightarrow> nwrite p - nread p = (512 :: u32)"
    by (simp add: algebra_simps)
  also have "\<dots> \<longleftrightarrow> unat (nwrite p - nread p) = unat (512 :: u32)" by (simp add: word_unat_eq_iff)
  finally show "pipe_full p \<longleftrightarrow> length (buffered p) = PIPESIZE"
    by (simp add: pipe_full_def PIPESIZE_def length_buffered)
qed

lemma pipe_empty_iff: "nread p = nwrite p \<longleftrightarrow> buffered p = []"
proof -
  have "buffered p = [] \<longleftrightarrow> unat (nwrite p - nread p) = 0" by (metis length_0_conv length_buffered)
  also have "\<dots> \<longleftrightarrow> nwrite p = nread p" by (simp add: unat_eq_0)
  finally show ?thesis by auto
qed

lemma put_byte_ok:
  assumes "pipe_ok p" "\<not> pipe_full p"
  shows "pipe_ok (put_byte p b) \<and> buffered (put_byte p b) = buffered p @ [b]"
proof -
  let ?len = "unat (nwrite p - nread p)"
  have len: "?len < PIPESIZE"
    using assms pipe_full_iff[OF assms(1)] by (simp add: pipe_ok_def length_buffered)
  have "unat (nwrite p + 1 - nread p) = unat ((nwrite p - nread p) + 1)"
    by (simp add: algebra_simps)
  also have "\<dots> = ?len + 1"
    using len by (simp add: unat_word_ariths PIPESIZE_def)
  finally have suc: "unat (nwrite p + 1 - nread p) = ?len + 1" .
  have nw: "nwrite p = nread p + of_nat ?len" by simp
  have old: "(pdata p)[slot (nwrite p) := b] ! slot (nread p + of_nat k) = pdata p ! slot (nread p + of_nat k)"
    if "k < ?len" for k
  proof -
    have "slot (nread p + of_nat k) \<noteq> slot (nwrite p)"
      using slot_inj[of k ?len "nread p"] that len nw by (metis less_trans less_irrefl)
    then show ?thesis by simp
  qed
  have "(pdata p)[slot (nwrite p) := b] ! slot (nread p + of_nat ?len) = b"
    using assms(1) slot_lt[of "nwrite p"] by (simp add: pipe_ok_def)
  then have "buffered (put_byte p b) = buffered p @ [b]"
    using old by (simp add: buffered_def put_byte_def suc)
  moreover have "pipe_ok (put_byte p b)"
    using assms(1) len by (simp add: pipe_ok_def put_byte_def suc)
  ultimately show ?thesis by simp
qed

lemma get_byte_ok:
  assumes "pipe_ok p" "nread p \<noteq> nwrite p"
  shows "pipe_ok (p\<lparr>nread := nread p + 1\<rparr>) \<and>
         buffered p = pdata p ! slot (nread p) # buffered (p\<lparr>nread := nread p + 1\<rparr>)"
proof -
  let ?len = "unat (nwrite p - nread p)"
  have pos: "0 < ?len" using assms(2) by (metis eq_iff_diff_eq_0 unat_eq_0 gr_zeroI)
  have "unat (nwrite p - (nread p + 1)) = unat ((nwrite p - nread p) - 1)"
    by (simp add: algebra_simps)
  also have "\<dots> = ?len - 1"
    using pos by (intro unat_minus_one) (auto simp: unat_eq_0[symmetric])
  finally have pred: "unat (nwrite p - (nread p + 1)) = ?len - 1" .
  have upt: "[0..<?len] = 0 # map Suc [0..<?len - 1]"
    using pos by (simp add: upt_conv_Cons map_Suc_upt del: upt_Suc)
  have "buffered p = pdata p ! slot (nread p + of_nat 0) #
      map (\<lambda>k. pdata p ! slot (nread p + of_nat (Suc k))) [0..<?len - 1]"
    by (simp only: buffered_def upt list.map map_map o_def)
  also have "map (\<lambda>k. pdata p ! slot (nread p + of_nat (Suc k))) [0..<?len - 1] =
      map (\<lambda>k. pdata p ! slot (nread p + 1 + of_nat k)) [0..<?len - 1]"
    by (simp add: add.assoc)
  also have "\<dots> = buffered (p\<lparr>nread := nread p + 1\<rparr>)"
    by (simp add: buffered_def pred)
  finally have "buffered p = pdata p ! slot (nread p) # buffered (p\<lparr>nread := nread p + 1\<rparr>)"
    by simp
  moreover have "pipe_ok (p\<lparr>nread := nread p + 1\<rparr>)"
    using assms(1) pred by (auto simp: pipe_ok_def)
  ultimately show ?thesis by simp
qed


section \<open>Calls\<close>

lemma put_byte_flags [simp]:
  "readopen (put_byte p b) = readopen p" "writeopen (put_byte p b) = writeopen p"
  by (simp_all add: put_byte_def)

lemma pipewrite_spec:
  assumes "pipe_ok p" "i \<le> length addr" "pipewrite killed p addr i = (p', j, res, wk)"
  shows "pipe_ok p' \<and> i \<le> j \<and> j \<le> length addr \<and>
         buffered p' = buffered p @ take (j - i) (drop i addr) \<and>
         readopen p' = readopen p \<and> writeopen p' = writeopen p \<and>
         (case res of
            Return r \<Rightarrow> j = length addr \<and> r = int j \<and> wk = [Nread] \<or>
                        r = -1 \<and> j < length addr \<and> length (buffered p') = PIPESIZE \<and> (\<not> readopen p \<or> killed)
          | Sleep_at k \<Rightarrow> k = j \<and> j < length addr \<and> length (buffered p') = PIPESIZE \<and> readopen p \<and> \<not> killed)"
  using assms
proof (induction killed p addr i rule: pipewrite.induct)
  case (1 killed p addr i)
  show ?case
  proof (cases "i < length addr \<and> \<not> pipe_full p")
    case True
    let ?p = "put_byte p (addr ! i)"
    have ok: "pipe_ok ?p" "buffered ?p = buffered p @ [addr ! i]"
      using put_byte_ok[OF 1(2)] True by auto
    have "pipewrite killed ?p addr (i + 1) = (p', j, res, wk)"
      using 1(4) True by (subst (asm) pipewrite.simps) simp
    with 1(1)[OF _ _ ok(1)] True
    have IH: "pipe_ok p'" "i + 1 \<le> j" "j \<le> length addr"
        "buffered p' = buffered ?p @ take (j - (i + 1)) (drop (i + 1) addr)"
        "readopen p' = readopen ?p" "writeopen p' = writeopen ?p"
        "case res of
            Return r \<Rightarrow> j = length addr \<and> r = int j \<and> wk = [Nread] \<or>
                        r = -1 \<and> j < length addr \<and> length (buffered p') = PIPESIZE \<and> (\<not> readopen ?p \<or> killed)
          | Sleep_at k \<Rightarrow> k = j \<and> j < length addr \<and> length (buffered p') = PIPESIZE \<and> readopen ?p \<and> \<not> killed"
      by auto
    have "take (j - i) (drop i addr) = addr ! i # take (j - (i + 1)) (drop (i + 1) addr)"
    proof -
      have "j - i = Suc (j - (i + 1))" using IH(2) by simp
      with True show ?thesis by (simp add: Cons_nth_drop_Suc[symmetric])
    qed
    with IH ok(2) show ?thesis by (cases res) auto
  next
    case False
    with 1(2-4) show ?thesis
      using pipe_full_iff[OF 1(2)] by (auto simp: pipewrite.simps[of killed p] split: if_splits)
  qed
qed

lemma piperead_copy_spec:
  assumes "pipe_ok p" "piperead_copy p n = (p', bs)"
  shows "pipe_ok p' \<and> bs = take n (buffered p) \<and> buffered p' = drop n (buffered p) \<and>
         readopen p' = readopen p \<and> writeopen p' = writeopen p"
  using assms
proof (induction n arbitrary: p p' bs)
  case 0
  then show ?case by simp
next
  case (Suc n)
  show ?case
  proof (cases "nread p = nwrite p")
    case True
    with Suc.prems show ?thesis by (simp add: pipe_empty_iff)
  next
    case False
    let ?p = "p\<lparr>nread := nread p + 1\<rparr>"
    obtain q cs where q: "piperead_copy ?p n = (q, cs)" by (cases "piperead_copy ?p n")
    from get_byte_ok[OF Suc.prems(1) False] have
      ok: "pipe_ok ?p" "buffered p = pdata p ! slot (nread p) # buffered ?p" by auto
    from Suc.IH[OF ok(1) q] Suc.prems(2) False q ok(2) show ?thesis by auto
  qed
qed

lemma piperead_spec:
  assumes "pipe_ok p" "piperead killed p n = (p', bs, res, wk)"
  shows "pipe_ok p' \<and> buffered p = bs @ buffered p' \<and>
         (case res of
            Return r \<Rightarrow> r = int (length bs) \<and> bs = take n (buffered p) \<and>
                          (buffered p \<noteq> [] \<or> \<not> writeopen p) \<or>
                        r = -1 \<and> bs = [] \<and> buffered p = [] \<and> writeopen p \<and> killed
          | Sleep_at k \<Rightarrow> bs = [] \<and> buffered p = [] \<and> writeopen p \<and> \<not> killed)"
proof (cases "nread p = nwrite p \<and> writeopen p")
  case True
  with assms show ?thesis by (auto simp: piperead_def pipe_empty_iff split: if_splits)
next
  case False
  obtain q cs where q: "piperead_copy p n = (q, cs)" by (cases "piperead_copy p n")
  from piperead_copy_spec[OF assms(1) q] False assms(2) q show ?thesis
    by (auto simp: piperead_def pipe_empty_iff)
qed

section \<open>Any interleaving of calls\<close>

text \<open>
  \<open>sent\<close> and \<open>received\<close> record the bytes that calls have put into and taken out of the pipe.
  A writer that slept goes on at the index it stopped at, with the pipe as it then is.
\<close>

record pipe_sys =
  pp :: pipe
  sent :: "u8 list"
  received :: "u8 list"

inductive pipe_step :: "pipe_sys \<Rightarrow> pipe_sys \<Rightarrow> bool" where
  wr: "i \<le> length addr \<Longrightarrow> pipewrite killed (pp s) addr i = (p', j, res, wk) \<Longrightarrow>
     pipe_step s (s\<lparr>pp := p', sent := sent s @ take (j - i) (drop i addr)\<rparr>)"
| rd: "piperead killed (pp s) n = (p', bs, res, wk) \<Longrightarrow>
     pipe_step s (s\<lparr>pp := p', received := received s @ bs\<rparr>)"
| cl: "pipeclose (pp s) writable = (p', freed, wk) \<Longrightarrow> pipe_step s (s\<lparr>pp := p'\<rparr>)"

inductive pipe_reach :: "pipe_sys \<Rightarrow> pipe_sys \<Rightarrow> bool" for s0 where
  init: "pipe_reach s0 s0"
| step: "pipe_reach s0 s \<Longrightarrow> pipe_step s t \<Longrightarrow> pipe_reach s0 t"

definition pipe_sys_inv :: "pipe_sys \<Rightarrow> bool" where
  "pipe_sys_inv s \<longleftrightarrow> pipe_ok (pp s) \<and> received s @ buffered (pp s) = sent s"

lemma buffered_flags [simp]:
  "buffered (p\<lparr>readopen := b\<rparr>) = buffered p" "buffered (p\<lparr>writeopen := b\<rparr>) = buffered p"
  "pipe_ok (p\<lparr>readopen := b\<rparr>) = pipe_ok p" "pipe_ok (p\<lparr>writeopen := b\<rparr>) = pipe_ok p"
  by (auto simp: buffered_def pipe_ok_def)

lemma pipe_step_inv: "pipe_step s t \<Longrightarrow> pipe_sys_inv s \<Longrightarrow> pipe_sys_inv t"
proof (induction rule: pipe_step.induct)
  case (wr i addr killed s p' j res wk)
  then show ?case using pipewrite_spec[of "pp s" i addr killed p' j res wk]
    by (auto simp: pipe_sys_inv_def)
next
  case (rd killed s n p' bs res wk)
  then show ?case using piperead_spec[of "pp s" killed n p' bs res wk]
    by (auto simp: pipe_sys_inv_def)
next
  case (cl s writable p' freed wk)
  then show ?case by (auto simp: pipe_sys_inv_def pipeclose_def Let_def split: if_splits)
qed

lemma pipe_reach_inv: "pipe_reach s t \<Longrightarrow> pipe_sys_inv s \<Longrightarrow> pipe_sys_inv t"
  by (induction rule: pipe_reach.induct) (auto dest: pipe_step_inv)

lemma pipe_init_ok: "length page = PIPESIZE \<Longrightarrow> pipe_ok (pipe_init page) \<and> buffered (pipe_init page) = []"
  by (simp add: pipe_init_def pipe_ok_def buffered_def)

section \<open>Properties\<close>

text \<open>
  C40: A pipe is a first-in first-out byte stream: after any interleaving of writes (also ones
  that slept and went on), reads and closes, starting from a fresh pipe, the bytes received so
  far followed by the buffered bytes are exactly the bytes sent so far, and at most
  \<open>PIPESIZE\<close> bytes are buffered, also after the 32-bit counters have wrapped around.
\<close>

theorem pipe_is_fifo:
  assumes "pipe_reach \<lparr>pp = pipe_init page, sent = [], received = []\<rparr> s" "length page = PIPESIZE"
  shows "received s @ buffered (pp s) = sent s \<and> length (buffered (pp s)) \<le> PIPESIZE"
proof -
  have "pipe_sys_inv \<lparr>pp = pipe_init page, sent = [], received = []\<rparr>"
    using pipe_init_ok[OF assms(2)] by (simp add: pipe_sys_inv_def)
  from pipe_reach_inv[OF assms(1) this] show ?thesis
    by (simp add: pipe_sys_inv_def pipe_ok_def length_buffered)
qed

theorem pipe_is_fifo_witness:
  "\<exists>s. pipe_reach \<lparr>pp = pipe_init (replicate PIPESIZE 0), sent = [], received = []\<rparr> s \<and> sent s = [7, 9] \<and>
     received s @ buffered (pp s) = [7, 9]"
proof -
  let ?init = "\<lparr>pp = pipe_init (replicate PIPESIZE 0), sent = [], received = []\<rparr>"
  obtain p' j res wk where w: "pipewrite False (pp ?init) [7, 9] 0 = (p', j, res, wk)"
    by (metis prod_cases4)
  let ?s = "?init\<lparr>pp := p', sent := sent ?init @ take (j - 0) (drop 0 [7, 9])\<rparr>"
  have "pipe_step ?init ?s" by (rule pipe_step.wr[OF _ w]) simp
  then have r: "pipe_reach ?init ?s" using pipe_reach.step[OF pipe_reach.init[of ?init]] by blast
  have "j = 2"
    using w by (simp add: pipewrite.simps pipe_init_def pipe_full_def put_byte_def PIPESIZE_def)
  then have "sent ?s = [7, 9]" by simp
  with pipe_is_fifo[OF r] r show ?thesis by (intro exI[of _ ?s]) simp
qed

text \<open>
  A write of \<open>n\<close> bytes to a pipe with room for them returns \<open>n\<close> without sleeping, and
  the next read of \<open>n\<close> bytes from a pipe that was empty before returns exactly these bytes.
\<close>

theorem pipe_write_read_roundtrip:
  assumes "pipe_ok p" "buffered p = []" "length bs \<le> PIPESIZE" "bs \<noteq> []"
  shows "\<exists>p1 p2. pipewrite killed p bs 0 = (p1, length bs, Return (int (length bs)), [Nread]) \<and>
           piperead killed' p1 (length bs) = (p2, bs, Return (int (length bs)), [Nwrite]) \<and>
           buffered p2 = []"
proof -
  obtain p1 j res wk where w: "pipewrite killed p bs 0 = (p1, j, res, wk)" by (metis prod_cases4)
  note ws = pipewrite_spec[OF assms(1) _ w, simplified]
  have j: "j = length bs" using ws assms(2,3) by (cases res) auto
  have res: "res = Return (int (length bs))" "wk = [Nread]" and b1: "buffered p1 = bs" "pipe_ok p1"
    using ws assms(2) j by (auto split: outcome.splits)
  obtain p2 cs where r: "piperead_copy p1 (length bs) = (p2, cs)" by (cases "piperead_copy p1 (length bs)")
  have "cs = bs" "buffered p2 = []" using piperead_copy_spec[OF b1(2) r] b1(1) by auto
  moreover have "nread p1 \<noteq> nwrite p1" using b1(1) assms(4) by (simp add: pipe_empty_iff)
  ultimately show ?thesis using w res j r by (simp add: piperead_def)
qed


theorem pipe_write_read_roundtrip_witness:
  "\<exists>p1 p2. pipewrite False (pipe_init (replicate PIPESIZE 0)) [1, 2, 3] 0 =
       (p1, 3, Return 3, [Nread]) \<and> piperead False p1 3 = (p2, [1, 2, 3], Return 3, [Nwrite]) \<and>
     buffered p2 = []"
  using pipe_write_read_roundtrip[of "pipe_init (replicate PIPESIZE 0)" "[1, 2, 3]" False False]
    pipe_init_ok[of "replicate PIPESIZE 0"]
  by (simp add: PIPESIZE_def numeral_3_eq_3)

end
