(* ===== verification/CStrings.thy ===== *)
theory CStrings
  imports Prelude
begin

text \<open>
  The kernel's string library \<open>kernel/string.c\<close> over a flat byte memory: \<open>memset\<close>, \<open>memcmp\<close>,
  \<open>memmove\<close>, \<open>memcpy\<close>, \<open>strncmp\<close>, \<open>strncpy\<close>, \<open>safestrcpy\<close> and \<open>strlen\<close>, loop by loop. Addresses
  are natural numbers (an object of the C program does not wrap around the address space). A
  C \<open>int\<close> count may be negative; the loops test it the way the code does. \<open>strlen\<close> has no bound and
  is a partial function: \<open>None\<close> when there is no NUL byte to stop it.
\<close>

section \<open>Memory\<close>

type_synonym memory = "nat \<Rightarrow> u8"

definition bytes :: "memory \<Rightarrow> nat \<Rightarrow> nat \<Rightarrow> u8 list" where
  "bytes m a n = map (\<lambda>i. m (a + i)) [0..<n]"

section \<open>Operations\<close>

fun stosb :: "memory \<Rightarrow> nat \<Rightarrow> u8 \<Rightarrow> nat \<Rightarrow> memory" where
  "stosb m dst c 0 = m"
| "stosb m dst c (Suc n) = stosb (m(dst := c)) (dst + 1) c n"

definition memset :: "memory \<Rightarrow> nat \<Rightarrow> int \<Rightarrow> nat \<Rightarrow> memory" where
  "memset m dst c n = stosb m dst (word_of_int c) n"

fun memcmp :: "memory \<Rightarrow> nat \<Rightarrow> nat \<Rightarrow> nat \<Rightarrow> int" where
  "memcmp m s1 s2 0 = 0"
| "memcmp m s1 s2 (Suc n) =
     (if m s1 \<noteq> m s2 then uint (m s1) - uint (m s2) else memcmp m (s1 + 1) (s2 + 1) n)"

text \<open>The two copying loops of \<open>memmove\<close>: downwards from the ends, and upwards.\<close>

fun copy_down :: "memory \<Rightarrow> nat \<Rightarrow> nat \<Rightarrow> nat \<Rightarrow> memory" where
  "copy_down m d s 0 = m"
| "copy_down m d s (Suc n) = copy_down (m(d - 1 := m (s - 1))) (d - 1) (s - 1) n"

fun copy_up :: "memory \<Rightarrow> nat \<Rightarrow> nat \<Rightarrow> nat \<Rightarrow> memory" where
  "copy_up m d s 0 = m"
| "copy_up m d s (Suc n) = copy_up (m(d := m s)) (d + 1) (s + 1) n"

definition memmove :: "memory \<Rightarrow> nat \<Rightarrow> nat \<Rightarrow> nat \<Rightarrow> memory" where
  "memmove m dst src n =
     (if src < dst \<and> src + n > dst then copy_down m (dst + n) (src + n) n
      else copy_up m dst src n)"

definition memcpy :: "memory \<Rightarrow> nat \<Rightarrow> nat \<Rightarrow> nat \<Rightarrow> memory" where
  "memcpy m dst src n = memmove m dst src n"

fun strncmp :: "memory \<Rightarrow> nat \<Rightarrow> nat \<Rightarrow> nat \<Rightarrow> int" where
  "strncmp m p q 0 = 0"
| "strncmp m p q (Suc n) =
     (if m p \<noteq> 0 \<and> m p = m q then strncmp m (p + 1) (q + 1) n
      else uint (m p) - uint (m q))"

text \<open>The padding loop and the copying loop of \<open>strncpy\<close>; the count is a signed \<open>int\<close>.\<close>

function strncpy_pad :: "memory \<Rightarrow> nat \<Rightarrow> int \<Rightarrow> memory" where
  "strncpy_pad m s n = (if n > 0 then strncpy_pad (m(s := 0)) (s + 1) (n - 1) else m)"
  by auto
termination by (relation "measure (\<lambda>(m, s, n). nat n)") auto

function strncpy :: "memory \<Rightarrow> nat \<Rightarrow> nat \<Rightarrow> int \<Rightarrow> memory" where
  "strncpy m s t n =
     (if n > 0 then
        let m' = m(s := m t) in
        if m' s \<noteq> 0 then strncpy m' (s + 1) (t + 1) (n - 1)
        else strncpy_pad m' (s + 1) (n - 1)
      else strncpy_pad m s (n - 1))"
  by auto
termination by (relation "measure (\<lambda>(m, s, t, n). nat n)") auto

text \<open>The loop of \<open>safestrcpy\<close>, entered with the count already decremented; it returns the
  position of the terminating NUL.\<close>

function safestrcpy_loop :: "memory \<Rightarrow> nat \<Rightarrow> nat \<Rightarrow> int \<Rightarrow> memory \<times> nat" where
  "safestrcpy_loop m s t n =
     (if n > 0 then
        let m' = m(s := m t) in
        if m' s \<noteq> 0 then safestrcpy_loop m' (s + 1) (t + 1) (n - 1) else (m', s + 1)
      else (m, s))"
  by auto
termination by (relation "measure (\<lambda>(m, s, t, n). nat n)") auto

definition safestrcpy :: "memory \<Rightarrow> nat \<Rightarrow> nat \<Rightarrow> int \<Rightarrow> memory" where
  "safestrcpy m s t n =
     (if n \<le> 0 then m
      else let (m', e) = safestrcpy_loop m s t (n - 1) in m'(e := 0))"

partial_function (option) strlen_loop :: "memory \<Rightarrow> nat \<Rightarrow> nat \<Rightarrow> nat option" where
  [code]: "strlen_loop m s n = (if m (s + n) \<noteq> 0 then strlen_loop m s (n + 1) else Some n)"

definition strlen :: "memory \<Rightarrow> nat \<Rightarrow> nat option" where
  "strlen m s = strlen_loop m s 0"

declare strncpy_pad.simps [simp del] strncpy.simps [simp del] safestrcpy_loop.simps [simp del]

section \<open>Blocks of bytes\<close>

lemma bytes_Nil [simp]: "bytes m a 0 = []"
  by (simp add: bytes_def)

lemma length_bytes [simp]: "length (bytes m a n) = n"
  by (simp add: bytes_def)

lemma nth_bytes [simp]: "i < n \<Longrightarrow> bytes m a n ! i = m (a + i)"
  by (simp add: bytes_def)

lemma bytes_Suc: "bytes m a (Suc n) = m a # bytes m (a + 1) n"
  by (rule nth_equalityI) (simp_all add: nth_Cons split: nat.split)

lemma bytes_cong: "(\<And>i. i < n \<Longrightarrow> m (a + i) = m' (a + i)) \<Longrightarrow> bytes m a n = bytes m' a n"
  by (simp add: bytes_def)

lemma stosb_apply: "stosb m dst c n a = (if dst \<le> a \<and> a < dst + n then c else m a)"
proof (induction m dst c n rule: stosb.induct)
  case (2 m dst c n)
  show ?case
    unfolding stosb.simps 2 by auto
qed auto

lemma memset_apply:
  "memset m dst c n a = (if dst \<le> a \<and> a < dst + n then word_of_int c else m a)"
  by (simp add: memset_def stosb_apply)

lemma copy_up_apply:
  assumes "\<not> (s < d \<and> d < s + n)"
  shows "copy_up m d s n a = (if d \<le> a \<and> a < d + n then m (s + (a - d)) else m a)"
  using assms
proof (induction m d s n rule: copy_up.induct)
  case (2 m d s n)
  then have "\<not> (s + 1 < d + 1 \<and> d + 1 < s + 1 + n)" by auto
  note IH = "2.IH" [OF this]
  have "s + (a - d) \<noteq> d" if "d < a" "a < d + Suc n"
    using that 2(2) by auto
  moreover have "s + 1 + (a - (d + 1)) = s + (a - d)" if "d < a"
    using that by simp
  ultimately show ?case
    unfolding copy_up.simps IH by auto
qed auto

lemma copy_down_apply:
  assumes "s < d" "n \<le> s"
  shows "copy_down m d s n a =
    (if d - n \<le> a \<and> a < d then m (s - (d - a)) else m a)"
  using assms
proof (induction m d s n rule: copy_down.induct)
  case (2 m d s n)
  then have IH: "copy_down (m(d - 1 := m (s - 1))) (d - 1) (s - 1) n a =
     (if d - 1 - n \<le> a \<and> a < d - 1 then (m(d - 1 := m (s - 1))) (s - 1 - (d - 1 - a))
      else (m(d - 1 := m (s - 1))) a)"
    by (intro "2.IH") auto
  show ?case
    unfolding copy_down.simps IH using 2(2,3) by auto
qed auto

lemma memmove_apply:
  "memmove m dst src n a = (if dst \<le> a \<and> a < dst + n then m (src + (a - dst)) else m a)"
proof (cases "src < dst \<and> src + n > dst")
  case True
  then have "memmove m dst src n a =
      (if dst + n - n \<le> a \<and> a < dst + n then m (src + n - (dst + n - a)) else m a)"
    unfolding memmove_def by (simp add: copy_down_apply)
  then show ?thesis by auto
next
  case False
  then show ?thesis
    unfolding memmove_def by (simp only: if_False copy_up_apply [OF False])
qed

lemma bytes_memmove: "bytes (memmove m dst src n) dst n = bytes m src n"
  by (rule nth_equalityI) (simp_all add: memmove_apply)

section \<open>NUL-terminated strings\<close>

text \<open>The C string at \<open>a\<close>, cut after \<open>n\<close> bytes.\<close>

definition cstr :: "memory \<Rightarrow> nat \<Rightarrow> nat \<Rightarrow> u8 list" where
  "cstr m a n = takeWhile (\<lambda>b. b \<noteq> 0) (bytes m a n)"

lemma cstr_0 [simp]: "cstr m a 0 = []"
  by (simp add: cstr_def)

lemma cstr_Suc: "cstr m a (Suc n) = (if m a = 0 then [] else m a # cstr m (a + 1) n)"
  by (simp add: cstr_def bytes_Suc)

lemma length_cstr: "length (cstr m a n) \<le> n"
  unfolding cstr_def by (metis length_bytes length_takeWhile_le)

lemma cstr_cong: "(\<And>i. i < n \<Longrightarrow> m (a + i) = m' (a + i)) \<Longrightarrow> cstr m a n = cstr m' a n"
  unfolding cstr_def by (metis bytes_cong)

lemma strncpy_pad_apply:
  "strncpy_pad m s (int k) a = (if s \<le> a \<and> a < s + k then 0 else m a)"
proof (induction k arbitrary: m s)
  case (Suc k)
  show ?case
    by (subst strncpy_pad.simps) (simp del: fun_upd_apply add: Suc, auto)
qed (auto simp: strncpy_pad.simps)

lemma bytes_split_Suc:
  "bytes m s (Suc k) = x # ys \<longleftrightarrow> m s = x \<and> bytes m (s + 1) k = ys"
  by (simp add: bytes_Suc)

lemma strncpy_spec:
  assumes "s + k \<le> t \<or> t + k \<le> s"
  shows "bytes (strncpy m s t (int k)) s k = cstr m t k @ replicate (k - length (cstr m t k)) 0 \<and>
    (\<forall>a. a < s \<or> s + k \<le> a \<longrightarrow> strncpy m s t (int k) a = m a)"
  using assms
proof (induction k arbitrary: m s t)
  case 0
  show ?case by (simp add: strncpy.simps [of _ _ _ 0] strncpy_pad.simps)
next
  case (Suc k)
  define m1 where "m1 = m(s := m t)"
  have m1: "m1 s = m t" "\<And>a. a \<noteq> s \<Longrightarrow> m1 a = m a"
    by (simp_all add: m1_def)
  have fr: "cstr m1 (t + 1) k = cstr m (t + 1) k"
    using Suc.prems by (intro cstr_cong) (auto simp: m1)
  show ?case
  proof (cases "m t = 0")
    case True
    then have eq: "strncpy m s t (int (Suc k)) = strncpy_pad m1 (s + 1) (int k)"
      by (simp add: strncpy.simps [of m s t] m1_def)
    have "bytes (strncpy_pad m1 (s + 1) (int k)) (s + 1) k = replicate k 0"
      by (rule nth_equalityI) (simp_all add: strncpy_pad_apply)
    then show ?thesis
      unfolding eq bytes_Suc by (simp add: True cstr_Suc strncpy_pad_apply m1)
  next
    case False
    then have eq: "strncpy m s t (int (Suc k)) = strncpy m1 (s + 1) (t + 1) (int k)"
      by (simp add: strncpy.simps [of m s t] m1_def)
    have "s + 1 + k \<le> t + 1 \<or> t + 1 + k \<le> s + 1"
      using Suc.prems by auto
    note IH = Suc.IH [OF this, of m1, unfolded fr]
    then have "strncpy m1 (s + 1) (t + 1) (int k) s = m t"
      by (simp add: m1)
    then show ?thesis
      unfolding eq bytes_Suc using IH False by (simp add: cstr_Suc m1)
  qed
qed

lemma safestrcpy_loop_spec:
  assumes "s + k < t \<or> t + k \<le> s" "safestrcpy_loop m s t (int k) = (m', e)"
  shows "e \<le> s + k \<and> cstr (m'(e := 0)) s (Suc k) = cstr m t k \<and>
    (\<forall>a. a < s \<or> s + k < a \<longrightarrow> (m'(e := 0)) a = m a)"
  using assms
proof (induction k arbitrary: m s t)
  case 0
  then show ?case by (simp add: safestrcpy_loop.simps [of _ _ _ 0] cstr_Suc)
next
  case (Suc k)
  define m1 where "m1 = m(s := m t)"
  have m1: "m1 s = m t" "\<And>a. a \<noteq> s \<Longrightarrow> m1 a = m a"
    by (simp_all add: m1_def)
  have fr: "cstr m1 (t + 1) k = cstr m (t + 1) k"
    using Suc.prems(1) by (intro cstr_cong) (auto simp: m1)
  show ?case
  proof (cases "m t = 0")
    case True
    then have "m' = m1" "e = s + 1"
      using Suc.prems(2) by (simp_all add: safestrcpy_loop.simps [of m s t] m1_def)
    then show ?thesis
      by (simp add: True cstr_Suc m1)
  next
    case False
    then have eq: "safestrcpy_loop m1 (s + 1) (t + 1) (int k) = (m', e)"
      using Suc.prems(2) by (simp add: safestrcpy_loop.simps [of m s t] m1_def)
    have "s + 1 + k < t + 1 \<or> t + 1 + k \<le> s + 1"
      using Suc.prems(1) by auto
    note IH = Suc.IH [OF this eq, unfolded fr]
    then have "(m'(e := 0)) s = m t"
      by (simp add: m1 del: fun_upd_apply)
    then show ?thesis
      using IH False
      by (simp add: cstr_Suc [of _ s "Suc k"] cstr_Suc [of m t] m1 del: fun_upd_apply)
  qed
qed

lemma strlen_loop_Some:
  assumes "\<forall>i. n \<le> i \<and> i < k \<longrightarrow> m (s + i) \<noteq> 0" "m (s + k) = 0" "n \<le> k"
  shows "strlen_loop m s n = Some k"
  using assms
proof (induction "k - n" arbitrary: n)
  case 0
  then show ?case by (simp add: strlen_loop.simps)
next
  case (Suc d)
  then have "n < k" "m (s + n) \<noteq> 0" by auto
  moreover have "strlen_loop m s (n + 1) = Some k"
    using Suc \<open>n < k\<close> by (intro Suc.hyps(1)) auto
  ultimately show ?case by (subst strlen_loop.simps) simp
qed

lemma strlen_loop_None:
  assumes "\<forall>i. n \<le> i \<longrightarrow> m (s + i) \<noteq> 0"
  shows "strlen_loop m s n = None"
proof -
  have "strlen_loop m s n = Some k \<Longrightarrow> k \<ge> n \<and> m (s + k) = 0" for k
    by (erule strlen_loop.raw_induct [rotated]) (fastforce split: if_splits)
  then show ?thesis
    using assms by (cases "strlen_loop m s n") auto
qed

lemma memcmp_eq_0: "memcmp m s1 s2 n = 0 \<longleftrightarrow> bytes m s1 n = bytes m s2 n"
  by (induction m s1 s2 n rule: memcmp.induct) (auto simp: bytes_Suc word_uint_eq_iff)

lemma strncmp_eq_0: "strncmp m p q n = 0 \<longleftrightarrow> cstr m p n = cstr m q n"
  by (induction m p q n rule: strncmp.induct) (auto simp: cstr_Suc word_uint_eq_iff)

section \<open>Properties\<close>

text \<open>
  \<open>memmove\<close> copies correctly whatever the overlap of the two blocks: afterwards the
  destination holds the bytes the source held before the call, and no byte outside the
  destination has changed.
\<close>
theorem memmove_correct:
  "bytes (memmove m dst src n) dst n = bytes m src n \<and>
   (\<forall>a. a \<notin> {dst..<dst + n} \<longrightarrow> memmove m dst src n a = m a)"
  by (simp add: bytes_memmove memmove_apply)

theorem memmove_correct_witness:
  "bytes (memmove (\<lambda>i. of_nat i) 12 10 5) 12 5 = [10, 11, 12, 13, 14] \<and>
   memmove (\<lambda>i. of_nat i) 12 10 5 11 = 11"
  using memmove_correct [of "\<lambda>i. of_nat i" 12 10 5]
  by (simp add: bytes_def upt_rec)

text \<open>
  \<open>safestrcpy\<close> into a buffer of \<open>n > 0\<close> bytes that does not overlap the source always leaves
  a NUL-terminated string there, the first \<open>n - 1\<close> characters of the source at most, and writes
  nothing outside the buffer.
\<close>
theorem safestrcpy_terminates_string:
  assumes "0 < n" "s + n \<le> t \<or> t + n \<le> s"
  shows "cstr (safestrcpy m s t (int n)) s n = cstr m t (n - 1) \<and>
    length (cstr (safestrcpy m s t (int n)) s n) < n \<and>
    (\<forall>a. a \<notin> {s..<s + n} \<longrightarrow> safestrcpy m s t (int n) a = m a)"
proof -
  obtain k where n: "n = Suc k"
    using assms(1) by (cases n) auto
  obtain m' e where l: "safestrcpy_loop m s t (int k) = (m', e)"
    by fastforce
  then have eq: "safestrcpy m s t (int n) = m'(e := 0)"
    by (simp add: safestrcpy_def n)
  have "s + k < t \<or> t + k \<le> s"
    using assms(2) n by auto
  from safestrcpy_loop_spec [OF this l] show ?thesis
    unfolding eq using length_cstr [of m t k]
    by (simp add: n less_Suc_eq_le not_less_eq_eq not_le Suc_le_eq del: fun_upd_apply)
qed

theorem safestrcpy_terminates_string_witness:
  "cstr (safestrcpy (\<lambda>i. of_nat (i + 1)) 0 20 (int 4)) 0 4 = [21, 22, 23]"
  using safestrcpy_terminates_string [of 4 0 20 "\<lambda>i. of_nat (i + 1)"]
  by (simp add: cstr_def bytes_def upt_rec)

text \<open>
  \<open>strlen\<close> returns exactly when there is a NUL byte at or after its argument, and then the
  distance to the first one.
\<close>
theorem strlen_correct:
  "strlen m s = Some k \<longleftrightarrow> m (s + k) = 0 \<and> (\<forall>i<k. m (s + i) \<noteq> 0)"
proof (cases "\<exists>j. m (s + j) = 0")
  case True
  define l where "l = (LEAST j. m (s + j) = 0)"
  have l: "m (s + l) = 0" "\<forall>i<l. m (s + i) \<noteq> 0"
    using LeastI_ex [OF True] not_less_Least unfolding l_def by auto
  then have "strlen m s = Some l"
    unfolding strlen_def by (intro strlen_loop_Some) auto
  then show ?thesis
    using l by (metis linorder_neqE_nat option.inject)
next
  case False
  then show ?thesis
    by (simp add: strlen_def strlen_loop_None)
qed

theorem strlen_correct_witness:
  "strlen (\<lambda>i. of_nat (10 - i)) 7 = Some 3"
proof -
  have "\<forall>i<3. (of_nat (10 - (7 + i)) :: u8) \<noteq> 0"
    by (simp add: numeral_3_eq_3 All_less_Suc)
  then show ?thesis
    by (simp add: strlen_correct)
qed

end
