(* ===== verification/Spinlock.thy ===== *)
theory Spinlock
  imports Prelude
begin

text \<open>
  Spin locks (\<open>kernel/spinlock.c\<close>) on a machine of any number of CPUs. The bodies of \<open>acquire\<close>
  and \<open>release\<close> are cut at the points where another CPU can run in between: the entry with its
  panic test, one atomic \<open>xchg\<close> per turn of the spin loop, the bookkeeping after it, and the two
  halves of \<open>release\<close>. A relation interleaves these pieces. Clients are arbitrary: a CPU may call
  \<open>acquire\<close> or \<open>release\<close> on any lock at any time; misuse ends in a panic, which stops the machine.
\<close>

section \<open>Data\<close>

text \<open>A CPU: the nesting depth and saved flag of \<open>pushcli\<close>, and the interrupt flag of its
  \<open>eflags\<close> register.\<close>

record cpu =
  ncli :: int
  intena :: bool
  eflags_if :: bool

record spinlock =
  locked :: u32
  lock_name :: string
  lock_cpu :: "nat option"
  pcs :: "u32 list"

datatype panic_msg = Panic_acquire | Panic_release | Panic_popcli_interruptible | Panic_popcli

section \<open>Operations\<close>

definition initlock :: "u32 list \<Rightarrow> string \<Rightarrow> spinlock" where
  "initlock old_pcs name = \<lparr>locked = 0, lock_name = name, lock_cpu = None, pcs = old_pcs\<rparr>"

definition holding :: "nat \<Rightarrow> spinlock \<Rightarrow> bool" where
  "holding c lk \<longleftrightarrow> locked lk \<noteq> 0 \<and> lock_cpu lk = Some c"

definition pushcli :: "cpu \<Rightarrow> cpu" where
  "pushcli c =
     (let eflags = eflags_if c; c1 = c\<lparr>eflags_if := False\<rparr>
      in if ncli c1 = 0 then c1\<lparr>ncli := ncli c1 + 1, intena := eflags\<rparr>
         else c1\<lparr>ncli := ncli c1 + 1\<rparr>)"

definition popcli :: "cpu \<Rightarrow> panic_msg + cpu" where
  "popcli c =
     (if eflags_if c then Inl Panic_popcli_interruptible
      else let c1 = c\<lparr>ncli := ncli c - 1\<rparr> in
        if ncli c1 < 0 then Inl Panic_popcli
        else if ncli c1 = 0 \<and> intena c1 then Inr (c1\<lparr>eflags_if := True\<rparr>)
        else Inr c1)"

text \<open>The walk up the chain of saved \<open>%ebp\<close> registers, \<open>k\<close> entries of \<open>pcs\<close> left to fill;
  \<open>mem\<close> reads a word of memory.\<close>

fun caller_loop :: "(u32 \<Rightarrow> u32) \<Rightarrow> nat \<Rightarrow> u32 \<Rightarrow> u32 list" where
  "caller_loop mem 0 ebp = []"
| "caller_loop mem (Suc k) ebp =
     (if ebp = 0 \<or> ebp < 0x100000 \<or> ebp = 0xffffffff then replicate (Suc k) 0
      else mem (ebp + 4) # caller_loop mem k (mem ebp))"

definition getcallerpcs :: "(u32 \<Rightarrow> u32) \<Rightarrow> u32 \<Rightarrow> u32 list" where
  "getcallerpcs mem v = caller_loop mem 10 (v - 8)"

definition acquire_enter :: "nat \<Rightarrow> cpu \<Rightarrow> spinlock \<Rightarrow> panic_msg + cpu" where
  "acquire_enter c cp lk =
     (let cp1 = pushcli cp in if holding c lk then Inl Panic_acquire else Inr cp1)"

definition xchg :: "spinlock \<Rightarrow> u32 \<Rightarrow> u32 \<times> spinlock" where
  "xchg lk v = (locked lk, lk\<lparr>locked := v\<rparr>)"

definition acquire_record :: "(u32 \<Rightarrow> u32) \<Rightarrow> u32 \<Rightarrow> nat \<Rightarrow> spinlock \<Rightarrow> spinlock" where
  "acquire_record mem v c lk = lk\<lparr>lock_cpu := Some c, pcs := getcallerpcs mem v\<rparr>"

definition release_begin :: "nat \<Rightarrow> spinlock \<Rightarrow> panic_msg + spinlock" where
  "release_begin c lk =
     (if \<not> holding c lk then Inl Panic_release
      else Inr (lk\<lparr>pcs := (pcs lk)[0 := 0], lock_cpu := None\<rparr>))"

section \<open>Interleaving\<close>

text \<open>Where a CPU is: outside the lock code, spinning on a lock, past the successful exchange
  but before the bookkeeping, or past the first half of \<open>release\<close>, or past its exchange.\<close>

datatype pc = Outside | Spinning nat | Acquired nat | Releasing nat | Released

record machine =
  cpus :: "nat \<Rightarrow> cpu"
  locks :: "nat \<Rightarrow> spinlock"
  pcof :: "nat \<Rightarrow> pc"
  panicked :: "(nat \<times> nat \<times> panic_msg) option"

inductive lock_step :: "machine \<Rightarrow> machine \<Rightarrow> bool" where
  enter: "panicked s = None \<Longrightarrow> pcof s c = Outside \<Longrightarrow>
    acquire_enter c (cpus s c) (locks s l) = Inr cp \<Longrightarrow>
    lock_step s (s\<lparr>cpus := (cpus s)(c := cp), pcof := (pcof s)(c := Spinning l)\<rparr>)"
| enter_panic: "panicked s = None \<Longrightarrow> pcof s c = Outside \<Longrightarrow>
    acquire_enter c (cpus s c) (locks s l) = Inl e \<Longrightarrow>
    lock_step s (s\<lparr>panicked := Some (c, l, e)\<rparr>)"
| spin: "panicked s = None \<Longrightarrow> pcof s c = Spinning l \<Longrightarrow> xchg (locks s l) 1 = (v, lk) \<Longrightarrow>
    lock_step s (s\<lparr>locks := (locks s)(l := lk),
      pcof := (pcof s)(c := if v \<noteq> 0 then Spinning l else Acquired l)\<rparr>)"
| record_owner: "panicked s = None \<Longrightarrow> pcof s c = Acquired l \<Longrightarrow>
    lock_step s (s\<lparr>locks := (locks s)(l := acquire_record mem v c (locks s l)),
      pcof := (pcof s)(c := Outside)\<rparr>)"
| release: "panicked s = None \<Longrightarrow> pcof s c = Outside \<Longrightarrow>
    release_begin c (locks s l) = Inr lk \<Longrightarrow>
    lock_step s (s\<lparr>locks := (locks s)(l := lk), pcof := (pcof s)(c := Releasing l)\<rparr>)"
| release_panic: "panicked s = None \<Longrightarrow> pcof s c = Outside \<Longrightarrow>
    release_begin c (locks s l) = Inl e \<Longrightarrow>
    lock_step s (s\<lparr>panicked := Some (c, l, e)\<rparr>)"
| free: "panicked s = None \<Longrightarrow> pcof s c = Releasing l \<Longrightarrow>
    lock_step s (s\<lparr>locks := (locks s)(l := snd (xchg (locks s l) 0)),
      pcof := (pcof s)(c := Released)\<rparr>)"
| pop: "panicked s = None \<Longrightarrow> pcof s c = Released \<Longrightarrow> popcli (cpus s c) = Inr cp \<Longrightarrow>
    lock_step s (s\<lparr>cpus := (cpus s)(c := cp), pcof := (pcof s)(c := Outside)\<rparr>)"
| pop_panic: "panicked s = None \<Longrightarrow> pcof s c = Released \<Longrightarrow> popcli (cpus s c) = Inl e \<Longrightarrow>
    lock_step s (s\<lparr>panicked := Some (c, l, e)\<rparr>)"
| set_interrupts: "panicked s = None \<Longrightarrow> pcof s c = Outside \<Longrightarrow> ncli (cpus s c) = 0 \<Longrightarrow>
    lock_step s (s\<lparr>cpus := (cpus s)(c := (cpus s c)\<lparr>eflags_if := b\<rparr>)\<rparr>)"

inductive lock_run :: "machine \<Rightarrow> machine \<Rightarrow> bool" for s where
  start: "lock_run s s"
| step: "lock_run s t \<Longrightarrow> lock_step t u \<Longrightarrow> lock_run s u"

definition boot :: "machine \<Rightarrow> bool" where
  "boot s \<longleftrightarrow> panicked s = None \<and>
     (\<forall>c. pcof s c = Outside \<and> ncli (cpus s c) = 0) \<and>
     (\<forall>l. locked (locks s l) = 0 \<and> lock_cpu (locks s l) = None)"

text \<open>The locks a CPU owns: from its successful exchange to the exchange of its release.\<close>

definition owns :: "machine \<Rightarrow> nat \<Rightarrow> nat \<Rightarrow> bool" where
  "owns s c l \<longleftrightarrow> lock_cpu (locks s l) = Some c \<or> pcof s c = Acquired l \<or> pcof s c = Releasing l"


section \<open>Ownership is exclusive\<close>

definition own_inv :: "machine \<Rightarrow> bool" where
  "own_inv s \<longleftrightarrow>
     (\<forall>l. locked (locks s l) \<noteq> 0 \<longleftrightarrow> (\<exists>c. owns s c l)) \<and>
     (\<forall>l c c'. owns s c l \<longrightarrow> owns s c' l \<longrightarrow> c = c') \<and>
     (\<forall>l c. lock_cpu (locks s l) = Some c \<longrightarrow> pcof s c \<noteq> Acquired l \<and> pcof s c \<noteq> Releasing l)"

lemma own_invD:
  assumes "own_inv s"
  shows "locked (locks s l) = 0 \<Longrightarrow> \<not> owns s c l"
    "owns s c l \<Longrightarrow> locked (locks s l) \<noteq> 0"
    "owns s c l \<Longrightarrow> owns s c' l \<Longrightarrow> c = c'"
    "lock_cpu (locks s l) = Some c \<Longrightarrow> pcof s c \<noteq> Acquired l \<and> pcof s c \<noteq> Releasing l"
  using assms unfolding own_inv_def by blast+

lemma own_invI:
  assumes "\<And>l c. owns t c l \<longleftrightarrow> (if l = k then owner = Some c else owns s c l)"
    "\<And>l. l \<noteq> k \<Longrightarrow> locked (locks t l) = locked (locks s l)"
    "locked (locks t k) \<noteq> 0 \<longleftrightarrow> owner \<noteq> None"
    "\<And>l c. lock_cpu (locks t l) = Some c \<Longrightarrow> pcof t c \<noteq> Acquired l \<and> pcof t c \<noteq> Releasing l"
    "own_inv s"
  shows "own_inv t"
  unfolding own_inv_def
proof (intro conjI allI impI)
  show "locked (locks t l) \<noteq> 0 \<longleftrightarrow> (\<exists>c. owns t c l)" for l
    using assms(1-3,5) unfolding own_inv_def by (cases "l = k") auto
  show "c = c'" if "owns t c l" "owns t c' l" for l c c'
    using that assms(1,5) by (auto dest: own_invD split: if_splits)
qed (use assms(4) in blast)+

lemma own_inv_same:
  assumes "\<And>l c. owns t c l \<longleftrightarrow> owns s c l" "\<And>l. locked (locks t l) = 0 \<longleftrightarrow> locked (locks s l) = 0"
    "\<And>l c. lock_cpu (locks t l) = Some c \<Longrightarrow> pcof t c \<noteq> Acquired l \<and> pcof t c \<noteq> Releasing l"
    "own_inv s"
  shows "own_inv t"
  using assms unfolding own_inv_def by simp

lemma owns_frame [simp]:
  "owns (s\<lparr>panicked := p\<rparr>) = owns s" "owns (s\<lparr>cpus := f\<rparr>) = owns s"
  by (simp_all add: owns_def fun_eq_iff)

lemma own_inv_frame [simp]:
  "own_inv (s\<lparr>panicked := p\<rparr>) = own_inv s" "own_inv (s\<lparr>cpus := f\<rparr>) = own_inv s"
  by (simp_all add: own_inv_def)

lemma own_inv_step: "lock_step s t \<Longrightarrow> own_inv s \<Longrightarrow> own_inv t"
proof (induction rule: lock_step.induct)
  case (enter s c l cp)
  show ?case
    by (rule own_inv_same [OF _ _ _ enter.prems]) (use enter own_invD(4) [OF enter.prems] in \<open>auto simp: owns_def\<close>)
next
  case (spin s c l v lk)
  show ?case
  proof (cases "v = 0")
    case True
    have no: "\<not> owns s d l" for d
      using own_invD(1) [OF spin.prems] spin.hyps True by (simp add: xchg_def)
    show ?thesis
      by (rule own_invI [where k = l and owner = "Some c", OF _ _ _ _ spin.prems])
        (use spin no own_invD(4) [OF spin.prems] True in \<open>auto simp: owns_def xchg_def split: if_splits\<close>)
  next
    case False
    show ?thesis
      by (rule own_inv_same [OF _ _ _ spin.prems])
        (use spin False own_invD(4) [OF spin.prems] in \<open>auto simp: owns_def xchg_def split: if_splits\<close>)
  qed
next
  case (record_owner s c l mem v)
  have own: "owns s c l"
    using record_owner by (simp add: owns_def)
  have only: "owns s d l \<longleftrightarrow> d = c" for d
    using own own_invD(3) [OF record_owner.prems] by blast
  show ?case
    by (rule own_invI [where k = l and owner = "Some c", OF _ _ _ _ record_owner.prems])
      (use record_owner only own_invD(2) [OF record_owner.prems own] own_invD(4) [OF record_owner.prems]
        in \<open>auto simp: owns_def acquire_record_def split: if_splits\<close>)
next
  case (release s c l lk)
  have own: "owns s c l"
    using release by (simp add: owns_def release_begin_def holding_def split: if_splits)
  have only: "owns s d l \<longleftrightarrow> d = c" for d
    using own own_invD(3) [OF release.prems] by blast
  show ?case
    by (rule own_invI [where k = l and owner = "Some c", OF _ _ _ _ release.prems])
      (use release only own_invD(2) [OF release.prems own] own_invD(4) [OF release.prems]
        in \<open>auto simp: owns_def release_begin_def split: if_splits\<close>)
next
  case (free s c l)
  have own: "owns s c l"
    using free by (simp add: owns_def)
  have only: "owns s d l \<longleftrightarrow> d = c" for d
    using own own_invD(3) [OF free.prems] by blast
  show ?case
    by (rule own_invI [where k = l and owner = None, OF _ _ _ _ free.prems])
      (use free only own_invD(4) [OF free.prems] in \<open>auto simp: owns_def xchg_def split: if_splits\<close>)
next
  case (pop s c cp)
  show ?case
    by (rule own_inv_same [OF _ _ _ pop.prems]) (use pop own_invD(4) [OF pop.prems] in \<open>auto simp: owns_def\<close>)
qed simp_all

section \<open>Interrupts and the nesting counter\<close>

definition owned :: "machine \<Rightarrow> nat \<Rightarrow> nat set" where
  "owned s c = {l. owns s c l}"

definition pending :: "pc \<Rightarrow> nat" where
  "pending p = (case p of Spinning _ \<Rightarrow> 1 | Released \<Rightarrow> 1 | _ \<Rightarrow> 0)"

definition cli_inv :: "machine \<Rightarrow> bool" where
  "cli_inv s \<longleftrightarrow> (\<forall>c. finite (owned s c) \<and>
     ncli (cpus s c) = int (card (owned s c) + pending (pcof s c)) \<and>
     (0 < ncli (cpus s c) \<longrightarrow> \<not> eflags_if (cpus s c)))"

lemma cli_invI:
  assumes "cli_inv s"
    "\<And>d. d \<noteq> c \<Longrightarrow> owned t d = owned s d \<and> cpus t d = cpus s d \<and> pcof t d = pcof s d"
    "finite (owned t c)" "ncli (cpus t c) = int (card (owned t c) + pending (pcof t c))"
    "0 < ncli (cpus t c) \<Longrightarrow> \<not> eflags_if (cpus t c)"
  shows "cli_inv t"
  unfolding cli_inv_def
proof (rule allI)
  fix d
  show "finite (owned t d) \<and> ncli (cpus t d) = int (card (owned t d) + pending (pcof t d)) \<and>
      (0 < ncli (cpus t d) \<longrightarrow> \<not> eflags_if (cpus t d))"
    using assms by (cases "d = c") (auto simp: cli_inv_def)
qed

lemma cli_invD:
  assumes "cli_inv s"
  shows "finite (owned s c)" "ncli (cpus s c) = int (card (owned s c) + pending (pcof s c))"
    "0 < ncli (cpus s c) \<Longrightarrow> \<not> eflags_if (cpus s c)"
  using assms unfolding cli_inv_def by auto

lemma cli_inv_step:
  assumes "lock_step s t" "own_inv s" "cli_inv s"
  shows "cli_inv t"
  using assms
proof (induction rule: lock_step.induct)
  case (enter s c l cp)
  have "owned (s\<lparr>cpus := (cpus s)(c := cp), pcof := (pcof s)(c := Spinning l)\<rparr>) d = owned s d" for d
    using enter.hyps by (auto simp: owned_def owns_def)
  then show ?case
    using enter.hyps cli_invD [OF enter.prems(2), of c]
    by (intro cli_invI [OF enter.prems(2), of c])
      (auto simp: acquire_enter_def pushcli_def Let_def pending_def split: if_splits)
next
  case (spin s c l v lk)
  show ?case
  proof (cases "v = 0")
    case True
    have no: "\<not> owns s d l" for d
      using own_invD(1) [OF spin.prems(1)] spin.hyps True by (simp add: xchg_def)
    have "owned (s\<lparr>locks := (locks s)(l := lk), pcof := (pcof s)(c := Acquired l)\<rparr>) d =
        (if d = c then insert l (owned s c) else owned s d)" for d
      using spin.hyps no by (auto simp: owned_def owns_def xchg_def split: if_splits)
    then show ?thesis
      using spin.hyps cli_invD [OF spin.prems(2), of c] no True
      by (intro cli_invI [OF spin.prems(2), of c]) (auto simp: pending_def owned_def)
  next
    case False
    have "owned (s\<lparr>locks := (locks s)(l := lk), pcof := (pcof s)(c := Spinning l)\<rparr>) d = owned s d" for d
      using spin.hyps by (auto simp: owned_def owns_def xchg_def split: if_splits)
    then show ?thesis
      using spin.hyps cli_invD [OF spin.prems(2), of c] False
      by (intro cli_invI [OF spin.prems(2), of c]) (auto simp: pending_def)
  qed
next
  case (record_owner s c l mem v)
  have only: "owns s d l \<longleftrightarrow> d = c" for d
    using own_invD(3) [OF record_owner.prems(1)] record_owner.hyps by (metis owns_def)
  have "owned (s\<lparr>locks := (locks s)(l := acquire_record mem v c (locks s l)),
      pcof := (pcof s)(c := Outside)\<rparr>) d = owned s d" for d
    using only record_owner.hyps by (auto simp: owned_def owns_def acquire_record_def split: if_splits)
  then show ?case
    using record_owner.hyps cli_invD [OF record_owner.prems(2), of c]
    by (intro cli_invI [OF record_owner.prems(2), of c]) (auto simp: pending_def)
next
  case (release s c l lk)
  have h: "lock_cpu (locks s l) = Some c"
    using release.hyps by (simp add: release_begin_def holding_def split: if_splits)
  have only: "owns s d l \<longleftrightarrow> d = c" for d
    using own_invD(3) [OF release.prems(1)] h by (metis owns_def)
  have "owns (s\<lparr>locks := (locks s)(l := lk), pcof := (pcof s)(c := Releasing l)\<rparr>) d k = owns s d k" for d k
    using only [of d] release.hyps h unfolding owns_def
    by (cases "k = l"; cases "d = c") (auto simp: release_begin_def split: if_splits)
  then have "owned (s\<lparr>locks := (locks s)(l := lk), pcof := (pcof s)(c := Releasing l)\<rparr>) d = owned s d" for d
    by (simp add: owned_def)
  then show ?case
    using release.hyps cli_invD [OF release.prems(2), of c]
    by (intro cli_invI [OF release.prems(2), of c]) (auto simp: pending_def)
next
  case (free s c l)
  have only: "owns s d l \<longleftrightarrow> d = c" for d
    using own_invD(3) [OF free.prems(1)] free.hyps by (metis owns_def)
  have "lock_cpu (locks s l) \<noteq> Some c"
    using own_invD(4) [OF free.prems(1)] free.hyps by metis
  then have eq: "owned (s\<lparr>locks := (locks s)(l := snd (xchg (locks s l) 0)),
      pcof := (pcof s)(c := Released)\<rparr>) d = (if d = c then owned s c - {l} else owned s d)" for d
    using only free.hyps by (auto simp: owned_def owns_def xchg_def split: if_splits)
  have "l \<in> owned s c"
    using only by (simp add: owned_def)
  then have "card (owned s c) = card (owned s c - {l}) + 1"
    using cli_invD(1) [OF free.prems(2), of c] by (metis Suc_eq_plus1 card_Suc_Diff1)
  then have n: "ncli (cpus s c) = int (card (owned s c - {l}) + 1)"
    using cli_invD(2) [OF free.prems(2), of c] free.hyps by (simp add: pending_def)
  show ?case
    using cli_invD(1,3) [OF free.prems(2), of c]
    by (intro cli_invI [OF free.prems(2), of c]) (simp_all add: eq n pending_def)
next
  case (pop s c cp)
  have "owned (s\<lparr>cpus := (cpus s)(c := cp), pcof := (pcof s)(c := Outside)\<rparr>) d = owned s d" for d
    using pop.hyps by (auto simp: owned_def owns_def)
  then show ?case
    using pop.hyps cli_invD [OF pop.prems(2), of c]
    by (intro cli_invI [OF pop.prems(2), of c])
      (auto simp: popcli_def Let_def pending_def split: if_splits)
next
  case (set_interrupts s c b)
  have "owned (s\<lparr>cpus := (cpus s)(c := (cpus s c)\<lparr>eflags_if := b\<rparr>)\<rparr>) d = owned s d" for d
    by (simp add: owned_def owns_def)
  then show ?case
    using set_interrupts.hyps cli_invD [OF set_interrupts.prems(2), of c]
    by (intro cli_invI [OF set_interrupts.prems(2), of c]) auto
qed (simp_all add: cli_inv_def owned_def owns_def)

lemma boot_inv:
  assumes "boot s"
  shows "own_inv s \<and> cli_inv s"
proof -
  have "\<not> owns s c l" for c l
    using assms by (simp add: boot_def owns_def)
  then show ?thesis
    using assms by (simp add: own_inv_def cli_inv_def owned_def boot_def pending_def)
qed

lemma run_inv: "lock_run s t \<Longrightarrow> boot s \<Longrightarrow> own_inv t \<and> cli_inv t"
  by (induction rule: lock_run.induct) (use boot_inv own_inv_step cli_inv_step in blast)+

text \<open>Which panic a step can end in.\<close>

definition panic_cause :: "machine \<Rightarrow> bool" where
  "panic_cause s \<longleftrightarrow> (\<forall>c l e. panicked s = Some (c, l, e) \<longrightarrow>
     e = Panic_acquire \<and> owns s c l \<or> e = Panic_release \<and> \<not> owns s c l)"

lemma panic_cause_step:
  assumes "lock_step s t" "own_inv s" "cli_inv s" "panic_cause s"
  shows "panic_cause t"
  using assms
proof (induction rule: lock_step.induct)
  case (release_panic s c l e)
  then have "e = Panic_release" "\<not> owns s c l"
    using own_invD(2) [OF release_panic.prems(1), of c l]
    by (auto simp: release_begin_def holding_def owns_def split: if_splits)
  then show ?case
    by (simp add: panic_cause_def owns_def)
next
  case (pop_panic s c e l)
  then show ?case
    using cli_invD [OF pop_panic.prems(2), of c]
    by (simp add: popcli_def Let_def pending_def split: if_splits)
qed (auto simp: panic_cause_def acquire_enter_def holding_def owns_def Let_def split: if_splits)

lemma run_panic_cause: "lock_run s t \<Longrightarrow> boot s \<Longrightarrow> panic_cause t"
proof (induction rule: lock_run.induct)
  case start
  then show ?case by (simp add: boot_def panic_cause_def)
next
  case (step t u)
  then show ?case using panic_cause_step run_inv by blast
qed

section \<open>Properties\<close>

text \<open>The machine at boot, interrupts on, for the examples.\<close>

definition idle_machine :: machine where
  "idle_machine = \<lparr>cpus = (\<lambda>_. \<lparr>ncli = 0, intena = False, eflags_if = True\<rparr>),
     locks = (\<lambda>_. initlock (replicate 10 0) ''lock''), pcof = (\<lambda>_. Outside), panicked = None\<rparr>"

lemma boot_idle: "boot idle_machine"
  by (simp add: boot_def idle_machine_def initlock_def)

text \<open>
  C33: Mutual exclusion: however the CPUs interleave and whatever locks they ask for or give back,
  a lock has at most one owner, from the exchange that took it to the exchange that frees it; a
  CPU that owns a lock runs with interrupts off; and the word \<open>locked\<close> is set exactly while
  somebody owns the lock.
\<close>
theorem spinlock_mutual_exclusion:
  assumes "boot s" "lock_run s t"
  shows "(owns t c l \<and> owns t c' l \<longrightarrow> c = c') \<and> (owns t c l \<longrightarrow> \<not> eflags_if (cpus t c)) \<and>
    (locked (locks t l) \<noteq> 0 \<longleftrightarrow> (\<exists>c. owns t c l))"
proof -
  have inv: "own_inv t" "cli_inv t"
    using run_inv [OF assms(2,1)] by auto
  have "0 < ncli (cpus t c)" if "owns t c l"
  proof -
    have "card (owned t c) > 0"
      using that cli_invD(1) [OF inv(2), of c] by (auto simp: owned_def card_gt_0_iff)
    then show ?thesis
      using cli_invD(2) [OF inv(2), of c] by simp
  qed
  then have "owns t c l \<longrightarrow> \<not> eflags_if (cpus t c)"
    using cli_invD(3) [OF inv(2)] by blast
  then show ?thesis
    using inv(1) unfolding own_inv_def by blast
qed

theorem spinlock_mutual_exclusion_witness:
  "\<exists>t. lock_run idle_machine t \<and> owns t 0 7 \<and> locked (locks t 7) \<noteq> 0 \<and> \<not> eflags_if (cpus t 0)"
proof -
  let ?cp = "\<lparr>ncli = 1, intena = True, eflags_if = False\<rparr>"
  let ?a = "idle_machine\<lparr>cpus := (cpus idle_machine)(0 := ?cp),
    pcof := (pcof idle_machine)(0 := Spinning 7)\<rparr>"
  let ?b = "?a\<lparr>locks := (locks ?a)(7 := (locks ?a 7)\<lparr>locked := 1\<rparr>), pcof := (pcof ?a)(0 := Acquired 7)\<rparr>"
  have "lock_step idle_machine ?a"
    by (rule lock_step.enter) (simp_all add: idle_machine_def acquire_enter_def pushcli_def
      holding_def initlock_def)
  moreover have "lock_step ?a ?b"
    using lock_step.spin [of ?a 0 7 0 "(locks ?a 7)\<lparr>locked := 1\<rparr>"]
    by (simp add: idle_machine_def xchg_def initlock_def)
  ultimately have run: "lock_run idle_machine ?b"
    by (blast intro: lock_run.intros)
  have own: "owns ?b 0 7"
    by (simp add: owns_def)
  show ?thesis
    using spinlock_mutual_exclusion [OF boot_idle run] run own by blast
qed

text \<open>
  The panics of the lock code are exact: a CPU panics with "acquire" only for a lock it owns,
  with "release" only for one it does not own, and the two panics of \<open>popcli\<close> never happen,
  since \<open>ncli\<close> counts the locks the CPU owns.
\<close>
theorem spinlock_panics_exact:
  assumes "boot s" "lock_run s t" "panicked t = Some (c, l, e)"
  shows "e = Panic_acquire \<and> owns t c l \<or> e = Panic_release \<and> \<not> owns t c l"
  using run_panic_cause [OF assms(2,1)] assms(3) by (simp add: panic_cause_def)

theorem spinlock_panics_exact_witness:
  "\<exists>t. lock_run idle_machine t \<and> panicked t = Some (3, 5, Panic_release) \<and> \<not> owns t 3 5"
proof -
  let ?t = "idle_machine\<lparr>panicked := Some (3, 5, Panic_release)\<rparr>"
  have "lock_step idle_machine ?t"
    by (rule lock_step.release_panic)
      (simp_all add: idle_machine_def release_begin_def holding_def initlock_def)
  then have run: "lock_run idle_machine ?t"
    by (blast intro: lock_run.intros)
  then show ?thesis
    using spinlock_panics_exact [OF boot_idle run, of 3 5 Panic_release] by (intro exI [of _ ?t]) simp
qed

end
