(* ===== verification/Kalloc.thy ===== *)
theory Kalloc
  imports CStrings
begin

text \<open>
  The physical page allocator \<open>kernel/kalloc.c\<close>: a list of free pages threaded through the first
  word of the pages themselves, over the byte memory of \<open>CStrings\<close>. The allocator's lock makes
  each operation atomic. \<open>kend\<close> is the linker symbol \<open>end\<close>, the first address after the kernel.
\<close>

section \<open>Words in memory\<close>

definition load32 :: "memory \<Rightarrow> nat \<Rightarrow> nat" where
  "load32 m a = unat (m a) + 256 * unat (m (a + 1)) + 65536 * unat (m (a + 2)) + 16777216 * unat (m (a + 3))"

definition store32 :: "memory \<Rightarrow> nat \<Rightarrow> nat \<Rightarrow> memory" where
  "store32 m a v = m(a := of_nat v, a + 1 := of_nat (v div 256), a + 2 := of_nat (v div 65536),
     a + 3 := of_nat (v div 16777216))"

lemma load32_store32:
  assumes v: "v < 4294967296"
  shows "load32 (store32 m a v) a = v"
proof -
  have "load32 (store32 m a v) a = v mod 256 + 256 * (v div 256 mod 256) +
      65536 * (v div 65536 mod 256) + 16777216 * (v div 16777216 mod 256)"
    by (simp add: load32_def store32_def unat_of_nat)
  also have "v div 16777216 mod 256 = v div 16777216"
    using v by simp
  also have "v mod 256 + 256 * (v div 256 mod 256) + 65536 * (v div 65536 mod 256) +
      16777216 * (v div 16777216) = v"
    by (rule nat_bytes4)
  finally show ?thesis .
qed

lemma store32_other: "b < a \<or> a + 4 \<le> b \<Longrightarrow> store32 m a v b = m b"
  unfolding store32_def by auto

lemma load32_cong:
  assumes "\<And>i. i < 4 \<Longrightarrow> m (a + i) = m' (a + i)"
  shows "load32 m a = load32 m' a"
  using assms [of 0] assms [of 1] assms [of 2] assms [of 3] by (simp add: load32_def)

section \<open>Operations\<close>

definition PGSIZE :: nat where "PGSIZE = 4096"
definition PHYSTOP :: nat where "PHYSTOP = 0x1000000"

definition PGROUNDUP :: "nat \<Rightarrow> nat" where
  "PGROUNDUP sz = ((sz + PGSIZE - 1) mod 2 ^ 32) div PGSIZE * PGSIZE"

record kmem =
  freelist :: nat
  phys :: memory

definition kfree :: "nat \<Rightarrow> kmem \<Rightarrow> nat \<Rightarrow> kmem option" where
  "kfree kend k v =
     (if v mod PGSIZE \<noteq> 0 \<or> v < kend \<or> v \<ge> PHYSTOP then None
      else let m = memset (phys k) v 1 PGSIZE
           in Some (k\<lparr>phys := store32 m v (freelist k), freelist := v\<rparr>))"

definition kalloc :: "kmem \<Rightarrow> nat \<times> kmem" where
  "kalloc k = (let r = freelist k in
     (r, if r \<noteq> 0 then k\<lparr>freelist := load32 (phys k) r\<rparr> else k))"

function kinit_loop :: "nat \<Rightarrow> kmem \<Rightarrow> nat \<Rightarrow> kmem option" where
  "kinit_loop kend k p =
     (if p + PGSIZE \<le> PHYSTOP then do { k' \<leftarrow> kfree kend k p; kinit_loop kend k' (p + PGSIZE) }
      else Some k)"
  by auto
termination by (relation "measure (\<lambda>(kend, k, p). PHYSTOP - p)") (auto simp: PGSIZE_def)

definition kinit :: "nat \<Rightarrow> kmem \<Rightarrow> kmem option" where
  "kinit kend k = kinit_loop kend k (PGROUNDUP kend)"

declare kinit_loop.simps [simp del]

section \<open>The free list\<close>

text \<open>The pages reached from an address through the first words of the pages.\<close>

fun run_list :: "memory \<Rightarrow> nat \<Rightarrow> nat list \<Rightarrow> bool" where
  "run_list m p [] \<longleftrightarrow> p = 0"
| "run_list m p (q # qs) \<longleftrightarrow> p = q \<and> p \<noteq> 0 \<and> run_list m (load32 m p) qs"

definition page :: "nat \<Rightarrow> nat \<Rightarrow> bool" where
  "page kend v \<longleftrightarrow> v mod PGSIZE = 0 \<and> kend \<le> v \<and> v < PHYSTOP \<and> v \<noteq> 0"

definition kmem_inv :: "nat \<Rightarrow> kmem \<Rightarrow> nat list \<Rightarrow> bool" where
  "kmem_inv kend k ps \<longleftrightarrow>
     run_list (phys k) (freelist k) ps \<and> distinct ps \<and> (\<forall>p\<in>set ps. page kend p)"


lemma run_list_unique: "run_list m p ps \<Longrightarrow> run_list m p qs \<Longrightarrow> ps = qs"
proof (induction ps arbitrary: p qs)
  case (Cons q ps)
  then show ?case by (cases qs) auto
next
  case Nil
  then show ?case by (cases qs) auto
qed

lemma run_list_cong:
  "(\<And>q i. q \<in> set ps \<Longrightarrow> i < 4 \<Longrightarrow> m (q + i) = m' (q + i)) \<Longrightarrow> run_list m p ps = run_list m' p ps"
proof (induction ps arbitrary: p)
  case (Cons q ps)
  then have "load32 m q = load32 m' q"
    by (intro load32_cong) auto
  with Cons show ?case by auto
qed simp

text \<open>Two different pages have no byte in common.\<close>

lemma page_disjoint:
  assumes "page kend p" "page kend q" "p \<noteq> q" "i < PGSIZE" "j < PGSIZE"
  shows "p + i \<noteq> q + j"
proof
  assume "p + i = q + j"
  then have "(p + i) div PGSIZE = (q + j) div PGSIZE" by simp
  moreover have "(p + i) div PGSIZE = p div PGSIZE" "(q + j) div PGSIZE = q div PGSIZE"
    using assms by (auto simp: page_def div_add1_eq)
  ultimately have "p div PGSIZE * PGSIZE = q div PGSIZE * PGSIZE" by simp
  then show False
    using assms by (auto simp: page_def mod_eq_0_iff_dvd)
qed

lemma page_outside:
  assumes "page kend p" "page kend q" "p \<noteq> q" "i < 4"
  shows "q + i < p \<or> p + PGSIZE \<le> q + i"
proof (rule ccontr)
  assume "\<not> ?thesis"
  then have "q + i = p + (q + i - p)" "q + i - p < PGSIZE" by auto
  then show False
    using page_disjoint [OF assms(2,1), of i "q + i - p"] assms by (auto simp: PGSIZE_def)
qed

lemma kfree_spec:
  assumes inv: "kmem_inv kend k ps" and v: "page kend v" "v \<notin> set ps"
  shows "\<exists>k'. kfree kend k v = Some k' \<and> kmem_inv kend k' (v # ps) \<and>
    (\<forall>a. a \<notin> {v..<v + PGSIZE} \<longrightarrow> phys k' a = phys k a)"
proof -
  let ?m = "store32 (memset (phys k) v 1 PGSIZE) v (freelist k)"
  have out: "?m a = phys k a" if "a < v \<or> v + PGSIZE \<le> a" for a
    using that by (subst store32_other) (auto simp: memset_apply PGSIZE_def)
  have "freelist k < 4294967296"
    using inv by (cases ps) (auto simp: kmem_inv_def page_def PHYSTOP_def)
  then have "load32 ?m v = freelist k"
    by (rule load32_store32)
  moreover have "run_list ?m (freelist k) ps = run_list (phys k) (freelist k) ps"
    using inv v page_outside out by (intro run_list_cong) (metis kmem_inv_def)
  moreover have "kfree kend k v = Some (k\<lparr>phys := ?m, freelist := v\<rparr>)"
    using v(1) by (simp add: kfree_def page_def)
  ultimately show ?thesis
    using inv v out by (auto simp: kmem_inv_def page_def)
qed

lemma kalloc_spec:
  assumes "kmem_inv kend k ps"
  shows "case ps of [] \<Rightarrow> kalloc k = (0, k)
    | p # qs \<Rightarrow> \<exists>k'. kalloc k = (p, k') \<and> kmem_inv kend k' qs \<and> phys k' = phys k"
  using assms by (cases ps) (auto simp: kmem_inv_def kalloc_def Let_def)

section \<open>Initialisation\<close>

definition free_pages :: "nat \<Rightarrow> nat \<Rightarrow> nat set" where
  "free_pages kend p = {q. page kend q \<and> p \<le> q}"

lemma kinit_loop_spec:
  assumes "kmem_inv kend k ps" "p mod PGSIZE = 0" "kend \<le> p" "0 < p" "\<forall>q\<in>set ps. q < p"
  shows "\<exists>k' qs. kinit_loop kend k p = Some k' \<and> kmem_inv kend k' qs \<and>
    set qs = set ps \<union> free_pages kend p"
  using assms
proof (induction kend k p arbitrary: ps rule: kinit_loop.induct)
  case (1 kend k p)
  have dv: "PGSIZE dvd p" "PGSIZE dvd PHYSTOP"
    using "1.prems"(2) by (auto simp: PGSIZE_def PHYSTOP_def)
  have later: "q \<ge> p + PGSIZE" if "page kend q" "p < q" for q
  proof -
    have "PGSIZE dvd q - p"
      using that dv by (auto simp: page_def mod_eq_0_iff_dvd)
    then show ?thesis
      using that by (auto dest: dvd_imp_le)
  qed
  show ?case
  proof (cases "p + PGSIZE \<le> PHYSTOP")
    case True
    then have pg: "page kend p" "p \<notin> set ps"
      using "1.prems" by (auto simp: page_def PGSIZE_def)
    then obtain k1 where k1: "kfree kend k p = Some k1" "kmem_inv kend k1 (p # ps)"
      using kfree_spec "1.prems"(1) by blast
    have "\<exists>k' qs. kinit_loop kend k1 (p + PGSIZE) = Some k' \<and> kmem_inv kend k' qs \<and>
        set qs = set (p # ps) \<union> free_pages kend (p + PGSIZE)"
      using True k1 "1.prems" by (intro "1.IH") (auto simp: PGSIZE_def)
    moreover have "free_pages kend p = insert p (free_pages kend (p + PGSIZE))"
      using pg later by (auto simp: free_pages_def le_less)
    ultimately show ?thesis
      using True k1 by (simp add: kinit_loop.simps [of kend k p])
  next
    case False
    have "PHYSTOP \<le> p"
    proof (rule ccontr)
      assume "\<not> PHYSTOP \<le> p"
      then have "PGSIZE \<le> PHYSTOP - p"
        using dv by (intro dvd_imp_le dvd_diff_nat) auto
      then show False using False \<open>\<not> PHYSTOP \<le> p\<close> by simp
    qed
    then have "free_pages kend p = {}"
      by (auto simp: free_pages_def page_def)
    then show ?thesis
      using False "1.prems"(1) by (auto simp: kinit_loop.simps [of kend k p])
  qed
qed

lemma PGROUNDUP_props:
  assumes "0 < a" "a \<le> PHYSTOP"
  shows "PGROUNDUP a mod PGSIZE = 0" "a \<le> PGROUNDUP a" "0 < PGROUNDUP a" "PGROUNDUP a < a + PGSIZE"
proof -
  have eq: "PGROUNDUP a = (a + PGSIZE - 1) div PGSIZE * PGSIZE"
    using assms by (simp add: PGROUNDUP_def PGSIZE_def PHYSTOP_def)
  show "PGROUNDUP a mod PGSIZE = 0" unfolding eq by simp
  have "(a + PGSIZE - 1) div PGSIZE * PGSIZE + (a + PGSIZE - 1) mod PGSIZE = a + PGSIZE - 1"
    by simp
  moreover have "(a + PGSIZE - 1) mod PGSIZE < PGSIZE"
    by (simp add: PGSIZE_def)
  ultimately show "a \<le> PGROUNDUP a" "PGROUNDUP a < a + PGSIZE"
    using assms unfolding eq by linarith+
  then show "0 < PGROUNDUP a" using assms by simp
qed

lemma pages_from_PGROUNDUP:
  assumes "0 < kend" "kend \<le> PHYSTOP"
  shows "free_pages kend (PGROUNDUP kend) = {q. page kend q}"
proof -
  have "PGROUNDUP kend \<le> q" if "page kend q" for q
  proof (rule ccontr)
    assume "\<not> PGROUNDUP kend \<le> q"
    moreover have "PGSIZE dvd PGROUNDUP kend - q"
      using that PGROUNDUP_props(1) [OF assms] by (auto simp: page_def mod_eq_0_iff_dvd)
    ultimately have "PGSIZE \<le> PGROUNDUP kend - q"
      by (intro dvd_imp_le) auto
    then show False
      using PGROUNDUP_props(4) [OF assms] that by (auto simp: page_def PGSIZE_def)
  qed
  then show ?thesis by (auto simp: free_pages_def)
qed

section \<open>What the allocator promises\<close>

text \<open>A client allocates, gives back pages it holds, and writes bytes into pages it holds.\<close>

datatype page_op = Alloc | Free nat | Write nat u8

fun page_client :: "('s \<Rightarrow> nat \<times> 's) \<Rightarrow> ('s \<Rightarrow> nat \<Rightarrow> 's option) \<Rightarrow> ('s \<Rightarrow> nat \<Rightarrow> u8 \<Rightarrow> 's) \<Rightarrow>
    page_op list \<Rightarrow> 's \<Rightarrow> nat set \<Rightarrow> ('s \<times> nat set) option" where
  "page_client al fr wr [] s held = Some (s, held)"
| "page_client al fr wr (Alloc # ops) s held =
     (case al s of (p, s') \<Rightarrow> page_client al fr wr ops s' (if p = 0 then held else insert p held))"
| "page_client al fr wr (Free p # ops) s held =
     (if p \<in> held then do { s' \<leftarrow> fr s p; page_client al fr wr ops s' (held - {p}) }
      else page_client al fr wr ops s held)"
| "page_client al fr wr (Write a b # ops) s held =
     (if a div PGSIZE * PGSIZE \<in> held then page_client al fr wr ops (wr s a b) held
      else page_client al fr wr ops s held)"

locale page_allocator =
  fixes alloc :: "'s \<Rightarrow> nat \<times> 's"
    and free :: "'s \<Rightarrow> nat \<Rightarrow> 's option"
    and poke :: "'s \<Rightarrow> nat \<Rightarrow> u8 \<Rightarrow> 's"
    and ok :: "'s \<Rightarrow> bool"
    and pool :: "'s \<Rightarrow> nat set"
    and valid :: "nat \<Rightarrow> bool"
  assumes alloc_some: "ok s \<Longrightarrow> pool s \<noteq> {} \<Longrightarrow> alloc s = (p, s') \<Longrightarrow>
      p \<in> pool s \<and> pool s' = pool s - {p} \<and> ok s'"
    and alloc_none: "ok s \<Longrightarrow> pool s = {} \<Longrightarrow> alloc s = (0, s)"
    and free_ok: "ok s \<Longrightarrow> valid p \<Longrightarrow> p \<notin> pool s \<Longrightarrow>
      \<exists>s'. free s p = Some s' \<and> ok s' \<and> pool s' = insert p (pool s)"
    and write_ok: "ok s \<Longrightarrow> valid p \<Longrightarrow> p \<notin> pool s \<Longrightarrow> p \<le> a \<Longrightarrow> a < p + PGSIZE \<Longrightarrow>
      ok (poke s a b) \<and> pool (poke s a b) = pool s"
    and pool_valid: "ok s \<Longrightarrow> p \<in> pool s \<Longrightarrow> valid p \<and> p \<noteq> 0"
begin

definition separated :: "'s \<Rightarrow> nat set \<Rightarrow> bool" where
  "separated s held \<longleftrightarrow> ok s \<and> held \<inter> pool s = {} \<and> (\<forall>p\<in>held. valid p)"

lemma client_separated:
  "separated s held \<Longrightarrow> \<exists>s' held'. page_client alloc free poke ops s held = Some (s', held') \<and> separated s' held' \<and>
     held' \<union> pool s' = held \<union> pool s"
proof (induction ops arbitrary: s held)
  case (Cons opn ops)
  note sep = Cons.prems [unfolded separated_def]
  show ?case
  proof (cases opn)
    case Alloc
    obtain p s1 where al: "alloc s = (p, s1)" by fastforce
    show ?thesis
    proof (cases "pool s = {}")
      case True
      then have "p = 0" "s1 = s" using alloc_none sep al by auto
      then show ?thesis using Cons Alloc al by simp
    next
      case False
      then have p: "p \<in> pool s" "pool s1 = pool s - {p}" "ok s1"
        using alloc_some [OF _ _ al] sep by simp_all
      then have v: "p \<noteq> 0" "valid p"
        using pool_valid [of s p] sep by simp_all
      with p have "separated s1 (insert p held)" using sep by (auto simp: separated_def)
      with Cons.IH [OF this] p v show ?thesis using Alloc al by auto
    qed
  next
    case (Free p)
    show ?thesis
    proof (cases "p \<in> held")
      case True
      then obtain s1 where s1: "free s p = Some s1" "ok s1" "pool s1 = insert p (pool s)"
        using free_ok sep by blast
      then have "separated s1 (held - {p})" using sep by (auto simp: separated_def)
      with Cons.IH [OF this] True s1 show ?thesis using Free by auto
    qed (use Cons Free in simp)
  next
    case (Write a b)
    let ?p = "a div PGSIZE * PGSIZE"
    show ?thesis
    proof (cases "?p \<in> held")
      case True
      have "?p \<le> a" "a < ?p + PGSIZE"
        using div_mult_mod_eq [of a PGSIZE] mod_less_divisor [of PGSIZE a] by (simp_all add: PGSIZE_def)
      then have w: "ok (poke s a b)" "pool (poke s a b) = pool s"
        using write_ok [of s ?p a b] True sep by auto
      then have "separated (poke s a b) held" using sep by (simp add: separated_def)
      with Cons.IH [OF this] w True show ?thesis using Write by simp
    qed (use Cons Write in simp)
  qed
qed simp

end

definition kpool :: "nat \<Rightarrow> kmem \<Rightarrow> nat set" where
  "kpool kend k = {p. \<exists>ps. kmem_inv kend k ps \<and> p \<in> set ps}"

definition kpoke :: "kmem \<Rightarrow> nat \<Rightarrow> u8 \<Rightarrow> kmem" where
  "kpoke k a b = k\<lparr>phys := (phys k)(a := b)\<rparr>"

lemma kpool_eq: "kmem_inv kend k ps \<Longrightarrow> kpool kend k = set ps"
  unfolding kpool_def kmem_inv_def using run_list_unique by blast

lemma kpoke_inv:
  assumes "kmem_inv kend k ps" "page kend p" "p \<notin> set ps" "p \<le> a" "a < p + PGSIZE"
  shows "kmem_inv kend (kpoke k a b) ps"
proof -
  have "run_list ((phys k)(a := b)) (freelist k) ps = run_list (phys k) (freelist k) ps"
  proof (rule run_list_cong)
    fix q and i :: nat
    assume "q \<in> set ps" "i < 4"
    then have "q + i < p \<or> p + PGSIZE \<le> q + i"
      using assms by (intro page_outside) (auto simp: kmem_inv_def)
    then show "((phys k)(a := b)) (q + i) = phys k (q + i)"
      using assms by auto
  qed
  then show ?thesis using assms by (simp add: kmem_inv_def kpoke_def)
qed

interpretation ka: page_allocator kalloc "kfree kend" kpoke "\<lambda>k. \<exists>ps. kmem_inv kend k ps" "kpool kend" "page kend"
  for kend
proof
  fix k k' p
  assume "\<exists>ps. kmem_inv kend k ps" "kpool kend k \<noteq> {}" "kalloc k = (p, k')"
  then obtain ps where ps: "kmem_inv kend k ps" "ps \<noteq> []" by (metis kpool_eq set_empty)
  then obtain qs where "ps = p # qs" "kmem_inv kend k' qs"
    using kalloc_spec [OF ps(1)] \<open>kalloc k = (p, k')\<close> by (cases ps) auto
  then show "p \<in> kpool kend k \<and> kpool kend k' = kpool kend k - {p} \<and> (\<exists>ps. kmem_inv kend k' ps)"
    using kpool_eq [OF ps(1)] kpool_eq [of kend k' qs] ps(1) by (auto simp: kmem_inv_def)
next
  fix k
  assume "\<exists>ps. kmem_inv kend k ps" "kpool kend k = {}"
  then have "kmem_inv kend k []" by (metis kpool_eq set_empty)
  from kalloc_spec [OF this] show "kalloc k = (0, k)" by simp
next
  fix k p
  assume "\<exists>ps. kmem_inv kend k ps" "page kend p" "p \<notin> kpool kend k"
  then obtain ps where ps: "kmem_inv kend k ps" "p \<notin> set ps" using kpool_eq by blast
  from kfree_spec [OF ps(1) \<open>page kend p\<close> ps(2)]
  obtain k' where k': "kfree kend k p = Some k'" "kmem_inv kend k' (p # ps)" by blast
  then show "\<exists>k'. kfree kend k p = Some k' \<and> (\<exists>ps. kmem_inv kend k' ps) \<and>
      kpool kend k' = insert p (kpool kend k)"
    using kpool_eq [OF ps(1)] kpool_eq [OF k'(2)] by auto
next
  fix k p a and b :: u8
  assume "\<exists>ps. kmem_inv kend k ps" "page kend p" "p \<notin> kpool kend k" "p \<le> a" "a < p + PGSIZE"
  then obtain ps where ps: "kmem_inv kend k ps" "p \<notin> set ps" using kpool_eq by blast
  then have "kmem_inv kend (kpoke k a b) ps"
    using kpoke_inv \<open>page kend p\<close> \<open>p \<le> a\<close> \<open>a < p + PGSIZE\<close> by blast
  then show "(\<exists>ps. kmem_inv kend (kpoke k a b) ps) \<and> kpool kend (kpoke k a b) = kpool kend k"
    using kpool_eq ps(1) by blast
next
  fix k p
  assume "\<exists>ps. kmem_inv kend k ps" "p \<in> kpool kend k"
  then show "page kend p \<and> p \<noteq> 0" by (auto simp: kpool_def kmem_inv_def page_def)
qed

section \<open>Properties\<close>

text \<open>
  C36: \<open>kinit\<close> succeeds for a kernel that ends below \<open>PHYSTOP\<close> and puts every whole page from
  there to \<open>PHYSTOP\<close> on the free list, once; from then on no sequence of \<open>kalloc\<close>, \<open>kfree\<close> of held
  pages and writes into held pages panics, hands out a page that is still held, or loses a page:
  the pages held and the pages on the free list are always a partition of those of \<open>kinit\<close>.
\<close>
theorem kalloc_partitions_memory:
  assumes "0 < kend" "kend \<le> PHYSTOP" "freelist k = 0"
  shows "\<exists>k0. kinit kend k = Some k0 \<and> kpool kend k0 = {p. page kend p} \<and>
    (\<exists>k' held. page_client kalloc (kfree kend) kpoke ops k0 {} = Some (k', held) \<and> held \<inter> kpool kend k' = {} \<and>
       held \<union> kpool kend k' = {p. page kend p})"
proof -
  have "kmem_inv kend k []" using assms(3) by (simp add: kmem_inv_def)
  from kinit_loop_spec [OF this PGROUNDUP_props(1-3) [OF assms(1,2)]]
  obtain k0 qs where k0: "kinit kend k = Some k0" "kmem_inv kend k0 qs"
      "set qs = free_pages kend (PGROUNDUP kend)"
    by (auto simp: kinit_def)
  then have pool: "kpool kend k0 = {p. page kend p}"
    using kpool_eq pages_from_PGROUNDUP [OF assms(1,2)] by metis
  have "ka.separated kend k0 {}"
    using k0(2) by (auto simp: ka.separated_def)
  from ka.client_separated [OF this, of ops] show ?thesis
    using k0(1) pool by (auto simp: ka.separated_def)
qed

theorem kalloc_partitions_memory_witness:
  "\<exists>k0 k' held. kinit 0xFFD123 \<lparr>freelist = 0, phys = \<lambda>_. 7\<rparr> = Some k0 \<and>
    page_client kalloc (kfree 0xFFD123) kpoke [Alloc, Alloc, Alloc, Write 0xFFF002 9, Free 0xFFE000] k0 {} =
      Some (k', held) \<and> held \<union> kpool 0xFFD123 k' = {0xFFE000, 0xFFF000}"
proof -
  have pages: "{p. page 0xFFD123 p} = {0xFFE000, 0xFFF000}"
  proof -
    have "p = 0xFFE000 \<or> p = 0xFFF000" if "p mod 4096 = 0" "0xFFD123 \<le> p" "p < 0x1000000" for p :: nat
    proof -
      obtain q where q: "p = 4096 * q" using \<open>p mod 4096 = 0\<close> by (auto simp: mod_eq_0_iff_dvd elim: dvdE)
      then have "q = 4094 \<or> q = 4095" using that(2,3) by simp linarith
      then show ?thesis using q by auto
    qed
    then show ?thesis
      by (auto simp: page_def PGSIZE_def PHYSTOP_def)
  qed
  have "(0::nat) < 0xFFD123" "0xFFD123 \<le> PHYSTOP" "freelist \<lparr>freelist = 0, phys = \<lambda>_. 7\<rparr> = 0"
    by (simp_all add: PHYSTOP_def)
  from kalloc_partitions_memory [OF this] show ?thesis
    unfolding pages by blast
qed

end
