(* ===== verification/Ide.thy ===== *)
theory Ide
  imports Prelude
begin

text \<open>
  The disk driver \<open>kernel/ide.c\<close>: requests wait in a queue linked through the buffers, the
  controller works on the head, and the interrupt handler completes it and starts the next.
  Buffers are numbered, \<open>0\<close> is the null pointer. The controller is the machine's: it is described
  by its command registers and the blocks of its two drives; a block is written when the data is
  sent (\<open>outsl\<close>) and read when it is fetched (\<open>insl\<close>). Polling for readiness (\<open>idewait(0)\<close>) has no
  effect of its own; the error status \<open>idewait(1)\<close> reports is an argument of the handler.
\<close>

section \<open>Data\<close>

record buf =
  flags :: u32
  dev :: u32
  sector :: u32
  prev :: nat
  nxt :: nat
  qnext :: nat
  data :: "u8 list"

definition B_BUSY :: u32 where "B_BUSY = 1"
definition B_VALID :: u32 where "B_VALID = 2"
definition B_DIRTY :: u32 where "B_DIRTY = 4"

text \<open>The command registers: ports \<open>0x1f3\<close> to \<open>0x1f6\<close>.\<close>

record ide_regs =
  lba0 :: u8
  lba1 :: u8
  lba2 :: u8
  drive :: u8

record ide_state =
  bufs :: "nat \<Rightarrow> buf"
  idequeue :: nat
  havedisk1 :: bool
  regs :: ide_regs
  blocks :: "nat \<Rightarrow> nat \<Rightarrow> u8 list"

section \<open>Operations\<close>

definition reg_drive :: "ide_regs \<Rightarrow> nat" where
  "reg_drive r = unat (drop_bit 4 (drive r) AND 1)"

definition reg_lba :: "ide_regs \<Rightarrow> nat" where
  "reg_lba r = unat (lba0 r) + 256 * unat (lba1 r) + 65536 * unat (lba2 r) +
     16777216 * unat (drive r AND 0x0f)"

definition set_regs :: "buf \<Rightarrow> ide_regs" where
  "set_regs b = \<lparr>lba0 = ucast (sector b AND 0xff), lba1 = ucast (drop_bit 8 (sector b) AND 0xff),
     lba2 = ucast (drop_bit 16 (sector b) AND 0xff),
     drive = ucast (0xe0 OR push_bit 4 (dev b AND 1) OR (drop_bit 24 (sector b) AND 0x0f))\<rparr>"

definition idestart :: "ide_state \<Rightarrow> nat \<Rightarrow> ide_state option" where
  "idestart s b =
     (if b = 0 then None
      else let bb = bufs s b; r = set_regs bb; s1 = s\<lparr>regs := r\<rparr> in
        if flags bb AND B_DIRTY \<noteq> 0
        then Some (s1\<lparr>blocks := (blocks s)(reg_drive r := (blocks s (reg_drive r))(reg_lba r := data bb))\<rparr>)
        else Some s1)"

text \<open>The interrupt handler; the result carries the buffer whose sleepers it wakes.\<close>

definition ideintr :: "bool \<Rightarrow> ide_state \<Rightarrow> (nat option \<times> ide_state) option" where
  "ideintr ready s =
     (let b = idequeue s in
      if b = 0 then Some (None, s)
      else let s1 = s\<lparr>idequeue := qnext (bufs s b)\<rparr>;
               bb = bufs s b;
               bb1 = (if flags bb AND B_DIRTY = 0 \<and> ready
                      then bb\<lparr>data := blocks s (reg_drive (regs s)) (reg_lba (regs s))\<rparr> else bb);
               bb2 = bb1\<lparr>flags := (flags bb1 OR B_VALID) AND NOT B_DIRTY\<rparr>;
               s2 = s1\<lparr>bufs := (bufs s1)(b := bb2)\<rparr>
           in if idequeue s2 \<noteq> 0
              then do { s3 \<leftarrow> idestart s2 (idequeue s2); Some (Some b, s3) }
              else Some (Some b, s2))"

text \<open>The walk to the end of the queue, from a queue element; a cyclic queue would never end.\<close>

partial_function (option) queue_end :: "(nat \<Rightarrow> buf) \<Rightarrow> nat \<Rightarrow> nat option" where
  [code]: "queue_end B p = (if qnext (B p) = 0 then Some p else queue_end B (qnext (B p)))"

text \<open>\<open>iderw\<close> up to its first test of the waiting loop.\<close>

definition iderw_submit :: "ide_state \<Rightarrow> nat \<Rightarrow> ide_state option" where
  "iderw_submit s b =
     (let bb = bufs s b in
      if flags bb AND B_BUSY = 0 then None
      else if flags bb AND (B_VALID OR B_DIRTY) = B_VALID then None
      else if dev bb \<noteq> 0 \<and> \<not> havedisk1 s then None
      else let s1 = s\<lparr>bufs := (bufs s)(b := bb\<lparr>qnext := 0\<rparr>)\<rparr> in
        if idequeue s1 = 0 then idestart (s1\<lparr>idequeue := b\<rparr>) b
        else do {
          e \<leftarrow> queue_end (bufs s1) (idequeue s1);
          let s2 = s1\<lparr>bufs := (bufs s1)(e := (bufs s1 e)\<lparr>qnext := b\<rparr>)\<rparr>;
          if idequeue s2 = b then idestart s2 b else Some s2 })"

definition iderw_waits :: "ide_state \<Rightarrow> nat \<Rightarrow> bool" where
  "iderw_waits s b \<longleftrightarrow> flags (bufs s b) AND (B_VALID OR B_DIRTY) \<noteq> B_VALID"

section \<open>The address sent to the controller\<close>

lemma drive_low_bits:
  "take_bit 4 (ucast (0xe0 OR push_bit 4 (d AND 1) OR take_bit 4 (y::u32)) :: u8) = ucast (take_bit 4 y)"
proof -
  have "take_bit 4 (ucast w :: u8) = ucast (take_bit 4 w)" for w :: u32
    by (rule bit_word_eqI) (auto simp: bit_simps)
  moreover have "take_bit 4 (0xe0 OR push_bit 4 (d AND 1) OR take_bit 4 y) = take_bit 4 y"
    by (simp add: take_bit_or take_bit_push_bit)
  ultimately show ?thesis by simp
qed

lemma reg_lba_set_regs:
  assumes "unat (sector b) < 2 ^ 28"
  shows "reg_lba (set_regs b) = unat (sector b)"
proof -
  let ?n = "unat (sector b)"
  have "unat (take_bit 4 (ucast (0xe0 OR push_bit 4 (dev b AND 1) OR take_bit 4 (drop_bit 24 (sector b))) :: u8)) =
      ?n div 16777216"
    unfolding drive_low_bits unat_low_byte unat_take_bit unat_drop_bit using assms by simp
  then have "reg_lba (set_regs b) = ?n mod 256 + 256 * (?n div 256 mod 256) +
      65536 * (?n div 65536 mod 256) + 16777216 * (?n div 16777216)"
    unfolding reg_lba_def set_regs_def and_ff and_0f ide_regs.simps unat_low_byte unat_take_bit unat_drop_bit
    by simp
  then show ?thesis by (simp only: nat_bytes4)
qed

lemma reg_drive_set_regs:
  assumes "dev b = 0 \<or> dev b = 1"
  shows "reg_drive (set_regs b) = unat (dev b)"
proof -
  have "drop_bit 4 (drive (set_regs b)) AND 1 = ucast (dev b)"
    by (rule bit_word_eqI) (use assms in \<open>auto simp: set_regs_def and_0f bit_simps\<close>)
  then show ?thesis using assms by (auto simp: reg_drive_def)
qed

section \<open>The queue\<close>

fun qpath :: "(nat \<Rightarrow> buf) \<Rightarrow> nat \<Rightarrow> nat list \<Rightarrow> bool" where
  "qpath B p [] \<longleftrightarrow> p = 0"
| "qpath B p (x # xs) \<longleftrightarrow> p = x \<and> x \<noteq> 0 \<and> qpath B (qnext (B x)) xs"

lemma qpath_cong: "(\<And>x. x \<in> set xs \<Longrightarrow> qnext (B x) = qnext (B' x)) \<Longrightarrow> qpath B p xs = qpath B' p xs"
  by (induction xs arbitrary: p) auto

lemma queue_end_last: "qpath B p (xs @ [x]) \<Longrightarrow> queue_end B p = Some x"
proof (induction xs arbitrary: p)
  case (Cons y ys)
  then have "qnext (B p) \<noteq> 0" by (cases ys) auto
  with Cons show ?case by (subst queue_end.simps) auto
qed (simp add: queue_end.simps)

lemma qpath_snoc:
  assumes "qpath B p (xs @ [x])" "distinct (xs @ [x])" "b \<notin> set (xs @ [x])" "b \<noteq> 0" "qnext (B b) = 0"
  shows "qpath (B(x := (B x)\<lparr>qnext := b\<rparr>)) p (xs @ [x, b])"
  using assms
proof (induction xs arbitrary: p)
  case (Cons y ys)
  then show ?case by auto
qed auto

section \<open>Requests in order\<close>

text \<open>What a request asks of the disk: its address, and the data of a write.\<close>

type_synonym request = "nat \<times> nat \<times> u8 list option"

definition request_of :: "buf \<Rightarrow> request" where
  "request_of b = (reg_drive (set_regs b), reg_lba (set_regs b),
     if flags b AND B_DIRTY \<noteq> 0 then Some (data b) else None)"

fun apply_request :: "request \<Rightarrow> (nat \<Rightarrow> nat \<Rightarrow> u8 list) \<Rightarrow> nat \<Rightarrow> nat \<Rightarrow> u8 list" where
  "apply_request (d, l, Some w) bl = bl(d := (bl d)(l := w))"
| "apply_request (d, l, None) bl = bl"

text \<open>The driver in a run: the requests submitted so far and the completed ones with the data
  their buffer holds at completion. A process changes only buffers that are not in the queue.\<close>

record ide_run =
  st :: ide_state
  submitted :: "request list"
  completed :: "(request \<times> u8 list) list"

definition queued :: "ide_state \<Rightarrow> nat set" where
  "queued s = {b. \<exists>q. qpath (bufs s) (idequeue s) q \<and> b \<in> set q}"

inductive ide_step :: "ide_run \<Rightarrow> ide_run \<Rightarrow> bool" where
  submit: "b \<noteq> 0 \<Longrightarrow> b \<notin> queued (st r) \<Longrightarrow> iderw_submit (st r) b = Some s' \<Longrightarrow>
    ide_step r (r\<lparr>st := s', submitted := submitted r @ [request_of (bufs (st r) b)]\<rparr>)"
| interrupt: "ideintr True (st r) = Some (Some b, s') \<Longrightarrow>
    ide_step r (r\<lparr>st := s', completed := completed r @ [(request_of (bufs (st r) b), data (bufs s' b))]\<rparr>)"
| spurious: "ideintr True (st r) = Some (None, s') \<Longrightarrow> ide_step r (r\<lparr>st := s'\<rparr>)"
| change: "b \<notin> queued (st r) \<Longrightarrow> ide_step r (r\<lparr>st := (st r)\<lparr>bufs := (bufs (st r))(b := x)\<rparr>\<rparr>)"

inductive ide_reach :: "ide_run \<Rightarrow> ide_run \<Rightarrow> bool" for r where
  start: "ide_reach r r"
| step: "ide_reach r t \<Longrightarrow> ide_step t u \<Longrightarrow> ide_reach r u"

lemma qpath_unique: "qpath B p xs \<Longrightarrow> qpath B p ys \<Longrightarrow> xs = ys"
proof (induction xs arbitrary: p ys)
  case Nil
  then show ?case by (cases ys) auto
next
  case (Cons x xs)
  then show ?case by (cases ys) auto
qed

lemma queued_eq: "qpath (bufs s) (idequeue s) q \<Longrightarrow> queued s = set q"
  unfolding queued_def using qpath_unique by blast

text \<open>The state of the driver with queue \<open>q\<close>: the controller is set up for the head.\<close>

definition ide_inv :: "(nat \<Rightarrow> nat \<Rightarrow> u8 list) \<Rightarrow> ide_run \<Rightarrow> nat list \<Rightarrow> bool" where
  "ide_inv bl0 r q \<longleftrightarrow> qpath (bufs (st r)) (idequeue (st r)) q \<and> distinct q \<and>
     submitted r = map fst (completed r) @ map (\<lambda>b. request_of (bufs (st r) b)) q \<and>
     (q \<noteq> [] \<longrightarrow> regs (st r) = set_regs (bufs (st r) (hd q))) \<and>
     blocks (st r) = fold apply_request (take (length (completed r) + 1) (submitted r)) bl0"

lemma qpath_nonzero: "qpath B p q \<Longrightarrow> b \<in> set q \<Longrightarrow> b \<noteq> 0"
  by (induction q arbitrary: p) auto

lemma request_of_qnext [simp]: "request_of (b\<lparr>qnext := n\<rparr>) = request_of b"
  by (simp add: request_of_def set_regs_def)

lemma set_regs_qnext [simp]: "set_regs (b\<lparr>qnext := n\<rparr>) = set_regs b"
  by (simp add: set_regs_def)

lemma idestart_spec:
  "b \<noteq> 0 \<Longrightarrow> idestart s b = Some (s\<lparr>regs := set_regs (bufs s b),
     blocks := apply_request (request_of (bufs s b)) (blocks s)\<rparr>)"
  by (simp add: idestart_def request_of_def Let_def)

lemma iderw_submit_idle:
  assumes "idequeue s = 0" "b \<noteq> 0" "flags (bufs s b) AND B_BUSY \<noteq> 0"
    "flags (bufs s b) AND (B_VALID OR B_DIRTY) \<noteq> B_VALID" "dev (bufs s b) = 0 \<or> havedisk1 s"
  shows "iderw_submit s b = Some (s\<lparr>bufs := (bufs s)(b := (bufs s b)\<lparr>qnext := 0\<rparr>), idequeue := b,
    regs := set_regs (bufs s b), blocks := apply_request (request_of (bufs s b)) (blocks s)\<rparr>)"
  using assms by (auto simp: iderw_submit_def idestart_spec Let_def)

lemma submit_spec:
  assumes q: "qpath (bufs s) (idequeue s) q" "distinct q" "b \<noteq> 0" "b \<notin> set q"
    and ok: "iderw_submit s b = Some s'"
  shows "qpath (bufs s') (idequeue s') (q @ [b]) \<and>
    (\<forall>x. request_of (bufs s' x) = request_of (bufs s x) \<and> set_regs (bufs s' x) = set_regs (bufs s x)) \<and>
    (if q = [] then regs s' = set_regs (bufs s b) \<and>
       blocks s' = apply_request (request_of (bufs s b)) (blocks s)
     else regs s' = regs s \<and> blocks s' = blocks s)"
proof (cases q rule: rev_cases)
  case Nil
  then show ?thesis
    using q ok by (auto simp: iderw_submit_def idestart_spec Let_def split: if_splits)
next
  case (snoc xs x)
  let ?B = "(bufs s)(b := (bufs s b)\<lparr>qnext := 0\<rparr>)"
  have B: "qpath ?B (idequeue s) (xs @ [x])"
    using q(1,4) snoc by (subst qpath_cong [of _ _ "bufs s"]) auto
  have "idequeue s \<in> set q"
    using q(1) snoc by (cases xs) auto
  then have hd: "idequeue s \<noteq> 0" "idequeue s \<noteq> b"
    using q qpath_nonzero by auto
  have "qpath (?B(x := (?B x)\<lparr>qnext := b\<rparr>)) (idequeue s) (xs @ [x, b])"
    using q snoc by (intro qpath_snoc [OF B]) auto
  moreover have "s' = s\<lparr>bufs := ?B(x := (?B x)\<lparr>qnext := b\<rparr>)\<rparr>"
    using ok hd queue_end_last [OF B] by (auto simp: iderw_submit_def Let_def split: if_splits)
  ultimately show ?thesis
    using snoc by simp
qed

lemma valid_clean: "((x OR B_VALID) AND NOT B_DIRTY) AND (B_VALID OR B_DIRTY) = B_VALID"
proof -
  have "((x OR 2) AND NOT 4) AND 6 = (x AND (NOT 4 AND 6)) OR (2 AND NOT 4 AND 6)" for x :: u32
    by (simp only: bit.conj_disj_distrib2 and.assoc)
  moreover have "(NOT 4 AND 6 :: u32) = 2" "(2 AND NOT 4 AND 6 :: u32) = 2"
    by simp_all
  ultimately show ?thesis
    unfolding B_VALID_def B_DIRTY_def by (simp add: or.commute)
qed

lemma intr_spec:
  assumes q: "qpath (bufs s) (idequeue s) (b # q)" "b \<notin> set q"
    and ok: "ideintr ready s = Some (w, s')"
  shows "w = Some b \<and> qpath (bufs s') (idequeue s') q \<and>
    (\<forall>x\<in>set q. bufs s' x = bufs s x) \<and>
    (q \<noteq> [] \<longrightarrow> regs s' = set_regs (bufs s (hd q))) \<and>
    blocks s' = (if q = [] then blocks s else apply_request (request_of (bufs s (hd q))) (blocks s)) \<and>
    data (bufs s' b) = (if flags (bufs s b) AND B_DIRTY = 0 \<and> ready
       then blocks s (reg_drive (regs s)) (reg_lba (regs s)) else data (bufs s b)) \<and>
    \<not> iderw_waits s' b"
proof -
  define bb where "bb = (if flags (bufs s b) AND B_DIRTY = 0 \<and> ready
    then (bufs s b)\<lparr>data := blocks s (reg_drive (regs s)) (reg_lba (regs s))\<rparr> else bufs s b)"
  define B where "B = (bufs s)(b := bb\<lparr>flags := (flags bb OR B_VALID) AND NOT B_DIRTY\<rparr>)"
  define s2 where "s2 = s\<lparr>idequeue := qnext (bufs s b), bufs := B\<rparr>"
  have hd: "idequeue s = b" "b \<noteq> 0" and tl: "qpath (bufs s) (qnext (bufs s b)) q"
    using q(1) by auto
  have Bq: "B x = bufs s x" if "x \<in> set q" for x
    using that q(2) by (auto simp: B_def)
  then have tl': "qpath B (qnext (bufs s b)) q"
    using tl by (subst qpath_cong [of _ _ "bufs s"]) auto
  have fl: "((flags bb OR B_VALID) AND NOT B_DIRTY) AND (B_VALID OR B_DIRTY) = B_VALID"
    by (rule valid_clean)
  have eq: "ideintr ready s = (if qnext (bufs s b) = 0 then Some (Some b, s2)
      else do { s3 \<leftarrow> idestart s2 (qnext (bufs s b)); Some (Some b, s3) })"
    using hd by (simp add: ideintr_def s2_def B_def bb_def Let_def)
  show ?thesis
  proof (cases q)
    case Nil
    then have "w = Some b" "s' = s2" using ok eq tl by auto
    then show ?thesis using Nil tl' fl by (simp add: s2_def B_def bb_def iderw_waits_def)
  next
    case (Cons c q')
    then have c: "qnext (bufs s b) = c" "c \<noteq> 0" "B c = bufs s c" using tl Bq by auto
    then have "w = Some b" "s' = s2\<lparr>regs := set_regs (bufs s c),
        blocks := apply_request (request_of (bufs s c)) (blocks s)\<rparr>"
      using ok eq by (auto simp: idestart_spec s2_def)
    then show ?thesis using Cons c tl' fl Bq
      by (auto simp: s2_def B_def bb_def iderw_waits_def)
  qed
qed


lemma ide_inv_step:
  assumes "ide_step r r'" "ide_inv bl0 r q"
  shows "\<exists>q'. ide_inv bl0 r' q'"
  using assms
proof (induction rule: ide_step.induct)
  case (submit b r s')
  note I = submit.prems [unfolded ide_inv_def]
  have "b \<notin> set q" using submit.hyps(2) queued_eq I by blast
  note S = submit_spec [OF _ _ submit.hyps(1) this submit.hyps(3)]
  let ?r = "r\<lparr>st := s', submitted := submitted r @ [request_of (bufs (st r) b)]\<rparr>"
  have "length (submitted r) = length (completed r) + length q"
    using I by simp
  then have "ide_inv bl0 ?r (q @ [b])"
    using I S \<open>b \<notin> set q\<close> by (cases q) (auto simp: ide_inv_def)
  then show ?case by blast
next
  case (interrupt r b s')
  note I = interrupt.prems [unfolded ide_inv_def]
  show ?case
  proof (cases q)
    case Nil
    then show ?thesis using I interrupt.hyps by (simp add: ideintr_def)
  next
    case (Cons c q')
    then have path: "qpath (bufs (st r)) (idequeue (st r)) (c # q')" "c \<notin> set q'" using I by auto
    note S = intr_spec [OF path interrupt.hyps]
    let ?r = "r\<lparr>st := s', completed := completed r @ [(request_of (bufs (st r) b), data (bufs s' b))]\<rparr>"
    have sub: "submitted r = map fst (completed r) @ request_of (bufs (st r) c) # map (\<lambda>b. request_of (bufs (st r) b)) q'"
      using I Cons by simp
    have "ide_inv bl0 ?r q'"
      using I S Cons sub by (cases q') (auto simp: ide_inv_def)
    then show ?thesis by blast
  qed
next
  case (spurious r s')
  then show ?case
    by (auto simp: ideintr_def Let_def split: if_splits bind_splits)
next
  case (change b r x)
  note I = change.prems [unfolded ide_inv_def]
  have b: "b \<notin> set q" using change.hyps queued_eq I by blast
  then have "qpath ((bufs (st r))(b := x)) (idequeue (st r)) q"
    using I by (subst qpath_cong [of _ _ "bufs (st r)"]) auto
  moreover have "map (\<lambda>c. request_of (((bufs (st r))(b := x)) c)) q = map (\<lambda>c. request_of (bufs (st r) c)) q"
    using b by auto
  moreover have "q \<noteq> [] \<Longrightarrow> hd q \<noteq> b" using b by auto
  ultimately have "ide_inv bl0 (r\<lparr>st := (st r)\<lparr>bufs := (bufs (st r))(b := x)\<rparr>\<rparr>) q"
    using I by (simp add: ide_inv_def)
  then show ?case by blast
qed

text \<open>What each completed request saw of the disk.\<close>

definition sees_disk :: "(nat \<Rightarrow> nat \<Rightarrow> u8 list) \<Rightarrow> (request \<times> u8 list) list \<Rightarrow> bool" where
  "sees_disk bl0 cs \<longleftrightarrow> (\<forall>i<length cs. case cs ! i of ((d, l, w), x) \<Rightarrow>
     x = fold apply_request (map fst (take (i + 1) cs)) bl0 d l)"

lemma sees_disk_snoc:
  "sees_disk bl0 cs \<Longrightarrow> x = fold apply_request (map fst cs @ [(d, l, w)]) bl0 d l \<Longrightarrow>
     sees_disk bl0 (cs @ [((d, l, w), x)])"
  by (auto simp: sees_disk_def nth_append less_Suc_eq)

lemma sees_disk_step:
  assumes "ide_step r r'" "ide_inv bl0 r q" "sees_disk bl0 (completed r)"
  shows "sees_disk bl0 (completed r')"
  using assms
proof (induction rule: ide_step.induct)
  case (interrupt r b s')
  note I = interrupt.prems(1) [unfolded ide_inv_def]
  show ?case
  proof (cases q)
    case Nil
    then show ?thesis using I interrupt.hyps by (simp add: ideintr_def)
  next
    case (Cons c q')
    then have path: "qpath (bufs (st r)) (idequeue (st r)) (c # q')" "c \<notin> set q'" using I by auto
    note S = intr_spec [OF path interrupt.hyps]
    have bl: "blocks (st r) = fold apply_request (map fst (completed r) @ [request_of (bufs (st r) c)]) bl0"
      using I Cons by simp
    obtain d l w where rq: "request_of (bufs (st r) c) = (d, l, w)" by (cases "request_of (bufs (st r) c)") auto
    then have dl: "d = reg_drive (set_regs (bufs (st r) c))" "l = reg_lba (set_regs (bufs (st r) c))"
        "flags (bufs (st r) c) AND B_DIRTY \<noteq> 0 \<Longrightarrow> w = Some (data (bufs (st r) c))"
      by (auto simp: request_of_def split: if_splits)
    have rg: "regs (st r) = set_regs (bufs (st r) c)" "b = c" using I S Cons by simp_all
    have "data (bufs s' b) = blocks (st r) d l"
    proof (cases "flags (bufs (st r) c) AND B_DIRTY = 0")
      case True
      then show ?thesis using S rg dl by simp
    next
      case False
      then have "data (bufs s' b) = data (bufs (st r) c)" using S rg by simp
      then show ?thesis using bl rq dl(3) [OF False] by simp
    qed
    then have "sees_disk bl0 (completed r @ [((d, l, w), data (bufs s' b))])"
      using interrupt.prems(2) rq bl by (intro sees_disk_snoc) simp_all
    then show ?thesis using rq rg by simp
  qed
qed simp_all

lemma reach_inv:
  "ide_reach r0 r \<Longrightarrow> ide_inv bl0 r0 [] \<Longrightarrow> completed r0 = [] \<Longrightarrow>
     (\<exists>q. ide_inv bl0 r q) \<and> sees_disk bl0 (completed r)"
proof (induction rule: ide_reach.induct)
  case start
  then show ?case by (auto simp: sees_disk_def)
next
  case (step t u)
  then show ?case using ide_inv_step sees_disk_step by blast
qed

section \<open>Properties\<close>

text \<open>A driver at rest with a dirty buffer for sector 7 of drive 1, for the example.\<close>

definition write_request_run :: ide_run where
  "write_request_run = \<lparr>st = \<lparr>bufs = (\<lambda>_. \<lparr>flags = 5, dev = 1, sector = 7, prev = 0, nxt = 0, qnext = 9, data = [42]\<rparr>),
     idequeue = 0, havedisk1 = True, regs = \<lparr>lba0 = 0, lba1 = 0, lba2 = 0, drive = 0\<rparr>,
     blocks = (\<lambda>_ _. [])\<rparr>, submitted = [], completed = []\<rparr>"

text \<open>
  C19: The disk driver serves requests first come, first served, and loses none: the completed
  requests, then those in the queue, are the submitted ones in order. The disk holds the effect
  of the writes among the completed requests and the one in progress, in that order, and a
  buffer holds, when its request completes, the contents its sector has after exactly the
  requests up to its own.
\<close>
theorem ide_sequentially_consistent:
  assumes "idequeue (st r0) = 0" "submitted r0 = []" "completed r0 = []" "ide_reach r0 r"
  shows "\<exists>q. qpath (bufs (st r)) (idequeue (st r)) q \<and> distinct q \<and>
      submitted r = map fst (completed r) @ map (\<lambda>b. request_of (bufs (st r) b)) q \<and>
      blocks (st r) = fold apply_request (take (length (completed r) + 1) (submitted r)) (blocks (st r0)) \<and>
      (\<forall>i<length (completed r). case completed r ! i of ((d, l, w), x) \<Rightarrow>
         x = fold apply_request (map fst (take (i + 1) (completed r))) (blocks (st r0)) d l)"
proof -
  have "ide_inv (blocks (st r0)) r0 []"
    using assms by (simp add: ide_inv_def)
  from reach_inv [OF assms(4) this assms(3)] show ?thesis
    unfolding ide_inv_def sees_disk_def by blast
qed

theorem ide_sequentially_consistent_witness:
  "\<exists>r. ide_reach write_request_run r \<and>
     (\<exists>q. submitted r = map fst (completed r) @ map (\<lambda>b. request_of (bufs (st r) b)) q) \<and>
     blocks (st r) 1 7 = [42]"
proof -
  let ?init = write_request_run
  let ?b = "bufs (st ?init) 1"
  let ?s = "(st ?init)\<lparr>bufs := (bufs (st ?init))(1 := ?b\<lparr>qnext := 0\<rparr>), idequeue := 1,
    regs := set_regs ?b, blocks := apply_request (request_of ?b) (blocks (st ?init))\<rparr>"
  let ?r = "?init\<lparr>st := ?s, submitted := submitted ?init @ [request_of ?b]\<rparr>"
  have sub: "iderw_submit (st ?init) 1 = Some ?s"
    by (rule iderw_submit_idle)
      (simp_all add: write_request_run_def B_BUSY_def B_VALID_def B_DIRTY_def)
  have "1 \<notin> queued (st ?init)"
    using queued_eq [of "st ?init" "[]"] by (simp add: write_request_run_def)
  with ide_step.submit [OF _ this sub] have run: "ide_reach ?init ?r"
    by (blast intro: ide_reach.intros)
  have req: "request_of ?b = (1, 7, Some [42])"
    by (simp add: request_of_def set_regs_def reg_drive_def reg_lba_def write_request_run_def B_DIRTY_def)
  have "\<exists>q. submitted ?r = map fst (completed ?r) @ map (\<lambda>b. request_of (bufs (st ?r) b)) q"
  proof -
    have "idequeue (st ?init) = 0" "submitted ?init = []" "completed ?init = []"
      by (simp_all add: write_request_run_def)
    from ide_sequentially_consistent [OF this run] show ?thesis by blast
  qed
  moreover have "blocks (st ?r) 1 7 = [42]"
    using req by simp
  ultimately show ?thesis using run by blast
qed

end
