(* ===== verification/Bio.thy ===== *)
theory Bio
  imports Ide
begin

text \<open>
  The buffer cache \<open>kernel/bio.c\<close>: \<open>NBUF\<close> buffers on a circular, doubly linked list in order of
  last use, over the disk driver of \<open>Ide\<close>. Buffers are numbered from 1; \<open>HEAD\<close> is \<open>bcache.head\<close>.
  \<open>bget\<close> either returns a buffer or reports the busy buffer the caller has to sleep on; running out
  of buffers is the panic of the code, \<open>None\<close>. \<open>iderw\<close> waits for the disk; the waiting loop is run
  with the disk's interrupts as the only other activity.  \<open>rdy n\<close> is what \<open>idewait(1)\<close> finds at the \<open>n\<close>-th of these
  interrupts: \<open>False\<close> is a disk error or a device fault, after which the buffer counts as valid all the same
  (\<open>bread_hides_error\<close>).  What the theory proves of the cache is for \<open>no_error\<close>, a disk that reports none.
\<close>

section \<open>Operations\<close>

definition NBUF :: nat where "NBUF = 10"
definition HEAD :: nat where "HEAD = NBUF + 1"

partial_function (option) iderw_wait :: "(nat \<Rightarrow> bool) \<Rightarrow> ide_state \<Rightarrow> nat \<Rightarrow> ide_state option" where
  [code]: "iderw_wait rdy s b =
     (if iderw_waits s b
      then Option.bind (ideintr (rdy 0) s) (\<lambda>(w, s'). iderw_wait (\<lambda>n. rdy (Suc n)) s' b) else Some s)"

definition iderw :: "(nat \<Rightarrow> bool) \<Rightarrow> ide_state \<Rightarrow> nat \<Rightarrow> ide_state option" where
  "iderw rdy s b = do { s1 \<leftarrow> iderw_submit s b; iderw_wait rdy s1 b }"

abbreviation no_error :: "nat \<Rightarrow> bool" where
  "no_error \<equiv> \<lambda>_. True"

abbreviation set_buf :: "ide_state \<Rightarrow> nat \<Rightarrow> (buf \<Rightarrow> buf) \<Rightarrow> ide_state" where
  "set_buf s b f \<equiv> s\<lparr>bufs := (bufs s)(b := f (bufs s b))\<rparr>"

text \<open>Insertion of a buffer behind the head, shared by \<open>binit\<close> and \<open>brelse\<close>.\<close>

definition push_front :: "ide_state \<Rightarrow> nat \<Rightarrow> ide_state" where
  "push_front s b =
     (let s1 = set_buf s b (\<lambda>x. x\<lparr>nxt := nxt (bufs s HEAD)\<rparr>);
          s2 = set_buf s1 b (\<lambda>x. x\<lparr>prev := HEAD\<rparr>);
          s3 = set_buf s2 (nxt (bufs s2 HEAD)) (\<lambda>x. x\<lparr>prev := b\<rparr>)
      in set_buf s3 HEAD (\<lambda>x. x\<lparr>nxt := b\<rparr>))"

fun binit_loop :: "nat list \<Rightarrow> ide_state \<Rightarrow> ide_state" where
  "binit_loop [] s = s"
| "binit_loop (b # bs) s = binit_loop bs (push_front (set_buf s b (\<lambda>x. x\<lparr>dev := -1\<rparr>)) b)"

definition binit :: "ide_state \<Rightarrow> ide_state" where
  "binit s = binit_loop [1..<NBUF + 1]
     (set_buf (set_buf s HEAD (\<lambda>x. x\<lparr>prev := HEAD\<rparr>)) HEAD (\<lambda>x. x\<lparr>nxt := HEAD\<rparr>))"

text \<open>The two searches of \<open>bget\<close>; they return \<open>HEAD\<close> when they come back to it.\<close>

partial_function (option) find_cached :: "(nat \<Rightarrow> buf) \<Rightarrow> u32 \<Rightarrow> u32 \<Rightarrow> nat \<Rightarrow> nat option" where
  [code]: "find_cached B d sec b =
     (if b = HEAD then Some HEAD
      else if dev (B b) = d \<and> sector (B b) = sec then Some b
      else find_cached B d sec (nxt (B b)))"

partial_function (option) find_free :: "(nat \<Rightarrow> buf) \<Rightarrow> nat \<Rightarrow> nat option" where
  [code]: "find_free B b =
     (if b = HEAD then Some HEAD
      else if flags (B b) AND B_BUSY = 0 then Some b
      else find_free B (prev (B b)))"

datatype bget_result = Got nat | Sleep_on nat

definition bget :: "ide_state \<Rightarrow> u32 \<Rightarrow> u32 \<Rightarrow> (bget_result \<times> ide_state) option" where
  "bget s d sec = do {
     b \<leftarrow> find_cached (bufs s) d sec (nxt (bufs s HEAD));
     if b \<noteq> HEAD then
       if flags (bufs s b) AND B_BUSY = 0
       then Some (Got b, set_buf s b (\<lambda>x. x\<lparr>flags := flags x OR B_BUSY\<rparr>))
       else Some (Sleep_on b, s)
     else do {
       b \<leftarrow> find_free (bufs s) (prev (bufs s HEAD));
       if b \<noteq> HEAD
       then Some (Got b, set_buf s b (\<lambda>x. x\<lparr>dev := d, sector := sec, flags := B_BUSY\<rparr>))
       else None } }"

definition bread :: "(nat \<Rightarrow> bool) \<Rightarrow> ide_state \<Rightarrow> u32 \<Rightarrow> u32 \<Rightarrow> (bget_result \<times> ide_state) option" where
  "bread rdy s d sec = do {
     (r, s1) \<leftarrow> bget s d sec;
     case r of
       Sleep_on b \<Rightarrow> Some (r, s1)
     | Got b \<Rightarrow>
         if flags (bufs s1 b) AND B_VALID = 0 then do { s2 \<leftarrow> iderw rdy s1 b; Some (r, s2) }
         else Some (r, s1) }"

definition bwrite :: "(nat \<Rightarrow> bool) \<Rightarrow> ide_state \<Rightarrow> nat \<Rightarrow> ide_state option" where
  "bwrite rdy s b =
     (if flags (bufs s b) AND B_BUSY = 0 then None
      else iderw rdy (set_buf s b (\<lambda>x. x\<lparr>flags := flags x OR B_DIRTY\<rparr>)) b)"

definition brelse :: "ide_state \<Rightarrow> nat \<Rightarrow> ide_state option" where
  "brelse s b =
     (if flags (bufs s b) AND B_BUSY = 0 then None
      else let s1 = set_buf s (nxt (bufs s b)) (\<lambda>x. x\<lparr>prev := prev (bufs s b)\<rparr>);
               s2 = set_buf s1 (prev (bufs s1 b)) (\<lambda>x. x\<lparr>nxt := nxt (bufs s1 b)\<rparr>);
               s3 = push_front s2 b
           in Some (set_buf s3 b (\<lambda>x. x\<lparr>flags := flags x AND NOT B_BUSY\<rparr>)))"

section \<open>The list of buffers\<close>

lemma find_filter: "find P xs = (case filter P xs of [] \<Rightarrow> None | v # vs \<Rightarrow> Some v)"
  by (induction xs) auto

text \<open>Neighbours of the list are linked to each other in both directions.\<close>

fun linked :: "(nat \<Rightarrow> buf) \<Rightarrow> nat list \<Rightarrow> bool" where
  "linked B (x # y # ys) \<longleftrightarrow> nxt (B x) = y \<and> prev (B y) = x \<and> linked B (y # ys)"
| "linked B _ \<longleftrightarrow> True"

lemma linked_append:
  "xs \<noteq> [] \<Longrightarrow> ys \<noteq> [] \<Longrightarrow> linked B (xs @ ys) \<longleftrightarrow>
     linked B xs \<and> linked B ys \<and> nxt (B (last xs)) = hd ys \<and> prev (B (hd ys)) = last xs"
proof (induction xs)
  case (Cons x xs)
  then show ?case by (cases xs; cases ys) auto
qed simp

lemma linked_cong:
  "\<lbrakk>\<And>x. x \<in> set (butlast l) \<Longrightarrow> nxt (B x) = nxt (B' x);
    \<And>x. x \<in> set (tl l) \<Longrightarrow> prev (B x) = prev (B' x)\<rbrakk> \<Longrightarrow> linked B l = linked B' l"
  by (induction B l rule: linked.induct) (auto split: if_splits)

definition ring :: "(nat \<Rightarrow> buf) \<Rightarrow> nat list \<Rightarrow> bool" where
  "ring B xs \<longleftrightarrow> linked B (HEAD # xs @ [HEAD]) \<and> distinct xs \<and> set xs = {1..NBUF}"

definition links_of :: "(nat \<Rightarrow> buf) \<Rightarrow> nat \<Rightarrow> nat \<times> nat" where
  "links_of B x = (nxt (B x), prev (B x))"

lemma last_notin_butlast: "distinct xs \<Longrightarrow> xs \<noteq> [] \<Longrightarrow> last xs \<notin> set (butlast xs)"
  by (metis append_butlast_last_id distinct_append disjoint_iff list.set_intros(1))

lemma hd_notin_tl: "distinct xs \<Longrightarrow> hd xs \<notin> set (tl xs)"
  by (cases xs) auto

text \<open>The first two assignments of \<open>brelse\<close> take a buffer out of the list.\<close>

lemma linked_unlink:
  assumes l: "linked B (h # as @ b # cs @ [h])" and d: "distinct (h # as @ b # cs)"
    and np: "n = nxt (B b)" "p = prev (B b)"
  shows "linked (B(n := (B n)\<lparr>prev := p\<rparr>, p := ((B(n := (B n)\<lparr>prev := p\<rparr>)) p)\<lparr>nxt := n\<rparr>)) (h # as @ cs @ [h])"
proof -
  let ?B = "B(n := (B n)\<lparr>prev := p\<rparr>, p := ((B(n := (B n)\<lparr>prev := p\<rparr>)) p)\<lparr>nxt := n\<rparr>)"
  have parts: "linked B (h # as)" "linked B (cs @ [h])" "p = last (h # as)" "n = hd (cs @ [h])"
    using l linked_append [of "h # as" "b # cs @ [h]" B] linked_append [of "[b]" "cs @ [h]" B] np by auto
  have f: "nxt (?B x) = (if x = p then n else nxt (B x))" "prev (?B x) = (if x = n then p else prev (B x))" for x
    by auto
  have "linked ?B (h # as) = linked B (h # as)"
  proof (rule linked_cong)
    have "p \<notin> set (butlast (h # as))"
      unfolding parts using d by (intro last_notin_butlast) auto
    then show "nxt (?B x) = nxt (B x)" if "x \<in> set (butlast (h # as))" for x
      using that f by metis
    have "n \<notin> set as"
      using parts(4) d by (cases cs) auto
    then show "prev (?B x) = prev (B x)" if "x \<in> set (tl (h # as))" for x
      using that f by auto
  qed
  moreover have "linked ?B (cs @ [h]) = linked B (cs @ [h])"
  proof (rule linked_cong)
    have "p \<notin> set cs"
      using parts(3) d by (cases as rule: rev_cases) auto
    then show "nxt (?B x) = nxt (B x)" if "x \<in> set (butlast (cs @ [h]))" for x
      using that f by auto
    have "n \<notin> set (tl (cs @ [h]))"
      unfolding parts using d by (intro hd_notin_tl) auto
    then show "prev (?B x) = prev (B x)" if "x \<in> set (tl (cs @ [h]))" for x
      using that f by auto
  qed
  ultimately have "linked ?B ((h # as) @ (cs @ [h]))"
    using parts f by (subst linked_append) auto
  then show ?thesis by simp
qed

lemma push_front_bufs:
  assumes "b \<noteq> HEAD"
  shows "nxt (bufs (push_front s b) x) = (if x = HEAD then b else if x = b then nxt (bufs s HEAD) else nxt (bufs s x))"
    "prev (bufs (push_front s b) x) = (if x = nxt (bufs s HEAD) then b else if x = b then HEAD else prev (bufs s x))"
  using assms by (auto simp: push_front_def Let_def)

lemma set_buf_links_fields:
  assumes "\<And>x. dev (f x) = dev x \<and> sector (f x) = sector x \<and> data (f x) = data x \<and> flags (f x) = flags x"
  shows "dev (bufs (set_buf s b f) c) = dev (bufs s c)" "sector (bufs (set_buf s b f) c) = sector (bufs s c)"
    "data (bufs (set_buf s b f) c) = data (bufs s c)" "flags (bufs (set_buf s b f) c) = flags (bufs s c)"
  using assms by simp_all

lemma push_front_fields [simp]:
  "dev (bufs (push_front s b) c) = dev (bufs s c)" "sector (bufs (push_front s b) c) = sector (bufs s c)"
  "data (bufs (push_front s b) c) = data (bufs s c)" "flags (bufs (push_front s b) c) = flags (bufs s c)"
  "blocks (push_front s b) = blocks s" "idequeue (push_front s b) = idequeue s"
  "havedisk1 (push_front s b) = havedisk1 s"
  unfolding push_front_def Let_def by (simp_all add: set_buf_links_fields del: fun_upd_apply) simp_all

lemma linked_push_front:
  assumes l: "linked (bufs s) (HEAD # xs @ [HEAD])" and d: "distinct (HEAD # b # xs)"
  shows "linked (bufs (push_front s b)) (HEAD # (b # xs) @ [HEAD])"
proof -
  let ?B = "bufs (push_front s b)"
  have b: "b \<noteq> HEAD" using d by auto
  have hd: "nxt (bufs s HEAD) = hd (xs @ [HEAD])" "linked (bufs s) (xs @ [HEAD])"
    using l linked_append [of "[HEAD]" "xs @ [HEAD]" "bufs s"] by auto
  have "linked ?B (xs @ [HEAD]) = linked (bufs s) (xs @ [HEAD])"
  proof (rule linked_cong)
    show "nxt (?B x) = nxt (bufs s x)" if "x \<in> set (butlast (xs @ [HEAD]))" for x
      using that d by (auto simp: push_front_bufs [OF b])
    have "hd (xs @ [HEAD]) \<notin> set (tl (xs @ [HEAD]))"
      using d by (intro hd_notin_tl) auto
    moreover have "b \<notin> set (tl (xs @ [HEAD]))"
      using d by (cases xs) auto
    ultimately show "prev (?B x) = prev (bufs s x)" if "x \<in> set (tl (xs @ [HEAD]))" for x
      using that hd by (auto simp: push_front_bufs [OF b])
  qed
  then have "linked ?B ([b] @ (xs @ [HEAD]))"
    using hd b d by (subst linked_append) (auto simp: push_front_bufs)
  moreover have "b \<noteq> hd (xs @ [HEAD])"
    using d by (cases xs) auto
  ultimately show ?thesis
    using hd b by (simp add: push_front_bufs)
qed


lemma find_cached_spec:
  "linked B (xs @ [HEAD]) \<Longrightarrow> HEAD \<notin> set xs \<Longrightarrow>
     find_cached B d sec (hd (xs @ [HEAD])) =
       Some (case find (\<lambda>b. dev (B b) = d \<and> sector (B b) = sec) xs of None \<Rightarrow> HEAD | Some b \<Rightarrow> b)"
proof (induction xs)
  case (Cons x xs)
  then have "nxt (B x) = hd (xs @ [HEAD])" "linked B (xs @ [HEAD])"
    using linked_append [of "[x]" "xs @ [HEAD]" B] by auto
  with Cons show ?case by (auto simp: find_cached.simps [of B d sec x])
qed (simp add: find_cached.simps)

lemma find_free_spec:
  "linked B (HEAD # xs) \<Longrightarrow> HEAD \<notin> set xs \<Longrightarrow>
     find_free B (last (HEAD # xs)) =
       Some (case find (\<lambda>b. flags (B b) AND B_BUSY = 0) (rev xs) of None \<Rightarrow> HEAD | Some b \<Rightarrow> b)"
proof (induction xs rule: rev_induct)
  case (snoc x xs)
  then have "prev (B x) = last (HEAD # xs)" "linked B (HEAD # xs)"
    using linked_append [of "HEAD # xs" "[x]" B] by auto
  with snoc show ?case by (auto simp: find_free.simps [of B x])
qed (simp add: find_free.simps)

lemma ring_ends:
  assumes "ring B xs"
  shows "nxt (B HEAD) = hd (xs @ [HEAD])" "linked B (xs @ [HEAD])"
    "prev (B HEAD) = last (HEAD # xs)" "linked B (HEAD # xs)" "HEAD \<notin> set xs"
  using assms linked_append [of "[HEAD]" "xs @ [HEAD]" B] linked_append [of "HEAD # xs" "[HEAD]" B]
  by (auto simp: ring_def HEAD_def)

text \<open>Operations that leave the links alone keep the list.\<close>

lemma ring_cong: "(\<And>x. links_of B x = links_of B' x) \<Longrightarrow> ring B xs = ring B' xs"
  unfolding ring_def links_of_def using linked_cong [of "HEAD # xs @ [HEAD]" B B'] by auto

lemma ring_set_buf:
  "(\<And>x. nxt (f x) = nxt x \<and> prev (f x) = prev x) \<Longrightarrow> ring (bufs (set_buf s b f)) xs = ring (bufs s) xs"
  by (intro ring_cong) (auto simp: links_of_def)

lemma ring_upd [simp]:
  "nxt x = nxt (B b) \<Longrightarrow> prev x = prev (B b) \<Longrightarrow> ring (B(b := x)) xs = ring B xs"
  by (intro ring_cong) (auto simp: links_of_def)

lemma B_BUSY_nonzero [simp]: "B_BUSY \<noteq> 0"
  by (simp add: B_BUSY_def)

section \<open>Waiting for the disk\<close>

lemma dirty_bits: "(x OR B_DIRTY) AND B_DIRTY = B_DIRTY" "(B_DIRTY :: u32) \<noteq> 0"
    "(x OR B_DIRTY) AND (B_VALID OR B_DIRTY) \<noteq> B_VALID" "(x OR B_DIRTY) AND B_BUSY = x AND B_BUSY"
proof -
  show "(x OR B_DIRTY) AND B_DIRTY = B_DIRTY" for x :: u32
    by (rule bit_word_eqI) (auto simp: bit_simps)
  show d: "(B_DIRTY :: u32) \<noteq> 0" by (simp add: B_DIRTY_def)
  show "(x OR B_DIRTY) AND (B_VALID OR B_DIRTY) \<noteq> B_VALID"
  proof
    assume "(x OR B_DIRTY) AND (B_VALID OR B_DIRTY) = B_VALID"
    then have "bit ((x OR B_DIRTY) AND (B_VALID OR B_DIRTY)) 2 = bit B_VALID 2" by simp
    then show False by (simp add: bit_simps B_VALID_def B_DIRTY_def)
  qed
  show "(x OR B_DIRTY) AND B_BUSY = x AND B_BUSY"
    by (simp add: B_DIRTY_def B_BUSY_def bit.conj_disj_distrib2)
qed

lemmas flag_bits = B_BUSY_def B_VALID_def B_DIRTY_def bit.conj_disj_distrib bit.conj_disj_distrib2 and.assoc

lemma clean_bits:
  "((x OR B_VALID) AND NOT B_DIRTY) AND B_BUSY = x AND B_BUSY"
  "((x OR B_VALID) AND NOT B_DIRTY) AND B_VALID = B_VALID"
  "((x OR B_VALID) AND NOT B_DIRTY) AND B_DIRTY = 0"
proof -
  have *: "(NOT 4 AND 1 :: u32) = 1" "(NOT 4 AND 2 :: u32) = 2" "(NOT 4 AND 4 :: u32) = 0" by simp_all
  show "((x OR B_VALID) AND NOT B_DIRTY) AND B_BUSY = x AND B_BUSY"
    "((x OR B_VALID) AND NOT B_DIRTY) AND B_DIRTY = 0"
    by (simp_all add: flag_bits * del: bit.conj_cancel_left bit.conj_cancel_right)
  have "x AND 2 OR 2 = (2::u32)" by (rule bit_word_eqI) (auto simp: bit_simps)
  then show "((x OR B_VALID) AND NOT B_DIRTY) AND B_VALID = B_VALID"
    by (simp add: flag_bits *)
qed

lemma busy_bits:
  "(x OR B_BUSY) AND B_BUSY \<noteq> 0" "(x OR B_BUSY) AND B_VALID = x AND B_VALID"
  "(x OR B_BUSY) AND B_DIRTY = x AND B_DIRTY"
  "(x AND NOT B_BUSY) AND B_BUSY = 0" "(x AND NOT B_BUSY) AND B_VALID = x AND B_VALID"
  "(x AND NOT B_BUSY) AND B_DIRTY = x AND B_DIRTY"
  "B_BUSY AND B_BUSY \<noteq> (0::u32)" "B_BUSY AND B_VALID = (0::u32)" "B_BUSY AND B_DIRTY = (0::u32)"
proof -
  have *: "(NOT 1 AND 1 :: u32) = 0" "(NOT 1 AND 2 :: u32) = 2" "(NOT 1 AND 4 :: u32) = 4" by simp_all
  show "(x AND NOT B_BUSY) AND B_BUSY = 0" "(x AND NOT B_BUSY) AND B_VALID = x AND B_VALID"
    "(x AND NOT B_BUSY) AND B_DIRTY = x AND B_DIRTY"
    by (simp_all only: flag_bits * bit.conj_zero_right)
  have "bit ((x OR B_BUSY) AND B_BUSY) 0" by (simp add: bit_simps B_BUSY_def)
  then show "(x OR B_BUSY) AND B_BUSY \<noteq> 0" by auto
qed (simp_all add: flag_bits)

lemma not_valid_bits: "x AND B_VALID = 0 \<Longrightarrow> x AND B_DIRTY = 0 \<Longrightarrow> x AND (B_VALID OR B_DIRTY) \<noteq> B_VALID"
  by (simp add: bit.conj_disj_distrib) (simp add: B_VALID_def)

definition block_addr :: "u32 \<Rightarrow> u32 \<Rightarrow> bool" where
  "block_addr d sec \<longleftrightarrow> (d = 0 \<or> d = 1) \<and> unat sec < 2 ^ 28"

definition disk :: "ide_state \<Rightarrow> u32 \<Rightarrow> u32 \<Rightarrow> u8 list" where
  "disk s d sec = blocks s (unat d) (unat sec)"

text \<open>The buffer after the driver is done with it.\<close>

definition served :: "ide_state \<Rightarrow> nat \<Rightarrow> buf" where
  "served s b = (let x = bufs s b in x\<lparr>qnext := 0,
     data := if flags x AND B_DIRTY = 0 then disk s (dev x) (sector x) else data x,
     flags := (flags x OR B_VALID) AND NOT B_DIRTY\<rparr>)"

lemma iderw_spec:
  assumes "idequeue s = 0" "b \<noteq> 0" "flags (bufs s b) AND B_BUSY \<noteq> 0"
    "flags (bufs s b) AND (B_VALID OR B_DIRTY) \<noteq> B_VALID" "havedisk1 s"
    "block_addr (dev (bufs s b)) (sector (bufs s b))"
  shows "\<exists>r. iderw no_error s b = Some (s\<lparr>bufs := (bufs s)(b := served s b), regs := r,
    blocks := (if flags (bufs s b) AND B_DIRTY = 0 then blocks s
      else (blocks s)(unat (dev (bufs s b)) := (blocks s (unat (dev (bufs s b))))
        (unat (sector (bufs s b)) := data (bufs s b))))\<rparr>)"
proof -
  let ?x = "bufs s b"
  define s1 where "s1 = s\<lparr>bufs := (bufs s)(b := ?x\<lparr>qnext := 0\<rparr>), idequeue := b,
    regs := set_regs ?x, blocks := apply_request (request_of ?x) (blocks s)\<rparr>"
  have sub: "iderw_submit s b = Some s1"
    unfolding s1_def using assms by (intro iderw_submit_idle) auto
  have w1: "iderw_waits s1 b" using assms(4) by (simp add: iderw_waits_def s1_def)
  have q: "qpath (bufs s1) (idequeue s1) [b]" using assms(2) by (simp add: s1_def)
  have addr: "reg_drive (set_regs ?x) = unat (dev ?x)" "reg_lba (set_regs ?x) = unat (sector ?x)"
    using assms(6) by (auto simp: block_addr_def intro: reg_drive_set_regs reg_lba_set_regs)
  define s2 where "s2 = s1\<lparr>idequeue := 0, bufs := (bufs s)(b := served s b)\<rparr>"
  have i: "ideintr True s1 = Some (Some b, s2)"
    using assms(1,2) by (simp add: ideintr_def s1_def s2_def served_def Let_def addr request_of_def disk_def)
  have w2: "\<not> iderw_waits s2 b"
    by (simp add: iderw_waits_def s2_def served_def Let_def valid_clean)
  have "iderw no_error s b = Some s2"
    unfolding iderw_def sub using w1 w2 i by (simp add: iderw_wait.simps [of _ s1] iderw_wait.simps [of _ s2])
  then show ?thesis
    using assms(1) by (intro exI [of _ "set_regs ?x"])
      (simp add: s2_def s1_def request_of_def addr)
qed

text \<open>When the disk reports an error, the buffer keeps what was in it before, and counts as valid.\<close>

lemma bread_hides_error:
  assumes "bget s d sec = Some (Got b, s1)" "flags (bufs s1 b) AND B_VALID = 0" "\<not> rdy 0" "flags (bufs s1 b) AND B_DIRTY = 0"
    "idequeue s1 = 0" "b \<noteq> 0" "flags (bufs s1 b) AND B_BUSY \<noteq> 0" "havedisk1 s1"
  shows "\<exists>s'. bread rdy s d sec = Some (Got b, s') \<and> data (bufs s' b) = data (bufs s1 b) \<and>
    flags (bufs s' b) AND (B_VALID OR B_DIRTY) = B_VALID"
proof -
  let ?x = "bufs s1 b"
  define s2 where "s2 = s1\<lparr>bufs := (bufs s1)(b := ?x\<lparr>qnext := 0\<rparr>), idequeue := b,
    regs := set_regs ?x, blocks := apply_request (request_of ?x) (blocks s1)\<rparr>"
  have nv: "flags ?x AND (B_VALID OR B_DIRTY) \<noteq> B_VALID"
    by (rule not_valid_bits [OF assms(2,4)])
  have sub: "iderw_submit s1 b = Some s2"
    unfolding s2_def using assms nv by (intro iderw_submit_idle) auto
  have w1: "iderw_waits s2 b" using nv by (simp add: iderw_waits_def s2_def)
  define s3 where "s3 = s2\<lparr>idequeue := 0,
    bufs := (bufs s1)(b := ?x\<lparr>qnext := 0, flags := (flags ?x OR B_VALID) AND NOT B_DIRTY\<rparr>)\<rparr>"
  have i: "ideintr (rdy 0) s2 = Some (Some b, s3)"
    using assms(3,4,5,6) by (simp add: ideintr_def s2_def s3_def Let_def)
  have w2: "\<not> iderw_waits s3 b" by (simp add: iderw_waits_def s3_def valid_clean)
  have "iderw rdy s1 b = Some s3"
    unfolding iderw_def sub using w1 w2 i by (simp add: iderw_wait.simps [of _ s2] iderw_wait.simps [of _ s3])
  then have "bread rdy s d sec = Some (Got b, s3)" using assms(1,2) by (simp add: bread_def)
  then show ?thesis using w2 by (simp add: s3_def iderw_waits_def)
qed

section \<open>The cache invariant\<close>

text \<open>One buffer of the cache, given whether some process holds it: its busy flag says so, its
  sector is on the disk, and when nobody holds it a valid buffer has the contents of the disk.\<close>

definition buf_ok :: "ide_state \<Rightarrow> nat set \<Rightarrow> nat \<Rightarrow> bool" where
  "buf_ok s H b \<longleftrightarrow> (let x = bufs s b in
     (flags x AND B_BUSY \<noteq> 0 \<longleftrightarrow> b \<in> H) \<and> flags x AND B_DIRTY = 0 \<and>
     (dev x = -1 \<and> flags x AND B_VALID = 0 \<and> b \<notin> H \<or> block_addr (dev x) (sector x)) \<and>
     (b \<notin> H \<and> flags x AND B_VALID \<noteq> 0 \<longrightarrow> data x = disk s (dev x) (sector x)))"

definition no_dups :: "ide_state \<Rightarrow> bool" where
  "no_dups s \<longleftrightarrow> (\<forall>b\<in>{1..NBUF}. \<forall>b'\<in>{1..NBUF}. dev (bufs s b) \<noteq> -1 \<longrightarrow>
     dev (bufs s b) = dev (bufs s b') \<longrightarrow> sector (bufs s b) = sector (bufs s b') \<longrightarrow> b = b')"

lemma no_dupsD:
  "no_dups s \<Longrightarrow> b \<in> {1..NBUF} \<Longrightarrow> b' \<in> {1..NBUF} \<Longrightarrow> dev (bufs s b) \<noteq> -1 \<Longrightarrow>
    dev (bufs s b) = dev (bufs s b') \<Longrightarrow> sector (bufs s b) = sector (bufs s b') \<Longrightarrow> b = b'"
  unfolding no_dups_def by (metis (no_types))

text \<open>The cache while the buffers \<open>H\<close> are held; \<open>xs\<close> is the list, most recently used first.\<close>

definition cache_inv :: "ide_state \<Rightarrow> nat set \<Rightarrow> nat list \<Rightarrow> bool" where
  "cache_inv s H xs \<longleftrightarrow> ring (bufs s) xs \<and> idequeue s = 0 \<and> havedisk1 s \<and> H \<subseteq> {1..NBUF} \<and>
     (\<forall>b\<in>{1..NBUF}. buf_ok s H b) \<and> no_dups s"

lemma cache_invD:
  assumes "cache_inv s H xs"
  shows "ring (bufs s) xs" "idequeue s = 0" "havedisk1 s" "H \<subseteq> {1..NBUF}"
    "b \<in> {1..NBUF} \<Longrightarrow> buf_ok s H b" "no_dups s" "set xs = {1..NBUF}"
  using assms by (auto simp: cache_inv_def ring_def)

definition holds_sector :: "ide_state \<Rightarrow> nat set \<Rightarrow> u32 \<Rightarrow> u32 \<Rightarrow> bool" where
  "holds_sector s H d sec \<longleftrightarrow> (\<exists>b\<in>H. dev (bufs s b) = d \<and> sector (bufs s b) = sec)"

lemma block_addr_dev: "block_addr d sec \<Longrightarrow> d \<noteq> -1"
  by (auto simp: block_addr_def)

text \<open>What \<open>bget\<close> returns: a buffer nobody held, now busy, for the sector asked for; a valid one
  has the contents of the disk.\<close>

definition got_ok :: "ide_state \<Rightarrow> nat set \<Rightarrow> u32 \<Rightarrow> u32 \<Rightarrow> nat \<Rightarrow> ide_state \<Rightarrow> bool" where
  "got_ok s H d sec b s1 \<longleftrightarrow> b \<in> {1..NBUF} - H \<and> dev (bufs s1 b) = d \<and> sector (bufs s1 b) = sec \<and>
     flags (bufs s1 b) AND B_BUSY \<noteq> 0 \<and> flags (bufs s1 b) AND B_DIRTY = 0 \<and>
     (flags (bufs s1 b) AND B_VALID \<noteq> 0 \<longrightarrow> data (bufs s1 b) = disk s d sec) \<and>
     (\<forall>c. c \<noteq> b \<longrightarrow> bufs s1 c = bufs s c) \<and> blocks s1 = blocks s \<and> idequeue s1 = 0 \<and> havedisk1 s1 \<and>
     (\<forall>ys. ring (bufs s) ys \<longrightarrow> ring (bufs s1) ys) \<and>
     (\<forall>c\<in>{1..NBUF}. c \<noteq> b \<longrightarrow> \<not> (dev (bufs s c) = d \<and> sector (bufs s c) = sec))"

lemma bget_spec:
  assumes inv: "cache_inv s H xs" and a: "block_addr d sec" and nh: "\<not> holds_sector s H d sec"
    and room: "card H < NBUF"
  shows "\<exists>b s1. bget s d sec = Some (Got b, s1) \<and> got_ok s H d sec b s1"
proof -
  note R = ring_ends [OF cache_invD(1) [OF inv]] and S = cache_invD(7) [OF inv]
  let ?P = "\<lambda>b. dev (bufs s b) = d \<and> sector (bufs s b) = sec"
  show ?thesis
  proof (cases "find ?P xs")
    case (Some b)
    then have b: "?P b" "b \<in> set xs" by (auto simp: find_Some_iff)
    then have bn: "b \<in> {1..NBUF} - H" "b \<noteq> HEAD" using S nh by (auto simp: holds_sector_def HEAD_def)
    then have ok: "buf_ok s H b" using cache_invD(5) [OF inv] by blast
    have nb: "flags (bufs s b) AND B_BUSY = 0" using ok bn by (auto simp: buf_ok_def Let_def)
    have "find_cached (bufs s) d sec (nxt (bufs s HEAD)) = Some b"
      using find_cached_spec [OF R(2,5)] Some R(1) by simp
    then have g: "bget s d sec = Some (Got b, set_buf s b (\<lambda>x. x\<lparr>flags := flags x OR B_BUSY\<rparr>))"
      using nb bn by (simp add: bget_def)
    have uniq: "\<not> ?P c" if "c \<in> {1..NBUF}" "c \<noteq> b" for c
      using that b(1) bn(1) block_addr_dev [OF a] no_dupsD [OF cache_invD(6) [OF inv], of b c] by auto
    have "got_ok s H d sec b (set_buf s b (\<lambda>x. x\<lparr>flags := flags x OR B_BUSY\<rparr>))"
      using ok bn b uniq cache_invD(2,3) [OF inv]
      by (auto simp: got_ok_def buf_ok_def Let_def busy_bits ring_set_buf simp del: fun_upd_apply
        simp add: fun_upd_same fun_upd_other)
    then show ?thesis using g by blast
  next
    case None
    then have none: "\<not> ?P c" if "c \<in> {1..NBUF}" for c using that S by (auto simp: find_None_iff)
    have "\<exists>b\<in>{1..NBUF}. b \<notin> H"
    proof (rule ccontr)
      assume "\<not> ?thesis"
      then have "H = {1..NBUF}" using cache_invD(4) [OF inv] by blast
      then have "card H = NBUF" by simp
      then show False using room by simp
    qed
    then obtain e where e: "e \<in> {1..NBUF}" "e \<notin> H" by blast
    then have "e \<in> set (rev xs)" "flags (bufs s e) AND B_BUSY = 0"
      using S cache_invD(5) [OF inv e(1)] by (simp_all add: buf_ok_def Let_def)
    then have "find (\<lambda>b. flags (bufs s b) AND B_BUSY = 0) (rev xs) \<noteq> None"
      unfolding find_None_iff by blast
    then obtain b where f: "find (\<lambda>b. flags (bufs s b) AND B_BUSY = 0) (rev xs) = Some b"
      by blast
    then have "b \<in> set (rev xs)" and nb: "flags (bufs s b) AND B_BUSY = 0"
      unfolding find_Some_iff by (metis nth_mem, metis)
    then have b: "b \<in> set xs" by simp
    with nb have bn: "b \<in> {1..NBUF} - H" "b \<noteq> HEAD"
      using S cache_invD(5) [OF inv, of b] by (auto simp: buf_ok_def Let_def HEAD_def)
    have "find_cached (bufs s) d sec (nxt (bufs s HEAD)) = Some HEAD"
      using find_cached_spec [OF R(2,5)] None R(1) by simp
    moreover have "find_free (bufs s) (prev (bufs s HEAD)) = Some b"
      using find_free_spec [OF R(4,5)] f R(3) by simp
    ultimately have g: "bget s d sec = Some (Got b, set_buf s b (\<lambda>x. x\<lparr>dev := d, sector := sec, flags := B_BUSY\<rparr>))"
      using bn by (simp add: bget_def)
    have "got_ok s H d sec b (set_buf s b (\<lambda>x. x\<lparr>dev := d, sector := sec, flags := B_BUSY\<rparr>))"
      using bn none cache_invD(2,3) [OF inv]
      by (auto simp: got_ok_def busy_bits ring_set_buf simp del: fun_upd_apply
        simp add: fun_upd_same fun_upd_other)
    then show ?thesis using g by blast
  qed
qed

lemma got_ok_inv:
  assumes inv: "cache_inv s H xs" and g: "got_ok s H d sec b s1" and a: "block_addr d sec"
    and s2: "\<And>c. c \<noteq> b \<Longrightarrow> bufs s2 c = bufs s1 c" "idequeue s2 = 0" "havedisk1 s2"
      "blocks s2 = blocks s1" "\<And>ys. ring (bufs s1) ys \<Longrightarrow> ring (bufs s2) ys"
      "dev (bufs s2 b) = d" "sector (bufs s2 b) = sec" "flags (bufs s2 b) AND B_BUSY \<noteq> 0"
      "flags (bufs s2 b) AND B_DIRTY = 0"
  shows "cache_inv s2 (insert b H) xs"
proof -
  have oth: "bufs s2 c = bufs s c" if "c \<noteq> b" for c
    using that s2(1) g by (auto simp: got_ok_def)
  have "buf_ok s2 (insert b H) c" if "c \<in> {1..NBUF}" for c
  proof (cases "c = b")
    case True
    then show ?thesis using s2 a by (simp add: buf_ok_def)
  next
    case False
    then show ?thesis using oth [OF False] cache_invD(5) [OF inv that] s2(4) g
      by (simp add: buf_ok_def Let_def disk_def got_ok_def)
  qed
  moreover have "no_dups s2"
    unfolding no_dups_def
  proof (intro ballI impI)
    fix c c'
    assume c: "c \<in> {1..NBUF}" "c' \<in> {1..NBUF}" "dev (bufs s2 c) \<noteq> -1"
      "dev (bufs s2 c) = dev (bufs s2 c')" "sector (bufs s2 c) = sector (bufs s2 c')"
    have no: "\<not> (dev (bufs s e) = d \<and> sector (bufs s e) = sec)" if "e \<in> {1..NBUF}" "e \<noteq> b" for e
      using that g by (simp add: got_ok_def)
    show "c = c'"
    proof (cases "c = b \<or> c' = b")
      case True
      then consider "c = b" "c' \<noteq> b" | "c' = b" "c \<noteq> b" | "c = c'" by blast
      then show ?thesis
      proof cases
        case 1
        then show ?thesis using c no [of c'] s2(6,7) oth [of c'] by simp
      next
        case 2
        then show ?thesis using c no [of c] s2(6,7) oth [of c] by simp
      qed
    next
      case False
      then have "bufs s2 c = bufs s c" "bufs s2 c' = bufs s c'" using oth by simp_all
      then show ?thesis using c by (intro no_dupsD [OF cache_invD(6) [OF inv]]) simp_all
    qed
  qed
  moreover have "ring (bufs s2) xs" "b \<in> {1..NBUF}"
    using g s2(5) cache_invD(1) [OF inv] by (auto simp: got_ok_def)
  ultimately show ?thesis
    using s2(2,3) cache_invD(4) [OF inv] by (simp add: cache_inv_def)
qed

lemma ring_served:
  "ring (bufs s) ys \<Longrightarrow> ring ((bufs s)(b := served s b)) ys"
  by (subst ring_cong [of _ "bufs s"]) (auto simp: links_of_def served_def Let_def)

lemma bread_spec:
  assumes inv: "cache_inv s H xs" and a: "block_addr d sec" and nh: "\<not> holds_sector s H d sec"
    and room: "card H < NBUF"
  shows "\<exists>b s'. bread no_error s d sec = Some (Got b, s') \<and> b \<notin> H \<and> cache_inv s' (insert b H) xs \<and>
    data (bufs s' b) = disk s d sec \<and> dev (bufs s' b) = d \<and> sector (bufs s' b) = sec \<and>
    (\<forall>c. c \<noteq> b \<longrightarrow> bufs s' c = bufs s c) \<and> blocks s' = blocks s"
proof -
  from bget_spec [OF assms] obtain b s1 where
    g: "bget s d sec = Some (Got b, s1)" "got_ok s H d sec b s1" by blast
  note G = g(2) [unfolded got_ok_def]
  show ?thesis
  proof (cases "flags (bufs s1 b) AND B_VALID = 0")
    case False
    then have "bread no_error s d sec = Some (Got b, s1)" using g(1) by (simp add: bread_def)
    moreover have "cache_inv s1 (insert b H) xs"
      using G by (intro got_ok_inv [OF inv g(2) a]) simp_all
    ultimately show ?thesis using False G by auto
  next
    case True
    from G True obtain r where rw: "iderw no_error s1 b = Some (s1\<lparr>bufs := (bufs s1)(b := served s1 b), regs := r,
        blocks := blocks s1\<rparr>)"
      using iderw_spec [of s1 b] a not_valid_bits [of "flags (bufs s1 b)"] by (auto split: if_splits)
    let ?s = "s1\<lparr>bufs := (bufs s1)(b := served s1 b), regs := r, blocks := blocks s1\<rparr>"
    have br: "bread no_error s d sec = Some (Got b, ?s)" using g(1) True rw by (simp add: bread_def)
    have "cache_inv ?s (insert b H) xs"
      using G by (intro got_ok_inv [OF inv g(2) a]) (simp_all add: ring_served, simp_all add: served_def Let_def clean_bits)
    moreover have "data (bufs ?s b) = disk s d sec"
      using G by (simp add: served_def Let_def disk_def)
    ultimately show ?thesis using br G by (auto simp: served_def Let_def)
  qed
qed

lemma bwrite_spec:
  assumes inv: "cache_inv s H xs" and b: "b \<in> H"
  shows "\<exists>s'. bwrite no_error s b = Some s' \<and> cache_inv s' H xs \<and>
    (\<forall>d sec. disk s' d sec = (if d = dev (bufs s b) \<and> sec = sector (bufs s b) then data (bufs s b) else disk s d sec)) \<and>
    (\<forall>c. dev (bufs s' c) = dev (bufs s c) \<and> sector (bufs s' c) = sector (bufs s c) \<and>
       data (bufs s' c) = data (bufs s c))"
proof -
  have bn: "b \<in> {1..NBUF}" using b cache_invD(4) [OF inv] by auto
  note ok = cache_invD(5) [OF inv bn, unfolded buf_ok_def Let_def]
  define s1 where "s1 = set_buf s b (\<lambda>x. x\<lparr>flags := flags x OR B_DIRTY\<rparr>)"
  have x: "bufs s1 b = (bufs s b)\<lparr>flags := flags (bufs s b) OR B_DIRTY\<rparr>"
    and same: "idequeue s1 = 0" "havedisk1 s1" "blocks s1 = blocks s" "\<And>c. c \<noteq> b \<Longrightarrow> bufs s1 c = bufs s c"
    using cache_invD(2,3) [OF inv] by (auto simp: s1_def)
  let ?d = "dev (bufs s b)" and ?sec = "sector (bufs s b)"
  have ba: "block_addr ?d ?sec" using ok b by blast
  define bl where "bl = (blocks s)(unat ?d := (blocks s (unat ?d))(unat ?sec := data (bufs s b)))"
  obtain r where rw: "iderw no_error s1 b = Some (s1\<lparr>bufs := (bufs s1)(b := served s1 b), regs := r, blocks := bl\<rparr>)"
    using iderw_spec [of s1 b] same bn ok b ba by (auto simp: x dirty_bits bl_def)
  let ?s = "s1\<lparr>bufs := (bufs s1)(b := served s1 b), regs := r, blocks := bl\<rparr>"
  have bw: "bwrite no_error s b = Some ?s"
    using rw ok b by (simp add: bwrite_def s1_def)
  have disk: "disk ?s d sec = (if d = ?d \<and> sec = ?sec then data (bufs s b) else disk s d sec)" for d sec
    by (auto simp: disk_def bl_def word_unat_eq_iff)
  have sv: "served s1 b = (bufs s b)\<lparr>qnext := 0, flags := ((flags (bufs s b) OR B_DIRTY) OR B_VALID) AND NOT B_DIRTY\<rparr>"
    by (simp add: served_def x dirty_bits Let_def)
  have fields: "dev (bufs ?s c) = dev (bufs s c) \<and> sector (bufs ?s c) = sector (bufs s c) \<and>
      data (bufs ?s c) = data (bufs s c)" for c
    using same(4) by (cases "c = b") (simp_all add: sv)
  have "buf_ok ?s H c" if "c \<in> {1..NBUF}" for c
  proof (cases "c = b")
    case True
    then show ?thesis using ok b by (simp add: buf_ok_def sv clean_bits dirty_bits)
  next
    case False
    have "\<not> (dev (bufs s c) = ?d \<and> sector (bufs s c) = ?sec)"
      using False that bn block_addr_dev [OF ba] no_dupsD [OF cache_invD(6) [OF inv] bn that] by metis
    then have "disk ?s (dev (bufs s c)) (sector (bufs s c)) = disk s (dev (bufs s c)) (sector (bufs s c))"
      using disk by metis
    moreover have "bufs ?s c = bufs s c" using False same(4) by simp
    ultimately show ?thesis
      using cache_invD(5) [OF inv that] unfolding buf_ok_def Let_def by metis
  qed
  moreover have "no_dups ?s"
    using cache_invD(6) [OF inv] unfolding no_dups_def fields [THEN conjunct1] fields [THEN conjunct2, THEN conjunct1] .
  moreover have "ring (bufs ?s) xs"
  proof -
    have "ring (bufs s1) xs"
      unfolding s1_def using cache_invD(1) [OF inv] by (subst ring_set_buf) simp_all
    then show ?thesis using ring_served by simp
  qed
  ultimately have "cache_inv ?s H xs"
    using same cache_invD(4) [OF inv] by (simp add: cache_inv_def del: fun_upd_apply)
  then show ?thesis using bw disk fields by blast
qed

lemma brelse_bufs:
  assumes inv: "cache_inv s H xs" and b: "b \<in> H"
  shows "\<exists>s'. brelse s b = Some s' \<and> ring (bufs s') (b # remove1 b xs) \<and> blocks s' = blocks s \<and>
    idequeue s' = idequeue s \<and> havedisk1 s' = havedisk1 s \<and>
    (\<forall>c. dev (bufs s' c) = dev (bufs s c) \<and> sector (bufs s' c) = sector (bufs s c) \<and>
       data (bufs s' c) = data (bufs s c) \<and>
       flags (bufs s' c) = (if c = b then flags (bufs s c) AND NOT B_BUSY else flags (bufs s c)))"
proof -
  have bn: "b \<in> {1..NBUF}" using b cache_invD(4) [OF inv] by auto
  have busy: "flags (bufs s b) AND B_BUSY \<noteq> 0"
    using cache_invD(5) [OF inv bn] b by (simp add: buf_ok_def Let_def)
  note R = cache_invD(1) [OF inv]
  then obtain as cs where xs: "xs = as @ b # cs" using bn
    by (metis ring_def split_list)
  have d: "distinct (HEAD # as @ b # cs)" using R ring_ends(5) [OF R] by (auto simp: ring_def xs)
  have rm: "remove1 b xs = as @ cs" using d by (simp add: xs remove1_append)
  define n where "n = nxt (bufs s b)"
  define p where "p = prev (bufs s b)"
  define s1 where "s1 = set_buf s n (\<lambda>x. x\<lparr>prev := p\<rparr>)"
  define s2 where "s2 = set_buf s1 p (\<lambda>x. x\<lparr>nxt := n\<rparr>)"
  define s3 where "s3 = push_front s2 b"
  have n: "nxt (bufs s1 b) = n" and pp: "prev (bufs s1 b) = p"
    by (simp_all add: s1_def n_def p_def)
  have "brelse s b = Some (set_buf s3 b (\<lambda>x. x\<lparr>flags := flags x AND NOT B_BUSY\<rparr>))"
    unfolding brelse_def Let_def using busy n pp
    by (simp add: s3_def s2_def s1_def n_def p_def del: fun_upd_apply)
  moreover have "linked (bufs s) (HEAD # as @ b # cs @ [HEAD])"
    using R by (simp add: ring_def xs)
  from linked_unlink [OF this d n_def p_def] have "linked (bufs s2) (HEAD # as @ cs @ [HEAD])"
    by (simp add: s2_def s1_def del: fun_upd_apply)
  then have "linked (bufs s3) (HEAD # (b # as @ cs) @ [HEAD])"
    unfolding s3_def using d by (intro linked_push_front) auto
  then have "ring (bufs s3) (b # as @ cs)"
    using R d by (auto simp: ring_def xs)
  then have "ring (bufs (set_buf s3 b (\<lambda>x. x\<lparr>flags := flags x AND NOT B_BUSY\<rparr>))) (b # remove1 b xs)"
    by (subst ring_set_buf) (simp_all add: rm)
  moreover have "dev (bufs s3 c) = dev (bufs s c) \<and> sector (bufs s3 c) = sector (bufs s c) \<and>
       data (bufs s3 c) = data (bufs s c) \<and> flags (bufs s3 c) = flags (bufs s c)" for c
    by (simp add: s3_def s2_def s1_def)
  moreover have "blocks s3 = blocks s" "idequeue s3 = idequeue s" "havedisk1 s3 = havedisk1 s"
    by (simp_all add: s3_def s2_def s1_def)
  ultimately show ?thesis by auto
qed

lemma brelse_spec:
  assumes inv: "cache_inv s H xs" and b: "b \<in> H"
    and clean: "data (bufs s b) = disk s (dev (bufs s b)) (sector (bufs s b))"
  shows "\<exists>s'. brelse s b = Some s' \<and> cache_inv s' (H - {b}) (b # remove1 b xs) \<and> blocks s' = blocks s \<and>
    (\<forall>c. dev (bufs s' c) = dev (bufs s c) \<and> sector (bufs s' c) = sector (bufs s c) \<and>
       data (bufs s' c) = data (bufs s c))"
proof -
  obtain s' where s': "brelse s b = Some s'" "ring (bufs s') (b # remove1 b xs)" "blocks s' = blocks s"
      "idequeue s' = 0" "havedisk1 s'"
    and f: "\<And>c. dev (bufs s' c) = dev (bufs s c)" "\<And>c. sector (bufs s' c) = sector (bufs s c)"
       "\<And>c. data (bufs s' c) = data (bufs s c)"
       "\<And>c. flags (bufs s' c) = (if c = b then flags (bufs s c) AND NOT B_BUSY else flags (bufs s c))"
    using brelse_bufs [OF inv b] cache_invD(2,3) [OF inv] by auto
  have dk: "disk s' = disk s" using s'(3) by (simp add: disk_def fun_eq_iff)
  have "buf_ok s' (H - {b}) c" if "c \<in> {1..NBUF}" for c
    using cache_invD(5) [OF inv that] b clean
    by (cases "c = b") (simp_all add: buf_ok_def Let_def f dk busy_bits)
  moreover have "no_dups s'"
    using cache_invD(6) [OF inv] unfolding no_dups_def f .
  ultimately have "cache_inv s' (H - {b}) (b # remove1 b xs)"
    using s' cache_invD(4) [OF inv] by (auto simp: cache_inv_def)
  then show ?thesis using s' f by blast
qed

lemma poke_spec:
  assumes inv: "cache_inv s H xs" and b: "b \<in> H"
  shows "cache_inv (set_buf s b (\<lambda>x. x\<lparr>data := w\<rparr>)) H xs"
proof -
  let ?s = "set_buf s b (\<lambda>x. x\<lparr>data := w\<rparr>)"
  have f: "dev (bufs ?s c) = dev (bufs s c)" "sector (bufs ?s c) = sector (bufs s c)"
      "flags (bufs ?s c) = flags (bufs s c)" "c \<noteq> b \<Longrightarrow> data (bufs ?s c) = data (bufs s c)" for c
    by simp_all
  have dk: "disk ?s = disk s" by (simp add: disk_def fun_eq_iff)
  have "buf_ok ?s H c" if "c \<in> {1..NBUF}" for c
    using cache_invD(5) [OF inv that] b unfolding buf_ok_def Let_def dk f
    by (cases "c = b") (simp_all add: f(4))
  moreover have "no_dups ?s"
    using cache_invD(6) [OF inv] unfolding no_dups_def f .
  moreover have "ring (bufs ?s) xs"
    using cache_invD(1) [OF inv] by (subst ring_set_buf) simp_all
  ultimately show ?thesis
    using cache_invD(2-4) [OF inv] by (simp add: cache_inv_def del: fun_upd_apply)
qed

section \<open>Initialisation\<close>

lemma binit_loop_linked:
  assumes "linked (bufs s) (HEAD # xs @ [HEAD])" "distinct (HEAD # rev bs @ xs)"
  shows "linked (bufs (binit_loop bs s)) (HEAD # rev bs @ xs @ [HEAD])"
  using assms
proof (induction bs arbitrary: s xs)
  case (Cons b bs)
  let ?s = "set_buf s b (\<lambda>x. x\<lparr>dev := -1\<rparr>)"
  have "linked (bufs ?s) (HEAD # xs @ [HEAD]) = linked (bufs s) (HEAD # xs @ [HEAD])"
    by (rule linked_cong) simp_all
  then have "linked (bufs (push_front ?s b)) (HEAD # (b # xs) @ [HEAD])"
    using Cons.prems by (intro linked_push_front) auto
  then show ?case
    using Cons.IH [of "push_front ?s b" "b # xs"] Cons.prems by simp
qed simp

lemma binit_loop_fields:
  "blocks (binit_loop bs s) = blocks s \<and> idequeue (binit_loop bs s) = idequeue s \<and>
   havedisk1 (binit_loop bs s) = havedisk1 s \<and>
   (\<forall>c. flags (bufs (binit_loop bs s) c) = flags (bufs s c) \<and>
      dev (bufs (binit_loop bs s) c) = (if c \<in> set bs then -1 else dev (bufs s c)))"
  by (induction bs arbitrary: s) simp_all

lemma binit_inv:
  assumes "idequeue s = 0" "havedisk1 s" "\<And>b. flags (bufs s b) = 0"
  shows "cache_inv (binit s) {} (rev [1..<NBUF + 1]) \<and> blocks (binit s) = blocks s"
proof -
  define s1 where "s1 = set_buf (set_buf s HEAD (\<lambda>x. x\<lparr>prev := HEAD\<rparr>)) HEAD (\<lambda>x. x\<lparr>nxt := HEAD\<rparr>)"
  have s1: "idequeue s1 = 0" "havedisk1 s1" "\<And>b. flags (bufs s1 b) = 0" "blocks s1 = blocks s"
    using assms by (simp_all add: s1_def)
  have eq: "binit s = binit_loop [1..<NBUF + 1] s1" by (simp add: binit_def s1_def)
  note F = binit_loop_fields [of "[1..<NBUF + 1]" s1, folded eq]
  have "linked (bufs (binit s)) (HEAD # rev [1..<NBUF + 1] @ [] @ [HEAD])"
    unfolding eq by (rule binit_loop_linked) (auto simp: s1_def HEAD_def)
  then have "ring (bufs (binit s)) (rev [1..<NBUF + 1])"
    by (auto simp: ring_def)
  moreover have "buf_ok (binit s) {} b" if "b \<in> {1..NBUF}" for b
    using F s1 that by (auto simp: buf_ok_def Let_def)
  moreover have "no_dups (binit s)"
    unfolding no_dups_def using F by simp
  ultimately show ?thesis
    using F s1 by (simp add: cache_inv_def)
qed

section \<open>What the cache promises the file system\<close>

text \<open>A cache of blocks at addresses \<open>'a\<close> in buffers \<open>'b\<close>; \<open>ok s H\<close> says that the buffers \<open>H\<close> are
  held. A read of a block nobody holds succeeds while a buffer is free and returns the contents of
  the disk; writing makes the disk agree with the buffer; releasing a buffer that agrees with the
  disk loses nothing.\<close>

locale block_cache =
  fixes bread :: "'s \<Rightarrow> 'a \<Rightarrow> ('b \<times> 's) option"
    and bwrite :: "'s \<Rightarrow> 'b \<Rightarrow> 's option"
    and brelse :: "'s \<Rightarrow> 'b \<Rightarrow> 's option"
    and poke :: "'s \<Rightarrow> 'b \<Rightarrow> u8 list \<Rightarrow> 's"
    and contents :: "'s \<Rightarrow> 'b \<Rightarrow> u8 list"
    and addr :: "'s \<Rightarrow> 'b \<Rightarrow> 'a"
    and disk :: "'s \<Rightarrow> 'a \<Rightarrow> u8 list"
    and ok :: "'s \<Rightarrow> 'b set \<Rightarrow> bool"
    and valid :: "'a \<Rightarrow> bool"
    and capacity :: nat
  assumes bread_ok: "ok s H \<Longrightarrow> valid a \<Longrightarrow> a \<notin> addr s ` H \<Longrightarrow> card H < capacity \<Longrightarrow>
      \<exists>b s'. bread s a = Some (b, s') \<and> b \<notin> H \<and> ok s' (insert b H) \<and> contents s' b = disk s a \<and>
        addr s' b = a \<and> (\<forall>c\<in>H. contents s' c = contents s c \<and> addr s' c = addr s c) \<and> disk s' = disk s"
    and poke_ok: "ok s H \<Longrightarrow> b \<in> H \<Longrightarrow> ok (poke s b w) H \<and> disk (poke s b w) = disk s \<and>
        addr (poke s b w) = addr s \<and> contents (poke s b w) = (contents s)(b := w)"
    and bwrite_ok: "ok s H \<Longrightarrow> b \<in> H \<Longrightarrow> \<exists>s'. bwrite s b = Some s' \<and> ok s' H \<and> addr s' = addr s \<and>
        contents s' = contents s \<and> disk s' = (disk s)(addr s b := contents s b)"
    and brelse_ok: "ok s H \<Longrightarrow> b \<in> H \<Longrightarrow> contents s b = disk s (addr s b) \<Longrightarrow>
      \<exists>s'. brelse s b = Some s' \<and> ok s' (H - {b}) \<and> disk s' = disk s \<and> addr s' = addr s \<and>
        contents s' = contents s"
begin

lemma update_ok:
  assumes "ok s {}" "valid a" "0 < capacity"
  shows "\<exists>b s1 s2 s3. bread s a = Some (b, s1) \<and> contents s1 b = disk s a \<and>
    bwrite (poke s1 b w) b = Some s2 \<and> brelse s2 b = Some s3 \<and> ok s3 {} \<and> disk s3 = (disk s)(a := w)"
proof -
  obtain b s1 where r: "bread s a = Some (b, s1)" "ok s1 {b}" "contents s1 b = disk s a" "addr s1 b = a"
      "disk s1 = disk s"
    using bread_ok [of s "{}" a] assms by auto
  note p = poke_ok [OF r(2), of b w, simplified]
  then obtain s2 where w: "bwrite (poke s1 b w) b = Some s2" "ok s2 {b}" "addr s2 b = a" "contents s2 b = w"
      "disk s2 = (disk s)(a := w)"
    using bwrite_ok [of "poke s1 b w" "{b}" b] r by auto
  then obtain s3 where "brelse s2 b = Some s3" "ok s3 {}" "disk s3 = disk s2"
    using brelse_ok [of s2 "{b}" b] by auto
  then show ?thesis using r w by auto
qed

lemma fetch_ok:
  assumes "ok s {}" "valid a" "0 < capacity"
  shows "\<exists>b s1 s2. bread s a = Some (b, s1) \<and> contents s1 b = disk s a \<and> brelse s1 b = Some s2 \<and>
    ok s2 {} \<and> disk s2 = disk s"
proof -
  obtain b s1 where r: "bread s a = Some (b, s1)" "ok s1 {b}" "contents s1 b = disk s a" "addr s1 b = a"
      "disk s1 = disk s"
    using bread_ok [of s "{}" a] assms by auto
  then obtain s2 where "brelse s1 b = Some s2" "ok s2 {}" "disk s2 = disk s1"
    using brelse_ok [of s1 "{b}" b] by auto
  then show ?thesis using r by auto
qed

end

text \<open>\<open>bread\<close> for a caller that does not have to sleep.\<close>

definition bread_now :: "ide_state \<Rightarrow> u32 \<times> u32 \<Rightarrow> (nat \<times> ide_state) option" where
  "bread_now s a = (case bread no_error s (fst a) (snd a) of Some (Got b, s') \<Rightarrow> Some (b, s') | _ \<Rightarrow> None)"

definition buf_addr :: "ide_state \<Rightarrow> nat \<Rightarrow> u32 \<times> u32" where
  "buf_addr s b = (dev (bufs s b), sector (bufs s b))"

interpretation bc: block_cache "bread_now" "bwrite no_error" brelse
    "\<lambda>s b w. set_buf s b (\<lambda>x. x\<lparr>data := w\<rparr>)" "\<lambda>s b. data (bufs s b)" buf_addr
    "\<lambda>s a. disk s (fst a) (snd a)" "\<lambda>s H. \<exists>xs. cache_inv s H xs" "\<lambda>a. block_addr (fst a) (snd a)" NBUF
proof
  fix s H a
  assume "\<exists>xs. cache_inv s H xs" "block_addr (fst a) (snd a)" "a \<notin> buf_addr s ` H" "card H < NBUF"
  moreover from this(3) have "\<not> holds_sector s H (fst a) (snd a)"
    by (auto simp: holds_sector_def buf_addr_def image_iff)
  ultimately obtain b s' xs where "bread no_error s (fst a) (snd a) = Some (Got b, s')" "b \<notin> H" "cache_inv s' (insert b H) xs"
    "data (bufs s' b) = disk s (fst a) (snd a)" "dev (bufs s' b) = fst a" "sector (bufs s' b) = snd a"
    "\<forall>c. c \<noteq> b \<longrightarrow> bufs s' c = bufs s c" "blocks s' = blocks s"
    using bread_spec by blast
  then show "\<exists>b s'. bread_now s a = Some (b, s') \<and> b \<notin> H \<and> (\<exists>xs. cache_inv s' (insert b H) xs) \<and>
      data (bufs s' b) = disk s (fst a) (snd a) \<and> buf_addr s' b = a \<and>
      (\<forall>c\<in>H. data (bufs s' c) = data (bufs s c) \<and> buf_addr s' c = buf_addr s c) \<and>
      (\<lambda>a. disk s' (fst a) (snd a)) = (\<lambda>a. disk s (fst a) (snd a))"
    by (intro exI [of _ b] exI [of _ s']) (auto simp: bread_now_def buf_addr_def disk_def)
next
  fix s H b w
  assume "\<exists>xs. cache_inv s H xs" "b \<in> H"
  then show "(\<exists>xs. cache_inv (set_buf s b (\<lambda>x. x\<lparr>data := w\<rparr>)) H xs) \<and>
      (\<lambda>a. disk (set_buf s b (\<lambda>x. x\<lparr>data := w\<rparr>)) (fst a) (snd a)) = (\<lambda>a. disk s (fst a) (snd a)) \<and>
      buf_addr (set_buf s b (\<lambda>x. x\<lparr>data := w\<rparr>)) = buf_addr s \<and>
      (\<lambda>c. data (bufs (set_buf s b (\<lambda>x. x\<lparr>data := w\<rparr>)) c)) = (\<lambda>b. data (bufs s b))(b := w)"
    using poke_spec by (intro conjI) (blast, simp_all add: disk_def buf_addr_def fun_eq_iff)
next
  fix s H b
  assume "\<exists>xs. cache_inv s H xs" "b \<in> H"
  then obtain s' xs where "bwrite no_error s b = Some s'" "cache_inv s' H xs"
    "\<forall>d sec. disk s' d sec = (if d = dev (bufs s b) \<and> sec = sector (bufs s b) then data (bufs s b) else disk s d sec)"
    "\<forall>c. dev (bufs s' c) = dev (bufs s c) \<and> sector (bufs s' c) = sector (bufs s c) \<and> data (bufs s' c) = data (bufs s c)"
    using bwrite_spec by blast
  then show "\<exists>s'. bwrite no_error s b = Some s' \<and> (\<exists>xs. cache_inv s' H xs) \<and> buf_addr s' = buf_addr s \<and>
      (\<lambda>b. data (bufs s' b)) = (\<lambda>b. data (bufs s b)) \<and>
      (\<lambda>a. disk s' (fst a) (snd a)) = (\<lambda>a. disk s (fst a) (snd a))(buf_addr s b := data (bufs s b))"
    by (intro exI [of _ s']) (auto simp: buf_addr_def fun_eq_iff)
next
  fix s H b
  assume "\<exists>xs. cache_inv s H xs" "b \<in> H" "data (bufs s b) = disk s (fst (buf_addr s b)) (snd (buf_addr s b))"
  then obtain s' xs where "brelse s b = Some s'" "cache_inv s' (H - {b}) xs" "blocks s' = blocks s"
    "\<forall>c. dev (bufs s' c) = dev (bufs s c) \<and> sector (bufs s' c) = sector (bufs s c) \<and> data (bufs s' c) = data (bufs s c)"
    using brelse_spec by (fastforce simp: buf_addr_def)
  then show "\<exists>s'. brelse s b = Some s' \<and> (\<exists>xs. cache_inv s' (H - {b}) xs) \<and>
      (\<lambda>a. disk s' (fst a) (snd a)) = (\<lambda>a. disk s (fst a) (snd a)) \<and> buf_addr s' = buf_addr s \<and>
      (\<lambda>b. data (bufs s' b)) = (\<lambda>b. data (bufs s b))"
    by (intro exI [of _ s']) (auto simp: buf_addr_def fun_eq_iff disk_def)
qed

section \<open>Properties\<close>

text \<open>Transactions of the file system on one block.\<close>

datatype block_op = Fetch u32 u32 | Update u32 u32 "u8 list"

fun run_block_ops :: "block_op list \<Rightarrow> ide_state \<Rightarrow> (u8 list list \<times> ide_state) option" where
  "run_block_ops [] s = Some ([], s)"
| "run_block_ops (Fetch d sec # ops) s = do {
     (b, s1) \<leftarrow> bread_now s (d, sec);
     s2 \<leftarrow> brelse s1 b;
     (rs, s') \<leftarrow> run_block_ops ops s2;
     Some (data (bufs s1 b) # rs, s') }"
| "run_block_ops (Update d sec w # ops) s = do {
     (b, s1) \<leftarrow> bread_now s (d, sec);
     s2 \<leftarrow> bwrite no_error (set_buf s1 b (\<lambda>x. x\<lparr>data := w\<rparr>)) b;
     s3 \<leftarrow> brelse s2 b;
     run_block_ops ops s3 }"

fun array_ops :: "block_op list \<Rightarrow> (u32 \<times> u32 \<Rightarrow> u8 list) \<Rightarrow> u8 list list \<times> (u32 \<times> u32 \<Rightarrow> u8 list)" where
  "array_ops [] m = ([], m)"
| "array_ops (Fetch d sec # ops) m = (case array_ops ops m of (rs, m') \<Rightarrow> (m (d, sec) # rs, m'))"
| "array_ops (Update d sec w # ops) m = array_ops ops (m((d, sec) := w))"

fun op_addr_ok :: "block_op \<Rightarrow> bool" where
  "op_addr_ok (Fetch d sec) \<longleftrightarrow> block_addr d sec"
| "op_addr_ok (Update d sec w) \<longleftrightarrow> block_addr d sec"

lemma run_block_ops_refines:
  assumes "\<exists>xs. cache_inv s {} xs" "\<forall>p\<in>set ops. op_addr_ok p"
  shows "\<exists>rs s'. run_block_ops ops s = Some (rs, s') \<and> (\<exists>xs. cache_inv s' {} xs) \<and>
    array_ops ops (\<lambda>a. disk s (fst a) (snd a)) = (rs, \<lambda>a. disk s' (fst a) (snd a))"
  using assms
proof (induction ops arbitrary: s)
  case (Cons p ops)
  show ?case
  proof (cases p)
    case (Fetch d sec)
    with Cons.prems obtain b s1 s2 where "bread_now s (d, sec) = Some (b, s1)"
      "data (bufs s1 b) = disk s d sec" "brelse s1 b = Some s2" "\<exists>xs. cache_inv s2 {} xs"
      "(\<lambda>a. disk s2 (fst a) (snd a)) = (\<lambda>a. disk s (fst a) (snd a))"
      using bc.fetch_ok [of s "(d, sec)"] by (auto simp: NBUF_def)
    with Cons Fetch Cons.IH [of s2] show ?thesis by auto
  next
    case (Update d sec w)
    with Cons.prems obtain b s1 s2 s3 where "bread_now s (d, sec) = Some (b, s1)"
      "bwrite no_error (set_buf s1 b (\<lambda>x. x\<lparr>data := w\<rparr>)) b = Some s2" "brelse s2 b = Some s3" "\<exists>xs. cache_inv s3 {} xs"
      "(\<lambda>a. disk s3 (fst a) (snd a)) = (\<lambda>a. disk s (fst a) (snd a))((d, sec) := w)"
      using bc.update_ok [of s "(d, sec)" w] by (simp add: NBUF_def) blast
    with Cons Update Cons.IH [of s3] show ?thesis by auto
  qed
qed auto

text \<open>
  C18: From \<open>binit\<close> on, any sequence of block reads (\<open>bread\<close>, \<open>brelse\<close>) and block updates (\<open>bread\<close>,
  change, \<open>bwrite\<close>, \<open>brelse\<close>) runs without a panic and without sleeping, and the cache is invisible:
  every read returns what a plain array of blocks would return, and the disk ends as that array.
\<close>
theorem buffer_cache_transparent:
  assumes "idequeue s = 0" "havedisk1 s" "\<And>b. flags (bufs s b) = 0" "\<forall>p\<in>set ops. op_addr_ok p"
  shows "\<exists>rs s'. run_block_ops ops (binit s) = Some (rs, s') \<and>
    array_ops ops (\<lambda>a. disk s (fst a) (snd a)) = (rs, \<lambda>a. disk s' (fst a) (snd a))"
proof -
  have "cache_inv (binit s) {} (rev [1..<NBUF + 1])" "disk (binit s) = disk s"
    using binit_inv [of s] assms(1-3) by (simp_all add: disk_def fun_eq_iff)
  then show ?thesis
    using run_block_ops_refines [of "binit s" ops] assms(4) by auto
qed

text \<open>
  Releasing a buffer that some process holds moves it to the front of the list and keeps the
  order of the others, and a block that is not cached goes into the least recently used buffer
  that nobody holds.
\<close>
theorem buffer_cache_lru:
  assumes "cache_inv s H xs" "b \<in> H"
  shows "(\<exists>s'. brelse s b = Some s' \<and> ring (bufs s') (b # remove1 b xs)) \<and>
    (\<forall>d sec. (\<forall>c\<in>{1..NBUF}. \<not> (dev (bufs s c) = d \<and> sector (bufs s c) = sec)) \<longrightarrow>
       (case filter (\<lambda>c. c \<notin> H) (rev xs) of [] \<Rightarrow> bget s d sec = None
        | v # vs \<Rightarrow> \<exists>s'. bget s d sec = Some (Got v, s')))"
proof (intro conjI allI impI)
  show "\<exists>s'. brelse s b = Some s' \<and> ring (bufs s') (b # remove1 b xs)"
    using brelse_bufs [OF assms] by blast
  fix d sec
  assume un: "\<forall>c\<in>{1..NBUF}. \<not> (dev (bufs s c) = d \<and> sector (bufs s c) = sec)"
  note R = ring_ends [OF cache_invD(1) [OF assms(1)]] and S = cache_invD(7) [OF assms(1)]
  have "find (\<lambda>b. dev (bufs s b) = d \<and> sector (bufs s b) = sec) xs = None"
    using un S by (simp add: find_None_iff)
  then have c: "find_cached (bufs s) d sec (nxt (bufs s HEAD)) = Some HEAD"
    using find_cached_spec [OF R(2,5)] R(1) by simp
  have "filter (\<lambda>b. flags (bufs s b) AND B_BUSY = 0) (rev xs) = filter (\<lambda>c. c \<notin> H) (rev xs)"
    using S cache_invD(5) [OF assms(1)] by (intro filter_cong) (auto simp: buf_ok_def Let_def)
  then have f: "find_free (bufs s) (prev (bufs s HEAD)) =
      Some (case filter (\<lambda>c. c \<notin> H) (rev xs) of [] \<Rightarrow> HEAD | v # vs \<Rightarrow> v)"
    using find_free_spec [OF R(4,5)] R(3) by (simp add: find_filter split: list.split)
  show "case filter (\<lambda>c. c \<notin> H) (rev xs) of [] \<Rightarrow> bget s d sec = None
      | v # vs \<Rightarrow> \<exists>s'. bget s d sec = Some (Got v, s')"
  proof (cases "filter (\<lambda>c. c \<notin> H) (rev xs)")
    case Nil
    then show ?thesis using c f by (simp add: bget_def)
  next
    case (Cons v vs)
    then have "v \<in> set (filter (\<lambda>c. c \<notin> H) (rev xs))" by simp
    then have "v \<in> set xs" by simp
    then have "v \<noteq> HEAD" using S by (auto simp: HEAD_def)
    then show ?thesis using c f Cons by (simp add: bget_def)
  qed
qed

text \<open>A machine with zeroed buffers and a disk whose blocks hold their own address.\<close>

definition blank_disk :: ide_state where
  "blank_disk = \<lparr>bufs = (\<lambda>_. \<lparr>flags = 0, dev = 0, sector = 0, prev = 0, nxt = 0, qnext = 0, data = []\<rparr>),
     idequeue = 0, havedisk1 = True, regs = \<lparr>lba0 = 0, lba1 = 0, lba2 = 0, drive = 0\<rparr>,
     blocks = (\<lambda>d l. [of_nat d, of_nat l])\<rparr>"

lemma blank_disk_inv: "cache_inv (binit blank_disk) {} (rev [1..<NBUF + 1])"
  by (rule binit_inv [THEN conjunct1]) (simp_all add: blank_disk_def)

theorem buffer_cache_transparent_witness:
  "\<exists>s'. run_block_ops [Fetch 1 5, Update 1 5 [9], Fetch 1 5, Fetch 0 6] (binit blank_disk) =
     Some ([[1, 5], [9], [0, 6]], s')"
proof -
  let ?ops = "[Fetch 1 5, Update 1 5 [9], Fetch 1 5, Fetch 0 6]"
  have "idequeue blank_disk = 0" "havedisk1 blank_disk" "\<And>b. flags (bufs blank_disk b) = 0"
    "\<forall>p\<in>set ?ops. op_addr_ok p"
    by (simp_all add: blank_disk_def block_addr_def)
  from buffer_cache_transparent [OF this] obtain rs s' where
    r: "run_block_ops ?ops (binit blank_disk) = Some (rs, s')"
      "array_ops ?ops (\<lambda>a. disk blank_disk (fst a) (snd a)) = (rs, \<lambda>a. disk s' (fst a) (snd a))"
    by blast
  have "fst (array_ops ?ops (\<lambda>a. disk blank_disk (fst a) (snd a))) = [[1, 5], [9], [0, 6]]"
    by (simp add: blank_disk_def disk_def)
  then show ?thesis using r by auto
qed

theorem buffer_cache_lru_witness:
  "\<exists>b s. bread no_error (binit blank_disk) 1 5 = Some (Got b, s) \<and>
     (\<exists>s'. brelse s b = Some s' \<and> ring (bufs s') (b # remove1 b (rev [1..<NBUF + 1])))"
proof -
  obtain b s where r: "bread no_error (binit blank_disk) 1 5 = Some (Got b, s)"
      "cache_inv s (insert b {}) (rev [1..<NBUF + 1])"
    using bread_spec [OF blank_disk_inv, of 1 5] by (auto simp: block_addr_def holds_sector_def NBUF_def)
  from buffer_cache_lru [OF r(2) insertI1] r(1) show ?thesis by blast
qed

end
