(* ===== verification/Proc.thy ===== *)
theory Proc
  imports Prelude
begin

text \<open>
  Processes and threads: \<open>P4/kernel/xv6/kernel/proc.c\<close> and \<open>sysproc.c\<close>. The process table is a list
  of records, a process pointer an index into it. Memory, files and inodes belong to other parts
  of the kernel: the operations on them that process management calls are the fields of
  \<open>kops\<close>, functions on a state \<open>'e\<close> this theory never looks into. An operation that can panic
  returns an option. A system call that has to wait does one pass of its loop at a time: it
  either has a result or has gone to sleep, and is entered again when it runs next.
\<close>

section \<open>Data\<close>

datatype procstate = UNUSED | EMBRYO | SLEEPING | RUNNABLE | RUNNING | ZOMBIE

text \<open>Sleep channels are addresses: null, that of a process, or some other one.\<close>

datatype chan = Null | ProcPtr nat | Addr nat

record trapframe =
  eax :: u32
  eip :: u32
  esp :: u32
  tf_rest :: "u32 list"

text \<open>The saved registers and, above them on the stack, the address \<open>swtch\<close> returns into next.\<close>

record kcontext =
  edi :: u32
  esi :: u32
  ebx :: u32
  ebp :: u32
  ctx_eip :: u32
  ret_addr :: u32

record proc =
  sz :: u32
  pgdir :: nat
  kstack :: nat
  state :: procstate
  pid :: int
  parent :: "nat option"
  tf :: trapframe
  pcontext :: kcontext
  pchan :: chan
  killed :: bool
  ofile :: "nat list"
  cwd :: nat
  pname :: string
  ustack :: u32
  chanId :: int

definition NPROC :: nat where "NPROC = 64"
definition NOFILE :: nat where "NOFILE = 16"

record 'e kern =
  procs :: "proc list"
  nextpid :: int
  initproc :: "nat option"
  env :: 'e

record 'e kops =
  op_kalloc :: "'e \<Rightarrow> nat \<times> 'e"
  op_kfree :: "nat \<Rightarrow> 'e \<Rightarrow> 'e option"
  op_setupkvm :: "'e \<Rightarrow> nat \<times> 'e"
  op_inituvm :: "nat \<Rightarrow> 'e \<Rightarrow> 'e option"
  op_copyuvm :: "nat \<Rightarrow> u32 \<Rightarrow> 'e \<Rightarrow> nat \<times> 'e"
  op_freevm :: "nat \<Rightarrow> 'e \<Rightarrow> 'e option"
  op_allocuvm :: "nat \<Rightarrow> u32 \<Rightarrow> u32 \<Rightarrow> 'e \<Rightarrow> u32 \<times> 'e"
  op_deallocuvm :: "nat \<Rightarrow> u32 \<Rightarrow> u32 \<Rightarrow> 'e \<Rightarrow> u32 \<times> 'e"
  op_copyout :: "nat \<Rightarrow> u32 \<Rightarrow> u32 list \<Rightarrow> 'e \<Rightarrow> bool \<times> 'e"
  op_filedup :: "nat \<Rightarrow> 'e \<Rightarrow> 'e option"
  op_fileclose :: "nat \<Rightarrow> 'e \<Rightarrow> 'e option"
  op_idup :: "nat \<Rightarrow> 'e \<Rightarrow> 'e option"
  op_iput :: "nat \<Rightarrow> 'e \<Rightarrow> 'e option"
  op_namei_root :: "'e \<Rightarrow> nat \<times> 'e"
  forkret_addr :: u32
  trapret_addr :: u32

abbreviation upd :: "nat \<Rightarrow> (proc \<Rightarrow> proc) \<Rightarrow> 'e kern \<Rightarrow> 'e kern" where
  "upd i f k \<equiv> k\<lparr>procs := (procs k)[i := f (procs k ! i)]\<rparr>"

section \<open>Creating processes\<close>

definition new_context :: "'e kops \<Rightarrow> kcontext" where
  "new_context ops = \<lparr>edi = 0, esi = 0, ebx = 0, ebp = 0, ctx_eip = forkret_addr ops, ret_addr = trapret_addr ops\<rparr>"

text \<open>The trap frame of a new process is the uninitialised top of its kernel stack; every caller
  overwrites it.\<close>

definition allocproc :: "'e kops \<Rightarrow> 'e kern \<Rightarrow> nat option \<times> 'e kern" where
  "allocproc ops k =
     (case first_index (\<lambda>p. state p = UNUSED) (procs k) of
        None \<Rightarrow> (None, k)
      | Some i \<Rightarrow>
          let k1 = (upd i (\<lambda>p. p\<lparr>state := EMBRYO, pid := nextpid k\<rparr>) k)\<lparr>nextpid := wrap32 (nextpid k + 1)\<rparr>;
              (stk, e) = op_kalloc ops (env k1);
              k2 = (upd i (\<lambda>p. p\<lparr>kstack := stk\<rparr>) k1)\<lparr>env := e\<rparr>
          in if stk = 0 then (None, upd i (\<lambda>p. p\<lparr>state := UNUSED\<rparr>) k2)
             else (Some i, upd i (\<lambda>p. p\<lparr>pcontext := new_context ops\<rparr>) k2))"


text \<open>The loop that hands the open files of the current process on to the new one.\<close>

fun dup_files :: "'e kops \<Rightarrow> nat list \<Rightarrow> nat list \<Rightarrow> 'e \<Rightarrow> (nat list \<times> 'e) option" where
  "dup_files ops (f # fs) (g # gs) e =
     (if f \<noteq> 0 then do {
        e1 \<leftarrow> op_filedup ops f e;
        (hs, e2) \<leftarrow> dup_files ops fs gs e1;
        Some (f # hs, e2) }
      else do { (hs, e2) \<leftarrow> dup_files ops fs gs e; Some (g # hs, e2) })"
| "dup_files ops fs gs e = Some (gs, e)"

text \<open>The last part of \<open>fork\<close> and \<open>clone\<close>: files, directory, name, and the state.\<close>

definition inherit :: "'e kops \<Rightarrow> nat \<Rightarrow> nat \<Rightarrow> 'e kern \<Rightarrow> (int \<times> 'e kern) option" where
  "inherit ops cur np k = do {
     (fs, e1) \<leftarrow> dup_files ops (ofile (procs k ! cur)) (ofile (procs k ! np)) (env k);
     e2 \<leftarrow> op_idup ops (cwd (procs k ! cur)) e1;
     let k1 = (upd np (\<lambda>p. p\<lparr>ofile := fs, cwd := cwd (procs k ! cur)\<rparr>) k)\<lparr>env := e2\<rparr>;
     Some (pid (procs k ! np),
       upd np (\<lambda>p. p\<lparr>state := RUNNABLE, pname := pname (procs k ! cur)\<rparr>) k1) }"

definition fork :: "'e kops \<Rightarrow> nat \<Rightarrow> 'e kern \<Rightarrow> (int \<times> 'e kern) option" where
  "fork ops cur k =
     (case allocproc ops k of
        (None, k1) \<Rightarrow> Some (-1, k1)
      | (Some np, k1) \<Rightarrow>
          let p = procs k1 ! cur;
              (pd, e) = op_copyuvm ops (pgdir p) (sz p) (env k1);
              k2 = (upd np (\<lambda>q. q\<lparr>pgdir := pd\<rparr>) k1)\<lparr>env := e\<rparr>
          in if pd = 0 then do {
               e' \<leftarrow> op_kfree ops (kstack (procs k2 ! np)) (env k2);
               Some (-1, (upd np (\<lambda>q. q\<lparr>kstack := 0, state := UNUSED\<rparr>) k2)\<lparr>env := e'\<rparr>) }
             else inherit ops cur np
               (upd np (\<lambda>q. q\<lparr>sz := sz p, parent := Some cur, tf := (tf p)\<lparr>eax := 0\<rparr>\<rparr>) k2))"

definition clone :: "'e kops \<Rightarrow> nat \<Rightarrow> u32 \<Rightarrow> u32 \<Rightarrow> u32 \<Rightarrow> 'e kern \<Rightarrow> (int \<times> 'e kern) option" where
  "clone ops cur fcn arg stk k =
     (if stk mod 4096 \<noteq> 0 then Some (-1, k)
      else if sz (procs k ! cur) - stk < 4096 then Some (-1, k)
      else case allocproc ops k of
        (None, k1) \<Rightarrow> Some (-1, k1)
      | (Some np, k1) \<Rightarrow>
          let p = procs k1 ! cur;
              k2 = upd np (\<lambda>q. q\<lparr>ustack := stk, pgdir := pgdir p, sz := sz p, parent := Some cur,
                     tf := (tf p)\<lparr>eax := 0\<rparr>\<rparr>) k1;
              sp = stk + 4096 - 8;
              (ok, e) = op_copyout ops (pgdir p) sp [0xffffffff, arg] (env k2);
              k3 = k2\<lparr>env := e\<rparr>
          in if \<not> ok then Some (-1, k3)
             else inherit ops cur np (upd np (\<lambda>q. q\<lparr>tf := (tf q)\<lparr>esp := sp, eip := fcn\<rparr>\<rparr>) k3))"

definition userinit :: "'e kops \<Rightarrow> u32 list \<Rightarrow> 'e kern \<Rightarrow> 'e kern option" where
  "userinit ops segs k =
     (case allocproc ops k of
        (None, _) \<Rightarrow> None
      | (Some p, k1) \<Rightarrow>
          let k2 = k1\<lparr>initproc := Some p\<rparr>;
              (pd, e1) = op_setupkvm ops (env k2)
          in if pd = 0 then None else do {
               e2 \<leftarrow> op_inituvm ops pd e1;
               let (root, e3) = op_namei_root ops e2;
               Some ((upd p (\<lambda>q. q\<lparr>pgdir := pd, sz := 4096,
                 tf := \<lparr>eax = 0, eip = 0, esp = 4096, tf_rest = segs\<rparr>,
                 pname := ''initcode'', cwd := root, state := RUNNABLE\<rparr>) k2)\<lparr>env := e3\<rparr>) })"

section \<open>Memory\<close>

definition growproc :: "'e kops \<Rightarrow> nat \<Rightarrow> int \<Rightarrow> 'e kern \<Rightarrow> int \<times> 'e kern" where
  "growproc ops cur n k =
     (let p = procs k ! cur;
          (sz1, e, fail) =
            (if n > 0 then let (s, e) = op_allocuvm ops (pgdir p) (sz p) (sz p + of_int n) (env k) in (s, e, s = 0)
             else if n < 0 then let (s, e) = op_deallocuvm ops (pgdir p) (sz p) (sz p + of_int n) (env k) in (s, e, s = 0)
             else (sz p, env k, False));
          k1 = k\<lparr>env := e\<rparr>
      in if fail then (-1, k1)
         else let k2 = upd cur (\<lambda>q. q\<lparr>sz := sz1\<rparr>) k1
              in (0, k2\<lparr>procs := map (\<lambda>q. if parent q = Some cur \<and> pgdir q = pgdir p then q\<lparr>sz := sz1\<rparr> else q) (procs k2)\<rparr>))"

definition sys_sbrk :: "'e kops \<Rightarrow> nat \<Rightarrow> int \<Rightarrow> 'e kern \<Rightarrow> int \<times> 'e kern" where
  "sys_sbrk ops cur n k =
     (let addr = sint (sz (procs k ! cur)); (r, k1) = growproc ops cur n k
      in if r < 0 then (-1, k1) else (addr, k1))"

section \<open>Sleeping and waking\<close>

definition sleep_on :: "nat \<Rightarrow> chan \<Rightarrow> 'e kern \<Rightarrow> 'e kern" where
  "sleep_on cur ch k = upd cur (\<lambda>p. p\<lparr>pchan := ch, state := SLEEPING\<rparr>) k"

definition sleep_done :: "nat \<Rightarrow> 'e kern \<Rightarrow> 'e kern" where
  "sleep_done cur k = upd cur (\<lambda>p. p\<lparr>pchan := Null\<rparr>) k"

definition wakeup1 :: "chan \<Rightarrow> 'e kern \<Rightarrow> 'e kern" where
  "wakeup1 ch k = k\<lparr>procs :=
     map (\<lambda>p. if state p = SLEEPING \<and> pchan p = ch then p\<lparr>state := RUNNABLE\<rparr> else p) (procs k)\<rparr>"

definition wakeup :: "chan \<Rightarrow> 'e kern \<Rightarrow> 'e kern" where
  "wakeup ch k = wakeup1 ch k"

definition condsleep :: "nat \<Rightarrow> int \<Rightarrow> 'e kern \<Rightarrow> 'e kern" where
  "condsleep cur n k = upd cur (\<lambda>p. p\<lparr>chanId := n, state := SLEEPING\<rparr>) k"

definition condsleep_done :: "nat \<Rightarrow> 'e kern \<Rightarrow> 'e kern" where
  "condsleep_done cur k = upd cur (\<lambda>p. p\<lparr>chanId := 0\<rparr>) k"

definition condwakeup :: "int \<Rightarrow> 'e kern \<Rightarrow> 'e kern" where
  "condwakeup n k = k\<lparr>procs :=
     map (\<lambda>p. if state p = SLEEPING \<and> chanId p = n then p\<lparr>state := RUNNABLE\<rparr> else p) (procs k)\<rparr>"

definition kill :: "int \<Rightarrow> 'e kern \<Rightarrow> int \<times> 'e kern" where
  "kill n k =
     (case first_index (\<lambda>p. pid p = n) (procs k) of
        None \<Rightarrow> (-1, k)
      | Some i \<Rightarrow> (0, upd i (\<lambda>p. p\<lparr>killed := True,
          state := (if state p = SLEEPING then RUNNABLE else state p)\<rparr>) k))"

section \<open>Exit and wait\<close>

definition chan_of :: "nat option \<Rightarrow> chan" where
  "chan_of p = (case p of None \<Rightarrow> Null | Some i \<Rightarrow> ProcPtr i)"

fun close_files :: "'e kops \<Rightarrow> nat list \<Rightarrow> 'e \<Rightarrow> 'e option" where
  "close_files ops [] e = Some e"
| "close_files ops (f # fs) e =
     (if f \<noteq> 0 then do { e1 \<leftarrow> op_fileclose ops f e; close_files ops fs e1 } else close_files ops fs e)"

text \<open>One turn of the loop of \<open>exit\<close> over the table.\<close>

definition abandon :: "'e kops \<Rightarrow> nat \<Rightarrow> nat \<Rightarrow> 'e kern \<Rightarrow> 'e kern" where
  "abandon ops cur i k =
     (let k1 = (if parent (procs k ! i) = Some cur \<and> pgdir (procs k ! i) = pgdir (procs k ! cur)
                then let (pd, e) = op_copyuvm ops (pgdir (procs k ! i)) (sz (procs k ! i)) (env k)
                     in (upd cur (\<lambda>p. p\<lparr>pgdir := pd\<rparr>) k)\<lparr>env := e\<rparr>
                else k)
      in if parent (procs k1 ! i) = Some cur
         then let k2 = upd i (\<lambda>p. p\<lparr>parent := initproc k1\<rparr>) k1
              in if state (procs k2 ! i) = ZOMBIE then wakeup1 (chan_of (initproc k2)) k2 else k2
         else k1)"

definition exit_proc :: "'e kops \<Rightarrow> nat \<Rightarrow> 'e kern \<Rightarrow> 'e kern option" where
  "exit_proc ops cur k =
     (if initproc k = Some cur then None
      else do {
        e1 \<leftarrow> close_files ops (ofile (procs k ! cur)) (env k);
        e2 \<leftarrow> op_iput ops (cwd (procs k ! cur)) e1;
        let k1 = (upd cur (\<lambda>p. p\<lparr>ofile := map (\<lambda>_. 0) (ofile p), cwd := 0\<rparr>) k)\<lparr>env := e2\<rparr>;
        let k2 = wakeup1 (chan_of (parent (procs k1 ! cur))) k1;
        let k3 = fold (abandon ops cur) [0..<NPROC] k2;
        Some (upd cur (\<lambda>p. p\<lparr>state := ZOMBIE\<rparr>) k3) })"

datatype wait_result = Done int | Sleeps

text \<open>The fields \<open>wait\<close> and \<open>join\<close> reset in the entry they free.\<close>

definition cleared :: "proc \<Rightarrow> proc" where
  "cleared p = p\<lparr>kstack := 0, state := UNUSED, pid := 0, parent := None, pname := [], killed := False\<rparr>"

text \<open>One pass of the loop of \<open>wait\<close>: a zombie child is reaped, or there is nothing to wait for,
  or the caller sleeps on its own address.\<close>

definition wait_pass :: "'e kops \<Rightarrow> nat \<Rightarrow> 'e kern \<Rightarrow> (wait_result \<times> 'e kern) option" where
  "wait_pass ops cur k =
     (let kid = (\<lambda>p. parent p = Some cur \<and> pgdir p \<noteq> pgdir (procs k ! cur)) in
      case first_index (\<lambda>p. kid p \<and> state p = ZOMBIE) (procs k) of
        Some i \<Rightarrow> do {
          e1 \<leftarrow> op_kfree ops (kstack (procs k ! i)) (env k);
          e2 \<leftarrow> op_freevm ops (pgdir (procs k ! i)) e1;
          Some (Done (pid (procs k ! i)), (upd i cleared k)\<lparr>env := e2\<rparr>) }
      | None \<Rightarrow>
          if \<not> list_ex kid (procs k) \<or> killed (procs k ! cur) then Some (Done (-1), k)
          else Some (Sleeps, sleep_on cur (ProcPtr cur) k))"

text \<open>\<open>join\<close> reaps the children that share the caller's page table and hands back their stack.\<close>

definition join_pass :: "'e kops \<Rightarrow> nat \<Rightarrow> 'e kern \<Rightarrow> (wait_result \<times> u32 option \<times> 'e kern) option" where
  "join_pass ops cur k =
     (let kid = (\<lambda>p. parent p = Some cur \<and> pgdir p = pgdir (procs k ! cur)) in
      case first_index (\<lambda>p. kid p \<and> state p = ZOMBIE) (procs k) of
        Some i \<Rightarrow> do {
          e1 \<leftarrow> op_kfree ops (kstack (procs k ! i)) (env k);
          Some (Done (pid (procs k ! i)), Some (ustack (procs k ! i)), (upd i cleared k)\<lparr>env := e1\<rparr>) }
      | None \<Rightarrow>
          if \<not> list_ex kid (procs k) \<or> killed (procs k ! cur) then Some (Done (-1), None, k)
          else Some (Sleeps, None, sleep_on cur (ProcPtr cur) k))"

section \<open>Scheduling\<close>

text \<open>The scheduler looks at entry \<open>i\<close>; it runs a runnable process.\<close>

definition scheduler_visit :: "nat \<Rightarrow> 'e kern \<Rightarrow> bool \<times> 'e kern" where
  "scheduler_visit i k =
     (if state (procs k ! i) \<noteq> RUNNABLE then (False, k)
      else (True, upd i (\<lambda>p. p\<lparr>state := RUNNING\<rparr>) k))"

text \<open>The tests of \<open>sched\<close> before it leaves the process: the table lock is held, it is the only
  lock, the state has been changed, interrupts are off.\<close>

definition sched_ok :: "bool \<Rightarrow> int \<Rightarrow> bool \<Rightarrow> nat \<Rightarrow> 'e kern \<Rightarrow> bool" where
  "sched_ok holding_ptable depth interruptible cur k \<longleftrightarrow>
     holding_ptable \<and> depth = 1 \<and> state (procs k ! cur) \<noteq> RUNNING \<and> \<not> interruptible"

definition yield :: "nat \<Rightarrow> 'e kern \<Rightarrow> 'e kern" where
  "yield cur k = upd cur (\<lambda>p. p\<lparr>state := RUNNABLE\<rparr>) k"

section \<open>What each operation does to the table\<close>

lemma upd_upd: "upd i g (upd i f k) = upd i (\<lambda>p. g (f p)) k"
  by (cases "i < length (procs k)") (simp_all add: list_update_beyond)

lemma allocproc_cases:
  assumes "allocproc ops k = (r, k')"
  obtains (full) "r = None" "k' = k" "\<forall>p\<in>set (procs k). state p \<noteq> UNUSED"
  | (no_stack) i e where "i < length (procs k)" "state (procs k ! i) = UNUSED" "r = None"
      "procs k' = (procs k)[i := (procs k ! i)\<lparr>pid := nextpid k, kstack := 0\<rparr>]"
      "nextpid k' = wrap32 (nextpid k + 1)" "initproc k' = initproc k" "env k' = e"
  | (got) i e stk where "i < length (procs k)" "state (procs k ! i) = UNUSED" "r = Some i" "stk \<noteq> 0"
      "op_kalloc ops (env k) = (stk, e)"
      "procs k' = (procs k)[i := (procs k ! i)\<lparr>state := EMBRYO, pid := nextpid k, kstack := stk,
        pcontext := new_context ops\<rparr>]"
      "nextpid k' = wrap32 (nextpid k + 1)" "initproc k' = initproc k" "env k' = e"
proof (cases "first_index (\<lambda>p. state p = UNUSED) (procs k)")
  case None
  then have "\<forall>p\<in>set (procs k). state p \<noteq> UNUSED" by simp
  moreover have "r = None" "k' = k" using assms unfolding allocproc_def None by simp_all
  ultimately show ?thesis using full by blast
next
  case (Some i)
  then have i: "i < length (procs k)" "state (procs k ! i) = UNUSED" by (simp_all add: first_index_Some)
  obtain stk e where al: "op_kalloc ops (env k) = (stk, e)" by fastforce
  show ?thesis
  proof (cases "stk = 0")
    case True
    have eq: "(procs k ! i)\<lparr>pid := nextpid k, kstack := 0, state := UNUSED\<rparr> = (procs k ! i)\<lparr>pid := nextpid k, kstack := 0\<rparr>"
      using i(2) by (cases "procs k ! i") simp
    have "r = None" "procs k' = (procs k)[i := (procs k ! i)\<lparr>pid := nextpid k, kstack := 0, state := UNUSED\<rparr>]"
      "nextpid k' = wrap32 (nextpid k + 1)" "initproc k' = initproc k" "env k' = e"
      using assms Some al i True by (auto simp: allocproc_def Let_def)
    then show ?thesis
      unfolding eq using i by (intro no_stack [of i e])
  next
    case False
    then show ?thesis
      using assms Some al i by (intro got [of i stk e]) (auto simp: allocproc_def Let_def)
  qed
qed

text \<open>A new entry: the slot \<open>i\<close> was unused and now holds \<open>q\<close>, a process in the making, runnable or
  given up again, with the next process id.\<close>

definition new_slot :: "nat \<Rightarrow> 'e kern \<Rightarrow> 'e kern \<Rightarrow> nat \<Rightarrow> proc \<Rightarrow> bool" where
  "new_slot cur k k' i q \<longleftrightarrow> i < length (procs k) \<and> state (procs k ! i) = UNUSED \<and>
     procs k' = (procs k)[i := q] \<and> nextpid k' = wrap32 (nextpid k + 1) \<and> initproc k' = initproc k \<and>
     pid q = nextpid k \<and>
     (state q = UNUSED \<and> parent q = parent (procs k ! i) \<or> state q \<in> {EMBRYO, RUNNABLE} \<and> parent q = Some cur)"

definition same_table :: "'e kern \<Rightarrow> 'e kern \<Rightarrow> bool" where
  "same_table k k' \<longleftrightarrow> procs k' = procs k \<and> nextpid k' = nextpid k \<and> initproc k' = initproc k"

lemma inherit_cases:
  assumes "inherit ops cur np k = Some (r, k')" "np < length (procs k)"
  obtains fs where "r = pid (procs k ! np)"
    "procs k' = (procs k)[np := (procs k ! np)\<lparr>ofile := fs, cwd := cwd (procs k ! cur),
       state := RUNNABLE, pname := pname (procs k ! cur)\<rparr>]" "nextpid k' = nextpid k" "initproc k' = initproc k"
    "\<exists>e1. dup_files ops (ofile (procs k ! cur)) (ofile (procs k ! np)) (env k) = Some (fs, e1) \<and>
       op_idup ops (cwd (procs k ! cur)) e1 = Some (env k')"
proof -
  from assms(1) obtain fs e1 e2 where
    d: "dup_files ops (ofile (procs k ! cur)) (ofile (procs k ! np)) (env k) = Some (fs, e1)"
      "op_idup ops (cwd (procs k ! cur)) e1 = Some e2"
    unfolding inherit_def by (auto split: bind_splits)
  with assms have "r = pid (procs k ! np)"
    "procs k' = (procs k)[np := (procs k ! np)\<lparr>ofile := fs, cwd := cwd (procs k ! cur),
       state := RUNNABLE, pname := pname (procs k ! cur)\<rparr>]" "nextpid k' = nextpid k" "initproc k' = initproc k" "env k' = e2"
    by (auto simp: inherit_def Let_def)
  with d show ?thesis using that by blast
qed

lemma fork_cases:
  assumes "fork ops cur k = Some (r, k')" "cur < length (procs k)" "state (procs k ! cur) \<noteq> UNUSED"
  obtains (full) "r = -1" "same_table k k'"
  | (failed) i q where "r = -1" "new_slot cur k k' i q" "state q = UNUSED"
  | (ok) i q where "r = nextpid k" "new_slot cur k k' i q" "state q = RUNNABLE"
     "tf q = (tf (procs k ! cur))\<lparr>eax := 0\<rparr>" "sz q = sz (procs k ! cur)" "parent q = Some cur"
     "cwd q = cwd (procs k ! cur)" "pname q = pname (procs k ! cur)"
     "\<exists>e1 e2 e3. op_kalloc ops (env k) = (kstack q, e1) \<and> kstack q \<noteq> 0 \<and>
        op_copyuvm ops (pgdir (procs k ! cur)) (sz (procs k ! cur)) e1 = (pgdir q, e2) \<and> pgdir q \<noteq> 0 \<and>
        dup_files ops (ofile (procs k ! cur)) (ofile (procs k ! i)) e2 = Some (ofile q, e3) \<and>
        op_idup ops (cwd (procs k ! cur)) e3 = Some (env k')"
proof -
  obtain r1 k1 where al: "allocproc ops k = (r1, k1)" by fastforce
  then show ?thesis
  proof (cases rule: allocproc_cases)
    case full
    with al assms(1) that(1) show ?thesis by (simp add: fork_def same_table_def)
  next
    case (no_stack i e)
    with al assms(1) show ?thesis
      by (intro that(2) [of i "(procs k ! i)\<lparr>pid := nextpid k, kstack := 0\<rparr>"]) (auto simp: fork_def new_slot_def)
  next
    case (got i e stk)
    have ne: "cur \<noteq> i" using got(2) assms(3) by auto
    obtain pd e1 where cp: "op_copyuvm ops (pgdir (procs k ! cur)) (sz (procs k ! cur)) e = (pd, e1)" by fastforce
    show ?thesis
    proof (cases "pd = 0")
      case True
      define q where "q = (procs k ! i)\<lparr>state := EMBRYO, pid := nextpid k, kstack := stk,
        pcontext := new_context ops, pgdir := 0, kstack := 0, state := UNUSED\<rparr>"
      have "r = -1" "procs k' = (procs k)[i := q]" "nextpid k' = nextpid k1" "initproc k' = initproc k1"
        using True al assms(1) got cp ne by (auto simp: fork_def Let_def q_def split: bind_splits)
      then show ?thesis using got
        by (intro that(2) [of i q]) (simp_all add: new_slot_def q_def)
    next
      case False
      define p where "p = procs k ! cur"
      define q where "q = (procs k ! i)\<lparr>state := EMBRYO, pid := nextpid k, kstack := stk,
        pcontext := new_context ops, pgdir := pd, sz := sz p, parent := Some cur, tf := (tf p)\<lparr>eax := 0\<rparr>\<rparr>"
      define k2 where "k2 = (upd i (\<lambda>x. x\<lparr>sz := sz p, parent := Some cur, tf := (tf p)\<lparr>eax := 0\<rparr>\<rparr>)
        ((upd i (\<lambda>x. x\<lparr>pgdir := pd\<rparr>) k1)\<lparr>env := e1\<rparr>))"
      have pk2: "procs k2 = (procs k)[i := q]" "nextpid k2 = wrap32 (nextpid k + 1)" "initproc k2 = initproc k" "env k2 = e1"
        using got by (simp_all add: k2_def q_def)
      have k2: "procs k2 ! i = q" "procs k2 ! cur = p" "i < length (procs k2)"
        using got(1) ne by (simp_all add: pk2 p_def)
      have "inherit ops cur i k2 = Some (r, k')"
        using al assms(1) got cp ne False by (simp add: fork_def Let_def k2_def p_def)
      then obtain fs where "r = pid q"
        "procs k' = (procs k2)[i := q\<lparr>ofile := fs, cwd := cwd p, state := RUNNABLE, pname := pname p\<rparr>]"
        "nextpid k' = nextpid k2" "initproc k' = initproc k2"
        "\<exists>e4. dup_files ops (ofile p) (ofile q) (env k2) = Some (fs, e4) \<and> op_idup ops (cwd p) e4 = Some (env k')"
        using k2 by (elim inherit_cases) simp_all
      then show ?thesis
        using got cp False
        by (intro that(3) [of i "q\<lparr>ofile := fs, cwd := cwd p, state := RUNNABLE, pname := pname p\<rparr>"])
          (auto simp: new_slot_def pk2 q_def p_def)
    qed
  qed
qed


lemma clone_cases:
  assumes "clone ops cur fcn arg stk k = Some (r, k')" "cur < length (procs k)" "state (procs k ! cur) \<noteq> UNUSED"
  obtains (refused) "r = -1" "same_table k k'"
  | (failed) i q where "r = -1" "new_slot cur k k' i q" "state q = UNUSED"
  | (leaked) i q where "r = -1" "new_slot cur k k' i q" "state q = EMBRYO"
  | (ok) i q where "r = nextpid k" "new_slot cur k k' i q" "state q = RUNNABLE"
     "tf q = (tf (procs k ! cur))\<lparr>eax := 0, esp := 4088 + stk, eip := fcn\<rparr>" "sz q = sz (procs k ! cur)"
     "parent q = Some cur" "pgdir q = pgdir (procs k ! cur)" "ustack q = stk" "stk mod 4096 = 0"
     "\<exists>e e1. op_copyout ops (pgdir (procs k ! cur)) (4088 + stk) [0xffffffff, arg] e = (True, e1)"
proof (cases "stk mod 4096 \<noteq> 0 \<or> sz (procs k ! cur) - stk < 4096")
  case True
  with assms(1) that(1) show ?thesis by (auto simp: clone_def same_table_def split: if_splits)
next
  case ok: False
  obtain r1 k1 where al: "allocproc ops k = (r1, k1)" by fastforce
  then show ?thesis
  proof (cases rule: allocproc_cases)
    case full
    with al assms(1) that(1) ok show ?thesis by (simp add: clone_def same_table_def)
  next
    case (no_stack i e)
    with al assms(1) ok show ?thesis
      by (intro that(2) [of i "(procs k ! i)\<lparr>pid := nextpid k, kstack := 0\<rparr>"]) (auto simp: clone_def new_slot_def)
  next
    case (got i e stck)
    have ne: "cur \<noteq> i" using got(2) assms(3) by auto
    define p where "p = procs k ! cur"
    have p: "procs k1 ! cur = p" using got ne by (simp add: p_def)
    obtain b e1 where co: "op_copyout ops (pgdir p) (4088 + stk) [0xffffffff, arg] e = (b, e1)" by fastforce
    define q where "q = (procs k ! i)\<lparr>state := EMBRYO, pid := nextpid k, kstack := stck, pcontext := new_context ops,
      ustack := stk, pgdir := pgdir p, sz := sz p, parent := Some cur, tf := (tf p)\<lparr>eax := 0\<rparr>\<rparr>"
    define q2 where "q2 = q\<lparr>tf := (tf q)\<lparr>esp := 4088 + stk, eip := fcn\<rparr>\<rparr>"
    define k2 where "k2 = (upd i (\<lambda>x. x\<lparr>ustack := stk, pgdir := pgdir p, sz := sz p, parent := Some cur,
                     tf := (tf p)\<lparr>eax := 0\<rparr>\<rparr>) k1)\<lparr>env := e1\<rparr>"
    define k3 where "k3 = upd i (\<lambda>x. x\<lparr>tf := (tf x)\<lparr>esp := 4088 + stk, eip := fcn\<rparr>\<rparr>) k2"
    have eq: "clone ops cur fcn arg stk k = (if b then inherit ops cur i k3 else Some (-1, k2))"
      using ok got(3,9) co al p by (simp add: clone_def Let_def k3_def k2_def)
    have pk2: "procs k2 = (procs k)[i := q]" "nextpid k2 = wrap32 (nextpid k + 1)" "initproc k2 = initproc k"
      using got(1,6-8) by (simp_all add: k2_def q_def)
    then have pk3: "procs k3 = (procs k)[i := q2]" "nextpid k3 = wrap32 (nextpid k + 1)" "initproc k3 = initproc k"
      using got(1) by (simp_all add: k3_def q2_def)
    have nq: "pid q = nextpid k" "parent q = Some cur" "state q = EMBRYO" by (simp_all add: q_def)
    show ?thesis
    proof (cases b)
      case False
      then have "r = -1" "k' = k2" using eq assms(1) by auto
      then show ?thesis using got(1,2) pk2 nq
        by (intro that(3) [of i q]) (simp_all add: new_slot_def)
    next
      case True
      have k3: "procs k3 ! i = q2" "procs k3 ! cur = p" "i < length (procs k3)"
        using got(1) ne by (simp_all add: pk3 p_def)
      have "inherit ops cur i k3 = Some (r, k')"
        using eq assms(1) True by simp
      then obtain fs where r: "r = pid q2"
        "procs k' = (procs k3)[i := q2\<lparr>ofile := fs, cwd := cwd p, state := RUNNABLE, pname := pname p\<rparr>]"
        "nextpid k' = nextpid k3" "initproc k' = initproc k3"
        using k3 by (elim inherit_cases) simp_all
      let ?q = "q2\<lparr>ofile := fs, cwd := cwd p, state := RUNNABLE, pname := pname p\<rparr>"
      have "new_slot cur k k' i ?q"
        using got(1,2) r pk3 by (simp add: new_slot_def q2_def q_def)
      moreover have "tf ?q = (tf (procs k ! cur))\<lparr>eax := 0, esp := 4088 + stk, eip := fcn\<rparr>"
        "sz ?q = sz (procs k ! cur)" "parent ?q = Some cur" "pgdir ?q = pgdir (procs k ! cur)" "ustack ?q = stk"
        "pid q2 = nextpid k"
        by (simp_all add: q2_def q_def p_def)
      ultimately show ?thesis
        using co True ok r(1) p_def by (intro that(4) [of i ?q]) auto
    qed
  qed
qed

text \<open>Waking up: some sleeping processes become runnable, nothing else changes.\<close>

definition woken :: "proc \<Rightarrow> proc \<Rightarrow> bool" where
  "woken p q \<longleftrightarrow> q = p \<or> state p = SLEEPING \<and> q = p\<lparr>state := RUNNABLE\<rparr>"

definition wakes :: "'e kern \<Rightarrow> 'e kern \<Rightarrow> bool" where
  "wakes k k' \<longleftrightarrow> list_all2 woken (procs k) (procs k') \<and> nextpid k' = nextpid k \<and> initproc k' = initproc k"

lemma wakes_wakeup1: "wakes k (wakeup1 ch k)"
  by (simp add: wakes_def wakeup1_def list_all2_conv_all_nth woken_def)

lemma wakes_condwakeup: "wakes k (condwakeup n k)"
  by (simp add: wakes_def condwakeup_def list_all2_conv_all_nth woken_def)

lemma wakeup1_none_left:
  assumes "p \<in> set (procs (wakeup1 ch k))"
  shows "\<not> (state p = SLEEPING \<and> pchan p = ch)"
proof -
  obtain x where x: "p = (if state x = SLEEPING \<and> pchan x = ch then x\<lparr>state := RUNNABLE\<rparr> else x)"
    using assms unfolding wakeup1_def by fastforce
  show ?thesis
    by (cases "state x = SLEEPING \<and> pchan x = ch") (simp_all add: x)
qed

lemma wakesD:
  assumes "wakes k k'"
  shows "length (procs k') = length (procs k)" "nextpid k' = nextpid k" "initproc k' = initproc k"
    "j < length (procs k) \<Longrightarrow> woken (procs k ! j) (procs k' ! j)"
  using assms by (auto simp: wakes_def list_all2_conv_all_nth)

lemma wokenD:
  assumes "woken p q"
  shows "pid q = pid p" "pchan q = pchan p" "pgdir q = pgdir p" "parent q = parent p"
    "state q = state p \<or> state p = SLEEPING \<and> state q = RUNNABLE"
  using assms by (auto simp: woken_def)

text \<open>The loop of \<open>exit\<close>.\<close>

definition abandoned :: "nat \<Rightarrow> 'e kern \<Rightarrow> nat \<Rightarrow> 'e kern \<Rightarrow> bool" where
  "abandoned cur k n k' \<longleftrightarrow> length (procs k') = length (procs k) \<and> nextpid k' = nextpid k \<and> initproc k' = initproc k \<and>
     (\<forall>j<length (procs k). let p = procs k ! j; q = procs k' ! j in
        pid q = pid p \<and> pchan q = pchan p \<and> (j \<noteq> cur \<longrightarrow> pgdir q = pgdir p) \<and>
        parent q = (if j < n \<and> parent p = Some cur then initproc k else parent p) \<and>
        (state q = state p \<or> state p = SLEEPING \<and> state q = RUNNABLE) \<and>
        (j < n \<and> parent p = Some cur \<and> state p = ZOMBIE \<longrightarrow>
           (\<forall>x\<in>set (procs k'). \<not> (state x = SLEEPING \<and> pchan x = chan_of (initproc k)))))"


lemma abandonedI:
  assumes "length (procs k') = length (procs k)" "nextpid k' = nextpid k" "initproc k' = initproc k"
    "\<And>j. j < length (procs k) \<Longrightarrow> pid (procs k' ! j) = pid (procs k ! j)"
    "\<And>j. j < length (procs k) \<Longrightarrow> pchan (procs k' ! j) = pchan (procs k ! j)"
    "\<And>j. j < length (procs k) \<Longrightarrow> j \<noteq> cur \<Longrightarrow> pgdir (procs k' ! j) = pgdir (procs k ! j)"
    "\<And>j. j < length (procs k) \<Longrightarrow>
       parent (procs k' ! j) = (if j < n \<and> parent (procs k ! j) = Some cur then initproc k else parent (procs k ! j))"
    "\<And>j. j < length (procs k) \<Longrightarrow> state (procs k' ! j) = state (procs k ! j) \<or>
       state (procs k ! j) = SLEEPING \<and> state (procs k' ! j) = RUNNABLE"
    "\<And>j x. j < length (procs k) \<Longrightarrow> j < n \<Longrightarrow> parent (procs k ! j) = Some cur \<Longrightarrow> state (procs k ! j) = ZOMBIE \<Longrightarrow>
       x < length (procs k) \<Longrightarrow> \<not> (state (procs k' ! x) = SLEEPING \<and> pchan (procs k' ! x) = chan_of (initproc k))"
  shows "abandoned cur k n k'"
  using assms unfolding abandoned_def Let_def by (simp add: all_set_conv_all_nth)

lemma abandonedD:
  assumes "abandoned cur k n k'"
  shows "length (procs k') = length (procs k)" "nextpid k' = nextpid k" "initproc k' = initproc k"
    "j < length (procs k) \<Longrightarrow> pid (procs k' ! j) = pid (procs k ! j)"
    "j < length (procs k) \<Longrightarrow> pchan (procs k' ! j) = pchan (procs k ! j)"
    "j < length (procs k) \<Longrightarrow> j \<noteq> cur \<Longrightarrow> pgdir (procs k' ! j) = pgdir (procs k ! j)"
    "j < length (procs k) \<Longrightarrow>
       parent (procs k' ! j) = (if j < n \<and> parent (procs k ! j) = Some cur then initproc k else parent (procs k ! j))"
    "j < length (procs k) \<Longrightarrow> state (procs k' ! j) = state (procs k ! j) \<or>
       state (procs k ! j) = SLEEPING \<and> state (procs k' ! j) = RUNNABLE"
    "j < length (procs k) \<Longrightarrow> j < n \<Longrightarrow> parent (procs k ! j) = Some cur \<Longrightarrow> state (procs k ! j) = ZOMBIE \<Longrightarrow>
       x < length (procs k) \<Longrightarrow> \<not> (state (procs k' ! x) = SLEEPING \<and> pchan (procs k' ! x) = chan_of (initproc k))"
proof -
  note A = assms [unfolded abandoned_def Let_def all_set_conv_all_nth]
  show "j < length (procs k) \<Longrightarrow> j < n \<Longrightarrow> parent (procs k ! j) = Some cur \<Longrightarrow> state (procs k ! j) = ZOMBIE \<Longrightarrow>
       x < length (procs k) \<Longrightarrow> \<not> (state (procs k' ! x) = SLEEPING \<and> pchan (procs k' ! x) = chan_of (initproc k))"
    using A by metis
qed (use assms in \<open>simp_all add: abandoned_def Let_def\<close>)

text \<open>One turn in two halves: the page table of the leaving process, then the parent of entry \<open>i\<close>.\<close>

definition unshare :: "'e kops \<Rightarrow> nat \<Rightarrow> nat \<Rightarrow> 'e kern \<Rightarrow> 'e kern" where
  "unshare ops cur i k =
     (if parent (procs k ! i) = Some cur \<and> pgdir (procs k ! i) = pgdir (procs k ! cur)
      then let (pd, e) = op_copyuvm ops (pgdir (procs k ! i)) (sz (procs k ! i)) (env k)
           in (upd cur (\<lambda>p. p\<lparr>pgdir := pd\<rparr>) k)\<lparr>env := e\<rparr>
      else k)"

definition reparent :: "nat \<Rightarrow> nat \<Rightarrow> 'e kern \<Rightarrow> 'e kern" where
  "reparent cur i k =
     (if parent (procs k ! i) = Some cur
      then let k2 = upd i (\<lambda>p. p\<lparr>parent := initproc k\<rparr>) k
           in if state (procs k2 ! i) = ZOMBIE then wakeup1 (chan_of (initproc k2)) k2 else k2
      else k)"

lemma abandon_split: "abandon ops cur i k = reparent cur i (unshare ops cur i k)"
  by (simp add: abandon_def unshare_def reparent_def Let_def)

lemma unshare_fields:
  "length (procs (unshare ops cur i k)) = length (procs k)" "nextpid (unshare ops cur i k) = nextpid k"
  "initproc (unshare ops cur i k) = initproc k"
  "j < length (procs k) \<Longrightarrow> \<exists>pd. procs (unshare ops cur i k) ! j = (if j = cur then (procs k ! j)\<lparr>pgdir := pd\<rparr> else procs k ! j)"
proof -
  show "j < length (procs k) \<Longrightarrow> \<exists>pd. procs (unshare ops cur i k) ! j = (if j = cur then (procs k ! j)\<lparr>pgdir := pd\<rparr> else procs k ! j)"
    by (auto simp: unshare_def nth_list_update split: prod.split intro: exI [of _ "pgdir (procs k ! cur)"])
qed (simp_all add: unshare_def split: prod.split)

lemma reparent_cases:
  assumes "i < length (procs k)" "parent (procs k ! i) = Some cur"
  shows "\<exists>k2. procs k2 = (procs k)[i := (procs k ! i)\<lparr>parent := initproc k\<rparr>] \<and> nextpid k2 = nextpid k \<and>
    initproc k2 = initproc k \<and> wakes k2 (reparent cur i k) \<and>
    (state (procs k ! i) = ZOMBIE \<longrightarrow> (\<forall>x<length (procs k).
       \<not> (state (procs (reparent cur i k) ! x) = SLEEPING \<and>
          pchan (procs (reparent cur i k) ! x) = chan_of (initproc k))))"
proof -
  define k2 where "k2 = upd i (\<lambda>p. p\<lparr>parent := initproc k\<rparr>) k"
  have k2: "procs k2 = (procs k)[i := (procs k ! i)\<lparr>parent := initproc k\<rparr>]" "nextpid k2 = nextpid k"
    "initproc k2 = initproc k" by (simp_all add: k2_def)
  have st: "state (procs k2 ! i) = state (procs k ! i)" using assms(1) by (simp add: k2)
  show ?thesis
  proof (cases "state (procs k ! i) = ZOMBIE")
    case True
    then have r: "reparent cur i k = wakeup1 (chan_of (initproc k)) k2"
      using assms st k2(3) by (simp add: reparent_def k2_def Let_def)
    have "length (procs (wakeup1 (chan_of (initproc k)) k2)) = length (procs k)"
      using wakesD(1) [OF wakes_wakeup1 [of k2 "chan_of (initproc k)"]] k2(1) by simp
    then have "\<not> (state (procs (reparent cur i k) ! x) = SLEEPING \<and>
        pchan (procs (reparent cur i k) ! x) = chan_of (initproc k))" if "x < length (procs k)" for x
      unfolding r using that by (intro wakeup1_none_left [of _ _ k2] nth_mem) simp
    then show ?thesis using k2 wakes_wakeup1 r by metis
  next
    case False
    then have "reparent cur i k = k2" using assms st by (simp add: reparent_def k2_def Let_def)
    moreover have "wakes k2 k2" by (simp add: wakes_def list_all2_conv_all_nth woken_def)
    ultimately show ?thesis using k2 False by metis
  qed
qed

lemma reparent_step:
  assumes A: "abandoned cur k i k1" and i: "i < length (procs k)"
  shows "abandoned cur k (Suc i) (reparent cur i k1)"
proof (cases "parent (procs k ! i) = Some cur")
  case False
  then have "parent (procs k1 ! i) \<noteq> Some cur"
    using abandonedD(7) [OF A i] by simp
  then have "reparent cur i k1 = k1" by (simp add: reparent_def)
  then show ?thesis
    using abandonedD [OF A] False by (intro abandonedI) (auto simp: less_Suc_eq)
next
  case True
  let ?R = "reparent cur i k1"
  have "parent (procs k1 ! i) = Some cur" "i < length (procs k1)"
    using abandonedD(7) [OF A i] True abandonedD(1) [OF A] i by simp_all
  then obtain k2 where k2: "procs k2 = (procs k1)[i := (procs k1 ! i)\<lparr>parent := initproc k1\<rparr>]"
      "nextpid k2 = nextpid k1" "initproc k2 = initproc k1" "wakes k2 ?R"
      "state (procs k1 ! i) = ZOMBIE \<Longrightarrow> x < length (procs k1) \<Longrightarrow>
        \<not> (state (procs ?R ! x) = SLEEPING \<and> pchan (procs ?R ! x) = chan_of (initproc k1))" for x
    using reparent_cases by blast
  note W = wakesD [OF k2(4)]
  have w: "woken (procs k2 ! j) (procs ?R ! j)" if "j < length (procs k)" for j
    using W(4) that k2(1) abandonedD(1) [OF A] by simp
  have f: "pid (procs k2 ! j) = pid (procs k1 ! j)" "pchan (procs k2 ! j) = pchan (procs k1 ! j)"
      "pgdir (procs k2 ! j) = pgdir (procs k1 ! j)" "state (procs k2 ! j) = state (procs k1 ! j)"
      "parent (procs k2 ! j) = (if j = i then initproc k1 else parent (procs k1 ! j))"
    if "j < length (procs k)" for j
    using that i abandonedD(1) [OF A] by (auto simp: k2(1) nth_list_update)
  have st: "state (procs ?R ! j) = SLEEPING \<Longrightarrow> state (procs k1 ! j) = SLEEPING" if "j < length (procs k)" for j
    using wokenD(5) [OF w [OF that]] f(4) [OF that] by auto
  show ?thesis
  proof (rule abandonedI)
    show "length (procs ?R) = length (procs k)" "nextpid ?R = nextpid k" "initproc ?R = initproc k"
      using W(1-3) k2(1-3) abandonedD(1-3) [OF A] by simp_all
  next
    fix j assume j: "j < length (procs k)"
    show "pid (procs ?R ! j) = pid (procs k ! j)" "pchan (procs ?R ! j) = pchan (procs k ! j)"
      "j \<noteq> cur \<Longrightarrow> pgdir (procs ?R ! j) = pgdir (procs k ! j)"
      using wokenD(1-3) [OF w [OF j]] f(1-3) [OF j] abandonedD(4-6) [OF A j] by simp_all
    show "parent (procs ?R ! j) = (if j < Suc i \<and> parent (procs k ! j) = Some cur then initproc k else parent (procs k ! j))"
      using wokenD(4) [OF w [OF j]] f(5) [OF j] abandonedD(7) [OF A j] abandonedD(3) [OF A] True
      by (auto simp: less_Suc_eq)
    show "state (procs ?R ! j) = state (procs k ! j) \<or> state (procs k ! j) = SLEEPING \<and> state (procs ?R ! j) = RUNNABLE"
      using wokenD(5) [OF w [OF j]] f(4) [OF j] abandonedD(8) [OF A j] by auto
    fix x assume h: "j < Suc i" "parent (procs k ! j) = Some cur" "state (procs k ! j) = ZOMBIE" "x < length (procs k)"
    show "\<not> (state (procs ?R ! x) = SLEEPING \<and> pchan (procs ?R ! x) = chan_of (initproc k))"
    proof (cases "j = i")
      case True
      then have "state (procs k1 ! i) = ZOMBIE" using abandonedD(8) [OF A j] h(3) by auto
      then show ?thesis using k2(5) h(4) abandonedD(1,3) [OF A] by metis
    next
      case False
      then have "j < i" using h(1) by simp
      from abandonedD(9) [OF A j this h(2-4)] show ?thesis
        using st [OF h(4)] wokenD(2) [OF w [OF h(4)]] f(2) [OF h(4)] by simp
    qed
  qed
qed

lemma abandon_step:
  assumes A: "abandoned cur k i k1" and i: "i < length (procs k)"
  shows "abandoned cur k (Suc i) (abandon ops cur i k1)"
proof -
  let ?u = "unshare ops cur i k1"
  have f: "pid (procs ?u ! j) = pid (procs k1 ! j)" "pchan (procs ?u ! j) = pchan (procs k1 ! j)"
      "parent (procs ?u ! j) = parent (procs k1 ! j)" "state (procs ?u ! j) = state (procs k1 ! j)"
      "j \<noteq> cur \<Longrightarrow> pgdir (procs ?u ! j) = pgdir (procs k1 ! j)"
    if "j < length (procs k)" for j
    using unshare_fields(4) [of j k1 ops cur i] that abandonedD(1) [OF A] by auto
  have "abandoned cur k i ?u"
    using abandonedD [OF A] f by (intro abandonedI) (simp_all add: unshare_fields)
  then show ?thesis
    unfolding abandon_split using i by (rule reparent_step)
qed

lemma abandon_loop: "n \<le> length (procs k) \<Longrightarrow> abandoned cur k n (fold (abandon ops cur) [0..<n] k)"
proof (induction n)
  case 0
  then show ?case by (intro abandonedI) simp_all
next
  case (Suc n)
  then show ?case using abandon_step [of cur k n _ ops] by simp
qed



text \<open>The descriptors of the parent, when the new entry has none.\<close>

lemma dup_files_all:
  "dup_files ops fs gs e = Some (hs, e') \<Longrightarrow> length gs = length fs \<Longrightarrow> \<forall>g\<in>set gs. g = 0 \<Longrightarrow> hs = fs"
proof (induction ops fs gs e arbitrary: hs e' rule: dup_files.induct)
  case (1 ops f fs g gs e)
  then show ?case by (cases "f = 0") (auto simp: Option.bind_eq_Some_conv split: if_splits)
qed auto


section \<open>The exit of a thread that has made no threads of its own\<close>

definition childless :: "nat \<Rightarrow> 'e kern \<Rightarrow> bool" where
  "childless i k \<longleftrightarrow> (\<forall>j<length (procs k). parent (procs k ! j) = Some i \<longrightarrow> pgdir (procs k ! j) \<noteq> pgdir (procs k ! i))"

text \<open>What the loop of \<open>exit\<close> does not change in any entry.\<close>

definition same_stacks :: "'e kern \<Rightarrow> 'e kern \<Rightarrow> bool" where
  "same_stacks k k' \<longleftrightarrow> length (procs k') = length (procs k) \<and> (\<forall>j<length (procs k).
     kstack (procs k' ! j) = kstack (procs k ! j) \<and> ustack (procs k' ! j) = ustack (procs k ! j) \<and>
     pgdir (procs k' ! j) = pgdir (procs k ! j))"

lemma same_stacks_refl [simp]: "same_stacks k k"
  by (simp add: same_stacks_def)

lemma same_stacks_trans: "same_stacks a b \<Longrightarrow> same_stacks b c \<Longrightarrow> same_stacks a c"
  by (simp add: same_stacks_def)

lemma same_stacks_wakeup1: "same_stacks k (wakeup1 ch k)"
  by (simp add: same_stacks_def wakeup1_def)

lemma same_stacks_upd:
  "kstack (f (procs k ! i)) = kstack (procs k ! i) \<Longrightarrow> ustack (f (procs k ! i)) = ustack (procs k ! i) \<Longrightarrow>
   pgdir (f (procs k ! i)) = pgdir (procs k ! i) \<Longrightarrow> same_stacks k (upd i f k)"
  by (cases "i < length (procs k)") (auto simp: same_stacks_def nth_list_update list_update_beyond)

lemma same_stacks_reparent: "same_stacks k (reparent cur i k)"
proof -
  have "same_stacks k (upd i (\<lambda>p. p\<lparr>parent := initproc k\<rparr>) k)" by (rule same_stacks_upd) simp_all
  then show ?thesis using same_stacks_trans [OF _ same_stacks_wakeup1] by (auto simp: reparent_def Let_def)
qed

lemma abandon_childless:
  assumes "childless cur k" "n \<le> length (procs k)" "cur < length (procs k)"
  shows "same_stacks k (fold (abandon ops cur) [0..<n] k)"
  using assms(2)
proof (induction n)
  case (Suc n)
  let ?k = "fold (abandon ops cur) [0..<n] k"
  have n: "n < length (procs k)" "n \<le> length (procs k)" using Suc.prems by simp_all
  note A = abandonedD [OF abandon_loop [OF n(2), of cur ops]]
  have s: "same_stacks k ?k" by (rule Suc.IH [OF n(2)])
  have "unshare ops cur n ?k = ?k"
  proof (cases "parent (procs k ! n) = Some cur")
    case True
    then have "pgdir (procs ?k ! n) \<noteq> pgdir (procs ?k ! cur)" using s assms(1,3) n(1) by (simp add: same_stacks_def childless_def)
    then show ?thesis by (simp add: unshare_def)
  next
    case False
    then show ?thesis using A(7) [OF n(1)] by (simp add: unshare_def)
  qed
  then have "abandon ops cur n ?k = reparent cur n ?k" by (simp add: abandon_split)
  then show ?case using same_stacks_trans [OF s same_stacks_reparent [of ?k cur n]] by simp
qed simp

lemma exit_childless:
  assumes e: "exit_proc ops i k = Some k'" and i: "i < length (procs k)" "length (procs k) = NPROC"
    and c: "childless i k" and p: "parent (procs k ! i) \<noteq> Some i"
  shows "same_stacks k k'" "state (procs k' ! i) = ZOMBIE" "pid (procs k' ! i) = pid (procs k ! i)"
    "parent (procs k' ! i) = parent (procs k ! i)"
    "\<And>j. j < length (procs k) \<Longrightarrow> parent (procs k ! j) \<noteq> Some i \<Longrightarrow> parent (procs k' ! j) = parent (procs k ! j)"
proof -
  from e obtain e1 e2 where x: "initproc k \<noteq> Some i"
      "close_files ops (ofile (procs k ! i)) (env k) = Some e1" "op_iput ops (cwd (procs k ! i)) e1 = Some e2"
    by (auto simp: exit_proc_def split: if_splits bind_splits)
  define k1 where "k1 = (upd i (\<lambda>p. p\<lparr>ofile := map (\<lambda>_. 0) (ofile p), cwd := 0\<rparr>) k)\<lparr>env := e2\<rparr>"
  define k2 where "k2 = wakeup1 (chan_of (parent (procs k1 ! i))) k1"
  define k3 where "k3 = fold (abandon ops i) [0..<NPROC] k2"
  have k': "k' = upd i (\<lambda>p. p\<lparr>state := ZOMBIE\<rparr>) k3"
    using e x by (simp add: exit_proc_def Let_def k1_def k2_def k3_def)
  have s1: "same_stacks k k1" using i(1) by (simp add: same_stacks_def k1_def nth_list_update)
  have s2: "same_stacks k k2" unfolding k2_def by (rule same_stacks_trans [OF s1 same_stacks_wakeup1])
  have w: "woken (procs k1 ! j) (procs k2 ! j)" if "j < length (procs k)" for j
    using wakesD(4) [OF wakes_wakeup1 [of k1 "chan_of (parent (procs k1 ! i))"], of j] that s1 by (simp add: k2_def same_stacks_def)
  have f2: "pid (procs k2 ! j) = pid (procs k ! j)" "parent (procs k2 ! j) = parent (procs k ! j)" if "j < length (procs k)" for j
    using wokenD(1,4) [OF w [OF that]] that by (cases "j = i"; simp add: k1_def)+
  have c2: "childless i k2" using c s2 f2(2) i(1) by (simp add: childless_def same_stacks_def)
  have l2: "NPROC \<le> length (procs k2)" using s2 i(2) by (simp add: same_stacks_def)
  have i2: "i < length (procs k2)" using i l2 by simp
  have s3: "same_stacks k2 k3" unfolding k3_def by (rule abandon_childless [OF c2 l2 i2])
  note A = abandonedD [OF abandon_loop [OF l2, of i ops], folded k3_def]
  have i3: "i < length (procs k3)" using i2 A(1) by simp
  have "same_stacks k3 k'" unfolding k' by (rule same_stacks_upd) simp_all
  then show "same_stacks k k'" using same_stacks_trans s2 s3 by blast
  show "state (procs k' ! i) = ZOMBIE" "pid (procs k' ! i) = pid (procs k ! i)" "parent (procs k' ! i) = parent (procs k ! i)"
    using A(4,7) [OF i2] f2 [OF i(1)] p i3 by (simp_all add: k')
  show "parent (procs k' ! j) = parent (procs k ! j)" if "j < length (procs k)" "parent (procs k ! j) \<noteq> Some i" for j
    using A(1) A(7) [of j] f2(2) [OF that(1)] that s2 by (cases "j = i") (simp_all add: k' same_stacks_def)
qed


end
