(* ===== verification/ProcSys.thy ===== *)
theory ProcSys
  imports Proc
begin

text \<open>
  The process table in a running machine: any number of CPUs schedule processes, which make
  system calls, sleep, are woken and exit, in any order. Each step is one critical section under
  the table lock (a new process is private to its creator until it is runnable). A process that
  sleeps keeps, as its continuation, the call it sleeps in.
\<close>

section \<open>Steps\<close>

datatype kont = Run | In_sleep | In_cond | In_wait | In_join

record 'e sys =
  kern :: "'e kern"
  on_cpu :: "nat \<Rightarrow> nat option"
  kont :: "nat \<Rightarrow> kont"

text \<open>What \<open>exec\<close> leaves in the table when it commits.\<close>

definition exec_commit :: "nat \<Rightarrow> nat \<Rightarrow> u32 \<Rightarrow> u32 \<Rightarrow> u32 \<Rightarrow> string \<Rightarrow> 'e kern \<Rightarrow> 'e kern" where
  "exec_commit cur pdir nsz entry sp nm k =
     upd cur (\<lambda>p. p\<lparr>pgdir := pdir, sz := nsz, tf := (tf p)\<lparr>eip := entry, esp := sp\<rparr>, pname := nm\<rparr>) k"

definition wait_entry :: "nat \<Rightarrow> kont \<Rightarrow> 'e kern \<Rightarrow> 'e kern" where
  "wait_entry i c k = (if c = Run then k else sleep_done i k)"

inductive kstep :: "'e kops \<Rightarrow> 'e sys \<Rightarrow> 'e sys \<Rightarrow> bool" for ops where
  schedule: "on_cpu s c = None \<Longrightarrow> i < NPROC \<Longrightarrow> scheduler_visit i (kern s) = (True, k') \<Longrightarrow>
    kstep ops s (s\<lparr>kern := k', on_cpu := (on_cpu s)(c := Some i)\<rparr>)"
| resume_sleep: "on_cpu s c = Some i \<Longrightarrow> kont s i = In_sleep \<Longrightarrow>
    kstep ops s (s\<lparr>kern := sleep_done i (kern s), kont := (kont s)(i := Run)\<rparr>)"
| resume_cond: "on_cpu s c = Some i \<Longrightarrow> kont s i = In_cond \<Longrightarrow>
    kstep ops s (s\<lparr>kern := condsleep_done i (kern s), kont := (kont s)(i := Run)\<rparr>)"
| fork: "on_cpu s c = Some i \<Longrightarrow> kont s i = Run \<Longrightarrow> fork ops i (kern s) = Some (r, k') \<Longrightarrow>
    kstep ops s (s\<lparr>kern := k'\<rparr>)"
| clone: "on_cpu s c = Some i \<Longrightarrow> kont s i = Run \<Longrightarrow> clone ops i fcn arg stk (kern s) = Some (r, k') \<Longrightarrow>
    kstep ops s (s\<lparr>kern := k'\<rparr>)"
| growproc: "on_cpu s c = Some i \<Longrightarrow> kont s i = Run \<Longrightarrow> growproc ops i n (kern s) = (r, k') \<Longrightarrow>
    kstep ops s (s\<lparr>kern := k'\<rparr>)"
| exec: "on_cpu s c = Some i \<Longrightarrow> kont s i = Run \<Longrightarrow>
    kstep ops s (s\<lparr>kern := exec_commit i pdir nsz entry sp nm (kern s)\<rparr>)"
| kill: "kill n (kern s) = (r, k') \<Longrightarrow> kstep ops s (s\<lparr>kern := k'\<rparr>)"
| wakeup: "kstep ops s (s\<lparr>kern := wakeup ch (kern s)\<rparr>)"
| condwakeup: "kstep ops s (s\<lparr>kern := condwakeup n (kern s)\<rparr>)"
| yield: "on_cpu s c = Some i \<Longrightarrow> kont s i = Run \<Longrightarrow>
    kstep ops s (s\<lparr>kern := yield i (kern s), on_cpu := (on_cpu s)(c := None)\<rparr>)"
| sleep: "on_cpu s c = Some i \<Longrightarrow> kont s i = Run \<Longrightarrow>
    kstep ops s (s\<lparr>kern := sleep_on i ch (kern s), on_cpu := (on_cpu s)(c := None), kont := (kont s)(i := In_sleep)\<rparr>)"
| condsleep: "on_cpu s c = Some i \<Longrightarrow> kont s i = Run \<Longrightarrow>
    kstep ops s (s\<lparr>kern := condsleep i n (kern s), on_cpu := (on_cpu s)(c := None), kont := (kont s)(i := In_cond)\<rparr>)"
| exit: "on_cpu s c = Some i \<Longrightarrow> kont s i = Run \<Longrightarrow> exit_proc ops i (kern s) = Some k' \<Longrightarrow>
    kstep ops s (s\<lparr>kern := k', on_cpu := (on_cpu s)(c := None)\<rparr>)"
| wait_done: "on_cpu s c = Some i \<Longrightarrow> kont s i \<in> {Run, In_wait} \<Longrightarrow>
    wait_pass ops i (wait_entry i (kont s i) (kern s)) = Some (Done r, k') \<Longrightarrow>
    kstep ops s (s\<lparr>kern := k', kont := (kont s)(i := Run)\<rparr>)"
| wait_sleep: "on_cpu s c = Some i \<Longrightarrow> kont s i \<in> {Run, In_wait} \<Longrightarrow>
    wait_pass ops i (wait_entry i (kont s i) (kern s)) = Some (Sleeps, k') \<Longrightarrow>
    kstep ops s (s\<lparr>kern := k', on_cpu := (on_cpu s)(c := None), kont := (kont s)(i := In_wait)\<rparr>)"
| join_done: "on_cpu s c = Some i \<Longrightarrow> kont s i \<in> {Run, In_join} \<Longrightarrow>
    join_pass ops i (wait_entry i (kont s i) (kern s)) = Some (Done r, st, k') \<Longrightarrow>
    kstep ops s (s\<lparr>kern := k', kont := (kont s)(i := Run)\<rparr>)"
| join_sleep: "on_cpu s c = Some i \<Longrightarrow> kont s i \<in> {Run, In_join} \<Longrightarrow>
    join_pass ops i (wait_entry i (kont s i) (kern s)) = Some (Sleeps, st, k') \<Longrightarrow>
    kstep ops s (s\<lparr>kern := k', on_cpu := (on_cpu s)(c := None), kont := (kont s)(i := In_join)\<rparr>)"

inductive kreach :: "'e kops \<Rightarrow> 'e sys \<Rightarrow> 'e sys \<Rightarrow> bool" for ops s where
  start: "kreach ops s s"
| step: "kreach ops s t \<Longrightarrow> kstep ops t u \<Longrightarrow> kreach ops s u"

text \<open>
  A run in which the counter of process ids, a C \<open>int\<close>, has not reached its last value: after that it wraps around, and ids
  are given out again while their first owners may still live.
\<close>

inductive kreach_low :: "'e kops \<Rightarrow> 'e sys \<Rightarrow> 'e sys \<Rightarrow> bool" for ops s where
  start_low: "kreach_low ops s s"
| step_low: "kreach_low ops s t \<Longrightarrow> nextpid (kern t) < 2 ^ 31 - 1 \<Longrightarrow> kstep ops t u \<Longrightarrow> kreach_low ops s u"

section \<open>The invariant\<close>

abbreviation st :: "'e kern \<Rightarrow> nat \<Rightarrow> procstate" where "st k i \<equiv> state (procs k ! i)"
abbreviation par :: "'e kern \<Rightarrow> nat \<Rightarrow> nat option" where "par k i \<equiv> parent (procs k ! i)"
abbreviation pd :: "'e kern \<Rightarrow> nat \<Rightarrow> nat" where "pd k i \<equiv> pgdir (procs k ! i)"
abbreviation ch :: "'e kern \<Rightarrow> nat \<Rightarrow> chan" where "ch k i \<equiv> pchan (procs k ! i)"
abbreviation pidof :: "'e kern \<Rightarrow> nat \<Rightarrow> int" where "pidof k i \<equiv> pid (procs k ! i)"

text \<open>Every CPU runs a process of its own, and the processes that run are exactly these.\<close>

definition cpu_inv :: "'e kern \<Rightarrow> (nat \<Rightarrow> nat option) \<Rightarrow> bool" where
  "cpu_inv k oc \<longleftrightarrow> length (procs k) = NPROC \<and>
     (\<forall>c i. oc c = Some i \<longrightarrow> i < NPROC \<and> st k i = RUNNING) \<and>
     (\<forall>c d i. oc c = Some i \<longrightarrow> oc d = Some i \<longrightarrow> c = d) \<and>
     (\<forall>i<NPROC. st k i = RUNNING \<longrightarrow> (\<exists>c. oc c = Some i))"

text \<open>
  Process ids are positive, below the next one, and unique, as long as the counter has not wrapped around: \<open>u\<close> says whether
  this is to be kept.
\<close>

definition pid_inv :: "bool \<Rightarrow> 'e kern \<Rightarrow> bool" where
  "pid_inv u k \<longleftrightarrow> (u \<longrightarrow> 0 < nextpid k \<and> nextpid k < 2 ^ 31 \<and>
     (\<forall>i<NPROC. st k i \<noteq> UNUSED \<longrightarrow> 0 < pidof k i \<and> pidof k i < nextpid k) \<and>
     (\<forall>i<NPROC. \<forall>j<NPROC. st k i \<noteq> UNUSED \<longrightarrow> st k j \<noteq> UNUSED \<longrightarrow> pidof k i = pidof k j \<longrightarrow> i = j))"

text \<open>A parent is a process in use, the first process is never gone and has no parent.\<close>

definition tree_inv :: "'e kern \<Rightarrow> bool" where
  "tree_inv k \<longleftrightarrow> (\<forall>i<NPROC. \<forall>j. par k i = Some j \<longrightarrow> j < NPROC \<and> j \<noteq> i \<and> st k i \<noteq> UNUSED \<and> st k j \<noteq> UNUSED \<and> st k j \<noteq> ZOMBIE) \<and>
     (\<exists>r<NPROC. initproc k = Some r \<and> st k r \<noteq> UNUSED \<and> st k r \<noteq> ZOMBIE \<and> par k r = None)"

text \<open>A process asleep in \<open>wait\<close> has no zombie child to reap, one asleep in \<open>join\<close> no zombie thread.\<close>

definition wake_inv :: "'e kern \<Rightarrow> (nat \<Rightarrow> kont) \<Rightarrow> bool" where
  "wake_inv k kt \<longleftrightarrow> (\<forall>i<NPROC. st k i = SLEEPING \<longrightarrow> kt i \<in> {In_wait, In_join} \<longrightarrow> ch k i = ProcPtr i \<and>
     (\<forall>j<NPROC. par k j = Some i \<longrightarrow> st k j = ZOMBIE \<longrightarrow>
        (if kt i = In_wait then pd k j = pd k i else pd k j \<noteq> pd k i)))"

definition sys_inv :: "bool \<Rightarrow> 'e sys \<Rightarrow> bool" where
  "sys_inv u s \<longleftrightarrow> cpu_inv (kern s) (on_cpu s) \<and> pid_inv u (kern s) \<and> tree_inv (kern s) \<and> wake_inv (kern s) (kont s)"

lemma cpu_invD:
  assumes "cpu_inv k oc"
  shows "length (procs k) = NPROC" "oc c = Some i \<Longrightarrow> i < NPROC" "oc c = Some i \<Longrightarrow> st k i = RUNNING"
    "oc c = Some i \<Longrightarrow> oc d = Some i \<Longrightarrow> c = d" "i < NPROC \<Longrightarrow> st k i = RUNNING \<Longrightarrow> \<exists>c. oc c = Some i"
  using assms unfolding cpu_inv_def by blast+

lemma cpu_inv_same:
  assumes "cpu_inv k oc" "length (procs k') = NPROC" "\<And>j. j < NPROC \<Longrightarrow> st k' j = RUNNING \<longleftrightarrow> st k j = RUNNING"
  shows "cpu_inv k' oc"
  using assms unfolding cpu_inv_def by blast

lemma cpu_inv_leave:
  assumes "cpu_inv k oc" "oc c = Some i" "length (procs k') = NPROC" "st k' i \<noteq> RUNNING"
    "\<And>j. j < NPROC \<Longrightarrow> j \<noteq> i \<Longrightarrow> st k' j = RUNNING \<longleftrightarrow> st k j = RUNNING"
  shows "cpu_inv k' (oc(c := None))"
  unfolding cpu_inv_def
proof (intro conjI allI impI)
  show "d < NPROC" "st k' d = RUNNING" if "(oc(c := None)) e = Some d" for d e
    using that cpu_invD(2-4) [OF assms(1)] assms(2,5) by (metis fun_upd_apply option.distinct(1))+
  show "e = e'" if "(oc(c := None)) e = Some d" "(oc(c := None)) e' = Some d" for d e e'
    using that cpu_invD(4) [OF assms(1)] by (metis fun_upd_apply option.distinct(1))
  show "\<exists>e. (oc(c := None)) e = Some d" if "d < NPROC" "st k' d = RUNNING" for d
    using that cpu_invD(5) [OF assms(1)] assms(2,4,5) by (metis fun_upd_apply option.inject)
qed (fact assms(3))

lemma cpu_inv_enter:
  assumes "cpu_inv k oc" "oc c = None" "i < NPROC" "length (procs k') = NPROC" "st k i \<noteq> RUNNING" "st k' i = RUNNING"
    "\<And>j. j < NPROC \<Longrightarrow> j \<noteq> i \<Longrightarrow> st k' j = RUNNING \<longleftrightarrow> st k j = RUNNING"
  shows "cpu_inv k' (oc(c := Some i))"
  unfolding cpu_inv_def
proof (intro conjI allI impI)
  show "d < NPROC" "st k' d = RUNNING" if "(oc(c := Some i)) e = Some d" for d e
    using that cpu_invD(2,3) [OF assms(1)] assms(3,5-7) by (metis fun_upd_apply option.inject)+
  show "e = e'" if "(oc(c := Some i)) e = Some d" "(oc(c := Some i)) e' = Some d" for d e e'
    using that cpu_invD(3,4) [OF assms(1)] assms(5) by (metis fun_upd_apply option.inject)
  show "\<exists>e. (oc(c := Some i)) e = Some d" if "d < NPROC" "st k' d = RUNNING" for d
    using that cpu_invD(5) [OF assms(1)] assms(2,7) by (metis fun_upd_apply option.distinct(1))
qed (fact assms(4))

lemma pid_inv_keep:
  assumes "pid_inv u k" "nextpid k' = nextpid k"
    "\<And>j. j < NPROC \<Longrightarrow> st k' j \<noteq> UNUSED \<Longrightarrow> st k j \<noteq> UNUSED \<and> pidof k' j = pidof k j"
  shows "pid_inv u k'"
  using assms unfolding pid_inv_def by metis

lemma wake_invD:
  assumes "wake_inv k kt" "i < NPROC" "st k i = SLEEPING" "kt i \<in> {In_wait, In_join}"
  shows "ch k i = ProcPtr i \<and> (\<forall>j<NPROC. par k j = Some i \<longrightarrow> st k j = ZOMBIE \<longrightarrow>
        (if kt i = In_wait then pd k j = pd k i else pd k j \<noteq> pd k i))"
  using assms unfolding wake_inv_def by blast

lemma tree_invD:
  assumes "tree_inv k"
  shows "i < NPROC \<Longrightarrow> par k i = Some j \<Longrightarrow> j < NPROC \<and> j \<noteq> i \<and> st k i \<noteq> UNUSED \<and> st k j \<noteq> UNUSED \<and> st k j \<noteq> ZOMBIE"
    "\<exists>r<NPROC. initproc k = Some r \<and> st k r \<noteq> UNUSED \<and> st k r \<noteq> ZOMBIE \<and> par k r = None"
  using assms unfolding tree_inv_def by blast+

lemma pid_invD:
  assumes "pid_inv True k"
  shows "0 < nextpid k \<and> nextpid k < 2 ^ 31" "j < NPROC \<Longrightarrow> st k j \<noteq> UNUSED \<Longrightarrow> 0 < pidof k j \<and> pidof k j < nextpid k"
    "a < NPROC \<Longrightarrow> b < NPROC \<Longrightarrow> st k a \<noteq> UNUSED \<Longrightarrow> st k b \<noteq> UNUSED \<Longrightarrow> pidof k a = pidof k b \<Longrightarrow> a = b"
  using assms unfolding pid_inv_def by blast+

lemma wake_inv_keep:
  assumes "wake_inv k kt"
    "\<And>i. i < NPROC \<Longrightarrow> st k' i = SLEEPING \<Longrightarrow> kt' i \<in> {In_wait, In_join} \<Longrightarrow>
       st k i = SLEEPING \<and> kt' i = kt i \<and> ch k' i = ch k i \<and> pd k' i = pd k i \<and>
       (\<forall>j<NPROC. par k' j = Some i \<longrightarrow> st k' j = ZOMBIE \<longrightarrow> par k j = Some i \<and> st k j = ZOMBIE \<and> pd k' j = pd k j)"
  shows "wake_inv k' kt'"
  using assms unfolding wake_inv_def by metis

section \<open>Steps that keep the invariant\<close>

definition inv :: "bool \<Rightarrow> 'e kern \<Rightarrow> (nat \<Rightarrow> nat option) \<Rightarrow> (nat \<Rightarrow> kont) \<Rightarrow> bool" where
  "inv u k oc kt \<longleftrightarrow> cpu_inv k oc \<and> pid_inv u k \<and> tree_inv k \<and> wake_inv k kt"

lemma tree_inv_keep:
  assumes "tree_inv k" "initproc k' = initproc k"
    "\<And>j. j < NPROC \<Longrightarrow> par k' j = par k j \<and> (st k' j = UNUSED \<longleftrightarrow> st k j = UNUSED)"
    "\<And>r. r < NPROC \<Longrightarrow> st k r \<noteq> ZOMBIE \<Longrightarrow> st k' r \<noteq> ZOMBIE"
  shows "tree_inv k'"
  using assms unfolding tree_inv_def by metis

text \<open>Changes that concern neither the tree nor the ids: a sleeper may become runnable, and only
  processes that are neither asleep nor zombies change their page table or channel.\<close>

definition quiet :: "'e kern \<Rightarrow> 'e kern \<Rightarrow> bool" where
  "quiet k k' \<longleftrightarrow> length (procs k') = length (procs k) \<and> nextpid k' = nextpid k \<and> initproc k' = initproc k \<and>
     (\<forall>j<length (procs k). pidof k' j = pidof k j \<and> par k' j = par k j \<and>
        (st k' j = st k j \<or> st k j = SLEEPING \<and> st k' j = RUNNABLE) \<and>
        (st k' j \<in> {SLEEPING, ZOMBIE} \<longrightarrow> ch k' j = ch k j \<and> pd k' j = pd k j))"

lemma quiet_inv:
  assumes q: "quiet k k'" and i: "inv u k oc kt" and kt: "\<And>i. i < NPROC \<Longrightarrow> st k' i = SLEEPING \<Longrightarrow> kt' i = kt i"
  shows "inv u k' oc kt'"
proof -
  have I: "cpu_inv k oc" "pid_inv u k" "tree_inv k" "wake_inv k kt" using i by (simp_all add: inv_def)
  have len: "length (procs k) = NPROC" using cpu_invD(1) [OF I(1)] .
  have f: "pidof k' j = pidof k j" "par k' j = par k j"
      "st k' j = st k j \<or> st k j = SLEEPING \<and> st k' j = RUNNABLE"
      "st k' j \<in> {SLEEPING, ZOMBIE} \<Longrightarrow> ch k' j = ch k j \<and> pd k' j = pd k j" if "j < NPROC" for j
    using q that unfolding quiet_def len by blast+
  have s: "st k' j = RUNNING \<longleftrightarrow> st k j = RUNNING" "st k' j = UNUSED \<longleftrightarrow> st k j = UNUSED"
      "st k' j = ZOMBIE \<longleftrightarrow> st k j = ZOMBIE" "st k' j = SLEEPING \<Longrightarrow> st k j = SLEEPING" if "j < NPROC" for j
    using f(3) [OF that] by auto
  have n: "nextpid k' = nextpid k" "initproc k' = initproc k" "length (procs k') = NPROC"
    using q len by (simp_all add: quiet_def)
  have "cpu_inv k' oc" by (rule cpu_inv_same [OF I(1) n(3) s(1)])
  moreover have "pid_inv u k'" by (rule pid_inv_keep [OF I(2) n(1)]) (use s(2) f(1) in simp)
  moreover have "tree_inv k'" by (rule tree_inv_keep [OF I(3) n(2)]) (use s(2,3) f(2) in simp_all)
  moreover have "wake_inv k' kt'"
  proof (rule wake_inv_keep [of k kt])
    fix l assume l: "l < NPROC" "st k' l = SLEEPING"
    have "par k j = Some l \<and> st k j = ZOMBIE \<and> pd k' j = pd k j"
      if "j < NPROC" "par k' j = Some l" "st k' j = ZOMBIE" for j
      using that f(2,4) [of j] s(3) [of j] by simp
    then show "st k l = SLEEPING \<and> kt' l = kt l \<and> ch k' l = ch k l \<and> pd k' l = pd k l \<and>
       (\<forall>j<NPROC. par k' j = Some l \<longrightarrow> st k' j = ZOMBIE \<longrightarrow> par k j = Some l \<and> st k j = ZOMBIE \<and> pd k' j = pd k j)"
      using l s(4) [of l] f(4) [of l] kt [of l] by simp
  qed (fact I(4))
  ultimately show ?thesis by (simp add: inv_def)
qed

lemma quiet_upd:
  assumes "i < length (procs k)" "pid (f (procs k ! i)) = pidof k i" "parent (f (procs k ! i)) = par k i"
    "state (f (procs k ! i)) = st k i \<or> st k i = SLEEPING \<and> state (f (procs k ! i)) = RUNNABLE"
    "state (f (procs k ! i)) \<in> {SLEEPING, ZOMBIE} \<Longrightarrow>
       pchan (f (procs k ! i)) = ch k i \<and> pgdir (f (procs k ! i)) = pd k i"
  shows "quiet k (upd i f k)"
  using assms by (simp add: quiet_def nth_list_update)

lemma quiet_wakes: "wakes k k' \<Longrightarrow> quiet k k'"
proof -
  assume w: "wakes k k'"
  show ?thesis
    unfolding quiet_def
  proof (intro conjI allI impI)
    fix j assume "j < length (procs k)"
    note W = wokenD [OF wakesD(4) [OF w this]]
    show "pidof k' j = pidof k j" "par k' j = par k j" "st k' j = st k j \<or> st k j = SLEEPING \<and> st k' j = RUNNABLE"
      "ch k' j = ch k j" "pd k' j = pd k j" using W by simp_all
  qed (use wakesD [OF w] in simp_all)
qed

lemma quiet_trans:
  assumes "quiet a b" "quiet b c"
  shows "quiet a c"
proof -
  have "pidof c j = pidof a j \<and> par c j = par a j \<and> (st c j = st a j \<or> st a j = SLEEPING \<and> st c j = RUNNABLE) \<and>
        (st c j \<in> {SLEEPING, ZOMBIE} \<longrightarrow> ch c j = ch a j \<and> pd c j = pd a j)" if "j < length (procs a)" for j
  proof -
    have A: "pidof b j = pidof a j" "par b j = par a j" "st b j = st a j \<or> st a j = SLEEPING \<and> st b j = RUNNABLE"
        "st b j \<in> {SLEEPING, ZOMBIE} \<Longrightarrow> ch b j = ch a j \<and> pd b j = pd a j"
      using assms(1) that unfolding quiet_def by blast+
    have "j < length (procs b)" using assms(1) that by (simp add: quiet_def)
    then have B: "pidof c j = pidof b j" "par c j = par b j" "st c j = st b j \<or> st b j = SLEEPING \<and> st c j = RUNNABLE"
        "st c j \<in> {SLEEPING, ZOMBIE} \<Longrightarrow> ch c j = ch b j \<and> pd c j = pd b j"
      using assms(2) unfolding quiet_def by blast+
    show ?thesis using A B by auto
  qed
  then show ?thesis using assms unfolding quiet_def by simp
qed

lemma quiet_kill: "kill n k = (r, k') \<Longrightarrow> quiet k k'"
proof (cases "first_index (\<lambda>p. pid p = n) (procs k)")
  case (Some i)
  then have "i < length (procs k)" by (rule first_index_lt)
  moreover assume "kill n k = (r, k')"
  ultimately show ?thesis using Some by (auto simp: kill_def intro!: quiet_upd split: if_splits)
next
  case None
  moreover assume "kill n k = (r, k')"
  ultimately have "k' = k" unfolding kill_def by (simp del: first_index_None)
  then show ?thesis by (simp add: quiet_def)
qed

lemma quiet_growproc:
  assumes "growproc ops i n k = (r, k')"
  shows "quiet k k'"
proof -
  have at: "procs k' ! j = procs k ! j \<or> (\<exists>x. procs k' ! j = (procs k ! j)\<lparr>sz := x\<rparr>)" if "j < length (procs k)" for j
    using assms that by (cases "i = j") (auto simp: growproc_def Let_def split: if_splits prod.splits)
  have "length (procs k') = length (procs k)" "nextpid k' = nextpid k" "initproc k' = initproc k"
    using assms by (auto simp: growproc_def Let_def split: if_splits prod.splits)
  moreover have "pidof k' j = pidof k j \<and> par k' j = par k j \<and> st k' j = st k j \<and> ch k' j = ch k j \<and> pd k' j = pd k j"
    if "j < length (procs k)" for j
    using at [OF that] by auto
  ultimately show ?thesis by (simp add: quiet_def)
qed

text \<open>The current process leaves the CPU in state \<open>q\<close>.\<close>

lemma inv_leave:
  assumes i: "inv u k oc kt" and c: "oc c = Some i"
    and k': "procs k' = (procs k)[i := q]" "nextpid k' = nextpid k" "initproc k' = initproc k"
    and q: "state q \<in> {RUNNABLE, SLEEPING}" "pid q = pidof k i" "parent q = par k i"
    and kt: "\<And>j. j \<noteq> i \<Longrightarrow> kt' j = kt j"
    and w: "kt' i \<in> {In_wait, In_join} \<Longrightarrow> state q = SLEEPING \<Longrightarrow> pchan q = ProcPtr i \<and>
      (\<forall>j<NPROC. par k j = Some i \<longrightarrow> st k j = ZOMBIE \<longrightarrow>
        (if kt' i = In_wait then pd k j = pgdir q else pd k j \<noteq> pgdir q))"
  shows "inv u k' (oc(c := None)) kt'"
proof -
  have ci: "cpu_inv k oc" using i by (simp add: inv_def)
  have len: "length (procs k) = NPROC" "i < NPROC" "st k i = RUNNING"
    using cpu_invD(1-3) [OF ci] c by auto
  have ne: "procs k' ! j = procs k ! j" if "j \<noteq> i" for j using that by (simp add: k')
  have at: "procs k' ! i = q" using len by (simp add: k')
  have "cpu_inv k' (oc(c := None))"
    using len q ne at by (intro cpu_inv_leave [OF ci c]) (auto simp: k')
  moreover have "pid_inv u k'"
  proof (rule pid_inv_keep [of u k])
    show "st k j \<noteq> UNUSED \<and> pidof k' j = pidof k j" if "st k' j \<noteq> UNUSED" for j
      using that ne at q len(3) by (cases "j = i") auto
  qed (use i k' in \<open>simp_all add: inv_def\<close>)
  moreover have "tree_inv k'"
  proof (rule tree_inv_keep [of k])
    show "par k' j = par k j \<and> (st k' j = UNUSED \<longleftrightarrow> st k j = UNUSED)" for j
      using ne at q len(3) by (cases "j = i") auto
    show "st k' r \<noteq> ZOMBIE" if "st k r \<noteq> ZOMBIE" for r
      using that ne at q by (cases "r = i") auto
  qed (use i k' in \<open>simp_all add: inv_def\<close>)
  moreover have "wake_inv k' kt'"
    unfolding wake_inv_def
  proof (intro allI impI)
    fix l assume l: "l < NPROC" "st k' l = SLEEPING" "kt' l \<in> {In_wait, In_join}"
    have zi: "j \<noteq> i" if "st k' j = ZOMBIE" for j
      using that at q by auto
    have z: "j \<noteq> i" "procs k' ! j = procs k ! j" if "st k' j = ZOMBIE" for j
      using zi [OF that] ne by simp_all
    show "ch k' l = ProcPtr l \<and> (\<forall>j<NPROC. par k' j = Some l \<longrightarrow> st k' j = ZOMBIE \<longrightarrow>
        (if kt' l = In_wait then pd k' j = pd k' l else pd k' j \<noteq> pd k' l))"
    proof (cases "l = i")
      case True
      then show ?thesis using w l at z by auto
    next
      case False
      then have "ch k l = ProcPtr l \<and> (\<forall>j<NPROC. par k j = Some l \<longrightarrow> st k j = ZOMBIE \<longrightarrow>
          (if kt l = In_wait then pd k j = pd k l else pd k j \<noteq> pd k l))"
        using i l ne [OF False] kt [OF False] by (intro wake_invD) (simp_all add: inv_def)
      then show ?thesis using False ne [OF False] kt [OF False] z by metis
    qed
  qed
  ultimately show ?thesis by (simp add: inv_def)
qed

text \<open>A new entry.\<close>

lemma inv_new_slot:
  assumes i: "inv u k oc kt" and n: "new_slot cur k k' x q" and cur: "cur < NPROC" "st k cur \<noteq> UNUSED" "st k cur \<noteq> ZOMBIE"
    and room: "u \<Longrightarrow> nextpid k < 2 ^ 31 - 1"
  shows "inv u k' oc kt"
proof -
  note N = n [unfolded new_slot_def]
  have len: "length (procs k) = NPROC" using i by (simp add: inv_def cpu_inv_def)
  have x: "x < NPROC" "st k x = UNUSED" using N len by auto
  have ne: "procs k' ! j = procs k ! j" if "j \<noteq> x" for j using that N by simp
  have at: "procs k' ! x = q" using N by simp
  have sq: "state q \<in> {UNUSED, EMBRYO, RUNNABLE}" using N by auto
  have px: "par k x = None" using i x by (auto simp: inv_def tree_inv_def)
  have "cpu_inv k' oc"
  proof (rule cpu_inv_same [of k])
    show "st k' j = RUNNING \<longleftrightarrow> st k j = RUNNING" for j
      using ne at sq x by (cases "j = x") auto
  qed (use i N len in \<open>simp_all add: inv_def\<close>)
  moreover have "pid_inv u k'"
  proof (cases u)
    case True
    then have pi: "pid_inv True k" using i by (simp add: inv_def)
    note P = pid_invD [OF pi]
    have nx: "nextpid k' = nextpid k + 1" "nextpid k' < 2 ^ 31" using N room [OF True] P(1) wrap32_id [of "nextpid k + 1"] by simp_all
    have b: "0 < pidof k' j \<and> pidof k' j < nextpid k'" if "j < NPROC" "st k' j \<noteq> UNUSED" for j
    proof (cases "j = x")
      case True
      then show ?thesis using P(1) at N nx by simp
    next
      case False
      then show ?thesis using that P(2) [of j] ne [OF False] nx by simp
    qed
    have uniq: "a = b" if "a < NPROC" "b < NPROC" "st k' a \<noteq> UNUSED" "st k' b \<noteq> UNUSED" "pidof k' a = pidof k' b" for a b
    proof (cases "a = x \<or> b = x")
      case True
      have "pidof k' y < nextpid k" if "y < NPROC" "y \<noteq> x" "st k' y \<noteq> UNUSED" for y
        using P(2) [of y] that ne [of y] by simp
      moreover have "pidof k' x = nextpid k" using at N by simp
      ultimately show ?thesis using True that by (metis less_irrefl)
    next
      case False
      then show ?thesis using that P(3) ne by simp
    qed
    show ?thesis unfolding pid_inv_def using b uniq P(1) nx by auto
  qed (simp add: pid_inv_def)
  moreover have "tree_inv k'"
  proof -
    have ti: "tree_inv k" using i by (simp add: inv_def)
    obtain r where r: "r < NPROC" "initproc k = Some r" "st k r \<noteq> UNUSED" "st k r \<noteq> ZOMBIE" "par k r = None"
      using tree_invD(2) [OF ti] by blast
    note T = tree_invD(1) [OF ti]
    have "j < NPROC \<and> j \<noteq> a \<and> st k' a \<noteq> UNUSED \<and> st k' j \<noteq> UNUSED \<and> st k' j \<noteq> ZOMBIE" if "a < NPROC" "par k' a = Some j" for a j
    proof (cases "a = x")
      case True
      then have "j = cur" "state q \<noteq> UNUSED" using that at N px by auto
      then show ?thesis using True cur x ne [of cur] at by metis
    next
      case False
      then show ?thesis using T [of a j] that ne x by metis
    qed
    moreover have "st k' r \<noteq> UNUSED" "st k' r \<noteq> ZOMBIE" "par k' r = None"
      using r x ne [of r] by metis+
    moreover have "initproc k' = Some r" using r(2) N by simp
    ultimately show ?thesis unfolding tree_inv_def using r(1) by blast
  qed
  moreover have "wake_inv k' kt"
  proof (rule wake_inv_keep [of k kt])
    fix l assume l: "l < NPROC" "st k' l = SLEEPING"
    then have "l \<noteq> x" using at sq by auto
    moreover have "j \<noteq> x" if "st k' j = ZOMBIE" for j using that at sq by auto
    ultimately show "st k l = SLEEPING \<and> kt l = kt l \<and> ch k' l = ch k l \<and> pd k' l = pd k l \<and>
       (\<forall>j<NPROC. par k' j = Some l \<longrightarrow> st k' j = ZOMBIE \<longrightarrow> par k j = Some l \<and> st k j = ZOMBIE \<and> pd k' j = pd k j)"
      using l ne by metis
  qed (use i in \<open>simp add: inv_def\<close>)
  ultimately show ?thesis by (simp add: inv_def)
qed


text \<open>A zombie child is reaped: its entry is free again.\<close>

lemma inv_reap:
  assumes i: "inv u k oc kt" and x: "x < NPROC" "st k x = ZOMBIE" "par k x = Some cur"
    and k': "procs k' = (procs k)[x := cleared (procs k ! x)]" "nextpid k' = nextpid k" "initproc k' = initproc k"
  shows "inv u k' oc kt"
proof -
  have I: "cpu_inv k oc" "pid_inv u k" "tree_inv k" "wake_inv k kt" using i by (simp_all add: inv_def)
  have len: "length (procs k) = NPROC" using cpu_invD(1) [OF I(1)] .
  have ne: "procs k' ! j = procs k ! j" if "j \<noteq> x" for j using that by (simp add: k')
  have at: "st k' x = UNUSED" "par k' x = None" using len x by (simp_all add: k' cleared_def)
  have "cpu_inv k' oc"
  proof (rule cpu_inv_same [OF I(1)])
    show "st k' j = RUNNING \<longleftrightarrow> st k j = RUNNING" for j
      using ne at x by (cases "j = x") simp_all
  qed (simp add: k' len)
  moreover have "pid_inv u k'"
  proof (rule pid_inv_keep [OF I(2) k'(2)])
    show "st k j \<noteq> UNUSED \<and> pidof k' j = pidof k j" if "st k' j \<noteq> UNUSED" for j
      using that ne at by (cases "j = x") simp_all
  qed
  moreover have "tree_inv k'"
  proof -
    obtain r where r: "r < NPROC" "initproc k = Some r" "st k r \<noteq> UNUSED" "st k r \<noteq> ZOMBIE" "par k r = None"
      using tree_invD(2) [OF I(3)] by blast
    then have rx: "r \<noteq> x" using x by auto
    have "j < NPROC \<and> j \<noteq> a \<and> st k' a \<noteq> UNUSED \<and> st k' j \<noteq> UNUSED \<and> st k' j \<noteq> ZOMBIE" if a: "a < NPROC" "par k' a = Some j" for a j
    proof -
      have "a \<noteq> x" using a at by auto
      then have p: "par k a = Some j" using a ne by simp
      then have "j \<noteq> x" using tree_invD(1) [OF I(3) a(1) p] x by auto
      then show ?thesis using tree_invD(1) [OF I(3) a(1) p] ne \<open>a \<noteq> x\<close> by simp
    qed
    then show ?thesis unfolding tree_inv_def using r ne [OF rx] k'(3) by metis
  qed
  moreover have "wake_inv k' kt"
  proof (rule wake_inv_keep [OF I(4)])
    fix l assume l: "l < NPROC" "st k' l = SLEEPING"
    then have "l \<noteq> x" using at by auto
    moreover have "j \<noteq> x" if "st k' j = ZOMBIE" for j using that at by auto
    ultimately show "st k l = SLEEPING \<and> kt l = kt l \<and> ch k' l = ch k l \<and> pd k' l = pd k l \<and>
       (\<forall>j<NPROC. par k' j = Some l \<longrightarrow> st k' j = ZOMBIE \<longrightarrow> par k j = Some l \<and> st k j = ZOMBIE \<and> pd k' j = pd k j)"
      using l ne by metis
  qed
  ultimately show ?thesis by (simp add: inv_def)
qed


lemma exit_proc_cases:
  assumes "exit_proc ops cur k = Some k'" "cur < NPROC" "length (procs k) = NPROC" "st k cur = RUNNING"
  obtains k2 k3 where "initproc k \<noteq> Some cur" "quiet k k2" "st k2 cur = RUNNING"
    "\<And>x. x < NPROC \<Longrightarrow> st k2 x = SLEEPING \<Longrightarrow> ch k2 x \<noteq> chan_of (par k2 cur)"
    "abandoned cur k2 NPROC k3" "k' = upd cur (\<lambda>p. p\<lparr>state := ZOMBIE\<rparr>) k3"
proof -
  from assms(1) obtain e1 e2 where e: "initproc k \<noteq> Some cur"
      "close_files ops (ofile (procs k ! cur)) (env k) = Some e1" "op_iput ops (cwd (procs k ! cur)) e1 = Some e2"
    by (auto simp: exit_proc_def split: if_splits bind_splits)
  define k1 where "k1 = (upd cur (\<lambda>p. p\<lparr>ofile := map (\<lambda>_. 0) (ofile p), cwd := 0\<rparr>) k)\<lparr>env := e2\<rparr>"
  define k2 where "k2 = wakeup1 (chan_of (par k1 cur)) k1"
  define k3 where "k3 = fold (abandon ops cur) [0..<NPROC] k2"
  have k': "k' = upd cur (\<lambda>p. p\<lparr>state := ZOMBIE\<rparr>) k3"
    using assms(1) e by (simp add: exit_proc_def Let_def k1_def k2_def k3_def)
  have l1: "length (procs k1) = NPROC" "st k1 cur = RUNNING" using assms by (simp_all add: k1_def)
  have q1: "quiet k k1" using assms(2,3) by (auto simp: quiet_def k1_def nth_list_update)
  have w: "wakes k1 k2" unfolding k2_def by (rule wakes_wakeup1)
  then have l2: "length (procs k2) = NPROC" using wakesD(1) l1 by metis
  have W: "pidof k2 j = pidof k1 j" "ch k2 j = ch k1 j" "pd k2 j = pd k1 j" "par k2 j = par k1 j"
      "st k2 j = st k1 j \<or> st k1 j = SLEEPING \<and> st k2 j = RUNNABLE" if "j < NPROC" for j
    using wokenD [OF wakesD(4) [OF w]] that l1 by simp_all
  have q2: "quiet k k2"
    using quiet_trans [OF q1 quiet_wakes [OF w]] .
  have "abandoned cur k2 NPROC k3"
    unfolding k3_def using l2 by (intro abandon_loop) simp
  moreover have "ch k2 x \<noteq> chan_of (par k2 cur)" if "x < NPROC" "st k2 x = SLEEPING" for x
    using wakeup1_none_left [of "procs k2 ! x" "chan_of (par k1 cur)" k1] that l2 W(4) [OF assms(2)] nth_mem [of x "procs k2"]
    by (simp add: k2_def [symmetric])
  moreover have "st k2 cur = RUNNING" using W(5) [OF assms(2)] l1 by auto
  ultimately show ?thesis using that [of k2 k3] e(1) q2 k' by blast
qed

lemma inv_exit:
  assumes i: "inv u k oc kt" and c: "oc c = Some cur" and e: "exit_proc ops cur k = Some k'"
  shows "inv u k' (oc(c := None)) kt"
proof -
  have cur: "cur < NPROC" "st k cur = RUNNING" "length (procs k) = NPROC"
    using i c cpu_invD(1-3) unfolding inv_def by blast+
  obtain k2 k3 where ini: "initproc k \<noteq> Some cur" and q: "quiet k k2" and r2: "st k2 cur = RUNNING"
    and nowait: "\<And>x. x < NPROC \<Longrightarrow> st k2 x = SLEEPING \<Longrightarrow> ch k2 x \<noteq> chan_of (par k2 cur)"
    and ab: "abandoned cur k2 NPROC k3" and k': "k' = upd cur (\<lambda>p. p\<lparr>state := ZOMBIE\<rparr>) k3"
    using exit_proc_cases [OF e cur(1) cur(3) cur(2)] by blast
  have "inv u k2 oc kt" using quiet_inv [OF q i] by simp
  then have I: "cpu_inv k2 oc" "pid_inv u k2" "tree_inv k2" "wake_inv k2 kt" by (simp_all add: inv_def)
  have len2: "length (procs k2) = NPROC" using cpu_invD(1) [OF I(1)] .
  have ini2: "initproc k2 = initproc k" using q by (simp add: quiet_def)
  note A = abandonedD [OF ab, unfolded len2]
  have ne: "procs k' ! j = procs k3 ! j" if "j \<noteq> cur" for j using that by (simp add: k')
  have at: "st k' cur = ZOMBIE" "pidof k' cur = pidof k2 cur" "par k' cur = par k3 cur"
    using A(1,4) cur(1) by (simp_all add: k')
  have curp: "par k2 cur \<noteq> Some cur" using tree_invD(1) [OF I(3) cur(1)] by blast
  have parc: "par k' cur = par k2 cur" using A(7) [OF cur(1)] curp at(3) by simp
  have st: "st k' j = st k2 j \<or> st k2 j = SLEEPING \<and> st k' j = RUNNABLE" "ch k' j = ch k2 j" "pd k' j = pd k2 j"
      "par k' j = (if par k2 j = Some cur then initproc k2 else par k2 j)" "pidof k' j = pidof k2 j"
    if "j < NPROC" "j \<noteq> cur" for j
    using A(4-8) that ne [OF that(2)] by simp_all
  have n: "nextpid k' = nextpid k2" "initproc k' = initproc k2" "length (procs k') = NPROC"
    using A(1-3) by (simp_all add: k')
  have "cpu_inv k' (oc(c := None))"
  proof (rule cpu_inv_leave [OF I(1) c n(3)])
    show "st k' j = RUNNING \<longleftrightarrow> st k2 j = RUNNING" if "j < NPROC" "j \<noteq> cur" for j
      using st(1) [OF that] by auto
  qed (simp add: at)
  moreover have "pid_inv u k'"
  proof (rule pid_inv_keep [OF I(2) n(1)])
    show "st k2 j \<noteq> UNUSED \<and> pidof k' j = pidof k2 j" if "j < NPROC" "st k' j \<noteq> UNUSED" for j
      using that st(1,5) [of j] at r2 by (cases "j = cur") auto
  qed
  moreover obtain r where r: "r < NPROC" "initproc k2 = Some r" "st k2 r \<noteq> UNUSED" "st k2 r \<noteq> ZOMBIE" "par k2 r = None"
    using tree_invD(2) [OF I(3)] by blast
  then have rc: "r \<noteq> cur" using ini ini2 by auto
  have "tree_inv k'"
  proof -
    have "j < NPROC \<and> j \<noteq> a \<and> st k' a \<noteq> UNUSED \<and> st k' j \<noteq> UNUSED \<and> st k' j \<noteq> ZOMBIE"
      if a: "a < NPROC" "par k' a = Some j" for a j
    proof (cases "a \<noteq> cur \<and> par k2 a = Some cur")
      case True
      then have "j = r" using a st(4) [of a] r by simp
      moreover have "a \<noteq> r" using True r by auto
      moreover have "st k2 a \<noteq> UNUSED" using tree_invD(1) [OF I(3) a(1)] True by blast
      ultimately show ?thesis using True r rc st(1) [of r] st(1) [of a] a by auto
    next
      case False
      then have p: "par k2 a = Some j" using a st(4) [of a] parc by (cases "a = cur") auto
      have "j \<noteq> cur" using False p curp by auto
      then show ?thesis using tree_invD(1) [OF I(3) a(1) p] st(1) [of j] st(1) [of a] a at(1) by (cases "a = cur") auto
    qed
    moreover have "st k' r \<noteq> UNUSED \<and> st k' r \<noteq> ZOMBIE \<and> par k' r = None"
      using r rc st(1,4) [of r] by auto
    ultimately show ?thesis unfolding tree_inv_def using r(1,2) n(2) by metis
  qed
  moreover have "wake_inv k' kt"
  proof (rule wake_inv_keep [OF I(4)])
    fix l assume l: "l < NPROC" "st k' l = SLEEPING" "kt l \<in> {In_wait, In_join}"
    have lc: "l \<noteq> cur" using l at by auto
    have s2: "st k2 l = SLEEPING" using st(1) [OF l(1) lc] l(2) by auto
    have chl: "ch k2 l = ProcPtr l" using wake_invD [OF I(4) l(1) s2 l(3)] by blast
    have "par k2 j = Some l \<and> st k2 j = ZOMBIE \<and> pd k' j = pd k2 j"
      if j: "j < NPROC" "par k' j = Some l" "st k' j = ZOMBIE" for j
    proof (cases "j = cur")
      case True
      then have "chan_of (par k2 cur) = ProcPtr l" using parc j by (simp add: chan_of_def)
      then show ?thesis using nowait [OF l(1) s2] chl by simp
    next
      case False
      have z: "st k2 j = ZOMBIE" using st(1) [OF j(1) False] j(3) by auto
      have "par k2 j \<noteq> Some cur"
      proof
        assume p: "par k2 j = Some cur"
        then have "l = r" using st(4) [OF j(1) False] j(2) r by simp
        then show False
          using A(9) [OF j(1) j(1) p z l(1)] l(2) ne [OF lc] st(2) [OF l(1) lc] chl r(2) by (simp add: chan_of_def)
      qed
      then show ?thesis using st(3,4) [OF j(1) False] j z by simp
    qed
    then show "st k2 l = SLEEPING \<and> kt l = kt l \<and> ch k' l = ch k2 l \<and> pd k' l = pd k2 l \<and>
       (\<forall>j<NPROC. par k' j = Some l \<longrightarrow> st k' j = ZOMBIE \<longrightarrow> par k2 j = Some l \<and> st k2 j = ZOMBIE \<and> pd k' j = pd k2 j)"
      using s2 st(2,3) [OF l(1) lc] by simp
  qed
  ultimately show ?thesis by (simp add: inv_def)
qed


section \<open>Every step keeps the invariant\<close>

lemma sys_inv_eq: "sys_inv u s \<longleftrightarrow> inv u (kern s) (on_cpu s) (kont s)"
  by (simp add: sys_inv_def inv_def)

lemma same_table_quiet: "same_table k k' \<Longrightarrow> quiet k k'"
  by (simp add: same_table_def quiet_def)

lemma running_facts:
  assumes "inv u k oc kt" "oc c = Some i"
  shows "i < NPROC" "st k i = RUNNING" "i < length (procs k)" "length (procs k) = NPROC"
  using assms cpu_invD(1-3) [of k oc] by (auto simp: inv_def)

lemma wait_entry_inv:
  assumes "inv u k oc kt" "oc c = Some i"
  shows "inv u (wait_entry i x k) oc kt" "st (wait_entry i x k) i = RUNNING"
proof -
  note R = running_facts [OF assms]
  have "quiet k (wait_entry i x k)"
  proof (cases "x = Run")
    case True
    then show ?thesis by (simp add: wait_entry_def quiet_def)
  next
    case False
    then have "wait_entry i x k = upd i (\<lambda>p. p\<lparr>pchan := Null\<rparr>) k" by (simp add: wait_entry_def sleep_done_def)
    then show ?thesis using R(2,3) quiet_upd [of i k "\<lambda>p. p\<lparr>pchan := Null\<rparr>"] by simp
  qed
  from quiet_inv [OF this assms(1)] show "inv u (wait_entry i x k) oc kt" by simp
  show "st (wait_entry i x k) i = RUNNING" using R by (simp add: wait_entry_def sleep_done_def)
qed

text \<open>One pass of \<open>wait\<close> or \<open>join\<close>, for the children that satisfy \<open>kid\<close>.\<close>

lemma inv_pass_sleep:
  assumes i: "inv u k oc kt" "oc c = Some i" and kt': "kt' = kt(i := w)" "w \<in> {In_wait, In_join}"
    and none: "\<forall>j<NPROC. par k j = Some i \<longrightarrow> st k j = ZOMBIE \<longrightarrow> (if w = In_wait then pd k j = pd k i else pd k j \<noteq> pd k i)"
  shows "inv u (sleep_on i (ProcPtr i) k) (oc(c := None)) kt'"
  by (rule inv_leave [OF i, where q = "(procs k ! i)\<lparr>pchan := ProcPtr i, state := SLEEPING\<rparr>"])
    (use none in \<open>simp_all add: sleep_on_def kt'\<close>)

lemma wait_pass_cases:
  assumes "wait_pass ops i k = Some (r, k')"
  obtains (reap) x where "x < length (procs k)" "st k x = ZOMBIE" "par k x = Some i" "pd k x \<noteq> pd k i"
      "r = Done (pidof k x)" "procs k' = (procs k)[x := cleared (procs k ! x)]" "nextpid k' = nextpid k" "initproc k' = initproc k"
  | (none) "r = Done (-1)" "k' = k" "killed (procs k ! i) \<or> (\<forall>j<length (procs k). par k j = Some i \<longrightarrow> pd k j = pd k i)"
      "\<forall>j<length (procs k). par k j = Some i \<longrightarrow> st k j = ZOMBIE \<longrightarrow> pd k j = pd k i"
  | (sleeps) "r = Sleeps" "k' = sleep_on i (ProcPtr i) k"
      "\<forall>j<length (procs k). par k j = Some i \<longrightarrow> st k j = ZOMBIE \<longrightarrow> pd k j = pd k i"
proof (cases "first_index (\<lambda>p. (parent p = Some i \<and> pgdir p \<noteq> pd k i) \<and> state p = ZOMBIE) (procs k)")
  case (Some x)
  then have x: "x < length (procs k)" "st k x = ZOMBIE" "par k x = Some i" "pd k x \<noteq> pd k i"
    by (simp_all add: first_index_Some)
  then show ?thesis
    using assms Some by (intro reap [of x]) (auto simp: wait_pass_def split: bind_splits)
next
  case None
  then have z: "\<forall>j<length (procs k). par k j = Some i \<longrightarrow> st k j = ZOMBIE \<longrightarrow> pd k j = pd k i"
    by (auto simp: all_set_conv_all_nth)
  have eq: "wait_pass ops i k = (if \<not> list_ex (\<lambda>p. parent p = Some i \<and> pgdir p \<noteq> pd k i) (procs k) \<or> killed (procs k ! i)
      then Some (Done (-1), k) else Some (Sleeps, sleep_on i (ProcPtr i) k))"
    unfolding wait_pass_def Let_def None by simp
  show ?thesis
  proof (cases "\<not> list_ex (\<lambda>p. parent p = Some i \<and> pgdir p \<noteq> pd k i) (procs k) \<or> killed (procs k ! i)")
    case True
    then have "killed (procs k ! i) \<or> (\<forall>j<length (procs k). par k j = Some i \<longrightarrow> pd k j = pd k i)"
      by (auto simp: list_ex_iff all_set_conv_all_nth)
    then show ?thesis using none eq assms True z by simp
  next
    case False
    then show ?thesis using sleeps eq assms z by simp
  qed
qed

lemma join_pass_cases:
  assumes "join_pass ops i k = Some (r, sk, k')"
  obtains (reap) x where "x < length (procs k)" "st k x = ZOMBIE" "par k x = Some i" "pd k x = pd k i"
      "r = Done (pidof k x)" "sk = Some (ustack (procs k ! x))"
      "procs k' = (procs k)[x := cleared (procs k ! x)]" "nextpid k' = nextpid k" "initproc k' = initproc k"
  | (none) "r = Done (-1)" "k' = k" "killed (procs k ! i) \<or> (\<forall>j<length (procs k). par k j = Some i \<longrightarrow> pd k j \<noteq> pd k i)"
      "\<forall>j<length (procs k). par k j = Some i \<longrightarrow> st k j = ZOMBIE \<longrightarrow> pd k j \<noteq> pd k i"
  | (sleeps) "r = Sleeps" "k' = sleep_on i (ProcPtr i) k"
      "\<forall>j<length (procs k). par k j = Some i \<longrightarrow> st k j = ZOMBIE \<longrightarrow> pd k j \<noteq> pd k i"
proof (cases "first_index (\<lambda>p. (parent p = Some i \<and> pgdir p = pd k i) \<and> state p = ZOMBIE) (procs k)")
  case (Some x)
  then have x: "x < length (procs k)" "st k x = ZOMBIE" "par k x = Some i" "pd k x = pd k i"
    by (simp_all add: first_index_Some)
  then show ?thesis
    using assms Some by (intro reap [of x]) (auto simp: join_pass_def split: bind_splits)
next
  case None
  then have z: "\<forall>j<length (procs k). par k j = Some i \<longrightarrow> st k j = ZOMBIE \<longrightarrow> pd k j \<noteq> pd k i"
    by (auto simp: all_set_conv_all_nth)
  have eq: "join_pass ops i k = (if \<not> list_ex (\<lambda>p. parent p = Some i \<and> pgdir p = pd k i) (procs k) \<or> killed (procs k ! i)
      then Some (Done (-1), None, k) else Some (Sleeps, None, sleep_on i (ProcPtr i) k))"
    unfolding join_pass_def Let_def None by simp
  show ?thesis
  proof (cases "\<not> list_ex (\<lambda>p. parent p = Some i \<and> pgdir p = pd k i) (procs k) \<or> killed (procs k ! i)")
    case True
    then have "killed (procs k ! i) \<or> (\<forall>j<length (procs k). par k j = Some i \<longrightarrow> pd k j \<noteq> pd k i)"
      by (auto simp: list_ex_iff all_set_conv_all_nth)
    then show ?thesis using none eq assms True z by simp
  next
    case False
    then show ?thesis using sleeps eq assms z by simp
  qed
qed

lemma kt_run: "inv u k oc kt \<Longrightarrow> oc c = Some i \<Longrightarrow> inv u k oc (kt(i := w))"
proof -
  assume a: "inv u k oc kt" "oc c = Some i"
  have "(kt(i := w)) j = kt j" if "st k j = SLEEPING" for j
    using running_facts(2) [OF a] that by auto
  then show ?thesis using quiet_inv [OF _ a(1), of k "kt(i := w)"] by (simp add: quiet_def)
qed

lemma kstep_inv:
  assumes "kstep ops s t" "sys_inv u s" "u \<longrightarrow> nextpid (kern s) < 2 ^ 31 - 1"
  shows "sys_inv u t"
  using assms
proof (induction rule: kstep.induct)
  case (schedule s c i k')
  note I = schedule.prems(1) [unfolded sys_inv_eq]
  have k': "st (kern s) i = RUNNABLE" "k' = upd i (\<lambda>p. p\<lparr>state := RUNNING\<rparr>) (kern s)"
    using schedule.hyps(3) by (auto simp: scheduler_visit_def split: if_splits)
  have len: "length (procs (kern s)) = NPROC" using I by (simp add: inv_def cpu_inv_def)
  have ne: "procs k' ! j = procs (kern s) ! j" if "j \<noteq> i" for j using that by (simp add: k'(2))
  have at: "procs k' ! i = (procs (kern s) ! i)\<lparr>state := RUNNING\<rparr>" using schedule.hyps(2) len by (simp add: k'(2))
  have n: "nextpid k' = nextpid (kern s)" "initproc k' = initproc (kern s)" "length (procs k') = NPROC"
    by (simp_all add: k'(2) len)
  have "cpu_inv k' ((on_cpu s)(c := Some i))"
    using I schedule.hyps(1,2) n at ne k'(1) by (intro cpu_inv_enter [of "kern s"]) (simp_all add: inv_def)
  moreover have "pid_inv u k'"
  proof (rule pid_inv_keep [of u "kern s"])
    show "st (kern s) j \<noteq> UNUSED \<and> pidof k' j = pidof (kern s) j" if "st k' j \<noteq> UNUSED" for j
      using that ne at k'(1) by (cases "j = i") auto
  qed (use I n in \<open>simp_all add: inv_def\<close>)
  moreover have "tree_inv k'"
  proof (rule tree_inv_keep [of "kern s"])
    show "par k' j = par (kern s) j \<and> (st k' j = UNUSED \<longleftrightarrow> st (kern s) j = UNUSED)" for j
      using ne at k'(1) by (cases "j = i") auto
    show "st k' j \<noteq> ZOMBIE" if "st (kern s) j \<noteq> ZOMBIE" for j
      using that ne at by (cases "j = i") auto
  qed (use I n in \<open>simp_all add: inv_def\<close>)
  moreover have "wake_inv k' (kont s)"
  proof (rule wake_inv_keep [of "kern s" "kont s"])
    fix l assume l: "l < NPROC" "st k' l = SLEEPING"
    then have "l \<noteq> i" using at by auto
    moreover have "j \<noteq> i" if "st k' j = ZOMBIE" for j using that at by auto
    ultimately show "st (kern s) l = SLEEPING \<and> kont s l = kont s l \<and> ch k' l = ch (kern s) l \<and> pd k' l = pd (kern s) l \<and>
       (\<forall>j<NPROC. par k' j = Some l \<longrightarrow> st k' j = ZOMBIE \<longrightarrow>
          par (kern s) j = Some l \<and> st (kern s) j = ZOMBIE \<and> pd k' j = pd (kern s) j)"
      using l ne by metis
  qed (use I in \<open>simp add: inv_def\<close>)
  ultimately show ?case by (simp add: sys_inv_eq inv_def)
next
  case (resume_sleep s c i)
  note I = resume_sleep.prems(1) [unfolded sys_inv_eq]
  note R = running_facts [OF I resume_sleep.hyps(1)]
  have "quiet (kern s) (sleep_done i (kern s))"
    unfolding sleep_done_def using R by (intro quiet_upd) simp_all
  from quiet_inv [OF this kt_run [OF I resume_sleep.hyps(1), of Run]] show ?case by (simp add: sys_inv_eq)
next
  case (resume_cond s c i)
  note I = resume_cond.prems(1) [unfolded sys_inv_eq]
  note R = running_facts [OF I resume_cond.hyps(1)]
  have "quiet (kern s) (condsleep_done i (kern s))"
    unfolding condsleep_done_def using R by (intro quiet_upd) simp_all
  from quiet_inv [OF this kt_run [OF I resume_cond.hyps(1), of Run]] show ?case by (simp add: sys_inv_eq)
next
  case (fork s c i r k')
  note I = fork.prems(1) [unfolded sys_inv_eq]
  note R = running_facts [OF I fork.hyps(1)]
  from fork.hyps(3) R(3) show ?case
  proof (rule fork_cases)
    show "st (kern s) i \<noteq> UNUSED" using R by simp
  next
    assume "same_table (kern s) k'"
    from quiet_inv [OF same_table_quiet [OF this] I] show ?case by (simp add: sys_inv_eq)
  next
    fix x q assume "new_slot i (kern s) k' x q"
    from inv_new_slot [OF I this R(1)] R(2) fork.prems(2) show ?case by (simp add: sys_inv_eq)
  next
    fix x q assume "new_slot i (kern s) k' x q"
    from inv_new_slot [OF I this R(1)] R(2) fork.prems(2) show ?case by (simp add: sys_inv_eq)
  qed
next
  case (clone s c i fcn arg stk r k')
  note I = clone.prems(1) [unfolded sys_inv_eq]
  note R = running_facts [OF I clone.hyps(1)]
  from clone.hyps(3) R(3) show ?case
  proof (rule clone_cases)
    show "st (kern s) i \<noteq> UNUSED" using R by simp
  next
    assume "same_table (kern s) k'"
    from quiet_inv [OF same_table_quiet [OF this] I] show ?case by (simp add: sys_inv_eq)
  qed (use inv_new_slot [OF I _ R(1)] R(2) clone.prems(2) in \<open>simp_all add: sys_inv_eq\<close>)
next
  case (growproc s c i n r k')
  from quiet_inv [OF quiet_growproc [OF growproc.hyps(3)]] growproc.prems(1) show ?case by (simp add: sys_inv_eq)
next
  case (exec s c i pdir nsz entry sp nm)
  note I = exec.prems(1) [unfolded sys_inv_eq]
  note R = running_facts [OF I exec.hyps(1)]
  have "quiet (kern s) (exec_commit i pdir nsz entry sp nm (kern s))"
    unfolding exec_commit_def using R by (intro quiet_upd) simp_all
  from quiet_inv [OF this I] show ?case by (simp add: sys_inv_eq)
next
  case (kill n s r k')
  from quiet_inv [OF quiet_kill [OF kill.hyps]] kill.prems(1) show ?case by (simp add: sys_inv_eq)
next
  case (wakeup s ch)
  from quiet_inv [OF quiet_wakes [OF wakes_wakeup1 [of "kern s" ch]]] wakeup.prems(1) show ?case
    by (simp add: sys_inv_eq wakeup_def)
next
  case (condwakeup s n)
  from quiet_inv [OF quiet_wakes [OF wakes_condwakeup [of "kern s" n]]] condwakeup.prems(1) show ?case
    by (simp add: sys_inv_eq)
next
  case (yield s c i)
  have "inv u (yield i (kern s)) ((on_cpu s)(c := None)) (kont s)"
    by (rule inv_leave [OF yield.prems(1) [unfolded sys_inv_eq] yield.hyps(1), where q = "(procs (kern s) ! i)\<lparr>state := RUNNABLE\<rparr>"])
      (simp_all add: yield_def)
  then show ?case by (simp add: sys_inv_eq)
next
  case (sleep s c i ch)
  have "inv u (sleep_on i ch (kern s)) ((on_cpu s)(c := None)) ((kont s)(i := In_sleep))"
    by (rule inv_leave [OF sleep.prems(1) [unfolded sys_inv_eq] sleep.hyps(1), where q = "(procs (kern s) ! i)\<lparr>pchan := ch, state := SLEEPING\<rparr>"])
      (simp_all add: sleep_on_def)
  then show ?case by (simp add: sys_inv_eq)
next
  case (condsleep s c i n)
  have "inv u (condsleep i n (kern s)) ((on_cpu s)(c := None)) ((kont s)(i := In_cond))"
    by (rule inv_leave [OF condsleep.prems(1) [unfolded sys_inv_eq] condsleep.hyps(1), where q = "(procs (kern s) ! i)\<lparr>chanId := n, state := SLEEPING\<rparr>"])
      (simp_all add: condsleep_def)
  then show ?case by (simp add: sys_inv_eq)
next
  case (exit s c i k')
  from inv_exit [OF exit.prems(1) [unfolded sys_inv_eq] exit.hyps(1,3)] show ?case by (simp add: sys_inv_eq)
next
  case (wait_done s c i r k')
  note I = wait_entry_inv [OF wait_done.prems(1) [unfolded sys_inv_eq] wait_done.hyps(1), of "kont s i"]
  note R = running_facts [OF I(1) wait_done.hyps(1)]
  from wait_done.hyps(3) have "inv u k' (on_cpu s) (kont s)"
  proof (cases rule: wait_pass_cases)
    case (reap x)
    then show ?thesis using R(4) by (intro inv_reap [OF I(1), of x]) simp_all
  qed (use I in simp_all)
  from kt_run [OF this wait_done.hyps(1)] show ?case by (simp add: sys_inv_eq)
next
  case (wait_sleep s c i k')
  note I = wait_entry_inv [OF wait_sleep.prems(1) [unfolded sys_inv_eq] wait_sleep.hyps(1), of "kont s i"]
  note R = running_facts [OF I(1) wait_sleep.hyps(1)]
  from wait_sleep.hyps(3) have "inv u k' ((on_cpu s)(c := None)) ((kont s)(i := In_wait))"
    by (cases rule: wait_pass_cases) (use R inv_pass_sleep [OF I(1) wait_sleep.hyps(1)] in simp_all)
  then show ?case by (simp add: sys_inv_eq)
next
  case (join_done s c i r sk k')
  note I = wait_entry_inv [OF join_done.prems(1) [unfolded sys_inv_eq] join_done.hyps(1), of "kont s i"]
  note R = running_facts [OF I(1) join_done.hyps(1)]
  from join_done.hyps(3) have "inv u k' (on_cpu s) (kont s)"
  proof (cases rule: join_pass_cases)
    case (reap x)
    then show ?thesis using R(4) by (intro inv_reap [OF I(1), of x]) simp_all
  qed (use I in simp_all)
  from kt_run [OF this join_done.hyps(1)] show ?case by (simp add: sys_inv_eq)
next
  case (join_sleep s c i sk k')
  note I = wait_entry_inv [OF join_sleep.prems(1) [unfolded sys_inv_eq] join_sleep.hyps(1), of "kont s i"]
  note R = running_facts [OF I(1) join_sleep.hyps(1)]
  from join_sleep.hyps(3) have "inv u k' ((on_cpu s)(c := None)) ((kont s)(i := In_join))"
    by (cases rule: join_pass_cases) (use R inv_pass_sleep [OF I(1) join_sleep.hyps(1)] in simp_all)
  then show ?case by (simp add: sys_inv_eq)
qed

lemma kreach_inv: "kreach ops s t \<Longrightarrow> sys_inv False s \<Longrightarrow> sys_inv False t"
  by (induction rule: kreach.induct) (use kstep_inv in blast)+

lemma kreach_low_inv: "kreach_low ops s t \<Longrightarrow> sys_inv True s \<Longrightarrow> sys_inv True t"
  by (induction rule: kreach_low.induct) (use kstep_inv in blast)+

lemma kreach_low_kreach: "kreach_low ops s t \<Longrightarrow> kreach ops s t"
  by (induction rule: kreach_low.induct) (auto intro: kreach.intros)

section \<open>Booting\<close>

definition fresh :: "'e kern \<Rightarrow> bool" where
  "fresh k \<longleftrightarrow> length (procs k) = NPROC \<and> nextpid k = 1 \<and> (\<forall>p\<in>set (procs k). state p = UNUSED \<and> parent p = None)"

definition booted :: "'e kern \<Rightarrow> 'e sys" where
  "booted k = \<lparr>kern = k, on_cpu = (\<lambda>_. None), kont = (\<lambda>_. Run)\<rparr>"

lemma userinit_table:
  assumes "userinit ops segs k = Some k'" "fresh k"
  obtains i q where "i < NPROC" "procs k' = (procs k)[i := q]" "state q = RUNNABLE" "pid q = 1" "parent q = None"
    "nextpid k' = 2" "initproc k' = Some i"
proof -
  obtain r k1 where al: "allocproc ops k = (r, k1)" by fastforce
  then show ?thesis
  proof (cases rule: allocproc_cases)
    case (got i e stk)
    have F: "nextpid k = 1" "length (procs k) = NPROC" "par k i = None"
      using assms(2) got(1) by (auto simp: fresh_def)
    obtain pdr e1 where sk: "op_setupkvm ops (env k1) = (pdr, e1)" by fastforce
    from assms(1) al got(3) sk obtain e2 where e: "pdr \<noteq> 0" "op_inituvm ops pdr e1 = Some e2"
      by (auto simp: userinit_def Let_def split: if_splits bind_splits)
    obtain root e3 where "op_namei_root ops e2 = (root, e3)" by fastforce
    with assms(1) al got(3) sk e have k': "procs k' = (procs k1)[i := (procs k1 ! i)\<lparr>pgdir := pdr, sz := 4096,
        tf := \<lparr>eax = 0, eip = 0, esp = 4096, tf_rest = segs\<rparr>, pname := ''initcode'', cwd := root, state := RUNNABLE\<rparr>]"
      "nextpid k' = nextpid k1" "initproc k' = Some i"
      by (auto simp: userinit_def Let_def)
    then have "procs k' = (procs k)[i := procs k' ! i]" "state (procs k' ! i) = RUNNABLE" "pid (procs k' ! i) = 1"
      "parent (procs k' ! i) = None"
      using got(1,6) F by simp_all
    then show ?thesis
      using got(1,7) F k'(2,3) by (intro that [of i "procs k' ! i"]) (simp_all add: wrap32_def)
  qed (use assms al in \<open>simp_all add: userinit_def\<close>)
qed

lemma booted_inv:
  assumes "userinit ops segs k = Some k'" "fresh k"
  shows "sys_inv u (booted k')"
proof -
  obtain i q where i: "i < NPROC" "procs k' = (procs k)[i := q]" "state q = RUNNABLE" "pid q = 1" "parent q = None"
    "nextpid k' = 2" "initproc k' = Some i"
    using userinit_table [OF assms] .
  have len: "length (procs k) = NPROC" and un: "\<And>j. j < NPROC \<Longrightarrow> st k j = UNUSED \<and> par k j = None"
    using assms(2) by (auto simp: fresh_def)
  have at: "procs k' ! i = q" using i len by simp
  have st: "st k' j = (if j = i then RUNNABLE else UNUSED)" "par k' j = None" if "j < NPROC" for j
    using that i(2,3,5) at un [OF that] by (cases "j = i"; simp)+
  have "cpu_inv k' (\<lambda>_. None)" using i(2) len st by (simp add: cpu_inv_def)
  moreover have "pid_inv u k'" using i at st by (simp add: pid_inv_def)
  moreover have "tree_inv k'" using i st by (simp add: tree_inv_def)
  moreover have "wake_inv k' (\<lambda>_. Run)" by (simp add: wake_inv_def)
  ultimately show ?thesis by (simp add: sys_inv_def booted_def)
qed

section \<open>Properties\<close>

text \<open>
  C5: After \<open>userinit\<close>, whatever the CPUs and processes do: no process runs on two CPUs, the
  processes marked running are those on a CPU, and the parent of a process is a process in use that has not exited.
  As long as the \<open>int\<close> that counts the process ids has not reached its last value (two billion calls of \<open>fork\<close> and \<open>clone\<close>),
  processes in use have distinct positive ids; the wrapped counter gives out ids again.
\<close>
theorem process_table_invariant:
  assumes "fresh k" "userinit ops segs k = Some k1" "kreach ops (booted k1) s"
  shows "(\<forall>c d i. on_cpu s c = Some i \<longrightarrow> on_cpu s d = Some i \<longrightarrow> c = d) \<and>
    (\<forall>i<NPROC. state (procs (kern s) ! i) = RUNNING \<longleftrightarrow> (\<exists>c. on_cpu s c = Some i)) \<and>
    (\<forall>i<NPROC. \<forall>j. parent (procs (kern s) ! i) = Some j \<longrightarrow>
       j < NPROC \<and> state (procs (kern s) ! j) \<noteq> UNUSED \<and> state (procs (kern s) ! j) \<noteq> ZOMBIE) \<and>
    (kreach_low ops (booted k1) s \<longrightarrow>
       (\<forall>i<NPROC. state (procs (kern s) ! i) \<noteq> UNUSED \<longrightarrow> 0 < pid (procs (kern s) ! i)) \<and>
       (\<forall>i<NPROC. \<forall>j<NPROC. state (procs (kern s) ! i) \<noteq> UNUSED \<longrightarrow> state (procs (kern s) ! j) \<noteq> UNUSED \<longrightarrow>
          pid (procs (kern s) ! i) = pid (procs (kern s) ! j) \<longrightarrow> i = j))"
proof -
  have I: "cpu_inv (kern s) (on_cpu s)" "tree_inv (kern s)"
    using kreach_inv [OF assms(3) booted_inv [OF assms(2,1)]] by (simp_all add: sys_inv_def)
  have "pid_inv True (kern s)" if "kreach_low ops (booted k1) s"
    using kreach_low_inv [OF that booted_inv [OF assms(2,1)]] by (simp add: sys_inv_def)
  then show ?thesis
    using cpu_invD(2-5) [OF I(1)] tree_invD(1) [OF I(2)] pid_invD(2,3) [of "kern s"] by blast
qed

text \<open>
  C6: No exit is missed: in every reachable state, a process asleep in \<open>wait\<close> has no zombie child
  with another page table, and one asleep in \<open>join\<close> has no zombie child with its own page table;
  if such a child appears, the sleeper has been made runnable.
\<close>
theorem wait_misses_no_exit:
  assumes "fresh k" "userinit ops segs k = Some k1" "kreach ops (booted k1) s"
  shows "\<forall>i<NPROC. \<forall>j<NPROC. state (procs (kern s) ! i) = SLEEPING \<longrightarrow>
    parent (procs (kern s) ! j) = Some i \<longrightarrow> state (procs (kern s) ! j) = ZOMBIE \<longrightarrow>
    (kont s i = In_wait \<longrightarrow> pgdir (procs (kern s) ! j) = pgdir (procs (kern s) ! i)) \<and>
    (kont s i = In_join \<longrightarrow> pgdir (procs (kern s) ! j) \<noteq> pgdir (procs (kern s) ! i))"
proof -
  have "wake_inv (kern s) (kont s)"
    using kreach_inv [OF assms(3) booted_inv [OF assms(2,1)]] by (simp add: sys_inv_def)
  then show ?thesis
    unfolding wake_inv_def by fastforce
qed


text \<open>
  C35: A thread made by \<open>clone\<close> shares the caller's page table and starts at the given function with its stack pointer just
  below the top of the given, page-aligned stack.  When later (in any state \<open>k2\<close> in which the entry is still this thread of
  this caller) it calls \<open>exit\<close>, having no threads of its own, \<open>join\<close> by the caller, if no earlier entry is a zombie thread of
  the caller, returns its id, hands back that stack and frees the entry, and a \<open>wait\<close> by the caller leaves the entry alone.
  (A thread with threads of its own gets a page table of its own in \<open>exit\<close>; it is no longer a thread for \<open>join\<close>.)
\<close>
theorem clone_join_roundtrip:
  assumes "clone ops cur fcn arg stk k = Some (r, k')" "r \<noteq> -1" "length (procs k) = NPROC"
    "cur < NPROC" "state (procs k ! cur) \<noteq> UNUSED"
  shows "r = nextpid k \<and> stk mod 4096 = 0 \<and> (\<exists>i<NPROC. let q = procs k' ! i in
     i \<noteq> cur \<and> pid q = r \<and> state q = RUNNABLE \<and> pgdir q = pgdir (procs k ! cur) \<and> parent q = Some cur \<and>
     eip (tf q) = fcn \<and> esp (tf q) = stk + 4088 \<and> eax (tf q) = 0 \<and>
     (\<forall>k2 k3 e. length (procs k2) = NPROC \<longrightarrow> pid (procs k2 ! i) = r \<longrightarrow> parent (procs k2 ! i) = Some cur \<longrightarrow>
        ustack (procs k2 ! i) = stk \<longrightarrow> pgdir (procs k2 ! i) = pgdir (procs k2 ! cur) \<longrightarrow> childless i k2 \<longrightarrow>
        exit_proc ops i k2 = Some k3 \<longrightarrow>
        (\<forall>j<i. \<not> (parent (procs k3 ! j) = Some cur \<and> pgdir (procs k3 ! j) = pgdir (procs k3 ! cur) \<and>
           state (procs k3 ! j) = ZOMBIE)) \<longrightarrow>
        op_kfree ops (kstack (procs k2 ! i)) (env k3) = Some e \<longrightarrow>
        (\<exists>k4. join_pass ops cur k3 = Some (Done r, Some stk, k4) \<and> state (procs k4 ! i) = UNUSED) \<and>
        (\<forall>w k4. wait_pass ops cur k3 = Some (w, k4) \<longrightarrow> procs k4 ! i = procs k3 ! i)))"
proof -
  have cl: "cur < length (procs k)" using assms(3,4) by simp
  from assms(1) cl assms(5) show ?thesis
  proof (cases rule: clone_cases)
    case (ok i q)
    have q: "procs k' ! i = q" "pid q = r" "i < NPROC" "i \<noteq> cur" using ok assms(3,5) by (auto simp: new_slot_def)
    have after: "(\<exists>k4. join_pass ops cur k3 = Some (Done r, Some stk, k4) \<and> state (procs k4 ! i) = UNUSED) \<and>
        (\<forall>w k4. wait_pass ops cur k3 = Some (w, k4) \<longrightarrow> procs k4 ! i = procs k3 ! i)"
      if l: "length (procs k2) = NPROC" and f: "pid (procs k2 ! i) = r" "parent (procs k2 ! i) = Some cur"
          "ustack (procs k2 ! i) = stk" "pgdir (procs k2 ! i) = pgdir (procs k2 ! cur)" "childless i k2"
        and ex: "exit_proc ops i k2 = Some k3"
        and first: "\<forall>j<i. \<not> (parent (procs k3 ! j) = Some cur \<and> pgdir (procs k3 ! j) = pgdir (procs k3 ! cur) \<and>
           state (procs k3 ! j) = ZOMBIE)"
        and fr: "op_kfree ops (kstack (procs k2 ! i)) (env k3) = Some e" for k2 k3 e
    proof -
      have il: "i < length (procs k2)" "parent (procs k2 ! i) \<noteq> Some i" using q l f(2) by auto
      note X = exit_childless [OF ex il(1) l f(5) il(2)]
      have k3: "length (procs k3) = NPROC" "pgdir (procs k3 ! i) = pgdir (procs k3 ! cur)" "ustack (procs k3 ! i) = stk"
        "kstack (procs k3 ! i) = kstack (procs k2 ! i)" "state (procs k3 ! i) = ZOMBIE" "pid (procs k3 ! i) = r"
        "parent (procs k3 ! i) = Some cur"
        using X f l q(3) assms(4) by (simp_all add: same_stacks_def)
      have "first_index (\<lambda>p. (parent p = Some cur \<and> pgdir p = pgdir (procs k3 ! cur)) \<and> state p = ZOMBIE) (procs k3) = Some i"
        unfolding first_index_Some using k3 q(3) first by auto
      then have "\<exists>k4. join_pass ops cur k3 = Some (Done r, Some stk, k4) \<and> state (procs k4 ! i) = UNUSED"
        unfolding join_pass_def Let_def using k3 fr q(3) by (simp add: cleared_def)
      moreover have "procs k4 ! i = procs k3 ! i" if "wait_pass ops cur k3 = Some (w, k4)" for w k4
        using that
      proof (cases rule: wait_pass_cases)
        case (reap x)
        then have "x \<noteq> i" using k3 by auto
        then show ?thesis using reap by simp
      qed (use q(4) in \<open>simp_all add: sleep_on_def\<close>)
      ultimately show ?thesis by blast
    qed
    have f: "state q = RUNNABLE" "pgdir q = pgdir (procs k ! cur)" "parent q = Some cur" "eip (tf q) = fcn"
        "esp (tf q) = stk + 4088" "eax (tf q) = 0" "r = nextpid k" "stk mod 4096 = 0"
      using ok by (simp_all add: add.commute)
    show ?thesis
      unfolding Let_def using f q after by (intro conjI exI [of _ i]) blast+
  qed (use assms in simp_all)
qed

text \<open>
  A process id burnt by a \<open>fork\<close> that ran out of memory stays in the unused entry: \<open>kill\<close> of that
  id succeeds and marks the entry, and the next process made in it starts out killed.
\<close>
theorem killed_before_birth:
  assumes "first_index (\<lambda>p. state p = UNUSED) (procs k) = Some i" "state (procs k ! cur) \<noteq> UNUSED"
    "\<forall>p\<in>set (procs k). pid p < nextpid k" "op_kalloc ops (env k) = (0, e)"
    "op_kalloc ops e = (stk, e')" "stk \<noteq> 0"
  shows "\<exists>k1 k2 k3. fork ops cur k = Some (-1, k1) \<and> kill (nextpid k) k1 = (0, k2) \<and>
    allocproc ops k2 = (Some i, k3) \<and> killed (procs k3 ! i)"
proof -
  have i: "i < length (procs k)" "state (procs k ! i) = UNUSED" "\<forall>j<i. state (procs k ! j) \<noteq> UNUSED"
    using assms(1) by (simp_all add: first_index_Some)
  obtain k1 where k1: "allocproc ops k = (None, k1)" and
    pk1: "procs k1 = (procs k)[i := (procs k ! i)\<lparr>state := EMBRYO, pid := nextpid k, kstack := 0, state := UNUSED\<rparr>]" "env k1 = e"
    using assms(1,4) i(1) by (simp add: allocproc_def)
  have fk: "fork ops cur k = Some (-1, k1)" by (simp add: fork_def k1)
  have at1: "pid (procs k1 ! i) = nextpid k" "state (procs k1 ! i) = UNUSED" using i(1) by (simp_all add: pk1)
  have ne1: "procs k1 ! j = procs k ! j" if "j \<noteq> i" for j using that by (simp add: pk1)
  have "pid (procs k1 ! j) \<noteq> nextpid k" if "j < i" for j
    using that ne1 [of j] assms(3) i(1) by (metis less_irrefl less_trans nth_mem)
  then have "first_index (\<lambda>p. pid p = nextpid k) (procs k1) = Some i"
    unfolding first_index_Some using at1 i(1) by (simp add: pk1(1))
  then obtain k2 where k2: "kill (nextpid k) k1 = (0, k2)" and
    pk2: "procs k2 = (procs k1)[i := (procs k1 ! i)\<lparr>killed := True, state := UNUSED\<rparr>]" "env k2 = e"
    using at1 pk1(2) by (simp add: kill_def)
  have at2: "killed (procs k2 ! i)" "state (procs k2 ! i) = UNUSED" using i(1) by (simp_all add: pk2 pk1)
  have "procs k2 ! j = procs k ! j" if "j \<noteq> i" for j using that ne1 by (simp add: pk2)
  then have "first_index (\<lambda>p. state p = UNUSED) (procs k2) = Some i"
    unfolding first_index_Some using at2 i by (auto simp: pk2(1) pk1(1))
  then obtain k3 where "allocproc ops k2 = (Some i, k3)" "killed (procs k3 ! i)"
    using assms(5,6) pk2(2) at2 i(1) by (simp add: allocproc_def pk2(1) pk1(1))
  then show ?thesis using fk k2 by blast
qed

section \<open>Examples\<close>

text \<open>A kernel with room for two stacks, and memory operations that always succeed.\<close>

definition blank_proc :: proc where
  "blank_proc = \<lparr>sz = 0, pgdir = 0, kstack = 0, state = UNUSED, pid = 0, parent = None,
     tf = \<lparr>eax = 0, eip = 0, esp = 0, tf_rest = []\<rparr>,
     pcontext = \<lparr>edi = 0, esi = 0, ebx = 0, ebp = 0, ctx_eip = 0, ret_addr = 0\<rparr>,
     pchan = Null, killed = False, ofile = replicate NOFILE 0, cwd = 0, pname = [], ustack = 0, chanId = 0\<rparr>"

definition easy_ops :: "nat kops" where
  "easy_ops = \<lparr>op_kalloc = (\<lambda>n. (n, n + 1)), op_kfree = (\<lambda>_ n. Some n), op_setupkvm = (\<lambda>n. (n + 1, n + 1)),
     op_inituvm = (\<lambda>_ n. Some n), op_copyuvm = (\<lambda>_ _ n. (n + 1, n + 1)), op_freevm = (\<lambda>_ n. Some n),
     op_allocuvm = (\<lambda>_ _ z n. (z, n)), op_deallocuvm = (\<lambda>_ _ z n. (z, n)), op_copyout = (\<lambda>_ _ _ n. (True, n)),
     op_filedup = (\<lambda>_ n. Some n), op_fileclose = (\<lambda>_ n. Some n), op_idup = (\<lambda>_ n. Some n),
     op_iput = (\<lambda>_ n. Some n), op_namei_root = (\<lambda>n. (1, n)), forkret_addr = 16, trapret_addr = 32\<rparr>"

definition empty_kern :: "nat \<Rightarrow> nat kern" where
  "empty_kern n = \<lparr>procs = replicate NPROC blank_proc, nextpid = 1, initproc = None, env = n\<rparr>"

lemma fresh_empty: "fresh (empty_kern n)"
  by (simp add: fresh_def empty_kern_def blank_proc_def)

lemma empty_first: "first_index (\<lambda>p. state p = UNUSED) (procs (empty_kern n)) = Some 0"
  by (simp add: first_index_Some empty_kern_def blank_proc_def NPROC_def)

lemma empty_kern_simps:
  "env (empty_kern n) = n" "nextpid (empty_kern n) = 1" "length (procs (empty_kern n)) = NPROC" "(0::nat) < NPROC"
  "procs (empty_kern n) ! 0 = blank_proc"
  by (simp_all add: empty_kern_def NPROC_def)

lemma easy_ops_simps:
  "op_kalloc easy_ops n = (n, n + 1)" "op_kfree easy_ops a n = Some n" "op_setupkvm easy_ops n = (n + 1, n + 1)"
  "op_inituvm easy_ops a n = Some n" "op_copyuvm easy_ops a z n = (n + 1, n + 1)" "op_namei_root easy_ops n = (1, n)"
  "op_copyout easy_ops a b l n = (True, n)" "op_idup easy_ops a n = Some n" "op_iput easy_ops a n = Some n"
  "op_filedup easy_ops a n = Some n" "op_fileclose easy_ops a n = Some n"
  by (simp_all add: easy_ops_def)

definition init_kern :: "nat kern" where
  "init_kern = the (userinit easy_ops [] (empty_kern 2))"

lemma init_kern: "userinit easy_ops [] (empty_kern 2) = Some init_kern"
  unfolding init_kern_def by (simp add: userinit_def allocproc_def empty_first easy_ops_simps empty_kern_simps)

lemma init_procs:
  "procs init_kern ! 0 = blank_proc\<lparr>state := EMBRYO, pid := 1, kstack := 2, pcontext := new_context easy_ops,
     pgdir := 4, sz := 4096, tf := \<lparr>eax = 0, eip = 0, esp = 4096, tf_rest = []\<rparr>, pname := ''initcode'', cwd := 1,
     state := RUNNABLE\<rparr>"
  "length (procs init_kern) = NPROC"
  unfolding init_kern_def
  by (simp_all add: userinit_def allocproc_def empty_first easy_ops_simps empty_kern_simps)

theorem process_table_invariant_witness:
  "\<exists>s. kreach easy_ops (booted init_kern) s \<and> on_cpu s 0 = Some 0 \<and> state (procs (kern s) ! 0) = RUNNING"
proof -
  let ?k = "upd 0 (\<lambda>p. p\<lparr>state := RUNNING\<rparr>) init_kern"
  let ?s = "(booted init_kern)\<lparr>kern := ?k, on_cpu := (\<lambda>_. None)(0 := Some 0)\<rparr>"
  have "kstep easy_ops (booted init_kern) ((booted init_kern)\<lparr>kern := ?k, on_cpu := (on_cpu (booted init_kern))(0 := Some 0)\<rparr>)"
    by (rule kstep.schedule) (simp_all add: booted_def scheduler_visit_def init_procs NPROC_def)
  then have run: "kreach easy_ops (booted init_kern) ?s"
    by (auto simp: booted_def intro: kreach.intros)
  have "state (procs (kern ?s) ! 0) = RUNNING \<longleftrightarrow> (\<exists>c. on_cpu ?s c = Some 0)"
    using process_table_invariant [OF fresh_empty init_kern run, THEN conjunct2, THEN conjunct1]
      empty_kern_simps(4) by blast
  moreover have "on_cpu ?s 0 = Some 0" by simp
  ultimately show ?thesis using run by blast
qed


text \<open>The first process runs, forks, and waits for its child.\<close>

definition running_init :: "nat kern" where
  "running_init = upd 0 (\<lambda>p. p\<lparr>state := RUNNING\<rparr>) init_kern"

lemma running_init_reach:
  "kreach easy_ops (booted init_kern) ((booted init_kern)\<lparr>kern := running_init, on_cpu := (on_cpu (booted init_kern))(0 := Some 0)\<rparr>)"
proof -
  have "kstep easy_ops (booted init_kern) ((booted init_kern)\<lparr>kern := running_init, on_cpu := (on_cpu (booted init_kern))(0 := Some 0)\<rparr>)"
    by (rule kstep.schedule)
      (simp_all add: booted_def scheduler_visit_def init_procs empty_kern_simps running_init_def)
  then show ?thesis by (blast intro: kreach.intros)
qed

lemma running_init_table:
  "procs running_init = ((procs init_kern ! 0)\<lparr>state := RUNNING\<rparr>) # blank_proc # replicate 62 blank_proc"
  "nextpid running_init = 2" "env running_init = 4"
proof -
  have "replicate NPROC blank_proc = blank_proc # blank_proc # replicate 62 blank_proc"
    by (simp add: NPROC_def numeral_eq_Suc)
  then show "procs running_init = ((procs init_kern ! 0)\<lparr>state := RUNNING\<rparr>) # blank_proc # replicate 62 blank_proc"
    "nextpid running_init = 2" "env running_init = 4"
    unfolding init_kern_def running_init_def
    by (simp_all add: userinit_def allocproc_def empty_first easy_ops_simps empty_kern_simps wrap32_def)
      (simp add: empty_kern_def)
qed

lemma dup_no_files: "length gs = n \<Longrightarrow> dup_files ops (replicate n 0) gs e = Some (gs, e)"
  by (induction n arbitrary: gs) (auto simp: length_Suc_conv)

lemma running_init_files:
  "ofile (procs init_kern ! 0) = replicate NOFILE 0" "ofile blank_proc = replicate NOFILE 0"
  "state (procs init_kern ! 0) = RUNNABLE" "state blank_proc = UNUSED" "cwd (procs init_kern ! 0) = 1"
  "pgdir (procs init_kern ! 0) = 4" "sz (procs init_kern ! 0) = 4096" "killed blank_proc = False" "pid blank_proc = 0"
  "pid (procs init_kern ! 0) = 1" "killed (procs init_kern ! 0) = False" "parent blank_proc = None"
  "parent (procs init_kern ! 0) = None" "pchan (procs init_kern ! 0) = Null"
  by (simp_all add: init_procs blank_proc_def)

definition forked_init :: "nat kern" where
  "forked_init = snd (the (fork easy_ops 0 running_init))"

lemma fork_running_init: "fork easy_ops 0 running_init = Some (2, forked_init)"
  unfolding forked_init_def
  by (simp add: fork_def allocproc_def inherit_def running_init_table running_init_files dup_no_files easy_ops_simps)

lemma forked_init_table:
  "procs forked_init ! 0 = (procs init_kern ! 0)\<lparr>state := RUNNING\<rparr>" "state (procs forked_init ! 1) = RUNNABLE"
  "parent (procs forked_init ! 1) = Some 0" "pgdir (procs forked_init ! 1) = 6"
  "\<exists>q. procs forked_init = ((procs init_kern ! 0)\<lparr>state := RUNNING\<rparr>) # q # replicate 62 blank_proc \<and>
     parent q = Some 0 \<and> pgdir q = 6 \<and> state q = RUNNABLE"
  unfolding forked_init_def
  by (simp_all add: fork_def allocproc_def inherit_def running_init_table running_init_files dup_no_files easy_ops_simps)

lemma wait_forked_init:
  "wait_pass easy_ops 0 forked_init = Some (Sleeps, sleep_on 0 (ProcPtr 0) forked_init)"
proof -
  obtain q where q: "procs forked_init = ((procs init_kern ! 0)\<lparr>state := RUNNING\<rparr>) # q # replicate 62 blank_proc"
      "parent q = Some 0" "pgdir q = 6" "state q = RUNNABLE"
    using forked_init_table(5) by blast
  have "first_index (\<lambda>p. (parent p = Some 0 \<and> pgdir p \<noteq> pgdir (procs forked_init ! 0)) \<and> state p = ZOMBIE) (procs forked_init) = None"
    by (simp add: q running_init_files)
  then show ?thesis
    unfolding wait_pass_def Let_def by (simp add: q running_init_files del: first_index_None)
qed

theorem wait_misses_no_exit_witness:
  "\<exists>s. kreach easy_ops (booted init_kern) s \<and> kont s 0 = In_wait \<and> state (procs (kern s) ! 0) = SLEEPING \<and>
     (\<forall>j<NPROC. parent (procs (kern s) ! j) = Some 0 \<longrightarrow> state (procs (kern s) ! j) = ZOMBIE \<longrightarrow>
        pgdir (procs (kern s) ! j) = pgdir (procs (kern s) ! 0))"
proof -
  let ?a = "(booted init_kern)\<lparr>kern := running_init, on_cpu := (on_cpu (booted init_kern))(0 := Some 0)\<rparr>"
  let ?b = "?a\<lparr>kern := forked_init\<rparr>"
  let ?c = "?b\<lparr>kern := sleep_on 0 (ProcPtr 0) forked_init, on_cpu := (on_cpu ?b)(0 := None), kont := (kont ?b)(0 := In_wait)\<rparr>"
  have "kstep easy_ops ?a ?b"
    by (rule kstep.fork [of _ 0 0]) (simp_all add: booted_def fork_running_init)
  moreover have "kstep easy_ops ?b ?c"
    by (rule kstep.wait_sleep [of _ 0 0]) (simp_all add: booted_def wait_entry_def wait_forked_init)
  ultimately have run: "kreach easy_ops (booted init_kern) ?c"
    using running_init_reach kreach.step by blast
  have st: "state (procs (kern ?c) ! 0) = SLEEPING" "kont ?c 0 = In_wait"
    using forked_init_table(5) by (auto simp: sleep_on_def)
  show ?thesis
    using wait_misses_no_exit [OF fresh_empty init_kern run, rule_format, OF empty_kern_simps(4)] st run by blast
qed


definition thread_kern :: "nat kern" where
  "thread_kern = snd (the (clone easy_ops 0 100 7 0 running_init))"

lemma thread_kern_table:
  "clone easy_ops 0 100 7 0 running_init = Some (2, thread_kern)"
  "\<exists>q. procs thread_kern = ((procs init_kern ! 0)\<lparr>state := RUNNING\<rparr>) # q # replicate 62 blank_proc \<and>
     pid q = 2 \<and> parent q = Some 0 \<and> ustack q = 0 \<and> pgdir q = 4 \<and> ofile q = replicate NOFILE 0"
  "initproc thread_kern = Some 0"
proof -
  show "clone easy_ops 0 100 7 0 running_init = Some (2, thread_kern)"
    "\<exists>q. procs thread_kern = ((procs init_kern ! 0)\<lparr>state := RUNNING\<rparr>) # q # replicate 62 blank_proc \<and>
     pid q = 2 \<and> parent q = Some 0 \<and> ustack q = 0 \<and> pgdir q = 4 \<and> ofile q = replicate NOFILE 0"
    unfolding thread_kern_def
    by (simp_all add: clone_def allocproc_def inherit_def running_init_table running_init_files dup_no_files easy_ops_simps)
  have "initproc running_init = Some 0"
    unfolding init_kern_def running_init_def
    by (simp add: userinit_def allocproc_def empty_first easy_ops_simps empty_kern_simps)
  then show "initproc thread_kern = Some 0"
    unfolding thread_kern_def
    by (simp add: clone_def allocproc_def inherit_def running_init_table running_init_files dup_no_files easy_ops_simps)
qed

lemma close_no_files: "close_files ops (replicate n 0) e = Some e"
  by (induction n) simp_all

theorem clone_join_roundtrip_witness:
  "\<exists>k k3 k4. clone easy_ops 0 100 7 0 running_init = Some (2, k) \<and> pid (procs k ! 1) = 2 \<and> pgdir (procs k ! 1) = 4 \<and>
     exit_proc easy_ops 1 k = Some k3 \<and> join_pass easy_ops 0 k3 = Some (Done 2, Some 0, k4) \<and> state (procs k4 ! 1) = UNUSED"
proof -
  let ?k = thread_kern
  note k = thread_kern_table(1)
  obtain q where q: "procs ?k = ((procs init_kern ! 0)\<lparr>state := RUNNING\<rparr>) # q # replicate 62 blank_proc"
      "pid q = 2" "parent q = Some 0" "ustack q = 0" "pgdir q = 4" "ofile q = replicate NOFILE 0"
    using thread_kern_table(2) by blast
  have at: "procs ?k ! j = blank_proc" if "j \<noteq> 0" "j \<noteq> 1" "j < 64" for j
    using that by (auto simp: q(1) nth_Cons split: nat.splits)
  have len: "length (procs ?k) = NPROC" by (simp add: q(1) NPROC_def)
  have "close_files easy_ops (ofile (procs ?k ! 1)) (env ?k) = Some (env ?k)" by (simp add: q close_no_files)
  then obtain k3 where k3: "exit_proc easy_ops 1 ?k = Some k3"
    by (simp add: exit_proc_def Let_def thread_kern_table(3) easy_ops_simps)
  have cl: "childless 1 ?k"
    unfolding childless_def
  proof (intro allI impI)
    fix j assume "j < length (procs ?k)" "parent (procs ?k ! j) = Some 1"
    then show "pgdir (procs ?k ! j) \<noteq> pgdir (procs ?k ! 1)"
      using at [of j] len q(1,3) by (cases "j = 0"; cases "j = 1") (simp_all add: NPROC_def running_init_files)
  qed
  have p0: "parent (procs ?k ! 0) = None" "parent (procs ?k ! 1) = Some 0" "pgdir (procs ?k ! 0) = 4"
    by (simp_all add: q running_init_files)
  note X = exit_childless [OF k3 _ len cl]
  have X: "same_stacks ?k k3" "parent (procs k3 ! 0) = None"
    using X(1) X(5) [of 0] p0 len by (simp_all add: NPROC_def)
  have kk: "i = 1" if "pid (procs ?k ! i) = 2" "i < NPROC" for i
  proof (rule ccontr)
    assume "i \<noteq> 1"
    then show False using that at [of i] by (cases "i = 0") (simp_all add: NPROC_def running_init_files q(1))
  qed
  have c: "(2::int) \<noteq> -1" "length (procs running_init) = NPROC" "(0::nat) < NPROC" "state (procs running_init ! 0) \<noteq> UNUSED"
    by (simp_all add: running_init_table(1) NPROC_def running_init_files)
  obtain i where i: "i < NPROC" "pid (procs ?k ! i) = 2"
    and ret: "\<And>k2 k3 e. length (procs k2) = NPROC \<Longrightarrow> pid (procs k2 ! i) = 2 \<Longrightarrow> parent (procs k2 ! i) = Some 0 \<Longrightarrow>
        ustack (procs k2 ! i) = 0 \<Longrightarrow> pgdir (procs k2 ! i) = pgdir (procs k2 ! 0) \<Longrightarrow> childless i k2 \<Longrightarrow>
        exit_proc easy_ops i k2 = Some k3 \<Longrightarrow>
        \<forall>j<i. \<not> (parent (procs k3 ! j) = Some 0 \<and> pgdir (procs k3 ! j) = pgdir (procs k3 ! 0) \<and>
           state (procs k3 ! j) = ZOMBIE) \<Longrightarrow>
        op_kfree easy_ops (kstack (procs k2 ! i)) (env k3) = Some e \<Longrightarrow>
        \<exists>k4. join_pass easy_ops 0 k3 = Some (Done 2, Some 0, k4) \<and> state (procs k4 ! i) = UNUSED"
    using clone_join_roundtrip [OF k c] unfolding Let_def by blast
  have i1: "i = 1" by (rule kk [OF i(2,1)])
  have "\<forall>j<1. \<not> (parent (procs k3 ! j) = Some 0 \<and> pgdir (procs k3 ! j) = pgdir (procs k3 ! 0) \<and> state (procs k3 ! j) = ZOMBIE)"
    using X(2) by simp
  then obtain k4 where "join_pass easy_ops 0 k3 = Some (Done 2, Some 0, k4)" "state (procs k4 ! 1) = UNUSED"
    using ret [OF len, unfolded i1, OF _ _ _ _ cl k3] q p0 by (auto simp: easy_ops_simps)
  then show ?thesis
    using k k3 i(2) i1 q(1,5) by (intro exI [of _ ?k] exI [of _ k3] exI [of _ k4]) simp
qed

theorem killed_before_birth_witness:
  "\<exists>k1 k2 k3. fork easy_ops 0 (running_init\<lparr>env := 0\<rparr>) = Some (-1, k1) \<and> kill 2 k1 = (0, k2) \<and>
     allocproc easy_ops k2 = (Some 1, k3) \<and> killed (procs k3 ! 1)"
  using killed_before_birth [of "running_init\<lparr>env := 0\<rparr>" 1 0 easy_ops 1 1 2]
  by (simp add: running_init_table running_init_files easy_ops_simps)

end
