(* ===== verification/FsInode.thy ===== *)
theory FsInode
  imports FsBlock
begin

text \<open>
  Inodes of the xv6 file system (\<open>kernel/fs.c\<close>, second part): the disk inode, the table of
  in-memory inodes with its reference counts and locks, and the operations \<open>ialloc\<close>,
  \<open>iupdate\<close>, \<open>iget\<close>, \<open>idup\<close>, \<open>ilock\<close>, \<open>iunlock\<close>, \<open>itrunc\<close>, \<open>iput\<close> and \<open>iunlockput\<close>.

  An inode pointer is the index of its slot of the table.  The two bits of \<open>flags\<close> are two
  fields.  \<open>None\<close> is a panic or, in \<open>ilock\<close>, a sleep on an inode that somebody else has locked.
  \<open>iwakeups\<close> records the channels \<open>wakeup\<close> is called on, the latest first.

  \<open>iref\<close>, an \<open>int\<close> in the code, is a mathematical integer: each of its counts is a pointer held by an open file, a process or a
  call in progress, of which the kernel has a few hundred, so that it cannot overflow.
\<close>

definition NINODE :: nat where "NINODE = 50"

definition T_DIR :: u16 where "T_DIR = 1"
definition T_FILE :: u16 where "T_FILE = 2"
definition T_DEV :: u16 where "T_DEV = 3"
definition T_CHECKED :: u16 where "T_CHECKED = 4"

record dinode =
  dtype :: u16
  dmajor :: u16
  dminor :: u16
  dnlink :: u16
  dsize :: u32
  daddrs :: "nat \<Rightarrow> u32"

record inode =
  idev :: u32
  inum :: u32
  iref :: int
  ibusy :: bool
  ivalid :: bool
  itype :: u16
  imajor :: u16
  iminor :: u16
  inlink :: u16
  isize :: u32
  iaddrs :: "nat \<Rightarrow> u32"

record fs =
  fdisk :: disk
  icache :: "nat \<Rightarrow> inode"
  iwakeups :: "nat list"

definition upd_inode :: "nat \<Rightarrow> (inode \<Rightarrow> inode) \<Rightarrow> fs \<Rightarrow> fs" where
  "upd_inode i f s = s\<lparr>icache := (icache s)(i := f (icache s i))\<rparr>"

section \<open>The disk inode\<close>

text \<open>\<open>dip\<close>: the byte offset of an inode in its block.\<close>

definition dip_offset :: "u32 \<Rightarrow> nat" where
  "dip_offset n = 64 * (unat n mod IPB)"

definition read_dinode :: "block \<Rightarrow> nat \<Rightarrow> dinode" where
  "read_dinode d p = \<lparr>dtype = get16 d p, dmajor = get16 d (p + 2), dminor = get16 d (p + 4),
     dnlink = get16 d (p + 6), dsize = get32 d (p + 8),
     daddrs = (\<lambda>i. if i \<le> NDIRECT then get32 d (p + 12 + 4 * i) else 0)\<rparr>"

fun put_addrs :: "block \<Rightarrow> nat \<Rightarrow> (nat \<Rightarrow> u32) \<Rightarrow> nat \<Rightarrow> block" where
  "put_addrs d p a 0 = d"
| "put_addrs d p a (Suc n) = put32 (put_addrs d p a n) (p + 4 * n) (a n)"

definition write_dinode :: "block \<Rightarrow> nat \<Rightarrow> dinode \<Rightarrow> block" where
  "write_dinode d p v =
     (let d1 = put16 d p (dtype v); d2 = put16 d1 (p + 2) (dmajor v); d3 = put16 d2 (p + 4) (dminor v);
          d4 = put16 d3 (p + 6) (dnlink v); d5 = put32 d4 (p + 8) (dsize v)
      in put_addrs d5 (p + 12) (daddrs v) (NDIRECT + 1))"

definition to_dinode :: "inode \<Rightarrow> dinode" where
  "to_dinode ip = \<lparr>dtype = itype ip, dmajor = imajor ip, dminor = iminor ip, dnlink = inlink ip,
     dsize = isize ip, daddrs = iaddrs ip\<rparr>"

definition from_dinode :: "dinode \<Rightarrow> inode \<Rightarrow> inode" where
  "from_dinode v ip = ip\<lparr>itype := dtype v, imajor := dmajor v, iminor := dminor v, inlink := dnlink v,
     isize := dsize v, iaddrs := daddrs v\<rparr>"

text \<open>The inode with number \<open>n\<close> as the disk has it.\<close>

definition disk_inode :: "disk \<Rightarrow> u32 \<Rightarrow> u32 \<Rightarrow> dinode" where
  "disk_inode k dev n = read_dinode (k dev (IBLOCK n)) (dip_offset n)"

section \<open>The table of inodes\<close>

definition iupdate :: "nat \<Rightarrow> fs \<Rightarrow> fs" where
  "iupdate i s = (let ip = icache s i; b = IBLOCK (inum ip) in
     s\<lparr>fdisk := blk_write (idev ip) b
       (write_dinode (fdisk s (idev ip) b) (dip_offset (inum ip)) (to_dinode ip)) (fdisk s)\<rparr>)"

fun iget_scan :: "(nat \<Rightarrow> inode) \<Rightarrow> u32 \<Rightarrow> u32 \<Rightarrow> nat list \<Rightarrow> nat option \<Rightarrow> (bool \<times> nat) option" where
  "iget_scan c dev n [] emp = map_option (Pair False) emp"
| "iget_scan c dev n (i # js) emp =
     (if iref (c i) > 0 \<and> idev (c i) = dev \<and> inum (c i) = n then Some (True, i)
      else iget_scan c dev n js (if emp = None \<and> iref (c i) = 0 then Some i else emp))"

definition iget :: "u32 \<Rightarrow> u32 \<Rightarrow> fs \<Rightarrow> (nat \<times> fs) option" where
  "iget dev n s = (case iget_scan (icache s) dev n [0..<NINODE] None of
     Some (True, i) \<Rightarrow> Some (i, upd_inode i (\<lambda>ip. ip\<lparr>iref := iref ip + 1\<rparr>) s)
   | Some (False, i) \<Rightarrow>
       Some (i, upd_inode i (\<lambda>ip. ip\<lparr>idev := dev, inum := n, iref := 1, ibusy := False, ivalid := False\<rparr>) s)
   | None \<Rightarrow> None)"

function ialloc_loop :: "u32 \<Rightarrow> u16 \<Rightarrow> superblock \<Rightarrow> nat \<Rightarrow> fs \<Rightarrow> (nat \<times> fs) option" where
  "ialloc_loop dev ty sb n s = (if n < unat (sb_ninodes sb) then
     let b = IBLOCK (of_nat n); p = dip_offset (of_nat n); d = fdisk s dev b in
     if get16 d p = 0 then
       let d' = put16 (\<lambda>i. if p \<le> i \<and> i < p + 64 then 0 else d i) p ty
       in iget dev (of_nat n) (s\<lparr>fdisk := blk_write dev b d' (fdisk s)\<rparr>)
     else ialloc_loop dev ty sb (n + 1) s
   else None)"
  by auto
termination by (relation "measure (\<lambda>(dev, ty, sb, n, s). unat (sb_ninodes sb) - n)") auto

declare ialloc_loop.simps [simp del]

definition ialloc :: "u32 \<Rightarrow> u16 \<Rightarrow> fs \<Rightarrow> (nat \<times> fs) option" where
  "ialloc dev ty s = ialloc_loop dev ty (readsb dev (fdisk s)) 1 s"

definition idup :: "nat \<Rightarrow> fs \<Rightarrow> nat \<times> fs" where
  "idup i s = (i, upd_inode i (\<lambda>ip. ip\<lparr>iref := iref ip + 1\<rparr>) s)"

definition ilock :: "nat \<Rightarrow> fs \<Rightarrow> fs option" where
  "ilock i s =
     (if iref (icache s i) < 1 then None
      else if ibusy (icache s i) then None
      else let s1 = upd_inode i (\<lambda>ip. ip\<lparr>ibusy := True\<rparr>) s; ip = icache s1 i in
        if ivalid ip then Some s1
        else let s2 = upd_inode i (\<lambda>ip. (from_dinode (disk_inode (fdisk s1) (idev ip) (inum ip)) ip)
               \<lparr>ivalid := True\<rparr>) s1 in
          if itype (icache s2 i) = 0 then None else Some s2)"

definition iunlock :: "nat \<Rightarrow> fs \<Rightarrow> fs option" where
  "iunlock i s =
     (if \<not> ibusy (icache s i) \<or> iref (icache s i) < 1 then None
      else Some ((upd_inode i (\<lambda>ip. ip\<lparr>ibusy := False\<rparr>) s)\<lparr>iwakeups := i # iwakeups s\<rparr>))"

section \<open>Truncating and dropping an inode\<close>

definition set_addr :: "nat \<Rightarrow> nat \<Rightarrow> u32 \<Rightarrow> fs \<Rightarrow> fs" where
  "set_addr i n a s = upd_inode i (\<lambda>ip. ip\<lparr>iaddrs := (iaddrs ip)(n := a)\<rparr>) s"

fun trunc_direct :: "nat \<Rightarrow> nat list \<Rightarrow> fs \<Rightarrow> fs option" where
  "trunc_direct i [] s = Some s"
| "trunc_direct i (n # ns) s =
     (let ip = icache s i; a = iaddrs ip n in
      if a \<noteq> 0 then do {
        k \<leftarrow> bfree (idev ip) a (fdisk s);
        trunc_direct i ns (set_addr i n 0 (s\<lparr>fdisk := k\<rparr>))
      } else trunc_direct i ns s)"

fun free_entries :: "u32 \<Rightarrow> block \<Rightarrow> nat list \<Rightarrow> disk \<Rightarrow> disk option" where
  "free_entries dev d [] k = Some k"
| "free_entries dev d (j # js) k =
     (let a = get32 d (4 * j) in
      if a \<noteq> 0 then do {k1 \<leftarrow> bfree dev a k; free_entries dev d js k1} else free_entries dev d js k)"

definition itrunc :: "nat \<Rightarrow> fs \<Rightarrow> fs option" where
  "itrunc i s = do {
     s1 \<leftarrow> trunc_direct i [0..<NDIRECT] s;
     s2 \<leftarrow> (let ip = icache s1 i; dev = idev ip; a = iaddrs ip NDIRECT in
       if a \<noteq> 0 then do {
         k1 \<leftarrow> free_entries dev (fdisk s1 dev a) [0..<NINDIRECT] (fdisk s1);
         k2 \<leftarrow> bfree dev a k1;
         Some (set_addr i NDIRECT 0 (s1\<lparr>fdisk := k2\<rparr>))
       } else Some s1);
     Some (iupdate i (upd_inode i (\<lambda>ip. ip\<lparr>isize := 0\<rparr>) s2))
   }"

definition iput :: "nat \<Rightarrow> fs \<Rightarrow> fs option" where
  "iput i s = do {
     s1 \<leftarrow> (let ip = icache s i in
       if iref ip = 1 \<and> ivalid ip \<and> inlink ip = 0 then
         if ibusy ip then None
         else do {
           s2 \<leftarrow> itrunc i (upd_inode i (\<lambda>ip. ip\<lparr>ibusy := True\<rparr>) s);
           let s3 = iupdate i (upd_inode i (\<lambda>ip. ip\<lparr>itype := 0\<rparr>) s2);
           Some ((upd_inode i (\<lambda>ip. ip\<lparr>ibusy := False, ivalid := False\<rparr>) s3)\<lparr>iwakeups := i # iwakeups s3\<rparr>)
         }
       else Some s);
     Some (upd_inode i (\<lambda>ip. ip\<lparr>iref := iref ip - 1\<rparr>) s1)
   }"

definition iunlockput :: "nat \<Rightarrow> fs \<Rightarrow> fs option" where
  "iunlockput i s = do {s1 \<leftarrow> iunlock i s; iput i s1}"

section \<open>Disk inodes: what is written is read back\<close>

lemma put_addrs_other: "q < p \<or> p + 4 * n \<le> q \<Longrightarrow> put_addrs d p a n q = d q"
  by (induction n) (auto simp: put32_other)

lemma get32_put_addrs_other: "q + 4 \<le> p \<or> p + 4 * n \<le> q \<Longrightarrow> get32 (put_addrs d p a n) q = get32 d q"
  by (rule get32_cong) (auto intro!: put_addrs_other)

lemma get16_put_addrs_other: "q + 2 \<le> p \<or> p + 4 * n \<le> q \<Longrightarrow> get16 (put_addrs d p a n) q = get16 d q"
  by (rule get16_cong) (auto intro!: put_addrs_other)

lemma get32_put_addrs: "i < n \<Longrightarrow> get32 (put_addrs d p a n) (p + 4 * i) = a i"
  by (induction n) (auto simp: less_Suc_eq)

lemma read_write_dinode:
  "read_dinode (write_dinode d p v) p = v\<lparr>daddrs := (\<lambda>i. if i \<le> NDIRECT then daddrs v i else 0)\<rparr>"
  by (simp add: read_dinode_def write_dinode_def Let_def get16_put_addrs_other get32_put_addrs_other
      get32_put_addrs fun_eq_iff del: put_addrs.simps)

lemma write_dinode_other: "q < p \<or> p + 64 \<le> q \<Longrightarrow> write_dinode d p v q = d q"
  by (auto simp: write_dinode_def Let_def put_addrs_other put16_other put32_other NDIRECT_def
      simp del: put_addrs.simps)

lemma read_dinode_cong: "(\<And>q. p \<le> q \<Longrightarrow> q < p + 64 \<Longrightarrow> d q = e q) \<Longrightarrow> read_dinode d p = read_dinode e p"
proof -
  assume e: "\<And>q. p \<le> q \<Longrightarrow> q < p + 64 \<Longrightarrow> d q = e q"
  have "get32 d (p + 12 + 4 * i) = get32 e (p + 12 + 4 * i)" if "i \<le> NDIRECT" for i
    using that by (intro get32_cong e) (auto simp: NDIRECT_def)
  moreover have "get32 d (p + 8) = get32 e (p + 8)" by (intro get32_cong e) auto
  moreover have "get16 d (p + q) = get16 e (p + q)" if "q < 8" for q
    using that by (intro get16_cong e) auto
  from this [of 0] this [of 2] this [of 4] this [of 6]
  have "get16 d p = get16 e p" "get16 d (p + 2) = get16 e (p + 2)" "get16 d (p + 4) = get16 e (p + 4)"
    "get16 d (p + 6) = get16 e (p + 6)" by simp_all
  ultimately show ?thesis by (simp add: read_dinode_def fun_eq_iff)
qed

lemma unat_IBLOCK: "unat (IBLOCK n) = unat n div IPB + 2"
proof -
  have "unat n < 2 ^ 32" using unsigned_less [of n] by simp
  then show ?thesis by (simp add: IBLOCK_def fs_consts unat_word_ariths unat_div unat_of_nat)
qed

lemma same_dip: "IBLOCK n = IBLOCK m \<Longrightarrow> dip_offset n = dip_offset m \<Longrightarrow> n = m"
proof -
  assume "IBLOCK n = IBLOCK m" "dip_offset n = dip_offset m"
  then have "unat n div IPB = unat m div IPB" "unat n mod IPB = unat m mod IPB"
    using unat_IBLOCK [of n] unat_IBLOCK [of m] by (simp_all add: dip_offset_def)
  then have "unat n = unat m" by (metis div_mult_mod_eq)
  then show ?thesis by (simp add: word_unat_eq_iff)
qed

lemma dip_apart: "dip_offset n \<noteq> dip_offset m \<Longrightarrow> dip_offset n + 64 \<le> dip_offset m \<or> dip_offset m + 64 \<le> dip_offset n"
  by (auto simp: dip_offset_def)

lemma disk_inode_iupdate:
  "disk_inode (fdisk (iupdate i s)) dev n =
     (let ip = icache s i in if dev = idev ip \<and> n = inum ip then
        (to_dinode ip)\<lparr>daddrs := (\<lambda>j. if j \<le> NDIRECT then iaddrs ip j else 0)\<rparr>
      else disk_inode (fdisk s) dev n)"
proof -
  let ?ip = "icache s i"
  consider "dev = idev ?ip" "n = inum ?ip" | "dev = idev ?ip" "IBLOCK n = IBLOCK (inum ?ip)" "n \<noteq> inum ?ip"
    | "dev \<noteq> idev ?ip \<or> IBLOCK n \<noteq> IBLOCK (inum ?ip)" by blast
  then show ?thesis
  proof cases
    case 1
    then show ?thesis by (simp add: disk_inode_def iupdate_def Let_def read_write_dinode to_dinode_def
          cong: if_cong)
  next
    case 2
    then have "dip_offset n \<noteq> dip_offset (inum ?ip)" using same_dip by blast
    from dip_apart [OF this] 2 show ?thesis
      by (auto simp: disk_inode_def iupdate_def Let_def intro!: read_dinode_cong write_dinode_other)
  next
    case 3
    then show ?thesis by (auto simp: disk_inode_def iupdate_def Let_def)
  qed
qed

lemma icache_iupdate [simp]: "icache (iupdate i s) = icache s" "iwakeups (iupdate i s) = iwakeups s"
  by (simp_all add: iupdate_def Let_def)

lemma upd_inode_simps [simp]:
  "icache (upd_inode i f s) i = f (icache s i)"
  "j \<noteq> i \<Longrightarrow> icache (upd_inode i f s) j = icache s j"
  "fdisk (upd_inode i f s) = fdisk s" "iwakeups (upd_inode i f s) = iwakeups s"
  by (simp_all add: upd_inode_def)

section \<open>The table of inodes holds each inode once\<close>

definition icache_inv :: "fs \<Rightarrow> bool" where
  "icache_inv s \<longleftrightarrow> (\<forall>i<NINODE. 0 \<le> iref (icache s i)) \<and>
     (\<forall>i<NINODE. \<forall>j<NINODE. 0 < iref (icache s i) \<longrightarrow> 0 < iref (icache s j) \<longrightarrow>
        idev (icache s i) = idev (icache s j) \<longrightarrow> inum (icache s i) = inum (icache s j) \<longrightarrow> i = j)"

definition ident :: "inode \<Rightarrow> u32 \<times> u32" where
  "ident ip = (idev ip, inum ip)"

text \<open>The references the table has given out, as a multiset of inode identities.\<close>

definition refs :: "fs \<Rightarrow> (u32 \<times> u32) multiset" where
  "refs s = (\<Sum>i<NINODE. replicate_mset (nat (iref (icache s i))) (ident (icache s i)))"

lemma iget_scan_hit:
  "iget_scan c dev n is emp = Some (True, i) \<Longrightarrow>
     i \<in> set is \<and> 0 < iref (c i) \<and> idev (c i) = dev \<and> inum (c i) = n"
  by (induction c dev n "is" emp rule: iget_scan.induct) (auto split: if_splits)

lemma iget_scan_miss:
  "iget_scan c dev n is emp = Some (False, i) \<Longrightarrow>
     (\<forall>j\<in>set is. \<not> (0 < iref (c j) \<and> idev (c j) = dev \<and> inum (c j) = n)) \<and>
     (emp = Some i \<or> i \<in> set is \<and> iref (c i) = 0)"
  by (induction c dev n "is" emp rule: iget_scan.induct) (auto split: if_splits)

lemma iget_scan_None:
  "iget_scan c dev n is emp = None \<longleftrightarrow> emp = None \<and>
     (\<forall>j\<in>set is. iref (c j) \<noteq> 0 \<and> \<not> (0 < iref (c j) \<and> idev (c j) = dev \<and> inum (c j) = n))"
  by (induction c dev n "is" emp rule: iget_scan.induct) auto

lemma refs_upd:
  assumes "i < NINODE"
  shows "refs (upd_inode i f s) + replicate_mset (nat (iref (icache s i))) (ident (icache s i)) =
     refs s + replicate_mset (nat (iref (f (icache s i)))) (ident (f (icache s i)))"
proof -
  let ?g = "\<lambda>s j. replicate_mset (nat (iref (icache s j))) (ident (icache s j))"
  have split: "(\<Sum>j<NINODE. ?g t j) = ?g t i + (\<Sum>j\<in>{..<NINODE} - {i}. ?g t j)" for t
    using assms by (intro sum.remove) auto
  have "(\<Sum>j\<in>{..<NINODE} - {i}. ?g (upd_inode i f s) j) = (\<Sum>j\<in>{..<NINODE} - {i}. ?g s j)"
    by (intro sum.cong) auto
  then show ?thesis by (simp add: refs_def split)
qed

lemma refs_same:
  assumes "\<And>j. iref (icache t j) = iref (icache s j)" "\<And>j. ident (icache t j) = ident (icache s j)"
  shows "refs t = refs s"
  using assms by (simp add: refs_def)

lemma iget_cases:
  assumes "iget dev n s = Some (i, s')"
  obtains (hit) "i < NINODE" "0 < iref (icache s i)" "ident (icache s i) = (dev, n)"
      "s' = upd_inode i (\<lambda>ip. ip\<lparr>iref := iref ip + 1\<rparr>) s"
    | (miss) "i < NINODE" "iref (icache s i) = 0"
      "\<forall>j<NINODE. 0 < iref (icache s j) \<longrightarrow> ident (icache s j) \<noteq> (dev, n)"
      "s' = upd_inode i (\<lambda>ip. ip\<lparr>idev := dev, inum := n, iref := 1, ibusy := False, ivalid := False\<rparr>) s"
proof (cases "iget_scan (icache s) dev n [0..<NINODE] None")
  case None
  with assms show ?thesis by (simp add: iget_def)
next
  case (Some r)
  obtain h j where r: "r = (h, j)" by force
  show ?thesis
  proof (cases h)
    case True
    with Some r have "iget_scan (icache s) dev n [0..<NINODE] None = Some (True, j)" by simp
    from iget_scan_hit [OF this] show ?thesis
      using assms Some r True by (intro hit) (auto simp: iget_def ident_def)
  next
    case False
    with Some r have "iget_scan (icache s) dev n [0..<NINODE] None = Some (False, j)" by simp
    from iget_scan_miss [OF this] show ?thesis
      using assms Some r False by (intro miss) (auto simp: iget_def ident_def)
  qed
qed

lemma iget_succeeds:
  assumes "i < NINODE" "iref (icache s i) = 0"
  shows "\<exists>j s'. iget dev n s = Some (j, s')"
proof -
  have "iget_scan (icache s) dev n [0..<NINODE] None \<noteq> None"
    using assms by (auto simp: iget_scan_None)
  then obtain h j where "iget_scan (icache s) dev n [0..<NINODE] None = Some (h, j)" by force
  then show ?thesis by (cases h) (simp_all add: iget_def)
qed

lemma icache_invI_upd:
  assumes inv: "icache_inv s" and i: "i < NINODE" and r: "0 \<le> iref (f (icache s i))"
    and u: "0 < iref (f (icache s i)) \<Longrightarrow>
      \<forall>j<NINODE. j \<noteq> i \<longrightarrow> 0 < iref (icache s j) \<longrightarrow> ident (icache s j) \<noteq> ident (f (icache s i))"
  shows "icache_inv (upd_inode i f s)"
  unfolding icache_inv_def
proof (intro conjI allI impI)
  fix a b assume "a < NINODE"
  show "0 \<le> iref (icache (upd_inode i f s) a)"
    using inv r \<open>a < NINODE\<close> by (cases "a = i") (auto simp: icache_inv_def)
  assume "b < NINODE" "0 < iref (icache (upd_inode i f s) a)" "0 < iref (icache (upd_inode i f s) b)"
    "idev (icache (upd_inode i f s) a) = idev (icache (upd_inode i f s) b)"
    "inum (icache (upd_inode i f s) a) = inum (icache (upd_inode i f s) b)"
  then show "a = b"
    using inv u \<open>a < NINODE\<close>
    by (cases "a = i"; cases "b = i") (auto simp: icache_inv_def ident_def)
qed

text \<open>What truncation leaves alone: the other slots, and the identity and count of its own.\<close>

definition slot_kept :: "nat \<Rightarrow> fs \<Rightarrow> fs \<Rightarrow> bool" where
  "slot_kept i s s' \<longleftrightarrow> (\<forall>j. j \<noteq> i \<longrightarrow> icache s' j = icache s j) \<and>
     iref (icache s' i) = iref (icache s i) \<and> idev (icache s' i) = idev (icache s i) \<and>
     inum (icache s' i) = inum (icache s i) \<and> ibusy (icache s' i) = ibusy (icache s i) \<and>
     ivalid (icache s' i) = ivalid (icache s i) \<and> itype (icache s' i) = itype (icache s i) \<and>
     inlink (icache s' i) = inlink (icache s i)"

lemma slot_kept_refl [simp]: "slot_kept i s s"
  by (simp add: slot_kept_def)

lemma slot_kept_trans: "slot_kept i s t \<Longrightarrow> slot_kept i t u \<Longrightarrow> slot_kept i s u"
  by (simp add: slot_kept_def)

lemma slot_kept_disk [simp]: "slot_kept i s (t\<lparr>fdisk := k\<rparr>) = slot_kept i s t"
  by (simp add: slot_kept_def)

lemma slot_kept_set_addr [simp]: "slot_kept i s (set_addr i n a t) = slot_kept i s t"
  by (auto simp: slot_kept_def set_addr_def)

lemma trunc_direct_kept: "trunc_direct i ns s = Some s' \<Longrightarrow> slot_kept i s s'"
proof (induction i ns s rule: trunc_direct.induct)
  case (2 i n ns s)
  show ?case
  proof (cases "iaddrs (icache s i) n = 0")
    case False
    with "2.prems" obtain k where "bfree (idev (icache s i)) (iaddrs (icache s i) n) (fdisk s) = Some k"
      "trunc_direct i ns (set_addr i n 0 (s\<lparr>fdisk := k\<rparr>)) = Some s'"
      by (auto simp: Let_def Option.bind_eq_Some_conv)
    from "2.IH"(1) [OF refl refl False this] show ?thesis
      by (rule slot_kept_trans [rotated]) simp
  qed (use 2 in \<open>simp add: Let_def\<close>)
qed simp

lemma itrunc_kept:
  assumes "itrunc i s = Some s'"
  shows "slot_kept i s s'"
proof -
  from assms obtain s1 s2 where 1: "trunc_direct i [0..<NDIRECT] s = Some s1"
    and 2: "s2 = s1 \<or> (\<exists>k. s2 = set_addr i NDIRECT 0 (s1\<lparr>fdisk := k\<rparr>))"
    and 3: "s' = iupdate i (upd_inode i (\<lambda>ip. ip\<lparr>isize := 0\<rparr>) s2)"
    by (auto simp: itrunc_def Let_def Option.bind_eq_Some_conv split: if_splits)
  have "slot_kept i s1 s2" using 2 by auto
  moreover have "slot_kept i s2 s'" unfolding 3 by (simp add: slot_kept_def)
  ultimately show ?thesis using trunc_direct_kept [OF 1] by (blast intro: slot_kept_trans)
qed

lemma iput_frame:
  assumes "iput i s = Some s'"
  shows "(\<forall>j. j \<noteq> i \<longrightarrow> icache s' j = icache s j) \<and>
    iref (icache s' i) = iref (icache s i) - 1 \<and> ident (icache s' i) = ident (icache s i)"
proof (cases "iref (icache s i) = 1 \<and> ivalid (icache s i) \<and> inlink (icache s i) = 0")
  case True
  let ?s0 = "upd_inode i (\<lambda>ip. ip\<lparr>ibusy := True\<rparr>) s"
  from assms True obtain s2 where t: "itrunc i ?s0 = Some s2"
    and s': "s' = upd_inode i (\<lambda>ip. ip\<lparr>iref := iref ip - 1\<rparr>)
       ((upd_inode i (\<lambda>ip. ip\<lparr>ibusy := False, ivalid := False\<rparr>)
           (iupdate i (upd_inode i (\<lambda>ip. ip\<lparr>itype := 0\<rparr>) s2)))\<lparr>iwakeups := i # iwakeups s2\<rparr>)"
    by (auto simp: iput_def Let_def Option.bind_eq_Some_conv split: if_splits)
  from itrunc_kept [OF t] show ?thesis
    by (auto simp: s' slot_kept_def ident_def upd_inode_def)
next
  case False
  with assms have "s' = upd_inode i (\<lambda>ip. ip\<lparr>iref := iref ip - 1\<rparr>) s"
    by (auto simp: iput_def Let_def split: if_splits)
  then show ?thesis by (simp add: ident_def)
qed

lemma ilock_frame:
  assumes "ilock i s = Some s'"
  shows "\<not> ibusy (icache s i)" "ibusy (icache s' i)" "ivalid (icache s' i)" "1 \<le> iref (icache s i)"
    "fdisk s' = fdisk s" "iwakeups s' = iwakeups s" "iref (icache s' i) = iref (icache s i)"
    "ident (icache s' i) = ident (icache s i)" "j \<noteq> i \<Longrightarrow> icache s' j = icache s j"
  using assms by (auto simp: ilock_def Let_def ident_def from_dinode_def split: if_splits)

lemma iunlock_frame:
  assumes "iunlock i s = Some s'"
  shows "ibusy (icache s i)" "\<not> ibusy (icache s' i)" "fdisk s' = fdisk s"
    "iref (icache s' i) = iref (icache s i)" "ident (icache s' i) = ident (icache s i)"
    "j \<noteq> i \<Longrightarrow> icache s' j = icache s j"
  using assms by (auto simp: iunlock_def ident_def split: if_splits)

section \<open>References are counted\<close>

datatype iev = Take "u32 \<times> u32" | Drop "u32 \<times> u32" | Local nat

text \<open>
  The operations on the table, in any order.  The callers' side of the contract is that an inode
  pointer is used only while a reference to it is held.
\<close>

inductive ic_step :: "fs \<Rightarrow> iev \<Rightarrow> fs \<Rightarrow> bool" where
  get: "iget dev n s = Some (i, s') \<Longrightarrow> ic_step s (Take (dev, n)) s'"
| alloc: "ialloc dev ty s = Some (i, s') \<Longrightarrow> ic_step s (Take (ident (icache s' i))) s'"
| dup: "\<lbrakk>i < NINODE; 0 < iref (icache s i)\<rbrakk> \<Longrightarrow> ic_step s (Take (ident (icache s i))) (snd (idup i s))"
| lock: "\<lbrakk>i < NINODE; ilock i s = Some s'\<rbrakk> \<Longrightarrow> ic_step s (Local i) s'"
| unlock: "\<lbrakk>i < NINODE; iunlock i s = Some s'\<rbrakk> \<Longrightarrow> ic_step s (Local i) s'"
| update: "i < NINODE \<Longrightarrow> ic_step s (Local i) (iupdate i s)"
| put: "\<lbrakk>i < NINODE; 0 < iref (icache s i); iput i s = Some s'\<rbrakk> \<Longrightarrow> ic_step s (Drop (ident (icache s i))) s'"

inductive ic_run :: "fs \<Rightarrow> iev list \<Rightarrow> fs \<Rightarrow> bool" where
  start: "ic_run s [] s"
| step: "ic_run s evs s1 \<Longrightarrow> ic_step s1 e s2 \<Longrightarrow> ic_run s (evs @ [e]) s2"

fun ledger :: "(u32 \<times> u32) multiset \<Rightarrow> iev list \<Rightarrow> (u32 \<times> u32) multiset" where
  "ledger M [] = M"
| "ledger M (Take x # es) = ledger (add_mset x M) es"
| "ledger M (Drop x # es) = ledger (M - {#x#}) es"
| "ledger M (Local i # es) = ledger M es"

lemma ledger_append: "ledger M (es @ fs) = ledger (ledger M es) fs"
  by (induction M es rule: ledger.induct) auto

lemma iget_counts:
  assumes "icache_inv s" "iget dev n s = Some (i, s')"
  shows "icache_inv s' \<and> refs s' = add_mset (dev, n) (refs s) \<and> i < NINODE \<and>
    ident (icache s' i) = (dev, n) \<and> 0 < iref (icache s' i) \<and> fdisk s' = fdisk s \<and>
    (\<forall>j. j \<noteq> i \<longrightarrow> icache s' j = icache s j)"
  using assms(2)
proof (cases rule: iget_cases)
  case hit
  let ?f = "\<lambda>ip. ip\<lparr>iref := iref ip + 1\<rparr>"
  have "icache_inv s'" unfolding hit(4)
    using hit assms(1) by (intro icache_invI_upd) (auto simp: icache_inv_def ident_def)
  moreover have "refs s' = add_mset (dev, n) (refs s)"
    unfolding hit(4) using refs_upd [OF hit(1), of ?f s] hit(2,3)
    by (simp add: nat_add_distrib ident_def)
  ultimately show ?thesis using hit by (simp add: ident_def)
next
  case miss
  let ?f = "\<lambda>ip. ip\<lparr>idev := dev, inum := n, iref := 1, ibusy := False, ivalid := False\<rparr>"
  have "icache_inv s'" unfolding miss(4)
    using miss assms(1) by (intro icache_invI_upd) (auto simp: ident_def)
  moreover have "refs s' = add_mset (dev, n) (refs s)"
    unfolding miss(4) using refs_upd [OF miss(1), of ?f s] miss(2) by (simp add: ident_def)
  ultimately show ?thesis using miss by (simp add: ident_def)
qed

lemma ialloc_get:
  "ialloc_loop dev ty sb n s = Some (i, s') \<Longrightarrow>
     \<exists>m k. n \<le> m \<and> m < unat (sb_ninodes sb) \<and> iget dev (of_nat m) (s\<lparr>fdisk := k\<rparr>) = Some (i, s')"
proof (induction dev ty sb n s rule: ialloc_loop.induct)
  case (1 dev ty sb n s)
  show ?case
  proof (cases "n < unat (sb_ninodes sb) \<and> get16 (fdisk s dev (IBLOCK (of_nat n))) (dip_offset (of_nat n)) = 0")
    case True
    with "1.prems" show ?thesis by (subst (asm) ialloc_loop.simps) (auto simp: Let_def)
  next
    case False
    with "1.prems" have n: "n < unat (sb_ninodes sb)" and nz: "get16 (fdisk s dev (IBLOCK (of_nat n))) (dip_offset (of_nat n)) \<noteq> 0"
      and r: "ialloc_loop dev ty sb (n + 1) s = Some (i, s')"
      by (subst (asm) ialloc_loop.simps, auto simp: Let_def split: if_splits)+
    from "1.IH" [OF n refl refl refl nz r] show ?thesis by (auto intro: Suc_leD)
  qed
qed

lemma slot_pred:
  assumes "icache_inv s" "i < NINODE" "0 < iref (icache s i)"
    "\<forall>j. j \<noteq> i \<longrightarrow> icache s' j = icache s j" "iref (icache s' i) = iref (icache s i) - 1"
    "ident (icache s' i) = ident (icache s i)"
  shows "icache_inv s' \<and> refs s' = refs s - {#ident (icache s i)#}"
proof -
  let ?f = "\<lambda>_. icache s' i"
  have e: "icache (upd_inode i ?f s) = icache s'" using assms(4) by (auto simp: upd_inode_def)
  have "icache_inv (upd_inode i ?f s)"
    using assms by (intro icache_invI_upd) (auto simp: icache_inv_def ident_def)
  then have "icache_inv s'" by (simp add: icache_inv_def e)
  moreover have "refs s' + {#ident (icache s i)#} = refs s"
  proof -
    obtain m where m: "nat (iref (icache s i)) = Suc m" using assms(3) by (metis gr0_implies_Suc zero_less_nat_eq)
    then have "nat (iref (icache s' i)) = m" using assms(5) by simp
    moreover have "refs (upd_inode i ?f s) = refs s'" by (simp add: refs_def e)
    ultimately show ?thesis using refs_upd [OF assms(2), of ?f s] assms(6) m by simp
  qed
  ultimately show ?thesis by (metis add_diff_cancel_right')
qed

lemma icache_inv_same:
  assumes "icache_inv s" "\<And>j. iref (icache t j) = iref (icache s j)" "\<And>j. ident (icache t j) = ident (icache s j)"
  shows "icache_inv t"
  using assms unfolding icache_inv_def ident_def by (metis prod.inject)

lemma ic_step_counts:
  assumes "ic_step s e s'" "icache_inv s"
  shows "icache_inv s' \<and> refs s' = ledger (refs s) [e]"
  using assms
proof (cases rule: ic_step.cases)
  case (get dev n i)
  then show ?thesis using iget_counts [OF assms(2)] by auto
next
  case (alloc dev ty i)
  then obtain m k where "iget dev (of_nat m) (s\<lparr>fdisk := k\<rparr>) = Some (i, s')"
    using ialloc_get unfolding ialloc_def by blast
  moreover have "icache_inv (s\<lparr>fdisk := k\<rparr>)" "refs (s\<lparr>fdisk := k\<rparr>) = refs s"
    using assms(2) by (simp_all add: icache_inv_def refs_def)
  ultimately show ?thesis using iget_counts alloc(1) by fastforce
next
  case (dup i)
  let ?f = "\<lambda>ip. ip\<lparr>iref := iref ip + 1\<rparr>"
  have s': "s' = upd_inode i ?f s" using dup by (simp add: idup_def)
  have "icache_inv s'" unfolding s'
    using dup assms(2) by (intro icache_invI_upd) (auto simp: icache_inv_def ident_def)
  moreover have "refs s' = add_mset (ident (icache s i)) (refs s)"
    unfolding s' using refs_upd [OF dup(3), of ?f s] dup(4) by (simp add: nat_add_distrib ident_def)
  ultimately show ?thesis using dup by simp
next
  case (lock i)
  have "\<And>j. iref (icache s' j) = iref (icache s j)" "\<And>j. ident (icache s' j) = ident (icache s j)"
    using ilock_frame [OF lock(3)] by metis+
  then show ?thesis using icache_inv_same [OF assms(2)] refs_same [of s' s] lock(1) by simp
next
  case (unlock i)
  have "\<And>j. iref (icache s' j) = iref (icache s j)" "\<And>j. ident (icache s' j) = ident (icache s j)"
    using iunlock_frame [OF unlock(3)] by metis+
  then show ?thesis using icache_inv_same [OF assms(2)] refs_same [of s' s] unlock(1) by simp
next
  case (update i)
  then show ?thesis using assms(2) by (simp add: icache_inv_def refs_def)
next
  case (put i)
  then show ?thesis using slot_pred [OF assms(2) put(2,3)] iput_frame [OF put(4)] by auto
qed

text \<open>
  C10: The table of inodes.  Starting with no references, after any sequence of \<open>iget\<close>, \<open>ialloc\<close>, \<open>idup\<close>,
  \<open>ilock\<close>, \<open>iunlock\<close>, \<open>iupdate\<close> and \<open>iput\<close> in which \<open>idup\<close> and \<open>iput\<close> are used on inodes that are
  referenced, no inode is in two slots, no count is negative, and the counts are exactly the references
  taken and not yet dropped.
\<close>
theorem inode_references_counted:
  assumes "ic_run s evs s'" "\<And>i. iref (icache s i) = 0"
  shows "icache_inv s' \<and> refs s' = ledger {#} evs"
  using assms
proof (induction rule: ic_run.induct)
  case (start s)
  then show ?case by (simp add: icache_inv_def refs_def)
next
  case (step s evs s1 e s2)
  then show ?case using ic_step_counts by (auto simp: ledger_append)
qed

section \<open>Dropping the last reference frees the blocks\<close>

definition direct_blocks :: "(nat \<Rightarrow> u32) \<Rightarrow> u32 list" where
  "direct_blocks a = filter (\<lambda>x. x \<noteq> 0) (map a [0..<NDIRECT])"

definition entry_blocks :: "block \<Rightarrow> u32 list" where
  "entry_blocks d = filter (\<lambda>x. x \<noteq> 0) (map (\<lambda>j. get32 d (4 * j)) [0..<NINDIRECT])"

definition inode_blocks :: "disk \<Rightarrow> u32 \<Rightarrow> (nat \<Rightarrow> u32) \<Rightarrow> u32 list" where
  "inode_blocks k dev a = direct_blocks a @
     (if a NDIRECT = 0 then [] else entry_blocks (k dev (a NDIRECT)) @ [a NDIRECT])"

definition inode_ok :: "disk \<Rightarrow> u32 \<Rightarrow> (nat \<Rightarrow> u32) \<Rightarrow> bool" where
  "inode_ok k dev a \<longleftrightarrow> disk_ok dev k \<and> distinct (inode_blocks k dev a) \<and>
     set (inode_blocks k dev a) \<subseteq> data_blocks dev k - free_blocks dev k"

lemma release_all_append:
  "release_all r (xs @ ys) s = do {s1 \<leftarrow> release_all r xs s; release_all r ys s1}"
proof (induction xs arbitrary: s)
  case (Cons a xs)
  then show ?case by (cases "r a s") auto
qed simp

lemma free_entries_release:
  "free_entries dev d js k =
     release_all (bfree dev) (filter (\<lambda>x. x \<noteq> 0) (map (\<lambda>j. get32 d (4 * j)) js)) k"
  by (induction dev d js k rule: free_entries.induct) (auto simp: Let_def intro!: Option.bind_cong)

lemma trunc_direct_release:
  "distinct ns \<Longrightarrow> trunc_direct i ns s = map_option
     (\<lambda>k. upd_inode i (\<lambda>ip. ip\<lparr>iaddrs := (\<lambda>n. if n \<in> set ns then 0 else iaddrs ip n)\<rparr>) (s\<lparr>fdisk := k\<rparr>))
     (release_all (bfree (idev (icache s i))) (filter (\<lambda>x. x \<noteq> 0) (map (iaddrs (icache s i)) ns)) (fdisk s))"
proof (induction i ns s rule: trunc_direct.induct)
  case (1 i s)
  then show ?case by (simp add: upd_inode_def)
next
  case (2 i n ns s)
  let ?ip = "icache s i"
  show ?case
  proof (cases "iaddrs ?ip n = 0")
    case True
    then have e: "(if m = n \<or> m \<in> set ns then 0 else iaddrs ?ip m) = (if m \<in> set ns then 0 else iaddrs ?ip m)" for m
      by auto
    show ?thesis using 2(2) [OF refl refl] "2.prems" True
      by (simp add: Let_def upd_inode_def e cong: if_cong)
  next
    case False
    have e: "(if m \<in> set ns then 0 else ((iaddrs ?ip)(n := 0)) m) = (if m = n \<or> m \<in> set ns then 0 else iaddrs ?ip m)" for m
      by auto
    show ?thesis
    proof (cases "bfree (idev ?ip) (iaddrs ?ip n) (fdisk s)")
      case None
      then show ?thesis using False by (simp add: Let_def)
    next
      case (Some k)
      let ?s = "set_addr i n 0 (s\<lparr>fdisk := k\<rparr>)"
      have s: "icache ?s i = ?ip\<lparr>iaddrs := (iaddrs ?ip)(n := 0)\<rparr>" "fdisk ?s = k"
        by (simp_all add: set_addr_def upd_inode_def)
      have "map ((iaddrs ?ip)(n := 0)) ns = map (iaddrs ?ip) ns"
        using "2.prems" by auto
      then show ?thesis
        using 2(1) [OF refl refl False, of k] "2.prems" False Some s
        by (simp add: Let_def set_addr_def upd_inode_def e cong: if_cong del: fun_upd_apply)
    qed
  qed
qed

lemma release_all_data:
  assumes "disk_ok dev k" "distinct bs" "set bs \<subseteq> data_blocks dev k - free_blocks dev k"
  shows "\<exists>k'. release_all (bfree dev) bs k = Some k' \<and> disk_ok dev k' \<and>
    free_blocks dev k' = free_blocks dev k \<union> set bs \<and> data_blocks dev k' = data_blocks dev k \<and>
    readsb dev k' = readsb dev k \<and>
    (\<forall>dev' c. dev' \<noteq> dev \<or> c \<notin> set bs \<and> \<not> bitmap_block (readsb dev k) c \<longrightarrow> k' dev' c = k dev' c)"
  using assms
proof (induction bs arbitrary: k)
  case (Cons b bs)
  have b: "b \<in> data_blocks dev k - free_blocks dev k" using Cons.prems by simp
  obtain k1 where k1: "bfree dev b k = Some k1" "disk_ok dev k1"
    "free_blocks dev k1 = insert b (free_blocks dev k)" "data_blocks dev k1 = data_blocks dev k"
    "readsb dev k1 = readsb dev k"
    "\<And>dev' c. dev' \<noteq> dev \<or> c \<noteq> b \<and> \<not> bitmap_block (readsb dev k) c \<Longrightarrow> k1 dev' c = k dev' c"
    using bfree_data [OF Cons.prems(1) b] by metis
  have "set bs \<subseteq> data_blocks dev k1 - free_blocks dev k1" "distinct bs"
    using Cons.prems k1 by auto
  from Cons.IH [OF k1(2) this(2,1)] obtain k2 where k2: "release_all (bfree dev) bs k1 = Some k2"
    "disk_ok dev k2" "free_blocks dev k2 = free_blocks dev k1 \<union> set bs" "data_blocks dev k2 = data_blocks dev k1"
    "readsb dev k2 = readsb dev k1"
    "\<forall>dev' c. dev' \<noteq> dev \<or> c \<notin> set bs \<and> \<not> bitmap_block (readsb dev k1) c \<longrightarrow> k2 dev' c = k1 dev' c"
    by blast
  then show ?case using k1 by auto
qed simp

lemma itrunc_release:
  assumes ok: "inode_ok (fdisk s) (idev (icache s i)) (iaddrs (icache s i))"
  shows "\<exists>k. release_all (bfree (idev (icache s i))) (inode_blocks (fdisk s) (idev (icache s i)) (iaddrs (icache s i)))
      (fdisk s) = Some k \<and>
    itrunc i s = Some (iupdate i (upd_inode i (\<lambda>ip. ip\<lparr>iaddrs := (\<lambda>n. if n \<le> NDIRECT then 0 else iaddrs ip n),
      isize := 0\<rparr>) (s\<lparr>fdisk := k\<rparr>)))"
proof -
  let ?ip = "icache s i" and ?k = "fdisk s"
  let ?dev = "idev ?ip" and ?a = "iaddrs ?ip"
  let ?e = "entry_blocks (?k ?dev (?a NDIRECT))"
  have dk: "disk_ok ?dev ?k" using ok by (simp add: inode_ok_def)
  have d: "distinct (direct_blocks ?a)" "set (direct_blocks ?a) \<subseteq> data_blocks ?dev ?k - free_blocks ?dev ?k"
    using ok by (auto simp: inode_ok_def inode_blocks_def)
  obtain k1 where k1: "release_all (bfree ?dev) (direct_blocks ?a) ?k = Some k1"
    "\<forall>dev' c. dev' \<noteq> ?dev \<or> c \<notin> set (direct_blocks ?a) \<and> \<not> bitmap_block (readsb ?dev ?k) c \<longrightarrow> k1 dev' c = ?k dev' c"
    using release_all_data [OF dk d] by blast
  have t: "trunc_direct i [0..<NDIRECT] s = Some (upd_inode i (\<lambda>ip. ip\<lparr>iaddrs :=
      (\<lambda>n. if n < NDIRECT then 0 else iaddrs ip n)\<rparr>) (s\<lparr>fdisk := k1\<rparr>))"
    using k1(1) by (simp add: trunc_direct_release direct_blocks_def)
  show ?thesis
  proof (cases "?a NDIRECT = 0")
    case True
    have e: "(\<lambda>n. if n < NDIRECT then 0 else ?a n) = (\<lambda>n. if n \<le> NDIRECT then 0 else ?a n)"
      using True by (auto simp: le_less)
    show ?thesis using t True k1(1)
      by (intro exI [of _ k1]) (simp add: itrunc_def inode_blocks_def upd_inode_def e cong: if_cong)
  next
    case False
    then have bl: "inode_blocks ?k ?dev ?a = direct_blocks ?a @ ?e @ [?a NDIRECT]" by (simp add: inode_blocks_def)
    have "?a NDIRECT \<in> data_blocks ?dev ?k" "?a NDIRECT \<notin> set (direct_blocks ?a)"
      using ok bl by (auto simp: inode_ok_def)
    then have same: "k1 ?dev (?a NDIRECT) = ?k ?dev (?a NDIRECT)"
      using k1(2) by (auto simp: data_blocks_def bitmap_block_def)
    obtain k where k: "release_all (bfree ?dev) (inode_blocks ?k ?dev ?a) ?k = Some k"
      using release_all_data [OF dk, of "inode_blocks ?k ?dev ?a"] ok by (auto simp: inode_ok_def)
    then obtain k2 where k2: "release_all (bfree ?dev) ?e k1 = Some k2" "bfree ?dev (?a NDIRECT) k2 = Some k"
      using k1(1) by (auto simp: bl release_all_append Option.bind_eq_Some_conv)
    have e: "(\<lambda>n. if n < NDIRECT then 0 else ?a n)(NDIRECT := 0) = (\<lambda>n. if n \<le> NDIRECT then 0 else ?a n)"
      by (auto simp: le_less)
    have fe: "free_entries ?dev (k1 ?dev (?a NDIRECT)) [0..<NINDIRECT] k1 = Some k2"
      using k2(1) by (simp add: free_entries_release same entry_blocks_def)
    show ?thesis using t False k k2(2) fe
      by (intro exI [of _ k]) (simp add: itrunc_def set_addr_def upd_inode_def e Let_def cong: if_cong)
  qed
qed

lemma disk_ok_iupdate:
  assumes "disk_ok (idev (icache s i)) (fdisk s)"
    "unat (inum (icache s i)) < unat (sb_ninodes (readsb (idev (icache s i)) (fdisk s)))"
  shows "disk_ok (idev (icache s i)) (fdisk (iupdate i s))"
    "free_blocks (idev (icache s i)) (fdisk (iupdate i s)) = free_blocks (idev (icache s i)) (fdisk s)"
    "data_blocks (idev (icache s i)) (fdisk (iupdate i s)) = data_blocks (idev (icache s i)) (fdisk s)"
    "readsb (idev (icache s i)) (fdisk (iupdate i s)) = readsb (idev (icache s i)) (fdisk s)"
    "c \<noteq> IBLOCK (inum (icache s i)) \<Longrightarrow> fdisk (iupdate i s) dev' c = fdisk s dev' c"
    "unat (IBLOCK (inum (icache s i))) < bitmap_start (readsb (idev (icache s i)) (fdisk s))"
proof -
  let ?b = "IBLOCK (inum (icache s i))" and ?sb = "readsb (idev (icache s i)) (fdisk s)"
  have "unat (inum (icache s i)) div IPB \<le> unat (sb_ninodes ?sb) div IPB"
    using assms(2) by (intro div_le_mono) simp
  then show b: "unat ?b < bitmap_start ?sb"
    by (simp add: unat_IBLOCK bitmap_start_def)
  have "?b \<noteq> 1"
  proof
    assume "?b = 1"
    then have "unat ?b = 1" by simp
    then show False by (simp add: unat_IBLOCK)
  qed
  moreover have "\<not> bitmap_block ?sb ?b" using b by (simp add: bitmap_block_def)
  moreover have "?b \<notin> free_blocks (idev (icache s i)) (fdisk s)"
    using free_subset_data [OF assms(1)] b by (auto simp: data_blocks_def data_start_def)
  ultimately show "disk_ok (idev (icache s i)) (fdisk (iupdate i s))"
    "free_blocks (idev (icache s i)) (fdisk (iupdate i s)) = free_blocks (idev (icache s i)) (fdisk s)"
    "data_blocks (idev (icache s i)) (fdisk (iupdate i s)) = data_blocks (idev (icache s i)) (fdisk s)"
    "readsb (idev (icache s i)) (fdisk (iupdate i s)) = ?sb"
    using disk_ok_write [OF assms(1)] by (simp_all add: iupdate_def Let_def)
  show "c \<noteq> ?b \<Longrightarrow> fdisk (iupdate i s) dev' c = fdisk s dev' c"
    by (simp add: iupdate_def Let_def)
qed

lemma disk_inode_frame:
  assumes "n < sb_ninodes (readsb dev k)" "readsb dev k' = readsb dev k"
    "\<And>c. unat c < bitmap_start (readsb dev k) \<Longrightarrow> k' dev c = k dev c"
  shows "disk_inode k' dev n = disk_inode k dev n"
proof -
  have "unat n div IPB \<le> unat (sb_ninodes (readsb dev k)) div IPB"
    using assms(1) by (intro div_le_mono) (simp add: word_less_nat_alt less_imp_le)
  then have "unat (IBLOCK n) < bitmap_start (readsb dev k)" by (simp add: unat_IBLOCK bitmap_start_def)
  then show ?thesis using assms(3) by (simp add: disk_inode_def)
qed

lemma itrunc_frees:
  assumes ok: "inode_ok (fdisk s) (idev (icache s i)) (iaddrs (icache s i))"
    and n: "inum (icache s i) < sb_ninodes (readsb (idev (icache s i)) (fdisk s))"
  shows "\<exists>s'. itrunc i s = Some s' \<and> slot_kept i s s' \<and> disk_ok (idev (icache s i)) (fdisk s') \<and>
    readsb (idev (icache s i)) (fdisk s') = readsb (idev (icache s i)) (fdisk s) \<and>
    free_blocks (idev (icache s i)) (fdisk s') = free_blocks (idev (icache s i)) (fdisk s) \<union>
      set (inode_blocks (fdisk s) (idev (icache s i)) (iaddrs (icache s i))) \<and>
    (\<forall>m. m < sb_ninodes (readsb (idev (icache s i)) (fdisk s)) \<longrightarrow> m \<noteq> inum (icache s i) \<longrightarrow>
       disk_inode (fdisk s') (idev (icache s i)) m = disk_inode (fdisk s) (idev (icache s i)) m)"
proof -
  let ?ip = "icache s i" and ?k = "fdisk s"
  let ?dev = "idev ?ip" and ?a = "iaddrs ?ip"
  let ?bs = "inode_blocks ?k ?dev ?a"
  have dk: "disk_ok ?dev ?k" "distinct ?bs" "set ?bs \<subseteq> data_blocks ?dev ?k - free_blocks ?dev ?k"
    using ok by (auto simp: inode_ok_def)
  obtain k where k: "release_all (bfree ?dev) ?bs ?k = Some k" "disk_ok ?dev k"
    "free_blocks ?dev k = free_blocks ?dev ?k \<union> set ?bs" "readsb ?dev k = readsb ?dev ?k"
    "\<forall>dev' c. dev' \<noteq> ?dev \<or> c \<notin> set ?bs \<and> \<not> bitmap_block (readsb ?dev ?k) c \<longrightarrow> k dev' c = ?k dev' c"
    using release_all_data [OF dk] by blast
  let ?s1 = "upd_inode i (\<lambda>ip. ip\<lparr>iaddrs := (\<lambda>n. if n \<le> NDIRECT then 0 else iaddrs ip n), isize := 0\<rparr>) (s\<lparr>fdisk := k\<rparr>)"
  have t: "itrunc i s = Some (iupdate i ?s1)" using itrunc_release [OF ok] k(1) by auto
  have s1: "idev (icache ?s1 i) = ?dev" "inum (icache ?s1 i) = inum ?ip" "fdisk ?s1 = k" by simp_all
  have "disk_inode (fdisk (iupdate i ?s1)) ?dev m = disk_inode ?k ?dev m"
    if m: "m < sb_ninodes (readsb ?dev ?k)" "m \<noteq> inum ?ip" for m
  proof -
    have "k ?dev c = ?k ?dev c" if c: "unat c < bitmap_start (readsb ?dev ?k)" for c
    proof -
      have "c \<notin> data_blocks ?dev ?k" "\<not> bitmap_block (readsb ?dev ?k) c"
        using c by (simp_all add: data_blocks_def data_start_def bitmap_block_def)
      then show ?thesis using k(5) dk(3) by blast
    qed
    then have "disk_inode k ?dev m = disk_inode ?k ?dev m" by (rule disk_inode_frame [OF m(1) k(4)])
    then show ?thesis using m(2) s1 by (simp add: disk_inode_iupdate Let_def)
  qed
  then show ?thesis
    using t itrunc_kept [OF t] disk_ok_iupdate [of ?s1 i] n k s1 by (auto simp: word_less_nat_alt)
qed

text \<open>
  C11: Dropping the last reference to a valid, unlocked inode without links, whose stored addresses are distinct data blocks
  in use (every file but a checksummed one with a nonzero checksum byte).  \<open>iput\<close> returns without panic; every
  block of the file, direct, indirect and the indirect block itself, becomes free and nothing else
  does; the inode is free on disk; the other inodes on disk are unchanged.
\<close>
theorem iput_frees_unlinked_inode:
  assumes "iref (icache s i) = 1" "ivalid (icache s i)" "inlink (icache s i) = 0" "\<not> ibusy (icache s i)"
    "inode_ok (fdisk s) (idev (icache s i)) (iaddrs (icache s i))"
    "inum (icache s i) < sb_ninodes (readsb (idev (icache s i)) (fdisk s))"
  shows "\<exists>s'. iput i s = Some s' \<and> iref (icache s' i) = 0 \<and> disk_ok (idev (icache s i)) (fdisk s') \<and>
    free_blocks (idev (icache s i)) (fdisk s') = free_blocks (idev (icache s i)) (fdisk s) \<union>
      set (inode_blocks (fdisk s) (idev (icache s i)) (iaddrs (icache s i))) \<and>
    dtype (disk_inode (fdisk s') (idev (icache s i)) (inum (icache s i))) = 0 \<and>
    (\<forall>m. m < sb_ninodes (readsb (idev (icache s i)) (fdisk s)) \<longrightarrow> m \<noteq> inum (icache s i) \<longrightarrow>
       disk_inode (fdisk s') (idev (icache s i)) m = disk_inode (fdisk s) (idev (icache s i)) m)"
proof -
  let ?s0 = "upd_inode i (\<lambda>ip. ip\<lparr>ibusy := True\<rparr>) s"
  have "inode_ok (fdisk ?s0) (idev (icache ?s0 i)) (iaddrs (icache ?s0 i))"
    "inum (icache ?s0 i) < sb_ninodes (readsb (idev (icache ?s0 i)) (fdisk ?s0))"
    using assms by simp_all
  from itrunc_frees [OF this] obtain s2 where s2: "itrunc i ?s0 = Some s2" "slot_kept i ?s0 s2"
    "disk_ok (idev (icache s i)) (fdisk s2)" "readsb (idev (icache s i)) (fdisk s2) = readsb (idev (icache s i)) (fdisk s)"
    "free_blocks (idev (icache s i)) (fdisk s2) = free_blocks (idev (icache s i)) (fdisk s) \<union>
      set (inode_blocks (fdisk s) (idev (icache s i)) (iaddrs (icache s i)))"
    "\<forall>m. m < sb_ninodes (readsb (idev (icache s i)) (fdisk s)) \<longrightarrow> m \<noteq> inum (icache s i) \<longrightarrow>
       disk_inode (fdisk s2) (idev (icache s i)) m = disk_inode (fdisk s) (idev (icache s i)) m"
    by auto
  let ?s3 = "upd_inode i (\<lambda>ip. ip\<lparr>itype := 0\<rparr>) s2"
  have s3: "idev (icache ?s3 i) = idev (icache s i)" "inum (icache ?s3 i) = inum (icache s i)"
    "iref (icache ?s3 i) = 1"
    using s2(2) assms(1) by (simp_all add: slot_kept_def)
  show ?thesis
    using assms s2 s3 disk_ok_iupdate [of ?s3 i]
    by (simp add: iput_def Let_def disk_inode_iupdate to_dinode_def word_less_nat_alt)
qed

text \<open>
  Metadata survive the table.  After \<open>iupdate\<close>, dropping the last reference, finding the inode
  again with \<open>iget\<close> and locking it gives back the type, device numbers, link count, size and block
  addresses, whatever slot is used.
\<close>
theorem inode_metadata_roundtrip:
  assumes "icache_inv s" "i < NINODE" "iref (icache s i) = 1" "itype (icache s i) \<noteq> 0" "inlink (icache s i) \<noteq> 0"
    "\<forall>n>NDIRECT. iaddrs (icache s i) n = 0"
  shows "\<exists>s1 j s2 s3. iput i (iupdate i s) = Some s1 \<and>
    iget (idev (icache s i)) (inum (icache s i)) s1 = Some (j, s2) \<and> ilock j s2 = Some s3 \<and>
    to_dinode (icache s3 j) = to_dinode (icache s i)"
proof -
  let ?ip = "icache s i" and ?s1 = "upd_inode i (\<lambda>ip. ip\<lparr>iref := iref ip - 1\<rparr>) (iupdate i s)"
  have p: "iput i (iupdate i s) = Some ?s1" using assms(5) by (simp add: iput_def Let_def)
  have free: "iref (icache ?s1 i) = 0" using assms(3) by simp
  then obtain j s2 where g: "iget (idev ?ip) (inum ?ip) ?s1 = Some (j, s2)"
    using iget_succeeds [OF assms(2)] by blast
  have nohit: "0 < iref (icache ?s1 l) \<longrightarrow> ident (icache ?s1 l) \<noteq> (idev ?ip, inum ?ip)" if "l < NINODE" for l
    using assms(1,2,3) that by (cases "l = i") (auto simp: icache_inv_def ident_def)
  from g show ?thesis
  proof (cases rule: iget_cases)
    case hit
    then show ?thesis using nohit by blast
  next
    case miss
    have na: "(\<lambda>n. if n \<le> NDIRECT then iaddrs ?ip n else 0) = iaddrs ?ip"
      using assms(6) by (auto simp: fun_eq_iff not_le)
    have d: "disk_inode (fdisk (iupdate i s)) (idev ?ip) (inum ?ip) = to_dinode ?ip"
      by (simp add: disk_inode_iupdate Let_def na) (simp add: to_dinode_def)
    have "\<exists>s3. ilock j s2 = Some s3 \<and> to_dinode (icache s3 j) = to_dinode ?ip"
      using assms(4) by (simp add: ilock_def Let_def miss(4) from_dinode_def d) (simp add: to_dinode_def)
    then show ?thesis using p g by blast
  qed
qed

text \<open>
  Deleting a checksummed file does not free its blocks.  \<open>itrunc\<close> passes the stored address, checksum byte included, to
  \<open>bfree\<close>.  When that byte is not zero, \<open>bfree\<close> looks at a bit in a block past the bitmap: if the bit is clear it panics
  (\<open>freeing free block\<close>), so \<open>itrunc\<close> does when this is the first address of the file; and if the bit is set no block of the
  image becomes free.
\<close>
theorem checked_block_not_freed:
  assumes g: "geometry (readsb dev k)" and a: "2 ^ 24 \<le> unat a"
  defines "c \<equiv> BBLOCK a (sb_ninodes (readsb dev k))"
  shows "data_start (readsb dev k) \<le> unat c \<and>
    (\<not> bit (k dev c (unat a mod BPB div 8)) (unat a mod 8) \<longrightarrow> bfree dev a k = None \<and>
       (\<forall>i s. fdisk s = k \<longrightarrow> idev (icache s i) = dev \<longrightarrow> iaddrs (icache s i) 0 = a \<longrightarrow> itrunc i s = None)) \<and>
    (\<forall>k'. bfree dev a k = Some k' \<longrightarrow> free_blocks dev k' = free_blocks dev k)"
proof -
  let ?sb = "readsb dev k"
  have sz: "unat (sb_size ?sb) < 2 ^ 24" "data_start ?sb \<le> unat (sb_size ?sb)" using g by (simp_all add: geometry_def)
  have uc: "unat c = unat a div BPB + unat (sb_ninodes ?sb) div IPB + 3"
  proof -
    have "unat a < 2 ^ 32" "unat (sb_ninodes ?sb) < 2 ^ 32"
      using unsigned_less [of a] unsigned_less [of "sb_ninodes ?sb"] by simp_all
    then show ?thesis by (simp add: c_def BBLOCK_def fs_consts unat_word_ariths unat_div)
  qed
  have "unat (sb_size ?sb) div BPB < 2 ^ 24 div BPB" using sz(1) by (simp add: fs_consts)
  moreover have "2 ^ 24 div BPB \<le> unat a div BPB" using a by (rule div_le_mono)
  ultimately have past: "data_start ?sb \<le> unat c" by (simp add: uc data_start_def bitmap_start_def)
  have off: "a \<noteq> 1" "c \<noteq> 1" "\<not> bitmap_block ?sb a" "\<not> bitmap_block ?sb c"
    using a past sz by (auto simp: bitmap_block_def data_start_def bitmap_start_def)
  have sb: "readsb dev (bzero dev a k) = ?sb" using off by (simp add: bzero_def)
  have none: "bfree dev a k = None" if "\<not> bit (k dev c (unat a mod BPB div 8)) (unat a mod 8)"
  proof -
    have "\<not> bit (bzero dev a k dev c (unat a mod BPB div 8)) (unat a mod 8)"
      using that by (cases "c = a") (simp_all add: bzero_def)
    then show ?thesis by (simp add: bfree_def Let_def sb and_bit_mask c_def)
  qed
  have "[0..<NDIRECT] = 0 # [1..<NDIRECT]" by (simp add: NDIRECT_def upt_rec)
  moreover have "a \<noteq> 0" using a by auto
  ultimately have panic: "\<not> bit (k dev c (unat a mod BPB div 8)) (unat a mod 8) \<longrightarrow> bfree dev a k = None \<and>
       (\<forall>i s. fdisk s = k \<longrightarrow> idev (icache s i) = dev \<longrightarrow> iaddrs (icache s i) 0 = a \<longrightarrow> itrunc i s = None)"
    using none by (auto simp: itrunc_def Let_def)
  have "free_blocks dev k' = free_blocks dev k" if "bfree dev a k = Some k'" for k'
  proof -
    have same: "k' dev x = k dev x" if "x \<noteq> a" "x \<noteq> c" for x
      using that \<open>bfree dev a k = Some k'\<close> off(1)
      by (auto simp: bfree_def Let_def bzero_def c_def split: if_splits)
    have sb': "readsb dev k' = ?sb" by (rule readsb_cong, rule same) (use off in auto)
    have "used dev k' x = used dev k x" if x: "x < unat (sb_size ?sb)" for x
    proof -
      have "bitmap_block ?sb (BBLOCK (of_nat x) (sb_ninodes ?sb))" by (rule bitmap_block_BBLOCK [OF g size_le_scan_limit [OF x]])
      then have "k' dev (BBLOCK (of_nat x) (sb_ninodes ?sb)) = k dev (BBLOCK (of_nat x) (sb_ninodes ?sb))"
        using off by (intro same) auto
      then show ?thesis by (simp add: used_def sb')
    qed
    then show ?thesis by (auto simp: free_blocks_def sb')
  qed
  then show ?thesis using past panic by blast
qed

section \<open>Examples\<close>

definition no_inode :: inode where
  "no_inode = \<lparr>idev = 0, inum = 0, iref = 0, ibusy = False, ivalid = False, itype = 0, imajor = 0,
     iminor = 0, inlink = 0, isize = 0, iaddrs = (\<lambda>_. 0)\<rparr>"

text \<open>The small image with blocks 5 to 7 in use, an empty table, and one inode in slot 0.\<close>

definition small_fs :: "inode \<Rightarrow> fs" where
  "small_fs ip = \<lparr>fdisk = small_disk 1, icache = (\<lambda>_. no_inode)(0 := ip), iwakeups = []\<rparr>"

definition small_file :: "u16 \<Rightarrow> u16 \<Rightarrow> u32 \<Rightarrow> inode" where
  "small_file ty nl a = no_inode\<lparr>idev := 1, inum := 2, iref := 1, ivalid := True, itype := ty, inlink := nl,
     isize := 512, iaddrs := (\<lambda>_. 0)(0 := a)\<rparr>"

lemma small_fs_simps [simp]:
  "icache (small_fs ip) 0 = ip" "fdisk (small_fs ip) = small_disk 1"
  "idev (small_file ty nl a) = 1" "inum (small_file ty nl a) = 2" "itype (small_file ty nl a) = ty"
  "isize (small_file ty nl a) = 512" "iaddrs (small_file ty nl a) = (\<lambda>_. 0)(0 := a)"
  by (simp_all add: small_fs_def small_file_def)

lemma small_fs_blocks: "inode_blocks (small_disk n) 1 ((\<lambda>_. 0)(0 := 5)) = [5]"
  by (simp add: inode_blocks_def direct_blocks_def NDIRECT_def upt_rec)

lemma small_fs_ok: "inode_ok (small_disk 1) 1 ((\<lambda>_. 0)(0 := 5))"
  using small_disk_ok [of 1 1]
  by (simp add: inode_ok_def small_fs_blocks data_blocks_def data_start_def bitmap_start_def fs_consts
      small_disk_free)

theorem inode_references_counted_witness:
  "\<exists>s. ic_run (small_fs no_inode) [Take (1, 1), Take (1, 2), Take (1, 1), Drop (1, 1)] s \<and> icache_inv s \<and>
     refs s = {#(1, 1), (1, 2)#}"
proof -
  let ?s0 = "small_fs no_inode" and ?a = "no_inode\<lparr>idev := 1, inum := 1, iref := 1\<rparr>"
  let ?b = "no_inode\<lparr>idev := 1, inum := 2, iref := 1\<rparr>"
  let ?s1 = "small_fs ?a"
  let ?s2 = "?s1\<lparr>icache := (icache ?s1)(1 := ?b)\<rparr>"
  let ?s3 = "?s2\<lparr>icache := (icache ?s2)(0 := ?a\<lparr>iref := 2\<rparr>)\<rparr>"
  obtain js where u: "[0..<NINODE] = 0 # 1 # js" and js: "\<forall>i\<in>set js. i \<noteq> 0 \<and> i \<noteq> 1"
    by (rule that [of "[2..<50]"]) (simp_all add: NINODE_def upt_rec)
  have miss: "\<forall>i\<in>set js. c i = no_inode \<Longrightarrow> iget_scan c dev n js (Some e) = Some (False, e)" for c dev n js e
    by (induction js) (auto simp: no_inode_def)
  have 1: "iget_scan (icache ?s0) 1 1 [0..<NINODE] None = Some (False, 0)"
    using js miss [of js "icache ?s0" 1 1 0] by (simp add: u small_fs_def) (simp add: no_inode_def)
  have 1: "ic_step ?s0 (Take (1, 1)) ?s1"
    by (rule ic_step.get [where i = 0]) (simp only: iget_def 1 option.case prod.case bool.case, simp add: small_fs_def no_inode_def upd_inode_def)
  have 2: "iget_scan (icache ?s1) 1 2 [0..<NINODE] None = Some (False, 1)"
    using js miss [of js "icache ?s1" 1 2 1] by (simp add: u small_fs_def) (simp add: no_inode_def)
  have 2: "ic_step ?s1 (Take (1, 2)) ?s2"
    by (rule ic_step.get [where i = 1]) (simp only: iget_def 2 option.case prod.case bool.case, simp add: small_fs_def no_inode_def upd_inode_def)
  have 3: "iget_scan (icache ?s2) 1 1 [0..<NINODE] None = Some (True, 0)"
    by (simp add: u small_fs_def)
  have 3: "ic_step ?s2 (Take (1, 1)) ?s3"
    by (rule ic_step.get [where i = 0]) (simp only: iget_def 3 option.case prod.case bool.case, simp add: small_fs_def no_inode_def upd_inode_def)
  have "iput 0 ?s3 = Some ?s2"
    by (simp add: iput_def small_fs_def no_inode_def upd_inode_def) (simp add: fun_upd_twist)
  from ic_step.put [OF _ _ this] have 4: "ic_step ?s3 (Drop (1, 1)) ?s2"
    by (simp add: ident_def small_fs_def NINODE_def)
  from ic_run.step [OF ic_run.step [OF ic_run.step [OF ic_run.step [OF ic_run.start 1] 2] 3] 4] have r: "ic_run ?s0 [Take (1, 1), Take (1, 2), Take (1, 1), Drop (1, 1)] ?s2"
    by simp
  from inode_references_counted [OF r] have "icache_inv ?s2 \<and> refs ?s2 = {#(1, 1), (1, 2)#}"
    by (auto simp: small_fs_def no_inode_def add_mset_commute)
  with r show ?thesis by blast
qed

theorem iput_frees_unlinked_inode_witness:
  "\<exists>s'. iput 0 (small_fs (small_file T_FILE 0 5)) = Some s' \<and> iref (icache s' 0) = 0 \<and>
     5 \<in> free_blocks 1 (fdisk s') \<and> dtype (disk_inode (fdisk s') 1 2) = 0"
  using iput_frees_unlinked_inode [of "small_fs (small_file T_FILE 0 5)" 0] small_fs_ok
  by (auto simp: small_fs_def small_file_def no_inode_def small_fs_blocks)

theorem inode_metadata_roundtrip_witness:
  "\<exists>s1 j s2 s3. iput 0 (iupdate 0 (small_fs (small_file T_FILE 1 5))) = Some s1 \<and>
     iget 1 2 s1 = Some (j, s2) \<and> ilock j s2 = Some s3 \<and>
     to_dinode (icache s3 j) = to_dinode (small_file T_FILE 1 5)"
  using inode_metadata_roundtrip [of "small_fs (small_file T_FILE 1 5)" 0]
  by (simp add: small_fs_def small_file_def no_inode_def icache_inv_def NINODE_def T_FILE_def NDIRECT_def)

theorem checked_block_not_freed_witness:
  "itrunc 0 (small_fs (small_file T_CHECKED 0 0x07000005)) = None"
proof -
  let ?s = "small_fs (small_file T_CHECKED 0 0x07000005)"
  have f: "fdisk ?s = small_disk 1" "idev (icache ?s 0) = 1" "iaddrs (icache ?s 0) 0 = 0x07000005"
    by (simp_all add: small_fs_def small_file_def)
  have "small_disk 1 1 (BBLOCK 0x07000005 8) = (\<lambda>_. 0)" by (simp add: small_disk_def BBLOCK_def fs_consts)
  then have "\<not> bit (small_disk 1 1 (BBLOCK 0x07000005 (sb_ninodes (readsb 1 (small_disk 1)))) (unat (0x07000005 :: u32) mod BPB div 8))
      (unat (0x07000005 :: u32) mod 8)" by simp
  then show ?thesis
    using checked_block_not_freed [where dev = 1 and k = "small_disk 1" and a = "0x07000005", OF small_disk_geometry] f by simp
qed

end
