(* ===== verification/FsFile.thy ===== *)
theory FsFile
  imports FsInode
begin

text \<open>
  The contents of files (\<open>kernel/fs.c\<close>, third part): \<open>bmap\<close>, \<open>stati\<close>, \<open>readi\<close> and \<open>writei\<close>, with the
  checksummed files of this kernel, whose blocks' checksums are kept in the upper byte of the
  block addresses.  The destination of a read is the list of bytes stored from \<open>dst\<close> on, the source
  of a write the bytes from \<open>src\<close> on.  Device files go through the table \<open>devsw\<close>, which is an argument.
\<close>

definition NDEV :: int where "NDEV = 10"

record devsw =
  dev_read :: "nat \<Rightarrow> (nat \<Rightarrow> u32 \<Rightarrow> fs \<Rightarrow> (int \<times> u8 list \<times> fs) option) option"
  dev_write :: "nat \<Rightarrow> (nat \<Rightarrow> (nat \<Rightarrow> u8) \<Rightarrow> u32 \<Rightarrow> fs \<Rightarrow> (int \<times> fs) option) option"

record stat =
  st_dev :: u32
  st_ino :: u32
  st_type :: u16
  st_nlink :: u16
  st_size :: u32
  st_checksum :: u8

section \<open>Finding and allocating the blocks of a file\<close>

definition strip :: "u16 \<Rightarrow> u32 \<Rightarrow> u32" where
  "strip ty a = (if ty = T_CHECKED then a AND 0x00ffffff else a)"

definition bmap :: "nat \<Rightarrow> nat \<Rightarrow> fs \<Rightarrow> (u32 \<times> fs) option" where
  "bmap i bn s =
     (let ip = icache s i; dev = idev ip in
      if bn < NDIRECT then do {
        (addr, s1) \<leftarrow> (if iaddrs ip bn = 0 then do {
            (b, k) \<leftarrow> balloc dev (fdisk s); Some (b, set_addr i bn b (s\<lparr>fdisk := k\<rparr>))
          } else Some (iaddrs ip bn, s));
        Some (strip (itype ip) addr, s1)
      } else if bn - NDIRECT < NINDIRECT then do {
        (ia, s1) \<leftarrow> (if iaddrs ip NDIRECT = 0 then do {
            (b, k) \<leftarrow> balloc dev (fdisk s); Some (b, set_addr i NDIRECT b (s\<lparr>fdisk := k\<rparr>))
          } else Some (iaddrs ip NDIRECT, s));
        let d = fdisk s1 dev ia;
        let a = get32 d (4 * (bn - NDIRECT));
        (addr, s2) \<leftarrow> (if a = 0 then do {
            (b, k) \<leftarrow> balloc dev (fdisk s1);
            Some (b, s1\<lparr>fdisk := blk_write dev ia (put32 d (4 * (bn - NDIRECT)) b) k\<rparr>)
          } else Some (a, s1));
        Some (strip (itype ip) addr, s2)
      } else None)"

section \<open>Reading and writing\<close>

fun xor_bytes :: "block \<Rightarrow> nat \<Rightarrow> u8" where
  "xor_bytes d 0 = 0"
| "xor_bytes d (Suc n) = xor_bytes d n XOR d n"

text \<open>The raw address of a block, checksum included, as \<open>readi\<close> and \<open>writei\<close> look it up.\<close>

definition raw_addr :: "disk \<Rightarrow> u32 \<Rightarrow> (nat \<Rightarrow> u32) \<Rightarrow> nat \<Rightarrow> u32" where
  "raw_addr k dev a bn =
     (if bn < NDIRECT then a bn else get32 (k dev (a NDIRECT)) (4 * (bn - NDIRECT)))"

definition stored_checksum :: "fs \<Rightarrow> nat \<Rightarrow> nat \<Rightarrow> u32" where
  "stored_checksum s i bn =
     drop_bit 24 (raw_addr (fdisk s) (idev (icache s i)) (iaddrs (icache s i)) bn AND 0xff000000)"

text \<open>
  The loop of \<open>readi\<close>: \<open>r\<close> is \<open>n - tot\<close>.  The flag of the result is false when a checksum does not
  match, which is after the bytes of that block have been copied.
\<close>

function readi_loop :: "nat \<Rightarrow> nat \<Rightarrow> nat \<Rightarrow> nat \<Rightarrow> fs \<Rightarrow> (bool \<times> u8 list \<times> fs) option" where
  "readi_loop i nbytes off r s =
     (if r = 0 then Some (True, [], s)
      else do {
        (b, s1) \<leftarrow> bmap i (off div BSIZE) s;
        let d = fdisk s1 (idev (icache s1 i)) b;
        let m = min r (BSIZE - off mod BSIZE);
        let out = map (\<lambda>j. d (off mod BSIZE + j)) [0..<m];
        if itype (icache s1 i) = T_CHECKED \<and>
           stored_checksum s1 i (off div BSIZE) \<noteq> ucast (xor_bytes d nbytes)
        then Some (False, out, s1)
        else do {
          (ok, rest, s2) \<leftarrow> readi_loop i nbytes (off + m) (r - m) s1;
          Some (ok, out @ rest, s2)
        }
      })"
  by auto
termination by (relation "measure (\<lambda>(i, nb, off, r, s). r)") (auto simp: fs_consts)

declare readi_loop.simps [simp del]

definition readi :: "devsw \<Rightarrow> nat \<Rightarrow> u32 \<Rightarrow> u32 \<Rightarrow> fs \<Rightarrow> (int \<times> u8 list \<times> fs) option" where
  "readi dv i off n s =
     (let ip = icache s i; nbytes = min (unat n) BSIZE in
      if itype ip = T_DEV then
        if sint (imajor ip) < 0 \<or> sint (imajor ip) \<ge> NDEV then Some (-1, [], s)
        else (case dev_read dv (unat (imajor ip)) of None \<Rightarrow> Some (-1, [], s) | Some f \<Rightarrow> f i n s)
      else if off > isize ip \<or> off + n < off then Some (-1, [], s)
      else let n' = (if off + n > isize ip then isize ip - off else n) in do {
        (ok, out, s1) \<leftarrow> readi_loop i nbytes (unat off) (unat n') s;
        Some (if ok then sint n' else -1, out, s1)
      })"

text \<open>One block of \<open>writei\<close>: the new contents, then, for a checksummed file, the new checksum.\<close>

definition overlay :: "block \<Rightarrow> nat \<Rightarrow> nat \<Rightarrow> (nat \<Rightarrow> u8) \<Rightarrow> block" where
  "overlay d p m src = (\<lambda>j. if p \<le> j \<and> j < p + m then src (j - p) else d j)"

definition put_checksum :: "nat \<Rightarrow> nat \<Rightarrow> u8 \<Rightarrow> fs \<Rightarrow> fs" where
  "put_checksum i bn c s =
     (let ip = icache s i; dev = idev ip; cs = push_bit 24 (ucast c :: u32) in
      if bn < NDIRECT then set_addr i bn (iaddrs ip bn AND 0x00ffffff OR cs) s
      else if bn - NDIRECT < NINDIRECT then
        let ia = iaddrs ip NDIRECT; d = fdisk s dev ia; p = 4 * (bn - NDIRECT) in
        s\<lparr>fdisk := blk_write dev ia (put32 d p (get32 d p AND 0x00ffffff OR cs)) (fdisk s)\<rparr>
      else s)"

definition write_out :: "nat \<Rightarrow> nat \<Rightarrow> u32 \<Rightarrow> block \<Rightarrow> nat \<Rightarrow> fs \<Rightarrow> fs" where
  "write_out i bn b d nbytes s =
     (let s1 = (if itype (icache s i) = T_CHECKED then put_checksum i bn (xor_bytes d nbytes) s else s)
      in s1\<lparr>fdisk := blk_write (idev (icache s i)) b d (fdisk s1)\<rparr>)"

function writei_loop :: "nat \<Rightarrow> (nat \<Rightarrow> u8) \<Rightarrow> nat \<Rightarrow> nat \<Rightarrow> nat \<Rightarrow> nat \<Rightarrow> fs \<Rightarrow> fs option" where
  "writei_loop i src nbytes off tot r s =
     (if r = 0 then Some s
      else do {
        (b, s1) \<leftarrow> bmap i (off div BSIZE) s;
        let m = min r (BSIZE - off mod BSIZE);
        let d = overlay (fdisk s1 (idev (icache s1 i)) b) (off mod BSIZE) m (\<lambda>j. src (tot + j));
        writei_loop i src nbytes (off + m) (tot + m) (r - m) (write_out i (off div BSIZE) b d nbytes s1)
      })"
  by auto
termination by (relation "measure (\<lambda>(i, src, nb, off, tot, r, s). r)") (auto simp: fs_consts)

declare writei_loop.simps [simp del]

definition writei :: "devsw \<Rightarrow> nat \<Rightarrow> (nat \<Rightarrow> u8) \<Rightarrow> u32 \<Rightarrow> u32 \<Rightarrow> fs \<Rightarrow> (int \<times> fs) option" where
  "writei dv i src off n s =
     (let ip = icache s i; nbytes = min (unat n) BSIZE; mx = of_nat (MAXFILE * BSIZE) in
      if itype ip = T_DEV then
        if sint (imajor ip) < 0 \<or> sint (imajor ip) \<ge> NDEV then Some (-1, s)
        else (case dev_write dv (unat (imajor ip)) of None \<Rightarrow> Some (-1, s) | Some f \<Rightarrow> f i src n s)
      else if off > isize ip \<or> off + n < off then Some (-1, s)
      else let n' = (if off + n > mx then mx - off else n) in do {
        s1 \<leftarrow> writei_loop i src nbytes (unat off) 0 (unat n') s;
        Some (sint n', if n' > 0 \<and> off + n' > isize (icache s1 i)
          then iupdate i (upd_inode i (\<lambda>ip. ip\<lparr>isize := off + n'\<rparr>) s1) else s1)
      })"

section \<open>Status\<close>

fun xor_entries :: "block \<Rightarrow> nat \<Rightarrow> u8" where
  "xor_entries d 0 = 0"
| "xor_entries d (Suc j) = xor_entries d j XOR ucast (drop_bit 24 (get32 d (4 * j) AND 0xff000000))"

fun xor_direct :: "(nat \<Rightarrow> u32) \<Rightarrow> nat \<Rightarrow> u8" where
  "xor_direct a 0 = 0"
| "xor_direct a (Suc j) = xor_direct a j XOR ucast (drop_bit 24 (a j AND 0xff000000))"

text \<open>The field \<open>checksum\<close> is left alone for other files; \<open>old\<close> is what it held before.\<close>

definition stati :: "nat \<Rightarrow> u8 \<Rightarrow> fs \<Rightarrow> stat" where
  "stati i old s = (let ip = icache s i in
     \<lparr>st_dev = idev ip, st_ino = inum ip, st_type = itype ip, st_nlink = inlink ip, st_size = isize ip,
      st_checksum = (if itype ip = T_CHECKED then
        xor_direct (iaddrs ip) NDIRECT XOR
        xor_entries (fdisk s (idev ip) (iaddrs ip NDIRECT)) (BSIZE div 4) else old)\<rparr>)"

section \<open>The blocks and the bytes of a file\<close>

text \<open>
  The addresses of a file by position: the data blocks, and the indirect block as position \<open>MAXFILE\<close>.
\<close>

definition slot_addr :: "u16 \<Rightarrow> disk \<Rightarrow> u32 \<Rightarrow> (nat \<Rightarrow> u32) \<Rightarrow> nat \<Rightarrow> u32" where
  "slot_addr ty k dev a y =
     (if y = MAXFILE then a NDIRECT
      else if y < NDIRECT then strip ty (a y)
      else if a NDIRECT = 0 then 0
      else strip ty (get32 (k dev (a NDIRECT)) (4 * (y - NDIRECT))))"

definition raws_ok :: "u16 \<Rightarrow> disk \<Rightarrow> u32 \<Rightarrow> (nat \<Rightarrow> u32) \<Rightarrow> bool" where
  "raws_ok ty k dev a \<longleftrightarrow> (\<forall>y<NDIRECT. strip ty (a y) = 0 \<longrightarrow> a y = 0) \<and>
     (a NDIRECT \<noteq> 0 \<longrightarrow> (\<forall>j<NINDIRECT. strip ty (get32 (k dev (a NDIRECT)) (4 * j)) = 0 \<longrightarrow>
        get32 (k dev (a NDIRECT)) (4 * j) = 0))"

definition file_ok :: "u16 \<Rightarrow> disk \<Rightarrow> u32 \<Rightarrow> (nat \<Rightarrow> u32) \<Rightarrow> bool" where
  "file_ok ty k dev a \<longleftrightarrow> disk_ok dev k \<and> raws_ok ty k dev a \<and>
     (\<forall>y\<le>MAXFILE. slot_addr ty k dev a y \<noteq> 0 \<longrightarrow> slot_addr ty k dev a y \<in> data_blocks dev k - free_blocks dev k) \<and>
     (\<forall>y\<le>MAXFILE. \<forall>z\<le>MAXFILE. slot_addr ty k dev a y = slot_addr ty k dev a z \<longrightarrow>
        slot_addr ty k dev a y \<noteq> 0 \<longrightarrow> y = z)"

definition file_byte :: "u16 \<Rightarrow> disk \<Rightarrow> u32 \<Rightarrow> (nat \<Rightarrow> u32) \<Rightarrow> nat \<Rightarrow> u8" where
  "file_byte ty k dev a p =
     (let b = slot_addr ty k dev a (p div BSIZE) in if b = 0 then 0 else k dev b (p mod BSIZE))"

definition file_blocks :: "u16 \<Rightarrow> disk \<Rightarrow> u32 \<Rightarrow> (nat \<Rightarrow> u32) \<Rightarrow> u32 set" where
  "file_blocks ty k dev a = slot_addr ty k dev a ` {..MAXFILE} - {0}"

lemma file_okD:
  assumes "file_ok ty k dev a"
  shows "disk_ok dev k" "raws_ok ty k dev a"
    "\<lbrakk>y \<le> MAXFILE; slot_addr ty k dev a y \<noteq> 0\<rbrakk> \<Longrightarrow> slot_addr ty k dev a y \<in> data_blocks dev k"
    "\<lbrakk>y \<le> MAXFILE; slot_addr ty k dev a y \<noteq> 0\<rbrakk> \<Longrightarrow> slot_addr ty k dev a y \<notin> free_blocks dev k"
    "\<lbrakk>slot_addr ty k dev a y = slot_addr ty k dev a z; slot_addr ty k dev a y \<noteq> 0; y \<le> MAXFILE; z \<le> MAXFILE\<rbrakk>
      \<Longrightarrow> y = z"
  using assms unfolding file_ok_def by blast+

lemma strip_small: "unat b < 2 ^ 24 \<Longrightarrow> strip ty b = b"
proof -
  assume b: "unat b < 2 ^ 24"
  have "b AND 0x00ffffff = take_bit 24 b" by (simp add: take_bit_eq_mask mask_eq_exp_minus_1)
  also have "\<dots> = b" using b by (subst word_unat_eq_iff) (simp add: unat_take_bit)
  finally show ?thesis by (simp add: strip_def)
qed

lemma data_block_props:
  assumes "disk_ok dev k" "b \<in> data_blocks dev k"
  shows "b \<noteq> 0" "unat b < 2 ^ 24" "\<not> bitmap_block (readsb dev k) b" "strip ty b = b"
proof -
  show "b \<noteq> 0" using assms by (auto simp: data_blocks_def data_start_def bitmap_start_def)
  show u: "unat b < 2 ^ 24"
    using assms geometry_size [of "readsb dev k"] by (auto simp: data_blocks_def disk_ok_def)
  show "\<not> bitmap_block (readsb dev k) b" using assms by (simp add: data_blocks_def bitmap_block_def)
  show "strip ty b = b" using u by (rule strip_small)
qed

lemma disk_no_slot: "a NDIRECT \<noteq> 0 \<Longrightarrow> slot_addr ty k dev a MAXFILE = a NDIRECT"
  by (simp add: slot_addr_def)

lemma slot_MAXFILE [simp]: "slot_addr ty k dev a MAXFILE = a NDIRECT"
  by (simp add: slot_addr_def)

lemma slot_addr_cong:
  "\<lbrakk>a' = a; a NDIRECT \<noteq> 0 \<Longrightarrow> k' dev (a NDIRECT) = k dev (a NDIRECT)\<rbrakk>
   \<Longrightarrow> slot_addr ty k' dev a' y = slot_addr ty k dev a y"
  by (simp add: slot_addr_def)

text \<open>One allocation: position \<open>x\<close>, which was empty, gets the fresh block \<open>b\<close>.\<close>

definition grown :: "u16 \<Rightarrow> u32 \<Rightarrow> disk \<Rightarrow> (nat \<Rightarrow> u32) \<Rightarrow> nat \<Rightarrow> u32 \<Rightarrow> disk \<Rightarrow> (nat \<Rightarrow> u32) \<Rightarrow> bool" where
  "grown ty dev k a x b k' a' \<longleftrightarrow> disk_ok dev k' \<and> raws_ok ty k' dev a' \<and>
     data_blocks dev k' = data_blocks dev k \<and> readsb dev k' = readsb dev k \<and>
     b \<in> free_blocks dev k \<and> free_blocks dev k' = free_blocks dev k - {b} \<and>
     (\<forall>y\<le>MAXFILE. slot_addr ty k' dev a' y = (if y = x then b else slot_addr ty k dev a y)) \<and>
     (\<forall>dev' c. dev' \<noteq> dev \<or> \<not> bitmap_block (readsb dev k) c \<and> (c \<noteq> a' NDIRECT \<or> c = 0) \<longrightarrow>
        k' dev' c = k dev' c)"

lemma grown_ok:
  assumes ok: "file_ok ty k dev a" and g: "grown ty dev k a x b k' a'"
  shows "file_ok ty k' dev a'"
proof -
  have b: "b \<in> free_blocks dev k" "b \<in> data_blocks dev k"
    using g free_subset_data [OF file_okD(1) [OF ok]] by (auto simp: grown_def)
  have s: "slot_addr ty k' dev a' y = (if y = x then b else slot_addr ty k dev a y)" if "y \<le> MAXFILE" for y
    using g that by (simp add: grown_def)
  have eq: "free_blocks dev k' = free_blocks dev k - {b}" "data_blocks dev k' = data_blocks dev k"
    "disk_ok dev k'" "raws_ok ty k' dev a'" using g by (simp_all add: grown_def)
  have other: "slot_addr ty k dev a y \<noteq> b" if "y \<le> MAXFILE" for y
    using file_okD(4) [OF ok that] b data_block_props(1) [OF file_okD(1) [OF ok] b(2)] by metis
  have dat: "slot_addr ty k' dev a' y \<in> data_blocks dev k' - free_blocks dev k'"
    if "y \<le> MAXFILE" "slot_addr ty k' dev a' y \<noteq> 0" for y
    using that s [OF that(1)] b eq file_okD(3,4) [OF ok that(1)] other [OF that(1)] by (cases "y = x") auto
  have inj: "y = z" if "slot_addr ty k' dev a' y = slot_addr ty k' dev a' z" "slot_addr ty k' dev a' y \<noteq> 0"
    "y \<le> MAXFILE" "z \<le> MAXFILE" for y z
    using that s [OF that(3)] s [OF that(4)] other [OF that(3)] other [OF that(4)] file_okD(5) [OF ok, of y z]
    by (cases "y = x"; cases "z = x") auto
  show ?thesis using eq dat inj unfolding file_ok_def by blast
qed

lemma less_MAXFILE_block: "p < MAXFILE * BSIZE \<Longrightarrow> p div BSIZE < MAXFILE"
  by (simp add: fs_consts)

lemma grown_bytes:
  assumes ok: "file_ok ty k dev a" and g: "grown ty dev k a x b k' a'" and x: "slot_addr ty k dev a x = 0"
    and p: "p < MAXFILE * BSIZE"
  shows "file_byte ty k' dev a' p = file_byte ty k dev a p"
proof -
  let ?y = "p div BSIZE"
  have y: "?y \<le> MAXFILE" "?y \<noteq> MAXFILE" using less_MAXFILE_block [OF p] by auto
  have s: "slot_addr ty k' dev a' ?y = (if ?y = x then b else slot_addr ty k dev a ?y)"
    and b: "b \<in> free_blocks dev k"
    using g y(1) by (simp_all add: grown_def)
  have bd: "b \<in> data_blocks dev k" using free_subset_data [OF file_okD(1) [OF ok]] b by blast
  have ok': "file_ok ty k' dev a'" by (rule grown_ok [OF ok g])
  have same: "k' dev (slot_addr ty k' dev a' ?y) = k dev (slot_addr ty k' dev a' ?y)"
    if nz: "slot_addr ty k' dev a' ?y \<noteq> 0"
  proof -
    have "slot_addr ty k' dev a' ?y \<noteq> a' NDIRECT"
      using file_okD(5) [OF ok', of ?y MAXFILE] y nz by auto
    moreover have "\<not> bitmap_block (readsb dev k) (slot_addr ty k' dev a' ?y)"
      using file_okD(3) [OF ok' y(1) nz] data_block_props(3) [OF file_okD(1) [OF ok']] g by (simp add: grown_def)
    ultimately show ?thesis using g by (auto simp: grown_def)
  qed
  show ?thesis
  proof (cases "?y = x")
    case True
    then have "k' dev b = (\<lambda>_. 0)"
      using same s free_block_zero [OF file_okD(1) [OF ok] b] data_block_props(1) [OF file_okD(1) [OF ok] bd] by simp
    then show ?thesis using True s x by (simp add: file_byte_def Let_def)
  next
    case False
    then show ?thesis using same s by (simp add: file_byte_def Let_def)
  qed
qed

section \<open>What \<open>bmap\<close> does\<close>

lemma strip_0 [simp]: "strip ty 0 = 0"
  by (simp add: strip_def)

lemma free_strip: "disk_ok dev k \<Longrightarrow> b \<in> free_blocks dev k \<Longrightarrow> strip ty b = b \<and> b \<noteq> 0"
  using data_block_props [of dev k b] free_subset_data by blast

lemma indirect_kept:
  assumes "file_ok ty k dev a" "a NDIRECT \<noteq> 0"
    "\<And>dev' c. dev' \<noteq> dev \<or> \<not> bitmap_block (readsb dev k) c \<Longrightarrow> k' dev' c = k dev' c"
  shows "k' dev (a NDIRECT) = k dev (a NDIRECT)"
  using assms(3) data_block_props(3) [OF file_okD(1) [OF assms(1)] file_okD(3) [OF assms(1), of MAXFILE]] assms(2)
  by simp

lemma grown_direct:
  assumes ok: "file_ok ty k dev a" and y: "y < NDIRECT"
    and k': "disk_ok dev k'" "b \<in> free_blocks dev k" "free_blocks dev k' = free_blocks dev k - {b}"
      "data_blocks dev k' = data_blocks dev k" "readsb dev k' = readsb dev k"
      "\<And>dev' c. dev' \<noteq> dev \<or> \<not> bitmap_block (readsb dev k) c \<Longrightarrow> k' dev' c = k dev' c"
  shows "grown ty dev k a y b k' (a(y := b))"
proof -
  note sb = free_strip [OF file_okD(1) [OF ok] k'(2), of ty]
  have ny: "y \<noteq> NDIRECT" using y by simp
  have ind: "a NDIRECT \<noteq> 0 \<Longrightarrow> k' dev (a NDIRECT) = k dev (a NDIRECT)"
    by (rule indirect_kept [OF ok _ k'(6)]) auto
  have "raws_ok ty k' dev (a(y := b))"
    using file_okD(2) [OF ok] ind sb ny by (simp add: raws_ok_def)
  moreover have "slot_addr ty k' dev (a(y := b)) z = (if z = y then b else slot_addr ty k dev a z)" for z
    using ind sb ny y by (auto simp: slot_addr_def MAXFILE_def)
  ultimately show ?thesis using k' by (auto simp: grown_def)
qed

lemma grown_indirect:
  assumes ok: "file_ok ty k dev a" and a: "a NDIRECT = 0"
    and k': "disk_ok dev k'" "b \<in> free_blocks dev k" "free_blocks dev k' = free_blocks dev k - {b}"
      "data_blocks dev k' = data_blocks dev k" "readsb dev k' = readsb dev k"
      "\<And>dev' c. dev' \<noteq> dev \<or> \<not> bitmap_block (readsb dev k) c \<Longrightarrow> k' dev' c = k dev' c"
  shows "grown ty dev k a MAXFILE b k' (a(NDIRECT := b))"
proof -
  note dk = file_okD(1) [OF ok]
  note sb = free_strip [OF dk k'(2), of ty]
  have "b \<in> data_blocks dev k" using free_subset_data [OF dk] k'(2) by blast
  then have z: "k' dev b = (\<lambda>_. 0)"
    using k'(6) data_block_props(3) [OF dk] free_block_zero [OF dk k'(2)] by simp
  have "raws_ok ty k' dev (a(NDIRECT := b))"
    using file_okD(2) [OF ok] z by (simp add: raws_ok_def)
  moreover have "slot_addr ty k' dev (a(NDIRECT := b)) y = (if y = MAXFILE then b else slot_addr ty k dev a y)" for y
    using z a sb by (simp add: slot_addr_def)
  ultimately show ?thesis using k' by (auto simp: grown_def)
qed

lemma grown_entry:
  assumes ok: "file_ok ty k dev a" and a: "a NDIRECT \<noteq> 0" and j: "j < NINDIRECT"
    and k': "disk_ok dev k'" "b \<in> free_blocks dev k" "free_blocks dev k' = free_blocks dev k - {b}"
      "data_blocks dev k' = data_blocks dev k" "readsb dev k' = readsb dev k"
      "\<And>dev' c. dev' \<noteq> dev \<or> \<not> bitmap_block (readsb dev k) c \<Longrightarrow> k' dev' c = k dev' c"
  shows "grown ty dev k a (NDIRECT + j) b
    (blk_write dev (a NDIRECT) (put32 (k dev (a NDIRECT)) (4 * j) b) k') a"
proof -
  let ?ia = "a NDIRECT"
  let ?d = "put32 (k dev ?ia) (4 * j) b"
  note dk = file_okD(1) [OF ok]
  note sb = free_strip [OF dk k'(2), of ty]
  have ia: "?ia \<in> data_blocks dev k' - free_blocks dev k'"
    using file_okD(3,4) [OF ok, of MAXFILE] a k'(3,4) by auto
  note w = data_block_write [OF k'(1) ia, of ?d]
  have g: "get32 ?d (4 * l) = (if l = j then b else get32 (k dev ?ia) (4 * l))" for l
    by (cases l j rule: linorder_cases) auto
  have "raws_ok ty (blk_write dev ?ia ?d k') dev a"
    using file_okD(2) [OF ok] a sb by (simp add: raws_ok_def g)
  moreover have "slot_addr ty (blk_write dev ?ia ?d k') dev a y = (if y = NDIRECT + j then b else slot_addr ty k dev a y)"
    for y
    using a sb j by (auto simp: slot_addr_def g MAXFILE_def)
  ultimately show ?thesis using w k' a by (auto simp: grown_def)
qed

text \<open>
  The state after file operations on slot \<open>i\<close>: the disk and the addresses of that inode may differ.
\<close>

definition put_file :: "nat \<Rightarrow> disk \<Rightarrow> (nat \<Rightarrow> u32) \<Rightarrow> fs \<Rightarrow> fs" where
  "put_file i k a s = upd_inode i (\<lambda>ip. ip\<lparr>iaddrs := a\<rparr>) (s\<lparr>fdisk := k\<rparr>)"

lemma put_file_simps [simp]:
  "fdisk (put_file i k a s) = k" "icache (put_file i k a s) i = (icache s i)\<lparr>iaddrs := a\<rparr>"
  "j \<noteq> i \<Longrightarrow> icache (put_file i k a s) j = icache s j" "iwakeups (put_file i k a s) = iwakeups s"
  "put_file i k' a' (put_file i k a s) = put_file i k' a' s"
  "(put_file i k a s)\<lparr>fdisk := k'\<rparr> = put_file i k' a s"
  "set_addr i n b (put_file i k a s) = put_file i k (a(n := b)) s"
  by (simp_all add: put_file_def upd_inode_def set_addr_def)

lemma put_file_same: "put_file i (fdisk s) (iaddrs (icache s i)) s = s"
  by (simp add: put_file_def upd_inode_def)

definition evolved :: "u16 \<Rightarrow> u32 \<Rightarrow> disk \<Rightarrow> (nat \<Rightarrow> u32) \<Rightarrow> disk \<Rightarrow> (nat \<Rightarrow> u32) \<Rightarrow> bool" where
  "evolved ty dev k a k' a' \<longleftrightarrow> file_ok ty k' dev a' \<and> data_blocks dev k' = data_blocks dev k \<and>
     readsb dev k' = readsb dev k \<and> free_blocks dev k' = free_blocks dev k - file_blocks ty k' dev a' \<and>
     file_blocks ty k' dev a' \<subseteq> file_blocks ty k dev a \<union> free_blocks dev k \<and>
     (\<forall>dev' c. dev' \<noteq> dev \<or> \<not> bitmap_block (readsb dev k) c \<and> c \<notin> file_blocks ty k' dev a' \<longrightarrow>
        k' dev' c = k dev' c) \<and> file_blocks ty k dev a \<subseteq> file_blocks ty k' dev a' \<and>
     (\<forall>y\<le>MAXFILE. slot_addr ty k dev a y \<noteq> 0 \<longrightarrow> slot_addr ty k' dev a' y = slot_addr ty k dev a y)"

lemma file_blocks_not_free: "file_ok ty k dev a \<Longrightarrow> free_blocks dev k - file_blocks ty k dev a = free_blocks dev k"
  using file_okD(4) [of ty k dev a] by (auto simp: file_blocks_def)

lemma evolved_refl: "file_ok ty k dev a \<Longrightarrow> evolved ty dev k a k a"
  by (simp add: evolved_def file_blocks_not_free)

lemma evolved_trans: "evolved ty dev k a k1 a1 \<Longrightarrow> evolved ty dev k1 a1 k2 a2 \<Longrightarrow> evolved ty dev k a k2 a2"
  unfolding evolved_def by (intro conjI) (auto, (metis subsetD)+)

lemma grown_evolved:
  assumes ok: "file_ok ty k dev a" and g: "grown ty dev k a x b k' a'" and x: "x \<le> MAXFILE" "slot_addr ty k dev a x = 0"
  shows "evolved ty dev k a k' a'"
proof -
  have s: "slot_addr ty k' dev a' y = (if y = x then b else slot_addr ty k dev a y)" if "y \<le> MAXFILE" for y
    using g that by (simp add: grown_def)
  have ok': "file_ok ty k' dev a'" by (rule grown_ok [OF ok g])
  have fb: "file_blocks ty k' dev a' \<subseteq> insert b (file_blocks ty k dev a)" "file_blocks ty k dev a \<subseteq> file_blocks ty k' dev a'"
    using s x by (force simp: file_blocks_def)+
  have "c \<noteq> a' NDIRECT \<or> c = 0" if "c \<notin> file_blocks ty k' dev a'" for c
    using that imageI [of MAXFILE "{..MAXFILE}" "slot_addr ty k' dev a'"] by (auto simp: file_blocks_def)
  moreover have "free_blocks dev k' = free_blocks dev k - file_blocks ty k' dev a'"
  proof -
    have fr: "free_blocks dev k' = free_blocks dev k - {b}" "b \<in> free_blocks dev k" using g by (simp_all add: grown_def)
    have "b \<noteq> 0" using free_strip [OF file_okD(1) [OF ok] fr(2)] by blast
    then have "b \<in> file_blocks ty k' dev a'" using s x(1) by (force simp: file_blocks_def)
    moreover have "c \<notin> free_blocks dev k" if "c \<in> file_blocks ty k dev a" for c
      using that file_okD(4) [OF ok] by (auto simp: file_blocks_def)
    ultimately show ?thesis using fb(1) fr(1) by blast
  qed
  moreover have "\<forall>dev' c. dev' \<noteq> dev \<or> \<not> bitmap_block (readsb dev k) c \<and> c \<notin> file_blocks ty k' dev a' \<longrightarrow> k' dev' c = k dev' c"
    using g calculation(1) unfolding grown_def by metis
  ultimately show ?thesis using g ok' fb x s unfolding evolved_def by (simp add: grown_def) (auto simp: grown_def)
qed

text \<open>The blocks \<open>bmap\<close> may have to allocate besides the one asked for.\<close>

definition needed :: "(nat \<Rightarrow> u32) \<Rightarrow> nat" where
  "needed a = (if a NDIRECT = 0 then 1 else 0)"

text \<open>The file has not changed as a sequence of bytes.\<close>

definition same_bytes :: "u16 \<Rightarrow> u32 \<Rightarrow> disk \<Rightarrow> (nat \<Rightarrow> u32) \<Rightarrow> disk \<Rightarrow> (nat \<Rightarrow> u32) \<Rightarrow> bool" where
  "same_bytes ty dev k a k' a' \<longleftrightarrow>
     (\<forall>p < MAXFILE * BSIZE. file_byte ty k' dev a' p = file_byte ty k dev a p)"

lemma alloc_step:
  assumes ok: "file_ok ty k dev a" and c: "0 < card (free_blocks dev k)"
  obtains b k' where "balloc dev k = Some (b, k')" "disk_ok dev k'" "b \<in> free_blocks dev k"
    "free_blocks dev k' = free_blocks dev k - {b}" "data_blocks dev k' = data_blocks dev k"
    "readsb dev k' = readsb dev k"
    "\<And>dev' c. dev' \<noteq> dev \<or> \<not> bitmap_block (readsb dev k) c \<Longrightarrow> k' dev' c = k dev' c"
    "card (free_blocks dev k') = card (free_blocks dev k) - 1"
proof -
  have "free_blocks dev k \<noteq> {}" using c by auto
  from balloc_data [OF file_okD(1) [OF ok] this] obtain b k' where
    "balloc dev k = Some (b, k')" "disk_ok dev k'" "b \<in> free_blocks dev k"
    "free_blocks dev k' = free_blocks dev k - {b}" "data_blocks dev k' = data_blocks dev k"
    "readsb dev k' = readsb dev k"
    "\<And>dev' c. dev' \<noteq> dev \<or> \<not> bitmap_block (readsb dev k) c \<Longrightarrow> k' dev' c = k dev' c"
    by metis
  then show ?thesis using that by simp
qed

lemma raw_slot:
  assumes "file_ok ty k dev a" "y < MAXFILE" "y < NDIRECT \<or> a NDIRECT \<noteq> 0"
  shows "slot_addr ty k dev a y = strip ty (raw_addr k dev a y)"
    "raw_addr k dev a y = 0 \<longleftrightarrow> slot_addr ty k dev a y = 0"
proof -
  show "slot_addr ty k dev a y = strip ty (raw_addr k dev a y)"
    using assms by (auto simp: slot_addr_def raw_addr_def)
  then show "raw_addr k dev a y = 0 \<longleftrightarrow> slot_addr ty k dev a y = 0"
  proof (cases "y < NDIRECT")
    case True
    then show ?thesis using file_okD(2) [OF assms(1)] \<open>slot_addr ty k dev a y = strip ty (raw_addr k dev a y)\<close>
      by (auto simp: raws_ok_def raw_addr_def)
  next
    case False
    then have "y - NDIRECT < NINDIRECT" using assms(2) by (simp add: MAXFILE_def)
    then show ?thesis
      using file_okD(2) [OF assms(1)] \<open>slot_addr ty k dev a y = strip ty (raw_addr k dev a y)\<close> False assms(3)
      by (auto simp: raws_ok_def raw_addr_def)
  qed
qed

definition view :: "fs \<Rightarrow> nat \<Rightarrow> u16 \<Rightarrow> u32 \<Rightarrow> disk \<Rightarrow> (nat \<Rightarrow> u32) \<Rightarrow> bool" where
  "view s i ty dev k a \<longleftrightarrow> itype (icache s i) = ty \<and> idev (icache s i) = dev \<and> fdisk s = k \<and> iaddrs (icache s i) = a"

lemma view_put_file [simp]: "view s i ty dev k a \<Longrightarrow> view (put_file i k' a' s) i ty dev k' a'"
  by (simp add: view_def)

lemma view_put_file_same: "view s i ty dev k a \<Longrightarrow> put_file i k a s = s"
  by (auto simp: view_def put_file_same)

lemma bmap_direct:
  assumes v: "view s i ty dev k a" and ok: "file_ok ty k dev a"
    and bn: "bn < NDIRECT" and room: "1 \<le> card (free_blocks dev k)"
  shows "\<exists>k' a'. bmap i bn s = Some (slot_addr ty k' dev a' bn, put_file i k' a' s) \<and>
    slot_addr ty k' dev a' bn \<noteq> 0 \<and> evolved ty dev k a k' a' \<and> same_bytes ty dev k a k' a' \<and>
    card (free_blocks dev k) \<le> card (free_blocks dev k') + 1 \<and> a' NDIRECT = a NDIRECT"
proof (cases "a bn = 0")
  case True
  obtain b k' where bk: "balloc dev k = Some (b, k')" "disk_ok dev k'" "b \<in> free_blocks dev k"
    "free_blocks dev k' = free_blocks dev k - {b}" "data_blocks dev k' = data_blocks dev k"
    "readsb dev k' = readsb dev k"
    "\<And>dev' c. dev' \<noteq> dev \<or> \<not> bitmap_block (readsb dev k) c \<Longrightarrow> k' dev' c = k dev' c"
    "card (free_blocks dev k') = card (free_blocks dev k) - 1"
    using alloc_step [OF ok] room by (metis One_nat_def Suc_le_eq)
  note g = grown_direct [OF ok bn bk(2-7)]
  have x: "bn \<le> MAXFILE" "slot_addr ty k dev a bn = 0"
    using bn True by (simp_all add: MAXFILE_def slot_addr_def)
  have sl: "slot_addr ty k' dev (a(bn := b)) bn = b" using g x by (simp add: grown_def)
  have "strip ty b = b" "b \<noteq> 0" using free_strip [OF file_okD(1) [OF ok] bk(3)] by auto
  then have "bmap i bn s = Some (slot_addr ty k' dev (a(bn := b)) bn, put_file i k' (a(bn := b)) s)"
    using v bn True bk(1) sl by (auto simp: view_def bmap_def Let_def put_file_def set_addr_def upd_inode_def)
  then show ?thesis
    using grown_evolved [OF ok g x] grown_bytes [OF ok g x(2)] bk(8) sl \<open>b \<noteq> 0\<close> bn
    by (intro exI [of _ k'] exI [of _ "a(bn := b)"]) (auto simp: same_bytes_def)
next
  case False
  then have "slot_addr ty k dev a bn \<noteq> 0" "bmap i bn s = Some (slot_addr ty k dev a bn, put_file i k a s)"
    using v bn file_okD(2) [OF ok] view_put_file_same [OF v]
    by (auto simp: view_def bmap_def Let_def slot_addr_def raws_ok_def MAXFILE_def)
  then show ?thesis using evolved_refl [OF ok]
    by (intro exI [of _ k] exI [of _ a]) (auto simp: same_bytes_def)
qed

text \<open>The first half of the indirect case: the indirect block is there afterwards.\<close>

lemma bmap_indirect_block:
  assumes v: "view s i ty dev k a" and ok: "file_ok ty k dev a" and room: "needed a \<le> card (free_blocks dev k)"
  shows "\<exists>k' a'. (if a NDIRECT = 0 then do {
            (b, k') \<leftarrow> balloc dev k; Some (b, set_addr i NDIRECT b (s\<lparr>fdisk := k'\<rparr>))
          } else Some (a NDIRECT, s)) = Some (a' NDIRECT, put_file i k' a' s) \<and>
    a' NDIRECT \<noteq> 0 \<and> evolved ty dev k a k' a' \<and> same_bytes ty dev k a k' a' \<and>
    card (free_blocks dev k) \<le> card (free_blocks dev k') + needed a"
proof (cases "a NDIRECT = 0")
  case True
  then have "0 < card (free_blocks dev k)" using room by (simp add: needed_def)
  then obtain b k' where bk: "balloc dev k = Some (b, k')" "disk_ok dev k'" "b \<in> free_blocks dev k"
    "free_blocks dev k' = free_blocks dev k - {b}" "data_blocks dev k' = data_blocks dev k"
    "readsb dev k' = readsb dev k"
    "\<And>dev' c. dev' \<noteq> dev \<or> \<not> bitmap_block (readsb dev k) c \<Longrightarrow> k' dev' c = k dev' c"
    "card (free_blocks dev k') = card (free_blocks dev k) - 1"
    using alloc_step [OF ok] by metis
  note g = grown_indirect [OF ok True bk(2-7)]
  have x: "MAXFILE \<le> MAXFILE" "slot_addr ty k dev a MAXFILE = 0" using True by simp_all
  have "b \<noteq> 0" using free_strip [OF file_okD(1) [OF ok] bk(3)] by auto
  then show ?thesis
    using v bk(1,8) True grown_evolved [OF ok g x] grown_bytes [OF ok g x(2)]
    by (intro exI [of _ k'] exI [of _ "a(NDIRECT := b)"])
      (auto simp: view_def needed_def same_bytes_def put_file_def set_addr_def upd_inode_def)
next
  case False
  then show ?thesis using evolved_refl [OF ok] view_put_file_same [OF v]
    by (intro exI [of _ k] exI [of _ a]) (auto simp: same_bytes_def)
qed

lemma bmap_entry:
  assumes v: "view s i ty dev k a" and ok: "file_ok ty k dev a" and j: "j < NINDIRECT" and a: "a NDIRECT \<noteq> 0"
    and room: "1 \<le> card (free_blocks dev k)"
  shows "\<exists>k' b. (if get32 (k dev (a NDIRECT)) (4 * j) = 0 then do {
            (b, k') \<leftarrow> balloc dev k;
            Some (b, s\<lparr>fdisk := blk_write dev (a NDIRECT) (put32 (k dev (a NDIRECT)) (4 * j) b) k'\<rparr>)
          } else Some (get32 (k dev (a NDIRECT)) (4 * j), s)) = Some (b, put_file i k' a s) \<and>
    strip ty b = slot_addr ty k' dev a (NDIRECT + j) \<and> slot_addr ty k' dev a (NDIRECT + j) \<noteq> 0 \<and>
    evolved ty dev k a k' a \<and> same_bytes ty dev k a k' a \<and>
    card (free_blocks dev k) \<le> card (free_blocks dev k') + 1"
proof (cases "get32 (k dev (a NDIRECT)) (4 * j) = 0")
  case True
  obtain b k1 where bk: "balloc dev k = Some (b, k1)" "disk_ok dev k1" "b \<in> free_blocks dev k"
    "free_blocks dev k1 = free_blocks dev k - {b}" "data_blocks dev k1 = data_blocks dev k"
    "readsb dev k1 = readsb dev k"
    "\<And>dev' c. dev' \<noteq> dev \<or> \<not> bitmap_block (readsb dev k) c \<Longrightarrow> k1 dev' c = k dev' c"
    "card (free_blocks dev k1) = card (free_blocks dev k) - 1"
    using alloc_step [OF ok] room by (metis One_nat_def Suc_le_eq)
  note g = grown_entry [OF ok a j bk(2-7)]
  have x: "NDIRECT + j \<le> MAXFILE" "slot_addr ty k dev a (NDIRECT + j) = 0"
    using j True by (simp_all add: MAXFILE_def slot_addr_def)
  let ?k' = "blk_write dev (a NDIRECT) (put32 (k dev (a NDIRECT)) (4 * j) b) k1"
  have sl: "slot_addr ty ?k' dev a (NDIRECT + j) = b" "free_blocks dev ?k' = free_blocks dev k - {b}"
    using g x by (simp_all add: grown_def)
  have "strip ty b = b" "b \<noteq> 0" using free_strip [OF file_okD(1) [OF ok] bk(3)] by auto
  moreover have "s\<lparr>fdisk := ?k'\<rparr> = put_file i ?k' a s"
    using v by (auto simp: view_def put_file_def upd_inode_def)
  ultimately show ?thesis
    using bk(1,3,4,8) True grown_evolved [OF ok g x] grown_bytes [OF ok g x(2)] sl
    by (intro exI [of _ ?k'] exI [of _ b]) (auto simp: same_bytes_def)
next
  case False
  have "NDIRECT + j < MAXFILE" using j by (simp add: MAXFILE_def)
  from raw_slot [OF ok this] False a evolved_refl [OF ok] view_put_file_same [OF v] show ?thesis
    by (intro exI [of _ k] exI [of _ "get32 (k dev (a NDIRECT)) (4 * j)"]) (auto simp: raw_addr_def same_bytes_def)
qed

lemma same_bytes_trans:
  "same_bytes ty dev k a k1 a1 \<Longrightarrow> same_bytes ty dev k1 a1 k2 a2 \<Longrightarrow> same_bytes ty dev k a k2 a2"
  by (simp add: same_bytes_def)

lemma evolved_ok: "evolved ty dev k a k' a' \<Longrightarrow> file_ok ty k' dev a'"
  by (simp add: evolved_def)

lemma bmap_spec:
  assumes v: "view s i ty dev k a" and ok: "file_ok ty k dev a" and bn: "bn < MAXFILE"
    and room: "1 + needed a \<le> card (free_blocks dev k)"
  shows "\<exists>k' a'. bmap i bn s = Some (slot_addr ty k' dev a' bn, put_file i k' a' s) \<and>
    slot_addr ty k' dev a' bn \<noteq> 0 \<and> evolved ty dev k a k' a' \<and> same_bytes ty dev k a k' a' \<and>
    card (free_blocks dev k) + needed a' \<le> card (free_blocks dev k') + needed a + 1"
proof (cases "bn < NDIRECT")
  case True
  have "1 \<le> card (free_blocks dev k)" using room by simp
  from bmap_direct [OF v ok True this] obtain k' a' where
    "bmap i bn s = Some (slot_addr ty k' dev a' bn, put_file i k' a' s)" "slot_addr ty k' dev a' bn \<noteq> 0"
    "evolved ty dev k a k' a'" "same_bytes ty dev k a k' a'"
    "card (free_blocks dev k) \<le> card (free_blocks dev k') + 1" "a' NDIRECT = a NDIRECT" by blast
  then show ?thesis by (intro exI [of _ k'] exI [of _ a']) (simp add: needed_def)
next
  case False
  let ?j = "bn - NDIRECT"
  have j: "?j < NINDIRECT" "NDIRECT + ?j = bn" using bn False by (auto simp: MAXFILE_def)
  have "needed a \<le> card (free_blocks dev k)" using room by simp
  from bmap_indirect_block [OF v ok this] obtain k1 a1 where
    1: "(if a NDIRECT = 0 then do {
            (b, k') \<leftarrow> balloc dev k; Some (b, set_addr i NDIRECT b (s\<lparr>fdisk := k'\<rparr>))
          } else Some (a NDIRECT, s)) = Some (a1 NDIRECT, put_file i k1 a1 s)"
    and 2: "a1 NDIRECT \<noteq> 0" "evolved ty dev k a k1 a1" "same_bytes ty dev k a k1 a1"
      "card (free_blocks dev k) \<le> card (free_blocks dev k1) + needed a" by blast
  have "1 \<le> card (free_blocks dev k1)" using 2(4) room by simp
  from bmap_entry [OF view_put_file [OF v] evolved_ok [OF 2(2)] j(1) 2(1) this]
  obtain k2 b where 3: "(if get32 (k1 dev (a1 NDIRECT)) (4 * ?j) = 0 then do {
            (b, k') \<leftarrow> balloc dev k1;
            Some (b, (put_file i k1 a1 s)\<lparr>fdisk := blk_write dev (a1 NDIRECT) (put32 (k1 dev (a1 NDIRECT)) (4 * ?j) b) k'\<rparr>)
          } else Some (get32 (k1 dev (a1 NDIRECT)) (4 * ?j), put_file i k1 a1 s)) = Some (b, put_file i k2 a1 s)"
    and 4: "strip ty b = slot_addr ty k2 dev a1 bn" "slot_addr ty k2 dev a1 bn \<noteq> 0" "evolved ty dev k1 a1 k2 a1"
      "same_bytes ty dev k1 a1 k2 a1" "card (free_blocks dev k1) \<le> card (free_blocks dev k2) + 1"
    unfolding j(2) put_file_simps by blast
  have vv: "itype (icache s i) = ty" "idev (icache s i) = dev" "fdisk s = k" "iaddrs (icache s i) = a"
    using v by (simp_all add: view_def)
  have "bmap i bn s = Some (slot_addr ty k2 dev a1 bn, put_file i k2 a1 s)"
    unfolding bmap_def Let_def vv 1
    by (simp only: False j(1) if_False if_True Option.bind.simps(2) prod.case put_file_simps(1) 3 4(1))
  moreover have "needed a1 = 0" using 2(1) by (simp add: needed_def)
  ultimately show ?thesis
    using 4(2) evolved_trans [OF 2(2) 4(3)] same_bytes_trans [OF 2(3) 4(4)] 2(4) 4(5)
    by (intro exI [of _ k2] exI [of _ a1]) simp
qed

section \<open>Storing a block\<close>

lemma slot_not_indirect:
  "\<lbrakk>file_ok ty k dev a; y < MAXFILE; slot_addr ty k dev a y \<noteq> 0\<rbrakk> \<Longrightarrow> slot_addr ty k dev a y \<noteq> a NDIRECT"
  using file_okD(5) [of ty k dev a y MAXFILE] by auto

lemma rewrite_evolved:
  assumes ok: "file_ok ty k dev a" and b: "b \<in> file_blocks ty k dev a"
    and r: "raws_ok ty (blk_write dev b d k) dev a"
    and s: "\<And>z. slot_addr ty (blk_write dev b d k) dev a z = slot_addr ty k dev a z"
  shows "evolved ty dev k a (blk_write dev b d k) a" "free_blocks dev (blk_write dev b d k) = free_blocks dev k"
proof -
  let ?k = "blk_write dev b d k"
  have bd: "b \<in> data_blocks dev k - free_blocks dev k"
    using b file_okD(3,4) [OF ok] by (auto simp: file_blocks_def)
  note w = data_block_write [OF file_okD(1) [OF ok] bd, of d]
  have ok': "file_ok ty ?k dev a" using ok w r unfolding file_ok_def s by simp
  have fb: "file_blocks ty ?k dev a = file_blocks ty k dev a" by (simp add: file_blocks_def s)
  have "?k dev' c = k dev' c" if "dev' \<noteq> dev \<or> c \<notin> file_blocks ty k dev a" for dev' c
    using that b by (intro blk_write_other) blast
  then show "evolved ty dev k a ?k a"
    using ok' w fb s file_blocks_not_free [OF ok] unfolding evolved_def by simp
  show "free_blocks dev ?k = free_blocks dev k" by (rule w(3))
qed

lemma store_block:
  assumes ok: "file_ok ty k dev a" and y: "y < MAXFILE" and nz: "slot_addr ty k dev a y \<noteq> 0"
  shows "evolved ty dev k a (blk_write dev (slot_addr ty k dev a y) d k) a"
    "free_blocks dev (blk_write dev (slot_addr ty k dev a y) d k) = free_blocks dev k"
    "p < MAXFILE * BSIZE \<Longrightarrow> file_byte ty (blk_write dev (slot_addr ty k dev a y) d k) dev a p =
      (if p div BSIZE = y then d (p mod BSIZE) else file_byte ty k dev a p)"
proof -
  let ?b = "slot_addr ty k dev a y"
  let ?k = "blk_write dev ?b d k"
  have y': "y \<le> MAXFILE" using y by simp
  have ni: "?b \<noteq> a NDIRECT" by (rule slot_not_indirect [OF ok y nz])
  have ind: "?k dev (a NDIRECT) = k dev (a NDIRECT)" using ni by simp
  have s: "slot_addr ty ?k dev a z = slot_addr ty k dev a z" for z
    by (rule slot_addr_cong) (simp_all add: ind)
  have r: "raws_ok ty ?k dev a" using file_okD(2) [OF ok] by (simp add: raws_ok_def ind)
  have "?b \<in> file_blocks ty k dev a" using y' nz by (auto simp: file_blocks_def)
  from rewrite_evolved [OF ok this r s]
  show "evolved ty dev k a ?k a" "free_blocks dev ?k = free_blocks dev k" .
  show "file_byte ty ?k dev a p = (if p div BSIZE = y then d (p mod BSIZE) else file_byte ty k dev a p)"
    if "p < MAXFILE * BSIZE"
  proof (cases "p div BSIZE = y")
    case True
    then show ?thesis using nz by (simp add: file_byte_def s Let_def)
  next
    case False
    moreover have "slot_addr ty k dev a (p div BSIZE) \<noteq> ?b"
      using file_okD(5) [OF ok, of y "p div BSIZE"] nz y' less_MAXFILE_block [OF that] False by auto
    ultimately show ?thesis by (simp add: file_byte_def s Let_def)
  qed
qed

lemma strip_checksum: "strip T_CHECKED (x AND 0x00ffffff OR push_bit 24 c) = strip T_CHECKED x"
proof -
  have m: "(0x00ffffff :: u32) = mask 24" by (simp add: mask_eq_exp_minus_1)
  show ?thesis unfolding strip_def m by (simp add: bit_eq_iff) (auto simp: bit_simps)
qed

lemma drop_checksum: "drop_bit 24 ((x AND 0x00ffffff OR push_bit 24 (ucast (c :: u8))) AND 0xff000000) = (ucast c :: u32)"
proof -
  have m: "(0x00ffffff :: u32) = mask 24" by (simp add: mask_eq_exp_minus_1)
  have "(0xff000000 :: u32) = push_bit 24 (mask 8)" by (simp add: mask_eq_exp_minus_1 push_bit_eq_mult)
  moreover have "bit (push_bit 24 (mask 8) :: u32) n \<longleftrightarrow> 24 \<le> n \<and> n < 32" for n
    by (simp only: bit_push_bit_iff bit_mask_iff) auto
  ultimately have h: "bit (0xff000000 :: u32) n \<longleftrightarrow> 24 \<le> n \<and> n < 32" for n
    by (simp only:)
  have c8: "bit c n \<Longrightarrow> n < 8" for n using bit_imp_le_length [of c n] by simp
  show ?thesis unfolding m
    by (rule bit_word_eqI, simp only: bit_drop_bit_eq comp_def bit_and_iff bit_or_iff bit_push_bit_iff
        bit_mask_iff h bit_unsigned_iff)
      (auto dest: c8)
qed

text \<open>Recording a checksum changes the upper byte of an address and nothing that the file consists of.\<close>

lemma put_checksum_spec:
  assumes v: "view s i T_CHECKED dev k a" and ok: "file_ok T_CHECKED k dev a" and y: "y < MAXFILE"
    and nz: "slot_addr T_CHECKED k dev a y \<noteq> 0"
  shows "\<exists>k' a'. put_checksum i y c s = put_file i k' a' s \<and> evolved T_CHECKED dev k a k' a' \<and>
    same_bytes T_CHECKED dev k a k' a' \<and> free_blocks dev k' = free_blocks dev k \<and>
    (\<forall>z. slot_addr T_CHECKED k' dev a' z = slot_addr T_CHECKED k dev a z) \<and> needed a' = needed a \<and>
    drop_bit 24 (raw_addr k' dev a' y AND 0xff000000) = ucast c \<and>
    (\<forall>z<MAXFILE. z \<noteq> y \<longrightarrow> raw_addr k' dev a' z = raw_addr k dev a z)"
proof (cases "y < NDIRECT")
  case True
  let ?a = "a(y := a y AND 0x00ffffff OR push_bit 24 (ucast c))"
  have nd: "?a NDIRECT = a NDIRECT" using True by simp
  have s: "slot_addr T_CHECKED k dev ?a z = slot_addr T_CHECKED k dev a z" for z
    using True strip_checksum [of "a y" "ucast c"] by (auto simp: slot_addr_def MAXFILE_def)
  have "raws_ok T_CHECKED k dev ?a"
    using file_okD(2) [OF ok] nz True strip_checksum [of "a y" "ucast c"]
    by (auto simp: raws_ok_def slot_addr_def MAXFILE_def)
  then have "file_ok T_CHECKED k dev ?a" using ok unfolding file_ok_def s by simp
  then have "evolved T_CHECKED dev k a k ?a"
    using file_blocks_not_free [OF ok] by (simp add: evolved_def file_blocks_def s)
  moreover have "put_checksum i y c s = put_file i k ?a s"
    using True v by (auto simp: put_checksum_def Let_def view_def put_file_def set_addr_def upd_inode_def)
  ultimately show ?thesis using drop_checksum True
    by (intro exI [of _ k] exI [of _ ?a]) (auto simp: same_bytes_def file_byte_def s needed_def raw_addr_def)
next
  case False
  let ?j = "y - NDIRECT" and ?ia = "a NDIRECT"
  let ?v = "get32 (k dev ?ia) (4 * ?j) AND 0x00ffffff OR push_bit 24 (ucast c)"
  let ?k = "blk_write dev ?ia (put32 (k dev ?ia) (4 * ?j) ?v) k"
  have j: "?j < NINDIRECT" using y False by (simp add: MAXFILE_def)
  have ia: "?ia \<noteq> 0" using nz False y by (auto simp: slot_addr_def split: if_splits)
  have g: "get32 (?k dev ?ia) (4 * l) = (if l = ?j then ?v else get32 (k dev ?ia) (4 * l))" for l
    by (cases l ?j rule: linorder_cases) auto
  have st: "strip T_CHECKED (get32 (?k dev ?ia) (4 * l)) = strip T_CHECKED (get32 (k dev ?ia) (4 * l))" for l
    unfolding g using strip_checksum by simp
  have s: "slot_addr T_CHECKED ?k dev a z = slot_addr T_CHECKED k dev a z" for z
    by (simp only: slot_addr_def st)
  have snz: "strip T_CHECKED (get32 (k dev ?ia) (4 * ?j)) \<noteq> 0"
    using nz False y by (auto simp: slot_addr_def split: if_splits)
  have r: "raws_ok T_CHECKED ?k dev a"
    using file_okD(2) [OF ok] snz unfolding raws_ok_def st unfolding g by auto
  have "?ia \<in> file_blocks T_CHECKED k dev a"
    using ia imageI [of MAXFILE "{..MAXFILE}" "slot_addr T_CHECKED k dev a"] by (simp add: file_blocks_def)
  note w = rewrite_evolved [OF ok this r s]
  have "put_checksum i y c s = put_file i ?k a s"
    using False j v by (auto simp: put_checksum_def Let_def view_def put_file_def upd_inode_def)
  moreover have "same_bytes T_CHECKED dev k a ?k a"
    unfolding same_bytes_def file_byte_def s Let_def
  proof (intro allI impI)
    fix p assume p: "p < MAXFILE * BSIZE"
    show "(if slot_addr T_CHECKED k dev a (p div BSIZE) = 0 then 0
        else ?k dev (slot_addr T_CHECKED k dev a (p div BSIZE)) (p mod BSIZE)) =
      (if slot_addr T_CHECKED k dev a (p div BSIZE) = 0 then 0
        else k dev (slot_addr T_CHECKED k dev a (p div BSIZE)) (p mod BSIZE))"
      using slot_not_indirect [OF ok less_MAXFILE_block [OF p]] by simp
  qed
  ultimately show ?thesis using w s drop_checksum False g
    by (intro exI [of _ ?k] exI [of _ a]) (auto simp: raw_addr_def)
qed

section \<open>The loops of \<open>readi\<close> and \<open>writei\<close>\<close>

text \<open>The number of blocks that \<open>r\<close> bytes from offset \<open>off\<close> on lie in.\<close>

definition touched :: "nat \<Rightarrow> nat \<Rightarrow> nat" where
  "touched off r = (if r = 0 then 0 else (off mod BSIZE + r + BSIZE - 1) div BSIZE)"

lemma touched_step:
  assumes "0 < r" "m = min r (BSIZE - off mod BSIZE)"
  shows "touched off r = Suc (touched (off + m) (r - m))" "0 < m" "m \<le> r" "off mod BSIZE + m \<le> BSIZE"
proof -
  have B: "off mod BSIZE < BSIZE" "0 < BSIZE" by (simp_all add: BSIZE_def)
  show "0 < m" "m \<le> r" "off mod BSIZE + m \<le> BSIZE" using assms B by linarith+
  show "touched off r = Suc (touched (off + m) (r - m))"
  proof (cases "r \<le> BSIZE - off mod BSIZE")
    case True
    then have "(off mod BSIZE + r + BSIZE - 1) div BSIZE = 1"
      using assms B by (intro div_nat_eqI) auto
    then show ?thesis using True assms by (simp add: touched_def)
  next
    case False
    then have m: "m = BSIZE - off mod BSIZE" using assms by simp
    have "off + m = off div BSIZE * BSIZE + BSIZE"
      using m B div_mult_mod_eq [of off BSIZE] by linarith
    then have "off + m = (off div BSIZE + 1) * BSIZE" by simp
    then have z: "(off + m) mod BSIZE = 0" by (metis mod_mult_self2_is_0)
    have e: "off mod BSIZE + r + BSIZE - 1 = (r - m + BSIZE - 1) + BSIZE" and lt: "r - m \<noteq> 0"
      using m False B by linarith+
    have "touched off r = (r - m + BSIZE - 1) div BSIZE + 1"
      using assms(1) B(2) div_add_self2 [of BSIZE "r - m + BSIZE - 1"] unfolding touched_def e by simp
    then show ?thesis using lt by (simp add: touched_def z)
  qed
qed

lemma next_block:
  assumes "0 < r" "m = min r (BSIZE - off mod BSIZE)" "off + r \<le> MAXFILE * BSIZE"
  shows "off div BSIZE < MAXFILE" "off + m + (r - m) \<le> MAXFILE * BSIZE"
    "p div BSIZE = off div BSIZE \<and> off mod BSIZE \<le> p mod BSIZE \<and> p mod BSIZE < off mod BSIZE + m \<longleftrightarrow>
       off \<le> p \<and> p < off + m"
    "off \<le> p \<Longrightarrow> p < off + m \<Longrightarrow> p mod BSIZE - off mod BSIZE = p - off"
proof -
  note t = touched_step [OF assms(1,2)]
  show "off div BSIZE < MAXFILE" by (rule less_MAXFILE_block) (use assms in linarith)
  show "off + m + (r - m) \<le> MAXFILE * BSIZE" using assms(3) t(3) by linarith
  have off: "off = off div BSIZE * BSIZE + off mod BSIZE" and p: "p = p div BSIZE * BSIZE + p mod BSIZE" by simp_all
  have B: "off mod BSIZE < BSIZE" "p mod BSIZE < BSIZE" by (simp_all add: BSIZE_def)
  have blk: "p div BSIZE = off div BSIZE" if "off \<le> p" "p < off + m"
  proof (rule div_nat_eqI)
    show "BSIZE * (off div BSIZE) \<le> p" using that(1) off by (metis le_add1 le_trans mult.commute)
    have "p < off div BSIZE * BSIZE + BSIZE" using that(2) off t(4) by linarith
    then show "p < BSIZE * Suc (off div BSIZE)" by (simp add: mult.commute)
  qed
  show "p div BSIZE = off div BSIZE \<and> off mod BSIZE \<le> p mod BSIZE \<and> p mod BSIZE < off mod BSIZE + m \<longleftrightarrow>
       off \<le> p \<and> p < off + m"
    using off p blk by (metis (no_types, lifting) add_le_cancel_left group_cancel.add1 nat_add_left_cancel_less)
  show "p mod BSIZE - off mod BSIZE = p - off" if "off \<le> p" "p < off + m"
    using blk [OF that] off p by (metis diff_cancel2 add.commute)
qed

definition checksum_of :: "disk \<Rightarrow> u32 \<Rightarrow> (nat \<Rightarrow> u32) \<Rightarrow> nat \<Rightarrow> u32" where
  "checksum_of k dev a y = drop_bit 24 (raw_addr k dev a y AND 0xff000000)"

text \<open>The store of one iteration of \<open>writei\<close>: checksum, then data.\<close>

lemma store_step:
  assumes v: "view s i ty dev k a" and ok: "file_ok ty k dev a" and y: "y < MAXFILE"
    and nz: "slot_addr ty k dev a y \<noteq> 0"
  shows "\<exists>k' a'. write_out i y (slot_addr ty k dev a y) d nb s = put_file i k' a' s \<and>
    evolved ty dev k a k' a' \<and> free_blocks dev k' = free_blocks dev k \<and> needed a' = needed a \<and>
    (\<forall>p < MAXFILE * BSIZE. file_byte ty k' dev a' p =
       (if p div BSIZE = y then d (p mod BSIZE) else file_byte ty k dev a p)) \<and>
    slot_addr ty k' dev a' y = slot_addr ty k dev a y \<and> k' dev (slot_addr ty k dev a y) = d \<and>
    (ty = T_CHECKED \<longrightarrow> checksum_of k' dev a' y = ucast (xor_bytes d nb))"
proof (cases "ty = T_CHECKED")
  case True
  let ?c = "xor_bytes d nb"
  have vv: "itype (icache s i) = ty" "idev (icache s i) = dev" using v by (simp_all add: view_def)
  from put_checksum_spec [of s i dev k a y ?c] v ok y nz True obtain k1 a1 where
    1: "put_checksum i y ?c s = put_file i k1 a1 s" "evolved ty dev k a k1 a1" "same_bytes ty dev k a k1 a1"
      "free_blocks dev k1 = free_blocks dev k" "\<forall>z. slot_addr ty k1 dev a1 z = slot_addr ty k dev a z"
      "needed a1 = needed a" "drop_bit 24 (raw_addr k1 dev a1 y AND 0xff000000) = ucast ?c" by auto
  have nz1: "slot_addr ty k1 dev a1 y \<noteq> 0" using nz 1(5) by simp
  note st = store_block [OF evolved_ok [OF 1(2)] y nz1, where d = d]
  let ?k = "blk_write dev (slot_addr ty k1 dev a1 y) d k1"
  have ind: "?k dev (a1 NDIRECT) = k1 dev (a1 NDIRECT)"
    using slot_not_indirect [OF evolved_ok [OF 1(2)] y nz1] by simp
  have "slot_addr ty ?k dev a1 y = slot_addr ty k1 dev a1 y" by (rule slot_addr_cong) (simp_all add: ind)
  moreover have "raw_addr ?k dev a1 y = raw_addr k1 dev a1 y" by (simp only: raw_addr_def ind)
  moreover have "evolved ty dev k a ?k a1" by (rule evolved_trans [OF 1(2) st(1)])
  ultimately show ?thesis
    using True 1 st(2,3) by (intro exI [of _ ?k] exI [of _ a1]) (simp add: write_out_def vv same_bytes_def checksum_of_def)
next
  case False
  note st = store_block [OF ok y nz, where d = d]
  let ?k = "blk_write dev (slot_addr ty k dev a y) d k"
  have ind: "?k dev (a NDIRECT) = k dev (a NDIRECT)" using slot_not_indirect [OF ok y nz] by simp
  have "slot_addr ty ?k dev a y = slot_addr ty k dev a y" by (rule slot_addr_cong) (simp_all add: ind)
  moreover have "s\<lparr>fdisk := ?k\<rparr> = put_file i ?k a s" using v by (auto simp: view_def put_file_def upd_inode_def)
  moreover have "fdisk s = k" "itype (icache s i) = ty" "idev (icache s i) = dev" using v by (simp_all add: view_def)
  ultimately show ?thesis
    using False st by (intro exI [of _ ?k] exI [of _ a]) (simp add: write_out_def)
qed

lemma write_block:
  assumes v: "view s i ty dev k a" and ok: "file_ok ty k dev a" and r: "0 < r"
    and m: "m = min r (BSIZE - off mod BSIZE)" and off: "off + r \<le> MAXFILE * BSIZE"
    and room: "1 + needed a \<le> card (free_blocks dev k)"
  shows "\<exists>k' a'. writei_loop i src nb off tot r s = writei_loop i src nb (off + m) (tot + m) (r - m) (put_file i k' a' s) \<and>
    evolved ty dev k a k' a' \<and> card (free_blocks dev k) + needed a' \<le> card (free_blocks dev k') + needed a + 1 \<and>
    (\<forall>p < MAXFILE * BSIZE. file_byte ty k' dev a' p =
       (if off \<le> p \<and> p < off + m then src (tot + (p - off)) else file_byte ty k dev a p)) \<and>
    slot_addr ty k' dev a' (off div BSIZE) \<noteq> 0 \<and>
    (ty = T_CHECKED \<longrightarrow> checksum_of k' dev a' (off div BSIZE) =
       ucast (xor_bytes (k' dev (slot_addr ty k' dev a' (off div BSIZE))) nb))"
proof -
  let ?y = "off div BSIZE"
  note nb = next_block [OF r m off]
  from bmap_spec [OF v ok nb(1) room] obtain k1 a1 where
    1: "bmap i ?y s = Some (slot_addr ty k1 dev a1 ?y, put_file i k1 a1 s)" "slot_addr ty k1 dev a1 ?y \<noteq> 0"
      "evolved ty dev k a k1 a1" "same_bytes ty dev k a k1 a1"
      "card (free_blocks dev k) + needed a1 \<le> card (free_blocks dev k1) + needed a + 1" by blast
  let ?b = "slot_addr ty k1 dev a1 ?y"
  define d where "d = overlay (k1 dev ?b) (off mod BSIZE) m (\<lambda>j. src (tot + j))"
  from store_step [OF view_put_file [OF v] evolved_ok [OF 1(3)] nb(1) 1(2), where d = d and nb = nb]
  obtain k2 a2 where
    2: "write_out i ?y ?b d nb (put_file i k1 a1 s) = put_file i k2 a2 s"
      "evolved ty dev k1 a1 k2 a2" "free_blocks dev k2 = free_blocks dev k1" "needed a2 = needed a1"
      "\<And>p. p < MAXFILE * BSIZE \<Longrightarrow> file_byte ty k2 dev a2 p =
         (if p div BSIZE = ?y then d (p mod BSIZE) else file_byte ty k1 dev a1 p)"
      "slot_addr ty k2 dev a2 ?y = ?b" "k2 dev ?b = d" "ty = T_CHECKED \<Longrightarrow> checksum_of k2 dev a2 ?y = ucast (xor_bytes d nb)"
    unfolding put_file_simps by blast
  have vv: "itype (icache s i) = ty" "idev (icache s i) = dev" using v by (simp_all add: view_def)
  have e: "writei_loop i src nb off tot r s = writei_loop i src nb (off + m) (tot + m) (r - m) (put_file i k2 a2 s)"
    using r 2(1) by (subst writei_loop.simps) (simp add: 1(1) vv flip: m d_def)
  have bytes: "file_byte ty k2 dev a2 p = (if off \<le> p \<and> p < off + m then src (tot + (p - off)) else file_byte ty k dev a p)"
    if p: "p < MAXFILE * BSIZE" for p
  proof -
    have k1: "file_byte ty k1 dev a1 p = file_byte ty k dev a p" using 1(4) p by (simp add: same_bytes_def)
    have "p div BSIZE = ?y \<Longrightarrow> k1 dev ?b (p mod BSIZE) = file_byte ty k1 dev a1 p"
      using 1(2) by (simp add: file_byte_def Let_def)
    then show ?thesis
      using 2(5) [OF p] nb(3) [of p] nb(4) [of p] k1 by (auto simp: d_def overlay_def)
  qed
  have ck: "ty = T_CHECKED \<longrightarrow> checksum_of k2 dev a2 ?y = ucast (xor_bytes (k2 dev (slot_addr ty k2 dev a2 ?y)) nb)"
    unfolding 2(6) 2(7) using 2(8) by blast
  have "slot_addr ty k2 dev a2 ?y \<noteq> 0"
    "card (free_blocks dev k) + needed a2 \<le> card (free_blocks dev k2) + needed a + 1"
    using 1(2,5) 2(3,4,6) by simp_all
  then show ?thesis
    using e evolved_trans [OF 1(3) 2(2)] bytes ck by blast
qed

lemma writei_loop_spec:
  assumes "view s i ty dev k a" "file_ok ty k dev a" "off + r \<le> MAXFILE * BSIZE"
    "touched off r + needed a \<le> card (free_blocks dev k)"
  shows "\<exists>k' a'. writei_loop i src nb off tot r s = Some (put_file i k' a' s) \<and> evolved ty dev k a k' a' \<and>
    (\<forall>p < MAXFILE * BSIZE. file_byte ty k' dev a' p =
       (if off \<le> p \<and> p < off + r then src (tot + (p - off)) else file_byte ty k dev a p)) \<and>
    (\<forall>p. off \<le> p \<and> p < off + r \<longrightarrow> slot_addr ty k' dev a' (p div BSIZE) \<noteq> 0)"
  using assms
proof (induction r arbitrary: off tot s k a rule: less_induct)
  case (less r)
  show ?case
  proof (cases "r = 0")
    case True
    then show ?thesis using view_put_file_same [OF less.prems(1)] evolved_refl [OF less.prems(2)]
      by (intro exI [of _ k] exI [of _ a]) (auto simp: writei_loop.simps)
  next
    case False
    define m where m: "m = min r (BSIZE - off mod BSIZE)"
    have r: "0 < r" using False by simp
    note t = touched_step [OF r m] and nb = next_block [OF r m less.prems(3)]
    have room: "1 + needed a \<le> card (free_blocks dev k)" using less.prems(4) t(1) by simp
    from write_block [OF less.prems(1,2) r m less.prems(3) room] obtain k1 a1 where
      1: "writei_loop i src nb off tot r s = writei_loop i src nb (off + m) (tot + m) (r - m) (put_file i k1 a1 s)"
        "evolved ty dev k a k1 a1" "card (free_blocks dev k) + needed a1 \<le> card (free_blocks dev k1) + needed a + 1"
        "\<forall>p < MAXFILE * BSIZE. file_byte ty k1 dev a1 p =
          (if off \<le> p \<and> p < off + m then src (tot + (p - off)) else file_byte ty k dev a p)"
        "slot_addr ty k1 dev a1 (off div BSIZE) \<noteq> 0" by blast
    have lt: "r - m < r" using t(2) r by simp
    have room': "touched (off + m) (r - m) + needed a1 \<le> card (free_blocks dev k1)"
      using less.prems(4) t(1) 1(3) by simp
    from less.IH [OF lt view_put_file [OF less.prems(1)] evolved_ok [OF 1(2)] nb(2) room', of "tot + m"]
    obtain k2 a2 where 2: "writei_loop i src nb (off + m) (tot + m) (r - m) (put_file i k1 a1 s) = Some (put_file i k2 a2 s)"
        "evolved ty dev k1 a1 k2 a2"
        "\<forall>p < MAXFILE * BSIZE. file_byte ty k2 dev a2 p =
          (if off + m \<le> p \<and> p < off + m + (r - m) then src (tot + m + (p - (off + m))) else file_byte ty k1 dev a1 p)"
        "\<forall>p. off + m \<le> p \<and> p < off + m + (r - m) \<longrightarrow> slot_addr ty k2 dev a2 (p div BSIZE) \<noteq> 0"
      unfolding put_file_simps by blast
    have mapped: "slot_addr ty k2 dev a2 (p div BSIZE) \<noteq> 0" if p: "off \<le> p" "p < off + r" for p
    proof (cases "p < off + m")
      case True
      then have "p div BSIZE = off div BSIZE" using nb(3) [of p] p by simp
      then show ?thesis using 2(2) 1(5) nb(1) by (simp add: evolved_def)
    next
      case False
      then show ?thesis using 2(4) p t(3) by simp
    qed
    have "file_byte ty k2 dev a2 p = (if off \<le> p \<and> p < off + r then src (tot + (p - off)) else file_byte ty k dev a p)"
      if "p < MAXFILE * BSIZE" for p
    proof (cases "off + m \<le> p")
      case True
      then have "tot + m + (p - (off + m)) = tot + (p - off)" by simp
      then show ?thesis using 2(3) 1(4) that t(3) True by auto
    next
      case False
      then show ?thesis using 2(3) 1(4) that t(3) by auto
    qed
    then show ?thesis using 1(1) 2(1) evolved_trans [OF 1(2) 2(2)] mapped by (intro exI [of _ k2] exI [of _ a2]) simp
  qed
qed

lemma bmap_mapped:
  assumes v: "view s i ty dev k a" and ok: "file_ok ty k dev a" and y: "y < MAXFILE" and nz: "slot_addr ty k dev a y \<noteq> 0"
  shows "bmap i y s = Some (slot_addr ty k dev a y, s)"
proof -
  have ind: "y < NDIRECT \<or> a NDIRECT \<noteq> 0" using nz y by (auto simp: slot_addr_def split: if_splits)
  note r = raw_slot [OF ok y ind]
  have vv: "itype (icache s i) = ty" "idev (icache s i) = dev" "fdisk s = k" "iaddrs (icache s i) = a"
    using v by (simp_all add: view_def)
  have "raw_addr k dev a y \<noteq> 0" using r(2) nz by simp
  then show ?thesis
    using ind y r(1) by (auto simp: bmap_def Let_def vv raw_addr_def MAXFILE_def)
qed

text \<open>
  Reading blocks that are there: the state does not change, and for a checksummed file the checksum
  of every block is compared.
\<close>

lemma readi_loop_spec:
  assumes v: "view s i ty dev k a" and ok: "file_ok ty k dev a"
  shows "\<lbrakk>off + r \<le> MAXFILE * BSIZE; \<forall>p. off \<le> p \<and> p < off + r \<longrightarrow> slot_addr ty k dev a (p div BSIZE) \<noteq> 0;
      ty = T_CHECKED \<longrightarrow> (\<forall>p. off \<le> p \<and> p < off + r \<longrightarrow>
        checksum_of k dev a (p div BSIZE) = ucast (xor_bytes (k dev (slot_addr ty k dev a (p div BSIZE))) nb))\<rbrakk> \<Longrightarrow>
    readi_loop i nb off r s = Some (True, map (file_byte ty k dev a) [off..<off + r], s)"
proof (induction r arbitrary: off rule: less_induct)
  case (less r)
  show ?case
  proof (cases "r = 0")
    case True
    then show ?thesis by (simp add: readi_loop.simps)
  next
    case False
    define m where m: "m = min r (BSIZE - off mod BSIZE)"
    let ?y = "off div BSIZE"
    let ?b = "slot_addr ty k dev a ?y"
    have r: "0 < r" using False by simp
    note t = touched_step [OF r m] and nb = next_block [OF r m less.prems(1)]
    have nz: "?b \<noteq> 0" using less.prems(2) r by simp
    have lt: "r - m < r" using t(2) r by simp
    have e: "off + m + (r - m) = off + r" using t(3) by simp
    have IH: "readi_loop i nb (off + m) (r - m) s = Some (True, map (file_byte ty k dev a) [off + m..<off + r], s)"
      using less.IH [OF lt, of "off + m"] less.prems unfolding e by auto
    have b1: "map (\<lambda>j. k dev ?b (off mod BSIZE + j)) [0..<m] = map (file_byte ty k dev a) [off..<off + m]"
    proof (intro nth_equalityI)
      fix j assume "j < length (map (\<lambda>j. k dev ?b (off mod BSIZE + j)) [0..<m])"
      then have j: "j < m" by simp
      have p: "(off + j) div BSIZE = ?y" "(off + j) mod BSIZE = off mod BSIZE + j"
        using nb(3) [of "off + j"] nb(4) [of "off + j"] j by auto
      then show "map (\<lambda>j. k dev ?b (off mod BSIZE + j)) [0..<m] ! j = map (file_byte ty k dev a) [off..<off + m] ! j"
        using j nz by (simp add: file_byte_def Let_def)
    qed simp
    have split: "[off..<off + r] = [off..<off + m] @ [off + m..<off + r]"
      using upt_add_eq_append [of off "off + m" "r - m"] e by simp
    have vv: "itype (icache s i) = ty" "idev (icache s i) = dev" "fdisk s = k" "iaddrs (icache s i) = a"
      using v by (simp_all add: view_def)
    have chk: "(ty = T_CHECKED \<and> stored_checksum s i ?y \<noteq> ucast (xor_bytes (k dev ?b) nb)) = False"
      using less.prems(3) r by (auto simp: stored_checksum_def checksum_of_def vv)
    show ?thesis
      using r by (subst readi_loop.simps)
        (simp only: bmap_mapped [OF v ok nb(1) nz] vv chk m [symmetric] b1 split Let_def IH
          Option.bind.simps(2) prod.case if_False map_append neq0_conv [symmetric])
  qed
qed

section \<open>Files as sequences of bytes\<close>

definition contents :: "fs \<Rightarrow> nat \<Rightarrow> u8 list" where
  "contents s i = (let ip = icache s i in
     map (file_byte (itype ip) (fdisk s) (idev ip) (iaddrs ip)) [0..<unat (isize ip)])"

definition splice :: "'a list \<Rightarrow> nat \<Rightarrow> 'a list \<Rightarrow> 'a list" where
  "splice xs off ys = take off xs @ ys @ drop (off + length ys) xs"

text \<open>A well-formed file: its blocks are its own, and there is a block for each of its bytes.\<close>

definition inode_good :: "fs \<Rightarrow> nat \<Rightarrow> bool" where
  "inode_good s i \<longleftrightarrow> (let ip = icache s i in
     file_ok (itype ip) (fdisk s) (idev ip) (iaddrs ip) \<and> itype ip \<noteq> T_DEV \<and>
     inum ip < sb_ninodes (readsb (idev ip) (fdisk s)) \<and> unat (isize ip) \<le> MAXFILE * BSIZE \<and>
     (\<forall>p < unat (isize ip). slot_addr (itype ip) (fdisk s) (idev ip) (iaddrs ip) (p div BSIZE) \<noteq> 0))"

definition room :: "fs \<Rightarrow> nat \<Rightarrow> nat \<Rightarrow> nat \<Rightarrow> bool" where
  "room s i off n \<longleftrightarrow> touched off n + needed (iaddrs (icache s i)) \<le> card (free_blocks (idev (icache s i)) (fdisk s))"

lemma view_self: "view s i (itype (icache s i)) (idev (icache s i)) (fdisk s) (iaddrs (icache s i))"
  by (simp add: view_def)

lemma inode_goodD:
  assumes "inode_good s i"
  shows "file_ok (itype (icache s i)) (fdisk s) (idev (icache s i)) (iaddrs (icache s i))" "itype (icache s i) \<noteq> T_DEV"
    "inum (icache s i) < sb_ninodes (readsb (idev (icache s i)) (fdisk s))" "unat (isize (icache s i)) \<le> MAXFILE * BSIZE"
    "p < unat (isize (icache s i)) \<Longrightarrow>
      slot_addr (itype (icache s i)) (fdisk s) (idev (icache s i)) (iaddrs (icache s i)) (p div BSIZE) \<noteq> 0"
  using assms by (simp_all add: inode_good_def Let_def)

text \<open>Updating the disk inode does not touch the file.\<close>

lemma file_ok_meta:
  assumes ok: "file_ok ty k dev a" and c: "unat c < bitmap_start (readsb dev k)" "c \<noteq> 1"
  shows "file_ok ty (blk_write dev c d k) dev a"
    "p < MAXFILE * BSIZE \<Longrightarrow> file_byte ty (blk_write dev c d k) dev a p = file_byte ty k dev a p"
    "slot_addr ty (blk_write dev c d k) dev a y = slot_addr ty k dev a y"
    "readsb dev (blk_write dev c d k) = readsb dev k" "free_blocks dev (blk_write dev c d k) = free_blocks dev k"
proof -
  let ?k = "blk_write dev c d k"
  have nd: "c \<notin> data_blocks dev k" using c(1) by (simp add: data_blocks_def data_start_def)
  have "\<not> bitmap_block (readsb dev k) c" using c(1) by (simp add: bitmap_block_def)
  moreover have "c \<notin> free_blocks dev k" using nd free_subset_data [OF file_okD(1) [OF ok]] by blast
  ultimately have w: "disk_ok dev ?k" "data_blocks dev ?k = data_blocks dev k" "free_blocks dev ?k = free_blocks dev k"
    "readsb dev ?k = readsb dev k"
    using disk_ok_write [OF file_okD(1) [OF ok] c(2)] by auto
  show "readsb dev ?k = readsb dev k" "free_blocks dev ?k = free_blocks dev k" by (rule w(4), rule w(3))
  have ind: "?k dev (a NDIRECT) = k dev (a NDIRECT)" if "a NDIRECT \<noteq> 0"
    using file_okD(3) [OF ok, of MAXFILE] that nd by (intro blk_write_other) auto
  have s: "slot_addr ty ?k dev a z = slot_addr ty k dev a z" for z by (rule slot_addr_cong) (simp_all add: ind)
  show "slot_addr ty ?k dev a y = slot_addr ty k dev a y" by (rule s)
  have "raws_ok ty ?k dev a" using file_okD(2) [OF ok] unfolding raws_ok_def by (simp add: ind)
  then show "file_ok ty ?k dev a" using ok w unfolding file_ok_def s by simp
  show "file_byte ty ?k dev a p = file_byte ty k dev a p" if "p < MAXFILE * BSIZE"
  proof -
    have "slot_addr ty k dev a (p div BSIZE) \<noteq> 0 \<Longrightarrow> slot_addr ty k dev a (p div BSIZE) \<noteq> c"
      using file_okD(3) [OF ok, of "p div BSIZE"] less_MAXFILE_block [OF that] nd by auto
    then show ?thesis by (simp add: file_byte_def s Let_def)
  qed
qed

lemma IBLOCK_meta: "n < sb_ninodes sb \<Longrightarrow> unat (IBLOCK n) < bitmap_start sb \<and> IBLOCK n \<noteq> 1"
proof
  assume "n < sb_ninodes sb"
  then have "unat n div IPB \<le> unat (sb_ninodes sb) div IPB"
    by (intro div_le_mono) (simp add: word_less_nat_alt less_imp_le)
  then show "unat (IBLOCK n) < bitmap_start sb" by (simp add: unat_IBLOCK bitmap_start_def)
  have "unat (IBLOCK n) \<noteq> 1" by (simp add: unat_IBLOCK)
  then show "IBLOCK n \<noteq> 1" by auto
qed

text \<open>
  What a write does besides changing the contents.  The other cached inodes stay; the file keeps its blocks and may gain
  free ones, and exactly those leave the set of free blocks; in the block of disk inodes only the \<open>64\<close> bytes of the file's own
  inode may change, which holds the new size and addresses when the file has grown and is the old one otherwise; and every
  block that is not part of the bitmap, not of the file and not that block is as it was.
\<close>

definition saved :: "inode \<Rightarrow> dinode" where
  "saved ip = (to_dinode ip)\<lparr>daddrs := (\<lambda>j. if j \<le> NDIRECT then iaddrs ip j else 0)\<rparr>"

definition write_frame :: "nat \<Rightarrow> fs \<Rightarrow> fs \<Rightarrow> bool" where
  "write_frame i s s' \<longleftrightarrow> (let ip = icache s i; ip' = icache s' i; dev = idev ip; n = inum ip; k = fdisk s; k' = fdisk s';
       old = file_blocks (itype ip) k dev (iaddrs ip); new = file_blocks (itype ip) k' dev (iaddrs ip') in
     (\<forall>j. j \<noteq> i \<longrightarrow> icache s' j = icache s j) \<and>
     old \<subseteq> new \<and> new \<subseteq> old \<union> free_blocks dev k \<and> free_blocks dev k' = free_blocks dev k - new \<and>
     (\<forall>q. q < dip_offset n \<or> dip_offset n + 64 \<le> q \<longrightarrow> k' dev (IBLOCK n) q = k dev (IBLOCK n) q) \<and>
     disk_inode k' dev n = (if isize ip' = isize ip then disk_inode k dev n else saved ip') \<and>
     (\<forall>dev' c. dev' \<noteq> dev \<or> \<not> bitmap_block (readsb dev k) c \<and> c \<noteq> IBLOCK n \<and> c \<notin> new \<longrightarrow> k' dev' c = k dev' c))"

text \<open>The end of \<open>writei\<close>: a file that has grown gets its new size and is saved.\<close>

lemma set_size:
  assumes v: "view s i ty dev k a" and ok: "file_ok ty k dev a" and n: "inum (icache s i) < sb_ninodes (readsb dev k)"
    and s'_def: "s' = iupdate i (upd_inode i (\<lambda>ip. ip\<lparr>isize := z\<rparr>) s)"
  shows "icache s' i = (icache s i)\<lparr>isize := z\<rparr>" "j \<noteq> i \<Longrightarrow> icache s' j = icache s j"
    "file_ok ty (fdisk s') dev a" "readsb dev (fdisk s') = readsb dev k"
    "p < MAXFILE * BSIZE \<Longrightarrow> file_byte ty (fdisk s') dev a p = file_byte ty k dev a p"
    "slot_addr ty (fdisk s') dev a y = slot_addr ty k dev a y"
    "dev' \<noteq> dev \<or> c \<noteq> IBLOCK (inum (icache s i)) \<Longrightarrow> fdisk s' dev' c = k dev' c"
    "free_blocks dev (fdisk s') = free_blocks dev k"
    "q < dip_offset (inum (icache s i)) \<or> dip_offset (inum (icache s i)) + 64 \<le> q \<Longrightarrow>
       fdisk s' dev (IBLOCK (inum (icache s i))) q = k dev (IBLOCK (inum (icache s i))) q"
    "disk_inode (fdisk s') dev (inum (icache s i)) = saved (icache s' i)"
proof -
  let ?b = "IBLOCK (inum (icache s i))"
  have vv: "idev (icache s i) = dev" "fdisk s = k" using v by (simp_all add: view_def)
  obtain d where d: "fdisk s' = blk_write dev ?b d k" by (simp add: s'_def iupdate_def Let_def vv)
  note b = IBLOCK_meta [OF n]
  note m = file_ok_meta [OF ok b [THEN conjunct1] b [THEN conjunct2], where d = d]
  show "icache s' i = (icache s i)\<lparr>isize := z\<rparr>" "j \<noteq> i \<Longrightarrow> icache s' j = icache s j" by (simp_all add: s'_def)
  show "file_ok ty (fdisk s') dev a" "readsb dev (fdisk s') = readsb dev k"
    "p < MAXFILE * BSIZE \<Longrightarrow> file_byte ty (fdisk s') dev a p = file_byte ty k dev a p"
    "slot_addr ty (fdisk s') dev a y = slot_addr ty k dev a y"
    using m by (simp_all add: d)
  show "dev' \<noteq> dev \<or> c \<noteq> ?b \<Longrightarrow> fdisk s' dev' c = k dev' c" by (auto simp: d)
  show "free_blocks dev (fdisk s') = free_blocks dev k" using m by (simp add: d)
  show "q < dip_offset (inum (icache s i)) \<or> dip_offset (inum (icache s i)) + 64 \<le> q \<Longrightarrow> fdisk s' dev ?b q = k dev ?b q"
    using vv by (simp add: s'_def iupdate_def Let_def write_dinode_other)
  show "disk_inode (fdisk s') dev (inum (icache s i)) = saved (icache s' i)"
    using vv by (simp add: s'_def disk_inode_iupdate Let_def saved_def to_dinode_def cong: if_cong)
qed

lemma contents_splice:
  assumes "unat off \<le> length xs" "length zs = max (length xs) (unat off + length ys)"
    "\<And>p. p < length zs \<Longrightarrow> zs ! p = (if unat off \<le> p \<and> p < unat off + length ys then ys ! (p - unat off) else xs ! p)"
  shows "zs = splice xs (unat off) ys"
proof (rule nth_equalityI)
  show "length zs = length (splice xs (unat off) ys)" using assms(1,2) by (simp add: splice_def)
  fix p assume "p < length zs"
  then show "zs ! p = splice xs (unat off) ys ! p"
    using assms(1,2) assms(3) [of p] by (auto simp: splice_def nth_append)
qed

lemma sint_small: "unat (n :: u32) < 2 ^ 31 \<Longrightarrow> sint n = int (unat n)"
proof -
  assume n: "unat n < 2 ^ 31"
  have u: "uint n = int (unat n)" by simp
  have "sint n = signed_take_bit 31 (uint n)" by (simp add: sint_uint)
  also have "\<dots> = uint n" by (rule signed_take_bit_int_eq_self) (use n in \<open>simp_all add: u del: of_nat_unat\<close>)
  finally show ?thesis by simp
qed

lemma contents_nth: "p < unat (isize (icache s i)) \<Longrightarrow> contents s i ! p =
    file_byte (itype (icache s i)) (fdisk s) (idev (icache s i)) (iaddrs (icache s i)) p"
  by (simp add: contents_def Let_def)

lemma length_contents [simp]: "length (contents s i) = unat (isize (icache s i))"
  by (simp add: contents_def Let_def)

definition inode_saved :: "nat \<Rightarrow> disk \<Rightarrow> fs \<Rightarrow> fs \<Rightarrow> bool" where
  "inode_saved i k1 s s' \<longleftrightarrow> (let ip = icache s i; dev = idev ip; n = inum ip in
     free_blocks dev (fdisk s') = free_blocks dev k1 \<and>
     (\<forall>q. q < dip_offset n \<or> dip_offset n + 64 \<le> q \<longrightarrow> fdisk s' dev (IBLOCK n) q = k1 dev (IBLOCK n) q) \<and>
     disk_inode (fdisk s') dev n = (if isize (icache s' i) = isize ip then disk_inode k1 dev n else saved (icache s' i)))"

lemma writei_finish:
  assumes good: "inode_good s i" and off: "off \<le> isize (icache s i)"
    and fits: "unat off + unat n \<le> MAXFILE * BSIZE"
    and l: "writei_loop i src (min (unat n) BSIZE) (unat off) 0 (unat n) s = Some (put_file i k1 a1 s)"
    and ev: "evolved (itype (icache s i)) (idev (icache s i)) (fdisk s) (iaddrs (icache s i)) k1 a1"
  obtains s' z where "writei dv i src off n s = Some (int (unat n), s')"
    "unat z = max (unat (isize (icache s i))) (unat off + unat n)"
    "icache s' i = (icache s i)\<lparr>iaddrs := a1, isize := z\<rparr>" "\<And>j. j \<noteq> i \<Longrightarrow> icache s' j = icache s j"
    "file_ok (itype (icache s i)) (fdisk s') (idev (icache s i)) a1"
    "readsb (idev (icache s i)) (fdisk s') = readsb (idev (icache s i)) (fdisk s)"
    "\<And>p. p < MAXFILE * BSIZE \<Longrightarrow> file_byte (itype (icache s i)) (fdisk s') (idev (icache s i)) a1 p =
       file_byte (itype (icache s i)) k1 (idev (icache s i)) a1 p"
    "\<And>y. slot_addr (itype (icache s i)) (fdisk s') (idev (icache s i)) a1 y = slot_addr (itype (icache s i)) k1 (idev (icache s i)) a1 y"
    "\<And>dev' c. dev' \<noteq> idev (icache s i) \<or> c \<noteq> IBLOCK (inum (icache s i)) \<Longrightarrow> fdisk s' dev' c = k1 dev' c"
    "inode_saved i k1 s s'"
proof -
  let ?ip = "icache s i"
  let ?ty = "itype ?ip" and ?dev = "idev ?ip" and ?k = "fdisk s" and ?a = "iaddrs ?ip"
  note gd = inode_goodD [OF good]
  have mx: "MAXFILE * BSIZE < 2 ^ 31" by (simp add: fs_consts)
  have uon: "unat (off + n) = unat off + unat n" using fits mx by (subst unat_add_lem [symmetric]) simp
  have sn: "sint n = int (unat n)" using fits mx by (intro sint_small) simp
  have c1: "\<not> (off > isize ?ip \<or> off + n < off)" using off uon by (simp add: word_less_nat_alt word_le_nat_alt not_less)
  have c2: "\<not> off + n > of_nat (MAXFILE * BSIZE)" using fits uon by (simp add: word_less_nat_alt fs_consts)
  let ?s1 = "put_file i k1 a1 s"
  define z where "z = (if n > 0 \<and> off + n > isize ?ip then off + n else isize ?ip)"
  define s' where "s' = (if n > 0 \<and> off + n > isize ?ip then iupdate i (upd_inode i (\<lambda>ip. ip\<lparr>isize := off + n\<rparr>) ?s1) else ?s1)"
  have w: "writei dv i src off n s = Some (int (unat n), s')"
    using gd(2) c1 c2 l by (simp add: writei_def Let_def sn s'_def)
  have uz: "unat z = max (unat (isize ?ip)) (unat off + unat n)"
    using off uon by (auto simp: z_def word_less_nat_alt word_le_nat_alt not_less)
  have sb1: "readsb ?dev k1 = readsb ?dev ?k" using ev by (simp add: evolved_def)
  have v1: "view ?s1 i ?ty ?dev k1 a1" by (rule view_put_file [OF view_self])
  have n1: "inum (icache ?s1 i) < sb_ninodes (readsb ?dev k1)" using gd(3) sb1 by simp
  note sz = set_size [OF v1 evolved_ok [OF ev] n1 refl, where z = "off + n"]
  have S: "icache s' i = ?ip\<lparr>iaddrs := a1, isize := z\<rparr>" "\<And>j. j \<noteq> i \<Longrightarrow> icache s' j = icache s j"
    "file_ok ?ty (fdisk s') ?dev a1" "readsb ?dev (fdisk s') = readsb ?dev ?k"
    "\<And>p. p < MAXFILE * BSIZE \<Longrightarrow> file_byte ?ty (fdisk s') ?dev a1 p = file_byte ?ty k1 ?dev a1 p"
    "\<And>y. slot_addr ?ty (fdisk s') ?dev a1 y = slot_addr ?ty k1 ?dev a1 y"
    "\<And>dev' c. dev' \<noteq> ?dev \<or> c \<noteq> IBLOCK (inum ?ip) \<Longrightarrow> fdisk s' dev' c = k1 dev' c"
    using sz evolved_ok [OF ev] sb1 unfolding s'_def z_def by auto
  have "inode_saved i k1 s s'"
  proof (cases "n > 0 \<and> off + n > isize ?ip")
    case True
    then have "isize (icache s' i) \<noteq> isize ?ip" using S(1) by (auto simp: z_def)
    then show ?thesis using True sz(8,9,10) unfolding s'_def inode_saved_def Let_def by simp
  next
    case False
    then show ?thesis using S(1) by (auto simp: s'_def z_def inode_saved_def Let_def)
  qed
  from that [OF w uz S this] show ?thesis by simp
qed

definition fbyte :: "fs \<Rightarrow> nat \<Rightarrow> nat \<Rightarrow> u8" where
  "fbyte s i p = file_byte (itype (icache s i)) (fdisk s) (idev (icache s i)) (iaddrs (icache s i)) p"

lemma contents_fbyte: "contents s i = map (fbyte s i) [0..<unat (isize (icache s i))]"
  by (simp add: contents_def fbyte_def Let_def)

lemma writei_spec:
  assumes good: "inode_good s i" and off: "off \<le> isize (icache s i)"
    and fits: "unat off + unat n \<le> MAXFILE * BSIZE" and rm: "room s i (unat off) (unat n)"
  shows "\<exists>s' a z. writei dv i src off n s = Some (int (unat n), s') \<and> inode_good s' i \<and> write_frame i s s' \<and>
    icache s' i = (icache s i)\<lparr>iaddrs := a, isize := z\<rparr> \<and> unat z = max (unat (isize (icache s i))) (unat off + unat n) \<and>
    (\<forall>p < MAXFILE * BSIZE. fbyte s' i p = (if unat off \<le> p \<and> p < unat off + unat n then src (p - unat off) else fbyte s i p))"
proof -
  let ?ip = "icache s i"
  let ?ty = "itype ?ip" and ?dev = "idev ?ip" and ?k = "fdisk s" and ?a = "iaddrs ?ip"
  note gd = inode_goodD [OF good]
  from writei_loop_spec [OF view_self gd(1) fits rm [unfolded room_def], of src "min (unat n) BSIZE" 0]
  obtain k1 a1 where l: "writei_loop i src (min (unat n) BSIZE) (unat off) 0 (unat n) s = Some (put_file i k1 a1 s)"
    and 1: "evolved ?ty ?dev ?k ?a k1 a1"
      "\<forall>p < MAXFILE * BSIZE. file_byte ?ty k1 ?dev a1 p =
         (if unat off \<le> p \<and> p < unat off + unat n then src (0 + (p - unat off)) else file_byte ?ty ?k ?dev ?a p)"
      "\<forall>p. unat off \<le> p \<and> p < unat off + unat n \<longrightarrow> slot_addr ?ty k1 ?dev a1 (p div BSIZE) \<noteq> 0" by blast
  obtain s' z where w: "writei dv i src off n s = Some (int (unat n), s')"
    and uz: "unat z = max (unat (isize ?ip)) (unat off + unat n)"
    and S: "icache s' i = ?ip\<lparr>iaddrs := a1, isize := z\<rparr>" "\<And>j. j \<noteq> i \<Longrightarrow> icache s' j = icache s j"
      "file_ok ?ty (fdisk s') ?dev a1" "readsb ?dev (fdisk s') = readsb ?dev ?k"
      "\<And>p. p < MAXFILE * BSIZE \<Longrightarrow> file_byte ?ty (fdisk s') ?dev a1 p = file_byte ?ty k1 ?dev a1 p"
      "\<And>y. slot_addr ?ty (fdisk s') ?dev a1 y = slot_addr ?ty k1 ?dev a1 y"
      "\<And>dev' c. dev' \<noteq> ?dev \<or> c \<noteq> IBLOCK (inum ?ip) \<Longrightarrow> fdisk s' dev' c = k1 dev' c"
      "inode_saved i k1 s s'"
    by (rule writei_finish [OF good off fits l 1(1), where dv = dv], rule that) (assumption | blast)+
  have mapped: "slot_addr ?ty k1 ?dev a1 (p div BSIZE) \<noteq> 0" if "p < unat z" for p
  proof (cases "p < unat (isize ?ip)")
    case True
    have "p div BSIZE \<le> MAXFILE" using less_MAXFILE_block [of p] gd(4) True by simp
    then show ?thesis using 1(1) gd(5) [OF True] by (simp add: evolved_def)
  next
    case False
    then show ?thesis using 1(3) that uz off by (simp add: word_le_nat_alt)
  qed
  have good': "inode_good s' i"
    using S(1,3,4) gd(2,3,4) uz fits mapped by (simp add: inode_good_def Let_def S(6))
  have fr: "write_frame i s s'"
  proof -
    have fb: "file_blocks ?ty (fdisk s') ?dev a1 = file_blocks ?ty k1 ?dev a1" by (simp add: file_blocks_def S(6))
    have same: "k1 dev' c = ?k dev' c" if "dev' \<noteq> ?dev \<or> \<not> bitmap_block (readsb ?dev ?k) c \<and> c \<notin> file_blocks ?ty k1 ?dev a1" for dev' c
      using 1(1) that by (simp add: evolved_def)
    note b = IBLOCK_meta [OF gd(3)]
    have "IBLOCK (inum ?ip) \<notin> data_blocks ?dev k1"
      using 1(1) b by (simp add: evolved_def data_blocks_def data_start_def)
    moreover have "file_blocks ?ty k1 ?dev a1 \<subseteq> data_blocks ?dev k1"
      using file_okD(3) [OF evolved_ok [OF 1(1)]] by (auto simp: file_blocks_def)
    ultimately have ib: "k1 ?dev (IBLOCK (inum ?ip)) = ?k ?dev (IBLOCK (inum ?ip))"
      using b by (intro same) (auto simp: bitmap_block_def)
    then have di: "disk_inode k1 ?dev (inum ?ip) = disk_inode ?k ?dev (inum ?ip)" by (simp add: disk_inode_def)
    have ev: "file_blocks ?ty ?k ?dev ?a \<subseteq> file_blocks ?ty k1 ?dev a1"
        "file_blocks ?ty k1 ?dev a1 \<subseteq> file_blocks ?ty ?k ?dev ?a \<union> free_blocks ?dev ?k"
        "free_blocks ?dev k1 = free_blocks ?dev ?k - file_blocks ?ty k1 ?dev a1"
      using 1(1) by (simp_all add: evolved_def)
    have ia: "iaddrs (icache s' i) = a1" using S(1) by simp
    have far: "fdisk s' dev' c = ?k dev' c"
      if "dev' \<noteq> ?dev \<or> \<not> bitmap_block (readsb ?dev ?k) c \<and> c \<noteq> IBLOCK (inum ?ip) \<and> c \<notin> file_blocks ?ty k1 ?dev a1" for dev' c
      using S(7) [of dev' c] same [of dev' c] that by fastforce
    show ?thesis
      using S(2) S(8) ev far unfolding write_frame_def inode_saved_def Let_def ia fb ib di by simp
  qed
  have "\<forall>p < MAXFILE * BSIZE. fbyte s' i p = (if unat off \<le> p \<and> p < unat off + unat n then src (p - unat off) else fbyte s i p)"
    using 1(2) S(5) by (simp add: fbyte_def S(1))
  then show ?thesis using w good' fr S(1) uz by blast
qed

text \<open>
  C7: \<open>writei\<close> implements a write into a sequence of bytes.  For a well-formed file, an offset not past its
  end, a range within the largest file and enough free blocks, \<open>writei\<close> returns \<open>n\<close> without panic; the
  contents become the old contents with the range overwritten and extended; the file is
  well-formed afterwards; and no other inode, no block of another file and no other metadata changes.
\<close>
theorem writei_refines:
  assumes good: "inode_good s i" and off: "off \<le> isize (icache s i)"
    and fits: "unat off + unat n \<le> MAXFILE * BSIZE" and rm: "room s i (unat off) (unat n)"
  shows "\<exists>s'. writei dv i src off n s = Some (int (unat n), s') \<and> inode_good s' i \<and>
    contents s' i = splice (contents s i) (unat off) (map src [0..<unat n]) \<and> write_frame i s s'"
proof -
  from writei_spec [OF assms, of dv src] obtain s' a z where
    w: "writei dv i src off n s = Some (int (unat n), s')" "inode_good s' i" "write_frame i s s'"
      "icache s' i = (icache s i)\<lparr>iaddrs := a, isize := z\<rparr>" "unat z = max (unat (isize (icache s i))) (unat off + unat n)"
      "\<forall>p < MAXFILE * BSIZE. fbyte s' i p = (if unat off \<le> p \<and> p < unat off + unat n then src (p - unat off) else fbyte s i p)"
    by blast
  have "contents s' i = splice (contents s i) (unat off) (map src [0..<unat n])"
  proof (rule contents_splice)
    show "unat off \<le> length (contents s i)" using off by (simp add: word_le_nat_alt)
    show "length (contents s' i) = max (length (contents s i)) (unat off + length (map src [0..<unat n]))"
      using w(4,5) by simp
    fix p assume "p < length (contents s' i)"
    then have p: "p < unat z" "p < MAXFILE * BSIZE" using w(4,5) inode_goodD(4) [OF good] fits by simp_all
    then show "contents s' i ! p = (if unat off \<le> p \<and> p < unat off + length (map src [0..<unat n])
        then map src [0..<unat n] ! (p - unat off) else contents s i ! p)"
      using w(4,5,6) off by (auto simp: contents_fbyte word_le_nat_alt)
  qed
  with w show ?thesis by blast
qed

lemma readi_spec:
  assumes good: "inode_good s i" and ty: "itype (icache s i) \<noteq> T_CHECKED"
    and off: "off \<le> isize (icache s i)" and n: "unat off + unat n < 2 ^ 31"
  shows "readi dv i off n s = Some (int (length (take (unat n) (drop (unat off) (contents s i)))),
    take (unat n) (drop (unat off) (contents s i)), s)"
proof -
  let ?ip = "icache s i"
  let ?f = "file_byte (itype ?ip) (fdisk s) (idev ?ip) (iaddrs ?ip)"
  note gd = inode_goodD [OF good]
  have uon: "unat (off + n) = unat off + unat n" using n by (subst unat_add_lem [symmetric]) simp
  let ?n = "if off + n > isize ?ip then isize ?ip - off else n"
  have un: "unat ?n = min (unat n) (unat (isize ?ip) - unat off)"
    using off uon by (auto simp: word_less_nat_alt word_le_nat_alt unat_sub)
  have le: "unat off + unat ?n \<le> unat (isize ?ip)" using off by (simp add: un word_le_nat_alt)
  have r: "readi_loop i (min (unat n) BSIZE) (unat off) (unat ?n) s =
      Some (True, map ?f [unat off..<unat off + unat ?n], s)"
  proof (rule readi_loop_spec [OF view_self gd(1)])
    show "unat off + unat ?n \<le> MAXFILE * BSIZE" using le gd(4) by (rule le_trans)
    show "\<forall>p. unat off \<le> p \<and> p < unat off + unat ?n \<longrightarrow>
        slot_addr (itype ?ip) (fdisk s) (idev ?ip) (iaddrs ?ip) (p div BSIZE) \<noteq> 0"
      using gd(5) le by simp
  qed (use ty in simp)
  have sn: "sint ?n = int (unat ?n)" using un n by (intro sint_small) linarith
  have out: "map ?f [unat off..<unat off + unat ?n] = take (unat n) (drop (unat off) (contents s i))"
    unfolding un by (rule nth_equalityI) (auto simp: contents_def Let_def drop_map)
  have c1: "\<not> (off > isize ?ip \<or> off + n < off)"
    using off uon by (simp add: word_less_nat_alt word_le_nat_alt not_less)
  have len: "length (take (unat n) (drop (unat off) (contents s i))) = unat ?n" by (simp add: un)
  show ?thesis
    using gd(2) c1 r by (simp only: readi_def Let_def if_False out len sn Option.bind.simps(2) prod.case if_True)
qed

text \<open>
  C13: \<open>readi\<close> returns the bytes of the file.  For a well-formed file that is not checksummed and an
  offset not past its end, \<open>readi\<close> copies exactly the next \<open>n\<close> bytes of the contents, or fewer when the
  file ends, returns their number, and changes nothing.
\<close>
theorem readi_returns_contents:
  assumes good: "inode_good s i" and ty: "itype (icache s i) \<noteq> T_CHECKED"
    and off: "off \<le> isize (icache s i)" and n: "unat off + unat n < 2 ^ 31"
  shows "readi dv i off n s = Some (int (length (take (unat n) (drop (unat off) (contents s i)))),
    take (unat n) (drop (unat off) (contents s i)), s)"
  by (rule readi_spec [OF assms])

section \<open>Checksummed files\<close>

lemma xor_bytes_cong: "(\<And>j. j < n \<Longrightarrow> d j = e j) \<Longrightarrow> xor_bytes d n = xor_bytes e n"
  by (induction n) auto

lemma xor_bytes_upd: "xor_bytes (d(j := v)) n = (if j < n then xor_bytes d n XOR (d j XOR v) else xor_bytes d n)"
proof (induction n)
  case (Suc n)
  have "xor_bytes d n XOR v = xor_bytes d n XOR d n XOR (d n XOR v)"
    by (simp add: bit_eq_iff bit_simps)
  then show ?case using Suc by (auto simp: less_Suc_eq xor.assoc xor.commute xor.left_commute)
qed simp

lemma xor_change: "(x :: u8) XOR (d XOR v) = x \<Longrightarrow> d = v"
proof (rule bit_word_eqI)
  fix n assume "x XOR (d XOR v) = x"
  then have "bit (x XOR (d XOR v)) n = bit x n" by simp
  then show "bit d n = bit v n" by (auto simp: bit_xor_iff)
qed

lemma ucast_u8_inj: "(ucast (x :: u8) :: u32) = ucast y \<Longrightarrow> x = y"
proof (rule bit_word_eqI)
  fix n assume e: "(ucast x :: u32) = ucast y" and "n < LENGTH(8)"
  then have n: "n < 32" by simp
  have "bit (ucast x :: u32) n = bit (ucast y :: u32) n" using e by simp
  then show "bit x n = bit y n" using n by (simp add: bit_unsigned_iff)
qed

lemma checksum_meta:
  assumes ok: "file_ok ty k dev a" and n: "n < sb_ninodes (readsb dev k)" and y: "y < MAXFILE" "slot_addr ty k dev a y \<noteq> 0"
    and k': "\<And>c. c \<noteq> IBLOCK n \<Longrightarrow> k' dev c = k dev c"
  shows "checksum_of k' dev a y = checksum_of k dev a y"
    "k' dev (slot_addr ty k dev a y) = k dev (slot_addr ty k dev a y)"
proof -
  have nd: "IBLOCK n \<notin> data_blocks dev k" using IBLOCK_meta [OF n] by (simp add: data_blocks_def data_start_def)
  show "k' dev (slot_addr ty k dev a y) = k dev (slot_addr ty k dev a y)"
    using file_okD(3) [OF ok _ y(2)] y(1) nd by (intro k') auto
  have "k' dev (a NDIRECT) = k dev (a NDIRECT)" if "\<not> y < NDIRECT"
  proof -
    have "a NDIRECT \<noteq> 0" using y that by (auto simp: slot_addr_def split: if_splits)
    then show ?thesis using file_okD(3) [OF ok, of MAXFILE] nd by (intro k') auto
  qed
  then show "checksum_of k' dev a y = checksum_of k dev a y" by (simp add: checksum_of_def raw_addr_def)
qed

lemma one_block:
  assumes "0 < r" "off mod BSIZE + r \<le> BSIZE" "off \<le> p" "p < off + r"
  shows "p div BSIZE = off div BSIZE"
proof (rule div_nat_eqI)
  show "BSIZE * (off div BSIZE) \<le> p" using assms(3) by (metis le_trans times_div_less_eq_dividend)
  have "p < off div BSIZE * BSIZE + BSIZE" using assms div_mult_mod_eq [of off BSIZE] by linarith
  then show "p < BSIZE * Suc (off div BSIZE)" by (simp add: mult.commute)
qed

lemma readi_one_block:
  assumes v: "view s i ty dev k a" and ok: "file_ok ty k dev a" and ty: "ty = T_CHECKED"
    and y: "unat off div BSIZE < MAXFILE" "slot_addr ty k dev a (unat off div BSIZE) \<noteq> 0"
    and n: "0 < n" "unat off mod BSIZE + unat n \<le> BSIZE" "unat off + unat n \<le> unat (isize (icache s i))"
      "unat off + unat n < 2 ^ 31"
  shows "readi dv i off n s = Some
    (if checksum_of k dev a (unat off div BSIZE) = ucast (xor_bytes (k dev (slot_addr ty k dev a (unat off div BSIZE))) (unat n))
     then int (unat n) else -1,
     map (\<lambda>j. k dev (slot_addr ty k dev a (unat off div BSIZE)) (unat off mod BSIZE + j)) [0..<unat n], s)"
proof -
  let ?b = "slot_addr ty k dev a (unat off div BSIZE)"
  have uon: "unat (off + n) = unat off + unat n" using n(4) by (subst unat_add_lem [symmetric]) simp
  have vv: "itype (icache s i) = ty" "idev (icache s i) = dev" "fdisk s = k" "iaddrs (icache s i) = a"
    using v by (simp_all add: view_def)
  have c: "\<not> (off > isize (icache s i) \<or> off + n < off)" "\<not> off + n > isize (icache s i)"
    using n(3) uon by (simp_all add: word_less_nat_alt)
  have un: "0 < unat n" using n(1) by (simp add: word_less_nat_alt)
  have mn: "min (unat n) BSIZE = unat n" "min (unat n) (BSIZE - unat off mod BSIZE) = unat n" using n(2) by auto
  have sn: "sint n = int (unat n)" using n(4) by (intro sint_small) simp
  have dv: "ty \<noteq> T_DEV" using ty by (simp add: T_CHECKED_def T_DEV_def)
  have sc: "stored_checksum s i (unat off div BSIZE) = checksum_of k dev a (unat off div BSIZE)"
    by (simp add: stored_checksum_def checksum_of_def vv)
  have "readi_loop i (unat n) (unat off) (unat n) s =
     Some (checksum_of k dev a (unat off div BSIZE) = ucast (xor_bytes (k dev ?b) (unat n)),
       map (\<lambda>j. k dev ?b (unat off mod BSIZE + j)) [0..<unat n], s)"
    using un ty
    by (subst readi_loop.simps) (simp add: bmap_mapped [OF v ok y] vv mn sc Let_def readi_loop.simps [of _ _ _ 0])
  then show ?thesis using c dv by (simp add: readi_def vv mn sn)
qed

text \<open>
  C14: A checksummed block can be read back.  Writing up to a block's worth of bytes within one block of a
  checksummed file and reading the same range with the same count returns the bytes written.
\<close>
theorem checked_write_read_roundtrip:
  assumes good: "inode_good s i" and ty: "itype (icache s i) = T_CHECKED" and off: "off \<le> isize (icache s i)"
    and n: "0 < n" "unat off mod BSIZE + unat n \<le> BSIZE" "unat off + unat n \<le> MAXFILE * BSIZE"
    and rm: "room s i (unat off) (unat n)"
  shows "\<exists>s'. writei dv i src off n s = Some (int (unat n), s') \<and>
    readi dv i off n s' = Some (int (unat n), map src [0..<unat n], s')"
proof -
  let ?ip = "icache s i"
  let ?ty = "itype ?ip" and ?dev = "idev ?ip" and ?k = "fdisk s" and ?a = "iaddrs ?ip" and ?y = "unat off div BSIZE"
  note gd = inode_goodD [OF good]
  have un: "0 < unat n" using n(1) by (simp add: word_less_nat_alt)
  have mn: "min (unat n) (BSIZE - unat off mod BSIZE) = unat n" "min (unat n) BSIZE = unat n" using n(2) by auto
  have "1 + needed ?a \<le> card (free_blocks ?dev ?k)"
    using rm touched_step(1) [OF un refl, of "unat off"] mn by (simp add: room_def)
  from write_block [OF view_self gd(1) un refl n(3) this, of src "unat n" 0] obtain k1 a1 where
    l: "writei_loop i src (min (unat n) BSIZE) (unat off) 0 (unat n) s = Some (put_file i k1 a1 s)"
    and 1: "evolved ?ty ?dev ?k ?a k1 a1"
      "\<forall>p < MAXFILE * BSIZE. file_byte ?ty k1 ?dev a1 p =
         (if unat off \<le> p \<and> p < unat off + unat n then src (0 + (p - unat off)) else file_byte ?ty ?k ?dev ?a p)"
      "slot_addr ?ty k1 ?dev a1 ?y \<noteq> 0"
      "checksum_of k1 ?dev a1 ?y = ucast (xor_bytes (k1 ?dev (slot_addr ?ty k1 ?dev a1 ?y)) (unat n))"
    unfolding mn using ty by (auto simp: writei_loop.simps [of _ _ _ _ _ 0])
  obtain s' z where w: "writei dv i src off n s = Some (int (unat n), s')"
    and uz: "unat z = max (unat (isize ?ip)) (unat off + unat n)"
    and S: "icache s' i = ?ip\<lparr>iaddrs := a1, isize := z\<rparr>" "file_ok ?ty (fdisk s') ?dev a1"
      "\<And>y. slot_addr ?ty (fdisk s') ?dev a1 y = slot_addr ?ty k1 ?dev a1 y"
      "\<And>dev' c. dev' \<noteq> ?dev \<or> c \<noteq> IBLOCK (inum ?ip) \<Longrightarrow> fdisk s' dev' c = k1 dev' c"
    by (rule writei_finish [OF good off n(3) l 1(1), where dv = dv], rule that) (assumption | blast)+
  have y: "?y < MAXFILE" by (rule less_MAXFILE_block) (use n(3) un in linarith)
  have v': "view s' i ?ty ?dev (fdisk s') a1" using S(1) by (simp add: view_def)
  have n1: "inum ?ip < sb_ninodes (readsb ?dev k1)" using gd(3) 1(1) by (simp add: evolved_def)
  note cm = checksum_meta [OF evolved_ok [OF 1(1)] n1 y 1(3), of "fdisk s'"]
  have ck: "checksum_of (fdisk s') ?dev a1 ?y =
      ucast (xor_bytes (fdisk s' ?dev (slot_addr ?ty (fdisk s') ?dev a1 ?y)) (unat n))"
    unfolding S(3) using cm S(4) 1(4) by simp
  have "fdisk s' ?dev (slot_addr ?ty (fdisk s') ?dev a1 ?y) (unat off mod BSIZE + j) = src j" if j: "j < unat n" for j
  proof -
    have p: "(unat off + j) div BSIZE = ?y" using one_block [OF un n(2), of "unat off + j"] j by simp
    moreover have "(unat off + j) mod BSIZE = unat off mod BSIZE + j"
      using div_mult_mod_eq [of "unat off + j" BSIZE, unfolded p] div_mult_mod_eq [of "unat off" BSIZE] by linarith
    ultimately show ?thesis
      using 1(2) [rule_format, of "unat off + j"] j n(3) 1(3) cm(2) S(3,4) by (simp add: file_byte_def Let_def)
  qed
  then have out: "map (\<lambda>j. fdisk s' ?dev (slot_addr ?ty (fdisk s') ?dev a1 ?y) (unat off mod BSIZE + j)) [0..<unat n] =
      map src [0..<unat n]" by simp
  have "unat off + unat n < 2 ^ 31" using n(3) by (simp add: fs_consts)
  from readi_one_block [OF v' S(2) ty y _ n(1,2) _ this, of dv] ck out S(1,3) 1(3) uz
  have "readi dv i off n s' = Some (int (unat n), map src [0..<unat n], s')" by simp
  with w show ?thesis by blast
qed

text \<open>
  C15: A damaged byte is noticed.  If a range within one block of a checksummed file reads correctly, and
  then one byte of the block that the checksum covers for that count is changed on the disk, the same
  read returns \<open>-1\<close>.
\<close>
theorem checksum_detects_corruption:
  assumes good: "inode_good s i" and ty: "itype (icache s i) = T_CHECKED"
    and n: "0 < n" "unat off mod BSIZE + unat n \<le> BSIZE" "unat off + unat n \<le> unat (isize (icache s i))"
    and b: "b = slot_addr (itype (icache s i)) (fdisk s) (idev (icache s i)) (iaddrs (icache s i)) (unat off div BSIZE)"
    and read: "readi dv i off n s = Some (int (unat n), out, s)"
    and j: "j < unat n" "v \<noteq> fdisk s (idev (icache s i)) b j"
    and s': "s' = s\<lparr>fdisk := blk_write (idev (icache s i)) b ((fdisk s (idev (icache s i)) b)(j := v)) (fdisk s)\<rparr>"
  shows "\<exists>out'. readi dv i off n s' = Some (-1, out', s')"
proof -
  let ?ip = "icache s i"
  let ?ty = "itype ?ip" and ?dev = "idev ?ip" and ?k = "fdisk s" and ?a = "iaddrs ?ip" and ?y = "unat off div BSIZE"
  note gd = inode_goodD [OF good]
  have un: "0 < unat n" using n(1) by (simp add: word_less_nat_alt)
  have y: "?y < MAXFILE" by (rule less_MAXFILE_block) (use n(3) un gd(4) in linarith)
  have nz: "slot_addr ?ty ?k ?dev ?a ?y \<noteq> 0" using gd(5) [of "unat off"] n(3) un by simp
  have sm: "unat off + unat n < 2 ^ 31" using n(3) gd(4) by (simp add: fs_consts)
  note one = readi_one_block [OF view_self gd(1) ty y nz n sm, of dv, folded b]
  have ck: "checksum_of ?k ?dev ?a ?y = ucast (xor_bytes (?k ?dev b) (unat n))"
    by (rule ccontr) (use one read uint_ge_0 [of n] in auto)
  let ?d = "(?k ?dev b)(j := v)"
  let ?k' = "blk_write ?dev b ?d ?k"
  note st = store_block [OF gd(1) y nz, where d = ?d, folded b]
  have ind: "?k' ?dev (?a NDIRECT) = ?k ?dev (?a NDIRECT)" using slot_not_indirect [OF gd(1) y nz] b by simp
  have sl: "slot_addr ?ty ?k' ?dev ?a ?y = b" unfolding b by (rule slot_addr_cong) (simp_all add: ind [unfolded b])
  have ck': "checksum_of ?k' ?dev ?a ?y = checksum_of ?k ?dev ?a ?y"
    unfolding checksum_of_def raw_addr_def ind ..
  have ne: "xor_bytes ?d (unat n) \<noteq> xor_bytes (?k ?dev b) (unat n)"
    using j xor_change by (auto simp: xor_bytes_upd)
  have v': "view s' i ?ty ?dev ?k' ?a" using s' by (simp add: view_def)
  have nz': "slot_addr ?ty ?k' ?dev ?a ?y \<noteq> 0" using sl nz b by simp
  have ic: "icache s' i = ?ip" using s' by simp
  have "checksum_of ?k' ?dev ?a ?y \<noteq> ucast (xor_bytes (?k' ?dev (slot_addr ?ty ?k' ?dev ?a ?y)) (unat n))"
    unfolding sl ck' ck using ne ucast_u8_inj by auto
  then show ?thesis
    using readi_one_block [OF v' evolved_ok [OF st(1)] ty y nz' n(1,2) _ sm, of dv] n(3) ic by simp
qed

section \<open>Examples\<close>

lemma small_slot:
  "slot_addr ty k dev ((\<lambda>_. 0)(0 := 5)) y = (if y = 0 then 5 else 0)"
proof -
  have "strip ty 5 = 5" by (rule strip_small) simp
  then show ?thesis by (simp add: slot_addr_def fs_consts)
qed

lemma small_file_ok: "file_ok ty (small_disk 1) 1 ((\<lambda>_. 0)(0 := 5))"
proof -
  have "raws_ok ty (small_disk 1) 1 ((\<lambda>_. 0)(0 := 5))"
    using strip_small [of 5 ty] by (simp add: raws_ok_def fs_consts)
  moreover have "(5 :: u32) \<in> data_blocks 1 (small_disk 1) - free_blocks 1 (small_disk 1)"
    by (simp add: data_blocks_def data_start_def bitmap_start_def fs_consts small_disk_free)
  ultimately show ?thesis using small_disk_ok [of 1 1] by (simp add: file_ok_def small_slot)
qed

lemma small_good: "ty \<noteq> T_DEV \<Longrightarrow> inode_good (small_fs (small_file ty 1 5)) 0"
  using small_file_ok [of ty]
  by (simp add: inode_good_def small_slot fs_consts del: fun_upd_apply One_nat_def)

lemma small_card: "2 \<le> card (free_blocks 1 (small_disk 1))"
proof -
  have "{8, 9} \<subseteq> free_blocks 1 (small_disk 1)" by (simp add: small_disk_free)
  then have "card {8, 9 :: u32} \<le> card (free_blocks 1 (small_disk 1))" by (intro card_mono) simp_all
  then show ?thesis by simp
qed

lemma small_room: "room (small_fs (small_file ty 1 5)) 0 0 10"
  using small_card by (simp add: room_def needed_def touched_def fs_consts)

definition no_devices :: devsw where
  "no_devices = \<lparr>dev_read = (\<lambda>_. None), dev_write = (\<lambda>_. None)\<rparr>"

theorem writei_refines_witness:
  "\<exists>s'. writei no_devices 0 of_nat 0 10 (small_fs (small_file T_FILE 1 5)) = Some (10, s') \<and>
     take 10 (contents s' 0) = [0, 1, 2, 3, 4, 5, 6, 7, 8, 9]"
proof -
  let ?s = "small_fs (small_file T_FILE 1 5)"
  have g: "inode_good ?s 0" by (rule small_good) (simp add: T_FILE_def T_DEV_def)
  have f: "unat (0 :: u32) + unat (10 :: u32) \<le> MAXFILE * BSIZE" by (simp add: fs_consts)
  have r: "room ?s 0 (unat (0 :: u32)) (unat (10 :: u32))" using small_room by simp
  from writei_refines [OF g _ f r, of no_devices of_nat] obtain s' where
    s': "writei no_devices 0 of_nat 0 10 ?s = Some (10, s')"
      "contents s' 0 = splice (contents ?s 0) 0 (map of_nat [0..<10])" by auto
  have "[0..<10] = [0, 1, 2, 3, 4, 5, 6, 7, 8, 9 :: nat]" by (simp add: upt_rec)
  then have "take 10 (contents s' 0) = [0, 1, 2, 3, 4, 5, 6, 7, 8, 9]"
    unfolding s'(2) splice_def by simp
  with s'(1) show ?thesis by blast
qed

theorem readi_returns_contents_witness:
  "readi no_devices 0 508 10 (small_fs (small_file T_FILE 1 5)) =
     Some (4, [0, 0, 0, 0], small_fs (small_file T_FILE 1 5))"
proof -
  let ?s = "small_fs (small_file T_FILE 1 5)"
  have g: "inode_good ?s 0" by (rule small_good) (simp add: T_FILE_def T_DEV_def)
  have z: "small_disk 1 1 5 p = 0" for p by (simp add: small_disk_def)
  have "contents ?s 0 = replicate 512 0"
    by (rule nth_equalityI)
      (simp_all add: contents_nth file_byte_def small_slot Let_def z del: fun_upd_apply One_nat_def)
  then have "take 10 (drop 508 (contents ?s 0)) = [0, 0, 0, 0]" by (simp add: numeral_eq_Suc)
  then show ?thesis
    using readi_returns_contents [OF g, of 508 10 no_devices] by (simp add: T_FILE_def T_CHECKED_def)
qed

theorem checked_write_read_roundtrip_witness:
  "\<exists>s'. writei no_devices 0 of_nat 0 10 (small_fs (small_file T_CHECKED 1 5)) = Some (10, s') \<and>
     readi no_devices 0 0 10 s' = Some (10, map of_nat [0..<10], s')"
proof -
  let ?s = "small_fs (small_file T_CHECKED 1 5)"
  have g: "inode_good ?s 0" by (rule small_good) (simp add: T_CHECKED_def T_DEV_def)
  have "room ?s 0 (unat (0 :: u32)) (unat (10 :: u32))" using small_room by simp
  from checked_write_read_roundtrip [OF g _ _ _ _ _ this, of no_devices of_nat] show ?thesis
    by (simp add: fs_consts)
qed

theorem checksum_detects_corruption_witness:
  "\<exists>out s'. fdisk s' = blk_write 1 5 ((\<lambda>_. 0)(2 := 7)) (small_disk 1) \<and>
     readi no_devices 0 0 4 s' = Some (-1, out, s')"
proof -
  let ?s = "small_fs (small_file T_CHECKED 1 5)"
  have g: "inode_good ?s 0" by (rule small_good) (simp add: T_CHECKED_def T_DEV_def)
  have v: "view ?s 0 T_CHECKED 1 (small_disk 1) ((\<lambda>_. 0)(0 := 5))"
    by (simp add: view_def)
  have "small_disk 1 1 5 = (\<lambda>_. 0)" by (simp add: small_disk_def)
  moreover have "xor_bytes (\<lambda>_. 0) n = 0" for n by (induction n) simp_all
  ultimately have z: "xor_bytes (small_disk 1 1 5) 4 = 0" by simp
  have c: "checksum_of (small_disk 1) 1 ((\<lambda>_. 0)(0 := 5)) 0 = 0" by (simp add: checksum_of_def raw_addr_def NDIRECT_def)
  have r: "readi no_devices 0 0 4 ?s = Some (int (unat (4 :: u32)), [0, 0, 0, 0], ?s)"
    using readi_one_block [OF v small_file_ok refl, of 0 4 no_devices] z c
    by (simp add: small_slot fs_consts small_disk_def upt_rec del: fun_upd_apply)
  let ?t = "?s\<lparr>fdisk := blk_write 1 5 ((\<lambda>_. 0)(2 := 7)) (small_disk 1)\<rparr>"
  have b: "5 = slot_addr (itype (icache ?s 0)) (fdisk ?s) (idev (icache ?s 0)) (iaddrs (icache ?s 0)) (unat (0 :: u32) div BSIZE)"
    by (simp add: small_slot del: fun_upd_apply)
  have "\<exists>out. readi no_devices 0 0 4 ?t = Some (-1, out, ?t)"
    by (rule checksum_detects_corruption [OF g _ _ _ _ b r, where j = 2 and v = 7])
      (simp_all add: fs_consts small_disk_def)
  then obtain out where "readi no_devices 0 0 4 ?t = Some (-1, out, ?t)" by blast
  then show ?thesis by (intro exI [of _ out] exI [of _ ?t]) simp
qed

end
