(* ===== verification/FsDir.thy ===== *)
theory FsDir
  imports FsFile CStrings
begin

text \<open>
  Directories and path names (\<open>kernel/fs.c\<close>, last part): \<open>namecmp\<close>, \<open>dirlookup\<close>, \<open>dirlink\<close>,
  \<open>skipelem\<close>, \<open>namex\<close>, \<open>namei\<close> and \<open>nameiparent\<close>.  A name is a buffer of bytes; a path is the list of its
  bytes before the terminating NUL.
\<close>

definition DIRSIZ :: nat where "DIRSIZ = 14"
definition ROOTDEV :: u32 where "ROOTDEV = 1"
definition ROOTINO :: u32 where "ROOTINO = 1"

section \<open>Directory entries\<close>

text \<open>
  The string functions work on one memory; two buffers of \<open>DIRSIZ\<close> bytes are laid out in it one
  after the other.
\<close>

definition two_names :: "(nat \<Rightarrow> u8) \<Rightarrow> (nat \<Rightarrow> u8) \<Rightarrow> memory" where
  "two_names s t = (\<lambda>j. if j < DIRSIZ then s j else t (j - DIRSIZ))"

definition namecmp :: "(nat \<Rightarrow> u8) \<Rightarrow> (nat \<Rightarrow> u8) \<Rightarrow> int" where
  "namecmp s t = strncmp (two_names s t) 0 DIRSIZ DIRSIZ"

definition entry_inum :: "block \<Rightarrow> nat \<Rightarrow> u16" where
  "entry_inum d e = get16 d (16 * e)"

definition entry_name :: "block \<Rightarrow> nat \<Rightarrow> nat \<Rightarrow> u8" where
  "entry_name d e = (\<lambda>j. d (16 * e + 2 + j))"

text \<open>The inner loop of \<open>dirlookup\<close>: the entries of one block.\<close>

definition entry_match :: "block \<Rightarrow> (nat \<Rightarrow> u8) \<Rightarrow> nat \<Rightarrow> bool" where
  "entry_match d name e \<longleftrightarrow> entry_inum d e \<noteq> 0 \<and> namecmp name (entry_name d e) = 0"

function dirlookup_loop :: "nat \<Rightarrow> (nat \<Rightarrow> u8) \<Rightarrow> nat \<Rightarrow> nat \<Rightarrow> fs \<Rightarrow> ((nat \<times> nat) option \<times> fs) option" where
  "dirlookup_loop i name sz off s =
     (if off < sz then do {
        (b, s1) \<leftarrow> bmap i (off div BSIZE) s;
        let d = fdisk s1 (idev (icache s1 i)) b;
        (case find (entry_match d name) [0..<BSIZE div 16] of
           Some e \<Rightarrow> do {
             (j, s2) \<leftarrow> iget (idev (icache s1 i)) (ucast (entry_inum d e)) s1;
             Some (Some (j, off + 16 * e), s2)
           }
         | None \<Rightarrow> dirlookup_loop i name sz (off + BSIZE) s1)
      } else Some (None, s))"
  by auto
termination by (relation "measure (\<lambda>(i, name, sz, off, s). sz - off)") (auto simp: fs_consts)

declare dirlookup_loop.simps [simp del]

text \<open>The result is the inode's slot together with the byte offset stored through \<open>poff\<close>.\<close>

definition dirlookup :: "nat \<Rightarrow> (nat \<Rightarrow> u8) \<Rightarrow> fs \<Rightarrow> ((nat \<times> nat) option \<times> fs) option" where
  "dirlookup i name s =
     (if itype (icache s i) \<noteq> T_DIR then None
      else dirlookup_loop i name (unat (isize (icache s i))) 0 s)"

text \<open>The search of \<open>dirlink\<close> for an empty entry; running to the end leaves \<open>off\<close> at the size.\<close>

function dirlink_loop :: "devsw \<Rightarrow> nat \<Rightarrow> nat \<Rightarrow> nat \<Rightarrow> fs \<Rightarrow> (nat \<times> fs) option" where
  "dirlink_loop dv i sz off s =
     (if off < sz then do {
        (r, de, s1) \<leftarrow> readi dv i (of_nat off) 16 s;
        if r \<noteq> 16 then None
        else if de ! 0 = 0 \<and> de ! 1 = 0 then Some (off, s1)
        else dirlink_loop dv i sz (off + 16) s1
      } else Some (off, s))"
  by auto
termination by (relation "measure (\<lambda>(dv, i, sz, off, s). sz - off)") auto

declare dirlink_loop.simps [simp del]

text \<open>The entry written: the inode number and the name copied by \<open>strncpy\<close>.\<close>

definition new_entry :: "(nat \<Rightarrow> u8) \<Rightarrow> u32 \<Rightarrow> nat \<Rightarrow> u8" where
  "new_entry name n =
     put16 (\<lambda>j. strncpy (two_names (\<lambda>_. 0) name) 0 DIRSIZ (int DIRSIZ) (j - 2)) 0 (ucast n)"

definition dirlink :: "devsw \<Rightarrow> nat \<Rightarrow> (nat \<Rightarrow> u8) \<Rightarrow> u32 \<Rightarrow> fs \<Rightarrow> (int \<times> fs) option" where
  "dirlink dv i name n s = do {
     (r, s1) \<leftarrow> dirlookup i name s;
     (case r of
        Some (j, _) \<Rightarrow> do {s2 \<leftarrow> iput j s1; Some (-1, s2)}
      | None \<Rightarrow> do {
          (off, s2) \<leftarrow> dirlink_loop dv i (unat (isize (icache s1 i))) 0 s1;
          (w, s3) \<leftarrow> writei dv i (new_entry name n) (of_nat off) 16 s2;
          if w \<noteq> 16 then None else Some (0, s3)
        })
   }"

section \<open>Paths\<close>

definition slash :: u8 where "slash = 47"

definition skipelem :: "u8 list \<Rightarrow> (nat \<Rightarrow> u8) \<Rightarrow> (u8 list \<times> (nat \<Rightarrow> u8)) option" where
  "skipelem path name =
     (let p = dropWhile (\<lambda>c. c = slash) path in
      if p = [] then None
      else let s = takeWhile (\<lambda>c. c \<noteq> slash) p; len = length s;
               name' = (if len \<ge> DIRSIZ then (\<lambda>j. if j < DIRSIZ then s ! j else name j)
                        else (\<lambda>j. if j < len then s ! j else if j = len then 0 else name j))
           in Some (dropWhile (\<lambda>c. c = slash) (dropWhile (\<lambda>c. c \<noteq> slash) p), name'))"

lemma skipelem_shorter: "skipelem path name = Some (path', name') \<Longrightarrow> length path' < length path"
proof -
  assume a: "skipelem path name = Some (path', name')"
  let ?p = "dropWhile (\<lambda>c. c = slash) path"
  have ne: "?p \<noteq> []" and p': "path' = dropWhile (\<lambda>c. c = slash) (dropWhile (\<lambda>c. c \<noteq> slash) ?p)"
    using a by (auto simp: skipelem_def Let_def split: if_splits)
  obtain c cs where c: "?p = c # cs" using ne by (cases ?p) auto
  then have "c \<noteq> slash" using hd_dropWhile [OF ne] by simp
  then have "length path' \<le> length cs"
    unfolding p' c using length_dropWhile_le [of "\<lambda>c. c = slash" "dropWhile (\<lambda>c. c \<noteq> slash) cs"]
      length_dropWhile_le [of "\<lambda>c. c \<noteq> slash" cs] by simp
  moreover have "length ?p \<le> length path" by (rule length_dropWhile_le)
  ultimately show ?thesis using c by simp
qed

function namex_loop :: "bool \<Rightarrow> nat \<Rightarrow> u8 list \<Rightarrow> (nat \<Rightarrow> u8) \<Rightarrow> fs \<Rightarrow> (nat option \<times> (nat \<Rightarrow> u8) \<times> fs) option" where
  "namex_loop parent i path name s =
     (case skipelem path name of
        None \<Rightarrow> if parent then do {s1 \<leftarrow> iput i s; Some (None, name, s1)} else Some (Some i, name, s)
      | Some (path', name') \<Rightarrow> do {
          s1 \<leftarrow> ilock i s;
          if itype (icache s1 i) \<noteq> T_DIR then do {s2 \<leftarrow> iunlockput i s1; Some (None, name', s2)}
          else if parent \<and> path' = [] then do {s2 \<leftarrow> iunlock i s1; Some (Some i, name', s2)}
          else do {
            (r, s2) \<leftarrow> dirlookup i name' s1;
            (case r of
               None \<Rightarrow> do {s3 \<leftarrow> iunlockput i s2; Some (None, name', s3)}
             | Some (j, _) \<Rightarrow> do {s3 \<leftarrow> iunlockput i s2; namex_loop parent j path' name' s3})
          }
        })"
  by auto
termination
  by (relation "measure (\<lambda>(parent, i, path, name, s). length path)") (auto dest: skipelem_shorter)

declare namex_loop.simps [simp del]

definition namex :: "nat \<Rightarrow> u8 list \<Rightarrow> bool \<Rightarrow> (nat \<Rightarrow> u8) \<Rightarrow> fs \<Rightarrow> (nat option \<times> (nat \<Rightarrow> u8) \<times> fs) option" where
  "namex cwd path parent name s =
     (if path \<noteq> [] \<and> hd path = slash then do {
        (i, s1) \<leftarrow> iget ROOTDEV ROOTINO s; namex_loop parent i path name s1
      } else let (i, s1) = idup cwd s in namex_loop parent i path name s1)"

definition namei :: "nat \<Rightarrow> u8 list \<Rightarrow> fs \<Rightarrow> (nat option \<times> fs) option" where
  "namei cwd path s = do {(r, _, s1) \<leftarrow> namex cwd path False (\<lambda>_. 0) s; Some (r, s1)}"

definition nameiparent :: "nat \<Rightarrow> u8 list \<Rightarrow> (nat \<Rightarrow> u8) \<Rightarrow> fs \<Rightarrow> (nat option \<times> (nat \<Rightarrow> u8) \<times> fs) option" where
  "nameiparent cwd path name s = namex cwd path True name s"

section \<open>Path elements\<close>

text \<open>A reference definition: split at the slashes, forget empty pieces, keep \<open>DIRSIZ\<close> bytes of each.\<close>

fun splits :: "u8 list \<Rightarrow> u8 list list" where
  "splits [] = [[]]"
| "splits (c # cs) = (if c = slash then [] # splits cs
     else case splits cs of [] \<Rightarrow> [[c]] | x # xs \<Rightarrow> (c # x) # xs)"

definition elements :: "u8 list \<Rightarrow> u8 list list" where
  "elements path = map (take DIRSIZ) (filter (\<lambda>x. x \<noteq> []) (splits path))"

text \<open>The names \<open>skipelem\<close> produces one after the other, as C strings of at most \<open>DIRSIZ\<close> bytes.\<close>

definition cname :: "(nat \<Rightarrow> u8) \<Rightarrow> u8 list" where
  "cname s = cstr s 0 DIRSIZ"

function path_names :: "u8 list \<Rightarrow> (nat \<Rightarrow> u8) \<Rightarrow> u8 list list" where
  "path_names path name = (case skipelem path name of
     None \<Rightarrow> [] | Some (path', name') \<Rightarrow> cname name' # path_names path' name')"
  by auto
termination by (relation "measure (\<lambda>(path, name). length path)") (auto dest: skipelem_shorter)

declare path_names.simps [simp del]

lemma splits_split:
  "splits p = takeWhile (\<lambda>c. c \<noteq> slash) p #
     (case dropWhile (\<lambda>c. c \<noteq> slash) p of [] \<Rightarrow> [] | _ # r \<Rightarrow> splits r)"
  by (induction p) auto

lemma elements_slash: "elements (dropWhile (\<lambda>c. c = slash) p) = elements p"
  by (induction p) (auto simp: elements_def)

lemma elements_Nil [simp]: "elements [] = []"
  by (simp add: elements_def)

lemma elements_step:
  assumes "p \<noteq> []" "hd p \<noteq> slash"
  shows "elements p = take DIRSIZ (takeWhile (\<lambda>c. c \<noteq> slash) p) # elements (dropWhile (\<lambda>c. c \<noteq> slash) p)"
proof -
  have "takeWhile (\<lambda>c. c \<noteq> slash) p \<noteq> []" using assms by (cases p) auto
  then show ?thesis
  proof (cases "dropWhile (\<lambda>c. c \<noteq> slash) p")
    case Nil
    have "splits p = [takeWhile (\<lambda>c. c \<noteq> slash) p]" by (subst splits_split) (simp only: Nil list.case)
    then show ?thesis using \<open>takeWhile (\<lambda>c. c \<noteq> slash) p \<noteq> []\<close> unfolding Nil by (simp add: elements_def)
  next
    case (Cons c r)
    have "splits p = takeWhile (\<lambda>c. c \<noteq> slash) p # splits r" by (subst splits_split) (simp only: Cons list.case)
    moreover have "c = slash" using Cons hd_dropWhile [of "\<lambda>c. c \<noteq> slash" p] by simp
    ultimately show ?thesis using \<open>takeWhile (\<lambda>c. c \<noteq> slash) p \<noteq> []\<close> unfolding Cons by (simp add: elements_def)
  qed
qed

lemma cname_filled:
  assumes "0 \<notin> set xs"
  shows "cname (if length xs \<ge> DIRSIZ then (\<lambda>j. if j < DIRSIZ then xs ! j else name j)
     else (\<lambda>j. if j < length xs then xs ! j else if j = length xs then 0 else name j)) = take DIRSIZ xs"
proof (cases "length xs \<ge> DIRSIZ")
  case True
  then have "bytes (\<lambda>j. if j < DIRSIZ then xs ! j else name j) 0 DIRSIZ = take DIRSIZ xs"
    by (intro nth_equalityI) simp_all
  moreover have "takeWhile (\<lambda>b. b \<noteq> 0) (take DIRSIZ xs) = take DIRSIZ xs"
    using assms by (auto simp: takeWhile_eq_all_conv dest: in_set_takeD)
  ultimately show ?thesis using True by (simp add: cname_def cstr_def)
next
  case False
  let ?f = "\<lambda>j. if j < length xs then xs ! j else if j = length xs then 0 else name j"
  have "bytes ?f 0 DIRSIZ = xs @ 0 # bytes ?f (length xs + 1) (DIRSIZ - length xs - 1)"
    using False by (intro nth_equalityI) (auto simp: nth_append nth_Cons split: nat.split intro!: arg_cong [where f = name])
  moreover have "takeWhile (\<lambda>b. b \<noteq> 0) (xs @ 0 # ys) = xs" for ys
    using assms by (subst takeWhile_append2) auto
  ultimately show ?thesis using False by (simp add: cname_def cstr_def)
qed

text \<open>
  C16: \<open>skipelem\<close> splits a path.  Called until it returns a null pointer, it delivers the pieces of the path
  between slashes, repeated, leading and trailing slashes ignored, each cut to \<open>DIRSIZ\<close> bytes, whatever the name buffer
  held before.
\<close>
theorem skipelem_splits_path:
  assumes "0 \<notin> set path"
  shows "path_names path name = elements path"
  using assms
proof (induction path name rule: path_names.induct)
  case (1 path name)
  let ?p = "dropWhile (\<lambda>c. c = slash) path"
  let ?s = "takeWhile (\<lambda>c. c \<noteq> slash) ?p" and ?r = "dropWhile (\<lambda>c. c \<noteq> slash) ?p"
  show ?case
  proof (cases "?p = []")
    case True
    then have "elements path = []" by (metis elements_Nil elements_slash)
    then show ?thesis using True by (simp add: path_names.simps skipelem_def)
  next
    case False
    have z: "0 \<notin> set ?s" "0 \<notin> set (dropWhile (\<lambda>c. c = slash) ?r)"
      using "1.prems" by (auto dest: set_takeWhileD set_dropWhileD)
    obtain n' where sk: "skipelem path name = Some (dropWhile (\<lambda>c. c = slash) ?r, n')"
      and n': "cname n' = take DIRSIZ ?s"
      using False cname_filled [OF z(1), of name] by (auto simp: skipelem_def Let_def)
    have "hd ?p \<noteq> slash" using hd_dropWhile [OF False] by simp
    then have "elements path = take DIRSIZ ?s # elements ?r"
      using elements_step [OF False] elements_slash [of path] by simp
    then show ?thesis
      using "1.IH" [OF sk refl z(2)] n' elements_slash [of ?r] by (subst path_names.simps) (simp add: sk)
  qed
qed

section \<open>Looking up a name\<close>

lemma cstr_shift: "cstr (\<lambda>j. m (j + k)) a n = cstr m (a + k) n"
  by (simp add: cstr_def bytes_def add.commute add.left_commute)

lemma namecmp_eq_0: "namecmp s t = 0 \<longleftrightarrow> cname s = cname t"
proof -
  have "cstr (two_names s t) 0 DIRSIZ = cname s"
    unfolding cname_def by (rule cstr_cong) (simp add: two_names_def)
  moreover have "cstr (two_names s t) DIRSIZ DIRSIZ = cname t"
    unfolding cname_def cstr_def bytes_def by (simp add: two_names_def)
  ultimately show ?thesis by (simp add: namecmp_def strncmp_eq_0)
qed

lemma find_append: "find P (xs @ ys) = (case find P xs of None \<Rightarrow> find P ys | Some x \<Rightarrow> Some x)"
  by (induction xs) auto

lemma find_map_shift: "find P [k..<k + n] = map_option (\<lambda>e. k + e) (find (\<lambda>e. P (k + e)) [0..<n])"
proof -
  have "[k..<k + n] = map (\<lambda>e. k + e) [0..<n]" using map_add_upt [of k n] by (simp add: add.commute)
  moreover have "find P (map f xs) = map_option f (find (\<lambda>e. P (f e)) xs)" for f :: "nat \<Rightarrow> nat" and xs
    by (induction xs) auto
  ultimately show ?thesis by simp
qed

definition dir_blocks :: "fs \<Rightarrow> nat \<Rightarrow> nat" where
  "dir_blocks s i = (unat (isize (icache s i)) + BSIZE - 1) div BSIZE"

definition dir_find :: "fs \<Rightarrow> nat \<Rightarrow> (nat \<Rightarrow> u8) \<Rightarrow> nat option" where
  "dir_find s i name = find (entry_match (fbyte s i) name) [0..<32 * dir_blocks s i]"

text \<open>An entry of a block of the directory is an entry of the directory as a sequence of bytes.\<close>

lemma entry_match_cong:
  assumes "\<And>q. q < 16 \<Longrightarrow> d (16 * e + q) = d' (16 * e' + q)"
  shows "entry_inum d e = entry_inum d' e'" "entry_match d name e = entry_match d' name e'"
    "cname (entry_name d e) = cname (entry_name d' e')"
proof -
  show i: "entry_inum d e = entry_inum d' e'"
    using assms [of 0] assms [of 1] by (simp add: entry_inum_def get16_def)
  show n: "cname (entry_name d e) = cname (entry_name d' e')"
    unfolding cname_def
  proof (rule cstr_cong)
    fix j assume "j < DIRSIZ"
    then show "entry_name d e (0 + j) = entry_name d' e' (0 + j)"
      using assms [of "2 + j"] by (simp add: entry_name_def DIRSIZ_def add.assoc)
  qed
  show "entry_match d name e = entry_match d' name e'"
    by (simp add: entry_match_def i n namecmp_eq_0)
qed

lemma dir_block_bytes:
  assumes "inode_good s i" "BSIZE * y < unat (isize (icache s i))"
  shows "bmap i y s = Some (slot_addr (itype (icache s i)) (fdisk s) (idev (icache s i)) (iaddrs (icache s i)) y, s)"
    "q < BSIZE \<Longrightarrow> fdisk s (idev (icache s i)) (slot_addr (itype (icache s i)) (fdisk s) (idev (icache s i)) (iaddrs (icache s i)) y) q =
      fbyte s i (BSIZE * y + q)"
proof -
  note gd = inode_goodD [OF assms(1)]
  have B: "0 < BSIZE" by (simp add: BSIZE_def)
  have nz: "slot_addr (itype (icache s i)) (fdisk s) (idev (icache s i)) (iaddrs (icache s i)) y \<noteq> 0"
    using gd(5) [OF assms(2)] B by simp
  have "y < MAXFILE" using less_MAXFILE_block [OF less_le_trans [OF assms(2) gd(4)]] B by simp
  from bmap_mapped [OF view_self gd(1) this nz]
  show "bmap i y s = Some (slot_addr (itype (icache s i)) (fdisk s) (idev (icache s i)) (iaddrs (icache s i)) y, s)" .
  show "fdisk s (idev (icache s i)) (slot_addr (itype (icache s i)) (fdisk s) (idev (icache s i)) (iaddrs (icache s i)) y) q =
      fbyte s i (BSIZE * y + q)" if "q < BSIZE"
    using nz that by (simp add: fbyte_def file_byte_def Let_def)
qed

lemma dir_blocks_iff: "y < dir_blocks s i \<longleftrightarrow> BSIZE * y < unat (isize (icache s i))"
proof -
  have "y < (z + BSIZE - 1) div BSIZE \<longleftrightarrow> BSIZE * y < z" for z
    using less_eq_div_iff_mult_less_eq [of BSIZE "Suc y" "z + BSIZE - 1"] by (auto simp: fs_consts Suc_le_eq)
  then show ?thesis by (simp add: dir_blocks_def)
qed

lemma dirlookup_loop_spec:
  assumes good: "inode_good s i"
  shows "y \<le> dir_blocks s i \<Longrightarrow> dirlookup_loop i name (unat (isize (icache s i))) (BSIZE * y) s =
    (case find (entry_match (fbyte s i) name) [32 * y..<32 * dir_blocks s i] of None \<Rightarrow> Some (None, s)
     | Some e \<Rightarrow> do {(j, s') \<leftarrow> iget (idev (icache s i)) (ucast (entry_inum (fbyte s i) e)) s; Some (Some (j, 16 * e), s')})"
proof (induction "dir_blocks s i - y" arbitrary: y)
  case 0
  then have "y = dir_blocks s i" by simp
  moreover from this have "\<not> BSIZE * y < unat (isize (icache s i))" using dir_blocks_iff [of y s i] by simp
  ultimately show ?case by (subst dirlookup_loop.simps) simp
next
  case (Suc n)
  let ?dev = "idev (icache s i)"
  let ?b = "slot_addr (itype (icache s i)) (fdisk s) ?dev (iaddrs (icache s i)) y"
  have y: "BSIZE * y < unat (isize (icache s i))" "Suc y \<le> dir_blocks s i" "n = dir_blocks s i - Suc y"
    using Suc(2) dir_blocks_iff [of y s i] by linarith+
  note blk = dir_block_bytes [OF good y(1)]
  have eq: "entry_inum (fdisk s ?dev ?b) e = entry_inum (fbyte s i) (32 * y + e)"
    "entry_match (fdisk s ?dev ?b) name e = entry_match (fbyte s i) name (32 * y + e)" if "e < 32" for e
    using that by (intro entry_match_cong, simp add: blk(2) BSIZE_def algebra_simps)+
  have f32: "find (entry_match (fbyte s i) name) [32 * y..<32 * y + 32] =
      map_option (\<lambda>e. 32 * y + e) (find (entry_match (fdisk s ?dev ?b) name) [0..<32])"
  proof -
    have "find (\<lambda>e. entry_match (fbyte s i) name (32 * y + e)) [0..<32] = find (entry_match (fdisk s ?dev ?b) name) [0..<32]"
      using eq by (intro find_cong) auto
    then show ?thesis by (simp add: find_map_shift)
  qed
  have sp: "[32 * y..<32 * dir_blocks s i] = [32 * y..<32 * y + 32] @ [32 * Suc y..<32 * dir_blocks s i]"
    using upt_add_eq_append [of "32 * y" "32 * y + 32" "32 * dir_blocks s i - (32 * y + 32)"] y(2)
    by (simp add: add.commute)
  have B: "BSIZE * y div BSIZE = y" "BSIZE * y + BSIZE = BSIZE * Suc y" "BSIZE div 16 = 32" by (simp_all add: BSIZE_def)
  show ?case
  proof (cases "find (entry_match (fdisk s ?dev ?b) name) [0..<32]")
    case None
    then show ?thesis using Suc(1) [OF y(3,2)] y(1) f32
      by (subst dirlookup_loop.simps) (simp add: B blk(1) sp find_append)
  next
    case (Some e)
    then have e: "e < 32" by (auto simp: find_Some_iff)
    have fr: "find (entry_match (fbyte s i) name) [32 * y..<32 * dir_blocks s i] = Some (32 * y + e)"
      by (simp add: sp find_append f32 Some)
    have off: "BSIZE * y + 16 * e = 16 * (32 * y + e)" by (simp add: BSIZE_def)
    show ?thesis using y(1) Some eq(1) [OF e]
      by (subst dirlookup_loop.simps) (simp only: fr B blk(1) Option.bind.simps(2) prod.case Let_def option.case if_True off)
  qed
qed

lemma dirlookup_spec:
  assumes "inode_good s i" "itype (icache s i) = T_DIR"
  shows "dirlookup i name s = (case dir_find s i name of None \<Rightarrow> Some (None, s)
     | Some e \<Rightarrow> do {(j, s') \<leftarrow> iget (idev (icache s i)) (ucast (entry_inum (fbyte s i) e)) s; Some (Some (j, 16 * e), s')})"
  using dirlookup_loop_spec [OF assms(1), of 0 name] assms(2) by (simp add: dirlookup_def dir_find_def)

section \<open>Adding an entry\<close>

text \<open>
  A well-formed directory: a well-formed file of whole entries, with nothing but zeros after its end.
\<close>

definition dir_good :: "fs \<Rightarrow> nat \<Rightarrow> bool" where
  "dir_good s i \<longleftrightarrow> inode_good s i \<and> itype (icache s i) = T_DIR \<and> 16 dvd unat (isize (icache s i)) \<and>
     (\<forall>p. unat (isize (icache s i)) \<le> p \<and> p < MAXFILE * BSIZE \<longrightarrow> fbyte s i p = 0)"

text \<open>The directory as a map from names to inode numbers.\<close>

definition dir_map :: "fs \<Rightarrow> nat \<Rightarrow> u8 list \<Rightarrow> u16 option" where
  "dir_map s i nm = map_option (entry_inum (fbyte s i))
     (find (\<lambda>e. entry_inum (fbyte s i) e \<noteq> 0 \<and> cname (entry_name (fbyte s i) e) = nm)
        [0..<unat (isize (icache s i)) div 16])"

lemma dir_goodD:
  assumes "dir_good s i"
  shows "inode_good s i" "itype (icache s i) = T_DIR" "16 dvd unat (isize (icache s i))"
    "unat (isize (icache s i)) \<le> p \<Longrightarrow> p < MAXFILE * BSIZE \<Longrightarrow> fbyte s i p = 0"
  using assms by (simp_all add: dir_good_def)

lemma beyond_end:
  assumes "dir_good s i" "unat (isize (icache s i)) div 16 \<le> e" "e < 32 * dir_blocks s i"
  shows "entry_inum (fbyte s i) e = 0"
proof -
  have "(dir_blocks s i - 1) < dir_blocks s i" using assms(3) by simp
  then have "BSIZE * (dir_blocks s i - 1) < MAXFILE * BSIZE"
    using dir_blocks_iff [of "dir_blocks s i - 1" s i] inode_goodD(4) [OF dir_goodD(1) [OF assms(1)]] by linarith
  from less_MAXFILE_block [OF this] have "dir_blocks s i \<le> MAXFILE" by (simp add: BSIZE_def)
  then have e: "16 * e + 1 < MAXFILE * BSIZE" using assms(3) by (simp add: fs_consts)
  have "unat (isize (icache s i)) \<le> 16 * e" using assms(2) dir_goodD(3) [OF assms(1)] by auto
  then show ?thesis
    using dir_goodD(4) [OF assms(1), of "16 * e"] dir_goodD(4) [OF assms(1), of "16 * e + 1"] e
    by (simp add: entry_inum_def get16_def)
qed

lemma entries_in_blocks: "unat (isize (icache s i)) div 16 \<le> 32 * dir_blocks s i"
proof -
  have "\<not> BSIZE * dir_blocks s i < unat (isize (icache s i))" using dir_blocks_iff [of "dir_blocks s i" s i] by simp
  then have "unat (isize (icache s i)) div 16 \<le> BSIZE * dir_blocks s i div 16" by (intro div_le_mono) simp
  then show ?thesis by (simp add: BSIZE_def)
qed

lemma find_cut:
  assumes "n \<le> m" "\<And>e. n \<le> e \<Longrightarrow> e < m \<Longrightarrow> \<not> P e"
  shows "find P [0..<m] = find P [0..<n]"
proof -
  have "[0..<m] = [0..<n] @ [n..<m]" using upt_add_eq_append [of 0 n "m - n"] assms(1) by simp
  moreover have "find P [n..<m] = None" using assms(2) by (auto simp: find_None_iff)
  ultimately show ?thesis by (simp add: find_append split: option.split)
qed

lemma dir_find_map:
  assumes "dir_good s i"
  shows "map_option (entry_inum (fbyte s i)) (dir_find s i name) = dir_map s i (cname name)"
    "dir_find s i name = Some e \<Longrightarrow> e < unat (isize (icache s i)) div 16"
proof -
  have "dir_find s i name = find (entry_match (fbyte s i) name) [0..<unat (isize (icache s i)) div 16]"
    unfolding dir_find_def
    by (rule find_cut [OF entries_in_blocks]) (auto simp: entry_match_def beyond_end [OF assms])
  moreover have "entry_match (fbyte s i) name =
      (\<lambda>e. entry_inum (fbyte s i) e \<noteq> 0 \<and> cname (entry_name (fbyte s i) e) = cname name)"
    by (auto simp: entry_match_def namecmp_eq_0 fun_eq_iff)
  ultimately show "map_option (entry_inum (fbyte s i)) (dir_find s i name) = dir_map s i (cname name)"
    "dir_find s i name = Some e \<Longrightarrow> e < unat (isize (icache s i)) div 16"
    by (auto simp: dir_map_def find_Some_iff)
qed

lemma read_entry:
  assumes "dir_good s i" "off mod 16 = 0" "off < unat (isize (icache s i))"
  shows "readi dv i (of_nat off) 16 s = Some (16, map (\<lambda>j. fbyte s i (off + j)) [0..<16], s)"
proof -
  note gd = inode_goodD [OF dir_goodD(1) [OF assms(1)]]
  have o31: "off < 2 ^ 31 - 16" using assms(3) gd(4) by (simp add: fs_consts)
  have uo: "unat (of_nat off :: u32) = off" using o31 by (simp add: unat_of_nat)
  have le: "off + 16 \<le> unat (isize (icache s i))"
    using assms(2,3) dir_goodD(3) [OF assms(1)] by (elim dvdE) presburger
  have "take 16 (drop off (contents s i)) = map (\<lambda>j. fbyte s i (off + j)) [0..<16]"
    using le by (intro nth_equalityI) (simp_all add: contents_fbyte)
  moreover have "itype (icache s i) \<noteq> T_CHECKED" using dir_goodD(2) [OF assms(1)] by (simp add: T_DIR_def T_CHECKED_def)
  ultimately show ?thesis
    using readi_spec [OF dir_goodD(1) [OF assms(1)], of "of_nat off" 16 dv] uo o31 assms(3)
    by (simp add: word_le_nat_alt)
qed

text \<open>The slot \<open>dirlink\<close> writes: the first empty entry, or the end.\<close>

definition free_entry :: "fs \<Rightarrow> nat \<Rightarrow> nat" where
  "free_entry s i = (case find (\<lambda>e. entry_inum (fbyte s i) e = 0) [0..<unat (isize (icache s i)) div 16] of
     Some e \<Rightarrow> e | None \<Rightarrow> unat (isize (icache s i)) div 16)"

lemma get16_0: "get16 d p = 0 \<longleftrightarrow> d p = 0 \<and> d (p + 1) = 0"
proof
  assume z: "get16 d p = 0"
  have "bit (d p) n = bit (get16 d p) n" if "n < 8" for n
    using that by (simp add: get16_def bit_simps)
  moreover have "bit (d (p + 1)) n = bit (get16 d p) (n + 8)" if "n < 8" for n
    using that by (auto simp: get16_def bit_simps dest: bit_imp_le_length)
  ultimately show "d p = 0 \<and> d (p + 1) = 0" using z by (auto intro!: bit_word_eqI)
qed (simp add: get16_def)

lemma dirlink_loop_spec:
  assumes "dir_good s i" "e \<le> unat (isize (icache s i)) div 16"
  shows "dirlink_loop dv i (unat (isize (icache s i))) (16 * e) s =
    Some (16 * (case find (\<lambda>e. entry_inum (fbyte s i) e = 0) [e..<unat (isize (icache s i)) div 16] of
       Some e \<Rightarrow> e | None \<Rightarrow> unat (isize (icache s i)) div 16), s)"
  using assms(2)
proof (induction "unat (isize (icache s i)) div 16 - e" arbitrary: e)
  case 0
  then have e: "e = unat (isize (icache s i)) div 16" by simp
  then have "16 * e = unat (isize (icache s i))" using dir_goodD(3) [OF assms(1)] by auto
  then show ?case by (subst dirlink_loop.simps) (simp add: e)
next
  case (Suc n)
  let ?N = "unat (isize (icache s i)) div 16"
  have e: "e < ?N" "Suc e \<le> ?N" "n = ?N - Suc e" using Suc(2) by linarith+
  then have lt: "16 * e < unat (isize (icache s i))" by linarith
  have u: "[e..<?N] = e # [Suc e..<?N]" using e(1) by (rule upt_conv_Cons)
  note rd = read_entry [OF assms(1) _ lt, of dv]
  show ?case
    using Suc(1) [OF e(3,2)] lt rd
    by (subst dirlink_loop.simps) (simp add: u entry_inum_def get16_0 add.commute)
qed

lemma new_entry_fields:
  "entry_inum (new_entry name n) 0 = ucast n" "cname (entry_name (new_entry name n) 0) = cname name"
proof -
  show "entry_inum (new_entry name n) 0 = ucast n" by (simp add: entry_inum_def new_entry_def)
  let ?m = "two_names (\<lambda>_. 0) name"
  let ?c = "strncpy ?m 0 DIRSIZ (int DIRSIZ)"
  have name: "cstr ?m DIRSIZ DIRSIZ = cname name"
    unfolding cname_def cstr_def bytes_def by (simp add: two_names_def)
  have "bytes ?c 0 DIRSIZ = cname name @ replicate (DIRSIZ - length (cname name)) 0"
    using strncpy_spec [of 0 DIRSIZ DIRSIZ ?m] name by simp
  moreover have "takeWhile (\<lambda>b. b \<noteq> 0) (cname name @ replicate k 0) = cname name" for k
  proof -
    have "\<forall>b\<in>set (cname name). b \<noteq> 0" unfolding cname_def cstr_def by (auto dest: set_takeWhileD)
    then show ?thesis by (cases k) (simp_all add: takeWhile_append2)
  qed
  ultimately have "cname ?c = cname name" by (simp add: cname_def cstr_def)
  moreover have "cname (entry_name (new_entry name n) 0) = cname ?c"
    unfolding cname_def by (rule cstr_cong) (simp add: entry_name_def new_entry_def put16_def)
  ultimately show "cname (entry_name (new_entry name n) 0) = cname name" by simp
qed

lemma free_entry_props:
  assumes "dir_good s i"
  shows "free_entry s i \<le> unat (isize (icache s i)) div 16"
    "free_entry s i < unat (isize (icache s i)) div 16 \<Longrightarrow> entry_inum (fbyte s i) (free_entry s i) = 0"
  by (auto simp: free_entry_def find_Some_iff split: option.split)

text \<open>The directory after one entry has been overwritten, as a map.\<close>

lemma dir_map_update:
  assumes N: "unat (isize (icache s i)) div 16 = N" "unat (isize (icache s' i)) div 16 = max N (e0 + 1)"
    and e0: "e0 \<le> N" "e0 < N \<Longrightarrow> entry_inum (fbyte s i) e0 = 0"
    and same: "\<And>e. e < max N (e0 + 1) \<Longrightarrow> e \<noteq> e0 \<Longrightarrow> entry_inum (fbyte s' i) e = entry_inum (fbyte s i) e \<and>
      cname (entry_name (fbyte s' i) e) = cname (entry_name (fbyte s i) e)"
    and new: "entry_inum (fbyte s' i) e0 = v" "cname (entry_name (fbyte s' i) e0) = nm" "v \<noteq> 0"
    and none: "dir_map s i nm = None"
  shows "dir_map s' i = (dir_map s i)(nm \<mapsto> v)"
proof
  fix t
  let ?P = "\<lambda>e. entry_inum (fbyte s i) e \<noteq> 0 \<and> cname (entry_name (fbyte s i) e) = t"
  let ?P' = "\<lambda>e. entry_inum (fbyte s' i) e \<noteq> 0 \<and> cname (entry_name (fbyte s' i) e) = t"
  let ?M = "max N (e0 + 1)"
  show "dir_map s' i t = ((dir_map s i)(nm \<mapsto> v)) t"
  proof (cases "t = nm")
    case True
    have "\<not> ?P' e" if "e < e0" for e
    proof -
      have "\<not> ?P e" using none that e0(1) True by (auto simp: dir_map_def find_None_iff N(1))
      then show ?thesis using same [of e] that by auto
    qed
    then have "\<forall>e<e0. \<not> ?P' e" by blast
    then have "find ?P' [0..<?M] = Some e0"
      using new True by (auto simp: find_Some_iff intro!: exI [of _ e0])
    then show ?thesis using True new(1) by (simp add: dir_map_def N(2))
  next
    case False
    have eq: "?P' e = ?P e \<or> e = e0 \<and> \<not> ?P' e" if "e < ?M" for e
      using same [OF that] new(2) False by (cases "e = e0") auto
    have "find ?P' [0..<?M] = find ?P [0..<N]"
    proof -
      have "e = e0" if "N \<le> e" "e < ?M" for e using that e0(1) by (simp add: max_def split: if_splits)
      then have "find ?P' [0..<?M] = find ?P' [0..<N]"
        using new(2) False by (intro find_cut [OF max.cobounded1]) blast
      also have "\<dots> = find ?P [0..<N]"
        using eq e0(2) by (intro find_cong) (auto, (metis max.strict_coboundedI1)+)
      finally show ?thesis .
    qed
    moreover have "entry_inum (fbyte s' i) e = entry_inum (fbyte s i) e" if "find ?P [0..<N] = Some e" for e
    proof -
      have e: "e < N" "entry_inum (fbyte s i) e \<noteq> 0" using that by (auto simp: find_Some_iff)
      then have "e \<noteq> e0" using e0(2) by auto
      then show ?thesis using same [of e] e(1) by (simp add: less_max_iff_disj)
    qed
    ultimately show ?thesis using False
      by (cases "find ?P [0..<N]") (auto simp: dir_map_def N)
  qed
qed

lemma dirlink_spec:
  assumes good: "dir_good s i" and none: "dir_map s i (cname name) = None" and n: "(ucast n :: u16) \<noteq> 0"
    and fits: "unat (isize (icache s i)) + 16 \<le> MAXFILE * BSIZE" and rm: "room s i (16 * free_entry s i) 16"
  shows "\<exists>s'. dirlink dv i name n s = Some (0, s') \<and> dir_good s' i \<and> write_frame i s s' \<and>
    dir_map s' i = (dir_map s i)(cname name \<mapsto> ucast n)"
proof -
  let ?sz = "unat (isize (icache s i))" and ?e = "free_entry s i"
  let ?N = "?sz div 16"
  note ig = dir_goodD(1) [OF good]
  have N: "16 * ?N = ?sz" using dir_goodD(3) [OF good] by simp
  have e: "?e \<le> ?N" and e0: "?e < ?N \<Longrightarrow> entry_inum (fbyte s i) ?e = 0" by (rule free_entry_props [OF good])+
  have off: "unat (of_nat (16 * ?e) :: u32) = 16 * ?e"
    using e N fits by (simp only: unat_of_nat) (simp add: fs_consts)
  have "dir_find s i name = None" using dir_find_map(1) [OF good, of name] none by simp
  then have lk: "dirlookup i name s = Some (None, s)" by (simp add: dirlookup_spec [OF ig dir_goodD(2) [OF good]])
  have lp: "dirlink_loop dv i ?sz 0 s = Some (16 * ?e, s)"
    using dirlink_loop_spec [OF good, of 0 dv] by (simp add: free_entry_def)
  have o: "of_nat (16 * ?e) \<le> isize (icache s i)" using off e N by (simp add: word_le_nat_alt)
  have f: "unat (of_nat (16 * ?e) :: u32) + unat (16 :: u32) \<le> MAXFILE * BSIZE" using off e N fits by simp
  have r: "room s i (unat (of_nat (16 * ?e) :: u32)) (unat (16 :: u32))" using off rm by simp
  from writei_spec [OF ig o f r, of dv "new_entry name n"] obtain s' a z where
    w: "writei dv i (new_entry name n) (of_nat (16 * ?e)) 16 s = Some (16, s')" "inode_good s' i" "write_frame i s s'"
      "icache s' i = (icache s i)\<lparr>iaddrs := a, isize := z\<rparr>" "unat z = max ?sz (16 * ?e + 16)"
    and bt: "\<And>p. p < MAXFILE * BSIZE \<Longrightarrow> fbyte s' i p =
        (if 16 * ?e \<le> p \<and> p < 16 * ?e + 16 then new_entry name n (p - 16 * ?e) else fbyte s i p)"
    unfolding off by auto
  have N': "unat (isize (icache s' i)) div 16 = max ?N (?e + 1)"
    using w(4,5) N by (simp add: max_def)
  have zz: "max ?sz (16 * ?e + 16) \<le> MAXFILE * BSIZE" using e N fits by simp
  have same: "entry_inum (fbyte s' i) x = entry_inum (fbyte s i) x \<and> cname (entry_name (fbyte s' i) x) = cname (entry_name (fbyte s i) x)"
    if "x < max ?N (?e + 1)" "x \<noteq> ?e" for x
  proof -
    have "fbyte s' i (16 * x + q) = fbyte s i (16 * x + q)" if "q < 16" for q
      using bt [of "16 * x + q"] that \<open>x < max ?N (?e + 1)\<close> \<open>x \<noteq> ?e\<close> e N zz by auto
    then show ?thesis using entry_match_cong(1,3) [of "fbyte s' i" x "fbyte s i" x] by blast
  qed
  have new: "fbyte s' i (16 * ?e + q) = new_entry name n (16 * 0 + q)" if "q < 16" for q
    using bt [of "16 * ?e + q"] that zz by simp
  note cg = entry_match_cong(1,3) [of "fbyte s' i" ?e "new_entry name n" 0, OF new]
  have "dir_map s' i = (dir_map s i)(cname name \<mapsto> ucast n)"
    using cg new_entry_fields [of name n] n none
    by (intro dir_map_update [OF refl N' e e0 same]) simp_all
  moreover have "dir_good s' i"
    using w(2,4,5) dir_goodD(2-4) [OF good] bt e by (auto simp: dir_good_def max_def)
  moreover have "dirlink dv i name n s = Some (0, s')" using w(1) by (simp add: dirlink_def lk lp)
  ultimately show ?thesis using w(3) by blast
qed

text \<open>
  \<open>dirlookup\<close> implements lookup in a map.  In a well-formed directory it returns a null pointer exactly
  when the name is not bound, and otherwise a reference, obtained with \<open>iget\<close>, to the inode bound to
  it; names are compared as C strings of at most \<open>DIRSIZ\<close> bytes.
\<close>
theorem dirlookup_refines_map:
  assumes "dir_good s i"
  shows "(dir_map s i (cname name) = None \<longrightarrow> dirlookup i name s = Some (None, s)) \<and>
    (\<forall>n. dir_map s i (cname name) = Some n \<longrightarrow> (\<exists>off. off < unat (isize (icache s i)) \<and> dirlookup i name s =
       do {(j, s') \<leftarrow> iget (idev (icache s i)) (ucast n) s; Some (Some (j, off), s')}))"
proof -
  note sp = dirlookup_spec [OF dir_goodD(1,2) [OF assms], of name] and fm = dir_find_map [OF assms, of name]
  show ?thesis
  proof (cases "dir_find s i name")
    case None
    then show ?thesis using sp fm(1) by simp
  next
    case (Some e)
    have "16 * e < unat (isize (icache s i))" using fm(2) [OF Some] by linarith
    then show ?thesis using sp fm(1) Some by auto
  qed
qed

text \<open>
  C8: \<open>dirlink\<close> implements an update of the map.  In a well-formed directory where the name is not bound,
  for a nonzero inode number and with room for the entry, \<open>dirlink\<close> returns 0 without panic; afterwards the
  name is bound to the inode number, every other name is bound as before, the directory is well-formed,
  and outside it nothing changes but the free blocks it takes and its own disk inode (\<open>write_frame\<close>).
\<close>
theorem dirlink_refines_map:
  assumes "dir_good s i" "dir_map s i (cname name) = None" "(ucast n :: u16) \<noteq> 0"
    "unat (isize (icache s i)) + 16 \<le> MAXFILE * BSIZE" "room s i (16 * free_entry s i) 16"
  shows "\<exists>s'. dirlink dv i name n s = Some (0, s') \<and> dir_good s' i \<and> write_frame i s s' \<and>
    dir_map s' i = (dir_map s i)(cname name \<mapsto> ucast n)"
  by (rule dirlink_spec [OF assms])

section \<open>References and locks in path lookup\<close>

definition kept :: "fs \<Rightarrow> fs \<Rightarrow> bool" where
  "kept s s' \<longleftrightarrow> (\<forall>j. iref (icache s' j) = iref (icache s j) \<and> ident (icache s' j) = ident (icache s j) \<and>
     ibusy (icache s' j) = ibusy (icache s j))"

lemma keptD:
  assumes "kept s s'"
  shows "icache_inv s' = icache_inv s" "refs s' = refs s" "iref (icache s' j) = iref (icache s j)"
    "ident (icache s' j) = ident (icache s j)" "ibusy (icache s' j) = ibusy (icache s j)"
  using assms icache_inv_same [of s s'] icache_inv_same [of s' s] refs_same [of s' s]
  by (auto simp: kept_def)

lemma kept_set_addr: "kept s (set_addr i n a (s\<lparr>fdisk := k\<rparr>))"
  by (simp add: kept_def set_addr_def upd_inode_def ident_def)

lemma bmap_kept: "bmap i bn s = Some (b, s') \<Longrightarrow> kept s s'"
  using kept_set_addr [of s i] by (auto simp: bmap_def Let_def kept_def Option.bind_eq_Some_conv ident_def split: if_splits)

text \<open>Slot \<open>i\<close> holds a reference to the inode \<open>x\<close>.\<close>

definition holds :: "fs \<Rightarrow> nat \<Rightarrow> u32 \<times> u32 \<Rightarrow> bool" where
  "holds s i x \<longleftrightarrow> i < NINODE \<and> 0 < iref (icache s i) \<and> ident (icache s i) = x"

lemma holdsD: "holds s i x \<Longrightarrow> i < NINODE" "holds s i x \<Longrightarrow> 0 < iref (icache s i)" "holds s i x \<Longrightarrow> ident (icache s i) = x"
  by (simp_all add: holds_def)

lemma holds_cong: "iref (icache s' i) = iref (icache s i) \<Longrightarrow> ident (icache s' i) = ident (icache s i) \<Longrightarrow>
    holds s' i x = holds s i x"
  by (simp add: holds_def)

lemma refs_holds: "x \<in># refs s \<Longrightarrow> \<exists>i. holds s i x"
  unfolding refs_def set_mset_sum [OF finite_lessThan] by (auto simp: holds_def split: if_splits)

text \<open>A new reference: what \<open>iget\<close> does to the table, to the locks and to a slot that is in use.\<close>

lemma iget_effect:
  assumes inv: "icache_inv s" and g: "iget dev n s = Some (j, s')"
  shows "icache_inv s'" "j < NINODE" "0 < iref (icache s' j)" "refs s' = add_mset (ident (icache s' j)) (refs s)"
    "ibusy (icache s' l) \<Longrightarrow> ibusy (icache s l)"
    "0 < iref (icache s i) \<Longrightarrow> 0 < iref (icache s' i) \<and> ident (icache s' i) = ident (icache s i) \<and>
       ibusy (icache s' i) = ibusy (icache s i)"
proof -
  note c = iget_counts [OF inv g]
  show "icache_inv s'" "j < NINODE" "0 < iref (icache s' j)" "refs s' = add_mset (ident (icache s' j)) (refs s)"
    using c by auto
  show "ibusy (icache s' l) \<Longrightarrow> ibusy (icache s l)"
    "0 < iref (icache s i) \<Longrightarrow> 0 < iref (icache s' i) \<and> ident (icache s' i) = ident (icache s i) \<and>
       ibusy (icache s' i) = ibusy (icache s i)"
    using g by (cases rule: iget_cases; cases "l = j"; cases "i = j"; simp add: ident_def)+
qed

lemma dirlookup_loop_refs:
  "\<lbrakk>dirlookup_loop i name sz off s = Some (r, s'); icache_inv s; 0 < iref (icache s i)\<rbrakk> \<Longrightarrow>
     icache_inv s' \<and> (\<forall>l. ibusy (icache s' l) \<longrightarrow> ibusy (icache s l)) \<and>
     (\<forall>l x. holds s l x \<longrightarrow> holds s' l x) \<and>
     0 < iref (icache s' i) \<and> ident (icache s' i) = ident (icache s i) \<and> ibusy (icache s' i) = ibusy (icache s i) \<and>
     (case r of None \<Rightarrow> refs s' = refs s
      | Some (j, _) \<Rightarrow> j < NINODE \<and> 0 < iref (icache s' j) \<and> refs s' = add_mset (ident (icache s' j)) (refs s))"
proof (induction i name sz off s rule: dirlookup_loop.induct)
  case (1 i name sz off s)
  show ?case
  proof (cases "off < sz")
    case True
    with "1.prems"(1) obtain b s1 where b: "bmap i (off div BSIZE) s = Some (b, s1)"
      by (subst (asm) dirlookup_loop.simps) (auto simp: Option.bind_eq_Some_conv)
    note k = keptD [OF bmap_kept [OF b]]
    let ?d = "fdisk s1 (idev (icache s1 i)) b"
    show ?thesis
    proof (cases "find (entry_match ?d name) [0..<BSIZE div 16]")
      case None
      with "1.prems"(1) True b have "dirlookup_loop i name sz (off + BSIZE) s1 = Some (r, s')"
        by (subst (asm) dirlookup_loop.simps) simp
      from "1.IH" [OF True b refl refl None this] k "1.prems"(2,3) show ?thesis by (auto simp: holds_def split: option.splits)
    next
      case (Some e)
      with "1.prems"(1) True b obtain j where g: "iget (idev (icache s1 i)) (ucast (entry_inum ?d e)) s1 = Some (j, s')"
        and r: "r = Some (j, off + 16 * e)"
        by (subst (asm) dirlookup_loop.simps) (auto simp: Option.bind_eq_Some_conv)
      have "icache_inv s1" "0 < iref (icache s1 i)" using k "1.prems"(2,3) by simp_all
      with iget_effect [OF this(1) g] k r show ?thesis by (simp add: holds_def)
    qed
  next
    case False
    with "1.prems" have "r = None" "s' = s" by (subst (asm) dirlookup_loop.simps, simp)+
    with "1.prems" show ?thesis by simp
  qed
qed

lemma dirlookup_refs:
  assumes "dirlookup i name s = Some (r, s')" "icache_inv s" "0 < iref (icache s i)"
  shows "icache_inv s'" "ibusy (icache s' l) \<Longrightarrow> ibusy (icache s l)" "0 < iref (icache s' i)"
    "ident (icache s' i) = ident (icache s i)" "ibusy (icache s' i) = ibusy (icache s i)" "holds s m x \<Longrightarrow> holds s' m x"
    "r = None \<Longrightarrow> refs s' = refs s"
    "r = Some (j, off) \<Longrightarrow> j < NINODE \<and> 0 < iref (icache s' j) \<and> refs s' = add_mset (ident (icache s' j)) (refs s)"
  using dirlookup_loop_refs [of i name "unat (isize (icache s i))" 0 s r s'] assms
  by (auto simp: dirlookup_def simp del: split_paired_All split: if_splits)

lemma iput_refs:
  assumes "iput i s = Some s'" "icache_inv s" "i < NINODE" "0 < iref (icache s i)"
  shows "icache_inv s'" "refs s' = refs s - {#ident (icache s i)#}"
    "ibusy (icache s' l) \<Longrightarrow> ibusy (icache s l)" "j \<noteq> i \<Longrightarrow> icache s' j = icache s j"
    "ident (icache s' j) = ident (icache s j)"
proof -
  note f = iput_frame [OF assms(1)]
  show "icache_inv s'" "refs s' = refs s - {#ident (icache s i)#}"
    using slot_pred [OF assms(2,3,4)] f by auto
  show "j \<noteq> i \<Longrightarrow> icache s' j = icache s j" "ident (icache s' j) = ident (icache s j)" using f by (cases "j = i"; auto)+
  have "ibusy (icache s' i) \<Longrightarrow> ibusy (icache s i)"
    using assms(1) by (auto simp: iput_def Let_def Option.bind_eq_Some_conv upd_inode_def split: if_splits)
  then show "ibusy (icache s' l) \<Longrightarrow> ibusy (icache s l)" using f by (cases "l = i") auto
qed

lemma unlock_put_refs:
  assumes "iunlockput i s = Some s'" "icache_inv s" "i < NINODE" "0 < iref (icache s i)"
  shows "icache_inv s'" "refs s' = refs s - {#ident (icache s i)#}"
    "ibusy (icache s' l) \<Longrightarrow> ibusy (icache s l) \<and> l \<noteq> i" "ident (icache s' j) = ident (icache s j)"
    "j \<noteq> i \<Longrightarrow> icache s' j = icache s j"
    "iref (icache s' i) = iref (icache s i) - 1"
proof -
  from assms(1) obtain s1 where 1: "iunlock i s = Some s1" "iput i s1 = Some s'"
    by (auto simp: iunlockput_def Option.bind_eq_Some_conv)
  note u = iunlock_frame [OF 1(1)]
  have same: "iref (icache s1 x) = iref (icache s x)" "ident (icache s1 x) = ident (icache s x)" for x
    using u by (cases "x = i"; simp)+
  have s1: "icache_inv s1" "refs s1 = refs s" "0 < iref (icache s1 i)"
    using icache_inv_same [OF assms(2) same] refs_same [OF same] same assms(4) by simp_all
  note p = iput_refs [OF 1(2) s1(1) assms(3) s1(3)]
  show "icache_inv s'" "refs s' = refs s - {#ident (icache s i)#}" using p s1(2) same by simp_all
  show "ibusy (icache s' l) \<Longrightarrow> ibusy (icache s l) \<and> l \<noteq> i"
    using p(3) [of l] u by (cases "l = i") auto
  show "ident (icache s' j) = ident (icache s j)" using p(5) same by simp
  show "j \<noteq> i \<Longrightarrow> icache s' j = icache s j" using p(4) u by simp
  show "iref (icache s' i) = iref (icache s i) - 1" using iput_frame [OF 1(2)] same by simp
qed

lemma refs_positive:
  assumes "icache_inv s" "i < NINODE" "j < NINODE" "0 < iref (icache s i)" "0 < iref (icache s j)"
    "ident (icache s i) = ident (icache s j)"
  shows "i = j"
  using assms by (auto simp: icache_inv_def ident_def)

lemma refs_member: "i < NINODE \<Longrightarrow> 0 < iref (icache s i) \<Longrightarrow> ident (icache s i) \<in># refs s"
  unfolding refs_def by (subst sum.remove [of _ i]) auto

lemma refs_count:
  assumes inv: "icache_inv s" and i: "i < NINODE" "0 < iref (icache s i)"
  shows "count (refs s) (ident (icache s i)) = nat (iref (icache s i))"
proof -
  let ?f = "\<lambda>j. count (replicate_mset (nat (iref (icache s j))) (ident (icache s j))) (ident (icache s i))"
  have "?f j = 0" if "j \<in> {..<NINODE} - {i}" for j
  proof (cases "ident (icache s j) = ident (icache s i)")
    case True
    then have "\<not> 0 < iref (icache s j)" using refs_positive [OF inv i(1), of j] i(2) that by auto
    then show ?thesis by simp
  qed simp
  then have "(\<Sum>j\<in>{..<NINODE} - {i}. ?f j) = 0" by simp
  moreover have "count (refs s) (ident (icache s i)) = ?f i + (\<Sum>j\<in>{..<NINODE} - {i}. ?f j)"
    unfolding refs_def count_sum using i(1) by (subst sum.remove [of _ i]) simp_all
  ultimately show ?thesis by simp
qed

text \<open>Dropping a reference leaves every other pointer to a referenced inode valid.\<close>

lemma put_holds:
  assumes "icache_inv s" "i < NINODE" "0 < iref (icache s i)" "icache_inv s'" "\<And>j. j \<noteq> i \<Longrightarrow> icache s' j = icache s j"
    "ident (icache s' i) = ident (icache s i)" "holds s l x" "x \<in># refs s'"
  shows "holds s' l x"
proof (cases "l = i")
  case True
  obtain j where j: "holds s' j x" using refs_holds [OF assms(8)] by blast
  have "j = i"
  proof (rule ccontr)
    assume "j \<noteq> i"
    then have "holds s j x" using j assms(5) by (simp add: holds_def)
    then show False using \<open>j \<noteq> i\<close> refs_positive [OF assms(1), of j i] assms(2,3,7) True by (auto simp: holds_def)
  qed
  then show ?thesis using j True by simp
next
  case False
  then show ?thesis using assms(5,7) by (simp add: holds_def)
qed

text \<open>Every way the loop ends: the reference it was given is dropped, the one it returns is new, no lock is left.\<close>

definition walk_ok :: "nat \<Rightarrow> fs \<Rightarrow> nat option \<Rightarrow> fs \<Rightarrow> bool" where
  "walk_ok i s r s' \<longleftrightarrow> icache_inv s' \<and> (\<forall>l. ibusy (icache s' l) \<longrightarrow> ibusy (icache s l)) \<and>
     (\<forall>l x. holds s l x \<longrightarrow> x \<in># refs s - {#ident (icache s i)#} \<longrightarrow> holds s' l x) \<and>
     (case r of None \<Rightarrow> refs s' = refs s - {#ident (icache s i)#}
      | Some j \<Rightarrow> j < NINODE \<and> 0 < iref (icache s' j) \<and>
          refs s' = add_mset (ident (icache s' j)) (refs s - {#ident (icache s i)#}))"

lemma namex_loop_refs:
  "\<lbrakk>namex_loop parent i path name s = Some (r, name', s'); icache_inv s; i < NINODE; 0 < iref (icache s i)\<rbrakk> \<Longrightarrow>
     walk_ok i s r s'"
proof (induction parent i path name s rule: namex_loop.induct)
  case (1 parent i path name s)
  note pr = "1.prems"
  show ?case
  proof (cases "skipelem path name")
    case None
    show ?thesis
    proof (cases parent)
      case True
      with pr(1) None have "iput i s = Some s'" "r = None"
        by (subst (asm) namex_loop.simps, auto simp: Option.bind_eq_Some_conv)+
      then show ?thesis using iput_refs [OF _ pr(2-4)] put_holds [OF pr(2-4), of s'] by (auto simp: walk_ok_def)
    next
      case False
      with pr(1) None have "r = Some i" "s' = s" by (subst (asm) namex_loop.simps, auto)+
      then show ?thesis using pr(2-4) refs_member [OF pr(3,4)] by (simp add: walk_ok_def)
    qed
  next
    case (Some p)
    obtain path' n1 where p: "skipelem path name = Some (path', n1)" using Some by (cases p) auto
    from pr(1) p obtain s1 where l: "ilock i s = Some s1"
      by (subst (asm) namex_loop.simps) (auto simp: Option.bind_eq_Some_conv)
    note lf = ilock_frame [OF l]
    have same: "iref (icache s1 x) = iref (icache s x)" "ident (icache s1 x) = ident (icache s x)" for x
      using lf by (cases "x = i"; simp)+
    have s1: "icache_inv s1" "refs s1 = refs s" "0 < iref (icache s1 i)"
      using icache_inv_same [OF pr(2) same] refs_same [OF same] same pr(4) by simp_all
    have b1: "ibusy (icache s1 l) \<Longrightarrow> ibusy (icache s l) \<or> l = i" for l using lf(9) [of l] by (cases "l = i") auto
    consider (notdir) "itype (icache s1 i) \<noteq> T_DIR" "iunlockput i s1 = Some s'" "r = None"
      | (stop) "itype (icache s1 i) = T_DIR" "parent \<and> path' = []" "iunlock i s1 = Some s'" "r = Some i"
      | (look) "itype (icache s1 i) = T_DIR" "\<not> (parent \<and> path' = [])"
      using pr(1) p l by (subst (asm) namex_loop.simps)
        (cases "itype (icache s1 i) \<noteq> T_DIR"; cases "parent \<and> path' = []"; auto simp: Option.bind_eq_Some_conv)
    then show ?thesis
    proof cases
      case notdir
      note u = unlock_put_refs [OF notdir(2) s1(1) pr(3) s1(3)]
      have h: "holds s' l x" if "holds s l x" "x \<in># refs s - {#ident (icache s i)#}" for l x
        using put_holds [OF s1(1) pr(3) s1(3) u(1) u(5) u(4), of l x] that holds_cong [OF same] u(2) s1(2) same(2) by simp
      show ?thesis using u(1,2) u(3) b1 notdir(3) s1(2) same h by (auto simp: walk_ok_def)
    next
      case stop
      note u = iunlock_frame [OF stop(3)]
      have same': "iref (icache s' x) = iref (icache s x)" "ident (icache s' x) = ident (icache s x)" for x
        using u same by (cases "x = i"; simp)+
      have "ibusy (icache s' l) \<Longrightarrow> ibusy (icache s l)" for l using u(2) u(6) [of l] b1 [of l] by (cases "l = i") auto
      then show ?thesis
        using icache_inv_same [OF pr(2) same'] refs_same [OF same'] refs_member [OF pr(3,4)] same' pr(3,4) stop(4)
          holds_cong [OF same'] by (auto simp: walk_ok_def)
    next
      case look
      with pr(1) p l obtain q s2 where d: "dirlookup i n1 s1 = Some (q, s2)"
        by (subst (asm) namex_loop.simps) (auto simp: Option.bind_eq_Some_conv)
      note df = dirlookup_refs [OF d s1(1,3)]
      show ?thesis
      proof (cases q)
        case None
        with pr(1) p l look d have u: "iunlockput i s2 = Some s'" "r = None"
          by (subst (asm) namex_loop.simps, auto simp: Option.bind_eq_Some_conv)+
        note uf = unlock_put_refs [OF u(1) df(1) pr(3) df(3)]
        have h: "holds s' l x" if "holds s l x" "x \<in># refs s - {#ident (icache s i)#}" for l x
          using put_holds [OF df(1) pr(3) df(3) uf(1) uf(5) uf(4), of l x] that holds_cong [OF same] uf(2) s1(2) same(2)
            df(4) df(6) [of l x] df(7) None by simp
        show ?thesis using uf(1,2) uf(3) df(2,4,7) b1 None u(2) s1(2) same h by (fastforce simp: walk_ok_def)
      next
        case (Some jo)
        obtain j off where q: "q = Some (j, off)" using Some by (cases jo) auto
        with pr(1) p l look d obtain s3 where u: "iunlockput i s2 = Some s3"
          and rec: "namex_loop parent j path' n1 s3 = Some (r, name', s')"
          by (subst (asm) namex_loop.simps) (auto simp: Option.bind_eq_Some_conv)
        note j = df(8) [OF q] and uf = unlock_put_refs [OF u df(1) pr(3) df(3)]
        have "0 < iref (icache s3 j)"
        proof (cases "j = i")
          case True
          have "nat (iref (icache s2 i)) = Suc (nat (iref (icache s1 i)))"
            using refs_count [OF df(1) pr(3) df(3)] refs_count [OF s1(1) pr(3) s1(3)] j True df(4) by simp
          then show ?thesis using uf(6) s1(3) True by simp
        qed (use uf(5) j in simp)
        then have w: "walk_ok j s3 r s'"
          using "1.IH" [OF p refl l _ _ d refl q refl u rec uf(1)] look j by blast
        have id: "ident (icache s3 j) = ident (icache s2 j)" by (rule uf(4))
        have eq: "refs s3 - {#ident (icache s3 j)#} = refs s - {#ident (icache s i)#}"
          unfolding uf(2) id using j s1(2) df(4) same(2)
          by (simp add: diff_right_commute [of _ "{#ident (icache s2 i)#}"])
        have "ibusy (icache s' l) \<Longrightarrow> ibusy (icache s l)" for l
          using w uf(3) [of l] df(2) [of l] b1 [of l] by (auto simp: walk_ok_def)
        moreover have "holds s' l x" if "holds s l x" "x \<in># refs s - {#ident (icache s i)#}" for l x
        proof -
          have "holds s3 l x"
            using put_holds [OF df(1) pr(3) df(3) uf(1) uf(5) uf(4), of l x] that holds_cong [OF same] uf(2) s1(2) same(2)
              df(4) df(6) [of l x] j by (auto simp: in_diff_count split: if_splits)
          then show ?thesis using w that eq by (simp add: walk_ok_def del: split_paired_All)
        qed
        ultimately show ?thesis using w unfolding walk_ok_def eq by blast
      qed
    qed
  qed
qed

lemma namex_refs:
  assumes "namex cwd path parent name s = Some (r, name', s')" "icache_inv s" "cwd < NINODE" "0 < iref (icache s cwd)"
  shows "icache_inv s'" "ibusy (icache s' l) \<Longrightarrow> ibusy (icache s l)" "holds s l x \<Longrightarrow> holds s' l x"
    "case r of None \<Rightarrow> refs s' = refs s
     | Some j \<Rightarrow> j < NINODE \<and> 0 < iref (icache s' j) \<and> refs s' = add_mset (ident (icache s' j)) (refs s)"
proof -
  obtain i s1 where l: "namex_loop parent i path name s1 = Some (r, name', s')"
    and s1: "icache_inv s1" "i < NINODE" "0 < iref (icache s1 i)" "refs s1 = add_mset (ident (icache s1 i)) (refs s)"
      "\<And>l. ibusy (icache s1 l) \<Longrightarrow> ibusy (icache s l)" "\<And>l x. holds s l x \<Longrightarrow> holds s1 l x"
  proof (cases "path \<noteq> [] \<and> hd path = slash")
    case True
    with assms(1) obtain i s1 where g: "iget ROOTDEV ROOTINO s = Some (i, s1)"
      and l: "namex_loop parent i path name s1 = Some (r, name', s')"
      by (auto simp: namex_def Option.bind_eq_Some_conv)
    note e = iget_effect [OF assms(2) g]
    show ?thesis using that [OF l e(1-4)] e(5,6) by (simp add: holds_def)
  next
    case False
    let ?s1 = "snd (idup cwd s)"
    have l: "namex_loop parent cwd path name ?s1 = Some (r, name', s')"
      using assms(1) False by (auto simp: namex_def idup_def)
    have "icache_inv ?s1 \<and> refs ?s1 = ledger (refs s) [Take (ident (icache s cwd))]"
      by (rule ic_step_counts [OF ic_step.dup [OF assms(3,4)] assms(2)])
    moreover have "ibusy (icache ?s1 l) = ibusy (icache s l)" "holds s l x \<Longrightarrow> holds ?s1 l x" for l x
      by (cases "l = cwd"; simp add: idup_def holds_def ident_def)+
    ultimately show ?thesis using that [OF l _ assms(3)] assms(4) by (simp add: idup_def ident_def)
  qed
  have m: "x \<in># refs s" if "holds s l x" for l x
    using refs_member [of l s] that by (auto simp: holds_def)
  note w = namex_loop_refs [OF l s1(1-3), unfolded walk_ok_def s1(4)]
  show "icache_inv s'" "ibusy (icache s' l) \<Longrightarrow> ibusy (icache s l)" using w s1(5) by blast+
  show "holds s l x \<Longrightarrow> holds s' l x" using w s1(6) [of l x] m [of l x] by (simp del: split_paired_All)
  show "case r of None \<Rightarrow> refs s' = refs s
     | Some j \<Rightarrow> j < NINODE \<and> 0 < iref (icache s' j) \<and> refs s' = add_mset (ident (icache s' j)) (refs s)"
    using w by (simp split: option.splits)
qed

text \<open>
  C9: Path lookup leaks nothing.  Whatever the path and the contents of the disk, when \<open>namex\<close> returns
  without panic: if it fails, the references held are exactly those held before; if it succeeds, exactly
  one more is held, to the inode it returns; and no inode is left locked that was not locked before.
\<close>
theorem namex_references_balanced:
  assumes "namex cwd path parent name s = Some (r, name', s')" "icache_inv s" "cwd < NINODE" "0 < iref (icache s cwd)"
  shows "icache_inv s' \<and> (\<forall>l. ibusy (icache s' l) \<longrightarrow> ibusy (icache s l)) \<and>
    (case r of None \<Rightarrow> refs s' = refs s
     | Some j \<Rightarrow> j < NINODE \<and> 0 < iref (icache s' j) \<and> refs s' = add_mset (ident (icache s' j)) (refs s))"
  using namex_refs [OF assms] by simp

section \<open>Examples\<close>

theorem skipelem_splits_path_witness:
  "path_names [47, 47, 117, 115, 114, 47, 98, 47] (\<lambda>_. 7) = [[117, 115, 114], [98]]"
proof -
  have "elements [47, 47, 117, 115, 114, 47, 98, 47] = [[117, 115, 114], [98]]"
    by (simp add: elements_def slash_def DIRSIZ_def)
  then show ?thesis using skipelem_splits_path [of "[47, 47, 117, 115, 114, 47, 98, 47]" "\<lambda>_. 7"] by simp
qed

text \<open>An empty directory of one block.\<close>

definition small_dir :: fs where
  "small_dir = small_fs (small_file T_DIR 1 5)"

lemma small_dir_slot [simp]:
  "icache small_dir 0 = small_file T_DIR 1 5" "fdisk small_dir = small_disk 1"
  by (simp_all add: small_dir_def)

lemma small_dir_byte: "fbyte small_dir 0 p = 0"
proof -
  have "small_disk 1 1 5 p = 0" for p by (simp add: small_disk_def)
  then show ?thesis by (simp add: fbyte_def file_byte_def small_slot Let_def del: fun_upd_apply One_nat_def)
qed

lemma small_dir_good: "dir_good small_dir 0"
proof -
  have "T_DIR \<noteq> T_DEV" by (simp add: T_DIR_def T_DEV_def)
  from small_good [OF this, folded small_dir_def] show ?thesis by (simp add: dir_good_def small_dir_byte)
qed

lemma small_dir_map: "dir_map small_dir 0 nm = None"
  by (simp add: dir_map_def entry_inum_def get16_def small_dir_byte find_None_iff)

lemma small_dir_room: "room small_dir 0 (16 * free_entry small_dir 0) 16"
proof -
  have "free_entry small_dir 0 = 0"
    by (simp add: free_entry_def entry_inum_def get16_def small_dir_byte upt_conv_Cons)
  then show ?thesis using small_card by (simp add: room_def needed_def touched_def fs_consts)
qed

definition name_a :: "nat \<Rightarrow> u8" where
  "name_a j = (if j = 0 then 97 else 0)"

lemma cname_a: "cname name_a = [97]"
  by (simp add: cname_def cstr_def bytes_def DIRSIZ_def name_a_def upt_conv_Cons)

lemma small_dir_link:
  "\<exists>s'. dirlink no_devices 0 name_a 3 small_dir = Some (0, s') \<and> dir_good s' 0 \<and> dir_map s' 0 [97] = Some 3"
  using dirlink_spec [OF small_dir_good small_dir_map _ _ small_dir_room, of 3 no_devices name_a]
  by (auto simp: cname_a fs_consts)

theorem dirlink_refines_map_witness:
  "\<exists>s'. dirlink no_devices 0 name_a 3 small_dir = Some (0, s') \<and> dir_map s' 0 = [[97] \<mapsto> 3]"
proof -
  have "dir_map small_dir 0 = Map.empty" by (simp add: fun_eq_iff small_dir_map)
  then show ?thesis
    using dirlink_refines_map [OF small_dir_good small_dir_map _ _ small_dir_room, of 3 no_devices name_a]
    by (auto simp: cname_a fs_consts)
qed

theorem dirlookup_refines_map_witness:
  "\<exists>s' off. dirlink no_devices 0 name_a 3 small_dir = Some (0, s') \<and> dirlookup 0 name_a s' =
     do {(j, s'') \<leftarrow> iget (idev (icache s' 0)) 3 s'; Some (Some (j, off), s'')}"
proof -
  obtain s' where s': "dirlink no_devices 0 name_a 3 small_dir = Some (0, s')" "dir_good s' 0" "dir_map s' 0 [97] = Some 3"
    using small_dir_link by blast
  have u: "(ucast (3 :: u16) :: u32) = 3" by simp
  from dirlookup_refines_map [OF s'(2), of name_a] s'(3) obtain off where
    "dirlookup 0 name_a s' = do {(j, s'') \<leftarrow> iget (idev (icache s' 0)) 3 s'; Some (Some (j, off), s'')}"
    unfolding cname_a by (auto simp: u)
  with s'(1) show ?thesis by blast
qed

theorem namex_references_balanced_witness:
  "\<exists>name s'. namex 0 [97] False (\<lambda>_. 0) small_dir = Some (None, name, s') \<and> refs s' = refs small_dir"
proof -
  obtain n where sk: "skipelem [97] (\<lambda>_. 0) = Some ([], n)" by (simp add: skipelem_def slash_def DIRSIZ_def)
  let ?s1 = "upd_inode 0 (\<lambda>ip. ip\<lparr>iref := 2\<rparr>) small_dir"
  let ?s2 = "upd_inode 0 (\<lambda>ip. ip\<lparr>iref := 2, ibusy := True\<rparr>) small_dir"
  have dup: "idup 0 small_dir = (0, ?s1)"
    by (simp add: idup_def upd_inode_def small_file_def)
  have lk: "ilock 0 ?s1 = Some ?s2"
    by (simp add: ilock_def Let_def upd_inode_def small_file_def no_inode_def)
  have fb: "fbyte ?s2 0 = fbyte small_dir 0" by (simp add: fun_eq_iff fbyte_def)
  have "dir_good ?s2 0"
    using small_dir_good by (simp add: dir_good_def inode_good_def fbyte_def)
  moreover have "dir_map ?s2 0 nm = None" for nm
    using small_dir_map [of nm] by (simp add: dir_map_def fb)
  ultimately have "dirlookup 0 n ?s2 = Some (None, ?s2)"
    using dir_find_map(1) [of ?s2 0 n] dirlookup_spec [of ?s2 0 n] dir_goodD(1,2) [of ?s2 0] by simp
  moreover obtain s' where "iunlockput 0 ?s2 = Some s'"
    by (simp add: iunlockput_def iunlock_def iput_def upd_inode_def Let_def)
  ultimately have nx: "namex 0 [97] False (\<lambda>_. 0) small_dir = Some (None, n, s')"
    using lk sk by (simp add: namex_def dup slash_def) (subst namex_loop.simps, simp add: small_file_def)
  have "icache_inv small_dir" "0 < iref (icache small_dir 0)"
    by (simp_all add: small_dir_def small_fs_def small_file_def no_inode_def icache_inv_def)
  from namex_references_balanced [OF nx this(1) _ this(2)] have "refs s' = refs small_dir" by (simp add: NINODE_def)
  with nx show ?thesis by blast
qed

end
