(* ===== verification/SysFile.thy ===== *)
theory SysFile
  imports FsDir Pipe
begin

text \<open>
  Open files and the file system calls of P5 (\<open>kernel/file.c\<close>, \<open>kernel/sysfile.c\<close>, \<open>pipealloc\<close> of
  \<open>kernel/pipe.c\<close>, and what \<open>fork\<close> and \<open>exit\<close> of \<open>kernel/proc.c\<close> do to the descriptors).

  A \<open>struct file *\<close> is an index of the table of open files, a \<open>struct pipe *\<close> the number of its page;
  a page that is not a pipe holds \<open>None\<close>.  Every process has its descriptors and its current directory,
  \<open>None\<close> when it has none.  The arguments of a call are given as the kernel decodes them; \<open>None\<close> is an argument
  that \<open>argint\<close>, \<open>argptr\<close> or \<open>argstr\<close> refuses.  A call runs alone: its result \<open>None\<close> is a panic, or a sleep on an inode
  that another call has locked.  A sleep in a pipe is an outcome of its own, as in \<open>Pipe\<close>.
\<close>

definition NFILE :: nat where "NFILE = 100"
definition NOFILE :: nat where "NOFILE = 16"
definition NPROC :: nat where "NPROC = 64"

datatype ftype = FD_NONE | FD_PIPE | FD_INODE

record open_file =
  ftype :: ftype
  fref :: int
  freadable :: bool
  fwritable :: bool
  fpipe :: nat
  fip :: nat
  foff :: u32

record sys =
  ffs :: fs
  ftab :: "nat \<Rightarrow> open_file"
  pipes :: "nat \<Rightarrow> pipe option"
  ofile :: "nat \<Rightarrow> nat \<Rightarrow> nat option"
  cwd :: "nat \<Rightarrow> nat option"

definition upd_file :: "nat \<Rightarrow> (open_file \<Rightarrow> open_file) \<Rightarrow> sys \<Rightarrow> sys" where
  "upd_file f g s = s\<lparr>ftab := (ftab s)(f := g (ftab s f))\<rparr>"

definition set_fd :: "nat \<Rightarrow> nat \<Rightarrow> nat option \<Rightarrow> sys \<Rightarrow> sys" where
  "set_fd p fd x s = s\<lparr>ofile := (ofile s)(p := (ofile s p)(fd := x))\<rparr>"

section \<open>Open files\<close>

definition filealloc :: "sys \<Rightarrow> nat option \<times> sys" where
  "filealloc s = (case find (\<lambda>f. fref (ftab s f) = 0) [0..<NFILE] of
     Some f \<Rightarrow> (Some f, upd_file f (\<lambda>x. x\<lparr>fref := 1\<rparr>) s)
   | None \<Rightarrow> (None, s))"

definition filedup :: "nat \<Rightarrow> sys \<Rightarrow> sys option" where
  "filedup f s = (if fref (ftab s f) < 1 then None else Some (upd_file f (\<lambda>x. x\<lparr>fref := fref x + 1\<rparr>) s))"

definition close_pipe :: "nat \<Rightarrow> bool \<Rightarrow> sys \<Rightarrow> sys option" where
  "close_pipe q w s = (case pipes s q of
     None \<Rightarrow> None
   | Some x \<Rightarrow> let (x', freed, _) = pipeclose x w in Some (s\<lparr>pipes := (pipes s)(q := if freed then None else Some x')\<rparr>))"

definition fileclose :: "nat \<Rightarrow> sys \<Rightarrow> sys option" where
  "fileclose f s =
     (if fref (ftab s f) < 1 then None
      else let s1 = upd_file f (\<lambda>x. x\<lparr>fref := fref x - 1\<rparr>) s in
        if fref (ftab s1 f) > 0 then Some s1
        else let ff = ftab s1 f; s2 = upd_file f (\<lambda>x. x\<lparr>fref := 0, ftype := FD_NONE\<rparr>) s1 in
          if ftype ff = FD_PIPE then close_pipe (fpipe ff) (fwritable ff) s2
          else if ftype ff = FD_INODE then do {
            k \<leftarrow> iput (fip ff) (ffs s2);
            Some (s2\<lparr>ffs := k\<rparr>) }
          else Some s2)"

definition filestat :: "nat \<Rightarrow> u8 \<Rightarrow> sys \<Rightarrow> (stat option \<times> sys) option" where
  "filestat f old s =
     (if ftype (ftab s f) = FD_INODE then do {
        let i = fip (ftab s f);
        k1 \<leftarrow> ilock i (ffs s);
        let st = stati i old k1;
        k2 \<leftarrow> iunlock i k1;
        Some (Some st, s\<lparr>ffs := k2\<rparr>) }
      else Some (None, s))"

definition fileread :: "devsw \<Rightarrow> bool \<Rightarrow> nat \<Rightarrow> u32 \<Rightarrow> sys \<Rightarrow> (outcome \<times> u8 list \<times> sys) option" where
  "fileread dv killed f n s =
     (if \<not> freadable (ftab s f) then Some (Return (-1), [], s)
      else if ftype (ftab s f) = FD_PIPE then do {
        x \<leftarrow> pipes s (fpipe (ftab s f));
        let (x', bs, r, _) = piperead killed x (nat (sint n));
        Some (r, bs, s\<lparr>pipes := (pipes s)(fpipe (ftab s f) := Some x')\<rparr>) }
      else if ftype (ftab s f) = FD_INODE then do {
        let i = fip (ftab s f);
        k1 \<leftarrow> ilock i (ffs s);
        (r, bs, k2) \<leftarrow> readi dv i (foff (ftab s f)) n k1;
        let s1 = (if r > 0 then upd_file f (\<lambda>x. x\<lparr>foff := foff x + of_int r\<rparr>) s else s);
        k3 \<leftarrow> iunlock i k2;
        Some (Return r, bs, s1\<lparr>ffs := k3\<rparr>) }
      else None)"

text \<open>\<open>src\<close> is the memory at the address given; a pipe takes \<open>n\<close> bytes of it, none when \<open>n\<close> is negative.  \<open>i\<close> is where an
  earlier sleep in the pipe left off.\<close>

definition filewrite :: "devsw \<Rightarrow> bool \<Rightarrow> nat \<Rightarrow> (nat \<Rightarrow> u8) \<Rightarrow> u32 \<Rightarrow> nat \<Rightarrow> sys \<Rightarrow> (outcome \<times> sys) option" where
  "filewrite dv killed f src n i0 s =
     (if \<not> fwritable (ftab s f) then Some (Return (-1), s)
      else if ftype (ftab s f) = FD_PIPE then do {
        x \<leftarrow> pipes s (fpipe (ftab s f));
        let (x', _, r, _) = pipewrite killed x (map src [0..<nat (sint n)]) i0;
        Some (if r = Return 0 then Return (sint n) else r, s\<lparr>pipes := (pipes s)(fpipe (ftab s f) := Some x')\<rparr>) }
      else if ftype (ftab s f) = FD_INODE then do {
        let i = fip (ftab s f);
        k1 \<leftarrow> ilock i (ffs s);
        (r, k2) \<leftarrow> writei dv i src (foff (ftab s f)) n k1;
        let s1 = (if r > 0 then upd_file f (\<lambda>x. x\<lparr>foff := foff x + of_int r\<rparr>) s else s);
        k3 \<leftarrow> iunlock i k2;
        Some (Return r, s1\<lparr>ffs := k3\<rparr>) }
      else None)"

text \<open>\<open>page\<close> is what \<open>kalloc\<close> returns, with its contents.\<close>

definition pipealloc :: "(nat \<times> u8 list) option \<Rightarrow> sys \<Rightarrow> ((nat \<times> nat) option \<times> sys) option" where
  "pipealloc page s =
     (let (f0, s1) = filealloc s in
      case f0 of None \<Rightarrow> Some (None, s1)
      | Some a \<Rightarrow> let (f1, s2) = filealloc s1 in
        case f1 of None \<Rightarrow> do {s3 \<leftarrow> fileclose a s2; Some (None, s3)}
        | Some b \<Rightarrow> (case page of
            None \<Rightarrow> do {s3 \<leftarrow> fileclose a s2; s4 \<leftarrow> fileclose b s3; Some (None, s4)}
          | Some (q, junk) \<Rightarrow>
              let s3 = upd_file a (\<lambda>x. x\<lparr>ftype := FD_PIPE, freadable := True, fwritable := False, fpipe := q\<rparr>) s2;
                  s4 = upd_file b (\<lambda>x. x\<lparr>ftype := FD_PIPE, freadable := False, fwritable := True, fpipe := q\<rparr>) s3
              in Some (Some (a, b), s4\<lparr>pipes := (pipes s4)(q \<mapsto> pipe_init junk)\<rparr>)))"

section \<open>Descriptors\<close>

definition argfd :: "nat \<Rightarrow> int option \<Rightarrow> sys \<Rightarrow> (nat \<times> nat) option" where
  "argfd p a s = (case a of None \<Rightarrow> None
     | Some fd \<Rightarrow> if fd < 0 \<or> fd \<ge> int NOFILE then None else map_option (Pair (nat fd)) (ofile s p (nat fd)))"

definition fdalloc :: "nat \<Rightarrow> nat \<Rightarrow> sys \<Rightarrow> (nat \<times> sys) option" where
  "fdalloc p f s = map_option (\<lambda>fd. (fd, set_fd p fd (Some f) s)) (find (\<lambda>fd. ofile s p fd = None) [0..<NOFILE])"

definition sys_dup :: "nat \<Rightarrow> int option \<Rightarrow> sys \<Rightarrow> (int \<times> sys) option" where
  "sys_dup p a s = (case argfd p a s of
     None \<Rightarrow> Some (-1, s)
   | Some (_, f) \<Rightarrow> (case fdalloc p f s of
       None \<Rightarrow> Some (-1, s)
     | Some (fd, s1) \<Rightarrow> do {s2 \<leftarrow> filedup f s1; Some (int fd, s2)}))"

text \<open>\<open>buf\<close> is the memory \<open>argptr\<close> grants for the count \<open>n\<close>.\<close>

definition sys_read :: "devsw \<Rightarrow> bool \<Rightarrow> nat \<Rightarrow> int option \<Rightarrow> u32 option \<Rightarrow> bool \<Rightarrow> sys \<Rightarrow> (outcome \<times> u8 list \<times> sys) option" where
  "sys_read dv killed p a n buf s = (case (argfd p a s, n) of
     (Some (_, f), Some n) \<Rightarrow> if buf then fileread dv killed f n s else Some (Return (-1), [], s)
   | _ \<Rightarrow> Some (Return (-1), [], s))"

definition sys_write :: "devsw \<Rightarrow> bool \<Rightarrow> nat \<Rightarrow> int option \<Rightarrow> u32 option \<Rightarrow> (nat \<Rightarrow> u8) option \<Rightarrow> nat \<Rightarrow> sys \<Rightarrow> (outcome \<times> sys) option" where
  "sys_write dv killed p a n buf i0 s = (case (argfd p a s, n, buf) of
     (Some (_, f), Some n, Some src) \<Rightarrow> filewrite dv killed f src n i0 s
   | _ \<Rightarrow> Some (Return (-1), s))"

definition sys_close :: "nat \<Rightarrow> int option \<Rightarrow> sys \<Rightarrow> (int \<times> sys) option" where
  "sys_close p a s = (case argfd p a s of
     None \<Rightarrow> Some (-1, s)
   | Some (fd, f) \<Rightarrow> do {s1 \<leftarrow> fileclose f (set_fd p fd None s); Some (0, s1)})"

definition sys_fstat :: "nat \<Rightarrow> int option \<Rightarrow> bool \<Rightarrow> u8 \<Rightarrow> sys \<Rightarrow> (stat option \<times> sys) option" where
  "sys_fstat p a buf old s = (case argfd p a s of
     None \<Rightarrow> Some (None, s)
   | Some (_, f) \<Rightarrow> if buf then filestat f old s else Some (None, s))"

section \<open>Calls on paths\<close>

definition add_nlink :: "nat \<Rightarrow> u16 \<Rightarrow> fs \<Rightarrow> fs" where
  "add_nlink i d k = iupdate i (upd_inode i (\<lambda>ip. ip\<lparr>inlink := inlink ip + d\<rparr>) k)"

text \<open>The body of a call works on the file system with \<open>c\<close> as current directory; the call itself fetches the
  arguments.  \<open>junk\<close> is what the local buffer for the last name of a path holds before.\<close>

definition on_fs :: "nat \<Rightarrow> (nat \<Rightarrow> fs \<Rightarrow> (int \<times> fs) option) \<Rightarrow> sys \<Rightarrow> (int \<times> sys) option" where
  "on_fs p body s = do {
     c \<leftarrow> cwd s p;
     (r, k) \<leftarrow> body c (ffs s);
     Some (r, s\<lparr>ffs := k\<rparr>) }"

definition link_entry :: "devsw \<Rightarrow> nat \<Rightarrow> nat \<Rightarrow> (nat \<Rightarrow> u8) \<Rightarrow> fs \<Rightarrow> (bool \<times> fs) option" where
  "link_entry dv d i name k = do {
     k1 \<leftarrow> ilock d k;
     (ok, k2) \<leftarrow> (if idev (icache k1 d) \<noteq> idev (icache k1 i) then Some (False, k1)
        else do {(r, k2) \<leftarrow> dirlink dv d name (inum (icache k1 i)) k1; Some (0 \<le> r, k2)});
     k3 \<leftarrow> iunlockput d k2;
     Some (ok, k3) }"

definition link_path :: "devsw \<Rightarrow> nat \<Rightarrow> nat \<Rightarrow> u8 list \<Rightarrow> (nat \<Rightarrow> u8) \<Rightarrow> fs \<Rightarrow> (int \<times> fs) option" where
  "link_path dv c i new junk k = do {
     k1 \<leftarrow> iunlock i (add_nlink i 1 k);
     (d, name, k2) \<leftarrow> nameiparent c new junk k1;
     (ok, k3) \<leftarrow> (case d of None \<Rightarrow> Some (False, k2) | Some d \<Rightarrow> link_entry dv d i name k2);
     if ok then do {k4 \<leftarrow> iput i k3; Some (0, k4)}
     else do {
       k4 \<leftarrow> ilock i k3;
       k5 \<leftarrow> iunlockput i (add_nlink i (-1) k4);
       Some (-1, k5) } }"

definition do_link :: "devsw \<Rightarrow> u8 list \<Rightarrow> u8 list \<Rightarrow> (nat \<Rightarrow> u8) \<Rightarrow> nat \<Rightarrow> fs \<Rightarrow> (int \<times> fs) option" where
  "do_link dv old new junk c k = do {
     (r, k1) \<leftarrow> namei c old k;
     (case r of
        None \<Rightarrow> Some (-1, k1)
      | Some i \<Rightarrow> do {
          k2 \<leftarrow> ilock i k1;
          if itype (icache k2 i) = T_DIR then do {k3 \<leftarrow> iunlockput i k2; Some (-1, k3)}
          else link_path dv c i new junk k2 }) }"

definition sys_link :: "devsw \<Rightarrow> nat \<Rightarrow> u8 list option \<Rightarrow> u8 list option \<Rightarrow> (nat \<Rightarrow> u8) \<Rightarrow> sys \<Rightarrow> (int \<times> sys) option" where
  "sys_link dv p old new junk s = (case (old, new) of
     (Some old, Some new) \<Rightarrow> on_fs p (do_link dv old new junk) s
   | _ \<Rightarrow> Some (-1, s))"

function isdirempty_loop :: "devsw \<Rightarrow> nat \<Rightarrow> nat \<Rightarrow> nat \<Rightarrow> fs \<Rightarrow> (bool \<times> fs) option" where
  "isdirempty_loop dv i sz off k =
     (if off < sz then do {
        (r, de, k1) \<leftarrow> readi dv i (of_nat off) 16 k;
        if r \<noteq> 16 then None
        else if de ! 0 \<noteq> 0 \<or> de ! 1 \<noteq> 0 then Some (False, k1)
        else isdirempty_loop dv i sz (off + 16) k1
      } else Some (True, k))"
  by auto
termination by (relation "measure (\<lambda>(dv, i, sz, off, k). sz - off)") auto

declare isdirempty_loop.simps [simp del]

definition isdirempty :: "devsw \<Rightarrow> nat \<Rightarrow> fs \<Rightarrow> (bool \<times> fs) option" where
  "isdirempty dv i k = isdirempty_loop dv i (unat (isize (icache k i))) 32 k"

definition dot_name :: "nat \<Rightarrow> u8" where "dot_name = (\<lambda>j. if j = 0 then 46 else 0)"
definition dotdot_name :: "nat \<Rightarrow> u8" where "dotdot_name = (\<lambda>j. if j < 2 then 46 else 0)"

text \<open>The end of \<open>sys_unlink\<close>: \<open>d\<close> and \<open>i\<close> are locked, the entry is at \<open>off\<close>.\<close>

definition remove_entry :: "devsw \<Rightarrow> nat \<Rightarrow> nat \<Rightarrow> nat \<Rightarrow> fs \<Rightarrow> (int \<times> fs) option" where
  "remove_entry dv d i off k = do {
     (r, k1) \<leftarrow> writei dv d (\<lambda>_. 0) (of_nat off) 16 k;
     if r \<noteq> 16 then None
     else do {
       let k2 = (if itype (icache k1 i) = T_DIR then add_nlink d (-1) k1 else k1);
       k3 \<leftarrow> iunlockput d k2;
       k4 \<leftarrow> iunlockput i (add_nlink i (-1) k3);
       Some (0, k4) } }"

definition unlink_at :: "devsw \<Rightarrow> nat \<Rightarrow> (nat \<Rightarrow> u8) \<Rightarrow> fs \<Rightarrow> (int \<times> fs) option" where
  "unlink_at dv d name k =
     (if namecmp name dot_name = 0 \<or> namecmp name dotdot_name = 0 then do {k1 \<leftarrow> iunlockput d k; Some (-1, k1)}
      else do {
        (r, k1) \<leftarrow> dirlookup d name k;
        (case r of
           None \<Rightarrow> do {k2 \<leftarrow> iunlockput d k1; Some (-1, k2)}
         | Some (i, off) \<Rightarrow> do {
             k2 \<leftarrow> ilock i k1;
             if sint (inlink (icache k2 i)) < 1 then None
             else do {
               (keep, k3) \<leftarrow> (if itype (icache k2 i) = T_DIR
                  then do {(e, k3) \<leftarrow> isdirempty dv i k2; Some (\<not> e, k3)} else Some (False, k2));
               if keep then do {k4 \<leftarrow> iunlockput i k3; k5 \<leftarrow> iunlockput d k4; Some (-1, k5)}
               else remove_entry dv d i off k3 } }) })"

definition do_unlink :: "devsw \<Rightarrow> u8 list \<Rightarrow> (nat \<Rightarrow> u8) \<Rightarrow> nat \<Rightarrow> fs \<Rightarrow> (int \<times> fs) option" where
  "do_unlink dv path junk c k = do {
     (d, name, k1) \<leftarrow> nameiparent c path junk k;
     (case d of None \<Rightarrow> Some (-1, k1)
      | Some d \<Rightarrow> do {k2 \<leftarrow> ilock d k1; unlink_at dv d name k2}) }"

definition sys_unlink :: "devsw \<Rightarrow> nat \<Rightarrow> u8 list option \<Rightarrow> (nat \<Rightarrow> u8) \<Rightarrow> sys \<Rightarrow> (int \<times> sys) option" where
  "sys_unlink dv p path junk s = (case path of
     None \<Rightarrow> Some (-1, s) | Some path \<Rightarrow> on_fs p (do_unlink dv path junk) s)"

text \<open>\<open>create\<close> returns the inode locked, with a reference.\<close>

definition link_dots :: "devsw \<Rightarrow> nat \<Rightarrow> nat \<Rightarrow> fs \<Rightarrow> fs option" where
  "link_dots dv d i k = do {
     let k1 = add_nlink d 1 k;
     (r1, k2) \<leftarrow> dirlink dv i dot_name (inum (icache k1 i)) k1;
     if r1 < 0 then None
     else do {
       (r2, k3) \<leftarrow> dirlink dv i dotdot_name (inum (icache k2 d)) k2;
       if r2 < 0 then None else Some k3 } }"

definition create_new :: "devsw \<Rightarrow> u16 \<Rightarrow> u16 \<Rightarrow> u16 \<Rightarrow> nat \<Rightarrow> (nat \<Rightarrow> u8) \<Rightarrow> fs \<Rightarrow> (nat \<times> fs) option" where
  "create_new dv ty major minor d name k = do {
     (i, k1) \<leftarrow> ialloc (idev (icache k d)) ty k;
     k2 \<leftarrow> ilock i k1;
     let k3 = iupdate i (upd_inode i (\<lambda>ip. ip\<lparr>imajor := major, iminor := minor, inlink := 1\<rparr>) k2);
     k4 \<leftarrow> (if ty = T_DIR then link_dots dv d i k3 else Some k3);
     (r, k5) \<leftarrow> dirlink dv d name (inum (icache k4 i)) k4;
     if r < 0 then None
     else do {k6 \<leftarrow> iunlockput d k5; Some (i, k6)} }"

definition create :: "devsw \<Rightarrow> nat \<Rightarrow> u8 list \<Rightarrow> u16 \<Rightarrow> u16 \<Rightarrow> u16 \<Rightarrow> (nat \<Rightarrow> u8) \<Rightarrow> fs \<Rightarrow> (nat option \<times> fs) option" where
  "create dv c path ty major minor junk k = do {
     (d, name, k1) \<leftarrow> nameiparent c path junk k;
     (case d of
        None \<Rightarrow> Some (None, k1)
      | Some d \<Rightarrow> do {
          k2 \<leftarrow> ilock d k1;
          (r, k3) \<leftarrow> dirlookup d name k2;
          (case r of
             Some (i, _) \<Rightarrow> do {
               k4 \<leftarrow> iunlockput d k3;
               k5 \<leftarrow> ilock i k4;
               if (ty = T_FILE \<and> itype (icache k5 i) = T_FILE) \<or> (ty = T_CHECKED \<and> itype (icache k5 i) = T_CHECKED)
               then Some (Some i, k5)
               else do {k6 \<leftarrow> iunlockput i k5; Some (None, k6)} }
           | None \<Rightarrow> do {(i, k4) \<leftarrow> create_new dv ty major minor d name k3; Some (Some i, k4)}) }) }"

definition make_node :: "devsw \<Rightarrow> u8 list \<Rightarrow> u16 \<Rightarrow> u16 \<Rightarrow> u16 \<Rightarrow> (nat \<Rightarrow> u8) \<Rightarrow> nat \<Rightarrow> fs \<Rightarrow> (int \<times> fs) option" where
  "make_node dv path ty major minor junk c k = do {
     (r, k1) \<leftarrow> create dv c path ty major minor junk k;
     (case r of None \<Rightarrow> Some (-1, k1) | Some i \<Rightarrow> do {k2 \<leftarrow> iunlockput i k1; Some (0, k2)}) }"

definition sys_mkdir :: "devsw \<Rightarrow> nat \<Rightarrow> u8 list option \<Rightarrow> (nat \<Rightarrow> u8) \<Rightarrow> sys \<Rightarrow> (int \<times> sys) option" where
  "sys_mkdir dv p path junk s = (case path of
     None \<Rightarrow> Some (-1, s) | Some path \<Rightarrow> on_fs p (make_node dv path T_DIR 0 0 junk) s)"

definition sys_mknod :: "devsw \<Rightarrow> nat \<Rightarrow> u8 list option \<Rightarrow> u32 option \<Rightarrow> u32 option \<Rightarrow> (nat \<Rightarrow> u8) \<Rightarrow> sys \<Rightarrow> (int \<times> sys) option" where
  "sys_mknod dv p path major minor junk s = (case (path, major, minor) of
     (Some path, Some major, Some minor) \<Rightarrow> on_fs p (make_node dv path T_DEV (ucast major) (ucast minor) junk) s
   | _ \<Rightarrow> Some (-1, s))"

definition do_chdir :: "u8 list \<Rightarrow> nat \<Rightarrow> fs \<Rightarrow> (nat option \<times> fs) option" where
  "do_chdir path c k = do {
     (r, k1) \<leftarrow> namei c path k;
     (case r of
        None \<Rightarrow> Some (None, k1)
      | Some i \<Rightarrow> do {
          k2 \<leftarrow> ilock i k1;
          if itype (icache k2 i) \<noteq> T_DIR then do {k3 \<leftarrow> iunlockput i k2; Some (None, k3)}
          else do {k3 \<leftarrow> iunlock i k2; k4 \<leftarrow> iput c k3; Some (Some i, k4)} }) }"

definition sys_chdir :: "nat \<Rightarrow> u8 list option \<Rightarrow> sys \<Rightarrow> (int \<times> sys) option" where
  "sys_chdir p path s = (case path of
     None \<Rightarrow> Some (-1, s)
   | Some path \<Rightarrow> do {
       c \<leftarrow> cwd s p;
       (r, k) \<leftarrow> do_chdir path c (ffs s);
       (case r of None \<Rightarrow> Some (-1, s\<lparr>ffs := k\<rparr>)
        | Some i \<Rightarrow> Some (0, s\<lparr>ffs := k, cwd := (cwd s)(p := Some i)\<rparr>)) })"

definition O_RDONLY :: u32 where "O_RDONLY = 0"
definition O_WRONLY :: u32 where "O_WRONLY = 1"
definition O_RDWR :: u32 where "O_RDWR = 2"
definition O_CREATE :: u32 where "O_CREATE = 0x200"
definition O_CHECKED :: u32 where "O_CHECKED = 0x400"

text \<open>The inode \<open>sys_open\<close> works on: locked, with a reference.\<close>

definition open_inode :: "devsw \<Rightarrow> nat \<Rightarrow> u8 list \<Rightarrow> u32 \<Rightarrow> (nat \<Rightarrow> u8) \<Rightarrow> fs \<Rightarrow> (nat option \<times> fs) option" where
  "open_inode dv c path om junk k =
     (if om AND O_CREATE \<noteq> 0 then
        if om AND O_CHECKED \<noteq> 0 then create dv c path T_CHECKED 0 0 junk k
        else create dv c path T_FILE 0 0 junk k
      else do {
        (r, k1) \<leftarrow> namei c path k;
        (case r of
           None \<Rightarrow> Some (None, k1)
         | Some i \<Rightarrow> do {
             k2 \<leftarrow> ilock i k1;
             if itype (icache k2 i) = T_DIR \<and> om \<noteq> O_RDONLY then do {k3 \<leftarrow> iunlockput i k2; Some (None, k3)}
             else Some (Some i, k2) }) })"

definition open_fd :: "nat \<Rightarrow> nat \<Rightarrow> u32 \<Rightarrow> sys \<Rightarrow> (int \<times> sys) option" where
  "open_fd p i om s =
     (let (f, s1) = filealloc s in
      case f of
        None \<Rightarrow> do {k \<leftarrow> iunlockput i (ffs s1); Some (-1, s1\<lparr>ffs := k\<rparr>)}
      | Some f \<Rightarrow> (case fdalloc p f s1 of
          None \<Rightarrow> do {s2 \<leftarrow> fileclose f s1; k \<leftarrow> iunlockput i (ffs s2); Some (-1, s2\<lparr>ffs := k\<rparr>)}
        | Some (fd, s2) \<Rightarrow> do {
            k \<leftarrow> iunlock i (ffs s2);
            Some (int fd, upd_file f (\<lambda>x. x\<lparr>ftype := FD_INODE, fip := i, foff := 0,
              freadable := (om AND O_WRONLY = 0), fwritable := (om AND O_WRONLY \<noteq> 0 \<or> om AND O_RDWR \<noteq> 0)\<rparr>)
              (s2\<lparr>ffs := k\<rparr>)) }))"

definition sys_open :: "devsw \<Rightarrow> nat \<Rightarrow> u8 list option \<Rightarrow> u32 option \<Rightarrow> (nat \<Rightarrow> u8) \<Rightarrow> sys \<Rightarrow> (int \<times> sys) option" where
  "sys_open dv p path om junk s = (case (path, om) of
     (Some path, Some om) \<Rightarrow> do {
       c \<leftarrow> cwd s p;
       (r, k) \<leftarrow> open_inode dv c path om junk (ffs s);
       (case r of None \<Rightarrow> Some (-1, s\<lparr>ffs := k\<rparr>) | Some i \<Rightarrow> open_fd p i om (s\<lparr>ffs := k\<rparr>)) }
   | _ \<Rightarrow> Some (-1, s))"

section \<open>Pipes and processes\<close>

text \<open>The result of \<open>sys_pipe\<close> are the two descriptors it stores at the user's address.\<close>

definition close_both :: "nat \<Rightarrow> nat \<Rightarrow> sys \<Rightarrow> sys option" where
  "close_both a b s = do {s1 \<leftarrow> fileclose a s; fileclose b s1}"

definition sys_pipe :: "nat \<Rightarrow> bool \<Rightarrow> (nat \<times> u8 list) option \<Rightarrow> sys \<Rightarrow> ((nat \<times> nat) option \<times> sys) option" where
  "sys_pipe p buf page s =
     (if \<not> buf then Some (None, s)
      else do {
        (r, s1) \<leftarrow> pipealloc page s;
        (case r of
           None \<Rightarrow> Some (None, s1)
         | Some (a, b) \<Rightarrow> (case fdalloc p a s1 of
             None \<Rightarrow> do {s2 \<leftarrow> close_both a b s1; Some (None, s2)}
           | Some (fd0, s2) \<Rightarrow> (case fdalloc p b s2 of
               None \<Rightarrow> do {s3 \<leftarrow> close_both a b (set_fd p fd0 None s2); Some (None, s3)}
             | Some (fd1, s3) \<Rightarrow> Some (Some (fd0, fd1), s3)))) })"

text \<open>\<open>fork\<close> gives every open file of the parent to the child and duplicates the current directory; \<open>exit\<close> closes
  all files and drops the directory.\<close>

fun fork_files :: "nat \<Rightarrow> nat \<Rightarrow> nat list \<Rightarrow> sys \<Rightarrow> sys option" where
  "fork_files p q [] s = Some s"
| "fork_files p q (fd # fds) s = (case ofile s p fd of
     None \<Rightarrow> fork_files p q fds s
   | Some f \<Rightarrow> do {s1 \<leftarrow> filedup f s; fork_files p q fds (set_fd q fd (Some f) s1)})"

definition fork_descriptors :: "nat \<Rightarrow> nat \<Rightarrow> sys \<Rightarrow> sys option" where
  "fork_descriptors p q s = do {
     s1 \<leftarrow> fork_files p q [0..<NOFILE] s;
     c \<leftarrow> cwd s1 p;
     let (i, k) = idup c (ffs s1);
     Some (s1\<lparr>ffs := k, cwd := (cwd s1)(q := Some i)\<rparr>) }"

fun exit_files :: "nat \<Rightarrow> nat list \<Rightarrow> sys \<Rightarrow> sys option" where
  "exit_files p [] s = Some s"
| "exit_files p (fd # fds) s = (case ofile s p fd of
     None \<Rightarrow> exit_files p fds s
   | Some f \<Rightarrow> do {s1 \<leftarrow> fileclose f s; exit_files p fds (set_fd p fd None s1)})"

definition exit_descriptors :: "nat \<Rightarrow> sys \<Rightarrow> sys option" where
  "exit_descriptors p s = do {
     s1 \<leftarrow> exit_files p [0..<NOFILE] s;
     c \<leftarrow> cwd s1 p;
     k \<leftarrow> iput c (ffs s1);
     Some (s1\<lparr>ffs := k, cwd := (cwd s1)(p := None)\<rparr>) }"

end
