(* ===== verification/SysOwn.thy ===== *)
theory SysOwn
  imports SysFile
begin

text \<open>
  Reference accounting for the calls of \<open>SysFile\<close>.  \<open>own R L P s\<close> says that the inode table of \<open>s\<close> is sound, that the
  references given out are the multiset \<open>R\<close>, that only inodes in \<open>L\<close> are locked, and that every pair of \<open>P\<close> is a slot
  that holds the inode it names.  There is one rule for every operation of the file system; the rules are applied
  along the code of a call, as in a Hoare proof.
\<close>

definition own :: "(u32 \<times> u32) multiset \<Rightarrow> nat set \<Rightarrow> (nat \<times> u32 \<times> u32) set \<Rightarrow> fs \<Rightarrow> bool" where
  "own R L P s \<longleftrightarrow> icache_inv s \<and> refs s = R \<and> (\<forall>l. ibusy (icache s l) \<longrightarrow> l \<in> L) \<and> (\<forall>p\<in>P. holds s (fst p) (snd p))"

text \<open>Devices leave references and locks as they are.\<close>

definition devices_ok :: "devsw \<Rightarrow> bool" where
  "devices_ok dv \<longleftrightarrow>
     (\<forall>m f i n s r out s'. dev_read dv m = Some f \<longrightarrow> f i n s = Some (r, out, s') \<longrightarrow> kept s s') \<and>
     (\<forall>m f i src n s r s'. dev_write dv m = Some f \<longrightarrow> f i src n s = Some (r, s') \<longrightarrow> kept s s')"

lemma ownD:
  assumes "own R L P s"
  shows "icache_inv s" "refs s = R" "ibusy (icache s l) \<Longrightarrow> l \<in> L" "(i, x) \<in> P \<Longrightarrow> holds s i x"
  using assms by (auto simp: own_def)

lemma own_weaken: "own R L P s \<Longrightarrow> L \<subseteq> L' \<Longrightarrow> P' \<subseteq> P \<Longrightarrow> own R L' P' s"
  by (auto simp: own_def)

lemma own_kept:
  assumes o: "own R L P s" and k: "kept s s'"
  shows "own R L P s'"
proof -
  have h: "holds s' i x = holds s i x" for i x by (rule holds_cong) (rule keptD [OF k])+
  have "\<And>l. ibusy (icache s' l) = ibusy (icache s l)" "icache_inv s' = icache_inv s" "refs s' = refs s"
    by (rule keptD [OF k])+
  with o h show ?thesis by (simp add: own_def)
qed

lemma own_member:
  assumes "own R L P s" "(i, x) \<in> P"
  shows "x \<in># R"
proof -
  have "holds s i x" by (rule ownD(4) [OF assms])
  then show ?thesis using refs_member [OF holdsD(1,2)] ownD(2) [OF assms(1)] holdsD(3) by metis
qed

section \<open>Operations that take no reference\<close>

lemma kept_refl [simp]: "kept s s"
  by (simp add: kept_def)

lemma kept_trans: "kept s t \<Longrightarrow> kept t u \<Longrightarrow> kept s u"
  by (simp add: kept_def)

lemma kept_disk [simp]: "kept s (t\<lparr>fdisk := k\<rparr>) = kept s t"
  by (simp add: kept_def)

lemma kept_iupdate [simp]: "kept s (iupdate i t) = kept s t"
  by (simp add: kept_def)

lemma kept_upd_inode:
  assumes "\<And>ip. iref (f ip) = iref ip \<and> ident (f ip) = ident ip \<and> ibusy (f ip) = ibusy ip"
  shows "kept s (upd_inode i f s)"
  using assms by (simp add: kept_def upd_inode_def)

lemma kept_add_nlink: "kept s (add_nlink i d s)"
  unfolding add_nlink_def by (simp add: kept_upd_inode ident_def)

lemma kept_put_checksum: "kept s (put_checksum i bn c s)"
  by (auto simp: put_checksum_def Let_def set_addr_def intro!: kept_upd_inode) (simp add: ident_def)

lemma kept_write_out: "kept s (write_out i bn b d n s)"
  using kept_put_checksum by (simp add: write_out_def Let_def)

lemma readi_loop_kept: "readi_loop i nb off r s = Some (v, out, s') \<Longrightarrow> kept s s'"
proof (induction i nb off r s arbitrary: v out rule: readi_loop.induct)
  case (1 i nb off r s)
  show ?case
  proof (cases "r = 0")
    case False
    with "1.prems" obtain b s1 where b: "bmap i (off div BSIZE) s = Some (b, s1)"
      by (subst (asm) readi_loop.simps) (auto simp: Option.bind_eq_Some_conv)
    note k = bmap_kept [OF b]
    define m where "m = min r (BSIZE - off mod BSIZE)"
    define bad where "bad \<longleftrightarrow> itype (icache s1 i) = T_CHECKED \<and> stored_checksum s1 i (off div BSIZE) \<noteq>
            ucast (xor_bytes (fdisk s1 (idev (icache s1 i)) b) nb)"
    have e: "readi_loop i nb off r s = (if bad then Some (False, map (\<lambda>j. fdisk s1 (idev (icache s1 i)) b (off mod BSIZE + j)) [0..<m], s1)
      else do {(v, rest, s2) \<leftarrow> readi_loop i nb (off + m) (r - m) s1;
        Some (v, map (\<lambda>j. fdisk s1 (idev (icache s1 i)) b (off mod BSIZE + j)) [0..<m] @ rest, s2)})"
      by (subst readi_loop.simps) (simp add: False b Let_def m_def bad_def)
    consider "s' = s1" | v' rest where "readi_loop i nb (off + m) (r - m) s1 = Some (v', rest, s')" "\<not> bad"
      using "1.prems" unfolding e by (cases bad) (auto simp: Option.bind_eq_Some_conv)
    then show ?thesis
    proof cases
      case 1
      then show ?thesis using k by simp
    next
      case 2
      from "1.IH" [OF False b refl refl refl refl 2(2) [unfolded bad_def] 2(1) [unfolded m_def]]
      show ?thesis by (rule kept_trans [OF k])
    qed
  next
    case True
    then show ?thesis using "1.prems" by (subst (asm) readi_loop.simps) simp
  qed
qed

lemma readi_kept: "devices_ok dv \<Longrightarrow> readi dv i off n s = Some (r, out, s') \<Longrightarrow> kept s s'"
  by (auto simp: readi_def devices_ok_def Let_def Option.bind_eq_Some_conv intro: readi_loop_kept
      split: if_splits option.splits)

lemma writei_loop_kept: "writei_loop i src nb off tot r s = Some s' \<Longrightarrow> kept s s'"
proof (induction i src nb off tot r s rule: writei_loop.induct)
  case (1 i src nb off tot r s)
  show ?case
  proof (cases "r = 0")
    case False
    with "1.prems" obtain b s1 where b: "bmap i (off div BSIZE) s = Some (b, s1)"
      by (subst (asm) writei_loop.simps) (auto simp: Option.bind_eq_Some_conv)
    with "1.prems" False have "writei_loop i src nb (off + min r (BSIZE - off mod BSIZE))
        (tot + min r (BSIZE - off mod BSIZE)) (r - min r (BSIZE - off mod BSIZE))
        (write_out i (off div BSIZE) b (overlay (fdisk s1 (idev (icache s1 i)) b) (off mod BSIZE)
          (min r (BSIZE - off mod BSIZE)) (\<lambda>j. src (tot + j))) nb s1) = Some s'"
      by (subst (asm) writei_loop.simps) (simp add: Let_def)
    from "1.IH" [OF False b refl refl refl this] show ?thesis
      by (blast intro: kept_trans bmap_kept [OF b] kept_write_out)
  next
    case True
    then show ?thesis using "1.prems" by (subst (asm) writei_loop.simps) simp
  qed
qed

lemma writei_kept:
  assumes "devices_ok dv" "writei dv i src off n s = Some (r, s')"
  shows "kept s s'"
proof -
  have "kept s1 (upd_inode i (\<lambda>ip. ip\<lparr>isize := z\<rparr>) s1)" for s1 z by (rule kept_upd_inode) (simp add: ident_def)
  then show ?thesis
    using assms by (auto simp: writei_def devices_ok_def Let_def Option.bind_eq_Some_conv
      intro: writei_loop_kept kept_trans split: if_splits option.splits)
qed

lemma dirlink_loop_kept: "dirlink_loop dv i sz off s = Some (o', s') \<Longrightarrow> devices_ok dv \<Longrightarrow> kept s s'"
proof (induction dv i sz off s rule: dirlink_loop.induct)
  case (1 dv i sz off s)
  show ?case
  proof (cases "off < sz")
    case True
    with "1.prems" obtain r de s1 where b: "readi dv i (of_nat off) 16 s = Some (r, de, s1)" "r = 16"
      by (subst (asm) dirlink_loop.simps) (auto simp: Option.bind_eq_Some_conv split: if_splits)
    note k = readi_kept [OF "1.prems"(2) b(1)]
    show ?thesis
    proof (cases "de ! 0 = 0 \<and> de ! 1 = 0")
      case e: True
      then show ?thesis using "1.prems" True b k by (subst (asm) dirlink_loop.simps) simp
    next
      case e: False
      then have "dirlink_loop dv i sz (off + 16) s1 = Some (o', s')"
        using "1.prems" True b by (subst (asm) dirlink_loop.simps) (auto split: if_splits)
      from "1.IH" [OF True b(1) refl refl _ e this "1.prems"(2)] b(2) show ?thesis by (blast intro: kept_trans k)
    qed
  next
    case False
    then show ?thesis using "1.prems" by (subst (asm) dirlink_loop.simps) simp
  qed
qed

lemma isdirempty_loop_kept: "isdirempty_loop dv i sz off s = Some (o', s') \<Longrightarrow> devices_ok dv \<Longrightarrow> kept s s'"
proof (induction dv i sz off s rule: isdirempty_loop.induct)
  case (1 dv i sz off s)
  show ?case
  proof (cases "off < sz")
    case True
    with "1.prems" obtain r de s1 where b: "readi dv i (of_nat off) 16 s = Some (r, de, s1)" "r = 16"
      by (subst (asm) isdirempty_loop.simps) (auto simp: Option.bind_eq_Some_conv split: if_splits)
    note k = readi_kept [OF "1.prems"(2) b(1)]
    show ?thesis
    proof (cases "de ! 0 \<noteq> 0 \<or> de ! 1 \<noteq> 0")
      case e: True
      then show ?thesis using "1.prems" True b k by (subst (asm) isdirempty_loop.simps) simp
    next
      case e: False
      then have "isdirempty_loop dv i sz (off + 16) s1 = Some (o', s')"
        using "1.prems" True b by (subst (asm) isdirempty_loop.simps) (auto split: if_splits)
      from "1.IH" [OF True b(1) refl refl _ e this "1.prems"(2)] b(2) show ?thesis by (blast intro: kept_trans k)
    qed
  next
    case False
    then show ?thesis using "1.prems" by (subst (asm) isdirempty_loop.simps) simp
  qed
qed

section \<open>One rule per operation\<close>

lemma own_ilock:
  assumes o: "own R L P s" and k: "ilock i s = Some s'"
  shows "own R (insert i L) P s'"
proof -
  note f = ilock_frame [OF k]
  have s: "iref (icache s' x) = iref (icache s x)" "ident (icache s' x) = ident (icache s x)" for x
    using f by (cases "x = i"; simp)+
  have "ibusy (icache s' l) \<Longrightarrow> l \<in> insert i L" for l using f(9) [of l] ownD(3) [OF o, of l] by (cases "l = i") auto
  then show ?thesis
    using o icache_inv_same [OF ownD(1) [OF o] s] refs_same [OF s] holds_cong [OF s] by (auto simp: own_def)
qed

lemma own_iunlock:
  assumes o: "own R L P s" and k: "iunlock i s = Some s'"
  shows "own R (L - {i}) P s'"
proof -
  note f = iunlock_frame [OF k]
  have s: "iref (icache s' x) = iref (icache s x)" "ident (icache s' x) = ident (icache s x)" for x
    using f by (cases "x = i"; simp)+
  have "ibusy (icache s' l) \<Longrightarrow> l \<in> L - {i}" for l
    using f(2) f(6) [of l] ownD(3) [OF o, of l] by (cases "l = i") auto
  then show ?thesis
    using o icache_inv_same [OF ownD(1) [OF o] s] refs_same [OF s] holds_cong [OF s] by (auto simp: own_def)
qed

text \<open>Dropping one reference to \<open>x\<close>: the pointers still covered by the rest stay.\<close>

lemma own_iput:
  assumes o: "own (add_mset x R) L P s" and k: "iput i s = Some s'" and p: "(i, x) \<in> P"
    and Q: "Q \<subseteq> P" "\<And>j y. (j, y) \<in> Q \<Longrightarrow> y \<in># R"
  shows "own R L Q s'"
proof -
  note h = ownD(4) [OF o p]
  note f = iput_refs [OF k ownD(1) [OF o] holdsD(1,2) [OF h]]
  have r: "refs s' = R" using f(2) ownD(2) [OF o] holdsD(3) [OF h] by simp
  have "holds s' j y" if "(j, y) \<in> Q" for j y
    by (rule put_holds [OF ownD(1) [OF o] holdsD(1,2) [OF h] f(1) f(4,5)])
      (use that Q ownD(4) [OF o, of j y] r in auto)
  then show ?thesis using f(1,3) r ownD(3) [OF o] by (auto simp: own_def)
qed

lemma own_iunlockput:
  assumes o: "own (add_mset x R) L P s" and k: "iunlockput i s = Some s'" and p: "(i, x) \<in> P"
    and Q: "Q \<subseteq> P" "\<And>j y. (j, y) \<in> Q \<Longrightarrow> y \<in># R"
  shows "own R (L - {i}) Q s'"
proof -
  obtain s1 where s1: "iunlock i s = Some s1" "iput i s1 = Some s'"
    using k by (auto simp: iunlockput_def Option.bind_eq_Some_conv)
  show ?thesis by (rule own_iput [OF own_iunlock [OF o s1(1)] s1(2) p Q(1)]) (rule Q(2))
qed

lemma own_idup:
  assumes o: "own R L P s" and p: "(i, x) \<in> P"
  shows "own (add_mset x R) L P (snd (idup i s))"
proof -
  note h = ownD(4) [OF o p]
  have "icache_inv (snd (idup i s)) \<and> refs (snd (idup i s)) = ledger (refs s) [Take (ident (icache s i))]"
    by (rule ic_step_counts [OF ic_step.dup [OF holdsD(1,2) [OF h]] ownD(1) [OF o]])
  moreover have "ibusy (icache (snd (idup i s)) l) = ibusy (icache s l)" "holds s l y \<Longrightarrow> holds (snd (idup i s)) l y" for l y
    by (cases "l = i"; simp add: idup_def holds_def ident_def)+
  ultimately show ?thesis using o holdsD(3) [OF h] by (auto simp: own_def)
qed

text \<open>An operation that returns a new reference, or nothing.\<close>

definition gives :: "(u32 \<times> u32) multiset \<Rightarrow> nat set \<Rightarrow> (nat \<times> u32 \<times> u32) set \<Rightarrow> nat option \<Rightarrow> fs \<Rightarrow> bool" where
  "gives R L P r s \<longleftrightarrow> (case r of None \<Rightarrow> own R L P s | Some i \<Rightarrow> (\<exists>x. own (add_mset x R) L (insert (i, x) P) s))"

lemma givesE:
  assumes "gives R L P (Some i) s"
  obtains x where "own (add_mset x R) L (insert (i, x) P) s"
  using assms by (auto simp: gives_def)

lemma gives_None: "gives R L P None s = own R L P s"
  by (simp add: gives_def)

lemma givesI:
  assumes o: "own R L P s" and i: "icache_inv s'" "\<And>l. ibusy (icache s' l) \<Longrightarrow> ibusy (icache s l)"
    and h: "\<And>l x. holds s l x \<Longrightarrow> holds s' l x"
    and r: "case r of None \<Rightarrow> refs s' = refs s
     | Some j \<Rightarrow> j < NINODE \<and> 0 < iref (icache s' j) \<and> refs s' = add_mset (ident (icache s' j)) (refs s)"
  shows "gives R L P r s'"
proof (cases r)
  case None
  then show ?thesis using o i h r by (auto simp: gives_def own_def)
next
  case (Some j)
  have "own (add_mset (ident (icache s' j)) R) L (insert (j, ident (icache s' j)) P) s'"
    using o i h r Some by (auto simp: own_def holds_def)
  then show ?thesis using Some by (auto simp: gives_def simp del: split_paired_Ex)
qed

lemma own_namex:
  assumes "namex c path parent name s = Some (r, name', s')" "own R L P s" "(c, y) \<in> P"
  shows "gives R L P r s'"
proof -
  note h = ownD(4) [OF assms(2,3)]
  note n = namex_refs [OF assms(1) ownD(1) [OF assms(2)] holdsD(1,2) [OF h]]
  show ?thesis by (rule givesI [OF assms(2) n])
qed

lemma own_namei: "namei c path s = Some (r, s') \<Longrightarrow> own R L P s \<Longrightarrow> (c, y) \<in> P \<Longrightarrow> gives R L P r s'"
  by (auto simp: namei_def Option.bind_eq_Some_conv intro: own_namex)

lemma own_nameiparent:
  "nameiparent c path name s = Some (r, name', s') \<Longrightarrow> own R L P s \<Longrightarrow> (c, y) \<in> P \<Longrightarrow> gives R L P r s'"
  by (auto simp: nameiparent_def intro: own_namex)

lemma own_dirlookup:
  assumes "dirlookup d name s = Some (r, s')" "own R L P s" "(d, y) \<in> P"
  shows "gives R L P (map_option fst r) s'"
proof -
  note h = ownD(4) [OF assms(2,3)]
  note n = dirlookup_refs [OF assms(1) ownD(1) [OF assms(2)] holdsD(2) [OF h]]
  show ?thesis
  proof (rule givesI [OF assms(2) n(1,2,6)])
    show "case map_option fst r of None \<Rightarrow> refs s' = refs s
     | Some j \<Rightarrow> j < NINODE \<and> 0 < iref (icache s' j) \<and> refs s' = add_mset (ident (icache s' j)) (refs s)"
      using n(7) n(8) by (cases r) auto
  qed
qed

lemma own_dirlink:
  assumes k: "dirlink dv d name n s = Some (r, s')" and o: "own R L P s" and d: "(d, y) \<in> P" and dv: "devices_ok dv"
  shows "own R L P s'"
proof -
  obtain q s1 where 1: "dirlookup d name s = Some (q, s1)" using k by (auto simp: dirlink_def Option.bind_eq_Some_conv)
  note g = own_dirlookup [OF 1 o d]
  show ?thesis
  proof (cases q)
    case None
    then obtain e s2 w where "dirlink_loop dv d (unat (isize (icache s1 d))) 0 s1 = Some (e, s2)"
      "writei dv d (new_entry name n) (of_nat e) 16 s2 = Some (w, s')"
      using k 1 by (auto simp: dirlink_def Option.bind_eq_Some_conv split: if_splits)
    then have "kept s1 s'" using dv by (blast intro: kept_trans dirlink_loop_kept writei_kept)
    then show ?thesis using g None by (auto simp: gives_None intro: own_kept)
  next
    case (Some a)
    then obtain j where j: "q = Some (j, snd a)" by (cases a) auto
    then have p: "iput j s1 = Some s'" using k 1 by (auto simp: dirlink_def Option.bind_eq_Some_conv)
    obtain x where "own (add_mset x R) L (insert (j, x) P) s1" using g j by (auto elim: givesE)
    then show ?thesis by (rule own_iput [OF _ p]) (use own_member [OF o] in auto)
  qed
qed

lemma own_ialloc:
  assumes "ialloc dev ty s = Some (i, s')" "own R L P s"
  shows "gives R L P (Some i) s'"
proof -
  obtain m k where g: "iget dev (of_nat m) (s\<lparr>fdisk := k\<rparr>) = Some (i, s')"
    using ialloc_get assms(1) unfolding ialloc_def by blast
  have o: "own R L P (s\<lparr>fdisk := k\<rparr>)" using assms(2) by (auto simp: own_def icache_inv_def refs_def holds_def)
  note e = iget_effect [OF ownD(1) [OF o] g]
  show ?thesis by (rule givesI [OF o e(1,5)]) (use e(2-4,6) in \<open>auto simp: holds_def\<close>)
qed

text \<open>Giving up the only locked inode.\<close>

lemma own_release:
  assumes "own (add_mset x R) {i} (insert (i, x) P) k" "iunlockput i k = Some k'" "\<And>j y. (j, y) \<in> P \<Longrightarrow> y \<in># R"
  shows "own R {} P k'"
  using own_iunlockput [OF assms(1,2) insertI1 subset_insertI assms(3)] by simp

section \<open>The calls on paths\<close>

lemma own_link_entry:
  assumes k: "link_entry dv d i name k = Some (ok, k')" and o: "own (add_mset z R) {} (insert (d, z) P) k"
    and m: "\<And>j y. (j, y) \<in> P \<Longrightarrow> y \<in># R" and dv: "devices_ok dv"
  shows "own R {} P k'"
proof -
  obtain k1 k2 where 1: "ilock d k = Some k1"
    and 2: "k2 = k1 \<or> (\<exists>r. dirlink dv d name (inum (icache k1 i)) k1 = Some (r, k2))"
    and 3: "iunlockput d k2 = Some k'"
    using k by (auto simp: link_entry_def Option.bind_eq_Some_conv split: if_splits)
  note o1 = own_ilock [OF o 1]
  have o2: "own (add_mset z R) {d} (insert (d, z) P) k2"
    using 2 o1 own_dirlink [OF _ o1 insertI1 dv] by blast
  show ?thesis by (rule own_release [OF o2 3 m])
qed

lemma own_link_path:
  assumes k: "link_path dv c i new junk k = Some (r, k')" and o: "own (add_mset x R) {i} (insert (i, x) P) k"
    and c: "(c, y) \<in> P" and m: "\<And>j y. (j, y) \<in> P \<Longrightarrow> y \<in># R" and dv: "devices_ok dv"
  shows "own R {} P k'"
proof -
  let ?P = "insert (i, x) P"
  obtain k1 d name k2 ok k3 where 1: "iunlock i (add_nlink i 1 k) = Some k1"
    and 2: "nameiparent c new junk k1 = Some (d, name, k2)"
    and 3: "(case d of None \<Rightarrow> Some (False, k2) | Some d \<Rightarrow> link_entry dv d i name k2) = Some (ok, k3)"
    and 4: "(if ok then iput i k3 = Some k' else (\<exists>k4. ilock i k3 = Some k4 \<and> iunlockput i (add_nlink i (-1) k4) = Some k'))"
    using k by (auto simp: link_path_def Option.bind_eq_Some_conv split: if_splits)
  have o1: "own (add_mset x R) {} ?P k1" using own_iunlock [OF own_kept [OF o kept_add_nlink] 1] by simp
  note g = own_nameiparent [OF 2 o1 insertI2 [OF c]]
  have m': "y \<in># add_mset x R" if "(j, y) \<in> ?P" for j y using that m by (cases "(j, y) \<in> P") (simp_all del: split_paired_All split_paired_all)
  have o3: "own (add_mset x R) {} ?P k3"
  proof (cases d)
    case None
    then show ?thesis using g 3 by (simp add: gives_None)
  next
    case (Some a)
    obtain z where "own (add_mset z (add_mset x R)) {} (insert (a, z) ?P) k2" using g Some by (auto elim: givesE)
    then show ?thesis by (rule own_link_entry [OF _ _ m' dv, rotated]) (use 3 Some in auto)
  qed
  show ?thesis
  proof (cases ok)
    case True
    then show ?thesis using own_iput [OF o3 _ insertI1, of k' P] 4 m by auto
  next
    case False
    then obtain k4 where 5: "ilock i k3 = Some k4" "iunlockput i (add_nlink i (-1) k4) = Some k'" using 4 by auto
    show ?thesis by (rule own_release [OF own_kept [OF own_ilock [OF o3 5(1)] kept_add_nlink] 5(2) m])
  qed
qed

lemma own_do_link:
  assumes k: "do_link dv old new junk c k = Some (r, k')" and o: "own R {} P k" and c: "(c, y) \<in> P" and dv: "devices_ok dv"
  shows "own R {} P k'"
proof -
  note m = own_member [OF o]
  obtain q k1 where 1: "namei c old k = Some (q, k1)" using k by (auto simp: do_link_def Option.bind_eq_Some_conv)
  note g = own_namei [OF 1 o c]
  show ?thesis
  proof (cases q)
    case None
    then show ?thesis using g k 1 by (simp add: do_link_def gives_None)
  next
    case (Some i)
    then obtain x where o1: "own (add_mset x R) {} (insert (i, x) P) k1" using g by (auto elim: givesE)
    obtain k2 where 2: "ilock i k1 = Some k2" using k 1 Some by (auto simp: do_link_def Option.bind_eq_Some_conv)
    note o2 = own_ilock [OF o1 2]
    show ?thesis
    proof (cases "itype (icache k2 i) = T_DIR")
      case True
      then have "iunlockput i k2 = Some k'" using k 1 Some 2 by (auto simp: do_link_def Option.bind_eq_Some_conv)
      then show ?thesis by (rule own_release [OF o2 _ m])
    next
      case False
      then have "link_path dv c i new junk k2 = Some (r, k')" using k 1 Some 2 by (simp add: do_link_def)
      then show ?thesis by (rule own_link_path [OF _ o2 c m dv])
    qed
  qed
qed

lemma own_remove_entry:
  assumes k: "remove_entry dv d i off k = Some (r, k')"
    and o: "own (add_mset x (add_mset y R)) {i, d} (insert (i, x) (insert (d, y) P)) k"
    and m: "\<And>j y. (j, y) \<in> P \<Longrightarrow> y \<in># R" and dv: "devices_ok dv"
  shows "own R {} P k'"
proof -
  obtain w k1 where 1: "writei dv d (\<lambda>_. 0) (of_nat off) 16 k = Some (w, k1)"
    using k by (auto simp: remove_entry_def Option.bind_eq_Some_conv)
  define k2 where "k2 = (if itype (icache k1 i) = T_DIR then add_nlink d (-1) k1 else k1)"
  obtain k3 where 3: "iunlockput d k2 = Some k3" "iunlockput i (add_nlink i (-1) k3) = Some k'"
    using k 1 by (auto simp: remove_entry_def k2_def Let_def Option.bind_eq_Some_conv split: if_splits)
  have "kept k k2" using writei_kept [OF dv 1] kept_add_nlink kept_trans by (auto simp: k2_def)
  from own_kept [OF o this] have o2: "own (add_mset y (add_mset x R)) {i, d} (insert (i, x) (insert (d, y) P)) k2"
    by (simp add: add_mset_commute)
  have "own (add_mset x R) ({i, d} - {d}) (insert (i, x) P) k3"
    by (rule own_iunlockput [OF o2 3(1)]) (use m in auto)
  then have "own (add_mset x R) ({i, d} - {d}) (insert (i, x) P) (add_nlink i (-1) k3)" by (rule own_kept [OF _ kept_add_nlink])
  from own_iunlockput [OF this 3(2) insertI1, of P] m have "own R ({i, d} - {d} - {i}) P k'" by auto
  then show ?thesis by (rule own_weaken) auto
qed

lemma own_unlink_at:
  assumes k: "unlink_at dv d name k = Some (r, k')" and o: "own (add_mset y R) {d} (insert (d, y) P) k"
    and m: "\<And>j y. (j, y) \<in> P \<Longrightarrow> y \<in># R" and dv: "devices_ok dv"
  shows "own R {} P k'"
proof -
  have done_d: "own R {} P k'" if "own (add_mset y R) {d} (insert (d, y) P) t" "iunlockput d t = Some k'" for t
    by (rule own_release [OF that m])
  show ?thesis
  proof (cases "namecmp name dot_name = 0 \<or> namecmp name dotdot_name = 0")
    case True
    then show ?thesis using k done_d [OF o] by (auto simp: unlink_at_def Option.bind_eq_Some_conv)
  next
    case False
    then obtain q k1 where 1: "dirlookup d name k = Some (q, k1)"
      using k by (auto simp: unlink_at_def Option.bind_eq_Some_conv)
    note g = own_dirlookup [OF 1 o insertI1]
    show ?thesis
    proof (cases q)
      case None
      then show ?thesis using g k False 1 done_d by (auto simp: unlink_at_def gives_None Option.bind_eq_Some_conv)
    next
      case (Some a)
      obtain i off where q: "q = Some (i, off)" using Some by (cases a) auto
      obtain x where o1: "own (add_mset x (add_mset y R)) {d} (insert (i, x) (insert (d, y) P)) k1"
        using g q by (auto elim: givesE)
      obtain k2 keep k3 where 2: "ilock i k1 = Some k2"
        and 3: "(if itype (icache k2 i) = T_DIR then do {(e, k3) \<leftarrow> isdirempty dv i k2; Some (\<not> e, k3)} else Some (False, k2))
            = Some (keep, k3)"
        and 4: "if keep then (\<exists>k4. iunlockput i k3 = Some k4 \<and> iunlockput d k4 = Some k')
            else remove_entry dv d i off k3 = Some (r, k')"
        using k False 1 q by (auto simp: unlink_at_def Option.bind_eq_Some_conv split: if_splits)
      have "kept k2 k3" using 3 dv
        by (auto simp: isdirempty_def Option.bind_eq_Some_conv intro: isdirempty_loop_kept split: if_splits)
      from own_kept [OF own_ilock [OF o1 2] this]
      have o3: "own (add_mset x (add_mset y R)) {i, d} (insert (i, x) (insert (d, y) P)) k3" .
      show ?thesis
      proof (cases keep)
        case True
        then obtain k4 where 5: "iunlockput i k3 = Some k4" "iunlockput d k4 = Some k'" using 4 by auto
        have "own (add_mset y R) ({i, d} - {i}) (insert (d, y) P) k4"
          by (rule own_iunlockput [OF o3 5(1)]) (use m in auto)
        then have "own (add_mset y R) {d} (insert (d, y) P) k4" by (rule own_weaken) auto
        then show ?thesis by (rule done_d) (rule 5(2))
      next
        case False
        then show ?thesis using own_remove_entry [OF _ o3 m dv] 4 by simp
      qed
    qed
  qed
qed

lemma own_do_unlink:
  assumes k: "do_unlink dv path junk c k = Some (r, k')" and o: "own R {} P k" and c: "(c, y) \<in> P" and dv: "devices_ok dv"
  shows "own R {} P k'"
proof -
  obtain q name k1 where 1: "nameiparent c path junk k = Some (q, name, k1)"
    using k by (auto simp: do_unlink_def Option.bind_eq_Some_conv)
  note g = own_nameiparent [OF 1 o c]
  show ?thesis
  proof (cases q)
    case None
    then show ?thesis using g k 1 by (simp add: do_unlink_def gives_None)
  next
    case (Some d)
    then obtain x where o1: "own (add_mset x R) {} (insert (d, x) P) k1" using g by (auto elim: givesE)
    obtain k2 where 2: "ilock d k1 = Some k2" "unlink_at dv d name k2 = Some (r, k')"
      using k 1 Some by (auto simp: do_unlink_def Option.bind_eq_Some_conv)
    show ?thesis by (rule own_unlink_at [OF 2(2) own_ilock [OF o1 2(1)] own_member [OF o] dv])
  qed
qed

text \<open>\<open>create\<close> and the inode of \<open>sys_open\<close>: nothing, or a locked inode with a new reference.\<close>

definition gives_locked :: "(u32 \<times> u32) multiset \<Rightarrow> (nat \<times> u32 \<times> u32) set \<Rightarrow> nat option \<Rightarrow> fs \<Rightarrow> bool" where
  "gives_locked R P r s \<longleftrightarrow> (case r of None \<Rightarrow> own R {} P s
     | Some i \<Rightarrow> (\<exists>x. own (add_mset x R) {i} (insert (i, x) P) s))"

lemma gives_locked_None: "gives_locked R P None s = own R {} P s"
  by (simp add: gives_locked_def)

lemma gives_lockedI: "own (add_mset x R) {i} (insert (i, x) P) s \<Longrightarrow> gives_locked R P (Some i) s"
  unfolding gives_locked_def option.case by (rule exI)

lemma gives_lockedE:
  assumes "gives_locked R P (Some i) s"
  obtains x where "own (add_mset x R) {i} (insert (i, x) P) s"
  using assms by (auto simp: gives_locked_def)

lemma own_link_dots:
  assumes "link_dots dv d i k = Some k'" "own R L P k" "(d, x) \<in> P" "(i, y) \<in> P" "devices_ok dv"
  shows "own R L P k'"
proof -
  obtain r1 k2 r2 where 1: "dirlink dv i dot_name (inum (icache (add_nlink d 1 k) i)) (add_nlink d 1 k) = Some (r1, k2)"
    and 2: "dirlink dv i dotdot_name (inum (icache k2 d)) k2 = Some (r2, k')"
    using assms(1) by (auto simp: link_dots_def Let_def Option.bind_eq_Some_conv split: if_splits)
  show ?thesis
    by (rule own_dirlink [OF 2 own_dirlink [OF 1 own_kept [OF assms(2) kept_add_nlink] assms(4,5)] assms(4,5)])
qed

lemma own_create_new:
  assumes k: "create_new dv ty major minor d name k = Some (i, k')" and o: "own (add_mset y R) {d} (insert (d, y) P) k"
    and m: "\<And>j y. (j, y) \<in> P \<Longrightarrow> y \<in># R" and dv: "devices_ok dv"
  shows "gives_locked R P (Some i) k'"
proof -
  define w where "w = (\<lambda>i k2. iupdate i (upd_inode i (\<lambda>ip. ip\<lparr>imajor := major, iminor := minor, inlink := 1\<rparr>) k2))"
  define dots where "dots = (\<lambda>i k3. if ty = T_DIR then link_dots dv d i k3 else Some k3)"
  have "create_new dv ty major minor d name k = do {
      (i, k1) \<leftarrow> ialloc (idev (icache k d)) ty k;
      k2 \<leftarrow> ilock i k1;
      k4 \<leftarrow> dots i (w i k2);
      (r, k5) \<leftarrow> dirlink dv d name (inum (icache k4 i)) k4;
      if r < 0 then None else do {k6 \<leftarrow> iunlockput d k5; Some (i, k6)} }"
    by (simp add: create_new_def w_def dots_def Let_def)
  with k obtain k1 k2 k4 r k5 where 1: "ialloc (idev (icache k d)) ty k = Some (i, k1)" and 2: "ilock i k1 = Some k2"
    and 3: "dots i (w i k2) = Some k4"
    and 4: "dirlink dv d name (inum (icache k4 i)) k4 = Some (r, k5)" "iunlockput d k5 = Some k'"
    by (auto simp: Option.bind_eq_Some_conv split: if_splits)
  obtain x where o1: "own (add_mset x (add_mset y R)) {d} (insert (i, x) (insert (d, y) P)) k1" (is "own ?R _ ?P _")
    using own_ialloc [OF 1 o] by (auto elim: givesE)
  have "kept k2 (w i k2)" by (simp add: w_def kept_upd_inode ident_def)
  from own_kept [OF own_ilock [OF o1 2] this] have o3: "own ?R {i, d} ?P (w i k2)" .
  have o4: "own ?R {i, d} ?P k4"
    using 3 o3 own_link_dots [of dv d i "w i k2" k4 ?R "{i, d}" ?P y x] dv
    by (auto simp: dots_def split: if_splits)
  have "own ?R {i, d} ?P k5" by (rule own_dirlink [OF 4(1) o4 insertI2 [OF insertI1] dv])
  then have "own (add_mset y (add_mset x R)) {i, d} ?P k5" by (simp add: add_mset_commute)
  then have "own (add_mset x R) ({i, d} - {d}) (insert (i, x) P) k'"
    by (rule own_iunlockput [OF _ 4(2)]) (use m in auto)
  then have "own (add_mset x R) {i} (insert (i, x) P) k'" by (rule own_weaken) auto
  then show ?thesis by (rule gives_lockedI)
qed

lemma own_create:
  assumes k: "create dv c path ty major minor junk k = Some (r, k')" and o: "own R {} P k" and c: "(c, y) \<in> P"
    and dv: "devices_ok dv"
  shows "gives_locked R P r k'"
proof -
  note m = own_member [OF o]
  obtain q name k1 where 1: "nameiparent c path junk k = Some (q, name, k1)"
    using k by (auto simp: create_def Option.bind_eq_Some_conv)
  note g = own_nameiparent [OF 1 o c]
  show ?thesis
  proof (cases q)
    case None
    then show ?thesis using g k 1 by (auto simp: create_def gives_None gives_locked_None)
  next
    case (Some d)
    then obtain z where o1: "own (add_mset z R) {} (insert (d, z) P) k1" using g by (auto elim: givesE)
    obtain k2 e k3 where 2: "ilock d k1 = Some k2" and 3: "dirlookup d name k2 = Some (e, k3)"
      using k 1 Some by (auto simp: create_def Option.bind_eq_Some_conv)
    note o2 = own_ilock [OF o1 2]
    note h = own_dirlookup [OF 3 o2 insertI1]
    show ?thesis
    proof (cases e)
      case None
      then obtain i where "create_new dv ty major minor d name k3 = Some (i, k')" "r = Some i"
        using k 1 Some 2 3 by (auto simp: create_def Option.bind_eq_Some_conv)
      then show ?thesis using own_create_new [OF _ _ m dv] h None by (simp add: gives_None)
    next
      case e: (Some a)
      obtain i off where q': "e = Some (i, off)" using e by (cases a) auto
      obtain x where "own (add_mset x (add_mset z R)) {d} (insert (i, x) (insert (d, z) P)) k3"
        using h q' by (auto elim: givesE)
      then have o3: "own (add_mset z (add_mset x R)) {d} (insert (i, x) (insert (d, z) P)) k3"
        by (simp add: add_mset_commute)
      obtain k4 k5 where 4: "iunlockput d k3 = Some k4" "ilock i k4 = Some k5"
        and 5: "(r = Some i \<and> k' = k5) \<or> (r = None \<and> iunlockput i k5 = Some k')"
        using k 1 Some 2 3 q' by (auto simp: create_def Option.bind_eq_Some_conv split: if_splits)
      have "own (add_mset x R) ({d} - {d}) (insert (i, x) P) k4"
        by (rule own_iunlockput [OF o3 4(1)]) (use m in auto)
      from own_ilock [OF this 4(2)] have o5: "own (add_mset x R) {i} (insert (i, x) P) k5" by simp
      then show ?thesis using 5 own_release [OF o5 _ m]
        by (auto simp: gives_locked_None intro: gives_lockedI)
    qed
  qed
qed

lemma own_make_node:
  assumes k: "make_node dv path ty major minor junk c k = Some (r, k')" and o: "own R {} P k" and c: "(c, y) \<in> P"
    and dv: "devices_ok dv"
  shows "own R {} P k'"
proof -
  obtain q k1 where 1: "create dv c path ty major minor junk k = Some (q, k1)"
    using k by (auto simp: make_node_def Option.bind_eq_Some_conv)
  note g = own_create [OF 1 o c dv]
  show ?thesis
  proof (cases q)
    case None
    then show ?thesis using g k 1 by (auto simp: make_node_def gives_locked_None)
  next
    case (Some i)
    then have 2: "iunlockput i k1 = Some k'" using k 1 by (auto simp: make_node_def Option.bind_eq_Some_conv)
    obtain x where "own (add_mset x R) {i} (insert (i, x) P) k1" using g Some by (auto elim: gives_lockedE)
    then show ?thesis by (rule own_release [OF _ 2 own_member [OF o]])
  qed
qed

lemma own_open_inode:
  assumes k: "open_inode dv c path om junk k = Some (r, k')" and o: "own R {} P k" and c: "(c, y) \<in> P" and dv: "devices_ok dv"
  shows "gives_locked R P r k'"
proof (cases "om AND O_CREATE = 0")
  case False
  then show ?thesis using k own_create [OF _ o c dv] by (auto simp: open_inode_def split: if_splits)
next
  case True
  then obtain q k1 where 1: "namei c path k = Some (q, k1)"
    using k by (auto simp: open_inode_def Option.bind_eq_Some_conv)
  note g = own_namei [OF 1 o c]
  show ?thesis
  proof (cases q)
    case None
    then show ?thesis using g k 1 True by (auto simp: open_inode_def gives_None gives_locked_None)
  next
    case (Some i)
    then obtain x where o1: "own (add_mset x R) {} (insert (i, x) P) k1" using g by (auto elim: givesE)
    obtain k2 where 2: "ilock i k1 = Some k2"
      and 3: "(r = Some i \<and> k' = k2) \<or> (r = None \<and> iunlockput i k2 = Some k')"
      using k 1 Some True by (auto simp: open_inode_def Option.bind_eq_Some_conv split: if_splits)
    note o2 = own_ilock [OF o1 2]
    then show ?thesis using 3 own_release [OF o2 _ own_member [OF o]]
      by (auto simp: gives_locked_None intro: gives_lockedI)
  qed
qed

text \<open>Changing the directory trades a reference to the old one for one to the new one.\<close>

lemma own_do_chdir:
  assumes k: "do_chdir path c k = Some (r, k')" and o: "own (add_mset y R) {} P k" and c: "(c, y) \<in> P"
    and Q: "Q \<subseteq> P" "\<And>j z. (j, z) \<in> Q \<Longrightarrow> z \<in># R"
  shows "case r of None \<Rightarrow> own (add_mset y R) {} P k' | Some i \<Rightarrow> \<exists>x. own (add_mset x R) {} (insert (i, x) Q) k'"
proof -
  obtain q k1 where 1: "namei c path k = Some (q, k1)" using k by (auto simp: do_chdir_def Option.bind_eq_Some_conv)
  note g = own_namei [OF 1 o c]
  show ?thesis
  proof (cases q)
    case None
    then show ?thesis using g k 1 by (auto simp: do_chdir_def gives_None)
  next
    case (Some i)
    then obtain x where o1: "own (add_mset x (add_mset y R)) {} (insert (i, x) P) k1" using g by (auto elim: givesE)
    obtain k2 where 2: "ilock i k1 = Some k2" using k 1 Some by (auto simp: do_chdir_def Option.bind_eq_Some_conv)
    note o2 = own_ilock [OF o1 2]
    show ?thesis
    proof (cases "itype (icache k2 i) = T_DIR")
      case False
      then have "iunlockput i k2 = Some k'" "r = None" using k 1 Some 2 by (auto simp: do_chdir_def Option.bind_eq_Some_conv)
      then show ?thesis using own_release [OF o2 _ own_member [OF o]] by simp
    next
      case True
      then obtain k3 where 3: "iunlock i k2 = Some k3" "iput c k3 = Some k'" "r = Some i"
        using k 1 Some 2 by (auto simp: do_chdir_def Option.bind_eq_Some_conv)
      from own_iunlock [OF o2 3(1)] have "own (add_mset y (add_mset x R)) {} (insert (i, x) P) k3"
        by (simp add: add_mset_commute)
      from own_iput [OF this 3(2) insertI2 [OF c], of "insert (i, x) Q"] Q
      have "own (add_mset x R) {} (insert (i, x) Q) k'" by auto
      then show ?thesis using 3(3) by (auto simp del: split_paired_Ex)
    qed
  qed
qed

end
