(* ===== verification/SysInv.thy ===== *)
theory SysInv
  imports SysOwn
begin

text \<open>
  The invariant of open files.  Whatever calls the processes make, in whatever order: the count of an open file is the number
  of descriptors that refer to it, the references to inodes are one for every open file of an inode and one for every
  current directory, no inode stays locked between calls, and a pipe lives exactly as long as one of its ends.
\<close>

section \<open>Descriptors and counts\<close>

definition descriptors :: "(nat \<Rightarrow> nat \<Rightarrow> nat option) \<Rightarrow> nat \<Rightarrow> (nat \<times> nat) set" where
  "descriptors fs f = {(p, fd). p < NPROC \<and> fd < NOFILE \<and> fs p fd = Some f}"

lemma finite_descriptors [simp]: "finite (descriptors fs f)"
  by (rule finite_subset [of _ "{..<NPROC} \<times> {..<NOFILE}"]) (auto simp: descriptors_def)

text \<open>\<open>e f\<close> are references to the file \<open>f\<close> that no descriptor accounts for: inside a call, never between calls.\<close>

definition counts_ok :: "(nat \<Rightarrow> int) \<Rightarrow> sys \<Rightarrow> bool" where
  "counts_ok e s \<longleftrightarrow> (\<forall>f<NFILE. fref (ftab s f) = int (card (descriptors (ofile s) f)) + e f \<and>
     (fref (ftab s f) = 0 \<longrightarrow> ftype (ftab s f) = FD_NONE)) \<and>
   (\<forall>p<NPROC. \<forall>fd<NOFILE. \<forall>f. ofile s p fd = Some f \<longrightarrow> f < NFILE)"

text \<open>The identities of the inodes behind the open files and the current directories: \<open>X\<close> and \<open>Y\<close> name them.\<close>

definition file_refs :: "(nat \<Rightarrow> u32 \<times> u32) \<Rightarrow> (nat \<Rightarrow> open_file) \<Rightarrow> (u32 \<times> u32) multiset" where
  "file_refs X t = (\<Sum>f<NFILE. if ftype (t f) = FD_INODE then {#X f#} else {#})"

definition cwd_refs :: "(nat \<Rightarrow> u32 \<times> u32) \<Rightarrow> (nat \<Rightarrow> nat option) \<Rightarrow> (u32 \<times> u32) multiset" where
  "cwd_refs Y w = (\<Sum>p<NPROC. if w p = None then {#} else {#Y p#})"

definition file_ptrs :: "(nat \<Rightarrow> u32 \<times> u32) \<Rightarrow> (nat \<Rightarrow> open_file) \<Rightarrow> (nat \<times> u32 \<times> u32) set" where
  "file_ptrs X t = (\<lambda>f. (fip (t f), X f)) ` {f. f < NFILE \<and> ftype (t f) = FD_INODE}"

definition cwd_ptrs :: "(nat \<Rightarrow> u32 \<times> u32) \<Rightarrow> (nat \<Rightarrow> nat option) \<Rightarrow> (nat \<times> u32 \<times> u32) set" where
  "cwd_ptrs Y w = {(i, Y p) |p i. p < NPROC \<and> w p = Some i}"

definition accounted :: "(nat \<Rightarrow> u32 \<times> u32) \<Rightarrow> (nat \<Rightarrow> u32 \<times> u32) \<Rightarrow> sys \<Rightarrow> bool" where
  "accounted X Y s \<longleftrightarrow> own (file_refs X (ftab s) + cwd_refs Y (cwd s)) {}
     (file_ptrs X (ftab s) \<union> cwd_ptrs Y (cwd s)) (ffs s)"

definition ends :: "sys \<Rightarrow> nat \<Rightarrow> bool \<Rightarrow> nat set" where
  "ends s q w = {f. f < NFILE \<and> ftype (ftab s f) = FD_PIPE \<and> fpipe (ftab s f) = q \<and> fwritable (ftab s f) = w}"

definition pipes_ok :: "sys \<Rightarrow> bool" where
  "pipes_ok s \<longleftrightarrow> (\<forall>q. (\<forall>w. \<forall>f\<in>ends s q w. \<forall>g\<in>ends s q w. f = g) \<and>
     (case pipes s q of None \<Rightarrow> ends s q True = {} \<and> ends s q False = {}
      | Some x \<Rightarrow> (writeopen x \<longleftrightarrow> ends s q True \<noteq> {}) \<and> (readopen x \<longleftrightarrow> ends s q False \<noteq> {}) \<and>
          (readopen x \<or> writeopen x)))"

lemma file_refs_split:
  assumes "f < NFILE"
  shows "file_refs X t = (if ftype (t f) = FD_INODE then {#X f#} else {#}) +
    (\<Sum>g\<in>{..<NFILE} - {f}. if ftype (t g) = FD_INODE then {#X g#} else {#})"
  unfolding file_refs_def using assms by (subst sum.remove [of _ f]) auto

lemma file_refs_upd:
  assumes "f < NFILE"
  shows "(if ftype (t f) = FD_INODE then {#X f#} else {#}) + file_refs (X(f := x)) (t(f := y)) =
    (if ftype y = FD_INODE then {#x#} else {#}) + file_refs X t"
proof -
  have "(\<Sum>g\<in>{..<NFILE} - {f}. if ftype ((t(f := y)) g) = FD_INODE then {#(X(f := x)) g#} else {#}) =
    (\<Sum>g\<in>{..<NFILE} - {f}. if ftype (t g) = FD_INODE then {#X g#} else {#})"
    by (rule sum.cong) auto
  then show ?thesis using file_refs_split [OF assms, of X t] file_refs_split [OF assms, of "X(f := x)" "t(f := y)"]
    by (simp add: add_ac)
qed

lemma cwd_refs_upd:
  assumes "p < NPROC"
  shows "(if w p = None then {#} else {#Y p#}) + cwd_refs (Y(p := x)) (w(p := y)) =
    (if y = None then {#} else {#x#}) + cwd_refs Y w"
proof -
  have e: "(\<Sum>g\<in>{..<NPROC} - {p}. if (w(p := y)) g = None then {#} else {#(Y(p := x)) g#}) =
    (\<Sum>g\<in>{..<NPROC} - {p}. if w g = None then {#} else {#Y g#})"
    by (rule sum.cong) auto
  have s: "cwd_refs Y w = (if w p = None then {#} else {#Y p#}) + (\<Sum>g\<in>{..<NPROC} - {p}. if w g = None then {#} else {#Y g#})" for Y w
    unfolding cwd_refs_def using assms by (subst sum.remove [of _ p]) auto
  show ?thesis unfolding s [of Y w] s [of "Y(p := x)" "w(p := y)"] e by (simp add: add_ac)
qed

lemma file_ptrs_member: "(i, x) \<in> file_ptrs X t \<Longrightarrow> x \<in># file_refs X t"
  by (auto simp: file_ptrs_def file_refs_split)

lemma cwd_ptrs_member: "(i, x) \<in> cwd_ptrs Y w \<Longrightarrow> x \<in># cwd_refs Y w"
proof -
  assume "(i, x) \<in> cwd_ptrs Y w"
  then obtain p where p: "p < NPROC" "w p = Some i" "x = Y p" by (auto simp: cwd_ptrs_def)
  have "cwd_refs Y w = (if w p = None then {#} else {#Y p#}) + (\<Sum>g\<in>{..<NPROC} - {p}. if w g = None then {#} else {#Y g#})"
    unfolding cwd_refs_def using p(1) by (subst sum.remove [of _ p]) auto
  then show ?thesis using p by simp
qed

lemma file_refs_cong:
  "(\<And>f. f < NFILE \<Longrightarrow> ftype (t' f) = ftype (t f) \<and> fip (t' f) = fip (t f)) \<Longrightarrow>
     file_refs X t' = file_refs X t \<and> file_ptrs X t' = file_ptrs X t"
  unfolding file_refs_def file_ptrs_def by (intro conjI sum.cong image_cong) auto

section \<open>Opening, duplicating and closing\<close>

lemma ofile_set_fd [simp]: "ofile (set_fd p fd x s) a b = (if a = p \<and> b = fd then x else ofile s a b)"
  by (simp add: set_fd_def)

lemma ofile_set_fd_other [simp]: "r \<noteq> p \<Longrightarrow> ofile (set_fd p fd x s) r = ofile s r"
  by (simp add: set_fd_def)

lemma descriptors_set:
  assumes "p < NPROC" "fd < NOFILE" "ofile s p fd = None"
  shows "card (descriptors (ofile (set_fd p fd (Some f) s)) g) = card (descriptors (ofile s) g) + (if g = f then 1 else 0)"
proof -
  have "descriptors (ofile (set_fd p fd (Some f) s)) g = (if g = f then insert (p, fd) (descriptors (ofile s) g) else descriptors (ofile s) g)"
    using assms by (auto simp: descriptors_def split: if_splits)
  moreover have "(p, fd) \<notin> descriptors (ofile s) g" using assms by (simp add: descriptors_def)
  ultimately show ?thesis by (cases "g = f") simp_all
qed

lemma descriptors_clear:
  assumes "p < NPROC" "fd < NOFILE" "ofile s p fd = Some f"
  shows "int (card (descriptors (ofile (set_fd p fd None s)) g)) = int (card (descriptors (ofile s) g)) - (if g = f then 1 else 0)"
proof -
  have e: "descriptors (ofile (set_fd p fd None s)) g = descriptors (ofile s) g - (if g = f then {(p, fd)} else {})"
    using assms by (auto simp: descriptors_def split: if_splits)
  have m: "(p, fd) \<in> descriptors (ofile s) f" using assms by (simp add: descriptors_def)
  then have "0 < card (descriptors (ofile s) f)" by (auto simp: card_gt_0_iff)
  with m show ?thesis unfolding e by auto
qed

lemma set_fd_simps [simp]:
  "ffs (set_fd p fd x s) = ffs s" "ftab (set_fd p fd x s) = ftab s" "pipes (set_fd p fd x s) = pipes s"
  "cwd (set_fd p fd x s) = cwd s" "accounted X Y (set_fd p fd x s) = accounted X Y s"
  by (simp_all add: set_fd_def accounted_def)

text \<open>Whether the pipes are in order depends on the pipes and on which files are their ends.\<close>

lemma pipes_ok_cong:
  assumes "pipes t = pipes s" "\<And>q w. ends t q w = ends s q w"
  shows "pipes_ok t = pipes_ok s"
  by (simp add: pipes_ok_def assms cong: option.case_cong)

lemma pipes_ok_set_fd [simp]: "pipes_ok (set_fd p fd x s) = pipes_ok s"
  by (rule pipes_ok_cong) (simp_all add: ends_def)

lemma upd_file_simps [simp]:
  "ffs (upd_file f g s) = ffs s" "pipes (upd_file f g s) = pipes s" "ofile (upd_file f g s) = ofile s"
  "cwd (upd_file f g s) = cwd s" "ftab (upd_file f g s) f = g (ftab s f)" "h \<noteq> f \<Longrightarrow> ftab (upd_file f g s) h = ftab s h"
  by (simp_all add: upd_file_def)

lemma counts_set_fd:
  assumes "counts_ok e s" "p < NPROC" "fd < NOFILE" "ofile s p fd = None" "f < NFILE"
  shows "counts_ok (e(f := e f - 1)) (set_fd p fd (Some f) s)"
  using assms descriptors_set [OF assms(2-4), of f] by (auto simp: counts_ok_def split: if_splits)

lemma counts_clear_fd:
  assumes "counts_ok e s" "p < NPROC" "fd < NOFILE" "ofile s p fd = Some f"
  shows "counts_ok (e(f := e f + 1)) (set_fd p fd None s)"
  using assms descriptors_clear [OF assms(2-4)] by (auto simp: counts_ok_def split: if_splits)

lemma counts_upd:
  assumes "counts_ok e s" "fref (g (ftab s f)) = fref (ftab s f) + d"
    "fref (g (ftab s f)) = 0 \<longrightarrow> ftype (g (ftab s f)) = FD_NONE"
  shows "counts_ok (e(f := e f + d)) (upd_file f g s)"
  using assms by (auto simp: counts_ok_def upd_file_def)

text \<open>Changes of a file that move no reference.\<close>

lemma same_file:
  assumes "ftype (g (ftab s f)) = ftype (ftab s f)" "fip (g (ftab s f)) = fip (ftab s f)"
    "fpipe (g (ftab s f)) = fpipe (ftab s f)" "fwritable (g (ftab s f)) = fwritable (ftab s f)"
  shows "accounted X Y (upd_file f g s) = accounted X Y s" "pipes_ok (upd_file f g s) = pipes_ok s"
proof -
  have "\<And>h. ftype (ftab (upd_file f g s) h) = ftype (ftab s h) \<and> fip (ftab (upd_file f g s) h) = fip (ftab s h)"
    using assms by (auto simp: upd_file_def)
  then have "file_refs X (ftab (upd_file f g s)) = file_refs X (ftab s) \<and> file_ptrs X (ftab (upd_file f g s)) = file_ptrs X (ftab s)"
    by (intro file_refs_cong) blast
  then show "accounted X Y (upd_file f g s) = accounted X Y s" by (simp add: accounted_def)
  have "ends (upd_file f g s) q w = ends s q w" for q w using assms by (auto simp: ends_def upd_file_def)
  then show "pipes_ok (upd_file f g s) = pipes_ok s" by (intro pipes_ok_cong) simp_all
qed

text \<open>The five operations on files.\<close>

lemma filealloc_spec:
  assumes c: "counts_ok e s" and a: "filealloc s = (r, s')"
  shows "r = None \<Longrightarrow> s' = s"
    "r = Some f \<Longrightarrow> f < NFILE \<and> s' = upd_file f (\<lambda>x. x\<lparr>fref := 1\<rparr>) s \<and> fref (ftab s f) = 0 \<and> ftype (ftab s f) = FD_NONE"
proof -
  show "r = None \<Longrightarrow> s' = s" using a by (auto simp: filealloc_def split: option.splits)
  assume "r = Some f"
  then have "find (\<lambda>f. fref (ftab s f) = 0) [0..<NFILE] = Some f" "s' = upd_file f (\<lambda>x. x\<lparr>fref := 1\<rparr>) s"
    using a by (auto simp: filealloc_def split: option.splits)
  then show "f < NFILE \<and> s' = upd_file f (\<lambda>x. x\<lparr>fref := 1\<rparr>) s \<and> fref (ftab s f) = 0 \<and> ftype (ftab s f) = FD_NONE"
    using c by (auto simp: find_Some_iff counts_ok_def)
qed

text \<open>A file that no descriptor refers to and that has not been given a type.\<close>

definition fresh_file :: "nat \<Rightarrow> sys \<Rightarrow> bool" where
  "fresh_file f s \<longleftrightarrow> f < NFILE \<and> fref (ftab s f) = 1 \<and> ftype (ftab s f) = FD_NONE"

lemma close_fresh: "fresh_file f s \<Longrightarrow> fileclose f s = Some (upd_file f (\<lambda>x. x\<lparr>fref := 0, ftype := FD_NONE\<rparr>) s)"
  by (simp add: fileclose_def fresh_file_def upd_file_def Let_def)

lemma close_end:
  assumes ok: "pipes_ok s" and f: "f < NFILE" "ftype (ftab s f) = FD_PIPE"
    and g: "ftype (g (ftab s f)) = FD_NONE"
    and c: "close_pipe (fpipe (ftab s f)) (fwritable (ftab s f)) (upd_file f g s) = Some s'"
  shows "pipes_ok s'" "ffs s' = ffs s" "ftab s' = ftab (upd_file f g s)" "ofile s' = ofile s" "cwd s' = cwd s"
proof -
  define q w where "q = fpipe (ftab s f)" and "w = fwritable (ftab s f)"
  obtain x where x: "pipes s q = Some x" using c by (auto simp: close_pipe_def q_def split: option.splits)
  define x' where "x' = (if w then x\<lparr>writeopen := False\<rparr> else x\<lparr>readopen := False\<rparr>)"
  have s': "s' = (upd_file f g s)\<lparr>pipes := (pipes s)(q := if \<not> readopen x' \<and> \<not> writeopen x' then None else Some x')\<rparr>"
    using c x by (auto simp: close_pipe_def pipeclose_def q_def w_def x'_def Let_def)
  show "ffs s' = ffs s" "ftab s' = ftab (upd_file f g s)" "ofile s' = ofile s" "cwd s' = cwd s" by (simp_all add: s')
  have fe: "f \<in> ends s q w" using f by (simp add: ends_def q_def w_def)
  have e: "ends s' r v = ends s r v - {f}" for r v using g by (auto simp: ends_def s' upd_file_def)
  have one: "h = h'" if "h \<in> ends s r v" "h' \<in> ends s r v" for r v h h' using ok that by (auto simp: pipes_ok_def)
  have gone: "ends s q w - {f} = {}" using one [OF fe] by auto
  have stay: "ends s r v - {f} = ends s r v" if "(r, v) \<noteq> (q, w)" for r v
    using f that by (auto simp: ends_def q_def w_def)
  have old: "(writeopen x \<longleftrightarrow> ends s q True \<noteq> {}) \<and> (readopen x \<longleftrightarrow> ends s q False \<noteq> {})"
    using ok x by (auto simp: pipes_ok_def dest!: spec [of _ q])
  have pq: "pipes s' q = (if \<not> readopen x' \<and> \<not> writeopen x' then None else Some x')" by (simp add: s')
  show "pipes_ok s'"
    unfolding pipes_ok_def
  proof (intro allI conjI ballI)
    show "h = h'" if "h \<in> ends s' r v" "h' \<in> ends s' r v" for r v h h' using one that by (auto simp: e)
    show "case pipes s' r of None \<Rightarrow> ends s' r True = {} \<and> ends s' r False = {}
      | Some x \<Rightarrow> (writeopen x \<longleftrightarrow> ends s' r True \<noteq> {}) \<and> (readopen x \<longleftrightarrow> ends s' r False \<noteq> {}) \<and>
          (readopen x \<or> writeopen x)" for r
    proof (cases "r = q")
      case True
      have "ends s' q w = {}" "ends s' q (\<not> w) = ends s q (\<not> w)" using gone stay [of q "\<not> w"] by (auto simp: e)
      then show ?thesis using old True pq by (cases w) (auto simp: x'_def)
    next
      case False
      then have "ends s' r v = ends s r v" for v using stay [of r v] by (simp add: e)
      moreover have "pipes s' r = pipes s r" using False by (simp add: s')
      moreover have "case pipes s r of None \<Rightarrow> ends s r True = {} \<and> ends s r False = {}
      | Some x \<Rightarrow> (writeopen x \<longleftrightarrow> ends s r True \<noteq> {}) \<and> (readopen x \<longleftrightarrow> ends s r False \<noteq> {}) \<and>
          (readopen x \<or> writeopen x)" using ok by (simp add: pipes_ok_def)
      ultimately show ?thesis by (simp cong: option.case_cong)
    qed
  qed
qed

lemma fileclose_spec:
  assumes k: "fileclose f s = Some s'" and f: "f < NFILE" and acc: "accounted X Y s" and ok: "pipes_ok s" and c: "counts_ok e s"
  shows "accounted X Y s'" "pipes_ok s'" "counts_ok (e(f := e f - 1)) s'" "ofile s' = ofile s" "cwd s' = cwd s"
    "g \<noteq> f \<Longrightarrow> ftab s' g = ftab s g"
proof -
  have r: "1 \<le> fref (ftab s f)" using k by (auto simp: fileclose_def split: if_splits)
  let ?dec = "\<lambda>x. x\<lparr>fref := fref x - 1\<rparr>" and ?clr = "\<lambda>x. x\<lparr>fref := 0, ftype := FD_NONE\<rparr>"
  have "accounted X Y s' \<and> pipes_ok s' \<and> counts_ok (e(f := e f - 1)) s' \<and> ofile s' = ofile s \<and> cwd s' = cwd s \<and>
    (g \<noteq> f \<longrightarrow> ftab s' g = ftab s g)"
  proof (cases "fref (ftab s f) = 1")
    case False
    then have s': "s' = upd_file f ?dec s" using k r by (simp add: fileclose_def Let_def)
    have "counts_ok (e(f := e f + -1)) s'" unfolding s' by (rule counts_upd [OF c]) (use r False in auto)
    then show ?thesis using acc ok same_file [of ?dec s f] by (simp add: s')
  next
    case True
    let ?s2 = "upd_file f ?clr s"
    have e2: "(upd_file f ?clr (upd_file f ?dec s)) = ?s2" by (simp add: upd_file_def)
    have c2: "counts_ok (e(f := e f + -1)) ?s2" by (rule counts_upd [OF c]) (use True in auto)
    have acc2: "own (file_refs X (ftab s) + cwd_refs Y (cwd s)) {} (file_ptrs X (ftab s) \<union> cwd_ptrs Y (cwd s)) (ffs s)"
      using acc by (simp add: accounted_def)
    have t2: "ftab ?s2 = (ftab s)(f := ?clr (ftab s f))" by (simp add: upd_file_def)
    have fr: "(if ftype (ftab s f) = FD_INODE then {#X f#} else {#}) + file_refs X (ftab ?s2) = file_refs X (ftab s)"
      using file_refs_upd [OF f, of "ftab s" X "X f" "?clr (ftab s f)"] by (simp add: t2)
    have fp: "file_ptrs X (ftab ?s2) \<subseteq> file_ptrs X (ftab s)" by (auto simp: file_ptrs_def t2 split: if_splits)
    consider (pipe) "ftype (ftab s f) = FD_PIPE" "close_pipe (fpipe (ftab s f)) (fwritable (ftab s f)) ?s2 = Some s'"
      | (inode) j where "ftype (ftab s f) = FD_INODE" "iput (fip (ftab s f)) (ffs s) = Some j" "s' = ?s2\<lparr>ffs := j\<rparr>"
      | (none) "ftype (ftab s f) = FD_NONE" "s' = ?s2"
      using k True by (cases "ftype (ftab s f)") (auto simp: fileclose_def Let_def e2 Option.bind_eq_Some_conv)
    then show ?thesis
    proof cases
      case pipe
      note ce = close_end [OF ok f pipe(1) _ pipe(2), simplified]
      have "accounted X Y s'" using acc2 fr fp pipe(1) ce by (auto simp: accounted_def intro: own_weaken)
      then show ?thesis using ce c2 by (simp add: counts_ok_def t2)
    next
      case none
      have "ends ?s2 q w = ends s q w" for q w using none(1) by (auto simp: ends_def t2)
      then have "pipes_ok s'" using ok pipes_ok_cong [of s' s] none(2) by simp
      moreover have "accounted X Y s'" using acc2 fr fp none by (auto simp: accounted_def intro: own_weaken)
      ultimately show ?thesis using c2 none(2) by simp
    next
      case inode
      have "ends ?s2 q w = ends s q w" for q w using inode(1) by (auto simp: ends_def t2)
      then have "pipes_ok ?s2" using ok pipes_ok_cong [of ?s2 s] by simp
      then have p: "pipes_ok s'" using pipes_ok_cong [of s' ?s2] inode(3) by (simp add: ends_def)
      have "add_mset (X f) (file_refs X (ftab ?s2)) = file_refs X (ftab s)" using fr inode(1) by simp
      then have "own (add_mset (X f) (file_refs X (ftab ?s2) + cwd_refs Y (cwd s))) {}
          (file_ptrs X (ftab s) \<union> cwd_ptrs Y (cwd s)) (ffs s)"
        using acc2 by (metis union_mset_add_mset_left)
      from own_iput [OF this inode(2), of "file_ptrs X (ftab ?s2) \<union> cwd_ptrs Y (cwd s)"]
      have "own (file_refs X (ftab ?s2) + cwd_refs Y (cwd s)) {} (file_ptrs X (ftab ?s2) \<union> cwd_ptrs Y (cwd s)) j"
        using fp f inode(1) file_ptrs_member cwd_ptrs_member by (fastforce simp: file_ptrs_def)
      then show ?thesis using p c2 by (simp add: accounted_def inode(3) counts_ok_def)
    qed
  qed
  then show "accounted X Y s'" "pipes_ok s'" "counts_ok (e(f := e f - 1)) s'" "ofile s' = ofile s" "cwd s' = cwd s"
    "g \<noteq> f \<Longrightarrow> ftab s' g = ftab s g" by simp_all
qed

section \<open>The invariant\<close>

definition all_ok :: "(nat \<Rightarrow> int) \<Rightarrow> (nat \<Rightarrow> u32 \<times> u32) \<Rightarrow> (nat \<Rightarrow> u32 \<times> u32) \<Rightarrow> sys \<Rightarrow> bool" where
  "all_ok e X Y s \<longleftrightarrow> counts_ok e s \<and> pipes_ok s \<and> accounted X Y s \<and>
     (\<forall>p<NPROC. cwd s p = None \<longrightarrow> (\<forall>fd<NOFILE. ofile s p fd = None))"

definition sys_inv :: "sys \<Rightarrow> bool" where
  "sys_inv s \<longleftrightarrow> (\<exists>X Y. all_ok (\<lambda>_. 0) X Y s)"

lemma sys_invI: "all_ok (\<lambda>_. 0) X Y s \<Longrightarrow> sys_inv s"
  by (auto simp: sys_inv_def)

lemma all_ok_cong: "all_ok e X Y s \<Longrightarrow> (\<And>f. e' f = e f) \<Longrightarrow> all_ok e' X Y s"
  by (simp add: all_ok_def counts_ok_def)

text \<open>Only the file system changes.\<close>

lemma all_ok_fs:
  assumes "all_ok e X Y s" "own (file_refs X (ftab s) + cwd_refs Y (cwd s)) {} (file_ptrs X (ftab s) \<union> cwd_ptrs Y (cwd s)) k"
  shows "all_ok e X Y (s\<lparr>ffs := k\<rparr>)"
  using assms pipes_ok_cong [of "s\<lparr>ffs := k\<rparr>" s] by (simp add: all_ok_def counts_ok_def accounted_def ends_def)

lemma all_ok_same_file:
  assumes "all_ok e X Y s" "fref (g (ftab s f)) = fref (ftab s f) + d" "0 < fref (g (ftab s f))"
    "ftype (g (ftab s f)) = ftype (ftab s f)" "fip (g (ftab s f)) = fip (ftab s f)"
    "fpipe (g (ftab s f)) = fpipe (ftab s f)" "fwritable (g (ftab s f)) = fwritable (ftab s f)"
  shows "all_ok (e(f := e f + d)) X Y (upd_file f g s)"
  using assms counts_upd [of e s g f d] same_file [of g s f] by (simp add: all_ok_def)

lemma all_ok_set_fd:
  assumes "all_ok e X Y s" "p < NPROC" "cwd s p \<noteq> None" "fd < NOFILE" "ofile s p fd = None" "f < NFILE"
  shows "all_ok (e(f := e f - 1)) X Y (set_fd p fd (Some f) s)"
  using assms counts_set_fd [of e s p fd f] by (auto simp: all_ok_def)

lemma all_ok_clear_fd:
  assumes "all_ok e X Y s" "p < NPROC" "fd < NOFILE" "ofile s p fd = Some f"
  shows "all_ok (e(f := e f + 1)) X Y (set_fd p fd None s)"
  using assms counts_clear_fd [of e s p fd f] by (auto simp: all_ok_def)

lemma all_ok_close:
  assumes "all_ok e X Y s" "fileclose f s = Some s'" "f < NFILE"
  shows "all_ok (e(f := e f - 1)) X Y s'" "ofile s' = ofile s" "cwd s' = cwd s"
  using fileclose_spec [OF assms(2,3), of X Y e] assms(1) by (auto simp: all_ok_def)

lemma all_ok_new_file:
  assumes "all_ok e X Y s" "filealloc s = (Some f, s')"
  shows "all_ok (e(f := e f + 1)) X Y s' \<and> f < NFILE \<and> ftype (ftab s' f) = FD_NONE \<and> fref (ftab s' f) = 1 \<and>
    ffs s' = ffs s \<and> pipes s' = pipes s \<and> ofile s' = ofile s \<and> cwd s' = cwd s \<and> (\<forall>g. g \<noteq> f \<longrightarrow> ftab s' g = ftab s g) \<and>
    fref (ftab s f) = 0"
proof -
  have c: "counts_ok e s" using assms(1) by (simp add: all_ok_def)
  note a = filealloc_spec(2) [OF c assms(2) refl]
  have "all_ok (e(f := e f + 1)) X Y (upd_file f (\<lambda>x. x\<lparr>fref := 1\<rparr>) s)"
    by (rule all_ok_same_file [OF assms(1)]) (use a in auto)
  then show ?thesis using a by simp
qed

text \<open>A new file that is given up again.\<close>

lemma all_ok_drop_file:
  assumes "all_ok e X Y s" "fresh_file f s" "fileclose f s = Some s'"
  shows "all_ok (e(f := e f - 1)) X Y s'" "ofile s' = ofile s" "cwd s' = cwd s" "ffs s' = ffs s"
  using all_ok_close [OF assms(1,3)] assms(2,3) close_fresh [OF assms(2)] by (auto simp: fresh_file_def)

lemma all_ok_file: "all_ok e X Y s \<Longrightarrow> p < NPROC \<Longrightarrow> argfd p a s = Some (fd, f) \<Longrightarrow>
    fd < NOFILE \<and> ofile s p fd = Some f \<and> f < NFILE"
proof -
  assume ok: "all_ok e X Y s" and p: "p < NPROC" and a: "argfd p a s = Some (fd, f)"
  have fd: "fd < NOFILE" "ofile s p fd = Some f" using a by (auto simp: argfd_def split: option.splits if_splits)
  then show "fd < NOFILE \<and> ofile s p fd = Some f \<and> f < NFILE" using ok p unfolding all_ok_def counts_ok_def by blast
qed

lemma counted_positive:
  assumes "all_ok e X Y s" "0 \<le> e f" "p < NPROC" "fd < NOFILE" "ofile s p fd = Some f"
  shows "0 < fref (ftab s f)"
proof -
  have "(p, fd) \<in> descriptors (ofile s) f" using assms by (simp add: descriptors_def)
  then have "0 < card (descriptors (ofile s) f)" by (auto simp: card_gt_0_iff)
  moreover have "f < NFILE" using assms by (auto simp: all_ok_def counts_ok_def)
  ultimately show ?thesis using assms(1,2) by (simp add: all_ok_def counts_ok_def)
qed

lemma fdalloc_spec:
  assumes "all_ok e X Y s" "fdalloc p f s = Some (fd, s')" "p < NPROC" "cwd s p \<noteq> None" "f < NFILE"
  shows "all_ok (e(f := e f - 1)) X Y s'" "fd < NOFILE" "ofile s p fd = None" "s' = set_fd p fd (Some f) s"
proof -
  have "find (\<lambda>fd. ofile s p fd = None) [0..<NOFILE] = Some fd" and s': "s' = set_fd p fd (Some f) s"
    using assms(2) by (auto simp: fdalloc_def)
  then show fd: "fd < NOFILE" "ofile s p fd = None" by (auto simp: find_Some_iff)
  show "s' = set_fd p fd (Some f) s" by (rule s')
  show "all_ok (e(f := e f - 1)) X Y s'" unfolding s' by (rule all_ok_set_fd [OF assms(1,3,4) fd assms(5)])
qed

section \<open>Every call keeps the invariant\<close>

lemma inv_dup:
  assumes "sys_dup p a s = Some (r, s')" "sys_inv s" "p < NPROC" "cwd s p \<noteq> None"
  shows "sys_inv s'"
proof -
  obtain X Y where ok: "all_ok (\<lambda>_. 0) X Y s" using assms(2) by (auto simp: sys_inv_def)
  show ?thesis
  proof (cases "argfd p a s")
    case None
    then show ?thesis using assms by (simp add: sys_dup_def)
  next
    case (Some x)
    then obtain fd0 f where x: "argfd p a s = Some (fd0, f)" by (cases x) auto
    note f = all_ok_file [OF ok assms(3) x]
    show ?thesis
    proof (cases "fdalloc p f s")
      case None
      then show ?thesis using assms x by (simp add: sys_dup_def)
    next
      case (Some y)
      then obtain fd s1 where y: "fdalloc p f s = Some (fd, s1)" by (cases y) auto
      have fa: "all_ok ((\<lambda>_. 0)(f := - 1)) X Y s1" and s1: "s1 = set_fd p fd (Some f) s"
        using fdalloc_spec [OF ok y assms(3,4)] f by simp_all
      have "filedup f s1 = Some s'" using assms(1) x y by (auto simp: sys_dup_def Option.bind_eq_Some_conv)
      then have s': "s' = upd_file f (\<lambda>x. x\<lparr>fref := fref x + 1\<rparr>) s1" by (auto simp: filedup_def split: if_splits)
      have "0 < fref (ftab s f)" by (rule counted_positive [OF ok _ assms(3)]) (use f in auto)
      then have "all_ok (((\<lambda>_. 0)(f := - 1))(f := ((\<lambda>_. 0)(f := - 1)) f + 1)) X Y s'"
        unfolding s' by (intro all_ok_same_file [OF fa]) (auto simp: s1)
      then show ?thesis by (intro sys_invI [of X Y], elim all_ok_cong) simp
    qed
  qed
qed

lemma inv_close:
  assumes "sys_close p a s = Some (r, s')" "sys_inv s" "p < NPROC"
  shows "sys_inv s'"
proof -
  obtain X Y where ok: "all_ok (\<lambda>_. 0) X Y s" using assms(2) by (auto simp: sys_inv_def)
  show ?thesis
  proof (cases "argfd p a s")
    case None
    then show ?thesis using assms by (simp add: sys_close_def)
  next
    case (Some x)
    then obtain fd f where x: "argfd p a s = Some (fd, f)" by (cases x) auto
    note f = all_ok_file [OF ok assms(3) x]
    have c: "fileclose f (set_fd p fd None s) = Some s'" using assms(1) x by (auto simp: sys_close_def Option.bind_eq_Some_conv)
    have "all_ok ((\<lambda>_. 0)(f := 0 + 1)) X Y (set_fd p fd None s)" by (rule all_ok_clear_fd [OF ok assms(3)]) (use f in auto)
    from all_ok_close(1) [OF this c] f
    have "all_ok ((\<lambda>_. 0)(f := 0 + 1, f := ((\<lambda>_. 0)(f := 0 + 1)) f - 1)) X Y s'" by simp
    then show ?thesis by (intro sys_invI [of X Y], elim all_ok_cong) simp
  qed
qed

text \<open>A call that works on the file system only.\<close>

lemma inv_on_fs:
  assumes "on_fs p body s = Some (r, s')" "sys_inv s" "p < NPROC"
    and body: "\<And>c k r k' R P y. body c k = Some (r, k') \<Longrightarrow> own R {} P k \<Longrightarrow> (c, y) \<in> P \<Longrightarrow> own R {} P k'"
  shows "sys_inv s'"
proof -
  obtain X Y where ok: "all_ok (\<lambda>_. 0) X Y s" using assms(2) by (auto simp: sys_inv_def)
  obtain c k where c: "cwd s p = Some c" "body c (ffs s) = Some (r, k)" "s' = s\<lparr>ffs := k\<rparr>"
    using assms(1) by (auto simp: on_fs_def Option.bind_eq_Some_conv)
  have "(c, Y p) \<in> file_ptrs X (ftab s) \<union> cwd_ptrs Y (cwd s)" using c(1) assms(3) by (auto simp: cwd_ptrs_def)
  from body [OF c(2) _ this] ok have
    "own (file_refs X (ftab s) + cwd_refs Y (cwd s)) {} (file_ptrs X (ftab s) \<union> cwd_ptrs Y (cwd s)) k"
    by (auto simp: all_ok_def accounted_def)
  from all_ok_fs [OF ok this] show ?thesis unfolding c(3) by (rule sys_invI)
qed

lemma inv_path_calls:
  assumes "devices_ok dv" "sys_inv s" "p < NPROC"
  shows "sys_link dv p old new junk s = Some (r, s') \<Longrightarrow> sys_inv s'"
    "sys_unlink dv p path junk s = Some (r, s') \<Longrightarrow> sys_inv s'"
    "sys_mkdir dv p path junk s = Some (r, s') \<Longrightarrow> sys_inv s'"
    "sys_mknod dv p path mj mn junk s = Some (r, s') \<Longrightarrow> sys_inv s'"
  using assms by (auto simp: sys_link_def sys_unlink_def sys_mkdir_def sys_mknod_def split: option.splits
      elim!: inv_on_fs intro: own_do_link own_do_unlink own_make_node)

text \<open>Reading and writing move bytes, not references.\<close>

lemma pipewrite_ends: "pipewrite killed p addr i = (p', n, r, cs) \<Longrightarrow> readopen p' = readopen p \<and> writeopen p' = writeopen p"
proof (induction killed p addr i rule: pipewrite.induct)
  case (1 killed p addr i)
  from 1(2) [unfolded pipewrite.simps [of killed p addr i]] 1(1) show ?case by (auto split: if_splits)
qed

lemma piperead_copy_ends: "piperead_copy p n = (p', bs) \<Longrightarrow> readopen p' = readopen p \<and> writeopen p' = writeopen p"
  by (induction p n arbitrary: p' bs rule: piperead_copy.induct) (auto simp: Let_def split: if_splits prod.splits)

lemma piperead_ends: "piperead killed p n = (p', bs, r, cs) \<Longrightarrow> readopen p' = readopen p \<and> writeopen p' = writeopen p"
  using piperead_copy_ends [of p n] by (auto simp: piperead_def Let_def split: if_splits prod.splits)

lemma all_ok_pipe:
  assumes ok: "all_ok e X Y s" and x: "pipes s q = Some x" "readopen x' = readopen x" "writeopen x' = writeopen x"
  shows "all_ok e X Y (s\<lparr>pipes := (pipes s)(q := Some x')\<rparr>)"
proof -
  let ?s = "s\<lparr>pipes := (pipes s)(q := Some x')\<rparr>"
  have e: "ends ?s = ends s" by (simp add: ends_def fun_eq_iff)
  have "pipes_ok s" using ok by (simp add: all_ok_def)
  then have "pipes_ok ?s" using x unfolding pipes_ok_def e
    by (auto split: option.splits)
  then show ?thesis using ok by (simp add: all_ok_def counts_ok_def accounted_def)
qed

text \<open>The locked inode of an open file is used and unlocked.\<close>

lemma all_ok_locked:
  assumes ok: "all_ok e X Y s" and k: "ilock i (ffs s) = Some k1" "kept k1 k2" "iunlock i k2 = Some k3"
  shows "all_ok e X Y (s\<lparr>ffs := k3\<rparr>)"
proof -
  have "own (file_refs X (ftab s) + cwd_refs Y (cwd s)) {} (file_ptrs X (ftab s) \<union> cwd_ptrs Y (cwd s)) (ffs s)"
    using ok by (simp add: all_ok_def accounted_def)
  from own_iunlock [OF own_kept [OF own_ilock [OF this k(1)] k(2)] k(3)]
  show ?thesis by (intro all_ok_fs [OF ok]) simp
qed

lemma all_ok_offset:
  assumes "all_ok (\<lambda>_. 0) X Y s" "0 < fref (ftab s f)"
  shows "all_ok (\<lambda>_. 0) X Y (upd_file f (\<lambda>x. x\<lparr>foff := foff x + n\<rparr>) s)"
  using all_ok_same_file [OF assms(1), of "\<lambda>x. x\<lparr>foff := foff x + n\<rparr>" f 0] assms(2) by (simp add: fun_upd_idem)

lemma inv_fileread:
  assumes k: "fileread dv killed f n s = Some (r, bs, s')" and ok: "all_ok (\<lambda>_. 0) X Y s" and f: "0 < fref (ftab s f)"
    and dv: "devices_ok dv"
  shows "all_ok (\<lambda>_. 0) X Y s'"
proof (cases "freadable (ftab s f)")
  case False
  then show ?thesis using k ok by (simp add: fileread_def)
next
  case True
  show ?thesis
  proof (cases "ftype (ftab s f)")
    case FD_NONE
    then show ?thesis using k True by (simp add: fileread_def)
  next
    case FD_PIPE
    obtain x where x: "pipes s (fpipe (ftab s f)) = Some x"
      using k True FD_PIPE by (cases "pipes s (fpipe (ftab s f))") (simp_all add: fileread_def)
    obtain x' bs2 r2 cs where y: "piperead killed x (nat (sint n)) = (x', bs2, r2, cs)"
      by (metis prod_cases4)
    have "s' = s\<lparr>pipes := (pipes s)(fpipe (ftab s f) := Some x')\<rparr>"
      using k True FD_PIPE x y by (simp add: fileread_def Let_def)
    then show ?thesis using all_ok_pipe [OF ok x] piperead_ends [OF y] by simp
  next
    case FD_INODE
    define i where "i = fip (ftab s f)"
    obtain k1 where k1: "ilock i (ffs s) = Some k1"
      using k True FD_INODE by (cases "ilock i (ffs s)") (simp_all add: fileread_def i_def Let_def)
    obtain v bs2 k2 where k2: "readi dv i (foff (ftab s f)) n k1 = Some (v, bs2, k2)"
      using k True FD_INODE k1 by (cases "readi dv i (foff (ftab s f)) n k1") (auto simp: fileread_def i_def Let_def)
    define s1 where "s1 = (if v > 0 then upd_file f (\<lambda>x. x\<lparr>foff := foff x + of_int v\<rparr>) s else s)"
    obtain k3 where k3: "iunlock i k2 = Some k3" "s' = s1\<lparr>ffs := k3\<rparr>"
      using k True FD_INODE k1 k2
      by (cases "iunlock i k2") (simp_all add: fileread_def i_def [symmetric] s1_def [symmetric] Let_def)
    have "all_ok (\<lambda>_. 0) X Y s1" "ffs s1 = ffs s" using ok all_ok_offset [OF ok f] by (simp_all add: s1_def)
    then show ?thesis unfolding k3(2) using all_ok_locked [of _ X Y s1 i k1 k2 k3] k1 k3(1) readi_kept [OF dv k2] by simp
  qed
qed

lemma inv_filewrite:
  assumes k: "filewrite dv killed f src n i0 s = Some (r, s')" and ok: "all_ok (\<lambda>_. 0) X Y s" and f: "0 < fref (ftab s f)"
    and dv: "devices_ok dv"
  shows "all_ok (\<lambda>_. 0) X Y s'"
proof (cases "fwritable (ftab s f)")
  case False
  then show ?thesis using k ok by (simp add: filewrite_def)
next
  case True
  show ?thesis
  proof (cases "ftype (ftab s f)")
    case FD_NONE
    then show ?thesis using k True by (simp add: filewrite_def)
  next
    case FD_PIPE
    obtain x where x: "pipes s (fpipe (ftab s f)) = Some x"
      using k True FD_PIPE by (cases "pipes s (fpipe (ftab s f))") (simp_all add: filewrite_def)
    obtain x' m r2 cs where y: "pipewrite killed x (map src [0..<nat (sint n)]) i0 = (x', m, r2, cs)"
      by (metis prod_cases4)
    have "s' = s\<lparr>pipes := (pipes s)(fpipe (ftab s f) := Some x')\<rparr>"
      using k True FD_PIPE x y by (simp add: filewrite_def Let_def)
    then show ?thesis using all_ok_pipe [OF ok x] pipewrite_ends [OF y] by simp
  next
    case FD_INODE
    define i where "i = fip (ftab s f)"
    obtain k1 where k1: "ilock i (ffs s) = Some k1"
      using k True FD_INODE by (cases "ilock i (ffs s)") (simp_all add: filewrite_def i_def Let_def)
    obtain v k2 where k2: "writei dv i src (foff (ftab s f)) n k1 = Some (v, k2)"
      using k True FD_INODE k1 by (cases "writei dv i src (foff (ftab s f)) n k1") (auto simp: filewrite_def i_def Let_def)
    define s1 where "s1 = (if v > 0 then upd_file f (\<lambda>x. x\<lparr>foff := foff x + of_int v\<rparr>) s else s)"
    obtain k3 where k3: "iunlock i k2 = Some k3" "s' = s1\<lparr>ffs := k3\<rparr>"
      using k True FD_INODE k1 k2
      by (cases "iunlock i k2") (simp_all add: filewrite_def i_def [symmetric] s1_def [symmetric] Let_def)
    have "all_ok (\<lambda>_. 0) X Y s1" "ffs s1 = ffs s" using ok all_ok_offset [OF ok f] by (simp_all add: s1_def)
    then show ?thesis unfolding k3(2) using all_ok_locked [of _ X Y s1 i k1 k2 k3] k1 k3(1) writei_kept [OF dv k2] by simp
  qed
qed

lemma inv_read_write:
  assumes "sys_inv s" "p < NPROC" "devices_ok dv"
  shows "sys_read dv killed p a n buf s = Some (r, bs, s') \<Longrightarrow> sys_inv s'"
    "sys_write dv killed p a n src i0 s = Some (r, s') \<Longrightarrow> sys_inv s'"
    "sys_fstat p a buf old s = Some (st, s') \<Longrightarrow> sys_inv s'"
proof -
  obtain X Y where ok: "all_ok (\<lambda>_. 0) X Y s" using assms(1) by (auto simp: sys_inv_def)
  have pos: "0 < fref (ftab s f)" if "argfd p a s = Some (fd, f)" for fd f
    using counted_positive [OF ok _ assms(2)] all_ok_file [OF ok assms(2) that] by blast
  have rd: "sys_inv s'" if "argfd p a s = Some (fd, f)" "fileread dv killed f n s = Some (r, bs, s')" for fd f n
    by (rule sys_invI [OF inv_fileread [OF that(2) ok pos [OF that(1)] assms(3)]])
  show "sys_read dv killed p a n buf s = Some (r, bs, s') \<Longrightarrow> sys_inv s'"
    using assms(1) rd by (auto simp: sys_read_def split: option.splits if_splits)
  have wr: "sys_inv s'" if "argfd p a s = Some (fd, f)" "filewrite dv killed f src n i0 s = Some (r, s')" for fd f src n
    by (rule sys_invI [OF inv_filewrite [OF that(2) ok pos [OF that(1)] assms(3)]])
  show "sys_write dv killed p a n src i0 s = Some (r, s') \<Longrightarrow> sys_inv s'"
    using assms(1) wr by (auto simp: sys_write_def split: option.splits)
  have "filestat f old s = Some (st, s') \<Longrightarrow> sys_inv s'" for f
    using assms(1) all_ok_locked [OF ok _ kept_refl]
    by (auto simp: filestat_def Let_def Option.bind_eq_Some_conv intro: sys_invI split: if_splits)
  then show "sys_fstat p a buf old s = Some (st, s') \<Longrightarrow> sys_inv s'"
    using assms(1) by (auto simp: sys_fstat_def split: option.splits if_splits)
qed

lemma own_base:
  assumes "all_ok e X Y s"
  shows "own (file_refs X (ftab s) + cwd_refs Y (cwd s)) {} (file_ptrs X (ftab s) \<union> cwd_ptrs Y (cwd s)) (ffs s)"
  using assms by (simp add: all_ok_def accounted_def)

lemma cwd_ptr: "p < NPROC \<Longrightarrow> w p = Some c \<Longrightarrow> (c, Y p) \<in> Q \<union> cwd_ptrs Y w"
  by (auto simp: cwd_ptrs_def)

lemma base_member:
  "(j, z) \<in> file_ptrs X t \<union> cwd_ptrs Y w \<Longrightarrow> z \<in># file_refs X t + cwd_refs Y w"
  using file_ptrs_member cwd_ptrs_member by fastforce

text \<open>A directory slot of a process takes over a reference, or gives up its own.\<close>

lemma cwd_ptrs_upd: "cwd_ptrs (Y(p := x)) (w(p := Some i)) \<subseteq> insert (i, x) (cwd_ptrs Y (w(p := None)))"
  by (auto simp: cwd_ptrs_def split: if_splits)

lemma cwd_ptrs_None: "cwd_ptrs Y (w(p := None)) \<subseteq> cwd_ptrs Y w"
  by (auto simp: cwd_ptrs_def split: if_splits)

lemma cwd_refs_None: "p < NPROC \<Longrightarrow> w p = Some c \<Longrightarrow> cwd_refs Y w = add_mset (Y p) (cwd_refs Y (w(p := None)))"
  using cwd_refs_upd [of p w Y "Y p" None] by simp

lemma cwd_refs_Some: "p < NPROC \<Longrightarrow> cwd_refs (Y(p := x)) (w(p := Some i)) = add_mset x (cwd_refs Y (w(p := None)))"
  using cwd_refs_upd [of p "w(p := None)" Y x "Some i"] by simp

lemma all_ok_set_cwd:
  assumes ok: "all_ok e X Y s"
    and o: "own (add_mset x (file_refs X (ftab s) + cwd_refs Y ((cwd s)(p := None)))) {}
      (insert (i, x) (file_ptrs X (ftab s) \<union> cwd_ptrs Y ((cwd s)(p := None)))) k"
    and p: "p < NPROC"
  shows "all_ok e X (Y(p := x)) (s\<lparr>ffs := k, cwd := (cwd s)(p := Some i)\<rparr>)"
proof -
  let ?s = "s\<lparr>ffs := k, cwd := (cwd s)(p := Some i)\<rparr>"
  have "accounted X (Y(p := x)) ?s"
    unfolding accounted_def using o cwd_ptrs_upd [of Y p x "cwd s" i]
    by (auto simp: cwd_refs_Some [OF p] intro: own_weaken)
  moreover have "pipes_ok ?s" using ok pipes_ok_cong [of ?s s] by (simp add: all_ok_def ends_def)
  ultimately show ?thesis using ok by (auto simp: all_ok_def counts_ok_def)
qed

lemma inv_chdir:
  assumes "sys_chdir p path s = Some (r, s')" "sys_inv s" "p < NPROC"
  shows "sys_inv s'"
proof (cases path)
  case None
  then show ?thesis using assms by (simp add: sys_chdir_def)
next
  case (Some pa)
  obtain X Y where ok: "all_ok (\<lambda>_. 0) X Y s" using assms(2) by (auto simp: sys_inv_def)
  obtain c q k where c: "cwd s p = Some c" "do_chdir pa c (ffs s) = Some (q, k)"
    and s': "s' = (case q of None \<Rightarrow> s\<lparr>ffs := k\<rparr> | Some i \<Rightarrow> s\<lparr>ffs := k, cwd := (cwd s)(p := Some i)\<rparr>)"
    using assms(1) Some by (auto simp: sys_chdir_def Option.bind_eq_Some_conv split: option.splits)
  let ?R = "file_refs X (ftab s) + cwd_refs Y ((cwd s)(p := None))"
  let ?Q = "file_ptrs X (ftab s) \<union> cwd_ptrs Y ((cwd s)(p := None))"
  have e: "file_refs X (ftab s) + cwd_refs Y (cwd s) = add_mset (Y p) ?R" using cwd_refs_None [of p "cwd s"] assms(3) c(1) by simp
  have "case q of None \<Rightarrow> own (add_mset (Y p) ?R) {} (file_ptrs X (ftab s) \<union> cwd_ptrs Y (cwd s)) k
    | Some i \<Rightarrow> \<exists>x. own (add_mset x ?R) {} (insert (i, x) ?Q) k"
  proof (rule own_do_chdir [OF c(2) own_base [OF ok, unfolded e]])
    show "(c, Y p) \<in> file_ptrs X (ftab s) \<union> cwd_ptrs Y (cwd s)" by (rule cwd_ptr [of _ "cwd s", OF assms(3) c(1)])
    show "?Q \<subseteq> file_ptrs X (ftab s) \<union> cwd_ptrs Y (cwd s)" using cwd_ptrs_None by blast
  qed (rule base_member)
  then show ?thesis
  proof (cases q)
    case None
    then show ?thesis using \<open>case q of None \<Rightarrow> _ | Some i \<Rightarrow> _ i\<close> all_ok_fs [OF ok, of k] e s' by (auto intro: sys_invI)
  next
    case (Some i)
    then obtain x where "own (add_mset x ?R) {} (insert (i, x) ?Q) k" using \<open>case q of None \<Rightarrow> _ | Some i \<Rightarrow> _ i\<close> by auto
    from all_ok_set_cwd [OF ok this assms(3)] show ?thesis using Some s' by (auto intro: sys_invI)
  qed
qed

text \<open>Opening a file: a new file of the table takes over the reference to the inode.\<close>

lemma all_ok_set_inode:
  assumes ok: "all_ok e X Y s" and f: "f < NFILE" "ftype (ftab s f) = FD_NONE" "0 < fref (ftab s f)"
    and o: "own (add_mset x (file_refs X (ftab s) + cwd_refs Y (cwd s))) {}
      (insert (i, x) (file_ptrs X (ftab s) \<union> cwd_ptrs Y (cwd s))) k"
    and g: "\<And>y. ftype (g y) = FD_INODE \<and> fip (g y) = i \<and> fref (g y) = fref y"
  shows "all_ok e (X(f := x)) Y (upd_file f g (s\<lparr>ffs := k\<rparr>))"
proof -
  let ?s = "upd_file f g (s\<lparr>ffs := k\<rparr>)"
  have t: "ftab ?s = (ftab s)(f := g (ftab s f))" by (simp add: upd_file_def)
  have r: "file_refs (X(f := x)) (ftab ?s) = add_mset x (file_refs X (ftab s))"
    using file_refs_upd [OF f(1), of "ftab s" X x "g (ftab s f)"] f(2) g by (simp add: t)
  have "file_ptrs (X(f := x)) (ftab ?s) \<subseteq> insert (i, x) (file_ptrs X (ftab s))"
    using g by (auto simp: file_ptrs_def t split: if_splits)
  then have "accounted (X(f := x)) Y ?s" using o by (auto simp: accounted_def r intro: own_weaken)
  moreover have "ends ?s q w = ends s q w" for q w using f g by (auto simp: ends_def t)
  then have "pipes_ok ?s" using ok pipes_ok_cong [of ?s s] by (simp add: all_ok_def)
  moreover have "counts_ok e ?s" using ok f g by (auto simp: all_ok_def counts_ok_def t)
  ultimately show ?thesis using ok by (auto simp: all_ok_def)
qed

lemma inv_open_fd:
  assumes k: "open_fd p i om s = Some (r, s')" and ok: "all_ok (\<lambda>_. 0) X Y (s\<lparr>ffs := k0\<rparr>)" and p: "p < NPROC" "cwd s p \<noteq> None"
    and o: "own (add_mset x (file_refs X (ftab s) + cwd_refs Y (cwd s))) {i}
      (insert (i, x) (file_ptrs X (ftab s) \<union> cwd_ptrs Y (cwd s))) (ffs s)"
  shows "sys_inv s'"
proof -
  let ?R = "file_refs X (ftab s) + cwd_refs Y (cwd s)" and ?P = "file_ptrs X (ftab s) \<union> cwd_ptrs Y (cwd s)"
  have put: "own ?R {} ?P k" if "iunlockput i (ffs s) = Some k" for k
    by (rule own_release [OF o that]) (rule base_member)
  have e0: "all_ok (\<lambda>_. 0) X Y (t\<lparr>ffs := k\<rparr>)"
    if "all_ok (\<lambda>_. 0) X Y (t\<lparr>ffs := k0\<rparr>)" "own (file_refs X (ftab t) + cwd_refs Y (cwd t)) {} (file_ptrs X (ftab t) \<union> cwd_ptrs Y (cwd t)) k" for t k
    using all_ok_fs [OF that(1), of k] that(2) by simp
  obtain f s1 where fa: "filealloc s = (f, s1)" by fastforce
  show ?thesis
  proof (cases f)
    case None
    have c: "counts_ok (\<lambda>_. 0) s" using ok by (simp add: all_ok_def counts_ok_def)
    have "s1 = s" by (rule filealloc_spec(1) [OF c fa None])
    then obtain k1 where "iunlockput i (ffs s) = Some k1" "s' = s\<lparr>ffs := k1\<rparr>"
      using k fa None by (auto simp: open_fd_def Option.bind_eq_Some_conv)
    then show ?thesis using e0 [OF ok put] by (auto intro: sys_invI)
  next
    case (Some g)
    have fa': "filealloc (s\<lparr>ffs := k0\<rparr>) = (Some g, s1\<lparr>ffs := k0\<rparr>)"
      using fa Some by (auto simp: filealloc_def upd_file_def split: option.splits)
    note n = all_ok_new_file [OF ok fa']
    have s1: "ffs s1 = ffs s" "ofile s1 = ofile s" "cwd s1 = cwd s"
      using fa by (auto simp: filealloc_def split: option.splits)
    have same: "file_refs X (ftab s1) = file_refs X (ftab s)" "file_ptrs X (ftab s1) = file_ptrs X (ftab s)"
      using file_refs_cong [of "ftab s1" "ftab s" X] fa by (auto simp: filealloc_def upd_file_def split: option.splits)
    have fresh: "fresh_file g s1" using n by (simp add: fresh_file_def)
    show ?thesis
    proof (cases "fdalloc p g s1")
      case None
      define s2 where "s2 = upd_file g (\<lambda>x. x\<lparr>fref := 0, ftype := FD_NONE\<rparr>) s1"
      have c: "fileclose g s1 = Some s2" unfolding s2_def by (rule close_fresh [OF fresh])
      obtain k1 where k1: "iunlockput i (ffs s2) = Some k1" "s' = s2\<lparr>ffs := k1\<rparr>"
        using k fa Some None c by (auto simp: open_fd_def Option.bind_eq_Some_conv)
      have "fileclose g (s1\<lparr>ffs := k0\<rparr>) = Some (s2\<lparr>ffs := k0\<rparr>)"
        using close_fresh [of g "s1\<lparr>ffs := k0\<rparr>"] fresh by (simp add: fresh_file_def s2_def upd_file_def)
      moreover have "all_ok ((\<lambda>_. 0)(g := 0 + 1)) X Y (s1\<lparr>ffs := k0\<rparr>)" "fresh_file g (s1\<lparr>ffs := k0\<rparr>)"
        using n fresh by (simp_all add: fresh_file_def)
      ultimately have "all_ok ((\<lambda>_. 0)(g := 0 + 1, g := ((\<lambda>_. 0)(g := 0 + 1)) g - 1)) X Y (s2\<lparr>ffs := k0\<rparr>)"
        using all_ok_drop_file(1) by blast
      then have a: "all_ok (\<lambda>_. 0) X Y (s2\<lparr>ffs := k0\<rparr>)" by (elim all_ok_cong) simp
      have "file_refs X (ftab s2) = file_refs X (ftab s1) \<and> file_ptrs X (ftab s2) = file_ptrs X (ftab s1)"
        by (rule file_refs_cong) (use n in \<open>auto simp: s2_def upd_file_def\<close>)
      with e0 [OF a, of k1] put [of k1] k1 show ?thesis by (auto simp: s2_def same s1 intro: sys_invI)
    next
      case y: (Some y)
      then obtain fd s2 where y: "fdalloc p g s1 = Some (fd, s2)" by (cases y) auto
      obtain k1 where k1: "iunlock i (ffs s2) = Some k1" and s': "s' = upd_file g (\<lambda>x. x\<lparr>ftype := FD_INODE, fip := i, foff := 0,
              freadable := (om AND O_WRONLY = 0), fwritable := (om AND O_WRONLY \<noteq> 0 \<or> om AND O_RDWR \<noteq> 0)\<rparr>)
              (s2\<lparr>ffs := k1\<rparr>)" (is "_ = upd_file g ?g _")
        using k fa Some y by (auto simp: open_fd_def Option.bind_eq_Some_conv)
      have y': "fdalloc p g (s1\<lparr>ffs := k0\<rparr>) = Some (fd, s2\<lparr>ffs := k0\<rparr>)" using y by (auto simp: fdalloc_def set_fd_def)
      have s2: "s2 = set_fd p fd (Some g) s1" using y by (auto simp: fdalloc_def)
      have a: "all_ok (((\<lambda>_. 0)(g := 0 + 1))(g := ((\<lambda>_. 0)(g := 0 + 1)) g - 1)) X Y (s2\<lparr>ffs := k0\<rparr>)"
        by (rule fdalloc_spec(1) [OF _ y' p(1)]) (use n p s1 in auto)
      have own1: "own (add_mset x ?R) {} (insert (i, x) ?P) k1"
        using own_iunlock [OF o k1 [unfolded s2 set_fd_simps s1]] by simp
      have "all_ok ((\<lambda>_. 0)(g := 0 + 1, g := ((\<lambda>_. 0)(g := 0 + 1)) g - 1)) (X(g := x)) Y (upd_file g ?g (s2\<lparr>ffs := k0, ffs := k1\<rparr>))"
        by (rule all_ok_set_inode [OF a]) (use n own1 in \<open>auto simp: s2 same s1\<close>)
      from all_ok_cong [OF this, of "\<lambda>_. 0"] have "all_ok (\<lambda>_. 0) (X(g := x)) Y s'" by (simp add: s')
      then show ?thesis by (rule sys_invI)
    qed
  qed
qed

lemma inv_open:
  assumes k: "sys_open dv p path om junk s = Some (r, s')" and inv: "sys_inv s" and p: "p < NPROC" "cwd s p \<noteq> None"
    and dv: "devices_ok dv"
  shows "sys_inv s'"
proof (cases "path = None \<or> om = None")
  case True
  then show ?thesis using k inv by (auto simp: sys_open_def split: option.splits)
next
  case False
  then obtain pa m where pm: "path = Some pa" "om = Some m" by auto
  obtain X Y where ok: "all_ok (\<lambda>_. 0) X Y s" using inv by (auto simp: sys_inv_def)
  obtain c q k1 where c: "cwd s p = Some c" "open_inode dv c pa m junk (ffs s) = Some (q, k1)"
    and s': "(case q of None \<Rightarrow> Some (-1, s\<lparr>ffs := k1\<rparr>) | Some i \<Rightarrow> open_fd p i m (s\<lparr>ffs := k1\<rparr>)) = Some (r, s')"
    using k pm by (auto simp: sys_open_def Option.bind_eq_Some_conv)
  note g = own_open_inode [OF c(2) own_base [OF ok] cwd_ptr [of _ "cwd s", OF p(1) c(1)] dv]
  show ?thesis
  proof (cases q)
    case None
    then show ?thesis using g s' all_ok_fs [OF ok] by (auto simp: gives_locked_None intro: sys_invI)
  next
    case (Some i)
    then obtain x where "own (add_mset x (file_refs X (ftab s) + cwd_refs Y (cwd s))) {i}
      (insert (i, x) (file_ptrs X (ftab s) \<union> cwd_ptrs Y (cwd s))) k1" using g by (auto elim: gives_lockedE)
    then show ?thesis using inv_open_fd [of p i m "s\<lparr>ffs := k1\<rparr>" r s' X Y "ffs s" x] s' Some ok p by simp
  qed
qed

section \<open>Pipes, fork and exit\<close>

lemma all_ok_new_pipe:
  assumes ok: "all_ok e X Y s" and a: "fresh_file a s" and b: "fresh_file b s" and ab: "a \<noteq> b" and q: "pipes s q = None"
  shows "all_ok e X Y ((upd_file b (\<lambda>x. x\<lparr>ftype := FD_PIPE, freadable := False, fwritable := True, fpipe := q\<rparr>)
    (upd_file a (\<lambda>x. x\<lparr>ftype := FD_PIPE, freadable := True, fwritable := False, fpipe := q\<rparr>) s))\<lparr>pipes := (pipes s)(q \<mapsto> pipe_init junk)\<rparr>)"
    (is "all_ok e X Y ?s")
proof -
  have t: "ftab ?s = (ftab s)(a := (ftab s a)\<lparr>ftype := FD_PIPE, freadable := True, fwritable := False, fpipe := q\<rparr>,
      b := (ftab s b)\<lparr>ftype := FD_PIPE, freadable := False, fwritable := True, fpipe := q\<rparr>)"
    using ab by (simp add: upd_file_def)
  have none: "ends s q w = {}" for w
    using ok q by (cases w) (auto simp: all_ok_def pipes_ok_def dest!: spec [of _ q])
  have eq: "ends ?s q True = {b}" "ends ?s q False = {a}"
    using a b ab none [of True] none [of False] by (auto simp: ends_def t fresh_file_def)
  have er: "ends ?s r w = ends s r w" if "r \<noteq> q" for r w using that a b by (auto simp: ends_def t fresh_file_def)
  have pok: "pipes_ok s" using ok by (simp add: all_ok_def)
  have "pipes_ok ?s"
    unfolding pipes_ok_def
  proof (intro allI conjI ballI)
    show "f = g" if "f \<in> ends ?s r w" "g \<in> ends ?s r w" for r w f g
      using that eq er [of r w] pok by (cases "r = q"; cases w) (auto simp: pipes_ok_def)
    show "case pipes ?s r of None \<Rightarrow> ends ?s r True = {} \<and> ends ?s r False = {}
      | Some x \<Rightarrow> (writeopen x \<longleftrightarrow> ends ?s r True \<noteq> {}) \<and> (readopen x \<longleftrightarrow> ends ?s r False \<noteq> {}) \<and> (readopen x \<or> writeopen x)" for r
    proof (cases "r = q")
      case True
      then show ?thesis using eq by (simp add: pipe_init_def)
    next
      case False
      have "case pipes s r of None \<Rightarrow> ends s r True = {} \<and> ends s r False = {}
      | Some x \<Rightarrow> (writeopen x \<longleftrightarrow> ends s r True \<noteq> {}) \<and> (readopen x \<longleftrightarrow> ends s r False \<noteq> {}) \<and> (readopen x \<or> writeopen x)"
        using pok by (simp add: pipes_ok_def)
      then show ?thesis using False by (simp only: er [OF False]) simp
    qed
  qed
  moreover have "file_refs X (ftab ?s) = file_refs X (ftab s) \<and> file_ptrs X (ftab ?s) = file_ptrs X (ftab s)"
    using a b by (auto simp: file_refs_def file_ptrs_def t fresh_file_def intro!: sum.cong)
  then have "accounted X Y ?s" using ok by (simp add: all_ok_def accounted_def)
  moreover have "counts_ok e ?s" using ok a b by (auto simp: all_ok_def counts_ok_def t fresh_file_def)
  ultimately show ?thesis using ok by (auto simp: all_ok_def)
qed

lemma close_both_ok:
  assumes "all_ok ((\<lambda>_. 0)(a := 1, b := 1)) X Y s" "close_both a b s = Some s'" "a < NFILE" "b < NFILE" "a \<noteq> b"
  shows "sys_inv s'"
proof -
  obtain s1 where c: "fileclose a s = Some s1" "fileclose b s1 = Some s'"
    using assms(2) by (auto simp: close_both_def Option.bind_eq_Some_conv)
  from all_ok_close(1) [OF all_ok_close(1) [OF assms(1) c(1) assms(3)] c(2) assms(4)]
  show ?thesis by (intro sys_invI [of X Y], elim all_ok_cong) (use assms(5) in auto)
qed

lemma pipealloc_spec:
  assumes k: "pipealloc page s = Some (r, s')" and ok: "all_ok (\<lambda>_. 0) X Y s"
    and fresh: "\<And>q junk. page = Some (q, junk) \<Longrightarrow> pipes s q = None"
  shows "r = None \<Longrightarrow> sys_inv s'"
    "r = Some (a, b) \<Longrightarrow> all_ok ((\<lambda>_. 0)(a := 1, b := 1)) X Y s' \<and> a \<noteq> b \<and> a < NFILE \<and> b < NFILE \<and>
       ofile s' = ofile s \<and> cwd s' = cwd s"
proof -
  have main: "case r of None \<Rightarrow> sys_inv s' | Some (a, b) \<Rightarrow> all_ok ((\<lambda>_. 0)(a := 1, b := 1)) X Y s' \<and> a \<noteq> b \<and> a < NFILE \<and> b < NFILE \<and>
       ofile s' = ofile s \<and> cwd s' = cwd s"
  proof -
    obtain f0 s1 where f0: "filealloc s = (f0, s1)" by fastforce
    show ?thesis
    proof (cases f0)
      case None
      have "counts_ok (\<lambda>_. 0) s" using ok by (simp add: all_ok_def)
      then have "s1 = s" by (rule filealloc_spec(1) [OF _ f0 None])
      then show ?thesis using k f0 None ok by (auto simp: pipealloc_def intro: sys_invI)
    next
      case (Some a)
      note n0 = all_ok_new_file [OF ok f0 [unfolded Some]]
      have ok1: "all_ok ((\<lambda>_. 0)(a := 1)) X Y s1" using n0 by simp
      obtain f1 s2 where f1: "filealloc s1 = (f1, s2)" by fastforce
      show ?thesis
      proof (cases f1)
        case None
        have "counts_ok ((\<lambda>_. 0)(a := 1)) s1" using ok1 by (simp add: all_ok_def)
        then have "s2 = s1" by (rule filealloc_spec(1) [OF _ f1 None])
        then have c: "fileclose a s1 = Some s'" "r = None"
          using k f0 Some f1 None by (auto simp: pipealloc_def Option.bind_eq_Some_conv)
        from all_ok_close(1) [OF ok1 c(1)] n0 have "all_ok ((\<lambda>_. 0)(a := 1, a := ((\<lambda>_. 0)(a := 1)) a - 1)) X Y s'" by blast
        then have "all_ok (\<lambda>_. 0) X Y s'" by (elim all_ok_cong) auto
        then show ?thesis using c(2) by (auto intro: sys_invI)
      next
        case b: (Some b)
        note n1 = all_ok_new_file [OF ok1 f1 [unfolded b]]
        have ab: "a \<noteq> b" using n0 n1 by auto
        have fr: "fresh_file a s2" "fresh_file b s2" using n0 n1 ab by (auto simp: fresh_file_def)
        have "all_ok (((\<lambda>_. 0)(a := 1))(b := ((\<lambda>_. 0)(a := 1)) b + 1)) X Y s2" using n1 by blast
        then have ok2: "all_ok ((\<lambda>_. 0)(a := 1, b := 1)) X Y s2" using ab by simp
        show ?thesis
        proof (cases page)
          case None
          then have c: "close_both a b s2 = Some s'" "r = None"
            using k f0 Some f1 b by (auto simp: pipealloc_def close_both_def Option.bind_eq_Some_conv)
          show ?thesis using close_both_ok [OF ok2 c(1)] n0 n1 ab c(2) by simp
        next
          case pg: (Some pg)
          obtain q junk where q: "page = Some (q, junk)" using pg by (cases pg) auto
          have "pipes s2 q = None" using fresh [OF q] n0 n1 by simp
          from all_ok_new_pipe [OF ok2 fr ab this] k f0 Some f1 b q
          show ?thesis using n0 n1 ab by (auto simp: pipealloc_def Let_def)
        qed
      qed
    qed
  qed
  then show "r = None \<Longrightarrow> sys_inv s'"
    "r = Some (a, b) \<Longrightarrow> all_ok ((\<lambda>_. 0)(a := 1, b := 1)) X Y s' \<and> a \<noteq> b \<and> a < NFILE \<and> b < NFILE \<and>
       ofile s' = ofile s \<and> cwd s' = cwd s" by auto
qed

lemma inv_pipe:
  assumes k: "sys_pipe p buf page s = Some (r, s')" and inv: "sys_inv s" and p: "p < NPROC" "cwd s p \<noteq> None"
    and fresh: "\<And>q junk. page = Some (q, junk) \<Longrightarrow> pipes s q = None"
  shows "sys_inv s'"
proof (cases buf)
  case False
  then show ?thesis using k inv by (simp add: sys_pipe_def)
next
  case True
  obtain X Y where ok: "all_ok (\<lambda>_. 0) X Y s" using inv by (auto simp: sys_inv_def)
  obtain v s1 where v: "pipealloc page s = Some (v, s1)"
    using k True by (auto simp: sys_pipe_def Option.bind_eq_Some_conv)
  have none: "v = None \<Longrightarrow> sys_inv s1" using pipealloc_spec(1) [OF v ok] fresh by blast
  show ?thesis
  proof (cases v)
    case None
    then show ?thesis using k v True none by (simp add: sys_pipe_def)
  next
    case (Some ab)
    obtain a b where ab: "v = Some (a, b)" using Some by (cases ab) auto
    have s1: "all_ok ((\<lambda>_. 0)(a := 1, b := 1)) X Y s1 \<and> a \<noteq> b \<and> a < NFILE \<and> b < NFILE \<and> ofile s1 = ofile s \<and> cwd s1 = cwd s"
      using pipealloc_spec(2) [OF v ok] fresh ab by blast
    show ?thesis
    proof (cases "fdalloc p a s1")
      case None
      then have c: "close_both a b s1 = Some s'" using k v True ab by (auto simp: sys_pipe_def Option.bind_eq_Some_conv)
      show ?thesis using close_both_ok [OF _ c] s1 by blast
    next
      case y: (Some y)
      then obtain fd0 s2 where y: "fdalloc p a s1 = Some (fd0, s2)" by (cases y) auto
      have f0: "all_ok (((\<lambda>_. 0)(a := 1, b := 1))(a := ((\<lambda>_. 0)(a := 1, b := 1)) a - 1)) X Y s2"
          "fd0 < NOFILE" "ofile s1 p fd0 = None" "s2 = set_fd p fd0 (Some a) s1"
        using fdalloc_spec [OF conjunct1 [OF s1] y p(1)] s1 p by auto
      then have ok2: "all_ok ((\<lambda>_. 0)(b := 1)) X Y s2" using s1 by (elim all_ok_cong) auto
      show ?thesis
      proof (cases "fdalloc p b s2")
        case None
        then have c: "close_both a b (set_fd p fd0 None s2) = Some s'" using k v True ab y
          by (auto simp: sys_pipe_def Option.bind_eq_Some_conv)
        have "all_ok (((\<lambda>_. 0)(b := 1))(a := ((\<lambda>_. 0)(b := 1)) a + 1)) X Y (set_fd p fd0 None s2)"
          by (rule all_ok_clear_fd [OF ok2 p(1)]) (use f0 in auto)
        then have "all_ok ((\<lambda>_. 0)(a := 1, b := 1)) X Y (set_fd p fd0 None s2)" using s1 by (elim all_ok_cong) auto
        then show ?thesis using close_both_ok [OF _ c] s1 by blast
      next
        case z: (Some z)
        then obtain fd1 where z: "fdalloc p b s2 = Some (fd1, s')" using k v True ab y
          by (cases z) (auto simp: sys_pipe_def)
        have "all_ok (((\<lambda>_. 0)(b := 1))(b := ((\<lambda>_. 0)(b := 1)) b - 1)) X Y s'"
          by (rule fdalloc_spec(1) [OF ok2 z p(1)]) (use s1 f0 p in auto)
        then show ?thesis by (intro sys_invI [of X Y], elim all_ok_cong) simp
      qed
    qed
  qed
qed

lemma fork_files_ok:
  assumes "fork_files p q fds s = Some s'" "counts_ok (\<lambda>_. 0) s \<and> pipes_ok s \<and> accounted X Y s"
    "distinct fds" "\<forall>fd\<in>set fds. fd < NOFILE \<and> ofile s q fd = None" "p < NPROC" "q < NPROC" "p \<noteq> q"
  shows "(counts_ok (\<lambda>_. 0) s' \<and> pipes_ok s' \<and> accounted X Y s') \<and> cwd s' = cwd s \<and> ffs s' = ffs s \<and>
    (\<forall>r. r \<noteq> q \<longrightarrow> ofile s' r = ofile s r)"
  using assms
proof (induction fds arbitrary: s)
  case (Cons fd fds)
  show ?case
  proof (cases "ofile s p fd")
    case None
    then show ?thesis using Cons.IH [of s] Cons.prems by simp
  next
    case (Some f)
    then obtain s1 where s1: "filedup f s = Some s1" "fork_files p q fds (set_fd q fd (Some f) s1) = Some s'"
      using Cons.prems(1) by (auto simp: Option.bind_eq_Some_conv)
    have e1: "s1 = upd_file f (\<lambda>x. x\<lparr>fref := fref x + 1\<rparr>) s" and pos: "1 \<le> fref (ftab s f)"
      using s1(1) by (auto simp: filedup_def split: if_splits)
    have c1: "counts_ok ((\<lambda>_. 0)(f := 0 + 1)) s1"
      unfolding e1 by (rule counts_upd) (use Cons.prems(2) pos in auto)
    have f: "f < NFILE" using Cons.prems Some by (auto simp: counts_ok_def)
    have "counts_ok (((\<lambda>_. 0)(f := 0 + 1))(f := ((\<lambda>_. 0)(f := 0 + 1)) f - 1)) (set_fd q fd (Some f) s1)"
      by (rule counts_set_fd [OF c1]) (use Cons.prems f in \<open>auto simp: e1\<close>)
    then have c2: "counts_ok (\<lambda>_. 0) (set_fd q fd (Some f) s1)" by (simp add: counts_ok_def)
    have s: "accounted X Y s1" "pipes_ok s1"
      using Cons.prems(2) same_file [of "\<lambda>x. x\<lparr>fref := fref x + 1\<rparr>" s f] by (simp_all add: e1)
    have "\<forall>fd'\<in>set fds. fd' < NOFILE \<and> ofile (set_fd q fd (Some f) s1) q fd' = None"
      using Cons.prems(3,4) by (auto simp: e1)
    from Cons.IH [OF s1(2) _ _ this Cons.prems(5-7)] c2 s Cons.prems(3)
    have "(counts_ok (\<lambda>_. 0) s' \<and> pipes_ok s' \<and> accounted X Y s') \<and> cwd s' = cwd s1 \<and> ffs s' = ffs s1 \<and>
      (\<forall>r. r \<noteq> q \<longrightarrow> ofile s' r = ofile (set_fd q fd (Some f) s1) r)" by simp
    then show ?thesis by (simp add: e1 set_fd_def)
  qed
qed simp

lemma inv_fork:
  assumes k: "fork_descriptors p q s = Some s'" and inv: "sys_inv s" and p: "p < NPROC" "q < NPROC" "p \<noteq> q" "cwd s q = None"
  shows "sys_inv s'"
proof -
  obtain X Y where ok: "all_ok (\<lambda>_. 0) X Y s" using inv by (auto simp: sys_inv_def)
  obtain s1 c where s1: "fork_files p q [0..<NOFILE] s = Some s1" "cwd s1 p = Some c"
    and s': "s' = s1\<lparr>ffs := snd (idup c (ffs s1)), cwd := (cwd s1)(q := Some c)\<rparr>"
    using k by (auto simp: fork_descriptors_def Option.bind_eq_Some_conv idup_def)
  have f: "(counts_ok (\<lambda>_. 0) s1 \<and> pipes_ok s1 \<and> accounted X Y s1) \<and> cwd s1 = cwd s \<and> ffs s1 = ffs s \<and>
    (\<forall>r. r \<noteq> q \<longrightarrow> ofile s1 r = ofile s r)"
    by (rule fork_files_ok [OF s1(1)]) (use ok p in \<open>auto simp: all_ok_def\<close>)
  have w: "(cwd s)(q := None) = cwd s" using p by (simp add: fun_upd_idem)
  have "(c, Y p) \<in> file_ptrs X (ftab s1) \<union> cwd_ptrs Y (cwd s1)" by (rule cwd_ptr [of _ "cwd s1", OF p(1) s1(2)])
  from own_idup [OF _ this] f
  have o: "own (add_mset (Y p) (file_refs X (ftab s1) + cwd_refs Y (cwd s1))) {}
      (file_ptrs X (ftab s1) \<union> cwd_ptrs Y (cwd s1)) (snd (idup c (ffs s1)))" by (auto simp: accounted_def)
  have "file_ptrs X (ftab s1) \<union> cwd_ptrs (Y(q := Y p)) ((cwd s)(q := Some c)) \<subseteq> file_ptrs X (ftab s1) \<union> cwd_ptrs Y (cwd s1)"
    using cwd_ptrs_upd [of Y q "Y p" "cwd s" c] cwd_ptr [of p "cwd s1" c Y "{}"] p s1(2) f by (auto simp: w)
  with o have "accounted X (Y(q := Y p)) s'"
    using f by (auto simp: s' accounted_def cwd_refs_Some [OF p(2)] w intro: own_weaken)
  moreover have "pipes_ok s'" using f pipes_ok_cong [of s' s1] by (simp add: s' ends_def)
  moreover have "counts_ok (\<lambda>_. 0) s'" using f by (simp add: s' counts_ok_def)
  moreover have "\<forall>r<NPROC. cwd s' r = None \<longrightarrow> (\<forall>fd<NOFILE. ofile s' r fd = None)"
    using f ok p by (auto simp: s' all_ok_def)
  ultimately show ?thesis by (intro sys_invI [of X "Y(q := Y p)"]) (simp add: all_ok_def)
qed

lemma exit_files_ok:
  assumes "exit_files p fds s = Some s'" "all_ok (\<lambda>_. 0) X Y s" "\<forall>fd\<in>set fds. fd < NOFILE" "p < NPROC"
  shows "all_ok (\<lambda>_. 0) X Y s' \<and> cwd s' = cwd s \<and> (\<forall>fd\<in>set fds. ofile s' p fd = None) \<and>
    (\<forall>fd. ofile s p fd = None \<longrightarrow> ofile s' p fd = None)"
  using assms
proof (induction fds arbitrary: s)
  case (Cons fd fds)
  show ?case
  proof (cases "ofile s p fd")
    case None
    then show ?thesis using Cons.IH [of s] Cons.prems by simp
  next
    case (Some f)
    then obtain s1 where s1: "fileclose f s = Some s1" "exit_files p fds (set_fd p fd None s1) = Some s'"
      using Cons.prems(1) by (auto simp: Option.bind_eq_Some_conv)
    have f: "f < NFILE" using Cons.prems Some unfolding all_ok_def counts_ok_def by auto
    note c = all_ok_close [OF Cons.prems(2) s1(1) f]
    have "all_ok (((\<lambda>_. 0)(f := 0 - 1))(f := ((\<lambda>_. 0)(f := 0 - 1)) f + 1)) X Y (set_fd p fd None s1)"
      by (rule all_ok_clear_fd [OF c(1) Cons.prems(4)]) (use Cons.prems(3) Some c(2) in auto)
    then have "all_ok (\<lambda>_. 0) X Y (set_fd p fd None s1)" by (elim all_ok_cong) simp
    from Cons.IH [OF s1(2) this] Cons.prems(3,4) c(2,3) show ?thesis by auto
  qed
qed simp

lemma inv_exit_call:
  assumes k: "exit_descriptors p s = Some s'" and inv: "sys_inv s" and p: "p < NPROC"
  shows "sys_inv s'"
proof -
  obtain X Y where ok: "all_ok (\<lambda>_. 0) X Y s" using inv by (auto simp: sys_inv_def)
  obtain s1 c k1 where s1: "exit_files p [0..<NOFILE] s = Some s1" "cwd s1 p = Some c" "iput c (ffs s1) = Some k1"
    and s': "s' = s1\<lparr>ffs := k1, cwd := (cwd s1)(p := None)\<rparr>"
    using k by (auto simp: exit_descriptors_def Option.bind_eq_Some_conv)
  have f: "all_ok (\<lambda>_. 0) X Y s1 \<and> cwd s1 = cwd s \<and> (\<forall>fd\<in>set [0..<NOFILE]. ofile s1 p fd = None) \<and>
    (\<forall>fd. ofile s p fd = None \<longrightarrow> ofile s1 p fd = None)"
    by (rule exit_files_ok [OF s1(1) ok]) (use p in auto)
  let ?R = "file_refs X (ftab s1) + cwd_refs Y ((cwd s1)(p := None))"
  have "own (add_mset (Y p) ?R) {} (file_ptrs X (ftab s1) \<union> cwd_ptrs Y (cwd s1)) (ffs s1)"
    using own_base [of "\<lambda>_. 0" X Y s1] f cwd_refs_None [of p "cwd s1" c Y] p s1(2) by simp
  then have "own ?R {} (file_ptrs X (ftab s1) \<union> cwd_ptrs Y ((cwd s1)(p := None))) k1"
    by (rule own_iput [OF _ s1(3) cwd_ptr [of _ "cwd s1", OF p s1(2)]]) (use cwd_ptrs_None in blast, rule base_member)
  then have "accounted X Y s'" by (simp add: s' accounted_def)
  moreover have "pipes_ok s'" using f pipes_ok_cong [of s' s1] by (simp add: s' ends_def all_ok_def)
  moreover have "counts_ok (\<lambda>_. 0) s'" using f by (simp add: s' counts_ok_def all_ok_def)
  moreover have "\<forall>r<NPROC. cwd s' r = None \<longrightarrow> (\<forall>fd<NOFILE. ofile s' r fd = None)"
    using f by (auto simp: s' all_ok_def)
  ultimately show ?thesis by (intro sys_invI [of X Y]) (simp add: all_ok_def)
qed

text \<open>The first process: \<open>userinit\<close> sets its directory to the root.\<close>

definition userinit_cwd :: "nat \<Rightarrow> sys \<Rightarrow> sys option" where
  "userinit_cwd p s = do {
     (r, k) \<leftarrow> namei 0 [slash] (ffs s);
     Some (s\<lparr>ffs := k, cwd := (cwd s)(p := r)\<rparr>) }"

lemma namei_root: "namei c [slash] k = do {(i, k1) \<leftarrow> iget ROOTDEV ROOTINO k; Some (Some i, k1)}"
proof -
  have "namex_loop False i [slash] n k1 = Some (Some i, n, k1)" for i n k1
    by (subst namex_loop.simps) (simp add: skipelem_def)
  then show ?thesis by (cases "iget ROOTDEV ROOTINO k") (auto simp: namei_def namex_def)
qed

lemma own_iget:
  assumes "iget dev n s = Some (i, s')" "own R L P s"
  shows "gives R L P (Some i) s'"
proof -
  note e = iget_effect [OF ownD(1) [OF assms(2)] assms(1)]
  show ?thesis by (rule givesI [OF assms(2) e(1,5)]) (use e(2-4,6) in \<open>auto simp: holds_def\<close>)
qed

lemma inv_userinit:
  assumes k: "userinit_cwd p s = Some s'" and inv: "sys_inv s" and p: "p < NPROC" "cwd s p = None"
  shows "sys_inv s'"
proof -
  obtain X Y where ok: "all_ok (\<lambda>_. 0) X Y s" using inv by (auto simp: sys_inv_def)
  obtain i k1 where g: "iget ROOTDEV ROOTINO (ffs s) = Some (i, k1)"
    and s': "s' = s\<lparr>ffs := k1, cwd := (cwd s)(p := Some i)\<rparr>"
    using k by (auto simp: userinit_cwd_def namei_root Option.bind_eq_Some_conv)
  have w: "(cwd s)(p := None) = cwd s" using p by (simp add: fun_upd_idem)
  obtain x where "own (add_mset x (file_refs X (ftab s) + cwd_refs Y (cwd s))) {}
    (insert (i, x) (file_ptrs X (ftab s) \<union> cwd_ptrs Y (cwd s))) k1"
    using own_iget [OF g own_base [OF ok]] by (auto elim: givesE)
  then show ?thesis using all_ok_set_cwd [OF ok, of x p i k1] p s' by (auto simp: w intro: sys_invI)
qed

end
