(* ===== verification/SysRun.thy ===== *)
theory SysRun
  imports SysInv
begin

text \<open>
  All runs of the file system calls: any process makes any call, in any order.  The invariant of \<open>SysInv\<close> holds in every
  state a run reaches, and every descriptor names an open file whose pipe or inode is there.
\<close>

inductive sys_step :: "devsw \<Rightarrow> sys \<Rightarrow> sys \<Rightarrow> bool" for dv :: devsw where
  do_init: "\<lbrakk>p < NPROC; cwd s p = None; userinit_cwd p s = Some s'\<rbrakk> \<Longrightarrow> sys_step dv s s'"
| do_dup: "\<lbrakk>p < NPROC; cwd s p \<noteq> None; sys_dup p a s = Some (r, s')\<rbrakk> \<Longrightarrow> sys_step dv s s'"
| do_read: "\<lbrakk>p < NPROC; sys_read dv killed p a n buf s = Some (out, bs, s')\<rbrakk> \<Longrightarrow> sys_step dv s s'"
| do_write: "\<lbrakk>p < NPROC; sys_write dv killed p a n src i0 s = Some (out, s')\<rbrakk> \<Longrightarrow> sys_step dv s s'"
| do_close: "\<lbrakk>p < NPROC; sys_close p a s = Some (r, s')\<rbrakk> \<Longrightarrow> sys_step dv s s'"
| do_fstat: "\<lbrakk>p < NPROC; sys_fstat p a buf old s = Some (st, s')\<rbrakk> \<Longrightarrow> sys_step dv s s'"
| do_link: "\<lbrakk>p < NPROC; sys_link dv p path new junk s = Some (r, s')\<rbrakk> \<Longrightarrow> sys_step dv s s'"
| do_unlink: "\<lbrakk>p < NPROC; sys_unlink dv p path junk s = Some (r, s')\<rbrakk> \<Longrightarrow> sys_step dv s s'"
| do_open: "\<lbrakk>p < NPROC; cwd s p \<noteq> None; sys_open dv p path om junk s = Some (r, s')\<rbrakk> \<Longrightarrow> sys_step dv s s'"
| do_mkdir: "\<lbrakk>p < NPROC; sys_mkdir dv p path junk s = Some (r, s')\<rbrakk> \<Longrightarrow> sys_step dv s s'"
| do_mknod: "\<lbrakk>p < NPROC; sys_mknod dv p path mj mn junk s = Some (r, s')\<rbrakk> \<Longrightarrow> sys_step dv s s'"
| do_chdir: "\<lbrakk>p < NPROC; sys_chdir p path s = Some (r, s')\<rbrakk> \<Longrightarrow> sys_step dv s s'"
| do_pipe: "\<lbrakk>p < NPROC; cwd s p \<noteq> None; \<forall>q bytes. page = Some (q, bytes) \<longrightarrow> pipes s q = None;
     sys_pipe p buf page s = Some (ab, s')\<rbrakk> \<Longrightarrow> sys_step dv s s'"
| do_fork: "\<lbrakk>p < NPROC; q < NPROC; p \<noteq> q; cwd s q = None; fork_descriptors p q s = Some s'\<rbrakk> \<Longrightarrow> sys_step dv s s'"
| do_exit: "\<lbrakk>p < NPROC; exit_descriptors p s = Some s'\<rbrakk> \<Longrightarrow> sys_step dv s s'"

inductive sys_run :: "devsw \<Rightarrow> sys \<Rightarrow> sys \<Rightarrow> bool" for dv :: devsw where
  start: "sys_run dv s s"
| step: "sys_run dv s s1 \<Longrightarrow> sys_step dv s1 s2 \<Longrightarrow> sys_run dv s s2"

text \<open>The tables after booting: nothing is open.\<close>

definition booted :: "sys \<Rightarrow> bool" where
  "booted s \<longleftrightarrow> (\<forall>i. iref (icache (ffs s) i) = 0 \<and> \<not> ibusy (icache (ffs s) i)) \<and>
     (\<forall>f<NFILE. fref (ftab s f) = 0 \<and> ftype (ftab s f) = FD_NONE) \<and>
     (\<forall>q. pipes s q = None) \<and> (\<forall>p. cwd s p = None) \<and> (\<forall>p fd. ofile s p fd = None)"

lemma boot_tables_inv: "booted s \<Longrightarrow> sys_inv s"
proof -
  assume b: "booted s"
  have "file_refs X (ftab s) = {#}" "file_ptrs X (ftab s) = {}" for X
    using b by (auto simp: file_refs_def file_ptrs_def booted_def)
  moreover have "cwd_refs Y (cwd s) = {#}" "cwd_ptrs Y (cwd s) = {}" for Y
    using b by (auto simp: cwd_refs_def cwd_ptrs_def booted_def)
  moreover have "own {#} {} {} (ffs s)" using b by (auto simp: own_def icache_inv_def refs_def booted_def)
  ultimately have "accounted X Y s" for X Y by (simp add: accounted_def)
  moreover have "ends s q w = {}" for q w using b by (auto simp: ends_def booted_def)
  then have "pipes_ok s" using b by (auto simp: pipes_ok_def booted_def)
  moreover have "descriptors (ofile s) f = {}" for f using b by (auto simp: descriptors_def booted_def)
  then have "counts_ok (\<lambda>_. 0) s" using b by (auto simp: counts_ok_def booted_def)
  ultimately show "sys_inv s" using b by (auto simp: sys_inv_def all_ok_def booted_def)
qed

lemma sys_step_inv:
  assumes "sys_step dv s s'" "sys_inv s" "devices_ok dv"
  shows "sys_inv s'"
  using assms(1)
proof cases
  case (do_init p)
  then show ?thesis using inv_userinit [OF _ assms(2)] by blast
next
  case (do_dup p a r)
  then show ?thesis using inv_dup [OF _ assms(2)] by blast
next
  case (do_read p killed a n buf out bs)
  then show ?thesis using inv_read_write(1) [OF assms(2) _ assms(3)] by blast
next
  case (do_write p killed a n src i0 out)
  then show ?thesis using inv_read_write(2) [OF assms(2) _ assms(3)] by blast
next
  case (do_close p a r)
  then show ?thesis using inv_close [OF _ assms(2)] by blast
next
  case (do_fstat p a buf old st)
  then show ?thesis using inv_read_write(3) [OF assms(2) _ assms(3)] by blast
next
  case (do_link p path new junk r)
  then show ?thesis using inv_path_calls(1) [OF assms(3,2)] by blast
next
  case (do_unlink p path junk r)
  then show ?thesis using inv_path_calls(2) [OF assms(3,2)] by blast
next
  case (do_open p path om junk r)
  then show ?thesis using inv_open [OF _ assms(2) _ _ assms(3)] by blast
next
  case (do_mkdir p path junk r)
  then show ?thesis using inv_path_calls(3) [OF assms(3,2)] by blast
next
  case (do_mknod p path mj mn junk r)
  then show ?thesis using inv_path_calls(4) [OF assms(3,2)] by blast
next
  case (do_chdir p path r)
  then show ?thesis using inv_chdir [OF _ assms(2)] by blast
next
  case (do_pipe p page buf ab)
  then show ?thesis using inv_pipe [OF _ assms(2)] by blast
next
  case (do_fork p q)
  then show ?thesis using inv_fork [OF _ assms(2)] by blast
next
  case (do_exit p)
  then show ?thesis using inv_exit_call [OF _ assms(2)] by blast
qed

lemma sys_run_inv: "sys_run dv s s' \<Longrightarrow> sys_inv s \<Longrightarrow> devices_ok dv \<Longrightarrow> sys_inv s'"
  by (induction rule: sys_run.induct) (auto intro: sys_step_inv)

text \<open>What the invariant says of the two tables.\<close>

lemma sys_inv_refs:
  assumes "sys_inv s"
  shows "refs (ffs s) = (\<Sum>f<NFILE. if ftype (ftab s f) = FD_INODE then {#ident (icache (ffs s) (fip (ftab s f)))#} else {#}) +
      (\<Sum>p<NPROC. case cwd s p of None \<Rightarrow> {#} | Some i \<Rightarrow> {#ident (icache (ffs s) i)#})"
    and "icache_inv (ffs s)" and "\<not> ibusy (icache (ffs s) l)"
proof -
  obtain X Y where ok: "all_ok (\<lambda>_. 0) X Y s" using assms by (auto simp: sys_inv_def)
  note o = own_base [OF ok]
  have "X f = ident (icache (ffs s) (fip (ftab s f)))" if "f < NFILE" "ftype (ftab s f) = FD_INODE" for f
  proof -
    have "(fip (ftab s f), X f) \<in> file_ptrs X (ftab s) \<union> cwd_ptrs Y (cwd s)" using that by (auto simp: file_ptrs_def)
    from holdsD(3) [OF ownD(4) [OF o this]] show ?thesis by simp
  qed
  then have "file_refs X (ftab s) =
      (\<Sum>f<NFILE. if ftype (ftab s f) = FD_INODE then {#ident (icache (ffs s) (fip (ftab s f)))#} else {#})"
    unfolding file_refs_def by (intro sum.cong) auto
  moreover have "Y p = ident (icache (ffs s) i)" if "p < NPROC" "cwd s p = Some i" for p i
    using holdsD(3) [OF ownD(4) [OF o cwd_ptr [of p "cwd s", OF that]]] by simp
  then have "cwd_refs Y (cwd s) = (\<Sum>p<NPROC. case cwd s p of None \<Rightarrow> {#} | Some i \<Rightarrow> {#ident (icache (ffs s) i)#})"
    unfolding cwd_refs_def by (intro sum.cong) (auto split: option.splits)
  ultimately show "refs (ffs s) = (\<Sum>f<NFILE. if ftype (ftab s f) = FD_INODE then {#ident (icache (ffs s) (fip (ftab s f)))#} else {#}) +
      (\<Sum>p<NPROC. case cwd s p of None \<Rightarrow> {#} | Some i \<Rightarrow> {#ident (icache (ffs s) i)#})"
    using ownD(2) [OF o] by simp
  show "icache_inv (ffs s)" "\<not> ibusy (icache (ffs s) l)" using ownD(1,3) [OF o] by auto
qed

text \<open>
  C3: Open files and references.  After any sequence of file system calls of any processes, starting from the
  tables at boot: the count of every open file is the number of descriptors that refer to it; the references to inodes
  are exactly one for every open file of an inode and one for every current directory; and no inode is left locked.
\<close>
theorem open_file_references:
  assumes "sys_run dv s0 s" "booted s0" "devices_ok dv"
  shows "(\<forall>f<NFILE. fref (ftab s f) = int (card {(p, fd). p < NPROC \<and> fd < NOFILE \<and> ofile s p fd = Some f})) \<and>
    icache_inv (ffs s) \<and> (\<forall>l. \<not> ibusy (icache (ffs s) l)) \<and>
    refs (ffs s) = (\<Sum>f<NFILE. if ftype (ftab s f) = FD_INODE then {#ident (icache (ffs s) (fip (ftab s f)))#} else {#}) +
      (\<Sum>p<NPROC. case cwd s p of None \<Rightarrow> {#} | Some i \<Rightarrow> {#ident (icache (ffs s) i)#})"
proof -
  have i: "sys_inv s" by (rule sys_run_inv [OF assms(1) boot_tables_inv [OF assms(2)] assms(3)])
  then have "\<forall>f<NFILE. fref (ftab s f) = int (card {(p, fd). p < NPROC \<and> fd < NOFILE \<and> ofile s p fd = Some f})"
    by (auto simp: sys_inv_def all_ok_def counts_ok_def descriptors_def)
  then show ?thesis using sys_inv_refs [OF i] by blast
qed

end
