(* ===== verification/SysType.thy ===== *)
theory SysType
  imports SysRun
begin

text \<open>
  Descriptors are well typed.  Every open file is a pipe or an inode, the pipe is there with this end open, and the slot of
  the inode holds a reference; so \<open>fileread\<close>, \<open>filewrite\<close>, \<open>filedup\<close> and \<open>fileclose\<close> never panic on a descriptor.
\<close>

text \<open>Files outside \<open>A\<close> that are in use have a type.\<close>

definition typed_but :: "nat set \<Rightarrow> (nat \<Rightarrow> open_file) \<Rightarrow> bool" where
  "typed_but A t \<longleftrightarrow> (\<forall>f<NFILE. f \<notin> A \<longrightarrow> 0 < fref (t f) \<longrightarrow> ftype (t f) \<noteq> FD_NONE)"

lemma typed_new: "filealloc s = (r, s') \<Longrightarrow> typed_but A (ftab s) \<Longrightarrow> typed_but (A \<union> set_option r) (ftab s')"
  by (auto simp: filealloc_def typed_but_def upd_file_def split: option.splits if_splits)

lemma close_pipe_ftab: "close_pipe q w s = Some s' \<Longrightarrow> ftab s' = ftab s"
  by (auto simp: close_pipe_def Let_def split: option.splits prod.splits)

lemma fileclose_ftab:
  assumes "fileclose f s = Some s'"
  shows "\<forall>g. g \<noteq> f \<longrightarrow> ftab s' g = ftab s g"
    "fref (ftab s' f) = fref (ftab s f) - 1" "0 < fref (ftab s' f) \<Longrightarrow> ftype (ftab s' f) = ftype (ftab s f)"
proof -
  have "(\<forall>g. g \<noteq> f \<longrightarrow> ftab s' g = ftab s g) \<and> fref (ftab s' f) = fref (ftab s f) - 1 \<and>
      (0 < fref (ftab s' f) \<longrightarrow> ftype (ftab s' f) = ftype (ftab s f))"
    using assms close_pipe_ftab
    by (fastforce simp: fileclose_def Let_def upd_file_def Option.bind_eq_Some_conv split: if_splits)
  then show "\<forall>g. g \<noteq> f \<longrightarrow> ftab s' g = ftab s g"
    "fref (ftab s' f) = fref (ftab s f) - 1" "0 < fref (ftab s' f) \<Longrightarrow> ftype (ftab s' f) = ftype (ftab s f)" by blast+
qed

lemma typed_close: "fileclose f s = Some s' \<Longrightarrow> typed_but A (ftab s) \<Longrightarrow> typed_but A (ftab s')"
proof -
  assume k: "fileclose f s = Some s'" and t: "typed_but A (ftab s)"
  note c = fileclose_ftab [OF k]
  show "typed_but A (ftab s')" unfolding typed_but_def
  proof (intro allI impI)
    fix g assume g: "g < NFILE" "g \<notin> A" "0 < fref (ftab s' g)"
    then show "ftype (ftab s' g) \<noteq> FD_NONE" using c t by (cases "g = f") (auto simp: typed_but_def)
  qed
qed

text \<open>Giving up a file with a single reference that has no type.\<close>

lemma typed_drop:
  assumes k: "fileclose f s = Some s'" and t: "typed_but A (ftab s)" and f: "fref (ftab s f) = 1"
  shows "typed_but (A - {f}) (ftab s')"
  using typed_close [OF k t] fileclose_ftab(2) [OF k] f by (auto simp: typed_but_def)

lemma typed_filedup: "filedup f s = Some s' \<Longrightarrow> typed_but A (ftab s) \<Longrightarrow> typed_but A (ftab s')"
  by (auto simp: filedup_def typed_but_def upd_file_def split: if_splits)

lemma typed_fork_files: "fork_files p q fds s = Some s' \<Longrightarrow> typed_but A (ftab s) \<Longrightarrow> typed_but A (ftab s')"
  by (induction fds arbitrary: s) (fastforce simp: Option.bind_eq_Some_conv dest: typed_filedup split: option.splits)+

lemma typed_exit_files: "exit_files p fds s = Some s' \<Longrightarrow> typed_but A (ftab s) \<Longrightarrow> typed_but A (ftab s')"
  by (induction fds arbitrary: s) (fastforce simp: Option.bind_eq_Some_conv dest: typed_close split: option.splits)+

lemma fdalloc_ftab: "fdalloc p f s = Some (fd, s') \<Longrightarrow> ftab s' = ftab s"
  by (auto simp: fdalloc_def)

lemma on_fs_ftab: "on_fs p body s = Some (r, s') \<Longrightarrow> ftab s' = ftab s"
  by (auto simp: on_fs_def Option.bind_eq_Some_conv)

lemma filealloc_count: "filealloc s = (Some f, s') \<Longrightarrow> fref (ftab s f) = 0 \<and> fref (ftab s' f) = 1 \<and>
    (\<forall>g. g \<noteq> f \<longrightarrow> ftab s' g = ftab s g)"
  by (auto simp: filealloc_def find_Some_iff upd_file_def split: option.splits)

lemma typed_open_fd:
  assumes k: "open_fd p i om s = Some (r, s')" and t: "typed_but {} (ftab s)"
  shows "typed_but {} (ftab s')"
proof -
  obtain f s1 where fa: "filealloc s = (f, s1)" by fastforce
  show ?thesis
  proof (cases f)
    case None
    then show ?thesis using k fa typed_new [OF fa t] by (auto simp: open_fd_def Option.bind_eq_Some_conv)
  next
    case (Some g)
    have t1: "typed_but {g} (ftab s1)" using typed_new [OF fa t] Some by simp
    show ?thesis
    proof (cases "fdalloc p g s1")
      case None
      then obtain s2 k1 where c: "fileclose g s1 = Some s2" "s' = s2\<lparr>ffs := k1\<rparr>"
        using k fa Some by (auto simp: open_fd_def Option.bind_eq_Some_conv)
      show ?thesis using typed_drop [OF c(1) t1] filealloc_count [of s g s1] fa Some c(2) by simp
    next
      case (Some y)
      obtain fd s2 where y: "fdalloc p g s1 = Some (fd, s2)" using Some by (cases y) auto
      then obtain k1 where "ftab s' = (ftab s1)(g := (ftab s1 g)\<lparr>ftype := FD_INODE, fip := i, foff := 0,
              freadable := (om AND O_WRONLY = 0), fwritable := (om AND O_WRONLY \<noteq> 0 \<or> om AND O_RDWR \<noteq> 0)\<rparr>)"
        using k fa \<open>f = Some g\<close> fdalloc_ftab [OF y]
        by (auto simp: open_fd_def Option.bind_eq_Some_conv upd_file_def)
      then show ?thesis using t1 by (auto simp: typed_but_def)
    qed
  qed
qed

lemma typed_pipealloc:
  assumes k: "pipealloc page s = Some (r, s')" and t: "typed_but {} (ftab s)"
  shows "typed_but {} (ftab s')"
proof -
  obtain f0 s1 where f0: "filealloc s = (f0, s1)" by fastforce
  show ?thesis
  proof (cases f0)
    case None
    then show ?thesis using k f0 typed_new [OF f0 t] by (auto simp: pipealloc_def)
  next
    case (Some a)
    have t1: "typed_but {a} (ftab s1)" using typed_new [OF f0 t] Some by simp
    note n0 = filealloc_count [OF f0 [unfolded Some]]
    obtain f1 s2 where f1: "filealloc s1 = (f1, s2)" by fastforce
    show ?thesis
    proof (cases f1)
      case None
      then have s2: "s2 = s1" using f1 by (auto simp: filealloc_def split: option.splits)
      have "fileclose a s2 = Some s'" using k f0 Some f1 None by (auto simp: pipealloc_def Option.bind_eq_Some_conv)
      from typed_drop [OF this, of "{a}"] show ?thesis using t1 n0 s2 by simp
    next
      case b: (Some b)
      note n1 = filealloc_count [OF f1 [unfolded b]]
      have t2: "typed_but {a, b} (ftab s2)" using typed_new [OF f1 t1] b by (simp add: insert_commute)
      have ab: "a \<noteq> b" using n0 n1 by auto
      show ?thesis
      proof (cases page)
        case None
        then obtain s3 where c: "fileclose a s2 = Some s3" "fileclose b s3 = Some s'"
          using k f0 Some f1 b by (auto simp: pipealloc_def Option.bind_eq_Some_conv)
        have "typed_but ({a, b} - {a}) (ftab s3)" by (rule typed_drop [OF c(1) t2]) (use n0 n1 ab in simp)
        from typed_drop [OF c(2) this] show ?thesis
          using fileclose_ftab(1) [OF c(1)] n1 ab by (simp add: insert_Diff_if)
      next
        case pg: (Some pg)
        then show ?thesis using k f0 Some f1 b t2 ab
          by (cases pg) (auto simp: pipealloc_def Let_def typed_but_def upd_file_def split: if_splits)
      qed
    qed
  qed
qed

lemma typed_read: "fileread dv killed f n s = Some (r, bs, s') \<Longrightarrow> typed_but A (ftab s) \<Longrightarrow> typed_but A (ftab s')"
  by (cases "ftype (ftab s f)")
    (auto simp: fileread_def Let_def typed_but_def upd_file_def Option.bind_eq_Some_conv case_prod_beta split: if_splits)

lemma typed_write: "filewrite dv killed f src n i0 s = Some (r, s') \<Longrightarrow> typed_but A (ftab s) \<Longrightarrow> typed_but A (ftab s')"
  by (cases "ftype (ftab s f)")
    (auto simp: filewrite_def Let_def typed_but_def upd_file_def Option.bind_eq_Some_conv case_prod_beta split: if_splits)

lemma typed_stat: "filestat f old s = Some (r, s') \<Longrightarrow> ftab s' = ftab s"
  by (auto simp: filestat_def Let_def Option.bind_eq_Some_conv split: if_splits)

lemma typed_sys_dup:
  assumes k: "sys_dup p a s = Some (r, s')" and t: "typed_but {} (ftab s)"
  shows "typed_but {} (ftab s')"
proof (cases "argfd p a s")
  case None
  then show ?thesis using k t by (simp add: sys_dup_def)
next
  case (Some y)
  obtain fd f where y: "argfd p a s = Some (fd, f)" using Some by (cases y) auto
  show ?thesis
  proof (cases "fdalloc p f s")
    case None
    then show ?thesis using k t y by (simp add: sys_dup_def)
  next
    case (Some z)
    obtain fd' s1 where z: "fdalloc p f s = Some (fd', s1)" using Some by (cases z) auto
    then have "filedup f s1 = Some s'" using k y by (auto simp: sys_dup_def Option.bind_eq_Some_conv)
    from typed_filedup [OF this] show ?thesis using t fdalloc_ftab [OF z] by simp
  qed
qed

lemma typed_sys_open:
  assumes "sys_open dv p path om junk s = Some (r, s')" "typed_but {} (ftab s)"
  shows "typed_but {} (ftab s')"
proof (cases "path = None \<or> om = None")
  case True
  then show ?thesis using assms by (auto simp: sys_open_def split: option.splits)
next
  case False
  then obtain pa m q k where "om = Some m" "(case q of None \<Rightarrow> Some (-1, s\<lparr>ffs := k\<rparr>) | Some i \<Rightarrow> open_fd p i m (s\<lparr>ffs := k\<rparr>)) = Some (r, s')"
    using assms(1) by (auto simp: sys_open_def Option.bind_eq_Some_conv)
  then show ?thesis using typed_open_fd [of p _ m "s\<lparr>ffs := k\<rparr>" r s'] assms(2) by (auto split: option.splits)
qed

lemma typed_sys_pipe:
  assumes k: "sys_pipe p buf page s = Some (r, s')" and t: "typed_but {} (ftab s)"
  shows "typed_but {} (ftab s')"
proof (cases buf)
  case True
  obtain v s1 where v: "pipealloc page s = Some (v, s1)"
    using k True by (auto simp: sys_pipe_def Option.bind_eq_Some_conv)
  note t1 = typed_pipealloc [OF v t]
  have both: "typed_but {} (ftab u)" if "close_both a b w = Some u" "ftab w = ftab s1" for a b w u
    using that t1 typed_close by (fastforce simp: close_both_def Option.bind_eq_Some_conv)
  show ?thesis
  proof (cases v)
    case None
    then show ?thesis using k v True t1 by (simp add: sys_pipe_def)
  next
    case (Some ab)
    obtain a b where ab: "v = Some (a, b)" using Some by (cases ab) auto
    show ?thesis
    proof (cases "fdalloc p a s1")
      case None
      then show ?thesis using k v True ab both by (auto simp: sys_pipe_def Option.bind_eq_Some_conv)
    next
      case (Some y)
      obtain fd0 s2 where y: "fdalloc p a s1 = Some (fd0, s2)" using Some by (cases y) auto
      note e2 = fdalloc_ftab [OF y]
      show ?thesis
      proof (cases "fdalloc p b s2")
        case None
        then show ?thesis using k v True ab y both e2 by (auto simp: sys_pipe_def Option.bind_eq_Some_conv)
      next
        case (Some z)
        then show ?thesis using k v True ab y e2 t1 fdalloc_ftab [of p b s2]
          by (cases z) (auto simp: sys_pipe_def)
      qed
    qed
  qed
qed (use k t in \<open>simp add: sys_pipe_def\<close>)

lemma sys_step_typed: "sys_step dv s s' \<Longrightarrow> typed_but {} (ftab s) \<Longrightarrow> typed_but {} (ftab s')"
proof (induction rule: sys_step.induct)
  case (do_init p s s')
  then show ?case by (auto simp: userinit_cwd_def Option.bind_eq_Some_conv)
next
  case (do_dup p s a r s')
  then show ?case by (blast intro: typed_sys_dup)
next
  case (do_read p killed a n buf s out bs s')
  then show ?case by (auto simp: sys_read_def intro: typed_read split: option.splits if_splits)
next
  case (do_write p killed a n src i0 s out s')
  then show ?case by (auto simp: sys_write_def intro: typed_write split: option.splits)
next
  case (do_close p a s r s')
  then show ?case by (auto simp: sys_close_def Option.bind_eq_Some_conv intro: typed_close split: option.splits)
next
  case (do_fstat p a buf old s st s')
  then show ?case by (auto simp: sys_fstat_def typed_stat split: option.splits if_splits)
next
  case (do_open p s path om junk r s')
  then show ?case by (blast intro: typed_sys_open)
next
  case (do_chdir p path s r s')
  then show ?case by (auto simp: sys_chdir_def Option.bind_eq_Some_conv split: option.splits)
next
  case (do_pipe p s page buf ab s')
  then show ?case by (blast intro: typed_sys_pipe)
next
  case (do_fork p q s s')
  then show ?case by (auto simp: fork_descriptors_def Option.bind_eq_Some_conv idup_def intro: typed_fork_files)
next
  case (do_exit p s s')
  then show ?case by (auto simp: exit_descriptors_def Option.bind_eq_Some_conv intro: typed_exit_files)
qed (auto simp: sys_link_def sys_unlink_def sys_mkdir_def sys_mknod_def on_fs_ftab split: option.splits)

lemma sys_run_typed: "sys_run dv s s' \<Longrightarrow> typed_but {} (ftab s) \<Longrightarrow> typed_but {} (ftab s')"
  by (induction rule: sys_run.induct) (auto intro: sys_step_typed)

text \<open>
  C4: Descriptors are well typed.  In every state a run of the file system calls reaches, a descriptor of a process refers
  either to a pipe that is allocated and has the end the descriptor stands for open, or to an inode whose slot holds a
  reference.  No descriptor is left dangling by any close, exit or failed call of another process.
\<close>
theorem descriptors_well_typed:
  assumes "sys_run dv s0 s" "booted s0" "devices_ok dv" "p < NPROC" "fd < NOFILE" "ofile s p fd = Some f"
  shows "f < NFILE \<and> 0 < fref (ftab s f) \<and>
    (case ftype (ftab s f) of FD_NONE \<Rightarrow> False
     | FD_PIPE \<Rightarrow> (\<exists>x. pipes s (fpipe (ftab s f)) = Some x \<and> (if fwritable (ftab s f) then writeopen x else readopen x))
     | FD_INODE \<Rightarrow> fip (ftab s f) < NINODE \<and> 0 < iref (icache (ffs s) (fip (ftab s f))))"
proof -
  obtain X Y where ok: "all_ok (\<lambda>_. 0) X Y s"
    using sys_run_inv [OF assms(1) boot_tables_inv [OF assms(2)] assms(3)] by (auto simp: sys_inv_def)
  have f: "f < NFILE" using ok assms(4-6) unfolding all_ok_def counts_ok_def by blast
  have pos: "0 < fref (ftab s f)" using counted_positive [OF ok _ assms(4-6)] by simp
  have "typed_but {} (ftab s)"
    by (rule sys_run_typed [OF assms(1)]) (use assms(2) in \<open>auto simp: typed_but_def booted_def\<close>)
  then have t: "ftype (ftab s f) \<noteq> FD_NONE" using f pos by (simp add: typed_but_def)
  have pipe: "\<exists>x. pipes s (fpipe (ftab s f)) = Some x \<and> (if fwritable (ftab s f) then writeopen x else readopen x)"
    if "ftype (ftab s f) = FD_PIPE"
  proof -
    have "f \<in> ends s (fpipe (ftab s f)) (fwritable (ftab s f))" using f that by (simp add: ends_def)
    moreover have "case pipes s (fpipe (ftab s f)) of
        None \<Rightarrow> ends s (fpipe (ftab s f)) True = {} \<and> ends s (fpipe (ftab s f)) False = {}
      | Some x \<Rightarrow> (writeopen x \<longleftrightarrow> ends s (fpipe (ftab s f)) True \<noteq> {}) \<and>
          (readopen x \<longleftrightarrow> ends s (fpipe (ftab s f)) False \<noteq> {}) \<and> (readopen x \<or> writeopen x)"
      using ok by (simp add: all_ok_def pipes_ok_def)
    ultimately show ?thesis by (cases "fwritable (ftab s f)") (auto split: option.splits)
  qed
  have "fip (ftab s f) < NINODE \<and> 0 < iref (icache (ffs s) (fip (ftab s f)))" if "ftype (ftab s f) = FD_INODE"
  proof -
    have "(fip (ftab s f), X f) \<in> file_ptrs X (ftab s) \<union> cwd_ptrs Y (cwd s)" using f that by (auto simp: file_ptrs_def)
    from ownD(4) [OF own_base [OF ok] this] show ?thesis by (simp add: holds_def)
  qed
  with f pos t pipe show ?thesis by (cases "ftype (ftab s f)") (simp_all only: ftype.case simp_thms)
qed

end
