(* ===== verification/SysSample.thy ===== *)
theory SysSample
  imports SysType
begin

text \<open>
  A concrete run: a booted machine whose inodes are empty directories; process 0 is set up, opens \<open>/\<close>, makes a pipe and
  forks process 1.
\<close>

definition no_file :: open_file where
  "no_file = \<lparr>ftype = FD_NONE, fref = 0, freadable = False, fwritable = False, fpipe = 0, fip = 0, foff = 0\<rparr>"

definition boot_fs :: fs where
  "boot_fs = \<lparr>fdisk = (\<lambda>dev b j. if j mod 64 = 0 then 1 else 0), icache = (\<lambda>_. no_inode), iwakeups = []\<rparr>"

definition boot_state :: sys where
  "boot_state = \<lparr>ffs = boot_fs, ftab = (\<lambda>_. no_file), pipes = (\<lambda>_. None), ofile = (\<lambda>_ _. None), cwd = (\<lambda>_. None)\<rparr>"

definition root_inode :: "int \<Rightarrow> inode" where
  "root_inode r = no_inode\<lparr>idev := ROOTDEV, inum := ROOTINO, iref := r\<rparr>"

definition locked_root :: "inode" where
  "locked_root = (from_dinode (disk_inode (fdisk boot_fs) ROOTDEV ROOTINO) (root_inode 2))\<lparr>ivalid := True, ibusy := True\<rparr>"

lemma boot_state_booted: "booted boot_state"
  by (simp add: booted_def boot_state_def boot_fs_def no_file_def no_inode_def)

lemma devices_ok_none: "devices_ok no_devices"
  by (simp add: devices_ok_def no_devices_def)

lemma find_upt: "P f \<Longrightarrow> f < n \<Longrightarrow> \<forall>g<f. \<not> P g \<Longrightarrow> find P [0..<n] = Some f"
  by (auto simp: find_Some_iff intro!: exI [of _ f])

lemma iget_scan_free:
  "\<forall>i\<in>set js. iref (c i) = 0 \<Longrightarrow> iget_scan c dev n js (Some e) = Some (False, e)"
  by (induction js) auto

definition sample1 :: sys where
  "sample1 = boot_state\<lparr>ffs := boot_fs\<lparr>icache := (\<lambda>_. no_inode)(0 := root_inode 1)\<rparr>, cwd := [0 \<mapsto> 0]\<rparr>"

definition sample2 :: sys where
  "sample2 = sample1\<lparr>ffs := boot_fs\<lparr>icache := (\<lambda>_. no_inode)(0 := locked_root\<lparr>ibusy := False\<rparr>), iwakeups := [0]\<rparr>,
     ftab := (\<lambda>_. no_file)(0 := no_file\<lparr>ftype := FD_INODE, fref := 1, freadable := True\<rparr>),
     ofile := (ofile sample1)(0 := [0 \<mapsto> 0])\<rparr>"

lemma upt_three: "3 \<le> n \<Longrightarrow> [0..<n] = [0, 1, 2] @ [3..<n]"
  by (simp add: upt_conv_Cons numeral_eq_Suc)

lemma upt_NINODE: "[0..<NINODE] = 0 # [1..<NINODE]"
  by (simp add: NINODE_def upt_conv_Cons)

lemma sample_step1: "userinit_cwd 0 boot_state = Some sample1"
  by (auto simp: userinit_cwd_def namei_root iget_def upt_NINODE iget_scan_free boot_state_def boot_fs_def no_inode_def
      upd_inode_def sample1_def root_inode_def fun_eq_iff)

lemma root_type: "itype locked_root = 1"
  by (simp add: locked_root_def from_dinode_def disk_inode_def read_dinode_def get16_def dip_offset_def ROOTINO_def IPB_def
     boot_fs_def)

lemma sample_open: "open_inode no_devices 0 [slash] O_RDONLY (\<lambda>_. 0) (ffs sample1) =
  Some (Some 0, boot_fs\<lparr>icache := (\<lambda>_. no_inode)(0 := locked_root)\<rparr>)"
proof -
  have n: "namei 0 [slash] (ffs sample1) = Some (Some 0, boot_fs\<lparr>icache := (\<lambda>_. no_inode)(0 := root_inode 2)\<rparr>)"
    by (simp add: namei_root iget_def upt_NINODE sample1_def upd_inode_def root_inode_def boot_fs_def)
  have "ilock 0 (boot_fs\<lparr>icache := (\<lambda>_. no_inode)(0 := root_inode 2)\<rparr>) =
      Some (boot_fs\<lparr>icache := (\<lambda>_. no_inode)(0 := locked_root)\<rparr>)"
    using root_type by (simp add: ilock_def Let_def upd_inode_def root_inode_def no_inode_def locked_root_def from_dinode_def)
  then show ?thesis using n root_type by (simp add: open_inode_def O_RDONLY_def)
qed

lemma sample_step2: "sys_open no_devices 0 (Some [slash]) (Some O_RDONLY) (\<lambda>_. 0) sample1 = Some (0, sample2)"
proof -
  have f: "filealloc s = (Some 0, upd_file 0 (\<lambda>x. x\<lparr>fref := 1\<rparr>) s)" if "fref (ftab s 0) = 0" for s
    using that by (simp add: filealloc_def find_upt [of _ 0] NFILE_def)
  have fd: "fdalloc 0 0 s = Some (0, set_fd 0 0 (Some 0) s)" if "ofile s = ofile boot_state" for s
    using that by (simp add: fdalloc_def find_upt [of _ 0] NOFILE_def boot_state_def)
  have "iunlock 0 (boot_fs\<lparr>icache := (\<lambda>_. no_inode)(0 := locked_root)\<rparr>) =
      Some (boot_fs\<lparr>icache := (\<lambda>_. no_inode)(0 := locked_root\<lparr>ibusy := False\<rparr>), iwakeups := [0]\<rparr>)"
    by (simp add: iunlock_def upd_inode_def locked_root_def from_dinode_def root_inode_def boot_fs_def)
  then show ?thesis using sample_open
    by (simp add: f sys_open_def open_fd_def upd_file_def sample1_def fd sample2_def set_fd_def boot_state_def
        O_RDONLY_def O_WRONLY_def O_RDWR_def no_file_def)
qed

definition sample3 :: sys where
  "sample3 = sample2\<lparr>ftab := (ftab sample2)
       (1 := no_file\<lparr>ftype := FD_PIPE, fref := 1, freadable := True, fpipe := 7\<rparr>,
        2 := no_file\<lparr>ftype := FD_PIPE, fref := 1, fwritable := True, fpipe := 7\<rparr>),
     pipes := [7 \<mapsto> pipe_init []],
     ofile := (ofile sample2)(0 := [0 \<mapsto> 0, 1 \<mapsto> 1, 2 \<mapsto> 2])\<rparr>"

lemma sample_step3: "sys_pipe 0 True (Some (7, [])) sample2 = Some (Some (1, 2), sample3)"
proof -
  have upt: "[0..<NFILE] = [0, 1, 2] @ [3..<NFILE]" "[0..<NOFILE] = [0, 1, 2] @ [3..<NOFILE]"
    by (simp_all add: NFILE_def NOFILE_def upt_three)
  show ?thesis
    by (simp add: sys_pipe_def pipealloc_def filealloc_def fdalloc_def upt upd_file_def set_fd_def sample2_def sample1_def
        boot_state_def no_file_def sample3_def)
qed

definition sample4 :: sys where
  "sample4 = sample3\<lparr>ffs := upd_inode 0 (\<lambda>ip. ip\<lparr>iref := 3\<rparr>) (ffs sample3),
     ftab := (ftab sample3)
       (0 := (ftab sample3 0)\<lparr>fref := 2\<rparr>, 1 := (ftab sample3 1)\<lparr>fref := 2\<rparr>, 2 := (ftab sample3 2)\<lparr>fref := 2\<rparr>),
     ofile := (ofile sample3)(1 := ofile sample3 0), cwd := [0 \<mapsto> 0, 1 \<mapsto> 0]\<rparr>"

lemma sample_step4: "fork_descriptors 0 1 sample3 = Some sample4"
proof -
  have upt: "[0..<NOFILE] = [0, 1, 2] @ [3..<NOFILE]"
    by (simp add: NOFILE_def upt_three)
  have rest: "fork_files p q fds s = Some s" if "\<forall>fd\<in>set fds. ofile s p fd = None" for p q fds s
    using that by (induction fds) auto
  have app: "fork_files p q (xs @ ys) s = do {s1 \<leftarrow> fork_files p q xs s; fork_files p q ys s1}" for p q xs ys s
    by (induction xs arbitrary: s) (auto split: option.splits bind_splits)
  have dup: "idup 0 (ffs sample3) = (0, upd_inode 0 (\<lambda>ip. ip\<lparr>iref := 3\<rparr>) (ffs sample3))"
    by (simp add: idup_def upd_inode_def sample3_def sample2_def sample1_def boot_state_def locked_root_def root_inode_def
        from_dinode_def)
  have "fork_files 0 1 [0..<NOFILE] sample3 = Some (sample4\<lparr>ffs := ffs sample3, cwd := cwd sample3\<rparr>)"
    by (simp add: upt app rest filedup_def upd_file_def set_fd_def sample3_def sample2_def sample1_def
        boot_state_def no_file_def sample4_def)
  moreover have "cwd sample3 = [0 \<mapsto> 0]"
    by (simp add: sample3_def sample2_def sample1_def)
  ultimately show ?thesis using dup by (simp add: fork_descriptors_def sample4_def)
qed

lemma sample_run: "sys_run no_devices boot_state sample4"
proof -
  have "sys_step no_devices boot_state sample1"
    by (rule do_init [OF _ _ sample_step1]) (simp_all add: NPROC_def boot_state_def)
  moreover have "sys_step no_devices sample1 sample2"
    by (rule do_open [OF _ _ sample_step2]) (simp_all add: NPROC_def sample1_def)
  moreover have "sys_step no_devices sample2 sample3"
    by (rule do_pipe [OF _ _ _ sample_step3]) (simp_all add: NPROC_def sample2_def sample1_def boot_state_def)
  moreover have "sys_step no_devices sample3 sample4"
    by (rule do_fork [OF _ _ _ _ sample_step4]) (simp_all add: NPROC_def sample3_def sample2_def sample1_def)
  ultimately show ?thesis using sys_run.start [of no_devices boot_state] sys_run.step by metis
qed

lemma sample_descriptor: "ofile sample4 1 2 = Some 2"
  by (simp add: sample4_def sample3_def sample2_def sample1_def boot_state_def)

theorem open_file_references_witness:
  "fref (ftab sample4 2) = int (card {(p, fd). p < NPROC \<and> fd < NOFILE \<and> ofile sample4 p fd = Some 2}) \<and>
   icache_inv (ffs sample4)"
  using open_file_references [OF sample_run boot_state_booted devices_ok_none] by (simp add: NFILE_def)

theorem descriptors_well_typed_witness: "ofile sample4 1 2 = Some 2 \<and> 0 < fref (ftab sample4 2)"
  using descriptors_well_typed [OF sample_run boot_state_booted devices_ok_none, of 1 2 2] sample_descriptor
  by (simp add: NPROC_def NOFILE_def)

end
