(* ===== verification/Vm.thy ===== *)
theory Vm
  imports Kalloc "HOL-Library.Monad_Syntax" "HOL-Library.Word"
begin

unbundle bit_operations_syntax

text \<open>
  Page tables and address spaces of P5 (\<open>kernel/vm.c\<close>), over the byte memory of \<open>Kalloc\<close>: a page directory
  and its page tables are pages of physical memory, an entry is the word stored there.  Kernel addresses are physical
  addresses (\<open>PADDR\<close> is the identity).  The result \<open>None\<close> is a panic or the use of a null pointer; a null page directory
  is 0.  \<open>kdata\<close> is the linker symbol \<open>data\<close>, where the writable part of the kernel begins.
\<close>

definition USERTOP :: nat where "USERTOP = 0xA0000"
definition PTE_P :: nat where "PTE_P = 1"
definition PTE_W :: nat where "PTE_W = 2"
definition PTE_U :: nat where "PTE_U = 4"
definition NPDENTRIES :: nat where "NPDENTRIES = 1024"

definition PDX :: "nat \<Rightarrow> nat" where "PDX va = va div 2 ^ 22 mod 1024"
definition PTX :: "nat \<Rightarrow> nat" where "PTX va = va div 2 ^ 12 mod 1024"
definition PTE_ADDR :: "nat \<Rightarrow> nat" where "PTE_ADDR e = e div PGSIZE * PGSIZE"
definition PGROUNDDOWN :: "nat \<Rightarrow> nat" where "PGROUNDDOWN a = a div PGSIZE * PGSIZE"

definition present :: "nat \<Rightarrow> bool" where "present e \<longleftrightarrow> e AND PTE_P \<noteq> 0"

section \<open>Walking and mapping\<close>

definition walkpgdir :: "nat \<Rightarrow> nat \<Rightarrow> bool \<Rightarrow> kmem \<Rightarrow> nat option \<times> kmem" where
  "walkpgdir d va create k =
     (let pde = d + 4 * PDX va; e = load32 (phys k) pde in
      if present e then (Some (PTE_ADDR e + 4 * PTX va), k)
      else if \<not> create then (None, k)
      else let (t, k1) = kalloc k in
        if t = 0 then (None, k1)
        else let m = memset (phys k1) t 0 PGSIZE
             in (Some (t + 4 * PTX va), k1\<lparr>phys := store32 m pde (t OR PTE_P OR PTE_W OR PTE_U)\<rparr>))"

text \<open>The loop of \<open>mappages\<close> goes from page \<open>a\<close> to page \<open>z\<close>; there are \<open>2 ^ 20\<close> pages.\<close>

lemma page_step: "a \<noteq> z \<Longrightarrow> unat (z - (a + 1)) < unat (z - a)" for a z :: "20 word"
proof -
  assume "a \<noteq> z"
  then have "z - a \<noteq> 0" by simp
  then have "unat (z - a - 1) < unat (z - a)" by (simp add: unat_minus_one unat_gt_0)
  then show ?thesis by (simp add: diff_diff_eq)
qed

function mappages_loop :: "nat \<Rightarrow> 20 word \<Rightarrow> 20 word \<Rightarrow> nat \<Rightarrow> nat \<Rightarrow> kmem \<Rightarrow> (bool \<times> kmem) option" where
  "mappages_loop d a z pa perm k =
     (let (r, k1) = walkpgdir d (unat a * PGSIZE) True k in
      case r of
        None \<Rightarrow> Some (False, k1)
      | Some p \<Rightarrow>
          if present (load32 (phys k1) p) then None
          else let k2 = k1\<lparr>phys := store32 (phys k1) p (pa OR perm OR PTE_P)\<rparr> in
            if a = z then Some (True, k2)
            else mappages_loop d (a + 1) z ((pa + PGSIZE) mod 2 ^ 32) perm k2)"
  by auto
termination
  by (relation "measure (\<lambda>(d, a, z, pa, perm, k). unat (z - a))") (auto simp: page_step)

declare mappages_loop.simps [simp del]

definition mappages :: "nat \<Rightarrow> nat \<Rightarrow> nat \<Rightarrow> nat \<Rightarrow> nat \<Rightarrow> kmem \<Rightarrow> (bool \<times> kmem) option" where
  "mappages d la sz pa perm k =
     mappages_loop d (of_nat (la div PGSIZE)) (of_nat ((la + sz + 2 ^ 32 - 1) mod 2 ^ 32 div PGSIZE)) pa perm k"

section \<open>The kernel part of an address space\<close>

definition kmap :: "nat \<Rightarrow> (nat \<times> nat \<times> nat) list" where
  "kmap kdata = [(USERTOP, 0x100000, PTE_W), (0x100000, kdata, 0), (kdata, PHYSTOP, PTE_W), (0xFE000000, 0, PTE_W)]"

fun map_kernel :: "nat \<Rightarrow> (nat \<times> nat \<times> nat) list \<Rightarrow> kmem \<Rightarrow> (bool \<times> kmem) option" where
  "map_kernel d [] k = Some (True, k)"
| "map_kernel d ((p, e, perm) # ms) k = do {
     (ok, k1) \<leftarrow> mappages d p ((e + 2 ^ 32 - p) mod 2 ^ 32) p perm k;
     if ok then map_kernel d ms k1 else Some (False, k1) }"

definition setupkvm :: "nat \<Rightarrow> kmem \<Rightarrow> (nat \<times> kmem) option" where
  "setupkvm kdata k =
     (let (d, k1) = kalloc k in
      if d = 0 then Some (0, k1)
      else do {
        (ok, k2) \<leftarrow> map_kernel d (kmap kdata) (k1\<lparr>phys := memset (phys k1) d 0 PGSIZE\<rparr>);
        Some (if ok then d else 0, k2) })"

section \<open>The user part\<close>

text \<open>\<open>inituvm\<close> does not look at the result of \<open>kalloc\<close>.\<close>

definition inituvm :: "nat \<Rightarrow> nat \<Rightarrow> nat \<Rightarrow> kmem \<Rightarrow> kmem option" where
  "inituvm d init sz k =
     (if sz \<ge> PGSIZE then None
      else let (mem, k1) = kalloc k in do {
        (_, k2) \<leftarrow> mappages d 0 PGSIZE mem (PTE_W OR PTE_U) (k1\<lparr>phys := memset (phys k1) mem 0 PGSIZE\<rparr>);
        Some (k2\<lparr>phys := memmove (phys k2) mem init sz\<rparr>) })"

function deallocuvm_loop :: "nat \<Rightarrow> nat \<Rightarrow> nat \<Rightarrow> nat \<Rightarrow> kmem \<Rightarrow> kmem option" where
  "deallocuvm_loop kend d a oldsz k =
     (if a < oldsz then
        (case fst (walkpgdir d a False k) of
           None \<Rightarrow> deallocuvm_loop kend d (a + PGSIZE) oldsz k
         | Some p \<Rightarrow> let e = load32 (phys k) p in
             if present e then
               if PTE_ADDR e = 0 then None
               else do {
                 k1 \<leftarrow> kfree kend k (PTE_ADDR e);
                 deallocuvm_loop kend d (a + PGSIZE) oldsz (k1\<lparr>phys := store32 (phys k1) p 0\<rparr>) }
             else deallocuvm_loop kend d (a + PGSIZE) oldsz k)
      else Some k)"
  by auto
termination by (relation "measure (\<lambda>(kend, d, a, oldsz, k). oldsz - a)") (auto simp: PGSIZE_def)

declare deallocuvm_loop.simps [simp del]

definition deallocuvm :: "nat \<Rightarrow> nat \<Rightarrow> nat \<Rightarrow> nat \<Rightarrow> kmem \<Rightarrow> (nat \<times> kmem) option" where
  "deallocuvm kend d oldsz newsz k =
     (if newsz \<ge> oldsz then Some (oldsz, k)
      else map_option (Pair newsz) (deallocuvm_loop kend d (PGROUNDUP newsz) oldsz k))"

text \<open>\<open>allocuvm\<close> does not look at the result of \<open>mappages\<close>.\<close>

function allocuvm_loop :: "nat \<Rightarrow> nat \<Rightarrow> nat \<Rightarrow> nat \<Rightarrow> nat \<Rightarrow> kmem \<Rightarrow> (nat \<times> kmem) option" where
  "allocuvm_loop kend d a oldsz newsz k =
     (if a < newsz then
        let (mem, k1) = kalloc k in
        if mem = 0 then do {(_, k2) \<leftarrow> deallocuvm kend d newsz oldsz k1; Some (0, k2)}
        else do {
          (_, k2) \<leftarrow> mappages d a PGSIZE mem (PTE_W OR PTE_U) (k1\<lparr>phys := memset (phys k1) mem 0 PGSIZE\<rparr>);
          allocuvm_loop kend d (a + PGSIZE) oldsz newsz k2 }
      else Some (newsz, k))"
  by auto
termination by (relation "measure (\<lambda>(kend, d, a, oldsz, newsz, k). newsz - a)") (auto simp: PGSIZE_def)

declare allocuvm_loop.simps [simp del]

definition allocuvm :: "nat \<Rightarrow> nat \<Rightarrow> nat \<Rightarrow> nat \<Rightarrow> kmem \<Rightarrow> (nat \<times> kmem) option" where
  "allocuvm kend d oldsz newsz k =
     (if newsz > USERTOP then Some (0, k)
      else if newsz < oldsz then Some (oldsz, k)
      else allocuvm_loop kend d (PGROUNDUP oldsz) oldsz newsz k)"

fun free_tables :: "nat \<Rightarrow> nat \<Rightarrow> nat list \<Rightarrow> kmem \<Rightarrow> kmem option" where
  "free_tables kend d [] k = Some k"
| "free_tables kend d (i # js) k =
     (let e = load32 (phys k) (d + 4 * i) in
      if present e then do {k1 \<leftarrow> kfree kend k (PTE_ADDR e); free_tables kend d js k1}
      else free_tables kend d js k)"

definition freevm :: "nat \<Rightarrow> nat \<Rightarrow> kmem \<Rightarrow> kmem option" where
  "freevm kend d k =
     (if d = 0 then None
      else do {
        (_, k1) \<leftarrow> deallocuvm kend d USERTOP 0 k;
        k2 \<leftarrow> free_tables kend d [0..<NPDENTRIES] k1;
        kfree kend k2 d })"

function copy_pages :: "nat \<Rightarrow> nat \<Rightarrow> nat \<Rightarrow> nat \<Rightarrow> nat \<Rightarrow> kmem \<Rightarrow> (nat \<times> kmem) option" where
  "copy_pages kend src d i sz k =
     (if i < sz then
        (case fst (walkpgdir src i False k) of
           None \<Rightarrow> None
         | Some p \<Rightarrow> let e = load32 (phys k) p in
             if \<not> present e then None
             else let (mem, k1) = kalloc k in
               if mem = 0 then do {k2 \<leftarrow> freevm kend d k1; Some (0, k2)}
               else do {
                 (ok, k2) \<leftarrow> mappages d i PGSIZE mem (PTE_W OR PTE_U)
                   (k1\<lparr>phys := memmove (phys k1) mem (PTE_ADDR e) PGSIZE\<rparr>);
                 if ok then copy_pages kend src d (i + PGSIZE) sz k2
                 else do {k3 \<leftarrow> freevm kend d k2; Some (0, k3)} })
      else Some (d, k))"
  by auto
termination by (relation "measure (\<lambda>(kend, src, d, i, sz, k). sz - i)") (auto simp: PGSIZE_def)

declare copy_pages.simps [simp del]

definition copyuvm :: "nat \<Rightarrow> nat \<Rightarrow> nat \<Rightarrow> nat \<Rightarrow> kmem \<Rightarrow> (nat \<times> kmem) option" where
  "copyuvm kend kdata src sz k = do {
     (d, k1) \<leftarrow> setupkvm kdata k;
     if d = 0 then Some (0, k1) else copy_pages kend src d 0 sz k1 }"

section \<open>Access from the kernel\<close>

definition uva2ka :: "nat \<Rightarrow> nat \<Rightarrow> kmem \<Rightarrow> nat option" where
  "uva2ka d uva k = do {
     p \<leftarrow> fst (walkpgdir d uva False k);
     let e = load32 (phys k) p;
     Some (if \<not> present e \<or> e AND PTE_U = 0 then 0 else PTE_ADDR e) }"

definition poke_bytes :: "memory \<Rightarrow> nat \<Rightarrow> u8 list \<Rightarrow> memory" where
  "poke_bytes m a bs = (\<lambda>x. if a \<le> x \<and> x < a + length bs then bs ! (x - a) else m x)"

text \<open>\<open>bs\<close> are the bytes at the kernel address given.\<close>

function copyout :: "nat \<Rightarrow> nat \<Rightarrow> u8 list \<Rightarrow> kmem \<Rightarrow> (bool \<times> kmem) option" where
  "copyout d va bs k =
     (if bs = [] then Some (True, k)
      else let va0 = PGROUNDDOWN va; n = min (PGSIZE - (va - va0)) (length bs) in do {
        pa0 \<leftarrow> uva2ka d va0 k;
        if pa0 = 0 then Some (False, k)
        else copyout d ((va0 + PGSIZE) mod 2 ^ 32) (drop n bs)
          (k\<lparr>phys := poke_bytes (phys k) (pa0 + (va - va0)) (take n bs)\<rparr>) })"
  by auto
termination
proof (relation "measure (\<lambda>(d, va, bs, k). length bs)", goal_cases)
  case (2 d va bs k va0 n)
  have "va mod PGSIZE < PGSIZE" by (simp add: PGSIZE_def)
  then have "0 < n" using 2 by (simp add: PGROUNDDOWN_def minus_div_mult_eq_mod)
  then show ?case using 2 by simp
qed auto

declare copyout.simps [simp del]

end
