(* ===== verification/VmMap.thy ===== *)
theory VmMap
  imports Vm
begin

text \<open>
  What the walks and mappings of \<open>Vm\<close> do, seen through the entry that a page directory holds for a page of the
  address space, and the kernel part of a new address space.
\<close>

section \<open>Pages and words of memory\<close>

text \<open>\<open>unchanged S m m'\<close>: the memories agree on all bytes outside the pages of \<open>S\<close>.\<close>

definition unchanged :: "nat set \<Rightarrow> memory \<Rightarrow> memory \<Rightarrow> bool" where
  "unchanged S m m' \<longleftrightarrow> (\<forall>a. PGROUNDDOWN a \<notin> S \<longrightarrow> m' a = m a)"

lemma unchanged_refl [simp]: "unchanged S m m"
  by (simp add: unchanged_def)

lemma unchanged_trans: "unchanged S m1 m2 \<Longrightarrow> unchanged T m2 m3 \<Longrightarrow> unchanged (S \<union> T) m1 m3"
  by (auto simp: unchanged_def)

lemma unchanged_mono: "unchanged S m m' \<Longrightarrow> S \<subseteq> T \<Longrightarrow> unchanged T m m'"
  by (auto simp: unchanged_def)

lemma page_of: "p mod PGSIZE = 0 \<Longrightarrow> i < PGSIZE \<Longrightarrow> PGROUNDDOWN (p + i) = p"
  by (auto simp: PGROUNDDOWN_def PGSIZE_def mod_eq_0_iff_dvd elim!: dvdE)

lemma page_of_word: "p mod PGSIZE = 0 \<Longrightarrow> i < 1024 \<Longrightarrow> j < 4 \<Longrightarrow> PGROUNDDOWN (p + 4 * i + j) = p"
  using page_of [of p "4 * i + j"] by (simp add: PGSIZE_def add.assoc)

lemma in_page: "p mod PGSIZE = 0 \<Longrightarrow> p \<le> a \<Longrightarrow> a < p + PGSIZE \<Longrightarrow> PGROUNDDOWN a = p"
  using page_of [of p "a - p"] by simp

lemma unchanged_byte: "unchanged S m m' \<Longrightarrow> p mod PGSIZE = 0 \<Longrightarrow> i < PGSIZE \<Longrightarrow> p \<notin> S \<Longrightarrow> m' (p + i) = m (p + i)"
  by (simp add: unchanged_def page_of)

lemma unchanged_word:
  assumes "unchanged S m m'" "p mod PGSIZE = 0" "i < 1024" "p \<notin> S"
  shows "load32 m' (p + 4 * i) = load32 m (p + 4 * i)"
  using assms by (intro load32_cong) (simp add: unchanged_def page_of_word)

lemma unchanged_store: "p mod PGSIZE = 0 \<Longrightarrow> i < 1024 \<Longrightarrow> unchanged {p} m (store32 m (p + 4 * i) v)"
  unfolding unchanged_def
  using page_of_word [of p i 0] page_of_word [of p i 1] page_of_word [of p i 2] page_of_word [of p i 3]
  by (auto simp: store32_def)

lemma unchanged_memset: "p mod PGSIZE = 0 \<Longrightarrow> unchanged {p} m (memset m p c PGSIZE)"
  unfolding unchanged_def using in_page by (auto simp: memset_apply)

lemma unchanged_memmove: "p mod PGSIZE = 0 \<Longrightarrow> unchanged {p} m (memmove m p s PGSIZE)"
  unfolding unchanged_def using in_page by (auto simp: memmove_apply)

lemma load_store:
  assumes "p mod PGSIZE = 0" "q mod PGSIZE = 0" "i < 1024" "j < 1024" "v < 2 ^ 32"
  shows "load32 (store32 m (p + 4 * i) v) (q + 4 * j) = (if p = q \<and> i = j then v else load32 m (q + 4 * j))"
proof (cases "p = q \<and> i = j")
  case True
  then show ?thesis using assms by (simp add: load32_store32)
next
  case False
  have "load32 (store32 m (p + 4 * i) v) (q + 4 * j) = load32 m (q + 4 * j)"
  proof (rule load32_cong)
    fix n :: nat assume n: "n < 4"
    have "q + 4 * j + n < p + 4 * i \<or> p + 4 * i + 4 \<le> q + 4 * j + n"
    proof (cases "p = q")
      case True
      then show ?thesis using False n by auto
    next
      case pq: False
      show ?thesis
      proof (rule ccontr)
        assume "\<not> ?thesis"
        then have "q + 4 * j + n = p + 4 * i + (q + 4 * j + n - (p + 4 * i))" "q + 4 * j + n - (p + 4 * i) < 4" by auto
        then show False using page_of_word [of p i "q + 4 * j + n - (p + 4 * i)"] page_of_word [of q j n] assms n pq
          by simp
      qed
    qed
    then show "store32 m (p + 4 * i) v (q + 4 * j + n) = m (q + 4 * j + n)" by (rule store32_other)
  qed
  then show ?thesis using False by auto
qed

lemma load_memset:
  "p mod PGSIZE = 0 \<Longrightarrow> i < 1024 \<Longrightarrow> load32 (memset m p 0 PGSIZE) (p + 4 * i) = 0"
  by (simp add: load32_def memset_apply PGSIZE_def)

lemma load32_less: "load32 m a < 2 ^ 32"
proof -
  have "unat (m b) < 256" for b by (rule order_less_le_trans [OF unsigned_less]) simp
  from this [of a] this [of "a + 1"] this [of "a + 2"] this [of "a + 3"] show ?thesis by (simp add: load32_def)
qed

lemma kmem_inv_unchanged:
  assumes "kmem_inv kend k ps" "unchanged S (phys k) m" "S \<inter> set ps = {}"
  shows "kmem_inv kend (k\<lparr>phys := m\<rparr>) ps"
proof -
  have "run_list m (freelist k) ps = run_list (phys k) (freelist k) ps"
  proof (rule run_list_cong)
    fix q and i :: nat
    assume q: "q \<in> set ps" "i < 4"
    then have "q mod PGSIZE = 0" "q \<notin> S" using assms by (auto simp: kmem_inv_def page_def)
    then show "m (q + i) = phys k (q + i)" using q by (intro unchanged_byte [OF assms(2)]) (auto simp: PGSIZE_def)
  qed
  then show ?thesis using assms(1) by (simp add: kmem_inv_def)
qed

section \<open>Entries\<close>

lemma present_odd: "present e \<longleftrightarrow> odd e"
  by (simp add: present_def PTE_P_def and_one_eq odd_iff_mod_2_eq_one)

lemma aligned_bits: "a mod PGSIZE = 0 \<Longrightarrow> n < 12 \<Longrightarrow> \<not> bit a n"
proof -
  assume "a mod PGSIZE = 0" "n < 12"
  moreover have "bit (take_bit 12 a) n \<longleftrightarrow> n < 12 \<and> bit a n" by (rule bit_take_bit_iff)
  ultimately show ?thesis by (simp add: take_bit_eq_mod PGSIZE_def)
qed

lemma small_bits: "f < PGSIZE \<Longrightarrow> bit f n \<Longrightarrow> n < 12" for f :: nat
proof -
  assume "f < PGSIZE" "bit f n"
  moreover have "bit (take_bit 12 f) n \<longleftrightarrow> n < 12 \<and> bit f n" by (rule bit_take_bit_iff)
  ultimately show ?thesis by (simp add: take_bit_eq_mod PGSIZE_def)
qed

lemma or_flags: "a mod PGSIZE = 0 \<Longrightarrow> f < PGSIZE \<Longrightarrow> a OR f = a + f"
  using aligned_bits small_bits by (subst disjunctive_add_eq_or) (auto simp: bit_eq_iff bit_simps)

lemma PTE_ADDR_add: "a mod PGSIZE = 0 \<Longrightarrow> f < PGSIZE \<Longrightarrow> PTE_ADDR (a + f) = a"
  using page_of [of a f] by (simp add: PTE_ADDR_def PGROUNDDOWN_def)

lemma PTE_ADDR_aligned [simp]: "PTE_ADDR e mod PGSIZE = 0"
  by (simp add: PTE_ADDR_def)

text \<open>Permissions are sets of the flags for writing and for user mode.\<close>

definition perm_ok :: "nat \<Rightarrow> bool" where
  "perm_ok f \<longleftrightarrow> f \<in> {0, PTE_W, PTE_U, PTE_W OR PTE_U}"

lemma entry_bits:
  assumes "a mod PGSIZE = 0" "perm_ok f"
  shows "a OR f OR PTE_P = a + f + 1" "present (a OR f OR PTE_P)" "PTE_ADDR (a OR f OR PTE_P) = a"
    "(a OR f OR PTE_P) AND PTE_U = f AND PTE_U"
proof -
  have f: "f < PGSIZE - 1" "f OR PTE_P = f + 1" "even f" "(f + 1) AND PTE_U = f AND PTE_U"
    using assms(2) by (auto simp: perm_ok_def PTE_W_def PTE_U_def PTE_P_def PGSIZE_def)
  then show eq: "a OR f OR PTE_P = a + f + 1" using or_flags [OF assms(1), of "f + 1"] by simp
  have "even a" using assms(1) by (auto simp: PGSIZE_def mod_eq_0_iff_dvd elim: dvdE)
  then show "present (a OR f OR PTE_P)" unfolding eq present_odd using f by simp
  show "PTE_ADDR (a OR f OR PTE_P) = a" unfolding eq using PTE_ADDR_add [of a "f + 1"] assms f by simp
  have a: "\<not> (bit a n \<and> bit PTE_U n)" for n
    using aligned_bits [OF assms(1)] small_bits [of PTE_U] by (auto simp: PTE_U_def PGSIZE_def)
  have "(a OR f OR PTE_P) AND PTE_U = (f OR PTE_P) AND PTE_U"
    using a by (auto simp: bit_eq_iff bit_and_iff bit_or_iff)
  then show "(a OR f OR PTE_P) AND PTE_U = f AND PTE_U" using f by simp
qed

definition pde :: "memory \<Rightarrow> nat \<Rightarrow> nat \<Rightarrow> nat" where
  "pde m d i = load32 m (d + 4 * i)"

text \<open>The entry for page \<open>n\<close> of the address space, 0 when the page table is missing.\<close>

definition entry :: "memory \<Rightarrow> nat \<Rightarrow> nat \<Rightarrow> nat" where
  "entry m d n = (let e = pde m d (n div 1024) in if present e then load32 m (PTE_ADDR e + 4 * (n mod 1024)) else 0)"

definition tables :: "memory \<Rightarrow> nat \<Rightarrow> nat set" where
  "tables m d = {PTE_ADDR (pde m d i) | i. i < NPDENTRIES \<and> present (pde m d i)}"

text \<open>A page directory that owns its page tables; \<open>ps\<close> is the list of free pages.\<close>

definition dir_ok :: "nat \<Rightarrow> kmem \<Rightarrow> nat \<Rightarrow> nat list \<Rightarrow> bool" where
  "dir_ok kend k d ps \<longleftrightarrow> kmem_inv kend k ps \<and> page kend d \<and> d \<notin> set ps \<and>
     d \<notin> tables (phys k) d \<and> tables (phys k) d \<inter> set ps = {} \<and> (\<forall>t\<in>tables (phys k) d. page kend t) \<and>
     inj_on (\<lambda>i. PTE_ADDR (pde (phys k) d i)) {i. i < NPDENTRIES \<and> present (pde (phys k) d i)}"

lemma tables_memb: "i < NPDENTRIES \<Longrightarrow> present (pde m d i) \<Longrightarrow> PTE_ADDR (pde m d i) \<in> tables m d"
  by (auto simp: tables_def)

lemma card_tables: "card (tables m d) \<le> NPDENTRIES"
proof -
  have "tables m d \<subseteq> (\<lambda>i. PTE_ADDR (pde m d i)) ` {..<NPDENTRIES}" by (auto simp: tables_def)
  then have "card (tables m d) \<le> card ((\<lambda>i. PTE_ADDR (pde m d i)) ` {..<NPDENTRIES})" by (intro card_mono) auto
  also have "\<dots> \<le> NPDENTRIES" using card_image_le [of "{..<NPDENTRIES}"] by simp
  finally show ?thesis .
qed

lemma page_aligned: "page kend p \<Longrightarrow> p mod PGSIZE = 0" "page kend p \<Longrightarrow> p \<noteq> 0" "page kend p \<Longrightarrow> p < PHYSTOP"
  by (auto simp: page_def)

lemma PDX_page: "n < 2 ^ 20 \<Longrightarrow> PDX (n * PGSIZE) = n div 1024"
  by (simp add: PDX_def PGSIZE_def div_mult2_eq [symmetric] flip: div_mult2_eq)

lemma PTX_page: "PTX (n * PGSIZE) = n mod 1024"
  by (simp add: PTX_def PGSIZE_def)

lemma dir_okD:
  assumes "dir_ok kend k d ps"
  shows "kmem_inv kend k ps" "page kend d" "d \<notin> set ps" "d \<notin> tables (phys k) d" "tables (phys k) d \<inter> set ps = {}"
    "t \<in> tables (phys k) d \<Longrightarrow> page kend t"
  using assms by (auto simp: dir_ok_def)

lemma dir_ok_unchanged:
  assumes ok: "dir_ok kend k d ps" and u: "unchanged S (phys k) m"
    and S: "d \<notin> S" "S \<inter> tables (phys k) d = {}" "S \<inter> set ps = {}"
  shows "dir_ok kend (k\<lparr>phys := m\<rparr>) d ps" "tables m d = tables (phys k) d"
    "n < 2 ^ 20 \<Longrightarrow> entry m d n = entry (phys k) d n"
proof -
  have p: "pde m d i = pde (phys k) d i" if "i < NPDENTRIES" for i
    unfolding pde_def using that page_aligned(1) [OF dir_okD(2) [OF ok]] S by (intro unchanged_word [OF u]) (auto simp: NPDENTRIES_def)
  then show t: "tables m d = tables (phys k) d" unfolding tables_def by (metis (no_types, lifting))
  have "{i. i < NPDENTRIES \<and> present (pde m d i)} = {i. i < NPDENTRIES \<and> present (pde (phys k) d i)}" using p by auto
  moreover have "inj_on (\<lambda>i. PTE_ADDR (pde m d i)) {i. i < NPDENTRIES \<and> present (pde (phys k) d i)}"
    using ok p unfolding dir_ok_def inj_on_def by auto
  ultimately show "dir_ok kend (k\<lparr>phys := m\<rparr>) d ps"
    using ok t kmem_inv_unchanged [OF dir_okD(1) [OF ok] u S(3)] by (simp add: dir_ok_def)
  assume n: "n < 2 ^ 20"
  then have i: "n div 1024 < NPDENTRIES" by (simp add: NPDENTRIES_def)
  show "entry m d n = entry (phys k) d n"
  proof (cases "present (pde (phys k) d (n div 1024))")
    case True
    then have "PTE_ADDR (pde (phys k) d (n div 1024)) \<notin> S" using S tables_memb [OF i True] by auto
    then show ?thesis using True p [OF i] unchanged_word [OF u, of "PTE_ADDR (pde (phys k) d (n div 1024))" "n mod 1024"]
      by (simp add: entry_def)
  qed (simp add: entry_def p [OF i])
qed

text \<open>Storing an entry.\<close>

lemma store_entry:
  assumes ok: "dir_ok kend k d ps" and n: "n < 2 ^ 20" and pr: "present (pde (phys k) d (n div 1024))" and v: "v < 2 ^ 32"
    and m: "m = store32 (phys k) (PTE_ADDR (pde (phys k) d (n div 1024)) + 4 * (n mod 1024)) v"
  shows "dir_ok kend (k\<lparr>phys := m\<rparr>) d ps" "tables m d = tables (phys k) d"
    "j < 2 ^ 20 \<Longrightarrow> entry m d j = (if j = n then v else entry (phys k) d j)"
    "i < NPDENTRIES \<Longrightarrow> pde m d i = pde (phys k) d i"
    "unchanged {PTE_ADDR (pde (phys k) d (n div 1024))} (phys k) m"
proof -
  define t where "t = PTE_ADDR (pde (phys k) d (n div 1024))"
  have i: "n div 1024 < NPDENTRIES" using n by (simp add: NPDENTRIES_def)
  have t: "t \<in> tables (phys k) d" "t mod PGSIZE = 0" using tables_memb [OF i pr] by (simp_all add: t_def)
  have td: "t \<noteq> d" "t \<notin> set ps" using t dir_okD(4,5) [OF ok] by auto
  show u: "unchanged {PTE_ADDR (pde (phys k) d (n div 1024))} (phys k) m"
    unfolding m using unchanged_store [of t "n mod 1024"] t by (simp add: t_def)
  have p: "pde m d i = pde (phys k) d i" if "i < NPDENTRIES" for i
    unfolding pde_def using that page_aligned(1) [OF dir_okD(2) [OF ok]] td by (intro unchanged_word [OF u]) (auto simp: NPDENTRIES_def t_def)
  then show "i < NPDENTRIES \<Longrightarrow> pde m d i = pde (phys k) d i" by simp
  show tb: "tables m d = tables (phys k) d" using p unfolding tables_def by (metis (no_types, lifting))
  have "{i. i < NPDENTRIES \<and> present (pde m d i)} = {i. i < NPDENTRIES \<and> present (pde (phys k) d i)}" using p by auto
  moreover have "inj_on (\<lambda>i. PTE_ADDR (pde m d i)) {i. i < NPDENTRIES \<and> present (pde (phys k) d i)}"
    using ok p unfolding dir_ok_def inj_on_def by auto
  ultimately show "dir_ok kend (k\<lparr>phys := m\<rparr>) d ps"
    using ok tb kmem_inv_unchanged [OF dir_okD(1) [OF ok] u] td by (simp add: dir_ok_def t_def)
  assume j: "j < 2 ^ 20"
  then have jd: "j div 1024 < NPDENTRIES" by (simp add: NPDENTRIES_def)
  show "entry m d j = (if j = n then v else entry (phys k) d j)"
  proof (cases "present (pde (phys k) d (j div 1024))")
    case True
    have "j div 1024 = n div 1024" if "PTE_ADDR (pde (phys k) d (j div 1024)) = t"
    proof (rule inj_onD)
      show "inj_on (\<lambda>i. PTE_ADDR (pde (phys k) d i)) {i. i < NPDENTRIES \<and> present (pde (phys k) d i)}"
        using ok by (simp add: dir_ok_def)
    qed (use that pr True i jd in \<open>simp_all add: t_def\<close>)
    then have "PTE_ADDR (pde (phys k) d (j div 1024)) = t \<longleftrightarrow> j div 1024 = n div 1024" by (auto simp: t_def)
    moreover have "j = n \<longleftrightarrow> j div 1024 = n div 1024 \<and> j mod 1024 = n mod 1024" by (metis div_mult_mod_eq)
    ultimately show ?thesis
      using True p [OF jd] t load_store [of t "PTE_ADDR (pde (phys k) d (j div 1024))" "n mod 1024" "j mod 1024" v "phys k"] v
      by (auto simp: entry_def m t_def)
  next
    case False
    then show ?thesis using pr p [OF jd] by (auto simp: entry_def)
  qed
qed

text \<open>A walk in a directory that has the table.\<close>

lemma walk_present:
  assumes "n < 2 ^ 20" "present (pde (phys k) d (n div 1024))"
  shows "walkpgdir d (n * PGSIZE) c k = (Some (PTE_ADDR (pde (phys k) d (n div 1024)) + 4 * (n mod 1024)), k)"
    "load32 (phys k) (PTE_ADDR (pde (phys k) d (n div 1024)) + 4 * (n mod 1024)) = entry (phys k) d n"
  using assms by (auto simp: walkpgdir_def PDX_page PTX_page entry_def pde_def Let_def)

lemma walk_absent:
  assumes "n < 2 ^ 20" "\<not> present (pde (phys k) d (n div 1024))"
  shows "walkpgdir d (n * PGSIZE) False k = (None, k)" "entry (phys k) d n = 0"
  using assms by (auto simp: walkpgdir_def PDX_page PTX_page entry_def pde_def Let_def)

text \<open>\<open>grows\<close>: the directory took pages off the free list for new tables, and nothing else changed.\<close>

definition grows :: "nat \<Rightarrow> nat \<Rightarrow> kmem \<Rightarrow> nat list \<Rightarrow> kmem \<Rightarrow> nat list \<Rightarrow> bool" where
  "grows kend d k ps k' ps' \<longleftrightarrow> dir_ok kend k' d ps' \<and>
     (\<exists>us. ps = us @ ps' \<and> tables (phys k') d = tables (phys k) d \<union> set us) \<and>
     unchanged (insert d (tables (phys k') d)) (phys k) (phys k')"

lemma grows_refl: "dir_ok kend k d ps \<Longrightarrow> grows kend d k ps k ps"
  by (auto simp: grows_def)

lemma grows_trans:
  assumes "grows kend d k1 ps1 k2 ps2" "grows kend d k2 ps2 k3 ps3"
  shows "grows kend d k1 ps1 k3 ps3"
proof -
  obtain us vs where "ps1 = us @ ps2" "tables (phys k2) d = tables (phys k1) d \<union> set us"
    "ps2 = vs @ ps3" "tables (phys k3) d = tables (phys k2) d \<union> set vs"
    using assms unfolding grows_def by blast
  then have "ps1 = (us @ vs) @ ps3 \<and> tables (phys k3) d = tables (phys k1) d \<union> set (us @ vs)" by auto
  moreover have "unchanged (insert d (tables (phys k3) d)) (phys k1) (phys k3)"
    using assms unchanged_trans [of "insert d (tables (phys k2) d)" "phys k1" "phys k2" "insert d (tables (phys k3) d)" "phys k3"]
      \<open>tables (phys k3) d = _\<close> unfolding grows_def by (auto elim: unchanged_mono)
  ultimately show ?thesis using assms unfolding grows_def by blast
qed

text \<open>A walk that makes the table.\<close>

lemma walk_new:
  assumes ok: "dir_ok kend k d (t # ps)" and n: "n < 2 ^ 20" and np: "\<not> present (pde (phys k) d (n div 1024))"
  obtains k' where "walkpgdir d (n * PGSIZE) True k = (Some (t + 4 * (n mod 1024)), k')"
    "grows kend d k (t # ps) k' ps" "present (pde (phys k') d (n div 1024))" "PTE_ADDR (pde (phys k') d (n div 1024)) = t"
    "\<And>j. j < 2 ^ 20 \<Longrightarrow> entry (phys k') d j = entry (phys k) d j"
    "\<And>i. i \<noteq> n div 1024 \<Longrightarrow> i < NPDENTRIES \<Longrightarrow> pde (phys k') d i = pde (phys k) d i"
proof -
  define i where "i = n div 1024"
  have i: "i < NPDENTRIES" "i < 1024" using n by (simp_all add: NPDENTRIES_def i_def)
  note inv = dir_okD(1) [OF ok]
  obtain k1 where k1: "kalloc k = (t, k1)" "kmem_inv kend k1 ps" "phys k1 = phys k" using kalloc_spec [OF inv] by auto
  have t: "page kend t" "t \<notin> set ps" "t \<noteq> d" "t \<notin> tables (phys k) d" using ok by (auto simp: dir_ok_def kmem_inv_def)
  note ta = page_aligned(1,2,3) [OF t(1)] and da = page_aligned(1) [OF dir_okD(2) [OF ok]]
  define m1 where "m1 = memset (phys k) t 0 PGSIZE"
  define v where "v = t OR PTE_P OR PTE_W OR PTE_U"
  have f: "PTE_P OR PTE_W OR PTE_U = 7" by (simp add: PTE_P_def PTE_W_def PTE_U_def)
  have v: "v = t + 7" unfolding v_def f using or_flags [OF ta(1)] by (simp add: PGSIZE_def)
  have "even t" using ta(1) by (auto simp: PGSIZE_def mod_eq_0_iff_dvd elim: dvdE)
  then have v': "present v" "PTE_ADDR v = t" "v < 2 ^ 32"
    using PTE_ADDR_add [OF ta(1), of 7] ta(3) by (simp_all add: v present_odd PGSIZE_def PHYSTOP_def)
  define m2 where "m2 = store32 m1 (d + 4 * i) v"
  define k' where "k' = k1\<lparr>phys := m2\<rparr>"
  have u1: "unchanged {t} (phys k) m1" unfolding m1_def by (rule unchanged_memset [OF ta(1)])
  have u2: "unchanged {d} m1 m2" unfolding m2_def by (rule unchanged_store [OF da i(2)])
  have u: "unchanged {t, d} (phys k) m2" using unchanged_trans [OF u1 u2] by (simp add: insert_commute)
  have p: "pde m2 d j = (if j = i then v else pde (phys k) d j)" if "j < NPDENTRIES" for j
  proof -
    have "pde m1 d j = pde (phys k) d j" unfolding pde_def
      using that t(3) da by (intro unchanged_word [OF u1]) (auto simp: NPDENTRIES_def)
    then show ?thesis using load_store [OF da da i(2), of j v m1] that v'(3) by (auto simp: pde_def m2_def NPDENTRIES_def)
  qed
  have pr: "present (pde m2 d i)" "PTE_ADDR (pde m2 d i) = t" using p [OF i(1)] v' by auto
  have set_eq: "{j. j < NPDENTRIES \<and> present (pde m2 d j)} = insert i {j. j < NPDENTRIES \<and> present (pde (phys k) d j)}"
    using p i v' by auto
  have np': "\<not> present (pde (phys k) d i)" using np by (simp add: i_def)
  have tb: "tables m2 d = insert t (tables (phys k) d)"
  proof -
    have "tables m2 d = (\<lambda>j. PTE_ADDR (pde m2 d j)) ` {j. j < NPDENTRIES \<and> present (pde m2 d j)}" by (auto simp: tables_def)
    also have "\<dots> = insert t ((\<lambda>j. PTE_ADDR (pde m2 d j)) ` {j. j < NPDENTRIES \<and> present (pde (phys k) d j)})"
      unfolding set_eq using pr by simp
    also have "(\<lambda>j. PTE_ADDR (pde m2 d j)) ` {j. j < NPDENTRIES \<and> present (pde (phys k) d j)} = tables (phys k) d"
      using p np' by (force simp: tables_def)
    finally show ?thesis .
  qed
  have inj: "inj_on (\<lambda>j. PTE_ADDR (pde m2 d j)) {j. j < NPDENTRIES \<and> present (pde m2 d j)}"
    unfolding set_eq
  proof (subst inj_on_insert, intro conjI)
    show "inj_on (\<lambda>j. PTE_ADDR (pde m2 d j)) {j. j < NPDENTRIES \<and> present (pde (phys k) d j)}"
      using ok p np' unfolding dir_ok_def inj_on_def by auto
    show "PTE_ADDR (pde m2 d i) \<notin> (\<lambda>j. PTE_ADDR (pde m2 d j)) ` ({j. j < NPDENTRIES \<and> present (pde (phys k) d j)} - {i})"
      using p t(4) by (auto simp: pr tables_def)
  qed
  have inv': "kmem_inv kend k' ps" unfolding k'_def
    using ok t k1 u by (intro kmem_inv_unchanged [OF k1(2), of "{t, d}"]) (auto simp: dir_ok_def)
  have ok': "dir_ok kend k' d ps"
    using ok inv' tb inj t by (auto simp: dir_ok_def k'_def)
  moreover have "unchanged (insert d (tables (phys k') d)) (phys k) (phys k')"
    using unchanged_mono [OF u, of "insert d (tables (phys k') d)"] by (simp add: k'_def tb)
  ultimately have g: "grows kend d k (t # ps) k' ps" using tb by (auto simp: grows_def k'_def intro!: exI [of _ "[t]"])
  have e: "entry (phys k') d j = entry (phys k) d j" if "j < 2 ^ 20" for j
  proof -
    have jd: "j div 1024 < NPDENTRIES" using that by (simp add: NPDENTRIES_def)
    show ?thesis
    proof (cases "j div 1024 = i")
      case True
      have "load32 m2 (t + 4 * (j mod 1024)) = load32 m1 (t + 4 * (j mod 1024))"
        using t(3) by (intro unchanged_word [OF u2 ta(1)]) auto
      then show ?thesis using True pr np' load_memset [OF ta(1), of "j mod 1024" "phys k"]
        by (simp add: entry_def k'_def m1_def)
    next
      case False
      show ?thesis
      proof (cases "present (pde (phys k) d (j div 1024))")
        case True
        then have "PTE_ADDR (pde (phys k) d (j div 1024)) \<notin> {t, d}" using tables_memb [OF jd True] t(4) dir_okD(4) [OF ok] by auto
        then have "load32 m2 (PTE_ADDR (pde (phys k) d (j div 1024)) + 4 * (j mod 1024)) =
            load32 (phys k) (PTE_ADDR (pde (phys k) d (j div 1024)) + 4 * (j mod 1024))"
          by (intro unchanged_word [OF u]) auto
        then show ?thesis using False True p [OF jd] by (simp add: entry_def k'_def)
      qed (use False p [OF jd] in \<open>simp add: entry_def k'_def\<close>)
    qed
  qed
  have "walkpgdir d (n * PGSIZE) True k = (Some (t + 4 * (n mod 1024)), k')"
    using np n k1 ta(2) by (simp add: walkpgdir_def PDX_page PTX_page pde_def k'_def m2_def m1_def v_def i_def Let_def)
  from that [OF this g] show thesis using pr e p by (simp add: k'_def i_def)
qed

lemma walk_full:
  assumes ok: "dir_ok kend k d []" and n: "n < 2 ^ 20" and np: "\<not> present (pde (phys k) d (n div 1024))"
  shows "walkpgdir d (n * PGSIZE) True k = (None, k)"
  using kalloc_spec [OF dir_okD(1) [OF ok]] np n by (simp add: walkpgdir_def PDX_page pde_def Let_def)

text \<open>A walk for creation, with or without the table: afterwards it is there.\<close>

lemma walk_create:
  assumes ok: "dir_ok kend k d ps" and n: "n < 2 ^ 20"
  shows "(\<exists>k' ps'. walkpgdir d (n * PGSIZE) True k = (Some (PTE_ADDR (pde (phys k') d (n div 1024)) + 4 * (n mod 1024)), k') \<and>
      grows kend d k ps k' ps' \<and> present (pde (phys k') d (n div 1024)) \<and>
      (\<forall>j<2 ^ 20. entry (phys k') d j = entry (phys k) d j)) \<or>
    (walkpgdir d (n * PGSIZE) True k = (None, k) \<and> ps = [])"
proof (cases "present (pde (phys k) d (n div 1024))")
  case True
  with walk_present(1) [OF n True, where c = True] grows_refl [OF ok] show ?thesis by blast
next
  case False
  show ?thesis
  proof (cases ps)
    case Nil
    then show ?thesis using walk_full n False ok by blast
  next
    case (Cons t ps')
    from walk_new [OF ok [unfolded Cons] n False] obtain k' where
      "walkpgdir d (n * PGSIZE) True k = (Some (t + 4 * (n mod 1024)), k')"
      "grows kend d k (t # ps') k' ps'" "present (pde (phys k') d (n div 1024))"
      "PTE_ADDR (pde (phys k') d (n div 1024)) = t" "\<And>j. j < 2 ^ 20 \<Longrightarrow> entry (phys k') d j = entry (phys k) d j"
      by metis
    then show ?thesis using Cons by blast
  qed
qed

lemma store_grows:
  assumes g: "grows kend d k ps k1 ps1" and n: "n < 2 ^ 20" and pr: "present (pde (phys k1) d (n div 1024))" and v: "v < 2 ^ 32"
    and k2: "k2 = k1\<lparr>phys := store32 (phys k1) (PTE_ADDR (pde (phys k1) d (n div 1024)) + 4 * (n mod 1024)) v\<rparr>"
  shows "grows kend d k ps k2 ps1"
    "j < 2 ^ 20 \<Longrightarrow> entry (phys k2) d j = (if j = n then v else entry (phys k1) d j)"
proof -
  have ok: "dir_ok kend k1 d ps1" using g by (simp add: grows_def)
  note st = store_entry [OF ok n pr v refl]
  have "PTE_ADDR (pde (phys k1) d (n div 1024)) \<in> tables (phys k1) d"
    using tables_memb [OF _ pr] n by (simp add: NPDENTRIES_def)
  then have "grows kend d k1 ps1 k2 ps1"
    using st(1,2) unchanged_mono [OF st(5), of "insert d (tables (phys k2) d)"] by (simp add: grows_def k2)
  then show "grows kend d k ps k2 ps1" by (rule grows_trans [OF g])
  show "j < 2 ^ 20 \<Longrightarrow> entry (phys k2) d j = (if j = n then v else entry (phys k1) d j)"
    using st(3) by (simp add: k2)
qed

lemma pte_less: "a mod PGSIZE = 0 \<Longrightarrow> a < 2 ^ 32 \<Longrightarrow> perm_ok f \<Longrightarrow> a OR f OR PTE_P < 2 ^ 32"
proof -
  assume a: "a mod PGSIZE = 0" "a < 2 ^ 32" and f: "perm_ok f"
  from a obtain q where "a = PGSIZE * q" by (auto simp: mod_eq_0_iff_dvd elim: dvdE)
  with a have "a + 8 \<le> 2 ^ 32" by (simp add: PGSIZE_def)
  moreover have "f < 7" using f by (auto simp: perm_ok_def PTE_W_def PTE_U_def)
  ultimately show ?thesis using entry_bits(1) [OF a(1) f] by linarith
qed

lemma mappages_loop_spec:
  assumes "dir_ok kend k d ps" "unat a \<le> unat z" "\<forall>j. unat a \<le> j \<and> j \<le> unat z \<longrightarrow> \<not> present (entry (phys k) d j)"
    "pa mod PGSIZE = 0" "pa + (unat z - unat a) * PGSIZE < 2 ^ 32" "perm_ok perm"
  shows "\<exists>ok k' ps'. mappages_loop d a z pa perm k = Some (ok, k') \<and> grows kend d k ps k' ps' \<and> (\<not> ok \<longrightarrow> ps' = []) \<and>
    (\<forall>j<2 ^ 20. \<not> (unat a \<le> j \<and> j \<le> unat z) \<longrightarrow> entry (phys k') d j = entry (phys k) d j) \<and>
    (ok \<longrightarrow> (\<forall>j. unat a \<le> j \<and> j \<le> unat z \<longrightarrow> entry (phys k') d j = (pa + (j - unat a) * PGSIZE) OR perm OR PTE_P))"
  using assms
proof (induction d a z pa perm k arbitrary: ps rule: mappages_loop.induct)
  case (1 d a z pa perm k)
  have n: "unat a < 2 ^ 20" "unat z < 2 ^ 20" using unsigned_less [of a] unsigned_less [of z] by auto
  from walk_create [OF "1.prems"(1) n(1)] show ?case
  proof (elim disjE exE conjE)
    assume w: "walkpgdir d (unat a * PGSIZE) True k = (None, k)" and "ps = []"
    then show ?thesis using grows_refl [OF "1.prems"(1)] by (subst mappages_loop.simps) (auto simp: Let_def)
  next
    fix k1 :: kmem and ps1
    define p where "p = PTE_ADDR (pde (phys k1) d (unat a div 1024)) + 4 * (unat a mod 1024)"
    assume w: "walkpgdir d (unat a * PGSIZE) True k =
        (Some (PTE_ADDR (pde (phys k1) d (unat a div 1024)) + 4 * (unat a mod 1024)), k1)"
      and g1: "grows kend d k ps k1 ps1" and pr: "present (pde (phys k1) d (unat a div 1024))"
      and e1: "\<forall>j<2 ^ 20. entry (phys k1) d j = entry (phys k) d j"
    have np: "\<not> present (load32 (phys k1) p)"
      using walk_present(2) [OF n(1) pr] e1 n "1.prems"(2,3) by (simp add: p_def)
    define v where "v = pa OR perm OR PTE_P"
    define k2 where "k2 = k1\<lparr>phys := store32 (phys k1) p v\<rparr>"
    have v: "v < 2 ^ 32" unfolding v_def using "1.prems"(4,5,6) by (intro pte_less) auto
    note st = store_grows [OF g1 n(1) pr v, of k2, folded p_def, OF k2_def]
    have step: "mappages_loop d a z pa perm k =
        (if a = z then Some (True, k2) else mappages_loop d (a + 1) z ((pa + PGSIZE) mod 2 ^ 32) perm k2)"
      using w np by (subst mappages_loop.simps) (simp add: Let_def p_def k2_def v_def)
    show ?thesis
    proof (cases "a = z")
      case True
      then show ?thesis using step st e1 n by (auto simp: v_def intro!: exI [of _ ps1])
    next
      case False
      then have az: "unat a < unat z" using "1.prems"(2) by (metis le_neq_implies_less unsigned_word_eqI)
      then have a1: "unat (a + 1) = unat a + 1" using n by (simp add: unat_word_ariths)
      have pa: "pa + PGSIZE < 2 ^ 32" "(unat z - (unat a + 1)) * PGSIZE + PGSIZE = (unat z - unat a) * PGSIZE"
      proof -
        have "unat z - unat a = Suc (unat z - (unat a + 1))" using az by simp
        then show "(unat z - (unat a + 1)) * PGSIZE + PGSIZE = (unat z - unat a) * PGSIZE" by simp
        then show "pa + PGSIZE < 2 ^ 32" using "1.prems"(5) by linarith
      qed
      have free: "\<forall>j. unat (a + 1) \<le> j \<and> j \<le> unat z \<longrightarrow> \<not> present (entry (phys k2) d j)"
        using "1.prems"(3) st(2) e1 n a1 by auto
      have al: "(pa + PGSIZE) mod PGSIZE = 0" using "1.prems"(4) by simp
      have pam: "(pa + PGSIZE) mod 2 ^ 32 = pa + PGSIZE" using pa(1) by simp
      have le: "unat (a + 1) \<le> unat z" using az a1 by simp
      have bound: "pa + PGSIZE + (unat z - unat (a + 1)) * PGSIZE < 2 ^ 32" using pa "1.prems"(5) a1 by simp
      have ok2: "dir_ok kend k2 d ps1" using st(1) by (simp add: grows_def)
      obtain ok k' ps' where r: "mappages_loop d (a + 1) z (pa + PGSIZE) perm k2 = Some (ok, k')"
          "grows kend d k2 ps1 k' ps'" "\<not> ok \<longrightarrow> ps' = []"
          "\<forall>j<2 ^ 20. \<not> (unat (a + 1) \<le> j \<and> j \<le> unat z) \<longrightarrow> entry (phys k') d j = entry (phys k2) d j"
          "ok \<longrightarrow> (\<forall>j. unat (a + 1) \<le> j \<and> j \<le> unat z \<longrightarrow>
             entry (phys k') d j = (pa + PGSIZE + (j - unat (a + 1)) * PGSIZE) OR perm OR PTE_P)"
        using "1.IH" [OF w [folded p_def, symmetric] refl refl, unfolded v_def [symmetric], OF np k2_def False, unfolded pam,
            OF ok2 le free al bound "1.prems"(6)] by blast
      have "entry (phys k') d j = (pa + (j - unat a) * PGSIZE) OR perm OR PTE_P" if "ok" "unat a \<le> j" "j \<le> unat z" for j
      proof (cases "j = unat a")
        case True
        then show ?thesis using r(4) st(2) n a1 az by (simp add: v_def)
      next
        case False
        then have "j - unat a = Suc (j - unat (a + 1))" using that a1 by simp
        then have "pa + (j - unat a) * PGSIZE = pa + PGSIZE + (j - unat (a + 1)) * PGSIZE" by simp
        then show ?thesis using r(5) that False a1 by (simp add: add.assoc)
      qed
      moreover have "\<forall>j<2 ^ 20. \<not> (unat a \<le> j \<and> j \<le> unat z) \<longrightarrow> entry (phys k') d j = entry (phys k) d j"
        using r(4) st(2) e1 a1 az by simp
      moreover have "mappages_loop d a z pa perm k = Some (ok, k')" using step False r(1) pam by simp
      ultimately show ?thesis using grows_trans [OF st(1) r(2)] r(3) by blast
    qed
  qed
qed

section \<open>The kernel part\<close>

lemma unat_page: "q \<le> 2 ^ 20 - 1 \<Longrightarrow> unat (of_nat q :: 20 word) = q"
  by (simp add: unat_of_nat)

lemma map_region:
  assumes ok: "dir_ok kend k d ps" and p: "p mod PGSIZE = 0" and E: "E mod PGSIZE = 0" "p < E" "E \<le> 2 ^ 32" "e = E mod 2 ^ 32"
    and free: "\<forall>j. p div PGSIZE \<le> j \<and> j < E div PGSIZE \<longrightarrow> \<not> present (entry (phys k) d j)" and perm: "perm_ok perm"
  shows "\<exists>ok k' ps'. mappages d p ((e + 2 ^ 32 - p) mod 2 ^ 32) p perm k = Some (ok, k') \<and> grows kend d k ps k' ps' \<and>
    (\<not> ok \<longrightarrow> ps' = []) \<and>
    (\<forall>j<2 ^ 20. \<not> (p div PGSIZE \<le> j \<and> j < E div PGSIZE) \<longrightarrow> entry (phys k') d j = entry (phys k) d j) \<and>
    (ok \<longrightarrow> (\<forall>j. p div PGSIZE \<le> j \<and> j < E div PGSIZE \<longrightarrow> entry (phys k') d j = (j * PGSIZE) OR perm OR PTE_P))"
proof -
  obtain q r where qr: "p = PGSIZE * q" "E = PGSIZE * r" using p E(1) by (auto simp: mod_eq_0_iff_dvd elim!: dvdE)
  then have q: "q < r" "r \<le> 2 ^ 20" using E by (simp_all add: PGSIZE_def)
  have "(p + (e + 2 ^ 32 - p) mod 2 ^ 32 + 2 ^ 32 - 1) mod 2 ^ 32 = E - 1"
  proof (cases "E = 2 ^ 32")
    case True
    show ?thesis
    proof (cases "p = 0")
      case False
      then have "(2 ^ 32 - p) mod 2 ^ 32 = 2 ^ 32 - p" by (intro mod_less) simp
      then show ?thesis using True E(2,4) by simp
    qed (use True E in simp)
  next
    case False
    then have "e = E" using E by simp
    moreover have "(E + 2 ^ 32 - p) mod 2 ^ 32 = E - p"
    proof -
      have eq: "E + 2 ^ 32 - p = E - p + 2 ^ 32" using E by simp
      have "(E - p) mod 2 ^ 32 = E - p" using False E by (intro mod_less) simp
      then show ?thesis unfolding eq by (simp only: mod_add_self2)
    qed
    moreover have "(p + (E - p) + 2 ^ 32 - 1) mod 2 ^ 32 = E - 1"
    proof -
      have eq: "p + (E - p) + 2 ^ 32 - 1 = E - 1 + 2 ^ 32" using E by simp
      have "(E - 1) mod 2 ^ 32 = E - 1" using False E by (intro mod_less) simp
      then show ?thesis unfolding eq by (simp only: mod_add_self2)
    qed
    ultimately show ?thesis by simp
  qed
  moreover have "(E - 1) div PGSIZE = r - 1"
  proof -
    have "E - 1 = PGSIZE * (r - 1) + (PGSIZE - 1)" using q by (simp add: qr PGSIZE_def algebra_simps)
    then show ?thesis by (simp add: PGSIZE_def)
  qed
  ultimately have eq: "mappages d p ((e + 2 ^ 32 - p) mod 2 ^ 32) p perm k = mappages_loop d (of_nat q) (of_nat (r - 1)) p perm k"
    by (simp add: mappages_def qr(1) PGSIZE_def)
  have u: "unat (of_nat q :: 20 word) = q" "unat (of_nat (r - 1) :: 20 word) = r - 1" using q by (intro unat_page; simp)+
  have dv: "p div PGSIZE = q" "E div PGSIZE = r" by (simp_all add: qr PGSIZE_def)
  have bound: "p + (r - 1 - q) * PGSIZE < 2 ^ 32"
  proof -
    have "p + (r - 1 - q) * PGSIZE = (r - 1) * PGSIZE" using q by (simp add: qr diff_mult_distrib algebra_simps PGSIZE_def)
    also have "\<dots> < 2 ^ 32" using q by (simp add: PGSIZE_def)
    finally show ?thesis .
  qed
  have "(p + (j - q) * PGSIZE) = j * PGSIZE" if "q \<le> j" for j
    using that by (simp add: qr PGSIZE_def algebra_simps)
  moreover have "j \<le> r - 1 \<longleftrightarrow> j < r" for j using q by auto
  moreover have "(r - 1) * PGSIZE < 2 ^ 32" using q by (simp add: PGSIZE_def)
  ultimately show ?thesis
    using mappages_loop_spec [OF ok, of "of_nat q" "of_nat (r - 1)" p perm] u q p free bound perm
    unfolding eq dv by (simp cong: conj_cong imp_cong)
qed

text \<open>The entries of the kernel part.\<close>

definition kernel_entry :: "nat \<Rightarrow> nat \<Rightarrow> nat" where
  "kernel_entry kdata j =
     (if j < 0xA0 then 0
      else if j < 0x100 then j * PGSIZE OR PTE_W OR PTE_P
      else if j < kdata div PGSIZE then j * PGSIZE OR 0 OR PTE_P
      else if j < 0x1000 then j * PGSIZE OR PTE_W OR PTE_P
      else if j < 0xFE000 then 0
      else j * PGSIZE OR PTE_W OR PTE_P)"

lemma kernel_entry_protected: "kernel_entry kdata n AND PTE_U = 0"
proof -
  have pg: "n * PGSIZE mod PGSIZE = 0" by (simp add: PGSIZE_def)
  have "(n * PGSIZE OR f OR PTE_P) AND PTE_U = 0" if "f = PTE_W \<or> f = 0" for f
    using entry_bits(4) [OF pg, of f] that by (auto simp: perm_ok_def PTE_W_def PTE_U_def)
  from this [of 0] this [of PTE_W] show ?thesis by (simp add: kernel_entry_def)
qed

lemma setupkvm_full: "kmem_inv kend k [] \<Longrightarrow> setupkvm kdata k = Some (0, k)"
  using kalloc_spec [of kend k "[]"] by (simp add: setupkvm_def)

lemma empty_dir:
  assumes "kmem_inv kend k (d # ps)"
  obtains k1 where "kalloc k = (d, k1)" "d \<noteq> 0" "dir_ok kend (k1\<lparr>phys := memset (phys k1) d 0 PGSIZE\<rparr>) d ps"
    "tables (memset (phys k1) d 0 PGSIZE) d = {}" "\<And>j. j < 2 ^ 20 \<Longrightarrow> entry (memset (phys k1) d 0 PGSIZE) d j = 0"
    "phys k1 = phys k"
proof -
  obtain k1 where k1: "kalloc k = (d, k1)" "kmem_inv kend k1 ps" "phys k1 = phys k" using kalloc_spec [OF assms] by auto
  have d: "page kend d" "d \<notin> set ps" using assms by (auto simp: kmem_inv_def)
  let ?m = "memset (phys k1) d 0 PGSIZE"
  have p: "pde ?m d i = 0" if "i < NPDENTRIES" for i
    using load_memset [OF page_aligned(1) [OF d(1)]] that by (simp add: pde_def NPDENTRIES_def)
  then have t: "tables ?m d = {}" by (auto simp: tables_def present_def)
  have "kmem_inv kend (k1\<lparr>phys := ?m\<rparr>) ps"
    using kmem_inv_unchanged [OF k1(2) unchanged_memset [OF page_aligned(1) [OF d(1)]]] d(2) by simp
  then have "dir_ok kend (k1\<lparr>phys := ?m\<rparr>) d ps" using d t p by (auto simp: dir_ok_def inj_on_def present_def)
  moreover have "entry ?m d j = 0" if "j < 2 ^ 20" for j
    using p [of "j div 1024"] that by (simp add: entry_def present_def NPDENTRIES_def)
  ultimately show thesis using that k1 t page_aligned(2) [OF d(1)] by blast
qed

text \<open>One region after another: mapping \<open>ms\<close> leaves the entries \<open>h\<close>, or uses up all pages.\<close>

definition map_done :: "nat \<Rightarrow> nat \<Rightarrow> kmem \<Rightarrow> nat list \<Rightarrow> (nat \<times> nat \<times> nat) list \<Rightarrow> kmem \<Rightarrow> (nat \<Rightarrow> nat) \<Rightarrow> bool" where
  "map_done kend d k0 ps0 ms k h \<longleftrightarrow> (\<exists>ok k' ps'. map_kernel d ms k = Some (ok, k') \<and> grows kend d k0 ps0 k' ps' \<and>
     (\<not> ok \<longrightarrow> ps' = []) \<and> (ok \<longrightarrow> (\<forall>j<2 ^ 20. entry (phys k') d j = h j)))"

definition add_region :: "nat \<Rightarrow> nat \<Rightarrow> nat \<Rightarrow> (nat \<Rightarrow> nat) \<Rightarrow> nat \<Rightarrow> nat" where
  "add_region lo hi perm f j = (if lo \<le> j \<and> j < hi then j * PGSIZE OR perm OR PTE_P else f j)"

lemma map_done_Nil: "grows kend d k0 ps0 k ps \<Longrightarrow> \<forall>j<2 ^ 20. entry (phys k) d j = h j \<Longrightarrow> map_done kend d k0 ps0 [] k h"
  by (auto simp: map_done_def)

lemma map_done_Cons:
  assumes g0: "grows kend d k0 ps0 k ps" and st: "\<forall>j<2 ^ 20. entry (phys k) d j = f j"
    and p: "p mod PGSIZE = 0" and E: "E mod PGSIZE = 0" "p < E" "E \<le> 2 ^ 32" "e = E mod 2 ^ 32"
    and free: "\<forall>j. p div PGSIZE \<le> j \<and> j < E div PGSIZE \<longrightarrow> f j = 0" and perm: "perm_ok perm"
    and rest: "\<And>k' ps'. grows kend d k0 ps0 k' ps' \<Longrightarrow>
      \<forall>j<2 ^ 20. entry (phys k') d j = add_region (p div PGSIZE) (E div PGSIZE) perm f j \<Longrightarrow> map_done kend d k0 ps0 ms k' h"
  shows "map_done kend d k0 ps0 ((p, e, perm) # ms) k h"
proof -
  have ok: "dir_ok kend k d ps" using g0 by (simp add: grows_def)
  have bound: "j < 2 ^ 20" if "j < E div PGSIZE" for j
  proof -
    have "E div PGSIZE \<le> 2 ^ 32 div PGSIZE" by (rule div_le_mono [OF E(3)])
    then show ?thesis using that by (simp add: PGSIZE_def)
  qed
  then have "\<forall>j. p div PGSIZE \<le> j \<and> j < E div PGSIZE \<longrightarrow> \<not> present (entry (phys k) d j)"
    using st free by (simp add: present_def)
  from map_region [OF ok p E this perm] obtain b k' ps' where
    m: "mappages d p ((e + 2 ^ 32 - p) mod 2 ^ 32) p perm k = Some (b, k')" and g: "grows kend d k ps k' ps'"
    and full: "\<not> b \<longrightarrow> ps' = []"
    and same: "\<forall>j<2 ^ 20. \<not> (p div PGSIZE \<le> j \<and> j < E div PGSIZE) \<longrightarrow> entry (phys k') d j = entry (phys k) d j"
    and new: "b \<longrightarrow> (\<forall>j. p div PGSIZE \<le> j \<and> j < E div PGSIZE \<longrightarrow> entry (phys k') d j = (j * PGSIZE) OR perm OR PTE_P)"
    by blast
  have g': "grows kend d k0 ps0 k' ps'" by (rule grows_trans [OF g0 g])
  show ?thesis
  proof (cases b)
    case True
    then have "\<forall>j<2 ^ 20. entry (phys k') d j = add_region (p div PGSIZE) (E div PGSIZE) perm f j"
      using same new st by (simp add: add_region_def)
    from rest [OF g' this] show ?thesis using m True by (simp add: map_done_def)
  next
    case False
    then show ?thesis using m full g' by (auto simp: map_done_def)
  qed
qed

lemma setupkvm_spec:
  assumes inv: "kmem_inv kend k (d # ps)" and kd: "kdata mod PGSIZE = 0" "0x100000 < kdata" "kdata < PHYSTOP"
  shows "\<exists>r k' ps' us. setupkvm kdata k = Some (r, k') \<and> ps = us @ ps' \<and> kmem_inv kend k' ps' \<and>
    unchanged (insert d (set us)) (phys k) (phys k') \<and> (r = 0 \<longrightarrow> ps' = []) \<and> length us \<le> NPDENTRIES \<and>
    (r \<noteq> 0 \<longrightarrow> r = d \<and> dir_ok kend k' d ps' \<and> tables (phys k') d = set us \<and>
       (\<forall>j<2 ^ 20. entry (phys k') d j = kernel_entry kdata j))"
proof -
  from empty_dir [OF inv] obtain k1 where k1: "kalloc k = (d, k1)" "d \<noteq> 0"
    "dir_ok kend (k1\<lparr>phys := memset (phys k1) d 0 PGSIZE\<rparr>) d ps" "tables (memset (phys k1) d 0 PGSIZE) d = {}"
    "\<And>j. j < 2 ^ 20 \<Longrightarrow> entry (memset (phys k1) d 0 PGSIZE) d j = 0" "phys k1 = phys k" by blast
  let ?k = "k1\<lparr>phys := memset (phys k1) d 0 PGSIZE\<rparr>"
  obtain q where q: "kdata = PGSIZE * q" using kd(1) by (auto simp: mod_eq_0_iff_dvd elim: dvdE)
  then have qb: "0x100 < q" "q < 0x1000" "kdata div PGSIZE = q" using kd by (simp_all add: PGSIZE_def PHYSTOP_def)
  note cs = PGSIZE_def PHYSTOP_def USERTOP_def
  define f1 where "f1 = add_region 0xA0 0x100 PTE_W (\<lambda>_. 0)"
  define f2 where "f2 = add_region 0x100 q 0 f1"
  define f3 where "f3 = add_region q 0x1000 PTE_W f2"
  define f4 where "f4 = add_region 0xFE000 0x100000 PTE_W f3"
  note fs = f1_def f2_def f3_def f4_def add_region_def
  let ?done = "map_done kend d ?k ps"
  have s4: "?done [(0xFE000000, 0, PTE_W)] k4 f4"
    if "grows kend d ?k ps k4 ps4" "\<forall>j<2 ^ 20. entry (phys k4) d j = f3 j" for k4 ps4
    by (rule map_done_Cons [where E = "2 ^ 32", OF that])
      (use qb in \<open>auto simp: cs perm_ok_def fs intro!: map_done_Nil\<close>)
  have s3: "?done [(kdata, PHYSTOP, PTE_W), (0xFE000000, 0, PTE_W)] k3 f4"
    if "grows kend d ?k ps k3 ps3" "\<forall>j<2 ^ 20. entry (phys k3) d j = f2 j" for k3 ps3
    by (rule map_done_Cons [where E = PHYSTOP, OF that])
      (use qb kd s4 in \<open>auto simp: cs perm_ok_def fs\<close>)
  have s2: "?done [(0x100000, kdata, 0), (kdata, PHYSTOP, PTE_W), (0xFE000000, 0, PTE_W)] k2 f4"
    if "grows kend d ?k ps k2 ps2" "\<forall>j<2 ^ 20. entry (phys k2) d j = f1 j" for k2 ps2
    by (rule map_done_Cons [where E = kdata, OF that])
      (use qb kd s3 in \<open>auto simp: cs perm_ok_def fs\<close>)
  have s1: "?done (kmap kdata) ?k f4" unfolding kmap_def
    by (rule map_done_Cons [where E = "0x100000" and f = "\<lambda>_. 0", OF grows_refl [OF k1(3)]])
      (use qb kd k1(5) s2 in \<open>auto simp: cs perm_ok_def fs\<close>)
  have f4: "f4 j = kernel_entry kdata j" if "j < 2 ^ 20" for j
    using that qb by (auto simp: fs kernel_entry_def)
  from s1 obtain ok k' ps' where m: "map_kernel d (kmap kdata) ?k = Some (ok, k')" and g: "grows kend d ?k ps k' ps'"
    and full: "\<not> ok \<longrightarrow> ps' = []" and e: "ok \<longrightarrow> (\<forall>j<2 ^ 20. entry (phys k') d j = f4 j)"
    by (auto simp: map_done_def)
  from g obtain us where us: "ps = us @ ps'" "tables (phys k') d = set us" using k1(4) by (auto simp: grows_def)
  have "distinct us" using inv us(1) by (simp add: kmem_inv_def)
  then have "length us \<le> NPDENTRIES" using card_tables [of "phys k'" d] distinct_card [of us] us(2) by simp
  moreover have "setupkvm kdata k = Some (if ok then d else 0, k')" using k1(1,2) m by (simp add: setupkvm_def)
  moreover have "unchanged (insert d (set us)) (phys k) (phys k')"
  proof -
    have "d mod PGSIZE = 0" using inv by (simp add: kmem_inv_def page_def)
    from unchanged_trans [OF unchanged_memset [OF this, of "phys k1" 0], of "insert d (set us)"] show ?thesis
      using g us k1(6) by (simp add: grows_def insert_absorb)
  qed
  ultimately show ?thesis using g us full e f4 k1(2) by (auto simp: grows_def dir_ok_def)
qed

end
