(* ===== verification/VmSpace.thy ===== *)
theory VmSpace
  imports VmMap
begin

text \<open>
  The user part of an address space: the partial map from addresses to bytes that a page directory stands for, and what
  \<open>allocuvm\<close>, \<open>deallocuvm\<close>, \<open>freevm\<close>, \<open>copyuvm\<close> and \<open>copyout\<close> do to it.
\<close>

definition uframe :: "memory \<Rightarrow> nat \<Rightarrow> nat \<Rightarrow> nat" where
  "uframe m d n = PTE_ADDR (entry m d n)"

text \<open>The user pages that are mapped: there are 160 below \<open>USERTOP\<close>.\<close>

definition upages :: "memory \<Rightarrow> nat \<Rightarrow> nat set" where
  "upages m d = {n. n < USERTOP div PGSIZE \<and> present (entry m d n)}"

definition frames :: "memory \<Rightarrow> nat \<Rightarrow> nat set" where
  "frames m d = uframe m d ` upages m d"

definition owned :: "memory \<Rightarrow> nat \<Rightarrow> nat set" where
  "owned m d = insert d (tables m d \<union> frames m d)"

definition space_ok :: "nat \<Rightarrow> nat \<Rightarrow> kmem \<Rightarrow> nat \<Rightarrow> nat list \<Rightarrow> bool" where
  "space_ok kend kdata k d ps \<longleftrightarrow> dir_ok kend k d ps \<and> present (pde (phys k) d 0) \<and>
     (\<forall>n<2 ^ 20. USERTOP div PGSIZE \<le> n \<longrightarrow> entry (phys k) d n = kernel_entry kdata n) \<and>
     (\<forall>n\<in>upages (phys k) d. entry (phys k) d n AND PTE_U \<noteq> 0) \<and>
     inj_on (uframe (phys k) d) (upages (phys k) d) \<and> frames (phys k) d \<inter> set ps = {} \<and>
     frames (phys k) d \<inter> insert d (tables (phys k) d) = {} \<and> (\<forall>f\<in>frames (phys k) d. page kend f)"

text \<open>The memory of the user.\<close>

definition umem :: "memory \<Rightarrow> nat \<Rightarrow> nat \<Rightarrow> u8 option" where
  "umem m d va = (if va div PGSIZE \<in> upages m d then Some (m (uframe m d (va div PGSIZE) + va mod PGSIZE)) else None)"

lemma space_okD:
  assumes "space_ok kend kdata k d ps"
  shows "dir_ok kend k d ps" "present (pde (phys k) d 0)" "n \<in> upages (phys k) d \<Longrightarrow> entry (phys k) d n AND PTE_U \<noteq> 0"
    "inj_on (uframe (phys k) d) (upages (phys k) d)" "frames (phys k) d \<inter> set ps = {}"
    "frames (phys k) d \<inter> insert d (tables (phys k) d) = {}" "f \<in> frames (phys k) d \<Longrightarrow> page kend f"
    "kmem_inv kend k ps" "n < 2 ^ 20 \<Longrightarrow> USERTOP div PGSIZE \<le> n \<Longrightarrow> entry (phys k) d n = kernel_entry kdata n"
  using assms by (auto simp: space_ok_def dir_ok_def)

lemma npages: "USERTOP div PGSIZE = 160"
  by (simp add: USERTOP_def PGSIZE_def)

lemma user_pde: "n < 160 \<Longrightarrow> n div 1024 = (0::nat)"
  by simp

lemma upagesD: "n \<in> upages m d \<Longrightarrow> n < 160 \<and> present (entry m d n)"
  by (simp add: upages_def npages)

lemma owned_page: "space_ok kend kdata k d ps \<Longrightarrow> f \<in> owned (phys k) d \<Longrightarrow> page kend f \<and> f \<notin> set ps"
  using space_okD(1,5,7) by (fastforce simp: owned_def dir_ok_def)

text \<open>An address space only depends on its own pages.\<close>

lemma space_ok_unchanged:
  assumes ok: "space_ok kend kdata k d ps" and u: "unchanged S (phys k) m"
    and S: "d \<notin> S" "S \<inter> tables (phys k) d = {}" "S \<inter> set ps = {}"
  shows "space_ok kend kdata (k\<lparr>phys := m\<rparr>) d ps" "upages m d = upages (phys k) d" "tables m d = tables (phys k) d"
    "frames m d = frames (phys k) d" "owned m d = owned (phys k) d"
    "n < 2 ^ 20 \<Longrightarrow> entry m d n = entry (phys k) d n"
    "S \<inter> frames (phys k) d = {} \<Longrightarrow> umem m d = umem (phys k) d"
proof -
  note c = dir_ok_unchanged [OF space_okD(1) [OF ok] u S]
  show e: "entry m d n = entry (phys k) d n" if "n < 2 ^ 20" for n using c(3) that .
  show up: "upages m d = upages (phys k) d" using e by (auto simp: upages_def npages)
  show t: "tables m d = tables (phys k) d" by (rule c(2))
  have uf: "uframe m d n = uframe (phys k) d n" if "n \<in> upages (phys k) d" for n
    using e upagesD [OF that] by (simp add: uframe_def)
  then show fr: "frames m d = frames (phys k) d" by (simp add: frames_def up)
  show "owned m d = owned (phys k) d" by (simp add: owned_def fr t)
  have "pde m d 0 = pde (phys k) d 0" unfolding pde_def
    using S page_aligned(1) [OF dir_okD(2) [OF space_okD(1) [OF ok]]] unchanged_word [OF u, of d 0] by simp
  moreover have "inj_on (uframe m d) (upages (phys k) d)"
    using space_okD(4) [OF ok] uf by (simp add: inj_on_def)
  moreover have "entry m d n AND PTE_U \<noteq> 0" if "n \<in> upages (phys k) d" for n
    using e [of n] upagesD [OF that] space_okD(3) [OF ok that] by simp
  ultimately show "space_ok kend kdata (k\<lparr>phys := m\<rparr>) d ps"
    using ok c(1) e fr t up by (auto simp: space_ok_def npages)
  assume Sf: "S \<inter> frames (phys k) d = {}"
  show "umem m d = umem (phys k) d"
  proof
    fix va
    show "umem m d va = umem (phys k) d va"
    proof (cases "va div PGSIZE \<in> upages (phys k) d")
      case True
      then have f: "uframe (phys k) d (va div PGSIZE) \<in> frames (phys k) d" by (simp add: frames_def)
      have "m (uframe (phys k) d (va div PGSIZE) + va mod PGSIZE) = phys k (uframe (phys k) d (va div PGSIZE) + va mod PGSIZE)"
        using f Sf space_okD(7) [OF ok f] page_aligned(1) by (intro unchanged_byte [OF u]) (auto simp: PGSIZE_def)
      then show ?thesis using True uf up by (simp add: umem_def)
    qed (simp add: umem_def up)
  qed
qed

text \<open>The free list alone: another owner freed or took pages.\<close>

lemma space_ok_free:
  assumes "space_ok kend kdata k d ps" "phys k' = phys k" "kmem_inv kend k' ps'" "owned (phys k) d \<inter> set ps' = {}"
  shows "space_ok kend kdata k' d ps'"
  using assms by (auto simp: space_ok_def dir_ok_def owned_def)

section \<open>One user page\<close>

lemma walk_user:
  assumes "space_ok kend kdata k d ps" "n < 160"
  shows "walkpgdir d (n * PGSIZE) c k = (Some (PTE_ADDR (pde (phys k) d 0) + 4 * n), k)"
    "load32 (phys k) (PTE_ADDR (pde (phys k) d 0) + 4 * n) = entry (phys k) d n"
  using walk_present [of n k d] space_okD(2) [OF assms(1)] assms(2) by simp_all

text \<open>Storing an entry for a user page.\<close>

definition set_pte :: "nat \<Rightarrow> nat \<Rightarrow> nat \<Rightarrow> kmem \<Rightarrow> kmem" where
  "set_pte d n v k = k\<lparr>phys := store32 (phys k) (PTE_ADDR (pde (phys k) d 0) + 4 * n) v\<rparr>"

lemma set_pte_spec:
  assumes ok: "dir_ok kend k d ps" "present (pde (phys k) d 0)" and n: "n < 160" and v: "v < 2 ^ 32"
  shows "dir_ok kend (set_pte d n v k) d ps" "tables (phys (set_pte d n v k)) d = tables (phys k) d"
    "j < 2 ^ 20 \<Longrightarrow> entry (phys (set_pte d n v k)) d j = (if j = n then v else entry (phys k) d j)"
    "pde (phys (set_pte d n v k)) d 0 = pde (phys k) d 0"
    "unchanged (tables (phys k) d) (phys k) (phys (set_pte d n v k))"
    "freelist (set_pte d n v k) = freelist k"
proof -
  have m: "phys (set_pte d n v k) =
      store32 (phys k) (PTE_ADDR (pde (phys k) d (n div 1024)) + 4 * (n mod 1024)) v" using n by (simp add: set_pte_def)
  have "n < 2 ^ 20" "present (pde (phys k) d (n div 1024))" using n ok by simp_all
  note st = store_entry [OF ok(1) this v m]
  show "dir_ok kend (set_pte d n v k) d ps" using st(1) by (simp add: set_pte_def)
  show "tables (phys (set_pte d n v k)) d = tables (phys k) d"
    "j < 2 ^ 20 \<Longrightarrow> entry (phys (set_pte d n v k)) d j = (if j = n then v else entry (phys k) d j)"
    using st(2,3) by auto
  show "pde (phys (set_pte d n v k)) d 0 = pde (phys k) d 0" using st(4) [of 0] by (simp add: NPDENTRIES_def)
  show "unchanged (tables (phys k) d) (phys k) (phys (set_pte d n v k))"
    using unchanged_mono [OF st(5)] tables_memb [OF _ ok(2)] n by (simp add: NPDENTRIES_def)
qed (simp add: set_pte_def)

text \<open>Mapping a page that is not in use by the space.\<close>

definition WU :: nat where "WU = (PTE_W OR PTE_U)"

lemma mappages_user:
  assumes ok: "space_ok kend kdata k d ps" and n: "n < 160" "n \<notin> upages (phys k) d"
  shows "mappages d (n * PGSIZE) PGSIZE mem (PTE_W OR PTE_U) k = Some (True, set_pte d n (mem OR WU OR PTE_P) k)"
proof -
  have "(n * PGSIZE + PGSIZE + 2 ^ 32 - 1) mod 2 ^ 32 div PGSIZE = n"
  proof -
    have eq: "n * PGSIZE + PGSIZE + 2 ^ 32 - 1 = n * PGSIZE + (PGSIZE - 1) + 2 ^ 32" by (simp add: PGSIZE_def)
    have "(n * PGSIZE + (PGSIZE - 1)) mod 2 ^ 32 = n * PGSIZE + (PGSIZE - 1)" using n(1) by (intro mod_less) (simp add: PGSIZE_def)
    then show ?thesis unfolding eq by (simp only: mod_add_self2) (simp add: PGSIZE_def)
  qed
  moreover have "n * PGSIZE div PGSIZE = n" by (simp add: PGSIZE_def)
  ultimately have "mappages d (n * PGSIZE) PGSIZE mem (PTE_W OR PTE_U) k = mappages_loop d (of_nat n) (of_nat n) mem WU k"
    by (simp add: mappages_def WU_def)
  moreover have u: "unat (of_nat n :: 20 word) = n" using n(1) by (simp add: unat_of_nat)
  moreover have "\<not> present (entry (phys k) d n)" using n by (auto simp: upages_def npages)
  moreover have "mappages_loop d (of_nat n) (of_nat n) mem WU k = Some (True, set_pte d n (mem OR WU OR PTE_P) k)"
    using walk_user [OF ok n(1)] \<open>\<not> present (entry (phys k) d n)\<close>
    by (subst mappages_loop.simps) (simp add: Let_def u set_pte_def)
  ultimately show ?thesis by simp
qed

lemma map_user:
  assumes ok: "space_ok kend kdata k d ps" and n: "n < 160" "n \<notin> upages (phys k) d"
    and f: "page kend f" "f \<notin> owned (phys k) d" "f \<notin> set ps"
  defines "k' \<equiv> set_pte d n (f OR WU OR PTE_P) k"
  shows "space_ok kend kdata k' d ps" "upages (phys k') d = insert n (upages (phys k) d)"
    "owned (phys k') d = insert f (owned (phys k) d)" "unchanged (tables (phys k) d) (phys k) (phys k')"
    "umem (phys k') d va = (if va div PGSIZE = n then Some (phys k (f + va mod PGSIZE)) else umem (phys k) d va)"
    "uframe (phys k') d n = f" "freelist k' = freelist k" "tables (phys k') d = tables (phys k) d"
    "j \<in> upages (phys k) d \<Longrightarrow> uframe (phys k') d j = uframe (phys k) d j"
proof -
  have pk: "perm_ok WU" by (simp add: perm_ok_def WU_def)
  note fa = page_aligned(1,3) [OF f(1)]
  have v: "f OR WU OR PTE_P < 2 ^ 32" using pte_less [OF fa(1) _ pk] fa(2) by (simp add: PHYSTOP_def)
  note eb = entry_bits [OF fa(1) pk]
  note st = set_pte_spec [OF space_okD(1,2) [OF ok] n(1) v, folded k'_def]
  have e: "entry (phys k') d j = (if j = n then f OR WU OR PTE_P else entry (phys k) d j)" if "j < 2 ^ 20" for j
    by (rule st(3) [OF that])
  show up: "upages (phys k') d = insert n (upages (phys k) d)"
    using e eb(2) n by (auto simp: upages_def npages)
  have un: "uframe (phys k') d n = f" using e [of n] n eb(3) by (simp add: uframe_def)
  then show "uframe (phys k') d n = f" .
  have uj: "uframe (phys k') d j = uframe (phys k) d j" if "j \<in> upages (phys k) d" for j
    using e [of j] n that upagesD [OF that] by (auto simp: uframe_def)
  then show "j \<in> upages (phys k) d \<Longrightarrow> uframe (phys k') d j = uframe (phys k) d j" .
  have fr: "frames (phys k') d = insert f (frames (phys k) d)" using un uj by (auto simp: frames_def up)
  show "owned (phys k') d = insert f (owned (phys k) d)" by (auto simp: owned_def fr st(2))
  show u: "unchanged (tables (phys k) d) (phys k) (phys k')" by (rule st(5))
  show "freelist k' = freelist k" by (rule st(6))
  show "tables (phys k') d = tables (phys k) d" by (rule st(2))
  have "inj_on (uframe (phys k') d) (upages (phys k') d)"
    unfolding up
  proof (subst inj_on_insert, intro conjI)
    show "inj_on (uframe (phys k') d) (upages (phys k) d)" using space_okD(4) [OF ok] uj by (simp add: inj_on_def)
    show "uframe (phys k') d n \<notin> uframe (phys k') d ` (upages (phys k) d - {n})"
      using f(2) uj by (auto simp: un owned_def frames_def)
  qed
  moreover have "\<forall>j\<in>upages (phys k') d. entry (phys k') d j AND PTE_U \<noteq> 0"
  proof
    fix j assume j: "j \<in> upages (phys k') d"
    then have "j < 2 ^ 20" using upagesD by fastforce
    then show "entry (phys k') d j AND PTE_U \<noteq> 0"
      using e space_okD(3) [OF ok, of j] j eb(4) n up by (auto simp: WU_def PTE_W_def PTE_U_def)
  qed
  moreover have "\<forall>j<2 ^ 20. USERTOP div PGSIZE \<le> j \<longrightarrow> entry (phys k') d j = kernel_entry kdata j"
    using e n space_okD(9) [OF ok] by (simp add: npages)
  ultimately show "space_ok kend kdata k' d ps"
    using st(1,2,4) ok fr f by (auto simp: space_ok_def owned_def)
  have "phys k' (uframe (phys k) d j + i) = phys k (uframe (phys k) d j + i)" if "j \<in> upages (phys k) d" "i < PGSIZE" for i j
  proof -
    have "uframe (phys k) d j \<in> frames (phys k) d" using that by (simp add: frames_def)
    then show ?thesis using space_okD(6,7) [OF ok] page_aligned(1) by (intro unchanged_byte [OF u _ that(2)]) auto
  qed
  moreover have "phys k' (f + i) = phys k (f + i)" if "i < PGSIZE" for i
    using f by (intro unchanged_byte [OF u fa(1) that]) (auto simp: owned_def)
  ultimately show "umem (phys k') d va = (if va div PGSIZE = n then Some (phys k (f + va mod PGSIZE)) else umem (phys k) d va)"
    using un uj n by (auto simp: umem_def up PGSIZE_def)
qed

text \<open>Freeing a page and clearing its entry.\<close>

lemma owned_frames: "space_ok kend kdata k d ps \<Longrightarrow> n \<in> upages (phys k) d \<Longrightarrow>
    uframe (phys k) d n \<in> frames (phys k) d \<and> page kend (uframe (phys k) d n) \<and> uframe (phys k) d n \<notin> set ps \<and>
    uframe (phys k) d n \<noteq> d \<and> uframe (phys k) d n \<notin> tables (phys k) d"
proof -
  assume ok: "space_ok kend kdata k d ps" and n: "n \<in> upages (phys k) d"
  have f: "uframe (phys k) d n \<in> frames (phys k) d" using n by (simp add: frames_def)
  then show ?thesis using space_okD(5,6) [OF ok] space_okD(7) [OF ok f] by auto
qed

lemma present_0 [simp]: "\<not> present 0"
  by (simp add: present_def)

lemma unmap_user:
  assumes ok: "space_ok kend kdata k d ps" and n: "n \<in> upages (phys k) d"
  defines "f \<equiv> uframe (phys k) d n"
  shows "\<exists>k1. kfree kend k f = Some k1 \<and> PTE_ADDR (pde (phys k1) d 0) = PTE_ADDR (pde (phys k) d 0) \<and>
    (let k' = set_pte d n 0 k1 in space_ok kend kdata k' d (f # ps) \<and> upages (phys k') d = upages (phys k) d - {n} \<and>
       tables (phys k') d = tables (phys k) d \<and> unchanged (insert f (tables (phys k) d)) (phys k) (phys k') \<and>
       (\<forall>j\<in>upages (phys k) d - {n}. uframe (phys k') d j = uframe (phys k) d j))"
proof -
  have f: "f \<in> frames (phys k) d" "page kend f" "f \<notin> set ps" "f \<noteq> d" "f \<notin> tables (phys k) d"
    using owned_frames [OF ok n] by (simp_all add: f_def)
  have n160: "n < 160" "n < 2 ^ 20" using upagesD [OF n] by auto
  obtain k1 where k1: "kfree kend k f = Some k1" "kmem_inv kend k1 (f # ps)"
    "\<forall>a. a \<notin> {f..<f + PGSIZE} \<longrightarrow> phys k1 a = phys k a"
    using kfree_spec [OF space_okD(8) [OF ok] f(2,3)] by blast
  have u1: "unchanged {f} (phys k) (phys k1)"
    using k1(3) page_of [OF page_aligned(1) [OF f(2)]] in_page [OF page_aligned(1) [OF f(2)]] by (auto simp: unchanged_def)
  note c = dir_ok_unchanged [OF space_okD(1) [OF ok] u1]
  have d1: "dir_ok kend k1 d (f # ps)" "tables (phys k1) d = tables (phys k) d"
    using c(1,2) f k1(2) by (auto simp: dir_ok_def)
  have p1: "pde (phys k1) d 0 = pde (phys k) d 0" unfolding pde_def
    using unchanged_word [OF u1 page_aligned(1) [OF dir_okD(2) [OF d1(1)]], of 0] f by simp
  define k' where "k' = set_pte d n 0 k1"
  have pr: "present (pde (phys k1) d 0)" using p1 space_okD(2) [OF ok] by simp
  note st = set_pte_spec [OF d1(1) pr n160(1), of 0, folded k'_def, simplified]
  have e: "entry (phys k') d j = (if j = n then 0 else entry (phys k) d j)" if "j < 2 ^ 20" for j
    using st(3) [of j] c(3) [of j] that f by simp
  have up: "upages (phys k') d = upages (phys k) d - {n}"
    using e by (auto simp: upages_def npages split: if_splits)
  have uj: "uframe (phys k') d j = uframe (phys k) d j" if "j \<in> upages (phys k) d - {n}" for j
  proof -
    have "j < 160" using that upagesD by blast
    then show ?thesis using e [of j] that by (simp add: uframe_def)
  qed
  have fr: "frames (phys k') d = frames (phys k) d - {f}"
  proof -
    have "frames (phys k') d = uframe (phys k) d ` (upages (phys k) d - {n})"
      unfolding frames_def up using uj by (intro image_cong) auto
    also have "\<dots> = frames (phys k) d - {f}"
      using space_okD(4) [OF ok] n by (auto simp: frames_def f_def inj_on_def)
    finally show ?thesis .
  qed
  have "inj_on (uframe (phys k') d) (upages (phys k') d)"
    using space_okD(4) [OF ok] uj by (simp add: up inj_on_def)
  moreover have "\<forall>j\<in>upages (phys k') d. entry (phys k') d j AND PTE_U \<noteq> 0"
  proof
    fix j assume j: "j \<in> upages (phys k') d"
    then have "j < 2 ^ 20" using upagesD by fastforce
    then show "entry (phys k') d j AND PTE_U \<noteq> 0" using e space_okD(3) [OF ok, of j] j up by auto
  qed
  moreover have "\<forall>j<2 ^ 20. USERTOP div PGSIZE \<le> j \<longrightarrow> entry (phys k') d j = kernel_entry kdata j"
    using e n160 space_okD(9) [OF ok] by (simp add: npages)
  ultimately have "space_ok kend kdata k' d (f # ps)"
    using st(1,2,4) d1 pr ok fr by (auto simp: space_ok_def)
  moreover have "unchanged (insert f (tables (phys k) d)) (phys k) (phys k')"
    using unchanged_trans [OF u1 st(5)] d1(2) by simp
  ultimately show ?thesis using k1(1) p1 up st(2) d1(2) uj by (intro exI [of _ k1]) (simp add: Let_def k'_def [symmetric])
qed

section \<open>Shrinking\<close>

definition pages_up :: "nat \<Rightarrow> nat" where "pages_up sz = (sz + PGSIZE - 1) div PGSIZE"

lemma less_pages_up: "q * PGSIZE < sz \<longleftrightarrow> q < pages_up sz"
proof -
  have "q < (sz + PGSIZE - 1) div PGSIZE \<longleftrightarrow> (q + 1) * PGSIZE \<le> sz + PGSIZE - 1"
    by (simp add: less_eq_div_iff_mult_less_eq Suc_le_eq [symmetric] PGSIZE_def)
  also have "\<dots> \<longleftrightarrow> q * PGSIZE < sz" by (auto simp: PGSIZE_def)
  finally show ?thesis by (simp add: pages_up_def)
qed

lemma pages_up_le: "sz \<le> USERTOP \<Longrightarrow> pages_up sz \<le> 160"
  by (simp add: pages_up_def USERTOP_def PGSIZE_def)

lemma PGROUNDUP_pages: "sz \<le> USERTOP \<Longrightarrow> PGROUNDUP sz = pages_up sz * PGSIZE"
  by (simp add: PGROUNDUP_def pages_up_def USERTOP_def PGSIZE_def)

text \<open>What is left of a space whose pages from \<open>lo\<close> up to \<open>hi\<close> are given back.\<close>

definition gave_back :: "nat \<Rightarrow> nat \<Rightarrow> nat \<Rightarrow> nat \<Rightarrow> nat \<Rightarrow> kmem \<Rightarrow> nat list \<Rightarrow> kmem \<Rightarrow> bool" where
  "gave_back kend kdata d lo hi k ps k' \<longleftrightarrow>
     (let D = {n \<in> upages (phys k) d. lo \<le> n \<and> n < hi}; F = uframe (phys k) d ` D in
      \<exists>ps'. space_ok kend kdata k' d ps' \<and> set ps' = set ps \<union> F \<and> upages (phys k') d = upages (phys k) d - D \<and>
        tables (phys k') d = tables (phys k) d \<and> unchanged (tables (phys k) d \<union> F) (phys k) (phys k') \<and>
        (\<forall>j\<in>upages (phys k') d. uframe (phys k') d j = uframe (phys k) d j))"

lemma deallocuvm_loop_spec:
  assumes "space_ok kend kdata k d ps" "oldsz \<le> USERTOP"
  shows "\<exists>k'. deallocuvm_loop kend d (q * PGSIZE) oldsz k = Some k' \<and> gave_back kend kdata d q (pages_up oldsz) k ps k'"
  using assms(1)
proof (induction "pages_up oldsz - q" arbitrary: q k ps)
  case 0
  then have "\<not> q < pages_up oldsz" by simp
  moreover from this have D: "{n \<in> upages (phys k) d. q \<le> n \<and> n < pages_up oldsz} = {}" by auto
  ultimately show ?case using 0
    by (subst deallocuvm_loop.simps) (simp add: less_pages_up gave_back_def D Let_def exI [of _ ps])
next
  case (Suc x)
  have q: "q < pages_up oldsz" "q < 160" using Suc(2) pages_up_le [OF assms(2)] by auto
  have x: "x = pages_up oldsz - Suc q" "q * PGSIZE + PGSIZE = Suc q * PGSIZE" using Suc(2) by auto
  note w = walk_user [OF Suc.prems q(2)]
  show ?case
  proof (cases "q \<in> upages (phys k) d")
    case False
    then have "\<not> present (entry (phys k) d q)" using q by (simp add: upages_def npages)
    then have "deallocuvm_loop kend d (q * PGSIZE) oldsz k = deallocuvm_loop kend d (Suc q * PGSIZE) oldsz k"
      using w q x(2) by (subst deallocuvm_loop.simps) (simp add: less_pages_up del: mult_Suc)
    moreover have "{n \<in> upages (phys k) d. Suc q \<le> n \<and> n < pages_up oldsz} = {n \<in> upages (phys k) d. q \<le> n \<and> n < pages_up oldsz}"
      using False by (auto simp: Suc_le_eq le_less)
    ultimately show ?thesis using Suc.hyps(1) [OF x(1) Suc.prems] by (simp add: gave_back_def)
  next
    case True
    define f where "f = uframe (phys k) d q"
    from unmap_user [OF Suc.prems True] obtain k1 where k1: "kfree kend k f = Some k1"
      "PTE_ADDR (pde (phys k1) d 0) = PTE_ADDR (pde (phys k) d 0)"
      and sp: "space_ok kend kdata (set_pte d q 0 k1) d (f # ps)"
      and up: "upages (phys (set_pte d q 0 k1)) d = upages (phys k) d - {q}"
      and tb: "tables (phys (set_pte d q 0 k1)) d = tables (phys k) d"
      and u: "unchanged (insert f (tables (phys k) d)) (phys k) (phys (set_pte d q 0 k1))"
      and uf: "\<forall>j\<in>upages (phys k) d - {q}. uframe (phys (set_pte d q 0 k1)) d j = uframe (phys k) d j"
      by (auto simp: Let_def f_def)
    define k2 where "k2 = set_pte d q 0 k1"
    note sp = sp [folded k2_def] and up = up [folded k2_def] and tb = tb [folded k2_def] and u = u [folded k2_def]
      and uf = uf [folded k2_def]
    have pr: "present (entry (phys k) d q)" using True upagesD by blast
    have f0: "PTE_ADDR (entry (phys k) d q) = f" "f \<noteq> 0" using owned_frames [OF Suc.prems True] page_aligned(2)
      by (auto simp: f_def uframe_def)
    have step: "deallocuvm_loop kend d (q * PGSIZE) oldsz k = deallocuvm_loop kend d (Suc q * PGSIZE) oldsz k2"
      using w q x(2) pr f0 k1 by (subst deallocuvm_loop.simps) (simp add: less_pages_up Let_def k2_def set_pte_def del: mult_Suc)
    from Suc.hyps(1) [OF x(1) sp] obtain k' where k': "deallocuvm_loop kend d (Suc q * PGSIZE) oldsz k2 = Some k'"
      and g: "gave_back kend kdata d (Suc q) (pages_up oldsz) k2 (f # ps) k'" by blast
    define D where "D = {n \<in> upages (phys k) d. q \<le> n \<and> n < pages_up oldsz}"
    define D' where "D' = {n \<in> upages (phys k2) d. Suc q \<le> n \<and> n < pages_up oldsz}"
    have D: "D = insert q D'" "q \<notin> D'" using True q by (auto simp: D_def D'_def up)
    have F: "uframe (phys k2) d ` D' = uframe (phys k) d ` D'" using uf by (intro image_cong) (auto simp: D'_def up)
    from g obtain ps' where ps': "space_ok kend kdata k' d ps'" "set ps' = insert f (set ps) \<union> uframe (phys k) d ` D'"
      "upages (phys k') d = upages (phys k2) d - D'" "tables (phys k') d = tables (phys k2) d"
      "unchanged (tables (phys k2) d \<union> uframe (phys k) d ` D') (phys k2) (phys k')"
      "\<forall>j\<in>upages (phys k') d. uframe (phys k') d j = uframe (phys k2) d j"
      unfolding gave_back_def Let_def D'_def [symmetric] F by auto
    have "unchanged (tables (phys k) d \<union> uframe (phys k) d ` D) (phys k) (phys k')"
      using unchanged_trans [OF u ps'(5)] by (rule unchanged_mono) (auto simp: D tb f_def)
    moreover have "set ps' = set ps \<union> uframe (phys k) d ` D" using ps'(2) by (auto simp: D f_def)
    moreover have "upages (phys k') d = upages (phys k) d - D" using ps'(3) by (auto simp: D up)
    moreover have "\<forall>j\<in>upages (phys k') d. uframe (phys k') d j = uframe (phys k) d j" using ps'(3,6) uf up by auto
    ultimately have "gave_back kend kdata d q (pages_up oldsz) k ps k'"
      using ps'(1,4) tb by (auto simp: gave_back_def Let_def D_def [symmetric])
    then show ?thesis using step k' by simp
  qed
qed

text \<open>What the user sees of it.\<close>

lemma in_pages: "lo * PGSIZE \<le> va \<and> va < hi * PGSIZE \<longleftrightarrow> lo \<le> va div PGSIZE \<and> va div PGSIZE < hi"
  by (simp add: less_eq_div_iff_mult_less_eq div_less_iff_less_mult PGSIZE_def)

lemma gave_back_umem:
  assumes g: "gave_back kend kdata d lo hi k ps k'" and ok: "space_ok kend kdata k d ps"
  shows "umem (phys k') d va = (if lo * PGSIZE \<le> va \<and> va < hi * PGSIZE then None else umem (phys k) d va)"
proof -
  define D where "D = {n \<in> upages (phys k) d. lo \<le> n \<and> n < hi}"
  from g have up: "upages (phys k') d = upages (phys k) d - D"
    and u: "unchanged (tables (phys k) d \<union> uframe (phys k) d ` D) (phys k) (phys k')"
    and uf: "\<forall>j\<in>upages (phys k') d. uframe (phys k') d j = uframe (phys k) d j"
    unfolding gave_back_def Let_def D_def [symmetric] by auto
  show ?thesis
  proof (cases "va div PGSIZE \<in> upages (phys k') d")
    case True
    then have n: "va div PGSIZE \<in> upages (phys k) d" "va div PGSIZE \<notin> D" using up by auto
    have "uframe (phys k) d (va div PGSIZE) \<notin> tables (phys k) d \<union> uframe (phys k) d ` D"
      using owned_frames [OF ok n(1)] space_okD(4) [OF ok] n by (auto simp: inj_on_def D_def)
    then have "phys k' (uframe (phys k) d (va div PGSIZE) + va mod PGSIZE) = phys k (uframe (phys k) d (va div PGSIZE) + va mod PGSIZE)"
      using owned_frames [OF ok n(1)] page_aligned(1) by (intro unchanged_byte [OF u]) (auto simp: PGSIZE_def)
    moreover have "\<not> (lo \<le> va div PGSIZE \<and> va div PGSIZE < hi)" using n by (auto simp: D_def)
    ultimately show ?thesis using True n uf by (simp add: umem_def in_pages)
  next
    case False
    then show ?thesis using up by (auto simp: umem_def in_pages D_def)
  qed
qed

lemma deallocuvm_spec:
  assumes "space_ok kend kdata k d ps" "oldsz \<le> USERTOP" "newsz < oldsz"
  shows "\<exists>k'. deallocuvm kend d oldsz newsz k = Some (newsz, k') \<and>
    gave_back kend kdata d (pages_up newsz) (pages_up oldsz) k ps k'"
  using deallocuvm_loop_spec [OF assms(1,2), of "pages_up newsz"] assms(2,3)
  by (auto simp: deallocuvm_def PGROUNDUP_pages)

lemma free_tables_spec:
  assumes "kmem_inv kend k ps" "page kend d" "d \<notin> set ps" "distinct js" "\<forall>i\<in>set js. i < NPDENTRIES"
    "\<forall>i\<in>set js. present (pde (phys k) d i) \<longrightarrow> page kend (PTE_ADDR (pde (phys k) d i)) \<and>
       PTE_ADDR (pde (phys k) d i) \<notin> set ps \<and> PTE_ADDR (pde (phys k) d i) \<noteq> d"
    "inj_on (\<lambda>i. PTE_ADDR (pde (phys k) d i)) {i \<in> set js. present (pde (phys k) d i)}"
  shows "\<exists>k' ps'. free_tables kend d js k = Some k' \<and> kmem_inv kend k' ps' \<and>
    set ps' = set ps \<union> {PTE_ADDR (pde (phys k) d i) | i. i \<in> set js \<and> present (pde (phys k) d i)} \<and>
    unchanged {PTE_ADDR (pde (phys k) d i) | i. i \<in> set js \<and> present (pde (phys k) d i)} (phys k) (phys k')"
  using assms
proof (induction js arbitrary: k ps)
  case Nil
  then show ?case by (auto intro!: exI [of _ ps])
next
  case (Cons i js)
  show ?case
  proof (cases "present (pde (phys k) d i)")
    case False
    have "{i' \<in> set js. present (pde (phys k) d i')} \<subseteq> {i' \<in> set (i # js). present (pde (phys k) d i')}" by auto
    then have "inj_on (\<lambda>i. PTE_ADDR (pde (phys k) d i)) {i \<in> set js. present (pde (phys k) d i)}"
      using Cons.prems(7) inj_on_subset by blast
    moreover have "{PTE_ADDR (pde (phys k) d j) | j. j \<in> set (i # js) \<and> present (pde (phys k) d j)} =
        {PTE_ADDR (pde (phys k) d j) | j. j \<in> set js \<and> present (pde (phys k) d j)}" using False by auto
    ultimately show ?thesis using Cons.IH [of k ps] Cons.prems False by (simp add: pde_def [symmetric])
  next
    case True
    define t where "t = PTE_ADDR (pde (phys k) d i)"
    have t: "page kend t" "t \<notin> set ps" "t \<noteq> d" using Cons.prems(6) True by (auto simp: t_def)
    obtain k1 where k1: "kfree kend k t = Some k1" "kmem_inv kend k1 (t # ps)"
      "\<forall>a. a \<notin> {t..<t + PGSIZE} \<longrightarrow> phys k1 a = phys k a"
      using kfree_spec [OF Cons.prems(1) t(1,2)] by blast
    have u1: "unchanged {t} (phys k) (phys k1)"
      using k1(3) in_page [OF page_aligned(1) [OF t(1)]] by (auto simp: unchanged_def)
    have p: "pde (phys k1) d j = pde (phys k) d j" if "j \<in> set js" for j
      unfolding pde_def using that t Cons.prems(2,5) page_aligned(1)
      by (intro unchanged_word [OF u1]) (auto simp: NPDENTRIES_def)
    have ne: "PTE_ADDR (pde (phys k) d j) \<noteq> t" if "j \<in> set js" "present (pde (phys k) d j)" for j
      using Cons.prems(4,7) True that unfolding t_def inj_on_def by auto
    have pr: "{j \<in> set js. present (pde (phys k1) d j)} = {j \<in> set js. present (pde (phys k) d j)}" using p by auto
    have S: "{PTE_ADDR (pde (phys k1) d j) | j. j \<in> set js \<and> present (pde (phys k1) d j)} =
        {PTE_ADDR (pde (phys k) d j) | j. j \<in> set js \<and> present (pde (phys k) d j)}" using p by force
    have "{j \<in> set js. present (pde (phys k) d j)} \<subseteq> {j \<in> set (i # js). present (pde (phys k) d j)}" by auto
    then have "inj_on (\<lambda>j. PTE_ADDR (pde (phys k) d j)) {j \<in> set js. present (pde (phys k) d j)}"
      using Cons.prems(7) inj_on_subset by blast
    then have inj: "inj_on (\<lambda>j. PTE_ADDR (pde (phys k1) d j)) {j \<in> set js. present (pde (phys k1) d j)}"
      unfolding pr using p by (simp add: inj_on_def)
    have free: "\<forall>j\<in>set js. present (pde (phys k1) d j) \<longrightarrow> page kend (PTE_ADDR (pde (phys k1) d j)) \<and>
        PTE_ADDR (pde (phys k1) d j) \<notin> set (t # ps) \<and> PTE_ADDR (pde (phys k1) d j) \<noteq> d"
      using Cons.prems(6) p ne by auto
    have "d \<notin> set (t # ps)" "distinct js" "\<forall>i\<in>set js. i < NPDENTRIES" using Cons.prems t by auto
    from Cons.IH [OF k1(2) Cons.prems(2) this free inj, unfolded S] obtain k' ps' where
      r: "free_tables kend d js k1 = Some k'" "kmem_inv kend k' ps'"
        "set ps' = set (t # ps) \<union> {PTE_ADDR (pde (phys k) d j) | j. j \<in> set js \<and> present (pde (phys k) d j)}"
        "unchanged {PTE_ADDR (pde (phys k) d j) | j. j \<in> set js \<and> present (pde (phys k) d j)} (phys k1) (phys k')"
      by blast
    have S': "{PTE_ADDR (pde (phys k) d j) | j. j \<in> set (i # js) \<and> present (pde (phys k) d j)} =
        {t} \<union> {PTE_ADDR (pde (phys k) d j) | j. j \<in> set js \<and> present (pde (phys k) d j)}"
      using True by (auto simp: t_def)
    have "free_tables kend d (i # js) k = Some k'" using k1(1) r(1) True by (simp add: pde_def [symmetric] t_def)
    moreover have "unchanged ({t} \<union> {PTE_ADDR (pde (phys k) d j) | j. j \<in> set js \<and> present (pde (phys k) d j)}) (phys k) (phys k')"
      by (rule unchanged_trans [OF u1 r(4)])
    ultimately show ?thesis using r(2,3) unfolding S' by auto
  qed
qed

text \<open>\<open>freevm\<close> gives back everything the space owns.\<close>

lemma freevm_spec:
  assumes ok: "space_ok kend kdata k d ps"
  shows "\<exists>k' ps'. freevm kend d k = Some k' \<and> kmem_inv kend k' ps' \<and> set ps' = set ps \<union> owned (phys k) d \<and>
    unchanged (owned (phys k) d) (phys k) (phys k')"
proof -
  have "pages_up 0 = 0" "pages_up USERTOP = 160" by (simp_all add: pages_up_def USERTOP_def PGSIZE_def)
  with deallocuvm_spec [OF ok, of USERTOP 0] obtain k1 where k1: "deallocuvm kend d USERTOP 0 k = Some (0, k1)"
    and g: "gave_back kend kdata d 0 160 k ps k1" by (auto simp: USERTOP_def)
  have "{n \<in> upages (phys k) d. 0 \<le> n \<and> n < 160} = upages (phys k) d" using upagesD by auto
  with g obtain ps1 where ps1: "space_ok kend kdata k1 d ps1" "set ps1 = set ps \<union> frames (phys k) d"
    "tables (phys k1) d = tables (phys k) d" "unchanged (tables (phys k) d \<union> frames (phys k) d) (phys k) (phys k1)"
    by (auto simp: gave_back_def frames_def Let_def)
  note ok1 = space_okD(1) [OF ps1(1)]
  have T: "{PTE_ADDR (pde (phys k1) d i) | i. i \<in> set [0..<NPDENTRIES] \<and> present (pde (phys k1) d i)} = tables (phys k1) d"
    by (auto simp: tables_def)
  have I: "{i. i < NPDENTRIES \<and> present (pde (phys k1) d i)} = {i \<in> set [0..<NPDENTRIES]. present (pde (phys k1) d i)}" by auto
  have H: "\<forall>i\<in>set [0..<NPDENTRIES]. present (pde (phys k1) d i) \<longrightarrow> page kend (PTE_ADDR (pde (phys k1) d i)) \<and>
      PTE_ADDR (pde (phys k1) d i) \<notin> set ps1 \<and> PTE_ADDR (pde (phys k1) d i) \<noteq> d"
  proof (intro ballI impI)
    fix i assume "i \<in> set [0..<NPDENTRIES]" "present (pde (phys k1) d i)"
    then have "PTE_ADDR (pde (phys k1) d i) \<in> tables (phys k1) d" by (intro tables_memb) auto
    then show "page kend (PTE_ADDR (pde (phys k1) d i)) \<and> PTE_ADDR (pde (phys k1) d i) \<notin> set ps1 \<and>
        PTE_ADDR (pde (phys k1) d i) \<noteq> d" using dir_okD(4,5,6) [OF ok1] by fastforce
  qed
  have J: "inj_on (\<lambda>i. PTE_ADDR (pde (phys k1) d i)) {i \<in> set [0..<NPDENTRIES]. present (pde (phys k1) d i)}"
    using ok1 unfolding dir_ok_def I by blast
  have "distinct [0..<NPDENTRIES]" "\<forall>i\<in>set [0..<NPDENTRIES]. i < NPDENTRIES" by auto
  from free_tables_spec [OF dir_okD(1,2,3) [OF ok1] this H J, unfolded T] obtain k2 ps2 where
    k2: "free_tables kend d [0..<NPDENTRIES] k1 = Some k2" "kmem_inv kend k2 ps2" "set ps2 = set ps1 \<union> tables (phys k1) d"
      "unchanged (tables (phys k1) d) (phys k1) (phys k2)"
    by blast
  have d: "page kend d" "d \<notin> set ps2" "d \<noteq> 0"
    using ok1 k2(3) page_aligned(2) by (auto simp: dir_ok_def)
  obtain k3 where k3: "kfree kend k2 d = Some k3" "kmem_inv kend k3 (d # ps2)"
    "\<forall>a. a \<notin> {d..<d + PGSIZE} \<longrightarrow> phys k3 a = phys k2 a"
    using kfree_spec [OF k2(2) d(1,2)] by blast
  have u3: "unchanged {d} (phys k2) (phys k3)"
    using k3(3) in_page [OF page_aligned(1) [OF d(1)]] by (auto simp: unchanged_def)
  have "unchanged (owned (phys k) d) (phys k) (phys k3)"
    by (rule unchanged_mono [OF unchanged_trans [OF ps1(4) unchanged_trans [OF k2(4) u3]]]) (auto simp: owned_def ps1(3))
  moreover have "set (d # ps2) = set ps \<union> owned (phys k) d" using k2(3) ps1(2,3) by (auto simp: owned_def)
  moreover have "freevm kend d k = Some k3" using d(3) k1 k2(1) k3(1) by (simp add: freevm_def)
  ultimately show ?thesis using k3(2) by blast
qed

section \<open>Growing\<close>

text \<open>The first pages of the free list became the user pages from \<open>lo\<close> up to \<open>hi\<close>, filled by \<open>fill\<close>.\<close>

definition took :: "nat \<Rightarrow> nat \<Rightarrow> nat \<Rightarrow> nat \<Rightarrow> nat \<Rightarrow> (nat \<Rightarrow> u8) \<Rightarrow> kmem \<Rightarrow> nat list \<Rightarrow> kmem \<Rightarrow> nat list \<Rightarrow> bool" where
  "took kend kdata d lo hi fill k ps k' ps' \<longleftrightarrow>
     (\<exists>us. ps = us @ ps' \<and> length us = hi - lo \<and> space_ok kend kdata k' d ps' \<and>
       upages (phys k') d = upages (phys k) d \<union> {lo..<hi} \<and> tables (phys k') d = tables (phys k) d \<and>
       owned (phys k') d = owned (phys k) d \<union> set us \<and> uframe (phys k') d ` {lo..<hi} = set us \<and>
       unchanged (tables (phys k) d \<union> set us) (phys k) (phys k') \<and>
       (\<forall>j\<in>upages (phys k) d. uframe (phys k') d j = uframe (phys k) d j) \<and>
       (\<forall>va. umem (phys k') d va = (if lo * PGSIZE \<le> va \<and> va < hi * PGSIZE then Some (fill va) else umem (phys k) d va)))"

lemma took_refl: "space_ok kend kdata k d ps \<Longrightarrow> took kend kdata d lo lo fill k ps k ps"
  by (auto simp: took_def)

text \<open>One more page: \<open>kalloc\<close>, fill the page, map it.\<close>

lemma took_step:
  assumes t: "took kend kdata d lo q fill k0 ps0 k (f # ps)" and q: "lo \<le> q" "q < 160" "q \<notin> upages (phys k) d"
    and m: "unchanged {f} (phys k) m" "\<And>i. i < PGSIZE \<Longrightarrow> m (f + i) = fill (q * PGSIZE + i)"
  obtains k1 where "kalloc k = (f, k1)" "f \<noteq> 0" "phys k1 = phys k"
    "\<And>k2. k2 = set_pte d q (f OR WU OR PTE_P) (k1\<lparr>phys := m\<rparr>) \<Longrightarrow>
      mappages d (q * PGSIZE) PGSIZE f (PTE_W OR PTE_U) (k1\<lparr>phys := m\<rparr>) = Some (True, k2) \<and>
      took kend kdata d lo (Suc q) fill k0 ps0 k2 ps"
proof -
  from t obtain us where us: "ps0 = us @ f # ps" "length us = q - lo" and ok: "space_ok kend kdata k d (f # ps)"
    and up: "upages (phys k) d = upages (phys k0) d \<union> {lo..<q}" and tb: "tables (phys k) d = tables (phys k0) d"
    and ow: "owned (phys k) d = owned (phys k0) d \<union> set us" and uf: "uframe (phys k) d ` {lo..<q} = set us"
    and u: "unchanged (tables (phys k0) d \<union> set us) (phys k0) (phys k)"
    and old: "\<And>j. j \<in> upages (phys k0) d \<Longrightarrow> uframe (phys k) d j = uframe (phys k0) d j"
    and um: "\<And>va. umem (phys k) d va = (if lo * PGSIZE \<le> va \<and> va < q * PGSIZE then Some (fill va) else umem (phys k0) d va)"
    by (auto simp: took_def)
  note inv = space_okD(8) [OF ok]
  obtain k1 where k1: "kalloc k = (f, k1)" "kmem_inv kend k1 ps" "phys k1 = phys k" using kalloc_spec [OF inv] by auto
  have f: "page kend f" "f \<notin> set ps" using inv by (auto simp: kmem_inv_def)
  have fo: "f \<notin> owned (phys k) d" using owned_page [OF ok, of f] by auto
  define km where "km = k1\<lparr>phys := m\<rparr>"
  have same: "upages m d = upages (phys k) d" "tables m d = tables (phys k) d" "owned m d = owned (phys k) d"
      "umem m d = umem (phys k) d" "\<And>n. n < 2 ^ 20 \<Longrightarrow> entry m d n = entry (phys k) d n"
    and okm: "space_ok kend kdata km d ps"
  proof -
    have okk: "space_ok kend kdata k1 d ps"
      using owned_page [OF ok] by (intro space_ok_free [OF ok k1(3,2)]) auto
    note c = space_ok_unchanged [OF okk, of "{f}" m, unfolded k1(3), OF m(1)]
    have "d \<noteq> f" "f \<notin> tables (phys k) d" "f \<notin> frames (phys k) d" using fo by (auto simp: owned_def)
    then show "upages m d = upages (phys k) d" "tables m d = tables (phys k) d" "owned m d = owned (phys k) d"
      "umem m d = umem (phys k) d" "\<And>n. n < 2 ^ 20 \<Longrightarrow> entry m d n = entry (phys k) d n" "space_ok kend kdata km d ps"
      using c f(2) by (auto simp: km_def)
  qed
  have fm: "f \<notin> owned (phys km) d" using fo same(3) by (simp add: km_def)
  have qm: "q \<notin> upages (phys km) d" using q(3) same(1) by (simp add: km_def)
  note mp = mappages_user [OF okm q(2) qm, of f]
  define k2 where "k2 = set_pte d q (f OR WU OR PTE_P) km"
  note mu = map_user [OF okm q(2) qm f(1) fm f(2), folded k2_def]
  have pm: "phys km = m" by (simp add: km_def)
  have "took kend kdata d lo (Suc q) fill k0 ps0 k2 ps"
    unfolding took_def
  proof (intro exI [of _ "us @ [f]"] conjI allI)
    show "ps0 = (us @ [f]) @ ps" "length (us @ [f]) = Suc q - lo" using us q(1) by auto
    show "space_ok kend kdata k2 d ps" by (rule mu(1))
    show "upages (phys k2) d = upages (phys k0) d \<union> {lo..<Suc q}" using mu(2) up same(1) q(1) by (auto simp: pm)
    show "tables (phys k2) d = tables (phys k0) d" using mu(8) same(2) tb by (simp add: pm)
    show "owned (phys k2) d = owned (phys k0) d \<union> set (us @ [f])" using mu(3) same(3) ow by (auto simp: pm)
    have ej: "uframe (phys k2) d j = uframe (phys k) d j" if "j \<in> upages (phys k) d" for j
    proof -
      have "j < 2 ^ 20" using upagesD [OF that] by simp
      then show ?thesis using mu(9) [of j] same(1) same(5) [of j] that by (simp add: pm uframe_def)
    qed
    then show "\<forall>j\<in>upages (phys k0) d. uframe (phys k2) d j = uframe (phys k0) d j" using up old by simp
    have "uframe (phys k2) d ` {lo..<q} = set us" using uf ej up by (metis (no_types, lifting) UnI2 image_cong)
    moreover have "{lo..<Suc q} = insert q {lo..<q}" using q(1) by auto
    ultimately show "uframe (phys k2) d ` {lo..<Suc q} = set (us @ [f])" using mu(6) by simp
    have "unchanged ((tables (phys k0) d \<union> set us) \<union> ({f} \<union> tables m d)) (phys k0) (phys k2)"
      by (rule unchanged_trans [OF u unchanged_trans [OF m(1)]]) (use mu(4) in \<open>simp add: pm\<close>)
    then show "unchanged (tables (phys k0) d \<union> set (us @ [f])) (phys k0) (phys k2)"
      by (rule unchanged_mono) (auto simp: same(2) tb)
    fix va
    have "m (f + va mod PGSIZE) = fill va" if "va div PGSIZE = q"
      using m(2) [of "va mod PGSIZE"] that div_mult_mod_eq [of va PGSIZE] by (simp add: PGSIZE_def)
    then show "umem (phys k2) d va =
        (if lo * PGSIZE \<le> va \<and> va < Suc q * PGSIZE then Some (fill va) else umem (phys k0) d va)"
      using mu(5) [of va] um [of va] same(4) q(1) unfolding in_pages by (auto simp: pm)
  qed
  then show thesis using that [OF k1(1) _ k1(3)] mp page_aligned(2) [OF f(1)] by (simp add: k2_def km_def)
qed

end
