(* ===== verification/VmProc.thy ===== *)
theory VmProc
  imports VmSpace
begin

text \<open>
  \<open>allocuvm\<close>, \<open>copyuvm\<close> and \<open>copyout\<close> of \<open>Vm\<close> on the memory that the user sees.
\<close>

section \<open>allocuvm\<close>

text \<open>A failed call: the free list holds the same pages and the space is as before.\<close>

definition undone :: "nat \<Rightarrow> nat \<Rightarrow> nat \<Rightarrow> kmem \<Rightarrow> nat list \<Rightarrow> kmem \<Rightarrow> nat list \<Rightarrow> bool" where
  "undone kend kdata d k ps k' ps' \<longleftrightarrow> space_ok kend kdata k' d ps' \<and> set ps' = set ps \<and>
     upages (phys k') d = upages (phys k) d \<and> tables (phys k') d = tables (phys k) d \<and>
     owned (phys k') d = owned (phys k) d \<and> umem (phys k') d = umem (phys k) d \<and>
     unchanged (tables (phys k) d \<union> set ps) (phys k) (phys k')"

lemma allocuvm_loop_spec:
  assumes "took kend kdata d lo q (\<lambda>_. 0) k0 ps0 k ps" "lo \<le> q" "q \<le> hi" "hi \<le> 160"
    "upages (phys k0) d \<inter> {lo..<hi} = {}" "space_ok kend kdata k0 d ps0"
    and lo: "lo = pages_up oldsz" and hi: "hi = pages_up newsz" and sz: "newsz \<le> USERTOP"
  shows "\<exists>r k' ps'. allocuvm_loop kend d (q * PGSIZE) oldsz newsz k = Some (r, k') \<and>
    ((r = newsz \<and> took kend kdata d lo hi (\<lambda>_. 0) k0 ps0 k' ps') \<or>
     (r = 0 \<and> length ps0 < hi - lo \<and> undone kend kdata d k0 ps0 k' ps'))"
  using assms(1-3)
proof (induction "hi - q" arbitrary: q k ps)
  case 0
  then have "q = hi" by simp
  moreover from this have "\<not> q * PGSIZE < newsz" by (simp add: less_pages_up hi)
  ultimately show ?case using 0 by (subst allocuvm_loop.simps) auto
next
  case (Suc x)
  have q: "q < hi" "q < 160" "x = hi - Suc q" "q * PGSIZE + PGSIZE = Suc q * PGSIZE" using Suc(2) assms(4) by auto
  have go: "q * PGSIZE < newsz" using q(1) by (simp add: less_pages_up hi)
  from Suc.prems(1) obtain us where us: "ps0 = us @ ps" "length us = q - lo" and ok: "space_ok kend kdata k d ps"
    and up: "upages (phys k) d = upages (phys k0) d \<union> {lo..<q}" and tb: "tables (phys k) d = tables (phys k0) d"
    and ow: "owned (phys k) d = owned (phys k0) d \<union> set us" and uf: "uframe (phys k) d ` {lo..<q} = set us"
    and u: "unchanged (tables (phys k0) d \<union> set us) (phys k0) (phys k)"
    and old: "\<And>j. j \<in> upages (phys k0) d \<Longrightarrow> uframe (phys k) d j = uframe (phys k0) d j"
    and um: "\<And>va. umem (phys k) d va = (if lo * PGSIZE \<le> va \<and> va < q * PGSIZE then Some 0 else umem (phys k0) d va)"
    by (auto simp: took_def)
  show ?case
  proof (cases ps)
    case Nil
    have kal: "kalloc k = (0, k)" using kalloc_spec [OF space_okD(8) [OF ok]] Nil by simp
    have "oldsz < newsz"
    proof (rule ccontr)
      assume "\<not> oldsz < newsz"
      then have "hi \<le> lo" unfolding lo hi pages_up_def by (intro div_le_mono) simp
      then show False using q Suc.prems by simp
    qed
    from deallocuvm_spec [OF ok sz this] obtain k' where
      k': "deallocuvm kend d newsz oldsz k = Some (oldsz, k')" and g: "gave_back kend kdata d lo hi k ps k'"
      by (auto simp: lo hi)
    have D: "{n \<in> upages (phys k) d. lo \<le> n \<and> n < hi} = {lo..<q}" using up assms(5) q Suc.prems by auto
    from g obtain ps' where ps': "space_ok kend kdata k' d ps'" "set ps' = set us"
      "upages (phys k') d = upages (phys k0) d" "tables (phys k') d = tables (phys k0) d"
      "unchanged (tables (phys k0) d \<union> set us) (phys k) (phys k')"
      "\<forall>j\<in>upages (phys k') d. uframe (phys k') d j = uframe (phys k) d j"
      unfolding gave_back_def D Let_def uf using up assms(5) q Nil tb by fastforce
    have fr: "frames (phys k') d = frames (phys k0) d"
      using ps'(3,6) old up by (auto simp: frames_def)
    have "umem (phys k') d va = umem (phys k0) d va" for va
      using gave_back_umem [OF g ok, of va] um [of va] assms(5) q unfolding in_pages by (auto simp: umem_def)
    moreover have "unchanged (tables (phys k0) d \<union> set ps0) (phys k0) (phys k')"
      by (rule unchanged_mono [OF unchanged_trans [OF u ps'(5)]]) (auto simp: us)
    ultimately have "undone kend kdata d k0 ps0 k' ps'"
      using ps' fr us Nil by (auto simp: undone_def owned_def)
    moreover have "allocuvm_loop kend d (q * PGSIZE) oldsz newsz k = Some (0, k')"
      using go kal k' by (subst allocuvm_loop.simps) simp
    ultimately show ?thesis using us q Nil Suc.prems(2) by (intro exI [of _ 0] exI [of _ k'] exI [of _ ps']) auto
  next
    case (Cons f qs)
    have "f mod PGSIZE = 0" using space_okD(8) [OF ok] Cons by (simp add: kmem_inv_def page_def)
    then have m: "unchanged {f} (phys k) (memset (phys k) f 0 PGSIZE)"
      "\<And>i. i < PGSIZE \<Longrightarrow> memset (phys k) f 0 PGSIZE (f + i) = 0"
      by (simp_all add: unchanged_memset memset_apply)
    have qn: "q \<notin> upages (phys k) d" using up assms(5) q Suc.prems by auto
    from took_step [OF Suc.prems(1) [unfolded Cons] Suc.prems(2) q(2) qn m] obtain k1 where
      k1: "kalloc k = (f, k1)" "f \<noteq> 0" "phys k1 = phys k"
      and st: "\<And>k2. k2 = set_pte d q (f OR WU OR PTE_P) (k1\<lparr>phys := memset (phys k) f 0 PGSIZE\<rparr>) \<Longrightarrow>
        mappages d (q * PGSIZE) PGSIZE f (PTE_W OR PTE_U) (k1\<lparr>phys := memset (phys k) f 0 PGSIZE\<rparr>) = Some (True, k2) \<and>
        took kend kdata d lo (Suc q) (\<lambda>_. 0) k0 ps0 k2 qs" by blast
    obtain k2 where k2: "mappages d (q * PGSIZE) PGSIZE f (PTE_W OR PTE_U) (k1\<lparr>phys := memset (phys k) f 0 PGSIZE\<rparr>) = Some (True, k2)"
      and t: "took kend kdata d lo (Suc q) (\<lambda>_. 0) k0 ps0 k2 qs" using st [OF refl] by blast
    have "allocuvm_loop kend d (q * PGSIZE) oldsz newsz k = allocuvm_loop kend d (Suc q * PGSIZE) oldsz newsz k2"
      using go k1 k2 q(4) by (subst allocuvm_loop.simps) (simp del: mult_Suc)
    moreover have "lo \<le> Suc q" "Suc q \<le> hi" using Suc.prems q by auto
    ultimately show ?thesis using Suc.hyps(1) [OF q(3) t] by simp
  qed
qed

lemma allocuvm_spec:
  assumes ok: "space_ok kend kdata k d ps" and sz: "oldsz \<le> newsz" "newsz \<le> USERTOP"
    and free: "upages (phys k) d \<inter> {pages_up oldsz..<pages_up newsz} = {}"
  shows "\<exists>r k' ps'. allocuvm kend d oldsz newsz k = Some (r, k') \<and>
    ((r = newsz \<and> took kend kdata d (pages_up oldsz) (pages_up newsz) (\<lambda>_. 0) k ps k' ps') \<or>
     (r = 0 \<and> length ps < pages_up newsz - pages_up oldsz \<and> undone kend kdata d k ps k' ps'))"
proof -
  have "pages_up oldsz \<le> pages_up newsz" unfolding pages_up_def using sz(1) by (intro div_le_mono) simp
  from allocuvm_loop_spec [OF took_refl [OF ok] order_refl this pages_up_le [OF sz(2)] free ok refl refl sz(2)]
  show ?thesis using sz by (simp add: allocuvm_def PGROUNDUP_pages)
qed

section \<open>copyuvm\<close>

text \<open>Two spaces: what one does to pages it owns or to free pages is not seen by the other.\<close>

lemma space_other:
  assumes ok: "space_ok kend kdata k s ps" and u: "unchanged S (phys k) (phys k')" and S: "S \<inter> owned (phys k) s = {}"
    and inv: "kmem_inv kend k' ps'" and ps': "owned (phys k) s \<inter> set ps' = {}"
  shows "space_ok kend kdata k' s ps'" "umem (phys k') s = umem (phys k) s" "owned (phys k') s = owned (phys k) s"
    "upages (phys k') s = upages (phys k) s" "n \<in> upages (phys k) s \<Longrightarrow> uframe (phys k') s n = uframe (phys k) s n"
    "tables (phys k') s = tables (phys k) s" "pde (phys k') s 0 = pde (phys k) s 0"
proof -
  define kz where "kz = k\<lparr>freelist := 0\<rparr>"
  have z: "phys kz = phys k" "kmem_inv kend kz []" by (simp_all add: kz_def kmem_inv_def)
  have okz: "space_ok kend kdata kz s []" by (rule space_ok_free [OF ok z]) simp
  have "s \<notin> S" "S \<inter> tables (phys k) s = {}" "S \<inter> frames (phys k) s = {}" using S by (auto simp: owned_def)
  note c = space_ok_unchanged [OF okz, unfolded z(1), OF u this(1,2), simplified] and Sf = this(3)
  show ow: "owned (phys k') s = owned (phys k) s" by (rule c(5))
  show "upages (phys k') s = upages (phys k) s" "tables (phys k') s = tables (phys k) s" by (rule c(2), rule c(3))
  show "umem (phys k') s = umem (phys k) s" by (rule c(7) [OF Sf])
  show "uframe (phys k') s n = uframe (phys k) s n" if "n \<in> upages (phys k) s"
    using c(6) [of n] upagesD [OF that] by (simp add: uframe_def)
  show "space_ok kend kdata k' s ps'"
    by (rule space_ok_free [OF c(1)]) (use inv ps' ow in simp_all)
  have "page kend s" using ok by (auto simp: space_ok_def dir_ok_def)
  then show "pde (phys k') s 0 = pde (phys k) s 0" unfolding pde_def
    using unchanged_word [OF u page_aligned(1), of kend s 0] \<open>s \<notin> S\<close> by simp
qed

lemma took_owned:
  assumes "took kend kdata d lo hi fill k ps k' ps'"
  shows "owned (phys k') d \<subseteq> owned (phys k) d \<union> set ps" "unchanged (owned (phys k) d \<union> set ps) (phys k) (phys k')"
    "space_ok kend kdata k' d ps'" "set ps' \<subseteq> set ps" "owned (phys k) d \<subseteq> owned (phys k') d"
    "set ps = set ps' \<union> (owned (phys k') d - owned (phys k) d) \<or> \<not> space_ok kend kdata k d ps"
proof -
  from assms obtain us where us: "ps = us @ ps'" "space_ok kend kdata k' d ps'" "owned (phys k') d = owned (phys k) d \<union> set us"
    "unchanged (tables (phys k) d \<union> set us) (phys k) (phys k')" by (auto simp: took_def)
  show "unchanged (owned (phys k) d \<union> set ps) (phys k) (phys k')"
    by (rule unchanged_mono [OF us(4)]) (auto simp: owned_def us(1))
  show "owned (phys k') d \<subseteq> owned (phys k) d \<union> set ps" "space_ok kend kdata k' d ps'" "set ps' \<subseteq> set ps"
    "owned (phys k) d \<subseteq> owned (phys k') d" using us by auto
  have "set us \<inter> owned (phys k) d = {}" if "space_ok kend kdata k d ps" using owned_page [OF that] us(1) by fastforce
  then show "set ps = set ps' \<union> (owned (phys k') d - owned (phys k) d) \<or> \<not> space_ok kend kdata k d ps" using us by auto
qed

text \<open>The copy loop: \<open>s\<close> is the source, \<open>d\<close> the new space.\<close>

lemma copy_pages_spec:
  assumes "took kend kdata d 0 q (\<lambda>va. the (umem (phys k0) s va)) k0 ps0 k ps" "q \<le> hi" "{0..<q} \<subseteq> upages (phys k0) s"
    and s: "space_ok kend kdata k0 s ps0" "owned (phys k0) s \<inter> owned (phys k0) d = {}"
    and d: "space_ok kend kdata k0 d ps0" "upages (phys k0) d = {}"
    and hi: "hi = pages_up sz" "sz \<le> USERTOP"
  shows "(copy_pages kend s d (q * PGSIZE) sz k = None \<and> \<not> {0..<hi} \<subseteq> upages (phys k0) s) \<or>
    (\<exists>r k' ps'. copy_pages kend s d (q * PGSIZE) sz k = Some (r, k') \<and>
     ((r = d \<and> took kend kdata d 0 hi (\<lambda>va. the (umem (phys k0) s va)) k0 ps0 k' ps' \<and> {0..<hi} \<subseteq> upages (phys k0) s) \<or>
     (r = 0 \<and> kmem_inv kend k' ps' \<and> set ps' = set ps0 \<union> owned (phys k0) d \<and> length ps0 < hi \<and>
      unchanged (owned (phys k0) d \<union> set ps0) (phys k0) (phys k'))))"
  using assms(1-3)
proof (induction "hi - q" arbitrary: q k ps)
  case 0
  then have "q = hi" by simp
  moreover from this have "\<not> q * PGSIZE < sz" by (simp add: less_pages_up hi)
  ultimately show ?case using 0 by (subst copy_pages.simps) auto
next
  case (Suc x)
  have hi160: "hi \<le> 160" using pages_up_le hi by simp
  have q: "q < hi" "q < 160" "x = hi - Suc q" "q * PGSIZE + PGSIZE = Suc q * PGSIZE" using Suc(2) hi160 by auto
  have go: "q * PGSIZE < sz" using q(1) by (simp add: less_pages_up hi)
  let ?fill = "\<lambda>va. the (umem (phys k0) s va)"
  note t = took_owned [OF Suc.prems(1)]
  have ok: "space_ok kend kdata k d ps" by (rule t(3))
  have sd: "(owned (phys k0) d \<union> set ps0) \<inter> owned (phys k0) s = {}" "owned (phys k0) s \<inter> set ps = {}"
    using s owned_page [OF s(1)] t(4) by fastforce+
  note so = space_other [OF s(1) t(2) sd(1) space_okD(8) [OF ok] sd(2)]
  note w = walk_user(1) [OF so(1) q(2), where c = False] walk_user(2) [OF so(1) q(2)]
  show ?case
  proof (cases "q \<in> upages (phys k) s")
  case False
    then have "\<not> present (entry (phys k) s q)" using q(2) by (simp add: upages_def npages)
    then have "copy_pages kend s d (q * PGSIZE) sz k = None" using go w by (subst copy_pages.simps) (simp add: Let_def)
    moreover have "\<not> {0..<hi} \<subseteq> upages (phys k0) s" using False so(4) q(1) by auto
    ultimately show ?thesis by blast
  next
  case qs: True
  define a where "a = uframe (phys k) s q"
  have pr: "present (entry (phys k) s q)" using upagesD [OF qs] by simp
  show ?thesis
  proof (cases ps)
    case Nil
    have kal: "kalloc k = (0, k)" using kalloc_spec [OF space_okD(8) [OF ok]] Nil by simp
    obtain k' ps' where f: "freevm kend d k = Some k'" "kmem_inv kend k' ps'" "set ps' = set ps \<union> owned (phys k) d"
      "unchanged (owned (phys k) d) (phys k) (phys k')" using freevm_spec [OF ok] by blast
    have "copy_pages kend s d (q * PGSIZE) sz k = Some (0, k')"
      using go w pr kal f(1) by (subst copy_pages.simps) (simp add: Let_def)
    moreover have "set ps' = set ps0 \<union> owned (phys k0) d" using f(3) t(1,4,5,6) d(1) Nil by auto
    moreover have "unchanged (owned (phys k0) d \<union> set ps0) (phys k0) (phys k')"
      by (rule unchanged_mono [OF unchanged_trans [OF t(2) f(4)]]) (use t(1) in auto)
    moreover have "length ps0 < hi" using Suc.prems(1) Nil q(1) by (auto simp: took_def)
    ultimately show ?thesis using f(2) by blast
  next
    case (Cons f qs')
    have fp: "page kend f" "f \<in> set ps" using space_okD(8) [OF ok] Cons by (auto simp: kmem_inv_def)
    have m: "unchanged {f} (phys k) (memmove (phys k) f a PGSIZE)"
      by (rule unchanged_memmove [OF page_aligned(1) [OF fp(1)]])
    have fill: "memmove (phys k) f a PGSIZE (f + i) = ?fill (q * PGSIZE + i)" if "i < PGSIZE" for i
    proof -
      have "(q * PGSIZE + i) div PGSIZE = q" "(q * PGSIZE + i) mod PGSIZE = i" using that by (auto simp: PGSIZE_def)
      then have "umem (phys k) s (q * PGSIZE + i) = Some (phys k (a + i))" using qs by (simp add: umem_def a_def)
      then show ?thesis using that so(2) by (simp add: memmove_apply)
    qed
    have qn: "q \<notin> upages (phys k) d" using Suc.prems(1) d(2) by (auto simp: took_def)
    from took_step [OF Suc.prems(1) [unfolded Cons] le0 q(2) qn m fill] obtain k1 where
      k1: "kalloc k = (f, k1)" "f \<noteq> 0" "phys k1 = phys k"
      and st: "\<And>k2. k2 = set_pte d q (f OR WU OR PTE_P) (k1\<lparr>phys := memmove (phys k) f a PGSIZE\<rparr>) \<Longrightarrow>
        mappages d (q * PGSIZE) PGSIZE f (PTE_W OR PTE_U) (k1\<lparr>phys := memmove (phys k) f a PGSIZE\<rparr>) = Some (True, k2) \<and>
        took kend kdata d 0 (Suc q) ?fill k0 ps0 k2 qs'" by blast
    obtain k2 where k2: "mappages d (q * PGSIZE) PGSIZE f (PTE_W OR PTE_U) (k1\<lparr>phys := memmove (phys k) f a PGSIZE\<rparr>) = Some (True, k2)"
      and t: "took kend kdata d 0 (Suc q) ?fill k0 ps0 k2 qs'" using st [OF refl] by blast
    have "copy_pages kend s d (q * PGSIZE) sz k = copy_pages kend s d (Suc q * PGSIZE) sz k2"
      using go w pr k1 k2 q(4) by (subst copy_pages.simps) (simp add: Let_def a_def uframe_def del: mult_Suc)
    moreover have "Suc q \<le> hi" using q by auto
    moreover have "{0..<Suc q} \<subseteq> upages (phys k0) s" using Suc.prems(3) qs so(4) by (auto simp: less_Suc_eq)
    ultimately show ?thesis using Suc.hyps(1) [OF q(3) t] by simp
  qed
  qed
qed

text \<open>A new space has no user pages.\<close>

lemma setupkvm_space:
  assumes inv: "kmem_inv kend k ps" and kd: "kdata mod PGSIZE = 0" "0x100000 < kdata" "kdata < PHYSTOP"
  shows "\<exists>r k' ps'. setupkvm kdata k = Some (r, k') \<and> kmem_inv kend k' ps' \<and> set ps' \<subseteq> set ps \<and>
    unchanged (set ps) (phys k) (phys k') \<and> length ps \<le> length ps' + 1025 \<and> (r = 0 \<longrightarrow> ps' = []) \<and>
    (r \<noteq> 0 \<longrightarrow> space_ok kend kdata k' r ps' \<and> upages (phys k') r = {} \<and> owned (phys k') r = set ps - set ps')"
proof (cases ps)
  case Nil
  then show ?thesis using setupkvm_full inv by (intro exI [of _ 0] exI [of _ k] exI [of _ ps]) simp
next
  case (Cons d ps1)
  from setupkvm_spec [OF inv [unfolded Cons] kd] obtain r k' ps' us where
    r: "setupkvm kdata k = Some (r, k')" "ps1 = us @ ps'" "kmem_inv kend k' ps'"
      "unchanged (insert d (set us)) (phys k) (phys k')" "r = 0 \<longrightarrow> ps' = []" "length us \<le> 1024"
    and z: "r \<noteq> 0 \<longrightarrow> r = d \<and> dir_ok kend k' d ps' \<and> tables (phys k') d = set us \<and>
       (\<forall>j<2 ^ 20. entry (phys k') d j = kernel_entry kdata j)" by (auto simp: NPDENTRIES_def)
  have "space_ok kend kdata k' r ps' \<and> upages (phys k') r = {} \<and> owned (phys k') r = set ps - set ps'" if "r \<noteq> 0"
  proof -
    from z that have d: "r = d" "dir_ok kend k' d ps'" "tables (phys k') d = set us"
      and e: "\<And>j. j < 2 ^ 20 \<Longrightarrow> entry (phys k') d j = kernel_entry kdata j" by auto
    have "present (kernel_entry kdata 160)"
      using entry_bits(2) [of "160 * PGSIZE" PTE_W] by (simp add: kernel_entry_def perm_ok_def)
    then have "present (pde (phys k') d 0)" using e [of 160] by (auto simp: entry_def Let_def split: if_splits)
    moreover have up: "upages (phys k') d = {}" using e by (auto simp: upages_def npages kernel_entry_def)
    moreover have "owned (phys k') d = set ps - set ps'"
    proof -
      have "distinct ps" using inv by (simp add: kmem_inv_def)
      then show ?thesis using d(3) up by (auto simp: owned_def frames_def Cons r(2))
    qed
    ultimately show ?thesis using d e by (auto simp: space_ok_def frames_def npages)
  qed
  moreover have "unchanged (set ps) (phys k) (phys k')" by (rule unchanged_mono [OF r(4)]) (auto simp: Cons r(2))
  ultimately show ?thesis using r by (intro exI [of _ r] exI [of _ k'] exI [of _ ps']) (auto simp: Cons)
qed

text \<open>The outcome of \<open>copyuvm\<close>; without a hole in the source there is no panic.\<close>

lemma copyuvm_spec:
  assumes s: "space_ok kend kdata k s ps" and sz: "sz \<le> USERTOP"
    and kd: "kdata mod PGSIZE = 0" "0x100000 < kdata" "kdata < PHYSTOP"
  shows "(copyuvm kend kdata s sz k = None \<and> \<not> {0..<pages_up sz} \<subseteq> upages (phys k) s) \<or>
    (\<exists>r k' ps'. copyuvm kend kdata s sz k = Some (r, k') \<and> kmem_inv kend k' ps' \<and> set ps' \<subseteq> set ps \<and>
      unchanged (set ps) (phys k) (phys k') \<and> (r = 0 \<longrightarrow> length ps \<le> 1025 + pages_up sz) \<and>
      (r \<noteq> 0 \<longrightarrow> space_ok kend kdata k' r ps' \<and> owned (phys k') r = set ps - set ps' \<and>
         upages (phys k') r = {0..<pages_up sz} \<and> {0..<pages_up sz} \<subseteq> upages (phys k) s \<and>
         (\<forall>va. umem (phys k') r va = (if va < pages_up sz * PGSIZE then Some (the (umem (phys k) s va)) else None))))"
proof -
  note inv = space_okD(8) [OF s]
  from setupkvm_space [OF inv kd] obtain d k1 ps1 where
    d: "setupkvm kdata k = Some (d, k1)" "kmem_inv kend k1 ps1" "set ps1 \<subseteq> set ps" "unchanged (set ps) (phys k) (phys k1)"
      "length ps \<le> length ps1 + 1025" "d = 0 \<longrightarrow> ps1 = []"
    and z: "d \<noteq> 0 \<longrightarrow> space_ok kend kdata k1 d ps1 \<and> upages (phys k1) d = {} \<and> owned (phys k1) d = set ps - set ps1"
    by blast
  show ?thesis
  proof (cases "d = 0")
    case True
    then have "copyuvm kend kdata s sz k = Some (0, k1)" using d(1) by (simp add: copyuvm_def)
    then show ?thesis using d True by auto
  next
    case False
    with z have dok: "space_ok kend kdata k1 d ps1" and up: "upages (phys k1) d = {}"
      and ow: "owned (phys k1) d = set ps - set ps1" by auto
    have sp: "set ps \<inter> owned (phys k) s = {}" using owned_page [OF s] by auto
    have "owned (phys k) s \<inter> set ps1 = {}" using sp d(3) by auto
    note so = space_other [OF s d(4) sp d(2) this]
    have dj: "owned (phys k1) s \<inter> owned (phys k1) d = {}" using so(3) sp ow by auto
    have eq: "copyuvm kend kdata s sz k = copy_pages kend s d (0 * PGSIZE) sz k1" using d(1) False by (simp add: copyuvm_def)
    let ?fill = "\<lambda>va. the (umem (phys k1) s va)"
    have "{0..<0} \<subseteq> upages (phys k1) s" by simp
    note c = copy_pages_spec [OF took_refl [OF dok] le0 this so(1) dj dok up refl sz, folded eq]
    show ?thesis
    proof (cases "copyuvm kend kdata s sz k")
      case None
      then show ?thesis using c so(4) by simp
    next
      case (Some x)
      with c obtain r k' ps' where r: "copyuvm kend kdata s sz k = Some (r, k')"
        and cs: "(r = d \<and> took kend kdata d 0 (pages_up sz) ?fill k1 ps1 k' ps' \<and> {0..<pages_up sz} \<subseteq> upages (phys k1) s) \<or>
          (r = 0 \<and> kmem_inv kend k' ps' \<and> set ps' = set ps1 \<union> owned (phys k1) d \<and> length ps1 < pages_up sz \<and>
            unchanged (owned (phys k1) d \<union> set ps1) (phys k1) (phys k'))" by auto
      from cs show ?thesis
      proof (elim disjE conjE)
        assume rd: "r = d" and t: "took kend kdata d 0 (pages_up sz) ?fill k1 ps1 k' ps'"
          and full: "{0..<pages_up sz} \<subseteq> upages (phys k1) s"
        note t' = took_owned [OF t]
        have "owned (phys k') d = set ps - set ps'"
          using t'(1,4,5,6) ow dok d(3) owned_page [OF t'(3)] by auto
        moreover have "unchanged (set ps) (phys k) (phys k')"
          by (rule unchanged_mono [OF unchanged_trans [OF d(4) t'(2)]]) (use ow d(3) in auto)
        moreover have "umem (phys k') d va = (if va < pages_up sz * PGSIZE then Some (the (umem (phys k) s va)) else None)" for va
          using t up so(2) by (auto simp: took_def) (simp add: umem_def)
        moreover have "upages (phys k') d = {0..<pages_up sz}" using t up by (auto simp: took_def)
        ultimately show ?thesis using r rd t'(3,4) d(3) space_okD(8) [OF t'(3)] full so(4)
          by (intro disjI2 exI [of _ d] exI [of _ k'] exI [of _ ps']) (auto simp: False)
      next
        assume r0: "r = 0" "kmem_inv kend k' ps'" "set ps' = set ps1 \<union> owned (phys k1) d"
          "unchanged (owned (phys k1) d \<union> set ps1) (phys k1) (phys k')" "length ps1 < pages_up sz"
        have "unchanged (set ps) (phys k) (phys k')"
          by (rule unchanged_mono [OF unchanged_trans [OF d(4) r0(4)]]) (use ow d(3) in auto)
        with r0 show ?thesis using r ow d(3,5) by auto
      qed
    qed
  qed
qed

section \<open>copyout\<close>

lemma poke_user:
  assumes ok: "space_ok kend kdata k d ps" and n: "n \<in> upages (phys k) d" and len: "off + length bs \<le> PGSIZE"
  defines "k' \<equiv> k\<lparr>phys := poke_bytes (phys k) (uframe (phys k) d n + off) bs\<rparr>"
  shows "space_ok kend kdata k' d ps" "upages (phys k') d = upages (phys k) d" "owned (phys k') d = owned (phys k) d"
    "unchanged (frames (phys k) d) (phys k) (phys k')" "frames (phys k') d = frames (phys k) d"
    "umem (phys k') d a = (if n * PGSIZE + off \<le> a \<and> a < n * PGSIZE + off + length bs
       then Some (bs ! (a - (n * PGSIZE + off))) else umem (phys k) d a)"
proof -
  define f where "f = uframe (phys k) d n"
  have f: "f \<in> frames (phys k) d" "page kend f" "f \<notin> set ps" "f \<noteq> d" "f \<notin> tables (phys k) d"
    using owned_frames [OF ok n] by (simp_all add: f_def)
  note fa = page_aligned(1) [OF f(2)]
  have u: "unchanged {f} (phys k) (phys k')"
    unfolding unchanged_def k'_def poke_bytes_def f_def [symmetric]
    using in_page [OF fa] len by auto
  note c = space_ok_unchanged [OF ok u]
  have k': "k\<lparr>phys := phys k'\<rparr> = k'" by (simp add: k'_def)
  show "space_ok kend kdata k' d ps" "upages (phys k') d = upages (phys k) d" "owned (phys k') d = owned (phys k) d"
    "frames (phys k') d = frames (phys k) d"
    using c(1,2,4,5) f k' by auto
  show "unchanged (frames (phys k) d) (phys k) (phys k')" using unchanged_mono [OF u] f(1) by simp
  have uf: "uframe (phys k') d j = uframe (phys k) d j" if "j \<in> upages (phys k) d" for j
    using c(6) [of j] f upagesD [OF that] by (simp add: uframe_def)
  show "umem (phys k') d a = (if n * PGSIZE + off \<le> a \<and> a < n * PGSIZE + off + length bs
       then Some (bs ! (a - (n * PGSIZE + off))) else umem (phys k) d a)"
  proof (cases "a div PGSIZE = n")
    case True
    then have a: "a = n * PGSIZE + a mod PGSIZE" using div_mult_mod_eq [of a PGSIZE] by simp
    have p: "phys k' (f + a mod PGSIZE) = (if off \<le> a mod PGSIZE \<and> a mod PGSIZE < off + length bs
        then bs ! (a mod PGSIZE - off) else phys k (f + a mod PGSIZE))"
      by (auto simp: k'_def poke_bytes_def f_def)
    have "n * PGSIZE + off \<le> a \<longleftrightarrow> off \<le> a mod PGSIZE" "a < n * PGSIZE + off + length bs \<longleftrightarrow> a mod PGSIZE < off + length bs"
      "a - (n * PGSIZE + off) = a mod PGSIZE - off" using a by linarith+
    then show ?thesis using p True n c(2) f by (simp add: umem_def uf f_def)
  next
    case False
    have "a div PGSIZE = n" if "n * PGSIZE + off \<le> a" "a < n * PGSIZE + off + length bs"
      using in_pages [of n a "Suc n"] that len by auto
    then have out: "\<not> (n * PGSIZE + off \<le> a \<and> a < n * PGSIZE + off + length bs)" using False by blast
    show ?thesis
    proof (cases "a div PGSIZE \<in> upages (phys k) d")
      case True
      then have "uframe (phys k) d (a div PGSIZE) \<noteq> f" using space_okD(4) [OF ok] n False by (auto simp: inj_on_def f_def)
      then have "phys k' (uframe (phys k) d (a div PGSIZE) + a mod PGSIZE) = phys k (uframe (phys k) d (a div PGSIZE) + a mod PGSIZE)"
        using owned_frames [OF ok True] page_aligned(1) by (intro unchanged_byte [OF u]) (auto simp: PGSIZE_def)
      then show ?thesis using True out uf c(2) f by (auto simp: umem_def)
    qed (use out c(2) f in \<open>auto simp: umem_def\<close>)
  qed
qed

lemma uva2ka_user:
  assumes ok: "space_ok kend kdata k d ps" and n: "n < 160"
  shows "uva2ka d (n * PGSIZE) k = Some (if n \<in> upages (phys k) d then uframe (phys k) d n else 0)"
proof -
  note w = walk_user(1) [OF ok n, where c = False] walk_user(2) [OF ok n]
  show ?thesis using w space_okD(3) [OF ok, of n] n by (auto simp: uva2ka_def Let_def uframe_def upages_def npages)
qed

lemma copyout_spec:
  assumes "space_ok kend kdata k d ps" "va + length bs \<le> USERTOP"
  shows "\<exists>ok k'. copyout d va bs k = Some (ok, k') \<and> space_ok kend kdata k' d ps \<and>
    owned (phys k') d = owned (phys k) d \<and> upages (phys k') d = upages (phys k) d \<and>
    unchanged (frames (phys k) d) (phys k) (phys k') \<and>
    (ok \<longleftrightarrow> (\<forall>a. va \<le> a \<and> a < va + length bs \<longrightarrow> umem (phys k) d a \<noteq> None)) \<and>
    (\<forall>a. \<not> (va \<le> a \<and> a < va + length bs) \<longrightarrow> umem (phys k') d a = umem (phys k) d a) \<and>
    (ok \<longrightarrow> (\<forall>a. va \<le> a \<and> a < va + length bs \<longrightarrow> umem (phys k') d a = Some (bs ! (a - va))))"
  using assms
proof (induction "length bs" arbitrary: va bs k rule: less_induct)
  case less
  note ok = less.prems(1)
  show ?case
  proof (cases "bs = []")
    case True
    then show ?thesis using ok by (subst copyout.simps) auto
  next
    case False
    define n where "n = va div PGSIZE"
    define off where "off = va mod PGSIZE"
    define c where "c = min (PGSIZE - off) (length bs)"
    have va: "va = n * PGSIZE + off" "off < PGSIZE" by (simp_all add: n_def off_def PGSIZE_def)
    have va0: "PGROUNDDOWN va = n * PGSIZE" "va - n * PGSIZE = off" using va by (simp_all add: PGROUNDDOWN_def n_def off_def minus_div_mult_eq_mod)
    have c: "0 < c" "c \<le> length bs" "off + c \<le> PGSIZE" using va False by (auto simp: c_def)
    have len: "n * PGSIZE + off + length bs \<le> 160 * PGSIZE" using less.prems(2) va by (simp add: USERTOP_def PGSIZE_def)
    have n: "n < 160"
    proof -
      have "n * PGSIZE < 160 * PGSIZE" using len False by (cases bs) (auto simp: PGSIZE_def)
      then show ?thesis by (simp add: PGSIZE_def)
    qed
    note pa = uva2ka_user [OF ok n]
    show ?thesis
    proof (cases "n \<in> upages (phys k) d")
      case nu: False
      have "umem (phys k) d va = None" using nu by (simp add: umem_def n_def)
      then have "\<not> (\<forall>a. va \<le> a \<and> a < va + length bs \<longrightarrow> umem (phys k) d a \<noteq> None)"
        using False by (metis add_leD1 le_add1 length_greater_0_conv less_add_same_cancel1 order_refl)
      moreover have "copyout d va bs k = Some (False, k)" using False pa nu va0 by (subst copyout.simps) (simp add: Let_def)
      ultimately show ?thesis using ok by (intro exI [of _ False] exI [of _ k]) auto
    next
      case nu: True
      define f where "f = uframe (phys k) d n"
      have f0: "f \<noteq> 0" using owned_frames [OF ok nu] page_aligned(2) by (auto simp: f_def)
      define k1 where "k1 = k\<lparr>phys := poke_bytes (phys k) (f + off) (take c bs)\<rparr>"
      have lt: "length (take c bs) = c" using c by simp
      note pk = poke_user [OF ok nu, of off "take c bs", unfolded lt, OF c(3), folded f_def, folded k1_def]
      have next_va: "(n * PGSIZE + PGSIZE) mod 2 ^ 32 = Suc n * PGSIZE" using n by (simp add: PGSIZE_def)
      have step: "copyout d va bs k = copyout d (Suc n * PGSIZE) (drop c bs) k1"
        using False pa nu va0 f0 next_va
        by (subst copyout.simps) (simp add: Let_def f_def [symmetric] c_def [symmetric] k1_def del: mult_Suc)
      have end_eq: "length (drop c bs) = 0 \<or> va + c = Suc n * PGSIZE" using va by (auto simp: c_def)
      have bound: "Suc n * PGSIZE + length (drop c bs) \<le> USERTOP"
      proof (cases "length (drop c bs) = 0")
        case True
        have "Suc n * PGSIZE \<le> 160 * PGSIZE" using n by (intro mult_le_mono1) simp
        then show ?thesis using True by (simp add: USERTOP_def PGSIZE_def)
      next
        case False
        then have "Suc n * PGSIZE + length (drop c bs) = va + length bs" using end_eq c by auto
        then show ?thesis using less.prems(2) by simp
      qed
      have "length (drop c bs) < length bs" using c False by simp
      from less.hyps [OF this pk(1) bound] obtain b k' where
        r: "copyout d (Suc n * PGSIZE) (drop c bs) k1 = Some (b, k')" "space_ok kend kdata k' d ps"
          "owned (phys k') d = owned (phys k1) d" "upages (phys k') d = upages (phys k1) d"
          "unchanged (frames (phys k1) d) (phys k1) (phys k')"
        and b: "b \<longleftrightarrow> (\<forall>a. Suc n * PGSIZE \<le> a \<and> a < Suc n * PGSIZE + length (drop c bs) \<longrightarrow> umem (phys k1) d a \<noteq> None)"
        and rest: "\<And>a. \<not> (Suc n * PGSIZE \<le> a \<and> a < Suc n * PGSIZE + length (drop c bs)) \<Longrightarrow> umem (phys k') d a = umem (phys k1) d a"
        and new: "\<And>a. b \<Longrightarrow> Suc n * PGSIZE \<le> a \<Longrightarrow> a < Suc n * PGSIZE + length (drop c bs) \<Longrightarrow>
          umem (phys k') d a = Some (drop c bs ! (a - Suc n * PGSIZE))" by blast
      define E where "E = Suc n * PGSIZE"
      have vc: "va + c \<le> E" using va c(3) by (simp add: E_def)
      have split: "va \<le> a \<and> a < va + length bs \<longleftrightarrow> (va \<le> a \<and> a < va + c) \<or> (E \<le> a \<and> a < E + length (drop c bs))" for a
        using end_eq c(2) unfolding E_def [symmetric] by auto
      have um1: "umem (phys k1) d a = (if va \<le> a \<and> a < va + c then Some (bs ! (a - va)) else umem (phys k) d a)" for a
        using pk(6) [of a] va(1) by auto
      have in1: "umem (phys k) d a \<noteq> None" if "va \<le> a" "a < va + c" for a
      proof -
        have "a div PGSIZE = n" using in_pages [of n a "Suc n"] that va(1) vc unfolding E_def by simp
        then show ?thesis using nu by (simp add: umem_def)
      qed
      have b': "b \<longleftrightarrow> (\<forall>a. va \<le> a \<and> a < va + length bs \<longrightarrow> umem (phys k) d a \<noteq> None)"
        unfolding b E_def [symmetric]
      proof (intro iffI allI impI)
        fix a assume H: "\<forall>a. E \<le> a \<and> a < E + length (drop c bs) \<longrightarrow> umem (phys k1) d a \<noteq> None" and "va \<le> a \<and> a < va + length bs"
        then consider "va \<le> a" "a < va + c" | "E \<le> a" "a < E + length (drop c bs)" using split by blast
        then show "umem (phys k) d a \<noteq> None"
        proof cases
          case 2
          then have "umem (phys k1) d a = umem (phys k) d a" using um1 [of a] vc by simp
          then show ?thesis using H 2 by metis
        qed (rule in1)
      next
        fix a assume H: "\<forall>a. va \<le> a \<and> a < va + length bs \<longrightarrow> umem (phys k) d a \<noteq> None" and a: "E \<le> a \<and> a < E + length (drop c bs)"
        then have "umem (phys k) d a \<noteq> None" using split [of a] by blast
        then show "umem (phys k1) d a \<noteq> None" using um1 [of a] by simp
      qed
      have rest': "umem (phys k') d a = umem (phys k) d a" if "\<not> (va \<le> a \<and> a < va + length bs)" for a
        using rest [of a] um1 [of a] split [of a] that unfolding E_def by auto
      have new': "umem (phys k') d a = Some (bs ! (a - va))" if "b" "va \<le> a" "a < va + length bs" for a
      proof (cases "va + c \<le> a")
        case True
        then have "E \<le> a" "a < E + length (drop c bs)" "va + c = E" using split [of a] that end_eq by (auto simp: E_def)
        then show ?thesis using new [OF that(1), folded E_def] c(2) by auto
      next
        case False
        then show ?thesis using rest [of a] um1 [of a] that vc unfolding E_def by auto
      qed
      have "frames (phys k1) d = frames (phys k) d" by (rule pk(5))
      then have "unchanged (frames (phys k) d) (phys k) (phys k')" using unchanged_trans [OF pk(4) r(5)] by simp
      then show ?thesis using step r(1,2,3,4) pk(2,3) b' rest' new' by (intro exI [of _ b] exI [of _ k']) simp
    qed
  qed
qed

end
