(* ===== verification/Exec.thy ===== *)
theory Exec
  imports VmProc FsDir
begin

text \<open>
  Building the memory image of a program: \<open>kernel/exec.c\<close> of P5 up to the point where the new image is committed, and
  \<open>loaduvm\<close> of \<open>kernel/vm.c\<close>.  The file comes from the file system of \<open>FsDir\<close>, the pages from the allocator of \<open>Kalloc\<close>;
  \<open>argv\<close> is the list of the argument strings.  A buffer on the stack holds \<open>junk\<close> where nothing was written.
\<close>

definition ELF_MAGIC :: nat where "ELF_MAGIC = 0x464C457F"
definition ELF_PROG_LOAD :: nat where "ELF_PROG_LOAD = 1"
definition MAXARG :: nat where "MAXARG = 32"

text \<open>The fields of the two structures that the code reads.\<close>

record elfhdr =
  e_magic :: nat
  e_entry :: nat
  e_phoff :: nat
  e_phnum :: nat

record proghdr =
  ph_type :: nat
  ph_offset :: nat
  ph_va :: nat
  ph_filesz :: nat
  ph_memsz :: nat

definition le32 :: "u8 list \<Rightarrow> nat \<Rightarrow> nat" where "le32 bs a = load32 (\<lambda>x. bs ! x) a"

definition elfhdr_of :: "u8 list \<Rightarrow> elfhdr" where
  "elfhdr_of bs = \<lparr>e_magic = le32 bs 0, e_entry = le32 bs 24, e_phoff = le32 bs 28,
     e_phnum = unat (bs ! 44) + 256 * unat (bs ! 45)\<rparr>"

definition proghdr_of :: "u8 list \<Rightarrow> proghdr" where
  "proghdr_of bs = \<lparr>ph_type = le32 bs 0, ph_offset = le32 bs 4, ph_va = le32 bs 8, ph_filesz = le32 bs 16,
     ph_memsz = le32 bs 20\<rparr>"

definition fill_buffer :: "nat \<Rightarrow> (nat \<Rightarrow> u8) \<Rightarrow> u8 list \<Rightarrow> u8 list" where
  "fill_buffer n junk out = map (\<lambda>j. if j < length out then out ! j else junk j) [0..<n]"

section \<open>Loading the segments\<close>

text \<open>
  The loop of \<open>loaduvm\<close>; the \<open>uint\<close> \<open>i\<close> wraps around, so for the largest sizes the loop has no end of its own.  Neither the
  entry's presence bit nor its user bit is looked at.
\<close>

partial_function (option) loaduvm_loop ::
  "devsw \<Rightarrow> nat \<Rightarrow> nat \<Rightarrow> nat \<Rightarrow> nat \<Rightarrow> nat \<Rightarrow> nat \<Rightarrow> fs \<Rightarrow> kmem \<Rightarrow> (bool \<times> fs \<times> kmem) option" where
  [code]: "loaduvm_loop dv d addr ip offset sz i f k =
     (if i < sz then
        (case fst (walkpgdir d ((addr + i) mod 2 ^ 32) False k) of
           None \<Rightarrow> None
         | Some pte \<Rightarrow> let pa = PTE_ADDR (load32 (phys k) pte); n = min (sz - i) PGSIZE in do {
             (r, out, f1) \<leftarrow> readi dv ip (of_nat (offset + i)) (of_nat n) f;
             let k1 = k\<lparr>phys := poke_bytes (phys k) pa out\<rparr>;
             if r \<noteq> int n then Some (False, f1, k1)
             else loaduvm_loop dv d addr ip offset sz ((i + PGSIZE) mod 2 ^ 32) f1 k1 })
      else Some (True, f, k))"

definition loaduvm ::
  "devsw \<Rightarrow> nat \<Rightarrow> nat \<Rightarrow> nat \<Rightarrow> nat \<Rightarrow> nat \<Rightarrow> fs \<Rightarrow> kmem \<Rightarrow> (bool \<times> fs \<times> kmem) option" where
  "loaduvm dv d addr ip offset sz f k =
     (if addr mod PGSIZE \<noteq> 0 then None else loaduvm_loop dv d addr ip offset sz 0 f k)"

text \<open>One pass of the loop over the program headers; the inner \<open>None\<close> is \<open>goto bad\<close>.\<close>

definition load_segment ::
  "devsw \<Rightarrow> nat \<Rightarrow> nat \<Rightarrow> nat \<Rightarrow> proghdr \<Rightarrow> nat \<Rightarrow> fs \<Rightarrow> kmem \<Rightarrow> (nat option \<times> fs \<times> kmem) option" where
  "load_segment dv kend d ip ph sz f k =
     (if ph_type ph \<noteq> ELF_PROG_LOAD then Some (Some sz, f, k)
      else if ph_memsz ph < ph_filesz ph then Some (None, f, k)
      else do {
        (sz1, k1) \<leftarrow> allocuvm kend d sz ((ph_va ph + ph_memsz ph) mod 2 ^ 32) k;
        if sz1 = 0 then Some (None, f, k1)
        else do {
          (ok, f1, k2) \<leftarrow> loaduvm dv d (ph_va ph) ip (ph_offset ph) (ph_filesz ph) f k1;
          Some (if ok then Some sz1 else None, f1, k2) } })"

fun load_segments ::
  "devsw \<Rightarrow> nat \<Rightarrow> nat \<Rightarrow> nat \<Rightarrow> (nat \<Rightarrow> u8) \<Rightarrow> nat \<Rightarrow> u32 \<Rightarrow> nat \<Rightarrow> fs \<Rightarrow> kmem \<Rightarrow> (nat option \<times> fs \<times> kmem) option" where
  "load_segments dv kend d ip junk 0 off sz f k = Some (Some sz, f, k)"
| "load_segments dv kend d ip junk (Suc n) off sz f k = do {
     (r, out, f1) \<leftarrow> readi dv ip off 32 f;
     if r \<noteq> 32 then Some (None, f1, k)
     else do {
       (res, f2, k1) \<leftarrow> load_segment dv kend d ip (proghdr_of (fill_buffer 32 junk out)) sz f1 k;
       case res of None \<Rightarrow> Some (None, f2, k1)
       | Some sz1 \<Rightarrow> load_segments dv kend d ip junk n (off + 32) sz1 f2 k1 } }"

section \<open>The stack\<close>

text \<open>Pushing the argument strings; \<open>ptrs\<close> is the part of \<open>ustack\<close> from index 3 on.\<close>

fun push_args :: "nat \<Rightarrow> u8 list list \<Rightarrow> nat \<Rightarrow> nat list \<Rightarrow> kmem \<Rightarrow> ((nat \<times> nat list) option \<times> kmem) option" where
  "push_args d [] sp ptrs k = Some (Some (sp, ptrs), k)"
| "push_args d (a # as) sp ptrs k =
     (if MAXARG \<le> length ptrs then Some (None, k)
      else let sp1 = nat ((int sp - int (length a + 1)) mod 2 ^ 32) div 4 * 4 in do {
        (ok, k1) \<leftarrow> copyout d sp1 (a @ [0]) k;
        if ok then push_args d as sp1 (ptrs @ [sp1]) k1 else Some (None, k1) })"

definition bytes32 :: "nat \<Rightarrow> u8 list" where
  "bytes32 v = [of_nat v, of_nat (v div 256), of_nat (v div 65536), of_nat (v div 16777216)]"

definition ustack :: "nat \<Rightarrow> nat list \<Rightarrow> nat list" where
  "ustack sp ptrs = (let argc = length ptrs in
     0xffffffff # argc # nat ((int sp - int ((argc + 1) * 4)) mod 2 ^ 32) # ptrs @ [0])"

definition push_frame :: "nat \<Rightarrow> nat \<Rightarrow> nat list \<Rightarrow> kmem \<Rightarrow> (nat option \<times> kmem) option" where
  "push_frame d sp ptrs k =
     (let sp1 = nat ((int sp - int ((3 + length ptrs + 1) * 4)) mod 2 ^ 32) in do {
        (ok, k1) \<leftarrow> copyout d sp1 (concat (map bytes32 (ustack sp ptrs))) k;
        Some (if ok then Some sp1 else None, k1) })"

text \<open>The stack page, the strings and the frame; the result is the size and the stack pointer.\<close>

definition build_stack :: "nat \<Rightarrow> nat \<Rightarrow> u8 list list \<Rightarrow> nat \<Rightarrow> kmem \<Rightarrow> ((nat \<times> nat) option \<times> kmem) option" where
  "build_stack kend d argv sz0 k =
     (let sz1 = PGROUNDUP sz0 in do {
        (sz, k1) \<leftarrow> allocuvm kend d sz1 ((sz1 + PGSIZE) mod 2 ^ 32) k;
        if sz = 0 then Some (None, k1)
        else do {
          (st, k2) \<leftarrow> push_args d argv sz [] k1;
          case st of None \<Rightarrow> Some (None, k2)
          | Some (sp, ptrs) \<Rightarrow> do {
              (r, k3) \<leftarrow> push_frame d sp ptrs k2;
              Some (map_option (Pair sz) r, k3) } } })"

section \<open>The image\<close>

record image =
  im_pgdir :: nat
  im_sz :: nat
  im_entry :: nat
  im_sp :: nat

text \<open>The label \<open>bad\<close>: a page directory and a locked inode are given back if there are any.\<close>

definition exec_bad :: "nat \<Rightarrow> nat \<Rightarrow> nat option \<Rightarrow> fs \<Rightarrow> kmem \<Rightarrow> (image option \<times> fs \<times> kmem) option" where
  "exec_bad kend d ip f k = do {
     k1 \<leftarrow> (if d \<noteq> 0 then freevm kend d k else Some k);
     f1 \<leftarrow> (case ip of None \<Rightarrow> Some f | Some i \<Rightarrow> iunlockput i f);
     Some (None, f1, k1) }"

text \<open>Opening the file and checking the header: the result of \<open>readi\<close> is compared as an unsigned number.\<close>

definition exec_header ::
  "devsw \<Rightarrow> nat \<Rightarrow> u8 list \<Rightarrow> (nat \<Rightarrow> u8) \<Rightarrow> fs \<Rightarrow> ((nat \<times> elfhdr option) option \<times> fs) option" where
  "exec_header dv c path junk f = do {
     (r, f1) \<leftarrow> namei c path f;
     case r of None \<Rightarrow> Some (None, f1)
     | Some ip \<Rightarrow> do {
         f2 \<leftarrow> ilock ip f1;
         (n, out, f3) \<leftarrow> readi dv ip 0 52 f2;
         let elf = elfhdr_of (fill_buffer 52 junk out);
         Some (Some (ip, if n mod 2 ^ 32 < 52 \<or> e_magic elf \<noteq> ELF_MAGIC then None else Some elf), f3) } }"

definition exec_image ::
  "devsw \<Rightarrow> nat \<Rightarrow> nat \<Rightarrow> nat \<Rightarrow> u8 list \<Rightarrow> u8 list list \<Rightarrow> (nat \<Rightarrow> u8) \<Rightarrow> fs \<Rightarrow> kmem \<Rightarrow> (image option \<times> fs \<times> kmem) option" where
  "exec_image dv kend kdata c path argv junk f k = do {
     (h, f1) \<leftarrow> exec_header dv c path junk f;
     case h of None \<Rightarrow> Some (None, f1, k)
     | Some (ip, None) \<Rightarrow> exec_bad kend 0 (Some ip) f1 k
     | Some (ip, Some elf) \<Rightarrow> do {
         (d, k1) \<leftarrow> setupkvm kdata k;
         if d = 0 then exec_bad kend 0 (Some ip) f1 k1
         else do {
           (res, f2, k2) \<leftarrow> load_segments dv kend d ip junk (e_phnum elf) (of_nat (e_phoff elf)) 0 f1 k1;
           case res of None \<Rightarrow> exec_bad kend d (Some ip) f2 k2
           | Some sz0 \<Rightarrow> do {
               f3 \<leftarrow> iunlockput ip f2;
               (st, k3) \<leftarrow> build_stack kend d argv sz0 k2;
               case st of None \<Rightarrow> exec_bad kend d None f3 k3
               | Some (sz, sp) \<Rightarrow>
                   Some (Some \<lparr>im_pgdir = d, im_sz = sz, im_entry = e_entry elf, im_sp = sp\<rparr>, f3, k3) } } } }"

end
