(* ===== verification/ExecLoad.thy ===== *)
theory ExecLoad
  imports Exec
begin

text \<open>
  Loading the segments of a program into a new address space (\<open>Exec\<close>): what every run of it keeps, and what it does
  for a well-formed file.
\<close>

section \<open>An image under construction\<close>

text \<open>
  The new address space holds the pages below \<open>sz\<close>; it and the free pages make up the pages that were free at first, and
  no other page was written.
\<close>

definition building :: "nat \<Rightarrow> nat \<Rightarrow> memory \<Rightarrow> nat set \<Rightarrow> nat \<Rightarrow> kmem \<Rightarrow> nat \<Rightarrow> nat list \<Rightarrow> bool" where
  "building kend kdata m0 P sz k d ps \<longleftrightarrow> space_ok kend kdata k d ps \<and> upages (phys k) d = {0..<pages_up sz} \<and> sz \<le> USERTOP \<and>
     P = set ps \<union> owned (phys k) d \<and> unchanged P m0 (phys k)"

lemma buildingD:
  assumes "building kend kdata m0 P sz k d ps"
  shows "space_ok kend kdata k d ps" "upages (phys k) d = {0..<pages_up sz}" "sz \<le> USERTOP" "P = set ps \<union> owned (phys k) d"
    "unchanged P m0 (phys k)"
  using assms unfolding building_def by blast+

lemma building_setup:
  assumes "kmem_inv kend k ps" "kdata mod PGSIZE = 0" "0x100000 < kdata" "kdata < PHYSTOP"
  shows "\<exists>d k' ps'. setupkvm kdata k = Some (d, k') \<and> (d \<noteq> 0 \<longrightarrow> building kend kdata (phys k) (set ps) 0 k' d ps') \<and>
    kmem_inv kend k' ps' \<and> set ps' \<subseteq> set ps \<and> unchanged (set ps) (phys k) (phys k') \<and> length ps \<le> length ps' + 1025 \<and> (d = 0 \<longrightarrow> ps' = [])"
proof -
  from setupkvm_space [OF assms] obtain r k' ps' where r: "setupkvm kdata k = Some (r, k')" "kmem_inv kend k' ps'" "set ps' \<subseteq> set ps"
    "unchanged (set ps) (phys k) (phys k')" "length ps \<le> length ps' + 1025" "r = 0 \<longrightarrow> ps' = []"
    "r \<noteq> 0 \<longrightarrow> space_ok kend kdata k' r ps' \<and> upages (phys k') r = {} \<and> owned (phys k') r = set ps - set ps'" by blast
  then have "r \<noteq> 0 \<longrightarrow> building kend kdata (phys k) (set ps) 0 k' r ps'"
    by (auto simp: building_def pages_up_def PGSIZE_def)
  with r show ?thesis by blast
qed

lemma unchanged_step: "unchanged P m0 m \<Longrightarrow> unchanged S m m' \<Longrightarrow> S \<subseteq> P \<Longrightarrow> unchanged P m0 m'"
  using unchanged_mono [OF unchanged_trans, of P m0 m S m' P] by blast

lemma pages_up_mono: "a \<le> b \<Longrightarrow> pages_up a \<le> pages_up b"
  by (simp add: pages_up_def div_le_mono)

lemma building_alloc:
  assumes b: "building kend kdata m0 P sz k d ps"
  shows "\<exists>r k' ps'. allocuvm kend d sz newsz k = Some (r, k') \<and>
    (r \<noteq> 0 \<and> r = max sz newsz \<and> building kend kdata m0 P r k' d ps' \<and> length ps = length ps' + (pages_up r - pages_up sz) \<and>
       umem (phys k') d = (\<lambda>a. if pages_up sz * PGSIZE \<le> a \<and> a < pages_up r * PGSIZE then Some 0 else umem (phys k) d a) \<or>
     r = 0 \<and> building kend kdata m0 P sz k' d ps' \<and>
       (USERTOP < newsz \<or> max sz newsz = 0 \<or> length ps < pages_up newsz - pages_up sz))"
proof (cases "newsz > USERTOP \<or> newsz < sz")
  case True
  then show ?thesis using b
    by (intro exI [of _ "if newsz > USERTOP then 0 else sz"] exI [of _ k] exI [of _ ps]) (auto simp: allocuvm_def fun_eq_iff)
next
  case False
  note D = buildingD [OF b]
  from False have sz: "sz \<le> newsz" "newsz \<le> USERTOP" by auto
  have "upages (phys k) d \<inter> {pages_up sz..<pages_up newsz} = {}" using D(2) by auto
  from allocuvm_spec [OF D(1) sz this] obtain r k' ps' where
    r: "allocuvm kend d sz newsz k = Some (r, k')" and
    c: "r = newsz \<and> took kend kdata d (pages_up sz) (pages_up newsz) (\<lambda>_. 0) k ps k' ps' \<or>
     r = 0 \<and> length ps < pages_up newsz - pages_up sz \<and> undone kend kdata d k ps k' ps'" by blast
  from c show ?thesis
  proof
    assume t: "r = newsz \<and> took kend kdata d (pages_up sz) (pages_up newsz) (\<lambda>_. 0) k ps k' ps'"
    then obtain us where us: "ps = us @ ps'" "length us = pages_up newsz - pages_up sz" "space_ok kend kdata k' d ps'"
      "upages (phys k') d = upages (phys k) d \<union> {pages_up sz..<pages_up newsz}" "owned (phys k') d = owned (phys k) d \<union> set us"
      "unchanged (tables (phys k) d \<union> set us) (phys k) (phys k')"
      "\<forall>va. umem (phys k') d va = (if pages_up sz * PGSIZE \<le> va \<and> va < pages_up newsz * PGSIZE then Some 0 else umem (phys k) d va)"
      unfolding took_def by blast
    have "unchanged P m0 (phys k')"
      by (rule unchanged_step [OF D(5) us(6)]) (use D(4) us(1) in \<open>auto simp: owned_def\<close>)
    then have "building kend kdata m0 P newsz k' d ps'"
      using us(1,3-5) D(2,4) sz pages_up_mono [OF sz(1)] by (auto simp: building_def)
    moreover have "umem (phys k') d = (\<lambda>a. if pages_up sz * PGSIZE \<le> a \<and> a < pages_up newsz * PGSIZE then Some 0 else umem (phys k) d a)"
      using us(7) by (intro ext) simp
    ultimately show ?thesis using r us(1,2) sz t
      by (intro exI [of _ newsz] exI [of _ k'] exI [of _ ps']) (cases "newsz = 0"; auto)
  next
    assume u: "r = 0 \<and> length ps < pages_up newsz - pages_up sz \<and> undone kend kdata d k ps k' ps'"
    then have u': "space_ok kend kdata k' d ps'" "set ps' = set ps" "upages (phys k') d = upages (phys k) d"
      "owned (phys k') d = owned (phys k) d" "unchanged (tables (phys k) d \<union> set ps) (phys k) (phys k')"
      unfolding undone_def by blast+
    have "unchanged P m0 (phys k')" by (rule unchanged_step [OF D(5) u'(5)]) (use D(4) in \<open>auto simp: owned_def\<close>)
    then have "building kend kdata m0 P sz k' d ps'" using u' D by (auto simp: building_def)
    then show ?thesis using r u by blast
  qed
qed

lemma building_poke:
  assumes b: "building kend kdata m0 P sz k d ps" and n: "n < pages_up sz" and len: "off + length bs \<le> PGSIZE"
  defines "k' \<equiv> k\<lparr>phys := poke_bytes (phys k) (uframe (phys k) d n + off) bs\<rparr>"
  shows "building kend kdata m0 P sz k' d ps"
    "umem (phys k') d = (\<lambda>a. if n * PGSIZE + off \<le> a \<and> a < n * PGSIZE + off + length bs
       then Some (bs ! (a - (n * PGSIZE + off))) else umem (phys k) d a)"
proof -
  note D = buildingD [OF b]
  have "n \<in> upages (phys k) d" using n D(2) by simp
  note p = poke_user [OF D(1) this len, folded k'_def]
  have "unchanged P m0 (phys k')" by (rule unchanged_step [OF D(5) p(4)]) (use D(4) in \<open>auto simp: owned_def\<close>)
  then show "building kend kdata m0 P sz k' d ps" using p(1-3) D by (simp add: building_def)
  show "umem (phys k') d = (\<lambda>a. if n * PGSIZE + off \<le> a \<and> a < n * PGSIZE + off + length bs
       then Some (bs ! (a - (n * PGSIZE + off))) else umem (phys k) d a)" using p(6) by (intro ext) simp
qed

lemma building_free:
  assumes b: "building kend kdata m0 P sz k d ps"
  shows "\<exists>k' ps'. freevm kend d k = Some k' \<and> kmem_inv kend k' ps' \<and> set ps' = P \<and> unchanged P m0 (phys k')"
proof -
  note D = buildingD [OF b]
  from freevm_spec [OF D(1)] obtain k' ps' where k': "freevm kend d k = Some k'" "kmem_inv kend k' ps'"
    "set ps' = set ps \<union> owned (phys k) d" "unchanged (owned (phys k) d) (phys k) (phys k')" by blast
  then show ?thesis using unchanged_step [OF D(5) k'(4)] D(4) by auto
qed

section \<open>Loading keeps it\<close>

text \<open>What a device driver promises: \<open>read\<close> stores no more bytes than asked for.\<close>

definition reads_bounded :: "devsw \<Rightarrow> bool" where
  "reads_bounded dv \<longleftrightarrow> (\<forall>m g i n f r out f'. dev_read dv m = Some g \<longrightarrow> g i n f = Some (r, out, f') \<longrightarrow> length out \<le> unat n)"

lemma readi_loop_length: "readi_loop i nb off r s = Some (ok, out, s') \<Longrightarrow> length out \<le> r"
proof (induction i nb off r s arbitrary: ok out s' rule: readi_loop.induct)
  case (1 i nb off r s)
  show ?case
  proof (cases "r = 0")
    case True
    then show ?thesis using "1.prems" by (simp add: readi_loop.simps)
  next
    case False
    from "1.prems" False show ?thesis
      by (subst (asm) readi_loop.simps)
        (auto simp: Let_def Option.bind_eq_Some_conv split: if_splits dest!: "1.IH" [OF False _ refl refl refl refl])
  qed
qed

lemma readi_length:
  assumes "readi dv i off n f = Some (r, out, f')" "reads_bounded dv"
  shows "length out \<le> unat n"
proof -
  have "unat (if off + n > isize (icache f i) then isize (icache f i) - off else n) \<le> unat n" if "\<not> (off > isize (icache f i) \<or> off + n < off)"
    using that by unat_arith
  then show ?thesis using assms
    by (fastforce simp: readi_def Let_def Option.bind_eq_Some_conv reads_bounded_def split: if_splits option.splits
        dest!: readi_loop_length intro: order_trans)
qed

text \<open>One page of a segment.\<close>

lemma loaduvm_page:
  assumes b: "building kend kdata m0 P sz k d ps" and al: "addr mod PGSIZE = 0" "i mod PGSIZE = 0"
    and i: "i < seg" "addr + seg \<le> sz"
  defines "n \<equiv> (addr + i) div PGSIZE" and "len \<equiv> min (seg - i) PGSIZE"
  shows "loaduvm_loop dv d addr ip offset seg i f k = do {
      (r, out, f1) \<leftarrow> readi dv ip (of_nat (offset + i)) (of_nat len) f;
      let k1 = k\<lparr>phys := poke_bytes (phys k) (uframe (phys k) d n) out\<rparr>;
      if r \<noteq> int len then Some (False, f1, k1)
      else loaduvm_loop dv d addr ip offset seg (i + PGSIZE) f1 k1 }"
    "n < pages_up sz" "n * PGSIZE = addr + i" "len \<le> PGSIZE" "unat (of_nat len :: u32) = len"
proof -
  note D = buildingD [OF b]
  have "PGSIZE dvd addr + i" using al by (auto simp: mod_eq_0_iff_dvd)
  then show n: "n * PGSIZE = addr + i" by (simp only: n_def dvd_div_mult_self)
  show np: "n < pages_up sz" using i n by (simp add: less_pages_up [symmetric])
  then have n160: "n < 160" using pages_up_le [OF D(3)] by simp
  have small: "(addr + i) mod 2 ^ 32 = n * PGSIZE" "(i + PGSIZE) mod 2 ^ 32 = i + PGSIZE"
    using n i D(3) by (simp_all add: USERTOP_def PGSIZE_def)
  have "load32 (phys k) (PTE_ADDR (pde (phys k) d 0) + 4 * n) = entry (phys k) d n" by (rule walk_user(2) [OF D(1) n160])
  then show "loaduvm_loop dv d addr ip offset seg i f k = do {
      (r, out, f1) \<leftarrow> readi dv ip (of_nat (offset + i)) (of_nat len) f;
      let k1 = k\<lparr>phys := poke_bytes (phys k) (uframe (phys k) d n) out\<rparr>;
      if r \<noteq> int len then Some (False, f1, k1)
      else loaduvm_loop dv d addr ip offset seg (i + PGSIZE) f1 k1 }"
    using i(1) by (subst loaduvm_loop.simps) (simp only: small walk_user(1) [OF D(1) n160] if_True fst_conv option.case Let_def len_def uframe_def)
  show "len \<le> PGSIZE" by (simp add: len_def)
  then have "len < 2 ^ 32" by (simp add: PGSIZE_def)
  then show "unat (of_nat len :: u32) = len" by (simp add: unat_of_nat)
qed

lemma loaduvm_building:
  assumes "building kend kdata m0 P sz k d ps" "addr mod PGSIZE = 0" "i mod PGSIZE = 0" "addr + seg \<le> sz" "reads_bounded dv"
    "loaduvm_loop dv d addr ip offset seg i f k = Some (ok, f', k')"
  shows "building kend kdata m0 P sz k' d ps"
  using assms
proof (induction "seg - i" arbitrary: i f k rule: less_induct)
  case less
  show ?case
  proof (cases "i < seg")
    case False
    then show ?thesis using less.prems(1,6) by (simp add: loaduvm_loop.simps)
  next
    case True
    note pg = loaduvm_page [OF less.prems(1-3) True less.prems(4)]
    from less.prems(6) obtain r out f1 where
      rd: "readi dv ip (of_nat (offset + i)) (of_nat (min (seg - i) PGSIZE)) f = Some (r, out, f1)"
      by (auto simp: pg(1) Option.bind_eq_Some_conv)
    define k1 where "k1 = k\<lparr>phys := poke_bytes (phys k) (uframe (phys k) d ((addr + i) div PGSIZE) + 0) out\<rparr>"
    have "length out \<le> min (seg - i) PGSIZE" using readi_length [OF rd less.prems(5)] unfolding pg(5) .
    then have "0 + length out \<le> PGSIZE" by simp
    from building_poke(1) [OF less.prems(1) pg(2) this] have b1: "building kend kdata m0 P sz k1 d ps" by (simp add: k1_def)
    have al: "(i + PGSIZE) mod PGSIZE = 0" and dec: "seg - (i + PGSIZE) < seg - i"
      using less.prems(3) True by (simp_all add: PGSIZE_def)
    from less.prems(6) rd consider "k' = k1" | "loaduvm_loop dv d addr ip offset seg (i + PGSIZE) f1 k1 = Some (ok, f', k')"
      by (auto simp: pg(1) k1_def Let_def split: if_splits)
    then show ?thesis using b1 less.hyps [OF dec b1 less.prems(2) al less.prems(4,5)] by cases auto
  qed
qed

text \<open>A file that is read without being changed: the bytes loaded are the bytes of the file.\<close>

definition plain_file :: "fs \<Rightarrow> nat \<Rightarrow> bool" where
  "plain_file f ip \<longleftrightarrow> inode_good f ip \<and> itype (icache f ip) \<noteq> T_CHECKED"

lemma plain_contents: "plain_file f ip \<Longrightarrow> length (contents f ip) = unat (isize (icache f ip)) \<and> length (contents f ip) \<le> MAXFILE * BSIZE"
  using inode_goodD(4) [of f ip] by (simp add: plain_file_def contents_def Let_def)

lemma plain_read:
  assumes p: "plain_file f ip" and n: "a + n \<le> length (contents f ip)"
  shows "readi dv ip (of_nat a) (of_nat n) f = Some (int n, take n (drop a (contents f ip)), f)"
proof -
  have le: "a + n \<le> MAXFILE * BSIZE" using n plain_contents [OF p] by simp
  then have "a + n < 2 ^ 31" by (simp add: fs_consts)
  then have u: "unat (of_nat a :: u32) = a" "unat (of_nat n :: u32) = n" "unat (of_nat a :: u32) + unat (of_nat n :: u32) < 2 ^ 31"
    by (simp_all add: unat_of_nat)
  have "(of_nat a :: u32) \<le> isize (icache f ip)" using u(1) n plain_contents [OF p] by (simp add: word_le_nat_alt)
  from readi_spec [OF _ _ this u(3), of dv] p n show ?thesis unfolding u(1,2) by (simp add: plain_file_def)
qed

lemma loaduvm_loop_loads:
  assumes "building kend kdata m0 P sz k d ps" "addr mod PGSIZE = 0" "i mod PGSIZE = 0" "addr + seg \<le> sz"
    "plain_file f ip" "offset + seg \<le> length (contents f ip)"
  shows "\<exists>k'. loaduvm_loop dv d addr ip offset seg i f k = Some (True, f, k') \<and> building kend kdata m0 P sz k' d ps \<and>
    umem (phys k') d = (\<lambda>a. if addr + i \<le> a \<and> a < addr + seg then Some (contents f ip ! (offset + (a - addr))) else umem (phys k) d a)"
  using assms
proof (induction "seg - i" arbitrary: i k rule: less_induct)
  case less
  show ?case
  proof (cases "i < seg")
    case False
    then show ?thesis using less.prems(1) by (auto simp: loaduvm_loop.simps fun_eq_iff)
  next
    case True
    let ?c = "contents f ip" and ?len = "min (seg - i) PGSIZE"
    note pg = loaduvm_page [OF less.prems(1-3) True less.prems(4)]
    have fit: "offset + i + ?len \<le> length ?c" using less.prems(6) True by simp
    note rd = plain_read [OF less.prems(5) fit, of dv]
    let ?out = "take ?len (drop (offset + i) ?c)"
    have lo: "length ?out = ?len" using fit by simp
    define k1 where "k1 = k\<lparr>phys := poke_bytes (phys k) (uframe (phys k) d ((addr + i) div PGSIZE) + 0) ?out\<rparr>"
    have "0 + length ?out \<le> PGSIZE" using lo by simp
    note bp = building_poke [OF less.prems(1) pg(2) this, folded k1_def]
    have al: "(i + PGSIZE) mod PGSIZE = 0" and dec: "seg - (i + PGSIZE) < seg - i"
      using less.prems(3) True by (simp_all add: PGSIZE_def)
    from less.hyps [OF dec bp(1) less.prems(2) al less.prems(4,5,6)] obtain k' where
      k': "loaduvm_loop dv d addr ip offset seg (i + PGSIZE) f k1 = Some (True, f, k')" "building kend kdata m0 P sz k' d ps" and
      u: "umem (phys k') d = (\<lambda>a. if addr + (i + PGSIZE) \<le> a \<and> a < addr + seg then Some (?c ! (offset + (a - addr))) else umem (phys k1) d a)"
      by blast
    have nt: "?out ! (a - (addr + i)) = ?c ! (offset + (a - addr))" if "addr + i \<le> a" "a < addr + i + ?len" for a
    proof -
      have e: "a - (addr + i) < ?len" "offset + i + (a - (addr + i)) = offset + (a - addr)" using that by arith+
      have "?out ! (a - (addr + i)) = ?c ! (offset + i + (a - (addr + i)))" using fit e(1) by simp
      then show ?thesis by (simp only: e(2))
    qed
    have "loaduvm_loop dv d addr ip offset seg i f k = Some (True, f, k')"
      unfolding pg(1) rd using k'(1) by (simp add: k1_def Let_def)
    moreover have "umem (phys k') d a = (if addr + i \<le> a \<and> a < addr + seg then Some (?c ! (offset + (a - addr))) else umem (phys k) d a)" for a
      using True nt [of a] unfolding u bp(2) pg(3) lo by auto
    ultimately show ?thesis using k'(2) by auto
  qed
qed

section \<open>Segments\<close>

text \<open>
  The end of a segment does not wrap around.  The code does not test this: see \<open>exec_overwrites_kernel\<close> for what a
  file can do with such a segment.
\<close>

definition seg_safe :: "proghdr \<Rightarrow> bool" where
  "seg_safe ph \<longleftrightarrow> (ph_type ph = ELF_PROG_LOAD \<longrightarrow> ph_va ph + ph_memsz ph < 2 ^ 32)"

fun segments_safe :: "devsw \<Rightarrow> nat \<Rightarrow> nat \<Rightarrow> nat \<Rightarrow> (nat \<Rightarrow> u8) \<Rightarrow> nat \<Rightarrow> u32 \<Rightarrow> nat \<Rightarrow> fs \<Rightarrow> kmem \<Rightarrow> bool" where
  "segments_safe dv kend d ip junk 0 off sz f k = True"
| "segments_safe dv kend d ip junk (Suc n) off sz f k =
     (case readi dv ip off 32 f of
        Some (r, out, f1) \<Rightarrow> r \<noteq> 32 \<or>
          (let ph = proghdr_of (fill_buffer 32 junk out) in seg_safe ph \<and>
             (case load_segment dv kend d ip ph sz f1 k of
                Some (Some sz1, f2, k1) \<Rightarrow> segments_safe dv kend d ip junk n (off + 32) sz1 f2 k1
              | _ \<Rightarrow> True))
      | None \<Rightarrow> True)"

lemma load_segment_building:
  assumes b: "building kend kdata m0 P sz k d ps" and s: "seg_safe ph" "reads_bounded dv"
    and l: "load_segment dv kend d ip ph sz f k = Some (res, f', k')"
  shows "\<exists>sz' ps'. building kend kdata m0 P sz' k' d ps' \<and> (\<forall>s. res = Some s \<longrightarrow> s = sz')"
proof (cases "ph_type ph \<noteq> ELF_PROG_LOAD \<or> ph_memsz ph < ph_filesz ph")
  case True
  then have "k' = k \<and> (\<forall>s. res = Some s \<longrightarrow> s = sz)" using l by (auto simp: load_segment_def split: if_splits)
  then show ?thesis using b by blast
next
  case False
  then have va: "(ph_va ph + ph_memsz ph) mod 4294967296 = ph_va ph + ph_memsz ph" using s by (simp add: seg_safe_def)
  from building_alloc [OF b, of "ph_va ph + ph_memsz ph"] obtain r k1 ps1 where
    r: "allocuvm kend d sz (ph_va ph + ph_memsz ph) k = Some (r, k1)" and
    c: "r \<noteq> 0 \<and> r = max sz (ph_va ph + ph_memsz ph) \<and> building kend kdata m0 P r k1 d ps1 \<or>
      r = 0 \<and> building kend kdata m0 P sz k1 d ps1" by blast
  show ?thesis
  proof (cases "r = 0")
    case True
    then have "k' = k1 \<and> res = None" using l False r by (simp add: load_segment_def va)
    then show ?thesis using c True by auto
  next
    case rz: False
    then have r': "r = max sz (ph_va ph + ph_memsz ph)" "building kend kdata m0 P r k1 d ps1" using c by auto
    from l False r rz obtain ok where
      ld: "loaduvm dv d (ph_va ph) ip (ph_offset ph) (ph_filesz ph) f k1 = Some (ok, f', k')" and res: "res = (if ok then Some r else None)"
      by (auto simp: load_segment_def va Option.bind_eq_Some_conv)
    from ld have al: "ph_va ph mod PGSIZE = 0"
      and lp: "loaduvm_loop dv d (ph_va ph) ip (ph_offset ph) (ph_filesz ph) 0 f k1 = Some (ok, f', k')"
      by (auto simp: loaduvm_def split: if_splits)
    have "0 mod PGSIZE = 0" "ph_va ph + ph_filesz ph \<le> r" using False r'(1) by auto
    from loaduvm_building [OF r'(2) al this s(2) lp] show ?thesis using res by auto
  qed
qed

lemma load_segments_building:
  "\<lbrakk>building kend kdata m0 P sz k d ps; segments_safe dv kend d ip junk n off sz f k; reads_bounded dv;
    load_segments dv kend d ip junk n off sz f k = Some (res, f', k')\<rbrakk> \<Longrightarrow>
   \<exists>sz' ps'. building kend kdata m0 P sz' k' d ps' \<and> (\<forall>s. res = Some s \<longrightarrow> s = sz')"
proof (induction n arbitrary: off sz f k ps)
  case 0
  then show ?case by auto
next
  case (Suc n)
  from Suc.prems(4) obtain r out f1 where rd: "readi dv ip off 32 f = Some (r, out, f1)"
    by (auto simp: Option.bind_eq_Some_conv)
  show ?case
  proof (cases "r = 32")
    case False
    then show ?thesis using Suc.prems(1,4) rd by auto
  next
    case True
    let ?ph = "proghdr_of (fill_buffer 32 junk out)"
    from Suc.prems(4) rd True obtain res1 f2 k1 where l: "load_segment dv kend d ip ?ph sz f1 k = Some (res1, f2, k1)"
      by (auto simp: Option.bind_eq_Some_conv)
    have safe: "seg_safe ?ph" using Suc.prems(2) rd True by (simp add: Let_def)
    from load_segment_building [OF Suc.prems(1) safe Suc.prems(3) l] obtain sz1 ps1 where
      b1: "building kend kdata m0 P sz1 k1 d ps1" "\<forall>s. res1 = Some s \<longrightarrow> s = sz1" by blast
    show ?thesis
    proof (cases res1)
      case None
      then have "k' = k1 \<and> res = None" using Suc.prems(4) rd True l by simp
      then show ?thesis using b1 by auto
    next
      case (Some s)
      then have s: "res1 = Some sz1" using b1(2) by simp
      have "segments_safe dv kend d ip junk n (off + 32) sz1 f2 k1" using Suc.prems(2) rd True l s by (simp add: Let_def)
      moreover have "load_segments dv kend d ip junk n (off + 32) sz1 f2 k1 = Some (res, f', k')"
        using Suc.prems(4) rd True l s by simp
      ultimately show ?thesis using Suc.IH [OF b1(1)] Suc.prems(3) by blast
    qed
  qed
qed

section \<open>What loading makes of a file\<close>

text \<open>The program headers of a file, and the size and the memory that loading them one after the other gives.\<close>

fun program_headers :: "u8 list \<Rightarrow> nat \<Rightarrow> nat \<Rightarrow> proghdr list" where
  "program_headers bs a 0 = []"
| "program_headers bs a (Suc n) = proghdr_of (take 32 (drop a bs)) # program_headers bs (a + 32) n"

fun load_spec :: "u8 list \<Rightarrow> proghdr list \<Rightarrow> nat \<Rightarrow> (nat \<Rightarrow> u8 option) \<Rightarrow> nat \<times> (nat \<Rightarrow> u8 option)" where
  "load_spec bs [] sz m = (sz, m)"
| "load_spec bs (ph # phs) sz m =
     (if ph_type ph \<noteq> ELF_PROG_LOAD then load_spec bs phs sz m
      else let sz1 = max sz (ph_va ph + ph_memsz ph) in load_spec bs phs sz1 (\<lambda>a.
        if ph_va ph \<le> a \<and> a < ph_va ph + ph_filesz ph then Some (bs ! (ph_offset ph + (a - ph_va ph)))
        else if pages_up sz * PGSIZE \<le> a \<and> a < pages_up sz1 * PGSIZE then Some 0
        else m a))"

definition seg_ok :: "u8 list \<Rightarrow> proghdr \<Rightarrow> bool" where
  "seg_ok bs ph \<longleftrightarrow> (ph_type ph = ELF_PROG_LOAD \<longrightarrow> ph_va ph mod PGSIZE = 0 \<and> ph_filesz ph \<le> ph_memsz ph \<and>
     0 < ph_va ph + ph_memsz ph \<and> ph_va ph + ph_memsz ph \<le> USERTOP - PGSIZE \<and> ph_offset ph + ph_filesz ph \<le> length bs)"

lemma fill_buffer_full: "length out = n \<Longrightarrow> fill_buffer n junk out = out"
  by (auto simp: fill_buffer_def intro: nth_equalityI)

lemma load_spec_mono: "sz \<le> fst (load_spec bs phs sz m)"
  by (induction bs phs sz m rule: load_spec.induct) (auto simp: Let_def)

lemma load_spec_bound: "\<lbrakk>\<forall>ph\<in>set phs. seg_ok bs ph; sz \<le> USERTOP - PGSIZE\<rbrakk> \<Longrightarrow> fst (load_spec bs phs sz m) \<le> USERTOP - PGSIZE"
  by (induction bs phs sz m rule: load_spec.induct) (auto simp: Let_def seg_ok_def)

lemma load_segment_loads:
  assumes b: "building kend kdata m0 P sz k d ps" and t: "ph_type ph = ELF_PROG_LOAD" and s: "seg_ok (contents f ip) ph"
    and p: "plain_file f ip" and n: "pages_up (max sz (ph_va ph + ph_memsz ph)) - pages_up sz \<le> length ps"
  defines "sz1 \<equiv> max sz (ph_va ph + ph_memsz ph)"
  shows "\<exists>k' ps'. load_segment dv kend d ip ph sz f k = Some (Some sz1, f, k') \<and> building kend kdata m0 P sz1 k' d ps' \<and>
    length ps = length ps' + (pages_up sz1 - pages_up sz) \<and>
    umem (phys k') d = (\<lambda>a. if ph_va ph \<le> a \<and> a < ph_va ph + ph_filesz ph then Some (contents f ip ! (ph_offset ph + (a - ph_va ph)))
        else if pages_up sz * PGSIZE \<le> a \<and> a < pages_up sz1 * PGSIZE then Some 0
        else umem (phys k) d a)"
proof -
  from s t have so: "ph_va ph mod PGSIZE = 0" "ph_filesz ph \<le> ph_memsz ph" "0 < ph_va ph + ph_memsz ph"
    "ph_va ph + ph_memsz ph \<le> USERTOP - PGSIZE" "ph_offset ph + ph_filesz ph \<le> length (contents f ip)" by (auto simp: seg_ok_def)
  let ?z = "ph_va ph + ph_memsz ph"
  have va: "?z mod 4294967296 = ?z" using so(4) by (simp add: USERTOP_def)
  have le: "?z \<le> USERTOP" using so(4) by simp
  from building_alloc [OF b, of ?z] obtain r k1 ps1 where r: "allocuvm kend d sz ?z k = Some (r, k1)" and
    c: "r \<noteq> 0 \<and> r = sz1 \<and> building kend kdata m0 P r k1 d ps1 \<and> length ps = length ps1 + (pages_up r - pages_up sz) \<and>
       umem (phys k1) d = (\<lambda>a. if pages_up sz * PGSIZE \<le> a \<and> a < pages_up r * PGSIZE then Some 0 else umem (phys k) d a) \<or>
     r = 0 \<and> (USERTOP < ?z \<or> max sz ?z = 0 \<or> length ps < pages_up ?z - pages_up sz)" unfolding sz1_def by blast
  have mono: "pages_up ?z \<le> pages_up (max sz ?z)" by (rule pages_up_mono) simp
  have "\<not> (USERTOP < ?z \<or> max sz ?z = 0 \<or> length ps < pages_up ?z - pages_up sz)" using le so(3) n mono by simp
  with c have r0: "r \<noteq> 0" "r = sz1" and b1: "building kend kdata m0 P sz1 k1 d ps1" "length ps = length ps1 + (pages_up sz1 - pages_up sz)"
    "umem (phys k1) d = (\<lambda>a. if pages_up sz * PGSIZE \<le> a \<and> a < pages_up sz1 * PGSIZE then Some 0 else umem (phys k) d a)" by auto
  have "0 mod PGSIZE = 0" "ph_va ph + ph_filesz ph \<le> sz1" using so(2) by (auto simp: sz1_def)
  from loaduvm_loop_loads [OF b1(1) so(1) this p so(5), of dv] obtain k' where
    k': "loaduvm_loop dv d (ph_va ph) ip (ph_offset ph) (ph_filesz ph) 0 f k1 = Some (True, f, k')" "building kend kdata m0 P sz1 k' d ps1"
    "umem (phys k') d = (\<lambda>a. if ph_va ph + 0 \<le> a \<and> a < ph_va ph + ph_filesz ph then Some (contents f ip ! (ph_offset ph + (a - ph_va ph))) else umem (phys k1) d a)"
    by blast
  have "load_segment dv kend d ip ph sz f k = Some (Some sz1, f, k')"
    using t so(1,2) r r0 k'(1) by (simp add: load_segment_def va loaduvm_def)
  then show ?thesis using k'(2,3) b1(2) unfolding b1(3) by (intro exI [of _ k'] exI [of _ ps1]) simp
qed

lemma load_segments_loads:
  "\<lbrakk>building kend kdata m0 P sz k d ps; plain_file f ip; a + 32 * n \<le> length (contents f ip);
    \<forall>ph\<in>set (program_headers (contents f ip) a n). seg_ok (contents f ip) ph;
    load_spec (contents f ip) (program_headers (contents f ip) a n) sz (umem (phys k) d) = (sz', m');
    pages_up sz' - pages_up sz \<le> length ps\<rbrakk> \<Longrightarrow>
   \<exists>k' ps'. load_segments dv kend d ip junk n (of_nat a) sz f k = Some (Some sz', f, k') \<and> building kend kdata m0 P sz' k' d ps' \<and>
     umem (phys k') d = m' \<and> length ps = length ps' + (pages_up sz' - pages_up sz)"
proof (induction n arbitrary: a sz k ps)
  case 0
  then show ?case by auto
next
  case (Suc n)
  let ?c = "contents f ip"
  let ?ph = "proghdr_of (take 32 (drop a ?c))"
  have "a + 32 \<le> length ?c" using Suc.prems(3) by simp
  note rd = plain_read [OF Suc.prems(2) this, of dv, simplified]
  have fb: "fill_buffer 32 junk (take 32 (drop a ?c)) = take 32 (drop a ?c)" using Suc.prems(3) by (intro fill_buffer_full) simp
  have off: "(of_nat a :: u32) + 32 = of_nat (a + 32)" by simp
  have rest: "a + 32 + 32 * n \<le> length ?c" "\<forall>ph\<in>set (program_headers ?c (a + 32) n). seg_ok ?c ph" "seg_ok ?c ?ph"
    using Suc.prems(3,4) by auto
  show ?case
  proof (cases "ph_type ?ph = ELF_PROG_LOAD")
    case False
    then have "load_spec ?c (program_headers ?c (a + 32) n) sz (umem (phys k) d) = (sz', m')" using Suc.prems(5) by simp
    from Suc.IH [OF Suc.prems(1,2) rest(1,2) this Suc.prems(6)] show ?thesis
      using rd fb False by (simp add: load_segment_def off del: of_nat_add)
  next
    case True
    let ?sz1 = "max sz (ph_va ?ph + ph_memsz ?ph)"
    let ?m1 = "\<lambda>x. if ph_va ?ph \<le> x \<and> x < ph_va ?ph + ph_filesz ?ph then Some (?c ! (ph_offset ?ph + (x - ph_va ?ph)))
        else if pages_up sz * PGSIZE \<le> x \<and> x < pages_up ?sz1 * PGSIZE then Some 0 else umem (phys k) d x"
    have ls: "load_spec ?c (program_headers ?c (a + 32) n) ?sz1 ?m1 = (sz', m')" using Suc.prems(5) True by (simp add: Let_def)
    then have "?sz1 \<le> sz'" using load_spec_mono [of ?sz1 ?c "program_headers ?c (a + 32) n" ?m1] by simp
    then have pm: "pages_up ?sz1 \<le> pages_up sz'" "pages_up sz \<le> pages_up ?sz1" by (simp_all add: pages_up_mono)
    then have "pages_up ?sz1 - pages_up sz \<le> length ps" using Suc.prems(6) by linarith
    from load_segment_loads [OF Suc.prems(1) True rest(3) Suc.prems(2) this, of dv] obtain k1 ps1 where
      k1: "load_segment dv kend d ip ?ph sz f k = Some (Some ?sz1, f, k1)" "building kend kdata m0 P ?sz1 k1 d ps1"
      "length ps = length ps1 + (pages_up ?sz1 - pages_up sz)" "umem (phys k1) d = ?m1" by blast
    have "pages_up sz' - pages_up ?sz1 \<le> length ps1" using k1(3) Suc.prems(6) pm by linarith
    from Suc.IH [OF k1(2) Suc.prems(2) rest(1,2) _ this] ls obtain k' ps' where
      k': "load_segments dv kend d ip junk n (of_nat (a + 32)) ?sz1 f k1 = Some (Some sz', f, k')" "building kend kdata m0 P sz' k' d ps'"
      "umem (phys k') d = m'" "length ps1 = length ps' + (pages_up sz' - pages_up ?sz1)" unfolding k1(4) by blast
    have "load_segments dv kend d ip junk (Suc n) (of_nat a) sz f k = Some (Some sz', f, k')"
      using rd fb k1(1) k'(1) by (simp add: off del: of_nat_add)
    then show ?thesis using k'(2-4) k1(3) pm by (intro exI [of _ k'] exI [of _ ps']) auto
  qed
qed

end
