(* ===== verification/ExecBuild.thy ===== *)
theory ExecBuild
  imports ExecLoad
begin

text \<open>
  The stack of a new program and the image as a whole (\<open>Exec\<close>): an image that is not finished is given back, and a
  well-formed file with arguments that fit becomes the image its headers describe.
\<close>

section \<open>The stack\<close>

text \<open>Addresses that have wrapped around below 0 belong to the kernel: \<open>copyout\<close> refuses them.\<close>

lemma copyout_kernel:
  assumes ok: "space_ok kend kdata k d ps" and kd: "kdata < PHYSTOP" and va: "0xFE000000 \<le> va" "va < 2 ^ 32" and bs: "bs \<noteq> []"
  shows "copyout d va bs k = Some (False, k)"
proof -
  define n where "n = va div PGSIZE"
  have n: "n < 2 ^ 20" "0xFE000 \<le> n" "PGROUNDDOWN va = n * PGSIZE"
    using va by (simp_all add: n_def PGSIZE_def PGROUNDDOWN_def less_mult_imp_div_less)
  have e: "entry (phys k) d n = kernel_entry kdata n" using space_okD(9) [OF ok n(1)] n(2) by (simp add: npages)
  have kd': "kdata div PGSIZE \<le> 0x1000" using kd by (simp add: PHYSTOP_def PGSIZE_def)
  then have ke: "kernel_entry kdata n = n * PGSIZE OR PTE_W OR PTE_P" using n(2) by (simp add: kernel_entry_def)
  have al: "n * PGSIZE mod PGSIZE = 0" by simp
  have pr: "present (entry (phys k) d n)" unfolding e ke by (rule entry_bits(2) [OF al]) (simp add: perm_ok_def)
  then have "present (pde (phys k) d (n div 1024))" by (auto simp: entry_def Let_def split: if_splits)
  note w = walk_present [OF n(1) this]
  have "entry (phys k) d n AND PTE_U = 0" unfolding e by (rule kernel_entry_protected)
  then have "uva2ka d (n * PGSIZE) k = Some 0" using w by (simp add: uva2ka_def)
  then show ?thesis using bs n(3) by (subst copyout.simps) (simp add: Let_def)
qed

text \<open>Where a block of \<open>l\<close> bytes below \<open>sp\<close> begins, aligned or not.\<close>

lemma below_sp:
  assumes "sp \<le> USERTOP" "l \<le> USERTOP"
  shows "nat ((int sp - int l) mod 2 ^ 32) = (if l \<le> sp then sp - l else 2 ^ 32 - (l - sp))"
proof (cases "l \<le> sp")
  case True
  then have "int sp - int l = int (sp - l)" "sp - l < 2 ^ 32" using assms by (simp_all add: USERTOP_def)
  then show ?thesis using True by (simp add: nat_mod_as_int)
next
  case False
  then have "int sp - int l = - int (l - sp)" by simp
  moreover have "(- int (l - sp)) mod 2 ^ 32 = (2 ^ 32 - int (l - sp)) mod 2 ^ 32" by (simp only: minus_mod_self1)
  moreover have "\<dots> = 2 ^ 32 - int (l - sp)"
    using False assms by (intro mod_pos_pos_trivial) (simp_all add: USERTOP_def)
  ultimately show ?thesis using False assms by (simp add: USERTOP_def)
qed

lemma building_copyout:
  assumes b: "building kend kdata m0 P sz k d ps" and kd: "kdata < PHYSTOP" and bs: "bs \<noteq> []"
    and va: "va + length bs \<le> sz \<or> 0xFE000000 \<le> va \<and> va < 2 ^ 32"
  shows "\<exists>ok k'. copyout d va bs k = Some (ok, k') \<and> building kend kdata m0 P sz k' d ps \<and> (ok \<longleftrightarrow> va + length bs \<le> sz) \<and>
    (ok \<longrightarrow> umem (phys k') d = (\<lambda>a. if va \<le> a \<and> a < va + length bs then Some (bs ! (a - va)) else umem (phys k) d a))"
proof (cases "va + length bs \<le> sz")
  case False
  then have "copyout d va bs k = Some (False, k)" using copyout_kernel [OF buildingD(1) [OF b] kd _ _ bs] va by blast
  then show ?thesis using b False by auto
next
  case True
  note D = buildingD [OF b]
  have "va + length bs \<le> USERTOP" using True D(3) by simp
  from copyout_spec [OF D(1) this] obtain ok k' where c: "copyout d va bs k = Some (ok, k')" "space_ok kend kdata k' d ps"
    "owned (phys k') d = owned (phys k) d" "upages (phys k') d = upages (phys k) d" "unchanged (frames (phys k) d) (phys k) (phys k')"
    "ok \<longleftrightarrow> (\<forall>a. va \<le> a \<and> a < va + length bs \<longrightarrow> umem (phys k) d a \<noteq> None)"
    "\<forall>a. \<not> (va \<le> a \<and> a < va + length bs) \<longrightarrow> umem (phys k') d a = umem (phys k) d a"
    "ok \<longrightarrow> (\<forall>a. va \<le> a \<and> a < va + length bs \<longrightarrow> umem (phys k') d a = Some (bs ! (a - va)))" by blast
  have "umem (phys k) d a \<noteq> None" if "a < sz" for a
  proof -
    have "a div PGSIZE * PGSIZE < sz" using that by (meson div_times_less_eq_dividend le_less_trans)
    then show ?thesis using D(2) by (simp add: umem_def less_pages_up)
  qed
  then have ok: ok using c(6) True by auto
  have "unchanged P m0 (phys k')" by (rule unchanged_step [OF D(5) c(5)]) (use D(4) in \<open>auto simp: owned_def\<close>)
  then have "building kend kdata m0 P sz k' d ps" using c(2-4) D by (simp add: building_def)
  moreover have "umem (phys k') d = (\<lambda>a. if va \<le> a \<and> a < va + length bs then Some (bs ! (a - va)) else umem (phys k) d a)"
    using c(7,8) ok by (intro ext) auto
  ultimately show ?thesis using c(1) ok True by blast
qed

lemma bytes32_length [simp]: "length (bytes32 v) = 4"
  by (simp add: bytes32_def)

lemma frame_length: "length (concat (map bytes32 vs)) = 4 * length vs"
  by (induction vs) auto

lemma ustack_length: "length (ustack sp ptrs) = 4 + length ptrs"
  by (simp add: ustack_def Let_def)

text \<open>One string.\<close>

lemma push_arg:
  assumes b: "building kend kdata m0 P sz k d ps" and kd: "kdata < PHYSTOP" and sp: "sp \<le> sz" and a: "length a < USERTOP"
  defines "sp1 \<equiv> nat ((int sp - int (length a + 1)) mod 2 ^ 32) div 4 * 4"
  shows "\<exists>ok k'. copyout d sp1 (a @ [0]) k = Some (ok, k') \<and> building kend kdata m0 P sz k' d ps \<and>
    (ok \<longleftrightarrow> length a + 1 \<le> sp) \<and> (ok \<longrightarrow> sp1 = (sp - (length a + 1)) div 4 * 4 \<and> sp1 + length a < sp \<and>
      umem (phys k') d = (\<lambda>x. if sp1 \<le> x \<and> x \<le> sp1 + length a then Some ((a @ [0]) ! (x - sp1)) else umem (phys k) d x))"
proof -
  have spU: "sp \<le> USERTOP" "length a + 1 \<le> USERTOP" using sp buildingD(3) [OF b] a by simp_all
  have s: "sp1 = (if length a + 1 \<le> sp then sp - (length a + 1) else 2 ^ 32 - (length a + 1 - sp)) div 4 * 4"
    by (simp only: sp1_def below_sp [OF spU])
  have cases: "if length a + 1 \<le> sp then sp1 + length (a @ [0]) \<le> sp else 0xFE000000 \<le> sp1 \<and> sp1 < 2 ^ 32"
    using spU by (auto simp: s USERTOP_def)
  then have "sp1 + length (a @ [0]) \<le> sz \<or> 0xFE000000 \<le> sp1 \<and> sp1 < 2 ^ 32" using sp by (auto split: if_splits)
  from building_copyout [OF b kd _ this] obtain ok k' where c: "copyout d sp1 (a @ [0]) k = Some (ok, k')"
    "building kend kdata m0 P sz k' d ps" "ok \<longleftrightarrow> sp1 + length (a @ [0]) \<le> sz"
    "ok \<longrightarrow> umem (phys k') d = (\<lambda>x. if sp1 \<le> x \<and> x < sp1 + length (a @ [0]) then Some ((a @ [0]) ! (x - sp1)) else umem (phys k) d x)"
    by blast
  have "ok \<longleftrightarrow> length a + 1 \<le> sp" using c(3) cases sp spU buildingD(3) [OF b] by (auto simp: USERTOP_def split: if_splits)
  then show ?thesis using c cases s by (auto simp: less_Suc_eq_le intro!: exI [of _ ok] exI [of _ k'])
qed

lemma push_args_building:
  "\<lbrakk>building kend kdata m0 P sz k d ps; kdata < PHYSTOP; sp \<le> sz; \<forall>a\<in>set as. length a < USERTOP\<rbrakk> \<Longrightarrow>
   \<exists>res k'. push_args d as sp ptrs k = Some (res, k') \<and> building kend kdata m0 P sz k' d ps \<and>
     (\<forall>sp' ptrs'. res = Some (sp', ptrs') \<longrightarrow> sp' \<le> sz \<and> length ptrs' \<le> max MAXARG (length ptrs))"
proof (induction as arbitrary: sp ptrs k)
  case Nil
  then show ?case by auto
next
  case (Cons a as)
  let ?sp1 = "nat ((int sp - int (length a + 1)) mod 2 ^ 32) div 4 * 4"
  have "length a < USERTOP" using Cons.prems(4) by simp
  from push_arg [OF Cons.prems(1-3) this] obtain ok k1 where c: "copyout d ?sp1 (a @ [0]) k = Some (ok, k1)"
    "building kend kdata m0 P sz k1 d ps" "ok \<longrightarrow> ?sp1 + length a < sp" by blast
  show ?case
  proof (cases "MAXARG \<le> length ptrs \<or> \<not> ok")
    case True
    then show ?thesis using c Cons.prems(1) by (cases "MAXARG \<le> length ptrs") (simp_all del: of_nat_add)
  next
    case False
    then have "?sp1 \<le> sz" "\<forall>a\<in>set as. length a < USERTOP" "max MAXARG (length (ptrs @ [?sp1])) = MAXARG"
      using c(3) Cons.prems(3,4) by auto
    from Cons.IH [OF c(2) Cons.prems(2) this(1,2), of "ptrs @ [?sp1]"] this(3) False show ?thesis
      using c(1) by (auto simp del: of_nat_add)
  qed
qed

text \<open>A NUL-terminated string, and a word, in the memory of the user.\<close>

definition string_at :: "(nat \<Rightarrow> u8 option) \<Rightarrow> nat \<Rightarrow> u8 list \<Rightarrow> bool" where
  "string_at m p a \<longleftrightarrow> (\<forall>j\<le>length a. m (p + j) = Some ((a @ [0]) ! j))"

definition word_at :: "(nat \<Rightarrow> u8 option) \<Rightarrow> nat \<Rightarrow> nat \<Rightarrow> bool" where
  "word_at m a v \<longleftrightarrow> (\<forall>j<4. m (a + j) = Some (bytes32 v ! j))"

text \<open>The room that the strings take.\<close>

definition args_size :: "u8 list list \<Rightarrow> nat" where
  "args_size as = (\<Sum>a\<leftarrow>as. (length a + 4) div 4 * 4)"

lemma aligned_below: "(sp - (l + 1)) div 4 * 4 = sp - (l + 4) div 4 * 4" if "sp mod 4 = 0" "(l + 4) div 4 * 4 \<le> sp" for sp l :: nat
proof -
  from that(1) obtain q where q: "sp = 4 * q" by (auto simp: mod_eq_0_iff_dvd)
  then show ?thesis using that(2) by presburger
qed

lemma push_args_pushes:
  "\<lbrakk>building kend kdata m0 P sz k d ps; kdata < PHYSTOP; sp \<le> sz; sp mod 4 = 0; args_size as \<le> sp;
    length ptrs + length as \<le> MAXARG; list_all2 (string_at (umem (phys k) d)) ptrs done; \<forall>p\<in>set ptrs. sp \<le> p\<rbrakk> \<Longrightarrow>
   \<exists>ptrs' k'. push_args d as sp ptrs k = Some (Some (sp - args_size as, ptrs'), k') \<and> building kend kdata m0 P sz k' d ps \<and>
     list_all2 (string_at (umem (phys k') d)) ptrs' (done @ as) \<and> (\<forall>p\<in>set ptrs'. sp - args_size as \<le> p) \<and>
     (\<forall>x. x < sp - args_size as \<longrightarrow> umem (phys k') d x = umem (phys k) d x)"
proof (induction as arbitrary: sp ptrs k "done")
  case Nil
  then show ?case by (auto simp: args_size_def)
next
  case (Cons a as)
  let ?l = "(length a + 4) div 4 * 4"
  let ?sp1 = "nat ((int sp - int (length a + 1)) mod 2 ^ 32) div 4 * 4"
  have size: "args_size (a # as) = ?l + args_size as" "?l \<le> sp" using Cons.prems(5) by (simp_all add: args_size_def)
  have la: "length a < ?l" by presburger
  then have lU: "length a < USERTOP" "length a + 1 \<le> sp" using size(2) Cons.prems(3) buildingD(3) [OF Cons.prems(1)] by simp_all
  define s1 where "s1 = ?sp1"
  have al: "(sp - (length a + 1)) div 4 * 4 = sp - ?l" by (rule aligned_below [OF Cons.prems(4) size(2)])
  from push_arg [OF Cons.prems(1-3) lU(1), folded s1_def] obtain ok k1 where c0: "copyout d s1 (a @ [0]) k = Some (ok, k1)"
    "building kend kdata m0 P sz k1 d ps" "ok \<longleftrightarrow> length a + 1 \<le> sp"
    "ok \<longrightarrow> s1 = (sp - (length a + 1)) div 4 * 4 \<and> s1 + length a < sp \<and>
      umem (phys k1) d = (\<lambda>x. if s1 \<le> x \<and> x \<le> s1 + length a then Some ((a @ [0]) ! (x - s1)) else umem (phys k) d x)" by blast
  have ok: ok using c0(3) lU(2) by blast
  then have c: "copyout d s1 (a @ [0]) k = Some (True, k1)"
    "building kend kdata m0 P sz k1 d ps" "s1 = sp - ?l" "s1 + length a < sp"
    "umem (phys k1) d = (\<lambda>x. if s1 \<le> x \<and> x \<le> s1 + length a then Some ((a @ [0]) ! (x - s1)) else umem (phys k) d x)"
    using c0(1,2,4) unfolding al by simp_all
  have old: "string_at (umem (phys k1) d) p b" if "string_at (umem (phys k) d) p b" "sp \<le> p" for p b
    using that c(4) by (auto simp: string_at_def c(5))
  have "list_all2 (string_at (umem (phys k1) d)) ptrs done"
    using Cons.prems(7,8) old by (auto simp: list_all2_conv_all_nth)
  moreover have "string_at (umem (phys k1) d) s1 a" by (simp add: string_at_def c(5))
  ultimately have st: "list_all2 (string_at (umem (phys k1) d)) (ptrs @ [s1]) (done @ [a])" by (simp add: list_all2_appendI)
  have m4: "s1 mod 4 = 0" unfolding c(3) al [symmetric] by simp
  have pre: "s1 \<le> sz" "s1 mod 4 = 0" "args_size as \<le> s1" "length (ptrs @ [s1]) + length as \<le> MAXARG"
    "\<forall>p\<in>set (ptrs @ [s1]). s1 \<le> p"
    using Cons.prems(3,5,6,8) c(3) size m4 by auto
  from Cons.IH [OF c(2) Cons.prems(2) pre(1-4) st pre(5)] obtain ptrs' k' where
    k': "push_args d as s1 (ptrs @ [s1]) k1 = Some (Some (s1 - args_size as, ptrs'), k')" "building kend kdata m0 P sz k' d ps"
    "list_all2 (string_at (umem (phys k') d)) ptrs' ((done @ [a]) @ as)" "\<forall>p\<in>set ptrs'. s1 - args_size as \<le> p"
    "\<forall>x. x < s1 - args_size as \<longrightarrow> umem (phys k') d x = umem (phys k1) d x" by blast
  have e: "s1 - args_size as = sp - args_size (a # as)" using c(3) size by simp
  have "push_args d (a # as) sp ptrs k = Some (Some (sp - args_size (a # as), ptrs'), k')"
    using k'(1) c(1) Cons.prems(6) unfolding e push_args.simps Let_def s1_def [symmetric] by simp
  moreover have "\<forall>x. x < sp - args_size (a # as) \<longrightarrow> umem (phys k') d x = umem (phys k) d x"
    using k'(5) unfolding e by (auto simp: c(5)) (use e in linarith)
  ultimately show ?case using k'(2-4) unfolding e by auto
qed

lemma push_frame_building:
  assumes b: "building kend kdata m0 P sz k d ps" and kd: "kdata < PHYSTOP" and sp: "sp \<le> sz" and n: "length ptrs \<le> MAXARG"
  defines "l \<equiv> 4 * (4 + length ptrs)"
  shows "\<exists>r k'. push_frame d sp ptrs k = Some (r, k') \<and> building kend kdata m0 P sz k' d ps \<and> (\<forall>s. r = Some s \<longrightarrow> s \<le> sz) \<and>
    (l \<le> sp \<longrightarrow> r = Some (sp - l) \<and> umem (phys k') d = (\<lambda>x. if sp - l \<le> x \<and> x < sp
       then Some (concat (map bytes32 (ustack sp ptrs)) ! (x - (sp - l))) else umem (phys k) d x))"
proof -
  have U: "sp \<le> USERTOP" "l \<le> USERTOP" using sp buildingD(3) [OF b] n by (simp_all add: l_def MAXARG_def USERTOP_def)
  have l: "(3 + length ptrs + 1) * 4 = l" by (simp add: l_def)
  define s1 where "s1 = nat ((int sp - int l) mod 2 ^ 32)"
  have s1: "s1 = (if l \<le> sp then sp - l else 2 ^ 32 - (l - sp))" unfolding s1_def by (rule below_sp [OF U])
  let ?bs = "concat (map bytes32 (ustack sp ptrs))"
  have len: "length ?bs = l" by (simp only: frame_length ustack_length l_def)
  have ne: "?bs \<noteq> []" by (simp add: ustack_def Let_def bytes32_def)
  have "s1 + length ?bs \<le> sz \<or> 0xFE000000 \<le> s1 \<and> s1 < 2 ^ 32" using s1 sp U unfolding len by (auto simp: USERTOP_def)
  from building_copyout [OF b kd ne this] obtain ok k' where c: "copyout d s1 ?bs k = Some (ok, k')"
    "building kend kdata m0 P sz k' d ps" "ok \<longleftrightarrow> s1 + l \<le> sz"
    "ok \<longrightarrow> umem (phys k') d = (\<lambda>a. if s1 \<le> a \<and> a < s1 + l then Some (?bs ! (a - s1)) else umem (phys k) d a)"
    unfolding len by blast
  have r: "push_frame d sp ptrs k = Some (if ok then Some s1 else None, k')"
    unfolding push_frame_def Let_def l s1_def [symmetric] using c(1) by simp
  have "l \<le> sp \<longrightarrow> ok \<and> s1 = sp - l \<and> s1 + l = sp" using s1 sp c(3) by auto
  then show ?thesis using r c by auto
qed

lemma concat_bytes32:
  "i < length vs \<Longrightarrow> j < 4 \<Longrightarrow> concat (map bytes32 vs) ! (4 * i + j) = bytes32 (vs ! i) ! j"
proof (induction vs arbitrary: i)
  case (Cons v vs)
  then show ?case by (cases i) (simp_all add: nth_append)
qed simp

text \<open>The frame as \<open>main\<close> finds it at the stack pointer: the return address, \<open>argc\<close>, \<open>argv\<close> and the vector.\<close>

definition frame_at :: "(nat \<Rightarrow> u8 option) \<Rightarrow> nat \<Rightarrow> u8 list list \<Rightarrow> bool" where
  "frame_at m sp as \<longleftrightarrow> word_at m sp 0xffffffff \<and> word_at m (sp + 4) (length as) \<and> word_at m (sp + 8) (sp + 12) \<and>
     (\<forall>i<length as. \<exists>p. word_at m (sp + 12 + 4 * i) p \<and> string_at m p (as ! i)) \<and> word_at m (sp + 12 + 4 * length as) 0"

lemma frame_words:
  assumes m: "\<And>x. sp \<le> x \<Longrightarrow> x < sp + 4 * length vs \<Longrightarrow> m x = Some (concat (map bytes32 vs) ! (x - sp))" and i: "i < length vs"
  shows "word_at m (sp + 4 * i) (vs ! i)"
  unfolding word_at_def
proof (intro allI impI)
  fix j :: nat assume j: "j < 4"
  have "sp \<le> sp + 4 * i + j" "sp + 4 * i + j < sp + 4 * length vs" "sp + 4 * i + j - sp = 4 * i + j" using i j by auto
  then show "m (sp + 4 * i + j) = Some (bytes32 (vs ! i) ! j)" using m concat_bytes32 [OF i j] by simp
qed

lemma build_stack_builds:
  assumes b: "building kend kdata m0 P sz k d ps" and kd: "kdata < PHYSTOP" and as: "length as \<le> MAXARG"
    and sz: "sz \<le> USERTOP - PGSIZE" and ps: "ps \<noteq> []"
  defines "need \<equiv> args_size as + 4 * (4 + length as)" and "base \<equiv> pages_up sz * PGSIZE"
  assumes fit: "need \<le> PGSIZE"
  shows "\<exists>k' ps'. build_stack kend d as sz k = Some (Some (base + PGSIZE, base + PGSIZE - need), k') \<and>
    building kend kdata m0 P (base + PGSIZE) k' d ps' \<and> frame_at (umem (phys k') d) (base + PGSIZE - need) as \<and>
    (\<forall>x<base. umem (phys k') d x = umem (phys k) d x)"
proof -
  let ?top = "base + PGSIZE"
  note D = buildingD [OF b]
  have up: "PGROUNDUP sz = base" unfolding base_def by (rule PGROUNDUP_pages [OF D(3)])
  have base: "base \<le> USERTOP - PGSIZE" "pages_up base = pages_up sz" "base mod 4 = 0"
    using sz by (simp_all add: base_def) (simp_all add: PGSIZE_def USERTOP_def pages_up_def)
  have b1: "building kend kdata m0 P base k d ps" using D base by (simp add: building_def)
  have w: "?top mod 2 ^ 32 = ?top" using base(1) by (simp add: USERTOP_def PGSIZE_def)
  have pt: "pages_up ?top = Suc (pages_up base)" unfolding base(2) by (simp add: base_def pages_up_def PGSIZE_def)
  from building_alloc [OF b1, of ?top] obtain r k1 ps1 where r: "allocuvm kend d base ?top k = Some (r, k1)" and
    c: "r \<noteq> 0 \<and> r = max base ?top \<and> building kend kdata m0 P r k1 d ps1 \<and>
       umem (phys k1) d = (\<lambda>a. if pages_up base * PGSIZE \<le> a \<and> a < pages_up r * PGSIZE then Some 0 else umem (phys k) d a) \<or>
     r = 0 \<and> (USERTOP < ?top \<or> max base ?top = 0 \<or> length ps < pages_up ?top - pages_up base)" by blast
  have "\<not> (USERTOP < ?top \<or> max base ?top = 0 \<or> length ps < pages_up ?top - pages_up base)"
    using base(1) ps pt by (cases ps) (auto simp: PGSIZE_def USERTOP_def)
  then have b2: "r = ?top" "building kend kdata m0 P ?top k1 d ps1" "\<forall>x<base. umem (phys k1) d x = umem (phys k) d x"
    using c by (auto simp: base(2) base_def [symmetric])
  have pre: "?top mod 4 = 0" "args_size as \<le> ?top" "length [] + length as \<le> MAXARG"
    using base(3) fit as by (auto simp: PGSIZE_def need_def)
  from push_args_pushes [OF b2(2) kd order_refl pre, of "[]"] obtain ptrs k2 where
    p: "push_args d as ?top [] k1 = Some (Some (?top - args_size as, ptrs), k2)" "building kend kdata m0 P ?top k2 d ps1"
      "list_all2 (string_at (umem (phys k2) d)) ptrs as" "\<forall>p\<in>set ptrs. ?top - args_size as \<le> p"
      "\<forall>x. x < ?top - args_size as \<longrightarrow> umem (phys k2) d x = umem (phys k1) d x" by auto
  let ?sp = "?top - args_size as" and ?s = "?top - need"
  have len: "length ptrs = length as" using p(3) by (rule list_all2_lengthD)
  then have "length ptrs \<le> MAXARG" "?sp \<le> ?top" using as by simp_all
  from push_frame_building [OF p(2) kd this(2,1)] obtain q k3 where f: "push_frame d ?sp ptrs k2 = Some (q, k3)"
    "building kend kdata m0 P ?top k3 d ps1" "4 * (4 + length ptrs) \<le> ?sp \<longrightarrow> q = Some (?sp - 4 * (4 + length ptrs)) \<and>
      umem (phys k3) d = (\<lambda>x. if ?sp - 4 * (4 + length ptrs) \<le> x \<and> x < ?sp
       then Some (concat (map bytes32 (ustack ?sp ptrs)) ! (x - (?sp - 4 * (4 + length ptrs)))) else umem (phys k2) d x)" by blast
  have s: "?sp - 4 * (4 + length ptrs) = ?s" "4 * (4 + length ptrs) \<le> ?sp" "?s + 4 * length (ustack ?sp ptrs) = ?sp" "base \<le> ?s"
    using fit len by (simp_all add: need_def ustack_length)
  then have u3: "q = Some ?s" "umem (phys k3) d = (\<lambda>x. if ?s \<le> x \<and> x < ?sp
       then Some (concat (map bytes32 (ustack ?sp ptrs)) ! (x - ?s)) else umem (phys k2) d x)" using f(3) s(2) unfolding s(1) by blast+
  let ?m = "umem (phys k3) d" and ?v = "ustack ?sp ptrs"
  have words: "word_at ?m (?s + 4 * i) (?v ! i)" if "i < 4 + length as" for i
  proof (rule frame_words)
    fix x assume "?s \<le> x" "x < ?s + 4 * length ?v"
    then show "?m x = Some (concat (map bytes32 ?v) ! (x - ?s))" unfolding s(3) u3(2) by simp
  qed (simp add: ustack_length len that)
  have U: "?sp \<le> USERTOP" "(length ptrs + 1) * 4 \<le> USERTOP" using base(1) as len by (simp_all add: USERTOP_def PGSIZE_def MAXARG_def)
  have v2: "?v = 0xffffffff # length as # (?s + 12) # ptrs @ [0]"
    using below_sp [OF U] s(2) unfolding ustack_def Let_def len by (simp add: need_def algebra_simps)
  have "string_at ?m (ptrs ! i) (as ! i)" if "i < length as" for i
  proof -
    have "string_at (umem (phys k2) d) (ptrs ! i) (as ! i)" "?sp \<le> ptrs ! i"
      using p(3,4) that len by (auto simp: list_all2_conv_all_nth)
    then show ?thesis by (simp add: string_at_def u3(2))
  qed
  moreover have "word_at ?m (?s + 12 + 4 * i) (ptrs ! i)" if "i < length as" for i
    using words [of "3 + i"] that len by (simp add: v2 nth_append add.assoc)
  moreover have "word_at ?m (?s + 12 + 4 * length as) 0" using words [of "3 + length as"] len by (simp add: v2 nth_append add.assoc)
  ultimately have "frame_at ?m ?s as" using words [of 0] words [of 1] words [of 2] by (auto simp: frame_at_def v2)
  moreover have "build_stack kend d as sz k = Some (Some (?top, ?s), k3)"
    using r b2(1) p(1) f(1) u3(1) unfolding build_stack_def Let_def up w by (simp add: PGSIZE_def)
  moreover have "\<forall>x<base. ?m x = umem (phys k) d x" using b2(3) p(5) s(3,4) by (auto simp: u3(2))
  ultimately show ?thesis using f(2) by blast
qed

lemma build_stack_building:
  assumes b: "building kend kdata m0 P sz k d ps" and kd: "kdata < PHYSTOP" and as: "\<forall>a\<in>set as. length a < USERTOP"
  shows "\<exists>res k' ps' sz'. build_stack kend d as sz k = Some (res, k') \<and> building kend kdata m0 P sz' k' d ps' \<and>
    (\<forall>s sp. res = Some (s, sp) \<longrightarrow> s = sz')"
proof -
  let ?sz1 = "PGROUNDUP sz"
  note D = buildingD [OF b]
  have up: "?sz1 = pages_up sz * PGSIZE" by (rule PGROUNDUP_pages [OF D(3)])
  have sz1: "?sz1 \<le> USERTOP" "pages_up ?sz1 = pages_up sz"
    using pages_up_le [OF D(3)] by (simp_all add: up) (simp_all add: PGSIZE_def USERTOP_def pages_up_def)
  then have b1: "building kend kdata m0 P ?sz1 k d ps" using D by (simp add: building_def)
  have w: "(?sz1 + PGSIZE) mod 2 ^ 32 = ?sz1 + PGSIZE" using sz1(1) by (simp add: USERTOP_def PGSIZE_def)
  from building_alloc [OF b1, of "?sz1 + PGSIZE"] obtain r k1 ps1 where r: "allocuvm kend d ?sz1 (?sz1 + PGSIZE) k = Some (r, k1)" and
    c: "r \<noteq> 0 \<and> building kend kdata m0 P r k1 d ps1 \<or> r = 0 \<and> building kend kdata m0 P ?sz1 k1 d ps1" by blast
  show ?thesis
  proof (cases "r = 0")
    case True
    then have "build_stack kend d as sz k = Some (None, k1)" using r unfolding build_stack_def Let_def w by simp
    then show ?thesis using c True by blast
  next
    case False
    then have b2: "building kend kdata m0 P r k1 d ps1" using c by simp
    from push_args_building [OF b2 kd order_refl as, of "[]"] obtain res k2 where p: "push_args d as r [] k1 = Some (res, k2)"
      "building kend kdata m0 P r k2 d ps1" "\<forall>sp' ptrs'. res = Some (sp', ptrs') \<longrightarrow> sp' \<le> r \<and> length ptrs' \<le> MAXARG" by auto
    show ?thesis
    proof (cases res)
      case None
      then have "build_stack kend d as sz k = Some (None, k2)" using r False p(1) unfolding build_stack_def Let_def w by simp
      then show ?thesis using p(2) by blast
    next
      case (Some st)
      then obtain sp ptrs where st: "res = Some (sp, ptrs)" by (cases st) auto
      then have "sp \<le> r" "length ptrs \<le> MAXARG" using p(3) by auto
      from push_frame_building [OF p(2) kd this] obtain q k3 where f: "push_frame d sp ptrs k2 = Some (q, k3)"
        "building kend kdata m0 P r k3 d ps1" by blast
      have "build_stack kend d as sz k = Some (map_option (Pair r) q, k3)"
        using r False p(1) st f(1) unfolding build_stack_def Let_def w by simp
      then show ?thesis using f(2) by blast
    qed
  qed
qed

section \<open>The whole image\<close>

definition exec_safe :: "devsw \<Rightarrow> nat \<Rightarrow> nat \<Rightarrow> nat \<Rightarrow> u8 list \<Rightarrow> (nat \<Rightarrow> u8) \<Rightarrow> fs \<Rightarrow> kmem \<Rightarrow> bool" where
  "exec_safe dv kend kdata c path junk f k =
     (case exec_header dv c path junk f of
        Some (Some (ip, Some elf), f1) \<Rightarrow>
          (case setupkvm kdata k of
             Some (d, k1) \<Rightarrow> segments_safe dv kend d ip junk (e_phnum elf) (of_nat (e_phoff elf)) 0 f1 k1
           | None \<Rightarrow> True)
      | _ \<Rightarrow> True)"

text \<open>What \<open>exec_image\<close> leaves: all it took is in the new image, or it is free again when there is none.\<close>

definition image_result :: "nat \<Rightarrow> nat \<Rightarrow> kmem \<Rightarrow> nat list \<Rightarrow> image option \<Rightarrow> kmem \<Rightarrow> bool" where
  "image_result kend kdata k ps res k' \<longleftrightarrow> (case res of
     None \<Rightarrow> \<exists>ps'. kmem_inv kend k' ps' \<and> set ps' \<subseteq> set ps \<and> (1025 < length ps \<longrightarrow> set ps' = set ps) \<and> unchanged (set ps) (phys k) (phys k')
   | Some im \<Rightarrow> im_pgdir im \<noteq> 0 \<and> (\<exists>ps'. building kend kdata (phys k) (set ps) (im_sz im) k' (im_pgdir im) ps'))"

lemma exec_bad_result:
  assumes b: "building kend kdata (phys k0) (set ps0) sz k d ps" and e: "exec_bad kend d ip f k = Some (res, f', k')"
  shows "image_result kend kdata k0 ps0 res k'"
proof -
  have "d \<noteq> 0" using space_okD(1) [OF buildingD(1) [OF b]] by (auto simp: dir_ok_def page_def)
  with e obtain k1 where "freevm kend d k = Some k1" "k' = k1" "res = None"
    by (auto simp: exec_bad_def Option.bind_eq_Some_conv)
  with building_free [OF b] show ?thesis by (auto simp: image_result_def)
qed

lemma exec_image_result:
  assumes k: "kmem_inv kend k ps" and kd: "kdata mod PGSIZE = 0" "0x100000 < kdata" "kdata < PHYSTOP"
    and dv: "reads_bounded dv" and as: "\<forall>a\<in>set argv. length a < USERTOP"
    and safe: "exec_safe dv kend kdata c path junk f k"
    and e: "exec_image dv kend kdata c path argv junk f k = Some (res, f', k')"
  shows "image_result kend kdata k ps res k'"
proof -
  have same: "image_result kend kdata k ps None k" using k by (auto simp: image_result_def)
  from e obtain h f1 where h: "exec_header dv c path junk f = Some (h, f1)"
    by (auto simp: exec_image_def Option.bind_eq_Some_conv)
  show ?thesis
  proof (cases h)
    case None
    then show ?thesis using e h same by (simp add: exec_image_def)
  next
    case (Some a)
    then obtain ip he where he: "h = Some (ip, he)" by (cases a) auto
    show ?thesis
    proof (cases he)
      case None
      then show ?thesis using e h he same by (auto simp: exec_image_def exec_bad_def Option.bind_eq_Some_conv)
    next
      case (Some elf)
      from building_setup [OF k kd] obtain d k1 ps1 where d: "setupkvm kdata k = Some (d, k1)"
        and db: "d \<noteq> 0 \<longrightarrow> building kend kdata (phys k) (set ps) 0 k1 d ps1"
        and ds: "kmem_inv kend k1 ps1" "set ps1 \<subseteq> set ps" "unchanged (set ps) (phys k) (phys k1)" "length ps \<le> length ps1 + 1025"
          "d = 0 \<longrightarrow> ps1 = []" by blast
      show ?thesis
      proof (cases "d = 0")
        case True
        then have "image_result kend kdata k ps None k1" using ds by (auto simp: image_result_def)
        then show ?thesis using e h he Some d True by (auto simp: exec_image_def exec_bad_def Option.bind_eq_Some_conv)
      next
        case False
        with db have b1: "building kend kdata (phys k) (set ps) 0 k1 d ps1" by blast
        have sf: "segments_safe dv kend d ip junk (e_phnum elf) (of_nat (e_phoff elf)) 0 f1 k1"
          using safe h he Some d by (simp add: exec_safe_def)
        from e h he Some d False obtain r f2 k2 where
          l: "load_segments dv kend d ip junk (e_phnum elf) (of_nat (e_phoff elf)) 0 f1 k1 = Some (r, f2, k2)"
          by (auto simp: exec_image_def Option.bind_eq_Some_conv)
        from load_segments_building [OF b1 sf dv l] obtain sz ps2 where
          b2: "building kend kdata (phys k) (set ps) sz k2 d ps2" "\<forall>s. r = Some s \<longrightarrow> s = sz" by blast
        show ?thesis
        proof (cases r)
          case None
          then show ?thesis using e h he Some d False l exec_bad_result [OF b2(1)] by (simp add: exec_image_def)
        next
          case (Some s)
          then have r: "r = Some sz" using b2(2) by simp
          from build_stack_building [OF b2(1) kd(3) as] obtain st k3 ps3 sz' where
            st: "build_stack kend d argv sz k2 = Some (st, k3)" "building kend kdata (phys k) (set ps) sz' k3 d ps3"
              "\<forall>s sp. st = Some (s, sp) \<longrightarrow> s = sz'" by blast
          from e h he \<open>he = Some elf\<close> d False l r st(1) obtain f3 where "iunlockput ip f2 = Some f3" and
            x: "(case st of None \<Rightarrow> exec_bad kend d None f3 k3
               | Some (sz, sp) \<Rightarrow> Some (Some \<lparr>im_pgdir = d, im_sz = sz, im_entry = e_entry elf, im_sp = sp\<rparr>, f3, k3)) = Some (res, f', k')"
            by (auto simp: exec_image_def Option.bind_eq_Some_conv)
          show ?thesis
          proof (cases st)
            case None
            then show ?thesis using x exec_bad_result [OF st(2)] by simp
          next
            case (Some p)
            then show ?thesis using x st(2,3) False by (cases p) (auto simp: image_result_def)
          qed
        qed
      qed
    qed
  qed
qed

section \<open>A valid program is built\<close>

definition elf_header :: "u8 list \<Rightarrow> elfhdr" where "elf_header bs = elfhdr_of (take 52 bs)"

definition segments_of :: "u8 list \<Rightarrow> proghdr list" where
  "segments_of bs = program_headers bs (e_phoff (elf_header bs)) (e_phnum (elf_header bs))"

definition valid_elf :: "u8 list \<Rightarrow> bool" where
  "valid_elf bs \<longleftrightarrow> 52 \<le> length bs \<and> e_magic (elf_header bs) = ELF_MAGIC \<and>
     e_phoff (elf_header bs) + 32 * e_phnum (elf_header bs) \<le> length bs \<and> (\<forall>ph\<in>set (segments_of bs). seg_ok bs ph)"

definition program_size :: "u8 list \<Rightarrow> nat" where
  "program_size bs = fst (load_spec bs (segments_of bs) 0 (\<lambda>_. None))"

definition program_image :: "u8 list \<Rightarrow> nat \<Rightarrow> u8 option" where
  "program_image bs = snd (load_spec bs (segments_of bs) 0 (\<lambda>_. None))"

text \<open>The stack needs this much of its one page.\<close>

definition stack_need :: "u8 list list \<Rightarrow> nat" where
  "stack_need as = args_size as + 4 * (4 + length as)"

lemma exec_header_plain:
  assumes n: "namei c path f = Some (Some ip, f1)" "ilock ip f1 = Some f2" and p: "plain_file f2 ip" and v: "valid_elf (contents f2 ip)"
  shows "exec_header dv c path junk f = Some (Some (ip, Some (elf_header (contents f2 ip))), f2)"
proof -
  let ?c = "contents f2 ip"
  have len: "0 + 52 \<le> length ?c" and m: "e_magic (elfhdr_of (take 52 ?c)) = ELF_MAGIC"
    using v by (simp_all add: valid_elf_def elf_header_def)
  note rd = plain_read [OF p len, of dv, simplified]
  have "fill_buffer 52 junk (take 52 ?c) = take 52 ?c" using len by (intro fill_buffer_full) simp
  then show ?thesis using n rd m by (simp add: exec_header_def elf_header_def)
qed

lemma exec_image_builds:
  assumes n: "namei c path f = Some (Some ip, f1)" "ilock ip f1 = Some f2" "iunlockput ip f2 = Some f3"
    and p: "plain_file f2 ip" and v: "valid_elf (contents f2 ip)"
    and k: "kmem_inv kend k ps" and kd: "kdata mod PGSIZE = 0" "0x100000 < kdata" "kdata < PHYSTOP"
    and room: "1026 + pages_up (program_size (contents f2 ip)) \<le> length ps"
    and as: "length argv \<le> MAXARG" "stack_need argv \<le> PGSIZE"
  defines "base \<equiv> pages_up (program_size (contents f2 ip)) * PGSIZE"
  defines "sp \<equiv> base + PGSIZE - stack_need argv"
  shows "\<exists>d k' ps'. exec_image dv kend kdata c path argv junk f k = Some (Some
      \<lparr>im_pgdir = d, im_sz = base + PGSIZE, im_entry = e_entry (elf_header (contents f2 ip)), im_sp = sp\<rparr>, f3, k') \<and>
    building kend kdata (phys k) (set ps) (base + PGSIZE) k' d ps' \<and> d \<noteq> 0 \<and>
    (\<forall>a<base. umem (phys k') d a = program_image (contents f2 ip) a) \<and> frame_at (umem (phys k') d) sp argv"
proof -
  let ?c = "contents f2 ip"
  let ?h = "elf_header ?c"
  note h = exec_header_plain [OF n(1,2) p v, of dv junk]
  from building_setup [OF k kd] obtain d k1 ps1 where d: "setupkvm kdata k = Some (d, k1)"
    "d \<noteq> 0 \<longrightarrow> building kend kdata (phys k) (set ps) 0 k1 d ps1" "length ps \<le> length ps1 + 1025" "d = 0 \<longrightarrow> ps1 = []" by blast
  have l1: "1 + pages_up (program_size ?c) \<le> length ps1" using room d(3) by linarith
  then have d0: "d \<noteq> 0" using d(4) by auto
  then have b1: "building kend kdata (phys k) (set ps) 0 k1 d ps1" using d(2) by blast
  have u0: "umem (phys k1) d = (\<lambda>_. None)"
    using buildingD(2) [OF b1] by (simp add: umem_def fun_eq_iff pages_up_def PGSIZE_def)
  have ls: "load_spec ?c (program_headers ?c (e_phoff ?h) (e_phnum ?h)) 0 (umem (phys k1) d) = (program_size ?c, program_image ?c)"
    by (simp add: u0 program_size_def program_image_def segments_of_def)
  have v': "e_phoff ?h + 32 * e_phnum ?h \<le> length ?c" "\<forall>ph\<in>set (program_headers ?c (e_phoff ?h) (e_phnum ?h)). seg_ok ?c ph"
    using v by (simp_all add: valid_elf_def segments_of_def)
  have "pages_up (program_size ?c) - pages_up 0 \<le> length ps1" using l1 by simp
  from load_segments_loads [OF b1 p v' ls this, of dv junk] obtain k2 ps2 where
    l: "load_segments dv kend d ip junk (e_phnum ?h) (of_nat (e_phoff ?h)) 0 f2 k1 = Some (Some (program_size ?c), f2, k2)"
      "building kend kdata (phys k) (set ps) (program_size ?c) k2 d ps2" "umem (phys k2) d = program_image ?c"
      "length ps1 = length ps2 + (pages_up (program_size ?c) - pages_up 0)" by blast
  have z: "pages_up 0 = 0" by (simp add: pages_up_def PGSIZE_def)
  then have "ps2 \<noteq> []" using l(4) l1 by auto
  moreover have "program_size ?c \<le> USERTOP - PGSIZE"
    using load_spec_bound [OF v'(2), of 0 "\<lambda>_. None"] by (simp add: program_size_def segments_of_def)
  ultimately obtain k3 ps3 where
    s: "build_stack kend d argv (program_size ?c) k2 = Some (Some (base + PGSIZE, sp), k3)"
      "building kend kdata (phys k) (set ps) (base + PGSIZE) k3 d ps3" "frame_at (umem (phys k3) d) sp argv"
      "\<forall>x<base. umem (phys k3) d x = umem (phys k2) d x"
    using build_stack_builds [OF l(2) kd(3) as(1)] as(2) unfolding base_def sp_def stack_need_def by blast
  have "exec_image dv kend kdata c path argv junk f k = Some (Some
      \<lparr>im_pgdir = d, im_sz = base + PGSIZE, im_entry = e_entry ?h, im_sp = sp\<rparr>, f3, k3)"
    using h d(1) d0 l(1) n(3) s(1) by (simp add: exec_image_def)
  then show ?thesis using s(2,3,4) d0 unfolding l(3) by (intro exI [of _ d] exI [of _ k3] exI [of _ ps3]) simp
qed

end
