(* ===== verification/VmRun.thy ===== *)
theory VmRun
  imports ExecBuild
begin

text \<open>
  The memories of all processes (\<open>userinit\<close>, \<open>growproc\<close>, \<open>fork\<close> and \<open>wait\<close> of P5 \<open>kernel/proc.c\<close>, as far as they
  manage memory): no two processes ever share a page, and no page a user can reach is free or holds a page table.
\<close>

text \<open>\<open>apgdir\<close> is \<open>pgdir\<close> of a process, 0 when it has none; \<open>asz\<close> is its \<open>sz\<close>.\<close>

record memories =
  amem :: kmem
  apgdir :: "nat \<Rightarrow> nat"
  asz :: "nat \<Rightarrow> nat"

definition userinit_mem :: "nat \<Rightarrow> nat \<Rightarrow> nat \<Rightarrow> nat \<Rightarrow> memories \<Rightarrow> memories option" where
  "userinit_mem kdata p init len s = do {
     (d, k1) \<leftarrow> setupkvm kdata (amem s);
     if d = 0 then None
     else do {
       k2 \<leftarrow> inituvm d init len k1;
       Some (s\<lparr>amem := k2, apgdir := (apgdir s)(p := d), asz := (asz s)(p := PGSIZE)\<rparr>) } }"

text \<open>\<open>sz + n\<close> is computed in 32 bits.\<close>

definition growproc :: "nat \<Rightarrow> nat \<Rightarrow> int \<Rightarrow> memories \<Rightarrow> (int \<times> memories) option" where
  "growproc kend p n s =
     (let newsz = nat ((int (asz s p) + n) mod 2 ^ 32) in do {
        (sz, k) \<leftarrow> (if n > 0 then allocuvm kend (apgdir s p) (asz s p) newsz (amem s)
           else if n < 0 then deallocuvm kend (apgdir s p) (asz s p) newsz (amem s)
           else Some (asz s p, amem s));
        if n \<noteq> 0 \<and> sz = 0 then Some (-1, s\<lparr>amem := k\<rparr>)
        else Some (0, s\<lparr>amem := k, asz := (asz s)(p := sz)\<rparr>) })"

definition fork_mem :: "nat \<Rightarrow> nat \<Rightarrow> nat \<Rightarrow> nat \<Rightarrow> memories \<Rightarrow> (bool \<times> memories) option" where
  "fork_mem kend kdata p q s = do {
     (d, k) \<leftarrow> copyuvm kend kdata (apgdir s p) (asz s p) (amem s);
     if d = 0 then Some (False, s\<lparr>amem := k\<rparr>)
     else Some (True, s\<lparr>amem := k, apgdir := (apgdir s)(q := d), asz := (asz s)(q := asz s p)\<rparr>) }"

definition reap_mem :: "nat \<Rightarrow> nat \<Rightarrow> memories \<Rightarrow> memories option" where
  "reap_mem kend p s = do {
     k \<leftarrow> freevm kend (apgdir s p) (amem s);
     Some (s\<lparr>amem := k, apgdir := (apgdir s)(p := 0)\<rparr>) }"

definition write_mem :: "nat \<Rightarrow> nat \<Rightarrow> u8 list \<Rightarrow> memories \<Rightarrow> (bool \<times> memories) option" where
  "write_mem p va bs s = do {
     (ok, k) \<leftarrow> copyout (apgdir s p) va bs (amem s);
     Some (ok, s\<lparr>amem := k\<rparr>) }"

text \<open>
  \<open>exec\<close>: when the image is built it replaces the memory of the process.  The result is \<open>None\<close> for -1, and otherwise the
  registers and the name that the process goes on with; \<open>p->name\<close> has 16 bytes.
\<close>

record regs =
  r_eip :: nat
  r_esp :: nat
  r_name :: "u8 list"

fun last_elem :: "u8 list \<Rightarrow> u8 list \<Rightarrow> u8 list" where
  "last_elem l [] = l"
| "last_elem l (ch # s) = last_elem (if ch = slash then s else l) s"

definition exec_mem :: "devsw \<Rightarrow> nat \<Rightarrow> nat \<Rightarrow> nat \<Rightarrow> nat \<Rightarrow> u8 list \<Rightarrow> u8 list list \<Rightarrow> (nat \<Rightarrow> u8) \<Rightarrow> fs \<Rightarrow> memories \<Rightarrow>
    (regs option \<times> fs \<times> memories) option" where
  "exec_mem dv kend kdata p c path argv junk f s = do {
     (res, f1, k) \<leftarrow> exec_image dv kend kdata c path argv junk f (amem s);
     case res of None \<Rightarrow> Some (None, f1, s\<lparr>amem := k\<rparr>)
     | Some im \<Rightarrow> do {
         k1 \<leftarrow> freevm kend (apgdir s p) k;
         Some (Some \<lparr>r_eip = im_entry im, r_esp = im_sp im, r_name = take 15 (last_elem path path)\<rparr>, f1,
           s\<lparr>amem := k1, apgdir := (apgdir s)(p := im_pgdir im), asz := (asz s)(p := im_sz im)\<rparr>) } }"

section \<open>The invariant\<close>

definition vm_inv :: "nat \<Rightarrow> nat \<Rightarrow> memories \<Rightarrow> bool" where
  "vm_inv kend kdata s \<longleftrightarrow> (\<exists>ps. kmem_inv kend (amem s) ps \<and>
     (\<forall>p. apgdir s p \<noteq> 0 \<longrightarrow> space_ok kend kdata (amem s) (apgdir s p) ps \<and> asz s p \<le> USERTOP \<and>
        upages (phys (amem s)) (apgdir s p) \<subseteq> {0..<pages_up (asz s p)}) \<and>
     (\<forall>p q. p \<noteq> q \<longrightarrow> apgdir s p \<noteq> 0 \<longrightarrow> apgdir s q \<noteq> 0 \<longrightarrow>
        owned (phys (amem s)) (apgdir s p) \<inter> owned (phys (amem s)) (apgdir s q) = {}))"

text \<open>A step of \<open>p\<close> that works on free pages and pages that \<open>p\<close> owns keeps the invariant and everybody else's memory.\<close>

definition mem_view :: "memories \<Rightarrow> nat \<Rightarrow> nat \<Rightarrow> u8 option" where
  "mem_view s p = umem (phys (amem s)) (apgdir s p)"

definition own_of :: "memories \<Rightarrow> nat \<Rightarrow> nat set" where
  "own_of s p = (if apgdir s p = 0 then {} else owned (phys (amem s)) (apgdir s p))"

lemma vm_inv_step:
  assumes inv: "\<And>p. apgdir s p \<noteq> 0 \<Longrightarrow> space_ok kend kdata (amem s) (apgdir s p) ps \<and> asz s p \<le> USERTOP \<and>
        upages (phys (amem s)) (apgdir s p) \<subseteq> {0..<pages_up (asz s p)}"
    and disj: "\<And>p q. p \<noteq> q \<Longrightarrow> own_of s p \<inter> own_of s q = {}"
    and k: "kmem_inv kend k ps'" "set ps' \<subseteq> set ps \<union> own_of s p"
    and u: "unchanged (set ps \<union> own_of s p) (phys (amem s)) (phys k)"
    and q: "d \<noteq> 0 \<Longrightarrow> space_ok kend kdata k d ps' \<and> sz \<le> USERTOP \<and> upages (phys k) d \<subseteq> {0..<pages_up sz} \<and>
      owned (phys k) d \<subseteq> set ps \<union> own_of s p"
  shows "vm_inv kend kdata (s\<lparr>amem := k, apgdir := (apgdir s)(p := d), asz := (asz s)(p := sz)\<rparr>)"
    "r \<noteq> p \<Longrightarrow> apgdir s r \<noteq> 0 \<Longrightarrow> umem (phys k) (apgdir s r) = umem (phys (amem s)) (apgdir s r)"
proof -
  have other: "space_ok kend kdata k (apgdir s r) ps'" "umem (phys k) (apgdir s r) = umem (phys (amem s)) (apgdir s r)"
    "owned (phys k) (apgdir s r) = own_of s r" "upages (phys k) (apgdir s r) = upages (phys (amem s)) (apgdir s r)"
    "own_of s r \<inter> set ps = {}"
    if "r \<noteq> p" "apgdir s r \<noteq> 0" for r
  proof -
    have ok: "space_ok kend kdata (amem s) (apgdir s r) ps" using inv that by blast
    have o: "own_of s r = owned (phys (amem s)) (apgdir s r)" using that by (simp add: own_of_def)
    show rs: "own_of s r \<inter> set ps = {}" using owned_page [OF ok] o by auto
    have S: "(set ps \<union> own_of s p) \<inter> owned (phys (amem s)) (apgdir s r) = {}" using rs disj [OF that(1)] o by auto
    then have "owned (phys (amem s)) (apgdir s r) \<inter> set ps' = {}" using k(2) by auto
    from space_other [OF ok u S k(1) this] o
    show "space_ok kend kdata k (apgdir s r) ps'" "umem (phys k) (apgdir s r) = umem (phys (amem s)) (apgdir s r)"
      "owned (phys k) (apgdir s r) = own_of s r" "upages (phys k) (apgdir s r) = upages (phys (amem s)) (apgdir s r)" by auto
  qed
  then show "r \<noteq> p \<Longrightarrow> apgdir s r \<noteq> 0 \<Longrightarrow> umem (phys k) (apgdir s r) = umem (phys (amem s)) (apgdir s r)" by blast
  let ?s = "s\<lparr>amem := k, apgdir := (apgdir s)(p := d), asz := (asz s)(p := sz)\<rparr>"
  have "space_ok kend kdata k (apgdir ?s r) ps' \<and> asz ?s r \<le> USERTOP \<and> upages (phys k) (apgdir ?s r) \<subseteq> {0..<pages_up (asz ?s r)}"
    if "apgdir ?s r \<noteq> 0" for r
    using that q other(1,4) [of r] inv [of r] by (cases "r = p") auto
  moreover have "owned (phys k) (apgdir ?s a) \<inter> owned (phys k) (apgdir ?s b) = {}"
    if "a \<noteq> b" "apgdir ?s a \<noteq> 0" "apgdir ?s b \<noteq> 0" for a b
  proof -
    have one: "owned (phys k) d \<inter> own_of s r = {}" if "d \<noteq> 0" "r \<noteq> p" "apgdir s r \<noteq> 0" for r
      using q [OF that(1)] other(5) [OF that(2,3)] disj [OF that(2)] by auto
    show ?thesis
    proof (cases "a = p")
      case True
      then show ?thesis using that one [of b] other(3) [of b] by auto
    next
      case False
      then show ?thesis using that one [of a] other(3) [of a] other(3) [of b] disj [of a b] by (cases "b = p") auto
    qed
  qed
  ultimately show "vm_inv kend kdata ?s" using k(1) unfolding vm_inv_def by (intro exI [of _ ps']) auto
qed

section \<open>Every operation keeps the invariant\<close>

definition int32 :: "int \<Rightarrow> bool" where "int32 n \<longleftrightarrow> - (2 ^ 31) \<le> n \<and> n < 2 ^ 31"

text \<open>\<open>inituvm\<close> when there is a page.\<close>

lemma inituvm_spec:
  assumes ok: "space_ok kend kdata k d (f # ps)" and up: "upages (phys k) d = {}" and len: "len < PGSIZE"
  shows "\<exists>k'. inituvm d init len k = Some k' \<and> space_ok kend kdata k' d ps \<and> upages (phys k') d = {0} \<and>
    owned (phys k') d \<subseteq> owned (phys k) d \<union> {f} \<and> unchanged (owned (phys k) d \<union> {f}) (phys k) (phys k')"
proof -
  have fp: "page kend f" "f \<notin> set ps" "f \<notin> owned (phys k) d"
    using space_okD(8) [OF ok] owned_page [OF ok, of f] by (auto simp: kmem_inv_def)
  note fa = page_aligned(1) [OF fp(1)]
  let ?m = "memset (phys k) f 0 PGSIZE"
  have m: "unchanged {f} (phys k) ?m" "\<And>i. i < PGSIZE \<Longrightarrow> ?m (f + i) = 0"
    by (simp_all add: unchanged_memset [OF fa] memset_apply)
  have "(0::nat) < 160" "0 \<notin> upages (phys k) d" using up by auto
  from took_step [OF took_refl [OF ok] le0 this m] obtain k1 where
    k1: "kalloc k = (f, k1)" "f \<noteq> 0" "phys k1 = phys k"
    and st: "\<And>k2. k2 = set_pte d 0 (f OR WU OR PTE_P) (k1\<lparr>phys := ?m\<rparr>) \<Longrightarrow>
      mappages d (0 * PGSIZE) PGSIZE f (PTE_W OR PTE_U) (k1\<lparr>phys := ?m\<rparr>) = Some (True, k2) \<and>
      took kend kdata d 0 (Suc 0) (\<lambda>_. 0) k (f # ps) k2 ps" by blast
  obtain k2 where k2: "mappages d 0 PGSIZE f (PTE_W OR PTE_U) (k1\<lparr>phys := ?m\<rparr>) = Some (True, k2)"
    and t: "took kend kdata d 0 1 (\<lambda>_. 0) k (f # ps) k2 ps" using st [OF refl] by auto
  from t have ok2: "space_ok kend kdata k2 d ps" and up2: "upages (phys k2) d = {0}" and fr: "uframe (phys k2) d 0 = f"
    and ow: "owned (phys k2) d = owned (phys k) d \<union> {f}" and u2: "unchanged (owned (phys k) d \<union> {f}) (phys k) (phys k2)"
    using up unchanged_mono [of "tables (phys k) d \<union> {f}" "phys k" "phys k2" "owned (phys k) d \<union> {f}"]
    by (auto simp: took_def length_Suc_conv owned_def)
  define k3 where "k3 = k2\<lparr>phys := memmove (phys k2) f init len\<rparr>"
  have u3: "unchanged {f} (phys k2) (phys k3)"
    using in_page [OF fa] len by (auto simp: unchanged_def k3_def memmove_apply)
  have "f \<in> frames (phys k2) d" using up2 fr by (auto simp: frames_def)
  then have "f \<noteq> d" "f \<notin> tables (phys k2) d" "f \<notin> set ps" using space_okD(5,6) [OF ok2] by auto
  then have c: "space_ok kend kdata k3 d ps" "upages (phys k3) d = {0}" "owned (phys k3) d = owned (phys k2) d"
    using space_ok_unchanged(1,2,5) [OF ok2 u3] up2 by (auto simp: k3_def)
  have "inituvm d init len k = Some k3" using len k1(1,3) k2 by (simp add: inituvm_def k3_def)
  moreover have "unchanged (owned (phys k) d \<union> {f}) (phys k) (phys k3)"
    by (rule unchanged_mono [OF unchanged_trans [OF u2 u3]]) auto
  ultimately show ?thesis using c ow by auto
qed

lemma vm_invE:
  assumes "vm_inv kend kdata s"
  obtains ps where "kmem_inv kend (amem s) ps"
    "\<And>p. apgdir s p \<noteq> 0 \<Longrightarrow> space_ok kend kdata (amem s) (apgdir s p) ps \<and> asz s p \<le> USERTOP \<and>
        upages (phys (amem s)) (apgdir s p) \<subseteq> {0..<pages_up (asz s p)}"
    "\<And>p q. p \<noteq> q \<Longrightarrow> own_of s p \<inter> own_of s q = {}"
  using assms unfolding vm_inv_def own_of_def by fastforce

text \<open>What a step of \<open>p\<close> leaves alone.\<close>

definition keeps_others :: "nat \<Rightarrow> memories \<Rightarrow> memories \<Rightarrow> bool" where
  "keeps_others p s s' \<longleftrightarrow> (\<forall>r. r \<noteq> p \<longrightarrow> apgdir s r \<noteq> 0 \<longrightarrow> apgdir s' r = apgdir s r \<and> mem_view s' r = mem_view s r)"

lemma vm_step_result:
  assumes inv: "\<And>p. apgdir s p \<noteq> 0 \<Longrightarrow> space_ok kend kdata (amem s) (apgdir s p) ps \<and> asz s p \<le> USERTOP \<and>
        upages (phys (amem s)) (apgdir s p) \<subseteq> {0..<pages_up (asz s p)}"
    and disj: "\<And>p q. p \<noteq> q \<Longrightarrow> own_of s p \<inter> own_of s q = {}"
    and s': "s' = s\<lparr>amem := k, apgdir := (apgdir s)(p := d), asz := (asz s)(p := sz)\<rparr>"
    and k: "kmem_inv kend k ps'" "set ps' \<subseteq> set ps \<union> own_of s p"
    and u: "unchanged (set ps \<union> own_of s p) (phys (amem s)) (phys k)"
    and q: "d \<noteq> 0 \<Longrightarrow> space_ok kend kdata k d ps' \<and> sz \<le> USERTOP \<and> upages (phys k) d \<subseteq> {0..<pages_up sz} \<and>
      owned (phys k) d \<subseteq> set ps \<union> own_of s p"
  shows "vm_inv kend kdata s' \<and> keeps_others p s s'"
  using vm_inv_step [OF inv disj k u q] by (auto simp: s' keeps_others_def mem_view_def)

lemma userinit_step:
  assumes k: "userinit_mem kdata p init len s = Some s'" and p: "apgdir s p = 0" and inv: "vm_inv kend kdata s"
    and kd: "kdata mod PGSIZE = 0" "0x100000 < kdata" "kdata < PHYSTOP"
    and enough: "\<forall>d k1. setupkvm kdata (amem s) = Some (d, k1) \<longrightarrow> freelist k1 \<noteq> 0"
  shows "vm_inv kend kdata s' \<and> keeps_others p s s'"
proof -
  from inv obtain ps where ps: "kmem_inv kend (amem s) ps" and a: "\<And>p. apgdir s p \<noteq> 0 \<Longrightarrow>
      space_ok kend kdata (amem s) (apgdir s p) ps \<and> asz s p \<le> USERTOP \<and> upages (phys (amem s)) (apgdir s p) \<subseteq> {0..<pages_up (asz s p)}"
    and dj: "\<And>p q. p \<noteq> q \<Longrightarrow> own_of s p \<inter> own_of s q = {}" by (rule vm_invE) blast
  from setupkvm_space [OF ps kd] obtain d k1 ps1 where
    d: "setupkvm kdata (amem s) = Some (d, k1)" "kmem_inv kend k1 ps1" "set ps1 \<subseteq> set ps" "unchanged (set ps) (phys (amem s)) (phys k1)"
    and z: "d \<noteq> 0 \<longrightarrow> space_ok kend kdata k1 d ps1 \<and> upages (phys k1) d = {} \<and> owned (phys k1) d = set ps - set ps1" by blast
  from k d(1) obtain k2 where d0: "d \<noteq> 0" and k2: "inituvm d init len k1 = Some k2"
    and s': "s' = s\<lparr>amem := k2, apgdir := (apgdir s)(p := d), asz := (asz s)(p := PGSIZE)\<rparr>"
    by (auto simp: userinit_mem_def Option.bind_eq_Some_conv split: if_splits)
  have len: "len < PGSIZE" using k2 by (auto simp: inituvm_def split: if_splits)
  have "freelist k1 \<noteq> 0" using enough d(1) by blast
  then obtain f qs where fq: "ps1 = f # qs" using d(2) by (cases ps1) (auto simp: kmem_inv_def)
  from z d0 have z': "space_ok kend kdata k1 d (f # qs)" "upages (phys k1) d = {}" "owned (phys k1) d = set ps - set ps1"
    by (auto simp: fq)
  from inituvm_spec [OF z'(1,2) len, of init] k2 have
    i: "space_ok kend kdata k2 d qs" "upages (phys k2) d = {0}" "owned (phys k2) d \<subseteq> owned (phys k1) d \<union> {f}"
      "unchanged (owned (phys k1) d \<union> {f}) (phys k1) (phys k2)" by auto
  show ?thesis
  proof (rule vm_step_result [OF a dj s'])
    show "kmem_inv kend k2 qs" by (rule space_okD(8) [OF i(1)])
    show "set qs \<subseteq> set ps \<union> own_of s p" using d(3) by (auto simp: fq)
    show "unchanged (set ps \<union> own_of s p) (phys (amem s)) (phys k2)"
      by (rule unchanged_mono [OF unchanged_trans [OF d(4) i(4)]]) (use z'(3) d(3) in \<open>auto simp: fq\<close>)
    show "space_ok kend kdata k2 d qs \<and> PGSIZE \<le> USERTOP \<and> upages (phys k2) d \<subseteq> {0..<pages_up PGSIZE} \<and>
        owned (phys k2) d \<subseteq> set ps \<union> own_of s p"
      using i z'(3) d(3) by (auto simp: fq USERTOP_def PGSIZE_def pages_up_def)
  qed
qed

lemma growproc_step:
  assumes k: "growproc kend p n s = Some (r, s')" and p: "apgdir s p \<noteq> 0" and inv: "vm_inv kend kdata s" and n: "int32 n"
  shows "vm_inv kend kdata s' \<and> keeps_others p s s'"
proof -
  from inv obtain ps where ps: "kmem_inv kend (amem s) ps" and a: "\<And>p. apgdir s p \<noteq> 0 \<Longrightarrow>
      space_ok kend kdata (amem s) (apgdir s p) ps \<and> asz s p \<le> USERTOP \<and> upages (phys (amem s)) (apgdir s p) \<subseteq> {0..<pages_up (asz s p)}"
    and dj: "\<And>p q. p \<noteq> q \<Longrightarrow> own_of s p \<inter> own_of s q = {}" by (rule vm_invE) blast
  let ?d = "apgdir s p" and ?o = "asz s p"
  define newsz where "newsz = nat ((int (asz s p) + n) mod 2 ^ 32)"
  have ok: "space_ok kend kdata (amem s) ?d ps" and sz: "?o \<le> USERTOP" and up: "upages (phys (amem s)) ?d \<subseteq> {0..<pages_up ?o}"
    using a [OF p] by auto
  have own: "own_of s p = owned (phys (amem s)) ?d" using p by (simp add: own_of_def)
  have res: "vm_inv kend kdata s' \<and> keeps_others p s s'"
    if s': "s' = s\<lparr>amem := k', asz := (asz s)(p := sz')\<rparr>" and g: "space_ok kend kdata k' ?d ps'" "sz' \<le> USERTOP"
      "upages (phys k') ?d \<subseteq> {0..<pages_up sz'}" "owned (phys k') ?d \<subseteq> set ps \<union> own_of s p" "set ps' \<subseteq> set ps \<union> own_of s p"
      "unchanged (set ps \<union> own_of s p) (phys (amem s)) (phys k')" for k' ps' sz'
    by (rule vm_step_result [OF a dj _ space_okD(8) [OF g(1)] g(5,6), where d = ?d and sz = sz']) (use s' g in \<open>auto simp: memories.equality\<close>)
  have same: "vm_inv kend kdata s' \<and> keeps_others p s s'" if "s' = s\<lparr>amem := amem s, asz := (asz s)(p := ?o)\<rparr>"
    using that ok sz up own by (intro res [where k' = "amem s" and sz' = ?o and ps' = ps]) auto
  consider "n = 0" | "n > 0" | "n < 0" by linarith
  then show ?thesis
  proof cases
    case 1
    then show ?thesis using k by (intro same) (simp add: growproc_def)
  next
    case 2
    have nz: "newsz = ?o + nat n" using 2 n sz unfolding newsz_def by (simp add: int32_def USERTOP_def nat_add_distrib)
    obtain sz1 k1 where al: "allocuvm kend ?d ?o newsz (amem s) = Some (sz1, k1)"
      using k 2 by (auto simp: growproc_def newsz_def Option.bind_eq_Some_conv)
    then have s': "s' = (if sz1 = 0 then s\<lparr>amem := k1\<rparr> else s\<lparr>amem := k1, asz := (asz s)(p := sz1)\<rparr>)"
      using k 2 by (auto simp: growproc_def newsz_def split: if_splits)
    show ?thesis
    proof (cases "newsz > USERTOP")
      case True
      then show ?thesis using al s' by (intro same) (simp add: allocuvm_def)
    next
      case False
      have fr: "upages (phys (amem s)) ?d \<inter> {pages_up ?o..<pages_up newsz} = {}" using up by auto
      from allocuvm_spec [OF ok _ _ fr] nz False al obtain ps' where
        c: "(sz1 = newsz \<and> took kend kdata ?d (pages_up ?o) (pages_up newsz) (\<lambda>_. 0) (amem s) ps k1 ps') \<or>
          (sz1 = 0 \<and> undone kend kdata ?d (amem s) ps k1 ps')" by auto
      then show ?thesis
      proof (elim disjE conjE)
        assume "sz1 = newsz" and t: "took kend kdata ?d (pages_up ?o) (pages_up newsz) (\<lambda>_. 0) (amem s) ps k1 ps'"
        then have e: "s' = s\<lparr>amem := k1, asz := (asz s)(p := newsz)\<rparr>" using s' nz 2 by simp
        note t' = took_owned [OF t]
        have "upages (phys k1) ?d \<subseteq> {0..<pages_up newsz}"
        proof -
          have "pages_up ?o \<le> pages_up newsz" unfolding pages_up_def nz by (intro div_le_mono) simp
          then show ?thesis using t up by (fastforce simp: took_def)
        qed
        then show ?thesis using t' own False by (intro res [OF e t'(3)]) (auto simp: Un_commute)
      next
        assume "sz1 = 0" and un: "undone kend kdata ?d (amem s) ps k1 ps'"
        then have e: "s' = s\<lparr>amem := k1, asz := (asz s)(p := ?o)\<rparr>" using s' by simp
        have "unchanged (set ps \<union> own_of s p) (phys (amem s)) (phys k1)"
        proof (rule unchanged_mono)
          show "unchanged (tables (phys (amem s)) ?d \<union> set ps) (phys (amem s)) (phys k1)" using un by (simp add: undone_def)
        qed (auto simp: own owned_def)
        then show ?thesis using un own sz up by (intro res [OF e, where ps' = ps']) (auto simp: undone_def)
      qed
    qed
  next
    case 3
    obtain sz1 k1 where de: "deallocuvm kend ?d ?o newsz (amem s) = Some (sz1, k1)"
      using k 3 by (auto simp: growproc_def newsz_def Option.bind_eq_Some_conv)
    then have s': "s' = (if sz1 = 0 then s\<lparr>amem := k1\<rparr> else s\<lparr>amem := k1, asz := (asz s)(p := sz1)\<rparr>)"
      using k 3 by (auto simp: growproc_def newsz_def split: if_splits)
    show ?thesis
    proof (cases "newsz < ?o")
      case False
      then have "sz1 = ?o" "k1 = amem s" using de by (auto simp: deallocuvm_def)
      then show ?thesis using s' by (intro same) auto
    next
      case True
      from deallocuvm_spec [OF ok sz True] de have sz1: "sz1 = newsz"
        and g: "gave_back kend kdata ?d (pages_up newsz) (pages_up ?o) (amem s) ps k1" by auto
      define D where "D = {n \<in> upages (phys (amem s)) ?d. pages_up newsz \<le> n \<and> n < pages_up ?o}"
      from g obtain ps' where g': "space_ok kend kdata k1 ?d ps'" "set ps' = set ps \<union> uframe (phys (amem s)) ?d ` D"
        "upages (phys k1) ?d = upages (phys (amem s)) ?d - D" "tables (phys k1) ?d = tables (phys (amem s)) ?d"
        "unchanged (tables (phys (amem s)) ?d \<union> uframe (phys (amem s)) ?d ` D) (phys (amem s)) (phys k1)"
        "\<forall>j\<in>upages (phys k1) ?d. uframe (phys k1) ?d j = uframe (phys (amem s)) ?d j"
        unfolding gave_back_def Let_def D_def [symmetric] by auto
      have F: "uframe (phys (amem s)) ?d ` D \<subseteq> own_of s p" by (auto simp: own owned_def frames_def D_def)
      have fr: "owned (phys k1) ?d \<subseteq> own_of s p" using g'(3,4,6) by (auto simp: own owned_def frames_def)
      have u: "unchanged (set ps \<union> own_of s p) (phys (amem s)) (phys k1)"
        by (rule unchanged_mono [OF g'(5)]) (use F own in \<open>auto simp: owned_def\<close>)
      have lt: "upages (phys k1) ?d \<subseteq> {0..<pages_up newsz}" using g'(3) up by (auto simp: D_def)
      have "pages_up newsz \<le> pages_up ?o" unfolding pages_up_def using True by (intro div_le_mono) simp
      then have lo: "upages (phys k1) ?d \<subseteq> {0..<pages_up ?o}" using lt by auto
      show ?thesis
      proof (cases "newsz = 0")
        case True
        then have e: "s' = s\<lparr>amem := k1, asz := (asz s)(p := ?o)\<rparr>" using s' sz1 by simp
        show ?thesis using g'(2) F fr u lo sz by (intro res [OF e g'(1)]) auto
      next
        case False
        then have e: "s' = s\<lparr>amem := k1, asz := (asz s)(p := newsz)\<rparr>" using s' sz1 by simp
        show ?thesis using g'(2) F fr u lt sz \<open>newsz < ?o\<close> by (intro res [OF e g'(1)]) auto
      qed
    qed
  qed
qed

lemma fork_step:
  assumes k: "fork_mem kend kdata p q s = Some (r, s')" and p: "apgdir s p \<noteq> 0" "apgdir s q = 0" and inv: "vm_inv kend kdata s"
    and kd: "kdata mod PGSIZE = 0" "0x100000 < kdata" "kdata < PHYSTOP"
  shows "vm_inv kend kdata s' \<and> keeps_others q s s'"
    "r \<longrightarrow> apgdir s' q \<noteq> 0 \<and> asz s' q = asz s p \<and>
      (\<forall>va. mem_view s' q va = (if va < pages_up (asz s p) * PGSIZE then mem_view s p va else None))"
proof -
  from inv obtain ps where ps: "kmem_inv kend (amem s) ps" and a: "\<And>p. apgdir s p \<noteq> 0 \<Longrightarrow>
      space_ok kend kdata (amem s) (apgdir s p) ps \<and> asz s p \<le> USERTOP \<and> upages (phys (amem s)) (apgdir s p) \<subseteq> {0..<pages_up (asz s p)}"
    and dj: "\<And>p q. p \<noteq> q \<Longrightarrow> own_of s p \<inter> own_of s q = {}" by (rule vm_invE) blast
  have ok: "space_ok kend kdata (amem s) (apgdir s p) ps" and sz: "asz s p \<le> USERTOP" using a [OF p(1)] by auto
  from k obtain d k1 where c: "copyuvm kend kdata (apgdir s p) (asz s p) (amem s) = Some (d, k1)"
    by (auto simp: fork_mem_def Option.bind_eq_Some_conv)
  from copyuvm_spec [OF ok sz kd] c obtain ps' where
    k1: "kmem_inv kend k1 ps'" "set ps' \<subseteq> set ps" "unchanged (set ps) (phys (amem s)) (phys k1)"
    and d: "d \<noteq> 0 \<longrightarrow> space_ok kend kdata k1 d ps' \<and> owned (phys k1) d = set ps - set ps' \<and>
         upages (phys k1) d = {0..<pages_up (asz s p)} \<and> {0..<pages_up (asz s p)} \<subseteq> upages (phys (amem s)) (apgdir s p) \<and>
         (\<forall>va. umem (phys k1) d va = (if va < pages_up (asz s p) * PGSIZE then Some (the (umem (phys (amem s)) (apgdir s p) va)) else None))"
    by auto
  have u: "unchanged (set ps \<union> own_of s q) (phys (amem s)) (phys k1)" by (rule unchanged_mono [OF k1(3)]) auto
  have s': "s' = s\<lparr>amem := k1, apgdir := (apgdir s)(q := d), asz := (asz s)(q := if d = 0 then asz s q else asz s p)\<rparr>"
    using k c p(2) by (auto simp: fork_mem_def fun_upd_idem split: if_splits)
  show "vm_inv kend kdata s' \<and> keeps_others q s s'"
    by (rule vm_step_result [OF a dj s' k1(1) _ u]) (use k1(2) d sz in auto)
  have "r \<longleftrightarrow> d \<noteq> 0" using k c by (auto simp: fork_mem_def split: if_splits)
  moreover have "mem_view s' q va = (if va < pages_up (asz s p) * PGSIZE then mem_view s p va else None)" if "d \<noteq> 0" for va
  proof (cases "va < pages_up (asz s p) * PGSIZE")
    case True
    have "{0..<pages_up (asz s p)} \<subseteq> upages (phys (amem s)) (apgdir s p)" using d that by simp
    then have "umem (phys (amem s)) (apgdir s p) va \<noteq> None" using True by (auto simp: umem_def in_pages div_less_iff_less_mult PGSIZE_def)
    then show ?thesis using that d True by (simp add: s' mem_view_def)
  qed (use that d in \<open>simp add: s' mem_view_def\<close>)
  ultimately show "r \<longrightarrow> apgdir s' q \<noteq> 0 \<and> asz s' q = asz s p \<and>
      (\<forall>va. mem_view s' q va = (if va < pages_up (asz s p) * PGSIZE then mem_view s p va else None))"
    by (simp add: s')
qed

lemma reap_step:
  assumes k: "reap_mem kend p s = Some s'" and p: "apgdir s p \<noteq> 0" and inv: "vm_inv kend kdata s"
  shows "vm_inv kend kdata s' \<and> keeps_others p s s'"
proof -
  from inv obtain ps where ps: "kmem_inv kend (amem s) ps" and a: "\<And>p. apgdir s p \<noteq> 0 \<Longrightarrow>
      space_ok kend kdata (amem s) (apgdir s p) ps \<and> asz s p \<le> USERTOP \<and> upages (phys (amem s)) (apgdir s p) \<subseteq> {0..<pages_up (asz s p)}"
    and dj: "\<And>p q. p \<noteq> q \<Longrightarrow> own_of s p \<inter> own_of s q = {}" by (rule vm_invE) blast
  have own: "own_of s p = owned (phys (amem s)) (apgdir s p)" using p by (simp add: own_of_def)
  from freevm_spec [of kend kdata "amem s" "apgdir s p" ps] a [OF p] obtain k' ps' where
    f: "freevm kend (apgdir s p) (amem s) = Some k'" "kmem_inv kend k' ps'" "set ps' = set ps \<union> own_of s p"
      "unchanged (own_of s p) (phys (amem s)) (phys k')" by (auto simp: own)
  have s': "s' = s\<lparr>amem := k', apgdir := (apgdir s)(p := 0), asz := (asz s)(p := asz s p)\<rparr>"
    using k f(1) by (cases s) (auto simp: reap_mem_def)
  have u: "unchanged (set ps \<union> own_of s p) (phys (amem s)) (phys k')" by (rule unchanged_mono [OF f(4)]) auto
  show ?thesis by (rule vm_step_result [OF a dj s' f(2) _ u]) (use f(3) in auto)
qed

lemma write_step:
  assumes k: "write_mem p va bs s = Some (r, s')" and p: "apgdir s p \<noteq> 0" and inv: "vm_inv kend kdata s"
    and len: "va + length bs \<le> USERTOP"
  shows "vm_inv kend kdata s' \<and> keeps_others p s s'"
proof -
  from inv obtain ps where ps: "kmem_inv kend (amem s) ps" and a: "\<And>p. apgdir s p \<noteq> 0 \<Longrightarrow>
      space_ok kend kdata (amem s) (apgdir s p) ps \<and> asz s p \<le> USERTOP \<and> upages (phys (amem s)) (apgdir s p) \<subseteq> {0..<pages_up (asz s p)}"
    and dj: "\<And>p q. p \<noteq> q \<Longrightarrow> own_of s p \<inter> own_of s q = {}" by (rule vm_invE) blast
  have own: "own_of s p = owned (phys (amem s)) (apgdir s p)" using p by (simp add: own_of_def)
  from copyout_spec [of kend kdata "amem s" "apgdir s p" ps va bs] a [OF p] len obtain b k' where
    c: "copyout (apgdir s p) va bs (amem s) = Some (b, k')" "space_ok kend kdata k' (apgdir s p) ps"
      "owned (phys k') (apgdir s p) = own_of s p" "upages (phys k') (apgdir s p) = upages (phys (amem s)) (apgdir s p)"
      "unchanged (frames (phys (amem s)) (apgdir s p)) (phys (amem s)) (phys k')" by (auto simp: own)
  have s': "s' = s\<lparr>amem := k', apgdir := (apgdir s)(p := apgdir s p), asz := (asz s)(p := asz s p)\<rparr>"
    using k c(1) by (cases s) (auto simp: write_mem_def)
  have u: "unchanged (set ps \<union> own_of s p) (phys (amem s)) (phys k')"
    by (rule unchanged_mono [OF c(5)]) (auto simp: own owned_def)
  show ?thesis by (rule vm_step_result [OF a dj s' space_okD(8) [OF c(2)] _ u]) (use c(2,3,4) a [OF p] in auto)
qed

text \<open>The old memory goes back to the allocator, the new one keeps what was built.\<close>

lemma commit_spec:
  assumes old: "space_ok kend kdata k0 e ps" and b: "building kend kdata (phys k0) (set ps) sz k d ps'"
  shows "\<exists>k' ps''. freevm kend e k = Some k' \<and> kmem_inv kend k' ps'' \<and> set ps'' \<subseteq> set ps \<union> owned (phys k0) e \<and>
    unchanged (set ps \<union> owned (phys k0) e) (phys k0) (phys k') \<and> space_ok kend kdata k' d ps'' \<and> umem (phys k') d = umem (phys k) d \<and>
    upages (phys k') d = upages (phys k) d \<and> owned (phys k') d \<subseteq> set ps"
proof -
  note D = buildingD [OF b]
  have dis: "set ps \<inter> owned (phys k0) e = {}" using owned_page [OF old] by blast
  then have "owned (phys k0) e \<inter> set ps' = {}" using D(4) by blast
  note O = space_other [OF old D(5) dis space_okD(8) [OF D(1)] this]
  from freevm_spec [OF O(1)] obtain k' ps'' where k': "freevm kend e k = Some k'" "kmem_inv kend k' ps''"
    "set ps'' = set ps' \<union> owned (phys k0) e" "unchanged (owned (phys k0) e) (phys k) (phys k')" unfolding O(3) by blast
  have "owned (phys k0) e \<inter> owned (phys k) d = {}" "owned (phys k) d \<inter> set ps'' = {}"
    using dis D(4) k'(3) owned_page [OF D(1)] by blast+
  note N = space_other [OF D(1) k'(4) this(1) k'(2) this(2)]
  have "unchanged (set ps \<union> owned (phys k0) e) (phys k0) (phys k')" by (rule unchanged_trans [OF D(5) k'(4)])
  then show ?thesis using k' N D(4) by (intro exI [of _ k'] exI [of _ ps'']) auto
qed

lemma exec_step:
  assumes e: "exec_mem dv kend kdata p c path argv junk f s = Some (r, f', s')" and p: "apgdir s p \<noteq> 0" and inv: "vm_inv kend kdata s"
    and kd: "kdata mod PGSIZE = 0" "0x100000 < kdata" "kdata < PHYSTOP"
    and dv: "reads_bounded dv" "\<forall>a\<in>set argv. length a < USERTOP" "exec_safe dv kend kdata c path junk f (amem s)"
  shows "vm_inv kend kdata s' \<and> keeps_others p s s'" "r = None \<longrightarrow> apgdir s' p = apgdir s p \<and> asz s' p = asz s p \<and> mem_view s' p = mem_view s p"
    "r = None \<longrightarrow> 1025 < card (kpool kend (amem s)) \<longrightarrow> kpool kend (amem s') = kpool kend (amem s)"
proof -
  from inv obtain ps where ps: "kmem_inv kend (amem s) ps" and a: "\<And>p. apgdir s p \<noteq> 0 \<Longrightarrow>
      space_ok kend kdata (amem s) (apgdir s p) ps \<and> asz s p \<le> USERTOP \<and> upages (phys (amem s)) (apgdir s p) \<subseteq> {0..<pages_up (asz s p)}"
    and dj: "\<And>p q. p \<noteq> q \<Longrightarrow> own_of s p \<inter> own_of s q = {}" by (rule vm_invE) blast
  have own: "own_of s p = owned (phys (amem s)) (apgdir s p)" using p by (simp add: own_of_def)
  from e obtain res f1 k where i: "exec_image dv kend kdata c path argv junk f (amem s) = Some (res, f1, k)"
    by (auto simp: exec_mem_def Option.bind_eq_Some_conv)
  note R = exec_image_result [OF ps kd dv i]
  have "(vm_inv kend kdata s' \<and> keeps_others p s s') \<and> (r = None \<longrightarrow> apgdir s' p = apgdir s p \<and> asz s' p = asz s p \<and> mem_view s' p = mem_view s p) \<and>
    (r = None \<longrightarrow> 1025 < card (kpool kend (amem s)) \<longrightarrow> kpool kend (amem s') = kpool kend (amem s))"
  proof (cases res)
    case None
    then have s': "r = None" "s' = s\<lparr>amem := k, apgdir := (apgdir s)(p := apgdir s p), asz := (asz s)(p := asz s p)\<rparr>"
      using e i by (auto simp: exec_mem_def)
    from R None obtain qs where q: "kmem_inv kend k qs" "set qs \<subseteq> set ps" "1025 < length ps \<longrightarrow> set qs = set ps"
      "unchanged (set ps) (phys (amem s)) (phys k)" by (auto simp: image_result_def)
    have dis: "set ps \<inter> owned (phys (amem s)) (apgdir s p) = {}" using owned_page a [OF p] by blast
    then have "owned (phys (amem s)) (apgdir s p) \<inter> set qs = {}" using q(2) by blast
    note O = space_other [OF conjunct1 [OF a [OF p]] q(4) dis q(1) this]
    have u: "unchanged (set ps \<union> own_of s p) (phys (amem s)) (phys k)" by (rule unchanged_mono [OF q(4)]) auto
    have "vm_inv kend kdata s' \<and> keeps_others p s s'"
      by (rule vm_step_result [OF a dj s'(2) q(1) _ u]) (use q(2) O a [OF p] own in auto)
    moreover have "mem_view s' p = mem_view s p" using O(2) by (simp add: s'(2) mem_view_def)
    moreover have "card (kpool kend (amem s)) \<le> length ps" using kpool_eq [OF ps] card_length [of ps] by simp
    ultimately show ?thesis using s' q(3) kpool_eq [OF ps] kpool_eq [OF q(1)] by simp
  next
    case (Some im)
    from R Some obtain qs where im: "im_pgdir im \<noteq> 0" and
      b: "building kend kdata (phys (amem s)) (set ps) (im_sz im) k (im_pgdir im) qs" by (auto simp: image_result_def)
    from commit_spec [OF conjunct1 [OF a [OF p]] b] obtain k' qs' where
      c: "freevm kend (apgdir s p) k = Some k'" "kmem_inv kend k' qs'" "set qs' \<subseteq> set ps \<union> own_of s p"
        "unchanged (set ps \<union> own_of s p) (phys (amem s)) (phys k')" "space_ok kend kdata k' (im_pgdir im) qs'"
        "upages (phys k') (im_pgdir im) = upages (phys k) (im_pgdir im)" "owned (phys k') (im_pgdir im) \<subseteq> set ps"
      unfolding own by blast
    have s': "r \<noteq> None" "s' = s\<lparr>amem := k', apgdir := (apgdir s)(p := im_pgdir im), asz := (asz s)(p := im_sz im)\<rparr>"
      using e i c(1) by (auto simp: exec_mem_def Some)
    have "vm_inv kend kdata s' \<and> keeps_others p s s'"
      by (rule vm_step_result [OF a dj s'(2) c(2,3,4)]) (use c(5-7) buildingD(2,3) [OF b] in auto)
    then show ?thesis using s'(1) by blast
  qed
  then show "vm_inv kend kdata s' \<and> keeps_others p s s'" "r = None \<longrightarrow> apgdir s' p = apgdir s p \<and> asz s' p = asz s p \<and> mem_view s' p = mem_view s p"
    "r = None \<longrightarrow> 1025 < card (kpool kend (amem s)) \<longrightarrow> kpool kend (amem s') = kpool kend (amem s)" by blast+
qed

section \<open>Runs\<close>

text \<open>\<open>vm_step p s s'\<close>: the memory of process \<open>p\<close> is made, grown, copied into, written or given back.\<close>

inductive vm_step :: "nat \<Rightarrow> nat \<Rightarrow> nat \<Rightarrow> memories \<Rightarrow> memories \<Rightarrow> bool" for kend kdata :: nat where
  do_userinit: "\<lbrakk>apgdir s p = 0; \<forall>d k1. setupkvm kdata (amem s) = Some (d, k1) \<longrightarrow> freelist k1 \<noteq> 0;
     userinit_mem kdata p init len s = Some s'\<rbrakk> \<Longrightarrow> vm_step kend kdata p s s'"
| do_growproc: "\<lbrakk>apgdir s p \<noteq> 0; int32 n; growproc kend p n s = Some (r, s')\<rbrakk> \<Longrightarrow> vm_step kend kdata p s s'"
| do_fork_mem: "\<lbrakk>apgdir s p = 0; apgdir s parent \<noteq> 0; fork_mem kend kdata parent p s = Some (ok, s')\<rbrakk> \<Longrightarrow> vm_step kend kdata p s s'"
| do_write_mem: "\<lbrakk>apgdir s p \<noteq> 0; va + length bs \<le> USERTOP; write_mem p va bs s = Some (ok, s')\<rbrakk> \<Longrightarrow> vm_step kend kdata p s s'"
| do_exec: "\<lbrakk>apgdir s p \<noteq> 0; reads_bounded dv; \<forall>a\<in>set argv. length a < USERTOP;
     exec_safe dv kend kdata c path junk f (amem s);
     exec_mem dv kend kdata p c path argv junk f s = Some (regs, f', s')\<rbrakk> \<Longrightarrow> vm_step kend kdata p s s'"
| do_reap: "\<lbrakk>apgdir s p \<noteq> 0; reap_mem kend p s = Some s'\<rbrakk> \<Longrightarrow> vm_step kend kdata p s s'"

inductive vm_run :: "nat \<Rightarrow> nat \<Rightarrow> memories \<Rightarrow> memories \<Rightarrow> bool" for kend kdata :: nat where
  vm_start: "vm_run kend kdata s s"
| vm_more: "vm_run kend kdata s s1 \<Longrightarrow> vm_step kend kdata p s1 s2 \<Longrightarrow> vm_run kend kdata s s2"

definition kdata_ok :: "nat \<Rightarrow> bool" where
  "kdata_ok kdata \<longleftrightarrow> kdata mod PGSIZE = 0 \<and> 0x100000 < kdata \<and> kdata < PHYSTOP"

text \<open>No process has memory yet.\<close>

definition no_memories :: "nat \<Rightarrow> memories \<Rightarrow> bool" where
  "no_memories kend s \<longleftrightarrow> (\<exists>ps. kmem_inv kend (amem s) ps) \<and> (\<forall>p. apgdir s p = 0)"

lemma vm_step_inv:
  assumes "vm_step kend kdata p s s'" "vm_inv kend kdata s" "kdata_ok kdata"
  shows "vm_inv kend kdata s' \<and> keeps_others p s s'"
  using assms(1)
proof cases
  case (do_userinit init len)
  then show ?thesis using userinit_step [OF do_userinit(3,1) assms(2)] assms(3) by (simp add: kdata_ok_def)
next
  case (do_growproc n r)
  then show ?thesis using growproc_step assms(2) by blast
next
  case (do_fork_mem parent ok)
  then show ?thesis using fork_step(1) [OF do_fork_mem(3,2,1) assms(2)] assms(3) by (simp add: kdata_ok_def)
next
  case (do_write_mem va bs ok)
  then show ?thesis using write_step assms(2) by blast
next
  case (do_exec dv argv c path junk f regs f')
  then show ?thesis using exec_step(1) [OF do_exec(5,1) assms(2) _ _ _ do_exec(2-4)] assms(3) by (simp add: kdata_ok_def)
next
  case do_reap
  then show ?thesis using reap_step assms(2) by blast
qed

lemma vm_run_inv:
  assumes "vm_run kend kdata s0 s" "no_memories kend s0" "kdata_ok kdata"
  shows "vm_inv kend kdata s"
  using assms(1,2)
proof (induction rule: vm_run.induct)
  case (vm_start s)
  then show ?case by (auto simp: vm_inv_def no_memories_def)
next
  case (vm_more s s1 p s2)
  then show ?case using vm_step_inv assms(3) by blast
qed

text \<open>
  C1: Address spaces are isolated.  Whatever a process does with its memory (growing and shrinking it, forking, writing,
  being reaped), in every state that a run of such steps reaches, the memory of every other process is the same map from
  addresses to bytes before and after.
\<close>
theorem process_memories_isolated:
  assumes "vm_run kend kdata s0 s" "no_memories kend s0" "kdata_ok kdata" "vm_step kend kdata p s s'"
    "q \<noteq> p" "apgdir s q \<noteq> 0"
  shows "apgdir s' q = apgdir s q \<and> mem_view s' q = mem_view s q"
  using vm_step_inv [OF assms(4) vm_run_inv [OF assms(1-3)] assms(3)] assms(5,6) by (simp add: keeps_others_def)

text \<open>What a user can reach: the entries that are present and have the flag for user mode.\<close>

definition user_page :: "memories \<Rightarrow> nat \<Rightarrow> nat \<Rightarrow> bool" where
  "user_page s p n \<longleftrightarrow> apgdir s p \<noteq> 0 \<and> n < 2 ^ 20 \<and> present (entry (phys (amem s)) (apgdir s p) n) \<and>
     entry (phys (amem s)) (apgdir s p) n AND PTE_U \<noteq> 0"

text \<open>
  User pages are exclusive.  In every state a run reaches, a page that a process can access in user mode is a page the
  allocator manages, lies below \<open>USERTOP\<close> in the process, is not on the free list, is not the page directory or a page
  table of any process, and is not accessible to any other process or at any other address of the same one.
\<close>
theorem user_pages_exclusive:
  assumes "vm_run kend kdata s0 s" "no_memories kend s0" "kdata_ok kdata" "user_page s p n"
  defines "f \<equiv> uframe (phys (amem s)) (apgdir s p) n"
  shows "n < USERTOP div PGSIZE \<and> page kend f \<and> f \<notin> kpool kend (amem s) \<and>
    (\<forall>q. apgdir s q \<noteq> 0 \<longrightarrow> f \<noteq> apgdir s q \<and> f \<notin> tables (phys (amem s)) (apgdir s q)) \<and>
    (\<forall>q m. user_page s q m \<longrightarrow> uframe (phys (amem s)) (apgdir s q) m = f \<longrightarrow> q = p \<and> m = n)"
proof -
  from vm_run_inv [OF assms(1-3)] obtain ps where ps: "kmem_inv kend (amem s) ps" and a: "\<And>p. apgdir s p \<noteq> 0 \<Longrightarrow>
      space_ok kend kdata (amem s) (apgdir s p) ps \<and> asz s p \<le> USERTOP \<and> upages (phys (amem s)) (apgdir s p) \<subseteq> {0..<pages_up (asz s p)}"
    and dj: "\<And>p q. p \<noteq> q \<Longrightarrow> own_of s p \<inter> own_of s q = {}" by (rule vm_invE) blast
  have up: "m \<in> upages (phys (amem s)) (apgdir s q)" "apgdir s q \<noteq> 0" "space_ok kend kdata (amem s) (apgdir s q) ps"
    if "user_page s q m" for q m
  proof -
    show q: "apgdir s q \<noteq> 0" using that by (simp add: user_page_def)
    then show ok: "space_ok kend kdata (amem s) (apgdir s q) ps" using a by blast
    have "m < USERTOP div PGSIZE"
    proof (rule ccontr)
      assume "\<not> ?thesis"
      then have "entry (phys (amem s)) (apgdir s q) m = kernel_entry kdata m"
        using that by (intro space_okD(9) [OF ok]) (auto simp: user_page_def)
      then show False using that kernel_entry_protected by (simp add: user_page_def)
    qed
    then show "m \<in> upages (phys (amem s)) (apgdir s q)" using that by (simp add: upages_def user_page_def)
  qed
  have fo: "uframe (phys (amem s)) (apgdir s q) m \<in> own_of s q" if "user_page s q m" for q m
    using up [OF that] by (simp add: own_of_def owned_def frames_def)
  note u = up [OF assms(4)]
  note of = owned_frames [OF u(3,1), folded f_def]
  have "f \<noteq> apgdir s q \<and> f \<notin> tables (phys (amem s)) (apgdir s q)" if "apgdir s q \<noteq> 0" for q
  proof (cases "q = p")
    case False
    then have "f \<notin> own_of s q" using dj [of p q] fo [OF assms(4)] by (auto simp: f_def)
    then show ?thesis using that by (simp add: own_of_def owned_def)
  qed (use of in simp)
  moreover have "q = p \<and> m = n" if "user_page s q m" "uframe (phys (amem s)) (apgdir s q) m = f" for q m
  proof -
    have "q = p" using dj [of q p] fo [OF that(1)] fo [OF assms(4)] that(2) by (auto simp: f_def)
    then show ?thesis using up(1) [OF that(1)] u(1) that(2) space_okD(4) [OF u(3)] by (auto simp: inj_on_def f_def)
  qed
  moreover have "n < USERTOP div PGSIZE" using upagesD [OF u(1)] by (simp add: npages)
  ultimately show ?thesis using of kpool_eq [OF ps] by auto
qed

text \<open>
  C2: \<open>fork\<close> copies the memory.  In every state a run reaches, when \<open>fork\<close> succeeds the child has the size of the parent
  and its memory is the parent's, byte for byte, for all pages below the size; the parent's memory is unchanged.
\<close>
theorem fork_copies_memory:
  assumes "vm_run kend kdata s0 s" "no_memories kend s0" "kdata_ok kdata" "apgdir s p \<noteq> 0" "apgdir s q = 0"
    "fork_mem kend kdata p q s = Some (True, s')"
  shows "asz s' q = asz s p \<and> mem_view s' p = mem_view s p \<and>
    (\<forall>va. mem_view s' q va = (if va < pages_up (asz s p) * PGSIZE then mem_view s p va else None))"
proof -
  have kd: "kdata mod PGSIZE = 0" "0x100000 < kdata" "kdata < PHYSTOP" using assms(3) by (simp_all add: kdata_ok_def)
  have "p \<noteq> q" using assms(4,5) by auto
  then show ?thesis using fork_step [OF assms(6,4,5) vm_run_inv [OF assms(1-3)] kd] assms(4) by (auto simp: keeps_others_def)
qed

end
