(* ===== verification/VmSample.thy ===== *)
theory VmSample
  imports VmRun
begin

text \<open>
  A concrete machine for the theorems of \<open>VmRun\<close>: the kernel ends at 4 MB, its data begins at 2 MB, and all pages from there
  to \<open>PHYSTOP\<close> are free.
\<close>

definition sample_kend :: nat where "sample_kend = 0x400000"
definition sample_kdata :: nat where "sample_kdata = 0x200000"

lemma sample_kdata_ok: "kdata_ok sample_kdata"
  by (simp add: kdata_ok_def sample_kdata_def PGSIZE_def PHYSTOP_def)

lemma sample_memory: "\<exists>k ps. kmem_inv sample_kend k ps \<and> length ps \<ge> 3072"
proof -
  have "(0::nat) < sample_kend" "sample_kend \<le> PHYSTOP" by (simp_all add: sample_kend_def PHYSTOP_def)
  note K = this
  have "kmem_inv sample_kend \<lparr>freelist = 0, phys = \<lambda>_. 7\<rparr> []" by (simp add: kmem_inv_def)
  from kinit_loop_spec [OF this PGROUNDUP_props(1-3) [OF K]] pages_from_PGROUNDUP [OF K] obtain k ps where
    k: "kmem_inv sample_kend k ps" "set ps = {q. page sample_kend q}" by auto
  have "(\<lambda>i. sample_kend + PGSIZE * i) ` {..<3072} \<subseteq> {q. page sample_kend q}"
    by (auto simp: page_def sample_kend_def PGSIZE_def PHYSTOP_def)
  moreover have "finite {q. page sample_kend q}" using k(2) by (metis List.finite_set)
  ultimately have "card ((\<lambda>i. sample_kend + PGSIZE * i) ` {..<3072::nat}) \<le> card {q. page sample_kend q}" by (intro card_mono)
  moreover have "card ((\<lambda>i. sample_kend + PGSIZE * i) ` {..<3072::nat}) = 3072"
    by (subst card_image) (auto simp: inj_on_def PGSIZE_def)
  moreover have "card {q. page sample_kend q} \<le> length ps" using card_length [of ps] k(2) by simp
  ultimately have "3072 \<le> length ps" by linarith
  then show ?thesis using k(1) by blast
qed

text \<open>With enough free pages the first process gets its page.\<close>

lemma userinit_succeeds:
  assumes inv: "kmem_inv kend (amem s) ps" "1026 < length ps" and kd: "kdata_ok kdata" and len: "len < PGSIZE" and p: "apgdir s p = 0"
  shows "\<exists>s' ps'. vm_step kend kdata p s s' \<and> apgdir s' p \<noteq> 0 \<and> asz s' p = PGSIZE \<and>
    upages (phys (amem s')) (apgdir s' p) = {0} \<and> kmem_inv kend (amem s') ps' \<and> length ps \<le> length ps' + 1026 \<and>
    (\<forall>q. q \<noteq> p \<longrightarrow> apgdir s' q = apgdir s q)"
proof -
  have kd': "kdata mod PGSIZE = 0" "0x100000 < kdata" "kdata < PHYSTOP" using kd by (simp_all add: kdata_ok_def)
  from setupkvm_space [OF inv(1) kd'] obtain d k1 ps1 where
    d: "setupkvm kdata (amem s) = Some (d, k1)" "kmem_inv kend k1 ps1" "length ps \<le> length ps1 + 1025" "d = 0 \<longrightarrow> ps1 = []"
    and z: "d \<noteq> 0 \<longrightarrow> space_ok kend kdata k1 d ps1 \<and> upages (phys k1) d = {}" by blast
  have ne: "ps1 \<noteq> []" using d(3) inv(2) by auto
  then obtain f qs where fq: "ps1 = f # qs" by (cases ps1) auto
  have fl: "freelist k1 \<noteq> 0" using d(2) fq by (auto simp: kmem_inv_def)
  have z': "space_ok kend kdata k1 d (f # qs)" "upages (phys k1) d = {}" "d \<noteq> 0" using z d(4) ne fq by auto
  from inituvm_spec [OF z'(1,2) len, of 0] obtain k2 where
    k2: "inituvm d 0 len k1 = Some k2" "space_ok kend kdata k2 d qs" "upages (phys k2) d = {0}" by blast
  define s' where "s' = s\<lparr>amem := k2, apgdir := (apgdir s)(p := d), asz := (asz s)(p := PGSIZE)\<rparr>"
  have "userinit_mem kdata p 0 len s = Some s'" using d(1) k2(1) z'(3) by (simp add: userinit_mem_def s'_def)
  then have "vm_step kend kdata p s s'" using d(1) fl p by (intro do_userinit) auto
  then show ?thesis using z'(3) k2 space_okD(8) [OF k2(2)] d(3) fq
    by (intro exI [of _ s'] exI [of _ qs]) (simp add: s'_def)
qed

lemma vm_sample_run:
  "\<exists>s0 s ps. no_memories sample_kend s0 \<and> vm_run sample_kend sample_kdata s0 s \<and> apgdir s 1 \<noteq> 0 \<and> asz s 1 = PGSIZE \<and>
     upages (phys (amem s)) (apgdir s 1) = {0} \<and> apgdir s 2 = 0 \<and> kmem_inv sample_kend (amem s) ps \<and> 2000 < length ps"
proof -
  obtain k ps where k: "kmem_inv sample_kend k ps" "length ps \<ge> 3072" using sample_memory by blast
  define s0 where "s0 = \<lparr>amem = k, apgdir = \<lambda>_. 0, asz = \<lambda>_. 0\<rparr>"
  have n: "no_memories sample_kend s0" using k(1) by (auto simp: no_memories_def s0_def)
  have "kmem_inv sample_kend (amem s0) ps" "1026 < length ps" "0 < PGSIZE" "apgdir s0 1 = 0"
    using k by (simp_all add: s0_def PGSIZE_def)
  from userinit_succeeds [OF this(1,2) sample_kdata_ok this(3,4)] obtain s ps' where
    s: "vm_step sample_kend sample_kdata 1 s0 s" "apgdir s 1 \<noteq> 0" "asz s 1 = PGSIZE"
      "upages (phys (amem s)) (apgdir s 1) = {0}" "kmem_inv sample_kend (amem s) ps'" "length ps \<le> length ps' + 1026"
      "\<forall>q. q \<noteq> 1 \<longrightarrow> apgdir s q = apgdir s0 q" by blast
  have "vm_run sample_kend sample_kdata s0 s" using vm_run.intros s(1) by blast
  moreover have "apgdir s 2 = 0" using s(7) by (simp add: s0_def)
  moreover have "2000 < length ps'" using s(6) k(2) by linarith
  ultimately show ?thesis using n s(2-5) by blast
qed

theorem process_memories_isolated_witness:
  "\<exists>s0 s s'. vm_run sample_kend sample_kdata s0 s \<and> vm_step sample_kend sample_kdata 2 s s' \<and> apgdir s 1 \<noteq> 0 \<and>
     mem_view s' 1 = mem_view s 1"
proof -
  obtain s0 s ps where s: "no_memories sample_kend s0" "vm_run sample_kend sample_kdata s0 s" "apgdir s 1 \<noteq> 0"
    "apgdir s 2 = 0" "kmem_inv sample_kend (amem s) ps" "2000 < length ps" using vm_sample_run by blast
  have "1026 < length ps" "0 < PGSIZE" using s(6) by (simp_all add: PGSIZE_def)
  from userinit_succeeds [OF s(5) this(1) sample_kdata_ok this(2) s(4)] obtain s' where
    s': "vm_step sample_kend sample_kdata 2 s s'" by blast
  from process_memories_isolated [OF s(2,1) sample_kdata_ok s' _ s(3)] s s' show ?thesis by auto
qed

theorem user_pages_exclusive_witness:
  "\<exists>s0 s. vm_run sample_kend sample_kdata s0 s \<and> user_page s 1 0 \<and>
     uframe (phys (amem s)) (apgdir s 1) 0 \<notin> kpool sample_kend (amem s)"
proof -
  obtain s0 s where s: "no_memories sample_kend s0" "vm_run sample_kend sample_kdata s0 s" "apgdir s 1 \<noteq> 0"
    "upages (phys (amem s)) (apgdir s 1) = {0}" using vm_sample_run by blast
  from vm_run_inv [OF s(2,1) sample_kdata_ok] s(3) obtain ps where
    ok: "space_ok sample_kend sample_kdata (amem s) (apgdir s 1) ps" by (auto simp: vm_inv_def)
  have z: "0 \<in> upages (phys (amem s)) (apgdir s 1)" using s(4) by simp
  then have "user_page s 1 0" using s(3) upagesD [OF z] space_okD(3) [OF ok z] by (simp add: user_page_def)
  from user_pages_exclusive [OF s(2,1) sample_kdata_ok this] this s(2) show ?thesis by blast
qed

theorem fork_copies_memory_witness:
  "\<exists>s0 s s'. vm_run sample_kend sample_kdata s0 s \<and> fork_mem sample_kend sample_kdata 1 2 s = Some (True, s') \<and>
     mem_view s' 2 5 = mem_view s 1 5 \<and> mem_view s 1 5 \<noteq> None"
proof -
  obtain s0 s ps where s: "no_memories sample_kend s0" "vm_run sample_kend sample_kdata s0 s" "apgdir s 1 \<noteq> 0" "asz s 1 = PGSIZE"
    "upages (phys (amem s)) (apgdir s 1) = {0}" "apgdir s 2 = 0" "kmem_inv sample_kend (amem s) ps" "2000 < length ps"
    using vm_sample_run by blast
  from vm_run_inv [OF s(2,1) sample_kdata_ok] s(3) obtain qs where
    ok: "space_ok sample_kend sample_kdata (amem s) (apgdir s 1) qs" by (auto simp: vm_inv_def)
  have "set qs = set ps" using kpool_eq [OF space_okD(8) [OF ok]] kpool_eq [OF s(7)] by simp
  then have q: "2000 < length qs"
    using s(8) distinct_card [of qs] distinct_card [of ps] space_okD(8) [OF ok] s(7) by (simp add: kmem_inv_def)
  have one: "pages_up (asz s 1) = 1" "asz s 1 \<le> USERTOP" using s(4) by (simp_all add: pages_up_def PGSIZE_def USERTOP_def)
  from sample_kdata_ok have kd: "sample_kdata mod PGSIZE = 0" "0x100000 < sample_kdata" "sample_kdata < PHYSTOP"
    by (simp_all add: kdata_ok_def)
  have "{0..<pages_up (asz s 1)} \<subseteq> upages (phys (amem s)) (apgdir s 1)" unfolding one(1) s(5) by simp
  with copyuvm_spec [OF ok one(2) kd] obtain r k' where
    r: "copyuvm sample_kend sample_kdata (apgdir s 1) (asz s 1) (amem s) = Some (r, k')"
       "r = 0 \<longrightarrow> length qs \<le> 1025 + pages_up (asz s 1)" by blast
  have "r \<noteq> 0" using r(2) q unfolding one(1) by auto
  then obtain s' where f: "fork_mem sample_kend sample_kdata 1 2 s = Some (True, s')" using r(1) by (simp add: fork_mem_def)
  have "mem_view s 1 5 \<noteq> None" using s(5) by (simp add: mem_view_def umem_def PGSIZE_def)
  note view = this
  have "mem_view s' 2 5 = (if 5 < pages_up (asz s 1) * PGSIZE then mem_view s 1 5 else None)"
    using fork_copies_memory [OF s(2,1) sample_kdata_ok s(3,6) f] by blast
  then have "mem_view s' 2 5 = mem_view s 1 5" unfolding one(1) by (simp add: PGSIZE_def)
  then show ?thesis using s(2) f view by (intro exI [of _ s0] exI [of _ s] exI [of _ s'] conjI)
qed

end
