(* ===== verification/ExecRun.thy ===== *)
theory ExecRun
  imports VmSample
begin

text \<open>
  \<open>exec\<close> as a whole (P5 \<open>kernel/exec.c\<close>): a well-formed program runs with the memory its file describes and finds its
  arguments on the stack, a failed call changes nothing, and what a segment that wraps around does to the kernel.
\<close>

lemma pool_length: "kmem_inv kend k ps \<Longrightarrow> card (kpool kend k) = length ps"
  using kpool_eq [of kend k ps] by (simp add: kmem_inv_def distinct_card)

text \<open>
  C17: \<open>exec\<close> runs the program.  When the path names a file (not a checksummed one, whose reads depend on the block) whose
  bytes are a well-formed program, the arguments fit on the one stack page and there are enough free pages, \<open>exec\<close> succeeds:
  the process starts at the entry address of the header; its memory holds the loaded segments, zero where they do not
  reach; and the stack pointer points to the frame of \<open>main\<close>: a return address, the number of arguments, the vector and
  the NUL-terminated strings it points to.
\<close>
theorem exec_runs_program:
  assumes "vm_run kend kdata s0 s" "no_memories kend s0" "kdata_ok kdata" "apgdir s p \<noteq> 0"
    "namei c path f = Some (Some ip, f1)" "ilock ip f1 = Some f2" "iunlockput ip f2 = Some f3"
    "plain_file f2 ip" "contents f2 ip = bs" "valid_elf bs" "base = pages_up (program_size bs) * PGSIZE"
    "1026 + pages_up (program_size bs) \<le> card (kpool kend (amem s))"
    "length argv \<le> MAXARG" "stack_need argv \<le> PGSIZE"
  shows "\<exists>s'. exec_mem dv kend kdata p c path argv junk f s = Some (Some \<lparr>r_eip = e_entry (elf_header bs),
        r_esp = base + PGSIZE - stack_need argv, r_name = take 15 (last_elem path path)\<rparr>, f3, s') \<and>
     apgdir s' p \<noteq> 0 \<and> asz s' p = base + PGSIZE \<and> (\<forall>a<base. mem_view s' p a = program_image bs a) \<and>
     frame_at (mem_view s' p) (base + PGSIZE - stack_need argv) argv"
proof -
  have kd: "kdata mod PGSIZE = 0" "0x100000 < kdata" "kdata < PHYSTOP" using assms(3) by (simp_all add: kdata_ok_def)
  from vm_run_inv [OF assms(1-3)] obtain ps where ps: "kmem_inv kend (amem s) ps" and
    a: "space_ok kend kdata (amem s) (apgdir s p) ps" using assms(4) by (auto simp: vm_inv_def)
  have room: "1026 + pages_up (program_size (contents f2 ip)) \<le> length ps" using assms(9,12) pool_length [OF ps] by simp
  have v: "valid_elf (contents f2 ip)" using assms(9,10) by simp
  from exec_image_builds [OF assms(5-8) v ps kd room assms(13,14), of dv junk, folded assms(11) [folded assms(9)]] obtain d k ps' where
    i: "exec_image dv kend kdata c path argv junk f (amem s) = Some (Some \<lparr>im_pgdir = d, im_sz = base + PGSIZE,
        im_entry = e_entry (elf_header (contents f2 ip)), im_sp = base + PGSIZE - stack_need argv\<rparr>, f3, k)"
      "building kend kdata (phys (amem s)) (set ps) (base + PGSIZE) k d ps'" "d \<noteq> 0"
      "\<forall>a<base. umem (phys k) d a = program_image (contents f2 ip) a" "frame_at (umem (phys k) d) (base + PGSIZE - stack_need argv) argv"
    by blast
  from commit_spec [OF a i(2)] obtain k' where k': "freevm kend (apgdir s p) k = Some k'" "umem (phys k') d = umem (phys k) d" by blast
  show ?thesis using i k' by (simp add: exec_mem_def assms(9) mem_view_def)
qed

text \<open>
  A failed \<open>exec\<close> does no harm.  Unless a segment wraps around (\<open>exec_safe\<close>), when \<open>exec\<close> returns -1, whatever the file
  holds, every process, the caller included, has the memory and the size it had, and if there were pages for a page
  directory and its tables, the free pages are the same set as before: nothing leaks.
\<close>
theorem exec_failure_harmless:
  assumes "vm_run kend kdata s0 s" "no_memories kend s0" "kdata_ok kdata" "apgdir s p \<noteq> 0"
    "reads_bounded dv" "\<forall>a\<in>set argv. length a < USERTOP" "exec_safe dv kend kdata c path junk f (amem s)"
    "exec_mem dv kend kdata p c path argv junk f s = Some (None, f', s')"
  shows "asz s' p = asz s p \<and> (\<forall>q. apgdir s q \<noteq> 0 \<longrightarrow> apgdir s' q = apgdir s q \<and> mem_view s' q = mem_view s q) \<and>
    (1025 < card (kpool kend (amem s)) \<longrightarrow> kpool kend (amem s') = kpool kend (amem s))"
proof -
  have kd: "kdata mod PGSIZE = 0" "0x100000 < kdata" "kdata < PHYSTOP" using assms(3) by (simp_all add: kdata_ok_def)
  note E = exec_step [OF assms(8,4) vm_run_inv [OF assms(1-3)] kd assms(5-7)]
  then have "mem_view s' q = mem_view s q \<and> apgdir s' q = apgdir s q" if "apgdir s q \<noteq> 0" for q
    using that by (cases "q = p") (auto simp: keeps_others_def)
  with E show ?thesis by blast
qed

text \<open>
  C22: A segment that wraps around overwrites the kernel.  If the end of a segment is computed as 0 (its address \<open>n * PGSIZE\<close>
  is that of a kernel page and its size is the rest of the 32-bit address space), the size of the process does not change
  and the test for \<open>USERTOP\<close> passes, but the bytes of the file are written to the physical page \<open>n * PGSIZE\<close> of the kernel.
\<close>
theorem exec_overwrites_kernel:
  assumes "space_ok kend kdata k d ps" "kdata_ok kdata" "0 < sz" "plain_file f ip"
    "USERTOP div PGSIZE \<le> n" "n < PHYSTOP div PGSIZE" "0 < len" "len \<le> PGSIZE" "off + len \<le> length (contents f ip)"
  shows "load_segment dv kend d ip \<lparr>ph_type = ELF_PROG_LOAD, ph_offset = off, ph_va = n * PGSIZE, ph_filesz = len,
      ph_memsz = 2 ^ 32 - n * PGSIZE\<rparr> sz f k =
    Some (Some sz, f, k\<lparr>phys := poke_bytes (phys k) (n * PGSIZE) (take len (drop off (contents f ip)))\<rparr>)"
proof -
  let ?ph = "\<lparr>ph_type = ELF_PROG_LOAD, ph_offset = off, ph_va = n * PGSIZE, ph_filesz = len, ph_memsz = 2 ^ 32 - n * PGSIZE\<rparr>"
  have n: "160 \<le> n" "n < 4096" using assms(5,6) by (simp_all add: USERTOP_def PHYSTOP_def PGSIZE_def)
  then have np: "n < 2 ^ 20" "n * PGSIZE + (2 ^ 32 - n * PGSIZE) = 2 ^ 32" "n * PGSIZE < 2 ^ 32" by (simp_all add: PGSIZE_def)
  have al: "n * PGSIZE mod PGSIZE = 0" by simp
  have e: "entry (phys k) d n = kernel_entry kdata n" using space_okD(9) [OF assms(1) np(1)] n(1) by (simp add: npages)
  have "\<exists>fl. perm_ok fl \<and> kernel_entry kdata n = n * PGSIZE OR fl OR PTE_P"
    using n by (auto simp: kernel_entry_def perm_ok_def)
  then obtain fl where fl: "perm_ok fl" "kernel_entry kdata n = n * PGSIZE OR fl OR PTE_P" by blast
  have "present (entry (phys k) d n)" and ad: "PTE_ADDR (entry (phys k) d n) = n * PGSIZE"
    unfolding e fl(2) by (rule entry_bits(2,3) [OF al fl(1)])+
  then have "present (pde (phys k) d (n div 1024))" by (auto simp: entry_def Let_def split: if_splits)
  note w = walk_present [OF np(1) this]
  have len: "min (len - 0) PGSIZE = len" "n * PGSIZE mod 2 ^ 32 = n * PGSIZE" "(0 + PGSIZE) mod 2 ^ 32 = PGSIZE"
    using assms(8) np(3) by (simp_all add: PGSIZE_def)
  have fin: "loaduvm_loop dv d (n * PGSIZE) ip off len PGSIZE f k1 = Some (True, f, k1)" for k1
    using assms(8) by (simp add: loaduvm_loop.simps)
  have "loaduvm_loop dv d (n * PGSIZE) ip off len 0 f k =
      Some (True, f, k\<lparr>phys := poke_bytes (phys k) (n * PGSIZE) (take len (drop off (contents f ip)))\<rparr>)"
    by (subst loaduvm_loop.simps)
      (simp only: len assms(7) if_True w fst_conv option.case ad Let_def add_0_right plain_read [OF assms(4,9)]
        Option.bind.simps(2) prod.case fin not_True_eq_False if_False simp_thms)
  then have ld: "loaduvm dv d (ph_va ?ph) ip (ph_offset ?ph) (ph_filesz ?ph) f k =
      Some (True, f, k\<lparr>phys := poke_bytes (phys k) (n * PGSIZE) (take len (drop off (contents f ip)))\<rparr>)" by (simp add: loaduvm_def)
  have "allocuvm kend d sz ((ph_va ?ph + ph_memsz ?ph) mod 2 ^ 32) k = Some (sz, k)"
    using assms(3) np(2) by (simp add: allocuvm_def)
  moreover have "\<not> ph_memsz ?ph < ph_filesz ?ph" using assms(8) n by (simp add: PGSIZE_def)
  ultimately show ?thesis using ld assms(3) unfolding load_segment_def by simp
qed

section \<open>Examples\<close>

text \<open>A program of one segment: 84 bytes of headers, then \<open>jmp .\<close> and two \<open>nop\<close>; the segment asks for 8 bytes.\<close>

definition tiny_elf :: "u8 list" where
  "tiny_elf = [0x7F, 0x45, 0x4C, 0x46, 0, 0, 0, 0, 0, 0, 0, 0, 0, 0, 0, 0,
     2, 0, 3, 0, 1, 0, 0, 0, 0, 0, 0, 0, 52, 0, 0, 0,
     0, 0, 0, 0, 0, 0, 0, 0, 52, 0, 32, 0, 1, 0, 0, 0, 0, 0, 0, 0,
     1, 0, 0, 0, 84, 0, 0, 0, 0, 0, 0, 0, 0, 0, 0, 0,
     4, 0, 0, 0, 8, 0, 0, 0, 5, 0, 0, 0, 0, 16, 0, 0,
     0xEB, 0xFE, 0x90, 0x90]"

definition tiny_block :: block where
  "tiny_block j = (if j < 88 then tiny_elf ! j else 0)"

definition tiny_fs :: fs where
  "tiny_fs = (small_fs (small_file T_FILE 1 5))\<lparr>fdisk := blk_write 1 5 tiny_block (small_disk 1)\<rparr>"

text \<open>The states in which \<open>exec\<close> of the empty path, the current directory, finds the file.\<close>

definition tiny_held :: fs where
  "tiny_held = upd_inode 0 (\<lambda>ip. ip\<lparr>iref := 2, ibusy := True\<rparr>) tiny_fs"

lemma tiny_namei: "namei 0 [] tiny_fs = Some (Some 0, upd_inode 0 (\<lambda>ip. ip\<lparr>iref := 2\<rparr>) tiny_fs)"
  by (simp add: namei_def namex_def idup_def namex_loop.simps skipelem_def tiny_fs_def small_file_def upd_inode_def)

lemma tiny_ilock: "ilock 0 (upd_inode 0 (\<lambda>ip. ip\<lparr>iref := 2\<rparr>) tiny_fs) = Some tiny_held"
  by (simp add: ilock_def Let_def upd_inode_def tiny_held_def tiny_fs_def small_file_def no_inode_def)

lemma tiny_iunlockput: "\<exists>f3. iunlockput 0 tiny_held = Some f3"
  by (simp add: iunlockput_def iunlock_def iput_def upd_inode_def Let_def tiny_held_def)

lemma tiny_inode: "itype (icache tiny_held 0) = T_FILE" "fdisk tiny_held = blk_write 1 5 tiny_block (small_disk 1)"
  "idev (icache tiny_held 0) = 1" "inum (icache tiny_held 0) = 2" "isize (icache tiny_held 0) = 512"
  "iaddrs (icache tiny_held 0) = (\<lambda>_. 0)(0 := 5)"
  by (simp_all add: tiny_held_def upd_inode_def tiny_fs_def)

lemma tiny_store:
  "file_ok T_FILE (blk_write 1 5 tiny_block (small_disk 1)) 1 ((\<lambda>_. 0)(0 := 5))"
  "p < 512 \<Longrightarrow> file_byte T_FILE (blk_write 1 5 tiny_block (small_disk 1)) 1 ((\<lambda>_. 0)(0 := 5)) p = tiny_block p"
  "readsb 1 (blk_write 1 5 tiny_block (small_disk 1)) = readsb 1 (small_disk 1)"
proof -
  have s: "slot_addr T_FILE (small_disk 1) 1 ((\<lambda>_. 0)(0 := 5)) 0 = 5" by (simp only: small_slot refl if_True)
  have "0 < MAXFILE" "slot_addr T_FILE (small_disk 1) 1 ((\<lambda>_. 0)(0 := 5)) 0 \<noteq> 0" by (simp_all only: s) (simp_all add: fs_consts)
  note st = store_block [OF small_file_ok [of T_FILE] this, where d = tiny_block, unfolded s]
  show "file_ok T_FILE (blk_write 1 5 tiny_block (small_disk 1)) 1 ((\<lambda>_. 0)(0 := 5))" by (rule evolved_ok [OF st(1)])
  show "readsb 1 (blk_write 1 5 tiny_block (small_disk 1)) = readsb 1 (small_disk 1)" using st(1) by (simp add: evolved_def)
  assume "p < 512"
  then show "file_byte T_FILE (blk_write 1 5 tiny_block (small_disk 1)) 1 ((\<lambda>_. 0)(0 := 5)) p = tiny_block p"
    using st(3) [of p] by (simp add: fs_consts)
qed

lemma tiny_length: "length tiny_elf = 88"
  by (simp add: tiny_elf_def)

lemma tiny_contents: "contents tiny_held 0 = tiny_elf @ replicate 424 0"
proof (rule nth_equalityI)
  show "length (contents tiny_held 0) = length (tiny_elf @ replicate 424 0)" by (simp add: tiny_inode tiny_length)
  fix p assume "p < length (contents tiny_held 0)"
  then have "p < 512" by (simp add: tiny_inode)
  then have "contents tiny_held 0 ! p = tiny_block p"
    by (simp add: contents_nth tiny_inode tiny_store(2) del: One_nat_def fun_upd_apply)
  then show "contents tiny_held 0 ! p = (tiny_elf @ replicate 424 0) ! p"
    using \<open>p < 512\<close> by (simp add: tiny_block_def nth_append tiny_length)
qed

lemma tiny_plain: "plain_file tiny_held 0"
proof -
  have "slot_addr T_FILE (fdisk tiny_held) 1 ((\<lambda>_. 0)(0 := 5)) (p div BSIZE) \<noteq> 0" if "p < 512" for p
    using that by (simp only: small_slot) (simp add: fs_consts)
  then show ?thesis using tiny_store(1,3)
    by (simp add: plain_file_def inode_good_def tiny_inode(1,3-6) Let_def T_FILE_def T_DEV_def T_CHECKED_def del: fun_upd_apply)
      (simp add: tiny_inode(2) fs_consts del: fun_upd_apply)
qed

text \<open>Its header and its one segment, and what loading makes of it.\<close>

lemma tiny_header:
  "elf_header (tiny_elf @ replicate 424 0) = \<lparr>e_magic = ELF_MAGIC, e_entry = 0, e_phoff = 52, e_phnum = 1\<rparr>"
  by (simp add: elf_header_def elfhdr_of_def le32_def load32_def tiny_elf_def ELF_MAGIC_def)

lemma tiny_segment:
  "segments_of (tiny_elf @ replicate 424 0) = [\<lparr>ph_type = ELF_PROG_LOAD, ph_offset = 84, ph_va = 0, ph_filesz = 4, ph_memsz = 8\<rparr>]"
proof -
  have "take 32 (drop 52 (tiny_elf @ replicate 424 0)) = [1, 0, 0, 0, 84, 0, 0, 0, 0, 0, 0, 0, 0, 0, 0, 0,
      4, 0, 0, 0, 8, 0, 0, 0, 5, 0, 0, 0, 0, 16, 0, 0]"
    by (simp add: tiny_elf_def)
  then have "proghdr_of (take 32 (drop 52 (tiny_elf @ replicate 424 0))) =
      \<lparr>ph_type = ELF_PROG_LOAD, ph_offset = 84, ph_va = 0, ph_filesz = 4, ph_memsz = 8\<rparr>"
    by (simp add: proghdr_of_def le32_def load32_def ELF_PROG_LOAD_def)
  then show ?thesis by (simp add: segments_of_def tiny_header)
qed

lemma tiny_valid: "valid_elf (tiny_elf @ replicate 424 0)"
  by (simp add: valid_elf_def tiny_header tiny_segment seg_ok_def tiny_length PGSIZE_def USERTOP_def)

lemma tiny_program:
  "program_size (tiny_elf @ replicate 424 0) = 8" "pages_up 8 = 1"
  "program_image (tiny_elf @ replicate 424 0) 0 = Some 0xEB" "program_image (tiny_elf @ replicate 424 0) 5 = Some 0"
  by (simp_all add: program_size_def program_image_def tiny_segment pages_up_def PGSIZE_def) (simp_all add: tiny_elf_def)

theorem exec_runs_program_witness:
  "\<exists>s0 s s' f3. vm_run sample_kend sample_kdata s0 s \<and>
     exec_mem no_devices sample_kend sample_kdata 1 0 [] [[108, 115]] (\<lambda>_. 0) tiny_fs s =
       Some (Some \<lparr>r_eip = 0, r_esp = 8168, r_name = []\<rparr>, f3, s') \<and>
     mem_view s' 1 0 = Some 0xEB \<and> mem_view s' 1 5 = Some 0 \<and> frame_at (mem_view s' 1) 8168 [[108, 115]]"
proof -
  obtain s0 s ps where s: "no_memories sample_kend s0" "vm_run sample_kend sample_kdata s0 s" "apgdir s 1 \<noteq> 0"
    "kmem_inv sample_kend (amem s) ps" "2000 < length ps" using vm_sample_run by blast
  obtain f3 where f3: "iunlockput 0 tiny_held = Some f3" using tiny_iunlockput by blast
  have n: "stack_need [[108, 115]] = 24" by (simp add: stack_need_def args_size_def)
  have b: "4096 = pages_up (program_size (tiny_elf @ replicate 424 0)) * PGSIZE" by (simp add: tiny_program PGSIZE_def)
  have room: "1026 + pages_up (program_size (tiny_elf @ replicate 424 0)) \<le> card (kpool sample_kend (amem s))"
    using s(5) pool_length [OF s(4)] by (simp add: tiny_program)
  have a: "length [[108, 115 :: u8]] \<le> MAXARG" "stack_need [[108, 115]] \<le> PGSIZE"
    by (simp_all add: n MAXARG_def PGSIZE_def)
  from exec_runs_program [OF s(2,1) sample_kdata_ok s(3) tiny_namei tiny_ilock f3 tiny_plain tiny_contents tiny_valid b room a,
      of no_devices "\<lambda>_. 0"]
  obtain s' where s': "exec_mem no_devices sample_kend sample_kdata 1 0 [] [[108, 115]] (\<lambda>_. 0) tiny_fs s =
      Some (Some \<lparr>r_eip = 0, r_esp = 8168, r_name = []\<rparr>, f3, s')"
      "\<forall>a<4096. mem_view s' 1 a = program_image (tiny_elf @ replicate 424 0) a" "frame_at (mem_view s' 1) 8168 [[108, 115]]"
    unfolding n by (auto simp: tiny_header PGSIZE_def)
  then have "mem_view s' 1 0 = Some 0xEB" "mem_view s' 1 5 = Some 0" by (simp_all add: tiny_program)
  with s' s(2) show ?thesis by blast
qed

theorem exec_overwrites_kernel_witness:
  "\<exists>k d k'. load_segment no_devices sample_kend d 0 \<lparr>ph_type = ELF_PROG_LOAD, ph_offset = 84, ph_va = sample_kdata,
      ph_filesz = 4, ph_memsz = 2 ^ 32 - sample_kdata\<rparr> 4096 tiny_held k = Some (Some 4096, tiny_held, k') \<and>
    phys k' sample_kdata = 0xEB"
proof -
  obtain k0 ps0 where k0: "kmem_inv sample_kend k0 ps0" "3072 \<le> length ps0" using sample_memory by blast
  from sample_kdata_ok have kd: "sample_kdata mod PGSIZE = 0" "0x100000 < sample_kdata" "sample_kdata < PHYSTOP"
    by (simp_all add: kdata_ok_def)
  from setupkvm_space [OF k0(1) kd] k0(2) obtain d k ps where
    sp: "space_ok sample_kend sample_kdata k d ps" by fastforce
  have n: "USERTOP div PGSIZE \<le> 512" "512 < PHYSTOP div PGSIZE" "(0::nat) < 4096" "(0::nat) < 4" "4 \<le> PGSIZE"
    "84 + 4 \<le> length (contents tiny_held 0)" "512 * PGSIZE = sample_kdata"
    by (simp_all add: USERTOP_def PHYSTOP_def PGSIZE_def tiny_contents tiny_length sample_kdata_def)
  note o = exec_overwrites_kernel [OF sp sample_kdata_ok n(3) tiny_plain n(1,2,4,5,6), of no_devices, unfolded n(7)]
  have "poke_bytes (phys k) sample_kdata (take 4 (drop 84 (contents tiny_held 0))) sample_kdata = 0xEB"
    by (simp add: poke_bytes_def tiny_contents tiny_elf_def)
  with o show ?thesis by fastforce
qed

end
