(* ===== verification/Lottery.thy ===== *)
theory Lottery
  imports Prelude
begin

text \<open>
  The lottery scheduler of P2 (\<open>P2/scheduler/xv6/xv6/kernel/proc.c\<close>, \<open>trap.c\<close>): processes hold tickets and wait in
  one of two queues.  A pass of \<open>scheduler\<close> draws a random number and runs the holder of the winning ticket among the
  runnable processes of the high queue, or of the low one when the high one is empty; a timer interrupt moves the running
  process to the low queue.  The theory shows that the generator \<open>rand_int\<close> is the minimal standard one and permutes its
  seeds, that every ticket is drawn equally often over the seeds, what one pass does to the table, and that the total of
  the tickets can wrap around to the divisor 0.  Integers are kept at 32 bits; where C leaves a signed overflow open the
  machine wraps around.
\<close>

section \<open>Data\<close>

datatype procstate = UNUSED | EMBRYO | SLEEPING | RUNNABLE | RUNNING | ZOMBIE

text \<open>The fields of \<open>struct proc\<close> that scheduling reads or writes.\<close>

record lproc =
  state :: procstate
  pid :: u32
  kstack :: u32
  numTickets :: u32
  queue :: u32
  numTimeRun :: u32
  highTicks :: u32
  lowTicks :: u32

record lkern =
  procs :: "lproc list"
  nextpid :: u32
  rnd_seed :: u32

record pstat =
  inuse :: "u32 list"
  ppid :: "u32 list"
  hticks :: "u32 list"
  lticks :: "u32 list"
  runTimes :: "u32 list"
  pqueue :: "u32 list"

abbreviation upd :: "nat \<Rightarrow> (lproc \<Rightarrow> lproc) \<Rightarrow> lkern \<Rightarrow> lkern" where
  "upd i f k \<equiv> k\<lparr>procs := (procs k)[i := f (procs k ! i)]\<rparr>"

section \<open>Operations\<close>

text \<open>\<open>allocproc\<close> as far as the table is concerned; \<open>stk\<close> is the answer of \<open>kalloc\<close>, 0 when memory is used up.\<close>

definition allocproc :: "u32 \<Rightarrow> lkern \<Rightarrow> nat option \<times> lkern" where
  "allocproc stk k =
     (case first_index (\<lambda>p. state p = UNUSED) (procs k) of
        None \<Rightarrow> (None, k)
      | Some i \<Rightarrow>
          let k1 = (upd i (\<lambda>p. p\<lparr>state := EMBRYO, pid := nextpid k, numTickets := 1, queue := 1,
                      lowTicks := 0, highTicks := 0, numTimeRun := 0\<rparr>) k)\<lparr>nextpid := nextpid k + 1\<rparr>;
              k2 = upd i (\<lambda>p. p\<lparr>kstack := stk\<rparr>) k1
          in if stk = 0 then (None, upd i (\<lambda>p. p\<lparr>state := UNUSED\<rparr>) k2) else (Some i, k2))"

definition settickets :: "u32 \<Rightarrow> nat \<Rightarrow> lkern \<Rightarrow> int \<times> lkern" where
  "settickets num i k = (if num <s 1 then (-1, k) else (0, upd i (\<lambda>p. p\<lparr>numTickets := num\<rparr>) k))"

text \<open>One entry of the answer of \<open>getpinfo\<close>; the arrays have \<open>NPROC\<close> elements, and \<open>i\<close> counts the live processes.\<close>

definition put_info :: "nat \<Rightarrow> lproc \<Rightarrow> pstat \<Rightarrow> pstat" where
  "put_info i p s = s\<lparr>inuse := (inuse s)[i := 1], ppid := (ppid s)[i := pid p], pqueue := (pqueue s)[i := queue p],
     runTimes := (runTimes s)[i := numTimeRun p], hticks := (hticks s)[i := highTicks p],
     lticks := (lticks s)[i := lowTicks p]\<rparr>"

fun getpinfo_loop :: "lproc list \<Rightarrow> nat \<Rightarrow> pstat \<Rightarrow> pstat" where
  "getpinfo_loop [] i s = s"
| "getpinfo_loop (p # ps) i s =
     (if state p = ZOMBIE \<or> state p = UNUSED \<or> state p = EMBRYO then getpinfo_loop ps i s
      else getpinfo_loop ps (i + 1) (put_info i p s))"

definition getpinfo :: "lkern \<Rightarrow> pstat \<Rightarrow> int \<times> pstat" where
  "getpinfo k s = (0, getpinfo_loop (procs k) 0 s)"

text \<open>The random numbers.  The seed is an \<open>int\<close>, its right shift is arithmetic.\<close>

definition set_rnd_seed :: "u32 \<Rightarrow> lkern \<Rightarrow> lkern" where
  "set_rnd_seed s k = k\<lparr>rnd_seed := s\<rparr>"

definition rand_int :: "u32 \<Rightarrow> u32" where
  "rand_int s =
     (let hi = 16807 * signed_drop_bit 16 s;
          lo = 16807 * (s AND 0xFFFF);
          lo = lo + push_bit 16 (hi AND 0x7FFF);
          lo = lo + drop_bit 15 hi
      in if lo > 2147483647 then lo - 2147483647 else lo)"

text \<open>The loop of \<open>scheduler\<close> over the table: the two arrays and the totals of their tickets.\<close>

type_synonym queues = "nat list \<times> nat list \<times> u32 \<times> u32"

fun collect :: "lproc list \<Rightarrow> nat \<Rightarrow> queues \<Rightarrow> queues" where
  "collect [] n q = q"
| "collect (p # ps) n (high, low, ht, lt) =
     collect ps (n + 1)
       (if state p \<noteq> RUNNABLE then (high, low, ht, lt)
        else if queue p = 1 then (high @ [n], low, ht + numTickets p, lt)
        else (high, low @ [n], ht, lt + numTickets p))"

text \<open>The walk to the holder of the winning ticket.\<close>

fun pick :: "lproc list \<Rightarrow> nat list \<Rightarrow> u32 \<Rightarrow> u32 \<Rightarrow> nat option" where
  "pick ps [] counter winner = None"
| "pick ps (i # is) counter winner =
     (let counter = counter + numTickets (ps ! i) in
      if counter > winner then Some i else pick ps is counter winner)"

text \<open>A drawing among a queue; the remainder by 0 stops the machine.\<close>

definition draw :: "lkern \<Rightarrow> nat list \<Rightarrow> u32 \<Rightarrow> (nat option \<times> lkern) option" where
  "draw k q tot =
     (let r = rand_int (rnd_seed k); k1 = k\<lparr>rnd_seed := r\<rparr> in
      if tot = 0 then None else Some (pick (procs k) q 0 (r mod tot), k1))"

text \<open>One round of the loop of \<open>scheduler\<close>, up to the switch to the process it chose.\<close>

definition scheduler_pass :: "lkern \<Rightarrow> (nat option \<times> lkern) option" where
  "scheduler_pass k =
     (let (high, low, ht, lt) = collect (procs k) 0 ([], [], 0, 0) in do {
        (winP, k1) \<leftarrow> (if high \<noteq> [] then draw k high ht
                       else if low \<noteq> [] then draw k low lt
                       else Some (None, k));
        Some (winP, case winP of None \<Rightarrow> k1
               | Some i \<Rightarrow> upd i (\<lambda>p. p\<lparr>numTimeRun := numTimeRun p + 1, state := RUNNING\<rparr>) k1) })"

definition scheduler_start :: "lkern \<Rightarrow> lkern" where
  "scheduler_start k = set_rnd_seed 10 k"

definition yield :: "nat \<Rightarrow> lkern \<Rightarrow> lkern" where
  "yield i k = upd i (\<lambda>p. p\<lparr>queue := 0, state := RUNNABLE\<rparr>) k"

text \<open>
  The end of \<open>trap\<close> on a timer interrupt.  \<open>yield\<close> returns when the process is chosen again, so the position behind each of
  the two calls is where the process continues; \<open>IRQ_TIMER\<close> is 0, and \<open>2 * IRQ_TIMER\<close> is the same interrupt.
\<close>

datatype kpos = User | First_yield | Second_yield

definition trap_second :: "u32 \<Rightarrow> nat \<Rightarrow> lkern \<Rightarrow> kpos \<times> lkern" where
  "trap_second ticks i k =
     (let p = procs k ! i in
      if queue p = 0 \<and> state p = RUNNING
      then (Second_yield, yield i (upd i (\<lambda>p. p\<lparr>lowTicks := lowTicks p + ticks\<rparr>) k))
      else (User, k))"

definition trap_timer :: "u32 \<Rightarrow> nat \<Rightarrow> lkern \<Rightarrow> kpos \<times> lkern" where
  "trap_timer ticks i k =
     (let p = procs k ! i in
      if queue p = 1 \<and> state p = RUNNING
      then (First_yield, yield i (upd i (\<lambda>p. p\<lparr>highTicks := highTicks p + ticks\<rparr>) k))
      else trap_second ticks i k)"

text \<open>What a process does when it runs again.\<close>

fun resume :: "kpos \<Rightarrow> u32 \<Rightarrow> nat \<Rightarrow> lkern \<Rightarrow> kpos \<times> lkern" where
  "resume First_yield ticks i k = trap_second ticks i k"
| "resume Second_yield ticks i k = (User, k)"
| "resume User ticks i k = (User, k)"

section \<open>The generator\<close>

text \<open>The reference: multiplication by 16807 modulo the prime \<open>2 ^ 31 - 1\<close>.\<close>

definition park_miller :: "nat \<Rightarrow> nat" where
  "park_miller n = 16807 * n mod 2147483647"

lemma sint_pos: "uint (w :: u32) < 2147483648 \<Longrightarrow> sint w = uint w"
  unfolding sint_uint by (intro signed_take_bit_int_eq_self) (simp_all add: order_trans [OF _ uint_ge_0])

lemma signed_drop_bit_pos:
  assumes "unat (s :: u32) < 2147483648"
  shows "signed_drop_bit 16 s = drop_bit 16 s"
proof (rule signed_word_eqI)
  have s: "uint s < 2147483648"
    using assms uint_nat [of s] by linarith
  moreover have u: "uint (drop_bit 16 s) = drop_bit 16 (uint s)"
    unfolding uint_nat unat_drop_bit by (simp add: drop_bit_eq_div zdiv_int)
  moreover have "drop_bit 16 (uint s) \<le> uint s"
    unfolding drop_bit_eq_div using zdiv_mono2 [of "uint s" 1 "2 ^ 16"] by simp
  ultimately have "sint s = uint s" "sint (drop_bit 16 s) = drop_bit 16 (uint s)"
    by (simp_all add: sint_pos)
  then show "sint (signed_drop_bit 16 s) = sint (drop_bit 16 s)"
    by (simp add: sint_signed_drop_bit_eq)
qed

text \<open>The word arithmetic of \<open>rand_int\<close> never wraps around; \<open>h\<close> and \<open>l\<close> are the halves of the seed.\<close>

lemma unat_rand_int:
  assumes "unat s < 2147483648"
  defines "h \<equiv> unat s div 65536" and "l \<equiv> unat s mod 65536"
  defines "m \<equiv> 16807 * l + (16807 * h mod 32768) * 65536 + 16807 * h div 32768"
  shows "unat (rand_int s) = (if m > 2147483647 then m - 2147483647 else m)" "m < 4294967295"
proof -
  have h: "h \<le> 32767" and l: "l \<le> 65535"
    using assms(1) by (auto simp: h_def l_def)
  define hi where "hi = (16807 * signed_drop_bit 16 s :: u32)"
  define lo where "lo = (16807 * (s AND 0xFFFF) :: u32)"
  have uh: "unat hi = 16807 * h"
    using h unfolding hi_def signed_drop_bit_pos [OF assms(1)]
    by (simp add: unat_word_ariths unat_drop_bit h_def [symmetric])
  have mask16: "(s AND 0xFFFF) = take_bit 16 s" and mask15: "(hi AND 0x7FFF) = take_bit 15 hi"
    by (simp_all add: take_bit_eq_mask mask_eq_exp_minus_1)
  have ul: "unat lo = 16807 * l"
    using l unfolding lo_def mask16
    by (simp add: unat_word_ariths unat_take_bit l_def [symmetric])
  have b1: "16807 * l + (16807 * h mod 32768) * 65536 \<le> 1101446745 + 32767 * 65536"
    using l by (intro add_mono mult_mono) auto
  have b2: "16807 * h div 32768 \<le> 16806"
    using h by auto
  show m: "m < 4294967295"
    using b1 b2 unfolding m_def by linarith
  define mid where "mid = push_bit 16 (hi AND 0x7FFF)"
  have up: "unat mid = (16807 * h mod 32768) * 65536"
    unfolding mid_def mask15 push_bit_eq_mult by (simp add: unat_word_ariths unat_take_bit uh)
  have u1: "unat (lo + mid) = 16807 * l + (16807 * h mod 32768) * 65536"
    using b1 by (subst unat_add_lem [THEN iffD1]) (simp_all add: ul up)
  have u2: "unat (lo + mid + drop_bit 15 hi) = m"
    using b1 b2 by (subst unat_add_lem [THEN iffD1]) (simp_all add: u1 unat_drop_bit uh m_def)
  show "unat (rand_int s) = (if m > 2147483647 then m - 2147483647 else m)"
    unfolding rand_int_def Let_def hi_def [symmetric] lo_def [symmetric] mid_def [symmetric]
    by (auto simp: word_less_nat_alt u2 unat_sub word_le_nat_alt)
qed

lemma park_miller_inverse:
  assumes "n < 2147483647"
  shows "1407677000 * park_miller n mod 2147483647 = n"
proof -
  have "1407677000 * park_miller n mod 2147483647 = 1407677000 * (16807 * n) mod 2147483647"
    by (simp only: park_miller_def mod_mult_right_eq)
  also have "1407677000 * (16807 * n) = n + 11017 * n * 2147483647"
    by simp
  also have "\<dots> mod 2147483647 = n"
    using assms by (simp only: mod_mult_self1 mod_less)
  finally show ?thesis .
qed

lemma park_miller_pos: "0 < n \<Longrightarrow> n < 2147483647 \<Longrightarrow> 0 < park_miller n"
  using park_miller_inverse [of n] by (cases "park_miller n = 0") auto

lemma park_miller_lt: "park_miller n < 2147483647"
  by (simp add: park_miller_def)

lemma park_miller_inj: "inj_on park_miller {0..<2147483647}"
  by (rule inj_on_inverseI [where g = "\<lambda>m. 1407677000 * m mod 2147483647"])
    (simp add: park_miller_inverse)

text \<open>Carta's split of the product agrees with the remainder.\<close>

lemma carta:
  fixes h l n :: nat
  defines "m \<equiv> 16807 * l + (16807 * h mod 32768) * 65536 + 16807 * h div 32768"
  assumes "n = 65536 * h + l"
  shows "m mod 2147483647 = park_miller n"
proof -
  define x where "x = 16807 * h"
  have "16807 * n = 16807 * l + 65536 * x"
    using assms by (simp add: x_def)
  moreover have "x mod 32768 + 32768 * (x div 32768) = x"
    by (rule mod_mult_div_eq)
  ultimately have "16807 * n = m + (x div 32768) * 2147483647"
    unfolding m_def x_def [symmetric] by linarith
  then show ?thesis
    unfolding park_miller_def by (simp only: mod_mult_self1)
qed

lemma rand_int_eq:
  assumes "0 < unat s" "unat s < 2147483647"
  shows "unat (rand_int s) = park_miller (unat s)"
proof -
  define m where "m = 16807 * (unat s mod 65536) + (16807 * (unat s div 65536) mod 32768) * 65536 +
    16807 * (unat s div 65536) div 32768"
  have s: "unat s < 2147483648" using assms by simp
  note r = unat_rand_int [OF s, folded m_def]
  have m: "m mod 2147483647 = park_miller (unat s)"
    unfolding m_def by (rule carta) simp
  with park_miller_pos [OF assms] have nz: "m mod 2147483647 \<noteq> 0" by simp
  show ?thesis
  proof (cases "m > 2147483647")
    case True
    then have "m mod 2147483647 = (m - 2147483647) mod 2147483647"
      by (intro le_mod_geq) simp
    moreover from this nz r(2) have "m - 2147483647 < 2147483647"
      by (cases "m = 2 * 2147483647") auto
    ultimately have "m mod 2147483647 = m - 2147483647"
      by simp
    with True r(1) m show ?thesis by simp
  next
    case False
    with nz have "m < 2147483647" by (cases "m = 2147483647") auto
    with False r(1) m show ?thesis by simp
  qed
qed

text \<open>The seeds the generator moves among.\<close>

definition seeds :: "u32 set" where
  "seeds = {s. 0 < unat s \<and> unat s < 2147483647}"

lemma seedsD: "s \<in> seeds \<Longrightarrow> 0 < unat s" "s \<in> seeds \<Longrightarrow> unat s < 2147483647"
  unfolding seeds_def by blast+

lemma unat_seeds: "unat ` seeds = {0<..<2147483647}"
proof (intro equalityI subsetI)
  fix n :: nat
  assume "n \<in> {0<..<2147483647}"
  then have "n = unat (of_nat n :: u32)" "of_nat n \<in> seeds"
    by (simp_all add: seeds_def unat_of_nat)
  then show "n \<in> unat ` seeds" by (rule image_eqI)
qed (auto simp: seeds_def)

lemma rand_int_seeds: "s \<in> seeds \<Longrightarrow> rand_int s \<in> seeds"
  using park_miller_pos park_miller_lt by (auto simp: seeds_def rand_int_eq)

lemma finite_seeds: "finite seeds"
  by (rule finite_imageD [of unat]) (auto simp: unat_seeds inj_on_def unsigned_word_eqI)

lemma rand_int_inj: "inj_on rand_int seeds"
proof (rule inj_onI)
  fix s t assume s: "s \<in> seeds" and t: "t \<in> seeds" and eq: "rand_int s = rand_int t"
  have "park_miller (unat s) = park_miller (unat t)"
    unfolding rand_int_eq [OF seedsD [OF s], symmetric] rand_int_eq [OF seedsD [OF t], symmetric] eq by (rule refl)
  then have "unat s = unat t"
    by (rule inj_onD [OF park_miller_inj]) (simp_all only: atLeastLessThan_iff zero_le seedsD(2) [OF s] seedsD(2) [OF t] simp_thms)
  then show "s = t" by (rule unsigned_word_eqI)
qed

lemma rand_int_bij: "bij_betw rand_int seeds seeds"
  unfolding bij_betw_def
  using rand_int_inj endo_inj_surj [OF finite_seeds _ rand_int_inj] rand_int_seeds by blast

section \<open>The two queues\<close>

definition idx :: "nat \<Rightarrow> (lproc \<Rightarrow> bool) \<Rightarrow> lproc list \<Rightarrow> nat list" where
  "idx n P ps = map fst (filter (\<lambda>x. P (snd x)) (enumerate n ps))"

abbreviation in_high :: "lproc \<Rightarrow> bool" where
  "in_high p \<equiv> state p = RUNNABLE \<and> queue p = 1"

abbreviation in_low :: "lproc \<Rightarrow> bool" where
  "in_low p \<equiv> state p = RUNNABLE \<and> queue p \<noteq> 1"

lemma collect_eq:
  "collect ps n (h, l, ht, lt) =
     (h @ idx n in_high ps, l @ idx n in_low ps,
      ht + (\<Sum>p\<leftarrow>filter in_high ps. numTickets p), lt + (\<Sum>p\<leftarrow>filter in_low ps. numTickets p))"
  by (induction ps arbitrary: n h l ht lt) (auto simp: idx_def add.assoc)

lemma set_idx: "set (idx 0 P ps) = {i. i < length ps \<and> P (ps ! i)}"
  by (auto simp: idx_def in_set_enumerate_eq image_iff)

lemma distinct_idx: "distinct (idx n P ps)"
  unfolding idx_def by (rule distinct_map_filter) (simp only: map_fst_enumerate distinct_upt)

lemma idx_Nil: "idx n P ps = [] \<longleftrightarrow> (\<forall>p\<in>set ps. \<not> P p)"
proof -
  have "set ps = snd ` set (enumerate n ps)"
    by (simp only: set_map [symmetric] map_snd_enumerate)
  then show ?thesis by (auto simp: idx_def filter_empty_conv)
qed

definition tick :: "lproc list \<Rightarrow> nat list \<Rightarrow> nat" where
  "tick ps is = (\<Sum>i\<leftarrow>is. unat (numTickets (ps ! i)))"

lemma tick_simps [simp]:
  "tick ps [] = 0" "tick ps (i # is) = unat (numTickets (ps ! i)) + tick ps is"
  "tick ps (is @ js) = tick ps is + tick ps js"
  by (simp_all add: tick_def)

lemma tick_idx: "tick ps (idx 0 P ps) = (\<Sum>p\<leftarrow>filter P ps. unat (numTickets p))"
proof -
  have "map (\<lambda>i. unat (numTickets (ps ! i))) (idx 0 P ps) =
      map (\<lambda>x. unat (numTickets (snd x))) (filter (\<lambda>x. P (snd x)) (enumerate 0 ps))"
    by (auto simp: idx_def in_set_enumerate_eq)
  also have "\<dots> = map (\<lambda>p. unat (numTickets p)) (map snd (filter (\<lambda>x. P (snd x)) (enumerate 0 ps)))"
    by simp
  also have "map snd (filter (\<lambda>x. P (snd x)) (enumerate 0 ps)) = filter P (map snd (enumerate 0 ps))"
    by (simp only: filter_map o_def)
  finally show ?thesis by (simp add: tick_def)
qed

lemma word_sum_list: "(\<Sum>p\<leftarrow>ps. f p :: u32) = of_nat (\<Sum>p\<leftarrow>ps. unat (f p))"
  by (induction ps) simp_all

section \<open>The winning ticket\<close>

lemma pick_set: "pick ps is c w = Some i \<Longrightarrow> i \<in> set is"
  by (induction ps "is" c w rule: pick.induct) (auto simp: Let_def split: if_splits)

lemma pick_iff:
  assumes "unat c + tick ps is < 2 ^ 32" "unat c \<le> unat w" "distinct is" "j < length is"
  shows "pick ps is c w = Some (is ! j) \<longleftrightarrow>
    unat c + tick ps (take j is) \<le> unat w \<and> unat w < unat c + tick ps (take (Suc j) is)"
  using assms
proof (induction "is" arbitrary: c j)
  case Nil
  then show ?case by simp
next
  case (Cons i "is")
  let ?c = "c + numTickets (ps ! i)"
  have c: "unat ?c = unat c + unat (numTickets (ps ! i))"
    using Cons.prems(1) by (subst unat_add_lem [THEN iffD1]) auto
  show ?case
  proof (cases "?c > w")
    case True
    then have "unat w < unat c + unat (numTickets (ps ! i))"
      by (simp add: word_less_nat_alt c)
    then show ?thesis
      using True Cons.prems by (cases j) auto
  next
    case False
    then have w: "unat ?c \<le> unat w"
      by (simp add: word_less_nat_alt)
    show ?thesis
    proof (cases j)
      case 0
      have "pick ps is ?c w \<noteq> Some i"
        using pick_set [of ps "is" ?c w i] Cons.prems(3) by auto
      then show ?thesis using False w 0 c by simp
    next
      case (Suc j')
      then show ?thesis
        using False Cons.IH [of ?c j'] Cons.prems w c by (simp add: add.assoc)
    qed
  qed
qed

lemma pick_total:
  assumes "unat c + tick ps is < 2 ^ 32" "unat w < unat c + tick ps is" "unat c \<le> unat w"
  shows "\<exists>i. pick ps is c w = Some i"
  using assms
proof (induction "is" arbitrary: c)
  case (Cons i "is")
  have c: "unat (c + numTickets (ps ! i)) = unat c + unat (numTickets (ps ! i))"
    using Cons.prems(1) by (subst unat_add_lem [THEN iffD1]) auto
  show ?case
    using Cons.IH [of "c + numTickets (ps ! i)"] Cons.prems c by (auto simp: Let_def word_less_nat_alt)
qed simp

section \<open>Counting the drawings\<close>

lemma residues_upper:
  fixes T :: nat
  assumes "0 < T"
  shows "card {r. r < M \<and> a \<le> r mod T \<and> r mod T < a + t} \<le> t * (M div T + 1)"
proof -
  let ?f = "\<lambda>r. (r div T, r mod T)"
  have "inj ?f"
    by (rule injI) (metis Pair_inject div_mult_mod_eq)
  then have "card {r. r < M \<and> a \<le> r mod T \<and> r mod T < a + t} =
      card (?f ` {r. r < M \<and> a \<le> r mod T \<and> r mod T < a + t})"
    by (intro card_image [symmetric]) (auto intro: inj_on_subset)
  also have "\<dots> \<le> card ({0..M div T} \<times> {a..<a + t})"
    by (rule card_mono) (auto simp: div_le_mono)
  also have "\<dots> = t * (M div T + 1)"
    by (simp add: card_cartesian_product)
  finally show ?thesis .
qed

lemma residues_lower:
  fixes T :: nat
  assumes "a + t \<le> T"
  shows "t * (M div T) \<le> card {r. r < M \<and> a \<le> r mod T \<and> r mod T < a + t}"
proof -
  let ?f = "\<lambda>(k, x). k * T + (a + x)"
  let ?S = "{0..<M div T} \<times> {0..<t}"
  have dm: "(k * T + (a + x)) mod T = a + x" "(k * T + (a + x)) div T = k" if "x < t" for k x
    using that assms by (simp_all add: add.commute [of "k * T"])
  have inj: "inj_on ?f ?S"
    by (rule inj_on_inverseI [where g = "\<lambda>r. (r div T, r mod T - a)"]) (use assms in \<open>auto simp: dm\<close>)
  have "k * T + (a + x) < M" if "k < M div T" "x < t" for k x
  proof -
    have "k * T + (a + x) < (k + 1) * T" using that assms by simp
    also have "\<dots> \<le> M div T * T" using that by (intro mult_le_mono1) simp
    also have "\<dots> \<le> M" by simp
    finally show ?thesis .
  qed
  then have "?f ` ?S \<subseteq> {r. r < M \<and> a \<le> r mod T \<and> r mod T < a + t}"
    using assms by (auto simp: dm)
  then have "card (?f ` ?S) \<le> card {r. r < M \<and> a \<le> r mod T \<and> r mod T < a + t}"
    by (intro card_mono) auto
  then show ?thesis
    by (simp add: card_image [OF inj] card_cartesian_product mult.commute)
qed

text \<open>The same among the seeds: the generator permutes them, and only the residue of 0 is missing.\<close>

lemma seeds_residues:
  fixes T :: nat
  assumes "0 < T" "a + t \<le> T"
  defines "n \<equiv> card {s \<in> seeds. a \<le> unat (rand_int s) mod T \<and> unat (rand_int s) mod T < a + t}"
  shows "t * (2147483647 div T) \<le> n + 1" "n \<le> t * (2147483647 div T + 1)"
proof -
  let ?P = "\<lambda>r. a \<le> r mod T \<and> r mod T < a + t"
  let ?R = "{r. r < 2147483647 \<and> ?P r}"
  have inj: "inj_on (\<lambda>s. unat (rand_int s)) seeds"
    using rand_int_inj by (auto simp: inj_on_def intro: unsigned_word_eqI)
  have "(\<lambda>s. unat (rand_int s)) ` seeds = unat ` (rand_int ` seeds)"
    by (rule image_image [symmetric])
  also have "\<dots> = {0<..<2147483647}"
    using rand_int_bij unfolding bij_betw_def by (simp only: unat_seeds)
  finally have img: "(\<lambda>s. unat (rand_int s)) ` seeds = {0<..<2147483647}" .
  have "(\<lambda>s. unat (rand_int s)) ` {s \<in> seeds. ?P (unat (rand_int s))} =
      {r \<in> (\<lambda>s. unat (rand_int s)) ` seeds. ?P r}"
    by blast
  also have "\<dots> = ?R - {0}"
    unfolding img by auto
  finally have n: "n = card (?R - {0})"
    unfolding n_def by (metis (no_types, lifting) card_image inj inj_on_subset mem_Collect_eq subsetI)
  have fin: "finite ?R" by simp
  have "card ?R \<le> n + 1"
    unfolding n using card_Diff1_le [of ?R 0] card.remove [OF fin, of 0] by (cases "0 \<in> ?R") auto
  with residues_lower [OF assms(2), of 2147483647] show "t * (2147483647 div T) \<le> n + 1"
    by linarith
  have "n \<le> card ?R"
    unfolding n by (rule card_mono [OF fin]) auto
  with residues_upper [OF assms(1), of 2147483647 a t] show "n \<le> t * (2147483647 div T + 1)"
    by linarith
qed

section \<open>One pass\<close>

text \<open>The processes among whom a pass draws.\<close>

definition favoured :: "lproc list \<Rightarrow> lproc \<Rightarrow> bool" where
  "favoured ps p \<longleftrightarrow> state p = RUNNABLE \<and> (queue p = 1 \<or> (\<forall>q\<in>set ps. state q = RUNNABLE \<longrightarrow> queue q \<noteq> 1))"

definition tickets :: "lproc list \<Rightarrow> nat" where
  "tickets ps = (\<Sum>p\<leftarrow>filter (favoured ps) ps. unat (numTickets p))"

lemma favoured_queue:
  "filter (favoured ps) ps = (if \<exists>p\<in>set ps. in_high p then filter in_high ps else filter in_low ps)"
  "idx 0 (favoured ps) ps = (if \<exists>p\<in>set ps. in_high p then idx 0 in_high ps else idx 0 in_low ps)"
  unfolding idx_def
  by (auto simp: favoured_def in_set_enumerate_eq intro!: filter_cong arg_cong [where f = "map fst"])

lemma favoured_None: "(\<forall>p\<in>set ps. \<not> favoured ps p) \<longleftrightarrow> (\<forall>p\<in>set ps. state p \<noteq> RUNNABLE)"
  by (auto simp: favoured_def)

lemma scheduler_pass_eq:
  "scheduler_pass k =
     (if idx 0 (favoured (procs k)) (procs k) = [] then Some (None, k)
      else do {
        (winP, k1) \<leftarrow> draw k (idx 0 (favoured (procs k)) (procs k)) (of_nat (tickets (procs k)));
        Some (winP, case winP of None \<Rightarrow> k1
               | Some i \<Rightarrow> upd i (\<lambda>p. p\<lparr>numTimeRun := numTimeRun p + 1, state := RUNNING\<rparr>) k1) })"
proof (cases "\<exists>p\<in>set (procs k). in_high p")
  case True
  then have "idx 0 in_high (procs k) \<noteq> []"
    by (auto simp: idx_Nil)
  with True show ?thesis
    by (simp add: scheduler_pass_def collect_eq favoured_queue tickets_def word_sum_list)
next
  case False
  then have "filter in_high (procs k) = []" "idx 0 in_high (procs k) = []"
    by (auto simp: filter_empty_conv idx_Nil)
  with False show ?thesis
    by (auto simp: scheduler_pass_def collect_eq favoured_queue tickets_def word_sum_list)
qed

lemma tickets_idx: "tick (procs k) (idx 0 (favoured (procs k)) (procs k)) = tickets (procs k)"
  by (simp add: tick_idx tickets_def)

text \<open>C31: A pass of the scheduler divides by zero exactly when some process is runnable and the tickets of the processes
  it draws among add up to a multiple of 2 to the 32, a sum \<open>settickets\<close> lets any four processes reach.\<close>

theorem scheduler_faults_iff:
  "scheduler_pass k = None \<longleftrightarrow> (\<exists>p\<in>set (procs k). state p = RUNNABLE) \<and> 4294967296 dvd tickets (procs k)"
proof -
  have "(of_nat (tickets (procs k)) = (0 :: u32)) \<longleftrightarrow> 4294967296 dvd tickets (procs k)"
    by (simp add: word_of_nat_eq_0_iff)
  moreover have "idx 0 (favoured (procs k)) (procs k) \<noteq> [] \<longleftrightarrow> (\<exists>p\<in>set (procs k). state p = RUNNABLE)"
    using favoured_None [of "procs k"] by (auto simp: idx_Nil)
  ultimately show ?thesis
    by (auto simp: scheduler_pass_eq draw_def Let_def split: option.splits)
qed

text \<open>What a pass does otherwise.\<close>

lemma draw_some:
  assumes "tickets (procs k) < 4294967296" "0 < tickets (procs k)"
  obtains i where "i < length (procs k)" "favoured (procs k) (procs k ! i)"
    "draw k (idx 0 (favoured (procs k)) (procs k)) (of_nat (tickets (procs k))) =
       Some (Some i, k\<lparr>rnd_seed := rand_int (rnd_seed k)\<rparr>)"
proof -
  let ?T = "of_nat (tickets (procs k)) :: u32" and ?q = "idx 0 (favoured (procs k)) (procs k)"
  let ?w = "rand_int (rnd_seed k) mod ?T"
  have T: "unat ?T = tickets (procs k)"
    using assms(1) by (simp add: unat_of_nat)
  then have "?T \<noteq> 0" using assms(2) by (metis unat_0 less_irrefl)
  have "unat ?w < tickets (procs k)"
    using assms(2) by (simp add: unat_mod T)
  then obtain i where i: "pick (procs k) ?q 0 ?w = Some i"
    using pick_total [of 0 "procs k" ?q ?w] assms(1) by (auto simp: tickets_idx)
  with \<open>?T \<noteq> 0\<close> have "draw k ?q ?T = Some (Some i, k\<lparr>rnd_seed := rand_int (rnd_seed k)\<rparr>)"
    by (simp add: draw_def Let_def)
  moreover from pick_set [OF i] have "i < length (procs k)" "favoured (procs k) (procs k ! i)"
    by (simp_all add: set_idx)
  ultimately show ?thesis using that by blast
qed

text \<open>C30: While the tickets in play add up to less than 2 to the 32 and at least one, a pass of the scheduler picks a
  runnable process, one of the high queue if that queue has any, counts the run, makes it RUNNING and changes no other
  process.\<close>

theorem scheduler_pass_correct:
  assumes "0 < tickets (procs k)" "tickets (procs k) < 4294967296"
  shows "\<exists>i p. i < length (procs k) \<and> p = procs k ! i \<and> state p = RUNNABLE \<and>
    (queue p = 1 \<or> (\<forall>q\<in>set (procs k). state q = RUNNABLE \<longrightarrow> queue q \<noteq> 1)) \<and>
    scheduler_pass k = Some (Some i, k\<lparr>rnd_seed := rand_int (rnd_seed k),
      procs := (procs k)[i := p\<lparr>numTimeRun := numTimeRun p + 1, state := RUNNING\<rparr>]\<rparr>)"
proof -
  obtain i where i: "i < length (procs k)" "favoured (procs k) (procs k ! i)"
    "draw k (idx 0 (favoured (procs k)) (procs k)) (of_nat (tickets (procs k))) =
       Some (Some i, k\<lparr>rnd_seed := rand_int (rnd_seed k)\<rparr>)"
    using draw_some assms by blast
  from i(1,2) have "i \<in> set (idx 0 (favoured (procs k)) (procs k))"
    by (simp add: set_idx)
  then have "idx 0 (favoured (procs k)) (procs k) \<noteq> []"
    by (metis empty_iff list.set(1))
  then have "scheduler_pass k = Some (Some i, k\<lparr>rnd_seed := rand_int (rnd_seed k), procs := (procs k)
      [i := (procs k ! i)\<lparr>numTimeRun := numTimeRun (procs k ! i) + 1, state := RUNNING\<rparr>]\<rparr>)"
    by (simp add: scheduler_pass_eq i(3))
  with i(1) i(2) [unfolded favoured_def] show ?thesis by blast
qed

text \<open>Who wins on which number.\<close>

lemma pass_winner_iff:
  assumes "i < length (procs k)" "favoured (procs k) (procs k ! i)"
    "0 < tickets (procs k)" "tickets (procs k) < 4294967296"
  obtains a where "a + unat (numTickets (procs k ! i)) \<le> tickets (procs k)"
    "\<And>s. (\<exists>k'. scheduler_pass (k\<lparr>rnd_seed := s\<rparr>) = Some (Some i, k')) \<longleftrightarrow>
      a \<le> unat (rand_int s) mod tickets (procs k) \<and>
      unat (rand_int s) mod tickets (procs k) < a + unat (numTickets (procs k ! i))"
proof -
  let ?q = "idx 0 (favoured (procs k)) (procs k)"
  let ?T = "of_nat (tickets (procs k)) :: u32"
  have T: "unat ?T = tickets (procs k)"
    using assms(4) by (simp add: unat_of_nat)
  then have "?T \<noteq> 0" using assms(3) by (metis unat_0 less_irrefl)
  from assms(1,2) have "i \<in> set ?q" by (simp add: set_idx)
  then obtain j where j: "j < length ?q" "?q ! j = i"
    by (auto simp: in_set_conv_nth)
  let ?a = "tick (procs k) (take j ?q)"
  have suc: "tick (procs k) (take (Suc j) ?q) = ?a + unat (numTickets (procs k ! i))"
    using j by (simp add: take_Suc_conv_app_nth)
  have "tick (procs k) (take (Suc j) ?q) + tick (procs k) (drop (Suc j) ?q) = tickets (procs k)"
    unfolding tickets_idx [symmetric] by (metis append_take_drop_id tick_simps(3))
  then have "?a + unat (numTickets (procs k ! i)) \<le> tickets (procs k)"
    using suc by linarith
  moreover have "(\<exists>k'. scheduler_pass (k\<lparr>rnd_seed := s\<rparr>) = Some (Some i, k')) \<longleftrightarrow>
      ?a \<le> unat (rand_int s) mod tickets (procs k) \<and>
      unat (rand_int s) mod tickets (procs k) < ?a + unat (numTickets (procs k ! i))" for s
  proof -
    have "(\<exists>k'. scheduler_pass (k\<lparr>rnd_seed := s\<rparr>) = Some (Some i, k')) \<longleftrightarrow>
        pick (procs k) ?q 0 (rand_int s mod ?T) = Some (?q ! j)"
      using \<open>?T \<noteq> 0\<close> \<open>i \<in> set ?q\<close> j by (auto simp: scheduler_pass_eq draw_def Let_def)
    also have "\<dots> \<longleftrightarrow> ?a \<le> unat (rand_int s mod ?T) \<and> unat (rand_int s mod ?T) < tick (procs k) (take (Suc j) ?q)"
      using pick_iff [of 0 "procs k" ?q "rand_int s mod ?T" j] assms(4) j(1)
      by (simp add: tickets_idx distinct_idx)
    finally show ?thesis by (simp only: suc unat_mod T)
  qed
  ultimately show ?thesis using that by blast
qed

text \<open>C29: The lottery is proportional.  Over all 2147483646 seeds of the generator, a favoured process with t of the T
  tickets in play wins for t times (2147483647 div T) of them, give or take t.\<close>

theorem lottery_proportional:
  assumes "i < length (procs k)" "favoured (procs k) (procs k ! i)"
    "0 < tickets (procs k)" "tickets (procs k) < 4294967296"
  defines "t \<equiv> unat (numTickets (procs k ! i))" and "q \<equiv> 2147483647 div tickets (procs k)"
    and "wins \<equiv> card {s. 0 < unat s \<and> unat s < 2147483647 \<and>
      (\<exists>k'. scheduler_pass (set_rnd_seed s k) = Some (Some i, k'))}"
  shows "t * q \<le> wins + 1 \<and> wins \<le> t * (q + 1)"
proof -
  obtain a where a: "a + t \<le> tickets (procs k)"
    "\<And>s. (\<exists>k'. scheduler_pass (k\<lparr>rnd_seed := s\<rparr>) = Some (Some i, k')) \<longleftrightarrow>
      a \<le> unat (rand_int s) mod tickets (procs k) \<and> unat (rand_int s) mod tickets (procs k) < a + t"
    using pass_winner_iff [OF assms(1-4)] unfolding t_def by blast
  have "wins = card {s \<in> seeds. a \<le> unat (rand_int s) mod tickets (procs k) \<and>
      unat (rand_int s) mod tickets (procs k) < a + t}"
    unfolding wins_def set_rnd_seed_def a(2) seeds_def by (simp add: conj_assoc)
  with seeds_residues [OF assms(3) a(1)] show ?thesis
    by (simp only: q_def)
qed

text \<open>A machine with two runnable processes that hold one and three tickets.\<close>

definition sample_proc :: "u32 \<Rightarrow> u32 \<Rightarrow> lproc" where
  "sample_proc i n = \<lparr>state = RUNNABLE, pid = i, kstack = 4096, numTickets = n, queue = 1, numTimeRun = 0,
     highTicks = 0, lowTicks = 0\<rparr>"

definition sample :: lkern where
  "sample = scheduler_start \<lparr>procs = [sample_proc 1 1, sample_proc 2 3], nextpid = 3, rnd_seed = 0\<rparr>"

lemma sample_procs: "procs sample = [sample_proc 1 1, sample_proc 2 3]"
  by (simp add: sample_def scheduler_start_def set_rnd_seed_def)

lemma sample_favoured: "favoured ps (sample_proc i n)"
  by (simp add: favoured_def sample_proc_def)

lemma sample_tickets: "tickets (procs sample) = 4"
  by (simp add: sample_procs tickets_def sample_favoured) (simp add: sample_proc_def)

theorem lottery_proportional_witness:
  "3 * (536870911 :: nat) \<le> card {s. 0 < unat s \<and> unat s < 2147483647 \<and>
      (\<exists>k'. scheduler_pass (set_rnd_seed s sample) = Some (Some 1, k'))} + 1"
proof -
  have "unat (numTickets (procs sample ! 1)) = 3" "favoured (procs sample) (procs sample ! 1)"
    by (simp_all add: sample_favoured sample_procs) (simp add: sample_proc_def)
  then show ?thesis
    using lottery_proportional [of 1 sample] sample_tickets [unfolded sample_procs]
    by (simp add: sample_procs)
qed

theorem scheduler_pass_correct_witness:
  "\<exists>i k'. scheduler_pass sample = Some (Some i, k') \<and> i < 2 \<and> rnd_seed k' = 168070"
proof -
  have "rand_int (rnd_seed sample) = 168070"
    by (simp add: sample_def scheduler_start_def set_rnd_seed_def rand_int_def signed_drop_bit_pos)
  moreover obtain i p where "i < length (procs sample)" "scheduler_pass sample = Some (Some i, sample\<lparr>rnd_seed :=
      rand_int (rnd_seed sample), procs := (procs sample)[i := p]\<rparr>)"
    using scheduler_pass_correct [of sample] sample_tickets by force
  ultimately show ?thesis
    by (intro exI [of _ i]) (simp add: sample_procs)
qed

text \<open>C32: \<open>rand_int\<close> is the minimal standard generator: from a seed between 1 and 2 to the 31 minus 2 it computes 16807
  times the seed modulo 2 to the 31 minus 1, without overflow and without a division, and stays in that range.\<close>

theorem rand_int_minimal_standard:
  assumes "0 < unat s" "unat s < 2147483647"
  shows "unat (rand_int s) = 16807 * unat s mod 2147483647 \<and> 0 < unat (rand_int s) \<and> unat (rand_int s) < 2147483647"
  using rand_int_eq [OF assms] park_miller_pos [OF assms] park_miller_lt
  by (simp only: park_miller_def simp_thms)

theorem rand_int_minimal_standard_witness: "unat (rand_int 10) = 168070"
  using rand_int_minimal_standard [of 10] by simp

text \<open>\<open>settickets\<close> accepts what brings the machine down: four processes, each with 2 to the 30 tickets.\<close>

lemma four_settickets_fault:
  assumes "procs k = [p, q, r, t]" "\<forall>x\<in>{p, q, r, t}. state x = RUNNABLE \<and> queue x = 1"
  defines "n \<equiv> 1073741824"
  shows "scheduler_pass (snd (settickets n 3 (snd (settickets n 2 (snd (settickets n 1 (snd (settickets n 0 k)))))))) = None"
    (is "scheduler_pass ?k = None")
proof -
  have "procs ?k = map (numTickets_update (\<lambda>_. n)) [p, q, r, t]"
    using assms(1) by (simp add: settickets_def n_def word_sless_alt numeral_3_eq_3 numeral_2_eq_2)
  then have "procs ?k = [p\<lparr>numTickets := n\<rparr>, q\<lparr>numTickets := n\<rparr>, r\<lparr>numTickets := n\<rparr>, t\<lparr>numTickets := n\<rparr>]"
    by simp
  then show ?thesis
    using assms(2) by (simp add: scheduler_pass_def draw_def Let_def n_def)
qed

section \<open>Demotion\<close>

text \<open>A timer interrupt in the high queue moves the process to the low one.  When it is chosen again it continues behind the
  first \<open>yield\<close>, and the second test finds it in the low queue and running: it gives the processor up once more before it
  gets back to user code, and is charged low ticks.\<close>

theorem first_low_slice_lost:
  assumes "i < length (procs k)" "queue (procs k ! i) = 1" "state (procs k ! i) = RUNNING"
    "trap_timer ticks i k = (pos, k1)" "scheduler_pass k1 = Some (Some i, k2)"
  shows "\<exists>k3. resume pos ticks2 i k2 = (Second_yield, k3) \<and> state (procs k3 ! i) = RUNNABLE \<and>
    lowTicks (procs k3 ! i) = lowTicks (procs k ! i) + ticks2"
proof -
  have k1: "pos = First_yield" "procs k1 = (procs k)[i := (procs k ! i)
      \<lparr>highTicks := highTicks (procs k ! i) + ticks, queue := 0, state := RUNNABLE\<rparr>]"
    using assms(1-4) by (auto simp: trap_timer_def yield_def Let_def)
  have "procs k2 = (procs k1)[i := (procs k1 ! i)\<lparr>numTimeRun := numTimeRun (procs k1 ! i) + 1, state := RUNNING\<rparr>]"
    using assms(5) by (auto simp: scheduler_pass_eq draw_def Let_def split: if_splits)
  then show ?thesis
    using assms(1) by (simp add: k1 trap_second_def yield_def)
qed

section \<open>What the other calls do\<close>

text \<open>A new process starts in the high queue with one ticket, whatever its entry held before.\<close>

lemma allocproc_scheduling:
  assumes "allocproc stk k = (Some i, k')"
  shows "i < length (procs k') \<and> queue (procs k' ! i) = 1 \<and> numTickets (procs k' ! i) = 1 \<and>
    pid (procs k' ! i) = nextpid k \<and> (\<forall>j. j \<noteq> i \<longrightarrow> procs k' ! j = procs k ! j)"
  using assms
  by (auto simp: allocproc_def Let_def first_index_lt split: option.splits if_splits)

abbreviation live :: "lproc \<Rightarrow> bool" where
  "live p \<equiv> \<not> (state p = ZOMBIE \<or> state p = UNUSED \<or> state p = EMBRYO)"

lemma getpinfo_loop_pid:
  assumes "i + length (filter live ps) \<le> length (ppid s)"
  shows "ppid (getpinfo_loop ps i s) =
    take i (ppid s) @ map pid (filter live ps) @ drop (i + length (filter live ps)) (ppid s)"
  using assms
proof (induction ps arbitrary: i s)
  case Nil
  then show ?case by simp
next
  case (Cons p ps)
  show ?case
  proof (cases "live p")
    case True
    with Cons.prems have "i < length (ppid s)" by simp
    with True Cons.IH [of "i + 1" "put_info i p s"] Cons.prems show ?thesis
      by (simp add: put_info_def take_Suc_conv_app_nth)
  next
    case False
    with Cons show ?thesis by auto
  qed
qed

lemma getpinfo_loop_inuse:
  assumes "i + length (filter live ps) \<le> length (inuse s)"
  shows "inuse (getpinfo_loop ps i s) =
    take i (inuse s) @ replicate (length (filter live ps)) 1 @ drop (i + length (filter live ps)) (inuse s)"
  using assms
proof (induction ps arbitrary: i s)
  case Nil
  then show ?case by simp
next
  case (Cons p ps)
  show ?case
  proof (cases "live p")
    case True
    with Cons.prems have "i < length (inuse s)" by simp
    with True Cons.IH [of "i + 1" "put_info i p s"] Cons.prems show ?thesis
      by (simp add: put_info_def take_Suc_conv_app_nth)
  next
    case False
    with Cons show ?thesis by auto
  qed
qed

text \<open>\<open>getpinfo\<close> fills a prefix of the arrays with the live processes, one after the other: an index is not a slot of the
  table, and behind the prefix \<open>inuse\<close> keeps what the caller's memory held.\<close>

theorem getpinfo_packs:
  assumes "length (procs k) \<le> length (ppid s)" "length (procs k) \<le> length (inuse s)"
  defines "n \<equiv> length (filter live (procs k))"
  shows "ppid (snd (getpinfo k s)) = map pid (filter live (procs k)) @ drop n (ppid s)"
    "inuse (snd (getpinfo k s)) = replicate n 1 @ drop n (inuse s)"
proof -
  have "0 + length (filter live (procs k)) \<le> length (ppid s)" "0 + length (filter live (procs k)) \<le> length (inuse s)"
    using assms(1,2) length_filter_le [of live "procs k"] by linarith+
  from getpinfo_loop_pid [OF this(1)] getpinfo_loop_inuse [OF this(2)]
  show "ppid (snd (getpinfo k s)) = map pid (filter live (procs k)) @ drop n (ppid s)"
    "inuse (snd (getpinfo k s)) = replicate n 1 @ drop n (inuse s)"
    by (simp_all add: getpinfo_def n_def)
qed

end
