(* ===== verification/Shell.thy ===== *)
theory Shell
  imports Prelude
begin

text \<open>
  The command parser of the xv6 shell (\<open>user/sh.c\<close>).  A command line is a buffer of characters; the parser moves one
  position through it and builds a tree whose words are pairs of positions, and \<open>nulterminate\<close> then writes a NUL behind
  every word, so that the words become C strings inside the buffer.  The recursive functions take an amount of fuel;
  \<open>4 * n + 4\<close> is enough for a line of \<open>n\<close> characters.  \<open>panic\<close> prints a message and ends the process: it is the result
  \<open>Panic\<close>.  \<open>malloc\<close> is taken to succeed.
\<close>

section \<open>Data\<close>

text \<open>A word of the line: its first position and the one behind its end.\<close>

type_synonym segment = "nat \<times> nat"

datatype cmd =
    EXEC "segment list"
  | REDIR cmd segment nat nat
  | PIPE cmd cmd
  | LIST cmd cmd
  | BACK cmd

datatype 'a result = Ok 'a | Panic string | No_fuel

fun seq :: "'a result \<Rightarrow> ('a \<Rightarrow> 'b result) \<Rightarrow> 'b result" where
  "seq (Ok x) f = f x"
| "seq (Panic e) f = Panic e"
| "seq No_fuel f = No_fuel"

definition MAXARGS :: nat where "MAXARGS = 10"
definition O_RDONLY :: nat where "O_RDONLY = 0"
definition O_WRONLY :: nat where "O_WRONLY = 1"
definition O_CREATE :: nat where "O_CREATE = 512"

definition whitespace :: string where
  "whitespace = [CHR '' '', CHR 0x09, CHR 0x0D, CHR 0x0A, CHR 0x0B]"

definition symbols :: string where
  "symbols = ''<|>&;()''"

text \<open>The character a position points to: behind the text there is a NUL.\<close>

definition char_at :: "string \<Rightarrow> nat \<Rightarrow> char" where
  "char_at t i = (if i < length t then t ! i else CHR 0x00)"

section \<open>Tokens\<close>

function skip_white :: "string \<Rightarrow> nat \<Rightarrow> nat" where
  "skip_white t s = (if s < length t \<and> char_at t s \<in> set whitespace then skip_white t (s + 1) else s)"
  by auto
termination by (relation "measure (\<lambda>(t, s). length t - s)") auto

function word_end :: "string \<Rightarrow> nat \<Rightarrow> nat" where
  "word_end t s =
     (if s < length t \<and> char_at t s \<notin> set whitespace \<and> char_at t s \<notin> set symbols
      then word_end t (s + 1) else s)"
  by auto
termination by (relation "measure (\<lambda>(t, s). length t - s)") auto

declare skip_white.simps [simp del] word_end.simps [simp del]

text \<open>\<open>gettoken\<close> returns the kind of the token, its segment and the position of the next token.\<close>

definition gettoken :: "string \<Rightarrow> nat \<Rightarrow> char \<times> segment \<times> nat" where
  "gettoken t i =
     (let q = skip_white t i;
          c = char_at t q;
          (ret, s) =
            (if c = CHR 0x00 then (c, q)
             else if c \<in> set ''|();&<'' then (c, q + 1)
             else if c = CHR ''>'' then
               (if char_at t (q + 1) = CHR ''>'' then (CHR ''+'', q + 2) else (c, q + 1))
             else (CHR ''a'', word_end t q))
      in (ret, (q, s), skip_white t s))"

definition peek :: "string \<Rightarrow> nat \<Rightarrow> string \<Rightarrow> bool \<times> nat" where
  "peek t i toks =
     (let s = skip_white t i in (char_at t s \<noteq> CHR 0x00 \<and> char_at t s \<in> set toks, s))"

lemma skip_white_ge: "i \<le> skip_white t i"
proof (induction t i rule: skip_white.induct)
  case (1 t i)
  then show ?case by (subst skip_white.simps) auto
qed

lemma word_end_ge: "i \<le> word_end t i"
proof (induction t i rule: word_end.induct)
  case (1 t i)
  then show ?case by (subst word_end.simps) auto
qed

lemma peek_True: "peek t i toks = (True, s) \<Longrightarrow> i \<le> s \<and> s < length t \<and> char_at t s \<in> set toks \<and> s = skip_white t i"
  using skip_white_ge [of i t] by (auto simp: peek_def Let_def char_at_def split: if_splits)

lemma skip_white_idem [simp]: "skip_white t (skip_white t i) = skip_white t i"
proof (induction t i rule: skip_white.induct)
  case (1 t i)
  then show ?case by (metis skip_white.simps)
qed

lemma gettoken_ge: "gettoken t i = (tok, seg, j) \<Longrightarrow> i \<le> j"
  using skip_white_ge [of i t] word_end_ge [of "skip_white t i" t]
    skip_white_ge [of "skip_white t i" t] skip_white_ge [of "skip_white t i + 1" t]
    skip_white_ge [of "skip_white t i + 2" t] skip_white_ge [of "word_end t (skip_white t i)" t]
  by (auto simp: gettoken_def Let_def split: if_splits)

text \<open>A token is taken where \<open>peek\<close> has seen one of the symbols.\<close>

lemma gettoken_progress:
  assumes "peek t i toks = (True, s)" "set toks \<subseteq> set symbols" "gettoken t s = (tok, seg, j)"
  shows "s < j"
proof -
  have s: "skip_white t s = s" "char_at t s \<in> set symbols"
    using peek_True [OF assms(1)] assms(2) by auto
  then show ?thesis
    using assms(3) skip_white_ge [of "s + 1" t] skip_white_ge [of "s + 2" t]
    by (auto simp: gettoken_def Let_def symbols_def split: if_splits)
qed

section \<open>The parser\<close>

text \<open>
  \<open>parseredirs\<close> wraps a command into the redirections that follow.  In \<open>parseexec\<close> the innermost command is still growing
  while it is wrapped, so the redirections are collected and applied by \<open>wrap\<close>.
\<close>

type_synonym redir = "segment \<times> nat \<times> nat"

definition wrap :: "cmd \<Rightarrow> redir list \<Rightarrow> cmd" where
  "wrap = foldl (\<lambda>c (f, mode, fd). REDIR c f mode fd)"

definition redir_of :: "char \<Rightarrow> segment \<Rightarrow> redir list" where
  "redir_of tok f =
     (if tok = CHR ''<'' then [(f, O_RDONLY, 0)]
      else if tok = CHR ''>'' then [(f, O_WRONLY OR O_CREATE, 1)]
      else if tok = CHR ''+'' then [(f, O_WRONLY OR O_CREATE, 1)] else [])"

lemma redirs_progress:
  assumes "peek t i ''<>'' = (True, s)" "gettoken t s = (tok, x, s1)" "gettoken t s1 = (tok2, f, s2)"
  shows "length t - s2 < length t - i"
proof -
  have "s < s1"
    by (rule gettoken_progress [OF assms(1) _ assms(2)]) (simp add: symbols_def)
  moreover have "i \<le> s" "s < length t"
    using peek_True [OF assms(1)] by blast+
  ultimately show ?thesis
    using gettoken_ge [OF assms(3)] by linarith
qed

function parseredirs :: "redir list \<Rightarrow> string \<Rightarrow> nat \<Rightarrow> (redir list \<times> nat) result" where
  "parseredirs rs t i =
     (case peek t i ''<>'' of
        (False, s) \<Rightarrow> Ok (rs, s)
      | (True, s) \<Rightarrow>
          (case gettoken t s of (tok, _, s1) \<Rightarrow>
             (case gettoken t s1 of (tok2, f, s2) \<Rightarrow>
                if tok2 \<noteq> CHR ''a'' then Panic ''missing file for redirection''
                else parseredirs (rs @ redir_of tok f) t s2)))"
  by pat_completeness auto
termination
  by (relation "measure (\<lambda>(rs, t, i). length t - i)") (auto dest!: redirs_progress [OF sym sym sym])

declare parseredirs.simps [simp del]

text \<open>The loop of \<open>parseexec\<close> over the words; \<open>rs\<close> are the redirections found so far.\<close>

function exec_loop :: "segment list \<Rightarrow> redir list \<Rightarrow> string \<Rightarrow> nat \<Rightarrow> (cmd \<times> nat) result" where
  "exec_loop argv rs t i =
     (case peek t i ''|)&;'' of
        (True, s) \<Rightarrow> Ok (wrap (EXEC argv) rs, s)
      | (False, s) \<Rightarrow>
          (case gettoken t s of (tok, w, s1) \<Rightarrow>
             if tok = CHR 0x00 then Ok (wrap (EXEC argv) rs, s1)
             else if tok \<noteq> CHR ''a'' then Panic ''syntax''
             else if length argv + 1 \<ge> MAXARGS then Panic ''too many args''
             else seq (parseredirs rs t s1) (\<lambda>(rs', s2). exec_loop (argv @ [w]) rs' t s2)))"
  by auto
termination by (relation "measure (\<lambda>(argv, rs, t, i). MAXARGS - length argv)") auto

text \<open>The loop of \<open>parseline\<close> over ampersands.\<close>

lemma amp_progress:
  assumes "peek t i ''&'' = (True, s)" "gettoken t s = (tok, x, s1)"
  shows "length t - s1 < length t - i"
proof -
  have "s < s1"
    by (rule gettoken_progress [OF assms(1) _ assms(2)]) (simp add: symbols_def)
  then show ?thesis
    using peek_True [OF assms(1)] by linarith
qed

function back_loop :: "cmd \<Rightarrow> string \<Rightarrow> nat \<Rightarrow> cmd \<times> nat" where
  "back_loop c t i =
     (case peek t i ''&'' of
        (True, s) \<Rightarrow> (case gettoken t s of (_, _, s1) \<Rightarrow> back_loop (BACK c) t s1)
      | (False, s) \<Rightarrow> (c, s))"
  by auto
termination
  by (relation "measure (\<lambda>(c, t, i). length t - i)") (auto dest!: amp_progress [OF sym sym])

declare exec_loop.simps [simp del] back_loop.simps [simp del]

fun parseline :: "nat \<Rightarrow> string \<Rightarrow> nat \<Rightarrow> (cmd \<times> nat) result"
and parsepipe :: "nat \<Rightarrow> string \<Rightarrow> nat \<Rightarrow> (cmd \<times> nat) result"
and parseexec :: "nat \<Rightarrow> string \<Rightarrow> nat \<Rightarrow> (cmd \<times> nat) result"
and parseblock :: "nat \<Rightarrow> string \<Rightarrow> nat \<Rightarrow> (cmd \<times> nat) result" where
  "parseline 0 t i = No_fuel"
| "parseline (Suc n) t i =
     seq (parsepipe n t i) (\<lambda>(c, s).
       case back_loop c t s of (c, s1) \<Rightarrow>
         (case peek t s1 '';'' of
            (True, s2) \<Rightarrow> (case gettoken t s2 of (_, _, s3) \<Rightarrow>
               seq (parseline n t s3) (\<lambda>(d, s4). Ok (LIST c d, s4)))
          | (False, s2) \<Rightarrow> Ok (c, s2)))"
| "parsepipe 0 t i = No_fuel"
| "parsepipe (Suc n) t i =
     seq (parseexec n t i) (\<lambda>(c, s).
       case peek t s ''|'' of
         (True, s1) \<Rightarrow> (case gettoken t s1 of (_, _, s2) \<Rightarrow>
            seq (parsepipe n t s2) (\<lambda>(d, s3). Ok (PIPE c d, s3)))
       | (False, s1) \<Rightarrow> Ok (c, s1))"
| "parseexec 0 t i = No_fuel"
| "parseexec (Suc n) t i =
     (case peek t i ''('' of
        (True, s) \<Rightarrow> parseblock n t s
      | (False, s) \<Rightarrow> seq (parseredirs [] t s) (\<lambda>(rs, s1). exec_loop [] rs t s1))"
| "parseblock 0 t i = No_fuel"
| "parseblock (Suc n) t i =
     (case peek t i ''('' of
        (False, s) \<Rightarrow> Panic ''parseblock''
      | (True, s) \<Rightarrow> (case gettoken t s of (_, _, s1) \<Rightarrow>
          seq (parseline n t s1) (\<lambda>(c, s2).
            case peek t s2 '')'' of
              (False, s3) \<Rightarrow> Panic ''syntax - missing )''
            | (True, s3) \<Rightarrow> (case gettoken t s3 of (_, _, s4) \<Rightarrow>
                seq (parseredirs [] t s4) (\<lambda>(rs, s5). Ok (wrap c rs, s5))))))"

text \<open>\<open>nulterminate\<close> over the buffer as a function from positions to characters.\<close>

fun nul_words :: "segment list \<Rightarrow> (nat \<Rightarrow> char) \<Rightarrow> nat \<Rightarrow> char" where
  "nul_words [] m = m"
| "nul_words ((q, eq) # ws) m = nul_words ws (m(eq := CHR 0x00))"

fun nulterminate :: "cmd \<Rightarrow> (nat \<Rightarrow> char) \<Rightarrow> nat \<Rightarrow> char" where
  "nulterminate (EXEC argv) m = nul_words argv m"
| "nulterminate (REDIR c f mode fd) m = (nulterminate c m)(snd f := CHR 0x00)"
| "nulterminate (PIPE c d) m = nulterminate d (nulterminate c m)"
| "nulterminate (LIST c d) m = nulterminate d (nulterminate c m)"
| "nulterminate (BACK c) m = nulterminate c m"

definition parsecmd :: "nat \<Rightarrow> string \<Rightarrow> (cmd \<times> (nat \<Rightarrow> char)) result" where
  "parsecmd n t =
     seq (parseline n t 0) (\<lambda>(c, s).
       case peek t s '''' of (_, s1) \<Rightarrow>
         if s1 \<noteq> length t then Panic ''syntax'' else Ok (c, nulterminate c (char_at t)))"


section \<open>Positions only move forward\<close>

lemma seq_Ok [simp]: "seq r f = Ok y \<longleftrightarrow> (\<exists>x. r = Ok x \<and> f x = Ok y)"
  by (cases r) auto

lemma seq_No_fuel: "seq r f = No_fuel \<longleftrightarrow> r = No_fuel \<or> (\<exists>x. r = Ok x \<and> f x = No_fuel)"
  by (cases r) auto

lemma peek_ge: "peek t i toks = (b, s) \<Longrightarrow> i \<le> s"
  using skip_white_ge [of i t] by (auto simp: peek_def Let_def)

text \<open>Induction over the successful runs of the three loops.\<close>

lemma parseredirs_run [consumes 1, case_names stop redir]:
  assumes "parseredirs rs t i = Ok (rs', j)"
    and stop: "\<And>rs i s. peek t i ''<>'' = (False, s) \<Longrightarrow> P rs i rs s"
    and redir: "\<And>rs i s tok x s1 f s2 rs' j. peek t i ''<>'' = (True, s) \<Longrightarrow> gettoken t s = (tok, x, s1) \<Longrightarrow>
      gettoken t s1 = (CHR ''a'', f, s2) \<Longrightarrow> parseredirs (rs @ redir_of tok f) t s2 = Ok (rs', j) \<Longrightarrow>
      P (rs @ redir_of tok f) s2 rs' j \<Longrightarrow> P rs i rs' j"
  shows "P rs i rs' j"
proof -
  have "parseredirs rs t' i = Ok (rs', j) \<Longrightarrow> t' = t \<Longrightarrow> P rs i rs' j" for t'
  proof (induction rs t' i rule: parseredirs.induct)
    case (1 rs t' i)
    obtain b s where p: "peek t' i ''<>'' = (b, s)" by fastforce
    obtain tok x s1 where g1: "gettoken t' s = (tok, x, s1)" by (metis prod_cases3)
    obtain tok2 f s2 where g2: "gettoken t' s1 = (tok2, f, s2)" by (metis prod_cases3)
    note u = 1(3)
    note eq = 1(2) [unfolded parseredirs.simps [of rs t' i] p g1 g2 prod.case]
    show ?case
    proof (cases b)
      case False
      with eq have "rs' = rs" "j = s" by auto
      moreover from p False have "peek t' i ''<>'' = (False, s)" by simp
      ultimately show ?thesis by (simp add: stop u)
    next
      case True
      with eq have "tok2 = CHR ''a''" and rec: "parseredirs (rs @ redir_of tok f) t' s2 = Ok (rs', j)"
        by (auto split: if_splits)
      moreover from this have "P (rs @ redir_of tok f) s2 rs' j"
        using 1(1) [OF p [symmetric] _ g1 [symmetric] refl g2 [symmetric] refl] True u by simp
      ultimately show ?thesis
        using redir [of i s tok x s1 f s2 rs rs' j] p g1 g2 True u by simp
    qed
  qed
  with assms(1) show ?thesis by blast
qed

lemma exec_loop_run [consumes 1, case_names stop eof step]:
  assumes "exec_loop argv rs t i = Ok (c, j)"
    and stop: "\<And>argv rs i s. peek t i ''|)&;'' = (True, s) \<Longrightarrow> P argv rs i (wrap (EXEC argv) rs) s"
    and eof: "\<And>argv rs i s w s1. peek t i ''|)&;'' = (False, s) \<Longrightarrow> gettoken t s = (CHR 0x00, w, s1) \<Longrightarrow>
      P argv rs i (wrap (EXEC argv) rs) s1"
    and step: "\<And>argv rs i s w s1 rs' s2 c j. peek t i ''|)&;'' = (False, s) \<Longrightarrow>
      gettoken t s = (CHR ''a'', w, s1) \<Longrightarrow> parseredirs rs t s1 = Ok (rs', s2) \<Longrightarrow>
      exec_loop (argv @ [w]) rs' t s2 = Ok (c, j) \<Longrightarrow> P (argv @ [w]) rs' s2 c j \<Longrightarrow> P argv rs i c j"
  shows "P argv rs i c j"
proof -
  have "exec_loop argv rs t' i = Ok (c, j) \<Longrightarrow> t' = t \<Longrightarrow> P argv rs i c j" for t'
  proof (induction argv rs t' i rule: exec_loop.induct)
    case (1 argv rs t' i)
    obtain b s where p: "peek t' i ''|)&;'' = (b, s)" by fastforce
    obtain tok w s1 where g: "gettoken t' s = (tok, w, s1)" by (metis prod_cases3)
    note u = 1(3)
    note eq = 1(2) [unfolded exec_loop.simps [of argv rs t' i] p g prod.case]
    show ?case
    proof (cases b)
      case True
      with eq have "c = wrap (EXEC argv) rs" "j = s" by auto
      moreover from p True have "peek t' i ''|)&;'' = (True, s)" by simp
      ultimately show ?thesis by (simp add: stop u)
    next
      case False
      note b = False
      show ?thesis
      proof (cases "tok = CHR 0x00")
        case True
        with eq b have "c = wrap (EXEC argv) rs" "j = s1" by auto
        with eof [of i s w s1 argv rs] p g b True u show ?thesis by simp
      next
        case False
        with eq b have tok: "tok = CHR ''a''" "\<not> MAXARGS \<le> length argv + 1"
          by (auto split: if_splits)
        with eq b obtain rs' s2 where r: "parseredirs rs t' s1 = Ok (rs', s2)"
          "exec_loop (argv @ [w]) rs' t' s2 = Ok (c, j)"
          by auto
        then have "P (argv @ [w]) rs' s2 c j"
          using 1(1) [OF p [symmetric] _ g [symmetric] refl] tok b u by simp
        with step [of i s w s1 rs rs' s2 argv c j] p g r tok b u show ?thesis by simp
      qed
    qed
  qed
  with assms(1) show ?thesis by blast
qed

lemma back_loop_run [consumes 1, case_names stop amp]:
  assumes "back_loop c t i = (d, j)"
    and stop: "\<And>c i s. peek t i ''&'' = (False, s) \<Longrightarrow> P c i c s"
    and amp: "\<And>c i s tok x s1 d j. peek t i ''&'' = (True, s) \<Longrightarrow> gettoken t s = (tok, x, s1) \<Longrightarrow>
      back_loop (BACK c) t s1 = (d, j) \<Longrightarrow> P (BACK c) s1 d j \<Longrightarrow> P c i d j"
  shows "P c i d j"
proof -
  have "back_loop c t' i = (d, j) \<Longrightarrow> t' = t \<Longrightarrow> P c i d j" for t'
  proof (induction c t' i rule: back_loop.induct)
    case (1 c t' i)
    obtain b s where p: "peek t' i ''&'' = (b, s)" by fastforce
    obtain tok x s1 where g: "gettoken t' s = (tok, x, s1)" by (metis prod_cases3)
    note u = 1(3)
    note eq = 1(2) [unfolded back_loop.simps [of c t' i] p g prod.case]
    show ?case
    proof (cases b)
      case False
      with eq have "d = c" "j = s" by auto
      moreover from p False have "peek t' i ''&'' = (False, s)" by simp
      ultimately show ?thesis by (simp add: stop u)
    next
      case True
      with eq have rec: "back_loop (BACK c) t' s1 = (d, j)" by simp
      then have "P (BACK c) s1 d j"
        using 1(1) [OF p [symmetric] _ g [symmetric] refl] True u by simp
      with amp [of i s tok x s1 c d j] p g rec True u show ?thesis by simp
    qed
  qed
  with assms(1) show ?thesis by blast
qed

lemma parseredirs_ge: "parseredirs rs t i = Ok (rs', j) \<Longrightarrow> i \<le> j"
  by (induction rule: parseredirs_run) (fastforce dest: peek_ge gettoken_ge)+

lemma exec_loop_ge: "exec_loop argv rs t i = Ok (c, j) \<Longrightarrow> i \<le> j"
  by (induction rule: exec_loop_run) (fastforce dest: peek_ge gettoken_ge parseredirs_ge)+

lemma back_loop_ge: "back_loop c t i = (d, j) \<Longrightarrow> i \<le> j"
  by (induction rule: back_loop_run) (fastforce dest: peek_ge gettoken_ge)+

text \<open>The same for the recursive functions: what a successful run has done.\<close>

lemma parse_run:
  assumes line: "\<And>n i c s c' s1 s2. parsepipe n t i = Ok (c, s) \<Longrightarrow> Q n i c s \<Longrightarrow> back_loop c t s = (c', s1) \<Longrightarrow>
      peek t s1 '';'' = (False, s2) \<Longrightarrow> P (Suc n) i c' s2"
    and list: "\<And>n i c s c' s1 s2 tok x s3 d s4. parsepipe n t i = Ok (c, s) \<Longrightarrow> Q n i c s \<Longrightarrow> back_loop c t s = (c', s1) \<Longrightarrow>
      peek t s1 '';'' = (True, s2) \<Longrightarrow> gettoken t s2 = (tok, x, s3) \<Longrightarrow> parseline n t s3 = Ok (d, s4) \<Longrightarrow> P n s3 d s4 \<Longrightarrow>
      P (Suc n) i (LIST c' d) s4"
    and exec: "\<And>n i c s s1. parseexec n t i = Ok (c, s) \<Longrightarrow> R n i c s \<Longrightarrow> peek t s ''|'' = (False, s1) \<Longrightarrow> Q (Suc n) i c s1"
    and pipe: "\<And>n i c s s1 tok x s2 d s3. parseexec n t i = Ok (c, s) \<Longrightarrow> R n i c s \<Longrightarrow> peek t s ''|'' = (True, s1) \<Longrightarrow>
      gettoken t s1 = (tok, x, s2) \<Longrightarrow> parsepipe n t s2 = Ok (d, s3) \<Longrightarrow> Q n s2 d s3 \<Longrightarrow> Q (Suc n) i (PIPE c d) s3"
    and block: "\<And>n i s c j. peek t i ''('' = (True, s) \<Longrightarrow> parseblock n t s = Ok (c, j) \<Longrightarrow> S n s c j \<Longrightarrow> R (Suc n) i c j"
    and words: "\<And>n i s rs s1 c j. peek t i ''('' = (False, s) \<Longrightarrow> parseredirs [] t s = Ok (rs, s1) \<Longrightarrow>
      exec_loop [] rs t s1 = Ok (c, j) \<Longrightarrow> R (Suc n) i c j"
    and paren: "\<And>n i s tok x s1 c s2 s3 tok' x' s4 rs s5. peek t i ''('' = (True, s) \<Longrightarrow> gettoken t s = (tok, x, s1) \<Longrightarrow>
      parseline n t s1 = Ok (c, s2) \<Longrightarrow> P n s1 c s2 \<Longrightarrow> peek t s2 '')'' = (True, s3) \<Longrightarrow> gettoken t s3 = (tok', x', s4) \<Longrightarrow>
      parseredirs [] t s4 = Ok (rs, s5) \<Longrightarrow> S (Suc n) i (wrap c rs) s5"
  shows "(parseline n t i = Ok (c, j) \<longrightarrow> P n i c j) \<and> (parsepipe n t i = Ok (c, j) \<longrightarrow> Q n i c j) \<and>
    (parseexec n t i = Ok (c, j) \<longrightarrow> R n i c j) \<and> (parseblock n t i = Ok (c, j) \<longrightarrow> S n i c j)"
proof (induction n arbitrary: i c j)
  case 0
  then show ?case by simp
next
  case (Suc n)
  note IH = Suc.IH [THEN conjunct1, rule_format] Suc.IH [THEN conjunct2, THEN conjunct1, rule_format]
    Suc.IH [THEN conjunct2, THEN conjunct2, THEN conjunct1, rule_format]
    Suc.IH [THEN conjunct2, THEN conjunct2, THEN conjunct2, rule_format]
  show ?case
  proof (intro conjI impI)
    assume "parseline (Suc n) t i = Ok (c, j)"
    then obtain c1 s where p: "parsepipe n t i = Ok (c1, s)"
      and r: "(case back_loop c1 t s of (c, s1) \<Rightarrow>
         (case peek t s1 '';'' of
            (True, s2) \<Rightarrow> (case gettoken t s2 of (_, _, s3) \<Rightarrow>
               seq (parseline n t s3) (\<lambda>(d, s4). Ok (LIST c d, s4)))
          | (False, s2) \<Rightarrow> Ok (c, s2))) = Ok (c, j)"
      by auto
    obtain c' s1 where b: "back_loop c1 t s = (c', s1)" by fastforce
    obtain y s2 where k: "peek t s1 '';'' = (y, s2)" by fastforce
    obtain tok x s3 where g: "gettoken t s2 = (tok, x, s3)" by (metis prod_cases3)
    note r = r [unfolded b k g prod.case]
    show "P (Suc n) i c j"
    proof (cases y)
      case True
      with r obtain d where d: "parseline n t s3 = Ok (d, j)" "c = LIST c' d" by auto
      from list [OF p IH(2) [OF p] b k [unfolded True [THEN Eq_TrueI]] g d(1) IH(1) [OF d(1)]] d(2) show ?thesis by simp
    next
      case False
      with r have "c = c'" "j = s2" by auto
      with line [OF p IH(2) [OF p] b k [unfolded False [THEN Eq_FalseI]]] show ?thesis by simp
    qed
  next
    assume "parsepipe (Suc n) t i = Ok (c, j)"
    then obtain c1 s where p: "parseexec n t i = Ok (c1, s)"
      and r: "(case peek t s ''|'' of
         (True, s1) \<Rightarrow> (case gettoken t s1 of (_, _, s2) \<Rightarrow>
            seq (parsepipe n t s2) (\<lambda>(d, s3). Ok (PIPE c1 d, s3)))
       | (False, s1) \<Rightarrow> Ok (c1, s1)) = Ok (c, j)"
      by auto
    obtain y s1 where k: "peek t s ''|'' = (y, s1)" by fastforce
    obtain tok x s2 where g: "gettoken t s1 = (tok, x, s2)" by (metis prod_cases3)
    note r = r [unfolded k g prod.case]
    show "Q (Suc n) i c j"
    proof (cases y)
      case True
      with r obtain d where d: "parsepipe n t s2 = Ok (d, j)" "c = PIPE c1 d" by auto
      from pipe [OF p IH(3) [OF p] k [unfolded True [THEN Eq_TrueI]] g d(1) IH(2) [OF d(1)]] d(2) show ?thesis by simp
    next
      case False
      with r have "c = c1" "j = s1" by auto
      with exec [OF p IH(3) [OF p] k [unfolded False [THEN Eq_FalseI]]] show ?thesis by simp
    qed
  next
    assume r: "parseexec (Suc n) t i = Ok (c, j)"
    obtain y s where k: "peek t i ''('' = (y, s)" by fastforce
    show "R (Suc n) i c j"
    proof (cases y)
      case True
      with r k have "parseblock n t s = Ok (c, j)" by simp
      with block [OF k [unfolded True [THEN Eq_TrueI]] this] IH(4) show ?thesis by simp
    next
      case False
      with r k obtain rs s1 where "parseredirs [] t s = Ok (rs, s1)" "exec_loop [] rs t s1 = Ok (c, j)" by auto
      with words [OF k [unfolded False [THEN Eq_FalseI]]] show ?thesis by simp
    qed
  next
    assume r: "parseblock (Suc n) t i = Ok (c, j)"
    obtain y s where k: "peek t i ''('' = (y, s)" by fastforce
    obtain tok x s1 where g: "gettoken t s = (tok, x, s1)" by (metis prod_cases3)
    from r k have y by (cases y) auto
    with r k g obtain c1 s2 where l: "parseline n t s1 = Ok (c1, s2)"
      and r2: "(case peek t s2 '')'' of
              (False, s3) \<Rightarrow> Panic ''syntax - missing )''
            | (True, s3) \<Rightarrow> (case gettoken t s3 of (_, _, s4) \<Rightarrow>
                seq (parseredirs [] t s4) (\<lambda>(rs, s5). Ok (wrap c1 rs, s5)))) = Ok (c, j)"
      by auto
    obtain z s3 where k2: "peek t s2 '')'' = (z, s3)" by fastforce
    obtain tok' x' s4 where g2: "gettoken t s3 = (tok', x', s4)" by (metis prod_cases3)
    note r2 = r2 [unfolded k2 g2 prod.case]
    from r2 have z by (cases z) auto
    with r2 obtain rs where rs: "parseredirs [] t s4 = Ok (rs, j)" "c = wrap c1 rs" by auto
    with paren [OF k [unfolded \<open>y\<close> [THEN Eq_TrueI]] g l IH(1) [OF l] k2 [unfolded \<open>z\<close> [THEN Eq_TrueI]] g2 rs(1)]
    show "S (Suc n) i c j" by simp
  qed
qed

lemma parse_ge:
  "parseline n t i = Ok (c, j) \<Longrightarrow> i \<le> j"
  "parsepipe n t i = Ok (c, j) \<Longrightarrow> i \<le> j"
  "parseexec n t i = Ok (c, j) \<Longrightarrow> i \<le> j"
  "parseblock n t i = Ok (c, j) \<Longrightarrow> i \<le> j"
proof -
  have "(parseline n t i = Ok (c, j) \<longrightarrow> i \<le> j) \<and> (parsepipe n t i = Ok (c, j) \<longrightarrow> i \<le> j) \<and>
      (parseexec n t i = Ok (c, j) \<longrightarrow> i \<le> j) \<and> (parseblock n t i = Ok (c, j) \<longrightarrow> i \<le> j)"
    by (rule parse_run [of t "\<lambda>n i c j. i \<le> j" "\<lambda>n i c j. i \<le> j" "\<lambda>n i c j. i \<le> j" "\<lambda>n i c j. i \<le> j"])
      (meson order_trans peek_ge gettoken_ge back_loop_ge parseredirs_ge exec_loop_ge)+
  then show "parseline n t i = Ok (c, j) \<Longrightarrow> i \<le> j" "parsepipe n t i = Ok (c, j) \<Longrightarrow> i \<le> j"
    "parseexec n t i = Ok (c, j) \<Longrightarrow> i \<le> j" "parseblock n t i = Ok (c, j) \<Longrightarrow> i \<le> j"
    by blast+
qed

section \<open>Enough fuel\<close>

lemma loops_have_fuel:
  "parseredirs rs t i \<noteq> No_fuel" "exec_loop argv rs t i \<noteq> No_fuel"
proof -
  show r: "parseredirs rs t i \<noteq> No_fuel" for rs t i
  proof (induction rs t i rule: parseredirs.induct)
    case (1 rs t i)
    then show ?case
      by (subst parseredirs.simps) (auto split: prod.splits bool.splits)
  qed
  show "exec_loop argv rs t i \<noteq> No_fuel"
  proof (induction argv rs t i rule: exec_loop.induct)
    case (1 argv rs t i)
    then show ?case
      using r by (subst exec_loop.simps) (auto simp: seq_No_fuel split: prod.splits bool.splits)
  qed
qed

lemma token_shrinks:
  assumes "peek t j toks = (True, s)" "set toks \<subseteq> set symbols" "gettoken t s = (tok, x, s1)" "i \<le> j"
  shows "length t - s1 < length t - i"
  using peek_True [OF assms(1)] gettoken_progress [OF assms(1-3)] assms(4) by linarith

lemma parse_has_fuel:
  "(4 * (length t - i) + 4 \<le> n \<longrightarrow> parseline n t i \<noteq> No_fuel) \<and>
   (4 * (length t - i) + 3 \<le> n \<longrightarrow> parsepipe n t i \<noteq> No_fuel) \<and>
   (4 * (length t - i) + 2 \<le> n \<longrightarrow> parseexec n t i \<noteq> No_fuel) \<and>
   (4 * (length t - i) + 1 \<le> n \<longrightarrow> (\<exists>s. peek t i ''('' = (True, s)) \<longrightarrow> parseblock n t i \<noteq> No_fuel)"
proof (induction n arbitrary: i)
  case 0
  then show ?case by simp
next
  case (Suc n)
  note IH = Suc.IH [THEN conjunct1, rule_format] Suc.IH [THEN conjunct2, THEN conjunct1, rule_format]
    Suc.IH [THEN conjunct2, THEN conjunct2, THEN conjunct1, rule_format]
    Suc.IH [THEN conjunct2, THEN conjunct2, THEN conjunct2, rule_format]
  show ?case
  proof (intro conjI impI)
    assume n: "4 * (length t - i) + 4 \<le> Suc n"
    have rest: "parseline n t s3 \<noteq> No_fuel"
      if "parsepipe n t i = Ok (c, s)" "back_loop c t s = (c', s1)" "peek t s1 '';'' = (True, s2)" "gettoken t s2 = (tok, x, s3)"
      for c s c' s1 s2 tok x s3
    proof (rule IH(1))
      have le: "i \<le> s1" using parse_ge(2) [OF that(1)] back_loop_ge [OF that(2)] by simp
      have "length t - s3 < length t - i"
        by (rule token_shrinks [OF that(3) _ that(4) le]) (simp add: symbols_def)
      with n show "4 * (length t - s3) + 4 \<le> n" by linarith
    qed
    show "parseline (Suc n) t i \<noteq> No_fuel"
      using IH(2) [of i] n rest by (auto simp: seq_No_fuel split: prod.splits bool.splits)
  next
    assume n: "4 * (length t - i) + 3 \<le> Suc n"
    have rest: "parsepipe n t s2 \<noteq> No_fuel"
      if "parseexec n t i = Ok (c, s)" "peek t s ''|'' = (True, s1)" "gettoken t s1 = (tok, x, s2)" for c s s1 tok x s2
    proof (rule IH(2))
      have "length t - s2 < length t - i"
        by (rule token_shrinks [OF that(2) _ that(3) parse_ge(3) [OF that(1)]]) (simp add: symbols_def)
      with n show "4 * (length t - s2) + 3 \<le> n" by linarith
    qed
    show "parsepipe (Suc n) t i \<noteq> No_fuel"
      using IH(3) [of i] n rest by (auto simp: seq_No_fuel split: prod.splits bool.splits)
  next
    assume n: "4 * (length t - i) + 2 \<le> Suc n"
    have "parseblock n t s \<noteq> No_fuel" if "peek t i ''('' = (True, s)" for s
    proof (rule IH(4))
      show "4 * (length t - s) + 1 \<le> n" using peek_ge [OF that] n by linarith
      show "\<exists>s'. peek t s ''('' = (True, s')" using that by (auto simp: peek_def Let_def)
    qed
    then show "parseexec (Suc n) t i \<noteq> No_fuel"
      by (auto simp: seq_No_fuel loops_have_fuel split: prod.splits bool.splits)
  next
    assume n: "4 * (length t - i) + 1 \<le> Suc n" and "\<exists>s. peek t i ''('' = (True, s)"
    have "parseline n t s1 \<noteq> No_fuel" if "peek t i ''('' = (True, s)" "gettoken t s = (tok, x, s1)" for s tok x s1
    proof (rule IH(1))
      have "length t - s1 < length t - i"
        by (rule token_shrinks [OF that(1) _ that(2) order_refl]) (simp add: symbols_def)
      with n show "4 * (length t - s1) + 4 \<le> n" by linarith
    qed
    then show "parseblock (Suc n) t i \<noteq> No_fuel"
      by (auto simp: seq_No_fuel loops_have_fuel split: prod.splits bool.splits)
  qed
qed

text \<open>C25: The parser returns on every line: with fuel four times the length plus four it builds a tree or stops with one of
  its messages.\<close>

theorem parsecmd_terminates: "parsecmd (4 * length t + 4) t \<noteq> No_fuel"
proof -
  have "parseline (4 * length t + 4) t 0 \<noteq> No_fuel"
    using parse_has_fuel [of t 0 "4 * length t + 4"] by simp
  then show ?thesis
    by (simp add: parsecmd_def seq_No_fuel split: prod.splits)
qed

section \<open>Words\<close>

definition word_char :: "char \<Rightarrow> bool" where
  "word_char ch \<longleftrightarrow> ch \<noteq> CHR 0x00 \<and> ch \<notin> set whitespace \<and> ch \<notin> set symbols"

text \<open>A segment is a maximal word: it consists of word characters and ends before something else.\<close>

definition seg_ok :: "string \<Rightarrow> segment \<Rightarrow> bool" where
  "seg_ok t seg \<longleftrightarrow> fst seg < snd seg \<and> snd seg \<le> length t \<and>
     (\<forall>i. fst seg \<le> i \<and> i < snd seg \<longrightarrow> word_char (char_at t i)) \<and> \<not> word_char (char_at t (snd seg))"

fun segs :: "cmd \<Rightarrow> segment set" where
  "segs (EXEC argv) = set argv"
| "segs (REDIR c f mode fd) = insert f (segs c)"
| "segs (PIPE c d) = segs c \<union> segs d"
| "segs (LIST c d) = segs c \<union> segs d"
| "segs (BACK c) = segs c"

lemma segs_wrap [simp]: "segs (wrap c rs) = segs c \<union> fst ` set rs"
  by (induction rs arbitrary: c) (auto simp: wrap_def split: prod.splits)

lemma word_end_spec:
  assumes "CHR 0x00 \<notin> set t"
  shows "(\<forall>i. s \<le> i \<and> i < word_end t s \<longrightarrow> i < length t \<and> word_char (char_at t i)) \<and>
    \<not> word_char (char_at t (word_end t s)) \<and> (s \<le> length t \<longrightarrow> word_end t s \<le> length t)"
  using assms
proof (induction t s rule: word_end.induct)
  case (1 t s)
  show ?case
  proof (cases "s < length t \<and> char_at t s \<notin> set whitespace \<and> char_at t s \<notin> set symbols")
    case True
    then have w: "word_char (char_at t s)"
      using 1(2) by (auto simp: word_char_def char_at_def) (metis nth_mem)
    have e: "word_end t s = word_end t (s + 1)"
      using True by (subst word_end.simps) simp
    have "i = s \<or> s + 1 \<le> i" if "s \<le> i" for i using that by auto
    with 1(1) [OF True 1(2)] w True show ?thesis
      unfolding e by (metis Suc_eq_plus1 Suc_leI)
  next
    case False
    then have "word_end t s = s" by (subst word_end.simps) auto
    with False show ?thesis by (auto simp: word_char_def char_at_def split: if_splits)
  qed
qed

lemma skip_white_stop: "skip_white t i < length t \<Longrightarrow> char_at t (skip_white t i) \<notin> set whitespace"
proof (induction t i rule: skip_white.induct)
  case (1 t i)
  show ?case
  proof (cases "i < length t \<and> char_at t i \<in> set whitespace")
    case True
    then have "skip_white t i = skip_white t (i + 1)" by (subst skip_white.simps) simp
    with 1(1) [OF True] 1(2) show ?thesis by simp
  next
    case False
    then have "skip_white t i = i" by (subst skip_white.simps) auto
    with False 1(2) show ?thesis by simp
  qed
qed

lemma gettoken_word:
  assumes "gettoken t i = (CHR ''a'', w, j)" "CHR 0x00 \<notin> set t"
  shows "seg_ok t w"
proof -
  let ?q = "skip_white t i"
  have c: "char_at t ?q \<noteq> CHR 0x00" "char_at t ?q \<notin> set symbols" "w = (?q, word_end t ?q)"
    using assms(1) by (auto simp: gettoken_def Let_def symbols_def split: if_splits)
  then have q: "?q < length t" by (auto simp: char_at_def split: if_splits)
  have "char_at t ?q \<notin> set whitespace"
    using skip_white_stop [OF q] .
  with c q have "?q < word_end t ?q"
    using word_end_ge [of "?q + 1" t] by (subst word_end.simps) auto
  then show ?thesis
    using word_end_spec [OF assms(2), of ?q] q c(3) by (auto simp: seg_ok_def)
qed

lemma parseredirs_segs:
  assumes "parseredirs rs t i = Ok (rs', j)" "CHR 0x00 \<notin> set t" "\<forall>r\<in>set rs. seg_ok t (fst r)"
  shows "\<forall>r\<in>set rs'. seg_ok t (fst r)"
  using assms(1,3)
proof (induction rule: parseredirs_run)
  case (redir rs i s tok x s1 f s2 rs' j)
  have "seg_ok t f" by (rule gettoken_word [OF redir(3) assms(2)])
  then have "\<forall>r\<in>set (redir_of tok f). seg_ok t (fst r)" by (simp add: redir_of_def)
  with redir(5) redir(6) show ?case by (simp add: ball_Un)
qed

lemma exec_loop_segs:
  assumes "exec_loop argv rs t i = Ok (c, j)" "CHR 0x00 \<notin> set t"
    "\<forall>w\<in>set argv. seg_ok t w" "\<forall>r\<in>set rs. seg_ok t (fst r)"
  shows "\<forall>w\<in>segs c. seg_ok t w"
  using assms(1,3,4)
proof (induction rule: exec_loop_run)
  case (step argv rs i s w s1 rs' s2 c j)
  have "seg_ok t w" by (rule gettoken_word [OF step(2) assms(2)])
  with step(6) have "\<forall>v\<in>set (argv @ [w]). seg_ok t v" by simp
  with step(5) parseredirs_segs [OF step(3) assms(2)] step(7) show ?case by blast
qed auto

lemma back_loop_segs: "back_loop c t i = (d, j) \<Longrightarrow> segs d = segs c"
  by (induction rule: back_loop_run) auto

lemma parse_segs:
  assumes "CHR 0x00 \<notin> set t" "parseline n t i = Ok (c, j)"
  shows "\<forall>w\<in>segs c. seg_ok t w"
proof -
  let ?P = "\<lambda>(n :: nat) (i :: nat) c (j :: nat). \<forall>w\<in>segs c. seg_ok t w"
  have "(parseline n t i = Ok (c, j) \<longrightarrow> ?P n i c j) \<and> (parsepipe n t i = Ok (c, j) \<longrightarrow> ?P n i c j) \<and>
      (parseexec n t i = Ok (c, j) \<longrightarrow> ?P n i c j) \<and> (parseblock n t i = Ok (c, j) \<longrightarrow> ?P n i c j)"
  proof (rule parse_run [of t ?P ?P ?P ?P], goal_cases)
    case (6 n i s rs s1 c j)
    then show ?case
      using exec_loop_segs [OF 6(3) assms(1)] parseredirs_segs [OF 6(2) assms(1)] by auto
  next
    case (7 n i s tok x s1 c s2 s3 tok' x' s4 rs s5)
    then show ?case
      using parseredirs_segs [OF 7(7) assms(1)] by auto
  qed (auto dest: back_loop_segs)
  with assms(2) show ?thesis by blast
qed

section \<open>Words as C strings\<close>

lemma nul_words_eq: "nul_words ws m i = (if i \<in> snd ` set ws then CHR 0x00 else m i)"
  by (induction ws m rule: nul_words.induct) (auto simp: fun_upd_def)

lemma nulterminate_eq: "nulterminate c m i = (if i \<in> snd ` segs c then CHR 0x00 else m i)"
  by (induction c arbitrary: m) (auto simp: nul_words_eq)

text \<open>The C string at a position of the buffer.\<close>

definition is_cstring :: "(nat \<Rightarrow> char) \<Rightarrow> nat \<Rightarrow> string \<Rightarrow> bool" where
  "is_cstring m q w \<longleftrightarrow> (\<forall>i<length w. m (q + i) = w ! i \<and> w ! i \<noteq> CHR 0x00) \<and> m (q + length w) = CHR 0x00"

definition segment_text :: "string \<Rightarrow> segment \<Rightarrow> string" where
  "segment_text t seg = take (snd seg - fst seg) (drop (fst seg) t)"

lemma terminated_word:
  assumes "\<forall>w\<in>segs c. seg_ok t w" "w \<in> segs c"
  shows "is_cstring (nulterminate c (char_at t)) (fst w) (segment_text t w)"
proof -
  have w: "fst w < snd w" "snd w \<le> length t" "\<And>i. fst w \<le> i \<Longrightarrow> i < snd w \<Longrightarrow> word_char (char_at t i)"
    using assms by (auto simp: seg_ok_def)
  have len: "length (segment_text t w) = snd w - fst w"
    using w(1,2) by (simp add: segment_text_def)
  have "nulterminate c (char_at t) (fst w + i) = segment_text t w ! i \<and> segment_text t w ! i \<noteq> CHR 0x00"
    if "i < snd w - fst w" for i
  proof -
    have wc: "word_char (char_at t (fst w + i))" using that w(3) by simp
    then have "fst w + i \<notin> snd ` segs c"
      using assms(1) by (auto simp: seg_ok_def)
    moreover have "segment_text t w ! i = char_at t (fst w + i)"
    proof -
      have "fst w + i < length t" using that w(2) by linarith
      with that w(1,2) show ?thesis by (simp add: segment_text_def char_at_def)
    qed
    ultimately show ?thesis
      using wc by (simp add: nulterminate_eq word_char_def)
  qed
  moreover have "nulterminate c (char_at t) (snd w) = CHR 0x00"
    using assms(2) by (simp add: nulterminate_eq)
  ultimately show ?thesis
    using w(1) by (simp add: is_cstring_def len)
qed

lemma parsecmd_Ok:
  "parsecmd n t = Ok (c, m) \<longleftrightarrow>
     (\<exists>s. parseline n t 0 = Ok (c, s) \<and> skip_white t s = length t \<and> m = nulterminate c (char_at t))"
  by (auto simp: parsecmd_def peek_def Let_def)

text \<open>C24: Whatever the line, when the parser accepts it every word of the tree is a nonempty run of word characters of
  the line, and after \<open>nulterminate\<close> its position holds exactly that word as a C string: no terminator cuts another word.\<close>

theorem parsecmd_words:
  assumes "parsecmd n t = Ok (c, m)" "CHR 0x00 \<notin> set t" "w \<in> segs c"
  shows "fst w < snd w \<and> snd w \<le> length t \<and> is_cstring m (fst w) (segment_text t w) \<and>
    (\<forall>ch\<in>set (segment_text t w). word_char ch)"
proof -
  obtain j where p: "parseline n t 0 = Ok (c, j)" and m: "m = nulterminate c (char_at t)"
    using assms(1) by (auto simp: parsecmd_Ok)
  note ok = parse_segs [OF assms(2) p]
  then have w: "seg_ok t w" using assms(3) by blast
  moreover have "\<forall>ch\<in>set (segment_text t w). word_char ch"
  proof
    fix ch assume "ch \<in> set (segment_text t w)"
    then obtain i where i: "i < length (segment_text t w)" "ch = segment_text t w ! i"
      by (metis in_set_conv_nth)
    with w have "i < snd w - fst w" "ch = char_at t (fst w + i)"
      by (auto simp: segment_text_def seg_ok_def char_at_def)
    with w show "word_char ch" by (simp add: seg_ok_def)
  qed
  ultimately show ?thesis
    using terminated_word [OF ok assms(3)] by (simp add: m seg_ok_def)
qed

section \<open>The command language\<close>

text \<open>What a line means, with words as strings, and the grammar the parser reads: a line is a pipeline with any number of
  ampersands behind it and possibly a semicolon and another line.\<close>

datatype scmd =
    S_exec "string list"
  | S_redir scmd string nat nat
  | S_pipe scmd scmd
  | S_list scmd scmd
  | S_back scmd

datatype item = Word string | In string | Out string | Append string

datatype line = Line pipe nat | Seq pipe nat line
     and pipe = Single simple | Pipe simple pipe
     and simple = Words "item list" | Block line "item list"

definition sredir :: "scmd \<Rightarrow> item \<Rightarrow> scmd" where
  "sredir c it =
     (case it of Word w \<Rightarrow> c | In f \<Rightarrow> S_redir c f O_RDONLY 0
      | Out f \<Rightarrow> S_redir c f (O_WRONLY OR O_CREATE) 1 | Append f \<Rightarrow> S_redir c f (O_WRONLY OR O_CREATE) 1)"

fun words_of :: "item list \<Rightarrow> string list" where
  "words_of [] = []"
| "words_of (Word w # its) = w # words_of its"
| "words_of (it # its) = words_of its"

fun line_meaning :: "line \<Rightarrow> scmd" and pipe_meaning :: "pipe \<Rightarrow> scmd" and simple_meaning :: "simple \<Rightarrow> scmd" where
  "line_meaning (Line p n) = (S_back ^^ n) (pipe_meaning p)"
| "line_meaning (Seq p n l) = S_list ((S_back ^^ n) (pipe_meaning p)) (line_meaning l)"
| "pipe_meaning (Single s) = simple_meaning s"
| "pipe_meaning (Pipe s p) = S_pipe (simple_meaning s) (pipe_meaning p)"
| "simple_meaning (Words its) = foldl sredir (S_exec (words_of its)) its"
| "simple_meaning (Block l its) = foldl sredir (line_meaning l) its"

text \<open>Printing: the tokens, each followed by a space.\<close>

fun item_tokens :: "item \<Rightarrow> string list" where
  "item_tokens (Word w) = [w]"
| "item_tokens (In f) = [''<'', f]"
| "item_tokens (Out f) = [''>'', f]"
| "item_tokens (Append f) = [''>>'', f]"

fun line_tokens :: "line \<Rightarrow> string list" and pipe_tokens :: "pipe \<Rightarrow> string list" and simple_tokens :: "simple \<Rightarrow> string list" where
  "line_tokens (Line p n) = pipe_tokens p @ replicate n ''&''"
| "line_tokens (Seq p n l) = pipe_tokens p @ replicate n ''&'' @ '';'' # line_tokens l"
| "pipe_tokens (Single s) = simple_tokens s"
| "pipe_tokens (Pipe s p) = simple_tokens s @ ''|'' # pipe_tokens p"
| "simple_tokens (Words its) = concat (map item_tokens its)"
| "simple_tokens (Block l its) = ''('' # line_tokens l @ '')'' # concat (map item_tokens its)"

definition flat :: "string list \<Rightarrow> string" where
  "flat toks = concat (map (\<lambda>w. w @ '' '') toks)"

definition print_line :: "line \<Rightarrow> string" where
  "print_line l = flat (line_tokens l)"

text \<open>The lines that can be written down: words are words, a command has fewer than \<open>MAXARGS\<close> of them, and only
  redirections follow a block.\<close>

definition is_word :: "string \<Rightarrow> bool" where
  "is_word w \<longleftrightarrow> w \<noteq> [] \<and> (\<forall>ch\<in>set w. word_char ch)"

fun item_ok :: "item \<Rightarrow> bool" where
  "item_ok (Word w) = is_word w"
| "item_ok (In f) = is_word f"
| "item_ok (Out f) = is_word f"
| "item_ok (Append f) = is_word f"

fun line_ok :: "line \<Rightarrow> bool" and pipe_ok :: "pipe \<Rightarrow> bool" and simple_ok :: "simple \<Rightarrow> bool" where
  "line_ok (Line p n) = pipe_ok p"
| "line_ok (Seq p n l) = (pipe_ok p \<and> line_ok l)"
| "pipe_ok (Single s) = simple_ok s"
| "pipe_ok (Pipe s p) = (simple_ok s \<and> pipe_ok p)"
| "simple_ok (Words its) = ((\<forall>it\<in>set its. item_ok it) \<and> length (words_of its) < MAXARGS)"
| "simple_ok (Block l its) = (line_ok l \<and> (\<forall>it\<in>set its. item_ok it) \<and> words_of its = [])"

section \<open>Tokens of a printed line\<close>

definition is_token :: "string \<Rightarrow> bool" where
  "is_token w \<longleftrightarrow> is_word w \<or> w \<in> {''<'', ''>'', ''>>'', ''|'', ''&'', '';'', ''('', '')''}"

definition kind :: "string \<Rightarrow> char" where
  "kind w = (if is_word w then CHR ''a'' else if w = ''>>'' then CHR ''+'' else hd w)"

text \<open>At position \<open>i\<close> the rest of the text consists of the tokens \<open>toks\<close>.\<close>

definition here :: "string \<Rightarrow> nat \<Rightarrow> string list \<Rightarrow> bool" where
  "here t i toks \<longleftrightarrow> i \<le> length t \<and> drop i t = flat toks \<and> (\<forall>w\<in>set toks. is_token w)"

lemma flat_simps [simp]: "flat [] = []" "flat (w # toks) = w @ CHR '' '' # flat toks" "flat (xs @ ys) = flat xs @ flat ys"
  by (simp_all add: flat_def)

lemma is_token_hd:
  "is_token w \<Longrightarrow> w \<noteq> [] \<and> hd w \<noteq> CHR 0x00 \<and> hd w \<notin> set whitespace"
  by (cases w) (auto simp: is_token_def is_word_def word_char_def whitespace_def)

lemma char_at_drop: "drop i t = x # xs \<Longrightarrow> char_at t i = x"
  by (metis char_at_def drop_all hd_drop_conv_nth linorder_not_less list.distinct(1) list.sel(1))

lemma here_Nil: "here t i [] \<Longrightarrow> i = length t"
  by (simp add: here_def)

lemma here_end: "here t i [] \<Longrightarrow> char_at t i = CHR 0x00 \<and> skip_white t i = i"
  using here_Nil [of t i] by (simp add: char_at_def skip_white.simps [of t "length t"])

lemma here_char: "here t i (w # toks) \<Longrightarrow> char_at t i = hd w"
  using is_token_hd [of w] by (cases w) (auto simp: here_def intro: char_at_drop)

lemma here_skip: "here t i toks \<Longrightarrow> skip_white t i = i"
proof (cases toks)
  case Nil
  then show "here t i toks \<Longrightarrow> ?thesis" by (simp add: here_end)
next
  case (Cons w ws)
  assume h: "here t i toks"
  with Cons have "char_at t i \<notin> set whitespace"
    using here_char [of t i w ws] is_token_hd [of w] by (simp add: here_def)
  then show ?thesis by (subst skip_white.simps) simp
qed

lemma peek_here:
  assumes "here t i toks" "CHR 0x00 \<notin> set ss"
  shows "peek t i ss = (toks \<noteq> [] \<and> hd (hd toks) \<in> set ss, i)"
proof (cases toks)
  case Nil
  with assms show ?thesis by (simp add: peek_def here_skip here_end)
next
  case (Cons w ws)
  with assms show ?thesis
    using here_char [of t i w ws] is_token_hd [of w] here_skip [OF assms(1)]
    by (auto simp: peek_def here_def)
qed

lemma word_end_run:
  assumes "\<forall>j<n. s + j < length t \<and> word_char (char_at t (s + j))" "\<not> word_char (char_at t (s + n))"
    "char_at t (s + n) \<noteq> CHR 0x00"
  shows "word_end t s = s + n"
  using assms
proof (induction n arbitrary: s)
  case 0
  then show ?case by (subst word_end.simps) (auto simp: word_char_def)
next
  case (Suc n)
  from Suc.prems(1) have "s + 0 < length t \<and> word_char (char_at t (s + 0))" by blast
  then have "word_end t s = word_end t (s + 1)"
    by (subst word_end.simps) (simp add: word_char_def)
  also have "\<dots> = s + 1 + n"
  proof (rule Suc.IH)
    show "\<forall>j<n. s + 1 + j < length t \<and> word_char (char_at t (s + 1 + j))"
      using Suc.prems(1) by (metis Suc_less_eq add_Suc_right add.assoc plus_1_eq_Suc)
  qed (use Suc.prems in simp_all)
  finally show ?case by simp
qed

lemma here_chars:
  assumes "here t i (w # toks)" "j < length w"
  shows "i + j < length t" "char_at t (i + j) = w ! j"
proof -
  have d: "drop i t = w @ CHR '' '' # flat toks" using assms(1) by (simp add: here_def)
  then have "length w < length (drop i t)" by simp
  then show l: "i + j < length t" using assms(2) by simp
  have "drop i t ! j = w ! j" using assms(2) by (simp add: d nth_append)
  with l show "char_at t (i + j) = w ! j" by (simp add: char_at_def)
qed

lemma here_space:
  assumes "here t i (w # toks)"
  shows "i + length w < length t" "char_at t (i + length w) = CHR '' ''"
proof -
  have d: "drop i t = w @ CHR '' '' # flat toks" using assms by (simp add: here_def)
  then have "length w < length (drop i t)" by simp
  then show l: "i + length w < length t" by simp
  have "drop i t ! length w = CHR '' ''" by (simp add: d nth_append)
  with l show "char_at t (i + length w) = CHR '' ''" by (simp add: char_at_def)
qed

lemma here_next:
  assumes "here t i (w # toks)"
  shows "here t (i + length w + 1) toks"
proof -
  have "drop (i + length w + 1) t = drop (length w + 1) (drop i t)" by (simp add: add.commute)
  also have "\<dots> = flat toks" using assms by (simp add: here_def)
  finally have "drop (i + length w + 1) t = flat toks" .
  moreover have "i + length w + 1 \<le> length t" using here_space [OF assms] by simp
  moreover have "\<forall>w\<in>set toks. is_token w" using assms by (simp add: here_def)
  ultimately show ?thesis unfolding here_def by blast
qed

lemma skip_space:
  assumes "here t i (w # toks)"
  shows "skip_white t (i + length w) = i + length w + 1"
proof -
  have "skip_white t (i + length w) = skip_white t (i + length w + 1)"
    using here_space [OF assms] by (subst skip_white.simps) (simp add: whitespace_def)
  then show ?thesis using here_skip [OF here_next [OF assms]] by simp
qed

lemma gettoken_here:
  assumes "here t i (w # toks)"
  shows "gettoken t i = (kind w, (i, i + length w), i + length w + 1)"
proof (cases "is_word w")
  case True
  then have w: "w \<noteq> []" "\<And>j. j < length w \<Longrightarrow> word_char (w ! j)"
    by (auto simp: is_word_def)
  have "word_end t i = i + length w"
  proof (rule word_end_run)
    show "\<forall>j<length w. i + j < length t \<and> word_char (char_at t (i + j))"
      using here_chars [OF assms] w(2) by simp
  qed (simp_all add: here_space [OF assms] word_char_def whitespace_def)
  moreover have "char_at t i = w ! 0" "word_char (w ! 0)"
    using here_chars(2) [OF assms, of 0] w by auto
  ultimately show ?thesis
    using True here_skip [OF assms] skip_space [OF assms]
    by (auto simp: gettoken_def kind_def word_char_def symbols_def)
next
  case False
  then have "w \<in> {''<'', ''>'', ''>>'', ''|'', ''&'', '';'', ''('', '')''}"
    using assms by (simp add: here_def is_token_def)
  moreover have "char_at t i = w ! 0" "char_at t (i + 1) = (if length w = 1 then CHR '' '' else w ! 1)"
    using calculation here_chars(2) [OF assms, of 0] here_chars(2) [OF assms, of 1] here_space(2) [OF assms] by auto
  ultimately show ?thesis
    using False here_skip [OF assms] skip_space [OF assms]
    by (auto simp: gettoken_def kind_def)
qed

section \<open>Parsing a printed line\<close>

text \<open>A segment that holds a word, and a tree of segments that stands for a tree of strings.\<close>

definition seg_is :: "string \<Rightarrow> segment \<Rightarrow> string \<Rightarrow> bool" where
  "seg_is t seg w \<longleftrightarrow> snd seg = fst seg + length w \<and> segment_text t seg = w"

fun cmd_is :: "string \<Rightarrow> cmd \<Rightarrow> scmd \<Rightarrow> bool" where
  "cmd_is t (EXEC argv) (S_exec ws) = list_all2 (seg_is t) argv ws"
| "cmd_is t (REDIR c f mode fd) (S_redir s w mode' fd') = (cmd_is t c s \<and> seg_is t f w \<and> mode = mode' \<and> fd = fd')"
| "cmd_is t (PIPE c d) (S_pipe s r) = (cmd_is t c s \<and> cmd_is t d r)"
| "cmd_is t (LIST c d) (S_list s r) = (cmd_is t c s \<and> cmd_is t d r)"
| "cmd_is t (BACK c) (S_back s) = cmd_is t c s"
| "cmd_is t c s = False"

lemma seg_is_here: "here t i (w # toks) \<Longrightarrow> seg_is t (i, i + length w) w"
  by (simp add: seg_is_def segment_text_def here_def)

text \<open>What may follow a simple command.\<close>

definition stops :: "string list \<Rightarrow> bool" where
  "stops toks \<longleftrightarrow> toks = [] \<or> hd (hd toks) \<in> set ''|)&;''"

lemma is_word_hd: "is_word w \<Longrightarrow> hd w \<notin> set symbols"
  by (cases w) (auto simp: is_word_def word_char_def)

lemma kind_word: "is_word w \<Longrightarrow> kind w = CHR ''a''"
  by (simp add: kind_def)

lemma symbol_not_word: "\<not> is_word ''<''" "\<not> is_word ''>''" "\<not> is_word ''>>''" "\<not> is_word ''|''" "\<not> is_word ''&''"
  "\<not> is_word '';''" "\<not> is_word ''(''" "\<not> is_word '')''"
  by (auto simp: is_word_def word_char_def symbols_def)

lemma parseredirs_stop:
  assumes "here t i toks" "toks = [] \<or> hd (hd toks) \<notin> set ''<>''"
  shows "parseredirs rs t i = Ok (rs, i)"
  using assms by (subst parseredirs.simps) (auto simp: peek_here)

lemma parseredirs_step:
  assumes "here t i (r # f # toks)" "is_word f" "r \<in> {''<'', ''>'', ''>>''}"
  shows "parseredirs rs t i = parseredirs (rs @ redir_of (kind r) (i + length r + 1, i + length r + 1 + length f)) t
    (i + length r + 1 + length f + 1)"
  using assms gettoken_here [OF assms(1)] gettoken_here [OF here_next [OF assms(1)]]
  by (subst parseredirs.simps) (auto simp: peek_here kind_word)

text \<open>The redirections among the items, as the parser collects them.\<close>

fun redirs_of :: "item list \<Rightarrow> item list" where
  "redirs_of [] = []"
| "redirs_of (Word w # its) = redirs_of its"
| "redirs_of (it # its) = it # redirs_of its"

definition redir_is :: "string \<Rightarrow> redir \<Rightarrow> item \<Rightarrow> bool" where
  "redir_is t r it =
     (case r of (seg, mode, fd) \<Rightarrow>
        (case it of Word w \<Rightarrow> False
         | In f \<Rightarrow> seg_is t seg f \<and> mode = O_RDONLY \<and> fd = 0
         | Out f \<Rightarrow> seg_is t seg f \<and> mode = (O_WRONLY OR O_CREATE) \<and> fd = 1
         | Append f \<Rightarrow> seg_is t seg f \<and> mode = (O_WRONLY OR O_CREATE) \<and> fd = 1))"

lemma foldl_sredir: "foldl sredir s its = foldl sredir s (redirs_of its)"
  by (induction its arbitrary: s rule: redirs_of.induct) (simp_all add: sredir_def)

lemma wrap_simps [simp]: "wrap c [] = c" "wrap c ((f, mode, fd) # rs) = wrap (REDIR c f mode fd) rs"
  by (simp_all add: wrap_def)

lemma cmd_is_wrap:
  assumes "list_all2 (redir_is t) rs its" "cmd_is t c s"
  shows "cmd_is t (wrap c rs) (foldl sredir s its)"
  using assms
proof (induction arbitrary: c s rule: list_all2_induct)
  case (Cons r rs it its)
  obtain seg mode fd where r: "r = (seg, mode, fd)" by (metis prod_cases3)
  have "cmd_is t (REDIR c seg mode fd) (sredir s it)"
    using Cons.hyps(1) Cons.prems by (simp add: r redir_is_def sredir_def split: item.splits)
  then show ?case using Cons.IH by (simp add: r)
qed simp

text \<open>A redirection in front of \<open>parseredirs\<close>.\<close>

lemma redir_item:
  assumes "here t i (item_tokens it @ toks)" "item_ok it" "redirs_of [it] = [it]"
  obtains r j where "\<And>rs. parseredirs rs t i = parseredirs (rs @ [r]) t j" "here t j toks" "redir_is t r it"
proof -
  obtain d f where it: "item_tokens it = [d, f]" "is_word f" "d \<in> {''<'', ''>'', ''>>''}"
    using assms(2,3) by (cases it) auto
  then have h: "here t i (d # f # toks)" using assms(1) by simp
  note n = here_next [OF h] here_next [OF here_next [OF h]]
  let ?seg = "(i + length d + 1, i + length d + 1 + length f)"
  have s: "seg_is t ?seg f" by (rule seg_is_here [OF n(1)])
  obtain r where r: "redir_of (kind d) ?seg = [r]" "redir_is t r it"
    using it assms(2,3) s
    by (cases it) (auto simp: redir_of_def kind_def symbol_not_word redir_is_def)
  show ?thesis
  proof (rule that)
    show "parseredirs rs t i = parseredirs (rs @ [r]) t (i + length d + 1 + length f + 1)" for rs
      unfolding parseredirs_step [OF h it(2,3)] r(1) by (rule refl)
  qed (use n r in simp_all)
qed

lemma redirs_here:
  assumes "here t i (concat (map item_tokens its) @ rest)" "\<forall>it\<in>set its. item_ok it" "words_of its = []"
    "rest = [] \<or> hd (hd rest) \<notin> set ''<>''"
  shows "\<exists>rs2 j. parseredirs rs t i = Ok (rs @ rs2, j) \<and> here t j rest \<and> list_all2 (redir_is t) rs2 (redirs_of its)"
  using assms
proof (induction its arbitrary: i rs)
  case Nil
  then show ?case using parseredirs_stop [of t i rest rs] by auto
next
  case (Cons it its)
  then have it: "redirs_of [it] = [it]" "words_of its = []" "redirs_of (it # its) = it # redirs_of its" "item_ok it"
    by (cases it; simp)+
  have h: "here t i (item_tokens it @ concat (map item_tokens its) @ rest)"
    using Cons.prems(1) by simp
  obtain r j where r: "\<And>rs. parseredirs rs t i = parseredirs (rs @ [r]) t j"
    "here t j (concat (map item_tokens its) @ rest)" "redir_is t r it"
    by (rule redir_item [OF h it(4) it(1)]) (rule that)
  from Cons.IH [OF r(2) _ it(2) Cons.prems(4), of "rs @ [r]"] Cons.prems(2) obtain rs2 j' where
    "parseredirs (rs @ [r]) t j = Ok ((rs @ [r]) @ rs2, j')" "here t j' rest" "list_all2 (redir_is t) rs2 (redirs_of its)"
    by auto
  then show ?case
    using r it(3) by (intro exI [of _ "r # rs2"] exI [of _ j']) simp
qed

lemma exec_here:
  assumes "here t i (concat (map item_tokens its) @ rest)" "\<forall>it\<in>set its. item_ok it" "stops rest"
    "length argv + length (words_of its) < MAXARGS"
  shows "\<exists>argv2 rs2 j. seq (parseredirs rs t i) (\<lambda>(rs', s). exec_loop argv rs' t s) =
      Ok (wrap (EXEC (argv @ argv2)) (rs @ rs2), j) \<and> here t j rest \<and>
    list_all2 (seg_is t) argv2 (words_of its) \<and> list_all2 (redir_is t) rs2 (redirs_of its)"
  using assms
proof (induction its arbitrary: i argv rs)
  case Nil
  then have h: "here t i rest" by simp
  have "rest = [] \<or> hd (hd rest) \<notin> set ''<>''" using Nil.prems(3) by (auto simp: stops_def)
  then have "parseredirs rs t i = Ok (rs, i)" by (rule parseredirs_stop [OF h])
  moreover have "exec_loop argv rs t i = Ok (wrap (EXEC argv) rs, i)"
  proof (cases "rest = []")
    case True
    with h have "gettoken t i = (CHR 0x00, (i, i), i)"
      using here_end [of t i] by (simp add: gettoken_def Let_def)
    with h True show ?thesis by (subst exec_loop.simps) (simp add: peek_here)
  next
    case False
    with h Nil.prems(3) show ?thesis by (subst exec_loop.simps) (simp add: peek_here stops_def)
  qed
  ultimately show ?case using h by (intro exI [of _ "[]"] exI [of _ i]) simp
next
  case (Cons it its)
  show ?case
  proof (cases "redirs_of [it] = [it]")
    case True
    then have it: "words_of (it # its) = words_of its" "redirs_of (it # its) = it # redirs_of its" "item_ok it"
      using Cons.prems(2) by (cases it; simp)+
    have h: "here t i (item_tokens it @ concat (map item_tokens its) @ rest)"
      using Cons.prems(1) by simp
    obtain r j where r: "\<And>rs. parseredirs rs t i = parseredirs (rs @ [r]) t j"
      "here t j (concat (map item_tokens its) @ rest)" "redir_is t r it"
      by (rule redir_item [OF h it(3) True]) (rule that)
    from Cons.IH [OF r(2) _ Cons.prems(3), of argv "rs @ [r]"] Cons.prems(2,4) it obtain argv2 rs2 j' where
      "seq (parseredirs (rs @ [r]) t j) (\<lambda>(rs', s). exec_loop argv rs' t s) =
        Ok (wrap (EXEC (argv @ argv2)) ((rs @ [r]) @ rs2), j')" "here t j' rest"
      "list_all2 (seg_is t) argv2 (words_of its)" "list_all2 (redir_is t) rs2 (redirs_of its)"
      by auto
    then show ?thesis
      using r it by (intro exI [of _ argv2] exI [of _ "r # rs2"] exI [of _ j']) simp
  next
    case False
    then obtain w where it: "it = Word w" by (cases it) auto
    then have h: "here t i (w # concat (map item_tokens its) @ rest)" and w: "is_word w"
      using Cons.prems(1,2) by simp_all
    have sym: "hd w \<notin> set symbols" by (rule is_word_hd [OF w])
    then have "parseredirs rs t i = Ok (rs, i)"
      by (intro parseredirs_stop [OF h]) (auto simp: symbols_def)
    moreover have "exec_loop argv rs t i =
        seq (parseredirs rs t (i + length w + 1)) (\<lambda>(rs', s2). exec_loop (argv @ [(i, i + length w)]) rs' t s2)"
      using h sym w Cons.prems(4) it
      by (subst exec_loop.simps) (auto simp: peek_here gettoken_here symbols_def kind_word)
    moreover from Cons.IH [OF here_next [OF h] _ Cons.prems(3), of "argv @ [(i, i + length w)]" rs] Cons.prems(2,4) it
    obtain argv2 rs2 j' where
      "seq (parseredirs rs t (i + length w + 1)) (\<lambda>(rs', s). exec_loop (argv @ [(i, i + length w)]) rs' t s) =
        Ok (wrap (EXEC ((argv @ [(i, i + length w)]) @ argv2)) (rs @ rs2), j')" "here t j' rest"
      "list_all2 (seg_is t) argv2 (words_of its)" "list_all2 (redir_is t) rs2 (redirs_of its)"
      by auto
    ultimately show ?thesis
      using seg_is_here [OF h] it
      by (intro exI [of _ "(i, i + length w) # argv2"] exI [of _ rs2] exI [of _ j']) simp
  qed
qed

lemma back_loop_here:
  assumes "here t i (replicate n ''&'' @ rest)" "rest = [] \<or> hd (hd rest) \<noteq> CHR ''&''" "cmd_is t c s"
  shows "\<exists>d j. back_loop c t i = (d, j) \<and> here t j rest \<and> cmd_is t d ((S_back ^^ n) s)"
  using assms
proof (induction n arbitrary: c i s)
  case 0
  then show ?case by (subst back_loop.simps) (auto simp: peek_here)
next
  case (Suc n)
  then have h: "here t i (''&'' # replicate n ''&'' @ rest)" by simp
  have "back_loop c t i = back_loop (BACK c) t (i + 2)"
    using gettoken_here [OF h] by (subst back_loop.simps) (simp add: peek_here [OF h])
  moreover have "here t (i + 2) (replicate n ''&'' @ rest)"
    using here_next [OF h] by simp
  moreover have "cmd_is t (BACK c) (S_back s)" using Suc.prems(3) by simp
  ultimately show ?case
    using Suc.IH [of "i + 2" "BACK c" "S_back s"] Suc.prems(2) by (auto simp: funpow_swap1)
qed

lemma simple_head:
  assumes "simple_ok s" "stops rest" "simple_tokens s @ rest \<noteq> []"
  shows "hd (hd (simple_tokens s @ rest)) = CHR ''('' \<longleftrightarrow> (\<exists>l its. s = Block l its)"
proof (cases s)
  case (Words its)
  have "hd (hd (concat (map item_tokens its) @ rest)) \<noteq> CHR ''(''"
  proof (cases its)
    case Nil
    with assms Words show ?thesis by (auto simp: stops_def)
  next
    case (Cons it its')
    with assms(1) Words have "item_ok it" by simp
    with Cons show ?thesis
      using is_word_hd by (cases it) (auto simp: symbols_def)
  qed
  with Words show ?thesis by simp
qed simp

lemma parse_here:
  shows "line_ok l \<Longrightarrow> here t i (line_tokens l @ rest) \<Longrightarrow> rest = [] \<or> hd (hd rest) = CHR '')'' \<Longrightarrow>
      4 * (length t - i) + 4 \<le> n \<Longrightarrow>
      \<exists>c j. parseline n t i = Ok (c, j) \<and> here t j rest \<and> cmd_is t c (line_meaning l)"
    and "pipe_ok p \<Longrightarrow> here t i (pipe_tokens p @ rest) \<Longrightarrow> rest = [] \<or> hd (hd rest) \<in> set '')&;'' \<Longrightarrow>
      4 * (length t - i) + 3 \<le> n \<Longrightarrow>
      \<exists>c j. parsepipe n t i = Ok (c, j) \<and> here t j rest \<and> cmd_is t c (pipe_meaning p)"
    and "simple_ok s \<Longrightarrow> here t i (simple_tokens s @ rest) \<Longrightarrow> stops rest \<Longrightarrow> 4 * (length t - i) + 2 \<le> n \<Longrightarrow>
      \<exists>c j. parseexec n t i = Ok (c, j) \<and> here t j rest \<and> cmd_is t c (simple_meaning s)"
proof (induction l and p and s arbitrary: i rest n and i rest n and i rest n)
  case (Line p k)
  obtain m where m: "n = Suc m" using Line.prems(4) by (cases n) auto
  let ?r = "replicate k ''&'' @ rest"
  have "?r = [] \<or> hd (hd ?r) \<in> set '')&;''" using Line.prems(3) by (cases k) auto
  with Line.IH [of i ?r m] Line.prems m obtain c j where p: "parsepipe m t i = Ok (c, j)" "here t j ?r"
    "cmd_is t c (pipe_meaning p)" by auto
  have "rest = [] \<or> hd (hd rest) \<noteq> CHR ''&''" using Line.prems(3) by auto
  from back_loop_here [OF p(2) this p(3)] obtain d j' where b: "back_loop c t j = (d, j')" "here t j' rest"
    "cmd_is t d ((S_back ^^ k) (pipe_meaning p))" by blast
  have "peek t j' '';'' = (False, j')" using Line.prems(3) by (auto simp: peek_here [OF b(2)])
  with p b m show ?case by simp
next
  case (Seq p k l)
  obtain m where m: "n = Suc m" using Seq.prems(4) by (cases n) auto
  let ?r2 = "'';'' # line_tokens l @ rest"
  let ?r = "replicate k ''&'' @ ?r2"
  have "?r = [] \<or> hd (hd ?r) \<in> set '')&;''" by (cases k) auto
  with Seq.IH(1) [of i ?r m] Seq.prems m obtain c j where p: "parsepipe m t i = Ok (c, j)" "here t j ?r"
    "cmd_is t c (pipe_meaning p)" by auto
  have "?r2 = [] \<or> hd (hd ?r2) \<noteq> CHR ''&''" by simp
  from back_loop_here [OF p(2) this p(3)] obtain d j' where b: "back_loop c t j = (d, j')" "here t j' ?r2"
    "cmd_is t d ((S_back ^^ k) (pipe_meaning p))" by blast
  have k: "peek t j' '';'' = (True, j')" by (simp add: peek_here [OF b(2)])
  have h: "here t (j' + 2) (line_tokens l @ rest)" using here_next [OF b(2)] by simp
  have le: "i \<le> j'" using parse_ge(2) [OF p(1)] back_loop_ge [OF b(1)] by simp
  have tok: "gettoken t j' = (CHR '';'', (j', j' + 1), j' + 2)"
    using gettoken_here [OF b(2)] by (simp add: kind_def symbol_not_word)
  have "length t - (j' + 2) < length t - i"
    by (rule token_shrinks [OF k _ tok le]) (simp add: symbols_def)
  then have "4 * (length t - (j' + 2)) + 4 \<le> m" using Seq.prems(4) m by linarith
  with Seq.IH(2) [OF _ h Seq.prems(3), of m] Seq.prems(1) obtain c2 j2 where
    "parseline m t (j' + 2) = Ok (c2, j2)" "here t j2 rest" "cmd_is t c2 (line_meaning l)" by auto
  with p b k m show ?case by (simp add: gettoken_here [OF b(2)])
next
  case (Single s)
  obtain m where m: "n = Suc m" using Single.prems(4) by (cases n) auto
  have "stops rest" using Single.prems(3) by (auto simp: stops_def)
  with Single.IH [of i rest m] Single.prems m obtain c j where s: "parseexec m t i = Ok (c, j)" "here t j rest"
    "cmd_is t c (simple_meaning s)" by auto
  have "peek t j ''|'' = (False, j)" using Single.prems(3) by (auto simp: peek_here [OF s(2)])
  with s m show ?case by simp
next
  case (Pipe s p)
  obtain m where m: "n = Suc m" using Pipe.prems(4) by (cases n) auto
  let ?r = "''|'' # pipe_tokens p @ rest"
  have "stops ?r" by (simp add: stops_def)
  with Pipe.IH(1) [of i ?r m] Pipe.prems m obtain c j where s: "parseexec m t i = Ok (c, j)" "here t j ?r"
    "cmd_is t c (simple_meaning s)" by auto
  have k: "peek t j ''|'' = (True, j)" by (simp add: peek_here [OF s(2)])
  have h: "here t (j + 2) (pipe_tokens p @ rest)" using here_next [OF s(2)] by simp
  have tok: "gettoken t j = (CHR ''|'', (j, j + 1), j + 2)"
    using gettoken_here [OF s(2)] by (simp add: kind_def symbol_not_word)
  have "length t - (j + 2) < length t - i"
    by (rule token_shrinks [OF k _ tok parse_ge(3) [OF s(1)]]) (simp add: symbols_def)
  then have "4 * (length t - (j + 2)) + 3 \<le> m" using Pipe.prems(4) m by linarith
  with Pipe.IH(2) [OF _ h Pipe.prems(3), of m] Pipe.prems(1) obtain c2 j2 where
    "parsepipe m t (j + 2) = Ok (c2, j2)" "here t j2 rest" "cmd_is t c2 (pipe_meaning p)" by auto
  with s k m show ?case by (simp add: gettoken_here [OF s(2)])
next
  case (Words its)
  obtain m where m: "n = Suc m" using Words.prems(4) by (cases n) auto
  have "peek t i ''('' = (False, i)"
    using simple_head [OF Words.prems(1,3)] by (auto simp: peek_here [OF Words.prems(2)])
  moreover obtain argv2 rs2 j where "seq (parseredirs [] t i) (\<lambda>(rs', s). exec_loop [] rs' t s) =
      Ok (wrap (EXEC argv2) rs2, j)" "here t j rest" "list_all2 (seg_is t) argv2 (words_of its)"
    "list_all2 (redir_is t) rs2 (redirs_of its)"
    using exec_here [of t i its rest "[]" "[]"] Words.prems by auto
  moreover from this have "cmd_is t (wrap (EXEC argv2) rs2) (simple_meaning (Words its))"
    by (simp add: foldl_sredir [of _ its] cmd_is_wrap)
  ultimately show ?case by (simp add: m del: seq_Ok)
next
  case (Block l its)
  obtain m1 where m1: "n = Suc m1" using Block.prems(4) by (cases n) auto
  obtain m where m: "m1 = Suc m" using Block.prems(4) m1 by (cases m1) auto
  have h: "here t i (''('' # line_tokens l @ '')'' # concat (map item_tokens its) @ rest)"
    using Block.prems(2) by simp
  have k: "peek t i ''('' = (True, i)" by (simp add: peek_here [OF h])
  have tok: "gettoken t i = (CHR ''('', (i, i + 1), i + 2)"
    using gettoken_here [OF h] by (simp add: kind_def symbol_not_word)
  have h2: "here t (i + 2) (line_tokens l @ '')'' # concat (map item_tokens its) @ rest)"
    using here_next [OF h] by simp
  have "length t - (i + 2) < length t - i"
    by (rule token_shrinks [OF k _ tok order_refl]) (simp add: symbols_def)
  then have "4 * (length t - (i + 2)) + 4 \<le> m" using Block.prems(4) m m1 by linarith
  with Block.IH [OF _ h2, of m] Block.prems(1) obtain c j where l: "parseline m t (i + 2) = Ok (c, j)"
    "here t j ('')'' # concat (map item_tokens its) @ rest)" "cmd_is t c (line_meaning l)" by auto
  have k2: "peek t j '')'' = (True, j)" by (simp add: peek_here [OF l(2)])
  have h3: "here t (j + 2) (concat (map item_tokens its) @ rest)" using here_next [OF l(2)] by simp
  have "rest = [] \<or> hd (hd rest) \<notin> set ''<>''" using Block.prems(3) by (auto simp: stops_def)
  with redirs_here [OF h3, of "[]"] Block.prems(1) obtain rs2 j2 where r: "parseredirs [] t (j + 2) = Ok (rs2, j2)"
    "here t j2 rest" "list_all2 (redir_is t) rs2 (redirs_of its)" by auto
  then have "cmd_is t (wrap c rs2) (simple_meaning (Block l its))"
    using l(3) by (simp add: foldl_sredir [of _ its] cmd_is_wrap)
  with l r k k2 m m1 show ?case by (simp add: gettoken_here [OF h] gettoken_here [OF l(2)])
qed

section \<open>Printing and parsing\<close>

lemma symbol_tokens: "is_token ''|''" "is_token ''&''" "is_token '';''" "is_token ''(''" "is_token '')''"
  by (simp_all add: is_token_def)

lemma item_tokens_ok: "item_ok it \<Longrightarrow> w \<in> set (item_tokens it) \<Longrightarrow> is_token w"
  by (cases it) (auto simp: is_token_def)

lemma tokens_ok:
  "line_ok l \<Longrightarrow> w \<in> set (line_tokens l) \<Longrightarrow> is_token w"
  "pipe_ok p \<Longrightarrow> w \<in> set (pipe_tokens p) \<Longrightarrow> is_token w"
  "simple_ok s \<Longrightarrow> w \<in> set (simple_tokens s) \<Longrightarrow> is_token w"
proof (induction l and p and s)
  case (Words its)
  then show ?case using item_tokens_ok by auto
next
  case (Block l its)
  from Block.prems(2) consider "w = ''(''" | "w = '')''" | "w \<in> set (line_tokens l)"
    | it where "it \<in> set its" "w \<in> set (item_tokens it)"
    by auto
  then show ?case
  proof cases
    case 4
    then show ?thesis using item_tokens_ok [of it w] Block.prems(1) by simp
  qed (use Block in \<open>simp_all add: symbol_tokens\<close>)
qed (auto simp: symbol_tokens)

lemma token_no_NUL: "is_token w \<Longrightarrow> CHR 0x00 \<notin> set w"
  by (auto simp: is_token_def is_word_def word_char_def)

lemma flat_no_NUL: "\<forall>w\<in>set toks. is_token w \<Longrightarrow> CHR 0x00 \<notin> set (flat toks)"
  by (induction toks) (auto dest: token_no_NUL)

text \<open>The tree as \<open>runcmd\<close> reads it: the words are the C strings at their first positions.\<close>

fun reads :: "(nat \<Rightarrow> char) \<Rightarrow> cmd \<Rightarrow> scmd \<Rightarrow> bool" where
  "reads m (EXEC argv) (S_exec ws) = list_all2 (\<lambda>seg w. is_cstring m (fst seg) w) argv ws"
| "reads m (REDIR c f mode fd) (S_redir s w mode' fd') =
     (reads m c s \<and> is_cstring m (fst f) w \<and> mode = mode' \<and> fd = fd')"
| "reads m (PIPE c d) (S_pipe s r) = (reads m c s \<and> reads m d r)"
| "reads m (LIST c d) (S_list s r) = (reads m c s \<and> reads m d r)"
| "reads m (BACK c) (S_back s) = reads m c s"
| "reads m c s = False"

lemma cmd_is_reads:
  assumes "cmd_is t c s" "\<And>w. w \<in> segs c \<Longrightarrow> is_cstring m (fst w) (segment_text t w)"
  shows "reads m c s"
  using assms
proof (induction t c s rule: cmd_is.induct)
  case (1 t argv ws)
  from 1(1) have "list_all2 (seg_is t) argv ws" by simp
  then have "list_all2 (\<lambda>seg w. is_cstring m (fst seg) w) argv ws"
  proof (rule list.rel_mono_strong)
    fix seg w assume "seg \<in> set argv" "seg_is t seg w"
    with 1(2) [of seg] show "is_cstring m (fst seg) w" by (simp add: seg_is_def)
  qed
  then show ?case by simp
next
  case (2 t c f mode fd s w mode' fd')
  then have "is_cstring m (fst f) w" using 2(3) [of f] by (simp add: seg_is_def)
  with 2 show ?case by simp
qed simp_all

text \<open>C23: Parsing is the inverse of printing: every line of the command language (pipelines, lists, background commands,
  blocks, words and redirections in any order), written with a space behind each token, is read back as its meaning, with
  each argument and file name a C string in the buffer.\<close>

theorem print_parse_roundtrip:
  assumes "line_ok l"
  shows "\<exists>c m. parsecmd (4 * length (print_line l) + 4) (print_line l) = Ok (c, m) \<and> reads m c (line_meaning l)"
proof -
  let ?t = "print_line l"
  have tok: "\<forall>w\<in>set (line_tokens l). is_token w" using tokens_ok(1) [OF assms] by blast
  then have nul: "CHR 0x00 \<notin> set ?t" unfolding print_line_def by (rule flat_no_NUL)
  have h: "here ?t 0 (line_tokens l @ [])" using tok by (simp add: here_def print_line_def)
  obtain c j where p: "parseline (4 * length ?t + 4) ?t 0 = Ok (c, j)" "here ?t j []" "cmd_is ?t c (line_meaning l)"
    using parse_here(1) [OF assms h, of "4 * length ?t + 4"] by auto
  have "parsecmd (4 * length ?t + 4) ?t = Ok (c, nulterminate c (char_at ?t))"
    using p here_end [OF p(2)] here_Nil [OF p(2)] by (auto simp: parsecmd_Ok)
  moreover have "reads (nulterminate c (char_at ?t)) c (line_meaning l)"
    using cmd_is_reads [OF p(3)] terminated_word [OF parse_segs [OF nul p(1)]] by blast
  ultimately show ?thesis by blast
qed

text \<open>\<open>( ls -l < a ; cat ) > b | wc & ; echo x\<close>.\<close>

definition sample_line :: line where
  "sample_line = Seq (Pipe (Block (Seq (Single (Words [Word ''ls'', Word ''-l'', In ''a''])) 0
     (Line (Single (Words [Word ''cat''])) 0)) [Out ''b'']) (Single (Words [Word ''wc'']))) 1
     (Line (Single (Words [Word ''echo'', Word ''x''])) 0)"

lemma sample_line_ok: "line_ok sample_line"
  by (simp add: sample_line_def is_word_def word_char_def whitespace_def symbols_def MAXARGS_def)

theorem print_parse_roundtrip_witness:
  "\<exists>c m. parsecmd (4 * length (print_line sample_line) + 4) (print_line sample_line) = Ok (c, m) \<and>
     reads m c (S_list (S_back (S_pipe (S_redir (S_list (S_redir (S_exec [''ls'', ''-l'']) ''a'' O_RDONLY 0)
       (S_exec [''cat''])) ''b'' (O_WRONLY OR O_CREATE) 1) (S_exec [''wc'']))) (S_exec [''echo'', ''x'']))"
  using print_parse_roundtrip [OF sample_line_ok] by (simp add: sample_line_def sredir_def)

theorem parsecmd_words_witness:
  "\<exists>c m w. parsecmd 40 ''ls>f'' = Ok (c, m) \<and> w \<in> segs c \<and> is_cstring m (fst w) ''ls''"
proof -
  have "parseline 40 ''ls>f'' 0 = Ok (REDIR (EXEC [(0, 2)]) (3, 4) (O_WRONLY OR O_CREATE) 1, 4)"
    "skip_white ''ls>f'' 4 = 4"
    by code_simp+
  then have "parsecmd 40 ''ls>f'' = Ok (REDIR (EXEC [(0, 2)]) (3, 4) (O_WRONLY OR O_CREATE) 1,
      nulterminate (REDIR (EXEC [(0, 2)]) (3, 4) (O_WRONLY OR O_CREATE) 1) (char_at ''ls>f''))"
    by (simp add: parsecmd_Ok)
  from parsecmd_words [OF this, of "(0, 2)"] this show ?thesis
    by (intro exI [of _ "REDIR (EXEC [(0, 2)]) (3, 4) (O_WRONLY OR O_CREATE) 1"] exI) (auto simp: segment_text_def)
qed

end
