(* ===== verification/Console.thy ===== *)
theory Console
  imports Prelude
begin

text \<open>
  The console (\<open>kernel/console.c\<close>): the input buffer that \<open>consoleintr\<close> edits line by line and \<open>consoleread\<close> empties,
  the number printing of \<open>cprintf\<close>, and the screen.  The buffer is a ring of 128 bytes with three counters of 32 bits that
  wrap around; the theory relates it to two lists, the finished input and the line being edited.
\<close>

section \<open>Screen\<close>

type_synonym u16 = "16 word"

definition BACKSPACE :: int where "BACKSPACE = 256"

text \<open>The CGA memory, the cursor kept in the registers of the display, and what went to the serial port.\<close>

record screen =
  crt :: "u16 list"
  cursor :: nat
  uart :: "int list"

text \<open>An access outside the memory of the display, or a negative size for \<open>memset\<close>, is \<open>None\<close>.\<close>

definition scroll :: "u16 list \<Rightarrow> nat \<Rightarrow> (u16 list \<times> nat) option" where
  "scroll m pos =
     (if pos div 80 \<ge> 24 then
        if length m < 24 * 80 \<or> pos - 80 > 24 * 80 then None
        else let m1 = take (23 * 80) (drop 80 m) @ drop (23 * 80) m; pos1 = pos - 80
             in Some (take pos1 m1 @ replicate (24 * 80 - pos1) 0 @ drop (24 * 80) m1, pos1)
      else Some (m, pos))"

definition cgaputc :: "int \<Rightarrow> screen \<Rightarrow> screen option" where
  "cgaputc c s =
     (let pos = cursor s in do {
        (m1, pos1) \<leftarrow>
          (if c = 10 then Some (crt s, pos + (80 - pos mod 80))
           else if c = BACKSPACE then Some (crt s, if pos > 0 then pos - 1 else pos)
           else do {m \<leftarrow> arr_set (crt s) pos ((word_of_int c AND 0xff) OR 0x0700); Some (m, pos + 1)});
        (m2, pos2) \<leftarrow> scroll m1 pos1;
        m3 \<leftarrow> arr_set m2 pos2 (0x20 OR 0x0700);
        Some (s\<lparr>crt := m3, cursor := pos2 mod 2 ^ 16\<rparr>) })"

definition consputc :: "int \<Rightarrow> screen \<Rightarrow> screen option" where
  "consputc c s =
     cgaputc c (s\<lparr>uart := uart s @ (if c = BACKSPACE then [8, 32, 8] else [c])\<rparr>)"

fun consputs :: "int list \<Rightarrow> screen \<Rightarrow> screen option" where
  "consputs [] s = Some s"
| "consputs (c # cs) s = do {s1 \<leftarrow> consputc c s; consputs cs s1}"

text \<open>The screen as it is between two characters: 25 rows of memory, the cursor in the first 24.\<close>

definition screen_ok :: "screen \<Rightarrow> bool" where
  "screen_ok s \<longleftrightarrow> length (crt s) = 25 * 80 \<and> cursor s < 24 * 80"

definition char_cell :: "int \<Rightarrow> u16" where
  "char_cell c = (word_of_int c AND 0xff) OR 0x0700"

definition blank :: u16 where
  "blank = 0x20 OR 0x0700"

lemma row_24: "24 \<le> (pos :: nat) div 80 \<longleftrightarrow> 24 * 80 \<le> pos"
  by (simp add: less_eq_div_iff_mult_less_eq)

lemma scroll_none: "pos < 24 * 80 \<Longrightarrow> scroll m pos = Some (m, pos)"
  by (simp add: scroll_def row_24)

lemma scroll_last:
  "length m = 25 * 80 \<Longrightarrow>
     scroll m (24 * 80) = Some (take (23 * 80) (drop 80 m) @ replicate 80 0 @ drop (24 * 80) m, 23 * 80)"
  by (simp add: scroll_def)

definition scrolled :: "u16 list \<Rightarrow> u16 list" where
  "scrolled m = (take (23 * 80) (drop 80 m) @ replicate 80 0 @ drop (24 * 80) m)[23 * 80 := blank]"

lemma length_scrolled: "length m = 25 * 80 \<Longrightarrow> length (scrolled m) = 25 * 80"
  by (simp add: scrolled_def)

lemma nth_scrolled: "length m = 25 * 80 \<Longrightarrow> i < 23 * 80 \<Longrightarrow> scrolled m ! i = m ! (i + 80)"
  by (simp add: scrolled_def nth_append add.commute)

text \<open>The three kinds of characters, below the last row and on it.\<close>

lemma cgaputc_char:
  assumes "screen_ok s" "c \<noteq> 10" "c \<noteq> BACKSPACE"
  shows "cgaputc c s = Some (if cursor s + 1 < 24 * 80
     then s\<lparr>crt := (crt s)[cursor s := char_cell c, cursor s + 1 := blank], cursor := cursor s + 1\<rparr>
     else s\<lparr>crt := scrolled ((crt s)[cursor s := char_cell c]), cursor := 23 * 80\<rparr>)"
proof (cases "cursor s + 1 < 24 * 80")
  case True
  with assms scroll_none [OF True] show ?thesis
    by (simp add: cgaputc_def screen_ok_def char_cell_def blank_def Let_def)
next
  case False
  with assms have e: "cursor s + 1 = 24 * 80" by (simp add: screen_ok_def)
  with assms scroll_last [of "(crt s)[cursor s := char_cell c]"] show ?thesis
    by (simp add: cgaputc_def screen_ok_def char_cell_def blank_def Let_def scrolled_def)
qed

lemma cgaputc_newline:
  assumes "screen_ok s"
  shows "cgaputc 10 s = Some (let p = cursor s + (80 - cursor s mod 80) in
     if p < 24 * 80 then s\<lparr>crt := (crt s)[p := blank], cursor := p\<rparr> else s\<lparr>crt := scrolled (crt s), cursor := 23 * 80\<rparr>)"
proof -
  let ?p = "cursor s + (80 - cursor s mod 80)"
  have "cursor s div 80 < 24" using assms by (simp add: screen_ok_def less_mult_imp_div_less)
  moreover have "cursor s = 80 * (cursor s div 80) + cursor s mod 80" "cursor s mod 80 < 80" by simp_all
  ultimately have le: "?p \<le> 24 * 80" by linarith
  show ?thesis
  proof (cases "?p < 24 * 80")
    case True
    with assms scroll_none [OF True] show ?thesis
      by (simp add: cgaputc_def screen_ok_def blank_def Let_def)
  next
    case False
    with le have "?p = 24 * 80" by simp
    with assms scroll_last [of "crt s"] show ?thesis
      by (simp add: cgaputc_def screen_ok_def blank_def Let_def scrolled_def)
  qed
qed

lemma cgaputc_backspace:
  "screen_ok s \<Longrightarrow> cgaputc BACKSPACE s = Some (s\<lparr>crt := (crt s)[cursor s - 1 := blank], cursor := cursor s - 1\<rparr>)"
  using scroll_none [of "cursor s - 1" "crt s"]
  by (cases "cursor s") (simp_all add: cgaputc_def screen_ok_def blank_def Let_def BACKSPACE_def)

lemma consputc_ok: "screen_ok s \<Longrightarrow> \<exists>s'. consputc c s = Some s' \<and> screen_ok s'"
proof -
  assume s: "screen_ok s"
  let ?s = "s\<lparr>uart := uart s @ (if c = BACKSPACE then [8, 32, 8] else [c])\<rparr>"
  have ok: "screen_ok ?s" using s by (simp add: screen_ok_def)
  consider "c = 10" | "c = BACKSPACE" | "c \<noteq> 10" "c \<noteq> BACKSPACE" by blast
  then show ?thesis
  proof cases
    case 1
    with cgaputc_newline [OF ok] s show ?thesis
      by (auto simp: consputc_def screen_ok_def Let_def length_scrolled BACKSPACE_def)
  next
    case 2
    with cgaputc_backspace [OF ok] s show ?thesis
      by (auto simp: consputc_def screen_ok_def)
  next
    case 3
    with cgaputc_char [OF ok 3] s show ?thesis
      by (auto simp: consputc_def screen_ok_def length_scrolled)
  qed
qed

text \<open>The cells before the cursor show a text.\<close>

definition shows_text :: "screen \<Rightarrow> int list \<Rightarrow> bool" where
  "shows_text s cs \<longleftrightarrow> length cs \<le> cursor s \<and>
     (\<forall>i<length cs. crt s ! (cursor s - length cs + i) = char_cell (cs ! i))"

lemma consputc_shows:
  assumes "screen_ok s" "shows_text s cs" "c \<noteq> 10" "c \<noteq> BACKSPACE" "length cs < 23 * 80"
  shows "\<exists>s'. consputc c s = Some s' \<and> screen_ok s' \<and> shows_text s' (cs @ [c]) \<and> uart s' = uart s @ [c] \<and>
    crt s' ! cursor s' = blank"
proof -
  let ?s = "s\<lparr>uart := uart s @ [c]\<rparr>"
  have ok: "screen_ok ?s" and len: "length (crt s) = 25 * 80" "cursor s < 24 * 80" "length cs \<le> cursor s"
    using assms(1,2) by (simp_all add: screen_ok_def shows_text_def)
  have cells: "crt s ! (cursor s - length cs + i) = char_cell (cs ! i)" if "i < length cs" for i
    using assms(2) that unfolding shows_text_def by blast
  have put: "consputc c s = cgaputc c ?s" using assms(4) by (simp add: consputc_def)
  show ?thesis
  proof (cases "cursor s + 1 < 24 * 80")
    case True
    let ?t = "?s\<lparr>crt := (crt s)[cursor s := char_cell c, cursor s + 1 := blank], cursor := cursor s + 1\<rparr>"
    have "shows_text ?t (cs @ [c])"
      using len cells by (auto simp: shows_text_def nth_append less_Suc_eq)
    moreover have "screen_ok ?t" "crt ?t ! cursor ?t = blank" using len True by (simp_all add: screen_ok_def)
    ultimately show ?thesis
      using cgaputc_char [OF ok assms(3,4)] True put by simp
  next
    case False
    with len have e: "cursor s = 24 * 80 - 1" by simp
    let ?m = "(crt s)[cursor s := char_cell c]"
    let ?t = "?s\<lparr>crt := scrolled ?m, cursor := 23 * 80\<rparr>"
    have lm: "length ?m = 25 * 80" using len by simp
    have cell: "?m ! (24 * 80 - length (cs @ [c]) + i) = char_cell ((cs @ [c]) ! i)" if "i < length (cs @ [c])" for i
      using cells [of i] that len assms(5) e by (auto simp: nth_append less_Suc_eq)
    have "shows_text ?t (cs @ [c])"
      unfolding shows_text_def
    proof (intro conjI allI impI)
      fix i assume i: "i < length (cs @ [c])"
      then have "scrolled ?m ! (23 * 80 - length (cs @ [c]) + i) = ?m ! (23 * 80 - length (cs @ [c]) + i + 80)"
        using assms(5) by (intro nth_scrolled [OF lm]) simp
      also have "23 * 80 - length (cs @ [c]) + i + 80 = 24 * 80 - length (cs @ [c]) + i"
        using assms(5) by simp
      finally show "crt ?t ! (cursor ?t - length (cs @ [c]) + i) = char_cell ((cs @ [c]) ! i)"
        using cell [OF i] by simp
    qed (use assms(5) in simp)
    moreover have "screen_ok ?t" using length_scrolled [OF lm] by (simp add: screen_ok_def)
    moreover have "crt ?t ! cursor ?t = blank" using lm by (simp add: scrolled_def)
    ultimately show ?thesis
      using cgaputc_char [OF ok assms(3,4)] False put by simp
  qed
qed

lemma consputs_shows:
  assumes "screen_ok s" "shows_text s ds" "\<forall>c\<in>set cs. c \<noteq> 10 \<and> c \<noteq> BACKSPACE" "length ds + length cs \<le> 23 * 80"
  shows "\<exists>s'. consputs cs s = Some s' \<and> screen_ok s' \<and> shows_text s' (ds @ cs) \<and> uart s' = uart s @ cs"
  using assms
proof (induction cs arbitrary: s ds)
  case (Cons c cs)
  then obtain s1 where s1: "consputc c s = Some s1" "screen_ok s1" "shows_text s1 (ds @ [c])" "uart s1 = uart s @ [c]"
    using consputc_shows [of s ds c] by auto
  from Cons.IH [OF s1(2,3)] Cons.prems(3,4) obtain s' where "consputs cs s1 = Some s'" "screen_ok s'"
    "shows_text s' ((ds @ [c]) @ cs)" "uart s' = uart s1 @ cs"
    by auto
  with s1 show ?case by simp
qed simp

text \<open>C28: Whatever is written, the console writes inside the memory of the display and leaves the cursor in the first 24
  rows; a text of up to 1840 characters without line feeds ends up, in order and across scrolling, in the cells before
  the cursor, and on the serial line.\<close>

theorem console_text_on_screen:
  assumes "screen_ok s"
  shows "(\<exists>s'. consputc c s = Some s' \<and> screen_ok s') \<and>
    ((\<forall>c\<in>set cs. c \<noteq> 10 \<and> c \<noteq> BACKSPACE) \<and> length cs \<le> 1840 \<longrightarrow>
      (\<exists>s'. consputs cs s = Some s' \<and> screen_ok s' \<and> uart s' = uart s @ cs \<and> length cs \<le> cursor s' \<and>
        (\<forall>i<length cs. crt s' ! (cursor s' - length cs + i) = char_cell (cs ! i))))"
  using consputc_ok [OF assms] consputs_shows [OF assms, of "[]" cs]
  by (auto simp: shows_text_def)

section \<open>Numbers\<close>

text \<open>\<open>printint\<close> is called with the bases 10 and 16.  The loop collects the digits from the lowest one.\<close>

datatype radix = R10 | R16

primrec radix_val :: "radix \<Rightarrow> u32" where
  "radix_val R10 = 10"
| "radix_val R16 = 16"

definition digits :: "int list" where
  "digits = [48, 49, 50, 51, 52, 53, 54, 55, 56, 57, 97, 98, 99, 100, 101, 102]"

lemma radix_div_less: "x div radix_val b \<noteq> 0 \<Longrightarrow> unat (x div radix_val b) < unat x"
  by (cases b) (auto simp: unat_div word_unat_eq_iff)

function printint_loop :: "radix \<Rightarrow> u32 \<Rightarrow> int list \<Rightarrow> int list" where
  "printint_loop b x buf =
     (let buf = buf @ [digits ! unat (x mod radix_val b)]; x = x div radix_val b
      in if x \<noteq> 0 then printint_loop b x buf else buf)"
  by auto
termination by (relation "measure (\<lambda>(b, x, buf). unat x)") (auto dest: radix_div_less)

declare printint_loop.simps [simp del]

text \<open>The characters \<open>printint\<close> writes, in order; \<open>buf\<close> has 16 places.\<close>

definition printint :: "u32 \<Rightarrow> radix \<Rightarrow> bool \<Rightarrow> int list" where
  "printint xx b sign =
     (let neg = (sign \<and> xx <s 0);
          x = (if neg then - xx else xx);
          buf = printint_loop b x [];
          buf = (if neg then buf @ [45] else buf)
      in rev buf)"

text \<open>The value of a numeral, by Horner's rule.\<close>

definition digit_val :: "int \<Rightarrow> nat" where
  "digit_val c = (if c < 58 then nat (c - 48) else nat (c - 87))"

definition numeral_val :: "nat \<Rightarrow> int list \<Rightarrow> nat" where
  "numeral_val b cs = foldl (\<lambda>a c. a * b + digit_val c) 0 cs"

definition is_numeral :: "nat \<Rightarrow> int list \<Rightarrow> bool" where
  "is_numeral b cs \<longleftrightarrow> cs \<noteq> [] \<and> (\<forall>c\<in>set cs. c \<in> set (take b digits)) \<and> (hd cs = 48 \<longrightarrow> cs = [48])"

lemma radix_val: "unat (radix_val b) \<in> {10, 16}" "2 \<le> unat (radix_val b)" "unat (radix_val b) \<le> 16"
  by (cases b; simp)+

lemma digit_nth: "i < 16 \<Longrightarrow> digit_val (digits ! i) = i \<and> (digits ! i = 48 \<longleftrightarrow> i = 0)"
proof -
  have "\<forall>i\<in>set [0..<16]. digit_val (digits ! i) = i \<and> (digits ! i = 48 \<longleftrightarrow> i = 0)"
    by (simp add: upt_rec digits_def digit_val_def)
  then show "i < 16 \<Longrightarrow> ?thesis" by simp
qed

lemma digit_in: "i < b \<Longrightarrow> b \<le> 16 \<Longrightarrow> digits ! i \<in> set (take b digits)"
  by (auto simp: in_set_conv_nth digits_def intro!: exI [of _ i])

lemma printint_loop_spec:
  "\<exists>ds. printint_loop b x buf = buf @ ds \<and> is_numeral (unat (radix_val b)) (rev ds) \<and>
     numeral_val (unat (radix_val b)) (rev ds) = unat x \<and> (\<forall>k. unat x < unat (radix_val b) ^ k \<longrightarrow> 0 < k \<longrightarrow> length ds \<le> k)"
proof (induction b x buf rule: printint_loop.induct)
  case (1 b x buf)
  let ?b = "unat (radix_val b)" and ?d = "digits ! unat (x mod radix_val b)"
  have m: "unat (x mod radix_val b) = unat x mod ?b" by (rule unat_mod)
  have d: "digit_val ?d = unat x mod ?b" "?d \<in> set (take ?b digits)" "?d = 48 \<longleftrightarrow> unat x mod ?b = 0"
    unfolding m using radix_val [of b] digit_nth [of "unat x mod ?b"] digit_in [of "unat x mod ?b" ?b] by auto
  show ?case
  proof (cases "x div radix_val b = 0")
    case True
    then have "unat x div ?b = 0" by (metis unat_div unat_0)
    then have "unat x < ?b" using radix_val(2) [of b] by (simp add: div_eq_0_iff)
    then have x: "unat x mod ?b = unat x" by simp
    show ?thesis
      by (rule exI [of _ "[?d]"], subst printint_loop.simps)
        (use True d x in \<open>auto simp: is_numeral_def numeral_val_def\<close>)
  next
    case False
    from 1 [OF refl refl False] obtain ds where ds: "printint_loop b (x div radix_val b) (buf @ [?d]) = (buf @ [?d]) @ ds"
      "is_numeral ?b (rev ds)" "numeral_val ?b (rev ds) = unat x div ?b"
      "\<And>k. unat x div ?b < ?b ^ k \<Longrightarrow> 0 < k \<Longrightarrow> length ds \<le> k"
      by (auto simp: unat_div)
    have nz: "unat x div ?b \<noteq> 0" using False by (simp add: word_unat_eq_iff unat_div)
    have "printint_loop b x buf = buf @ (?d # ds)"
      by (subst printint_loop.simps) (simp add: False ds(1))
    moreover have "numeral_val ?b (rev (?d # ds)) = unat x"
      using ds(3) d(1) by (simp add: numeral_val_def)
    moreover have "is_numeral ?b (rev (?d # ds))"
    proof -
      have "rev ds \<noteq> [48]"
      proof
        assume "rev ds = [48]"
        with ds(3) have "unat x div ?b = 0" by (simp add: numeral_val_def digit_val_def)
        with nz show False by simp
      qed
      then show ?thesis using ds(2) d(2) by (auto simp: is_numeral_def hd_append)
    qed
    moreover have "length (?d # ds) \<le> k" if lt: "unat x < ?b ^ k" and pos: "0 < k" for k
    proof -
      obtain k' where k: "k = Suc k'" using pos by (cases k) auto
      have "unat x div ?b < ?b ^ k'"
        using lt k radix_val(2) [of b] by (simp add: div_less_iff_less_mult mult.commute)
      moreover from this nz have "0 < k'" by (cases k') auto
      ultimately show ?thesis using ds(4) [of k'] k by simp
    qed
    ultimately show ?thesis by blast
  qed
qed

text \<open>\<open>printint\<close> writes the shortest numeral of the number, in decimal with a minus sign for the negative ones, the
  smallest integer included, and in hexadecimal without a sign; its buffer of 16 characters is never overrun.\<close>

theorem printint_correct:
  "(\<exists>ds. printint x R10 True = (if sint x < 0 then 45 # ds else ds) \<and> is_numeral 10 ds \<and>
      int (numeral_val 10 ds) = \<bar>sint x\<bar>) \<and>
   is_numeral 16 (printint x R16 False) \<and> numeral_val 16 (printint x R16 False) = unat x \<and>
   length (printint x R10 True) \<le> 11 \<and> length (printint x R16 False) \<le> 10"
proof -
  have neg: "x <s 0 \<longleftrightarrow> sint x < 0" by (simp add: word_sless_alt)
  let ?y = "if x <s 0 then - x else x"
  have y: "int (unat ?y) = \<bar>sint x\<bar>"
  proof (cases "sint x < 0")
    case True
    have "uint (- x) = (- (sint x mod 2 ^ 32)) mod 2 ^ 32"
      using uint_sint [of x] by (simp add: uint_word_ariths take_bit_eq_mod)
    also have "\<dots> = (- sint x) mod 2 ^ 32" by (rule mod_minus_eq)
    also have "\<dots> = - sint x"
      using True sint_ge [of x] by (intro mod_pos_pos_trivial) simp_all
    finally show ?thesis
      using True by (simp add: neg)
  next
    case False
    have "uint x = sint x mod 2 ^ 32"
      using uint_sint [of x] by (simp add: take_bit_eq_mod)
    also have "\<dots> = sint x"
      using False sint_lt [of x] by (intro mod_pos_pos_trivial) simp_all
    finally show ?thesis
      using False by (simp add: neg)
  qed
  have u: "unat z < 10 ^ 10" "unat z < 16 ^ 10" for z :: u32
  proof -
    have "unat z < 2 ^ LENGTH(32)" by (rule unsigned_less)
    then show "unat z < 10 ^ 10" "unat z < 16 ^ 10" by simp_all
  qed
  obtain ds where ds: "printint_loop R10 ?y [] = ds" "is_numeral 10 (rev ds)" "numeral_val 10 (rev ds) = unat ?y" "length ds \<le> 10"
    using printint_loop_spec [of R10 ?y "[]"] u by auto
  obtain hs where hs: "printint_loop R16 x [] = hs" "is_numeral 16 (rev hs)" "numeral_val 16 (rev hs) = unat x" "length hs \<le> 10"
    using printint_loop_spec [of R16 x "[]"] u by auto
  show ?thesis
    using ds hs y neg by (auto simp: printint_def Let_def)
qed

section \<open>Input\<close>

definition INPUT_BUF :: nat where "INPUT_BUF = 128"

text \<open>The ring, its counters, the screen for the echo, and how often sleeping readers were woken up.\<close>

record console =
  ibuf :: "u8 list"
  ir :: u32
  iw :: u32
  ie :: u32
  scr :: screen
  wakeups :: nat

abbreviation ring :: "u32 \<Rightarrow> nat" where
  "ring i \<equiv> unat (i mod of_nat INPUT_BUF)"

text \<open>The loop that kills a line.\<close>

function kill_line :: "console \<Rightarrow> console option" where
  "kill_line s =
     (if ie s \<noteq> iw s \<and> ibuf s ! ring (ie s - 1) \<noteq> 10 then do {
        sc \<leftarrow> consputc BACKSPACE (scr s);
        kill_line (s\<lparr>ie := ie s - 1, scr := sc\<rparr>) }
      else Some s)"
  by auto
termination
proof (relation "measure (\<lambda>s. unat (ie s - iw s))", goal_cases)
  case (2 s sc)
  then have "ie s - iw s \<noteq> 0" by simp
  then have "unat (ie s - iw s - 1) < unat (ie s - iw s)"
    by (metis unat_minus_one measure_unat)
  then show ?case by (simp add: algebra_simps)
qed simp

declare kill_line.simps [simp del]

text \<open>One character of \<open>consoleintr\<close>; \<open>dump\<close> is what \<open>procdump\<close> prints.  Control-P is 16, control-U 21, control-H 8,
  control-D 4.\<close>

definition intr_char :: "int list \<Rightarrow> int \<Rightarrow> console \<Rightarrow> console option" where
  "intr_char dump c s =
     (if c = 16 then do {sc \<leftarrow> consputs dump (scr s); Some (s\<lparr>scr := sc\<rparr>)}
      else if c = 21 then kill_line s
      else if c = 8 \<or> c = 127 then
        (if ie s \<noteq> iw s then do {
           sc \<leftarrow> consputc BACKSPACE (scr s);
           Some (s\<lparr>ie := ie s - 1, scr := sc\<rparr>) }
         else Some s)
      else if c \<noteq> 0 \<and> ie s - ir s < of_nat INPUT_BUF then do {
        let c = (if c = 13 then 10 else c);
        let s = s\<lparr>ibuf := (ibuf s)[ring (ie s) := word_of_int c], ie := ie s + 1\<rparr>;
        sc \<leftarrow> consputc c (scr s);
        let s = s\<lparr>scr := sc\<rparr>;
        Some (if c = 10 \<or> c = 4 \<or> ie s = ir s + of_nat INPUT_BUF
              then s\<lparr>iw := ie s, wakeups := wakeups s + 1\<rparr> else s) }
      else Some s)"

text \<open>\<open>consoleintr\<close> takes characters until \<open>getc\<close> returns a negative number.\<close>

fun consoleintr :: "int list \<Rightarrow> int list \<Rightarrow> console \<Rightarrow> console option" where
  "consoleintr dump [] s = Some s"
| "consoleintr dump (c # cs) s =
     (if c \<ge> 0 then do {s1 \<leftarrow> intr_char dump c s; consoleintr dump cs s1} else Some s)"

text \<open>\<open>consoleread\<close> ends with its bytes, is killed, or has gone to sleep with some bytes copied and \<open>n\<close> still to read; it
  is entered again there.\<close>

datatype rd = Data "u8 list" | Killed | Asleep "u8 list" int

function consoleread_loop :: "bool \<Rightarrow> int \<Rightarrow> int \<Rightarrow> u8 list \<Rightarrow> console \<Rightarrow> rd \<times> console" where
  "consoleread_loop killed target n dst s =
     (if n > 0 then
        if ir s = iw s then (if killed then (Killed, s) else (Asleep dst n, s))
        else
          let c = ibuf s ! ring (ir s); s1 = s\<lparr>ir := ir s + 1\<rparr> in
          if c = 4 then (Data dst, if n < target then s1\<lparr>ir := ir s1 - 1\<rparr> else s1)
          else if c = 10 then (Data (dst @ [c]), s1)
          else consoleread_loop killed target (n - 1) (dst @ [c]) s1
      else (Data dst, s))"
  by auto
termination by (relation "measure (\<lambda>(killed, target, n, dst, s). nat n)") auto

declare consoleread_loop.simps [simp del]

definition consoleread :: "bool \<Rightarrow> int \<Rightarrow> console \<Rightarrow> rd \<times> console" where
  "consoleread killed n s = consoleread_loop killed n n [] s"

section \<open>The two lists\<close>

definition cell :: "console \<Rightarrow> nat \<Rightarrow> u8" where
  "cell s i = ibuf s ! ring (ir s + of_nat i)"

definition done_len :: "console \<Rightarrow> nat" where "done_len s = unat (iw s - ir s)"
definition all_len :: "console \<Rightarrow> nat" where "all_len s = unat (ie s - ir s)"

definition finished :: "console \<Rightarrow> u8 list" where
  "finished s = map (cell s) [0..<done_len s]"

definition edited :: "console \<Rightarrow> u8 list" where
  "edited s = map (cell s) [done_len s..<all_len s]"

definition console_inv :: "console \<Rightarrow> bool" where
  "console_inv s \<longleftrightarrow> length (ibuf s) = 128 \<and> done_len s \<le> all_len s \<and> all_len s \<le> 128 \<and> screen_ok (scr s) \<and>
     10 \<notin> set (edited s)"

lemma ring_eq: "ring (r + of_nat i) = (unat r + i) mod 128"
proof -
  have "unat (r + of_nat i) mod 128 = ((unat r + i) mod 2 ^ 32) mod 128"
    by (simp add: unat_word_ariths unat_of_nat mod_add_right_eq)
  also have "\<dots> = (unat r + i) mod 128"
    by (rule mod_mod_cancel) simp
  finally show ?thesis by (simp add: INPUT_BUF_def unat_mod)
qed

lemma ring_lt: "ring i < 128"
  using ring_eq [of i 0] by simp

lemma mod_128_le:
  fixes a i j :: nat
  assumes "i \<le> j" "j < 128" "(a + i) mod 128 = (a + j) mod 128"
  shows "i = j"
proof -
  have "128 dvd (a + j) - (a + i)"
    using assms(1,3) by (intro mod_eq_dvd_iff_nat [THEN iffD1]) simp_all
  then have "128 dvd j - i" by simp
  with assms(2) have "j - i = 0" by (metis diff_le_self dvd_imp_le le_less_trans not_gr0 not_le)
  with assms(1) show ?thesis by simp
qed

lemma ring_inj: "i < 128 \<Longrightarrow> j < 128 \<Longrightarrow> ring (r + of_nat i) = ring (r + of_nat j) \<Longrightarrow> i = j"
  unfolding ring_eq using mod_128_le [of i j] mod_128_le [of j i] by (metis nat_le_linear)

lemma ends: "iw s = ir s + of_nat (done_len s)" "ie s = ir s + of_nat (all_len s)"
  by (simp_all add: done_len_def all_len_def)

lemma unat_add_of_nat: "k < 2 ^ 32 \<Longrightarrow> unat (r + of_nat k - r :: u32) = k"
  by (simp add: unat_of_nat)

lemma editing_iff: "console_inv s \<Longrightarrow> ie s = iw s \<longleftrightarrow> edited s = []"
proof -
  assume s: "console_inv s"
  have "ie s = iw s \<longleftrightarrow> ie s - ir s = iw s - ir s" by simp
  also have "\<dots> \<longleftrightarrow> all_len s = done_len s" by (simp add: done_len_def all_len_def word_unat_eq_iff)
  also have "\<dots> \<longleftrightarrow> edited s = []" using s by (auto simp: edited_def console_inv_def)
  finally show ?thesis .
qed

lemma lengths: "console_inv s \<Longrightarrow> length (finished s) = done_len s \<and> length (finished s) + length (edited s) = all_len s"
  by (simp add: finished_def edited_def console_inv_def)

text \<open>The lists depend only on the cells and the two lengths.\<close>

lemma lists_eqI:
  assumes "\<And>i. i < all_len s' \<Longrightarrow> cell s' i = cell s i" "done_len s' = done_len s" "done_len s \<le> all_len s'"
  shows "finished s' = finished s" "edited s' = map (cell s) [done_len s..<all_len s']"
  using assms by (auto simp: finished_def edited_def)

text \<open>One character less.\<close>

lemma rub_out:
  assumes "console_inv s" "ie s \<noteq> iw s" "screen_ok sc"
  defines "s' \<equiv> s\<lparr>ie := ie s - 1, scr := sc\<rparr>"
  shows "console_inv s'" "finished s' = finished s" "edited s' = butlast (edited s)" "ibuf s ! ring (ie s - 1) = last (edited s)"
proof -
  have lt: "done_len s < all_len s"
    using assms(1,2) editing_iff [OF assms(1)] by (auto simp: edited_def console_inv_def not_less)
  have "ie s - 1 = ir s + of_nat (all_len s - 1)"
    using lt ends(2) [of s] by (simp add: of_nat_diff)
  then have ie': "ie s' = ir s' + of_nat (all_len s - 1)" by (simp add: s'_def)
  have "all_len s \<le> 128" using assms(1) by (simp add: console_inv_def)
  then have "all_len s - 1 < 2 ^ 32" by simp
  then have al: "all_len s' = all_len s - 1"
    unfolding all_len_def [of s'] ie' by (rule unat_add_of_nat)
  have dl: "done_len s' = done_len s" and c: "cell s' = cell s"
    by (simp_all add: s'_def done_len_def cell_def fun_eq_iff)
  from lists_eqI [of s' s] show fin: "finished s' = finished s"
    using c dl al lt by (simp add: finished_def)
  have "[done_len s..<all_len s] = [done_len s..<all_len s - 1] @ [all_len s - 1]"
    using lt by (metis Suc_diff_1 Suc_leI le_Suc_ex less_Suc_eq_le less_imp_Suc_add upt_Suc_append zero_less_Suc diff_Suc_1 le_add1)
  then have e: "edited s = edited s' @ [cell s (all_len s - 1)]"
    by (simp add: edited_def c dl al)
  then show ed: "edited s' = butlast (edited s)" by simp
  show "ibuf s ! ring (ie s - 1) = last (edited s)"
    using e \<open>ie s - 1 = _\<close> by (simp add: cell_def)
  have "10 \<notin> set (edited s')" using assms(1) e by (auto simp: console_inv_def)
  moreover have "done_len s \<le> all_len s - 1" "all_len s - 1 \<le> 128"
    using lt assms(1) unfolding console_inv_def by linarith+
  ultimately show "console_inv s'"
    using assms(1,3) al dl by (simp add: console_inv_def s'_def)
qed

lemma kill_line_spec:
  assumes "console_inv s"
  shows "\<exists>s'. kill_line s = Some s' \<and> console_inv s' \<and> finished s' = finished s \<and> edited s' = [] \<and> wakeups s' = wakeups s"
  using assms
proof (induction "length (edited s)" arbitrary: s)
  case 0
  then have "ie s = iw s" using editing_iff by simp
  then show ?case using 0 by (subst kill_line.simps) simp
next
  case (Suc n)
  then have ne: "ie s \<noteq> iw s" "edited s \<noteq> []" using editing_iff [OF Suc.prems] by auto
  obtain sc where sc: "consputc BACKSPACE (scr s) = Some sc" "screen_ok sc"
    using consputc_ok Suc.prems by (auto simp: console_inv_def)
  note r = rub_out [OF Suc.prems ne(1) sc(2)]
  have "last (edited s) \<noteq> 10"
    using Suc.prems ne(2) by (metis console_inv_def last_in_set)
  then have "kill_line s = kill_line (s\<lparr>ie := ie s - 1, scr := sc\<rparr>)"
    using ne(1) r(4) sc(1) by (subst kill_line.simps) simp
  with Suc.hyps(1) [OF _ r(1)] Suc.hyps(2) r(2,3) show ?case by simp
qed

text \<open>One character more.\<close>

lemma type_in:
  fixes b :: u8
  assumes "console_inv s" "all_len s < 128" "screen_ok sc"
  defines "s' \<equiv> s\<lparr>ibuf := (ibuf s)[ring (ie s) := b], ie := ie s + 1, scr := sc\<rparr>"
  shows "all_len s' = all_len s + 1" "done_len s' = done_len s" "finished s' = finished s" "edited s' = edited s @ [b]"
    "length (ibuf s') = 128" "screen_ok (scr s')" "done_len s' \<le> all_len s"
proof -
  have e: "ie s' = ir s' + of_nat (all_len s + 1)"
    using ends(2) [of s] by (simp add: s'_def)
  have "all_len s + 1 < 2 ^ 32" using assms(2) by simp
  then show al: "all_len s' = all_len s + 1"
    unfolding all_len_def [of s'] e by (rule unat_add_of_nat)
  show dl: "done_len s' = done_len s" by (simp add: s'_def done_len_def)
  have len: "length (ibuf s) = 128" and le: "done_len s \<le> all_len s"
    using assms(1) by (simp_all add: console_inv_def)
  have old: "cell s' i = cell s i" if "i < all_len s" for i
  proof -
    have "ring (ir s + of_nat i) \<noteq> ring (ie s)"
      using ring_inj [of i "all_len s" "ir s"] that assms(2) ends(2) [of s] by auto
    then show ?thesis by (simp add: s'_def cell_def)
  qed
  have new: "cell s' (all_len s) = b"
    using ring_lt [of "ie s"] len ends(2) [of s] by (simp add: s'_def cell_def)
  show "finished s' = finished s"
    using old le by (auto simp: finished_def dl)
  have "[done_len s..<all_len s + 1] = [done_len s..<all_len s] @ [all_len s]"
    using le by simp
  then show "edited s' = edited s @ [b]"
    using old new by (auto simp: edited_def dl al)
  show "length (ibuf s') = 128" "screen_ok (scr s')" "done_len s' \<le> all_len s"
    using len assms(3) le dl by (simp_all add: s'_def)
qed

text \<open>Finishing the line.\<close>

lemma finish_line:
  assumes "length (ibuf s) = 128" "done_len s \<le> all_len s" "all_len s \<le> 128" "screen_ok (scr s)"
  defines "s' \<equiv> s\<lparr>iw := ie s, wakeups := wakeups s + 1\<rparr>"
  shows "console_inv s'" "finished s' = finished s @ edited s" "edited s' = []"
proof -
  have l: "done_len s' = all_len s" "all_len s' = all_len s" and c: "cell s' = cell s"
    by (simp_all add: s'_def done_len_def all_len_def cell_def fun_eq_iff)
  show "finished s' = finished s @ edited s"
  proof -
    have "[0..<all_len s] = [0..<done_len s] @ [done_len s..<all_len s]"
      using assms(2) by (metis le_add_diff_inverse upt_add_eq_append zero_le)
    then show ?thesis by (simp add: finished_def edited_def l c)
  qed
  show "edited s' = []" by (simp add: edited_def l)
  then show "console_inv s'" using assms l by (simp add: console_inv_def s'_def)
qed

section \<open>The editor\<close>

text \<open>What a character does to the finished input \<open>L\<close> and the line \<open>E\<close>: control-U drops the line, backspace its last
  character, return and control-D finish it, and so does the character that fills the 128 places.\<close>

definition edit_char :: "int \<Rightarrow> u8 list \<times> u8 list \<Rightarrow> u8 list \<times> u8 list" where
  "edit_char c =
     (\<lambda>(L, E).
        if c = 16 then (L, E)
        else if c = 21 then (L, [])
        else if c = 8 \<or> c = 127 then (L, butlast E)
        else if c \<noteq> 0 \<and> length L + length E < 128 then
          (let b = if c = 13 then 10 else word_of_int c; E' = E @ [b] in
           if b = 10 \<or> b = 4 \<or> length L + length E' = 128 then (L @ E', []) else (L, E'))
        else (L, E))"

text \<open>What a reader takes from the finished input.\<close>

fun read_line :: "bool \<Rightarrow> int \<Rightarrow> int \<Rightarrow> u8 list \<Rightarrow> u8 list \<Rightarrow> rd \<times> u8 list" where
  "read_line killed target n dst [] =
     (if n > 0 then (if killed then Killed else Asleep dst n, []) else (Data dst, []))"
| "read_line killed target n dst (c # L) =
     (if n > 0 then
        if c = 4 then (Data dst, if n < target then c # L else L)
        else if c = 10 then (Data (dst @ [c]), L)
        else read_line killed target (n - 1) (dst @ [c]) L
      else (Data dst, c # L))"

lemma consputs_ok: "screen_ok s \<Longrightarrow> \<exists>s'. consputs cs s = Some s' \<and> screen_ok s'"
proof (induction cs arbitrary: s)
  case (Cons c cs)
  then show ?case using consputc_ok [of s c] by auto
qed simp

lemma byte_eq_iff: "0 \<le> c \<Longrightarrow> c < 256 \<Longrightarrow> (word_of_int c :: u8) = 10 \<longleftrightarrow> c = 10"
  "0 \<le> c \<Longrightarrow> c < 256 \<Longrightarrow> (word_of_int c :: u8) = 4 \<longleftrightarrow> c = 4"
  by (simp_all add: word_uint_eq_iff uint_word_of_int take_bit_eq_mod)

lemma intr_char_edits:
  assumes "console_inv s" "0 \<le> c" "c < 256"
  shows "\<exists>s'. intr_char dump c s = Some s' \<and> console_inv s' \<and>
    (finished s', edited s') = edit_char c (finished s, edited s) \<and>
    (wakeups s' \<noteq> wakeups s \<longleftrightarrow> finished s' \<noteq> finished s)"
proof -
  have sc: "screen_ok (scr s)" using assms(1) by (simp add: console_inv_def)
  consider "c = 16" | "c = 21" | "c = 8 \<or> c = 127" | "c = 0" | "c \<notin> {0, 8, 16, 21, 127}" by auto
  then show ?thesis
  proof cases
    case 1
    obtain sc' where "consputs dump (scr s) = Some sc'" "screen_ok sc'" using consputs_ok [OF sc] by blast
    moreover have "finished (s\<lparr>scr := sc'\<rparr>) = finished s" "edited (s\<lparr>scr := sc'\<rparr>) = edited s"
      "done_len (s\<lparr>scr := sc'\<rparr>) = done_len s" "all_len (s\<lparr>scr := sc'\<rparr>) = all_len s"
      by (simp_all add: finished_def edited_def cell_def done_len_def all_len_def)
    ultimately show ?thesis
      using 1 assms(1) by (simp add: intr_char_def edit_char_def console_inv_def)
  next
    case 2
    then show ?thesis using kill_line_spec [OF assms(1)] by (auto simp: intr_char_def edit_char_def)
  next
    case 3
    show ?thesis
    proof (cases "ie s = iw s")
      case True
      then show ?thesis
        using 3 assms(1) editing_iff [OF assms(1)] by (auto simp: intr_char_def edit_char_def)
    next
      case False
      obtain sc' where sc': "consputc BACKSPACE (scr s) = Some sc'" "screen_ok sc'" using consputc_ok [OF sc] by blast
      from rub_out [OF assms(1) False sc'(2)] sc'(1) 3 False show ?thesis
        by (auto simp: intr_char_def edit_char_def)
    qed
  next
    case 4
    then show ?thesis using assms(1) by (auto simp: intr_char_def edit_char_def)
  next
    case 5
    have lt: "ie s - ir s < of_nat INPUT_BUF \<longleftrightarrow> all_len s < 128"
      by (simp add: word_less_nat_alt all_len_def INPUT_BUF_def)
    show ?thesis
    proof (cases "all_len s < 128")
      case False
      then show ?thesis
        using 5 lt lengths [OF assms(1)] assms(1) by (auto simp: intr_char_def edit_char_def)
    next
      case True
      define d where "d = (if c = 13 then 10 else c)"
      define b where "b = (word_of_int d :: u8)"
      have d: "d = 10 \<longleftrightarrow> b = 10" "d = 4 \<longleftrightarrow> b = 4" "b = (if c = 13 then 10 else word_of_int c)"
        using assms(2,3) byte_eq_iff [of c] by (auto simp: d_def b_def)
      obtain sc' where sc': "consputc d (scr s) = Some sc'" "screen_ok sc'" using consputc_ok [OF sc] by blast
      define s1 where "s1 = s\<lparr>ibuf := (ibuf s)[ring (ie s) := b], ie := ie s + 1, scr := sc'\<rparr>"
      note t = type_in [OF assms(1) True sc'(2), of b, folded s1_def]
      have full: "ie s1 = ir s1 + of_nat INPUT_BUF \<longleftrightarrow> all_len s1 = 128"
      proof
        assume "ie s1 = ir s1 + of_nat INPUT_BUF"
        then show "all_len s1 = 128"
          using unat_add_of_nat [of 128 "ir s1"] by (simp add: all_len_def INPUT_BUF_def)
      next
        assume "all_len s1 = 128"
        with ends(2) [of s1] show "ie s1 = ir s1 + of_nat INPUT_BUF" by (simp only: INPUT_BUF_def)
      qed
      have run: "intr_char dump c s = Some (if d = 10 \<or> d = 4 \<or> all_len s1 = 128
          then s1\<lparr>iw := ie s1, wakeups := wakeups s1 + 1\<rparr> else s1)"
        using 5 True lt sc'(1) unfolding full [symmetric]
        by (simp add: intr_char_def Let_def d_def [symmetric] b_def [symmetric] s1_def)
      have len: "length (finished s) + length (edited s @ [b]) = all_len s1"
        using lengths [OF assms(1)] t(1) by simp
      have ec: "edit_char c (finished s, edited s) = (if b = 10 \<or> b = 4 \<or> all_len s1 = 128
          then (finished s @ edited s @ [b], []) else (finished s, edited s @ [b]))"
        using 5 True lengths [OF assms(1)] by (simp add: edit_char_def Let_def d(3) [symmetric] len [symmetric])
      have w: "wakeups s1 = wakeups s" by (simp add: s1_def)
      show ?thesis
      proof (cases "b = 10 \<or> b = 4 \<or> all_len s1 = 128")
        case fin: True
        have "done_len s1 \<le> all_len s1" "all_len s1 \<le> 128" using t(1,7) True by simp_all
        from finish_line [OF t(5) this t(6)] fin show ?thesis
          by (simp add: run ec d t(3,4) w)
      next
        case False
        then have "10 \<notin> set (edited s1)" using assms(1) t(4) by (auto simp: console_inv_def)
        then have "console_inv s1" using t True by (simp add: console_inv_def)
        with False show ?thesis by (simp add: run ec d t(3,4) w)
      qed
    qed
  qed
qed

text \<open>A reader takes one character.\<close>

lemma take_one:
  assumes "console_inv s" "ir s \<noteq> iw s"
  defines "s' \<equiv> s\<lparr>ir := ir s + 1\<rparr>"
  shows "finished s = ibuf s ! ring (ir s) # finished s'" "edited s' = edited s" "console_inv s'"
proof -
  have k: "0 < done_len s" using assms(2) by (simp add: done_len_def unat_gt_0)
  have le: "done_len s \<le> all_len s" "all_len s \<le> 128" using assms(1) by (simp_all add: console_inv_def)
  have iw': "iw s' = ir s' + of_nat (done_len s - 1)"
    using ends(1) [of s] k by (simp add: s'_def of_nat_diff)
  have ie': "ie s' = ir s' + of_nat (all_len s - 1)"
    using ends(2) [of s] k le by (simp add: s'_def of_nat_diff)
  have b: "done_len s - 1 < 2 ^ 32" "all_len s - 1 < 2 ^ 32"
    using le by simp_all
  have dl: "done_len s' = done_len s - 1"
    unfolding done_len_def [of s'] iw' using b(1) by (rule unat_add_of_nat)
  have al: "all_len s' = all_len s - 1"
    unfolding all_len_def [of s'] ie' using b(2) by (rule unat_add_of_nat)
  have c: "cell s' i = cell s (Suc i)" for i
    by (simp add: cell_def s'_def algebra_simps)
  have "[0..<done_len s] = 0 # map Suc [0..<done_len s - 1]"
    using k by (cases "done_len s") (simp_all add: upt_conv_Cons map_Suc_upt del: upt_Suc)
  then have "finished s = cell s 0 # finished s'"
    by (simp add: finished_def dl c o_def)
  then show "finished s = ibuf s ! ring (ir s) # finished s'" by (simp add: cell_def)
  have "[done_len s..<all_len s] = map Suc [done_len s - 1..<all_len s - 1]"
    using k le by (cases "done_len s"; cases "all_len s") (simp_all add: map_Suc_upt)
  then show e: "edited s' = edited s" by (simp add: edited_def dl al c o_def)
  have "done_len s - 1 \<le> all_len s - 1" "all_len s - 1 \<le> 128" using le by simp_all
  then show "console_inv s'"
    using assms(1) e dl al by (simp add: console_inv_def s'_def)
qed

lemma nothing_finished: "ir s = iw s \<longleftrightarrow> finished s = []"
  by (auto simp: finished_def done_len_def unat_eq_0)

lemma consoleread_reads:
  assumes "console_inv s" "consoleread_loop killed target n dst s = (r, s')"
  shows "(r, finished s') = read_line killed target n dst (finished s) \<and> edited s' = edited s \<and> console_inv s'"
  using assms
proof (induction killed target n dst s rule: consoleread_loop.induct)
  case (1 killed target n dst s)
  show ?case
  proof (cases "n > 0")
    case False
    then show ?thesis using 1(2,3) by (cases "finished s") (auto simp: consoleread_loop.simps)
  next
    case n: True
    show ?thesis
    proof (cases "ir s = iw s")
      case True
      with nothing_finished [of s] have f: "finished s = []" by simp
      from True n 1(3) have "r = (if killed then Killed else Asleep dst n)" "s' = s"
        by (subst (asm) consoleread_loop.simps, simp split: if_splits)+
      with f n 1(2) show ?thesis by simp
    next
      case False
      let ?c = "ibuf s ! ring (ir s)" and ?s1 = "s\<lparr>ir := ir s + 1\<rparr>"
      note t = take_one [OF 1(2) False]
      have "consoleread_loop killed target n dst s = (if ?c = 4 then (Data dst, if n < target then s else ?s1)
          else if ?c = 10 then (Data (dst @ [?c]), ?s1)
          else consoleread_loop killed target (n - 1) (dst @ [?c]) ?s1)"
        using n False by (subst consoleread_loop.simps) (simp add: Let_def)
      note eq = this [unfolded 1(3)]
      consider "?c = 4" | "?c = 10" | "?c \<noteq> 4" "?c \<noteq> 10" by blast
      then show ?thesis
      proof cases
        case 1
        with eq t n \<open>console_inv s\<close> show ?thesis by auto
      next
        case 2
        with eq t n show ?thesis by auto
      next
        case 3
        with eq have "consoleread_loop killed target (n - 1) (dst @ [?c]) ?s1 = (r, s')" by simp
        from 1(1) [OF n False refl refl 3 t(3) this] t 3 n show ?thesis by simp
      qed
    qed
  qed
qed

text \<open>C26: The ring of 128 bytes with its three wrapping counters implements a line editor.  Every character that arrives
  edits the pair of finished input and current line as \<open>edit_char\<close> says, readers are woken exactly when input is finished,
  and a reader takes bytes from the finished input as \<open>read_line\<close> says; the invariant of the ring is kept.\<close>

theorem console_refines_editor:
  assumes "console_inv s" "0 \<le> c" "c < 256"
  shows "(\<exists>s'. intr_char dump c s = Some s' \<and> console_inv s' \<and>
      (finished s', edited s') = edit_char c (finished s, edited s) \<and>
      (wakeups s' \<noteq> wakeups s \<longleftrightarrow> finished s' \<noteq> finished s)) \<and>
    (\<exists>r s'. consoleread killed n s = (r, s') \<and> console_inv s' \<and> edited s' = edited s \<and>
      (r, finished s') = read_line killed n n [] (finished s))"
proof -
  obtain r s' where "consoleread_loop killed n n [] s = (r, s')" by fastforce
  from this consoleread_reads [OF assms(1) this] intr_char_edits [OF assms, of dump] show ?thesis
    by (simp add: consoleread_def)
qed

section \<open>A line typed is a line read\<close>

definition plain :: "int \<Rightarrow> bool" where
  "plain c \<longleftrightarrow> 0 \<le> c \<and> c < 256 \<and> c \<notin> {0, 4, 8, 10, 13, 16, 21, 127}"

lemma consoleintr_edits:
  assumes "console_inv s" "\<forall>c\<in>set cs. 0 \<le> c \<and> c < 256"
  shows "\<exists>s'. consoleintr dump cs s = Some s' \<and> console_inv s' \<and>
    (finished s', edited s') = fold edit_char cs (finished s, edited s)"
  using assms
proof (induction cs arbitrary: s)
  case (Cons c cs)
  then obtain s1 where s1: "intr_char dump c s = Some s1" "console_inv s1"
    "(finished s1, edited s1) = edit_char c (finished s, edited s)"
    using intr_char_edits [OF Cons.prems(1), of c dump] by auto
  from Cons.IH [OF s1(2)] Cons.prems(2) obtain s' where "consoleintr dump cs s1 = Some s'" "console_inv s'"
    "(finished s', edited s') = fold edit_char cs (finished s1, edited s1)" by auto
  with s1 Cons.prems(2) show ?case by simp
qed simp

lemma plain_edit:
  assumes "plain c" "length E < 127"
  shows "edit_char c ([], E) = ([], E @ [word_of_int c])"
  using assms byte_eq_iff [of c] by (auto simp: edit_char_def plain_def Let_def)

lemma plain_edits:
  assumes "\<forall>c\<in>set cs. plain c" "length E + length cs < 128"
  shows "fold edit_char cs ([], E) = ([], E @ map word_of_int cs)"
  using assms
proof (induction cs arbitrary: E)
  case (Cons c cs)
  then show ?case using plain_edit [of c E] Cons.IH [of "E @ [word_of_int c]"] by simp
qed simp

lemma read_plain:
  assumes "\<forall>c\<in>set bs. c \<noteq> 4 \<and> c \<noteq> 10" "int (length bs) < n"
  shows "read_line killed target n dst (bs @ [10]) = (Data (dst @ bs @ [10]), [])"
  using assms by (induction bs arbitrary: n dst) simp_all

text \<open>C27: On an idle console, typing up to 126 plain characters and return gives the next reader exactly these bytes and a
  line feed.\<close>

theorem typed_line_is_read:
  assumes "console_inv s" "finished s = []" "edited s = []" "\<forall>c\<in>set cs. plain c" "length cs < 127" "int (length cs) < n"
  shows "\<exists>s1 s2. consoleintr dump (cs @ [13]) s = Some s1 \<and>
    consoleread killed n s1 = (Data (map word_of_int cs @ [10]), s2) \<and> console_inv s2 \<and>
    finished s2 = [] \<and> edited s2 = []"
proof -
  have "\<forall>c\<in>set (cs @ [13]). 0 \<le> c \<and> c < 256" using assms(4) by (auto simp: plain_def)
  from consoleintr_edits [OF assms(1) this] obtain s1 where s1: "consoleintr dump (cs @ [13]) s = Some s1"
    "console_inv s1" "(finished s1, edited s1) = fold edit_char (cs @ [13]) ([], [])"
    using assms(2,3) by auto
  have "fold edit_char (cs @ [13]) ([], []) = (map word_of_int cs @ [10], [])"
    using plain_edits [of cs "[]"] assms(4,5) by (simp add: edit_char_def)
  with s1(3) have f: "finished s1 = map word_of_int cs @ [10]" "edited s1 = []" by simp_all
  obtain r s2 where r: "consoleread_loop killed n n [] s1 = (r, s2)" by fastforce
  have "\<forall>b\<in>set (map word_of_int cs :: u8 list). b \<noteq> 4 \<and> b \<noteq> 10"
    using assms(4) byte_eq_iff by (auto simp: plain_def)
  with read_plain [of "map word_of_int cs" n killed n "[]"] assms(6)
  have "read_line killed n n [] (finished s1) = (Data (map word_of_int cs @ [10]), [])"
    by (simp add: f)
  with consoleread_reads [OF s1(2) r] s1(1) r f(2) show ?thesis
    by (simp add: consoleread_def)
qed

definition idle :: console where
  "idle = \<lparr>ibuf = replicate 128 0, ir = 0xfffffffe, iw = 0xfffffffe, ie = 0xfffffffe,
     scr = \<lparr>crt = replicate 2000 0, cursor = 1900, uart = []\<rparr>, wakeups = 0\<rparr>"

lemma idle_ok: "console_inv idle" "finished idle = []" "edited idle = []"
  by (simp_all add: idle_def console_inv_def finished_def edited_def done_len_def all_len_def screen_ok_def)

theorem typed_line_is_read_witness:
  "\<exists>s1 s2. consoleintr [] [108, 115, 13] idle = Some s1 \<and> consoleread False 100 s1 = (Data [108, 115, 10], s2)"
  using typed_line_is_read [OF idle_ok, of "[108, 115]" 100 "[]" False] by (auto simp: plain_def)

theorem console_refines_editor_witness:
  "\<exists>s'. intr_char [] 108 idle = Some s' \<and> finished s' = [] \<and> edited s' = [108]"
  using console_refines_editor [OF idle_ok(1), of 108 "[]" True 0] by (auto simp: idle_ok edit_char_def)

theorem console_text_on_screen_witness:
  "\<exists>s'. consputs (replicate 100 65) (scr idle) = Some s' \<and> screen_ok s' \<and> crt s' ! (cursor s' - 100) = char_cell 65"
proof -
  have "screen_ok (scr idle)" using idle_ok(1) by (simp add: console_inv_def)
  from console_text_on_screen [OF this, of 0 "replicate 100 65"] show ?thesis
    by (auto simp: BACKSPACE_def) (metis add_0_right nth_replicate zero_less_numeral)
qed

end
