(* ===== verification/Spec2Isabelle.thy ===== *)
theory Spec2Isabelle
  imports Prelude ReqQueue WebServer MemAlloc MemFree MfsImage Pipe CStrings Spinlock Kalloc Ide Bio Proc ProcSys FsBlock FsInode FsFile FsDir SysSample VmSample ExecRun Lottery Shell Console
begin

text \<open>
  The programs of this repository are the projects of an operating-systems course: five copies of the xv6 kernel, each
  with a change (\<open>P1\<close> a system call, \<open>P2\<close> a lottery scheduler, \<open>P3\<close> a stack at the top of memory, \<open>P4\<close> kernel threads, \<open>P5\<close>
  checksummed files), and five user programs for Linux (sorting, a shell, a memory allocator, a web server, a
  log-structured file server).  This development models the kernel, the changes and the programs that have logic of their
  own, and proves what makes each of them correct.

  \<^bold>\<open>Conventions.\<close>  A record is a C structure or the global variables of a file, with the names of the source; an
  operation is a function from the state before to its result and the state after.  The result \<open>None\<close> of an option is the
  end of the machine or of defined behaviour (\<open>panic\<close>, a null pointer, an index outside an array); the code's own error
  values (\<open>-1\<close>, 0) are ordinary results.  Machine integers that may wrap around are words of their width, or mathematical integers
  with \<open>wrap32\<close> after an operation that may overflow an \<open>int\<close>; where neither is used the text says why the value stays small.  A call that has
  to sleep has an outcome for it and is entered again later.  A \<open>locale\<close> states a contract between components and is
  interpreted on the model of the component that keeps it.  \<open>Prelude\<close> holds what all theories share.

  \<^bold>\<open>The kernel, from below.\<close>
  \<^item> \<open>Spinlock\<close>: \<open>spinlock.c\<close>, cut into the pieces between which another CPU can run.  Any number of CPUs calls \<open>acquire\<close> and
    \<open>release\<close> in any order; holding a lock is exclusive, and the interrupt flag is saved and restored.
  \<^item> \<open>CStrings\<close>: \<open>string.c\<close> over a flat byte memory, loop by loop.
  \<^item> \<open>Kalloc\<close>: \<open>kalloc.c\<close>; the free list runs through the first words of the free pages.  The locale \<open>page_allocator\<close> is the
    contract: a page is free or allocated, never both, and no page is handed out twice.
  \<^item> \<open>Vm\<close>, \<open>VmMap\<close>, \<open>VmSpace\<close>, \<open>VmProc\<close>, \<open>VmRun\<close>, \<open>VmSample\<close>: \<open>vm.c\<close> of \<open>P5\<close> and the memory side of \<open>proc.c\<close>.  Page directories and
    tables are pages of the byte memory of \<open>Kalloc\<close>, walked and written as the code does.  \<open>VmMap\<close> and \<open>VmSpace\<close> give the
    abstraction, the partial map \<open>umem\<close> from user addresses to bytes, and what mapping and unmapping do to it; \<open>VmProc\<close> does
    the same for \<open>allocuvm\<close>, \<open>copyuvm\<close> and \<open>copyout\<close>; \<open>VmRun\<close> lets any number of processes grow, fork, write and exit, and
    shows that no step of one changes the memory of another and that \<open>fork\<close> copies it.
  \<^item> \<open>Exec\<close>, \<open>ExecLoad\<close>, \<open>ExecBuild\<close>, \<open>ExecRun\<close>: \<open>exec.c\<close> and \<open>loaduvm\<close> of \<open>P5\<close>, between the file system and the page tables.  \<open>Exec\<close> is
    the code, \<open>ExecLoad\<close> what the loading of segments keeps and makes, \<open>ExecBuild\<close> the stack and the whole image; the commit is a
    step of \<open>VmRun\<close>.  \<open>ExecRun\<close> shows that a well-formed program gets the memory its file describes, that a failed call changes
    and leaks nothing, and that a segment that wraps around overwrites the kernel.
  \<^item> \<open>Ide\<close> and \<open>Bio\<close>: \<open>ide.c\<close> with the command registers of the controller, and the buffer cache \<open>bio.c\<close> over it.  Requests are
    served in order of arrival, and through the cache every block reads as last written; both theorems are about a disk that
    reports no error, and \<open>bread_hides_error\<close> is what the code does when it reports one.  The locale \<open>block_cache\<close> is what
    the file system relies on; \<open>FsBlock\<close> therefore treats a device as a map from block numbers to blocks.
  \<^item> \<open>FsBlock\<close>, \<open>FsInode\<close>, \<open>FsFile\<close>, \<open>FsDir\<close>: \<open>fs.c\<close> of \<open>P5\<close> in the order of the file: blocks and the bitmap (locale
    \<open>block_allocator\<close>), the table of inodes and their references, contents with checksums, directories and paths.  Files refine
    lists of bytes, directories refine maps from names to inode numbers.
  \<^item> \<open>SysFile\<close>, \<open>SysOwn\<close>, \<open>SysInv\<close>, \<open>SysRun\<close>, \<open>SysType\<close>, \<open>SysSample\<close>: \<open>file.c\<close> and \<open>sysfile.c\<close> of \<open>P5\<close> over \<open>FsDir\<close> and \<open>Pipe\<close>.  Any process
    makes any call in any order.  \<open>SysOwn\<close> counts references call by call, \<open>SysInv\<close> is the invariant (the count of an open file
    is the number of descriptors that refer to it, every inode reference has an owner, a pipe lives as long as one end),
    \<open>SysType\<close> shows that no call panics on a descriptor.
  \<^item> \<open>Pipe\<close>: \<open>pipe.c\<close>; the ring of 512 bytes is a queue under any interleaving of readers and writers.
  \<^item> \<open>Proc\<close> and \<open>ProcSys\<close>: \<open>proc.c\<close> and \<open>sysproc.c\<close> of \<open>P4\<close>, \<open>clone\<close> and \<open>join\<close> included.  Memory, files and inodes are the fields of
    a record of operations that the theorems leave arbitrary.  \<open>ProcSys\<close> runs the table on any number of CPUs: process ids stay
    unique until the \<open>int\<close> that counts them overflows (\<open>kreach_low\<close>), parents exist, a process runs on one CPU, and a parent that sleeps in \<open>wait\<close> has no dead child.
  \<^item> \<open>Lottery\<close>: the scheduler of \<open>P2\<close>, its random numbers, \<open>settickets\<close>, \<open>getpinfo\<close> and the demotion at a timer interrupt.
    The generator is the minimal standard one and permutes its seeds, so the lottery is proportional over them.
  \<^item> \<open>Console\<close>: \<open>console.c\<close>; the input ring implements a line editor, output stays on the screen, numbers are printed right.

  \<^bold>\<open>The user programs.\<close>
  \<^item> \<open>Shell\<close>: the command parser of \<open>sh.c\<close>.  It returns on every line, and parsing inverts printing for the whole grammar.
  \<^item> \<open>MemAlloc\<close> and \<open>MemFree\<close>: \<open>P3/mem_allocator/mem.c\<close>; headers in a store of addresses, the three policies, splitting and
    coalescing.  The locale \<open>block_allocator\<close> is the promise to the client, for sizes that can be rounded up as an \<open>int\<close>: live blocks
    never overlap.
  \<^item> \<open>ReqQueue\<close> and \<open>WebServer\<close>: \<open>P4/web_server/server.c\<close>; the request queue as a heap (locale \<open>bounded_priority_queue\<close>), and the
    main thread and the workers as an interleaving relation over it.
  \<^item> \<open>Mfs\<close> and \<open>MfsImage\<close>: \<open>P5/linux/server.c\<close>; every request over an image file of bytes, and the image as a store of files.  What
    the code reads behind the end of \<open>chkpt.imap\<close> is an argument, \<open>oob\<close>.

  \<^bold>\<open>Bounds and fuel.\<close>  Loops are recursive functions with a measure.  The parser of the shell alone takes fuel: its
  recursive calls consume a character at every fourth call at least, and \<open>parsecmd_terminates\<close> shows that four times the
  length of the line plus four is enough.  Loops that may not end are partial functions in the option monad (\<open>strlen\<close>, the
  wait for the disk), with theorems that say when they return.

  \<^bold>\<open>What the proofs showed of the code.\<close>  Several theorems state what the code does against its intention: \<open>exec\<close> of a crafted
  file writes to kernel pages, the blocks of a checksummed file are not freed with it, an allocator policy faults on an empty
  free list, a scheduler divides by zero when the tickets add up to a multiple of 2 to the 32.

  \<^bold>\<open>Not modelled.\<close>  Assembly (\<open>swtch.S\<close>, \<open>trapasm.S\<close>, \<open>bootasm.S\<close>) and the drivers that only write registers of hardware the
  repository does not describe (\<open>lapic.c\<close>, \<open>ioapic.c\<close>, \<open>picirq.c\<close>, \<open>mp.c\<close>, \<open>uart.c\<close>, \<open>kbd.c\<close>, \<open>timer.c\<close>); \<open>main.c\<close> and
  \<open>bootmain.c\<close>, which call the initialisations once; \<open>trap.c\<close> beyond the timer; \<open>cprintf\<close>, \<open>panic\<close> and \<open>procdump\<close>, which only print;
  the fetching of system call arguments; the copies of the kernel in the other projects where they equal the
  modelled one; the HTTP and socket code of the web server and the UDP code of the file server, which pass data between
  library calls; the sorting programs and the Linux shell, which are calls to \<open>qsort\<close>, \<open>strtok\<close> and \<open>execvp\<close>; the test
  programs.  The calls of \<open>SysFile\<close> run one at a time, while the code can interleave two of them when one sleeps on the disk.
\<close>

end
